(* ===== verification/KPrelude.thy ===== *)
theory KPrelude imports Main "HOL-Library.Word" "HOL-Library.Monad_Syntax" begin

text \<open>
  The prelude of the development: the type abbreviations for C's integers and for byte
  memory, the little-endian 16- and 32-bit accessors the kernel gets from casting
  \<open>bp->data\<close> to a struct or to \<open>uint*\<close>, and the generic facts on loops, options and words
  that the component theories share.

  Conventions used everywhere: \<open>None\<close> of a step that changes state is \<open>panic(...)\<close>, which
  stops the kernel; an error return of the code (\<open>-1\<close> or a null pointer) is a value.  A
  C \<open>for(i = 0; i < n; i++)\<close> without early exit is a \<open>fold\<close> over \<open>[0..<n]\<close>.
\<close>

unbundle bit_operations_syntax

type_synonym byte = "8 word"
type_synonym u16 = "16 word"
type_synonym u32 = "32 word"
type_synonym u64 = "64 word"

text \<open>Byte-addressed storage: a disk block, a page or the memory a pointer ranges over.\<close>

type_synonym mem = "nat \<Rightarrow> byte"

named_theorems mem_simps "reading after writing, for byte memory"

section \<open>Little-endian accessors\<close>

definition rd16 :: "mem \<Rightarrow> nat \<Rightarrow> u16" where
  "rd16 b a = ucast (b a) OR push_bit 8 (ucast (b (a + 1)))"

definition wr16 :: "mem \<Rightarrow> nat \<Rightarrow> u16 \<Rightarrow> mem" where
  "wr16 b a v = b(a := ucast v, a + 1 := ucast (drop_bit 8 v))"

definition rd32 :: "mem \<Rightarrow> nat \<Rightarrow> u32" where
  "rd32 b a = ucast (b a) OR push_bit 8 (ucast (b (a + 1)))
     OR push_bit 16 (ucast (b (a + 2))) OR push_bit 24 (ucast (b (a + 3)))"

definition wr32 :: "mem \<Rightarrow> nat \<Rightarrow> u32 \<Rightarrow> mem" where
  "wr32 b a v = b(a := ucast v, a + 1 := ucast (drop_bit 8 v),
     a + 2 := ucast (drop_bit 16 v), a + 3 := ucast (drop_bit 24 v))"

lemma rd16_wr16 [mem_simps]: "rd16 (wr16 b a v) a = v"
  by (rule bit_word_eqI) (auto simp: rd16_def wr16_def bit_simps)

lemma rd32_wr32 [mem_simps]: "rd32 (wr32 b a v) a = v"
proof (rule bit_word_eqI)
  fix n assume "n < LENGTH(32)"
  then consider "n < 8" | "8 \<le> n" "n < 16" | "16 \<le> n" "n < 24" | "24 \<le> n" "n < 32"
    by force
  then show "bit (rd32 (wr32 b a v) a) n = bit v n"
    by cases (auto simp: rd32_def wr32_def bit_simps)
qed

lemma wr16_other: "x < a \<or> a + 2 \<le> x \<Longrightarrow> wr16 b a v x = b x"
  by (auto simp: wr16_def)

lemma wr32_other: "x < a \<or> a + 4 \<le> x \<Longrightarrow> wr32 b a v x = b x"
  by (auto simp: wr32_def)

lemma rd16_cong:
  assumes "\<And>i. i < 2 \<Longrightarrow> b (a + i) = b' (a + i)"
  shows "rd16 b a = rd16 b' a"
proof -
  have "b a = b' a" using assms[of 0] by simp
  moreover have "b (a + 1) = b' (a + 1)" by (rule assms) simp
  ultimately show ?thesis by (simp only: rd16_def)
qed

lemma rd32_cong:
  assumes "\<And>i. i < 4 \<Longrightarrow> b (a + i) = b' (a + i)"
  shows "rd32 b a = rd32 b' a"
proof -
  have "b a = b' a" using assms[of 0] by simp
  moreover have "b (a + 1) = b' (a + 1)" by (rule assms) simp
  moreover have "b (a + 2) = b' (a + 2)" by (rule assms) simp
  moreover have "b (a + 3) = b' (a + 3)" by (rule assms) simp
  ultimately show ?thesis by (simp only: rd32_def)
qed

lemma rd32_wr32_other [mem_simps]: "a + 4 \<le> c \<or> c + 4 \<le> a \<Longrightarrow> rd32 (wr32 b a v) c = rd32 b c"
  by (rule rd32_cong) (auto intro!: wr32_other)

lemma rd32_wr16_other [mem_simps]: "a + 2 \<le> c \<or> c + 4 \<le> a \<Longrightarrow> rd32 (wr16 b a v) c = rd32 b c"
  by (rule rd32_cong) (auto intro!: wr16_other)

lemma rd16_wr32_other [mem_simps]: "a + 4 \<le> c \<or> c + 2 \<le> a \<Longrightarrow> rd16 (wr32 b a v) c = rd16 b c"
  by (rule rd16_cong) (auto intro!: wr32_other)

lemma rd16_wr16_other [mem_simps]: "a + 2 \<le> c \<or> c + 2 \<le> a \<Longrightarrow> rd16 (wr16 b a v) c = rd16 b c"
  by (rule rd16_cong) (auto intro!: wr16_other)

section \<open>Loops over arrays\<close>

text \<open>The effect of a counted loop that writes one cell of an array at a time.\<close>

lemma fold_fun_upd_range:
  "fold (\<lambda>i m. m(d + i := f i)) [0..<n] m = (\<lambda>a. if d \<le> a \<and> a < d + n then f (a - d) else m a)"
proof (induction n)
  case 0
  show ?case by (rule ext) auto
next
  case (Suc n)
  have "fold (\<lambda>i m. m(d + i := f i)) [0..<Suc n] m =
      (fold (\<lambda>i m. m(d + i := f i)) [0..<n] m)(d + n := f n)"
    by simp
  also have "\<dots> = (\<lambda>a. if d \<le> a \<and> a < d + n then f (a - d) else m a)(d + n := f n)"
    by (simp only: Suc.IH)
  also have "\<dots> = (\<lambda>a. if d \<le> a \<and> a < d + Suc n then f (a - d) else m a)"
    by (rule ext) (auto simp: less_Suc_eq)
  finally show ?case .
qed

text \<open>A search loop that stops at the first element equal to \<open>b\<close>.\<close>

lemma takeWhile_neq_notin: "b \<notin> set xs \<Longrightarrow> takeWhile (\<lambda>x. x \<noteq> b) xs = xs"
  by (induction xs) auto

lemma takeWhile_neq_in: "b \<in> set xs \<Longrightarrow> length (takeWhile (\<lambda>x. x \<noteq> b) xs) < length xs"
  by (induction xs) auto

lemma takeWhile_neq_update:
  "b \<in> set xs \<Longrightarrow> xs[length (takeWhile (\<lambda>x. x \<noteq> b) xs) := b] = xs"
  by (induction xs) auto

text \<open>A loop whose body may panic.\<close>

fun fold_opt :: "('a \<Rightarrow> 's \<Rightarrow> 's option) \<Rightarrow> 'a list \<Rightarrow> 's \<Rightarrow> 's option" where
  "fold_opt f [] s = Some s"
| "fold_opt f (x # xs) s = Option.bind (f x s) (fold_opt f xs)"

lemma fold_opt_append: "fold_opt f (xs @ ys) s = Option.bind (fold_opt f xs s) (fold_opt f ys)"
  by (induction xs arbitrary: s) (auto split: Option.bind_splits)

lemma fold_opt_invariant:
  assumes "fold_opt f xs s = Some t" and "P s"
    and "\<And>x s s'. x \<in> set xs \<Longrightarrow> P s \<Longrightarrow> f x s = Some s' \<Longrightarrow> P s'"
  shows "P t"
  using assms
proof (induction xs arbitrary: s)
  case (Cons x xs)
  from Cons.prems(1) obtain s' where s': "f x s = Some s'" "fold_opt f xs s' = Some t"
    by (auto simp: Option.bind_eq_Some_conv)
  show ?case
    by (rule Cons.IH[OF s'(2)]) (use Cons.prems s'(1) in auto)
qed simp

lemma unat_of_nat_u32: "n < 2 ^ 32 \<Longrightarrow> unat (of_nat n :: u32) = n"
  by (simp add: unat_of_nat take_bit_nat_eq_self)

section \<open>C strings\<close>

text \<open>
  The C string that starts where the view \<open>p\<close> points, cut at \<open>n\<close> bytes: the bytes up to
  the first NUL, the NUL not included.
\<close>

definition cstrn :: "mem \<Rightarrow> nat \<Rightarrow> byte list" where
  "cstrn p n = takeWhile (\<lambda>c. c \<noteq> 0) (map p [0..<n])"

lemma cstrn_0 [simp]: "cstrn p 0 = []"
  by (simp add: cstrn_def)

lemma cstrn_Suc: "cstrn p (Suc n) = (if p 0 = 0 then [] else p 0 # cstrn (\<lambda>i. p (Suc i)) n)"
proof -
  have "map p [0..<Suc n] = p 0 # map (\<lambda>i. p (Suc i)) [0..<n]"
    by (rule nth_equalityI) (auto simp: nth_Cons' simp del: upt_Suc)
  then show ?thesis by (simp add: cstrn_def del: upt_Suc)
qed

lemma length_cstrn: "length (cstrn p n) \<le> n"
  unfolding cstrn_def using length_takeWhile_le[of _ "map p [0..<n]"] by simp

lemma nth_cstrn: "i < length (cstrn p n) \<Longrightarrow> cstrn p n ! i = p i"
  unfolding cstrn_def by (metis takeWhile_nth add_0 diff_zero length_map length_takeWhile_le
      length_upt less_le_trans nth_map nth_upt)

lemma cstrn_nonzero: "c \<in> set (cstrn p n) \<Longrightarrow> c \<noteq> 0"
  unfolding cstrn_def by (auto dest: set_takeWhileD)

lemma cstrn_cong: "(\<And>i. i < n \<Longrightarrow> p i = q i) \<Longrightarrow> cstrn p n = cstrn q n"
  unfolding cstrn_def by (metis (mono_tags, lifting) atLeastLessThan_iff map_eq_conv set_upt)

lemma cstrn_eqI:
  assumes "\<And>i. i < length c \<Longrightarrow> p i = c ! i" and "0 \<notin> set c" and "length c < n" and "p (length c) = 0"
  shows "cstrn p n = c"
  using assms
proof (induction c arbitrary: p n)
  case Nil
  then show ?case by (cases n) (auto simp: cstrn_Suc)
next
  case (Cons x c)
  then obtain n' where n: "n = Suc n'" by (cases n) auto
  have "p 0 = x" using Cons.prems(1)[of 0] by simp
  moreover have "cstrn (\<lambda>i. p (Suc i)) n' = c"
  proof (rule Cons.IH)
    fix i assume "i < length c"
    then show "p (Suc i) = c ! i" using Cons.prems(1)[of "Suc i"] by simp
  qed (use Cons.prems n in auto)
  ultimately show ?case using Cons.prems(2) by (auto simp: n cstrn_Suc)
qed

text \<open>A list of bytes read as a zero-padded array.\<close>

definition view :: "byte list \<Rightarrow> mem" where
  "view xs i = (if i < length xs then xs ! i else 0)"

lemma unat_up: "unat (ucast (w :: u32) :: u64) = unat w"
proof -
  have "unat w < 2 ^ 64" using unsigned_less[of w, where ?'a = nat] by simp
  then show ?thesis by (simp add: unsigned_ucast_eq take_bit_nat_eq_self)
qed

text \<open>Rounding down to a multiple of a power of two, as the code writes it.\<close>

lemma unat_and_not_mask: "unat (a AND NOT (mask n)) = unat a div 2 ^ n * 2 ^ n" for a :: "'a :: len word"
proof -
  have "a AND NOT (mask n) = push_bit n (drop_bit n a)"
    by (rule bit_word_eqI)
      (auto simp only: bit_and_iff bit_not_iff bit_mask_iff bit_push_bit_iff bit_drop_bit_eq comp_apply le_add_diff_inverse)
  moreover have "unat (push_bit n (drop_bit n a)) = unat a div 2 ^ n * 2 ^ n mod 2 ^ LENGTH('a)"
    by (subst unsigned_push_bit_eq, subst unat_drop_bit_eq) (simp only: take_bit_eq_mod push_bit_eq_mult drop_bit_eq_div)
  moreover have "unat a div 2 ^ n * 2 ^ n < 2 ^ LENGTH('a)"
    using unsigned_less[of a, where 'a = nat] div_times_less_eq_dividend[of "unat a" "2 ^ n"] by (rule le_less_trans[rotated])
  ultimately show ?thesis by simp
qed

end
