(* ===== verification/KParam.thy ===== *)
theory KParam imports KPrelude begin

text \<open>
  The compile-time parameters the kernel is built with: \<open>kernel/conf/arm64/param.h\<close> (the
  port this development follows), \<open>kernel/conf/conf.h\<close>, \<open>include/kernel/fs.h\<close> and
  \<open>include/kernel/stat.h\<close>.  They are abbreviations, so that arithmetic sees the numbers.
\<close>

section \<open>param.h, conf.h\<close>

abbreviation (input) NPROC :: nat where "NPROC \<equiv> 64"
abbreviation (input) NOFILE :: nat where "NOFILE \<equiv> 16"
abbreviation (input) NFILE :: nat where "NFILE \<equiv> 100"
abbreviation (input) NINODE :: nat where "NINODE \<equiv> 50"
abbreviation (input) NDEV :: nat where "NDEV \<equiv> 10"
abbreviation (input) ROOTDEV :: nat where "ROOTDEV \<equiv> 1"
abbreviation (input) MAXARG :: nat where "MAXARG \<equiv> 32"
abbreviation (input) MAXOPBLOCKS :: nat where "MAXOPBLOCKS \<equiv> 10"
abbreviation (input) LOGSIZE :: nat where "LOGSIZE \<equiv> 30"
abbreviation (input) NBUF :: nat where "NBUF \<equiv> 30"
abbreviation (input) FSSIZE :: nat where "FSSIZE \<equiv> 1500"
abbreviation (input) MAXPATH :: nat where "MAXPATH \<equiv> 128"
abbreviation (input) BSIZE :: nat where "BSIZE \<equiv> 1024"

section \<open>fs.h\<close>

abbreviation (input) ROOTINO :: nat where "ROOTINO \<equiv> 1"
abbreviation (input) FSMAGIC :: u32 where "FSMAGIC \<equiv> 0x10203040"
abbreviation (input) NDIRECT :: nat where "NDIRECT \<equiv> 58"
abbreviation (input) NINDIRECT :: nat where "NINDIRECT \<equiv> 256" \<comment> \<open>\<open>BSIZE / sizeof(uint)\<close>\<close>
abbreviation (input) MAXFILE :: nat where "MAXFILE \<equiv> 314" \<comment> \<open>\<open>NDIRECT + NINDIRECT\<close>\<close>
abbreviation (input) DINODE_SIZE :: nat where "DINODE_SIZE \<equiv> 256" \<comment> \<open>\<open>sizeof(struct dinode)\<close>\<close>
abbreviation (input) IPB :: nat where "IPB \<equiv> 4" \<comment> \<open>\<open>BSIZE / sizeof(struct dinode)\<close>\<close>
abbreviation (input) BPB :: nat where "BPB \<equiv> 8192" \<comment> \<open>\<open>BSIZE * 8\<close>\<close>
abbreviation (input) DIRSIZ :: nat where "DIRSIZ \<equiv> 14"
abbreviation (input) DIRENT_SIZE :: nat where "DIRENT_SIZE \<equiv> 16" \<comment> \<open>\<open>sizeof(struct dirent)\<close>\<close>

section \<open>stat.h\<close>

abbreviation (input) T_DIR :: u16 where "T_DIR \<equiv> 1"
abbreviation (input) T_FILE :: u16 where "T_FILE \<equiv> 2"
abbreviation (input) T_DEVICE :: u16 where "T_DEVICE \<equiv> 3"

section \<open>Sleeping\<close>

text \<open>
  What a piece of kernel code does up to the point where it would sleep: it goes on with a
  result, or it sleeps on a channel, to run the same test again when it is woken.
\<close>

datatype 'a wait_res = Sleeps | Proceeds 'a

end
