(* ===== verification/Log.thy ===== *)
theory Log imports KParam begin

text \<open>
  \<open>kernel/filesystems/log.c\<close>: the redo log that makes a group of file system calls atomic
  against a crash.

  The state holds the log's own variables (\<open>struct log\<close>), the disk, and the block contents
  \<open>bread\<close> returns (\<open>cache\<close>), with the pins \<open>bpin\<close> and \<open>bunpin\<close> put on a buffer.  Theory
  \<open>Bio\<close> models the buffer cache itself and shows that it provides this view.  \<open>hist\<close>
  is a ghost: every block written to the disk, in the order of the writes, which is what a
  crash can cut.  \<open>lh\<close> is the used part of \<open>log.lh.block\<close>, so \<open>log.lh.n\<close> is its length.
\<close>

section \<open>State\<close>

record logst =
  disk :: "nat \<Rightarrow> mem"
  cache :: "nat \<Rightarrow> mem"
  pin :: "nat \<Rightarrow> nat"
  hist :: "(nat \<times> mem) list"
  lstart :: nat
  lsize :: nat
  outstanding :: int
  committing :: bool
  ncommit :: nat
  lh :: "nat list"

section \<open>The buffer operations the log uses\<close>

definition bset :: "nat \<Rightarrow> mem \<Rightarrow> 'a logst_scheme \<Rightarrow> 'a logst_scheme" where
  "bset b v st = st\<lparr>cache := (cache st)(b := v)\<rparr>"

definition log_bwrite :: "nat \<Rightarrow> 'a logst_scheme \<Rightarrow> 'a logst_scheme" where
  "log_bwrite b st = st\<lparr>disk := (disk st)(b := cache st b), hist := hist st @ [(b, cache st b)]\<rparr>"

definition log_bpin :: "nat \<Rightarrow> 'a logst_scheme \<Rightarrow> 'a logst_scheme" where
  "log_bpin b st = st\<lparr>pin := (pin st)(b := pin st b + 1)\<rparr>"

definition log_bunpin :: "nat \<Rightarrow> 'a logst_scheme \<Rightarrow> 'a logst_scheme" where
  "log_bunpin b st = st\<lparr>pin := (pin st)(b := pin st b - 1)\<rparr>"

section \<open>The header block\<close>

text \<open>\<open>struct logheader\<close> in the bytes of its block: \<open>int n\<close>, then \<open>int block[LOGSIZE]\<close>.\<close>

definition hdr_put :: "nat list \<Rightarrow> mem \<Rightarrow> mem" where
  "hdr_put bs m = fold (\<lambda>i m. wr32 m (4 + 4 * i) (of_nat (bs ! i))) [0..<length bs]
     (wr32 m 0 (of_nat (length bs)))"

definition hdr_get :: "mem \<Rightarrow> nat list" where
  "hdr_get m = map (\<lambda>i. unat (rd32 m (4 + 4 * i))) [0..<nat (sint (rd32 m 0))]"

definition read_head :: "'a logst_scheme \<Rightarrow> 'a logst_scheme" where
  "read_head st = st\<lparr>lh := hdr_get (cache st (lstart st))\<rparr>"

definition write_head :: "'a logst_scheme \<Rightarrow> 'a logst_scheme" where
  "write_head st =
     (let b = lstart st in log_bwrite b (bset b (hdr_put (lh st) (cache st b)) st))"

section \<open>Commit and recovery\<close>

definition install_trans :: "bool \<Rightarrow> 'a logst_scheme \<Rightarrow> 'a logst_scheme" where
  "install_trans recovering st = fold (\<lambda>tail st.
       let d = lh st ! tail;
           st1 = log_bwrite d (bset d (cache st (lstart st + tail + 1)) st)
       in if recovering then st1 else log_bunpin d st1) [0..<length (lh st)] st"

definition write_log :: "'a logst_scheme \<Rightarrow> 'a logst_scheme" where
  "write_log st = fold (\<lambda>tail st.
       let t = lstart st + tail + 1 in log_bwrite t (bset t (cache st (lh st ! tail)) st))
     [0..<length (lh st)] st"

definition recover_from_log :: "'a logst_scheme \<Rightarrow> 'a logst_scheme" where
  "recover_from_log st = write_head ((install_trans True (read_head st))\<lparr>lh := []\<rparr>)"

definition initlog :: "nat \<Rightarrow> nat \<Rightarrow> 'a logst_scheme \<Rightarrow> 'a logst_scheme" where
  "initlog logstart nlog st = recover_from_log (st\<lparr>lstart := logstart, lsize := nlog\<rparr>)"

definition commit :: "'a logst_scheme \<Rightarrow> 'a logst_scheme" where
  "commit st =
     (if length (lh st) > 0
      then write_head ((install_trans False (write_head (write_log st)))\<lparr>lh := []\<rparr>)
      else st)"

section \<open>The calls that bracket a file system operation\<close>

definition begin_op :: "'a logst_scheme \<Rightarrow> 'a logst_scheme wait_res" where
  "begin_op st =
     (if committing st then Sleeps
      else if int (length (lh st)) + (outstanding st + 1) * int MAXOPBLOCKS > int LOGSIZE then Sleeps
      else Proceeds (st\<lparr>outstanding := outstanding st + 1\<rparr>))"

text \<open>
  \<open>end_op\<close> commits with \<open>log.lock\<close> released, but while \<open>committing\<close> is set no other call can
  change the log: \<open>begin_op\<close> and \<open>sys_sync\<close> sleep, and no operation is outstanding.
\<close>

definition end_op :: "'a logst_scheme \<Rightarrow> 'a logst_scheme option" where
  "end_op st =
     (let st1 = st\<lparr>outstanding := outstanding st - 1\<rparr> in
      if committing st1 then None
      else if outstanding st1 = 0 then
        let st2 = commit (st1\<lparr>committing := True\<rparr>)
        in Some (st2\<lparr>committing := False, ncommit := ncommit st2 + 1\<rparr>)
      else Some st1)"

text \<open>
  \<open>sys_sync\<close> fixes on entry the number of completed commits it will wait for, and sleeps
  until they have completed.
\<close>

definition sys_sync_enter :: "'a logst_scheme \<Rightarrow> nat" where
  "sys_sync_enter st =
     (if committing st \<or> outstanding st > 0 then ncommit st + 1 else ncommit st)"

definition sys_sync_wait :: "nat \<Rightarrow> 'a logst_scheme \<Rightarrow> unit wait_res" where
  "sys_sync_wait n st = (if ncommit st < n then Sleeps else Proceeds ())"

definition log_write :: "nat \<Rightarrow> 'a logst_scheme \<Rightarrow> 'a logst_scheme option" where
  "log_write b st =
     (if length (lh st) \<ge> LOGSIZE \<or> int (length (lh st)) \<ge> int (lsize st) - 1 then None
      else if outstanding st < 1 then None
      else let i = length (takeWhile (\<lambda>x. x \<noteq> b) (lh st))  \<comment> \<open>the absorption loop\<close>
           in if i = length (lh st) then Some (log_bpin b (st\<lparr>lh := lh st @ [b]\<rparr>))
              else Some (st\<lparr>lh := (lh st)[i := b]\<rparr>))"

section \<open>Crash\<close>

text \<open>
  A crash keeps the disk and loses everything else.  \<open>boot_state\<close> is the log's state when the
  kernel starts on a disk; \<open>recovered\<close> is the disk \<open>initlog\<close> leaves, \<open>recover_writes\<close> the
  block writes it makes on the way.
\<close>

definition boot_state :: "(nat \<Rightarrow> mem) \<Rightarrow> logst" where
  "boot_state d = \<lparr>disk = d, cache = d, pin = (\<lambda>_. 0), hist = [], lstart = 0, lsize = 0,
     outstanding = 0, committing = False, ncommit = 0, lh = []\<rparr>"

definition recovered :: "nat \<Rightarrow> nat \<Rightarrow> (nat \<Rightarrow> mem) \<Rightarrow> (nat \<Rightarrow> mem)" where
  "recovered ls n d = disk (initlog ls n (boot_state d))"

definition recover_writes :: "nat \<Rightarrow> nat \<Rightarrow> (nat \<Rightarrow> mem) \<Rightarrow> (nat \<times> mem) list" where
  "recover_writes ls n d = hist (initlog ls n (boot_state d))"

definition apply_writes :: "(nat \<times> mem) list \<Rightarrow> (nat \<Rightarrow> mem) \<Rightarrow> (nat \<Rightarrow> mem)" where
  "apply_writes ws d = fold (\<lambda>(b, v) d. d(b := v)) ws d"

section \<open>The effect of a sequence of block writes\<close>

definition do_writes :: "(nat \<times> mem) list \<Rightarrow> 'a logst_scheme \<Rightarrow> 'a logst_scheme" where
  "do_writes ws st = st\<lparr>disk := apply_writes ws (disk st), cache := apply_writes ws (cache st),
     hist := hist st @ ws\<rparr>"

named_theorems do_writes_simps "fields of a state after block writes"

lemma apply_writes_Nil [simp]: "apply_writes [] d = d"
  by (simp add: apply_writes_def)

lemma apply_writes_Cons: "apply_writes ((b, v) # ws) d = apply_writes ws (d(b := v))"
  by (simp add: apply_writes_def)

lemma apply_writes_append: "apply_writes (ws1 @ ws2) d = apply_writes ws2 (apply_writes ws1 d)"
  by (simp add: apply_writes_def)

lemma apply_writes_snoc: "apply_writes (ws @ [(b, v)]) d = (apply_writes ws d)(b := v)"
  by (simp add: apply_writes_append apply_writes_Cons)

lemma apply_writes_other: "b \<notin> fst ` set ws \<Longrightarrow> apply_writes ws d b = d b"
  by (induction ws rule: rev_induct) (auto simp: apply_writes_snoc)

lemma apply_writes_covered:
  "b \<in> fst ` set ws \<Longrightarrow> apply_writes ws d b = apply_writes ws d' b"
proof (induction ws rule: rev_induct)
  case (snoc x ws)
  obtain a v where x: "x = (a, v)" by force
  show ?case using snoc by (cases "b = a") (simp_all add: x apply_writes_snoc)
qed simp

lemma apply_writes_absorb:
  "fst ` set ws' \<subseteq> fst ` set ws \<Longrightarrow> apply_writes ws (apply_writes ws' d) = apply_writes ws d"
proof (rule ext)
  fix b assume sub: "fst ` set ws' \<subseteq> fst ` set ws"
  show "apply_writes ws (apply_writes ws' d) b = apply_writes ws d b"
  proof (cases "b \<in> fst ` set ws")
    case False
    then have "b \<notin> fst ` set ws'" using sub by blast
    with False show ?thesis by (simp add: apply_writes_other)
  qed (rule apply_writes_covered)
qed

lemma apply_writes_values:
  "apply_writes (map (\<lambda>b. (b, c b)) bs) d = (\<lambda>b. if b \<in> set bs then c b else d b)"
  by (induction bs rule: rev_induct) (auto simp: apply_writes_snoc fun_eq_iff)

lemma apply_writes_log:
  "apply_writes (map (\<lambda>t. (a + t, c t)) [0..<n]) d = (\<lambda>b. if a \<le> b \<and> b < a + n then c (b - a) else d b)"
  by (induction n) (auto simp: apply_writes_snoc fun_eq_iff)

lemma do_writes_fields [do_writes_simps]:
  "disk (do_writes ws st) = apply_writes ws (disk st)"
  "cache (do_writes ws st) = apply_writes ws (cache st)"
  "hist (do_writes ws st) = hist st @ ws"
  "lh (do_writes ws st) = lh st" "lstart (do_writes ws st) = lstart st"
  "lsize (do_writes ws st) = lsize st" "pin (do_writes ws st) = pin st"
  "outstanding (do_writes ws st) = outstanding st" "committing (do_writes ws st) = committing st"
  "ncommit (do_writes ws st) = ncommit st"
  by (simp_all add: do_writes_def)

lemma do_writes_Nil [simp]: "do_writes [] st = st"
  by (simp add: do_writes_def)

lemma do_writes_append: "do_writes ws2 (do_writes ws1 st) = do_writes (ws1 @ ws2) st"
  by (simp add: do_writes_def apply_writes_append)

lemma log_bwrite_bset: "log_bwrite b (bset b v st) = do_writes [(b, v)] st"
  by (simp add: log_bwrite_def bset_def do_writes_def apply_writes_Cons)

lemma write_head_writes:
  "write_head st = do_writes [(lstart st, hdr_put (lh st) (cache st (lstart st)))] st"
  by (simp add: write_head_def Let_def log_bwrite_bset)

text \<open>No logged block is in the log's own area.\<close>

definition log_area :: "nat \<Rightarrow> nat \<Rightarrow> nat set" where
  "log_area ls n = {ls ..< ls + n}"

definition blocks_ok :: "nat list \<Rightarrow> nat \<Rightarrow> nat \<Rightarrow> bool" where
  "blocks_ok bs ls n \<longleftrightarrow> set bs \<inter> log_area ls n = {} \<and> length bs < n"

lemma blocks_okD:
  assumes "blocks_ok bs ls n" and "t < length bs"
  shows "bs ! t < ls \<or> ls + n \<le> bs ! t" and "length bs < n"
proof -
  have "bs ! t \<notin> {ls ..< ls + n}"
    using assms(1) nth_mem[OF assms(2)] unfolding blocks_ok_def log_area_def by blast
  then show "bs ! t < ls \<or> ls + n \<le> bs ! t" by auto
  show "length bs < n" using assms by (simp add: blocks_ok_def)
qed

lemma write_log_writes:
  assumes "blocks_ok (lh st) (lstart st) (lsize st)"
  shows "write_log st =
    do_writes (map (\<lambda>t. (lstart st + 1 + t, cache st (lh st ! t))) [0..<length (lh st)]) st"
proof -
  have "m \<le> length (lh st) \<Longrightarrow> fold (\<lambda>tail st.
       let t = lstart st + tail + 1 in log_bwrite t (bset t (cache st (lh st ! tail)) st)) [0..<m] st
    = do_writes (map (\<lambda>t. (lstart st + 1 + t, cache st (lh st ! t))) [0..<m]) st" for m
  proof (induction m)
    case (Suc m)
    then have m: "m < length (lh st)" by simp
    let ?w = "map (\<lambda>t. (lstart st + 1 + t, cache st (lh st ! t))) [0..<m]"
    have "lh st ! m \<notin> fst ` set ?w" using blocks_okD[OF assms m] m by auto
    then have "cache (do_writes ?w st) (lh st ! m) = cache st (lh st ! m)"
      by (simp add: do_writes_simps apply_writes_other)
    then show ?case using Suc
      by (simp add: Let_def log_bwrite_bset do_writes_append do_writes_simps)
  qed simp
  from this[of "length (lh st)"] show ?thesis by (simp add: write_log_def)
qed

text \<open>Installing copies each log block to its home; unpinning touches only the pins.\<close>

lemma install_trans_writes:
  assumes "blocks_ok (lh st) (lstart st) (lsize st)"
  shows "\<exists>p. install_trans r st = (do_writes (map (\<lambda>t. (lh st ! t, cache st (lstart st + 1 + t)))
      [0..<length (lh st)]) st)\<lparr>pin := p\<rparr> \<and> (r \<longrightarrow> p = pin st)
      \<and> (distinct (lh st) \<and> \<not> r \<longrightarrow> p = (\<lambda>b. if b \<in> set (lh st) then pin st b - 1 else pin st b))"
proof -
  let ?f = "\<lambda>tail st. let d = lh st ! tail;
           st1 = log_bwrite d (bset d (cache st (lstart st + tail + 1)) st)
       in if r then st1 else log_bunpin d st1"
  let ?w = "\<lambda>m. map (\<lambda>t. (lh st ! t, cache st (lstart st + 1 + t))) [0..<m]"
  have "m \<le> length (lh st) \<Longrightarrow> \<exists>p. fold ?f [0..<m] st = (do_writes (?w m) st)\<lparr>pin := p\<rparr>
      \<and> (r \<longrightarrow> p = pin st)
      \<and> (distinct (lh st) \<and> \<not> r \<longrightarrow> p = (\<lambda>b. if b \<in> set (take m (lh st)) then pin st b - 1 else pin st b))" for m
  proof (induction m)
    case 0
    show ?case by (intro exI[of _ "pin st"]) simp
  next
    case (Suc m)
    then have m: "m < length (lh st)" by simp
    from Suc obtain p where p: "fold ?f [0..<m] st = (do_writes (?w m) st)\<lparr>pin := p\<rparr>"
      and p1: "r \<Longrightarrow> p = pin st"
      and p2: "distinct (lh st) \<and> \<not> r \<Longrightarrow> p = (\<lambda>b. if b \<in> set (take m (lh st)) then pin st b - 1 else pin st b)"
      by auto
    have "lh st ! t \<noteq> lstart st + 1 + m" if "t < m" for t
      using blocks_okD[OF assms, of t] that m by auto
    then have "lstart st + 1 + m \<notin> fst ` set (?w m)" by force
    then have c: "apply_writes (?w m) (cache st) (lstart st + 1 + m) = cache st (lstart st + 1 + m)"
      by (rule apply_writes_other)
    let ?p = "if r then p else p(lh st ! m := p (lh st ! m) - 1)"
    have "fold ?f [0..<Suc m] st = ?f m (fold ?f [0..<m] st)" by simp
    also have "\<dots> = ?f m ((do_writes (?w m) st)\<lparr>pin := p\<rparr>)" by (simp only: p)
    also have "\<dots> = (do_writes (?w (Suc m)) st)\<lparr>pin := ?p\<rparr>"
      using c by (simp add: Let_def log_bwrite_def bset_def log_bunpin_def do_writes_def apply_writes_snoc)
    finally have "fold ?f [0..<Suc m] st = (do_writes (?w (Suc m)) st)\<lparr>pin := ?p\<rparr>" .
    moreover have "distinct (lh st) \<and> \<not> r \<Longrightarrow>
        ?p = (\<lambda>b. if b \<in> set (take (Suc m) (lh st)) then pin st b - 1 else pin st b)"
    proof -
      assume h: "distinct (lh st) \<and> \<not> r"
      then have "lh st ! m \<notin> set (take m (lh st))"
        using m by (auto simp: in_set_conv_nth nth_eq_iff_index_eq)
      then show ?thesis using h p2[OF h] m by (simp add: take_Suc_conv_app_nth fun_eq_iff)
    qed
    ultimately show ?case using p1 by (intro exI[of _ ?p] conjI impI) (blast | simp)+
  qed
  from this[of "length (lh st)"] show ?thesis by (simp add: install_trans_def)
qed

section \<open>The header's encoding\<close>

lemma sint_of_nat_small: "n < 2 ^ 31 \<Longrightarrow> sint (of_nat n :: u32) = int n"
  by (simp add: signed_of_nat signed_take_bit_int_eq_self)

lemma hdr_put_n: "rd32 (hdr_put bs m) 0 = of_nat (length bs)"
proof -
  have "rd32 (fold (\<lambda>i m. wr32 m (4 + 4 * i) (c i)) [0..<k] m') 0 = rd32 m' 0" for k and c :: "nat \<Rightarrow> u32" and m'
    by (induction k) (simp_all add: mem_simps)
  then show ?thesis by (simp add: hdr_put_def mem_simps)
qed

lemma hdr_put_block: "i < length bs \<Longrightarrow> rd32 (hdr_put bs m) (4 + 4 * i) = of_nat (bs ! i)"
proof -
  have "i < k \<Longrightarrow> rd32 (fold (\<lambda>i m. wr32 m (4 + 4 * i) (c i)) [0..<k] m') (4 + 4 * i) = c i"
    for k and c :: "nat \<Rightarrow> u32" and m'
  proof (induction k)
    case (Suc k)
    show ?case
    proof (cases "i = k")
      case False
      with Suc.prems have i: "i < k" by simp
      have "rd32 (wr32 m'' (4 + 4 * k) (c k)) (4 + 4 * i) = rd32 m'' (4 + 4 * i)" for m''
        using i by (intro rd32_wr32_other) auto
      with i show ?thesis by (simp add: Suc.IH)
    qed (simp add: mem_simps)
  qed simp
  then show "i < length bs \<Longrightarrow> ?thesis" by (simp add: hdr_put_def)
qed

lemma header_encode:
  assumes "length bs \<le> LOGSIZE" and "set bs \<subseteq> {..<2 ^ 32}"
  shows "hdr_get (hdr_put bs m) = bs"
proof (rule nth_equalityI)
  have n: "nat (sint (rd32 (hdr_put bs m) 0)) = length bs"
    using assms(1) by (simp add: hdr_put_n sint_of_nat_small)
  show len: "length (hdr_get (hdr_put bs m)) = length bs" by (simp add: hdr_get_def n)
  fix i assume "i < length (hdr_get (hdr_put bs m))"
  then have i: "i < length bs" using len by simp
  then have "bs ! i < 2 ^ 32" using assms(2) nth_mem by blast
  then have "unat (of_nat (bs ! i) :: u32) = bs ! i"
    by (simp add: unat_of_nat take_bit_nat_eq_self)
  then show "hdr_get (hdr_put bs m) ! i = bs ! i"
    using i hdr_put_block[OF i, of m] by (simp add: hdr_get_def n)
qed

text \<open>
  the log header survives its trip through the disk block: \<open>read_head\<close> reads back the
  block list \<open>write_head\<close> wrote, whatever the block held before.
\<close>

theorem header_roundtrip:
  assumes "length bs \<le> LOGSIZE" and "set bs \<subseteq> {..<2 ^ 32}"
  shows "hdr_get (hdr_put bs m) = bs"
  by (rule header_encode[OF assms])

theorem header_roundtrip_witness: "hdr_get (hdr_put [45, 90, 31] (\<lambda>_. 7)) = [45, 90, 31]"
  by (rule header_roundtrip) auto

lemma hdr_get_put_Nil [simp]: "hdr_get (hdr_put [] m) = []"
  by (simp add: hdr_get_def hdr_put_n)

section \<open>Commit\<close>

text \<open>
  The state in which a commit starts: the logged blocks are home blocks, distinct and within
  the limits, no transaction is on disk, and every block that is not logged is clean.
\<close>

definition log_wf :: "'a logst_scheme \<Rightarrow> bool" where
  "log_wf st \<longleftrightarrow> blocks_ok (lh st) (lstart st) (lsize st) \<and> length (lh st) \<le> LOGSIZE
     \<and> set (lh st) \<subseteq> {..<2 ^ 32} \<and> distinct (lh st)
     \<and> hdr_get (disk st (lstart st)) = []
     \<and> (\<forall>b. b \<notin> set (lh st) \<and> b \<notin> log_area (lstart st) (lsize st) \<longrightarrow> cache st b = disk st b)"

text \<open>The block writes of a commit, in order: log blocks, header, home blocks, empty header.\<close>

definition commit_writes :: "'a logst_scheme \<Rightarrow> (nat \<times> mem) list" where
  "commit_writes st =
     (let h = hdr_put (lh st) (cache st (lstart st)) in
      map (\<lambda>t. (lstart st + 1 + t, cache st (lh st ! t))) [0..<length (lh st)]
      @ [(lstart st, h)] @ map (\<lambda>b. (b, cache st b)) (lh st) @ [(lstart st, hdr_put [] h)])"

lemma commit_steps:
  assumes "log_wf st" and ne: "lh st \<noteq> []"
  shows "commit st = (do_writes (commit_writes st) st)\<lparr>lh := [],
      pin := (\<lambda>b. if b \<in> set (lh st) then pin st b - 1 else pin st b)\<rparr>"
proof -
  from assms have ok: "blocks_ok (lh st) (lstart st) (lsize st)" and d: "distinct (lh st)"
    by (auto simp: log_wf_def)
  define n where "n = length (lh st)"
  define W1 where "W1 = map (\<lambda>t. (lstart st + 1 + t, cache st (lh st ! t))) [0..<n]"
  define h where "h = hdr_put (lh st) (cache st (lstart st))"
  define W3 where "W3 = map (\<lambda>b. (b, cache st b)) (lh st)"
  define s1 where "s1 = write_head (write_log st)"
  have "lstart st \<notin> fst ` set W1" by (auto simp: W1_def)
  moreover have "write_log st = do_writes W1 st"
    by (simp only: write_log_writes[OF ok] W1_def n_def)
  ultimately have s1: "s1 = do_writes (W1 @ [(lstart st, h)]) st"
    by (simp add: s1_def write_head_writes do_writes_append do_writes_simps apply_writes_other h_def)
  have c1: "cache s1 (lstart st + 1 + t) = cache st (lh st ! t)" if "t < n" for t
  proof -
    have "cache s1 (lstart st + 1 + t) = apply_writes W1 (cache st) (lstart st + 1 + t)"
      by (simp add: s1 do_writes_simps apply_writes_snoc)
    then show ?thesis unfolding W1_def apply_writes_log using that by simp
  qed
  have f1: "lh s1 = lh st" "lstart s1 = lstart st" "lsize s1 = lsize st" "pin s1 = pin st"
    by (simp_all add: s1 do_writes_simps)
  have w3: "map (\<lambda>t. (lh st ! t, cache s1 (lstart st + 1 + t))) [0..<length (lh st)] = W3"
    by (rule nth_equalityI) (use c1 in \<open>simp_all add: W3_def n_def\<close>)
  have ok1: "blocks_ok (lh s1) (lstart s1) (lsize s1)" using ok by (simp add: f1)
  obtain p where inst: "install_trans False s1 = (do_writes W3 s1)\<lparr>pin := p\<rparr>"
    and p: "p = (\<lambda>b. if b \<in> set (lh st) then pin st b - 1 else pin st b)"
    using install_trans_writes[OF ok1, of False] d unfolding f1 w3 by blast
  have "lstart st \<notin> fst ` set W3"
    using ok by (force simp: W3_def blocks_ok_def log_area_def)
  then have h1: "apply_writes W3 (cache s1) (lstart st) = h"
    by (simp add: apply_writes_other s1 do_writes_simps apply_writes_snoc)
  define s2 where "s2 = (do_writes W3 s1)\<lparr>pin := p, lh := []\<rparr>"
  have f2: "lstart s2 = lstart st" "lh s2 = []" "cache s2 (lstart st) = h"
    using h1 f1 by (simp_all add: s2_def do_writes_simps)
  have "commit st = write_head ((install_trans False s1)\<lparr>lh := []\<rparr>)"
    using ne by (simp add: commit_def s1_def)
  also have "\<dots> = write_head s2" by (simp only: inst) (simp add: s2_def)
  also have "\<dots> = do_writes [(lstart st, hdr_put [] h)] s2"
    by (simp add: write_head_writes f2)
  also have "\<dots> = (do_writes (W1 @ [(lstart st, h)] @ W3 @ [(lstart st, hdr_put [] h)]) st)\<lparr>lh := [], pin := p\<rparr>"
    by (simp add: s2_def s1 do_writes_def apply_writes_append apply_writes_Cons)
  finally show ?thesis
    by (simp add: p commit_writes_def Let_def W1_def W3_def h_def n_def)
qed

section \<open>Recovery\<close>

text \<open>The part of a disk outside the log: what the file system sees after recovery.\<close>

definition outside :: "nat \<Rightarrow> nat \<Rightarrow> (nat \<Rightarrow> mem) \<Rightarrow> (nat \<Rightarrow> mem)" where
  "outside ls n d = (\<lambda>b. if b \<in> log_area ls n then (\<lambda>_. 0) else d b)"

lemma initlog_writes:
  assumes "blocks_ok (hdr_get (d ls)) ls n"
  shows "recover_writes ls n d =
      map (\<lambda>t. (hdr_get (d ls) ! t, d (ls + 1 + t))) [0..<length (hdr_get (d ls))]
      @ [(ls, hdr_put [] (d ls))]"
    and "recovered ls n d = apply_writes (recover_writes ls n d) d"
proof -
  define s0 where "s0 = read_head ((boot_state d)\<lparr>lstart := ls, lsize := n\<rparr>)"
  have f0: "lh s0 = hdr_get (d ls)" "lstart s0 = ls" "lsize s0 = n" "cache s0 = d" "disk s0 = d" "hist s0 = []"
    by (simp_all add: s0_def read_head_def boot_state_def)
  define W where "W = map (\<lambda>t. (hdr_get (d ls) ! t, d (ls + 1 + t))) [0..<length (hdr_get (d ls))]"
  obtain p where inst: "install_trans True s0 = (do_writes W s0)\<lparr>pin := p\<rparr>"
    using install_trans_writes[of s0 True] assms unfolding f0 W_def by blast
  define bs where "bs = hdr_get (d ls)"
  have "bs ! t \<noteq> ls" if "t < length bs" for t
    using blocks_okD[OF assms, folded bs_def, OF that] that by auto
  moreover have "fst ` set W = (\<lambda>t. bs ! t) ` {..<length bs}"
    by (simp add: W_def image_image atLeast0LessThan flip: bs_def)
  ultimately have "ls \<notin> fst ` set W" by auto
  then have c: "apply_writes W d ls = d ls" by (rule apply_writes_other)
  define s2 where "s2 = (do_writes W s0)\<lparr>pin := p, lh := []\<rparr>"
  have f2: "lstart s2 = ls" "lh s2 = []" "cache s2 ls = d ls" "disk s2 = apply_writes W d" "hist s2 = W"
    using c by (simp_all add: s2_def do_writes_simps f0)
  have "initlog ls n (boot_state d) = write_head s2"
    by (simp add: initlog_def recover_from_log_def inst s2_def flip: s0_def)
  also have "\<dots> = do_writes [(ls, hdr_put [] (d ls))] s2"
    by (simp add: write_head_writes f2)
  finally have r: "initlog ls n (boot_state d) = do_writes [(ls, hdr_put [] (d ls))] s2" .
  show rw: "recover_writes ls n d = map (\<lambda>t. (hdr_get (d ls) ! t, d (ls + 1 + t))) [0..<length (hdr_get (d ls))]
      @ [(ls, hdr_put [] (d ls))]"
    by (simp add: recover_writes_def r do_writes_simps f2 W_def)
  show "recovered ls n d = apply_writes (recover_writes ls n d) d"
    unfolding rw by (simp add: recovered_def r do_writes_simps f2 apply_writes_append W_def)
qed

text \<open>
  A disk that recovers to \<open>target\<close>.  An interrupted recovery leaves such a disk again, which
  is why recovery may itself crash, any number of times.
\<close>

definition recovers_to :: "nat \<Rightarrow> nat \<Rightarrow> (nat \<Rightarrow> mem) \<Rightarrow> (nat \<Rightarrow> mem) \<Rightarrow> bool" where
  "recovers_to ls n target d \<longleftrightarrow>
     blocks_ok (hdr_get (d ls)) ls n \<and> outside ls n (recovered ls n d) = target"

lemma outside_cong: "(\<And>b. b \<notin> log_area ls n \<Longrightarrow> d b = d' b) \<Longrightarrow> outside ls n d = outside ls n d'"
  by (auto simp: outside_def fun_eq_iff)

lemma recovers_to_clean:
  assumes "hdr_get (d ls) = []" and "0 < n"
  shows "recovers_to ls n (outside ls n d) d"
proof -
  have ok: "blocks_ok (hdr_get (d ls)) ls n" using assms by (simp add: blocks_ok_def)
  have "recovered ls n d = apply_writes [(ls, hdr_put [] (d ls))] d"
    using initlog_writes[of d, OF ok] assms(1) by simp
  moreover have "ls \<in> log_area ls n" using assms(2) by (simp add: log_area_def)
  ultimately show ?thesis
    using ok by (auto simp: recovers_to_def apply_writes_Cons intro!: outside_cong)
qed

lemma recovers_to_interrupted:
  assumes "recovers_to ls n target d"
  shows "recovers_to ls n target (apply_writes (take j (recover_writes ls n d)) d)"
proof -
  define bs where "bs = hdr_get (d ls)"
  define W where "W = map (\<lambda>t. (bs ! t, d (ls + 1 + t))) [0..<length bs]"
  define d1 where "d1 = apply_writes (take j (recover_writes ls n d)) d"
  from assms have ok: "blocks_ok bs ls n" and tgt: "outside ls n (recovered ls n d) = target"
    by (auto simp: recovers_to_def bs_def)
  note init = initlog_writes[of d ls n, folded bs_def, OF ok, folded W_def]
  have notarea: "b \<notin> log_area ls n" if "b \<in> fst ` set W" for b
    using that ok nth_mem by (force simp: W_def blocks_ok_def)
  have area: "apply_writes (take k W) d b = d b" if "b \<in> log_area ls n" for b k
    using notarea that by (intro apply_writes_other) (meson image_mono set_take_subset subsetD)
  have ls: "ls \<in> log_area ls n" and lt: "\<And>t. t < length bs \<Longrightarrow> ls + 1 + t \<in> log_area ls n"
    using ok by (auto simp: blocks_ok_def log_area_def)
  show ?thesis
  proof (cases "j \<le> length W")
    case True
    have d1: "d1 = apply_writes (take j W) d" using True by (simp add: d1_def init(1))
    have hd: "hdr_get (d1 ls) = bs" by (simp add: d1 area ls bs_def)
    note init1 = initlog_writes[of d1 ls n, unfolded hd, OF ok]
    have same: "map (\<lambda>t. (bs ! t, d1 (ls + 1 + t))) [0..<length bs] = W"
      using area lt by (auto simp: W_def d1)
    have hd0: "d1 ls = d ls" by (simp add: d1 area ls)
    have "recovered ls n d1 = apply_writes [(ls, hdr_put [] (d ls))] (apply_writes W d1)"
      using init1 same by (simp add: apply_writes_append hd0)
    also have "apply_writes W d1 = apply_writes W d"
      unfolding d1 by (rule apply_writes_absorb) (meson image_mono set_take_subset)
    also have "apply_writes [(ls, hdr_put [] (d ls))] (apply_writes W d) = recovered ls n d"
      using init by (simp add: apply_writes_append)
    finally show ?thesis using ok tgt hd by (simp add: recovers_to_def flip: d1_def)
  next
    case False
    then have "d1 = recovered ls n d" by (simp add: d1_def init)
    moreover have "hdr_get (recovered ls n d ls) = []" by (simp add: init apply_writes_snoc)
    ultimately show ?thesis
      using recovers_to_clean[of d1 ls n] ok tgt by (simp add: blocks_ok_def flip: d1_def)
  qed
qed

text \<open>Any number of boots whose recovery was cut short by another crash.\<close>

inductive crash_boots :: "nat \<Rightarrow> nat \<Rightarrow> (nat \<Rightarrow> mem) \<Rightarrow> (nat \<Rightarrow> mem) \<Rightarrow> bool" for ls n d where
  first: "crash_boots ls n d d"
| again: "crash_boots ls n d d1 \<Longrightarrow>
    crash_boots ls n d (apply_writes (take j (recover_writes ls n d1)) d1)"

lemma crash_boots_recovers_to:
  "crash_boots ls n d d' \<Longrightarrow> recovers_to ls n target d \<Longrightarrow> recovers_to ls n target d'"
  by (induction rule: crash_boots.induct) (auto intro: recovers_to_interrupted)

lemma log_wf_header: "log_wf st \<Longrightarrow> hdr_get (hdr_put (lh st) m) = lh st"
  by (rule header_encode) (auto simp: log_wf_def)

lemma log_wf_area:
  assumes "log_wf st"
  shows "lstart st \<in> log_area (lstart st) (lsize st)"
    and "t < length (lh st) \<Longrightarrow> lstart st + 1 + t \<in> log_area (lstart st) (lsize st)"
    and "b \<in> set (lh st) \<Longrightarrow> b \<notin> log_area (lstart st) (lsize st)"
  using assms by (auto simp: log_wf_def blocks_ok_def log_area_def)

lemma install_outside:
  assumes "log_wf st" and "\<And>b. b \<notin> log_area (lstart st) (lsize st) \<Longrightarrow> b \<notin> set (lh st) \<Longrightarrow> d b = disk st b"
  shows "outside (lstart st) (lsize st) (apply_writes (map (\<lambda>b. (b, cache st b)) (lh st)) d)
       = outside (lstart st) (lsize st) (cache st)"
  using assms by (intro outside_cong) (auto simp: apply_writes_values log_wf_def)

text \<open>The three stages of a commit a crash can fall into.\<close>

lemma commit_cut:
  assumes wf: "log_wf st" and ne: "lh st \<noteq> []"
  shows "recovers_to (lstart st) (lsize st)
      (outside (lstart st) (lsize st) (if k \<le> length (lh st) then disk st else cache st))
      (apply_writes (take k (commit_writes st)) (disk st))"
proof -
  let ?ls = "lstart st" and ?n = "lsize st"
  define W1 where "W1 = map (\<lambda>t. (?ls + 1 + t, cache st (lh st ! t))) [0..<length (lh st)]"
  define h where "h = hdr_put (lh st) (cache st ?ls)"
  define W3 where "W3 = map (\<lambda>b. (b, cache st b)) (lh st)"
  have cw: "commit_writes st = W1 @ [(?ls, h)] @ W3 @ [(?ls, hdr_put [] h)]"
    by (simp add: commit_writes_def Let_def W1_def W3_def h_def)
  have len: "length W1 = length (lh st)" "length W3 = length (lh st)" by (simp_all add: W1_def W3_def)
  have n0: "0 < ?n" and ok: "blocks_ok (lh st) ?ls ?n" using wf by (auto simp: log_wf_def blocks_ok_def)
  have fstW3: "fst ` set W3 = set (lh st)" by (simp add: W3_def image_image)
  have area1: "b \<in> log_area ?ls ?n" if "b \<in> fst ` set W1" for b
    using that log_wf_area(2)[OF wf] by (auto simp: W1_def)
  have ls_W3: "?ls \<notin> fst ` set (take j W3)" for j
    using log_wf_area(1,3)[OF wf] fstW3 set_take_subset[of j W3] by blast
  have W1d: "apply_writes W1 d b = d b" if "b \<notin> log_area ?ls ?n" for b d
    using that area1 by (intro apply_writes_other) blast
  define d1 where "d1 = (apply_writes W1 (disk st))(?ls := h)"
  have d1_home: "d1 b = disk st b" if "b \<notin> log_area ?ls ?n" for b
    using that W1d log_wf_area(1)[OF wf] by (auto simp: d1_def)
  consider "k \<le> length (lh st)" | "length (lh st) < k" "k \<le> 2 * length (lh st) + 1"
    | "2 * length (lh st) + 1 < k" by linarith
  then show ?thesis
  proof cases
    case 1
    define d where "d = apply_writes (take k W1) (disk st)"
    have sub: "fst ` set (take k W1) \<subseteq> fst ` set W1" by (simp add: image_mono set_take_subset)
    have "?ls \<notin> fst ` set W1" by (auto simp: W1_def)
    then have "?ls \<notin> fst ` set (take k W1)" using sub by blast
    then have "d ?ls = disk st ?ls" by (simp add: d_def apply_writes_other)
    then have "hdr_get (d ?ls) = []" using wf by (simp add: log_wf_def)
    moreover have "outside ?ls ?n d = outside ?ls ?n (disk st)"
      unfolding d_def using sub area1 by (intro outside_cong apply_writes_other) blast
    ultimately show ?thesis
      using recovers_to_clean[of d ?ls ?n] n0 1 by (simp add: cw len d_def)
  next
    case 2
    define j where "j = k - length (lh st) - 1"
    define d where "d = apply_writes (take j W3) d1"
    have tk: "apply_writes (take k (commit_writes st)) (disk st) = d"
      using 2 by (simp add: cw len d_def d1_def j_def apply_writes_append apply_writes_Cons take_Cons' flip: d1_def)
    have hd: "hdr_get (d ?ls) = lh st"
      using ls_W3 log_wf_header[OF wf] by (simp add: d_def apply_writes_other d1_def h_def)
    have lt: "d (?ls + 1 + t) = cache st (lh st ! t)" if "t < length (lh st)" for t
    proof -
      have "?ls + 1 + t \<notin> fst ` set (take j W3)"
        using log_wf_area(2,3)[OF wf] that fstW3 set_take_subset[of j W3] by blast
      then have "d (?ls + 1 + t) = apply_writes W1 (disk st) (?ls + 1 + t)"
        by (simp add: d_def apply_writes_other d1_def)
      then show ?thesis unfolding W1_def apply_writes_log using that by simp
    qed
    note init = initlog_writes[of d ?ls ?n, unfolded hd, OF ok]
    have "map (\<lambda>t. (lh st ! t, d (?ls + 1 + t))) [0..<length (lh st)] = W3"
      by (rule nth_equalityI) (use lt in \<open>simp_all add: W3_def\<close>)
    then have "recovered ?ls ?n d = (apply_writes W3 d)(?ls := hdr_put [] (d ?ls))"
      using init by (simp add: apply_writes_snoc)
    also have "apply_writes W3 d = apply_writes W3 d1"
      unfolding d_def by (rule apply_writes_absorb) (simp add: image_mono set_take_subset)
    finally have "outside ?ls ?n (recovered ?ls ?n d) = outside ?ls ?n (apply_writes W3 d1)"
      using log_wf_area(1)[OF wf] by (intro outside_cong) auto
    also have "\<dots> = outside ?ls ?n (cache st)"
      unfolding W3_def using install_outside[OF wf] d1_home by blast
    finally show ?thesis using ok hd 2 by (simp add: recovers_to_def tk)
  next
    case 3
    have tk: "apply_writes (take k (commit_writes st)) (disk st)
        = (apply_writes W3 d1)(?ls := hdr_put [] h)"
      using 3 by (simp add: cw len d1_def apply_writes_append apply_writes_Cons)
    have "outside ?ls ?n ((apply_writes W3 d1)(?ls := hdr_put [] h)) = outside ?ls ?n (apply_writes W3 d1)"
      using log_wf_area(1)[OF wf] by (intro outside_cong) auto
    also have "\<dots> = outside ?ls ?n (cache st)"
      unfolding W3_def using install_outside[OF wf] d1_home by blast
    finally show ?thesis
      using recovers_to_clean[of "(apply_writes W3 d1)(?ls := hdr_put [] h)" ?ls ?n] n0 3
      by (simp add: tk)
  qed
qed

text \<open>
  C1: a commit is atomic against crashes.  Cut the disk writes of a commit after any number
  \<open>k\<close> of them, let any number of boots crash in the middle of their own recovery, and
  recover: the file system part of the disk is exactly the one before the transaction if
  the cut came before the header write, and exactly the one with all the transaction's
  blocks if it came after.
\<close>

theorem commit_crash_atomic:
  assumes "log_wf st" and "lh st \<noteq> []"
    and "crash_boots (lstart st) (lsize st)
      (apply_writes (take k (drop (length (hist st)) (hist (commit st)))) (disk st)) d"
  shows "outside (lstart st) (lsize st) (recovered (lstart st) (lsize st) d)
    = outside (lstart st) (lsize st) (if k \<le> length (lh st) then disk st else cache st)"
proof -
  have "drop (length (hist st)) (hist (commit st)) = commit_writes st"
    by (simp add: commit_steps[OF assms(1,2)] do_writes_simps)
  with assms(3) crash_boots_recovers_to commit_cut[OF assms(1,2)] show ?thesis
    unfolding recovers_to_def by metis
qed

text \<open>A transaction of one block, in the layout mkfs produces.\<close>

definition demo_log :: logst where
  "demo_log = \<lparr>disk = (\<lambda>_ _. 0), cache = (\<lambda>b. if b = 45 then (\<lambda>_. 7) else (\<lambda>_. 0)),
     pin = (\<lambda>b. if b = 45 then 1 else 0), hist = [], lstart = 2, lsize = 31, outstanding = 0,
     committing = True, ncommit = 0, lh = [45]\<rparr>"

lemma demo_log_wf: "log_wf demo_log"
  by (simp add: log_wf_def demo_log_def blocks_ok_def log_area_def hdr_get_def rd32_def)

theorem commit_crash_atomic_witness:
  "outside 2 31 (recovered 2 31
     (apply_writes (take 2 (drop 0 (hist (commit demo_log)))) (\<lambda>_ _. 0)))
   = outside 2 31 (\<lambda>b. if b = 45 then (\<lambda>_. 7) else (\<lambda>_. 0))"
proof -
  have ne: "lh demo_log \<noteq> []" by (simp add: demo_log_def)
  have k: "\<not> 2 \<le> length (lh demo_log)" by (simp add: demo_log_def)
  have f: "lstart demo_log = 2" "lsize demo_log = 31" "hist demo_log = []"
    "disk demo_log = (\<lambda>_ _. 0)" "cache demo_log = (\<lambda>b. if b = 45 then (\<lambda>_. 7) else (\<lambda>_. 0))"
    by (simp_all add: demo_log_def)
  show ?thesis
    using commit_crash_atomic[OF demo_log_wf ne crash_boots.first, of 2] k
    unfolding f by (simp only: list.size if_False)
qed

text \<open>After an uninterrupted commit the home disk is the cache and the log is empty again.\<close>

lemma commit_log_wf:
  assumes "log_wf st"
  shows "log_wf (commit st)"
    and "outside (lstart st) (lsize st) (disk (commit st)) = outside (lstart st) (lsize st) (cache st)"
    and "lh (commit st) = []"
    and "outside (lstart st) (lsize st) (cache (commit st)) = outside (lstart st) (lsize st) (cache st)"
proof -
  let ?ls = "lstart st" and ?n = "lsize st"
  have all: "log_wf (commit st) \<and> outside ?ls ?n (disk (commit st)) = outside ?ls ?n (cache st)
      \<and> lh (commit st) = [] \<and> outside ?ls ?n (cache (commit st)) = outside ?ls ?n (cache st)"
  proof (cases "lh st = []")
    case True
    then show ?thesis using assms by (auto simp: commit_def log_wf_def intro!: outside_cong)
  next
    case False
    note cs = commit_steps[OF assms False]
    define W where "W = commit_writes st"
    have f: "disk (commit st) = apply_writes W (disk st)" "cache (commit st) = apply_writes W (cache st)"
      "lh (commit st) = []" "lstart (commit st) = ?ls" "lsize (commit st) = ?n"
      by (simp_all add: cs do_writes_simps W_def)
    have hd: "hdr_get (disk (commit st) ?ls) = []"
      by (simp add: f W_def commit_writes_def Let_def apply_writes_append apply_writes_Cons)
    have in_W: "b \<in> fst ` set W \<longleftrightarrow> b \<in> set (lh st)" if "b \<notin> log_area ?ls ?n" for b
      using that log_wf_area[OF assms] by (force simp: W_def commit_writes_def Let_def)
    have eq: "apply_writes W (disk st) b = apply_writes W (cache st) b" if "b \<notin> log_area ?ls ?n" for b
      using that in_W assms apply_writes_covered[of b W] apply_writes_other[of b W]
      by (cases "b \<in> set (lh st)") (auto simp: log_wf_def)
    have vals: "apply_writes W (cache st) b = cache st b" if b: "b \<notin> log_area ?ls ?n" for b
    proof -
      have "b \<noteq> ?ls" using b log_wf_area(1)[OF assms] by auto
      moreover have "apply_writes (map (\<lambda>t. (?ls + 1 + t, cache st (lh st ! t))) [0..<length (lh st)])
          (cache st) b = cache st b"
        by (rule apply_writes_other) (use b log_wf_area(2)[OF assms] in auto)
      ultimately show ?thesis
        by (simp add: W_def commit_writes_def Let_def apply_writes_append apply_writes_Cons
            apply_writes_values del: One_nat_def)
    qed
    have "log_wf (commit st)"
      using assms hd eq unfolding log_wf_def f by (auto simp: blocks_ok_def)
    moreover have "outside ?ls ?n (disk (commit st)) = outside ?ls ?n (cache st)"
      unfolding f by (rule outside_cong) (simp add: eq vals)
    moreover have "outside ?ls ?n (cache (commit st)) = outside ?ls ?n (cache st)"
      unfolding f by (rule outside_cong) (simp add: vals)
    ultimately show ?thesis by (simp add: f)
  qed
  then show "log_wf (commit st)"
    and "outside ?ls ?n (disk (commit st)) = outside ?ls ?n (cache st)"
    and "lh (commit st) = []"
    and "outside ?ls ?n (cache (commit st)) = outside ?ls ?n (cache st)" by blast+
qed

text \<open>
  when the last outstanding operation ends, every block the file system has changed is on
  disk at its home address, the log is empty and unpinned, and the next transaction can start.
\<close>

theorem end_op_durable:
  assumes "log_wf st" and "outstanding st = 1" and "\<not> committing st"
    and "pin st = (\<lambda>b. if b \<in> set (lh st) then 1 else 0)"
  shows "\<exists>st'. end_op st = Some st' \<and> log_wf st' \<and> lh st' = [] \<and> pin st' = (\<lambda>_. 0)
    \<and> outside (lstart st) (lsize st) (disk st') = outside (lstart st) (lsize st) (cache st)
    \<and> ncommit st' = ncommit st + 1"
proof -
  define s1 where "s1 = st\<lparr>outstanding := 0, committing := True\<rparr>"
  have f: "lh s1 = lh st" "lstart s1 = lstart st" "lsize s1 = lsize st" "cache s1 = cache st"
    "pin s1 = pin st" "ncommit s1 = ncommit st" by (simp_all add: s1_def)
  have wf: "log_wf s1" using assms(1) by (simp add: s1_def log_wf_def)
  have "pin (commit s1) = (\<lambda>_. 0) \<and> ncommit (commit s1) = ncommit st"
  proof (cases "lh s1 = []")
    case True
    then show ?thesis using assms(4) by (simp add: commit_def f)
  next
    case False
    then show ?thesis using assms(4) by (auto simp: commit_steps[OF wf] do_writes_simps f)
  qed
  moreover have "end_op st = Some ((commit s1)\<lparr>committing := False, ncommit := ncommit (commit s1) + 1\<rparr>)"
    using assms(2,3) by (simp add: end_op_def Let_def s1_def)
  ultimately show ?thesis
    using commit_log_wf[OF wf] by (simp add: f log_wf_def)
qed

theorem end_op_durable_witness:
  "\<exists>st'. end_op (demo_log\<lparr>outstanding := 1, committing := False\<rparr>) = Some st'
     \<and> outside 2 31 (disk st') = outside 2 31 (cache demo_log)"
proof -
  let ?s = "demo_log\<lparr>outstanding := 1, committing := False\<rparr>"
  have "log_wf ?s" using demo_log_wf by (simp add: log_wf_def)
  from end_op_durable[OF this] show ?thesis by (auto simp: demo_log_def fun_eq_iff)
qed

section \<open>Admission: how many operations may be in one transaction\<close>

text \<open>
  Concurrent operations as steps over the log and the number of blocks each outstanding
  operation has added so far.  An operation keeps the code's contract: it adds at most
  \<open>MAXOPBLOCKS\<close> blocks to the log.  The steps are the calls that return; \<open>op_may_write\<close> says
  which calls of \<open>log_write\<close> the contract allows, whether they return or panic.
\<close>

inductive log_step :: "logst \<times> nat list \<Rightarrow> logst \<times> nat list \<Rightarrow> bool" where
  op_begin: "begin_op st = Proceeds st' \<Longrightarrow> log_step (st, us) (st', us @ [0])"
| op_absorb: "i < length us \<Longrightarrow> b \<in> set (lh st) \<Longrightarrow> log_write b st = Some st' \<Longrightarrow>
    log_step (st, us) (st', us)"
| op_write: "i < length us \<Longrightarrow> us ! i < MAXOPBLOCKS \<Longrightarrow> b \<notin> set (lh st) \<Longrightarrow>
    log_write b st = Some st' \<Longrightarrow> log_step (st, us) (st', us[i := us ! i + 1])"
| op_end: "i < length us \<Longrightarrow> end_op st = Some st' \<Longrightarrow>
    log_step (st, us) (st', take i us @ drop (Suc i) us)"

inductive_cases log_stepE: "log_step (st, us) (st', us')"

definition op_may_write :: "logst \<times> nat list \<Rightarrow> nat \<Rightarrow> nat \<Rightarrow> bool" where
  "op_may_write s i b \<longleftrightarrow> (case s of (st, us) \<Rightarrow>
     i < length us \<and> (b \<in> set (lh st) \<or> us ! i < MAXOPBLOCKS))"

definition fresh_log :: "logst \<Rightarrow> bool" where
  "fresh_log st \<longleftrightarrow> outstanding st = 0 \<and> \<not> committing st \<and> lh st = []"

definition reserved :: "nat list \<Rightarrow> nat" where
  "reserved us = sum_list (map (\<lambda>u. MAXOPBLOCKS - u) us)"

definition admitted :: "nat \<Rightarrow> logst \<times> nat list \<Rightarrow> bool" where
  "admitted sz = (\<lambda>(st, us). outstanding st = int (length us) \<and> \<not> committing st \<and> lsize st = sz
     \<and> length (lh st) + reserved us \<le> LOGSIZE)"

lemma reserved_le: "reserved us \<le> length us * MAXOPBLOCKS"
  by (induction us) (auto simp: reserved_def)

lemma reserved_append: "reserved (us @ vs) = reserved us + reserved vs"
  by (simp add: reserved_def)

lemma reserved_split: "i < length us \<Longrightarrow>
    reserved us = reserved (take i us) + (MAXOPBLOCKS - us ! i) + reserved (drop (Suc i) us)"
  by (subst id_take_nth_drop[of i us]) (auto simp: reserved_def)

lemma reserved_write:
  "i < length us \<Longrightarrow> us ! i < MAXOPBLOCKS \<Longrightarrow> reserved (us[i := us ! i + 1]) + 1 = reserved us"
  using reserved_split[of i us] by (simp add: upd_conv_take_nth_drop reserved_append) (simp add: reserved_def)

lemma commit_keeps:
  "lh (commit st) = [] \<and> outstanding (commit st) = outstanding st \<and> lsize (commit st) = lsize st"
proof (cases "lh st = []")
  case True
  then show ?thesis by (simp add: commit_def)
next
  case False
  have wl: "outstanding (write_log st) = outstanding st \<and> lsize (write_log st) = lsize st" for st :: "'a logst_scheme"
    unfolding write_log_def
    by (rule fold_invariant[where Q = "\<lambda>_. True"]) (auto simp: Let_def log_bwrite_def bset_def)
  have it: "outstanding (install_trans r st) = outstanding st \<and> lsize (install_trans r st) = lsize st"
    for r and st :: "'a logst_scheme"
    unfolding install_trans_def
    by (rule fold_invariant[where Q = "\<lambda>_. True"]) (auto simp: Let_def log_bwrite_def bset_def log_bunpin_def)
  show ?thesis using False by (simp add: commit_def write_head_writes do_writes_simps wl it)
qed

lemma log_step_admitted:
  assumes "log_step s t" and "admitted sz s"
  shows "admitted sz t"
  using assms
proof (induction rule: log_step.induct)
  case (op_begin st st' us)
  then show ?case
    using reserved_le[of us] by (auto simp: admitted_def begin_op_def reserved_append split: if_splits) (simp add: reserved_def)
next
  case (op_absorb i us b st st')
  have "length (takeWhile (\<lambda>x. x \<noteq> b) (lh st)) < length (lh st)"
    using op_absorb.hyps(2) by (rule takeWhile_neq_in)
  with op_absorb show ?case by (auto simp: admitted_def log_write_def log_bpin_def Let_def split: if_splits)
next
  case (op_write i us b st st')
  have "length (takeWhile (\<lambda>x. x \<noteq> b) (lh st)) = length (lh st)"
    using op_write.hyps(3) by (simp add: takeWhile_neq_notin)
  with op_write show ?case
    using reserved_write[OF op_write.hyps(1,2)]
    by (auto simp: admitted_def log_write_def log_bpin_def Let_def split: if_splits)
next
  case (op_end i us st st')
  then show ?case
    using reserved_split[OF op_end.hyps(1)] commit_keeps[of "st\<lparr>outstanding := outstanding st - 1, committing := True\<rparr>"]
    by (auto simp: admitted_def end_op_def Let_def reserved_append reserved_def split: if_splits)
qed

lemma log_steps_admitted:
  assumes "log_step\<^sup>*\<^sup>* (st0, []) (st, us)" and "fresh_log st0"
  shows "admitted (lsize st0) (st, us)"
proof -
  have "admitted (lsize st0) (st0, [])" using assms(2) by (simp add: admitted_def fresh_log_def reserved_def)
  with assms(1) show ?thesis by (induction rule: rtranclp_induct) (auto intro: log_step_admitted)
qed

lemma budget_kept: "log_step\<^sup>*\<^sup>* s t \<Longrightarrow> \<forall>u \<in> set (snd s). u \<le> MAXOPBLOCKS \<Longrightarrow> \<forall>u \<in> set (snd t). u \<le> MAXOPBLOCKS"
proof (induction rule: rtranclp_induct)
  case (step y z)
  from step.hyps(2) step.IH[OF step.prems] show ?case
    by (induction rule: log_step.induct)
      (auto dest!: in_set_takeD in_set_dropD dest: set_update_subset_insert[THEN subsetD])
qed

text \<open>
  The states one transaction passes through when it fills up, in a log of \<open>sz\<close> blocks: three
  operations are admitted, and \<open>m\<close> blocks have been logged, the first ten by the first of them,
  and so on.
\<close>

definition fill_state :: "nat \<Rightarrow> nat \<Rightarrow> logst" where
  "fill_state sz m = (boot_state (\<lambda>_ _. 0))\<lparr>lstart := 2, lsize := sz, outstanding := 3,
     lh := [100..<100 + m], pin := (\<lambda>b. if 100 \<le> b \<and> b < 100 + m then 1 else 0)\<rparr>"

definition fill_ops :: "nat \<Rightarrow> nat list" where
  "fill_ops m = [min m 10, min (m - 10) 10, m - 20]"

lemma fill_step:
  assumes "m < LOGSIZE" and "m + 1 < sz"
  shows "log_step (fill_state sz m, fill_ops m) (fill_state sz (Suc m), fill_ops (Suc m))"
proof -
  define i :: nat where "i = (if m < 10 then 0 else if m < 20 then 1 else 2)"
  have i: "i < length (fill_ops m)" "fill_ops m ! i < MAXOPBLOCKS"
    "(fill_ops m)[i := fill_ops m ! i + 1] = fill_ops (Suc m)"
    using assms(1) by (auto simp: i_def fill_ops_def)
  have "length (takeWhile (\<lambda>x. x \<noteq> 100 + m) [100..<100 + m]) = m"
    by (subst takeWhile_neq_notin) auto
  moreover have "[100..<100 + m] @ [100 + m] = [100..<100 + Suc m]"
    using upt_Suc_append[of 100 "100 + m"] by simp
  ultimately have w: "log_write (100 + m) (fill_state sz m) = Some (fill_state sz (Suc m))"
    using assms unfolding log_write_def fill_state_def boot_state_def log_bpin_def Let_def
    by (auto simp: fun_eq_iff simp del: upt_Suc)
  have "100 + m \<notin> set (lh (fill_state sz m))" by (simp add: fill_state_def)
  from op_write[OF i(1,2) this w] show ?thesis unfolding i(3) .
qed

lemma fill_run:
  assumes "m \<le> LOGSIZE" and "m < sz"
  shows "log_step\<^sup>*\<^sup>* ((fill_state sz 0)\<lparr>outstanding := 0\<rparr>, []) (fill_state sz m, fill_ops m)"
  using assms
proof (induction m)
  case 0
  define st0 where "st0 = (fill_state sz 0)\<lparr>outstanding := 0\<rparr>"
  have "log_step (st0\<lparr>outstanding := int k\<rparr>, replicate k 0) (st0\<lparr>outstanding := int k + 1\<rparr>, replicate k 0 @ [0])"
    if "k < 3" for k
    using that by (intro op_begin) (auto simp: begin_op_def st0_def fill_state_def boot_state_def)
  from this[of 0] this[of 1] this[of 2]
  have "log_step\<^sup>*\<^sup>* (st0\<lparr>outstanding := 0\<rparr>, []) (st0\<lparr>outstanding := 3\<rparr>, [0, 0, 0])"
    by (auto simp: numeral_2_eq_2 numeral_3_eq_3 intro!: converse_rtranclp_into_rtranclp)
  then show ?case by (simp add: st0_def fill_state_def fill_ops_def boot_state_def)
next
  case (Suc m)
  then show ?case using fill_step[of m sz] by (auto intro: rtranclp.rtrancl_into_rtrancl)
qed

lemma fill_fresh: "fresh_log ((fill_state sz 0)\<lparr>outstanding := 0\<rparr>)"
  by (simp add: fresh_log_def fill_state_def boot_state_def)

text \<open>
  C9: when an admitted operation can overrun the log.  With more log blocks on disk than \<open>LOGSIZE\<close>,
  in every interleaving of operations that each add at most \<open>MAXOPBLOCKS\<close> blocks, a \<open>log_write\<close> that
  the contract allows panics exactly when the log is full and the block is one it already has;
  and then every operation under way has used up its reservation.  So a block that is new to the log
  always finds room, and as long as one operation has not added its \<open>MAXOPBLOCKS\<close> blocks no call panics.
\<close>

theorem log_write_admitted:
  assumes "log_step\<^sup>*\<^sup>* (st0, []) (st, us)" and "fresh_log st0" and "LOGSIZE < lsize st0"
    and "op_may_write (st, us) i b"
  shows "(log_write b st = None \<longleftrightarrow> b \<in> set (lh st) \<and> length (lh st) = LOGSIZE)
    \<and> (log_write b st = None \<longrightarrow> (\<forall>u \<in> set us. u = MAXOPBLOCKS))"
proof -
  have i: "i < length us" and b: "b \<in> set (lh st) \<or> us ! i < MAXOPBLOCKS"
    using assms(4) by (auto simp: op_may_write_def)
  have a: "admitted (lsize st0) (st, us)" by (rule log_steps_admitted[OF assms(1,2)])
  then have panics: "log_write b st = None \<longleftrightarrow> length (lh st) = LOGSIZE"
    using i assms(3) by (auto simp: admitted_def log_write_def Let_def)
  have full: "\<forall>u \<in> set us. u = MAXOPBLOCKS" if "length (lh st) = LOGSIZE"
  proof -
    have "reserved us = 0" using a that by (simp add: admitted_def)
    then have "\<forall>u \<in> set us. MAXOPBLOCKS \<le> u" by (simp add: reserved_def)
    moreover have "\<forall>u \<in> set us. u \<le> MAXOPBLOCKS" using budget_kept[OF assms(1)] by simp
    ultimately show ?thesis using le_antisym by blast
  qed
  then show ?thesis using panics b i nth_mem[OF i] by fastforce
qed

text \<open>
  The full log does occur, although every operation keeps the contract: three operations that
  have each added ten blocks leave no room, and the next time one of them writes one of its
  blocks again, which needs none, \<open>log_write\<close> panics because it tests for room first.
\<close>

lemma log_absorb_panics:
  "\<exists>st0 st us i b. fresh_log st0 \<and> LOGSIZE < lsize st0 \<and> log_step\<^sup>*\<^sup>* (st0, []) (st, us)
     \<and> op_may_write (st, us) i b \<and> b \<in> set (lh st) \<and> log_write b st = None"
proof -
  have "log_write 100 (fill_state 31 30) = None" "100 \<in> set (lh (fill_state 31 30))"
    by (simp_all add: log_write_def fill_state_def)
  moreover have "op_may_write (fill_state 31 30, fill_ops 30) 0 100"
    by (simp add: op_may_write_def fill_state_def fill_ops_def)
  moreover have "lsize ((fill_state 31 0)\<lparr>outstanding := 0\<rparr>) = 31" by (simp add: fill_state_def)
  ultimately show ?thesis using fill_run[of 30 31] fill_fresh[of 31] by fastforce
qed

theorem log_write_admitted_witness:
  "log_write 112 (fill_state 31 12) \<noteq> None \<and> log_write 100 (fill_state 31 30) = None
     \<and> fill_ops 30 = [10, 10, 10]"
proof -
  have r: "log_step\<^sup>*\<^sup>* ((fill_state 31 0)\<lparr>outstanding := 0\<rparr>, []) (fill_state 31 m, fill_ops m)" if "m \<le> 30" for m
    using that by (intro fill_run) simp_all
  have z: "LOGSIZE < lsize ((fill_state 31 0)\<lparr>outstanding := 0\<rparr>)" by (simp add: fill_state_def)
  have "op_may_write (fill_state 31 12, fill_ops 12) 1 112" "op_may_write (fill_state 31 30, fill_ops 30) 0 100"
    by (simp_all add: op_may_write_def fill_state_def fill_ops_def)
  from log_write_admitted[OF r fill_fresh z this(1)] log_write_admitted[OF r fill_fresh z this(2)]
  have "log_write 112 (fill_state 31 12) \<noteq> None" "log_write 100 (fill_state 31 30) = None"
    by (simp_all add: fill_state_def)
  then show ?thesis by (simp add: fill_ops_def)
qed

text \<open>
  C10: with exactly \<open>LOGSIZE\<close> log blocks on disk, the number \<open>tools/mkfs.c\<close> writes, one of them
  holds the header and the reservation is one block too generous: three operations that all
  keep to their contract reach a state in which \<open>log_write\<close> of the third one panics.
\<close>

theorem log_write_overcommitted:
  "\<exists>st0 st us i b. fresh_log st0 \<and> lsize st0 = LOGSIZE \<and> log_step\<^sup>*\<^sup>* (st0, []) (st, us)
     \<and> i < length us \<and> us ! i < MAXOPBLOCKS \<and> log_write b st = None"
proof -
  have "log_write 129 (fill_state 30 29) = None" by (simp add: log_write_def fill_state_def)
  moreover have "lsize ((fill_state 30 0)\<lparr>outstanding := 0\<rparr>) = LOGSIZE" by (simp add: fill_state_def)
  moreover have "2 < length (fill_ops 29) \<and> fill_ops 29 ! 2 < MAXOPBLOCKS" by (simp add: fill_ops_def)
  ultimately show ?thesis using fill_run[of 29 30] fill_fresh[of 30] by fastforce
qed

end
