(* ===== verification/BlockStore.thy ===== *)
theory BlockStore imports KParam begin

text \<open>
  The interface between the file system and the buffer cache: reading a block returns what the
  block holds, and reading changes what no block holds.  The file system's layers work on the
  content alone; theory \<open>Bio\<close> shows that the linked-list cache provides it, and theory
  \<open>FsDisk\<close> that the file system's own view of the cache does.
\<close>

locale block_store =
  fixes inv :: "'s \<Rightarrow> bool" and content :: "'s \<Rightarrow> nat \<Rightarrow> mem"
    and fetch :: "nat \<Rightarrow> 's \<Rightarrow> (mem \<times> 's) option"
  assumes fetch_content: "inv s \<Longrightarrow> fetch n s = Some (v, s') \<Longrightarrow>
    inv s' \<and> v = content s n \<and> (\<forall>m. content s' m = content s m)"
begin

fun fetch_all :: "nat list \<Rightarrow> 's \<Rightarrow> (mem list \<times> 's) option" where
  "fetch_all [] s = Some ([], s)"
| "fetch_all (n # ns) s =
     (case fetch n s of
        None \<Rightarrow> None
      | Some (v, s1) \<Rightarrow> (case fetch_all ns s1 of None \<Rightarrow> None | Some (vs, s2) \<Rightarrow> Some (v # vs, s2)))"

text \<open>A whole sequence of reads, in any order and with repetitions, sees one disk.\<close>

lemma fetch_all_content:
  "inv s \<Longrightarrow> fetch_all ns s = Some (vs, s') \<Longrightarrow>
     inv s' \<and> vs = map (content s) ns \<and> (\<forall>m. content s' m = content s m)"
proof (induction ns arbitrary: s vs)
  case (Cons n ns)
  then obtain v s1 vs' where f: "fetch n s = Some (v, s1)" and r: "fetch_all ns s1 = Some (vs', s')"
    and vs: "vs = v # vs'"
    by (auto split: option.splits)
  note c = fetch_content[OF Cons.prems(1) f]
  then show ?case using Cons.IH[OF _ r] vs by auto
qed simp

end

end
