(* ===== verification/FsDisk.thy ===== *)
theory FsDisk imports Log BlockStore begin

text \<open>
  The lowest layer of \<open>kernel/filesystems/arm64/fs.c\<close>: the superblock and the block allocator.

  The file system's state extends the log's: a block is read through the buffer cache
  (\<open>bread\<close> is a look at \<open>cache\<close>), and changing a buffer and calling \<open>log_write\<close> on it is
  \<open>lwrite\<close>.  There is one disk, as the source says, so block numbers carry no device.  A step
  that would panic is \<open>None\<close>.
\<close>

section \<open>State\<close>

record superblock =
  sb_magic :: u32
  sb_size :: nat
  sb_nblocks :: nat
  sb_ninodes :: nat
  sb_nlog :: nat
  sb_logstart :: nat
  sb_inodestart :: nat
  sb_bmapstart :: nat

text \<open>\<open>struct inode\<close>: the in-memory copy of an inode, with its table bookkeeping.\<close>

record inode =
  idev :: nat
  inum :: nat
  iref :: int
  ilocked :: bool
  ivalid :: bool
  itype :: u16
  imajor :: u16
  iminor :: u16
  inlink :: u16
  isize :: u32
  iaddrs :: "nat \<Rightarrow> u32"

record fsst = logst +
  sb :: superblock
  itab :: "nat \<Rightarrow> inode"

definition bread :: "'a fsst_scheme \<Rightarrow> nat \<Rightarrow> mem" where
  "bread st b = cache st b"

definition lwrite :: "nat \<Rightarrow> mem \<Rightarrow> 'a fsst_scheme \<Rightarrow> 'a fsst_scheme option" where
  "lwrite b v st = log_write b (bset b v st)"

section \<open>The superblock\<close>

definition decode_sb :: "mem \<Rightarrow> superblock" where
  "decode_sb m = \<lparr>sb_magic = rd32 m 0, sb_size = unat (rd32 m 4), sb_nblocks = unat (rd32 m 8),
     sb_ninodes = unat (rd32 m 12), sb_nlog = unat (rd32 m 16), sb_logstart = unat (rd32 m 20),
     sb_inodestart = unat (rd32 m 24), sb_bmapstart = unat (rd32 m 28)\<rparr>"

definition readsb :: "'a fsst_scheme \<Rightarrow> 'a fsst_scheme" where
  "readsb st = st\<lparr>sb := decode_sb (bread st 1)\<rparr>"

definition fsinit :: "'a fsst_scheme \<Rightarrow> 'a fsst_scheme option" where
  "fsinit st =
     (let st1 = readsb st in
      if sb_magic (sb st1) \<noteq> FSMAGIC then None
      else Some (initlog (sb_logstart (sb st1)) (sb_nlog (sb st1)) st1))"

section \<open>The block allocator\<close>

definition bzero :: "nat \<Rightarrow> 'a fsst_scheme \<Rightarrow> 'a fsst_scheme option" where
  "bzero bno st = lwrite bno (\<lambda>i. if i < BSIZE then 0 else bread st bno i) st"

abbreviation BBLOCK :: "nat \<Rightarrow> 'a fsst_scheme \<Rightarrow> nat" where
  "BBLOCK b st \<equiv> b div BPB + sb_bmapstart (sb st)"

definition bmask :: "nat \<Rightarrow> byte" where
  "bmask bi = push_bit (bi mod 8) 1"

text \<open>The inner loop of \<open>balloc\<close>: the first free bit of one bitmap block.\<close>

function balloc_bits :: "mem \<Rightarrow> nat \<Rightarrow> nat \<Rightarrow> nat \<Rightarrow> nat option" where
  "balloc_bits data b sz bi =
     (if bi < BPB \<and> b + bi < sz
      then if data (bi div 8) AND bmask bi = 0 then Some bi else balloc_bits data b sz (bi + 1)
      else None)"
  by pat_completeness auto
termination
  by (relation "measure (\<lambda>(data, b, sz, bi). BPB - bi)") auto

declare balloc_bits.simps [simp del]

function balloc_from :: "nat \<Rightarrow> 'a fsst_scheme \<Rightarrow> (nat \<times> 'a fsst_scheme) option" where
  "balloc_from b st =
     (if b < sb_size (sb st)
      then let bp = BBLOCK b st; data = bread st bp in
        (case balloc_bits data b (sb_size (sb st)) 0 of
           Some bi \<Rightarrow> do {
             st1 \<leftarrow> lwrite bp (data(bi div 8 := data (bi div 8) OR bmask bi)) st;
             st2 \<leftarrow> bzero (b + bi) st1;
             Some (b + bi, st2)
           }
         | None \<Rightarrow> balloc_from (b + BPB) st)
      else None)"
  by pat_completeness auto
termination
  by (relation "measure (\<lambda>(b, st). sb_size (sb st) - b)") auto

declare balloc_from.simps [simp del]

definition balloc :: "'a fsst_scheme \<Rightarrow> (nat \<times> 'a fsst_scheme) option" where
  "balloc st = balloc_from 0 st"

definition bfree :: "nat \<Rightarrow> 'a fsst_scheme \<Rightarrow> 'a fsst_scheme option" where
  "bfree b st =
     (let bp = BBLOCK b st; data = bread st bp; bi = b mod BPB in
      if data (bi div 8) AND bmask bi = 0 then None
      else lwrite bp (data(bi div 8 := data (bi div 8) AND NOT (bmask bi))) st)"

section \<open>What the bitmap says\<close>

definition used :: "'a fsst_scheme \<Rightarrow> nat \<Rightarrow> bool" where
  "used st b \<longleftrightarrow> bit (bread st (BBLOCK b st) (b mod BPB div 8)) (b mod 8)"

text \<open>The first data block: after the boot block, superblock, log, inodes and bitmap.\<close>

definition dstart :: "'a fsst_scheme \<Rightarrow> nat" where
  "dstart st = sb_bmapstart (sb st) + sb_size (sb st) div BPB + 1"

text \<open>
  The layout \<open>mkfs\<close> writes, as far as the allocator relies on it: inode blocks before the
  bitmap, every block before the data area in use, and block numbers that fit a \<open>uint\<close>.
\<close>

definition fs_ok :: "'a fsst_scheme \<Rightarrow> bool" where
  "fs_ok st \<longleftrightarrow> sb_inodestart (sb st) + sb_ninodes (sb st) div IPB < sb_bmapstart (sb st)
     \<and> dstart st \<le> sb_size (sb st) \<and> sb_size (sb st) < 2 ^ 32 \<and> (\<forall>b < dstart st. used st b)"

named_theorems fs_frame "what an operation leaves alone"

lemma bmask_bit: "bit (bmask bi) n \<longleftrightarrow> n = bi mod 8"
  by (auto simp: bmask_def bit_simps)

lemma and_bmask_zero: "x AND bmask bi = 0 \<longleftrightarrow> \<not> bit x (bi mod 8)"
proof
  assume "x AND bmask bi = 0"
  then have "bit (x AND bmask bi) (bi mod 8) = bit (0 :: byte) (bi mod 8)" by simp
  then show "\<not> bit x (bi mod 8)" by (simp add: bit_simps bmask_bit)
next
  assume "\<not> bit x (bi mod 8)"
  then show "x AND bmask bi = 0" by (intro bit_word_eqI) (auto simp: bit_simps bmask_bit)
qed

lemma lwrite_SomeD:
  assumes "lwrite b v st = Some st'"
  shows "cache st' = (cache st)(b := v)" "sb st' = sb st" "itab st' = itab st"
    "set (lh st') = insert b (set (lh st))" "disk st' = disk st"
    "lstart st' = lstart st" "lsize st' = lsize st" "outstanding st' = outstanding st"
    "committing st' = committing st" "hist st' = hist st"
  using assms takeWhile_neq_in[of b "lh st"] takeWhile_neq_notin[of b "lh st"]
    takeWhile_neq_update[of b "lh st"]
  by (cases "b \<in> set (lh st)";
      auto simp: lwrite_def log_write_def log_bpin_def bset_def Let_def split: if_splits)+


text \<open>Changing one block outside the bitmap leaves the allocation state alone.\<close>

lemma used_cong:
  assumes "sb st' = sb st" and "cache st' (BBLOCK b st) = cache st (BBLOCK b st)"
  shows "used st' b = used st b"
  using assms by (simp add: used_def bread_def)

text \<open>Setting and clearing a bit of the bitmap.\<close>

lemma used_set_bit:
  assumes "sb st' = sb st"
    and "cache st' = (cache st)(BBLOCK b st := d(b mod BPB div 8 := d (b mod BPB div 8) OR bmask b))"
    and "d = cache st (BBLOCK b st)"
  shows "used st' x \<longleftrightarrow> x = b \<or> used st x"
proof -
  have m8: "y mod BPB mod 8 = y mod 8" for y :: nat
    by (simp add: mod_mod_cancel)
  have "x = b" if "x mod BPB div 8 = b mod BPB div 8" "x mod 8 = b mod 8" "x div BPB = b div BPB"
  proof -
    have "x mod BPB = b mod BPB"
      using that(1,2) div_mult_mod_eq[of "x mod BPB" 8] div_mult_mod_eq[of "b mod BPB" 8] m8 by metis
    with that(3) show ?thesis using div_mult_mod_eq[of x BPB] div_mult_mod_eq[of b BPB] by metis
  qed
  then show ?thesis using assms
    by (auto simp: used_def bread_def bit_simps bmask_bit)
qed

lemma used_clear_bit:
  assumes "sb st' = sb st"
    and "cache st' = (cache st)(BBLOCK b st := d(b mod BPB div 8 := d (b mod BPB div 8) AND NOT (bmask b)))"
    and "d = cache st (BBLOCK b st)"
  shows "used st' x \<longleftrightarrow> x \<noteq> b \<and> used st x"
proof -
  have m8: "y mod BPB mod 8 = y mod 8" for y :: nat
    by (simp add: mod_mod_cancel)
  have "x = b" if "x mod BPB div 8 = b mod BPB div 8" "x mod 8 = b mod 8" "x div BPB = b div BPB"
  proof -
    have "x mod BPB = b mod BPB"
      using that(1,2) div_mult_mod_eq[of "x mod BPB" 8] div_mult_mod_eq[of "b mod BPB" 8] m8 by metis
    with that(3) show ?thesis using div_mult_mod_eq[of x BPB] div_mult_mod_eq[of b BPB] by metis
  qed
  then show ?thesis using assms
    by (auto simp: used_def bread_def bit_simps bmask_bit)
qed

section \<open>The allocator's loops\<close>

lemma balloc_bits_Some:
  "balloc_bits d b sz k = Some bi \<Longrightarrow> k \<le> bi \<and> bi < BPB \<and> b + bi < sz \<and> \<not> bit (d (bi div 8)) (bi mod 8)
     \<and> (\<forall>j. k \<le> j \<and> j < bi \<longrightarrow> bit (d (j div 8)) (j mod 8))"
proof (induction d b sz k rule: balloc_bits.induct)
  case (1 d b sz k)
  show ?case
  proof (cases "k < BPB \<and> b + k < sz \<and> bit (d (k div 8)) (k mod 8)")
    case True
    then have rec: "balloc_bits d b sz (k + 1) = Some bi"
      using "1.prems" by (simp add: balloc_bits.simps[of d b sz k] and_bmask_zero)
    have "k + 1 \<le> bi \<and> bi < BPB \<and> b + bi < sz \<and> \<not> bit (d (bi div 8)) (bi mod 8)
       \<and> (\<forall>j. k + 1 \<le> j \<and> j < bi \<longrightarrow> bit (d (j div 8)) (j mod 8))"
      using True by (intro "1.IH" rec) (simp_all add: and_bmask_zero)
    moreover have "bit (d (j div 8)) (j mod 8)" if "k \<le> j" "j < bi" for j
      using that calculation True by (cases "j = k") auto
    ultimately show ?thesis by auto
  next
    case False
    then show ?thesis
      using "1.prems" by (auto simp: balloc_bits.simps[of d b sz k] and_bmask_zero split: if_splits)
  qed
qed

lemma balloc_bits_None:
  "balloc_bits d b sz k = None \<Longrightarrow> k \<le> j \<Longrightarrow> j < BPB \<Longrightarrow> b + j < sz \<Longrightarrow> bit (d (j div 8)) (j mod 8)"
proof (induction d b sz k rule: balloc_bits.induct)
  case (1 d b sz k)
  from "1.prems" have k: "k < BPB \<and> b + k < sz" by auto
  with "1.prems"(1) have b: "\<not> d (k div 8) AND bmask k = 0"
    and rec: "balloc_bits d b sz (k + 1) = None"
    by (auto simp: balloc_bits.simps[of d b sz k] split: if_splits)
  show ?case
  proof (cases "j = k")
    case True
    with b show ?thesis by (simp add: and_bmask_zero)
  next
    case False
    with "1.prems" k b rec show ?thesis by (intro "1.IH") auto
  qed
qed

definition zero_block :: "mem \<Rightarrow> bool" where
  "zero_block m \<longleftrightarrow> (\<forall>i < BSIZE. m i = 0)"

lemma bitmap_index:
  assumes "BPB dvd b" and "bi < BPB"
  shows "(b + bi) div BPB = b div BPB" "(b + bi) mod BPB = bi" "(b + bi) mod 8 = bi mod 8"
proof -
  from assms(1) obtain q where q: "b = BPB * q" by (rule dvdE)
  show "(b + bi) div BPB = b div BPB" "(b + bi) mod BPB = bi" using assms(2) by (simp_all add: q)
  have "b mod 8 = 0" by (simp add: q mod_mult_right_eq)
  then show "(b + bi) mod 8 = bi mod 8" by presburger
qed

lemma balloc_from_Some:
  assumes "balloc_from b st = Some (r, st')" and "BPB dvd b"
  shows "b \<le> r \<and> r < sb_size (sb st) \<and> \<not> used st r \<and> (\<forall>x. b \<le> x \<and> x < r \<longrightarrow> used st x)
    \<and> (\<exists>d st1. d = bread st (BBLOCK r st)
        \<and> lwrite (BBLOCK r st) (d(r mod BPB div 8 := d (r mod BPB div 8) OR bmask r)) st = Some st1
        \<and> bzero r st1 = Some st')"
  using assms
proof (induction b st rule: balloc_from.induct)
  case (1 b st)
  let ?d = "bread st (BBLOCK b st)"
  have b: "b < sb_size (sb st)" using "1.prems"(1) by (auto simp: balloc_from.simps[of b] split: if_splits)
  have us: "used st (b + j) \<longleftrightarrow> bit (?d (j div 8)) (j mod 8)" if "j < BPB" for j
    using bitmap_index[OF "1.prems"(2) that] by (simp add: used_def)
  show ?case
  proof (cases "balloc_bits ?d b (sb_size (sb st)) 0")
    case None
    have next_: "balloc_from (b + BPB) st = Some (r, st')"
      using "1.prems"(1) b None by (simp add: balloc_from.simps[of b])
    have below: "used st x" if "b \<le> x" "x < b + BPB" "x < sb_size (sb st)" for x
      using us[of "x - b"] balloc_bits_None[OF None, of "x - b"] that by auto
    have "b + BPB \<le> r \<and> r < sb_size (sb st) \<and> \<not> used st r \<and> (\<forall>x. b + BPB \<le> x \<and> x < r \<longrightarrow> used st x)
      \<and> (\<exists>d st1. d = bread st (BBLOCK r st)
        \<and> lwrite (BBLOCK r st) (d(r mod BPB div 8 := d (r mod BPB div 8) OR bmask r)) st = Some st1
        \<and> bzero r st1 = Some st')"
      using "1.prems"(2) by (intro "1.IH"[OF b refl refl None next_]) simp
    then show ?thesis using below by (meson le_trans le_add1 less_trans not_le)
  next
    case (Some bi)
    note bi = balloc_bits_Some[OF Some]
    then have bi8: "bi < BPB" by simp
    note ix = bitmap_index[OF "1.prems"(2) bi8]
    have mask: "bmask (b + bi) = bmask bi" by (simp add: bmask_def ix)
    from "1.prems"(1) b Some obtain st1 where
      w: "lwrite (BBLOCK b st) (?d(bi div 8 := ?d (bi div 8) OR bmask bi)) st = Some st1"
      and z: "bzero (b + bi) st1 = Some st'" and r: "r = b + bi"
      by (auto simp: balloc_from.simps[of b] Let_def Option.bind_eq_Some_conv)
    have "used st x" if "b \<le> x" "x < r" for x
      using us[of "x - b"] bi that by (auto simp: r)
    moreover have "b \<le> r \<and> r < sb_size (sb st) \<and> \<not> used st r" using bi us[OF bi8] by (simp add: r)
    moreover have "\<exists>d st1. d = bread st (BBLOCK r st)
        \<and> lwrite (BBLOCK r st) (d(r mod BPB div 8 := d (r mod BPB div 8) OR bmask r)) st = Some st1
        \<and> bzero r st1 = Some st'"
      unfolding r ix mask using w z by (metis (no_types))
    ultimately show ?thesis by blast
  qed
qed

text \<open>The bitmap's own blocks.\<close>

definition bitmap_area :: "'a fsst_scheme \<Rightarrow> nat set" where
  "bitmap_area st = {sb_bmapstart (sb st) ..< dstart st}"

lemma BBLOCK_area: "x < sb_size (sb st) \<Longrightarrow> BBLOCK x st \<in> bitmap_area st"
  by (auto simp: bitmap_area_def dstart_def div_le_mono less_Suc_eq_le)

text \<open>What a successful allocation does to everything else.\<close>

lemma balloc_effect:
  assumes ok: "fs_ok st" and al: "balloc st = Some (r, st')"
  shows "dstart st \<le> r" "r < sb_size (sb st)" "\<not> used st r" "\<And>x. x < r \<Longrightarrow> used st x"
    "sb st' = sb st" "itab st' = itab st" "zero_block (cache st' r)"
    "\<And>x. x < sb_size (sb st) \<Longrightarrow> used st' x \<longleftrightarrow> x = r \<or> used st x"
    "\<And>x. x \<noteq> r \<Longrightarrow> x \<notin> bitmap_area st \<Longrightarrow> cache st' x = cache st x"
    "fs_ok st'"
proof -
  from balloc_from_Some[OF al[unfolded balloc_def]] obtain d st1 where
    r: "r < sb_size (sb st)" "\<not> used st r" "\<And>x. x < r \<Longrightarrow> used st x"
    and d: "d = bread st (BBLOCK r st)"
    and w: "lwrite (BBLOCK r st) (d(r mod BPB div 8 := d (r mod BPB div 8) OR bmask r)) st = Some st1"
    and z: "bzero r st1 = Some st'" by auto
  note w' = lwrite_SomeD[OF w] and z' = lwrite_SomeD[OF z[unfolded bzero_def]]
  show r1: "r < sb_size (sb st)" "\<not> used st r" and "\<And>x. x < r \<Longrightarrow> used st x" by (fact r)+
  show ds: "dstart st \<le> r" using ok r(2) by (auto simp: fs_ok_def not_less)
  show sb: "sb st' = sb st" and "itab st' = itab st" using w' z' by simp_all
  show "zero_block (cache st' r)" using z' by (simp add: zero_block_def)
  have area: "r \<notin> bitmap_area st" using ds by (simp add: bitmap_area_def)
  have u1: "used st1 x \<longleftrightarrow> x = r \<or> used st x" for x
    using w' by (intro used_set_bit) (simp_all add: d bread_def)
  show u: "used st' x \<longleftrightarrow> x = r \<or> used st x" if "x < sb_size (sb st)" for x
  proof -
    have "used st' x = used st1 x"
      using BBLOCK_area[OF that] area z'(1) w'(2) sb by (intro used_cong) auto
    then show ?thesis by (simp add: u1)
  qed
  show "cache st' x = cache st x" if "x \<noteq> r" "x \<notin> bitmap_area st" for x
    using that w'(1) z'(1) BBLOCK_area[OF r1(1)] by auto
  have "dstart st' = dstart st" by (simp add: dstart_def sb)
  then show "fs_ok st'" using ok u r1(1) ds unfolding fs_ok_def sb
    by (metis less_le_trans order.strict_trans)
qed

text \<open>
  C4: the block allocator never hands out a block in use.  On success it returns the lowest
  free block, a data block inside the disk, marked in use and zeroed; the allocation state of
  all other blocks and the contents of every block outside the bitmap are unchanged.
\<close>

theorem balloc_fresh:
  assumes "fs_ok st" and "balloc st = Some (r, st')"
  shows "dstart st \<le> r \<and> r < sb_size (sb st) \<and> \<not> used st r \<and> (\<forall>x < r. used st x)
    \<and> zero_block (cache st' r) \<and> fs_ok st'
    \<and> (\<forall>x < sb_size (sb st). used st' x \<longleftrightarrow> x = r \<or> used st x)
    \<and> (\<forall>x. x \<noteq> r \<and> x \<notin> bitmap_area st \<longrightarrow> cache st' x = cache st x)"
  using balloc_effect[OF assms] by blast

text \<open>
  A small disk in the layout of \<open>mkfs\<close>: 100 blocks, the log in 2 to 32, the inodes from 33,
  the bitmap in 36 and the first data block, 37, free.
\<close>

definition demo_sb :: superblock where
  "demo_sb = \<lparr>sb_magic = FSMAGIC, sb_size = 100, sb_nblocks = 63, sb_ninodes = 8, sb_nlog = 31,
     sb_logstart = 2, sb_inodestart = 33, sb_bmapstart = 36\<rparr>"

definition demo_fs :: fsst where
  "demo_fs = \<lparr>disk = (\<lambda>_ _. 0), cache = (\<lambda>b. if b = 36 then (\<lambda>i. if i < 4 then 255 else if i = 4 then 31 else 0)
       else (\<lambda>_. 0)), pin = (\<lambda>_. 0), hist = [], lstart = 2, lsize = 31, outstanding = 1,
     committing = False, ncommit = 0, lh = [], sb = demo_sb,
     itab = (\<lambda>_. \<lparr>idev = 0, inum = 0, iref = 0, ilocked = False, ivalid = False, itype = 0,
       imajor = 0, iminor = 0, inlink = 0, isize = 0, iaddrs = (\<lambda>_. 0)\<rparr>)\<rparr>"

lemma demo_used: "b < 8192 \<Longrightarrow> used demo_fs b \<longleftrightarrow> b < 37"
proof -
  assume b: "b < 8192"
  have b255: "bit (255 :: byte) (b mod 8)"
    using bit_mask_iff[of 8 "b mod 8", where 'a = byte] by (simp add: mask_eq_exp_minus_1)
  have b31: "bit (31 :: byte) (b mod 8) \<longleftrightarrow> b mod 8 < 5"
    using bit_mask_iff[of 5 "b mod 8", where 'a = byte] by (auto simp: mask_eq_exp_minus_1)
  have "used demo_fs b \<longleftrightarrow> bit (if b div 8 < 4 then 255 :: byte else if b div 8 = 4 then 31 else 0) (b mod 8)"
    using b by (simp add: used_def bread_def demo_fs_def demo_sb_def)
  then have "used demo_fs b \<longleftrightarrow> b div 8 < 4 \<or> b div 8 = 4 \<and> b mod 8 < 5"
    using b255 b31 by (auto split: if_splits)
  also have "\<dots> \<longleftrightarrow> b < 37" by presburger
  finally show ?thesis .
qed

lemma demo_fs_ok: "fs_ok demo_fs"
proof -
  have "dstart demo_fs = 37" by (simp add: dstart_def demo_fs_def demo_sb_def)
  then show ?thesis by (auto simp: fs_ok_def demo_used) (simp_all add: demo_fs_def demo_sb_def)
qed

lemma demo_balloc: "\<exists>st'. balloc demo_fs = Some (37, st')"
proof -
  let ?d = "bread demo_fs 36"
  have sz: "sb_size (sb demo_fs) = 100" and bm: "BBLOCK b demo_fs = 36" if "b < 8192" for b
    using that by (simp_all add: demo_fs_def demo_sb_def)
  have us: "used demo_fs b \<longleftrightarrow> bit (?d (b div 8)) (b mod 8)" if "b < 8192" for b
    using that bm[OF that] by (simp add: used_def)
  have "balloc_bits ?d 0 100 0 \<noteq> None"
    using balloc_bits_None[of ?d 0 100 0 37] us[of 37] demo_used[of 37] by auto
  then obtain bi where bi: "balloc_bits ?d 0 100 0 = Some bi" by auto
  note B = balloc_bits_Some[OF bi]
  then have "\<not> used demo_fs bi" using us[of bi] by simp
  then have "\<not> bi < 37" using demo_used[of bi] B by auto
  moreover have "\<not> 37 < bi" using B us[of 37] demo_used[of 37] by auto
  ultimately have b37: "bi = 37" by simp
  have sz: "sb_size (sb demo_fs) = 100" and bm0: "sb_bmapstart (sb demo_fs) = 36"
    by (simp_all add: demo_fs_def demo_sb_def)
  have lw: "lwrite b v st \<noteq> None" if "length (lh st) < 3" "lsize st = 31" "outstanding st = 1" for b v and st :: fsst
    using that by (simp add: lwrite_def log_write_def bset_def Let_def)
  obtain st1 where st1: "lwrite 36 (?d(37 div 8 := ?d (37 div 8) OR bmask 37)) demo_fs = Some st1"
    using lw[of demo_fs] by (fastforce simp: demo_fs_def)
  have l1: "lh st1 = [36]" "lsize st1 = 31" "outstanding st1 = 1"
    using st1 by (auto simp: lwrite_def log_write_def bset_def log_bpin_def demo_fs_def)
  have "bzero (0 + 37) st1 \<noteq> None" unfolding bzero_def by (rule lw) (simp_all add: l1)
  then show ?thesis using bi st1
    by (auto simp: balloc_def balloc_from.simps[of 0] Let_def sz bm0 b37)
qed

theorem balloc_fresh_witness:
  "\<exists>st'. balloc demo_fs = Some (37, st') \<and> \<not> used demo_fs 37 \<and> zero_block (cache st' 37)"
  using balloc_fresh[OF demo_fs_ok] demo_balloc by blast

lemma bfree_effect:
  "(case bfree b st of
      None \<Rightarrow> \<not> used st b \<or> log_write (BBLOCK b st) st = None
    | Some st' \<Rightarrow> used st b \<and> sb st' = sb st \<and> itab st' = itab st
        \<and> (\<forall>x. used st' x \<longleftrightarrow> x \<noteq> b \<and> used st x)
        \<and> (\<forall>x. x = BBLOCK b st \<or> cache st' x = cache st x))"
proof (cases "bfree b st")
  case None
  have m8: "b mod BPB mod 8 = b mod 8" by (simp add: mod_mod_cancel)
  from None have "\<not> used st b \<or> log_write (BBLOCK b st) st = None"
    by (auto simp: bfree_def Let_def and_bmask_zero used_def lwrite_def log_write_def bset_def m8
        split: if_splits)
  with None show ?thesis by simp
next
  case (Some st')
  let ?d = "cache st (BBLOCK b st)"
  from Some have u: "used st b" and
    w: "lwrite (BBLOCK b st) (?d(b mod BPB div 8 := ?d (b mod BPB div 8) AND NOT (bmask (b mod BPB)))) st = Some st'"
    by (auto simp: bfree_def Let_def and_bmask_zero used_def bread_def mod_mod_cancel split: if_splits)
  have m: "bmask (b mod BPB) = bmask b" by (simp add: bmask_def mod_mod_cancel)
  note w' = lwrite_SomeD[OF w[unfolded m]]
  have "used st' x \<longleftrightarrow> x \<noteq> b \<and> used st x" for x
    using w'(2,1) refl by (rule used_clear_bit)
  with Some u w' show ?thesis by simp
qed

text \<open>
  freeing a block.  A block in use becomes free, and neither the other blocks' state nor
  anything outside its bitmap block changes; freeing a free block panics.
\<close>

theorem bfree_frees:
  "(case bfree b st of
      None \<Rightarrow> \<not> used st b \<or> log_write (BBLOCK b st) st = None
    | Some st' \<Rightarrow> used st b \<and> sb st' = sb st \<and> itab st' = itab st
        \<and> (\<forall>x. used st' x \<longleftrightarrow> x \<noteq> b \<and> used st x)
        \<and> (\<forall>x. x = BBLOCK b st \<or> cache st' x = cache st x))"
  by (rule bfree_effect)

lemma demo_bfree: "\<exists>st'. bfree 20 demo_fs = Some st'"
proof -
  have "used demo_fs 20" by (simp add: demo_used)
  then have "demo_fs \<noteq> demo_fs \<or> \<not> bread demo_fs (BBLOCK 20 demo_fs) (20 mod BPB div 8) AND bmask (20 mod BPB) = 0"
    by (simp add: used_def and_bmask_zero)
  then show ?thesis
    by (auto simp: bfree_def Let_def lwrite_def log_write_def bset_def log_bpin_def)
       (simp_all add: demo_fs_def)
qed

theorem bfree_frees_witness:
  "\<exists>st'. bfree 20 demo_fs = Some st' \<and> \<not> used st' 20 \<and> (used st' 21 \<longleftrightarrow> used demo_fs 21)"
  using bfree_frees[where b = 20 and st = demo_fs] demo_bfree by auto

text \<open>The file system's own view of the cache keeps the contract of the buffer cache.\<close>

interpretation fsv: block_store "\<lambda>_ :: 'a fsst_scheme. True" cache "\<lambda>n st. Some (bread st n, st)"
  by unfold_locales (auto simp: bread_def)

end
