(* ===== verification/CString.thy ===== *)
theory CString imports KPrelude begin

text \<open>
  \<open>kernel/lib/string.c\<close>: the memory and string routines every part of the kernel calls.
  Pointers are addresses of one flat byte memory (a \<open>nat\<close>: an object never wraps around the
  address space), \<open>n\<close> is the loop count.  Routines that only read take the view their
  pointer gives of the memory, so that two objects can be compared wherever they live.
\<close>

section \<open>The routines\<close>

definition memset :: "mem \<Rightarrow> nat \<Rightarrow> byte \<Rightarrow> nat \<Rightarrow> mem" where
  "memset m dst c n = fold (\<lambda>i m. m(dst + i := c)) [0..<n] m"

fun memcmp :: "mem \<Rightarrow> nat \<Rightarrow> nat \<Rightarrow> nat \<Rightarrow> int" where
  "memcmp m s1 s2 0 = 0"
| "memcmp m s1 s2 (Suc n) =
     (if m s1 \<noteq> m s2 then uint (m s1) - uint (m s2) else memcmp m (s1 + 1) (s2 + 1) n)"

fun memmove_back :: "mem \<Rightarrow> nat \<Rightarrow> nat \<Rightarrow> nat \<Rightarrow> mem" where
  "memmove_back m d s 0 = m"
| "memmove_back m d s (Suc n) = memmove_back (m(d - 1 := m (s - 1))) (d - 1) (s - 1) n"

fun memmove_fwd :: "mem \<Rightarrow> nat \<Rightarrow> nat \<Rightarrow> nat \<Rightarrow> mem" where
  "memmove_fwd m d s 0 = m"
| "memmove_fwd m d s (Suc n) = memmove_fwd (m(d := m s)) (d + 1) (s + 1) n"

definition memmove :: "mem \<Rightarrow> nat \<Rightarrow> nat \<Rightarrow> nat \<Rightarrow> mem" where
  "memmove m dst src n =
     (if n = 0 then m
      else if src < dst \<and> src + n > dst then memmove_back m (dst + n) (src + n) n
      else memmove_fwd m dst src n)"

definition memcpy :: "mem \<Rightarrow> nat \<Rightarrow> nat \<Rightarrow> nat \<Rightarrow> mem" where
  "memcpy m dst src n = memmove m dst src n"

fun strncmp_at :: "mem \<Rightarrow> mem \<Rightarrow> nat \<Rightarrow> nat \<Rightarrow> int" where
  "strncmp_at p q i 0 = 0"
| "strncmp_at p q i (Suc n) =
     (if p i \<noteq> 0 \<and> p i = q i then strncmp_at p q (i + 1) n else uint (p i) - uint (q i))"

definition strncmp :: "mem \<Rightarrow> mem \<Rightarrow> nat \<Rightarrow> int" where
  "strncmp p q n = strncmp_at p q 0 n"

text \<open>
  \<open>strncpy\<close>'s two loops: the copy stops after it has copied a NUL, with \<open>n\<close> counted down,
  and the padding uses up what is left.
\<close>

fun strncpy_copy :: "mem \<Rightarrow> nat \<Rightarrow> nat \<Rightarrow> nat \<Rightarrow> mem \<times> nat \<times> nat" where
  "strncpy_copy m s t 0 = (m, s, 0)"
| "strncpy_copy m s t (Suc n) =
     (let c = m t; m' = m(s := c)
      in if c \<noteq> 0 then strncpy_copy m' (s + 1) (t + 1) n else (m', s + 1, n))"

fun strncpy_pad :: "mem \<Rightarrow> nat \<Rightarrow> nat \<Rightarrow> mem" where
  "strncpy_pad m s 0 = m"
| "strncpy_pad m s (Suc n) = strncpy_pad (m(s := 0)) (s + 1) n"

definition strncpy :: "mem \<Rightarrow> nat \<Rightarrow> nat \<Rightarrow> int \<Rightarrow> mem" where
  "strncpy m s t n = (let (m1, s1, n1) = strncpy_copy m s t (nat n) in strncpy_pad m1 s1 n1)"

fun safestrcpy_copy :: "mem \<Rightarrow> nat \<Rightarrow> nat \<Rightarrow> nat \<Rightarrow> mem \<times> nat" where
  "safestrcpy_copy m s t 0 = (m, s)"
| "safestrcpy_copy m s t (Suc n) =
     (let c = m t; m' = m(s := c)
      in if c \<noteq> 0 then safestrcpy_copy m' (s + 1) (t + 1) n else (m', s + 1))"

definition safestrcpy :: "mem \<Rightarrow> nat \<Rightarrow> nat \<Rightarrow> int \<Rightarrow> mem" where
  "safestrcpy m s t n =
     (if n \<le> 0 then m
      else let (m1, s1) = safestrcpy_copy m s t (nat (n - 1)) in m1(s1 := 0))"

text \<open>\<open>strlen\<close> runs on until it meets a NUL, so it may not return: \<open>None\<close>.\<close>

partial_function (option) strlen_at :: "mem \<Rightarrow> nat \<Rightarrow> nat option" where
  "strlen_at s n = (if s n \<noteq> 0 then strlen_at s (n + 1) else Some n)"

definition strlen :: "mem \<Rightarrow> nat option" where
  "strlen s = strlen_at s 0"

section \<open>Their effect\<close>

lemma memset_apply: "memset m d c n = (\<lambda>a. if d \<le> a \<and> a < d + n then c else m a)"
  unfolding memset_def by (rule fold_fun_upd_range)

lemma memmove_fwd_apply:
  "d \<le> s \<or> s + n \<le> d \<Longrightarrow>
   memmove_fwd m d s n = (\<lambda>a. if d \<le> a \<and> a < d + n then m (s + (a - d)) else m a)"
proof (induction m d s n rule: memmove_fwd.induct)
  case (1 m d s)
  show ?case by (rule ext) auto
next
  case (2 m d s n)
  have "memmove_fwd m d s (Suc n) =
     (\<lambda>a. if d + 1 \<le> a \<and> a < d + 1 + n then (m(d := m s)) (s + 1 + (a - (d + 1)))
          else (m(d := m s)) a)"
    unfolding memmove_fwd.simps using "2.prems" by (intro "2.IH") auto
  also have "\<dots> = (\<lambda>a. if d \<le> a \<and> a < d + Suc n then m (s + (a - d)) else m a)"
    using "2.prems" by (intro ext) (auto simp: Suc_diff_Suc)
  finally show ?case .
qed

lemma memmove_back_apply:
  "s < d \<Longrightarrow>
   memmove_back m (d + n) (s + n) n = (\<lambda>a. if d \<le> a \<and> a < d + n then m (s + (a - d)) else m a)"
proof (induction n arbitrary: m)
  case 0
  show ?case by (rule ext) auto
next
  case (Suc n)
  have "memmove_back m (d + Suc n) (s + Suc n) (Suc n) =
      memmove_back (m(d + n := m (s + n))) (d + n) (s + n) n"
    by simp
  also have "\<dots> = (\<lambda>a. if d \<le> a \<and> a < d + n then (m(d + n := m (s + n))) (s + (a - d))
      else (m(d + n := m (s + n))) a)"
    by (rule Suc.IH[OF Suc.prems])
  also have "\<dots> = (\<lambda>a. if d \<le> a \<and> a < d + Suc n then m (s + (a - d)) else m a)"
    using Suc.prems by (intro ext) (auto simp: less_Suc_eq)
  finally show ?case .
qed

text \<open>
  \<open>memmove\<close> copies the \<open>n\<close> bytes that were at \<open>src\<close> when it was called, whether or not
  the two ranges overlap, and changes nothing else.
\<close>

theorem memmove_copies:
  "memmove m dst src n =
     (\<lambda>a. if dst \<le> a \<and> a < dst + n then m (src + (a - dst)) else m a)"
proof (cases "src < dst \<and> src + n > dst")
  case True
  then show ?thesis by (auto simp: memmove_def memmove_back_apply)
next
  case False
  then have "memmove m dst src n = (if n = 0 then m else memmove_fwd m dst src n)"
    by (auto simp: memmove_def)
  also have "\<dots> = memmove_fwd m dst src n" by (cases n) auto
  also have "\<dots> = (\<lambda>a. if dst \<le> a \<and> a < dst + n then m (src + (a - dst)) else m a)"
    using False by (intro memmove_fwd_apply) auto
  finally show ?thesis .
qed

lemma memcmp_zero_iff: "memcmp m s1 s2 n = 0 \<longleftrightarrow> (\<forall>i<n. m (s1 + i) = m (s2 + i))"
proof (induction m s1 s2 n rule: memcmp.induct)
  case (2 m s1 s2 n)
  then show ?case by (auto simp: less_Suc_eq_0_disj word_uint_eq_iff)
qed simp

lemma strncmp_at_cstrn:
  "strncmp_at p q i n = 0 \<longleftrightarrow> cstrn (\<lambda>k. p (i + k)) n = cstrn (\<lambda>k. q (i + k)) n"
proof (induction p q i n rule: strncmp_at.induct)
  case (2 p q i n)
  show ?case using 2 by (auto simp: cstrn_Suc word_uint_eq_iff)
qed simp

text \<open>
  \<open>strncmp\<close> returns 0 exactly when the two strings, each cut at its NUL or at \<open>n\<close> bytes,
  are the same string.
\<close>

theorem strncmp_eq_iff: "strncmp p q n = 0 \<longleftrightarrow> cstrn p n = cstrn q n"
  by (simp add: strncmp_def strncmp_at_cstrn)

text \<open>The padding loop, and the copying loop: where it stops and what it has written.\<close>

lemma strncpy_pad_apply: "strncpy_pad m s n = (\<lambda>a. if s \<le> a \<and> a < s + n then 0 else m a)"
proof (induction m s n rule: strncpy_pad.induct)
  case (2 m s n)
  show ?case by (simp only: strncpy_pad.simps "2.IH") (auto simp: fun_eq_iff)
qed (auto simp: fun_eq_iff)

lemma strncpy_copy_effect:
  assumes "s + n \<le> t \<or> t + n \<le> s" and "c = cstrn (\<lambda>i. m (t + i)) n"
  shows "strncpy_copy m s t n =
    (\<lambda>a. if s \<le> a \<and> a < s + length c then m (t + (a - s))
         else if a = s + length c \<and> length c < n then 0 else m a,
     s + length c + (if length c < n then 1 else 0), n - length c - 1)"
  using assms
proof (induction m s t n arbitrary: c rule: strncpy_copy.induct)
  case (1 m s t)
  then show ?case by (auto simp: fun_eq_iff)
next
  case (2 m s t n)
  show ?case
  proof (cases "m t = 0")
    case True
    with "2.prems" have "c = []" by (simp add: cstrn_Suc)
    with True show ?thesis by (auto simp: fun_eq_iff Let_def)
  next
    case False
    let ?m' = "m(s := m t)"
    define c' where "c' = cstrn (\<lambda>i. ?m' (t + 1 + i)) n"
    have c: "c = m t # c'"
      using False "2.prems" by (auto simp: c'_def cstrn_Suc intro: cstrn_cong)
    have len: "length c' \<le> n" by (simp add: c'_def length_cstrn)
    have "strncpy_copy m s t (Suc n) = strncpy_copy ?m' (s + 1) (t + 1) n"
      using False by (simp add: Let_def)
    also have "\<dots> = (\<lambda>a. if s + 1 \<le> a \<and> a < s + 1 + length c' then ?m' (t + 1 + (a - (s + 1)))
         else if a = s + 1 + length c' \<and> length c' < n then 0 else ?m' a,
       s + 1 + length c' + (if length c' < n then 1 else 0), n - length c' - 1)"
      by (rule "2.IH"[OF refl refl]) (use False "2.prems" c'_def in auto)
    also have "\<dots> = (\<lambda>a. if s \<le> a \<and> a < s + length c then m (t + (a - s))
         else if a = s + length c \<and> length c < Suc n then 0 else m a,
       s + length c + (if length c < Suc n then 1 else 0), Suc n - length c - 1)"
      using "2.prems"(1) len by (auto simp: fun_eq_iff c Suc_diff_Suc)
    finally show ?thesis .
  qed
qed

text \<open>
  \<open>strncpy\<close> of non-overlapping buffers writes the source string cut at \<open>n\<close> bytes, pads it
  with NULs to exactly \<open>n\<close> bytes, and changes nothing else.  This is how a directory entry's
  fixed-size name is filled in.
\<close>

theorem strncpy_pads:
  assumes "s + nat n \<le> t \<or> t + nat n \<le> s"
  shows "strncpy m s t n = (\<lambda>a. if s \<le> a \<and> a < s + nat n
           then view (cstrn (\<lambda>i. m (t + i)) (nat n)) (a - s) else m a)"
proof -
  define c where "c = cstrn (\<lambda>i. m (t + i)) (nat n)"
  have len: "length c \<le> nat n" by (simp add: c_def length_cstrn)
  have nth: "\<And>i. i < length c \<Longrightarrow> c ! i = m (t + i)" by (simp add: c_def nth_cstrn)
  show ?thesis
    unfolding strncpy_def strncpy_copy_effect[OF assms c_def] Let_def prod.case strncpy_pad_apply
    unfolding c_def[symmetric] using len nth by (auto simp: fun_eq_iff view_def)
qed

theorem strncpy_pads_witness:
  "strncpy (view [72, 105, 0, 9, 9, 9, 9, 9]) 4 0 4 =
     (\<lambda>a. if 4 \<le> a \<and> a < 4 + nat 4
       then view (cstrn (\<lambda>i. view [72, 105, 0, 9, 9, 9, 9, 9] (0 + i)) (nat 4)) (a - 4)
       else view [72, 105, 0, 9, 9, 9, 9, 9] a)"
  by (rule strncpy_pads) simp

lemma safestrcpy_copy_effect:
  assumes "s + n \<le> t \<or> t + n \<le> s" and "c = cstrn (\<lambda>i. m (t + i)) n"
  shows "safestrcpy_copy m s t n =
    (\<lambda>a. if s \<le> a \<and> a < s + length c then m (t + (a - s))
         else if a = s + length c \<and> length c < n then 0 else m a,
     s + length c + (if length c < n then 1 else 0))"
proof -
  have "safestrcpy_copy m s t n = (let (m1, s1, _) = strncpy_copy m s t n in (m1, s1))"
  proof (induction m s t n rule: safestrcpy_copy.induct)
    case (2 m s t n)
    then show ?case by (cases "m t = 0") (simp_all add: Let_def del: fun_upd_apply)
  qed simp
  then show ?thesis by (simp add: strncpy_copy_effect[OF assms] Let_def)
qed

text \<open>
  \<open>safestrcpy\<close> with \<open>n > 0\<close> leaves a NUL-terminated string in the destination's \<open>n\<close>
  bytes, the source string cut at \<open>n - 1\<close> bytes, and writes no byte outside them.
\<close>

theorem safestrcpy_terminates_string:
  assumes "0 < n" and "s + nat n \<le> t \<or> t + nat n \<le> s"
  shows "cstrn (\<lambda>i. safestrcpy m s t n (s + i)) (nat n) = cstrn (\<lambda>i. m (t + i)) (nat (n - 1))
    \<and> (\<forall>a. a < s \<or> s + nat n \<le> a \<longrightarrow> safestrcpy m s t n a = m a)"
proof -
  define c where "c = cstrn (\<lambda>i. m (t + i)) (nat (n - 1))"
  have disj: "s + nat (n - 1) \<le> t \<or> t + nat (n - 1) \<le> s" using assms by auto
  have len: "length c < nat n" and len1: "length c \<le> nat (n - 1)"
    using length_cstrn[of "\<lambda>i. m (t + i)" "nat (n - 1)"] assms(1) by (auto simp: c_def)
  have nth: "\<And>i. i < length c \<Longrightarrow> c ! i = m (t + i)" by (simp add: c_def nth_cstrn)
  have res: "safestrcpy m s t n = (\<lambda>a. if s \<le> a \<and> a < s + length c then m (t + (a - s))
      else if a = s + length c \<or> a = s + length c + 1 \<and> length c < nat (n - 1) then 0 else m a)"
    unfolding safestrcpy_def safestrcpy_copy_effect[OF disj c_def] Let_def
    using assms(1) len1 by (auto simp: fun_eq_iff)
  have "cstrn (\<lambda>i. safestrcpy m s t n (s + i)) (nat n) = c"
    unfolding res by (rule cstrn_eqI) (use nth len c_def in \<open>auto dest: cstrn_nonzero\<close>)
  moreover have "\<forall>a. a < s \<or> s + nat n \<le> a \<longrightarrow> safestrcpy m s t n a = m a"
    unfolding res using len1 assms(1) by auto
  ultimately show ?thesis by (simp add: c_def)
qed

theorem safestrcpy_terminates_string_witness:
  "cstrn (\<lambda>i. safestrcpy (view [72, 105, 33, 0, 9, 9, 9]) 4 0 3 (4 + i)) (nat 3)
     = cstrn (\<lambda>i. view [72, 105, 33, 0, 9, 9, 9] (0 + i)) (nat (3 - 1))"
  using safestrcpy_terminates_string[of 3 4 0 "view [72, 105, 33, 0, 9, 9, 9]"] by simp

lemma strlen_at_stops: "(\<forall>i<k. s (n + i) \<noteq> 0) \<Longrightarrow> s (n + k) = 0 \<Longrightarrow> strlen_at s n = Some (n + k)"
proof (induction k arbitrary: n)
  case 0
  then show ?case by (simp add: strlen_at.simps)
next
  case (Suc k)
  from Suc.prems(1) have "s n \<noteq> 0" by (metis add_0_right zero_less_Suc)
  moreover have "strlen_at s (n + 1) = Some (n + 1 + k)"
    using Suc.prems by (intro Suc.IH) (auto simp: add.assoc dest: spec[of _ "Suc _"])
  ultimately show ?case by (simp add: strlen_at.simps[of s n])
qed

lemma strlen_at_sound:
  assumes "strlen_at s n = Some r"
  shows "n \<le> r \<and> s r = 0 \<and> (\<forall>i. n \<le> i \<and> i < r \<longrightarrow> s i \<noteq> 0)"
proof (rule strlen_at.raw_induct[where P = "\<lambda>s n r. n \<le> r \<and> s r = 0 \<and> (\<forall>i. n \<le> i \<and> i < r \<longrightarrow> s i \<noteq> 0)",
      OF _ assms])
  fix f and s :: mem and n r :: nat
  assume IH: "\<And>s n r. f s n = Some r \<Longrightarrow> n \<le> r \<and> s r = 0 \<and> (\<forall>i. n \<le> i \<and> i < r \<longrightarrow> s i \<noteq> 0)"
    and eq: "(if s n \<noteq> 0 then f s (n + 1) else Some n) = Some r"
  show "n \<le> r \<and> s r = 0 \<and> (\<forall>i. n \<le> i \<and> i < r \<longrightarrow> s i \<noteq> 0)"
  proof (cases "s n = 0")
    case False
    with eq have "f s (n + 1) = Some r" by simp
    from IH[OF this] have h: "n + 1 \<le> r" "s r = 0" "\<forall>i. n + 1 \<le> i \<and> i < r \<longrightarrow> s i \<noteq> 0" by auto
    have nz: "s i \<noteq> 0" if "n \<le> i" "i < r" for i
    proof -
      from that have "i = n \<or> n + 1 \<le> i" by linarith
      then show ?thesis using h(3) False that by blast
    qed
    from h(1) have "n \<le> r" by linarith
    with h(2) nz show ?thesis by blast
  qed (use eq in auto)
qed

text \<open>
  \<open>strlen\<close> returns \<open>k\<close> exactly when the first NUL is at offset \<open>k\<close>; on a buffer without
  one it does not return.
\<close>

theorem strlen_Some_iff: "strlen s = Some k \<longleftrightarrow> s k = 0 \<and> 0 \<notin> s ` {..<k}"
proof
  assume "strlen s = Some k"
  from strlen_at_sound[OF this[unfolded strlen_def]] show "s k = 0 \<and> 0 \<notin> s ` {..<k}" by auto
next
  assume "s k = 0 \<and> 0 \<notin> s ` {..<k}"
  then show "strlen s = Some k"
    unfolding strlen_def using strlen_at_stops[of k s 0] by (auto simp: image_iff)
qed

end
