(* ===== verification/FsInode.thy ===== *)
theory FsInode imports FsDisk CString begin

text \<open>
  The inode layer of \<open>kernel/filesystems/arm64/fs.c\<close>: inodes in their disk blocks, the inode
  table with its reference counts, and the lock that lets one process at a time use an inode.

  An inode pointer is an index of the table; the null pointer a caller may pass is kept apart
  as an option where the code can produce one.  A call that would sleep on the inode's lock,
  like one that panics, has no next state here: \<open>None\<close>.
\<close>

section \<open>Inodes on the disk\<close>

definition IBLOCK :: "nat \<Rightarrow> 'a fsst_scheme \<Rightarrow> nat" where
  "IBLOCK i st = i div IPB + sb_inodestart (sb st)"

text \<open>Where \<open>(struct dinode*)bp->data + inum % IPB\<close> points in its block.\<close>

definition dinode_off :: "nat \<Rightarrow> nat" where
  "dinode_off i = i mod IPB * DINODE_SIZE"

text \<open>The copy of the fields into the \<open>dinode\<close> at offset \<open>o\<close>, as \<open>iupdate\<close> does it.\<close>

definition store_dinode :: "nat \<Rightarrow> inode \<Rightarrow> mem \<Rightarrow> mem" where
  "store_dinode off ip m =
     fold (\<lambda>i m. wr32 m (off + 20 + 4 * i) (iaddrs ip i)) [0..<NDIRECT + 1]
       (wr32 (wr16 (wr16 (wr16 (wr16 m off (itype ip)) (off + 2) (imajor ip)) (off + 4) (iminor ip))
         (off + 6) (inlink ip)) (off + 16) (isize ip))"

text \<open>The copy back into the in-memory inode, as \<open>ilock\<close> does it.\<close>

definition load_dinode :: "nat \<Rightarrow> mem \<Rightarrow> inode \<Rightarrow> inode" where
  "load_dinode off m ip = ip\<lparr>itype := rd16 m off, imajor := rd16 m (off + 2),
     iminor := rd16 m (off + 4), inlink := rd16 m (off + 6), isize := rd32 m (off + 16),
     iaddrs := (\<lambda>i. if i < NDIRECT + 1 then rd32 m (off + 20 + 4 * i) else iaddrs ip i)\<rparr>"

definition iset :: "nat \<Rightarrow> (inode \<Rightarrow> inode) \<Rightarrow> 'a fsst_scheme \<Rightarrow> 'a fsst_scheme" where
  "iset ip f st = st\<lparr>itab := (itab st)(ip := f (itab st ip))\<rparr>"

definition iupdate :: "nat \<Rightarrow> 'a fsst_scheme \<Rightarrow> 'a fsst_scheme option" where
  "iupdate ip st =
     (let i = itab st ip; bp = IBLOCK (inum i) st
      in lwrite bp (store_dinode (dinode_off (inum i)) i (bread st bp)) st)"

section \<open>The inode table\<close>

definition iinit :: "'a fsst_scheme \<Rightarrow> 'a fsst_scheme" where
  "iinit st = fold (\<lambda>i. iset i (ilocked_update (\<lambda>_. False))) [0..<NINODE] st"

text \<open>
  The loop of \<open>iget\<close>: \<open>Inl ip\<close> when the inode is in the table at \<open>ip\<close>, else \<open>Inr slot\<close>, with \<open>slot\<close> the first
  entry not in use (the variable \<open>empty\<close> of the code).
\<close>

fun iget_scan :: "(nat \<Rightarrow> inode) \<Rightarrow> nat \<Rightarrow> nat \<Rightarrow> nat list \<Rightarrow> nat option \<Rightarrow> nat + nat option" where
  "iget_scan tab d n [] slot = Inr slot"
| "iget_scan tab d n (ip # ips) slot =
     (if iref (tab ip) > 0 \<and> idev (tab ip) = d \<and> inum (tab ip) = n then Inl ip
      else if slot = None \<and> iref (tab ip) = 0 then iget_scan tab d n ips (Some ip)
      else iget_scan tab d n ips slot)"

definition iget :: "nat \<Rightarrow> nat \<Rightarrow> 'a fsst_scheme \<Rightarrow> (nat \<times> 'a fsst_scheme) option" where
  "iget d n st =
     (case iget_scan (itab st) d n [0..<NINODE] None of
        Inl ip \<Rightarrow> Some (ip, iset ip (\<lambda>i. i\<lparr>iref := iref i + 1\<rparr>) st)
      | Inr None \<Rightarrow> None
      | Inr (Some ip) \<Rightarrow>
          Some (ip, iset ip (\<lambda>i. i\<lparr>idev := d, inum := n, iref := 1, ivalid := False\<rparr>) st))"

definition idup :: "nat \<Rightarrow> 'a fsst_scheme \<Rightarrow> 'a fsst_scheme" where
  "idup ip st = iset ip (\<lambda>i. i\<lparr>iref := iref i + 1\<rparr>) st"

function ialloc_from :: "nat \<Rightarrow> nat \<Rightarrow> u16 \<Rightarrow> 'a fsst_scheme \<Rightarrow> (nat \<times> 'a fsst_scheme) option" where
  "ialloc_from n d type st =
     (if n < sb_ninodes (sb st)
      then let bp = IBLOCK n st; data = bread st bp; off = dinode_off n in
        if rd16 data off = 0 then do {
          st1 \<leftarrow> lwrite bp (wr16 (memset data off 0 DINODE_SIZE) off type) st;
          iget d n st1
        } else ialloc_from (n + 1) d type st
      else None)"
  by pat_completeness auto
termination
  by (relation "measure (\<lambda>(n, d, type, st). sb_ninodes (sb st) - n)") auto

declare ialloc_from.simps [simp del]

definition ialloc :: "nat \<Rightarrow> u16 \<Rightarrow> 'a fsst_scheme \<Rightarrow> (nat \<times> 'a fsst_scheme) option" where
  "ialloc d type st = ialloc_from 1 d type st"

section \<open>Locking\<close>

definition ilock :: "nat \<Rightarrow> 'a fsst_scheme \<Rightarrow> 'a fsst_scheme option" where
  "ilock ip st =
     (if iref (itab st ip) < 1 then None
      else if ilocked (itab st ip) then None
      else let st1 = iset ip (ilocked_update (\<lambda>_. True)) st in
        if ivalid (itab st1 ip) then Some st1
        else let i = itab st1 ip;
               i' = load_dinode (dinode_off (inum i)) (bread st1 (IBLOCK (inum i) st1)) i;
               st2 = iset ip (\<lambda>_. i'\<lparr>ivalid := True\<rparr>) st1
             in if itype i' = 0 then None else Some st2)"

definition iunlock :: "nat \<Rightarrow> 'a fsst_scheme \<Rightarrow> 'a fsst_scheme option" where
  "iunlock ip st =
     (if \<not> ilocked (itab st ip) \<or> iref (itab st ip) < 1 then None
      else Some (iset ip (ilocked_update (\<lambda>_. False)) st))"

text \<open>\<open>stati\<close> fills the \<open>struct stat\<close> that \<open>fstat\<close> copies to the user.\<close>

record stat =
  st_dev :: nat
  st_ino :: nat
  st_type :: u16
  st_nlink :: u16
  st_size :: u64

definition stati :: "nat \<Rightarrow> 'a fsst_scheme \<Rightarrow> stat" where
  "stati ip st = (let i = itab st ip in
     \<lparr>st_dev = idev i, st_ino = inum i, st_type = itype i, st_nlink = inlink i,
      st_size = ucast (isize i)\<rparr>)"

section \<open>Encoding and decoding\<close>

lemma fold_wr32_same:
  "i < n \<Longrightarrow> rd32 (fold (\<lambda>i m. wr32 m (a + 4 * i) (f i)) [0..<n] m) (a + 4 * i) = f i"
proof (induction n)
  case (Suc n)
  then show ?case by (cases "i = n") (auto simp: mem_simps)
qed simp

lemma fold_wr32_frame:
  "x < a \<or> a + 4 * n \<le> x \<Longrightarrow> fold (\<lambda>i m. wr32 m (a + 4 * i) (f i)) [0..<n] m x = m x"
  by (induction n) (auto simp: wr32_other)

lemma fold_wr32_rd16:
  "c + 2 \<le> a \<Longrightarrow> rd16 (fold (\<lambda>i m. wr32 m (a + 4 * i) (f i)) [0..<n] m) c = rd16 m c"
  by (rule rd16_cong) (auto intro!: fold_wr32_frame)

lemma fold_wr32_rd32:
  "c + 4 \<le> a \<Longrightarrow> rd32 (fold (\<lambda>i m. wr32 m (a + 4 * i) (f i)) [0..<n] m) c = rd32 m c"
  by (rule rd32_cong) (auto intro!: fold_wr32_frame)

lemma store_dinode_frame:
  assumes "x < off \<or> off + DINODE_SIZE \<le> x"
  shows "store_dinode off ip m x = m x"
  using assms by (auto simp: store_dinode_def fold_wr32_frame wr16_other wr32_other simp del: upt_Suc)

lemma rd16_fields:
  "rd16 (store_dinode off ip m) off = itype ip"
  "rd16 (store_dinode off ip m) (off + 2) = imajor ip"
  "rd16 (store_dinode off ip m) (off + 4) = iminor ip"
  "rd16 (store_dinode off ip m) (off + 6) = inlink ip"
  "rd32 (store_dinode off ip m) (off + 16) = isize ip"
  by (simp_all add: store_dinode_def fold_wr32_rd16 fold_wr32_rd32 mem_simps del: upt_Suc)

text \<open>The disk fields of an inode: what \<open>iupdate\<close> writes and \<open>ilock\<close> reads back.\<close>

definition same_dinode :: "inode \<Rightarrow> inode \<Rightarrow> bool" where
  "same_dinode i j \<longleftrightarrow> itype i = itype j \<and> imajor i = imajor j \<and> iminor i = iminor j
     \<and> inlink i = inlink j \<and> isize i = isize j \<and> (\<forall>n < NDIRECT + 1. iaddrs i n = iaddrs j n)"

lemma load_store_dinode: "same_dinode (load_dinode off (store_dinode off ip m) jp) ip"
proof -
  have "rd32 (store_dinode off ip m) (off + 20 + 4 * n) = iaddrs ip n" if "n < NDIRECT + 1" for n
    using that unfolding store_dinode_def by (rule fold_wr32_same)
  then show ?thesis by (simp add: same_dinode_def load_dinode_def rd16_fields del: add_2_eq_Suc')
qed

lemma load_dinode_cong:
  assumes "\<And>x. off \<le> x \<Longrightarrow> x < off + DINODE_SIZE \<Longrightarrow> m x = m' x"
  shows "load_dinode off m ip = load_dinode off m' ip"
proof -
  have "rd32 m (off + 20 + 4 * i) = rd32 m' (off + 20 + 4 * i)" if "i < NDIRECT + 1" for i
    by (rule rd32_cong) (use that in \<open>auto intro!: assms\<close>)
  moreover have "rd32 m (off + 16) = rd32 m' (off + 16)" by (rule rd32_cong) (auto intro!: assms)
  moreover have "rd16 m (off + c) = rd16 m' (off + c)" if "c < 8" for c
    by (rule rd16_cong) (use that in \<open>auto intro!: assms\<close>)
  from this[of 0] this[of 2] this[of 4] this[of 6]
  have "rd16 m off = rd16 m' off" "rd16 m (off + 2) = rd16 m' (off + 2)"
    "rd16 m (off + 4) = rd16 m' (off + 4)" "rd16 m (off + 6) = rd16 m' (off + 6)" by simp_all
  ultimately show ?thesis by (simp add: load_dinode_def fun_eq_iff)
qed

lemma dinode_apart:
  assumes "IBLOCK i st = IBLOCK j st" and "i \<noteq> j"
  shows "dinode_off i + DINODE_SIZE \<le> dinode_off j \<or> dinode_off j + DINODE_SIZE \<le> dinode_off i"
proof -
  have "i div 4 = j div 4" using assms(1) by (simp add: IBLOCK_def)
  then have "i mod 4 \<noteq> j mod 4" using assms(2) by (metis div_mult_mod_eq)
  then show ?thesis by (auto simp: dinode_off_def)
qed

text \<open>
  C8: an inode written back is the inode read in.  After \<open>iupdate ip\<close>, loading inode number
  \<open>inum ip\<close> from its disk block gives the in-memory fields of \<open>ip\<close> back, and every other
  inode on the disk, in the same block or another, loads as before.
\<close>

theorem iupdate_roundtrip:
  assumes "iupdate ip st = Some st'"
  shows "same_dinode (load_dinode (dinode_off (inum (itab st ip)))
      (bread st' (IBLOCK (inum (itab st ip)) st')) jp) (itab st ip)
    \<and> (\<forall>n. n \<noteq> inum (itab st ip) \<longrightarrow> load_dinode (dinode_off n) (bread st' (IBLOCK n st')) jp
        = load_dinode (dinode_off n) (bread st (IBLOCK n st)) jp)"
proof -
  let ?n = "inum (itab st ip)" and ?i = "itab st ip"
  let ?v = "store_dinode (dinode_off ?n) ?i (cache st (IBLOCK ?n st))"
  have c: "cache st' = (cache st)(IBLOCK ?n st := ?v)" and sb: "sb st' = sb st"
    using assms by (auto simp: iupdate_def Let_def bread_def dest: lwrite_SomeD)
  have ib: "IBLOCK k st' = IBLOCK k st" for k by (simp add: IBLOCK_def sb)
  have "load_dinode (dinode_off n) (bread st' (IBLOCK n st')) jp
      = load_dinode (dinode_off n) (bread st (IBLOCK n st)) jp" if n: "n \<noteq> ?n" for n
  proof (cases "IBLOCK n st = IBLOCK ?n st")
    case True
    show ?thesis
      unfolding ib bread_def c
      by (rule load_dinode_cong) (use dinode_apart[OF True n] True in \<open>auto simp: store_dinode_frame\<close>)
  qed (simp add: bread_def c ib)
  then show ?thesis by (simp add: bread_def c ib load_store_dinode)
qed


lemma demo_iupdate: "\<exists>st'. iupdate 0 demo_fs = Some st'"
  by (auto simp: iupdate_def Let_def lwrite_def log_write_def bset_def demo_fs_def)

theorem iupdate_roundtrip_witness:
  "\<exists>st'. iupdate 0 demo_fs = Some st' \<and> same_dinode
     (load_dinode (dinode_off 0) (bread st' (IBLOCK 0 st')) (itab demo_fs 0)) (itab demo_fs 0)"
proof -
  obtain st' where u: "iupdate 0 demo_fs = Some st'" using demo_iupdate by blast
  have "inum (itab demo_fs 0) = 0" by (simp add: demo_fs_def)
  then show ?thesis using iupdate_roundtrip[OF u, of "itab demo_fs 0"] u by auto
qed

section \<open>The table as reference counts\<close>

text \<open>
  At most one entry of the table is about a given inode; \<open>irefs\<close> is the abstract table, the
  number of references to each inode.
\<close>

definition table_ok :: "'a fsst_scheme \<Rightarrow> bool" where
  "table_ok st \<longleftrightarrow> (\<forall>ip < NINODE. \<forall>jp < NINODE. 0 < iref (itab st ip) \<longrightarrow> 0 < iref (itab st jp)
     \<longrightarrow> idev (itab st ip) = idev (itab st jp) \<longrightarrow> inum (itab st ip) = inum (itab st jp) \<longrightarrow> ip = jp)"

definition refers :: "'a fsst_scheme \<Rightarrow> nat \<Rightarrow> nat \<Rightarrow> nat \<Rightarrow> bool" where
  "refers st ip d n \<longleftrightarrow> ip < NINODE \<and> 0 < iref (itab st ip) \<and> idev (itab st ip) = d \<and> inum (itab st ip) = n"

lemma table_ok_iff: "table_ok st \<longleftrightarrow> (\<forall>ip jp d n. refers st ip d n \<longrightarrow> refers st jp d n \<longrightarrow> ip = jp)"
  by (auto simp: table_ok_def refers_def)

lemma refers_iset_keep:
  assumes "idev (f (itab st ip)) = idev (itab st ip)" "inum (f (itab st ip)) = inum (itab st ip)"
    and "0 < iref (f (itab st ip)) \<longleftrightarrow> 0 < iref (itab st ip)"
  shows "refers (iset ip f st) jp d n \<longleftrightarrow> refers st jp d n"
  using assms by (auto simp: refers_def iset_def)

lemma iget_scan_Inl:
  "iget_scan tab d n ips e = Inl ip \<Longrightarrow> ip \<in> set ips \<and> 0 < iref (tab ip) \<and> idev (tab ip) = d \<and> inum (tab ip) = n"
  by (induction tab d n ips e rule: iget_scan.induct) (auto split: if_splits)

lemma iget_scan_Inr:
  "iget_scan tab d n ips e = Inr r \<Longrightarrow> (\<forall>ip \<in> set ips. \<not> (0 < iref (tab ip) \<and> idev (tab ip) = d \<and> inum (tab ip) = n))
     \<and> (case e of Some x \<Rightarrow> r = Some x
        | None \<Rightarrow> (case r of None \<Rightarrow> \<forall>ip \<in> set ips. iref (tab ip) \<noteq> 0
                   | Some ip \<Rightarrow> ip \<in> set ips \<and> iref (tab ip) = 0))"
  by (induction tab d n ips e rule: iget_scan.induct) (auto split: if_splits option.splits)

text \<open>
  The two ways \<open>iget\<close> can go: the inode is in the table and gets one more reference, or a free
  entry is given to it.
\<close>

lemma iget_cases:
  assumes "iget d n st = Some (ip, st')"
  obtains (hit) "refers st ip d n" "st' = iset ip (\<lambda>i. i\<lparr>iref := iref i + 1\<rparr>) st"
  | (miss) "\<And>jp. \<not> refers st jp d n" "ip < NINODE" "iref (itab st ip) = 0"
      "st' = iset ip (\<lambda>i. i\<lparr>idev := d, inum := n, iref := 1, ivalid := False\<rparr>) st"
  using assms
  by (auto simp: iget_def refers_def split: sum.splits option.splits dest!: iget_scan_Inl iget_scan_Inr)

lemma iget_None:
  "iget d n st = None \<longleftrightarrow> (\<forall>ip < NINODE. iref (itab st ip) \<noteq> 0) \<and> (\<nexists>ip. refers st ip d n)"
proof (cases "iget_scan (itab st) d n [0..<NINODE] None")
  case (Inl ip)
  then show ?thesis using iget_scan_Inl[OF Inl] by (auto simp: iget_def refers_def)
next
  case (Inr r)
  show ?thesis using iget_scan_Inr[OF Inr] Inr
    by (auto simp: iget_def refers_def split: option.splits)
qed

text \<open>
  \<open>iget\<close> keeps at most one entry per inode.  It returns an entry for exactly the inode
  asked for, with one reference more than that inode had (an entry taken anew has one and is
  not valid), and no other entry, no block and nothing else changes; it panics only when the
  inode is not in the table and every entry is in use.
\<close>

theorem iget_table:
  assumes "table_ok st"
  shows "(case iget d n st of
      None \<Rightarrow> (\<forall>ip < NINODE. iref (itab st ip) \<noteq> 0) \<and> (\<nexists>ip. refers st ip d n)
    | Some (ip, st') \<Rightarrow> table_ok st' \<and> refers st' ip d n
        \<and> (if refers st ip d n then itab st' ip = (itab st ip)\<lparr>iref := iref (itab st ip) + 1\<rparr>
           else (\<nexists>jp. refers st jp d n) \<and> iref (itab st ip) = 0 \<and> iref (itab st' ip) = 1
             \<and> \<not> ivalid (itab st' ip))
        \<and> st' = st\<lparr>itab := (itab st)(ip := itab st' ip)\<rparr>)"
proof (cases "iget d n st")
  case None
  then show ?thesis using iget_None[of d n st] by simp
next
  case (Some p)
  obtain ip st' where p: "p = (ip, st')" by force
  from Some[unfolded p] show ?thesis
  proof (cases rule: iget_cases)
    case hit
    have "refers st' jp d' n' \<longleftrightarrow> refers st jp d' n'" for jp d' n'
      using hit by (auto simp: refers_def iset_def)
    then have "table_ok st'" using assms by (simp add: table_ok_iff)
    then show ?thesis using hit by (simp add: Some p iset_def refers_def)
  next
    case miss
    have r: "refers st' jp d' n' \<longleftrightarrow> jp = ip \<and> d' = d \<and> n' = n \<or> jp \<noteq> ip \<and> refers st jp d' n'" for jp d' n'
      using miss(2,4) by (auto simp: refers_def iset_def)
    have "table_ok st'" using assms miss(1) by (simp only: table_ok_iff r) blast
    then show ?thesis using miss by (simp add: Some p iset_def refers_def)
  qed
qed

theorem iget_table_witness:
  "(case iget 1 1 demo_fs of None \<Rightarrow> False | Some (ip, st') \<Rightarrow> table_ok st' \<and> refers st' ip 1 1)"
proof -
  have t: "table_ok demo_fs" and "\<not> (\<forall>ip < NINODE. iref (itab demo_fs ip) \<noteq> 0)"
    by (auto simp: table_ok_def demo_fs_def intro!: exI[of _ 0])
  then show ?thesis using iget_table[OF t, of 1 1] by (auto split: option.splits)
qed


section \<open>Allocating an inode\<close>

text \<open>Inode number \<open>n\<close> as the disk has it, in a blank in-memory inode.\<close>

definition blank_inode :: inode where
  "blank_inode = \<lparr>idev = 0, inum = 0, iref = 0, ilocked = False, ivalid = False, itype = 0,
     imajor = 0, iminor = 0, inlink = 0, isize = 0, iaddrs = (\<lambda>_. 0)\<rparr>"

definition on_disk :: "'a fsst_scheme \<Rightarrow> nat \<Rightarrow> inode" where
  "on_disk st n = load_dinode (dinode_off n) (bread st (IBLOCK n st)) blank_inode"

lemma on_disk_type: "itype (on_disk st n) = rd16 (bread st (IBLOCK n st)) (dinode_off n)"
  by (simp add: on_disk_def load_dinode_def)

lemma ialloc_from_Some:
  assumes "ialloc_from n d type st = Some (ip, st')"
  shows "\<exists>m st1. n \<le> m \<and> m < sb_ninodes (sb st) \<and> itype (on_disk st m) = 0
    \<and> (\<forall>j. n \<le> j \<and> j < m \<longrightarrow> itype (on_disk st j) \<noteq> 0)
    \<and> lwrite (IBLOCK m st) (wr16 (memset (bread st (IBLOCK m st)) (dinode_off m) 0 DINODE_SIZE)
        (dinode_off m) type) st = Some st1 \<and> iget d m st1 = Some (ip, st')"
  using assms
proof (induction n d type st rule: ialloc_from.induct)
  case (1 n d type st)
  have n: "n < sb_ninodes (sb st)"
    using "1.prems" by (auto simp: ialloc_from.simps[of n] split: if_splits)
  show ?case
  proof (cases "itype (on_disk st n) = 0")
    case True
    then have f: "rd16 (bread st (IBLOCK n st)) (dinode_off n) = 0" by (simp add: on_disk_type)
    then show ?thesis
      using "1.prems" n True
      by (intro exI[of _ n]) (auto simp: ialloc_from.simps[of n] Let_def Option.bind_eq_Some_conv)
  next
    case False
    then have f: "rd16 (bread st (IBLOCK n st)) (dinode_off n) \<noteq> 0" by (simp add: on_disk_type)
    then have "ialloc_from (n + 1) d type st = Some (ip, st')"
      using "1.prems" n by (auto simp: ialloc_from.simps[of n])
    from "1.IH"[OF n refl refl refl f this] obtain m st1 where
      "n + 1 \<le> m \<and> m < sb_ninodes (sb st) \<and> itype (on_disk st m) = 0
       \<and> (\<forall>j. n + 1 \<le> j \<and> j < m \<longrightarrow> itype (on_disk st j) \<noteq> 0)
       \<and> lwrite (IBLOCK m st) (wr16 (memset (bread st (IBLOCK m st)) (dinode_off m) 0 DINODE_SIZE)
        (dinode_off m) type) st = Some st1 \<and> iget d m st1 = Some (ip, st')" by auto
    moreover from this have "\<forall>j. n \<le> j \<and> j < m \<longrightarrow> itype (on_disk st j) \<noteq> 0"
      using False by (metis Suc_eq_plus1 le_antisym not_less_eq_eq)
    ultimately show ?thesis by (intro exI[of _ m] exI[of _ st1]) auto
  qed
qed

lemma memset_dinode:
  "load_dinode off (wr16 (memset m off 0 DINODE_SIZE) off type) blank_inode = blank_inode\<lparr>itype := type\<rparr>"
proof -
  let ?m = "wr16 (memset m off 0 DINODE_SIZE) off type"
  have z: "?m x = 0" if "off + 2 \<le> x" "x < off + DINODE_SIZE" for x
    using that by (simp add: wr16_other memset_apply)
  have "rd32 ?m c = 0" if "off + 2 \<le> c" "c + 4 \<le> off + DINODE_SIZE" for c
    using that by (simp add: rd32_def z)
  moreover have "rd16 ?m c = 0" if "off + 2 \<le> c" "c + 2 \<le> off + DINODE_SIZE" for c
    using that by (simp add: rd16_def z)
  ultimately show ?thesis
    by (simp add: load_dinode_def blank_inode_def rd16_wr16 fun_eq_iff)
qed

text \<open>
  C7: \<open>ialloc\<close> gives the lowest inode number that is free on the disk, never one in use nor
  inode 0.  On the disk that inode becomes empty, with the given type; every other inode is
  as before, and so is every block but the inode's own.
\<close>

theorem ialloc_fresh:
  assumes "ialloc d type st = Some (ip, st')"
  shows "\<exists>n. 1 \<le> n \<and> n < sb_ninodes (sb st) \<and> itype (on_disk st n) = 0
    \<and> (\<forall>j \<in> {1 ..< n}. itype (on_disk st j) \<noteq> 0) \<and> refers st' ip d n
    \<and> on_disk st' n = blank_inode\<lparr>itype := type\<rparr>
    \<and> (\<forall>j. j \<noteq> n \<longrightarrow> on_disk st' j = on_disk st j)
    \<and> (\<forall>b. b \<noteq> IBLOCK n st \<longrightarrow> cache st' b = cache st b)"
proof -
  from ialloc_from_Some[OF assms[unfolded ialloc_def]] obtain n st1 where
    n: "1 \<le> n" "n < sb_ninodes (sb st)" "itype (on_disk st n) = 0"
    and low: "\<forall>j \<in> {1 ..< n}. itype (on_disk st j) \<noteq> 0"
    and w: "lwrite (IBLOCK n st) (wr16 (memset (bread st (IBLOCK n st)) (dinode_off n) 0 DINODE_SIZE)
        (dinode_off n) type) st = Some st1" and g: "iget d n st1 = Some (ip, st')" by auto
  note w' = lwrite_SomeD(1,2)[OF w]
  have g': "cache st' = cache st1" "sb st' = sb st1" and r: "refers st' ip d n"
    using g by (cases rule: iget_cases; auto simp: iset_def refers_def)+
  have ib: "IBLOCK k st' = IBLOCK k st" for k by (simp add: IBLOCK_def g' w')
  have "on_disk st' j = on_disk st j" if j: "j \<noteq> n" for j
  proof (cases "IBLOCK j st = IBLOCK n st")
    case True
    show ?thesis unfolding on_disk_def ib bread_def g' w'
      by (rule load_dinode_cong)
         (use dinode_apart[OF True j] True in \<open>auto simp: wr16_other memset_apply\<close>)
  qed (simp add: on_disk_def ib bread_def g' w')
  moreover have "on_disk st' n = blank_inode\<lparr>itype := type\<rparr>"
    by (simp add: on_disk_def ib bread_def g' w' memset_dinode)
  ultimately show ?thesis using n low r w' g' by (intro exI[of _ n]) auto
qed

lemma demo_ialloc: "\<exists>st'. ialloc 1 T_DIR demo_fs = Some (0, st')"
proof -
  have f: "n < 8 \<Longrightarrow> rd16 (bread demo_fs (IBLOCK n demo_fs)) (dinode_off n) = 0" for n
    by (auto simp: bread_def IBLOCK_def demo_fs_def demo_sb_def rd16_def)
  obtain st1 where st1: "lwrite (IBLOCK 1 demo_fs) (wr16 (memset (bread demo_fs (IBLOCK 1 demo_fs))
        (dinode_off 1) 0 DINODE_SIZE) (dinode_off 1) T_DIR) demo_fs = Some st1"
    by (auto simp: lwrite_def log_write_def bset_def Let_def demo_fs_def)
  have "itab st1 = itab demo_fs" using lwrite_SomeD(3)[OF st1] .
  then have "iget_scan (itab st1) 1 1 [0..<NINODE] None = Inr (Some 0)"
    by (simp add: demo_fs_def upt_rec)
  then obtain st' where "iget 1 1 st1 = Some (0, st')" by (simp add: iget_def)
  moreover have "sb_ninodes (sb demo_fs) = 8" by (simp add: demo_fs_def demo_sb_def)
  ultimately show ?thesis using f[of 1] st1
    unfolding ialloc_def ialloc_from.simps[of 1] by simp
qed

theorem ialloc_fresh_witness:
  "\<exists>st' n. ialloc 1 T_DIR demo_fs = Some (0, st') \<and> refers st' 0 1 n
     \<and> on_disk st' n = blank_inode\<lparr>itype := T_DIR\<rparr>"
  using ialloc_fresh[of 1 T_DIR demo_fs 0] demo_ialloc by blast

end
