(* ===== verification/FsFile.thy ===== *)
theory FsFile imports FsInode begin

text \<open>
  Inode content, from \<open>kernel/filesystems/arm64/fs.c\<close>: the map from file offsets to disk blocks,
  truncation, dropping an inode, and reading and writing.

  \<open>readi\<close> and \<open>writei\<close> copy through \<open>either_copyout\<close> and \<open>either_copyin\<close>, so they take the
  copy as an argument: for a user address it is the page-table copy of theory \<open>Vm\<close>, for a
  kernel address it is \<open>memmove\<close>.  The locale \<open>copyout_contract\<close> states what the callers
  rely on.  File offsets are \<open>uint\<close>s up to the check of the arguments; after it no sum of
  them wraps, and the loops count in \<open>nat\<close>.
\<close>

section \<open>The block map\<close>

definition set_addr :: "nat \<Rightarrow> nat \<Rightarrow> nat \<Rightarrow> 'a fsst_scheme \<Rightarrow> 'a fsst_scheme" where
  "set_addr ip n r st = iset ip (\<lambda>i. i\<lparr>iaddrs := (iaddrs i)(n := of_nat r)\<rparr>) st"

text \<open>\<open>if((addr = ip->addrs[n]) == 0) ip->addrs[n] = addr = balloc(ip->dev);\<close>\<close>

definition get_addr :: "nat \<Rightarrow> nat \<Rightarrow> 'a fsst_scheme \<Rightarrow> (nat \<times> 'a fsst_scheme) option" where
  "get_addr ip n st =
     (let addr = unat (iaddrs (itab st ip) n) in
      if addr = 0 then do { (r, st1) \<leftarrow> balloc st; Some (r, set_addr ip n r st1) }
      else Some (addr, st))"

definition bmap :: "nat \<Rightarrow> nat \<Rightarrow> 'a fsst_scheme \<Rightarrow> (nat \<times> 'a fsst_scheme) option" where
  "bmap ip bn st =
     (if bn < NDIRECT then get_addr ip bn st
      else let bn = bn - NDIRECT in
        if bn < NINDIRECT then do {
          (ib, st1) \<leftarrow> get_addr ip NDIRECT st;
          let addr = unat (rd32 (bread st1 ib) (4 * bn));
          (if addr = 0 then do {
             (r, st2) \<leftarrow> balloc st1;
             st3 \<leftarrow> lwrite ib (wr32 (bread st2 ib) (4 * bn) (of_nat r)) st2;
             Some (r, st3)
           } else Some (addr, st1))
        } else None)"

definition itrunc :: "nat \<Rightarrow> 'a fsst_scheme \<Rightarrow> 'a fsst_scheme option" where
  "itrunc ip st = do {
     st1 \<leftarrow> fold_opt (\<lambda>i st.
         if iaddrs (itab st ip) i \<noteq> 0 then do {
           st' \<leftarrow> bfree (unat (iaddrs (itab st ip) i)) st;
           Some (set_addr ip i 0 st')
         } else Some st) [0..<NDIRECT] st;
     st2 \<leftarrow> (if iaddrs (itab st1 ip) NDIRECT \<noteq> 0 then do {
         let ib = unat (iaddrs (itab st1 ip) NDIRECT);
         st' \<leftarrow> fold_opt (\<lambda>j st.
           let a = rd32 (bread st ib) (4 * j)
           in if a \<noteq> 0 then bfree (unat a) st else Some st) [0..<NINDIRECT] st1;
         st'' \<leftarrow> bfree ib st';
         Some (set_addr ip NDIRECT 0 st'')
       } else Some st1);
     iupdate ip (iset ip (isize_update (\<lambda>_. 0)) st2)
   }"

section \<open>Dropping an inode\<close>

definition iput :: "nat \<Rightarrow> 'a fsst_scheme \<Rightarrow> 'a fsst_scheme option" where
  "iput ip st = do {
     st1 \<leftarrow> (if iref (itab st ip) = 1 \<and> ivalid (itab st ip) \<and> inlink (itab st ip) = 0
       then if ilocked (itab st ip) then None
       else do {
         st' \<leftarrow> itrunc ip (iset ip (ilocked_update (\<lambda>_. True)) st);
         st'' \<leftarrow> iupdate ip (iset ip (itype_update (\<lambda>_. 0)) st');
         Some (iset ip (\<lambda>i. i\<lparr>ivalid := False, ilocked := False\<rparr>) st'')
       } else Some st);
     Some (iset ip (\<lambda>i. i\<lparr>iref := iref i - 1\<rparr>) st1)
   }"

definition iunlockput :: "nat \<Rightarrow> 'a fsst_scheme \<Rightarrow> 'a fsst_scheme option" where
  "iunlockput ip st = do { st1 \<leftarrow> iunlock ip st; iput ip st1 }"

section \<open>Reading\<close>

text \<open>
  \<open>cp dst bytes m\<close> is \<open>either_copyout\<close> of \<open>bytes\<close> to \<open>dst\<close> in the destination memory \<open>m\<close>: whether
  it succeeded, and the memory after it.
\<close>

type_synonym 'm copyout_fn = "nat \<Rightarrow> byte list \<Rightarrow> 'm \<Rightarrow> bool \<times> 'm"

function readi_loop :: "nat \<Rightarrow> 'm copyout_fn \<Rightarrow> nat \<Rightarrow> nat \<Rightarrow> nat \<Rightarrow> nat \<Rightarrow> 'a fsst_scheme \<Rightarrow> 'm
    \<Rightarrow> (int \<times> 'a fsst_scheme \<times> 'm) option" where
  "readi_loop ip cp dst off tot n st m =
     (if tot < n then do {
        (b, st1) \<leftarrow> bmap ip (off div BSIZE) st;
        let k = min (n - tot) (BSIZE - off mod BSIZE);
        (case cp dst (map (\<lambda>i. bread st1 b (off mod BSIZE + i)) [0..<k]) m of
           (False, m1) \<Rightarrow> Some (-1, st1, m1)
         | (True, m1) \<Rightarrow> readi_loop ip cp (dst + k) (off + k) (tot + k) n st1 m1)
      } else Some (int tot, st, m))"
  by pat_completeness auto
termination
  by (relation "measure (\<lambda>(ip, cp, dst, off, tot, n, st, m). n - tot)") (auto simp: min_def)

declare readi_loop.simps [simp del]

definition readi :: "nat \<Rightarrow> 'm copyout_fn \<Rightarrow> nat \<Rightarrow> u32 \<Rightarrow> u32 \<Rightarrow> 'a fsst_scheme \<Rightarrow> 'm
    \<Rightarrow> (int \<times> 'a fsst_scheme \<times> 'm) option" where
  "readi ip cp dst off n st m =
     (let size = isize (itab st ip) in
      if off > size \<or> off + n < off then Some (0, st, m)
      else let n = (if off + n > size then size - off else n)
        in readi_loop ip cp dst (unat off) 0 (unat n) st m)"

section \<open>Writing\<close>

text \<open>
  \<open>ci src k\<close> is \<open>either_copyin\<close> of \<open>k\<close> bytes from \<open>src\<close>: the bytes it stored before it returned,
  and whether it succeeded.  A failed copy leaves a changed buffer that is not logged.
\<close>

type_synonym copyin_fn = "nat \<Rightarrow> nat \<Rightarrow> byte list \<times> bool"

definition blit :: "mem \<Rightarrow> nat \<Rightarrow> byte list \<Rightarrow> mem" where
  "blit m a bs = (\<lambda>x. if a \<le> x \<and> x < a + length bs then bs ! (x - a) else m x)"

function writei_loop :: "nat \<Rightarrow> copyin_fn \<Rightarrow> nat \<Rightarrow> nat \<Rightarrow> nat \<Rightarrow> nat \<Rightarrow> 'a fsst_scheme
    \<Rightarrow> (nat \<times> nat \<times> 'a fsst_scheme) option" where
  "writei_loop ip ci src off tot n st =
     (if tot < n then do {
        (b, st1) \<leftarrow> bmap ip (off div BSIZE) st;
        let k = min (n - tot) (BSIZE - off mod BSIZE);
        (case ci src k of (bs, ok) \<Rightarrow>
          (let st2 = bset b (blit (bread st1 b) (off mod BSIZE) bs) st1 in
           if ok then do {
             st3 \<leftarrow> log_write b st2;
             writei_loop ip ci (src + k) (off + k) (tot + k) n st3
           } else Some (tot, off, st2)))
      } else Some (tot, off, st))"
  by pat_completeness auto
termination
  by (relation "measure (\<lambda>(ip, ci, src, off, tot, n, st). n - tot)") (auto simp: min_def)

declare writei_loop.simps [simp del]

definition writei :: "nat \<Rightarrow> copyin_fn \<Rightarrow> nat \<Rightarrow> u32 \<Rightarrow> u32 \<Rightarrow> 'a fsst_scheme
    \<Rightarrow> (int \<times> 'a fsst_scheme) option" where
  "writei ip ci src off n st =
     (if off > isize (itab st ip) \<or> off + n < off then Some (-1, st)
      else if unat (off + n) > MAXFILE * BSIZE then Some (-1, st)
      else do {
        (tot, off1, st1) \<leftarrow> writei_loop ip ci src (unat off) 0 (unat n) st;
        let st2 = (if off1 > unat (isize (itab st1 ip))
          then iset ip (isize_update (\<lambda>_. of_nat off1)) st1 else st1);
        st3 \<leftarrow> iupdate ip st2;
        Some (int tot, st3)
      })"

section \<open>The blocks of a file\<close>

text \<open>
  Slot \<open>s\<close> of an inode: its \<open>s\<close>th data block for \<open>s < MAXFILE\<close>, its indirect block for
  \<open>s = MAXFILE\<close>; 0 is a block the file does not have.
\<close>

definition slot :: "'a fsst_scheme \<Rightarrow> nat \<Rightarrow> nat \<Rightarrow> nat" where
  "slot st ip s =
     (let ib = unat (iaddrs (itab st ip) NDIRECT) in
      if s < NDIRECT then unat (iaddrs (itab st ip) s)
      else if s < MAXFILE then if ib = 0 then 0 else unat (rd32 (bread st ib) (4 * (s - NDIRECT)))
      else ib)"

text \<open>The blocks are data blocks in use, no two slots share one.\<close>

definition inode_ok :: "'a fsst_scheme \<Rightarrow> nat \<Rightarrow> bool" where
  "inode_ok st ip \<longleftrightarrow> inum (itab st ip) < sb_ninodes (sb st)
     \<and> (\<forall>s \<le> MAXFILE. slot st ip s \<noteq> 0 \<longrightarrow>
          dstart st \<le> slot st ip s \<and> slot st ip s < sb_size (sb st) \<and> used st (slot st ip s))
     \<and> (\<forall>s \<le> MAXFILE. \<forall>t \<le> MAXFILE. slot st ip s = slot st ip t \<longrightarrow> slot st ip s \<noteq> 0 \<longrightarrow> s = t)"

definition owns :: "'a fsst_scheme \<Rightarrow> nat \<Rightarrow> nat \<Rightarrow> bool" where
  "owns st ip b \<longleftrightarrow> b \<noteq> 0 \<and> (\<exists>s \<le> MAXFILE. slot st ip s = b)"

text \<open>The byte at offset \<open>i\<close> of the file; a block the file does not have reads as zeros.\<close>

definition fdata :: "'a fsst_scheme \<Rightarrow> nat \<Rightarrow> nat \<Rightarrow> byte" where
  "fdata st ip i =
     (if slot st ip (i div BSIZE) = 0 then 0 else cache st (slot st ip (i div BSIZE)) (i mod BSIZE))"

text \<open>Every block below the size is there.\<close>

definition dense :: "'a fsst_scheme \<Rightarrow> nat \<Rightarrow> bool" where
  "dense st ip \<longleftrightarrow> unat (isize (itab st ip)) \<le> MAXFILE * BSIZE
     \<and> (\<forall>s < MAXFILE. s * BSIZE < unat (isize (itab st ip)) \<longrightarrow> slot st ip s \<noteq> 0)"

lemma inode_okD:
  assumes "inode_ok st ip" and "s \<le> MAXFILE" and "slot st ip s \<noteq> 0"
  shows "dstart st \<le> slot st ip s" "slot st ip s < sb_size (sb st)" "used st (slot st ip s)"
    "t \<le> MAXFILE \<Longrightarrow> slot st ip t = slot st ip s \<Longrightarrow> t = s"
  using assms by (auto simp: inode_ok_def)

lemma slot_ib: "slot st ip MAXFILE = unat (iaddrs (itab st ip) NDIRECT)"
  by (simp add: slot_def Let_def)

lemma slot_dir: "s < NDIRECT \<Longrightarrow> slot st ip s = unat (iaddrs (itab st ip) s)"
  by (simp add: slot_def Let_def)

lemma slot_ind:
  "NDIRECT \<le> s \<Longrightarrow> s < MAXFILE \<Longrightarrow> slot st ip s =
     (if slot st ip MAXFILE = 0 then 0 else unat (rd32 (cache st (slot st ip MAXFILE)) (4 * (s - NDIRECT))))"
  by (simp add: slot_def Let_def bread_def)

text \<open>The block map depends on the addresses and on the indirect block only.\<close>

lemma slot_cong:
  assumes "\<And>n. n \<le> NDIRECT \<Longrightarrow> iaddrs (itab st' ip) n = iaddrs (itab st ip) n"
    and "slot st ip MAXFILE \<noteq> 0 \<Longrightarrow> cache st' (slot st ip MAXFILE) = cache st (slot st ip MAXFILE)"
  shows "slot st' ip s = slot st ip s"
proof -
  have i: "slot st' ip MAXFILE = slot st ip MAXFILE" using assms(1)[of NDIRECT] by (simp add: slot_ib)
  consider "s < NDIRECT" | "NDIRECT \<le> s" "s < MAXFILE" | "MAXFILE \<le> s" by force
  then show ?thesis
  proof cases
    case 2
    then show ?thesis by (simp add: slot_ind[OF 2] i assms(2))
  qed (use assms(1)[of s] assms(1)[of NDIRECT] in \<open>simp_all add: slot_def Let_def\<close>)
qed


section \<open>Growing a file\<close>

text \<open>
  What calls of \<open>bmap\<close> and of the write loop do to everything but the bytes of the file: they
  add blocks that were free to slots that were empty, and leave alone every block that is in
  use and is neither the file's nor the bitmap's.
\<close>

definition grows :: "nat \<Rightarrow> 'a fsst_scheme \<Rightarrow> 'a fsst_scheme \<Rightarrow> bool" where
  "grows ip st st' \<longleftrightarrow> sb st' = sb st \<and> fs_ok st' \<and> inode_ok st' ip
     \<and> (\<exists>a. itab st' = (itab st)(ip := (itab st ip)\<lparr>iaddrs := a\<rparr>))
     \<and> (\<forall>b < sb_size (sb st). used st b \<longrightarrow> used st' b
          \<and> (b \<notin> bitmap_area st \<longrightarrow> \<not> owns st ip b \<longrightarrow> cache st' b = cache st b))
     \<and> (\<forall>s \<le> MAXFILE. if slot st ip s = 0 then slot st' ip s = 0 \<or> \<not> used st (slot st' ip s)
          else slot st' ip s = slot st ip s)"

lemma grows_refl: "fs_ok st \<Longrightarrow> inode_ok st ip \<Longrightarrow> grows ip st st"
  by (auto simp: grows_def intro!: exI[of _ "iaddrs (itab st ip)"])

lemma bitmap_area_sb: "sb st' = sb st \<Longrightarrow> bitmap_area st' = bitmap_area st"
  by (simp add: bitmap_area_def dstart_def)

lemma dstart_sb: "sb st' = sb st \<Longrightarrow> dstart st' = dstart st"
  by (simp add: dstart_def)

lemma grows_slot_keep: "grows ip st st' \<Longrightarrow> s \<le> MAXFILE \<Longrightarrow> slot st ip s \<noteq> 0 \<Longrightarrow> slot st' ip s = slot st ip s"
  unfolding grows_def by metis

lemma grows_slot_new:
  "grows ip st st' \<Longrightarrow> s \<le> MAXFILE \<Longrightarrow> slot st ip s = 0 \<Longrightarrow> slot st' ip s \<noteq> 0 \<Longrightarrow> \<not> used st (slot st' ip s)"
  unfolding grows_def by metis

lemma grows_owns:
  assumes "grows ip st st'" and "used st b" and "\<not> owns st ip b"
  shows "\<not> owns st' ip b"
  using assms grows_slot_keep[OF assms(1)] grows_slot_new[OF assms(1)] unfolding owns_def by metis

lemma grows_trans:
  assumes g: "grows ip st st1" and h: "grows ip st1 st2"
  shows "grows ip st st2"
proof -
  have sb: "sb st1 = sb st" "sb st2 = sb st" using g h by (simp_all add: grows_def)
  have "\<exists>a. itab st2 = (itab st)(ip := (itab st ip)\<lparr>iaddrs := a\<rparr>)"
    using g h by (auto simp: grows_def)
  moreover have "used st2 b \<and> (b \<notin> bitmap_area st \<longrightarrow> \<not> owns st ip b \<longrightarrow> cache st2 b = cache st b)"
    if b: "b < sb_size (sb st)" "used st b" for b
  proof -
    have "used st1 b" "b \<notin> bitmap_area st \<longrightarrow> \<not> owns st ip b \<longrightarrow> cache st1 b = cache st b"
      using g b by (auto simp: grows_def)
    moreover have "used st2 b" "b \<notin> bitmap_area st \<longrightarrow> \<not> owns st1 ip b \<longrightarrow> cache st2 b = cache st1 b"
      using h b \<open>used st1 b\<close> bitmap_area_sb[OF sb(1)] by (auto simp: grows_def sb)
    ultimately show ?thesis using grows_owns[OF g b(2)] by auto
  qed
  moreover have "if slot st ip s = 0 then slot st2 ip s = 0 \<or> \<not> used st (slot st2 ip s)
      else slot st2 ip s = slot st ip s" if s: "s \<le> MAXFILE" for s
  proof (cases "slot st1 ip s = 0")
    case False
    then have "slot st2 ip s = slot st1 ip s" by (rule grows_slot_keep[OF h s])
    with grows_slot_keep[OF g s] grows_slot_new[OF g s] False show ?thesis by auto
  next
    case True
    with grows_slot_keep[OF g s] have z: "slot st ip s = 0" by auto
    have "\<not> used st (slot st2 ip s)" if n: "slot st2 ip s \<noteq> 0"
    proof
      assume u: "used st (slot st2 ip s)"
      have "slot st2 ip s < sb_size (sb st)"
        using h s n by (auto simp: grows_def sb inode_ok_def)
      then have "used st1 (slot st2 ip s)" using g u by (auto simp: grows_def)
      with grows_slot_new[OF h s True n] show False by simp
    qed
    then show ?thesis using z by auto
  qed
  ultimately show ?thesis using h by (simp add: grows_def sb)
qed

text \<open>One allocation, put into slot \<open>s\<close>.\<close>

lemma grow_slot:
  assumes ok: "fs_ok st" "inode_ok st ip" and al: "balloc st = Some (r, st1)"
    and sb: "sb st' = sb st" and it: "\<exists>a. itab st' = (itab st)(ip := (itab st ip)\<lparr>iaddrs := a\<rparr>)"
    and c: "\<And>b. b \<noteq> slot st ip MAXFILE \<or> b = 0 \<Longrightarrow> cache st' b = cache st1 b"
    and s: "s \<le> MAXFILE" "slot st ip s = 0"
    and sl: "\<And>t. t \<le> MAXFILE \<Longrightarrow> slot st' ip t = (if t = s then r else slot st ip t)"
  shows "grows ip st st'" and "\<And>i. i < MAXFILE * BSIZE \<Longrightarrow> fdata st' ip i = fdata st ip i" and "0 < r"
proof -
  note be = balloc_effect[OF ok(1) al]
  have bs: "bitmap_area st' = bitmap_area st" "dstart st' = dstart st"
    using bitmap_area_sb[OF sb] dstart_sb[OF sb] by simp_all
  show r0: "0 < r" using be(1) by (simp add: dstart_def)
  have ibn: "slot st ip MAXFILE \<notin> bitmap_area st \<or> slot st ip MAXFILE = 0"
    using inode_okD(1)[OF ok(2), of MAXFILE]
    by (cases "slot st ip MAXFILE = 0") (auto simp: bitmap_area_def)
  have cb: "cache st' b = cache st1 b" if "b \<in> bitmap_area st" for b
    using that ibn c[of b] by auto
  have u: "used st' b \<longleftrightarrow> b = r \<or> used st b" if b: "b < sb_size (sb st)" for b
    using be(8)[OF b] used_cong[of st' st1 b] BBLOCK_area[OF b] cb be(5) sb by auto
  have "fs_ok st'"
    using ok(1) u be(2) bs(2) unfolding fs_ok_def sb
    by (metis be(1) less_le_trans order.strict_trans)
  moreover have "inode_ok st' ip"
  proof -
    have "inum (itab st' ip) = inum (itab st ip)" using it by auto
    moreover have "slot st ip t \<noteq> r" if "t \<le> MAXFILE" for t
      using inode_okD(3)[OF ok(2) that] be(3) r0 by auto
    ultimately show ?thesis
      using ok(2) be(1,2) sl u r0 unfolding inode_ok_def sb bs(2) by auto
  qed
  moreover have k: "cache st' b = cache st b" if "b < sb_size (sb st)" "used st b" "b \<notin> bitmap_area st" "b \<noteq> slot st ip MAXFILE \<or> b = 0" for b
    using that be(3) c[of b] be(9)[of b] by auto
  moreover have "if slot st ip t = 0 then slot st' ip t = 0 \<or> \<not> used st (slot st' ip t)
      else slot st' ip t = slot st ip t" if "t \<le> MAXFILE" for t
    using sl[OF that] s be(3) by auto
  moreover have "b \<noteq> slot st ip MAXFILE \<or> b = 0" if "\<not> owns st ip b" for b
    using that by (auto simp: owns_def)
  ultimately show "grows ip st st'" using sb it u by (auto simp: grows_def)
  fix i assume "i < MAXFILE * BSIZE"
  then have t: "i div BSIZE < MAXFILE" by (simp add: less_mult_imp_div_less)
  show "fdata st' ip i = fdata st ip i"
  proof (cases "i div BSIZE = s")
    case True
    have "cache st' r = cache st1 r"
      using c[of r] inode_okD(3)[OF ok(2), of MAXFILE] be(3) by auto
    then have "cache st' r (i mod BSIZE) = 0" using be(7) by (simp add: zero_block_def)
    then show ?thesis using True sl[of s] s t by (simp add: fdata_def)
  next
    case False
    let ?b = "slot st ip (i div BSIZE)"
    have e: "slot st' ip (i div BSIZE) = ?b" using sl[of "i div BSIZE"] t False by simp
    show ?thesis
    proof (cases "?b = 0")
      case nz: False
      have t': "i div BSIZE \<le> MAXFILE" using t by simp
      have "?b \<noteq> slot st ip MAXFILE" using inode_okD(4)[OF ok(2) t' nz, of MAXFILE] t by auto
      then have "cache st' ?b = cache st ?b"
        using inode_okD(1-3)[OF ok(2) t' nz] by (intro k) (auto simp: bitmap_area_def)
      then show ?thesis by (simp add: fdata_def e)
    qed (simp add: fdata_def e)
  qed
qed


lemma zero_block_rd32: "zero_block m \<Longrightarrow> a + 4 \<le> BSIZE \<Longrightarrow> rd32 m a = 0"
  by (simp add: zero_block_def rd32_def)

lemma of_nat_block: "fs_ok st \<Longrightarrow> b < sb_size (sb st) \<Longrightarrow> unat (of_nat b :: u32) = b"
  by (simp add: fs_ok_def unat_of_nat take_bit_nat_eq_self)

lemma itab_set_addr: "itab (set_addr ip n r st) = (itab st)(ip := (itab st ip)\<lparr>iaddrs := (iaddrs (itab st ip))(n := of_nat r)\<rparr>)"
  by (simp add: set_addr_def iset_def)

lemma set_addr_fields [simp]:
  "cache (set_addr ip n r st) = cache st" "sb (set_addr ip n r st) = sb st"
  by (simp_all add: set_addr_def iset_def)

lemma get_addr_effect:
  assumes ok: "fs_ok st" "inode_ok st ip" and n: "n \<le> NDIRECT" and s: "s = (if n = NDIRECT then MAXFILE else n)"
    and g: "get_addr ip n st = Some (b, st')"
  shows "grows ip st st'" and "\<And>i. i < MAXFILE * BSIZE \<Longrightarrow> fdata st' ip i = fdata st ip i"
    and "b = slot st' ip s" and "b \<noteq> 0" and "slot st ip s \<noteq> 0 \<Longrightarrow> st' = st"
    and "\<And>t. t \<le> MAXFILE \<Longrightarrow> t \<noteq> s \<Longrightarrow> slot st' ip t = slot st ip t"
proof -
  have sl: "unat (iaddrs (itab st ip) n) = slot st ip s" using n by (auto simp: s slot_dir slot_ib)
  have s': "s \<le> MAXFILE" using n by (simp add: s)
  have "grows ip st st' \<and> (\<forall>i < MAXFILE * BSIZE. fdata st' ip i = fdata st ip i) \<and> b = slot st' ip s \<and> b \<noteq> 0
    \<and> (slot st ip s \<noteq> 0 \<longrightarrow> st' = st) \<and> (\<forall>t \<le> MAXFILE. t \<noteq> s \<longrightarrow> slot st' ip t = slot st ip t)"
  proof (cases "slot st ip s = 0")
    case False
    then show ?thesis using g grows_refl[OF ok] by (auto simp: get_addr_def sl Let_def)
  next
    case True
    then obtain st1 where al: "balloc st = Some (b, st1)" and st': "st' = set_addr ip n b st1"
      using g by (auto simp: get_addr_def sl Let_def Option.bind_eq_Some_conv)
    note be = balloc_effect[OF ok(1) al]
    have nb: "unat (of_nat b :: u32) = b" using of_nat_block[OF ok(1) be(2)] .
    have b0: "b \<noteq> 0" using be(1) by (simp add: dstart_def)
    have it: "itab st' = (itab st)(ip := (itab st ip)\<lparr>iaddrs := (iaddrs (itab st ip))(n := of_nat b)\<rparr>)"
      by (simp add: st' itab_set_addr be(6))
    have ibc: "cache st' (slot st ip MAXFILE) = cache st (slot st ip MAXFILE)" if "slot st ip MAXFILE \<noteq> 0"
      using inode_okD(1-3)[OF ok(2) order_refl that] be(3) be(9)[of "slot st ip MAXFILE"]
      by (auto simp: st' bitmap_area_def)
    have sl': "slot st' ip t = (if t = s then b else slot st ip t)" if t: "t \<le> MAXFILE" for t
    proof (cases "n = NDIRECT")
      case nind: True
      then have sM: "s = MAXFILE" by (simp add: s)
      have m: "slot st' ip MAXFILE = b" by (simp only: slot_ib it) (simp add: nind nb)
      consider "t < NDIRECT" | "NDIRECT \<le> t" "t < MAXFILE" | "t = MAXFILE" using t by force
      then show ?thesis
      proof cases
        case 1
        then show ?thesis by (simp add: slot_dir it nind sM)
      next
        case 2
        have "rd32 (cache st' b) (4 * (t - NDIRECT)) = 0"
          using be(7) 2 by (intro zero_block_rd32) (simp_all add: st')
        then show ?thesis using 2 True by (simp only: slot_ind[OF 2] m sM) simp
      qed (simp add: m sM)
    next
      case ndir: False
      then have n: "n < NDIRECT" and sn: "s = n" using n by (simp_all add: s)
      have m: "slot st' ip MAXFILE = slot st ip MAXFILE" using n by (simp only: slot_ib it) simp
      consider "t < NDIRECT" | "NDIRECT \<le> t" "t < MAXFILE" | "t = MAXFILE" using t by force
      then show ?thesis
      proof cases
        case 1
        then show ?thesis using nb by (simp add: slot_dir it sn)
      next
        case 2
        then have "t \<noteq> s" using n sn by simp
        then show ?thesis using ibc by (simp only: slot_ind[OF 2] m) simp
      qed (use m n sn in simp)
    qed
    have it': "\<exists>a. itab st' = (itab st)(ip := (itab st ip)\<lparr>iaddrs := a\<rparr>)" using it by blast
    have "sb st' = sb st" and c: "\<And>b. cache st' b = cache st1 b" by (simp_all add: st' be(5))
    note gs = grow_slot[OF ok al this(1) it' c s' True sl']
    then show ?thesis using sl'[OF s'] sl' b0 True by simp
  qed
  then show "grows ip st st'" and "\<And>i. i < MAXFILE * BSIZE \<Longrightarrow> fdata st' ip i = fdata st ip i"
    and "b = slot st' ip s" and "b \<noteq> 0" and "slot st ip s \<noteq> 0 \<Longrightarrow> st' = st"
    and "\<And>t. t \<le> MAXFILE \<Longrightarrow> t \<noteq> s \<Longrightarrow> slot st' ip t = slot st ip t" by auto
qed

lemma grows_ok: "grows ip st st' \<Longrightarrow> fs_ok st'" "grows ip st st' \<Longrightarrow> inode_ok st' ip"
  "grows ip st st' \<Longrightarrow> sb st' = sb st"
  by (simp_all add: grows_def)

lemma bmap_effect:
  assumes ok: "fs_ok st" "inode_ok st ip" and b: "bmap ip bn st = Some (b, st')"
  shows "bn < MAXFILE" and "grows ip st st'"
    and "\<And>i. i < MAXFILE * BSIZE \<Longrightarrow> fdata st' ip i = fdata st ip i"
    and "b = slot st' ip bn" and "b \<noteq> 0" and "slot st ip bn \<noteq> 0 \<Longrightarrow> st' = st"
proof -
  show bn: "bn < MAXFILE" using b by (auto simp: bmap_def Let_def split: if_splits)
  have "grows ip st st' \<and> (\<forall>i < MAXFILE * BSIZE. fdata st' ip i = fdata st ip i)
    \<and> b = slot st' ip bn \<and> b \<noteq> 0 \<and> (slot st ip bn \<noteq> 0 \<longrightarrow> st' = st)"
  proof (cases "bn < NDIRECT")
    case True
    then have "get_addr ip bn st = Some (b, st')" using b by (simp add: bmap_def)
    from get_addr_effect[OF ok _ refl this] True show ?thesis by auto
  next
    case False
    then obtain ib st1 where g: "get_addr ip NDIRECT st = Some (ib, st1)"
      and rest: "(if unat (rd32 (bread st1 ib) (4 * (bn - NDIRECT))) = 0 then do {
             (r, st2) \<leftarrow> balloc st1;
             st3 \<leftarrow> lwrite ib (wr32 (bread st2 ib) (4 * (bn - NDIRECT)) (of_nat r)) st2;
             Some (r, st3)
           } else Some (unat (rd32 (bread st1 ib) (4 * (bn - NDIRECT))), st1)) = Some (b, st')"
      using b bn False less_diff_conv2[of NDIRECT bn NINDIRECT]
      by (auto simp: bmap_def Let_def Option.bind_eq_Some_conv)
    note ge = get_addr_effect[OF ok order_refl refl g, simplified]
    have ok1: "fs_ok st1" "inode_ok st1 ip" using ge(1) by (simp_all add: grows_ok)
    have bnI: "NDIRECT \<le> bn" using False by simp
    have sl1: "slot st1 ip bn = unat (rd32 (bread st1 ib) (4 * (bn - NDIRECT)))"
      using slot_ind[OF bnI bn, of st1 ip] ge(3,4) by (simp add: bread_def)
    have e01: "slot st1 ip bn = slot st ip bn" using ge(6)[of bn] bn by simp
    have st1st: "slot st ip bn \<noteq> 0 \<Longrightarrow> st1 = st"
    proof -
      assume "slot st ip bn \<noteq> 0"
      then have "slot st ip MAXFILE \<noteq> 0" using slot_ind[OF bnI bn, of st ip] by (auto split: if_splits)
      then show "st1 = st" using ge(5) by simp
    qed
    show ?thesis
    proof (cases "slot st1 ip bn = 0")
      case nz: False
      then show ?thesis using rest ge st1st e01 sl1 by auto
    next
      case True
      then obtain st2 where al: "balloc st1 = Some (b, st2)"
        and w: "lwrite ib (wr32 (bread st2 ib) (4 * (bn - NDIRECT)) (of_nat b)) st2 = Some st'"
        using rest sl1 by (auto simp: Option.bind_eq_Some_conv)
      note be = balloc_effect[OF ok1(1) al] and w' = lwrite_SomeD[OF w]
      have nb: "unat (of_nat b :: u32) = b" using of_nat_block[OF ok1(1) be(2)] .
      have b0: "b \<noteq> 0" using be(1) by (simp add: dstart_def)
      have ib: "ib = slot st1 ip MAXFILE" "ib \<noteq> 0" using ge(3,4) by simp_all
      have ibc: "cache st2 ib = cache st1 ib"
        using inode_okD(1-3)[OF ok1(2) order_refl, of] ib be(3) be(9)[of ib]
        by (auto simp: bitmap_area_def)
      have it: "itab st' = itab st1" by (simp add: w' be(6))
      have m: "slot st' ip MAXFILE = ib" by (simp only: slot_ib it) (simp only: ib slot_ib)
      have sl': "slot st' ip t = (if t = bn then b else slot st1 ip t)" if t: "t \<le> MAXFILE" for t
      proof -
        consider "t < NDIRECT" | "NDIRECT \<le> t" "t < MAXFILE" | "t = MAXFILE" using t by force
        then show ?thesis
        proof cases
          case 1
          then show ?thesis using False by (simp add: slot_dir it)
        next
          case 2
          have "t \<noteq> bn \<Longrightarrow> 4 * (bn - NDIRECT) + 4 \<le> 4 * (t - NDIRECT) \<or> 4 * (t - NDIRECT) + 4 \<le> 4 * (bn - NDIRECT)"
            using 2(1) bnI by arith
          then have "rd32 (cache st' ib) (4 * (t - NDIRECT))
              = (if t = bn then of_nat b else rd32 (cache st1 ib) (4 * (t - NDIRECT)))"
            using rd32_wr32_other[of "4 * (bn - NDIRECT)" "4 * (t - NDIRECT)" "cache st1 ib"]
            by (auto simp: w' bread_def ibc rd32_wr32)
          then show ?thesis using ib nb by (simp add: slot_ind[OF 2] m)
        qed (use m ib bn in simp)
      qed
      have it': "\<exists>a. itab st' = (itab st1)(ip := (itab st1 ip)\<lparr>iaddrs := a\<rparr>)"
        by (intro exI[of _ "iaddrs (itab st1 ip)"]) (simp add: it)
      have sb: "sb st' = sb st1" by (simp add: w' be(5))
      have c: "cache st' x = cache st2 x" if "x \<noteq> slot st1 ip MAXFILE \<or> x = 0" for x
        using that ib by (auto simp: w')
      note gs = grow_slot[OF ok1 al sb it' c less_imp_le[OF bn] True sl']
      then show ?thesis using grows_trans[OF ge(1) gs(1)] ge(2) sl'[of bn] bn b0 True e01 by simp
    qed
  qed
  then show "grows ip st st'"
    and "\<And>i. i < MAXFILE * BSIZE \<Longrightarrow> fdata st' ip i = fdata st ip i"
    and "b = slot st' ip bn" and "b \<noteq> 0" and "slot st ip bn \<noteq> 0 \<Longrightarrow> st' = st" by auto
qed


section \<open>Writing\<close>

text \<open>Changing the bytes of one data block of the file.\<close>

lemma data_write:
  assumes ok: "fs_ok st" "inode_ok st ip" and bn: "bn < MAXFILE" and b: "b = slot st ip bn" "b \<noteq> 0"
    and c: "cache st' = (cache st)(b := v)" and sb: "sb st' = sb st" and it: "itab st' = itab st"
  shows "grows ip st st'" and "slot st' ip t = slot st ip t"
    and "i < MAXFILE * BSIZE \<Longrightarrow> fdata st' ip i = (if i div BSIZE = bn then v (i mod BSIZE) else fdata st ip i)"
proof -
  have bn': "bn \<le> MAXFILE" using bn by simp
  note bd = inode_okD[OF ok(2) bn', folded b(1), OF b(2)]
  have sl: "slot st' ip t = slot st ip t" for t
  proof (rule slot_cong)
    assume "slot st ip MAXFILE \<noteq> 0"
    then have "slot st ip MAXFILE \<noteq> b" using bd(4)[of MAXFILE] bn by auto
    then show "cache st' (slot st ip MAXFILE) = cache st (slot st ip MAXFILE)" by (simp add: c)
  qed (simp add: it)
  then show "slot st' ip t = slot st ip t" .
  have area: "b \<notin> bitmap_area st" using bd(1) by (simp add: bitmap_area_def)
  have u: "used st' x \<longleftrightarrow> used st x" if "x < sb_size (sb st)" for x
    using BBLOCK_area[OF that] area by (intro used_cong sb) (auto simp: c)
  have ds: "dstart st' = dstart st" using sb by (rule dstart_sb)
  have "fs_ok st'" using ok(1) u bd(1,2) unfolding fs_ok_def sb ds by (metis less_le_trans order.strict_trans)
  moreover have "inode_ok st' ip" using ok(2) u unfolding inode_ok_def sb ds it sl by auto
  moreover have "owns st ip b" using b bn' by (auto simp: owns_def)
  ultimately show "grows ip st st'"
    using u by (auto simp: grows_def sb it sl c intro!: exI[of _ "iaddrs (itab st ip)"])
  assume i: "i < MAXFILE * BSIZE"
  then have t: "i div BSIZE \<le> MAXFILE" by (simp add: less_mult_imp_div_less less_imp_le)
  show "fdata st' ip i = (if i div BSIZE = bn then v (i mod BSIZE) else fdata st ip i)"
    using b bd(4)[OF t] by (auto simp: fdata_def sl c)
qed

text \<open>Changing a block of the inode area leaves files and the allocator alone.\<close>

lemma inode_low_block:
  assumes "fs_ok st" "inode_ok st ip"
  shows "IBLOCK (inum (itab st ip)) st < dstart st" "IBLOCK (inum (itab st ip)) st \<notin> bitmap_area st"
proof -
  have "inum (itab st ip) div IPB \<le> sb_ninodes (sb st) div IPB"
    using assms(2) by (intro div_le_mono) (simp add: inode_ok_def)
  then have "IBLOCK (inum (itab st ip)) st < sb_bmapstart (sb st)"
    using assms(1) by (simp add: fs_ok_def IBLOCK_def)
  then show "IBLOCK (inum (itab st ip)) st < dstart st" "IBLOCK (inum (itab st ip)) st \<notin> bitmap_area st"
    by (simp_all add: dstart_def bitmap_area_def)
qed

lemma low_write:
  assumes ok: "fs_ok st" "inode_ok st ip" and x: "x < dstart st" "x \<notin> bitmap_area st"
    and c: "cache st' = (cache st)(x := v)" and sb: "sb st' = sb st"
    and ad: "\<And>n. iaddrs (itab st' ip) n = iaddrs (itab st ip) n" "inum (itab st' ip) = inum (itab st ip)"
  shows "fs_ok st'" and "inode_ok st' ip" and "slot st' ip t = slot st ip t" and "fdata st' ip i = fdata st ip i"
proof -
  have nx: "slot st ip s \<noteq> x" if "s \<le> MAXFILE" "slot st ip s \<noteq> 0" for s
    using inode_okD(1)[OF ok(2) that] x(1) by simp
  have sl: "slot st' ip t = slot st ip t" for t
    by (rule slot_cong) (use nx[of MAXFILE] in \<open>simp_all add: ad c\<close>)
  then show "slot st' ip t = slot st ip t" .
  have u: "used st' b \<longleftrightarrow> used st b" if "b < sb_size (sb st)" for b
    using BBLOCK_area[OF that] x(2) by (intro used_cong sb) (auto simp: c)
  show "fs_ok st'" using ok(1) u unfolding fs_ok_def dstart_sb[OF sb] sb by (metis less_le_trans)
  show "inode_ok st' ip" using ok(2) u unfolding inode_ok_def dstart_sb[OF sb] sb sl ad(2) by auto
  show "fdata st' ip i = fdata st ip i"
  proof (cases "i div BSIZE \<le> MAXFILE")
    case True
    then show ?thesis using nx[OF True] by (auto simp: fdata_def sl c)
  next
    case False
    then have "slot st ip (i div BSIZE) = slot st ip MAXFILE" by (simp add: slot_def Let_def)
    then show ?thesis using nx[of MAXFILE] by (auto simp: fdata_def sl c)
  qed
qed

lemma block_within:
  fixes off i :: nat
  assumes "off mod BSIZE + i < BSIZE"
  shows "(off + i) div BSIZE = off div BSIZE" "(off + i) mod BSIZE = off mod BSIZE + i"
proof -
  show "(off + i) div BSIZE = off div BSIZE" by (subst div_add1_eq) (use assms in simp)
  have "(off + i) mod BSIZE = (off mod BSIZE + i) mod BSIZE" by (rule mod_add_left_eq[symmetric])
  then show "(off + i) mod BSIZE = off mod BSIZE + i" using assms by simp
qed

lemma block_top:
  fixes i off k :: nat
  assumes "off mod BSIZE + k \<le> BSIZE" and "i < off + k"
  shows "i < (off div BSIZE + 1) * BSIZE"
proof -
  have "off = off div BSIZE * BSIZE + off mod BSIZE" by simp
  with assms show ?thesis unfolding distrib_right by linarith
qed

text \<open>
  What \<open>writei\<close> relies on: \<open>either_copyin\<close> stores at most the bytes asked for, all of them when
  it succeeds, and they are the bytes of the source memory.
\<close>

locale copyin_contract =
  fixes ci :: copyin_fn and src_mem :: mem
  assumes copyin_length: "ci a k = (bs, ok) \<Longrightarrow> length bs \<le> k \<and> (ok \<longrightarrow> length bs = k)"
    and copyin_bytes: "ci a k = (bs, ok) \<Longrightarrow> i < length bs \<Longrightarrow> bs ! i = src_mem (a + i)"
begin

lemma writei_loop_spec:
  assumes "fs_ok st" "inode_ok st ip" and "writei_loop ip ci src off tot n st = Some (tot', off', st')"
    and "tot \<le> n"
  shows "tot \<le> tot' \<and> tot' \<le> n \<and> off' = off + (tot' - tot) \<and> grows ip st st'
    \<and> ((\<forall>a k. snd (ci a k)) \<longrightarrow> tot' = n)
    \<and> (\<forall>i < MAXFILE * BSIZE. i < off \<or> off + (n - tot) \<le> i \<longrightarrow> fdata st' ip i = fdata st ip i)
    \<and> (\<forall>i < MAXFILE * BSIZE. off \<le> i \<and> i < off' \<longrightarrow> fdata st' ip i = src_mem (src + (i - off)))
    \<and> (\<forall>s < MAXFILE. off div BSIZE \<le> s \<and> s * BSIZE < off' \<longrightarrow> off < off' \<longrightarrow> slot st' ip s \<noteq> 0)"
  using assms
proof (induction "n - tot" arbitrary: src off tot st rule: less_induct)
  case less
  show ?case
  proof (cases "tot < n")
    case False
    then have "tot' = tot \<and> off' = off \<and> st' = st"
      using less.prems(3) by (simp add: writei_loop.simps[of ip ci src off tot n st])
    then show ?thesis using less.prems(1,2,4) False grows_refl[of st ip] by auto
  next
    case True
    define bn where "bn = off div BSIZE"
    define k where "k = min (n - tot) (BSIZE - off mod BSIZE)"
    obtain bs ok where ci: "ci src k = (bs, ok)" by force
    have k: "0 < k" "k \<le> n - tot" "off mod BSIZE + k \<le> BSIZE" using True by (auto simp: k_def)
    from less.prems(3) True obtain b st1 where bm: "bmap ip bn st = Some (b, st1)"
      and rest: "(let st2 = bset b (blit (bread st1 b) (off mod BSIZE) bs) st1 in
           if ok then do { st3 \<leftarrow> log_write b st2; writei_loop ip ci (src + k) (off + k) (tot + k) n st3 }
           else Some (tot, off, st2)) = Some (tot', off', st')"
      by (auto simp: writei_loop.simps[of ip ci src off tot] Let_def Option.bind_eq_Some_conv
          k_def[symmetric] ci bn_def split del: if_split)
    note be = bmap_effect[OF less.prems(1,2) bm]
    note ok1 = grows_ok[OF be(2)]
    let ?v = "blit (bread st1 b) (off mod BSIZE) bs"
    note len = copyin_length[OF ci]
    have blk: "fdata st3 ip i = (if off \<le> i \<and> i < off + length bs then src_mem (src + (i - off)) else fdata st ip i)"
      and gr: "grows ip st st3" and sl3: "slot st3 ip bn \<noteq> 0"
      if c: "cache st3 = (cache st1)(b := ?v)" "sb st3 = sb st1" "itab st3 = itab st1"
        and i: "i < MAXFILE * BSIZE" for st3 i
    proof -
      note dw = data_write[OF ok1(1,2) be(1,4,5) c]
      show "grows ip st st3" using be(2) dw(1) by (rule grows_trans)
      show "slot st3 ip bn \<noteq> 0" using be(4,5) dw(2) by simp
      show "fdata st3 ip i = (if off \<le> i \<and> i < off + length bs then src_mem (src + (i - off)) else fdata st ip i)"
      proof (cases "i div BSIZE = bn")
        case True
        then have bi: "b = slot st1 ip (i div BSIZE)" using be(4) by simp
        have m: "off mod BSIZE \<le> i mod BSIZE \<longleftrightarrow> off \<le> i" "i mod BSIZE < off mod BSIZE + length bs \<longleftrightarrow> i < off + length bs"
          "off \<le> i \<Longrightarrow> i mod BSIZE - off mod BSIZE = i - off"
          using True div_mult_mod_eq[of i BSIZE] div_mult_mod_eq[of off BSIZE] unfolding bn_def by linarith+
        have "off \<le> i \<Longrightarrow> i < off + length bs \<Longrightarrow> i - off < length bs" by arith
        then show ?thesis
          using dw(3)[OF i] be(3)[OF i] True m copyin_bytes[OF ci, of "i - off"] be(5)
          by (auto simp: blit_def bread_def fdata_def bi)
      next
        case False
        have "\<not> (off \<le> i \<and> i < off + length bs)"
        proof
          assume h: "off \<le> i \<and> i < off + length bs"
          then have "i < (off div BSIZE + 1) * BSIZE"
            using len by (intro block_top[OF k(3)]) auto
          then have "i div BSIZE \<le> off div BSIZE" by (simp add: less_mult_imp_div_less less_Suc_eq_le[symmetric])
          moreover have "off div BSIZE \<le> i div BSIZE" using h by (simp add: div_le_mono)
          ultimately show False using False by (simp add: bn_def)
        qed
        then show ?thesis using dw(3)[OF i] be(3)[OF i] False by auto
      qed
    qed
    show ?thesis
    proof (cases ok)
      case False
      then have st': "st' = bset b ?v st1" "tot' = tot" "off' = off" using rest by (auto simp: Let_def)
      have c: "cache st' = (cache st1)(b := ?v)" "sb st' = sb st1" "itab st' = itab st1"
        by (simp_all add: st' bset_def)
      have nk: "\<not> (\<forall>a k. snd (ci a k))" using ci False by (metis snd_conv)
      have "grows ip st st'" using gr[OF c, of 0] by simp
      moreover have "fdata st' ip i = fdata st ip i" if "i < MAXFILE * BSIZE" "i < off \<or> off + (n - tot) \<le> i" for i
        using blk[OF c that(1)] that(2) len k(2) by auto
      ultimately show ?thesis using st'(2,3) nk True by auto
    next
      case True
      then obtain st3 where w: "lwrite b ?v st1 = Some st3"
        and rec: "writei_loop ip ci (src + k) (off + k) (tot + k) n st3 = Some (tot', off', st')"
        using rest by (auto simp: Let_def lwrite_def Option.bind_eq_Some_conv)
      note c = lwrite_SomeD(1-3)[OF w]
      have lk: "length bs = k" using len True by simp
      have g3: "grows ip st st3" and s3: "slot st3 ip bn \<noteq> 0" using gr[OF c, of 0] sl3[OF c, of 0] by simp_all
      have dec: "n - (tot + k) < n - tot" and le: "tot + k \<le> n" using k \<open>tot < n\<close> by simp_all
      have IH: "tot + k \<le> tot' \<and> tot' \<le> n \<and> off' = off + k + (tot' - (tot + k)) \<and> grows ip st3 st'
        \<and> ((\<forall>a k. snd (ci a k)) \<longrightarrow> tot' = n)
        \<and> (\<forall>i < MAXFILE * BSIZE. i < off + k \<or> off + k + (n - (tot + k)) \<le> i \<longrightarrow> fdata st' ip i = fdata st3 ip i)
        \<and> (\<forall>i < MAXFILE * BSIZE. off + k \<le> i \<and> i < off' \<longrightarrow> fdata st' ip i = src_mem (src + k + (i - (off + k))))
        \<and> (\<forall>s < MAXFILE. (off + k) div BSIZE \<le> s \<and> s * BSIZE < off' \<longrightarrow> off + k < off' \<longrightarrow> slot st' ip s \<noteq> 0)"
        by (rule less.hyps[OF dec grows_ok(1,2)[OF g3] rec le])
      have "fdata st' ip i = fdata st ip i" if "i < MAXFILE * BSIZE" "i < off \<or> off + (n - tot) \<le> i" for i
      proof -
        have "\<not> (off \<le> i \<and> i < off + length bs)" using that(2) k(2) lk by auto
        then have "fdata st3 ip i = fdata st ip i" using blk[OF c that(1)] by auto
        moreover have "i < off + k \<or> off + k + (n - (tot + k)) \<le> i" using that(2) le by auto
        ultimately show ?thesis using IH that(1) by metis
      qed
      moreover have "fdata st' ip i = src_mem (src + (i - off))" if "i < MAXFILE * BSIZE" "off \<le> i" "i < off'" for i
      proof (cases "i < off + k")
        case True
        then have "fdata st' ip i = fdata st3 ip i" using IH that(1) by metis
        then show ?thesis using blk[OF c that(1)] that(2) True lk by simp
      next
        case False
        then have "fdata st' ip i = src_mem (src + k + (i - (off + k)))" using IH that by auto
        then show ?thesis using False by simp
      qed
      moreover have "slot st' ip s \<noteq> 0" if s: "s < MAXFILE" "off div BSIZE \<le> s" "s * BSIZE < off'" for s
      proof (cases "s = bn")
        case True
        then show ?thesis using s3 grows_slot_keep[of ip st3 st' s] IH s by auto
      next
        case False
        then have "bn < s" using s bn_def by simp
        then have "(off div BSIZE + 1) * BSIZE \<le> s * BSIZE" unfolding bn_def by (intro mult_le_mono1) simp
          moreover have "off + k - 1 < (off div BSIZE + 1) * BSIZE"
            by (rule block_top[OF k(3)]) (use k(1) in simp)
          ultimately have "off + k \<le> s * BSIZE" using k(1) by linarith
        then have "off + k < off'" "(off + k) div BSIZE \<le> s"
          using s div_le_mono[of "off + k" "s * BSIZE" BSIZE] by auto
        then show ?thesis using IH s by auto
      qed
      ultimately show ?thesis using IH grows_trans[OF g3, of st'] le k(2) by auto
    qed
  qed
qed

text \<open>\<open>writei\<close> whole: the argument checks, the loop, the size and the write-back.\<close>

lemma writei_spec:
  assumes ok: "fs_ok st" "inode_ok st ip" and d: "dense st ip"
    and in_range: "\<not> off > isize (itab st ip)" "\<not> off + n < off" "unat (off + n) \<le> MAXFILE * BSIZE"
    and w: "writei ip ci src off n st = Some (r, st')"
  shows "0 \<le> r \<and> r \<le> int (unat n) \<and> ((\<forall>a k. snd (ci a k)) \<longrightarrow> r = int (unat n))
    \<and> fs_ok st' \<and> inode_ok st' ip \<and> dense st' ip
    \<and> unat (isize (itab st' ip)) = max (unat (isize (itab st ip))) (unat off + nat r)
    \<and> (\<forall>i < MAXFILE * BSIZE. i < unat off \<or> unat off + unat n \<le> i \<longrightarrow> fdata st' ip i = fdata st ip i)
    \<and> (\<forall>i < MAXFILE * BSIZE. unat off \<le> i \<and> i < unat off + nat r \<longrightarrow> fdata st' ip i = src_mem (src + (i - unat off)))
    \<and> (\<forall>b < sb_size (sb st). used st b \<longrightarrow> b \<notin> bitmap_area st \<longrightarrow> \<not> owns st ip b
         \<longrightarrow> b \<noteq> IBLOCK (inum (itab st ip)) st \<longrightarrow> cache st' b = cache st b)
    \<and> (\<forall>jp. jp \<noteq> ip \<longrightarrow> itab st' jp = itab st jp)
    \<and> itab st' ip = (itab st ip)\<lparr>iaddrs := iaddrs (itab st' ip), isize := isize (itab st' ip)\<rparr>"
proof -
  have sum: "unat (off + n) = unat off + unat n" using in_range(2) by (simp add: not_less unat_plus_simple)
  obtain tot off1 st1 st2 where l: "writei_loop ip ci src (unat off) 0 (unat n) st = Some (tot, off1, st1)"
    and st2: "st2 = (if off1 > unat (isize (itab st1 ip)) then iset ip (isize_update (\<lambda>_. of_nat off1)) st1 else st1)"
    and u: "iupdate ip st2 = Some st'" and r: "r = int tot"
    using w in_range by (auto simp: writei_def Let_def Option.bind_eq_Some_conv split del: if_split)
  note L = writei_loop_spec[OF ok l le0]
  then have tot: "tot \<le> unat n" and off1: "off1 = unat off + tot" and g: "grows ip st st1" by auto
  have sz1: "isize (itab st1 ip) = isize (itab st ip)" and in1: "inum (itab st1 ip) = inum (itab st ip)"
    and oth1: "\<And>jp. jp \<noteq> ip \<Longrightarrow> itab st1 jp = itab st jp" using g by (auto simp: grows_def)
  note sb1 = grows_ok(3)[OF g]
  have "off1 < 2 ^ 32" using off1 tot in_range(3) by (simp add: sum)
  then have off1w: "unat (of_nat off1 :: u32) = off1" by (simp add: unat_of_nat take_bit_nat_eq_self)
  have c2: "cache st2 = cache st1" "sb st2 = sb st1" and it2: "itab st2 = (itab st1)(ip := (itab st1 ip)\<lparr>isize := isize (itab st2 ip)\<rparr>)"
    by (auto simp: st2 iset_def fun_eq_iff)
  have sz2: "unat (isize (itab st2 ip)) = max (unat (isize (itab st ip))) off1"
    using off1w by (auto simp: st2 iset_def sz1)
  have in2: "inum (itab st2 ip) = inum (itab st ip)" using it2 in1 by (metis fun_upd_same inode.select_convs(2) inode.surjective inode.update_convs(10))
  obtain v where c': "cache st' = (cache st2)(IBLOCK (inum (itab st2 ip)) st2 := v)" and sb': "sb st' = sb st2"
    and it': "itab st' = itab st2"
    using lwrite_SomeD(1-3)[OF u[unfolded iupdate_def Let_def]] by blast
  have sb: "sb st' = sb st" "sb st2 = sb st" using sb' c2 sb1 by simp_all
  have ib: "IBLOCK (inum (itab st2 ip)) st2 = IBLOCK (inum (itab st ip)) st" (is "_ = ?ib")
    using sb by (simp add: IBLOCK_def in2)
  have low: "?ib < dstart st1" "?ib \<notin> bitmap_area st1"
    using inode_low_block[OF ok] by (simp_all add: dstart_sb[OF sb1] bitmap_area_sb[OF sb1])
  have cc: "cache st' = (cache st1)(?ib := v)" using c' c2 ib by simp
  have ad: "\<And>n. iaddrs (itab st' ip) n = iaddrs (itab st1 ip) n" "inum (itab st' ip) = inum (itab st1 ip)"
    using it' it2 in2 in1 by (simp_all add: st2 iset_def)
  note lw = low_write[OF grows_ok(1,2)[OF g] low cc _ ad, unfolded sb sb1, OF refl]
  have szf: "unat (isize (itab st' ip)) = max (unat (isize (itab st ip))) off1" by (simp add: it' sz2)
  have "dense st' ip"
  proof -
    have "slot st' ip s \<noteq> 0" if s: "s < MAXFILE" "s * BSIZE < max (unat (isize (itab st ip))) off1" for s
    proof (cases "s * BSIZE < unat (isize (itab st ip))")
      case True
      then have "slot st ip s \<noteq> 0" using d s by (simp add: dense_def)
      then show ?thesis using grows_slot_keep[OF g, of s] s lw(3) by simp
    next
      case False
      then have "unat off \<le> s * BSIZE" using in_range(1) by (simp add: not_less word_le_nat_alt)
      then have "unat off div BSIZE \<le> s" "s * BSIZE < off1" "unat off < off1"
        using False s div_le_mono[of "unat off" "s * BSIZE" BSIZE] by auto
      then show ?thesis using L s lw(3) by simp
    qed
    moreover have "max (unat (isize (itab st ip))) off1 \<le> MAXFILE * BSIZE"
      using d off1 tot in_range(3) by (auto simp: dense_def sum)
    ultimately show ?thesis by (simp add: dense_def szf)
  qed
  moreover have "cache st' b = cache st b"
    if "b < sb_size (sb st)" "used st b" "b \<notin> bitmap_area st" "\<not> owns st ip b" "b \<noteq> ?ib" for b
    using g that by (simp add: grows_def cc)
  moreover have "itab st' jp = itab st jp" if "jp \<noteq> ip" for jp
    using that oth1[OF that] by (simp add: it' st2 iset_def)
  moreover have "\<forall>i < MAXFILE * BSIZE. i < unat off \<or> unat off + unat n \<le> i \<longrightarrow> fdata st' ip i = fdata st ip i"
    using L lw(4) by simp
  moreover have "\<forall>i < MAXFILE * BSIZE. unat off \<le> i \<and> i < off1 \<longrightarrow> fdata st' ip i = src_mem (src + (i - unat off))"
    using L lw(4) by simp
  moreover have "(\<forall>a k. snd (ci a k)) \<longrightarrow> tot = unat n" using L by simp
  moreover have "int tot \<le> uint n" using tot by (metis of_nat_le_iff uint_nat)
  moreover have "itab st' ip = (itab st ip)\<lparr>iaddrs := iaddrs (itab st' ip), isize := isize (itab st' ip)\<rparr>"
    using g by (auto simp: it' st2 iset_def grows_def)
  ultimately show ?thesis using tot lw(1,2) szf r off1 by simp
qed

end

section \<open>Enough room to finish\<close>

text \<open>
  The log has room for \<open>k\<close> more blocks of the running operation, and there are free blocks.
  With that, no step of a write panics.
\<close>

definition room :: "'a logst_scheme \<Rightarrow> nat \<Rightarrow> bool" where
  "room st k \<longleftrightarrow> 1 \<le> outstanding st \<and> length (lh st) + k \<le> LOGSIZE \<and> length (lh st) + k < lsize st"

definition nfree :: "'a fsst_scheme \<Rightarrow> nat" where
  "nfree st = card {b. b < sb_size (sb st) \<and> \<not> used st b}"

lemma room_less: "room st k \<Longrightarrow> j \<le> k \<Longrightarrow> room st j"
  by (auto simp: room_def)

lemma log_write_room:
  assumes "room st (Suc k)"
  shows "\<exists>st'. log_write b st = Some st' \<and> room st' k"
proof -
  have "\<not> (LOGSIZE \<le> length (lh st) \<or> int (lsize st) - 1 \<le> int (length (lh st)))" "\<not> outstanding st < 1"
    using assms by (auto simp: room_def)
  then show ?thesis using assms by (auto simp: log_write_def Let_def room_def log_bpin_def)
qed

lemma room_bset [simp]: "room (bset b v st) k = room st k"
  by (simp add: room_def bset_def)

lemma lwrite_room: "room st (Suc k) \<Longrightarrow> \<exists>st'. lwrite b v st = Some st' \<and> room st' k"
  unfolding lwrite_def by (rule log_write_room) simp

lemma nfree_pos: "0 < nfree st \<longleftrightarrow> (\<exists>b < sb_size (sb st). \<not> used st b)"
  by (auto simp: nfree_def card_gt_0_iff)

lemma balloc_from_total:
  assumes "BPB dvd b" and "b \<le> x" "x < sb_size (sb st)" "\<not> used st x" and "room st (Suc (Suc k))"
  shows "\<exists>r st'. balloc_from b st = Some (r, st') \<and> room st' k"
  using assms
proof (induction b st rule: balloc_from.induct)
  case (1 b st)
  let ?d = "bread st (BBLOCK b st)"
  have b: "b < sb_size (sb st)" using "1.prems"(2,3) by simp
  show ?case
  proof (cases "balloc_bits ?d b (sb_size (sb st)) 0")
    case None
    have "b + BPB \<le> x"
    proof (rule ccontr)
      assume "\<not> b + BPB \<le> x"
      then have j: "x - b < BPB" "x = b + (x - b)" using "1.prems"(2) by simp_all
      have "used st x"
        using balloc_bits_None[OF None, of "x - b"] "1.prems"(2,3) j bitmap_index[OF "1.prems"(1) j(1)]
        by (simp add: used_def)
      with "1.prems"(4) show False by simp
    qed
    moreover have "BPB dvd b + BPB" using "1.prems"(1) by simp
    ultimately show ?thesis
      using "1.IH"[OF b refl refl None _ _ "1.prems"(3,4,5)] b None
      by (simp add: balloc_from.simps[of b])
  next
    case (Some bi)
    obtain st1 where "lwrite (BBLOCK b st) (?d(bi div 8 := ?d (bi div 8) OR bmask bi)) st = Some st1" "room st1 (Suc k)"
      using lwrite_room[OF "1.prems"(5)] by blast
    moreover obtain st2 where "bzero (b + bi) st1 = Some st2" "room st2 k"
      using lwrite_room[OF calculation(2)] unfolding bzero_def by blast
    ultimately show ?thesis using b Some by (simp add: balloc_from.simps[of b] Let_def)
  qed
qed

lemma balloc_total:
  assumes "fs_ok st" and "nfree st = Suc f" and "room st (Suc (Suc k))"
  shows "\<exists>r st'. balloc st = Some (r, st') \<and> room st' k \<and> nfree st' = f"
proof -
  from assms(2) obtain x where "x < sb_size (sb st)" "\<not> used st x" using nfree_pos[of st] by auto
  then obtain r st' where al: "balloc st = Some (r, st')" and rm: "room st' k"
    using balloc_from_total[of 0 x st k] assms(3) by (auto simp: balloc_def)
  note be = balloc_effect[OF assms(1) al]
  have "{b. b < sb_size (sb st') \<and> \<not> used st' b} = {b. b < sb_size (sb st) \<and> \<not> used st b} - {r}"
    using be(5,8) by auto
  then have "nfree st' = f" using be(2,3) assms(2) by (simp add: nfree_def)
  with al rm show ?thesis by blast
qed

lemma room_set_addr [simp]: "room (set_addr ip n r st) k = room st k"
  by (simp add: room_def set_addr_def iset_def)

lemma nfree_cong:
  assumes "sb st' = sb st" and "\<And>b. b \<in> bitmap_area st \<Longrightarrow> cache st' b = cache st b"
  shows "nfree st' = nfree st"
proof -
  have "used st' b = used st b" if "b < sb_size (sb st)" for b
    using assms BBLOCK_area[OF that] by (intro used_cong)
  then have "{b. b < sb_size (sb st') \<and> \<not> used st' b} = {b. b < sb_size (sb st) \<and> \<not> used st b}"
    using assms(1) by auto
  then show ?thesis by (simp add: nfree_def)
qed

lemma get_addr_total:
  assumes "fs_ok st" and "Suc f \<le> nfree st" and "room st (Suc (Suc k))"
  shows "\<exists>b st'. get_addr ip n st = Some (b, st') \<and> room st' k \<and> f \<le> nfree st'"
proof (cases "unat (iaddrs (itab st ip) n) = 0")
  case True
  obtain g where g: "nfree st = Suc g" using assms(2) by (cases "nfree st") auto
  obtain r st1 where "balloc st = Some (r, st1)" "room st1 k" "nfree st1 = g"
    using balloc_total[OF assms(1) g assms(3)] by blast
  moreover have "nfree (set_addr ip n r st1) = nfree st1" by (rule nfree_cong) simp_all
  ultimately show ?thesis using True g assms(2) by (simp add: get_addr_def)
next
  case False
  then show ?thesis using assms room_less[OF assms(3), of k] by (auto simp: get_addr_def Let_def)
qed

lemma bmap_total:
  assumes ok: "fs_ok st" "inode_ok st ip" and bn: "bn < MAXFILE"
    and f: "Suc (Suc f) \<le> nfree st" and rm: "room st (5 + k)"
  shows "\<exists>b st'. bmap ip bn st = Some (b, st') \<and> room st' k \<and> f \<le> nfree st'"
proof (cases "bn < NDIRECT")
  case True
  have "Suc f \<le> nfree st" and "room st (Suc (Suc k))" using f room_less[OF rm] by simp_all
  from get_addr_total[OF ok(1) this] True show ?thesis by (simp add: bmap_def)
next
  case False
  then have bnI: "bn - NDIRECT < NINDIRECT" using bn by simp
  have "room st (Suc (Suc (3 + k)))" using rm by (simp add: eval_nat_numeral)
  then obtain ib st1 where g: "get_addr ip NDIRECT st = Some (ib, st1)" and r1: "room st1 (3 + k)"
    and f1: "Suc f \<le> nfree st1"
    using get_addr_total[OF ok(1) f, of "3 + k" ip NDIRECT] by auto
  note ge = get_addr_effect[OF ok order_refl refl g]
  note ok1 = grows_ok[OF ge(1)]
  let ?a = "unat (rd32 (bread st1 ib) (4 * (bn - NDIRECT)))"
  show ?thesis
  proof (cases "?a = 0")
    case False
    then show ?thesis using bnI \<open>\<not> bn < NDIRECT\<close> g room_less[OF r1, of k] f1
      by (auto simp: bmap_def Let_def)
  next
    case True
    obtain h where h: "nfree st1 = Suc h" using f1 by (cases "nfree st1") auto
    have "room st1 (Suc (Suc (Suc k)))" using r1 by (simp add: eval_nat_numeral)
    then obtain r st2 where al: "balloc st1 = Some (r, st2)" and r2: "room st2 (Suc k)" and f2: "nfree st2 = h"
      using balloc_total[OF ok1(1) h] by blast
    obtain st3 where w: "lwrite ib (wr32 (bread st2 ib) (4 * (bn - NDIRECT)) (of_nat r)) st2 = Some st3"
      and r3: "room st3 k" using lwrite_room[OF r2] by blast
    have ib: "ib \<notin> bitmap_area st2"
      using inode_okD(1)[OF ok1(2) order_refl] ge(3,4) balloc_effect(5)[OF ok1(1) al]
      by (simp add: bitmap_area_def dstart_def)
    have "nfree st3 = nfree st2"
      by (rule nfree_cong) (use lwrite_SomeD(1,2)[OF w] ib in auto)
    then show ?thesis using bnI \<open>\<not> bn < NDIRECT\<close> g True al w r3 f1 f2 h by (simp add: bmap_def Let_def)
  qed
qed

context copyin_contract begin

text \<open>A write that touches \<open>c\<close> blocks puts at most six blocks into the log for each.\<close>

lemma writei_loop_total:
  assumes "fs_ok st" "inode_ok st ip" and "tot \<le> n" and "off + (n - tot) \<le> MAXFILE * BSIZE"
    and "tot < n \<longrightarrow> off + (n - tot) \<le> (off div BSIZE + c) * BSIZE" and "room st (6 * c + k)" and "2 * c \<le> nfree st"
  shows "\<exists>tot' off' st'. writei_loop ip ci src off tot n st = Some (tot', off', st') \<and> room st' k"
  using assms
proof (induction c arbitrary: src off tot st)
  case 0
  have "\<not> tot < n"
  proof
    assume "tot < n"
    then have "off < off div BSIZE * BSIZE" using "0.prems"(5) by simp
    then show False using div_times_less_eq_dividend[of off BSIZE] by simp
  qed
  then show ?case using "0.prems"(6) by (simp add: writei_loop.simps[of ip ci src off tot n st])
next
  case (Suc c)
  show ?case
  proof (cases "tot < n")
    case False
    then show ?thesis using room_less[OF Suc.prems(6), of k] by (simp add: writei_loop.simps[of ip ci src off tot n st])
  next
    case True
    define j where "j = min (n - tot) (BSIZE - off mod BSIZE)"
    obtain bs ok where ci: "ci src j = (bs, ok)" by force
    have bn: "off div BSIZE < MAXFILE" using True Suc.prems(4) by (simp add: less_mult_imp_div_less)
    have rm: "room st (5 + Suc (6 * c + k))" and nf: "Suc (Suc (2 * c)) \<le> nfree st"
      using Suc.prems(6,7) by (simp_all add: add.assoc)
    obtain b st1 where bm: "bmap ip (off div BSIZE) st = Some (b, st1)" and r1: "room st1 (Suc (6 * c + k))"
      and f1: "2 * c \<le> nfree st1"
      using bmap_total[OF Suc.prems(1,2) bn nf rm] by blast
    note be = bmap_effect[OF Suc.prems(1,2) bm]
    note ok1 = grows_ok[OF be(2)]
    let ?v = "blit (bread st1 b) (off mod BSIZE) bs"
    obtain st3 where w: "lwrite b ?v st1 = Some st3" and r3: "room st3 (6 * c + k)"
      using lwrite_room[OF r1] by blast
    note w' = lwrite_SomeD(1-3)[OF w]
    note dw = data_write[OF ok1(1,2) be(1,4,5) w'] and ok3 = grows_ok(1,2)[OF data_write(1)[OF ok1(1,2) be(1,4,5) w']]
    have "b \<notin> bitmap_area st1"
      using inode_okD(1)[OF ok1(2) less_imp_le[OF be(1)]] be(4,5) by (simp add: bitmap_area_def)
    then have "nfree st3 = nfree st1"
      by (intro nfree_cong) (use w'(1,2) in auto)
    with f1 have f3: "2 * c \<le> nfree st3" by simp
    show ?thesis
    proof (cases ok)
      case False
      then show ?thesis
        using True bm ci r1 room_less[of _ "Suc (6 * c + k)" k]
        by (simp add: writei_loop.simps[of ip ci src off tot] Let_def j_def)
    next
      case ok: True
      have j: "0 < j" "j \<le> n - tot" and j2: "j = n - tot \<or> j = BSIZE - off mod BSIZE"
        using True by (auto simp: j_def)
      have "(off + j) + (n - (tot + j)) = off + (n - tot)" using j(2) True by simp
      moreover have "off + (n - tot) \<le> ((off + j) div BSIZE + c) * BSIZE" if "tot + j < n"
      proof -
        have "off + j = off div BSIZE * BSIZE + off mod BSIZE + j" by simp
        then have "off + j = (off div BSIZE + 1) * BSIZE"
          using j2 that mod_less_divisor[of BSIZE off] unfolding distrib_right by linarith
        then show ?thesis using Suc.prems(5) True by (simp add: algebra_simps)
      qed
      ultimately obtain tot' off' st' where "writei_loop ip ci (src + j) (off + j) (tot + j) n st3 = Some (tot', off', st')" "room st' k"
        using Suc.IH[OF ok3 _ _ _ r3 f3, of "tot + j" "off + j" "src + j"] Suc.prems(4) j
          le_diff_conv2[of tot n j] True by (auto simp: add.commute)
      then show ?thesis using True bm ci w ok
        by (simp add: writei_loop.simps[of ip ci src off tot] Let_def j_def lwrite_def)
    qed
  qed
qed

end

section \<open>Reading\<close>

lemma bmap_present:
  assumes "bn < MAXFILE" and "slot st ip bn \<noteq> 0"
  shows "bmap ip bn st = Some (slot st ip bn, st)"
proof (cases "bn < NDIRECT")
  case True
  then show ?thesis using assms by (simp add: bmap_def get_addr_def slot_dir)
next
  case False
  then have I: "NDIRECT \<le> bn" "bn - NDIRECT < NINDIRECT" using assms(1) by simp_all
  note sl = slot_ind[OF I(1) assms(1), of st ip]
  then have ib: "unat (iaddrs (itab st ip) NDIRECT) \<noteq> 0" using assms(2) by (auto simp: slot_ib split: if_splits)
  then have "slot st ip bn = unat (rd32 (bread st (unat (iaddrs (itab st ip) NDIRECT))) (4 * (bn - NDIRECT)))"
    using sl by (simp add: slot_ib bread_def)
  then show ?thesis using I ib assms(2) by (simp add: bmap_def get_addr_def Let_def)
qed

text \<open>How many bytes the arguments of \<open>readi\<close> ask for.\<close>

definition rd_len :: "u32 \<Rightarrow> u32 \<Rightarrow> u32 \<Rightarrow> nat" where
  "rd_len sz off n =
     (if unat off > unat sz \<or> unat off + unat n \<ge> 2 ^ 32 then 0
      else min (unat n) (unat sz - unat off))"

text \<open>
  What \<open>readi\<close> relies on: a copy that succeeds has stored exactly the given bytes at the
  destination.  \<open>peek m a\<close> is the byte the reader of \<open>m\<close> finds at \<open>a\<close>, if any.
\<close>

locale copyout_contract =
  fixes cp :: "'m copyout_fn" and peek :: "'m \<Rightarrow> nat \<Rightarrow> byte option"
  assumes copyout_stores: "cp dst bs m = (True, m') \<Longrightarrow>
    peek m' a = (if dst \<le> a \<and> a < dst + length bs then Some (bs ! (a - dst)) else peek m a)"
begin

lemma readi_loop_spec:
  assumes "fs_ok st" "inode_ok st ip" and "tot \<le> n"
    and "\<And>s. off div BSIZE \<le> s \<Longrightarrow> s * BSIZE < off + (n - tot) \<Longrightarrow> s < MAXFILE \<and> slot st ip s \<noteq> 0"
  shows "\<exists>r m'. readi_loop ip cp dst off tot n st m = Some (r, st, m')
    \<and> ((\<forall>d bs m. fst (cp d bs m)) \<longrightarrow> r \<noteq> -1) \<and> (r = -1 \<or> r = int n \<and>
    (\<forall>a. peek m' a = (if dst \<le> a \<and> a < dst + (n - tot) then Some (fdata st ip (off + (a - dst))) else peek m a)))"
  using assms(3,4)
proof (induction "n - tot" arbitrary: dst off tot m rule: less_induct)
  case less
  show ?case
  proof (cases "tot < n")
    case False
    then have "readi_loop ip cp dst off tot n st m = Some (int tot, st, m)"
      by (simp add: readi_loop.simps[of ip cp dst off tot n st m])
    then show ?thesis using less.prems(1) False by auto
  next
    case True
    define k where "k = min (n - tot) (BSIZE - off mod BSIZE)"
    have k: "0 < k" "k \<le> n - tot" "off mod BSIZE + k \<le> BSIZE" using True by (auto simp: k_def)
    have s0: "off div BSIZE < MAXFILE \<and> slot st ip (off div BSIZE) \<noteq> 0"
      using less.prems(2)[of "off div BSIZE"] div_times_less_eq_dividend[of off BSIZE] True
      by (simp add: le_less_trans)
    have bm: "bmap ip (off div BSIZE) st = Some (slot st ip (off div BSIZE), st)"
      using s0 by (intro bmap_present) auto
    let ?b = "slot st ip (off div BSIZE)"
    let ?bs = "map (\<lambda>i. bread st ?b (off mod BSIZE + i)) [0..<k]"
    have bytes: "?bs ! i = fdata st ip (off + i)" if "i < k" for i
    proof -
      have "off mod BSIZE + i < BSIZE" using that k(3) by simp
      note block_within[OF this]
      then show ?thesis using that s0 by (simp add: fdata_def bread_def)
    qed
    obtain c m1 where cp: "cp dst ?bs m = (c, m1)" by force
    show ?thesis
    proof (cases c)
      case False
      then have "\<not> (\<forall>d bs m. fst (cp d bs m))" using cp by (metis fst_conv)
      then show ?thesis using True bm cp False
        by (simp add: readi_loop.simps[of ip cp dst off tot n st m] Let_def k_def)
    next
      case c: True
      then have "cp dst ?bs m = (True, m1)" using cp by simp
      note st1 = copyout_stores[OF this]
      have dec: "n - (tot + k) < n - tot" and le: "tot + k \<le> n" using k True by simp_all
      have e: "off + k + (n - (tot + k)) = off + (n - tot)" using k(2) True by simp
      have sl: "s < MAXFILE \<and> slot st ip s \<noteq> 0"
        if "(off + k) div BSIZE \<le> s" "s * BSIZE < off + k + (n - (tot + k))" for s
        using that e less.prems(2)[of s] div_le_mono[of off "off + k" BSIZE] by simp
      from less.hyps[OF dec le sl, of "off + k" "dst + k" m1]
      obtain r m' where rec: "readi_loop ip cp (dst + k) (off + k) (tot + k) n st m1 = Some (r, st, m')"
        and all: "(\<forall>d bs m. fst (cp d bs m)) \<longrightarrow> r \<noteq> -1"
        and r: "r = -1 \<or> r = int n \<and> (\<forall>a. peek m' a = (if dst + k \<le> a \<and> a < dst + k + (n - (tot + k))
             then Some (fdata st ip (off + k + (a - (dst + k)))) else peek m1 a))" by blast
      have "readi_loop ip cp dst off tot n st m = Some (r, st, m')"
        using True bm cp c rec by (simp add: readi_loop.simps[of ip cp dst off tot n st m] Let_def k_def)
      moreover have "peek m' a = (if dst \<le> a \<and> a < dst + (n - tot) then Some (fdata st ip (off + (a - dst))) else peek m a)"
        if "r \<noteq> -1" for a
      proof -
        have "peek m' a = (if dst + k \<le> a \<and> a < dst + (n - tot)
             then Some (fdata st ip (off + (a - dst))) else peek m1 a)"
          using r that k(2) True by auto
        then show ?thesis using st1[of a] bytes[of "a - dst"] k(2) by auto
      qed
      ultimately show ?thesis using r all by (intro exI[of _ r] exI[of _ m']) auto
    qed
  qed
qed

lemma readi_spec:
  assumes ok: "fs_ok st" "inode_ok st ip" and d: "dense st ip"
  shows "\<exists>r m'. readi ip cp dst off n st m = Some (r, st, m')
    \<and> ((\<forall>d bs m. fst (cp d bs m)) \<longrightarrow> r \<noteq> -1)
    \<and> (r = -1 \<or> r = int (rd_len (isize (itab st ip)) off n)
      \<and> (\<forall>a. peek m' a = (if dst \<le> a \<and> a < dst + nat r then Some (fdata st ip (unat off + (a - dst)))
           else peek m a)))"
proof -
  let ?size = "isize (itab st ip)"
  have wrap: "off + n < off \<longleftrightarrow> unat off + unat n \<ge> 2 ^ 32"
  proof -
    have "off + n < off \<longleftrightarrow> unat (off + n) \<noteq> unat off + unat n"
      using unat_plus_simple[of off n] by (simp add: not_le[symmetric])
    then show ?thesis using unsigned_less[of "off + n", where 'a = nat] unat_add_lem[of off n] by (auto simp: not_less)
  qed
  show ?thesis
  proof (cases "off > ?size \<or> off + n < off")
    case True
    then have "unat off > unat ?size \<or> unat off + unat n \<ge> 2 ^ 32"
      by (simp only: wrap) (simp only: word_less_nat_alt)
    then have "rd_len ?size off n = 0" by (simp only: rd_len_def if_True)
    then show ?thesis using True by (auto simp: readi_def)
  next
    case False
    let ?n = "if off + n > ?size then ?size - off else n"
    have sum: "unat (off + n) = unat off + unat n" and le: "unat off \<le> unat ?size"
      using False unat_plus_simple[of off n] by (simp_all add: not_less word_le_nat_alt)
    have n: "unat ?n = rd_len ?size off n"
    proof -
      have "rd_len ?size off n = min (unat n) (unat ?size - unat off)"
        using False le by (simp add: rd_len_def wrap)
      moreover have "unat (?size - off) = unat ?size - unat off"
        using le by (simp add: unat_sub word_le_nat_alt)
      moreover have "off + n > ?size \<longleftrightarrow> unat ?size < unat off + unat n"
        by (simp add: word_less_nat_alt sum)
      ultimately show ?thesis by auto
    qed
    have "unat off + unat ?n \<le> unat ?size" using le by (auto simp: n rd_len_def)
    then have sl: "s < MAXFILE \<and> slot st ip s \<noteq> 0"
      if "unat off div BSIZE \<le> s" "s * BSIZE < unat off + (unat ?n - 0)" for s
    proof -
      have "s * BSIZE < unat ?size" using that(2) \<open>unat off + unat ?n \<le> unat ?size\<close> by (simp split: if_splits)
      then show ?thesis using d by (auto simp: dense_def)
    qed
    have "readi ip cp dst off n st m = readi_loop ip cp dst (unat off) 0 (unat ?n) st m"
      using False by (simp add: readi_def Let_def)
    moreover have "\<exists>r m'. readi_loop ip cp dst (unat off) 0 (unat ?n) st m = Some (r, st, m')
        \<and> ((\<forall>d bs m. fst (cp d bs m)) \<longrightarrow> r \<noteq> -1) \<and> (r = -1 \<or> r = int (unat ?n) \<and>
          (\<forall>a. peek m' a = (if dst \<le> a \<and> a < dst + (unat ?n - 0)
             then Some (fdata st ip (unat off + (a - dst))) else peek m a)))"
      by (rule readi_loop_spec[OF ok le0 sl])
    ultimately show ?thesis unfolding n by auto
  qed
qed

end

section \<open>Copies within the kernel\<close>

text \<open>With \<open>user_dst\<close> or \<open>user_src\<close> zero the copies are \<open>memmove\<close>, which does not fail.\<close>

definition kcopyout :: "mem copyout_fn" where
  "kcopyout dst bs m = (True, blit m dst bs)"

definition kcopyin :: "mem \<Rightarrow> copyin_fn" where
  "kcopyin m a k = (map (\<lambda>i. m (a + i)) [0..<k], True)"

interpretation kout: copyout_contract kcopyout "\<lambda>m a. Some (m a)"
  by unfold_locales (auto simp: kcopyout_def blit_def)

interpretation kin: copyin_contract "kcopyin m" m for m
  by unfold_locales (auto simp: kcopyin_def)

text \<open>
  The block map only grows the file, and never takes a block that is in use.  When
  \<open>bmap\<close> returns it has a block for the offset; the file's bytes read as before, blocks added
  to the file were free, the blocks and the bytes of everything else are untouched, and a block
  that was there already is returned without changing anything.
\<close>

theorem bmap_extends:
  assumes "fs_ok st" and "inode_ok st ip" and "bmap ip bn st = Some (b, st')"
  shows "b = slot st' ip bn \<and> b \<noteq> 0 \<and> fs_ok st' \<and> inode_ok st' ip
    \<and> (\<forall>i < MAXFILE * BSIZE. fdata st' ip i = fdata st ip i)
    \<and> (\<forall>s \<le> MAXFILE. if slot st ip s = 0 then slot st' ip s = 0 \<or> \<not> used st (slot st' ip s)
         else slot st' ip s = slot st ip s)
    \<and> (\<forall>x < sb_size (sb st). used st x \<and> x \<notin> bitmap_area st \<and> \<not> owns st ip x \<longrightarrow> cache st' x = cache st x)
    \<and> (slot st ip bn \<noteq> 0 \<longrightarrow> st' = st)"
  using bmap_effect[OF assms] by (simp add: grows_def)

lemma readi_effect:
  assumes "fs_ok st" and "inode_ok st ip" and "dense st ip"
  shows "\<exists>m'. readi ip kcopyout dst off n st m = Some (int (rd_len (isize (itab st ip)) off n), st, m')
    \<and> m' = (\<lambda>a. if dst \<le> a \<and> a < dst + rd_len (isize (itab st ip)) off n
              then fdata st ip (unat off + (a - dst)) else m a)"
proof -
  from kout.readi_spec[OF assms, of dst off n m] obtain r m' where
    "readi ip kcopyout dst off n st m = Some (r, st, m')" "r = int (rd_len (isize (itab st ip)) off n)"
    and p: "\<And>a. Some (m' a) = (if dst \<le> a \<and> a < dst + nat r then Some (fdata st ip (unat off + (a - dst)))
           else Some (m a))"
    by (auto simp: kcopyout_def)
  moreover have "m' a = (if dst \<le> a \<and> a < dst + nat r then fdata st ip (unat off + (a - dst)) else m a)" for a
    using p[of a] by (auto split: if_splits)
  ultimately show ?thesis by (intro exI[of _ m']) (auto simp: fun_eq_iff)
qed

text \<open>
  C5: \<open>readi\<close> returns the bytes of the file.  On a file with all its blocks it reads exactly
  the requested bytes that lie below the size (none when the offset is beyond it or the sum of
  offset and count wraps), puts them at the destination and changes nothing else, neither in
  memory nor in the file system.
\<close>

theorem readi_reads:
  assumes "fs_ok st" and "inode_ok st ip" and "dense st ip"
  shows "\<exists>m'. readi ip kcopyout dst off n st m = Some (int (rd_len (isize (itab st ip)) off n), st, m')
    \<and> m' = (\<lambda>a. if dst \<le> a \<and> a < dst + rd_len (isize (itab st ip)) off n
              then fdata st ip (unat off + (a - dst)) else m a)"
  by (rule readi_effect[OF assms])

text \<open>The inode of the demonstration disk's table: inode 0, empty, at entry 0.\<close>

lemma demo_slot: "slot demo_fs 0 s = 0"
  by (simp add: slot_def Let_def demo_fs_def)

lemma demo_inode_ok: "inode_ok demo_fs 0" "dense demo_fs 0"
  by (auto simp: inode_ok_def dense_def demo_slot) (simp_all add: demo_fs_def demo_sb_def)

lemma demo_room: "room demo_fs 29" "nfree demo_fs = 63"
proof -
  show "room demo_fs 29" by (simp add: room_def demo_fs_def)
  have "sb_size (sb demo_fs) = 100" by (simp add: demo_fs_def demo_sb_def)
  then have "{b. b < sb_size (sb demo_fs) \<and> \<not> used demo_fs b} = {37 ..< 100}"
    by (auto simp: demo_used)
  then show "nfree demo_fs = 63" by (simp add: nfree_def)
qed

theorem bmap_extends_witness:
  "\<exists>b st'. bmap 0 0 demo_fs = Some (b, st') \<and> b = slot st' 0 0 \<and> inode_ok st' 0"
proof -
  have "(0::nat) < MAXFILE" "Suc (Suc 0) \<le> nfree demo_fs" "room demo_fs (5 + 0)"
    using demo_room room_less[of demo_fs 29 5] by simp_all
  from bmap_total[OF demo_fs_ok demo_inode_ok(1) this]
  obtain b st' where b: "bmap 0 0 demo_fs = Some (b, st')" by blast
  show ?thesis using bmap_extends[OF demo_fs_ok demo_inode_ok(1) b] b by blast
qed

theorem readi_reads_witness:
  "\<exists>m'. readi 0 kcopyout 100 0 16 demo_fs (\<lambda>_. 0) = Some (0, demo_fs, m')"
proof -
  have "rd_len (isize (itab demo_fs 0)) 0 16 = 0" by (simp add: rd_len_def demo_fs_def)
  then show ?thesis
    using readi_reads[OF demo_fs_ok demo_inode_ok, of 100 0 16 "\<lambda>_. 0"] by auto
qed

lemma writei_effect:
  assumes "fs_ok st" and "inode_ok st ip" and "dense st ip"
    and "unat off \<le> unat (isize (itab st ip))" and "unat off + unat n \<le> MAXFILE * BSIZE"
    and "unat off + unat n \<le> (unat off div BSIZE + c) * BSIZE"
    and "room st (6 * c + 1)" and "2 * c \<le> nfree st"
  shows "\<exists>st'. writei ip (kcopyin m) src off n st = Some (int (unat n), st')
    \<and> fs_ok st' \<and> inode_ok st' ip \<and> dense st' ip
    \<and> unat (isize (itab st' ip)) = max (unat (isize (itab st ip))) (unat off + unat n)
    \<and> (\<forall>i < MAXFILE * BSIZE. fdata st' ip i =
         (if unat off \<le> i \<and> i < unat off + unat n then m (src + (i - unat off)) else fdata st ip i))
    \<and> (\<forall>b < sb_size (sb st). used st b \<and> b \<notin> bitmap_area st \<and> \<not> owns st ip b
         \<and> b \<noteq> IBLOCK (inum (itab st ip)) st \<longrightarrow> cache st' b = cache st b)
    \<and> (\<forall>jp. jp \<noteq> ip \<longrightarrow> itab st' jp = itab st jp)
    \<and> itab st' ip = (itab st ip)\<lparr>iaddrs := iaddrs (itab st' ip), isize := isize (itab st' ip)\<rparr>"
proof -
  have "unat off + unat n < 2 ^ 32" using assms(5) by simp
  then have sum: "unat (off + n) = unat off + unat n" using unat_add_lem[of off n] by simp
  then have g: "\<not> off > isize (itab st ip)" "\<not> off + n < off" "unat (off + n) \<le> MAXFILE * BSIZE"
    using assms(4,5) by (simp_all add: not_less word_le_nat_alt)
  have rng: "unat off + (unat n - 0) \<le> MAXFILE * BSIZE"
    "0 < unat n \<longrightarrow> unat off + (unat n - 0) \<le> (unat off div BSIZE + c) * BSIZE" using assms(5,6) by simp_all
  obtain tot off1 st1 where l: "writei_loop ip (kcopyin m) src (unat off) 0 (unat n) st = Some (tot, off1, st1)"
    and r1: "room st1 1"
    using kin.writei_loop_total[OF assms(1,2) le0 rng assms(7,8), of m src] by blast
  let ?st2 = "if off1 > unat (isize (itab st1 ip)) then iset ip (isize_update (\<lambda>_. of_nat off1)) st1 else st1"
  have "room ?st2 (Suc 0)" using r1 by (simp add: room_def iset_def)
  from lwrite_room[OF this] obtain st3 where "iupdate ip ?st2 = Some st3" unfolding iupdate_def Let_def by blast
  then have w: "writei ip (kcopyin m) src off n st = Some (int tot, st3)"
    using g l by (simp add: writei_def Let_def)
  have "\<forall>a k. snd (kcopyin m a k)" by (simp add: kcopyin_def)
  with kin.writei_spec[OF assms(1-3) g w] have tot: "int tot = int (unat n)" by blast
  then have nt: "nat (int tot) = unat n" by (simp only: nat_int)
  note W = kin.writei_spec[OF assms(1-3) g w, unfolded nt]
  have "fdata st3 ip i = (if unat off \<le> i \<and> i < unat off + unat n then m (src + (i - unat off)) else fdata st ip i)"
    if "i < MAXFILE * BSIZE" for i
    using W that by (cases "unat off \<le> i \<and> i < unat off + unat n") auto
  then show ?thesis using W w[unfolded tot] by (intro exI[of _ st3] conjI) blast+
qed

text \<open>
  C2: \<open>writei\<close> replaces the bytes of the file and nothing else.  With room in the log and on
  the disk for the \<open>c\<close> blocks it touches, a write within the maximal file size that starts at
  or below the size returns the count; afterwards the file's bytes are the old ones with the
  written range replaced, the size is the larger of the old size and the end of the write, and
  no block of another file, no other inode and no other table entry has changed.
\<close>

theorem writei_writes:
  assumes "fs_ok st" and "inode_ok st ip" and "dense st ip"
    and "unat off \<le> unat (isize (itab st ip))" and "unat off + unat n \<le> MAXFILE * BSIZE"
    and "unat off + unat n \<le> (unat off div BSIZE + c) * BSIZE"
    and "room st (6 * c + 1)" and "2 * c \<le> nfree st"
  shows "\<exists>st'. writei ip (kcopyin m) src off n st = Some (int (unat n), st')
    \<and> fs_ok st' \<and> inode_ok st' ip \<and> dense st' ip
    \<and> unat (isize (itab st' ip)) = max (unat (isize (itab st ip))) (unat off + unat n)
    \<and> (\<forall>i < MAXFILE * BSIZE. fdata st' ip i =
         (if unat off \<le> i \<and> i < unat off + unat n then m (src + (i - unat off)) else fdata st ip i))
    \<and> (\<forall>b < sb_size (sb st). used st b \<and> b \<notin> bitmap_area st \<and> \<not> owns st ip b
         \<and> b \<noteq> IBLOCK (inum (itab st ip)) st \<longrightarrow> cache st' b = cache st b)
    \<and> (\<forall>jp. jp \<noteq> ip \<longrightarrow> itab st' jp = itab st jp)
    \<and> itab st' ip = (itab st ip)\<lparr>iaddrs := iaddrs (itab st' ip), isize := isize (itab st' ip)\<rparr>"
  by (rule writei_effect[OF assms])

theorem writei_writes_witness:
  "\<exists>st'. writei 0 (kcopyin (\<lambda>_. 7)) 0 0 5 demo_fs = Some (5, st') \<and> fdata st' 0 3 = 7
     \<and> unat (isize (itab st' 0)) = 5"
proof -
  have rm: "room demo_fs (6 * 1 + 1)" by (rule room_less[OF demo_room(1)]) simp
  have sz: "isize (itab demo_fs 0) = 0" by (simp add: demo_fs_def)
  have "\<exists>st'. writei 0 (kcopyin (\<lambda>_. 7)) 0 0 5 demo_fs = Some (int (unat (5 :: u32)), st')
    \<and> unat (isize (itab st' 0)) = max (unat (isize (itab demo_fs 0))) (unat (0 :: u32) + unat (5 :: u32))
    \<and> (\<forall>i < MAXFILE * BSIZE. fdata st' 0 i =
         (if unat (0 :: u32) \<le> i \<and> i < unat (0 :: u32) + unat (5 :: u32) then 7 else fdata demo_fs 0 i))"
    using writei_writes[OF demo_fs_ok demo_inode_ok _ _ _ rm, of 0 5 "\<lambda>_. 7" 0] demo_room(2) sz by auto
  then obtain st' where "writei 0 (kcopyin (\<lambda>_. 7)) 0 0 5 demo_fs = Some (5, st')"
    "unat (isize (itab st' 0)) = 5" "\<forall>i < MAXFILE * BSIZE. fdata st' 0 i = (if i < 5 then 7 else fdata demo_fs 0 i)"
    using sz by auto
  then show ?thesis by auto
qed

text \<open>
  C6: reading a file returns what was written to it.  After a successful write, a read of the
  same range returns the count and the bytes that were written.
\<close>

theorem read_after_write:
  assumes "fs_ok st" and "inode_ok st ip" and "dense st ip"
    and "unat off \<le> unat (isize (itab st ip))" and "unat off + unat n \<le> MAXFILE * BSIZE"
    and "writei ip (kcopyin m) src off n st = Some (r, st')"
  shows "\<exists>m'. readi ip kcopyout dst off n st' m0 = Some (int (unat n), st', m')
    \<and> (\<forall>i < unat n. m' (dst + i) = m (src + i))"
proof -
  have "unat off + unat n < 2 ^ 32" using assms(5) by simp
  then have sum: "unat (off + n) = unat off + unat n" using unat_add_lem[of off n] by simp
  then have g: "\<not> off > isize (itab st ip)" "\<not> off + n < off" "unat (off + n) \<le> MAXFILE * BSIZE"
    using assms(4,5) by (simp_all add: not_less word_le_nat_alt)
  have "\<forall>a k. snd (kcopyin m a k)" by (simp add: kcopyin_def)
  note W = kin.writei_spec[OF assms(1-3) g assms(6)]
  with \<open>\<forall>a k. snd (kcopyin m a k)\<close> have "r = int (unat n)" by blast
  then have nr: "nat r = unat n" by (simp only: nat_int)
  have sz: "unat (isize (itab st' ip)) = max (unat (isize (itab st ip))) (unat off + unat n)"
    and ok: "fs_ok st'" "inode_ok st' ip" "dense st' ip"
    using W nr by simp_all
  have len: "rd_len (isize (itab st' ip)) off n = unat n"
    using sz \<open>unat off + unat n < 2 ^ 32\<close> by (auto simp: rd_len_def)
  have "fdata st' ip (unat off + i) = m (src + i)" if "i < unat n" for i
  proof -
    have "unat off + i < MAXFILE * BSIZE" "unat off + i < unat off + nat r" using that assms(5) nr by auto
    then show ?thesis using W by auto
  qed
  then show ?thesis using readi_effect[OF ok, of dst off n m0] len by auto
qed

lemma demo_write:
  "\<exists>st'. writei 0 (kcopyin (\<lambda>_. 7)) 0 0 5 demo_fs = Some (5, st')"
proof -
  have rm: "room demo_fs (6 * 1 + 1)" by (rule room_less[OF demo_room(1)]) simp
  have sz: "isize (itab demo_fs 0) = 0" by (simp add: demo_fs_def)
  show ?thesis
    using writei_effect[OF demo_fs_ok demo_inode_ok _ _ _ rm, of 0 5 "\<lambda>_. 7" 0] demo_room(2) sz by auto
qed

theorem read_after_write_witness:
  "\<exists>st' m'. writei 0 (kcopyin (\<lambda>_. 7)) 0 0 5 demo_fs = Some (5, st')
     \<and> readi 0 kcopyout 100 0 5 st' (\<lambda>_. 0) = Some (5, st', m') \<and> m' 102 = 7"
proof -
  obtain st' where w: "writei 0 (kcopyin (\<lambda>_. 7)) 0 0 5 demo_fs = Some (5, st')"
    using demo_write by blast
  have "isize (itab demo_fs 0) = 0" by (simp add: demo_fs_def)
  then have "\<exists>m'. readi 0 kcopyout 100 0 5 st' (\<lambda>_. 0) = Some (int (unat (5 :: u32)), st', m')
    \<and> (\<forall>i < unat (5 :: u32). m' (100 + i) = 7)"
    using read_after_write[OF demo_fs_ok demo_inode_ok _ _ w, of 100 "\<lambda>_. 0"] by simp
  then obtain m' where "readi 0 kcopyout 100 0 5 st' (\<lambda>_. 0) = Some (5, st', m')"
    and "\<forall>i < 5. m' (100 + i) = 7" by auto
  moreover from spec[OF this(2), of 2] have "m' 102 = 7" by simp
  ultimately show ?thesis using w by blast
qed

section \<open>Truncating a file\<close>

lemma bfree_SomeD:
  assumes "bfree b st = Some st'"
  shows "used st b" "sb st' = sb st" "itab st' = itab st" "used st' x \<longleftrightarrow> x \<noteq> b \<and> used st x"
    "x \<noteq> BBLOCK b st \<Longrightarrow> cache st' x = cache st x"
  using bfree_effect[where b = b and st = st] assms by auto

text \<open>
  \<open>frees ip B st st'\<close>: from \<open>st\<close> to \<open>st'\<close> exactly the blocks of \<open>B\<close> were freed, and apart from
  the addresses of inode \<open>ip\<close> nothing else changed.
\<close>

definition frees :: "nat \<Rightarrow> nat set \<Rightarrow> 'a fsst_scheme \<Rightarrow> 'a fsst_scheme \<Rightarrow> bool" where
  "frees ip B st st' \<longleftrightarrow> sb st' = sb st \<and> (\<exists>a. itab st' = (itab st)(ip := (itab st ip)\<lparr>iaddrs := a\<rparr>))
     \<and> (\<forall>b < sb_size (sb st). used st' b \<longleftrightarrow> used st b \<and> b \<notin> B)
     \<and> (\<forall>b. b \<notin> bitmap_area st \<longrightarrow> cache st' b = cache st b)"

lemma frees_refl: "frees ip {} st st"
  by (auto simp: frees_def intro!: exI[of _ "iaddrs (itab st ip)"])

lemma frees_trans: "frees ip B st st1 \<Longrightarrow> frees ip C st1 st2 \<Longrightarrow> frees ip (B \<union> C) st st2"
  by (auto simp: frees_def bitmap_area_def dstart_def)

lemma bfree_frees_one:
  assumes f: "bfree b st = Some st'" and b: "b < sb_size (sb st)"
  shows "frees ip {b} st st'"
proof -
  have "cache st' x = cache st x" if "x \<notin> bitmap_area st" for x
    using that BBLOCK_area[OF b] by (intro bfree_SomeD(5)[OF f]) auto
  then show ?thesis using bfree_SomeD(1-4)[OF f]
    by (auto simp: frees_def intro!: exI[of _ "iaddrs (itab st ip)"])
qed

lemma used_set_addr [simp]: "used (set_addr ip n r st) b = used st b"
  by (simp add: used_def bread_def)

lemma frees_set_addr: "frees ip B st st' \<Longrightarrow> frees ip B st (set_addr ip n r st')"
  by (auto simp: frees_def itab_set_addr)

lemma balloc_size_pos: "fs_ok st \<Longrightarrow> 0 < sb_size (sb st)"
  by (simp add: fs_ok_def dstart_def)

lemma itrunc_direct:
  assumes "fold_opt (\<lambda>i st.
         if iaddrs (itab st ip) i \<noteq> 0 then do {
           st' \<leftarrow> bfree (unat (iaddrs (itab st ip) i)) st;
           Some (set_addr ip i 0 st')
         } else Some st) [0..<k] st = Some st'" (is "fold_opt ?f _ _ = _")
    and "\<And>i. i < k \<Longrightarrow> unat (iaddrs (itab st ip) i) < sb_size (sb st)"
  shows "frees ip {b. \<exists>i < k. b = unat (iaddrs (itab st ip) i) \<and> b \<noteq> 0} st st'
    \<and> (\<forall>n. iaddrs (itab st' ip) n = (if n < k then 0 else iaddrs (itab st ip) n))"
  using assms
proof (induction k arbitrary: st')
  case 0
  then show ?case using frees_refl by simp
next
  case (Suc k)
  let ?a = "unat (iaddrs (itab st ip) k)"
  from Suc.prems(1) obtain st1 where s1: "fold_opt ?f [0..<k] st = Some st1" and s2: "?f k st1 = Some st'"
    by (auto simp: fold_opt_append Option.bind_eq_Some_conv)
  have IH: "frees ip {b. \<exists>i < k. b = unat (iaddrs (itab st ip) i) \<and> b \<noteq> 0} st st1"
    "\<And>n. iaddrs (itab st1 ip) n = (if n < k then 0 else iaddrs (itab st ip) n)"
    using Suc.IH[OF s1] Suc.prems(2) by auto
  have B: "{b. \<exists>i < Suc k. b = unat (iaddrs (itab st ip) i) \<and> b \<noteq> 0}
      = {b. \<exists>i < k. b = unat (iaddrs (itab st ip) i) \<and> b \<noteq> 0} \<union> (if ?a = 0 then {} else {?a})"
    by (auto simp: less_Suc_eq)
  show ?case
  proof (cases "iaddrs (itab st ip) k = 0")
    case True
    then show ?thesis using s2 IH unfolding B by (auto simp: less_Suc_eq)
  next
    case False
    then obtain st2 where f: "bfree ?a st1 = Some st2" and st': "st' = set_addr ip k 0 st2"
      using s2 IH(2) by (auto simp: Option.bind_eq_Some_conv)
    have "?a < sb_size (sb st1)" using Suc.prems(2)[of k] IH(1) by (simp add: frees_def)
    from frees_trans[OF IH(1) bfree_frees_one[OF f this]]
    have "frees ip ({b. \<exists>i < k. b = unat (iaddrs (itab st ip) i) \<and> b \<noteq> 0} \<union> {?a}) st st2" .
    moreover have "itab st2 = itab st1" using bfree_SomeD(3)[OF f] .
    moreover have "?a \<noteq> 0" using False by (simp add: unat_0_iff)
    ultimately show ?thesis unfolding B st' using IH(2)
      by (auto simp: frees_set_addr itab_set_addr less_Suc_eq)
  qed
qed

lemma itrunc_indirect:
  assumes "fold_opt (\<lambda>j st.
           let a = rd32 (bread st ib) (4 * j)
           in if a \<noteq> 0 then bfree (unat a) st else Some st) [0..<k] st = Some st'" (is "fold_opt ?f _ _ = _")
    and "ib \<notin> bitmap_area st"
    and "\<And>j. j < k \<Longrightarrow> unat (rd32 (cache st ib) (4 * j)) < sb_size (sb st)"
  shows "frees ip {b. \<exists>j < k. b = unat (rd32 (cache st ib) (4 * j)) \<and> b \<noteq> 0} st st' \<and> itab st' = itab st"
  using assms(1,3)
proof (induction k arbitrary: st')
  case 0
  then show ?case using frees_refl by simp
next
  case (Suc k)
  let ?a = "unat (rd32 (cache st ib) (4 * k))"
  from Suc.prems(1) obtain st1 where s1: "fold_opt ?f [0..<k] st = Some st1" and s2: "?f k st1 = Some st'"
    by (auto simp: fold_opt_append Option.bind_eq_Some_conv)
  have IH: "frees ip {b. \<exists>j < k. b = unat (rd32 (cache st ib) (4 * j)) \<and> b \<noteq> 0} st st1" "itab st1 = itab st"
    using Suc.IH[OF s1] Suc.prems(2) by auto
  then have ib: "bread st1 ib = cache st ib" using assms(2) by (simp add: frees_def bread_def)
  have B: "{b. \<exists>j < Suc k. b = unat (rd32 (cache st ib) (4 * j)) \<and> b \<noteq> 0}
      = {b. \<exists>j < k. b = unat (rd32 (cache st ib) (4 * j)) \<and> b \<noteq> 0} \<union> (if ?a = 0 then {} else {?a})"
    by (auto simp: less_Suc_eq)
  show ?case
  proof (cases "?a = 0")
    case True
    then show ?thesis using s2 IH unfolding B by (simp add: ib unat_0_iff)
  next
    case False
    then have f: "bfree ?a st1 = Some st'" using s2 by (simp add: ib Let_def unat_0_iff)
    have "?a < sb_size (sb st1)" using Suc.prems(2)[of k] IH(1) by (simp add: frees_def)
    from frees_trans[OF IH(1) bfree_frees_one[OF f this]] bfree_SomeD(3)[OF f] False IH(2)
    show ?thesis unfolding B by simp
  qed
qed

lemma owns_split:
  "owns st ip b \<longleftrightarrow> b \<noteq> 0 \<and> ((\<exists>i < NDIRECT. b = unat (iaddrs (itab st ip) i))
     \<or> (\<exists>j < NINDIRECT. b = slot st ip (NDIRECT + j)) \<or> b = slot st ip MAXFILE)"
proof -
  have "(\<exists>s \<le> MAXFILE. slot st ip s = b) \<longleftrightarrow> (\<exists>i < NDIRECT. b = slot st ip i)
     \<or> (\<exists>j < NINDIRECT. b = slot st ip (NDIRECT + j)) \<or> b = slot st ip MAXFILE" (is "?l \<longleftrightarrow> ?r")
  proof
    assume ?l
    then obtain s where s: "s \<le> MAXFILE" "slot st ip s = b" by blast
    consider "s < NDIRECT" | "s = NDIRECT + (s - NDIRECT)" "s - NDIRECT < NINDIRECT" | "s = MAXFILE"
      using s(1) by force
    then show ?r using s(2) by cases metis+
  next
    assume ?r
    then consider i where "i < NDIRECT" "slot st ip i = b" | j where "j < NINDIRECT" "slot st ip (NDIRECT + j) = b"
      | "slot st ip MAXFILE = b" by blast
    then show ?l
    proof cases
      case (1 i)
      then show ?thesis by (intro exI[of _ i]) simp
    next
      case (2 j)
      then show ?thesis by (intro exI[of _ "NDIRECT + j"]) simp
    qed auto
  qed
  moreover have "(\<exists>i < NDIRECT. b = slot st ip i) \<longleftrightarrow> (\<exists>i < NDIRECT. b = unat (iaddrs (itab st ip) i))"
    using slot_dir by metis
  ultimately show ?thesis unfolding owns_def by metis
qed

lemma itrunc_effect:
  assumes ok: "fs_ok st" "inode_ok st ip" and t: "itrunc ip st = Some st'"
  shows "sb st' = sb st"
    and "\<And>b. b < sb_size (sb st) \<Longrightarrow> used st' b \<longleftrightarrow> used st b \<and> \<not> owns st ip b"
    and "isize (itab st' ip) = 0" and "\<And>s. s \<le> MAXFILE \<Longrightarrow> slot st' ip s = 0"
    and "\<And>b. b \<notin> bitmap_area st \<Longrightarrow> b \<noteq> IBLOCK (inum (itab st ip)) st \<Longrightarrow> cache st' b = cache st b"
    and "\<exists>a. itab st' = (itab st)(ip := (itab st ip)\<lparr>iaddrs := a, isize := 0\<rparr>)"
    and "fs_ok st'" and "inode_ok st' ip"
proof -
  let ?f = "\<lambda>i st. if iaddrs (itab st ip) i \<noteq> 0 then do {
           st' \<leftarrow> bfree (unat (iaddrs (itab st ip) i)) st; Some (set_addr ip i 0 st') } else Some st"
  let ?g = "\<lambda>ib j st. let a = rd32 (bread st ib) (4 * j)
           in if a \<noteq> 0 then bfree (unat a) st else Some st"
  from t obtain st1 st2 where s1: "fold_opt ?f [0..<NDIRECT] st = Some st1"
    and s2: "(if iaddrs (itab st1 ip) NDIRECT \<noteq> 0 then do {
         let ib = unat (iaddrs (itab st1 ip) NDIRECT);
         st' \<leftarrow> fold_opt (?g ib) [0..<NINDIRECT] st1;
         st'' \<leftarrow> bfree ib st';
         Some (set_addr ip NDIRECT 0 st'')
       } else Some st1) = Some st2"
    and s3: "iupdate ip (iset ip (isize_update (\<lambda>_. 0)) st2) = Some st'"
    unfolding itrunc_def by (auto simp: Option.bind_eq_Some_conv split del: if_split)
  define own where "own = {b. owns st ip b}"
  have lt: "slot st ip s < sb_size (sb st)" if "s \<le> MAXFILE" for s
    using inode_okD(2)[OF ok(2) that] balloc_size_pos[OF ok(1)] by (cases "slot st ip s = 0") auto
  have "unat (iaddrs (itab st ip) i) < sb_size (sb st)" if "i < NDIRECT" for i
    using lt[of i] that by (simp add: slot_dir)
  from itrunc_direct[OF s1 this]
  have f1: "frees ip {b. \<exists>i < NDIRECT. b = unat (iaddrs (itab st ip) i) \<and> b \<noteq> 0} st st1"
    and a1: "\<And>n. iaddrs (itab st1 ip) n = (if n < NDIRECT then 0 else iaddrs (itab st ip) n)" by auto
  let ?ib = "slot st ip MAXFILE"
  have ib1: "unat (iaddrs (itab st1 ip) NDIRECT) = ?ib" by (simp add: a1 slot_ib)
  have f2: "frees ip own st st2 \<and> (\<forall>n \<le> NDIRECT. iaddrs (itab st2 ip) n = 0)"
  proof (cases "?ib = 0")
    case True
    then have "iaddrs (itab st1 ip) NDIRECT = 0" using ib1 by (simp add: unat_0_iff)
    then have "st2 = st1" using s2 by simp
    moreover have "slot st ip (NDIRECT + j) = 0" if "j < NINDIRECT" for j
      using that True slot_ind[of "NDIRECT + j" st ip] by simp
    then have "own = {b. \<exists>i < NDIRECT. b = unat (iaddrs (itab st ip) i) \<and> b \<noteq> 0}"
      using True by (auto simp: own_def owns_split)
    ultimately show ?thesis using f1 a1 \<open>iaddrs (itab st1 ip) NDIRECT = 0\<close> by auto
  next
    case False
    have cib: "cache st1 ?ib = cache st ?ib" and nib: "?ib \<notin> bitmap_area st"
      using f1 inode_okD(1)[OF ok(2) order_refl False] by (auto simp: frees_def bitmap_area_def)
    have ba1: "bitmap_area st1 = bitmap_area st" and sb1: "sb st1 = sb st"
      using f1 by (auto simp: frees_def intro!: bitmap_area_sb)
    from False have "iaddrs (itab st1 ip) NDIRECT \<noteq> 0" using ib1 by (auto simp: unat_0_iff)
    then obtain st3 st4 where g1: "fold_opt (?g ?ib) [0..<NINDIRECT] st1 = Some st3"
      and g2: "bfree ?ib st3 = Some st4" and g3: "st2 = set_addr ip NDIRECT 0 st4"
      using s2 by (auto simp: ib1 Let_def Option.bind_eq_Some_conv)
    have e: "unat (rd32 (cache st ?ib) (4 * j)) = slot st ip (NDIRECT + j)" if "j < NINDIRECT" for j
      using that False slot_ind[of "NDIRECT + j" st ip] by simp
    have "unat (rd32 (cache st1 ?ib) (4 * j)) < sb_size (sb st1)" if "j < NINDIRECT" for j
      using e[OF that] lt[of "NDIRECT + j"] that by (simp add: cib sb1)
    from itrunc_indirect[OF g1 _ this, of ip] nib
    have f3: "frees ip {b. \<exists>j < NINDIRECT. b = unat (rd32 (cache st ?ib) (4 * j)) \<and> b \<noteq> 0} st1 st3"
      and i3: "itab st3 = itab st1" by (auto simp: ba1 cib)
    have f4: "frees ip {?ib} st3 st4"
      by (rule bfree_frees_one[OF g2]) (use f3 sb1 lt[of MAXFILE] in \<open>simp add: frees_def\<close>)
    have "frees ip ({b. \<exists>i < NDIRECT. b = unat (iaddrs (itab st ip) i) \<and> b \<noteq> 0}
      \<union> {b. \<exists>j < NINDIRECT. b = unat (rd32 (cache st ?ib) (4 * j)) \<and> b \<noteq> 0} \<union> {?ib}) st st2"
      unfolding g3 by (intro frees_set_addr frees_trans[OF frees_trans[OF f1 f3] f4])
    moreover have "own = {b. \<exists>i < NDIRECT. b = unat (iaddrs (itab st ip) i) \<and> b \<noteq> 0}
      \<union> {b. \<exists>j < NINDIRECT. b = unat (rd32 (cache st ?ib) (4 * j)) \<and> b \<noteq> 0} \<union> {?ib}"
      using False e by (auto simp: own_def owns_split)
    moreover have "iaddrs (itab st2 ip) n = 0" if "n \<le> NDIRECT" for n
      using that a1 i3 bfree_SomeD(3)[OF g2] by (auto simp: g3 itab_set_addr le_less)
    ultimately show ?thesis by simp
  qed
  define st5 where "st5 = iset ip (isize_update (\<lambda>_. 0)) st2"
  from f2 have F: "frees ip own st st2" and z: "\<And>n. n \<le> NDIRECT \<Longrightarrow> iaddrs (itab st2 ip) n = 0" by auto
  have sb5: "sb st5 = sb st" using F by (simp add: st5_def iset_def frees_def)
  have c5: "cache st5 b = cache st b" if "b \<notin> bitmap_area st" for b
    using F that by (simp add: st5_def iset_def frees_def)
  have u5: "used st5 b \<longleftrightarrow> used st b \<and> b \<notin> own" if "b < sb_size (sb st)" for b
  proof -
    have "used st5 b = used st2 b" by (rule used_cong) (simp_all add: st5_def iset_def)
    then show ?thesis using F that by (simp add: frees_def)
  qed
  have it5: "\<exists>a. itab st5 = (itab st)(ip := (itab st ip)\<lparr>iaddrs := a, isize := 0\<rparr>)"
    using F by (auto simp: st5_def iset_def frees_def)
  have ad5: "iaddrs (itab st5 ip) n = iaddrs (itab st2 ip) n" for n by (simp add: st5_def iset_def)
  have sl5: "slot st5 ip s = 0" for s
  proof -
    have m: "slot st5 ip MAXFILE = 0" unfolding slot_ib using z by (simp add: ad5)
    consider "s < NDIRECT" | "NDIRECT \<le> s" "s < MAXFILE" | "MAXFILE \<le> s" by force
    then show ?thesis
    proof cases
      case 1
      then show ?thesis using z by (simp add: slot_dir ad5)
    next
      case 2
      then show ?thesis by (simp add: slot_ind[OF 2] m)
    next
      case 3
      then show ?thesis using m by (simp add: slot_def Let_def)
    qed
  qed
  have "dstart st \<le> b" if "b \<in> own" for b
    using that inode_okD(1)[OF ok(2)] by (auto simp: own_def owns_def)
  then have fs5: "fs_ok st5"
    using ok(1) u5 unfolding fs_ok_def dstart_sb[OF sb5] sb5 by (meson leD less_le_trans)
  have in5: "inum (itab st5 ip) = inum (itab st ip)" using it5 by auto
  have io5: "inode_ok st5 ip" using ok(2) by (simp add: inode_ok_def sl5 in5 sb5)
  note U = lwrite_SomeD(1-3)[OF s3[folded st5_def, unfolded iupdate_def Let_def]]
  let ?i = "IBLOCK (inum (itab st ip)) st"
  have ib: "IBLOCK (inum (itab st5 ip)) st5 = ?i" by (simp add: IBLOCK_def in5 sb5)
  have low: "?i < dstart st" "?i \<notin> bitmap_area st" using inode_low_block[OF ok] .
  have L: "fs_ok st'" "inode_ok st' ip" "slot st' ip t = slot st5 ip t" for t
    using low_write[OF fs5 io5 _ _ U(1,2)] low U(3)
    by (simp_all add: ib dstart_sb[OF sb5] bitmap_area_sb[OF sb5])
  show "fs_ok st'" "inode_ok st' ip" "\<And>s. s \<le> MAXFILE \<Longrightarrow> slot st' ip s = 0" using L sl5 by simp_all
  show "sb st' = sb st" using U sb5 by simp
  show "\<exists>a. itab st' = (itab st)(ip := (itab st ip)\<lparr>iaddrs := a, isize := 0\<rparr>)" using it5 U by simp
  then show "isize (itab st' ip) = 0" by auto
  show "cache st' b = cache st b" if "b \<notin> bitmap_area st" "b \<noteq> ?i" for b
    using U(1) that c5 by (simp add: ib)
  show "used st' b \<longleftrightarrow> used st b \<and> \<not> owns st ip b" if b: "b < sb_size (sb st)" for b
  proof -
    have "used st' b = used st5 b"
      using BBLOCK_area[OF b] low(2) by (intro used_cong U(2)) (auto simp: U(1) ib sb5)
    then show ?thesis using u5[OF b] by (simp add: own_def)
  qed
qed

text \<open>The state \<open>itrunc\<close> leaves does not depend on the lock it is called under.\<close>

lemma iput_effect:
  assumes ok: "fs_ok st" "inode_ok st ip" and p: "iput ip st = Some st'"
    and last: "iref (itab st ip) = 1 \<and> ivalid (itab st ip) \<and> inlink (itab st ip) = 0"
  shows "\<And>b. b < sb_size (sb st) \<Longrightarrow> used st' b \<longleftrightarrow> used st b \<and> \<not> owns st ip b"
    and "itype (on_disk st' (inum (itab st ip))) = 0" and "iref (itab st' ip) = 0"
    and "\<And>b. b \<notin> bitmap_area st \<Longrightarrow> b \<noteq> IBLOCK (inum (itab st ip)) st \<Longrightarrow> cache st' b = cache st b"
    and "\<And>jp. jp \<noteq> ip \<Longrightarrow> itab st' jp = itab st jp" and "fs_ok st'"
proof -
  define stl where "stl = iset ip (ilocked_update (\<lambda>_. True)) st"
  from p last obtain st1 st2 where t: "itrunc ip stl = Some st1"
    and u: "iupdate ip (iset ip (itype_update (\<lambda>_. 0)) st1) = Some st2"
    and st': "st' = iset ip (\<lambda>i. i\<lparr>iref := iref i - 1\<rparr>) (iset ip (\<lambda>i. i\<lparr>ivalid := False, ilocked := False\<rparr>) st2)"
    by (auto simp: iput_def stl_def Option.bind_eq_Some_conv split: if_splits)
  have l: "cache stl = cache st" "sb stl = sb st" "iaddrs (itab stl ip) = iaddrs (itab st ip)"
    "inum (itab stl ip) = inum (itab st ip)" by (simp_all add: stl_def iset_def)
  have ul: "used stl b = used st b" for b by (rule used_cong) (simp_all add: l)
  have sl: "slot stl ip s = slot st ip s" for s by (rule slot_cong) (simp_all add: l)
  have okl: "fs_ok stl" "inode_ok stl ip"
    using ok by (simp_all add: fs_ok_def inode_ok_def ul sl l dstart_sb[OF l(2)])
  note T = itrunc_effect[OF okl t]
  define st3 where "st3 = iset ip (itype_update (\<lambda>_. 0)) st1"
  note U = lwrite_SomeD(1-3)[OF u[folded st3_def, unfolded iupdate_def Let_def]]
  have c3: "cache st3 = cache st1" "sb st3 = sb st1" and ad3: "iaddrs (itab st3 ip) = iaddrs (itab st1 ip)"
    "inum (itab st3 ip) = inum (itab st1 ip)" "itype (itab st3 ip) = 0"
    by (simp_all add: st3_def iset_def)
  have n1: "inum (itab st1 ip) = inum (itab st ip)" using T(6) l(4) by auto
  have sb3: "sb st3 = sb st" using c3 T(1) l by simp
  let ?n = "inum (itab st ip)" let ?ib = "IBLOCK ?n st"
  have ib: "IBLOCK (inum (itab st3 ip)) st3 = ?ib" by (simp add: IBLOCK_def sb3 ad3 n1)
  have c': "cache st' = cache st2" "sb st' = sb st2" by (simp_all add: st' iset_def)
  have low: "?ib < dstart st" "?ib \<notin> bitmap_area st" using inode_low_block[OF ok] .
  have u': "used st' b = used st1 b" if "b < sb_size (sb st)" for b
    using BBLOCK_area[OF that] low(2) T(1) l U
    by (intro used_cong) (auto simp: c' c3 ib)
  show us: "used st' b \<longleftrightarrow> used st b \<and> \<not> owns st ip b" if "b < sb_size (sb st)" for b
    using u'[OF that] T(2)[of b] that by (simp add: l ul sl owns_def)
  have sb': "sb st' = sb st" using c' U(2) c3 T(1) l by simp
  have "IBLOCK ?n st' = ?ib" "IBLOCK ?n st3 = ?ib" by (simp_all add: IBLOCK_def sb' sb3)
  then show "itype (on_disk st' ?n) = 0"
    unfolding on_disk_type bread_def c' by (simp add: U ib ad3 n1 rd16_fields)
  show "iref (itab st' ip) = 0" using last T(6) by (auto simp: st' iset_def U st3_def stl_def)
  show "cache st' b = cache st b" if "b \<notin> bitmap_area st" "b \<noteq> ?ib" for b
  proof -
    have "cache st1 b = cache stl b"
      by (rule T(5)) (use that in \<open>simp_all add: IBLOCK_def l bitmap_area_sb[OF l(2)]\<close>)
    then show ?thesis using that(2) unfolding c' U(1) ib by (simp add: c3 l)
  qed
  show "itab st' jp = itab st jp" if "jp \<noteq> ip" for jp
    using that T(6) by (auto simp: st' iset_def U st3_def stl_def)
  have "\<not> owns st ip b" if "b < dstart st" for b
    using that inode_okD(1)[OF ok(2)] unfolding owns_def by (metis leD)
  then show "fs_ok st'"
    using ok(1) us unfolding fs_ok_def dstart_sb[OF sb'] sb' by (meson less_le_trans)
qed

text \<open>
  C14: dropping an inode.  \<open>iput\<close> only takes one reference away, except when it drops the last
  reference to an inode that no directory links to: then exactly the blocks of that file are
  freed, its inode is free on the disk and its table entry can be reused, while the blocks and
  the table entries of all other files stay as they are.
\<close>

theorem iput_drops:
  assumes "fs_ok st" and "inode_ok st ip" and "iput ip st = Some st'"
  shows "if iref (itab st ip) = 1 \<and> ivalid (itab st ip) \<and> inlink (itab st ip) = 0
    then (\<forall>b < sb_size (sb st). used st' b \<longleftrightarrow> used st b \<and> \<not> owns st ip b)
      \<and> itype (on_disk st' (inum (itab st ip))) = 0 \<and> iref (itab st' ip) = 0 \<and> fs_ok st'
      \<and> (\<forall>b. b \<notin> bitmap_area st \<and> b \<noteq> IBLOCK (inum (itab st ip)) st \<longrightarrow> cache st' b = cache st b)
      \<and> (\<forall>jp. jp \<noteq> ip \<longrightarrow> itab st' jp = itab st jp)
    else st' = st\<lparr>itab := (itab st)(ip := (itab st ip)\<lparr>iref := iref (itab st ip) - 1\<rparr>)\<rparr>"
proof (cases "iref (itab st ip) = 1 \<and> ivalid (itab st ip) \<and> inlink (itab st ip) = 0")
  case True
  then show ?thesis using iput_effect[OF assms True] by simp
next
  case False
  then show ?thesis using assms(3) by (auto simp: iput_def iset_def split: if_splits)
qed

definition demo_inode :: fsst where
  "demo_inode = iset 0 (\<lambda>i. i\<lparr>iref := 1, ivalid := True\<rparr>) demo_fs"

lemma demo_inode_fields: "cache demo_inode = cache demo_fs" "sb demo_inode = sb demo_fs"
  "iaddrs (itab demo_inode 0) n = 0" "inum (itab demo_inode 0) = 0" "isize (itab demo_inode 0) = 0"
  "iref (itab demo_inode 0) = 1" "ivalid (itab demo_inode 0)" "inlink (itab demo_inode 0) = 0"
  "room demo_inode 29" "\<not> ilocked (itab demo_inode 0)"
  by (simp_all add: demo_inode_def iset_def demo_fs_def room_def)

lemma demo_inode_inv: "fs_ok demo_inode" "inode_ok demo_inode 0"
proof -
  have u: "used demo_inode b = used demo_fs b" for b by (rule used_cong) (simp_all add: demo_inode_fields)
  have sl: "slot demo_inode 0 s = slot demo_fs 0 s" for s
    by (rule slot_cong) (simp_all add: demo_inode_fields demo_fs_def)
  show "fs_ok demo_inode" using demo_fs_ok
    by (simp add: fs_ok_def u demo_inode_fields dstart_sb[OF demo_inode_fields(2)])
  show "inode_ok demo_inode 0" using demo_inode_ok(1)
    by (simp add: inode_ok_def sl demo_slot demo_inode_fields)
qed

lemma fold_opt_skip: "(\<And>x. x \<in> set xs \<Longrightarrow> f x s = Some s) \<Longrightarrow> fold_opt f xs s = Some s"
  by (induction xs) auto

lemma itrunc_empty:
  assumes "\<And>n. iaddrs (itab st ip) n = 0"
  shows "itrunc ip st = iupdate ip (iset ip (isize_update (\<lambda>_. 0)) st)"
  unfolding itrunc_def by (subst fold_opt_skip) (simp_all add: assms)

lemma demo_iput: "\<exists>st'. iput 0 demo_inode = Some st'"
proof -
  let ?l = "iset 0 (ilocked_update (\<lambda>_. True)) demo_inode"
  have z: "iaddrs (itab ?l 0) n = 0" for n by (simp add: iset_def demo_inode_fields)
  have "room (iset 0 (isize_update (\<lambda>_. 0)) ?l) (Suc 1)"
    by (rule room_less[of _ 29]) (use demo_inode_fields(9) in \<open>simp_all add: room_def iset_def\<close>)
  then obtain st1 where s1: "itrunc 0 ?l = Some st1" and r1: "room st1 1"
    unfolding itrunc_empty[OF z] iupdate_def Let_def using lwrite_room by blast
  have "room (iset 0 (itype_update (\<lambda>_. 0)) st1) (Suc 0)" using r1 by (simp add: room_def iset_def)
  then obtain st2 where "iupdate 0 (iset 0 (itype_update (\<lambda>_. 0)) st1) = Some st2"
    unfolding iupdate_def Let_def using lwrite_room by blast
  then show ?thesis using s1 by (simp add: iput_def demo_inode_fields)
qed

theorem iput_drops_witness:
  "\<exists>st'. iput 0 demo_inode = Some st' \<and> iref (itab st' 0) = 0 \<and> itype (on_disk st' 0) = 0"
proof -
  obtain st' where p: "iput 0 demo_inode = Some st'" using demo_iput by blast
  show ?thesis using iput_drops[OF demo_inode_inv p] p by (auto simp: demo_inode_fields)
qed

end
