(* ===== verification/FsDir.thy ===== *)
theory FsDir imports FsFile begin

text \<open>
  Directories and path names, from \<open>kernel/filesystems/arm64/fs.c\<close>.

  A directory is a file of 16-byte entries: the inode number, then the name in \<open>DIRSIZ\<close> bytes,
  padded with NULs but without a final NUL when it is full.  A path argument is the list of
  bytes before its NUL; \<open>name\<close>, the buffer of one path element, is a view of memory.
\<close>

section \<open>Directory entries\<close>

definition namecmp :: "mem \<Rightarrow> mem \<Rightarrow> int" where
  "namecmp s t = strncmp s t DIRSIZ"

text \<open>The name field of a \<open>struct dirent\<close>.\<close>

definition de_name :: "mem \<Rightarrow> mem" where
  "de_name de = (\<lambda>i. de (2 + i))"

text \<open>Reading never changes a file's size, which bounds the loops over directories.\<close>

lemma balloc_itab: "balloc_from b st = Some (r, st') \<Longrightarrow> itab st' = itab st"
proof (induction b st rule: balloc_from.induct)
  case (1 b st)
  show ?case
  proof (cases "b < sb_size (sb st)")
    case True
    then show ?thesis using "1.prems" "1.IH"[OF True refl refl]
      by (auto simp: balloc_from.simps[of b st] bzero_def Let_def Option.bind_eq_Some_conv
          dest!: lwrite_SomeD(3) split: option.splits)
  qed (use "1.prems" in \<open>simp add: balloc_from.simps[of b st]\<close>)
qed

lemma get_addr_isize: "get_addr ip n st = Some (b, st') \<Longrightarrow> isize (itab st' jp) = isize (itab st jp)"
  by (auto simp: get_addr_def Let_def balloc_def Option.bind_eq_Some_conv itab_set_addr
      dest!: balloc_itab split: if_splits)

lemma bmap_isize: "bmap ip bn st = Some (b, st') \<Longrightarrow> isize (itab st' jp) = isize (itab st jp)"
  by (auto simp: bmap_def Let_def Option.bind_eq_Some_conv balloc_def get_addr_isize
      dest!: get_addr_isize[where jp = jp] balloc_itab lwrite_SomeD(3) split: if_splits)

lemma readi_loop_isize:
  "readi_loop ip cp dst off tot n st m = Some (r, st', m') \<Longrightarrow> isize (itab st' jp) = isize (itab st jp)"
proof (induction "n - tot" arbitrary: dst off tot st m rule: less_induct)
  case less
  show ?case
  proof (cases "tot < n")
    case True
    define k where "k = min (n - tot) (BSIZE - off mod BSIZE)"
    have k: "n - (tot + k) < n - tot" using True by (auto simp: k_def)
    from less.prems True obtain b st1 where bm: "bmap ip (off div BSIZE) st = Some (b, st1)"
      and rest: "(case cp dst (map (\<lambda>i. bread st1 b (off mod BSIZE + i)) [0..<k]) m of
           (False, m1) \<Rightarrow> Some (-1, st1, m1)
         | (True, m1) \<Rightarrow> readi_loop ip cp (dst + k) (off + k) (tot + k) n st1 m1) = Some (r, st', m')"
      by (auto simp: readi_loop.simps[of ip cp dst off tot n st m] Let_def k_def[symmetric] Option.bind_eq_Some_conv)
    show ?thesis using rest less.hyps[OF k] bmap_isize[OF bm, of jp]
      by (auto split: prod.splits bool.splits)
  qed (use less.prems in \<open>simp add: readi_loop.simps[of ip cp dst off tot n st m]\<close>)
qed

lemma readi_isize: "readi ip cp dst off n st m = Some (r, st', m') \<Longrightarrow> isize (itab st' jp) = isize (itab st jp)"
  by (auto simp: readi_def Let_def dest: readi_loop_isize split: if_splits)

text \<open>The loop of \<open>dirlookup\<close>; the result has the inode and the offset of its entry.\<close>

function dirlookup_from :: "nat \<Rightarrow> nat \<Rightarrow> mem \<Rightarrow> 'a fsst_scheme \<Rightarrow> mem
    \<Rightarrow> ((nat \<times> nat) option \<times> 'a fsst_scheme) option" where
  "dirlookup_from off dp name st de =
     (if off < unat (isize (itab st dp)) then do {
        (r, st1, de) \<leftarrow> readi dp kcopyout 0 (of_nat off) (of_nat DIRENT_SIZE) st de;
        (if r \<noteq> int DIRENT_SIZE then None
         else if rd16 de 0 = 0 then dirlookup_from (off + DIRENT_SIZE) dp name st1 de
         else if namecmp name (de_name de) = 0 then do {
           (ip, st2) \<leftarrow> iget (idev (itab st1 dp)) (unat (rd16 de 0)) st1;
           Some (Some (ip, off), st2)
         } else dirlookup_from (off + DIRENT_SIZE) dp name st1 de)
      } else Some (None, st))"
  by pat_completeness auto
termination
  by (relation "measure (\<lambda>(off, dp, name, st, de). unat (isize (itab st dp)) - off)")
     (auto simp: readi_isize)

declare dirlookup_from.simps [simp del]

definition dirlookup :: "nat \<Rightarrow> mem \<Rightarrow> 'a fsst_scheme \<Rightarrow> ((nat \<times> nat) option \<times> 'a fsst_scheme) option" where
  "dirlookup dp name st =
     (if itype (itab st dp) \<noteq> T_DIR then None else dirlookup_from 0 dp name st (\<lambda>_. 0))"

text \<open>The second loop of \<open>dirlink\<close>: the offset of the first unused entry, or the size.\<close>

function dirlink_from :: "nat \<Rightarrow> nat \<Rightarrow> 'a fsst_scheme \<Rightarrow> mem \<Rightarrow> (nat \<times> mem \<times> 'a fsst_scheme) option" where
  "dirlink_from off dp st de =
     (if off < unat (isize (itab st dp)) then do {
        (r, st1, de) \<leftarrow> readi dp kcopyout 0 (of_nat off) (of_nat DIRENT_SIZE) st de;
        (if r \<noteq> int DIRENT_SIZE then None
         else if rd16 de 0 = 0 then Some (off, de, st1)
         else dirlink_from (off + DIRENT_SIZE) dp st1 de)
      } else Some (off, de, st))"
  by pat_completeness auto
termination
  by (relation "measure (\<lambda>(off, dp, st, de). unat (isize (itab st dp)) - off)")
     (auto simp: readi_isize)

declare dirlink_from.simps [simp del]

text \<open>\<open>strncpy(de.name, name, DIRSIZ); de.inum = inum\<close>, with \<open>de\<close> and \<open>name\<close> in one memory.\<close>

definition fill_dirent :: "mem \<Rightarrow> mem \<Rightarrow> nat \<Rightarrow> mem" where
  "fill_dirent de name n =
     (let m = (\<lambda>a. if a < DIRENT_SIZE then de a else name (a - DIRENT_SIZE))
      in wr16 (strncpy m 2 DIRENT_SIZE (int DIRSIZ)) 0 (of_nat n))"

definition dirlink :: "nat \<Rightarrow> mem \<Rightarrow> nat \<Rightarrow> 'a fsst_scheme \<Rightarrow> (int \<times> 'a fsst_scheme) option" where
  "dirlink dp name n st = do {
     (r, st1) \<leftarrow> dirlookup dp name st;
     (case r of
        Some (ip, _) \<Rightarrow> do { st2 \<leftarrow> iput ip st1; Some (-1, st2) }
      | None \<Rightarrow> do {
          (off, de, st2) \<leftarrow> dirlink_from 0 dp st1 (\<lambda>_. 0);
          (w, st3) \<leftarrow> writei dp (kcopyin (fill_dirent de name n)) 0 (of_nat off) (of_nat DIRENT_SIZE) st2;
          (if w \<noteq> int DIRENT_SIZE then None else Some (0, st3))
        })
   }"

section \<open>Paths\<close>

abbreviation (input) slash :: byte where "slash \<equiv> 47"

definition skipelem :: "byte list \<Rightarrow> mem \<Rightarrow> (byte list \<times> mem) option" where
  "skipelem path name =
     (let path = dropWhile (\<lambda>c. c = slash) path in
      if path = [] then None
      else let s = takeWhile (\<lambda>c. c \<noteq> slash) path;
               path = dropWhile (\<lambda>c. c \<noteq> slash) path;
               name = (if length s \<ge> DIRSIZ then blit name 0 (take DIRSIZ s)
                       else (blit name 0 s)(length s := 0))
        in Some (dropWhile (\<lambda>c. c = slash) path, name))"

lemma skipelem_shorter: "skipelem path name = Some (path', name') \<Longrightarrow> length path' < length path"
proof -
  assume a: "skipelem path name = Some (path', name')"
  let ?p = "dropWhile (\<lambda>c. c = slash) path"
  have ne: "?p \<noteq> []" and p': "path' = dropWhile (\<lambda>c. c = slash) (dropWhile (\<lambda>c. c \<noteq> slash) ?p)"
    using a by (auto simp: skipelem_def Let_def split: if_splits)
  have "hd ?p \<noteq> slash" using ne hd_dropWhile by blast
  then have "length (dropWhile (\<lambda>c. c \<noteq> slash) ?p) < length ?p"
    using ne by (cases ?p) (auto simp: le_imp_less_Suc length_dropWhile_le)
  then show ?thesis unfolding p'
    by (meson le_less_trans length_dropWhile_le less_le_trans)
qed

function namex_loop :: "nat \<Rightarrow> byte list \<Rightarrow> bool \<Rightarrow> mem \<Rightarrow> 'a fsst_scheme
    \<Rightarrow> (nat option \<times> mem \<times> 'a fsst_scheme) option" where
  "namex_loop ip path parent name st =
     (case skipelem path name of
        None \<Rightarrow> if parent then do { st1 \<leftarrow> iput ip st; Some (None, name, st1) } else Some (Some ip, name, st)
      | Some (path, name) \<Rightarrow> do {
          st1 \<leftarrow> ilock ip st;
          (if itype (itab st1 ip) \<noteq> T_DIR then do {
             st2 \<leftarrow> iunlockput ip st1; Some (None, name, st2)
           } else if parent \<and> path = [] then do {
             st2 \<leftarrow> iunlock ip st1; Some (Some ip, name, st2)
           } else do {
             (r, st2) \<leftarrow> dirlookup ip name st1;
             (case r of
                None \<Rightarrow> do { st3 \<leftarrow> iunlockput ip st2; Some (None, name, st3) }
              | Some (nxt, _) \<Rightarrow> do {
                  st3 \<leftarrow> iunlockput ip st2;
                  namex_loop nxt path parent name st3
                })
           })
        })"
  by pat_completeness auto
termination
  by (relation "measure (\<lambda>(ip, path, parent, name, st). length path)") (auto dest: skipelem_shorter)

declare namex_loop.simps [simp del]

definition namex :: "nat \<Rightarrow> byte list \<Rightarrow> bool \<Rightarrow> mem \<Rightarrow> 'a fsst_scheme
    \<Rightarrow> (nat option \<times> mem \<times> 'a fsst_scheme) option" where
  "namex cwd path parent name st = do {
     (ip, st1) \<leftarrow> (if path \<noteq> [] \<and> hd path = slash then iget ROOTDEV ROOTINO st else Some (cwd, idup cwd st));
     namex_loop ip path parent name st1
   }"

definition namei :: "nat \<Rightarrow> byte list \<Rightarrow> 'a fsst_scheme \<Rightarrow> (nat option \<times> 'a fsst_scheme) option" where
  "namei cwd path st = do { (r, _, st1) \<leftarrow> namex cwd path False (\<lambda>_. 0) st; Some (r, st1) }"

definition nameiparent :: "nat \<Rightarrow> byte list \<Rightarrow> mem \<Rightarrow> 'a fsst_scheme \<Rightarrow> (nat option \<times> mem \<times> 'a fsst_scheme) option" where
  "nameiparent cwd path name st = namex cwd path True name st"

section \<open>Path elements\<close>

text \<open>The elements of a path: the non-empty words between slashes.\<close>

fun split_slash :: "byte list \<Rightarrow> byte list list" where
  "split_slash [] = [[]]"
| "split_slash (c # cs) =
     (if c = slash then [] # split_slash cs
      else case split_slash cs of [] \<Rightarrow> [[c]] | w # ws \<Rightarrow> (c # w) # ws)"

definition path_elems :: "byte list \<Rightarrow> byte list list" where
  "path_elems p = filter (\<lambda>w. w \<noteq> []) (split_slash p)"

lemma split_slash_word:
  "split_slash p = takeWhile (\<lambda>c. c \<noteq> slash) p
     # (case dropWhile (\<lambda>c. c \<noteq> slash) p of [] \<Rightarrow> [] | _ # q \<Rightarrow> split_slash q)"
  by (induction p) (auto split: list.splits)

lemma path_elems_skip: "path_elems (dropWhile (\<lambda>c. c = slash) p) = path_elems p"
  by (induction p) (auto simp: path_elems_def)

lemma path_elems_Nil [simp]: "path_elems [] = []"
  by (simp add: path_elems_def)

lemma path_elems_word:
  assumes "p \<noteq> []" and "hd p \<noteq> slash"
  shows "path_elems p = takeWhile (\<lambda>c. c \<noteq> slash) p
    # path_elems (dropWhile (\<lambda>c. c = slash) (dropWhile (\<lambda>c. c \<noteq> slash) p))"
proof -
  have ne: "takeWhile (\<lambda>c. c \<noteq> slash) p \<noteq> []" using assms by (cases p) auto
  have "path_elems (dropWhile (\<lambda>c. c \<noteq> slash) p)
      = filter (\<lambda>w. w \<noteq> []) (case dropWhile (\<lambda>c. c \<noteq> slash) p of [] \<Rightarrow> [] | _ # q \<Rightarrow> split_slash q)"
  proof (cases "dropWhile (\<lambda>c. c \<noteq> slash) p")
    case (Cons c q)
    then have "c = slash" using hd_dropWhile[of "\<lambda>c. c \<noteq> slash" p] by auto
    then show ?thesis by (simp add: Cons path_elems_def)
  next
    case Nil
    then show ?thesis by (simp only: path_elems_Nil list.case filter.simps)
  qed
  then show ?thesis using ne
    by (simp add: path_elems_skip) (simp add: path_elems_def split_slash_word[of p])
qed

lemma name_copy:
  assumes "0 \<notin> set e"
  shows "cstrn (if length e \<ge> DIRSIZ then blit name 0 (take DIRSIZ e) else (blit name 0 e)(length e := 0)) DIRSIZ
    = take DIRSIZ e"
proof (cases "length e \<ge> DIRSIZ")
  case True
  then have "map (blit name 0 (take DIRSIZ e)) [0..<DIRSIZ] = take DIRSIZ e"
    by (intro nth_equalityI) (auto simp: blit_def)
  moreover have "0 \<notin> set (take DIRSIZ e)" using assms by (meson in_set_takeD)
  ultimately show ?thesis using True by (simp add: cstrn_def takeWhile_neq_notin)
next
  case False
  then show ?thesis using assms by (auto intro!: cstrn_eqI simp: blit_def)
qed

text \<open>
  C13: \<open>skipelem\<close> takes the first element off a path.  It returns nothing exactly when the path
  has no element; otherwise \<open>name\<close> holds the first element, cut at \<open>DIRSIZ\<close> bytes, and the
  elements of the path it returns are the remaining ones, with no leading slash.
\<close>

theorem skipelem_elems:
  assumes "0 \<notin> set path"
  shows "(case skipelem path name of
      None \<Rightarrow> path_elems path = []
    | Some (path', name') \<Rightarrow> path_elems path \<noteq> [] \<and> path_elems path' = tl (path_elems path)
        \<and> cstrn name' DIRSIZ = take DIRSIZ (hd (path_elems path)) \<and> (path' = [] \<or> hd path' \<noteq> slash))"
proof -
  let ?p = "dropWhile (\<lambda>c. c = slash) path"
  show ?thesis
  proof (cases "?p = []")
    case True
    then have "path_elems path = []" using path_elems_skip[of path] by (simp only: path_elems_Nil)
    then show ?thesis using True by (simp add: skipelem_def)
  next
    case False
    then have "hd ?p \<noteq> slash" using hd_dropWhile by blast
    note w = path_elems_word[OF False this, unfolded path_elems_skip[of path]]
    let ?e = "takeWhile (\<lambda>c. c \<noteq> slash) ?p"
    have "0 \<notin> set ?e" using assms by (meson set_dropWhileD set_takeWhileD)
    then have "cstrn (if length ?e \<ge> DIRSIZ then blit name 0 (take DIRSIZ ?e) else (blit name 0 ?e)(length ?e := 0)) DIRSIZ
      = take DIRSIZ ?e" by (rule name_copy)
    moreover have "q = [] \<or> hd q \<noteq> slash" if "q = dropWhile (\<lambda>c. c = slash) r" for q r
      using that hd_dropWhile by blast
    ultimately show ?thesis using False w by (auto simp: skipelem_def Let_def simp del: fun_upd_apply)
  qed
qed

theorem skipelem_elems_witness:
  "(case skipelem [47, 97, 47, 98] (\<lambda>_. 0) of None \<Rightarrow> False
     | Some (path', name') \<Rightarrow> path_elems path' = [[98]] \<and> cstrn name' 14 = [97])"
  using skipelem_elems[of "[47, 97, 47, 98]" "\<lambda>_. 0"]
  by (simp add: path_elems_def split: option.splits prod.splits)

section \<open>A directory as a list of entries\<close>

definition dent_num :: "'a fsst_scheme \<Rightarrow> nat \<Rightarrow> nat \<Rightarrow> u16" where
  "dent_num st dp k = rd16 (\<lambda>i. fdata st dp (DIRENT_SIZE * k + i)) 0"

definition dent_name :: "'a fsst_scheme \<Rightarrow> nat \<Rightarrow> nat \<Rightarrow> byte list" where
  "dent_name st dp k = cstrn (\<lambda>i. fdata st dp (DIRENT_SIZE * k + 2 + i)) DIRSIZ"

definition ndent :: "'a fsst_scheme \<Rightarrow> nat \<Rightarrow> nat" where
  "ndent st dp = unat (isize (itab st dp)) div DIRENT_SIZE"

text \<open>The first entry in use with a given name.\<close>

definition dir_find :: "'a fsst_scheme \<Rightarrow> nat \<Rightarrow> byte list \<Rightarrow> nat option" where
  "dir_find st dp nm = find (\<lambda>k. dent_num st dp k \<noteq> 0 \<and> dent_name st dp k = nm) [0..<ndent st dp]"

text \<open>A directory that can be searched: whole entries, all of them there.\<close>

definition dir_ok :: "'a fsst_scheme \<Rightarrow> nat \<Rightarrow> bool" where
  "dir_ok st dp \<longleftrightarrow> inode_ok st dp \<and> dense st dp \<and> itype (itab st dp) = T_DIR
     \<and> DIRENT_SIZE dvd unat (isize (itab st dp))"

lemma read_dirent:
  assumes "fs_ok st" "dir_ok st dp" and k: "k < ndent st dp"
  shows "\<exists>de'. readi dp kcopyout 0 (of_nat (DIRENT_SIZE * k)) (of_nat DIRENT_SIZE) st de = Some (int DIRENT_SIZE, st, de')
    \<and> rd16 de' 0 = dent_num st dp k \<and> cstrn (de_name de') DIRSIZ = dent_name st dp k"
proof -
  have d: "inode_ok st dp" "dense st dp" "DIRENT_SIZE dvd unat (isize (itab st dp))"
    using assms(2) by (simp_all add: dir_ok_def)
  let ?sz = "unat (isize (itab st dp))"
  have le: "DIRENT_SIZE * k + DIRENT_SIZE \<le> ?sz"
    using k d(3) by (auto simp: ndent_def elim!: dvdE)
  have "?sz < 2 ^ 32" using d(2) by (simp add: dense_def)
  then have off: "unat (of_nat (DIRENT_SIZE * k) :: u32) = DIRENT_SIZE * k"
    using le by (intro unat_of_nat_u32) simp
  have n: "unat (of_nat DIRENT_SIZE :: u32) = DIRENT_SIZE" by simp
  have len: "rd_len (isize (itab st dp)) (of_nat (DIRENT_SIZE * k)) (of_nat DIRENT_SIZE) = DIRENT_SIZE"
    unfolding rd_len_def off n using le \<open>?sz < 2 ^ 32\<close> by simp
  from kout.readi_spec[OF assms(1) d(1,2), of 0 "of_nat (DIRENT_SIZE * k)" "of_nat DIRENT_SIZE" de]
  obtain r de' where rd: "readi dp kcopyout 0 (of_nat (DIRENT_SIZE * k)) (of_nat DIRENT_SIZE) st de = Some (r, st, de')"
    and r: "r = int DIRENT_SIZE"
    and p: "\<And>a. Some (de' a) = (if 0 \<le> a \<and> a < 0 + nat r then Some (fdata st dp (DIRENT_SIZE * k + (a - 0))) else Some (de a))"
    unfolding len off by (auto simp: kcopyout_def)
  have b: "de' a = fdata st dp (DIRENT_SIZE * k + a)" if "a < DIRENT_SIZE" for a
    using p[of a] that r by simp
  have "rd16 de' 0 = dent_num st dp k"
    unfolding dent_num_def by (rule rd16_cong) (simp add: b)
  moreover have "cstrn (de_name de') DIRSIZ = dent_name st dp k"
    unfolding dent_name_def de_name_def by (rule cstrn_cong) (use b in \<open>simp add: add.assoc\<close>)
  ultimately show ?thesis using rd r by blast
qed

lemma find_upt_from:
  "find P [k..<n] = (if k < n then if P k then Some k else find P [Suc k..<n] else None)"
  by (auto simp: upt_conv_Cons)

lemma namecmp_eq: "namecmp p q = 0 \<longleftrightarrow> cstrn p DIRSIZ = cstrn q DIRSIZ"
  by (simp add: namecmp_def strncmp_def strncmp_at_cstrn)

lemma dirlookup_from_find:
  assumes "fs_ok st" "dir_ok st dp" and "k \<le> ndent st dp"
  shows "dirlookup_from (DIRENT_SIZE * k) dp name st de =
    (case find (\<lambda>k. dent_num st dp k \<noteq> 0 \<and> dent_name st dp k = cstrn name DIRSIZ) [k..<ndent st dp] of
       None \<Rightarrow> Some (None, st)
     | Some j \<Rightarrow> do { (ip, st') \<leftarrow> iget (idev (itab st dp)) (unat (dent_num st dp j)) st;
                  Some (Some (ip, DIRENT_SIZE * j), st') })"
  using assms(3)
proof (induction "ndent st dp - k" arbitrary: k de)
  case 0
  then have "\<not> DIRENT_SIZE * k < unat (isize (itab st dp))"
    using assms(2) by (auto simp: ndent_def dir_ok_def elim!: dvdE)
  then show ?case using 0 by (simp add: dirlookup_from.simps[of "DIRENT_SIZE * k"])
next
  case (Suc x)
  then have k: "k < ndent st dp" by simp
  then have lt: "DIRENT_SIZE * k < unat (isize (itab st dp))"
    using assms(2) by (auto simp: ndent_def dir_ok_def elim!: dvdE)
  obtain de' where rd: "readi dp kcopyout 0 (of_nat (DIRENT_SIZE * k)) (of_nat DIRENT_SIZE) st de = Some (int DIRENT_SIZE, st, de')"
    and v: "rd16 de' 0 = dent_num st dp k" "cstrn (de_name de') DIRSIZ = dent_name st dp k"
    using read_dirent[OF assms(1,2) k] by blast
  have ih: "dirlookup_from (DIRENT_SIZE * k + DIRENT_SIZE) dp name st de' =
    (case find (\<lambda>k. dent_num st dp k \<noteq> 0 \<and> dent_name st dp k = cstrn name DIRSIZ) [Suc k..<ndent st dp] of
       None \<Rightarrow> Some (None, st)
     | Some j \<Rightarrow> do { (ip, st') \<leftarrow> iget (idev (itab st dp)) (unat (dent_num st dp j)) st;
                  Some (Some (ip, DIRENT_SIZE * j), st') })"
    using Suc.hyps(1)[of "Suc k" de'] Suc.hyps(2) k by (simp add: algebra_simps)
  have "dirlookup_from (DIRENT_SIZE * k) dp name st de =
     (if rd16 de' 0 = 0 then dirlookup_from (DIRENT_SIZE * k + DIRENT_SIZE) dp name st de'
      else if namecmp name (de_name de') = 0 then do {
           (ip, st2) \<leftarrow> iget (idev (itab st dp)) (unat (rd16 de' 0)) st;
           Some (Some (ip, DIRENT_SIZE * k), st2) }
      else dirlookup_from (DIRENT_SIZE * k + DIRENT_SIZE) dp name st de')"
    unfolding dirlookup_from.simps[of "DIRENT_SIZE * k"] using lt rd by (simp del: of_nat_mult)
  then show ?case using k
    by (auto simp: ih v namecmp_eq find_upt_from[of _ k])
qed

text \<open>
  C12: \<open>dirlookup\<close> finds names.  On a directory it returns the inode and the offset of the first
  entry in use whose name is the given one, cut at \<open>DIRSIZ\<close> bytes, and nothing when there is no
  such entry; the file system changes only by the new reference to the inode found.
\<close>

theorem dirlookup_finds:
  assumes "fs_ok st" and "dir_ok st dp"
  shows "dirlookup dp name st =
    (case dir_find st dp (cstrn name DIRSIZ) of
       None \<Rightarrow> Some (None, st)
     | Some k \<Rightarrow> (case iget (idev (itab st dp)) (unat (dent_num st dp k)) st of
           None \<Rightarrow> None
         | Some (ip, st') \<Rightarrow> Some (Some (ip, DIRENT_SIZE * k), st')))"
  using dirlookup_from_find[OF assms, of 0] assms(2)
  by (auto simp: dirlookup_def dir_find_def dir_ok_def split: option.splits)

section \<open>Adding an entry\<close>

text \<open>The first entry not in use, or the end of the directory.\<close>

definition dir_free :: "'a fsst_scheme \<Rightarrow> nat \<Rightarrow> nat" where
  "dir_free st dp = (case find (\<lambda>k. dent_num st dp k = 0) [0..<ndent st dp] of Some k \<Rightarrow> k | None \<Rightarrow> ndent st dp)"

lemma dirlink_from_free:
  assumes "fs_ok st" "dir_ok st dp" and "k \<le> ndent st dp"
  shows "\<exists>de'. dirlink_from (DIRENT_SIZE * k) dp st de = Some (DIRENT_SIZE *
    (case find (\<lambda>k. dent_num st dp k = 0) [k..<ndent st dp] of Some j \<Rightarrow> j | None \<Rightarrow> ndent st dp), de', st)"
  using assms(3)
proof (induction "ndent st dp - k" arbitrary: k de)
  case 0
  then have "k = ndent st dp" by simp
  moreover have "\<not> DIRENT_SIZE * ndent st dp < unat (isize (itab st dp))"
    using assms(2) by (auto simp: ndent_def dir_ok_def elim!: dvdE)
  ultimately show ?case by (simp add: dirlink_from.simps[of "DIRENT_SIZE * ndent st dp"])
next
  case (Suc x)
  then have k: "k < ndent st dp" by simp
  then have lt: "DIRENT_SIZE * k < unat (isize (itab st dp))"
    using assms(2) by (auto simp: ndent_def dir_ok_def elim!: dvdE)
  obtain de' where rd: "readi dp kcopyout 0 (of_nat (DIRENT_SIZE * k)) (of_nat DIRENT_SIZE) st de = Some (int DIRENT_SIZE, st, de')"
    and v: "rd16 de' 0 = dent_num st dp k"
    using read_dirent[OF assms(1,2) k] by blast
  have "dirlink_from (DIRENT_SIZE * k) dp st de =
     (if rd16 de' 0 = 0 then Some (DIRENT_SIZE * k, de', st)
      else dirlink_from (DIRENT_SIZE * k + DIRENT_SIZE) dp st de')"
    unfolding dirlink_from.simps[of "DIRENT_SIZE * k"] using lt rd by (simp del: of_nat_mult)
  then show ?case using Suc.hyps(1)[of "Suc k" de'] Suc.hyps(2) k
    by (auto simp: v find_upt_from[of _ k] algebra_simps)
qed

lemma fill_dirent_bytes:
  "fill_dirent de name n a = (if a < 2 then wr16 (\<lambda>_. 0) 0 (of_nat n) a
     else if a < DIRENT_SIZE then view (cstrn name DIRSIZ) (a - 2)
     else name (a - DIRENT_SIZE))"
  by (auto simp: fill_dirent_def Let_def strncpy_pads wr16_def)

lemma cstrn_view:
  assumes "c = cstrn name n" and "\<And>i. i < n \<Longrightarrow> f i = view c i"
  shows "cstrn f n = c"
proof (cases "length c < n")
  case True
  then show ?thesis using assms cstrn_nonzero[of 0 name n]
    by (intro cstrn_eqI) (auto simp: view_def)
next
  case False
  then have len: "length c = n" using length_cstrn[of name n] assms(1) by simp
  have "map f [0..<n] = c" by (rule nth_equalityI) (simp_all add: len assms(2) view_def)
  then show ?thesis using assms(1) cstrn_nonzero[of 0 name n]
    by (auto simp: cstrn_def takeWhile_neq_notin)
qed

text \<open>Where a directory's contents are, two states agree on its entries.\<close>

lemma dent_cong:
  assumes "\<And>i. i < DIRENT_SIZE \<Longrightarrow> fdata st' dp (DIRENT_SIZE * k + i) = fdata st dp (DIRENT_SIZE * k + i)"
  shows "dent_num st' dp k = dent_num st dp k" "dent_name st' dp k = dent_name st dp k"
proof -
  show "dent_num st' dp k = dent_num st dp k"
    unfolding dent_num_def by (rule rd16_cong) (simp add: assms)
  show "dent_name st' dp k = dent_name st dp k"
    unfolding dent_name_def
  proof (rule cstrn_cong)
    fix i :: nat assume "i < DIRSIZ"
    then show "fdata st' dp (DIRENT_SIZE * k + 2 + i) = fdata st dp (DIRENT_SIZE * k + 2 + i)"
      using assms[of "2 + i"] by (simp add: add.assoc)
  qed
qed

lemma dirent_in_block: "DIRENT_SIZE * k + DIRENT_SIZE \<le> (DIRENT_SIZE * k div BSIZE + 1) * BSIZE"
proof -
  have "DIRENT_SIZE * k = (k div 64) * BSIZE + DIRENT_SIZE * (k mod 64)"
    using div_mult_mod_eq[of k 64] by linarith
  moreover have "DIRENT_SIZE * k div BSIZE = k div 64"
    using div_mult_mult1[of "16::nat" k 64] by simp
  moreover have "k mod 64 < 64" by simp
  ultimately show ?thesis unfolding distrib_right by linarith
qed

text \<open>What \<open>dirlink\<close> has written when it returns: the entry, at the first free place.\<close>

lemma dirlink_effect:
  assumes "fs_ok st" and "dir_ok st dp" and "dir_find st dp (cstrn name DIRSIZ) = None"
    and "DIRENT_SIZE * ndent st dp + DIRENT_SIZE \<le> MAXFILE * BSIZE" and "room st 7" and "2 \<le> nfree st"
    and "k0 = dir_free st dp"
  obtains st' de where "dirlink dp name n st = Some (0, st')" and "fs_ok st'" and "dir_ok st' dp"
    and "ndent st' dp = max (ndent st dp) (k0 + 1)"
    and "\<And>i. i < MAXFILE * BSIZE \<Longrightarrow> fdata st' dp i =
      (if DIRENT_SIZE * k0 \<le> i \<and> i < DIRENT_SIZE * k0 + DIRENT_SIZE
       then fill_dirent de name n (i - DIRENT_SIZE * k0) else fdata st dp i)"
proof -
  have ok: "inode_ok st dp" "dense st dp" and dv: "DIRENT_SIZE dvd unat (isize (itab st dp))"
    and ty: "itype (itab st dp) = T_DIR" using assms(2) by (simp_all add: dir_ok_def)
  have k0: "k0 \<le> ndent st dp"
    by (auto simp: assms(7) dir_free_def find_Some_iff split: option.splits)
  have sz: "unat (isize (itab st dp)) = DIRENT_SIZE * ndent st dp" using dv by (simp add: ndent_def)
  obtain de where fr: "dirlink_from 0 dp st (\<lambda>_. 0) = Some (DIRENT_SIZE * k0, de, st)"
    using dirlink_from_free[OF assms(1,2) le0, of "\<lambda>_. 0"] by (auto simp: assms(7) dir_free_def)
  have off: "unat (of_nat (DIRENT_SIZE * k0) :: u32) = DIRENT_SIZE * k0"
    using k0 assms(4) by (intro unat_of_nat_u32) simp
  have c16: "unat (of_nat DIRENT_SIZE :: u32) = DIRENT_SIZE" by simp
  let ?m = "fill_dirent de name n"
  have W: "\<exists>st'. writei dp (kcopyin ?m) 0 (of_nat (DIRENT_SIZE * k0)) (of_nat DIRENT_SIZE) st = Some (int DIRENT_SIZE, st')
    \<and> fs_ok st' \<and> inode_ok st' dp \<and> dense st' dp
    \<and> unat (isize (itab st' dp)) = max (unat (isize (itab st dp))) (DIRENT_SIZE * k0 + DIRENT_SIZE)
    \<and> (\<forall>i < MAXFILE * BSIZE. fdata st' dp i =
         (if DIRENT_SIZE * k0 \<le> i \<and> i < DIRENT_SIZE * k0 + DIRENT_SIZE then ?m (0 + (i - DIRENT_SIZE * k0)) else fdata st dp i))
    \<and> itab st' dp = (itab st dp)\<lparr>iaddrs := iaddrs (itab st' dp), isize := isize (itab st' dp)\<rparr>"
  proof -
    have "unat (of_nat (DIRENT_SIZE * k0) :: u32) \<le> unat (isize (itab st dp))" unfolding off sz using k0 by simp
    moreover have "unat (of_nat (DIRENT_SIZE * k0) :: u32) + unat (of_nat DIRENT_SIZE :: u32) \<le> MAXFILE * BSIZE"
      using k0 assms(4) unfolding off c16 by simp
    moreover have "unat (of_nat (DIRENT_SIZE * k0) :: u32) + unat (of_nat DIRENT_SIZE :: u32)
        \<le> (unat (of_nat (DIRENT_SIZE * k0) :: u32) div BSIZE + 1) * BSIZE"
      unfolding off c16 by (rule dirent_in_block)
    moreover have "room st (6 * 1 + 1)" "2 * 1 \<le> nfree st" using assms(5,6) by simp_all
    ultimately show ?thesis
      using writei_effect[OF assms(1) ok, of "of_nat (DIRENT_SIZE * k0)" "of_nat DIRENT_SIZE" 1 ?m 0]
      unfolding off c16 by blast
  qed
  then obtain st' where w: "writei dp (kcopyin ?m) 0 (of_nat (DIRENT_SIZE * k0)) (of_nat DIRENT_SIZE) st = Some (int DIRENT_SIZE, st')"
    and ok': "fs_ok st'" "inode_ok st' dp" "dense st' dp"
    and sz': "unat (isize (itab st' dp)) = max (unat (isize (itab st dp))) (DIRENT_SIZE * k0 + DIRENT_SIZE)"
    and fd: "\<And>i. i < MAXFILE * BSIZE \<Longrightarrow> fdata st' dp i =
         (if DIRENT_SIZE * k0 \<le> i \<and> i < DIRENT_SIZE * k0 + DIRENT_SIZE then ?m (0 + (i - DIRENT_SIZE * k0)) else fdata st dp i)"
    and it: "itab st' dp = (itab st dp)\<lparr>iaddrs := iaddrs (itab st' dp), isize := isize (itab st' dp)\<rparr>" by blast
  have "dirlookup dp name st = Some (None, st)"
    using dirlookup_from_find[OF assms(1,2) le0, of name "\<lambda>_. 0"] assms(3) ty
    by (simp add: dirlookup_def dir_find_def)
  then have link: "dirlink dp name n st = Some (0, st')"
    using fr w by (simp add: dirlink_def del: of_nat_mult)
  have "unat (isize (itab st' dp)) = DIRENT_SIZE * max (ndent st dp) (k0 + 1)"
    unfolding sz' sz by (simp add: max_def)
  moreover have "itype (itab st' dp) = itype (itab st dp)" by (subst it) simp
  ultimately have "ndent st' dp = max (ndent st dp) (k0 + 1)" "dir_ok st' dp"
    using ok' ty by (simp_all add: ndent_def dir_ok_def)
  then show ?thesis using that[OF link ok'(1)] fd[unfolded add_0] by blast
qed

lemma dirlink_slot_le: "dir_free st dp \<le> ndent st dp"
  by (auto simp: dir_free_def find_Some_iff split: option.splits)

text \<open>Writing entry \<open>k0\<close> stores the number and the name there and leaves the other entries alone.\<close>

lemma dirent_written:
  assumes fd: "\<And>i. i < MAXFILE * BSIZE \<Longrightarrow> fdata st' dp i =
      (if DIRENT_SIZE * k0 \<le> i \<and> i < DIRENT_SIZE * k0 + DIRENT_SIZE
       then fill_dirent de name n (i - DIRENT_SIZE * k0) else fdata st dp i)"
    and "DIRENT_SIZE * m + DIRENT_SIZE \<le> MAXFILE * BSIZE" and "k0 \<le> m"
  shows "dent_num st' dp k0 = of_nat n \<and> dent_name st' dp k0 = cstrn name DIRSIZ"
    and "k < m \<Longrightarrow> k \<noteq> k0 \<Longrightarrow> dent_num st' dp k = dent_num st dp k \<and> dent_name st' dp k = dent_name st dp k"
proof -
  have b: "fdata st' dp (DIRENT_SIZE * k0 + i) = fill_dirent de name n i" if "i < DIRENT_SIZE" for i
    using fd[of "DIRENT_SIZE * k0 + i"] that assms(2,3) by simp
  have "dent_num st' dp k0 = rd16 (wr16 (\<lambda>_. 0) 0 (of_nat n)) 0"
    unfolding dent_num_def by (rule rd16_cong) (simp add: b fill_dirent_bytes)
  moreover have "fdata st' dp (DIRENT_SIZE * k0 + 2 + i) = view (cstrn name DIRSIZ) i" if "i < DIRSIZ" for i
    using b[of "2 + i"] that by (simp add: fill_dirent_bytes add.assoc)
  then have "dent_name st' dp k0 = cstrn name DIRSIZ"
    unfolding dent_name_def by (rule cstrn_view[OF refl])
  ultimately show "dent_num st' dp k0 = of_nat n \<and> dent_name st' dp k0 = cstrn name DIRSIZ"
    by (simp add: rd16_wr16)
next
  assume k: "k < m" "k \<noteq> k0"
  have "fdata st' dp (DIRENT_SIZE * k + i) = fdata st dp (DIRENT_SIZE * k + i)" if "i < DIRENT_SIZE" for i
  proof -
    have "DIRENT_SIZE * k + i < MAXFILE * BSIZE" using k that assms(2) by simp
    moreover have "\<not> (DIRENT_SIZE * k0 \<le> DIRENT_SIZE * k + i \<and> DIRENT_SIZE * k + i < DIRENT_SIZE * k0 + DIRENT_SIZE)"
      using k(2) that by auto
    ultimately show ?thesis using fd by auto
  qed
  from dent_cong[OF this]
  show "dent_num st' dp k = dent_num st dp k \<and> dent_name st' dp k = dent_name st dp k" by blast
qed

text \<open>
  C11: \<open>dirlink\<close> adds an entry.  If the directory has no entry with the name, then, with room in
  the log and on the disk, it stores the inode number under the name in the first unused entry,
  or after the last; a search for the name now finds that entry, every other entry is as it was,
  and the directory stays well formed.
\<close>

theorem dirlink_adds:
  assumes "fs_ok st" and "dir_ok st dp" and "dir_find st dp (cstrn name DIRSIZ) = None"
    and "0 < n" and "n < 2 ^ 16" and "DIRENT_SIZE * ndent st dp + DIRENT_SIZE \<le> MAXFILE * BSIZE"
    and "room st 7" and "2 \<le> nfree st"
  shows "\<exists>st'. dirlink dp name n st = Some (0, st') \<and> fs_ok st' \<and> dir_ok st' dp
    \<and> dir_find st' dp (cstrn name DIRSIZ) = Some (dir_free st dp)
    \<and> dent_num st' dp (dir_free st dp) = of_nat n
    \<and> ndent st' dp = max (ndent st dp) (dir_free st dp + 1)
    \<and> (\<forall>k < ndent st dp. k \<noteq> dir_free st dp \<longrightarrow>
         dent_num st' dp k = dent_num st dp k \<and> dent_name st' dp k = dent_name st dp k)"
proof -
  define k0 where "k0 = dir_free st dp"
  obtain st' de where eff: "dirlink dp name n st = Some (0, st')" "fs_ok st'" "dir_ok st' dp"
    and nd: "ndent st' dp = max (ndent st dp) (k0 + 1)"
    and fd: "\<And>i. i < MAXFILE * BSIZE \<Longrightarrow> fdata st' dp i =
      (if DIRENT_SIZE * k0 \<le> i \<and> i < DIRENT_SIZE * k0 + DIRENT_SIZE
       then fill_dirent de name n (i - DIRENT_SIZE * k0) else fdata st dp i)"
    using dirlink_effect[OF assms(1-3,6-8) k0_def] by blast
  have k0: "k0 \<le> ndent st dp" unfolding k0_def by (rule dirlink_slot_le)
  note new = dirent_written(1)[OF fd assms(6) k0]
  note old = dirent_written(2)[OF fd assms(6) k0]
  have "(of_nat n :: u16) \<noteq> 0" using assms(4,5) by (auto simp: word_of_nat_eq_0_iff dest: dvd_imp_le)
  moreover have "\<forall>j < k0. \<not> (dent_num st' dp j \<noteq> 0 \<and> dent_name st' dp j = cstrn name DIRSIZ)"
    using assms(3) old k0 by (auto simp: dir_find_def find_None_iff)
  ultimately have "dir_find st' dp (cstrn name DIRSIZ) = Some k0"
    unfolding dir_find_def find_Some_iff using new nd by (intro exI[of _ k0]) simp
  with eff nd new old show ?thesis unfolding k0_def[symmetric] by (intro exI[of _ st']) simp
qed

text \<open>A small directory: entry 0 of the table, no entries yet, on the demonstration disk.\<close>

definition demo_dir :: fsst where
  "demo_dir = iset 0 (\<lambda>i. i\<lparr>itype := T_DIR, idev := 1, ivalid := True, iref := 1\<rparr>) demo_fs"

lemma demo_dir_fields: "cache demo_dir = cache demo_fs" "sb demo_dir = sb demo_fs"
  "itype (itab demo_dir 0) = T_DIR" "isize (itab demo_dir 0) = 0" "room demo_dir 29"
  "\<And>n. iaddrs (itab demo_dir 0) n = iaddrs (itab demo_fs 0) n" "inum (itab demo_dir 0) = inum (itab demo_fs 0)"
  by (simp_all add: demo_dir_def iset_def demo_fs_def room_def)

lemma demo_dir_inv: "fs_ok demo_dir" "dir_ok demo_dir 0" "ndent demo_dir 0 = 0" "nfree demo_dir = 63"
proof -
  have u: "used demo_dir b = used demo_fs b" for b by (rule used_cong) (simp_all add: demo_dir_fields)
  have sl: "slot demo_dir 0 s = slot demo_fs 0 s" for s
    by (rule slot_cong) (simp_all add: demo_dir_fields)
  show "fs_ok demo_dir" using demo_fs_ok
    by (simp add: fs_ok_def u demo_dir_fields dstart_sb[OF demo_dir_fields(2)])
  show "dir_ok demo_dir 0" using demo_inode_ok
    by (simp add: dir_ok_def dense_def inode_ok_def sl demo_slot demo_dir_fields)
  show "ndent demo_dir 0 = 0" by (simp add: ndent_def demo_dir_fields)
  have "nfree demo_dir = nfree demo_fs" by (rule nfree_cong) (simp_all add: demo_dir_fields)
  then show "nfree demo_dir = 63" by (simp add: demo_room)
qed

theorem dirlink_adds_witness:
  "\<exists>st'. dirlink 0 (view [97]) 5 demo_dir = Some (0, st') \<and> dir_find st' 0 [97] = Some 0 \<and> dent_num st' 0 0 = 5"
proof -
  have nm: "cstrn (view [97]) DIRSIZ = [97]" by (rule cstrn_eqI) (auto simp: view_def)
  have "dir_find demo_dir 0 (cstrn (view [97]) DIRSIZ) = None" "dir_free demo_dir 0 = 0"
    by (simp_all add: dir_find_def dir_free_def demo_dir_inv)
  then show ?thesis
    using dirlink_adds[OF demo_dir_inv(1,2), of "view [97]" 5] demo_dir_inv(3,4) room_less[OF demo_dir_fields(5), of 7] nm
    by auto
qed

theorem dirlookup_finds_witness: "dirlookup 0 (view [97]) demo_dir = Some (None, demo_dir)"
  using dirlookup_finds[OF demo_dir_inv(1,2), of "view [97]"] by (simp add: dir_find_def demo_dir_inv)

end
