(* ===== verification/FsLogUse.thy ===== *)
theory FsLogUse imports FsFile begin

text \<open>
  How much of the log a write uses.  \<open>begin_op\<close> lets an operation in when \<open>MAXOPBLOCKS\<close> more blocks
  fit the log, so every operation must log at most that many different blocks; \<open>filewrite\<close> splits a
  large write into transactions of \<open>((MAXOPBLOCKS-1-1-2) / 2) * BSIZE\<close> bytes for this reason.
  The bytes come from any source that meets \<open>copyin_contract\<close>; theory \<open>FileWrite\<close> has the user's memory.
  \<open>logs B st st'\<close> says that the blocks added to the log between two states are among \<open>B\<close>.
\<close>

definition logs :: "nat set \<Rightarrow> 'a logst_scheme \<Rightarrow> 'a logst_scheme \<Rightarrow> bool" where
  "logs B st st' \<longleftrightarrow> set (lh st') \<subseteq> set (lh st) \<union> B \<and> (distinct (lh st) \<longrightarrow> distinct (lh st'))"

lemma logs_refl: "logs B st st"
  by (simp add: logs_def)

lemma logs_trans: "logs B st st1 \<Longrightarrow> logs C st1 st2 \<Longrightarrow> logs (B \<union> C) st st2"
  by (auto simp: logs_def)

lemma logs_mono: "logs B st st' \<Longrightarrow> B \<subseteq> C \<Longrightarrow> logs C st st'"
  by (auto simp: logs_def)

lemma logs_lh: "lh st' = lh st \<Longrightarrow> logs B st st'"
  by (simp add: logs_def)

lemma logs_length:
  assumes "logs B st st'" and "distinct (lh st)" and "finite B"
  shows "length (lh st') \<le> length (lh st) + card B"
proof -
  have "length (lh st') = card (set (lh st'))"
    using assms by (simp add: logs_def distinct_card)
  also have "\<dots> \<le> card (set (lh st) \<union> B)" using assms by (intro card_mono) (auto simp: logs_def)
  also have "\<dots> \<le> card (set (lh st)) + card B" by (rule card_Un_le)
  finally show ?thesis using assms(2) by (simp add: distinct_card)
qed

lemma log_write_logs:
  assumes "log_write b st = Some st'"
  shows "logs {b} st st'"
proof (cases "b \<in> set (lh st)")
  case True
  let ?i = "length (takeWhile (\<lambda>x. x \<noteq> b) (lh st))"
  have i: "?i < length (lh st)"
    using True length_takeWhile_le[of "\<lambda>x. x \<noteq> b" "lh st"] takeWhile_eq_take[of "\<lambda>x. x \<noteq> b" "lh st"]
    by (metis (mono_tags, lifting) le_neq_implies_less set_takeWhileD take_all_iff order_refl)
  then have "lh st ! ?i = b" using nth_length_takeWhile by fastforce
  then have "(lh st)[?i := b] = lh st" by (metis list_update_id)
  then show ?thesis using assms i by (auto simp: log_write_def Let_def logs_def split: if_splits)
next
  case False
  then have "length (takeWhile (\<lambda>x. x \<noteq> b) (lh st)) = length (lh st)"
    by (metis (mono_tags, lifting) takeWhile_eq_all_conv)
  then show ?thesis using assms False
    by (auto simp: log_write_def Let_def logs_def log_bpin_def split: if_splits)
qed

lemma lh_frame [simp]: "lh (bset b v st) = lh st" "lh (iset ip f st) = lh st" "lh (set_addr ip n r st) = lh st"
  by (simp_all add: bset_def iset_def set_addr_def)

lemma lwrite_logs: "lwrite b v st = Some st' \<Longrightarrow> logs {b} st st'"
  using log_write_logs[of b "bset b v st" st'] by (simp add: lwrite_def logs_def)

section \<open>Allocation\<close>

lemma balloc_logs:
  assumes "balloc st = Some (r, st')" and "sb_size (sb st) \<le> BPB"
  shows "logs {sb_bmapstart (sb st), r} st st'"
proof -
  from balloc_from_Some[OF assms(1)[unfolded balloc_def]] obtain d st1 where
    r: "r < sb_size (sb st)" and d: "d = bread st (BBLOCK r st)"
    and w: "lwrite (BBLOCK r st) (d(r mod BPB div 8 := d (r mod BPB div 8) OR bmask r)) st = Some st1"
    and z: "bzero r st1 = Some st'" by auto
  have "BBLOCK r st = sb_bmapstart (sb st)" using r assms(2) by simp
  then show ?thesis using logs_trans[OF lwrite_logs[OF w] lwrite_logs[OF z[unfolded bzero_def]]] by (simp add: insert_commute)
qed

lemma get_addr_logs:
  assumes "get_addr ip n st = Some (b, st')" and "sb_size (sb st) \<le> BPB"
  shows "logs {sb_bmapstart (sb st), b} st st'"
proof (cases "unat (iaddrs (itab st ip) n) = 0")
  case True
  then obtain st1 where "balloc st = Some (b, st1)" and "st' = set_addr ip n b st1"
    using assms(1) by (auto simp: get_addr_def Let_def Option.bind_eq_Some_conv)
  then show ?thesis using balloc_logs[OF _ assms(2)] by (fastforce simp: logs_def)
qed (use assms(1) in \<open>auto simp: get_addr_def Let_def logs_refl\<close>)

text \<open>\<open>bmap\<close> logs the bitmap block, the block it returns and the indirect block.\<close>

lemma bmap_logs:
  assumes ok: "fs_ok st" "inode_ok st ip" and b: "bmap ip bn st = Some (b, st')" and one: "sb_size (sb st) \<le> BPB"
  shows "logs ({sb_bmapstart (sb st), b} \<union> ({slot st' ip MAXFILE} - {0})) st st'"
proof (cases "bn < NDIRECT")
  case True
  then have "get_addr ip bn st = Some (b, st')" using b by (simp add: bmap_def)
  from get_addr_logs[OF this one] show ?thesis by (rule logs_mono) blast
next
  case False
  have bn: "bn < MAXFILE" by (rule bmap_effect(1)[OF ok b])
  obtain ib st1 where g: "get_addr ip NDIRECT st = Some (ib, st1)"
    and rest: "(if unat (rd32 (bread st1 ib) (4 * (bn - NDIRECT))) = 0 then do {
           (r, st2) \<leftarrow> balloc st1;
           st3 \<leftarrow> lwrite ib (wr32 (bread st2 ib) (4 * (bn - NDIRECT)) (of_nat r)) st2;
           Some (r, st3)
         } else Some (unat (rd32 (bread st1 ib) (4 * (bn - NDIRECT))), st1)) = Some (b, st')"
    using b bn False less_diff_conv2[of NDIRECT bn NINDIRECT]
    by (auto simp: bmap_def Let_def Option.bind_eq_Some_conv split del: if_split)
  note G = get_addr_effect[OF ok order_refl refl g]
  have ib: "ib = slot st1 ip MAXFILE" "ib \<noteq> 0" and sb1: "sb st1 = sb st"
    using G(3,4) grows_ok(3)[OF G(1)] by simp_all
  have g1: "logs {sb_bmapstart (sb st), ib} st st1" by (rule get_addr_logs[OF g one])
  show ?thesis
  proof (cases "unat (rd32 (bread st1 ib) (4 * (bn - NDIRECT))) = 0")
    case False
    then have "st' = st1" using rest by auto
    then have "logs {sb_bmapstart (sb st), ib} st st'" using g1 by simp
    then show ?thesis by (rule logs_mono) (use ib \<open>st' = st1\<close> in auto)
  next
    case True
    then obtain st2 where al: "balloc st1 = Some (b, st2)"
      and lw: "lwrite ib (wr32 (bread st2 ib) (4 * (bn - NDIRECT)) (of_nat b)) st2 = Some st'"
      using rest by (auto simp: Option.bind_eq_Some_conv)
    have "itab st2 = itab st1" using balloc_effect(6)[OF grows_ok(1)[OF G(1)] al] .
    then have "slot st' ip MAXFILE = ib" using ib lwrite_SomeD(3)[OF lw] by (simp add: slot_ib)
    moreover have "logs ({sb_bmapstart (sb st), ib} \<union> {sb_bmapstart (sb st), b} \<union> {ib}) st st'"
      using logs_trans[OF logs_trans[OF g1 balloc_logs[OF al]] lwrite_logs[OF lw]] one sb1 by simp
    ultimately show ?thesis using ib(2) by (auto elim: logs_mono)
  qed
qed

section \<open>The write loop\<close>

definition touched :: "nat \<Rightarrow> nat set \<Rightarrow> 'a fsst_scheme \<Rightarrow> nat set" where
  "touched ip S st = insert (sb_bmapstart (sb st)) (slot st ip ` insert MAXFILE S - {0})"

lemma touched_grows:
  assumes "grows ip st st'" and "S \<subseteq> {..<MAXFILE}" and "S \<subseteq> T"
  shows "touched ip S st \<subseteq> touched ip T st'"
proof -
  have "slot st' ip s = slot st ip s" if "s \<in> insert MAXFILE S" "slot st ip s \<noteq> 0" for s
    using that grows_slot_keep[OF assms(1), of s] assms(2) by auto
  then show ?thesis using assms(3) grows_ok(3)[OF assms(1)] unfolding touched_def by force
qed

lemma touched_mono: "S \<subseteq> T \<Longrightarrow> touched ip S st \<subseteq> touched ip T st"
  by (auto simp: touched_def)

lemma block_range:
  "tot < n \<Longrightarrow> k = min (n - tot) (BSIZE - off mod BSIZE) \<Longrightarrow>
    insert (off div BSIZE) {(off + k) div BSIZE ..< (off + k + (n - (tot + k)) + 1023) div BSIZE}
      \<subseteq> {off div BSIZE ..< (off + (n - tot) + 1023) div (BSIZE :: nat)}"
proof -
  assume t: "tot < n" and k: "k = min (n - tot) (BSIZE - off mod BSIZE)"
  have le: "k \<le> n - tot" using k by simp
  have "off + k + (n - (tot + k)) = off + (n - tot)" using t le by linarith
  moreover have "off div BSIZE < (off + (n - tot) + 1023) div BSIZE"
  proof -
    obtain d where "n - tot = Suc d" using t by (metis Suc_diff_Suc)
    then have "(off + (n - tot) + 1023) div BSIZE = Suc ((off + d) div BSIZE)" by simp
    moreover have "off div BSIZE \<le> (off + d) div BSIZE" by (simp add: div_le_mono)
    ultimately show ?thesis by simp
  qed
  moreover have "off div BSIZE \<le> (off + k) div BSIZE" by (simp add: div_le_mono)
  moreover have "a < c \<Longrightarrow> a \<le> b \<Longrightarrow> insert a {b..<c} \<subseteq> {a..<c}" for a b c :: nat by auto
  ultimately show ?thesis by (simp only:)
qed

context copyin_contract
begin

lemma writei_loop_logs:
  assumes "fs_ok st" "inode_ok st ip" and "writei_loop ip ci src off tot n st = Some (tot', off', st')"
    and "tot \<le> n" and "sb_size (sb st) \<le> BPB"
  shows "\<exists>S. S \<subseteq> {off div BSIZE ..< (off + (n - tot) + 1023) div BSIZE} \<inter> {..<MAXFILE} \<and> logs (touched ip S st') st st'"
  using assms
proof (induction "n - tot" arbitrary: src off tot st rule: less_induct)
  case less
  show ?case
  proof (cases "tot < n")
    case False
    then have "st' = st" using less.prems(3) by (simp add: writei_loop.simps[of ip ci src off tot n st])
    then show ?thesis by (intro exI[of _ "{}"]) (simp add: logs_refl)
  next
    case True
    define bn where "bn = off div BSIZE"
    define k where "k = min (n - tot) (BSIZE - off mod BSIZE)"
    obtain bs ok where ci: "ci src k = (bs, ok)" by force
    obtain b st1 where bm: "bmap ip bn st = Some (b, st1)"
      and rest: "(let st2 = bset b (blit (bread st1 b) (off mod BSIZE) bs) st1 in
           if ok then do { st3 \<leftarrow> log_write b st2; writei_loop ip ci (src + k) (off + k) (tot + k) n st3 }
           else Some (tot, off, st2)) = Some (tot', off', st')"
      using less.prems(3) True
      by (auto simp: writei_loop.simps[of ip ci src off tot n st] Let_def Option.bind_eq_Some_conv
          k_def[symmetric] ci bn_def split del: if_split)
    note B = bmap_effect[OF less.prems(1,2) bm]
    have l1: "logs (touched ip {bn} st1) st st1"
      by (rule logs_mono[OF bmap_logs[OF less.prems(1,2) bm less.prems(5)]])
         (use B(4,5) grows_ok(3)[OF B(2)] in \<open>auto simp: touched_def\<close>)
    let ?R = "{bn ..< (off + (n - tot) + 1023) div BSIZE} \<inter> {..<MAXFILE}"
    have bnR: "{bn} \<subseteq> ?R" using block_range[OF True k_def] B(1) by (auto simp: bn_def)
    let ?v = "blit (bread st1 b) (off mod BSIZE) bs"
    note dw = data_write[OF grows_ok(1,2)[OF B(2)] B(1,4,5)]
    show ?thesis
    proof (cases ok)
      case False
      then have st': "st' = bset b ?v st1" using rest by (auto simp: Let_def)
      then have "grows ip st1 st'" by (intro dw(1)) (simp_all add: bset_def)
      from touched_grows[OF this, of "{bn}" "{bn}"] B(1) have "touched ip {bn} st1 \<subseteq> touched ip {bn} st'" by simp
      from logs_mono[OF l1 this] have "logs (touched ip {bn} st') st st'" by (simp add: logs_def st')
      then show ?thesis using bnR unfolding bn_def by blast
    next
      case True
      then obtain st3 where lw: "lwrite b ?v st1 = Some st3"
        and rec: "writei_loop ip ci (src + k) (off + k) (tot + k) n st3 = Some (tot', off', st')"
        using rest by (auto simp: Let_def lwrite_def Option.bind_eq_Some_conv)
      have g13: "grows ip st1 st3" using lwrite_SomeD(1-3)[OF lw] by (intro dw(1)) simp_all
      have le: "tot + k \<le> n" and dec: "n - (tot + k) < n - tot" using \<open>tot < n\<close> by (auto simp: k_def)
      have one3: "sb_size (sb st3) \<le> BPB" using less.prems(5) grows_ok(3)[OF g13] grows_ok(3)[OF B(2)] by simp
      from less.hyps[OF dec grows_ok(1,2)[OF g13] rec le one3] obtain S where
        S: "S \<subseteq> {(off + k) div BSIZE ..< (off + k + (n - (tot + k)) + 1023) div BSIZE} \<inter> {..<MAXFILE}"
        and lS: "logs (touched ip S st') st3 st'" by blast
      have g3': "grows ip st3 st'" using writei_loop_spec[OF grows_ok(1,2)[OF g13] rec le] by blast
      have t1: "touched ip {bn} st1 \<subseteq> touched ip (insert bn S) st'"
        by (rule touched_grows[OF grows_trans[OF g13 g3']]) (use B(1) in auto)
      have "b \<in> touched ip {bn} st1" using B(4,5) by (simp add: touched_def)
      then have "logs (touched ip {bn} st1) st st3"
        using logs_trans[OF l1 lwrite_logs[OF lw]] by (simp add: insert_absorb)
      then have "logs (touched ip {bn} st1 \<union> touched ip S st') st st'" using lS by (rule logs_trans)
      then have "logs (touched ip (insert bn S) st') st st'"
        by (rule logs_mono) (intro Un_least t1 touched_mono subset_insertI)
      moreover have "insert bn S \<subseteq> ?R" using S block_range[OF \<open>tot < n\<close> k_def] B(1) by (auto simp: bn_def)
      ultimately show ?thesis unfolding bn_def by blast
    qed
  qed
qed

text \<open>The whole call: the blocks of the loop and the block of the inode.\<close>

lemma writei_logs:
  assumes ok: "fs_ok st" "inode_ok st ip" and one: "sb_size (sb st) \<le> BPB" and d: "distinct (lh st)"
    and n: "unat n \<le> 3072" and w: "writei ip ci src off n st = Some (r, st')"
  shows "length (lh st') \<le> length (lh st) + 7"
proof (cases "off > isize (itab st ip) \<or> off + n < off \<or> unat (off + n) > MAXFILE * BSIZE")
  case True
  then have "st' = st" using w by (auto simp: writei_def Let_def split: if_splits)
  then show ?thesis by simp
next
  case False
  then obtain tot off1 st1 where l: "writei_loop ip ci src (unat off) 0 (unat n) st = Some (tot, off1, st1)"
    and u: "iupdate ip (if off1 > unat (isize (itab st1 ip)) then iset ip (isize_update (\<lambda>_. of_nat off1)) st1 else st1) = Some st'"
    using w by (auto simp: writei_def Let_def Option.bind_eq_Some_conv split del: if_split)
  from writei_loop_logs[OF ok l le0 one] obtain S where
    S: "S \<subseteq> {unat off div BSIZE ..< (unat off + unat n + 1023) div BSIZE}" and lS: "logs (touched ip S st1) st st1"
    by auto
  let ?st2 = "if off1 > unat (isize (itab st1 ip)) then iset ip (isize_update (\<lambda>_. of_nat off1)) st1 else st1"
  obtain x where "logs {x} ?st2 st'" using u lwrite_logs unfolding iupdate_def Let_def by blast
  then have "logs {x} st1 st'" by (simp add: logs_def split: if_splits)
  with lS have L: "logs (touched ip S st1 \<union> {x}) st st'" by (rule logs_trans)
  have fin: "finite S" using S finite_subset by blast
  have "(unat off + unat n + 1023) div BSIZE - unat off div BSIZE \<le> 4" using n by linarith
  then have cS: "card S \<le> 4" using card_mono[OF _ S] by simp
  have "card (touched ip S st1) \<le> Suc (card (slot st1 ip ` insert MAXFILE S - {0}))"
    unfolding touched_def by (rule card_insert_le_m1) (use fin in \<open>auto simp: card_insert_if\<close>)
  also have "\<dots> \<le> Suc (card (slot st1 ip ` insert MAXFILE S))"
    using fin by (simp add: card_Diff1_le)
  also have "\<dots> \<le> Suc (card (insert MAXFILE S))" using fin by (simp add: card_image_le del: image_insert)
  also have "\<dots> \<le> Suc (Suc (card S))" using fin by (simp add: card_insert_if)
  finally have "card (touched ip S st1) \<le> 6" using cS by simp
  then have "card (touched ip S st1 \<union> {x}) \<le> 7"
    using card_Un_le[of "touched ip S st1" "{x}"] by simp
  moreover have "finite (touched ip S st1 \<union> {x})" using fin by (simp add: touched_def)
  ultimately show ?thesis using logs_length[OF L d] by simp
qed

end

end
