(* ===== verification/Bio.thy ===== *)
theory Bio imports BlockStore begin

text \<open>
  \<open>kernel/devices/storage/bio.c\<close>: the buffer cache, at the level of its linked list.

  A buffer is an index below \<open>NBUF\<close> and \<open>bcache.head\<close> is the index \<open>NBUF\<close>.  The list order is
  the order of use, the most recently released buffer first; the abstraction of the \<open>next\<close> and
  \<open>prev\<close> fields is the list of buffers they link.  The disk driver's transfer is a copy between
  the buffer and the disk.  \<open>None\<close> is a panic, or a call that sleeps on a buffer's lock.
\<close>

section \<open>State\<close>

record buf =
  bvalid :: bool
  bdev :: nat
  bblockno :: nat
  blocked :: bool
  bpid :: nat
  brefcnt :: u32
  bprev :: nat
  bnext :: nat
  bdata :: mem

record bcache =
  bufs :: "nat \<Rightarrow> buf"
  bdisk :: "nat \<Rightarrow> nat \<Rightarrow> mem"

abbreviation (input) bhead :: nat where "bhead \<equiv> NBUF"

definition bupd :: "nat \<Rightarrow> (buf \<Rightarrow> buf) \<Rightarrow> bcache \<Rightarrow> bcache" where
  "bupd b f bc = bc\<lparr>bufs := (bufs bc)(b := f (bufs bc b))\<rparr>"

section \<open>The list\<close>

text \<open>The four assignments that put \<open>b\<close> after \<open>bcache.head\<close>.\<close>

definition bfront :: "nat \<Rightarrow> bcache \<Rightarrow> bcache" where
  "bfront b bc =
     (let bc1 = bupd b (\<lambda>x. x\<lparr>bnext := bnext (bufs bc bhead), bprev := bhead\<rparr>) bc;
          bc2 = bupd (bnext (bufs bc1 bhead)) (\<lambda>x. x\<lparr>bprev := b\<rparr>) bc1
      in bupd bhead (\<lambda>x. x\<lparr>bnext := b\<rparr>) bc2)"

definition bunlink :: "nat \<Rightarrow> bcache \<Rightarrow> bcache" where
  "bunlink b bc =
     (let bc1 = bupd (bnext (bufs bc b)) (\<lambda>x. x\<lparr>bprev := bprev (bufs bc b)\<rparr>) bc
      in bupd (bprev (bufs bc1 b)) (\<lambda>x. x\<lparr>bnext := bnext (bufs bc1 b)\<rparr>) bc1)"

definition binit :: "bcache \<Rightarrow> bcache" where
  "binit bc = fold (\<lambda>b bc. bfront b (bupd b (\<lambda>x. x\<lparr>blocked := False, bpid := 0\<rparr>) bc)) [0..<NBUF]
     (bupd bhead (\<lambda>x. x\<lparr>bprev := bhead, bnext := bhead\<rparr>) bc)"

section \<open>Getting and releasing buffers\<close>

text \<open>
  The two loops of \<open>bget\<close>, along \<open>next\<close> and along \<open>prev\<close>, from a buffer until the head.  The
  first argument bounds the number of steps; \<open>NBUF + 1\<close> reach the head on a well-formed list.
\<close>

fun bget_cached :: "nat \<Rightarrow> nat \<Rightarrow> nat \<Rightarrow> nat \<Rightarrow> bcache \<Rightarrow> nat option" where
  "bget_cached 0 b d n bc = None"
| "bget_cached (Suc k) b d n bc =
     (if b = bhead then None
      else if bdev (bufs bc b) = d \<and> bblockno (bufs bc b) = n then Some b
      else bget_cached k (bnext (bufs bc b)) d n bc)"

fun bget_unused :: "nat \<Rightarrow> nat \<Rightarrow> bcache \<Rightarrow> nat option" where
  "bget_unused 0 b bc = None"
| "bget_unused (Suc k) b bc =
     (if b = bhead then None
      else if brefcnt (bufs bc b) = 0 then Some b
      else bget_unused k (bprev (bufs bc b)) bc)"

definition acquire_buf :: "nat \<Rightarrow> nat \<Rightarrow> bcache \<Rightarrow> bcache option" where
  "acquire_buf pid b bc =
     (if blocked (bufs bc b) then None else Some (bupd b (\<lambda>x. x\<lparr>blocked := True, bpid := pid\<rparr>) bc))"

definition bget :: "nat \<Rightarrow> nat \<Rightarrow> nat \<Rightarrow> bcache \<Rightarrow> (nat \<times> bcache) option" where
  "bget pid d n bc =
     (case bget_cached (NBUF + 1) (bnext (bufs bc bhead)) d n bc of
        Some b \<Rightarrow> do { bc1 \<leftarrow> acquire_buf pid b (bupd b (\<lambda>x. x\<lparr>brefcnt := brefcnt x + 1\<rparr>) bc); Some (b, bc1) }
      | None \<Rightarrow>
          (case bget_unused (NBUF + 1) (bprev (bufs bc bhead)) bc of
             Some b \<Rightarrow> do {
               bc1 \<leftarrow> acquire_buf pid b
                 (bupd b (\<lambda>x. x\<lparr>bdev := d, bblockno := n, bvalid := False, brefcnt := 1\<rparr>) bc);
               Some (b, bc1) }
           | None \<Rightarrow> None))"

definition buf_read :: "nat \<Rightarrow> nat \<Rightarrow> nat \<Rightarrow> bcache \<Rightarrow> (nat \<times> bcache) option" where
  "buf_read pid d n bc = do {
     (b, bc1) \<leftarrow> bget pid d n bc;
     (if \<not> bvalid (bufs bc1 b)
      then Some (b, bupd b (\<lambda>x. x\<lparr>bdata := bdisk bc1 (bdev x) (bblockno x), bvalid := True\<rparr>) bc1)
      else Some (b, bc1))
   }"

definition holding_buf :: "nat \<Rightarrow> nat \<Rightarrow> bcache \<Rightarrow> bool" where
  "holding_buf pid b bc \<longleftrightarrow> blocked (bufs bc b) \<and> bpid (bufs bc b) = pid"

definition buf_write :: "nat \<Rightarrow> nat \<Rightarrow> bcache \<Rightarrow> bcache option" where
  "buf_write pid b bc =
     (if \<not> holding_buf pid b bc then None
      else let x = bufs bc b in
        Some (bc\<lparr>bdisk := (bdisk bc)(bdev x := (bdisk bc (bdev x))(bblockno x := bdata x))\<rparr>))"

definition brelse :: "nat \<Rightarrow> nat \<Rightarrow> bcache \<Rightarrow> bcache option" where
  "brelse pid b bc =
     (if \<not> holding_buf pid b bc then None
      else let bc1 = bupd b (\<lambda>x. x\<lparr>blocked := False, bpid := 0\<rparr>) bc;
               bc2 = bupd b (\<lambda>x. x\<lparr>brefcnt := brefcnt x - 1\<rparr>) bc1
        in if brefcnt (bufs bc2 b) = 0 then Some (bfront b (bunlink b bc2)) else Some bc2)"

definition bpin :: "nat \<Rightarrow> bcache \<Rightarrow> bcache" where
  "bpin b bc = bupd b (\<lambda>x. x\<lparr>brefcnt := brefcnt x + 1\<rparr>) bc"

definition bunpin :: "nat \<Rightarrow> bcache \<Rightarrow> bcache" where
  "bunpin b bc = bupd b (\<lambda>x. x\<lparr>brefcnt := brefcnt x - 1\<rparr>) bc"

section \<open>The abstraction of the list\<close>

fun linked :: "bcache \<Rightarrow> nat list \<Rightarrow> bool" where
  "linked bc (x # y # zs) \<longleftrightarrow> bnext (bufs bc x) = y \<and> bprev (bufs bc y) = x \<and> linked bc (y # zs)"
| "linked bc _ \<longleftrightarrow> True"

definition lru :: "bcache \<Rightarrow> nat list \<Rightarrow> bool" where
  "lru bc xs \<longleftrightarrow> distinct xs \<and> set xs = {..<NBUF} \<and> linked bc (bhead # xs @ [bhead])"

lemma linked_append: "linked bc (xs @ y # zs) \<longleftrightarrow> linked bc (xs @ [y]) \<and> linked bc (y # zs)"
  by (induction bc xs rule: linked.induct) auto

lemma linked_cong:
  assumes "\<And>x. x \<in> set (butlast xs) \<Longrightarrow> bnext (bufs bc' x) = bnext (bufs bc x)"
    and "\<And>x. x \<in> set (tl xs) \<Longrightarrow> bprev (bufs bc' x) = bprev (bufs bc x)"
  shows "linked bc' xs = linked bc xs"
  using assms by (induction bc xs rule: linked.induct) auto

lemma bupd_bufs: "bufs (bupd b f bc) = (bufs bc)(b := f (bufs bc b))"
  by (simp add: bupd_def)

lemma bupd_disk [simp]: "bdisk (bupd b f bc) = bdisk bc"
  by (simp add: bupd_def)

lemma lru_bupd:
  assumes "bnext (f (bufs bc b)) = bnext (bufs bc b)" "bprev (f (bufs bc b)) = bprev (bufs bc b)"
  shows "lru (bupd b f bc) xs = lru bc xs"
proof -
  have "linked (bupd b f bc) ys = linked bc ys" for ys
    by (rule linked_cong) (use assms in \<open>auto simp: bupd_bufs\<close>)
  then show ?thesis by (simp add: lru_def)
qed

lemma lru_next: "lru bc xs \<Longrightarrow> bnext (bufs bc bhead) = (case xs of [] \<Rightarrow> bhead | x # _ \<Rightarrow> x)"
  by (cases xs) (auto simp: lru_def)

lemma linked_front:
  assumes l: "linked bc (bhead # xs @ [bhead])" and "b \<notin> set xs" "b \<noteq> bhead" "bhead \<notin> set xs" "distinct xs"
  shows "linked (bfront b bc) (bhead # b # xs @ [bhead])"
proof (cases xs)
  case Nil
  then show ?thesis using assms by (simp add: bfront_def Let_def bupd_bufs)
next
  case (Cons x ys)
  have nx: "bnext (bufs bc bhead) = x" using l Cons by simp
  have "linked (bfront b bc) (x # ys @ [bhead]) = linked bc (x # ys @ [bhead])"
  proof (rule linked_cong)
    fix z assume "z \<in> set (butlast (x # ys @ [bhead]))"
    then have "z \<in> set xs" using Cons by (auto simp: butlast_append split: if_splits)
    then show "bnext (bufs (bfront b bc) z) = bnext (bufs bc z)"
      using assms by (auto simp: bfront_def Let_def bupd_bufs nx)
  next
    fix z assume "z \<in> set (tl (x # ys @ [bhead]))"
    then have "z \<noteq> x" "z \<noteq> b" using Cons assms by auto
    then show "bprev (bufs (bfront b bc) z) = bprev (bufs bc z)"
      using assms by (auto simp: bfront_def Let_def bupd_bufs nx)
  qed
  then show ?thesis using l assms Cons by (simp add: bfront_def Let_def bupd_bufs nx)
qed

lemma linked_unlink:
  assumes l: "linked bc (bhead # xs @ b # ys @ [bhead])"
    and d: "distinct (xs @ b # ys)" "bhead \<notin> set (xs @ b # ys)"
  shows "linked (bunlink b bc) (bhead # xs @ ys @ [bhead])"
proof -
  obtain ps p where ps: "bhead # xs = ps @ [p]" by (metis append_butlast_last_id list.distinct(1))
  obtain n ns where ns: "ys @ [bhead] = n # ns" by (cases ys) auto
  have l': "linked bc (ps @ [p])" "bnext (bufs bc b) = n" "bprev (bufs bc b) = p" "linked bc (n # ns)"
  proof -
    have "bhead # xs @ b # ys @ [bhead] = (bhead # xs) @ b # (ys @ [bhead])" by simp
    also have "\<dots> = ps @ p # b # n # ns" unfolding ps ns by simp
    finally have "linked bc (ps @ p # b # n # ns)" using l by simp
    then show "linked bc (ps @ [p])" "bnext (bufs bc b) = n" "bprev (bufs bc b) = p" "linked bc (n # ns)"
      by (simp_all add: linked_append[of bc ps p "b # n # ns"])
  qed
  have pin: "p = bhead \<or> p \<in> set xs" and psin: "set (tl (ps @ [p])) = set xs" "p \<notin> set ps"
  proof -
    have "p \<in> set (bhead # xs)" "tl (ps @ [p]) = xs" using ps by (metis in_set_conv_decomp, metis list.sel(3))
    then show "p = bhead \<or> p \<in> set xs" "set (tl (ps @ [p])) = set xs" by auto
    have "distinct (ps @ [p])" using d unfolding ps[symmetric] by auto
    then show "p \<notin> set ps" by simp
  qed
  have nin: "n = bhead \<or> n \<in> set ys" and nsin: "set (butlast (n # ns)) = set ys" "n \<notin> set ns"
  proof -
    have "n \<in> set (ys @ [bhead])" "butlast (n # ns) = ys" using ns by (metis list.set_intros(1), metis butlast_snoc)
    then show "n = bhead \<or> n \<in> set ys" "set (butlast (n # ns)) = set ys" by auto
    have "distinct (n # ns)" using d unfolding ns[symmetric] by auto
    then show "n \<notin> set ns" by simp
  qed
  have nb: "b \<noteq> p" "b \<noteq> n" using pin nin d by auto
  have nx: "bnext (bufs (bunlink b bc) z) = (if z = p then n else bnext (bufs bc z))"
    and pv: "bprev (bufs (bunlink b bc) z) = (if z = n then p else bprev (bufs bc z))" for z
    using l'(2,3) nb by (auto simp: bunlink_def Let_def bupd_bufs)
  have "linked (bunlink b bc) (ps @ [p]) = linked bc (ps @ [p])"
    by (rule linked_cong) (use psin pin nin d in \<open>auto simp: nx pv\<close>)
  moreover have "linked (bunlink b bc) (n # ns) = linked bc (n # ns)"
    by (rule linked_cong) (use nsin pin nin d in \<open>auto simp: nx pv\<close>)
  ultimately have "linked (bunlink b bc) (ps @ p # n # ns)"
    using l'(1,4) by (simp add: linked_append[of _ ps p "n # ns"] nx pv)
  moreover have "bhead # xs @ ys @ [bhead] = (bhead # xs) @ (ys @ [bhead])" by simp
  moreover have "\<dots> = ps @ p # n # ns" unfolding ps ns by simp
  ultimately show ?thesis by simp
qed

lemma brelse_lru:
  assumes "lru bc xs" and "b < NBUF" and "brelse pid b bc = Some bc'"
  shows "lru bc' (if brefcnt (bufs bc b) = 1 then b # remove1 b xs else xs)"
proof -
  let ?bc2 = "bupd b (\<lambda>x. x\<lparr>brefcnt := brefcnt x - 1\<rparr>) (bupd b (\<lambda>x. x\<lparr>blocked := False, bpid := 0\<rparr>) bc)"
  have l2: "lru ?bc2 xs" using assms(1) by (simp add: lru_bupd)
  have r: "brefcnt (bufs ?bc2 b) = brefcnt (bufs bc b) - 1" by (simp add: bupd_bufs)
  show ?thesis
  proof (cases "brefcnt (bufs bc b) = 1")
    case True
    then have bc': "bc' = bfront b (bunlink b ?bc2)"
      using assms(3) by (auto simp: brelse_def Let_def r split: if_splits)
    have "b \<in> set xs" using assms(1,2) by (auto simp: lru_def)
    then obtain us vs where xs: "xs = us @ b # vs" "b \<notin> set us" by (metis split_list_first)
    have d: "distinct (us @ b # vs)" "bhead \<notin> set (us @ b # vs)" using assms(1) xs by (auto simp: lru_def)
    have "linked ?bc2 (bhead # us @ b # vs @ [bhead])" using l2 xs by (simp add: lru_def)
    from linked_unlink[OF this d] have "linked (bunlink b ?bc2) (bhead # (us @ vs) @ [bhead])" by simp
    from linked_front[OF this] have "linked bc' (bhead # (b # us @ vs) @ [bhead])"
      using d assms(2) by (auto simp: bc')
    moreover have "remove1 b xs = us @ vs" using xs d by (simp add: remove1_append)
    moreover have "set (us @ b # vs) = {..<NBUF}" using assms(1) unfolding lru_def xs(1) by blast
    then have "set (b # us @ vs) = {..<NBUF}" by simp
    moreover have "distinct (b # us @ vs)" using d(1) by simp
    ultimately show ?thesis using True by (simp add: lru_def)
  next
    case False
    then have "bc' = ?bc2" using assms(3) by (auto simp: brelse_def Let_def r split: if_splits)
    then show ?thesis using l2 False by simp
  qed
qed

text \<open>
  the list after \<open>brelse\<close>.  Releasing a buffer that nobody else uses moves it to the front
  of the list of buffers and keeps the order of the others, so the last unused buffer is the
  least recently used one; while others use it the list stays as it is.
\<close>

theorem brelse_moves_front:
  assumes "lru bc xs" and "b < NBUF" and "brelse pid b bc = Some bc'"
  shows "lru bc' (if brefcnt (bufs bc b) = 1 then b # remove1 b xs else xs)"
  by (rule brelse_lru[OF assms])

section \<open>Searching the list\<close>

lemma bget_cached_find:
  assumes "linked bc (zs @ [bhead])" and "bhead \<notin> set zs" and "length zs < k"
  shows "bget_cached k (hd (zs @ [bhead])) d n bc
    = find (\<lambda>b. bdev (bufs bc b) = d \<and> bblockno (bufs bc b) = n) zs"
  using assms
proof (induction zs arbitrary: k)
  case Nil
  then show ?case by (cases k) simp_all
next
  case (Cons z zs)
  then obtain j where k: "k = Suc j" by (cases k) auto
  have "bnext (bufs bc z) = hd (zs @ [bhead])" "linked bc (zs @ [bhead])"
    using Cons.prems(1) by (cases zs; simp)+
  then show ?case using Cons by (auto simp: k)
qed

lemma bget_unused_find:
  assumes "linked bc (bhead # zs)" and "bhead \<notin> set zs" and "length zs < k"
  shows "bget_unused k (last (bhead # zs)) bc = find (\<lambda>b. brefcnt (bufs bc b) = 0) (rev zs)"
  using assms
proof (induction zs arbitrary: k rule: rev_induct)
  case Nil
  then show ?case by (cases k) simp_all
next
  case (snoc z zs)
  then obtain j where k: "k = Suc j" by (cases k) auto
  obtain ps p where ps: "bhead # zs = ps @ [p]" by (metis append_butlast_last_id list.distinct(1))
  have "linked bc (ps @ p # [z])" using snoc.prems(1) unfolding append_Cons[symmetric] ps by simp
  then have "bprev (bufs bc z) = p" "linked bc (bhead # zs)"
    unfolding ps linked_append[of bc ps p "[z]"] by simp_all
  moreover have "last (bhead # zs) = p" unfolding ps by simp
  ultimately show ?case using snoc by (auto simp: k)
qed

lemma bget_search:
  assumes "lru bc xs"
  shows "bget_cached (NBUF + 1) (bnext (bufs bc bhead)) d n bc
      = find (\<lambda>b. bdev (bufs bc b) = d \<and> bblockno (bufs bc b) = n) xs"
    and "bget_unused (NBUF + 1) (bprev (bufs bc bhead)) bc = find (\<lambda>b. brefcnt (bufs bc b) = 0) (rev xs)"
proof -
  have l: "linked bc (bhead # xs @ [bhead])" and h: "bhead \<notin> set xs" and "length xs = NBUF"
    using assms distinct_card[of xs] by (auto simp: lru_def)
  then have len: "length xs < NBUF + 1" by simp
  have t: "linked bc (xs @ [bhead])" "bnext (bufs bc bhead) = hd (xs @ [bhead])" using l by (cases xs; simp)+
  show "bget_cached (NBUF + 1) (bnext (bufs bc bhead)) d n bc
      = find (\<lambda>b. bdev (bufs bc b) = d \<and> bblockno (bufs bc b) = n) xs"
    unfolding t(2) by (rule bget_cached_find[OF t(1) h len])
  obtain ps p where ps: "bhead # xs = ps @ [p]" by (metis append_butlast_last_id list.distinct(1))
  have "bhead # xs @ [bhead] = (bhead # xs) @ [bhead]" by simp
  also have "\<dots> = ps @ p # [bhead]" unfolding ps by simp
  finally have e: "bhead # xs @ [bhead] = ps @ p # [bhead]" .
  have l2: "linked bc (ps @ p # [bhead])" using l unfolding e .
  have q: "bprev (bufs bc bhead) = last (bhead # xs)" "linked bc (bhead # xs)"
    using l2 unfolding ps linked_append[of bc ps p "[bhead]"] by simp_all
  show "bget_unused (NBUF + 1) (bprev (bufs bc bhead)) bc = find (\<lambda>b. brefcnt (bufs bc b) = 0) (rev xs)"
    unfolding q(1) by (rule bget_unused_find[OF q(2) h len])
qed

section \<open>The cache as one copy of the disk\<close>

text \<open>
  What a block holds: its valid buffer if it has one, else the disk.  The cache is well formed
  when its list is, no block has two buffers, and buffers that may be recycled are clean.
  Device 0 is what the buffers have before their first use.
\<close>

definition cval :: "bcache \<Rightarrow> nat \<Rightarrow> nat \<Rightarrow> mem" where
  "cval bc d n = (case find (\<lambda>b. bvalid (bufs bc b) \<and> bdev (bufs bc b) = d \<and> bblockno (bufs bc b) = n) [0..<NBUF]
     of Some b \<Rightarrow> bdata (bufs bc b) | None \<Rightarrow> bdisk bc d n)"

definition cached :: "bcache \<Rightarrow> nat \<Rightarrow> nat \<Rightarrow> nat \<Rightarrow> bool" where
  "cached bc d n b \<longleftrightarrow> b < NBUF \<and> bvalid (bufs bc b) \<and> bdev (bufs bc b) = d \<and> bblockno (bufs bc b) = n"

definition bc_ok :: "bcache \<Rightarrow> bool" where
  "bc_ok bc \<longleftrightarrow> (\<exists>xs. lru bc xs)
     \<and> (\<forall>a < NBUF. \<forall>b < NBUF. bdev (bufs bc a) \<noteq> 0 \<longrightarrow> bdev (bufs bc a) = bdev (bufs bc b)
          \<longrightarrow> bblockno (bufs bc a) = bblockno (bufs bc b) \<longrightarrow> a = b)
     \<and> (\<forall>b < NBUF. bvalid (bufs bc b) \<longrightarrow> brefcnt (bufs bc b) = 0 \<longrightarrow>
          bdata (bufs bc b) = bdisk bc (bdev (bufs bc b)) (bblockno (bufs bc b)))"

lemma bc_okD:
  assumes "bc_ok bc"
  shows "\<exists>xs. lru bc xs"
    and "\<And>a b. a < NBUF \<Longrightarrow> b < NBUF \<Longrightarrow> bdev (bufs bc a) \<noteq> 0 \<Longrightarrow> bdev (bufs bc a) = bdev (bufs bc b)
          \<Longrightarrow> bblockno (bufs bc a) = bblockno (bufs bc b) \<Longrightarrow> a = b"
    and "\<And>b. b < NBUF \<Longrightarrow> bvalid (bufs bc b) \<Longrightarrow> brefcnt (bufs bc b) = 0 \<Longrightarrow>
          bdata (bufs bc b) = bdisk bc (bdev (bufs bc b)) (bblockno (bufs bc b))"
  using assms unfolding bc_ok_def by blast+

lemma cval_buf:
  assumes "bc_ok bc" and "b < NBUF" "bvalid (bufs bc b)" "bdev (bufs bc b) = d" "bblockno (bufs bc b) = n" "d \<noteq> 0"
  shows "cval bc d n = bdata (bufs bc b)"
proof (cases "find (\<lambda>b. bvalid (bufs bc b) \<and> bdev (bufs bc b) = d \<and> bblockno (bufs bc b) = n) [0..<NBUF]")
  case None
  then show ?thesis using assms by (auto simp: find_None_iff)
next
  case (Some a)
  then have "a < NBUF" "bdev (bufs bc a) = d" "bblockno (bufs bc a) = n" by (auto simp: find_Some_iff)
  then have "a = b" using bc_okD(2)[OF assms(1), of a b] assms by simp
  then show ?thesis using Some by (simp add: cval_def)
qed

lemma cval_none:
  assumes "\<And>b. b < NBUF \<Longrightarrow> bvalid (bufs bc b) \<Longrightarrow> bdev (bufs bc b) = d \<Longrightarrow> bblockno (bufs bc b) \<noteq> n"
  shows "cval bc d n = bdisk bc d n"
proof -
  have "find (\<lambda>b. bvalid (bufs bc b) \<and> bdev (bufs bc b) = d \<and> bblockno (bufs bc b) = n) [0..<NBUF] = None"
    using assms by (auto simp: find_None_iff)
  then show ?thesis by (simp add: cval_def)
qed

text \<open>Two well-formed caches hold the same blocks when their valid buffers say so.\<close>

lemma cval_eqI:
  assumes ok: "bc_ok bc" "bc_ok bc'" and d: "d \<noteq> 0" and disk: "bdisk bc' = bdisk bc"
    and 1: "\<And>b. b < NBUF \<Longrightarrow> bvalid (bufs bc b) \<Longrightarrow> bdev (bufs bc b) = d \<Longrightarrow> bblockno (bufs bc b) = n \<Longrightarrow>
       (bvalid (bufs bc' b) \<and> bdev (bufs bc' b) = d \<and> bblockno (bufs bc' b) = n \<and> bdata (bufs bc' b) = bdata (bufs bc b))
       \<or> (\<forall>a < NBUF. bvalid (bufs bc' a) \<longrightarrow> bdev (bufs bc' a) = d \<longrightarrow> bblockno (bufs bc' a) \<noteq> n) \<and> bdata (bufs bc b) = bdisk bc d n"
    and 2: "\<And>b. b < NBUF \<Longrightarrow> bvalid (bufs bc' b) \<Longrightarrow> bdev (bufs bc' b) = d \<Longrightarrow> bblockno (bufs bc' b) = n \<Longrightarrow>
       (bvalid (bufs bc b) \<and> bdev (bufs bc b) = d \<and> bblockno (bufs bc b) = n) \<or> bdata (bufs bc' b) = cval bc d n"
  shows "cval bc' d n = cval bc d n"
proof (cases "\<exists>b < NBUF. bvalid (bufs bc b) \<and> bdev (bufs bc b) = d \<and> bblockno (bufs bc b) = n")
  case True
  then obtain b where b: "b < NBUF" "bvalid (bufs bc b)" "bdev (bufs bc b) = d" "bblockno (bufs bc b) = n" by blast
  from 1[OF b] show ?thesis
  proof
    assume "bvalid (bufs bc' b) \<and> bdev (bufs bc' b) = d \<and> bblockno (bufs bc' b) = n \<and> bdata (bufs bc' b) = bdata (bufs bc b)"
    then show ?thesis using cval_buf[OF ok(1) b d] cval_buf[OF ok(2) b(1) _ _ _ d, of n] by simp
  next
    assume h: "(\<forall>a < NBUF. bvalid (bufs bc' a) \<longrightarrow> bdev (bufs bc' a) = d \<longrightarrow> bblockno (bufs bc' a) \<noteq> n)
      \<and> bdata (bufs bc b) = bdisk bc d n"
    then have "cval bc' d n = bdisk bc' d n" by (intro cval_none) blast
    then show ?thesis using h cval_buf[OF ok(1) b d] disk by simp
  qed
next
  case False
  then have c: "cval bc d n = bdisk bc d n" by (intro cval_none) blast
  show ?thesis
  proof (cases "\<exists>b < NBUF. bvalid (bufs bc' b) \<and> bdev (bufs bc' b) = d \<and> bblockno (bufs bc' b) = n")
    case True
    then obtain b where b: "b < NBUF" "bvalid (bufs bc' b)" "bdev (bufs bc' b) = d" "bblockno (bufs bc' b) = n" by blast
    with 2[OF b] False show ?thesis using cval_buf[OF ok(2) b d] by auto
  next
    case False
    then have "cval bc' d n = bdisk bc' d n" by (intro cval_none) blast
    then show ?thesis using c disk by simp
  qed
qed

lemma find_SomeD: "find P xs = Some x \<Longrightarrow> x \<in> set xs \<and> P x"
  by (induction xs) (auto split: if_splits)

lemma buf_read_cases:
  assumes r: "buf_read pid d n bc = Some (b, bc')" and l: "lru bc xs"
  obtains x where "b < NBUF" "bc' = bupd b (\<lambda>_. x) bc" "bnext x = bnext (bufs bc b)" "bprev x = bprev (bufs bc b)"
    "bdev x = d" "bblockno x = n" "bvalid x" "blocked x" "bpid x = pid" "\<not> blocked (bufs bc b)"
    "bdev (bufs bc b) = d \<and> bblockno (bufs bc b) = n \<and> brefcnt x = brefcnt (bufs bc b) + 1
       \<and> bdata x = (if bvalid (bufs bc b) then bdata (bufs bc b) else bdisk bc d n)
     \<or> (\<forall>a < NBUF. \<not> (bdev (bufs bc a) = d \<and> bblockno (bufs bc a) = n))
       \<and> brefcnt (bufs bc b) = 0 \<and> brefcnt x = 1 \<and> bdata x = bdisk bc d n"
proof -
  have xs: "set xs = {..<NBUF}" using l by (simp add: lru_def)
  show ?thesis
  proof (cases "find (\<lambda>b. bdev (bufs bc b) = d \<and> bblockno (bufs bc b) = n) xs")
    case (Some a)
    then have a: "a < NBUF" "bdev (bufs bc a) = d" "bblockno (bufs bc a) = n"
      using find_SomeD[OF Some] xs by auto
    let ?x = "(bufs bc a)\<lparr>brefcnt := brefcnt (bufs bc a) + 1, blocked := True, bpid := pid\<rparr>"
    have nl: "\<not> blocked (bufs bc a)" and g: "bget pid d n bc = Some (a, bupd a (\<lambda>_. ?x) bc)"
      using r Some unfolding buf_read_def bget_def bget_search[OF l]
      by (auto simp: acquire_buf_def bupd_def split: if_splits)
    have "Some (b, bc') = Some (a, bupd a (\<lambda>_. if bvalid ?x then ?x else ?x\<lparr>bdata := bdisk bc (bdev ?x) (bblockno ?x), bvalid := True\<rparr>) bc)"
      using r unfolding buf_read_def g by (auto simp: bupd_def split: if_splits)
    then show ?thesis using a nl
      by (intro that[of "if bvalid ?x then ?x else ?x\<lparr>bdata := bdisk bc (bdev ?x) (bblockno ?x), bvalid := True\<rparr>"]) auto
  next
    case None
    then have no: "\<forall>a < NBUF. \<not> (bdev (bufs bc a) = d \<and> bblockno (bufs bc a) = n)"
      using xs by (auto simp: find_None_iff)
    obtain a where fa: "find (\<lambda>b. brefcnt (bufs bc b) = 0) (rev xs) = Some a"
      using r None unfolding buf_read_def bget_def bget_search[OF l] by (auto split: option.splits)
    then have a: "a < NBUF" "brefcnt (bufs bc a) = 0" using find_SomeD[OF fa] xs by auto
    let ?x = "(bufs bc a)\<lparr>bdev := d, bblockno := n, bvalid := False, brefcnt := 1, blocked := True, bpid := pid\<rparr>"
    have nl: "\<not> blocked (bufs bc a)" and g: "bget pid d n bc = Some (a, bupd a (\<lambda>_. ?x) bc)"
      using r None fa unfolding buf_read_def bget_def bget_search[OF l]
      by (auto simp: acquire_buf_def bupd_def split: if_splits)
    have "Some (b, bc') = Some (a, bupd a (\<lambda>_. if bvalid ?x then ?x else ?x\<lparr>bdata := bdisk bc (bdev ?x) (bblockno ?x), bvalid := True\<rparr>) bc)"
      using r unfolding buf_read_def g by (auto simp: bupd_def split: if_splits)
    then show ?thesis using a nl no
      by (intro that[of "if bvalid ?x then ?x else ?x\<lparr>bdata := bdisk bc (bdev ?x) (bblockno ?x), bvalid := True\<rparr>"]) auto
  qed
qed

lemma buf_read_effect:
  assumes ok: "bc_ok bc" and d: "d \<noteq> 0" and r: "buf_read pid d n bc = Some (b, bc')"
    and sm: "\<And>b. b < NBUF \<Longrightarrow> brefcnt (bufs bc b) \<noteq> - 1"
  shows "b < NBUF" "bdata (bufs bc' b) = cval bc d n" "bc_ok bc'"
    "\<And>e m. e \<noteq> 0 \<Longrightarrow> cval bc' e m = cval bc e m" "bdisk bc' = bdisk bc" "holding_buf pid b bc'"
    "bdev (bufs bc' b) = d" "bblockno (bufs bc' b) = n" "bvalid (bufs bc' b)" "brefcnt (bufs bc' b) \<noteq> 0"
proof -
  obtain xs where l: "lru bc xs" using bc_okD(1)[OF ok] by blast
  from buf_read_cases[OF r l] obtain x where
    b: "b < NBUF" and bc': "bc' = bupd b (\<lambda>_. x) bc" and lk: "bnext x = bnext (bufs bc b)" "bprev x = bprev (bufs bc b)"
    and x: "bdev x = d" "bblockno x = n" "bvalid x" "blocked x" "bpid x = pid"
    and alt: "bdev (bufs bc b) = d \<and> bblockno (bufs bc b) = n \<and> brefcnt x = brefcnt (bufs bc b) + 1
       \<and> bdata x = (if bvalid (bufs bc b) then bdata (bufs bc b) else bdisk bc d n)
     \<or> (\<forall>a < NBUF. \<not> (bdev (bufs bc a) = d \<and> bblockno (bufs bc a) = n))
       \<and> brefcnt (bufs bc b) = 0 \<and> brefcnt x = 1 \<and> bdata x = bdisk bc d n"
    by metis
  have bb: "bufs bc' a = (if a = b then x else bufs bc a)" for a by (simp add: bc' bupd_bufs)
  show "b < NBUF" by (fact b)
  show dk: "bdisk bc' = bdisk bc" by (simp add: bc')
  show "holding_buf pid b bc'" by (simp add: holding_buf_def bb x)
  show "bdev (bufs bc' b) = d" "bblockno (bufs bc' b) = n" "bvalid (bufs bc' b)" by (simp_all add: bb x)
  have rx: "brefcnt x \<noteq> 0" using alt sm[OF b] by (auto simp: eq_neg_iff_add_eq_0)
  then show "brefcnt (bufs bc' b) \<noteq> 0" by (simp add: bb)
  have same: "a = b \<or> \<not> (bdev (bufs bc a) = d \<and> bblockno (bufs bc a) = n)" if "a < NBUF" for a
  proof (rule ccontr)
    assume h: "\<not> (a = b \<or> \<not> (bdev (bufs bc a) = d \<and> bblockno (bufs bc a) = n))"
    with alt that have "bdev (bufs bc b) = d \<and> bblockno (bufs bc b) = n" by blast
    then show False using h bc_okD(2)[OF ok that b] d by simp
  qed
  have "lru bc' xs" using l lk by (simp add: bc' lru_bupd)
  moreover have "a = c" if "a < NBUF" "c < NBUF" "bdev (bufs bc' a) \<noteq> 0" "bdev (bufs bc' a) = bdev (bufs bc' c)"
      "bblockno (bufs bc' a) = bblockno (bufs bc' c)" for a c
    using that same[of a] same[of c] bc_okD(2)[OF ok that(1,2)] by (auto simp: bb x split: if_splits)
  moreover have "bdata (bufs bc' a) = bdisk bc' (bdev (bufs bc' a)) (bblockno (bufs bc' a))"
    if "a < NBUF" "bvalid (bufs bc' a)" "brefcnt (bufs bc' a) = 0" for a
    using that rx bc_okD(3)[OF ok, of a] by (auto simp: bb dk split: if_splits)
  ultimately show ok': "bc_ok bc'" unfolding bc_ok_def by blast
  have dx: "bdata x = cval bc d n"
  proof (cases "bvalid (bufs bc b) \<and> bdev (bufs bc b) = d \<and> bblockno (bufs bc b) = n")
    case True
    then show ?thesis using alt b cval_buf[OF ok b _ _ _ d, of n] by auto
  next
    case False
    then have "bdata x = bdisk bc d n" using alt by auto
    moreover have "cval bc d n = bdisk bc d n"
      using False same by (intro cval_none) blast
    ultimately show ?thesis by simp
  qed
  then show "bdata (bufs bc' b) = cval bc d n" by (simp add: bb)
  show "cval bc' e m = cval bc e m" if e: "e \<noteq> 0" for e m
  proof (cases "e = d \<and> m = n")
    case True
    then show ?thesis using cval_buf[OF ok' b, of d n] x d dx by (simp add: bb)
  next
    case False
    show ?thesis
    proof (rule cval_eqI[OF ok ok' e dk])
      fix a assume a: "a < NBUF" "bvalid (bufs bc a)" "bdev (bufs bc a) = e" "bblockno (bufs bc a) = m"
      have no: "bdev (bufs bc' c) = e \<longrightarrow> bblockno (bufs bc' c) \<noteq> m" if "c < NBUF" "a = b" for c
        using that a bc_okD(2)[OF ok a(1) that(1)] False e x by (auto simp: bb)
      show "(bvalid (bufs bc' a) \<and> bdev (bufs bc' a) = e \<and> bblockno (bufs bc' a) = m \<and> bdata (bufs bc' a) = bdata (bufs bc a))
       \<or> (\<forall>c < NBUF. bvalid (bufs bc' c) \<longrightarrow> bdev (bufs bc' c) = e \<longrightarrow> bblockno (bufs bc' c) \<noteq> m) \<and> bdata (bufs bc a) = bdisk bc e m"
      proof (cases "a = b")
        case True
        then have "brefcnt (bufs bc a) = 0" using alt a False by auto
        then have "bdata (bufs bc a) = bdisk bc e m" using bc_okD(3)[OF ok a(1,2)] a by simp
        then show ?thesis using no True by blast
      qed (use a in \<open>simp add: bb\<close>)
    next
      fix a assume a: "a < NBUF" "bvalid (bufs bc' a)" "bdev (bufs bc' a) = e" "bblockno (bufs bc' a) = m"
      then show "(bvalid (bufs bc a) \<and> bdev (bufs bc a) = e \<and> bblockno (bufs bc a) = m) \<or> bdata (bufs bc' a) = cval bc e m"
        using False x by (auto simp: bb split: if_splits)
    qed
  qed
qed

lemma buf_read_cached:
  assumes "bc_ok bc" and "d \<noteq> 0" and "\<And>b. b < NBUF \<Longrightarrow> brefcnt (bufs bc b) \<noteq> - 1"
    and "buf_read pid d n bc = Some (b, bc')" and "cached bc d n a"
  shows "a = b \<and> bdata (bufs bc' b) = bdata (bufs bc a)"
proof -
  have a: "a < NBUF" "bvalid (bufs bc a)" "bdev (bufs bc a) = d" "bblockno (bufs bc a) = n"
    using assms(5) by (simp_all add: cached_def)
  note e = buf_read_effect[OF assms(1,2,4,3)]
  have "bdata (bufs bc' b) = bdata (bufs bc a)" using e(2) cval_buf[OF assms(1) a assms(2)] by simp
  moreover obtain xs where l: "lru bc xs" using bc_okD(1)[OF assms(1)] by blast
  have "bdev (bufs bc b) = d \<and> bblockno (bufs bc b) = n"
    by (rule buf_read_cases[OF assms(4) l]) (use a in blast)
  then have "a = b" using a bc_okD(2)[OF assms(1) a(1) e(1)] assms(2) by simp
  ultimately show ?thesis by blast
qed

text \<open>
  C19: what \<open>bread\<close> returns.  It returns a buffer of the block, locked by the caller: the buffer that
  already holds the block, with the data it has there (a block that is logged but not yet installed is
  not read from the disk), or, when no valid buffer holds it, one with the disk's data; so wherever
  the buffers of a block are clean it is what the disk has.  It changes neither the disk nor what any
  block holds, whichever buffer it had to recycle, and no block ever gets two buffers.
\<close>

theorem buf_read_content:
  assumes "bc_ok bc" and "d \<noteq> 0" and "\<And>b. b < NBUF \<Longrightarrow> brefcnt (bufs bc b) \<noteq> - 1"
    and "buf_read pid d n bc = Some (b, bc')"
  shows "cached bc' d n b \<and> holding_buf pid b bc'
    \<and> (\<forall>a. cached bc d n a \<longrightarrow> a = b \<and> bdata (bufs bc' b) = bdata (bufs bc a))
    \<and> ((\<nexists>a. cached bc d n a) \<longrightarrow> bdata (bufs bc' b) = bdisk bc d n)
    \<and> ((\<forall>a. cached bc d n a \<longrightarrow> bdata (bufs bc a) = bdisk bc d n) \<longrightarrow> bdata (bufs bc' b) = bdisk bc d n)
    \<and> bc_ok bc' \<and> bdisk bc' = bdisk bc \<and> (\<forall>e m. e \<noteq> 0 \<longrightarrow> cval bc' e m = cval bc e m)"
proof -
  note e = buf_read_effect[OF assms(1,2,4,3)] and c = buf_read_cached[OF assms]
  have none: "bdata (bufs bc' b) = bdisk bc d n" if "\<nexists>a. cached bc d n a"
    using e(2) cval_none[of bc d n] that by (simp add: cached_def)
  have clean: "bdata (bufs bc' b) = bdisk bc d n" if "\<forall>a. cached bc d n a \<longrightarrow> bdata (bufs bc a) = bdisk bc d n"
    using none c that by metis
  show ?thesis using e(1,3-9) c none clean by (auto simp: cached_def)
qed

section \<open>Releasing\<close>

lemma list_ops_fields:
  "bvalid (bufs (bfront c bc) a) = bvalid (bufs bc a)" "bvalid (bufs (bunlink c bc) a) = bvalid (bufs bc a)"
  "bdev (bufs (bfront c bc) a) = bdev (bufs bc a)" "bdev (bufs (bunlink c bc) a) = bdev (bufs bc a)"
  "bblockno (bufs (bfront c bc) a) = bblockno (bufs bc a)" "bblockno (bufs (bunlink c bc) a) = bblockno (bufs bc a)"
  "brefcnt (bufs (bfront c bc) a) = brefcnt (bufs bc a)" "brefcnt (bufs (bunlink c bc) a) = brefcnt (bufs bc a)"
  "bdata (bufs (bfront c bc) a) = bdata (bufs bc a)" "bdata (bufs (bunlink c bc) a) = bdata (bufs bc a)"
  "bdisk (bfront c bc) = bdisk bc" "bdisk (bunlink c bc) = bdisk bc"
  by (simp_all add: bfront_def bunlink_def Let_def bupd_bufs)

lemma brelse_effect:
  assumes ok: "bc_ok bc" and b: "b < NBUF" and r: "brelse pid b bc = Some bc'"
    and clean: "brefcnt (bufs bc b) = 1 \<Longrightarrow> bvalid (bufs bc b) \<Longrightarrow>
      bdata (bufs bc b) = bdisk bc (bdev (bufs bc b)) (bblockno (bufs bc b))"
  shows "bc_ok bc'" "bdisk bc' = bdisk bc" "cval bc' d n = cval bc d n"
    "brefcnt (bufs bc' a) = (if a = b then brefcnt (bufs bc b) - 1 else brefcnt (bufs bc a))"
proof -
  have f: "bvalid (bufs bc' a) = bvalid (bufs bc a)" "bdev (bufs bc' a) = bdev (bufs bc a)"
    "bblockno (bufs bc' a) = bblockno (bufs bc a)" "bdata (bufs bc' a) = bdata (bufs bc a)"
    "brefcnt (bufs bc' a) = (if a = b then brefcnt (bufs bc b) - 1 else brefcnt (bufs bc a))" for a
    using r by (auto simp: brelse_def Let_def list_ops_fields bupd_bufs split: if_splits)
  then show "brefcnt (bufs bc' a) = (if a = b then brefcnt (bufs bc b) - 1 else brefcnt (bufs bc a))" by simp
  show dk: "bdisk bc' = bdisk bc"
    using r by (auto simp: brelse_def Let_def list_ops_fields split: if_splits)
  show "cval bc' d n = cval bc d n" by (simp add: cval_def f dk split: option.split)
  obtain xs where "lru bc xs" using bc_okD(1)[OF ok] by blast
  from brelse_lru[OF this b r] have "\<exists>xs. lru bc' xs" by blast
  then show "bc_ok bc'" using bc_okD(2,3)[OF ok] clean unfolding bc_ok_def f dk by auto
qed

text \<open>The pattern of every reader: \<open>bread\<close>, use of the data, \<open>brelse\<close>.\<close>

definition bio_fetch :: "nat \<Rightarrow> nat \<Rightarrow> bcache \<Rightarrow> (mem \<times> bcache) option" where
  "bio_fetch pid n bc = do {
     (b, bc1) \<leftarrow> buf_read pid ROOTDEV n bc;
     bc2 \<leftarrow> brelse pid b bc1;
     Some (bdata (bufs bc1 b), bc2)
   }"

definition bio_inv :: "bcache \<Rightarrow> bool" where
  "bio_inv bc \<longleftrightarrow> bc_ok bc \<and> (\<forall>b < NBUF. brefcnt (bufs bc b) \<noteq> - 1)"

lemma bio_fetch_content:
  assumes "bio_inv bc" and f: "bio_fetch pid n bc = Some (v, bc')"
  shows "bio_inv bc' \<and> v = cval bc ROOTDEV n \<and> (\<forall>m. cval bc' ROOTDEV m = cval bc ROOTDEV m)"
proof -
  have ok: "bc_ok bc" and sm: "\<And>b. b < NBUF \<Longrightarrow> brefcnt (bufs bc b) \<noteq> - 1"
    using assms(1) by (simp_all add: bio_inv_def)
  obtain b bc1 where r: "buf_read pid ROOTDEV n bc = Some (b, bc1)" and rel: "brelse pid b bc1 = Some bc'"
    and v: "v = bdata (bufs bc1 b)"
    using f by (auto simp: bio_fetch_def Option.bind_eq_Some_conv)
  note e = buf_read_effect[OF ok _ r sm, simplified]
  obtain xs where l: "lru bc xs" using bc_okD(1)[OF ok] by blast
  from buf_read_cases[OF r l] obtain x where
    bc1: "bc1 = bupd b (\<lambda>_. x) bc" and x: "bdev x = ROOTDEV" "bblockno x = n" "bvalid x"
    and alt: "bdev (bufs bc b) = ROOTDEV \<and> bblockno (bufs bc b) = n \<and> brefcnt x = brefcnt (bufs bc b) + 1
       \<and> bdata x = (if bvalid (bufs bc b) then bdata (bufs bc b) else bdisk bc ROOTDEV n)
     \<or> (\<forall>a < NBUF. \<not> (bdev (bufs bc a) = ROOTDEV \<and> bblockno (bufs bc a) = n))
       \<and> brefcnt (bufs bc b) = 0 \<and> brefcnt x = 1 \<and> bdata x = bdisk bc ROOTDEV n"
    by metis
  have clean: "bdata (bufs bc1 b) = bdisk bc1 (bdev (bufs bc1 b)) (bblockno (bufs bc1 b))"
    if "brefcnt (bufs bc1 b) = 1"
    using alt that x bc_okD(3)[OF ok e(1)] by (auto simp: bc1 bupd_bufs)
  note b' = brelse_effect[OF e(3,1) rel clean]
  have "brefcnt (bufs bc' a) \<noteq> - 1" if "a < NBUF" for a
  proof (cases "a = b")
    case True
    have "brefcnt (bufs bc' b) = brefcnt x - 1" using b'(4)[of b] by (simp add: bc1 bupd_bufs)
    moreover have "brefcnt x - 1 = brefcnt (bufs bc b)" using alt by auto
    ultimately show ?thesis using sm[OF e(1)] True by simp
  next
    case False
    then show ?thesis using b'(4)[of a] sm[OF that] by (simp add: bc1 bupd_bufs)
  qed
  then show ?thesis using b'(1,3) e(2,4) v by (auto simp: bio_inv_def)
qed

interpretation bio: block_store bio_inv "\<lambda>bc. cval bc ROOTDEV" "bio_fetch pid" for pid
  by unfold_locales (rule bio_fetch_content)

section \<open>The cache at boot\<close>

lemma binit_lru: "lru (binit bc) (rev [0..<NBUF])"
proof -
  let ?st = "\<lambda>n. fold (\<lambda>b bc. bfront b (bupd b (\<lambda>x. x\<lparr>blocked := False, bpid := 0\<rparr>) bc)) [0..<n]
     (bupd bhead (\<lambda>x. x\<lparr>bprev := bhead, bnext := bhead\<rparr>) bc)"
  have "n \<le> NBUF \<Longrightarrow> linked (?st n) (bhead # rev [0..<n] @ [bhead])" for n
  proof (induction n)
    case (Suc n)
    have "linked (bupd n (\<lambda>x. x\<lparr>blocked := False, bpid := 0\<rparr>) (?st n)) (bhead # rev [0..<n] @ [bhead])
        = linked (?st n) (bhead # rev [0..<n] @ [bhead])"
      by (rule linked_cong) (simp_all add: bupd_bufs)
    from linked_front[of "bupd n (\<lambda>x. x\<lparr>blocked := False, bpid := 0\<rparr>) (?st n)" "rev [0..<n]" n] this Suc
    show ?case by simp
  qed (simp add: bupd_bufs)
  from this[of NBUF] show ?thesis by (auto simp: lru_def binit_def)
qed

lemma binit_fields:
  "brefcnt (bufs (binit bc) b) = brefcnt (bufs bc b)" "bdev (bufs (binit bc) b) = bdev (bufs bc b)"
  "bvalid (bufs (binit bc) b) = bvalid (bufs bc b)" "b < NBUF \<Longrightarrow> \<not> blocked (bufs (binit bc) b)"
proof -
  let ?f = "\<lambda>b bc. bfront b (bupd b (\<lambda>x. x\<lparr>blocked := False, bpid := 0\<rparr>) bc)"
  have "brefcnt (bufs (fold ?f xs bc) b) = brefcnt (bufs bc b)
      \<and> bdev (bufs (fold ?f xs bc) b) = bdev (bufs bc b) \<and> bvalid (bufs (fold ?f xs bc) b) = bvalid (bufs bc b)" for xs bc
    by (induction xs arbitrary: bc) (auto simp: list_ops_fields bupd_bufs)
  then show "brefcnt (bufs (binit bc) b) = brefcnt (bufs bc b)" "bdev (bufs (binit bc) b) = bdev (bufs bc b)"
    "bvalid (bufs (binit bc) b) = bvalid (bufs bc b)"
    by (simp_all add: binit_def bupd_bufs)
  have lk: "blocked (bufs (bfront c bc) a) = blocked (bufs bc a)" for c bc a
    by (simp add: bfront_def Let_def bupd_bufs)
  have "\<not> blocked (bufs (fold ?f [0..<n] bc) b)" if "b < n" for n bc
    using that by (induction n) (auto simp: lk bupd_bufs less_Suc_eq)
  then show "b < NBUF \<Longrightarrow> \<not> blocked (bufs (binit bc) b)" unfolding binit_def by blast
qed

lemma binit_disk: "bdisk (binit bc) = bdisk bc"
proof -
  have "bdisk (fold (\<lambda>b bc. bfront b (bupd b (\<lambda>x. x\<lparr>blocked := False, bpid := 0\<rparr>) bc)) xs bc) = bdisk bc" for xs bc
    by (induction xs arbitrary: bc) (simp_all add: list_ops_fields)
  then show ?thesis by (simp add: binit_def)
qed

text \<open>The buffers as the loader leaves them: all zero.\<close>

definition boot_bc :: "(nat \<Rightarrow> nat \<Rightarrow> mem) \<Rightarrow> bcache" where
  "boot_bc d = \<lparr>bufs = (\<lambda>_. \<lparr>bvalid = False, bdev = 0, bblockno = 0, blocked = False, bpid = 0, brefcnt = 0,
     bprev = 0, bnext = 0, bdata = (\<lambda>_. 0)\<rparr>), bdisk = d\<rparr>"

lemma boot_inv: "bio_inv (binit (boot_bc d))"
proof -
  have "\<exists>xs. lru (binit (boot_bc d)) xs" using binit_lru by blast
  then show ?thesis
    by (simp add: bio_inv_def bc_ok_def binit_fields) (simp add: boot_bc_def)
qed

lemma boot_read: "\<exists>b bc'. buf_read 7 1 5 (binit (boot_bc d)) = Some (b, bc')"
proof -
  let ?bc = "binit (boot_bc d)"
  have "find (\<lambda>b. bdev (bufs ?bc b) = 1 \<and> bblockno (bufs ?bc b) = 5) (rev [0..<NBUF]) = None"
    by (simp add: find_None_iff binit_fields del: upt_Suc) (simp add: boot_bc_def)
  moreover have "find (\<lambda>b. brefcnt (bufs ?bc b) = 0) (rev (rev [0..<NBUF])) = Some 0"
    by (simp add: upt_rec[of 0 NBUF] binit_fields) (simp add: boot_bc_def)
  ultimately show ?thesis
    unfolding buf_read_def bget_def bget_search[OF binit_lru] using binit_fields(4)[of 0 "boot_bc d"]
    by (simp add: acquire_buf_def bupd_bufs)
qed

text \<open>Buffer 3 holds block 5, changed but not yet on the disk.\<close>

definition demo_bc :: bcache where
  "demo_bc = bupd 3 (\<lambda>x. x\<lparr>bvalid := True, bdev := 1, bblockno := 5, brefcnt := 1, bdata := (\<lambda>_. 9)\<rparr>)
     (binit (boot_bc (\<lambda>_ n _. of_nat n)))"

lemma demo_bc_ok: "bc_ok demo_bc" "b < NBUF \<Longrightarrow> brefcnt (bufs demo_bc b) \<noteq> - 1" "lru demo_bc (rev [0..<NBUF])"
proof -
  show l: "lru demo_bc (rev [0..<NBUF])" using binit_lru by (simp add: demo_bc_def lru_bupd)
  show "b < NBUF \<Longrightarrow> brefcnt (bufs demo_bc b) \<noteq> - 1"
    by (simp add: demo_bc_def bupd_bufs binit_fields) (simp add: boot_bc_def)
  show "bc_ok demo_bc" using l
    by (auto simp: bc_ok_def demo_bc_def bupd_bufs binit_fields) (auto simp: boot_bc_def)
qed

lemma demo_read: "\<exists>b bc'. buf_read 7 1 5 demo_bc = Some (b, bc')"
proof -
  have "find (\<lambda>b. bdev (bufs demo_bc b) = 1 \<and> bblockno (bufs demo_bc b) = 5) (rev [0..<NBUF]) = Some 3"
  proof -
    have "(bdev (bufs demo_bc b) = 1 \<and> bblockno (bufs demo_bc b) = 5) = (b = 3)" for b
      by (simp add: demo_bc_def bupd_bufs binit_fields) (simp add: boot_bc_def)
    moreover have "find (\<lambda>b. b = 3) (rev [0..<NBUF]) = Some 3"
      unfolding find_Some_iff by (rule exI[of _ 26]) (auto simp: rev_nth simp del: upt_Suc)
    ultimately show ?thesis by simp
  qed
  moreover have "\<not> blocked (bufs demo_bc 3)" using binit_fields(4)[of 3] by (simp add: demo_bc_def bupd_bufs)
  ultimately show ?thesis
    unfolding buf_read_def bget_def bget_search[OF demo_bc_ok(3)] by (simp add: acquire_buf_def bupd_bufs)
qed

theorem buf_read_content_witness:
  "(\<exists>b bc'. buf_read 7 1 5 (binit (boot_bc (\<lambda>_ n _. of_nat n))) = Some (b, bc') \<and> bdata (bufs bc' b) = (\<lambda>_. 5))
   \<and> (\<exists>bc'. buf_read 7 1 5 demo_bc = Some (3, bc') \<and> bdata (bufs bc' 3) = (\<lambda>_. 9))"
proof -
  let ?bc = "binit (boot_bc (\<lambda>_ n _. of_nat n))"
  obtain b bc' where r: "buf_read 7 1 5 ?bc = Some (b, bc')" using boot_read by blast
  have ok: "bc_ok ?bc" "\<And>b. b < NBUF \<Longrightarrow> brefcnt (bufs ?bc b) \<noteq> - 1"
    using boot_inv by (auto simp: bio_inv_def)
  have "\<nexists>a. cached ?bc 1 5 a" by (simp add: cached_def binit_fields) (simp add: boot_bc_def)
  then have "bdata (bufs bc' b) = bdisk ?bc 1 5" using buf_read_content[OF ok(1) _ ok(2) r] by simp
  then have cold: "bdata (bufs bc' b) = (\<lambda>_. 5)" by (simp add: binit_disk) (simp add: boot_bc_def)
  obtain b2 bc2 where r2: "buf_read 7 1 5 demo_bc = Some (b2, bc2)" using demo_read by blast
  have c: "cached demo_bc 1 5 3" "bdata (bufs demo_bc 3) = (\<lambda>_. 9)" by (simp_all add: cached_def demo_bc_def bupd_bufs)
  have "\<forall>a. cached demo_bc 1 5 a \<longrightarrow> a = b2 \<and> bdata (bufs bc2 b2) = bdata (bufs demo_bc a)"
    using buf_read_content[OF demo_bc_ok(1) _ demo_bc_ok(2) r2] by blast
  then have "b2 = 3" "bdata (bufs bc2 b2) = (\<lambda>_. 9)" using c by auto
  then show ?thesis using r cold r2 by blast
qed

theorem brelse_moves_front_witness:
  "\<exists>bc'. brelse 0 3 (bupd 3 (\<lambda>x. x\<lparr>blocked := True, bpid := 0, brefcnt := 1\<rparr>) (binit (boot_bc (\<lambda>_ _ _. 0)))) = Some bc'
     \<and> lru bc' (3 # remove1 3 (rev [0..<NBUF]))"
proof -
  let ?b = "bupd 3 (\<lambda>x. x\<lparr>blocked := True, bpid := 0, brefcnt := 1\<rparr>) (binit (boot_bc (\<lambda>_ _ _. 0)))"
  have l: "lru ?b (rev [0..<NBUF])" using binit_lru by (simp add: lru_bupd)
  have "holding_buf 0 3 ?b" by (simp add: holding_buf_def bupd_bufs)
  then have "brelse 0 3 ?b \<noteq> None" by (simp add: brelse_def Let_def)
  then obtain bc' where r: "brelse 0 3 ?b = Some bc'" by blast
  have "brefcnt (bufs ?b 3) = 1" by (simp add: bupd_bufs)
  then show ?thesis using brelse_moves_front[OF l _ r] r by auto
qed

end
