(* ===== verification/Locks.thy ===== *)
theory Locks imports KParam begin

text \<open>
  Spin locks (\<open>forks/arm64/kernel/spinlock.c\<close>), with the interrupt nesting of \<open>push_off\<close> and
  \<open>pop_off\<close>, and sleep locks (\<open>kernel/concurrency/sleeplock.c\<close>).  \<open>None\<close> is a panic.

  Acquiring and releasing are also given as the separate steps that other CPUs can see, to
  state what the lock is for: no two CPUs are ever inside.
\<close>

section \<open>Interrupt nesting\<close>

record cpu =
  noff :: int
  intena :: bool
  intr_get :: bool

definition push_off :: "cpu \<Rightarrow> cpu" where
  "push_off c =
     (let old = intr_get c; c1 = c\<lparr>intr_get := False\<rparr>;
          c2 = (if noff c1 = 0 then c1\<lparr>intena := old\<rparr> else c1)
      in c2\<lparr>noff := noff c2 + 1\<rparr>)"

definition pop_off :: "cpu \<Rightarrow> cpu option" where
  "pop_off c =
     (if intr_get c then None
      else if noff c < 1 then None
      else let c1 = c\<lparr>noff := noff c - 1\<rparr> in
        Some (if noff c1 = 0 \<and> intena c1 then c1\<lparr>intr_get := True\<rparr> else c1))"

text \<open>A run of calls on one CPU, \<open>True\<close> for \<open>push_off\<close>.\<close>

fun nest_run :: "bool list \<Rightarrow> cpu \<Rightarrow> cpu option" where
  "nest_run [] c = Some c"
| "nest_run (True # es) c = nest_run es (push_off c)"
| "nest_run (False # es) c = Option.bind (pop_off c) (nest_run es)"

definition nest_ok :: "bool \<Rightarrow> cpu \<Rightarrow> bool" where
  "nest_ok b c \<longleftrightarrow> 0 \<le> noff c \<and> (if noff c = 0 then intr_get c = b else \<not> intr_get c \<and> intena c = b)"

lemma nest_ok_push: "nest_ok b c \<Longrightarrow> nest_ok b (push_off c) \<and> noff (push_off c) = noff c + 1"
  by (auto simp: nest_ok_def push_off_def Let_def)

lemma nest_ok_pop:
  "nest_ok b c \<Longrightarrow> (case pop_off c of None \<Rightarrow> noff c = 0 | Some c' \<Rightarrow> nest_ok b c' \<and> noff c' = noff c - 1)"
  by (auto simp: nest_ok_def pop_off_def Let_def)

lemma nest_run_ok:
  "nest_ok b c \<Longrightarrow> nest_run es c = Some c' \<Longrightarrow>
     nest_ok b c' \<and> noff c' = noff c + int (length (filter id es)) - int (length (filter Not es))"
proof (induction es c rule: nest_run.induct)
  case (2 es c)
  then show ?case using nest_ok_push[of b c] by auto
next
  case (3 es c)
  then obtain c1 where c1: "pop_off c = Some c1" "nest_run es c1 = Some c'"
    by (auto simp: Option.bind_eq_Some_conv)
  have "nest_ok b c1 \<and> noff c1 = noff c - 1" using nest_ok_pop[OF "3.prems"(1)] c1(1) by simp
  then show ?case using "3.IH"[of c1] c1 by auto
qed simp

text \<open>
  Interrupt nesting is matched.  After any run of \<open>push_off\<close> and \<open>pop_off\<close> calls that does
  not panic, started outside any pair, the nesting depth is the number of calls not yet undone;
  interrupts are off while it is positive and as they were before the run when it is zero.
\<close>

theorem push_pop_matched:
  assumes "noff c = 0" and "nest_run es c = Some c'"
  shows "noff c' = int (length (filter id es)) - int (length (filter Not es))
    \<and> intr_get c' = (noff c' = 0 \<and> intr_get c)"
proof -
  have "nest_ok (intr_get c) c" using assms(1) by (simp add: nest_ok_def)
  from nest_run_ok[OF this assms(2)] assms(1) show ?thesis by (auto simp: nest_ok_def split: if_splits)
qed

theorem push_pop_matched_witness:
  "\<exists>c'. nest_run [True, True, False, False] \<lparr>noff = 0, intena = False, intr_get = True\<rparr> = Some c'
     \<and> noff c' = 0 \<and> intr_get c'"
  using push_pop_matched[of "\<lparr>noff = 0, intena = False, intr_get = True\<rparr>" "[True, True, False, False]"]
  by (simp add: push_off_def pop_off_def Let_def)

section \<open>Spin locks\<close>

record spinlock =
  locked :: bool
  lcpu :: "nat option"

definition initlock :: spinlock where
  "initlock = \<lparr>locked = False, lcpu = None\<rparr>"

definition holding :: "nat \<Rightarrow> spinlock \<Rightarrow> bool" where
  "holding i lk \<longleftrightarrow> locked lk \<and> lcpu lk = Some i"

text \<open>
  \<open>acquire\<close> and \<open>release\<close> by CPU \<open>i\<close>, when no other CPU runs meanwhile.  A lock that another
  CPU holds makes the caller spin.
\<close>

definition acquire :: "nat \<Rightarrow> cpu \<times> spinlock \<Rightarrow> (cpu \<times> spinlock) wait_res option" where
  "acquire i s =
     (let c = push_off (fst s); lk = snd s in
      if holding i lk then None
      else if locked lk then Some Sleeps
      else Some (Proceeds (c, lk\<lparr>locked := True, lcpu := Some i\<rparr>)))"

definition release :: "nat \<Rightarrow> cpu \<times> spinlock \<Rightarrow> (cpu \<times> spinlock) option" where
  "release i s =
     (let (c, lk) = s in
      if \<not> holding i lk then None
      else Option.bind (pop_off c) (\<lambda>c'. Some (c', lk\<lparr>lcpu := None, locked := False\<rparr>)))"

text \<open>
  The same calls step by step.  A CPU is outside, spinning (before its next \<open>ldaxrb\<close>), between a
  \<open>ldaxrb\<close> that read the lock free and its \<open>stxrb\<close>, past the exclusive store but not yet recorded in
  \<open>lk->cpu\<close>, inside, or past \<open>lk->cpu = 0\<close> with the lock byte still set.

  The exclusive monitors are the set of CPUs whose last \<open>ldaxrb\<close> of the lock byte is still good: every
  store to the byte clears the others', an exclusive store succeeds only with the CPU's own monitor
  set, and may fail even then.
\<close>

datatype lock_pc = Outside | Spin | Loaded | Taken | Inside | Leaving

type_synonym lock_sys = "spinlock \<times> nat set \<times> (nat \<Rightarrow> lock_pc)"

inductive spin_step :: "lock_sys \<Rightarrow> lock_sys \<Rightarrow> bool" where
  enter: "pc i = Outside \<Longrightarrow> \<not> holding i lk \<Longrightarrow> spin_step (lk, mon, pc) (lk, mon, pc(i := Spin))"
| load_busy: "pc i = Spin \<Longrightarrow> locked lk \<Longrightarrow> spin_step (lk, mon, pc) (lk, insert i mon, pc)"
| load_free: "pc i = Spin \<Longrightarrow> \<not> locked lk \<Longrightarrow> spin_step (lk, mon, pc) (lk, insert i mon, pc(i := Loaded))"
| store_fails: "pc i = Loaded \<Longrightarrow> spin_step (lk, mon, pc) (lk, mon - {i}, pc(i := Spin))"
| store: "pc i = Loaded \<Longrightarrow> i \<in> mon \<Longrightarrow> spin_step (lk, mon, pc) (lk\<lparr>locked := True\<rparr>, {}, pc(i := Taken))"
| record_cpu: "pc i = Taken \<Longrightarrow> spin_step (lk, mon, pc) (lk\<lparr>lcpu := Some i\<rparr>, mon, pc(i := Inside))"
| clear_cpu: "pc i = Inside \<Longrightarrow> holding i lk \<Longrightarrow> spin_step (lk, mon, pc) (lk\<lparr>lcpu := None\<rparr>, mon, pc(i := Leaving))"
| unlock: "pc i = Leaving \<Longrightarrow> spin_step (lk, mon, pc) (lk\<lparr>locked := False\<rparr>, {}, pc(i := Outside))"

text \<open>The panics of \<open>acquire\<close> and \<open>release\<close>, at the points where the code tests for them.\<close>

definition lock_panics :: "lock_sys \<Rightarrow> bool" where
  "lock_panics s \<longleftrightarrow> (case s of (lk, mon, pc) \<Rightarrow>
     \<exists>i. (pc i = Outside \<and> holding i lk) \<or> (pc i = Inside \<and> \<not> holding i lk))"

inductive_cases spin_stepE: "spin_step s s'"

definition in_lock :: "lock_pc \<Rightarrow> bool" where
  "in_lock p \<longleftrightarrow> p = Taken \<or> p = Inside \<or> p = Leaving"

text \<open>A CPU about to store with its monitor set knows that the lock is still free.\<close>

definition lock_inv :: "lock_sys \<Rightarrow> bool" where
  "lock_inv s \<longleftrightarrow> (case s of (lk, mon, pc) \<Rightarrow>
     (\<forall>i j. in_lock (pc i) \<longrightarrow> in_lock (pc j) \<longrightarrow> i = j)
     \<and> (\<forall>i. in_lock (pc i) \<longrightarrow> locked lk)
     \<and> (\<forall>i. lcpu lk = Some i \<longleftrightarrow> pc i = Inside)
     \<and> (\<forall>i \<in> mon. pc i = Loaded \<longrightarrow> \<not> locked lk))"

lemma spin_step_inv:
  assumes "spin_step s s'" and "lock_inv s"
  shows "lock_inv s'"
  using assms
proof (induction rule: spin_step.induct)
  case (store pc i mon lk)
  then have "\<not> locked lk" by (auto simp: lock_inv_def)
  then have "\<not> in_lock (pc j)" for j using store.prems by (auto simp: lock_inv_def)
  then show ?case using store by (auto simp: lock_inv_def in_lock_def)
next
  case (unlock pc i lk mon)
  have "in_lock (pc i)" using unlock.hyps by (simp add: in_lock_def)
  then have out: "\<not> in_lock (pc j)" if "j \<noteq> i" for j using that unlock.prems unfolding lock_inv_def by blast
  have "pc j \<noteq> Inside" for j using out[of j] unlock.hyps by (cases "j = i") (auto simp: in_lock_def)
  then have "lcpu lk = None" using unlock.prems by (cases "lcpu lk") (auto simp: lock_inv_def)
  then show ?case using out \<open>\<And>j. pc j \<noteq> Inside\<close> by (auto simp: lock_inv_def in_lock_def)
next
  case (enter pc i lk mon)
  then show ?case by (auto simp: lock_inv_def in_lock_def)
next
  case (load_busy pc i lk mon)
  then show ?case by (auto simp: lock_inv_def in_lock_def)
next
  case (load_free pc i lk mon)
  then show ?case by (auto simp: lock_inv_def in_lock_def)
next
  case (store_fails pc i lk mon)
  then show ?case by (auto simp: lock_inv_def in_lock_def)
next
  case (record_cpu pc i lk mon)
  then show ?case by (auto simp: lock_inv_def in_lock_def)
next
  case (clear_cpu pc i lk mon)
  then show ?case by (auto simp: lock_inv_def in_lock_def)
qed

text \<open>
  C20: mutual exclusion.  However the CPUs interleave the loads and exclusive stores of their
  acquires and the stores of their releases, and whichever exclusive stores fail, from a free
  lock, no two of them are ever between taking the lock and giving it back, and neither
  \<open>acquire\<close> nor \<open>release\<close> ever panics.
\<close>

theorem spinlock_mutex:
  assumes "spin_step\<^sup>*\<^sup>* (initlock, {}, \<lambda>_. Outside) (lk, mon, pc)"
  shows "(\<forall>i j. in_lock (pc i) \<longrightarrow> in_lock (pc j) \<longrightarrow> i = j) \<and> \<not> lock_panics (lk, mon, pc)"
proof -
  have "lock_inv (initlock, {}, \<lambda>_. Outside)" by (simp add: lock_inv_def in_lock_def initlock_def)
  with assms have "lock_inv (lk, mon, pc)"
    by (induction rule: rtranclp_induct) (auto intro: spin_step_inv)
  then show ?thesis by (auto simp: lock_inv_def lock_panics_def holding_def in_lock_def)
qed

text \<open>Two CPUs have both read the lock free; the store of one makes that of the other fail.\<close>

lemma demo_spin:
  "spin_step\<^sup>*\<^sup>* (initlock, {}, \<lambda>_. Outside) (initlock\<lparr>locked := True\<rparr>, {}, (\<lambda>_. Outside)(3 := Taken, 4 := Spin))"
proof -
  have f: "\<not> holding i initlock" "\<not> locked initlock" for i by (simp_all add: initlock_def holding_def)
  define p0 :: "nat \<Rightarrow> lock_pc" where "p0 = (\<lambda>_. Outside)"
  define p2 where "p2 = p0(3 := Spin, 4 := Spin)"
  define p4 where "p4 = p2(3 := Loaded, 4 := Loaded)"
  define p5 where "p5 = p4(3 := Taken)"
  note more = rtranclp.rtrancl_into_rtrancl[where r = spin_step]
  have "spin_step (initlock, {}, p0) (initlock, {}, p0(3 := Spin))"
    by (rule enter) (simp_all add: f p0_def)
  then have "spin_step\<^sup>*\<^sup>* (initlock, {}, p0) (initlock, {}, p0(3 := Spin))" by (rule r_into_rtranclp)
  then have "spin_step\<^sup>*\<^sup>* (initlock, {}, p0) (initlock, {}, p2)" unfolding p2_def
    by (rule more) (rule enter, simp_all add: f p0_def)
  then have "spin_step\<^sup>*\<^sup>* (initlock, {}, p0) (initlock, {3}, p2(3 := Loaded))"
    by (rule more) (rule load_free, simp_all add: f p2_def)
  then have "spin_step\<^sup>*\<^sup>* (initlock, {}, p0) (initlock, {4, 3}, p4)" unfolding p4_def
    by (rule more) (rule load_free, simp_all add: f p2_def)
  then have "spin_step\<^sup>*\<^sup>* (initlock, {}, p0) (initlock\<lparr>locked := True\<rparr>, {}, p5)" unfolding p5_def
    by (rule more) (rule store, simp_all add: p4_def)
  then have "spin_step\<^sup>*\<^sup>* (initlock, {}, p0) (initlock\<lparr>locked := True\<rparr>, {} - {4}, p5(4 := Spin))"
    by (rule more) (rule store_fails, simp add: p5_def p4_def)
  moreover have "p5(4 := Spin) = (\<lambda>_. Outside)(3 := Taken, 4 := Spin)"
    by (auto simp: p5_def p4_def p2_def p0_def)
  ultimately show ?thesis by (simp add: p0_def)
qed

theorem spinlock_mutex_witness:
  "\<not> lock_panics (initlock\<lparr>locked := True\<rparr>, {}, (\<lambda>_. Outside)(3 := Taken, 4 := Spin))"
  using spinlock_mutex[OF demo_spin] by simp

section \<open>Sleep locks\<close>

record sleeplock =
  slocked :: bool
  spid :: nat

definition initsleeplock :: sleeplock where
  "initsleeplock = \<lparr>slocked = False, spid = 0\<rparr>"

definition acquiresleep :: "nat \<Rightarrow> sleeplock \<Rightarrow> sleeplock wait_res" where
  "acquiresleep pid lk = (if slocked lk then Sleeps else Proceeds (lk\<lparr>slocked := True, spid := pid\<rparr>))"

definition releasesleep :: "sleeplock \<Rightarrow> sleeplock" where
  "releasesleep lk = lk\<lparr>slocked := False, spid := 0\<rparr>"

definition holdingsleep :: "nat \<Rightarrow> sleeplock \<Rightarrow> bool" where
  "holdingsleep pid lk \<longleftrightarrow> slocked lk \<and> spid lk = pid"

lemma acquiresleep_holds: "acquiresleep pid lk = Proceeds lk' \<Longrightarrow> holdingsleep pid lk' \<and> \<not> slocked lk"
  by (auto simp: acquiresleep_def holdingsleep_def split: if_splits)

end
