(* ===== verification/ProcTab.thy ===== *)
theory ProcTab imports KParam Locks begin

text \<open>
  The process table of \<open>forks/arm64/kernel/proc.c\<close> and the operations that touch nothing else:
  states, sleeping and waking, killing, parents, the scheduler's choices.  Each definition is the
  code of one critical section (\<open>p->lock\<close>, \<open>wait_lock\<close> or \<open>pid_lock\<close> held throughout) or a loop of
  them.  Theory \<open>Proc\<close> adds memory and files, theory \<open>SleepWakeup\<close> the interleaving of the locks.
\<close>

section \<open>State\<close>

datatype procstate = UNUSED | USED | SLEEPING | RUNNABLE | RUNNING | ZOMBIE

text \<open>A channel is an address: that of an entry of the table, or another one.\<close>

datatype chan = ChProc nat | ChAddr nat

text \<open>The saved user registers; \<open>tf_x 0\<close> to \<open>tf_x 30\<close> are \<open>x0\<close> to \<open>x30\<close>.\<close>

record trapframe =
  tf_x :: "nat \<Rightarrow> u64"
  tf_elr :: u64
  tf_spsr :: u64
  tf_sp :: u64

record kcontext =
  ctx_sp :: u64
  ctx_x30 :: u64
  ctx_x :: "nat \<Rightarrow> u64"

text \<open>
  \<open>ptf\<close> is the trapframe at the top of the kernel stack, \<open>ptf_set\<close> whether \<open>p->trapframe\<close> points to
  it; \<open>ppagetable\<close> is 0 for a null pointer, and null pointers to processes, files and inodes are
  \<open>None\<close>.
\<close>

record proc =
  pstate :: procstate
  pchan :: "chan option"
  pkilled :: bool
  pxstate :: u32
  ppid :: int
  pparent :: "nat option"
  pkstack :: u64
  psz :: u64
  ppagetable :: nat
  ptf :: trapframe
  ptf_set :: bool
  pcontext :: kcontext
  pofile :: "nat \<Rightarrow> nat option"
  pcwd :: "nat option"
  pname :: mem

record ptable =
  procs :: "nat \<Rightarrow> proc"
  nextpid :: int
  initproc :: nat

definition pset :: "nat \<Rightarrow> (proc \<Rightarrow> proc) \<Rightarrow> ptable \<Rightarrow> ptable" where
  "pset p f t = t\<lparr>procs := (procs t)(p := f (procs t p))\<rparr>"

section \<open>Operations\<close>

text \<open>\<open>nextpid\<close> is an \<open>int\<close> of 32 bits: after \<open>2 ^ 31 - 1\<close> it goes on at \<open>- 2 ^ 31\<close>.\<close>

definition allocpid :: "ptable \<Rightarrow> int \<times> ptable" where
  "allocpid t = (nextpid t, t\<lparr>nextpid := sint (word_of_int (nextpid t + 1) :: 32 word)\<rparr>)"

text \<open>The scan of \<open>allocproc\<close> and the fields it sets before it allocates memory.\<close>

definition find_unused :: "ptable \<Rightarrow> nat option" where
  "find_unused t = find (\<lambda>p. pstate (procs t p) = UNUSED) [0..<NPROC]"

definition alloc_slot :: "nat \<Rightarrow> ptable \<Rightarrow> ptable" where
  "alloc_slot p t = (case allocpid t of (pid, t) \<Rightarrow>
     pset p (\<lambda>q. q\<lparr>ppid := pid, pstate := USED, ptf_set := True\<rparr>) t)"

text \<open>\<open>freeproc\<close> without the memory it gives back.\<close>

definition clear_slot :: "nat \<Rightarrow> ptable \<Rightarrow> ptable" where
  "clear_slot p = pset p (\<lambda>q. q\<lparr>ptf_set := False, ppagetable := 0, psz := 0, ppid := 0, pparent := None,
     pname := (pname q)(0 := 0), pchan := None, pkilled := False, pxstate := 0, pstate := UNUSED\<rparr>)"

definition wake_one :: "chan \<Rightarrow> nat \<Rightarrow> nat \<Rightarrow> ptable \<Rightarrow> ptable" where
  "wake_one ch me p t =
     (if p \<noteq> me \<and> pstate (procs t p) = SLEEPING \<and> pchan (procs t p) = Some ch
      then pset p (pstate_update (\<lambda>_. RUNNABLE)) t else t)"

text \<open>\<open>wakeup(chan)\<close> called by process \<open>me\<close>.\<close>

definition wakeup :: "chan \<Rightarrow> nat \<Rightarrow> ptable \<Rightarrow> ptable" where
  "wakeup ch me t = fold (wake_one ch me) [0..<NPROC] t"

text \<open>The part of \<open>sleep\<close> that runs with \<open>p->lock\<close> held.\<close>

definition go_to_sleep :: "chan \<Rightarrow> nat \<Rightarrow> ptable \<Rightarrow> ptable" where
  "go_to_sleep ch p = pset p (\<lambda>q. q\<lparr>pchan := Some ch, pstate := SLEEPING\<rparr>)"

definition tidy_up :: "nat \<Rightarrow> ptable \<Rightarrow> ptable" where
  "tidy_up p = pset p (pchan_update (\<lambda>_. None))"

definition kill_one :: "nat \<Rightarrow> ptable \<Rightarrow> ptable" where
  "kill_one p = pset p (\<lambda>q. q\<lparr>pkilled := True, pstate := (if pstate q = SLEEPING then RUNNABLE else pstate q)\<rparr>)"

definition kill :: "int \<Rightarrow> ptable \<Rightarrow> int \<times> ptable" where
  "kill pid t =
     (case find (\<lambda>p. ppid (procs t p) = pid) [0..<NPROC] of
        None \<Rightarrow> (-1, t)
      | Some p \<Rightarrow> (0, kill_one p t))"

definition reparent_one :: "nat \<Rightarrow> nat \<Rightarrow> ptable \<Rightarrow> ptable" where
  "reparent_one p pp t =
     (if pparent (procs t pp) = Some p
      then wakeup (ChProc (initproc t)) p (pset pp (pparent_update (\<lambda>_. Some (initproc t))) t)
      else t)"

definition reparent :: "nat \<Rightarrow> ptable \<Rightarrow> ptable" where
  "reparent p t = fold (reparent_one p) [0..<NPROC] t"

text \<open>The last part of \<open>exit\<close>, with \<open>wait_lock\<close> held.  A null parent is no process's channel.\<close>

definition become_zombie :: "nat \<Rightarrow> u32 \<Rightarrow> ptable \<Rightarrow> ptable" where
  "become_zombie p status t =
     (let t = reparent p t;
          t = (case pparent (procs t p) of None \<Rightarrow> t | Some pp \<Rightarrow> wakeup (ChProc pp) p t)
      in pset p (\<lambda>q. q\<lparr>pxstate := status, pstate := ZOMBIE\<rparr>) t)"

section \<open>The scheduler\<close>

text \<open>
  One iteration of the inner loop of \<open>scheduler\<close>: whether it switches to process \<open>p\<close>.  \<open>sched_checks\<close>
  are the panics of \<open>sched\<close>, by which a process gives the CPU back; \<open>lock_held\<close> is \<open>holding(&p->lock)\<close>.
\<close>

definition schedule :: "nat \<Rightarrow> ptable \<Rightarrow> ptable option" where
  "schedule p t = (if pstate (procs t p) = RUNNABLE then Some (pset p (pstate_update (\<lambda>_. RUNNING)) t) else None)"

definition sched_checks :: "bool \<Rightarrow> cpu \<Rightarrow> proc \<Rightarrow> bool" where
  "sched_checks lock_held c p \<longleftrightarrow> lock_held \<and> noff c = 1 \<and> pstate p \<noteq> RUNNING \<and> \<not> intr_get c"

definition yield :: "nat \<Rightarrow> ptable \<Rightarrow> ptable" where
  "yield p = pset p (pstate_update (\<lambda>_. RUNNABLE))"

text \<open>The state column of \<open>procdump\<close>; its table of names has no entry for \<open>USED\<close>.\<close>

definition state_name :: "procstate \<Rightarrow> string" where
  "state_name s = (case s of UNUSED \<Rightarrow> ''unused'' | SLEEPING \<Rightarrow> ''sleep '' | RUNNABLE \<Rightarrow> ''runble''
     | RUNNING \<Rightarrow> ''run   '' | ZOMBIE \<Rightarrow> ''zombie'' | USED \<Rightarrow> ''???'')"

definition procdump :: "ptable \<Rightarrow> (int \<times> string \<times> mem) list" where
  "procdump t = map (\<lambda>p. (ppid (procs t p), state_name (pstate (procs t p)), pname (procs t p)))
     (filter (\<lambda>p. pstate (procs t p) \<noteq> UNUSED) [0..<NPROC])"

section \<open>The process tree\<close>

text \<open>
  The three critical sections of a \<open>fork\<close> by process \<open>me\<close> that succeeds: with the new entry's lock held
  it is allocated and filled in (\<open>child\<close> is what \<open>fork\<close> puts into it beside its pid), with \<open>wait_lock\<close>
  held it gets its parent, and with its lock held again it becomes runnable.
\<close>

definition fork_alloc :: "nat \<Rightarrow> (proc \<Rightarrow> proc) \<Rightarrow> ptable \<Rightarrow> ptable" where
  "fork_alloc np child t =
     pset np (\<lambda>q. (child q)\<lparr>ppid := ppid q, pparent := pparent q, pstate := pstate q\<rparr>) (alloc_slot np t)"

definition fork_parent :: "nat \<Rightarrow> nat \<Rightarrow> ptable \<Rightarrow> ptable" where
  "fork_parent me np = pset np (pparent_update (\<lambda>_. Some me))"

definition fork_ready :: "nat \<Rightarrow> ptable \<Rightarrow> ptable" where
  "fork_ready np = pset np (pstate_update (\<lambda>_. RUNNABLE))"

text \<open>
  The table with the forks under way: \<open>forking me\<close> is the entry \<open>me\<close> is making, and whether it has
  its parent yet.  \<open>spent\<close> counts the calls of \<open>allocpid\<close>.
\<close>

record psys =
  ptbl :: ptable
  forking :: "nat \<Rightarrow> (nat \<times> bool) option"
  spent :: nat

definition runs :: "psys \<Rightarrow> nat \<Rightarrow> bool" where
  "runs s me \<longleftrightarrow> me < NPROC \<and> pstate (procs (ptbl s) me) = RUNNING"

text \<open>
  The steps of the processes as the table sees them, one for each critical section: process \<open>me\<close> runs
  and makes a system call, or goes on with its \<open>fork\<close>, or the scheduler switches.  The scan of
  \<open>allocproc\<close> takes the entries' locks one by one, so it may find any entry that is free.
\<close>

inductive proc_step :: "psys \<Rightarrow> psys \<Rightarrow> bool" where
  fork: "runs s me \<Longrightarrow> forking s me = None \<Longrightarrow> np < NPROC \<Longrightarrow> pstate (procs (ptbl s) np) = UNUSED
    \<Longrightarrow> proc_step s (s\<lparr>ptbl := fork_alloc np child (ptbl s), forking := (forking s)(me := Some (np, False)),
      spent := spent s + 1\<rparr>)"
| fork_fails: "runs s me \<Longrightarrow> forking s me = None \<Longrightarrow> np < NPROC \<Longrightarrow> pstate (procs (ptbl s) np) = UNUSED
    \<Longrightarrow> proc_step s (s\<lparr>ptbl := clear_slot np (pset np child (alloc_slot np (ptbl s))), spent := spent s + 1\<rparr>)"
| fork_wait_lock: "runs s me \<Longrightarrow> forking s me = Some (np, False)
    \<Longrightarrow> proc_step s (s\<lparr>ptbl := fork_parent me np (ptbl s), forking := (forking s)(me := Some (np, True))\<rparr>)"
| fork_done: "runs s me \<Longrightarrow> forking s me = Some (np, True)
    \<Longrightarrow> proc_step s (s\<lparr>ptbl := fork_ready np (ptbl s), forking := (forking s)(me := None)\<rparr>)"
| exit: "runs s me \<Longrightarrow> forking s me = None \<Longrightarrow> me \<noteq> initproc (ptbl s)
    \<Longrightarrow> proc_step s (s\<lparr>ptbl := become_zombie me status (ptbl s)\<rparr>)"
| reap: "runs s me \<Longrightarrow> forking s me = None \<Longrightarrow> np < NPROC \<Longrightarrow> pparent (procs (ptbl s) np) = Some me
    \<Longrightarrow> pstate (procs (ptbl s) np) = ZOMBIE \<Longrightarrow> proc_step s (s\<lparr>ptbl := clear_slot np (ptbl s)\<rparr>)"
| sleep: "runs s me \<Longrightarrow> forking s me = None \<Longrightarrow> proc_step s (s\<lparr>ptbl := go_to_sleep ch me (ptbl s)\<rparr>)"
| tidy: "runs s me \<Longrightarrow> proc_step s (s\<lparr>ptbl := tidy_up me (ptbl s)\<rparr>)"
| wakeup: "proc_step s (s\<lparr>ptbl := wakeup ch me (ptbl s)\<rparr>)"
| kill: "kill pid (ptbl s) = (r, t') \<Longrightarrow> proc_step s (s\<lparr>ptbl := t'\<rparr>)"
| schedule: "p < NPROC \<Longrightarrow> schedule p (ptbl s) = Some t' \<Longrightarrow> proc_step s (s\<lparr>ptbl := t'\<rparr>)"
| yield: "runs s me \<Longrightarrow> proc_step s (s\<lparr>ptbl := yield me (ptbl s)\<rparr>)"

inductive_cases proc_stepE: "proc_step s s'"

text \<open>
  Every process but \<open>init\<close> has a parent that has not exited; \<open>init\<close> has not exited; process ids are
  positive, below \<open>nextpid\<close> and distinct.
\<close>

definition alive :: "ptable \<Rightarrow> nat \<Rightarrow> bool" where
  "alive t p \<longleftrightarrow> p < NPROC \<and> pstate (procs t p) \<noteq> UNUSED \<and> pstate (procs t p) \<noteq> ZOMBIE"

definition in_use :: "ptable \<Rightarrow> nat \<Rightarrow> bool" where
  "in_use t p \<longleftrightarrow> p < NPROC \<and> pstate (procs t p) \<noteq> UNUSED"

definition tree_ok :: "ptable \<Rightarrow> bool" where
  "tree_ok t \<longleftrightarrow> alive t (initproc t)
     \<and> (\<forall>p. in_use t p \<and> p \<noteq> initproc t \<longrightarrow> (\<exists>r. pparent (procs t p) = Some r \<and> alive t r))"

text \<open>The same while forks are under way: a child that has no parent yet is one its maker is still making.\<close>

definition forest_ok :: "psys \<Rightarrow> bool" where
  "forest_ok s \<longleftrightarrow> (let t = ptbl s in alive t (initproc t)
     \<and> (\<forall>p. in_use t p \<and> p \<noteq> initproc t \<longrightarrow> (\<exists>r. pparent (procs t p) = Some r \<and> alive t r)
          \<or> pparent (procs t p) = None \<and> pstate (procs t p) = USED \<and> (\<exists>me. forking s me = Some (p, False) \<and> alive t me)))"

definition pids_ok :: "ptable \<Rightarrow> bool" where
  "pids_ok t \<longleftrightarrow> 0 < nextpid t \<and> (\<forall>p. in_use t p \<longrightarrow> 0 < ppid (procs t p) \<and> ppid (procs t p) < nextpid t)
     \<and> (\<forall>p q. in_use t p \<and> in_use t q \<and> ppid (procs t p) = ppid (procs t q) \<longrightarrow> p = q)"

text \<open>
  Most steps keep the shape of the tree: they change neither parents nor pids, and they move no
  entry into or out of \<open>UNUSED\<close> and \<open>ZOMBIE\<close>.
\<close>

definition same_tree :: "ptable \<Rightarrow> ptable \<Rightarrow> bool" where
  "same_tree t t' \<longleftrightarrow> initproc t' = initproc t \<and> nextpid t' = nextpid t
     \<and> (\<forall>p. pparent (procs t' p) = pparent (procs t p) \<and> ppid (procs t' p) = ppid (procs t p)
          \<and> (pstate (procs t' p) = UNUSED \<longleftrightarrow> pstate (procs t p) = UNUSED)
          \<and> (pstate (procs t' p) = ZOMBIE \<longleftrightarrow> pstate (procs t p) = ZOMBIE)
          \<and> (pstate (procs t' p) = USED \<longleftrightarrow> pstate (procs t p) = USED))"

lemma same_tree_refl: "same_tree t t"
  by (simp add: same_tree_def)

lemma same_tree_trans: "same_tree t t1 \<Longrightarrow> same_tree t1 t2 \<Longrightarrow> same_tree t t2"
  by (simp add: same_tree_def)

text \<open>
  What holds between any two critical sections: the forest, and the forks under way, each with an entry
  of its own that only it will give a parent.  The first \<open>2 ^ 31 - 3\<close> calls of \<open>allocpid\<close> after boot do
  not wrap.
\<close>

definition forks_ok :: "psys \<Rightarrow> bool" where
  "forks_ok s \<longleftrightarrow> (let t = ptbl s in
     (\<forall>p. pstate (procs t p) = UNUSED \<longrightarrow> pparent (procs t p) = None)
     \<and> (\<forall>me np b. forking s me = Some (np, b) \<longrightarrow> alive t me \<and> np < NPROC \<and> np \<noteq> initproc t \<and> pstate (procs t np) = USED
          \<and> pparent (procs t np) = (if b then Some me else None))
     \<and> (\<forall>me me' np b b'. forking s me = Some (np, b) \<and> forking s me' = Some (np, b') \<longrightarrow> me = me'))"

abbreviation (input) PIDS :: nat where "PIDS \<equiv> 2147483646"

definition count_ok :: "psys \<Rightarrow> bool" where
  "count_ok s \<longleftrightarrow> (spent s < PIDS \<longrightarrow> nextpid (ptbl s) = int (spent s) + 2 \<and> pids_ok (ptbl s))"

definition psys_ok :: "psys \<Rightarrow> bool" where
  "psys_ok s \<longleftrightarrow> forest_ok s \<and> forks_ok s \<and> count_ok s"

lemma forks_okD:
  assumes "forks_ok s"
  shows "pstate (procs (ptbl s) p) = UNUSED \<Longrightarrow> pparent (procs (ptbl s) p) = None"
    "forking s me = Some (np, b) \<Longrightarrow> alive (ptbl s) me \<and> np < NPROC \<and> np \<noteq> initproc (ptbl s)
      \<and> pstate (procs (ptbl s) np) = USED \<and> pparent (procs (ptbl s) np) = (if b then Some me else None)"
    "forking s me = Some (np, b) \<Longrightarrow> forking s me' = Some (np, b') \<Longrightarrow> me = me'"
  using assms unfolding forks_ok_def Let_def by metis+

lemma forest_okD:
  assumes "forest_ok s"
  shows "alive (ptbl s) (initproc (ptbl s))"
    "in_use (ptbl s) p \<Longrightarrow> p \<noteq> initproc (ptbl s) \<Longrightarrow> (\<exists>r. pparent (procs (ptbl s) p) = Some r \<and> alive (ptbl s) r)
      \<or> pparent (procs (ptbl s) p) = None \<and> pstate (procs (ptbl s) p) = USED
        \<and> (\<exists>me. forking s me = Some (p, False) \<and> alive (ptbl s) me)"
  using assms unfolding forest_ok_def Let_def by blast+

lemma same_tree_ok:
  assumes "same_tree (ptbl s) t'" and "psys_ok s"
  shows "psys_ok (s\<lparr>ptbl := t'\<rparr>)"
proof -
  have f: "initproc t' = initproc (ptbl s)" "nextpid t' = nextpid (ptbl s)"
    "\<And>p. pparent (procs t' p) = pparent (procs (ptbl s) p)" "\<And>p. ppid (procs t' p) = ppid (procs (ptbl s) p)"
    "\<And>p. pstate (procs t' p) = UNUSED \<longleftrightarrow> pstate (procs (ptbl s) p) = UNUSED"
    "\<And>p. pstate (procs t' p) = USED \<longleftrightarrow> pstate (procs (ptbl s) p) = USED"
    and a: "\<And>p. alive t' p = alive (ptbl s) p" "\<And>p. in_use t' p = in_use (ptbl s) p"
    using assms(1) by (simp_all add: same_tree_def alive_def in_use_def)
  have e: "ptbl (s\<lparr>ptbl := t'\<rparr>) = t'" "forking (s\<lparr>ptbl := t'\<rparr>) = forking s" "spent (s\<lparr>ptbl := t'\<rparr>) = spent s" by simp_all
  show ?thesis
    using assms(2) unfolding psys_ok_def forest_ok_def forks_ok_def count_ok_def pids_ok_def Let_def e f a .
qed

lemma pset_same_tree:
  assumes "pparent (f (procs t p)) = pparent (procs t p)" "ppid (f (procs t p)) = ppid (procs t p)"
    and "pstate (f (procs t p)) \<in> {SLEEPING, RUNNABLE, RUNNING} \<and> pstate (procs t p) \<in> {SLEEPING, RUNNABLE, RUNNING}
      \<or> pstate (f (procs t p)) = pstate (procs t p)"
  shows "same_tree t (pset p f t)"
  using assms by (auto simp: same_tree_def pset_def)

lemma wakeup_same_tree: "same_tree t (wakeup ch me t)"
proof -
  have "same_tree t (fold (wake_one ch me) ps t)" for ps
  proof (induction ps arbitrary: t)
    case (Cons p ps)
    have "same_tree t (wake_one ch me p t)"
      by (auto simp: wake_one_def same_tree_refl intro!: pset_same_tree)
    from same_tree_trans[OF this Cons.IH] show ?case by simp
  qed (simp add: same_tree_refl)
  then show ?thesis by (simp add: wakeup_def)
qed

lemma kill_same_tree: "kill pid t = (r, t') \<Longrightarrow> same_tree t t'"
  by (auto simp: kill_def kill_one_def same_tree_refl intro!: pset_same_tree split: option.splits)

text \<open>After \<open>reparent\<close> the children of \<open>p\<close> are \<open>init\<close>'s; states change only by waking \<open>init\<close>.\<close>

definition adopted :: "nat \<Rightarrow> nat set \<Rightarrow> ptable \<Rightarrow> ptable \<Rightarrow> bool" where
  "adopted p A t t' \<longleftrightarrow> initproc t' = initproc t \<and> nextpid t' = nextpid t
     \<and> (\<forall>q. pparent (procs t' q) = (if q \<in> A \<and> pparent (procs t q) = Some p then Some (initproc t) else pparent (procs t q))
          \<and> ppid (procs t' q) = ppid (procs t q)
          \<and> (pstate (procs t' q) = UNUSED \<longleftrightarrow> pstate (procs t q) = UNUSED)
          \<and> (pstate (procs t' q) = ZOMBIE \<longleftrightarrow> pstate (procs t q) = ZOMBIE)
          \<and> (pstate (procs t' q) = USED \<longleftrightarrow> pstate (procs t q) = USED))"

lemma reparent_one_adopted:
  assumes "p \<noteq> initproc t"
  shows "adopted p {q} t (reparent_one p q t)"
proof (cases "pparent (procs t q) = Some p")
  case True
  let ?t1 = "pset q (pparent_update (\<lambda>_. Some (initproc t))) t"
  have "adopted p {q} t ?t1" using True by (simp add: adopted_def pset_def)
  moreover have "same_tree ?t1 (wakeup (ChProc (initproc t)) p ?t1)" by (rule wakeup_same_tree)
  ultimately show ?thesis using True by (simp add: reparent_one_def adopted_def same_tree_def)
qed (auto simp: reparent_one_def adopted_def)

lemma adopted_trans:
  assumes "adopted p A t t1" "adopted p B t1 t2" "p \<noteq> initproc t"
  shows "adopted p (A \<union> B) t t2"
  using assms by (auto simp: adopted_def)

lemma reparent_adopted:
  assumes "p \<noteq> initproc t"
  shows "adopted p {..<NPROC} t (reparent p t)"
proof -
  have "adopted p (set qs) t (fold (reparent_one p) qs t)" for qs
    using assms
  proof (induction qs arbitrary: t)
    case (Cons q qs)
    have a: "adopted p {q} t (reparent_one p q t)" by (rule reparent_one_adopted) (rule Cons.prems)
    then have "initproc (reparent_one p q t) = initproc t" by (simp add: adopted_def)
    then have "adopted p (set qs) (reparent_one p q t) (fold (reparent_one p) qs (reparent_one p q t))"
      using Cons by simp
    from adopted_trans[OF a this Cons.prems] show ?case by simp
  qed (simp add: adopted_def)
  from this[of "[0..<NPROC]"] show ?thesis by (simp only: reparent_def set_upt atLeast0LessThan)
qed

lemma psys_okI: "forest_ok s \<Longrightarrow> forks_ok s \<Longrightarrow> count_ok s \<Longrightarrow> psys_ok s"
  by (simp add: psys_ok_def)

lemma forest_okI:
  assumes "alive (ptbl s) (initproc (ptbl s))"
    and "\<And>p. in_use (ptbl s) p \<Longrightarrow> p \<noteq> initproc (ptbl s) \<Longrightarrow> (\<exists>r. pparent (procs (ptbl s) p) = Some r \<and> alive (ptbl s) r)
      \<or> pparent (procs (ptbl s) p) = None \<and> pstate (procs (ptbl s) p) = USED
        \<and> (\<exists>me. forking s me = Some (p, False) \<and> alive (ptbl s) me)"
  shows "forest_ok s"
  using assms by (simp add: forest_ok_def Let_def)

lemma forks_okI:
  assumes "\<And>p. pstate (procs (ptbl s) p) = UNUSED \<Longrightarrow> pparent (procs (ptbl s) p) = None"
    and "\<And>me np b. forking s me = Some (np, b) \<Longrightarrow> alive (ptbl s) me \<and> np < NPROC \<and> np \<noteq> initproc (ptbl s)
      \<and> pstate (procs (ptbl s) np) = USED \<and> pparent (procs (ptbl s) np) = (if b then Some me else None)"
    and "\<And>me me' np b b'. forking s me = Some (np, b) \<Longrightarrow> forking s me' = Some (np, b') \<Longrightarrow> me = me'"
  shows "forks_ok s"
  unfolding forks_ok_def Let_def using assms by blast

lemma zombie_facts:
  fixes t :: ptable and status :: u32
  assumes me: "alive t me" "me \<noteq> initproc t" "pstate (procs t me) \<noteq> USED"
  defines "t' \<equiv> become_zombie me status t"
  shows "initproc t' = initproc t" "nextpid t' = nextpid t" "ppid (procs t' q) = ppid (procs t q)"
    "in_use t' q \<longleftrightarrow> in_use t q" "alive t' q \<longleftrightarrow> alive t q \<and> q \<noteq> me"
    "pparent (procs t' q) = (if q < NPROC \<and> pparent (procs t q) = Some me then Some (initproc t) else pparent (procs t q))"
    "pstate (procs t' q) = UNUSED \<longleftrightarrow> pstate (procs t q) = UNUSED" "pstate (procs t' q) = USED \<longleftrightarrow> pstate (procs t q) = USED"
proof -
  let ?t1 = "reparent me t"
  define t2 where "t2 = (case pparent (procs ?t1 me) of None \<Rightarrow> ?t1 | Some pp \<Rightarrow> wakeup (ChProc pp) me ?t1)"
  have a: "adopted me {..<NPROC} t ?t1" using me(2) by (rule reparent_adopted)
  have "same_tree ?t1 t2" by (auto simp: t2_def same_tree_refl wakeup_same_tree split: option.splits)
  then have b: "adopted me {..<NPROC} t t2" using a by (simp add: adopted_def same_tree_def)
  have z: "t' = pset me (\<lambda>q. q\<lparr>pxstate := status, pstate := ZOMBIE\<rparr>) t2"
    by (simp add: t'_def become_zombie_def t2_def Let_def)
  show "initproc t' = initproc t" "nextpid t' = nextpid t" "ppid (procs t' q) = ppid (procs t q)"
    "in_use t' q \<longleftrightarrow> in_use t q" "alive t' q \<longleftrightarrow> alive t q \<and> q \<noteq> me"
    "pparent (procs t' q) = (if q < NPROC \<and> pparent (procs t q) = Some me then Some (initproc t) else pparent (procs t q))"
    "pstate (procs t' q) = UNUSED \<longleftrightarrow> pstate (procs t q) = UNUSED" "pstate (procs t' q) = USED \<longleftrightarrow> pstate (procs t q) = USED"
    using b me by (auto simp: adopted_def z pset_def in_use_def alive_def)
qed

lemma zombie_ok:
  assumes ok: "psys_ok s" and me: "runs s me" "me \<noteq> initproc (ptbl s)" "forking s me = None"
  shows "psys_ok (s\<lparr>ptbl := become_zombie me status (ptbl s)\<rparr>)"
proof -
  have F: "forest_ok s" and K: "forks_ok s" and C: "count_ok s" using ok by (simp_all add: psys_ok_def)
  let ?t = "ptbl s"
  let ?s = "s\<lparr>ptbl := become_zombie me status ?t\<rparr>"
  have run: "alive ?t me" "pstate (procs ?t me) \<noteq> USED" using me(1) by (auto simp: runs_def alive_def)
  note f = zombie_facts[OF run(1) me(2) run(2), where status = status]
  show ?thesis
  proof (rule psys_okI)
    show "forest_ok ?s"
    proof (rule forest_okI)
      show "alive (ptbl ?s) (initproc (ptbl ?s))" using forest_okD(1)[OF F] me(2) by (simp add: f)
      fix q assume q: "in_use (ptbl ?s) q" "q \<noteq> initproc (ptbl ?s)"
      then have "q < NPROC" by (simp add: in_use_def)
      then show "(\<exists>r. pparent (procs (ptbl ?s) q) = Some r \<and> alive (ptbl ?s) r)
        \<or> pparent (procs (ptbl ?s) q) = None \<and> pstate (procs (ptbl ?s) q) = USED
          \<and> (\<exists>m. forking ?s m = Some (q, False) \<and> alive (ptbl ?s) m)"
        using forest_okD(1)[OF F] forest_okD(2)[OF F, of q] q me(2,3) by (force simp: f)
    qed
    show "forks_ok ?s"
    proof (rule forks_okI)
      fix m np b assume "forking ?s m = Some (np, b)"
      then show "alive (ptbl ?s) m \<and> np < NPROC \<and> np \<noteq> initproc (ptbl ?s)
        \<and> pstate (procs (ptbl ?s) np) = USED \<and> pparent (procs (ptbl ?s) np) = (if b then Some m else None)"
        using forks_okD(2)[OF K, of m np b] me(3) by (auto simp: f)
    qed (use forks_okD(1,3)[OF K] in \<open>auto simp: f\<close>)
    have "ptbl ?s = become_zombie me status ?t" "spent ?s = spent s" by simp_all
    then show "count_ok ?s" using C unfolding count_ok_def pids_ok_def by (simp only: f)
  qed
qed

lemma find_unused_SomeD: "find_unused t = Some np \<Longrightarrow> np < NPROC \<and> pstate (procs t np) = UNUSED"
  by (auto simp: find_unused_def find_Some_iff)

lemma next_pid: "0 \<le> x \<Longrightarrow> x < 2147483647 \<Longrightarrow> sint (word_of_int (x + 1) :: 32 word) = x + 1"
  unfolding signed_of_int by (simp add: signed_take_bit_int_eq_self)

lemma fork_alloc_facts:
  assumes "pstate (procs t np) = UNUSED" and "np < NPROC"
  shows "initproc (fork_alloc np child t) = initproc t"
    "nextpid (fork_alloc np child t) = sint (word_of_int (nextpid t + 1) :: 32 word)"
    "ppid (procs (fork_alloc np child t) q) = (if q = np then nextpid t else ppid (procs t q))"
    "pparent (procs (fork_alloc np child t) q) = pparent (procs t q)"
    "pstate (procs (fork_alloc np child t) q) = (if q = np then USED else pstate (procs t q))"
    "in_use (fork_alloc np child t) q \<longleftrightarrow> in_use t q \<or> q = np" "alive (fork_alloc np child t) q \<longleftrightarrow> alive t q \<or> q = np"
  using assms by (auto simp: fork_alloc_def alloc_slot_def allocpid_def pset_def in_use_def alive_def)

lemma pids_alloc:
  assumes "pids_ok t" and "nextpid t < 2147483647" and "np < NPROC" "pstate (procs t np) = UNUSED"
  shows "pids_ok (fork_alloc np child t)"
proof -
  note f = fork_alloc_facts[OF assms(4,3), of child]
  have lt: "0 < ppid (procs t q)" "ppid (procs t q) < nextpid t" if "in_use t q" for q
    using assms(1) that by (simp_all add: pids_ok_def)
  have inj: "in_use t p \<Longrightarrow> in_use t q \<Longrightarrow> ppid (procs t p) = ppid (procs t q) \<Longrightarrow> p = q" for p q
    using assms(1) by (simp add: pids_ok_def)
  have "0 < nextpid t" using assms(1) by (simp add: pids_ok_def)
  moreover from this have "sint (word_of_int (nextpid t + 1) :: 32 word) = nextpid t + 1"
    using assms(2) by (intro next_pid) simp_all
  ultimately show ?thesis unfolding pids_ok_def f
    using lt by (auto intro: inj less_imp_le split: if_splits) (use lt in fastforce)+
qed

lemma count_alloc:
  assumes "count_ok s" and "np < NPROC" "pstate (procs (ptbl s) np) = UNUSED"
  shows "count_ok (s\<lparr>ptbl := fork_alloc np child (ptbl s), forking := fk, spent := spent s + 1\<rparr>)"
proof (cases "spent s + 1 < PIDS")
  case True
  then have n: "nextpid (ptbl s) = int (spent s) + 2" and p: "pids_ok (ptbl s)" using assms(1) by (simp_all add: count_ok_def)
  have lt: "nextpid (ptbl s) < 2147483647" using n True by simp
  have "sint (word_of_int (nextpid (ptbl s) + 1) :: 32 word) = nextpid (ptbl s) + 1"
    using n lt by (intro next_pid) simp_all
  then show ?thesis
    using pids_alloc[OF p lt assms(2,3)] n by (simp add: count_ok_def fork_alloc_facts[OF assms(3,2)])
qed (simp add: count_ok_def)

lemma fork_ok:
  assumes ok: "psys_ok s" and me: "runs s me" "forking s me = None" and np: "np < NPROC" "pstate (procs (ptbl s) np) = UNUSED"
  shows "psys_ok (s\<lparr>ptbl := fork_alloc np child (ptbl s), forking := (forking s)(me := Some (np, False)), spent := spent s + 1\<rparr>)"
    (is "psys_ok ?s")
proof -
  have F: "forest_ok s" and K: "forks_ok s" and C: "count_ok s" using ok by (simp_all add: psys_ok_def)
  note f = fork_alloc_facts[OF np(2,1), of child]
  have ar: "alive (ptbl s) me" using me(1) by (simp add: runs_def alive_def)
  have ni: "np \<noteq> initproc (ptbl s)" using forest_okD(1)[OF F] np(2) by (auto simp: alive_def)
  have fresh: "forking s m \<noteq> Some (np, b)" for m b using forks_okD(2)[OF K, of m np b] np(2) by auto
  note none = forks_okD(1)[OF K np(2)]
  show ?thesis
  proof (rule psys_okI)
    show "forest_ok ?s"
    proof (rule forest_okI)
      show "alive (ptbl ?s) (initproc (ptbl ?s))" using forest_okD(1)[OF F] by (simp add: f)
      fix q assume q: "in_use (ptbl ?s) q" "q \<noteq> initproc (ptbl ?s)"
      show "(\<exists>r. pparent (procs (ptbl ?s) q) = Some r \<and> alive (ptbl ?s) r)
        \<or> pparent (procs (ptbl ?s) q) = None \<and> pstate (procs (ptbl ?s) q) = USED
          \<and> (\<exists>m. forking ?s m = Some (q, False) \<and> alive (ptbl ?s) m)"
      proof (cases "q = np")
        case True
        then show ?thesis using none ar by (auto simp: f)
      next
        case False
        then have "in_use (ptbl s) q" "q \<noteq> initproc (ptbl s)" using q by (simp_all add: f)
        from forest_okD(2)[OF F this] show ?thesis
        proof
          assume "\<exists>r. pparent (procs (ptbl s) q) = Some r \<and> alive (ptbl s) r"
          then show ?thesis by (auto simp: f)
        next
          assume *: "pparent (procs (ptbl s) q) = None \<and> pstate (procs (ptbl s) q) = USED
            \<and> (\<exists>me. forking s me = Some (q, False) \<and> alive (ptbl s) me)"
          then obtain m where "forking s m = Some (q, False)" "alive (ptbl s) m" by blast
          moreover from this me(2) have "m \<noteq> me" by auto
          ultimately have "\<exists>m. forking ?s m = Some (q, False) \<and> alive (ptbl ?s) m"
            by (intro exI[of _ m]) (simp add: f)
          moreover have "pparent (procs (ptbl ?s) q) = None" "pstate (procs (ptbl ?s) q) = USED"
            using * False by (simp_all add: f)
          ultimately show ?thesis by blast
        qed
      qed
    qed
    show "forks_ok ?s"
    proof (rule forks_okI)
      fix m n b assume m: "forking ?s m = Some (n, b)"
      show "alive (ptbl ?s) m \<and> n < NPROC \<and> n \<noteq> initproc (ptbl ?s)
        \<and> pstate (procs (ptbl ?s) n) = USED \<and> pparent (procs (ptbl ?s) n) = (if b then Some m else None)"
      proof (cases "m = me")
        case True
        then have "n = np" "b = False" using m by simp_all
        then show ?thesis using ni np(1) none ar True by (simp add: f)
      next
        case False
        then show ?thesis using m forks_okD(2)[OF K, of m n b] by (simp add: f)
      qed
    next
      fix m m' n b b' assume "forking ?s m = Some (n, b)" "forking ?s m' = Some (n, b')"
      then show "m = m'" using forks_okD(3)[OF K] fresh by (auto split: if_splits)
    next
      fix q assume "pstate (procs (ptbl ?s) q) = UNUSED"
      then show "pparent (procs (ptbl ?s) q) = None" using forks_okD(1)[OF K, of q] by (simp add: f split: if_splits)
    qed
    show "count_ok ?s" using count_alloc[OF C np] .
  qed
qed

lemma fork_wait_lock_ok:
  assumes ok: "psys_ok s" and fk: "forking s me = Some (np, False)"
  shows "psys_ok (s\<lparr>ptbl := fork_parent me np (ptbl s), forking := (forking s)(me := Some (np, True))\<rparr>)"
    (is "psys_ok ?s")
proof -
  have F: "forest_ok s" and K: "forks_ok s" and C: "count_ok s" using ok by (simp_all add: psys_ok_def)
  note k = forks_okD(2)[OF K fk]
  have f: "initproc (ptbl ?s) = initproc (ptbl s)" "nextpid (ptbl ?s) = nextpid (ptbl s)"
    "\<And>q. ppid (procs (ptbl ?s) q) = ppid (procs (ptbl s) q)" "\<And>q. pstate (procs (ptbl ?s) q) = pstate (procs (ptbl s) q)"
    "\<And>q. pparent (procs (ptbl ?s) q) = (if q = np then Some me else pparent (procs (ptbl s) q))"
    "\<And>q. in_use (ptbl ?s) q = in_use (ptbl s) q" "\<And>q. alive (ptbl ?s) q = alive (ptbl s) q"
    by (simp_all add: fork_parent_def pset_def in_use_def alive_def)
  have other: "forking s m = Some (np, b) \<Longrightarrow> m = me" for m b using forks_okD(3)[OF K _ fk] by blast
  show ?thesis
  proof (rule psys_okI)
    show "forest_ok ?s"
    proof (rule forest_okI)
      show "alive (ptbl ?s) (initproc (ptbl ?s))" unfolding f using forest_okD(1)[OF F] .
      fix q assume q: "in_use (ptbl ?s) q" "q \<noteq> initproc (ptbl ?s)"
      show "(\<exists>r. pparent (procs (ptbl ?s) q) = Some r \<and> alive (ptbl ?s) r)
        \<or> pparent (procs (ptbl ?s) q) = None \<and> pstate (procs (ptbl ?s) q) = USED
          \<and> (\<exists>m. forking ?s m = Some (q, False) \<and> alive (ptbl ?s) m)"
      proof (cases "q = np")
        case False
        moreover have "m \<noteq> me" if "forking s m = Some (q, False)" for m using that fk False by auto
        ultimately show ?thesis using forest_okD(2)[OF F, of q] q unfolding f by fastforce
      next
        case True
        then show ?thesis using k unfolding f by simp
      qed
    qed
    show "forks_ok ?s"
    proof (rule forks_okI)
      fix m n b assume m: "forking ?s m = Some (n, b)"
      show "alive (ptbl ?s) m \<and> n < NPROC \<and> n \<noteq> initproc (ptbl ?s)
        \<and> pstate (procs (ptbl ?s) n) = USED \<and> pparent (procs (ptbl ?s) n) = (if b then Some m else None)"
      proof (cases "m = me")
        case True
        then show ?thesis using m k unfolding f by simp
      next
        case False
        then have "forking s m = Some (n, b)" using m by simp
        moreover from this False other have "n \<noteq> np" by blast
        ultimately show ?thesis using forks_okD(2)[OF K, of m n b] unfolding f by simp
      qed
    next
      fix m m' n b b' assume "forking ?s m = Some (n, b)" "forking ?s m' = Some (n, b')"
      then show "m = m'" using forks_okD(3)[OF K] other by (auto split: if_splits)
    next
      fix q assume "pstate (procs (ptbl ?s) q) = UNUSED"
      then show "pparent (procs (ptbl ?s) q) = None" using forks_okD(1)[OF K, of q] k unfolding f by auto
    qed
    have "spent ?s = spent s" by simp
    then show "count_ok ?s" using C unfolding count_ok_def pids_ok_def f by (simp only:)
  qed
qed

lemma fork_done_ok:
  assumes ok: "psys_ok s" and fk: "forking s me = Some (np, True)"
  shows "psys_ok (s\<lparr>ptbl := fork_ready np (ptbl s), forking := (forking s)(me := None)\<rparr>)" (is "psys_ok ?s")
proof -
  have F: "forest_ok s" and K: "forks_ok s" and C: "count_ok s" using ok by (simp_all add: psys_ok_def)
  note k = forks_okD(2)[OF K fk]
  have f: "initproc (ptbl ?s) = initproc (ptbl s)" "nextpid (ptbl ?s) = nextpid (ptbl s)"
    "\<And>q. ppid (procs (ptbl ?s) q) = ppid (procs (ptbl s) q)" "\<And>q. pparent (procs (ptbl ?s) q) = pparent (procs (ptbl s) q)"
    "\<And>q. pstate (procs (ptbl ?s) q) = (if q = np then RUNNABLE else pstate (procs (ptbl s) q))"
    "\<And>q. in_use (ptbl ?s) q = in_use (ptbl s) q" "\<And>q. alive (ptbl ?s) q = alive (ptbl s) q"
    using k by (simp_all add: fork_ready_def pset_def in_use_def alive_def)
  have other: "forking s m = Some (np, b) \<Longrightarrow> m = me" for m b using forks_okD(3)[OF K _ fk] by blast
  show ?thesis
  proof (rule psys_okI)
    show "forest_ok ?s"
    proof (rule forest_okI)
      show "alive (ptbl ?s) (initproc (ptbl ?s))" unfolding f using forest_okD(1)[OF F] .
      fix q assume q: "in_use (ptbl ?s) q" "q \<noteq> initproc (ptbl ?s)"
      show "(\<exists>r. pparent (procs (ptbl ?s) q) = Some r \<and> alive (ptbl ?s) r)
        \<or> pparent (procs (ptbl ?s) q) = None \<and> pstate (procs (ptbl ?s) q) = USED
          \<and> (\<exists>m. forking ?s m = Some (q, False) \<and> alive (ptbl ?s) m)"
      proof (cases "q = np")
        case False
        moreover have "m \<noteq> me" if "forking s m = Some (q, False)" for m using that fk False by auto
        ultimately show ?thesis using forest_okD(2)[OF F, of q] q unfolding f by fastforce
      next
        case True
        then show ?thesis using k unfolding f by simp
      qed
    qed
    show "forks_ok ?s"
    proof (rule forks_okI)
      fix m n b assume m: "forking ?s m = Some (n, b)"
      then have "m \<noteq> me" "forking s m = Some (n, b)" by (auto split: if_splits)
      moreover from this other have "n \<noteq> np" by blast
      ultimately show "alive (ptbl ?s) m \<and> n < NPROC \<and> n \<noteq> initproc (ptbl ?s)
        \<and> pstate (procs (ptbl ?s) n) = USED \<and> pparent (procs (ptbl ?s) n) = (if b then Some m else None)"
        using forks_okD(2)[OF K, of m n b] unfolding f by simp
    next
      fix m m' n b b' assume "forking ?s m = Some (n, b)" "forking ?s m' = Some (n, b')"
      then show "m = m'" using forks_okD(3)[OF K] by (auto split: if_splits)
    next
      fix q assume "pstate (procs (ptbl ?s) q) = UNUSED"
      then show "pparent (procs (ptbl ?s) q) = None" using forks_okD(1)[OF K, of q] unfolding f by (simp split: if_splits)
    qed
    have "spent ?s = spent s" by simp
    then show "count_ok ?s" using C unfolding count_ok_def pids_ok_def f by (simp only:)
  qed
qed

text \<open>Clearing a dead entry, or one allocated and given up again.\<close>

lemma clear_ok:
  assumes ok: "psys_ok s" and np: "\<not> alive (ptbl s) np"
    and t': "initproc t' = initproc (ptbl s)" "\<And>q. q \<noteq> np \<Longrightarrow> procs t' q = procs (ptbl s) q"
      "pparent (procs t' np) = None" "pstate (procs t' np) = UNUSED"
    and c: "count_ok (s\<lparr>ptbl := t', spent := n\<rparr>)"
  shows "psys_ok (s\<lparr>ptbl := t', spent := n\<rparr>)" (is "psys_ok ?s")
proof -
  have F: "forest_ok s" and K: "forks_ok s" using ok by (simp_all add: psys_ok_def)
  have f: "\<And>q. in_use t' q \<longleftrightarrow> in_use (ptbl s) q \<and> q \<noteq> np" "\<And>q. alive t' q \<longleftrightarrow> alive (ptbl s) q"
    using np t' unfolding in_use_def alive_def by metis+
  have fresh: "forking s m \<noteq> Some (np, b)" for m b using forks_okD(2)[OF K, of m np b] np by (auto simp: alive_def)
  show ?thesis
  proof (rule psys_okI)
    show "forest_ok ?s"
    proof (rule forest_okI)
      show "alive (ptbl ?s) (initproc (ptbl ?s))" using forest_okD(1)[OF F] by (simp add: f t'(1))
      fix q assume "in_use (ptbl ?s) q" "q \<noteq> initproc (ptbl ?s)"
      then show "(\<exists>r. pparent (procs (ptbl ?s) q) = Some r \<and> alive (ptbl ?s) r)
        \<or> pparent (procs (ptbl ?s) q) = None \<and> pstate (procs (ptbl ?s) q) = USED
          \<and> (\<exists>m. forking ?s m = Some (q, False) \<and> alive (ptbl ?s) m)"
        using forest_okD(2)[OF F, of q] by (simp add: f t')
    qed
    show "forks_ok ?s"
    proof (rule forks_okI)
      fix m n' b assume m: "forking ?s m = Some (n', b)"
      then have "n' \<noteq> np" using fresh by auto
      then show "alive (ptbl ?s) m \<and> n' < NPROC \<and> n' \<noteq> initproc (ptbl ?s)
        \<and> pstate (procs (ptbl ?s) n') = USED \<and> pparent (procs (ptbl ?s) n') = (if b then Some m else None)"
        using m forks_okD(2)[OF K, of m n' b] by (simp add: f t')
    next
      fix q assume "pstate (procs (ptbl ?s) q) = UNUSED"
      then show "pparent (procs (ptbl ?s) q) = None" using forks_okD(1)[OF K, of q] t'(2)[of q] t'(3) by (cases "q = np") simp_all
    qed (use forks_okD(3)[OF K] in simp)
  qed (rule c)
qed

lemma count_clear:
  assumes "count_ok s" and "\<And>q. q \<noteq> np \<Longrightarrow> procs t' q = procs (ptbl s) q" "pstate (procs t' np) = UNUSED"
    and n: "n = spent s \<and> nextpid t' = nextpid (ptbl s)
      \<or> n = spent s + 1 \<and> nextpid t' = sint (word_of_int (nextpid (ptbl s) + 1) :: 32 word)"
  shows "count_ok (s\<lparr>ptbl := t', spent := n\<rparr>)"
  unfolding count_ok_def
proof (intro impI)
  assume "spent (s\<lparr>ptbl := t', spent := n\<rparr>) < PIDS"
  then have lt: "spent s < PIDS" "n < PIDS" using n by auto
  then have c: "nextpid (ptbl s) = int (spent s) + 2" "pids_ok (ptbl s)" using assms(1) by (simp_all add: count_ok_def)
  have nx: "nextpid t' = int n + 2" using n
  proof
    assume h: "n = spent s + 1 \<and> nextpid t' = sint (word_of_int (nextpid (ptbl s) + 1) :: 32 word)"
    have "sint (word_of_int (nextpid (ptbl s) + 1) :: 32 word) = nextpid (ptbl s) + 1"
      using c(1) lt h by (intro next_pid) simp_all
    then show ?thesis using h c(1) by simp
  qed (use c(1) in simp)
  have iu: "q \<noteq> np \<and> in_use (ptbl s) q \<and> ppid (procs t' q) = ppid (procs (ptbl s) q)" if "in_use t' q" for q
    using that assms(2)[of q] assms(3) by (cases "q = np") (auto simp: in_use_def)
  have le: "nextpid (ptbl s) \<le> nextpid t'" using nx c(1) n by auto
  have "pids_ok t'" unfolding pids_ok_def
  proof (intro conjI allI impI)
    show "0 < nextpid t'" using le c(2) by (simp add: pids_ok_def)
    fix p assume "in_use t' p"
    then show "0 < ppid (procs t' p)" "ppid (procs t' p) < nextpid t'"
      using iu[of p] c(2) le by (auto simp: pids_ok_def intro: less_le_trans)
  next
    fix p q assume "in_use t' p \<and> in_use t' q \<and> ppid (procs t' p) = ppid (procs t' q)"
    then show "p = q" using iu[of p] iu[of q] c(2) by (simp add: pids_ok_def)
  qed
  then show "nextpid (ptbl (s\<lparr>ptbl := t', spent := n\<rparr>)) = int (spent (s\<lparr>ptbl := t', spent := n\<rparr>)) + 2
      \<and> pids_ok (ptbl (s\<lparr>ptbl := t', spent := n\<rparr>))"
    using nx by simp
qed

lemma clear_slot_facts:
  "initproc (clear_slot np t) = initproc t" "nextpid (clear_slot np t) = nextpid t"
  "q \<noteq> np \<Longrightarrow> procs (clear_slot np t) q = procs t q"
  "pparent (procs (clear_slot np t) np) = None" "pstate (procs (clear_slot np t) np) = UNUSED"
  by (simp_all add: clear_slot_def pset_def)

lemma alloc_slot_facts:
  "initproc (pset np child (alloc_slot np t)) = initproc t"
  "nextpid (pset np child (alloc_slot np t)) = sint (word_of_int (nextpid t + 1) :: 32 word)"
  "q \<noteq> np \<Longrightarrow> procs (pset np child (alloc_slot np t)) q = procs t q"
  by (simp_all add: alloc_slot_def allocpid_def pset_def)

lemma proc_step_ok:
  assumes "proc_step s s'" and ok: "psys_ok s"
  shows "psys_ok s'"
  using assms(1)
proof (cases rule: proc_step.cases)
  case (fork me np child)
  then show ?thesis using fork_ok[OF ok] by simp
next
  case (fork_fails me np child)
  have c: "count_ok s" using ok by (simp add: psys_ok_def)
  let ?t = "clear_slot np (pset np child (alloc_slot np (ptbl s)))"
  have cc: "count_ok (s\<lparr>ptbl := ?t, spent := spent s + 1\<rparr>)"
    by (rule count_clear[OF c, of np]) (simp_all add: clear_slot_facts alloc_slot_facts)
  show ?thesis unfolding fork_fails(1)
    by (rule clear_ok[OF ok, of np, OF _ _ _ _ _ cc])
       (use fork_fails in \<open>simp_all add: alive_def clear_slot_facts alloc_slot_facts\<close>)
next
  case (fork_wait_lock me np)
  then show ?thesis using fork_wait_lock_ok[OF ok] by simp
next
  case (fork_done me np)
  then show ?thesis using fork_done_ok[OF ok] by simp
next
  case (exit me status)
  then show ?thesis using zombie_ok[OF ok] by simp
next
  case (reap me np)
  have c: "count_ok s" using ok by (simp add: psys_ok_def)
  have cc: "count_ok (s\<lparr>ptbl := clear_slot np (ptbl s), spent := spent s\<rparr>)"
    by (rule count_clear[OF c, of np]) (simp_all add: clear_slot_facts)
  have "psys_ok (s\<lparr>ptbl := clear_slot np (ptbl s), spent := spent s\<rparr>)"
    by (rule clear_ok[OF ok, of np, OF _ _ _ _ _ cc]) (use reap in \<open>simp_all add: alive_def clear_slot_facts\<close>)
  then show ?thesis using reap(1) by simp
next
  case (sleep me ch)
  then show ?thesis using same_tree_ok[OF pset_same_tree ok] by (simp add: go_to_sleep_def runs_def)
next
  case (tidy me)
  then show ?thesis using same_tree_ok[OF pset_same_tree ok] by (simp add: tidy_up_def)
next
  case (wakeup ch me)
  then show ?thesis using same_tree_ok[OF wakeup_same_tree ok] by simp
next
  case (kill pid r t')
  then show ?thesis using same_tree_ok[OF kill_same_tree ok] by simp
next
  case (schedule p t')
  have "same_tree (ptbl s) t'" using schedule
    by (auto simp: schedule_def intro!: pset_same_tree split: if_splits)
  then show ?thesis using same_tree_ok[OF _ ok] schedule(1) by simp
next
  case (yield me)
  then show ?thesis using same_tree_ok[OF pset_same_tree ok] by (simp add: yield_def runs_def)
qed

lemma proc_steps_ok: "proc_step\<^sup>*\<^sup>* s s' \<Longrightarrow> psys_ok s \<Longrightarrow> psys_ok s'"
  by (induction rule: rtranclp_induct) (use proc_step_ok in blast)+

text \<open>With no fork under way the forest is a tree.\<close>

lemma forest_tree: "forest_ok s \<Longrightarrow> \<forall>me. forking s me = None \<Longrightarrow> tree_ok (ptbl s)"
  by (simp add: forest_ok_def tree_ok_def Let_def)

text \<open>The table when \<open>userinit\<close> has made the first process.\<close>

definition boot_ptable :: ptable where
  "boot_ptable = \<lparr>procs = (\<lambda>p. \<lparr>pstate = (if p = 0 then RUNNABLE else UNUSED), pchan = None, pkilled = False,
     pxstate = 0, ppid = (if p = 0 then 1 else 0), pparent = None, pkstack = 0, psz = 0, ppagetable = 0,
     ptf = \<lparr>tf_x = (\<lambda>_. 0), tf_elr = 0, tf_spsr = 0, tf_sp = 0\<rparr>, ptf_set = (p = 0),
     pcontext = \<lparr>ctx_sp = 0, ctx_x30 = 0, ctx_x = (\<lambda>_. 0)\<rparr>, pofile = (\<lambda>_. None), pcwd = None,
     pname = (\<lambda>_. 0)\<rparr>), nextpid = 2, initproc = 0\<rparr>"

lemma boot_ok: "tree_ok boot_ptable" "pids_ok boot_ptable"
  by (auto simp: tree_ok_def pids_ok_def alive_def in_use_def boot_ptable_def)

definition boot_psys :: psys where
  "boot_psys = \<lparr>ptbl = boot_ptable, forking = (\<lambda>_. None), spent = 0\<rparr>"

lemma boot_psys_ok: "psys_ok boot_psys"
proof (rule psys_okI)
  show "forest_ok boot_psys" by (rule forest_okI) (auto simp: boot_psys_def alive_def in_use_def boot_ptable_def)
  show "forks_ok boot_psys" by (rule forks_okI) (simp_all add: boot_psys_def boot_ptable_def)
  show "count_ok boot_psys" using boot_ok(2) by (simp add: count_ok_def boot_psys_def) (simp add: boot_ptable_def)
qed

text \<open>
  C26: nobody is orphaned.  In every table reachable from boot by any interleaving of the critical
  sections of the processes' \<open>fork\<close>, \<open>exit\<close>, \<open>wait\<close>, \<open>kill\<close>, sleeping, waking and scheduling,
  \<open>init\<close> has not exited, and every other process in use (a zombie that waits to be reaped included) has a
  parent that has not exited, but for a child between the two locks of the \<open>fork\<close> that makes it, which
  is not runnable and whose maker has not exited; with no fork under way there is none.  The process
  ids in use are positive and distinct until \<open>nextpid\<close> has been spent \<open>2 ^ 31 - 2\<close> times, when it wraps.
\<close>

theorem process_tree:
  assumes "proc_step\<^sup>*\<^sup>* boot_psys s"
  shows "forest_ok s \<and> ((\<forall>me. forking s me = None) \<longrightarrow> tree_ok (ptbl s))
    \<and> (spent s < 2 ^ 31 - 2 \<longrightarrow> pids_ok (ptbl s))"
proof -
  have "psys_ok s" using proc_steps_ok[OF assms boot_psys_ok] .
  then show ?thesis using forest_tree by (auto simp: psys_ok_def count_ok_def)
qed

text \<open>\<open>init\<close> forks: the child without a parent, and the finished child.\<close>

definition demo_half :: psys where
  "demo_half = (let t = pset 0 (pstate_update (\<lambda>_. RUNNING)) boot_ptable in
     \<lparr>ptbl = fork_alloc 1 (\<lambda>q. q) t, forking = (\<lambda>_. None)(0 := Some (1, False)), spent = 1\<rparr>)"

definition demo_child :: psys where
  "demo_child = demo_half\<lparr>ptbl := fork_ready 1 (fork_parent 0 1 (ptbl demo_half)), forking := (\<lambda>_. None)\<rparr>"

lemma demo_forks: "proc_step\<^sup>*\<^sup>* boot_psys demo_half" "proc_step\<^sup>*\<^sup>* demo_half demo_child"
proof -
  let ?t = "pset 0 (pstate_update (\<lambda>_. RUNNING)) boot_ptable"
  let ?s = "boot_psys\<lparr>ptbl := ?t\<rparr>"
  have "schedule 0 (ptbl boot_psys) = Some ?t" by (simp add: schedule_def boot_psys_def boot_ptable_def)
  then have 1: "proc_step boot_psys ?s" by (intro proc_step.schedule[of 0]) simp_all
  have "proc_step ?s (?s\<lparr>ptbl := fork_alloc 1 (\<lambda>q. q) (ptbl ?s), forking := (forking ?s)(0 := Some (1, False)), spent := spent ?s + 1\<rparr>)"
    by (rule proc_step.fork) (simp_all add: runs_def boot_psys_def boot_ptable_def pset_def)
  moreover have "?s\<lparr>ptbl := fork_alloc 1 (\<lambda>q. q) (ptbl ?s), forking := (forking ?s)(0 := Some (1, False)), spent := spent ?s + 1\<rparr> = demo_half"
    by (simp add: demo_half_def boot_psys_def Let_def)
  ultimately have 2: "proc_step ?s demo_half" by simp
  from 1 2 show "proc_step\<^sup>*\<^sup>* boot_psys demo_half" by simp
  have r: "runs demo_half 0" "forking demo_half 0 = Some (1, False)"
    by (simp_all add: demo_half_def Let_def runs_def fork_alloc_def alloc_slot_def allocpid_def pset_def boot_ptable_def)
  let ?p = "demo_half\<lparr>ptbl := fork_parent 0 1 (ptbl demo_half), forking := (forking demo_half)(0 := Some (1, True))\<rparr>"
  have 3: "proc_step demo_half ?p" using r by (rule proc_step.fork_wait_lock)
  have "proc_step ?p (?p\<lparr>ptbl := fork_ready 1 (ptbl ?p), forking := (forking ?p)(0 := None)\<rparr>)"
    by (rule proc_step.fork_done) (use r(1) in \<open>simp_all add: runs_def fork_parent_def pset_def\<close>)
  moreover have "?p\<lparr>ptbl := fork_ready 1 (ptbl ?p), forking := (forking ?p)(0 := None)\<rparr> = demo_child"
    by (simp add: demo_child_def demo_half_def Let_def fun_eq_iff)
  ultimately have 4: "proc_step ?p demo_child" by simp
  from 3 4 show "proc_step\<^sup>*\<^sup>* demo_half demo_child" by simp
qed

theorem process_tree_witness:
  "proc_step\<^sup>*\<^sup>* boot_psys demo_half \<and> pparent (procs (ptbl demo_half) 1) = None \<and> forest_ok demo_half
   \<and> proc_step\<^sup>*\<^sup>* boot_psys demo_child \<and> pparent (procs (ptbl demo_child) 1) = Some 0 \<and> tree_ok (ptbl demo_child)
   \<and> pids_ok (ptbl demo_child)"
proof -
  have r: "proc_step\<^sup>*\<^sup>* boot_psys demo_child" using demo_forks by (rule rtranclp_trans)
  have "pparent (procs (ptbl demo_half) 1) = None" "pparent (procs (ptbl demo_child) 1) = Some 0"
    "forking demo_child = (\<lambda>_. None)" "spent demo_child = 1"
    by (simp_all add: demo_child_def demo_half_def Let_def fork_alloc_def fork_parent_def fork_ready_def alloc_slot_def
        allocpid_def pset_def boot_ptable_def)
  then show ?thesis using process_tree[OF demo_forks(1)] process_tree[OF r] demo_forks(1) r by simp
qed

section \<open>Killing an unused entry\<close>

text \<open>
  C37: \<open>kill(0)\<close> succeeds on a table with a free entry, because a free entry's pid is 0: it marks the
  first one killed.  The mark survives \<open>allocproc\<close>, which only \<open>freeproc\<close> would clear, so the next
  process made there is killed before it runs.
\<close>

theorem kill_zero_marks_unused:
  assumes "tree_ok t" and "pids_ok t" and "\<forall>p < NPROC. pstate (procs t p) = UNUSED \<longrightarrow> ppid (procs t p) = 0"
    and "find_unused t = Some np"
  shows "\<exists>t'. kill 0 t = (0, t') \<and> find_unused t' = Some np \<and> pkilled (procs (alloc_slot np t') np)"
proof -
  have "ppid (procs t p) = 0 \<longleftrightarrow> pstate (procs t p) = UNUSED" if "p < NPROC" for p
    using assms(2,3) that by (auto simp: pids_ok_def in_use_def)
  then have "find (\<lambda>p. ppid (procs t p) = 0) [0..<NPROC] = Some np"
    using assms(4) find_cong[of "[0..<NPROC]" "[0..<NPROC]" "\<lambda>p. ppid (procs t p) = 0" "\<lambda>p. pstate (procs t p) = UNUSED"]
    by (simp add: find_unused_def)
  then have k: "kill 0 t = (0, kill_one np t)" by (simp add: kill_def)
  have "pstate (procs (kill_one np t) p) = UNUSED \<longleftrightarrow> pstate (procs t p) = UNUSED" for p
    by (simp add: kill_one_def pset_def)
  then have "find_unused (kill_one np t) = Some np" using assms(4) by (simp add: find_unused_def)
  with k show ?thesis by (auto simp: alloc_slot_def allocpid_def pset_def kill_one_def)
qed

theorem kill_zero_marks_unused_witness:
  "\<exists>t'. kill 0 boot_ptable = (0, t') \<and> find_unused t' = Some 1 \<and> pkilled (procs (alloc_slot 1 t') 1)"
  by (rule kill_zero_marks_unused[OF boot_ok])
     (simp_all add: find_unused_def boot_ptable_def upt_conv_Cons)

end
