(* ===== verification/SleepWakeup.thy ===== *)
theory SleepWakeup imports ProcTab begin

text \<open>
  \<open>sleep\<close> and \<open>wakeup\<close> of \<open>forks/arm64/kernel/proc.c\<close> with their locks, interleaved.  Processes wait
  for a condition that is protected by a spinlock \<open>lk\<close>, as in
  \<open>acquire(lk); while(!cond) sleep(chan, lk); cond = 0; release(lk)\<close>, and others set it with
  \<open>acquire(lk); cond = 1; wakeup(chan); release(lk)\<close>, as the users of the two functions do (the log,
  pipes, sleeplocks, \<open>wait\<close>).  A step is one acquire, one release, or the code between two of them.
\<close>

section \<open>Program counters\<close>

text \<open>
  The waiter holds \<open>lk\<close> at \<open>WTest\<close> and enters \<open>sleep\<close> at \<open>WEnter\<close>; \<open>WLocked\<close> holds both locks;
  \<open>WMark\<close> has released \<open>lk\<close>; \<open>WSched\<close> has set \<open>SLEEPING\<close> and still holds its \<open>p->lock\<close>, which the
  scheduler releases; \<open>Asleep\<close> waits to be scheduled; \<open>WTidy\<close> runs again, with \<open>p->lock\<close>; \<open>WAgain\<close>
  reacquires \<open>lk\<close>.  The waker scans the table at \<open>KScan p\<close> and holds entry \<open>p\<close>'s lock at \<open>KHold p\<close>.
\<close>

datatype sw_pc = Idle | WTest | WEnter | WLocked | WMark | WSched | Asleep | WTidy | WAgain
  | KSet | KScan nat | KHold nat

record sw =
  lk_by :: "nat option"
  plk_by :: "nat \<Rightarrow> nat option"
  sleeping :: "nat \<Rightarrow> bool"
  cond :: bool
  pcs :: "nat \<Rightarrow> sw_pc"

definition goto :: "nat \<Rightarrow> sw_pc \<Rightarrow> sw \<Rightarrow> sw" where
  "goto i c s = s\<lparr>pcs := (pcs s)(i := c)\<rparr>"

definition set_plk :: "nat \<Rightarrow> nat option \<Rightarrow> sw \<Rightarrow> sw" where
  "set_plk p h s = s\<lparr>plk_by := (plk_by s)(p := h)\<rparr>"

definition set_sleeping :: "nat \<Rightarrow> bool \<Rightarrow> sw \<Rightarrow> sw" where
  "set_sleeping p b s = s\<lparr>sleeping := (sleeping s)(p := b)\<rparr>"

inductive sw_step :: "sw \<Rightarrow> sw \<Rightarrow> bool" where
  wait: "i < NPROC \<Longrightarrow> pcs s i = Idle \<Longrightarrow> lk_by s = None \<Longrightarrow> sw_step s (goto i WTest (s\<lparr>lk_by := Some i\<rparr>))"
| test_true: "pcs s i = WTest \<Longrightarrow> cond s \<Longrightarrow> sw_step s (goto i Idle (s\<lparr>lk_by := None, cond := False\<rparr>))"
| test_false: "pcs s i = WTest \<Longrightarrow> \<not> cond s \<Longrightarrow> sw_step s (goto i WEnter s)"
| sleep_plock: "pcs s i = WEnter \<Longrightarrow> plk_by s i = None \<Longrightarrow> sw_step s (goto i WLocked (set_plk i (Some i) s))"
| sleep_unlk: "pcs s i = WLocked \<Longrightarrow> sw_step s (goto i WMark (s\<lparr>lk_by := None\<rparr>))"
| sleep_mark: "pcs s i = WMark \<Longrightarrow> sw_step s (goto i WSched (set_sleeping i True s))"
| sleep_sched: "pcs s i = WSched \<Longrightarrow> sw_step s (goto i Asleep (set_plk i None s))"
| resume: "pcs s i = Asleep \<Longrightarrow> \<not> sleeping s i \<Longrightarrow> plk_by s i = None
    \<Longrightarrow> sw_step s (goto i WTidy (set_plk i (Some i) s))"
| tidy: "pcs s i = WTidy \<Longrightarrow> sw_step s (goto i WAgain (set_plk i None s))"
| relock: "pcs s i = WAgain \<Longrightarrow> lk_by s = None \<Longrightarrow> sw_step s (goto i WTest (s\<lparr>lk_by := Some i\<rparr>))"
| signal: "i < NPROC \<Longrightarrow> pcs s i = Idle \<Longrightarrow> lk_by s = None \<Longrightarrow> sw_step s (goto i KSet (s\<lparr>lk_by := Some i\<rparr>))"
| set_cond: "pcs s i = KSet \<Longrightarrow> sw_step s (goto i (KScan 0) (s\<lparr>cond := True\<rparr>))"
| scan_self: "pcs s i = KScan p \<Longrightarrow> p < NPROC \<Longrightarrow> p = i \<Longrightarrow> sw_step s (goto i (KScan (p + 1)) s)"
| scan_lock: "pcs s i = KScan p \<Longrightarrow> p < NPROC \<Longrightarrow> p \<noteq> i \<Longrightarrow> plk_by s p = None
    \<Longrightarrow> sw_step s (goto i (KHold p) (set_plk p (Some i) s))"
| scan_wake: "pcs s i = KHold p \<Longrightarrow> sw_step s (goto i (KScan (p + 1)) (set_plk p None (set_sleeping p False s)))"
| scan_done: "pcs s i = KScan p \<Longrightarrow> p = NPROC \<Longrightarrow> sw_step s (goto i Idle (s\<lparr>lk_by := None\<rparr>))"

inductive_cases sw_stepE: "sw_step s s'"

section \<open>No wakeup is lost\<close>

fun holds_lk :: "sw_pc \<Rightarrow> bool" where
  "holds_lk WTest = True"
| "holds_lk WEnter = True"
| "holds_lk WLocked = True"
| "holds_lk KSet = True"
| "holds_lk (KScan p) = True"
| "holds_lk (KHold p) = True"
| "holds_lk _ = False"

text \<open>The entry whose lock process \<open>k\<close> holds.\<close>

fun holds_plk :: "nat \<Rightarrow> sw_pc \<Rightarrow> nat option" where
  "holds_plk k (KHold p) = Some p"
| "holds_plk k WLocked = Some k"
| "holds_plk k WMark = Some k"
| "holds_plk k WSched = Some k"
| "holds_plk k WTidy = Some k"
| "holds_plk k _ = None"

text \<open>A process that is asleep, or is on its way into \<open>sched\<close> without \<open>lk\<close>.\<close>

definition dozing :: "sw \<Rightarrow> nat \<Rightarrow> bool" where
  "dozing s i \<longleftrightarrow> pcs s i \<in> {WMark, WSched} \<or> pcs s i = Asleep \<and> sleeping s i"

text \<open>A waker whose scan has still to come to entry \<open>i\<close>.\<close>

definition will_wake :: "sw \<Rightarrow> nat \<Rightarrow> bool" where
  "will_wake s i \<longleftrightarrow> (\<exists>k p. p \<le> i \<and> (pcs s k = KScan p \<or> pcs s k = KHold p))"

definition lk_inv :: "sw \<Rightarrow> bool" where
  "lk_inv s \<longleftrightarrow> (\<forall>k. lk_by s = Some k \<longleftrightarrow> holds_lk (pcs s k))"

definition plk_inv :: "sw \<Rightarrow> bool" where
  "plk_inv s \<longleftrightarrow> (\<forall>k p. plk_by s p = Some k \<longleftrightarrow> holds_plk k (pcs s k) = Some p)"

definition pc_inv :: "sw \<Rightarrow> bool" where
  "pc_inv s \<longleftrightarrow> (\<forall>i. pcs s i \<noteq> Idle \<longrightarrow> i < NPROC) \<and> (\<forall>i. sleeping s i \<longrightarrow> pcs s i \<in> {WSched, Asleep})"

definition enter_inv :: "sw \<Rightarrow> bool" where
  "enter_inv s \<longleftrightarrow> (\<forall>i. pcs s i \<in> {WEnter, WLocked} \<longrightarrow> \<not> cond s)"

definition wake_inv :: "sw \<Rightarrow> bool" where
  "wake_inv s \<longleftrightarrow> (\<forall>i. dozing s i \<longrightarrow> cond s \<longrightarrow> will_wake s i)"

lemmas sw_simps = goto_def set_plk_def set_sleeping_def

text \<open>How a step changes the holder of a lock: not at all, taking it, or releasing it.\<close>

lemma lk_keep: "lk_inv s \<Longrightarrow> lk_by t = lk_by s \<Longrightarrow> pcs t = pcs s \<Longrightarrow> holds_lk c = holds_lk (pcs s i)
    \<Longrightarrow> lk_inv (goto i c t)"
  by (auto simp: lk_inv_def goto_def)

lemma lk_take: "lk_inv s \<Longrightarrow> lk_by s = None \<Longrightarrow> lk_by t = Some i \<Longrightarrow> pcs t = pcs s \<Longrightarrow> holds_lk c
    \<Longrightarrow> lk_inv (goto i c t)"
  by (auto simp: lk_inv_def goto_def)

lemma lk_drop: "lk_inv s \<Longrightarrow> holds_lk (pcs s i) \<Longrightarrow> lk_by t = None \<Longrightarrow> pcs t = pcs s \<Longrightarrow> \<not> holds_lk c
    \<Longrightarrow> lk_inv (goto i c t)"
  unfolding lk_inv_def goto_def by simp (metis option.inject)

lemma lk_step: "sw_step s s' \<Longrightarrow> lk_inv s \<Longrightarrow> lk_inv s'"
  by (erule sw_stepE; hypsubst;
      ((erule lk_keep, (simp add: set_plk_def set_sleeping_def; fail)+)
       | (erule lk_take, (simp; fail)+) | (erule lk_drop, (simp; fail)+)))

lemma lk_unique: "lk_inv s \<Longrightarrow> holds_lk (pcs s i) \<Longrightarrow> holds_lk (pcs s k) \<Longrightarrow> i = k"
  unfolding lk_inv_def by (metis option.inject)

lemma plk_keep: "plk_inv s \<Longrightarrow> plk_by t = plk_by s \<Longrightarrow> pcs t = pcs s \<Longrightarrow> holds_plk i c = holds_plk i (pcs s i)
    \<Longrightarrow> plk_inv (goto i c t)"
  by (auto simp: plk_inv_def goto_def)

lemma plk_take: "plk_inv s \<Longrightarrow> plk_by s p = None \<Longrightarrow> holds_plk i (pcs s i) = None \<Longrightarrow> plk_by t = plk_by s
    \<Longrightarrow> pcs t = pcs s \<Longrightarrow> holds_plk i c = Some p \<Longrightarrow> plk_inv (goto i c (set_plk p (Some i) t))"
  unfolding plk_inv_def goto_def set_plk_def by simp (metis option.inject option.distinct(1))

lemma plk_drop: "plk_inv s \<Longrightarrow> holds_plk i (pcs s i) = Some p \<Longrightarrow> plk_by t = plk_by s
    \<Longrightarrow> pcs t = pcs s \<Longrightarrow> holds_plk i c = None \<Longrightarrow> plk_inv (goto i c (set_plk p None t))"
  unfolding plk_inv_def goto_def set_plk_def by simp (metis option.inject option.distinct(1))

lemma plk_step: "sw_step s s' \<Longrightarrow> plk_inv s \<Longrightarrow> plk_inv s'"
  by (erule sw_stepE; hypsubst;
      ((erule plk_keep, (simp add: set_sleeping_def; fail)+) | (erule plk_take, (simp; fail)+)
       | (erule plk_drop, (simp add: set_sleeping_def; fail)+)))

lemma plk_unique: "plk_inv s \<Longrightarrow> holds_plk i (pcs s i) = Some p \<Longrightarrow> holds_plk k (pcs s k) = Some p \<Longrightarrow> i = k"
  unfolding plk_inv_def by (metis option.inject)

lemma pc_step:
  assumes "sw_step s s'" "pc_inv s" "plk_inv s"
  shows "pc_inv s'"
  using assms(1)
proof (cases rule: sw_step.cases)
  case (scan_wake i p)
  then show ?thesis using assms(2) by (auto simp: pc_inv_def sw_simps)
qed (use assms(2) in \<open>auto simp: pc_inv_def sw_simps\<close>)

lemma enter_step:
  assumes "sw_step s s'" "enter_inv s" "lk_inv s"
  shows "enter_inv s'"
  using assms(1)
proof (cases rule: sw_step.cases)
  case (set_cond i)
  have "pcs s k \<notin> {WEnter, WLocked}" if "k \<noteq> i" for k
    using lk_unique[OF assms(3), of i k] that set_cond(2) by auto
  then show ?thesis using set_cond by (auto simp: enter_inv_def sw_simps)
qed (use assms(2) in \<open>auto simp: enter_inv_def sw_simps\<close>)

text \<open>
  Steps that keep every scan and make nobody doze keep \<open>wake_inv\<close>; so does moving a scan past entries
  that do not doze.
\<close>

lemma wake_keep:
  assumes "wake_inv s" and "\<And>i. dozing t i \<Longrightarrow> cond t \<Longrightarrow> dozing s i \<and> cond s"
    and "\<And>k p. pcs s k = KScan p \<or> pcs s k = KHold p \<Longrightarrow> pcs t k = pcs s k"
  shows "wake_inv t"
  using assms unfolding wake_inv_def will_wake_def by metis

lemma wake_scan:
  assumes "wake_inv s" and "\<And>j. dozing t j \<Longrightarrow> cond t \<Longrightarrow> dozing s j \<and> cond s \<and> j \<noteq> p"
    and "pcs s i = KScan p \<or> pcs s i = KHold p" and "pcs t = (pcs s)(i := KScan (p + 1))"
  shows "wake_inv t"
  unfolding wake_inv_def
proof (intro allI impI)
  fix j assume d: "dozing t j" "cond t"
  then obtain k q where k: "q \<le> j" "pcs s k = KScan q \<or> pcs s k = KHold q"
    using assms(1,2) unfolding wake_inv_def will_wake_def by blast
  show "will_wake t j"
  proof (cases "k = i")
    case True
    then have "q = p" using k(2) assms(3) by auto
    then have "p + 1 \<le> j" using k(1) assms(2)[OF d] by auto
    then show ?thesis using assms(4) unfolding will_wake_def by (intro exI[of _ i] exI[of _ "p + 1"]) simp
  next
    case False
    then show ?thesis using k assms(4) unfolding will_wake_def by (intro exI[of _ k] exI[of _ q]) simp
  qed
qed

lemma wake_step:
  assumes "sw_step s s'" and inv: "wake_inv s" "enter_inv s" "pc_inv s" "plk_inv s"
  shows "wake_inv s'"
  using assms(1)
proof (cases rule: sw_step.cases)
  case (sleep_unlk i)
  then have "\<not> cond s'" using inv(2) by (auto simp: enter_inv_def sw_simps)
  then show ?thesis by (simp add: wake_inv_def)
next
  case (set_cond i)
  then have "will_wake s' j" for j
    unfolding will_wake_def by (intro exI[of _ i] exI[of _ 0]) (simp add: sw_simps)
  then show ?thesis by (simp add: wake_inv_def)
next
  case (scan_self i p)
  show ?thesis
    by (rule wake_scan[OF inv(1), of _ p i]) (use scan_self in \<open>auto simp: sw_simps dozing_def split: if_splits\<close>)
next
  case (scan_lock i p)
  show ?thesis unfolding wake_inv_def
  proof (intro allI impI)
    fix j assume "dozing s' j" "cond s'"
    then have "will_wake s j" using inv(1) scan_lock
      by (auto simp: wake_inv_def sw_simps dozing_def split: if_splits)
    then obtain k q where "q \<le> j" "pcs s k = KScan q \<or> pcs s k = KHold q" unfolding will_wake_def by blast
    then show "will_wake s' j" using scan_lock unfolding will_wake_def
      by (intro exI[of _ k] exI[of _ q]) (auto simp: sw_simps)
  qed
next
  case (scan_wake i p)
  have "\<not> dozing s' p"
  proof
    assume "dozing s' p"
    then have c: "pcs s' p \<in> {WMark, WSched}" using scan_wake by (auto simp: dozing_def sw_simps split: if_splits)
    have "p \<noteq> i" using c scan_wake by (auto simp: sw_simps)
    then have "holds_plk p (pcs s p) = Some p" using c scan_wake by (auto simp: sw_simps)
    then have "p = i" using plk_unique[OF inv(4), of p p i] scan_wake(2) by simp
    then show False using \<open>p \<noteq> i\<close> by simp
  qed
  then show ?thesis
    by (intro wake_scan[OF inv(1), of _ p i]) (use scan_wake in \<open>auto simp: sw_simps dozing_def split: if_splits\<close>)
next
  case (scan_done i p)
  show ?thesis unfolding wake_inv_def
  proof (intro allI impI)
    fix j assume d: "dozing s' j" "cond s'"
    then have dj: "dozing s j" "cond s" using scan_done by (auto simp: dozing_def sw_simps split: if_splits)
    then have "pcs s j \<noteq> Idle" by (auto simp: dozing_def)
    then have j: "j < NPROC" using inv(3) by (simp add: pc_inv_def)
    from dj obtain k q where k: "q \<le> j" "pcs s k = KScan q \<or> pcs s k = KHold q"
      using inv(1) unfolding wake_inv_def will_wake_def by blast
    then have "k \<noteq> i" using j scan_done by auto
    then show "will_wake s' j" using k scan_done unfolding will_wake_def
      by (intro exI[of _ k] exI[of _ q]) (auto simp: sw_simps)
  qed
qed (rule wake_keep[OF inv(1)]; auto simp: sw_simps dozing_def split: if_splits)+

definition sw_inv :: "sw \<Rightarrow> bool" where
  "sw_inv s \<longleftrightarrow> lk_inv s \<and> plk_inv s \<and> pc_inv s \<and> enter_inv s \<and> wake_inv s"

lemma sw_inv_step: "sw_step s s' \<Longrightarrow> sw_inv s \<Longrightarrow> sw_inv s'"
  using lk_step plk_step pc_step enter_step wake_step unfolding sw_inv_def by blast

lemma sw_inv_steps: "sw_step\<^sup>*\<^sup>* s s' \<Longrightarrow> sw_inv s \<Longrightarrow> sw_inv s'"
  by (induction rule: rtranclp_induct) (use sw_inv_step in blast)+

definition sw_start :: "bool \<Rightarrow> sw" where
  "sw_start c = \<lparr>lk_by = None, plk_by = (\<lambda>_. None), sleeping = (\<lambda>_. False), cond = c, pcs = (\<lambda>_. Idle)\<rparr>"

lemma sw_start_inv: "sw_inv (sw_start c)"
  by (simp add: sw_inv_def sw_start_def lk_inv_def plk_inv_def pc_inv_def enter_inv_def wake_inv_def dozing_def)

text \<open>
  C24: no wakeup is lost.  In every interleaving of processes that wait for a condition with
  \<open>sleep\<close> and processes that set it and call \<open>wakeup\<close>, whenever the condition holds and nobody is in the
  middle of its \<open>wakeup\<close>, no process is asleep or about to fall asleep on the channel.  Also at most
  one process is between \<open>acquire(lk)\<close> and \<open>release(lk)\<close>.
\<close>

theorem no_lost_wakeup:
  assumes "sw_step\<^sup>*\<^sup>* (sw_start c) s"
  shows "(cond s \<and> (\<forall>k p. pcs s k \<noteq> KScan p \<and> pcs s k \<noteq> KHold p) \<longrightarrow> (\<forall>i. \<not> dozing s i))
    \<and> (\<forall>i k. holds_lk (pcs s i) \<and> holds_lk (pcs s k) \<longrightarrow> i = k)"
proof -
  have inv: "sw_inv s" by (rule sw_inv_steps[OF assms sw_start_inv])
  then have "i = k" if "holds_lk (pcs s i)" "holds_lk (pcs s k)" for i k
    using lk_unique that unfolding sw_inv_def by blast
  then show ?thesis using inv unfolding sw_inv_def wake_inv_def will_wake_def by blast
qed

text \<open>A state in which the condition holds and process 1 is testing it.\<close>

definition testing :: sw where
  "testing = goto 1 WTest ((sw_start True)\<lparr>lk_by := Some 1\<rparr>)"

lemma testing_reached: "sw_step\<^sup>*\<^sup>* (sw_start True) testing"
  unfolding testing_def by (intro r_into_rtranclp sw_step.wait) (simp_all add: sw_start_def)

lemma testing_simps: "cond testing" "pcs testing k = (if k = 1 then WTest else Idle)"
  by (simp_all add: testing_def goto_def sw_start_def)

theorem no_lost_wakeup_witness: "cond testing \<and> pcs testing 1 = WTest \<and> (\<forall>i. \<not> dozing testing i)"
  using conjunct1[OF no_lost_wakeup[OF testing_reached]] by (simp add: testing_simps)

end
