(* ===== verification/SwProgress.thy ===== *)
theory SwProgress imports SleepWakeup begin

text \<open>
  Progress of \<open>sleep\<close> and \<open>wakeup\<close>: what has been started comes to an end.  A number, \<open>work\<close>, goes
  down with every step of a process that is under way, and when none of them can step they are all
  asleep, rightly.
\<close>

section \<open>Scans stay in the table\<close>

definition scan_inv :: "sw \<Rightarrow> bool" where
  "scan_inv s \<longleftrightarrow> (\<forall>k p. (pcs s k = KScan p \<longrightarrow> p \<le> NPROC) \<and> (pcs s k = KHold p \<longrightarrow> p < NPROC))"

lemma scan_step: "sw_step s s' \<Longrightarrow> scan_inv s \<Longrightarrow> scan_inv s'"
  by (erule sw_stepE; hypsubst; force simp: scan_inv_def sw_simps split: if_splits)

lemma scan_steps: "sw_step\<^sup>*\<^sup>* s s' \<Longrightarrow> scan_inv s \<Longrightarrow> scan_inv s'"
  by (induction rule: rtranclp_induct) (use scan_step in blast)+

section \<open>The work that is left\<close>

text \<open>
  The steps of a waiter until it is asleep or done; a scan counts ten times, for it may wake a waiter
  that then has up to eight more steps to take.
\<close>

fun rank :: "bool \<Rightarrow> sw_pc \<Rightarrow> nat" where
  "rank b Idle = 0"
| "rank b Asleep = (if b then 1 else 9)"
| "rank b WSched = (if b then 2 else 10)"
| "rank b WMark = 3"
| "rank b WLocked = 4"
| "rank b WEnter = 5"
| "rank b WTest = 6"
| "rank b WAgain = 7"
| "rank b WTidy = 8"
| "rank b (KHold p) = 10 * (2 * (NPROC - p))"
| "rank b (KScan p) = 10 * (2 * (NPROC - p) + 1)"
| "rank b KSet = 10 * (2 * NPROC + 2)"

definition work :: "sw \<Rightarrow> nat" where
  "work s = (\<Sum>i < NPROC. rank (sleeping s i) (pcs s i))"

text \<open>A step in which nobody starts anything.\<close>

definition sw_go :: "sw \<Rightarrow> sw \<Rightarrow> bool" where
  "sw_go s s' \<longleftrightarrow> sw_step s s' \<and> (\<forall>i. pcs s i = Idle \<longrightarrow> pcs s' i = Idle)"

lemma sum_less_1:
  fixes f g :: "nat \<Rightarrow> nat"
  assumes "i < N" and "\<And>j. j \<noteq> i \<Longrightarrow> g j = f j" and "g i < f i"
  shows "(\<Sum>j < N. g j) < (\<Sum>j < N. f j)"
proof (rule sum_strict_mono_ex1)
  show "\<forall>x \<in> {..<N}. g x \<le> f x" using assms(2,3) by (metis less_imp_le order_refl)
qed (use assms(1,3) in auto)

lemma sum_less_2:
  fixes f g :: "nat \<Rightarrow> nat"
  assumes "i < N" "p < N" "p \<noteq> i" and "\<And>j. j \<noteq> i \<Longrightarrow> j \<noteq> p \<Longrightarrow> g j = f j" and "g i + g p < f i + f p"
  shows "(\<Sum>j < N. g j) < (\<Sum>j < N. f j)"
proof -
  have s: "(\<Sum>j < N. h j) = h i + (h p + (\<Sum>j \<in> {..<N} - {i} - {p}. h j))" for h :: "nat \<Rightarrow> nat"
    using assms(1-3) by (simp add: sum.remove[of "{..<N}" i] sum.remove[of "{..<N} - {i}" p])
  have "(\<Sum>j \<in> {..<N} - {i} - {p}. g j) = (\<Sum>j \<in> {..<N} - {i} - {p}. f j)"
    by (rule sum.cong) (use assms(4) in auto)
  then show ?thesis using assms(5) unfolding s[of g] s[of f] by linarith
qed

text \<open>One process that is under way moves on.\<close>

lemma work_one:
  assumes "pc_inv s" "pcs s i \<noteq> Idle" "pcs t = pcs s" "\<And>j. j \<noteq> i \<Longrightarrow> sleeping t j = sleeping s j"
    and "rank (sleeping t i) c < rank (sleeping s i) (pcs s i)"
  shows "work (goto i c t) < work s"
  unfolding work_def by (rule sum_less_1[of i]) (use assms in \<open>auto simp: pc_inv_def goto_def\<close>)

lemma rank_wakes: "rank False c \<le> rank True c + 8"
  by (cases c) auto

lemma work_step:
  assumes go: "sw_go s s'" and inv: "pc_inv s" "scan_inv s"
  shows "work s' < work s"
proof -
  have st: "sw_step s s'" and idle: "\<And>i. pcs s i = Idle \<Longrightarrow> pcs s' i = Idle" using go by (auto simp: sw_go_def)
  have lt: "i < NPROC" if "pcs s i \<noteq> Idle" for i using inv(1) that by (simp add: pc_inv_def)
  show ?thesis using st
  proof (cases rule: sw_step.cases)
    case (wait i)
    then show ?thesis using idle[of i] by (simp add: sw_simps)
  next
    case (signal i)
    then show ?thesis using idle[of i] by (simp add: sw_simps)
  next
    case (scan_wake i p)
    have i: "i < NPROC" using lt[of i] scan_wake by simp
    have p: "p < NPROC" using inv(2) scan_wake by (auto simp: scan_inv_def)
    show ?thesis
    proof (cases "p = i")
      case True
      then show ?thesis unfolding work_def
        by (intro sum_less_1[OF i]) (use scan_wake p in \<open>auto simp: sw_simps\<close>)
    next
      case False
      have "rank False (pcs s p) \<le> rank (sleeping s p) (pcs s p) + 8"
        using rank_wakes[of "pcs s p"] by (cases "sleeping s p") auto
      then show ?thesis unfolding work_def
        by (intro sum_less_2[OF i p False]) (use scan_wake p False in \<open>auto simp: sw_simps\<close>)
    qed
  qed (hypsubst, rule work_one[OF inv(1)]; simp add: set_plk_def set_sleeping_def)+
qed

section \<open>Nobody is stuck\<close>

text \<open>Nothing is under way: everybody is idle, or is asleep and the condition does not hold.\<close>

definition quiet :: "sw \<Rightarrow> bool" where
  "quiet s \<longleftrightarrow> (\<forall>i. pcs s i = Idle \<or> pcs s i = Asleep \<and> sleeping s i \<and> \<not> cond s)"

lemma go: "sw_step s (goto i c t) \<Longrightarrow> pcs t = pcs s \<Longrightarrow> pcs s i \<noteq> Idle \<Longrightarrow> \<exists>t. sw_go s t"
  unfolding sw_go_def by (intro exI[of _ "goto i c t"]) (auto simp: goto_def)

lemmas pcs_simps = set_plk_def set_sleeping_def

text \<open>A program counter whose next step waits for nothing.\<close>

fun free_step :: "sw_pc \<Rightarrow> bool" where
  "free_step (KHold p) = True"
| "free_step c = (c \<in> {WTest, WLocked, WMark, WSched, WTidy, KSet})"

lemma free_go: "free_step (pcs s i) \<Longrightarrow> \<exists>t. sw_go s t"
proof (cases "pcs s i")
  case WTest
  then show ?thesis
    by (cases "cond s") (auto intro: go[OF test_true] go[OF test_false])
qed (auto simp: pcs_simps intro: go[OF sleep_unlk] go[OF sleep_mark] go[OF sleep_sched] go[OF tidy]
    go[OF set_cond] go[OF scan_wake])

lemma none_held: "plk_inv s \<Longrightarrow> \<forall>i. \<not> free_step (pcs s i) \<Longrightarrow> plk_by s p = None"
proof (rule ccontr)
  assume inv: "plk_inv s" and none: "\<forall>i. \<not> free_step (pcs s i)" and "plk_by s p \<noteq> None"
  then obtain k where "holds_plk k (pcs s k) = Some p" by (auto simp: plk_inv_def)
  with none show False by (cases "pcs s k") (auto dest: spec[of _ k])
qed

lemma scan_go:
  assumes "pcs s i = KScan p" "scan_inv s" "plk_by s p = None"
  shows "\<exists>t. sw_go s t"
proof -
  consider "p < NPROC" "p = i" | "p < NPROC" "p \<noteq> i" | "p = NPROC"
    using assms(1,2) unfolding scan_inv_def by fastforce
  then show ?thesis
    by cases (use assms in \<open>auto simp: pcs_simps intro: go[OF scan_self] go[OF scan_lock] go[OF scan_done]\<close>)
qed

lemma not_quiet_go:
  assumes "sw_inv s" "scan_inv s" "\<not> quiet s"
  shows "\<exists>t. sw_go s t"
proof (cases "\<exists>i. free_step (pcs s i)")
  case True
  then show ?thesis using free_go by blast
next
  case False
  have plk: "plk_by s p = None" for p using none_held assms(1) False by (auto simp: sw_inv_def)
  obtain i where i: "pcs s i \<noteq> Idle" "\<not> (pcs s i = Asleep \<and> sleeping s i \<and> \<not> cond s)"
    using assms(3) by (auto simp: quiet_def)
  have calm: "\<not> free_step (pcs s k)" for k using False by blast
  have scan: ?thesis if "pcs s k = KScan p" for k p using scan_go[OF that assms(2) plk] .
  have enter: ?thesis if "pcs s k = WEnter" for k
    by (rule go[OF sleep_plock[OF that plk]]) (simp_all add: that pcs_simps)
  have again: ?thesis if "pcs s k = WAgain"  "lk_by s = None" for k
    by (rule go[OF relock[OF that]]) (simp_all add: that)
  have woken: ?thesis if "pcs s i = Asleep" "\<not> sleeping s i"
    by (rule go[OF resume[OF that plk]]) (simp_all add: that pcs_simps)
  have doze: ?thesis if "dozing s i" "cond s"
  proof -
    have "will_wake s i" using assms(1) that by (simp add: sw_inv_def wake_inv_def)
    then obtain k p where "pcs s k = KScan p \<or> pcs s k = KHold p" unfolding will_wake_def by blast
    then show ?thesis using False scan by (metis free_step.simps(1))
  qed
  have held: ?thesis if "lk_by s = Some k" for k
  proof -
    have "holds_lk (pcs s k)" using assms(1) that unfolding sw_inv_def lk_inv_def by blast
    then show ?thesis using calm[of k] scan enter by (cases "pcs s k") auto
  qed
  show ?thesis
    using i calm[of i] scan enter again woken doze held
    by (cases "pcs s i"; cases "lk_by s") (auto simp: dozing_def)
qed

lemma go_keeps: "sw_go s s' \<Longrightarrow> sw_inv s \<and> scan_inv s \<Longrightarrow> sw_inv s' \<and> scan_inv s'"
  using sw_inv_step scan_step by (auto simp: sw_go_def)

lemma go_run: "(sw_go ^^ n) s s' \<Longrightarrow> sw_inv s \<and> scan_inv s \<Longrightarrow> (sw_inv s' \<and> scan_inv s') \<and> n + work s' \<le> work s"
proof (induction n arbitrary: s')
  case (Suc n)
  then obtain t where t: "(sw_go ^^ n) s t" "sw_go t s'" by auto
  have "(sw_inv t \<and> scan_inv t) \<and> n + work t \<le> work s" using Suc t(1) by blast
  moreover from this have "work s' < work t" using work_step[OF t(2)] by (simp add: sw_inv_def)
  ultimately show ?case using go_keeps[OF t(2)] by simp
qed simp

lemma rank_max: "rank b c \<le> 10 * (2 * NPROC + 2)"
  by (cases c) auto

lemma work_max: "work s \<le> NPROC * (10 * (2 * NPROC + 2))"
  unfolding work_def using sum_bounded_above[of "{..<NPROC}", OF rank_max] by simp

text \<open>
  C25: what has been started comes to an end.  From every reachable state of sleepers and wakers, a run
  in which nobody starts a new wait or a new wakeup has at most 83200 steps, and it can always go on until every
  process is idle, or is asleep and the condition does not hold: no process is ever stuck on a lock, and
  no process stays asleep while the condition holds.
\<close>

theorem sleepers_progress:
  assumes "sw_step\<^sup>*\<^sup>* (sw_start c) s" and "(sw_go ^^ n) s s'"
  shows "n \<le> NPROC * (10 * (2 * NPROC + 2)) \<and> (quiet s' \<or> (\<exists>t. sw_go s' t))"
proof -
  have "sw_inv s" using sw_inv_steps[OF assms(1) sw_start_inv] .
  moreover have "scan_inv s" using scan_steps[OF assms(1)] by (simp add: scan_inv_def sw_start_def)
  ultimately have "(sw_inv s' \<and> scan_inv s') \<and> n + work s' \<le> work s" using go_run[OF assms(2)] by blast
  then show ?thesis using not_quiet_go[of s'] work_max[of s] by auto
qed

theorem sleepers_progress_witness: "\<not> quiet testing \<and> (\<exists>t. sw_go testing t)"
proof -
  have "\<not> quiet testing" by (auto simp: quiet_def testing_simps)
  then show ?thesis using sleepers_progress[OF testing_reached, of 0 testing] by simp
qed

end
