(* ===== verification/Umalloc.thy ===== *)
theory Umalloc imports KPrelude begin

text \<open>
  The allocator of user programs, \<open>lib_core/libc/ulib/umalloc.c\<close>: a circular list of free blocks in
  the order of their addresses.  A block begins with a 16-byte header, the pointer to the next free
  block and the size in units of 16 bytes, header included.  \<open>hptr\<close> and \<open>hsize\<close> are the two fields as
  memory has them at every address, whether a header lies there or not.

  The loops follow pointers, so they need not end: \<open>None\<close> is not returning.  The lemmas show that on
  a list that only \<open>malloc\<close> and \<open>free\<close> have changed they do return.

  \<open>base\<close>, the header in the program's static data, is a parameter.  \<open>usz\<close> is the size of the process and
  \<open>uroom\<close> the size the kernel can let it grow to.
\<close>

section \<open>Memory and \<open>sbrk\<close>\<close>

record uheap =
  hptr :: "nat \<Rightarrow> nat"
  hsize :: "nat \<Rightarrow> u32"
  freep :: nat
  usz :: u32
  uroom :: nat

definition put_ptr :: "nat \<Rightarrow> nat \<Rightarrow> uheap \<Rightarrow> uheap" where
  "put_ptr a v h = h\<lparr>hptr := (hptr h)(a := v)\<rparr>"

definition put_size :: "nat \<Rightarrow> u32 \<Rightarrow> uheap \<Rightarrow> uheap" where
  "put_size a n h = h\<lparr>hsize := (hsize h)(a := n)\<rparr>"

text \<open>\<open>p + p->s.size\<close>: the end of the block at \<open>p\<close>.\<close>

definition bend :: "uheap \<Rightarrow> nat \<Rightarrow> nat" where
  "bend h p = p + 16 * unat (hsize h p)"

text \<open>
  The system call, with \<open>growproc\<close>: the new size is computed as a \<open>uint\<close>; a size that is not larger
  than the old one when it should grow, or not smaller when it should shrink, leaves the process as it
  is.  The old size is returned as an \<open>int\<close>.
\<close>

definition sbrk :: "int \<Rightarrow> uheap \<Rightarrow> int \<times> uheap" where
  "sbrk n h =
     (let addr = sint (usz h); new = usz h + of_int n in
      if n > 0 then
        (if new < usz h then (addr, h)
         else if unat new > uroom h then (-1, h)
         else (addr, h\<lparr>usz := new\<rparr>))
      else if n < 0 then (addr, if new < usz h then h\<lparr>usz := new\<rparr> else h)
      else (addr, h))"

section \<open>\<open>free\<close>\<close>

text \<open>The loop of \<open>free\<close>: the free block after which \<open>bp\<close> belongs.\<close>

partial_function (option) free_find :: "uheap \<Rightarrow> nat \<Rightarrow> nat \<Rightarrow> nat option" where
  "free_find h bp p =
     (if bp > p \<and> bp < hptr h p then Some p
      else if p \<ge> hptr h p \<and> (bp > p \<or> bp < hptr h p) then Some p
      else free_find h bp (hptr h p))"

definition join_next :: "nat \<Rightarrow> nat \<Rightarrow> uheap \<Rightarrow> uheap" where
  "join_next bp p h =
     (if bend h bp = hptr h p then
        (let h = put_size bp (hsize h bp + hsize h (hptr h p)) h in put_ptr bp (hptr h (hptr h p)) h)
      else put_ptr bp (hptr h p) h)"

definition join_prev :: "nat \<Rightarrow> nat \<Rightarrow> uheap \<Rightarrow> uheap" where
  "join_prev bp p h =
     (if bend h p = bp then
        (let h = put_size p (hsize h p + hsize h bp) h in put_ptr p (hptr h bp) h)
      else put_ptr p bp h)"

definition free :: "nat \<Rightarrow> uheap \<Rightarrow> uheap option" where
  "free ap h = do {
     let bp = ap - 16;
     p \<leftarrow> free_find h bp (freep h);
     Some ((join_prev bp p (join_next bp p h))\<lparr>freep := p\<rparr>)
   }"

section \<open>\<open>malloc\<close>\<close>

text \<open>How many units \<open>morecore\<close> asks the kernel for.\<close>

definition chunk :: "u32 \<Rightarrow> u32" where
  "chunk nunits =
     (let nu = (if nunits < 4096 then 4096 else nunits) in
      if nu mod nunits \<noteq> 0 then nu + (nunits - nu mod nunits) else nu)"

text \<open>
  The argument of \<open>sbrk\<close> is an \<open>int\<close>, the product before it an unsigned long; the result is turned into a
  pointer.
\<close>

definition morecore :: "u32 \<Rightarrow> uheap \<Rightarrow> (nat \<times> uheap) option" where
  "morecore nunits h =
     (let nu = chunk nunits;
          (r, h) = sbrk (sint (ucast ((ucast nu :: u64) * 16) :: u32)) h in
      if r = -1 then Some (0, h)
      else do {
        let hp = unat (of_int r :: u64);
        h \<leftarrow> free (hp + 16) (put_size hp nu h);
        Some (freep h, h)
      })"

text \<open>Taking \<open>nunits\<close> from the block \<open>p\<close>: all of it, or its tail.\<close>

definition take_block :: "u32 \<Rightarrow> nat \<Rightarrow> nat \<Rightarrow> uheap \<Rightarrow> nat \<times> uheap" where
  "take_block nunits p prevp h =
     (if hsize h p = nunits then (p + 16, (put_ptr prevp (hptr h p) h)\<lparr>freep := prevp\<rparr>)
      else
        (let h = put_size p (hsize h p - nunits) h;
             q = bend h p;
             h = put_size q nunits h
         in (q + 16, h\<lparr>freep := prevp\<rparr>)))"

partial_function (option) malloc_loop :: "u32 \<Rightarrow> nat \<Rightarrow> nat \<Rightarrow> uheap \<Rightarrow> (nat \<times> uheap) option" where
  "malloc_loop nunits p prevp h =
     (if hsize h p \<ge> nunits then Some (take_block nunits p prevp h)
      else if p = freep h then do {
        (q, h) \<leftarrow> morecore nunits h;
        if q = 0 then Some (0, h) else malloc_loop nunits (hptr h q) q h
      }
      else malloc_loop nunits (hptr h p) p h)"

definition units :: "u32 \<Rightarrow> u32" where
  "units nbytes = ucast (((ucast nbytes :: u64) + 16 - 1) div 16 + 1)"

definition malloc_init :: "nat \<Rightarrow> uheap \<Rightarrow> uheap" where
  "malloc_init base h = (if freep h = 0 then (put_size base 0 (put_ptr base base h))\<lparr>freep := base\<rparr> else h)"

definition malloc :: "nat \<Rightarrow> u32 \<Rightarrow> uheap \<Rightarrow> (nat \<times> uheap) option" where
  "malloc base nbytes h =
     (let h = malloc_init base h in malloc_loop (units nbytes) (hptr h (freep h)) (freep h) h)"

lemmas put_simps = put_ptr_def put_size_def

lemma put_sel [simp]:
  "hptr (put_ptr a v h) = (hptr h)(a := v)" "hsize (put_ptr a v h) = hsize h" "freep (put_ptr a v h) = freep h"
  "usz (put_ptr a v h) = usz h" "uroom (put_ptr a v h) = uroom h"
  "hptr (put_size a n h) = hptr h" "hsize (put_size a n h) = (hsize h)(a := n)" "freep (put_size a n h) = freep h"
  "usz (put_size a n h) = usz h" "uroom (put_size a n h) = uroom h"
  by (simp_all add: put_simps)

section \<open>The list of free blocks\<close>

text \<open>The elements of \<open>xs\<close> point to each other in turn, the last one to \<open>e\<close>, with gaps between the blocks.\<close>

fun links :: "uheap \<Rightarrow> nat list \<Rightarrow> nat \<Rightarrow> bool" where
  "links h [] e = True"
| "links h (x # xs) e \<longleftrightarrow> hptr h x = hd (xs @ [e]) \<and> (xs \<noteq> [] \<longrightarrow> bend h x < hd xs) \<and> links h xs e"

lemma links_append:
  "links h (us @ t # vs) e \<longleftrightarrow> links h us t \<and> (us \<noteq> [] \<longrightarrow> bend h (last us) < t) \<and> links h (t # vs) e"
  by (induction us) (auto simp: hd_append)

lemma links_cong: "(\<And>x. x \<in> set xs \<Longrightarrow> hptr h' x = hptr h x \<and> bend h' x = bend h x) \<Longrightarrow> links h' xs e = links h xs e"
  by (induction xs) auto

lemma bend_ge: "a \<le> bend h a"
  by (simp add: bend_def)

lemma links_sorted: "links h xs e \<Longrightarrow> sorted_wrt (\<lambda>a b. bend h a < b) xs"
proof (induction xs)
  case (Cons x xs)
  have "bend h x < b" if "b \<in> set xs" for b
    using Cons that by (cases xs) (auto dest: le_less_trans[OF bend_ge] intro: less_trans)
  then show ?case using Cons by simp
qed simp

lemma links_less: "links h xs e \<Longrightarrow> sorted_wrt (<) xs"
  by (drule links_sorted, erule sorted_wrt_mono_rel[rotated]) (metis bend_ge le_less_trans)

text \<open>The blocks at the addresses \<open>B\<close> do not overlap, and together are the memory \<open>M\<close>.\<close>

definition tiles :: "uheap \<Rightarrow> nat set \<Rightarrow> nat set \<Rightarrow> bool" where
  "tiles h B M \<longleftrightarrow> (\<forall>a \<in> B. 0 < hsize h a) \<and> (\<forall>a \<in> B. \<forall>b \<in> B. a < b \<longrightarrow> bend h a \<le> b)
     \<and> M = (\<Union>a \<in> B. {a ..< bend h a})"

lemma bend_put [simp]: "bend (put_ptr a v h) p = bend h p"
  "bend (put_size a n h) p = (if p = a then a + 16 * unat n else bend h p)"
  "bend (h\<lparr>freep := v\<rparr>) p = bend h p" "bend (h\<lparr>usz := w\<rparr>) p = bend h p"
  by (simp_all add: bend_def put_simps)

lemma tiles_cong: "(\<And>a. a \<in> B \<Longrightarrow> hsize h' a = hsize h a) \<Longrightarrow> tiles h' B M = tiles h B M"
  by (simp add: tiles_def bend_def)

lemma word_pos: "0 < (w :: u32) \<longleftrightarrow> 0 < unat w"
  by (simp add: word_less_nat_alt)

lemma tiles_bound: "tiles h B M \<Longrightarrow> M \<subseteq> {lo ..< hi} \<Longrightarrow> a \<in> B \<Longrightarrow> lo \<le> a \<and> a < bend h a \<and> bend h a \<le> hi"
proof -
  assume t: "tiles h B M" "M \<subseteq> {lo ..< hi}" "a \<in> B"
  then have "0 < unat (hsize h a)" by (simp add: tiles_def word_pos)
  then have l: "a < bend h a" by (simp add: bend_def)
  have "{a ..< bend h a} \<subseteq> M" using t by (auto simp: tiles_def)
  then have "{a ..< bend h a} \<subseteq> {lo ..< hi}" using t(2) by blast
  then show ?thesis using l by (auto dest: atLeastLessThan_subset_iff)
qed

lemma size_add:
  assumes "a + 16 * (unat (m :: u32) + unat n) < 2 ^ 32"
  shows "unat (m + n) = unat m + unat n"
  using assms by (intro unat_add_lem[THEN iffD1]) simp

text \<open>Two adjacent blocks become one, or one becomes two, or the kernel gives a new one.\<close>

lemma tiles_merge:
  assumes t: "tiles h B M" and "a \<in> B" "b \<in> B" "bend h a = b" and small: "bend h b < 2 ^ 32"
  shows "tiles (put_size a (hsize h a + hsize h b) h) (B - {b}) M"
proof -
  have u: "unat (hsize h a + hsize h b) = unat (hsize h a) + unat (hsize h b)"
    by (rule size_add[of a]) (use assms in \<open>simp add: bend_def\<close>)
  have pos: "0 < unat (hsize h a)" "0 < unat (hsize h b)"
    using assms(1-3) by (simp_all add: tiles_def word_pos)
  then have ab: "a < b" using assms(4) by (auto simp: bend_def)
  have e: "a + 16 * unat (hsize h a + hsize h b) = bend h b" using u assms(4) by (simp add: bend_def)
  let ?h = "put_size a (hsize h a + hsize h b) h"
  have "0 < hsize ?h c" if "c \<in> B - {b}" for c
    using t that u pos by (cases "c = a") (simp_all add: tiles_def word_pos)
  moreover have "bend ?h c \<le> d" if "c \<in> B - {b}" "d \<in> B - {b}" "c < d" for c d
  proof (cases "c = a")
    case True
    then have "b < d" using t that assms ab by (auto simp: tiles_def nat_less_le)
    then show ?thesis using True t that assms e by (auto simp: tiles_def)
  qed (use t that in \<open>auto simp: tiles_def\<close>)
  moreover have "(\<Union>c \<in> B - {b}. {c ..< bend ?h c}) = (\<Union>c \<in> B. {c ..< bend h c})"
  proof -
    have B: "B - {b} = insert a (B - {a, b})" "B = insert a (insert b (B - {a, b}))" using assms(2,3) ab by auto
    have "(\<Union>c \<in> B - {b}. {c ..< bend ?h c}) = {a ..< bend h b} \<union> (\<Union>c \<in> B - {a, b}. {c ..< bend h c})"
      by (subst B(1)) (use e in auto)
    moreover have "(\<Union>c \<in> B. {c ..< bend h c}) = {a ..< b} \<union> {b ..< bend h b} \<union> (\<Union>c \<in> B - {a, b}. {c ..< bend h c})"
      by (subst B(2)) (use assms(4) in auto)
    moreover have "{a ..< bend h b} = {a ..< b} \<union> {b ..< bend h b}" using ab bend_ge[of b h] by auto
    ultimately show ?thesis by simp
  qed
  ultimately show ?thesis using t by (simp add: tiles_def)
qed

lemma tiles_split:
  assumes t: "tiles h B M" and "a \<in> B" and n: "0 < n" "n < hsize h a"
  defines "q \<equiv> a + 16 * unat (hsize h a - n)"
  shows "tiles (put_size q n (put_size a (hsize h a - n) h)) (insert q B) M" and "q \<notin> B" and "a < q"
proof -
  have u: "unat (hsize h a - n) = unat (hsize h a) - unat n"
    using n by (intro unat_sub) simp
  have lt: "0 < unat n" "unat n < unat (hsize h a)" using n by (simp_all add: word_less_nat_alt)
  have aq: "a < q" "q + 16 * unat n = bend h a" using u lt by (simp_all add: q_def bend_def)
  let ?h = "put_size q n (put_size a (hsize h a - n) h)"
  have sep: "c = a \<or> bend h c \<le> a \<or> bend h a \<le> c" if "c \<in> B" for c
    using t that assms(2) unfolding tiles_def by (metis linorder_neqE_nat)
  have qb: "q < bend h a" using aq lt by simp
  have q: "q \<notin> B"
  proof
    assume "q \<in> B"
    then show False using sep[of q] aq(1) qb bend_ge[of q h] by auto
  qed
  show "q \<notin> B" "a < q" by fact+
  have b: "bend ?h q = bend h a" "bend ?h a = q" "\<And>c. c \<in> B \<Longrightarrow> c \<noteq> a \<Longrightarrow> bend ?h c = bend h c"
    using aq q by (auto simp: q_def)
  have "0 < hsize ?h c" if "c \<in> insert q B" for c
    using t that u lt q n by (cases "c = a") (auto simp: tiles_def word_pos)
  moreover have "bend ?h c \<le> d" if "c \<in> insert q B" "d \<in> insert q B" "c < d" for c d
  proof -
    consider "c = q" "d \<in> B" | "c = a" "d = q" | "c = a" "d \<in> B" | "c \<in> B" "c \<noteq> a" "d = q" | "c \<in> B" "c \<noteq> a" "d \<in> B"
      using \<open>c \<in> insert q B\<close> \<open>d \<in> insert q B\<close> \<open>c < d\<close> by auto
    then show ?thesis
    proof cases
      case 1 then show ?thesis using sep[of d] that(3) aq(1) b(1) bend_ge[of d h] by auto
    next
      case 2 then show ?thesis using b(2) by simp
    next
      case 3
      then have "q \<le> d" using t assms(2) that(3) qb by (fastforce simp: tiles_def)
      then show ?thesis unfolding 3(1) b(2) .
    next
      case 4 then show ?thesis using sep[of c] that(3) b(3) qb aq(1) by auto
    next
      case 5 then show ?thesis using t that(3) b(3) by (auto simp: tiles_def)
    qed
  qed
  moreover have "(\<Union>c \<in> insert q B. {c ..< bend ?h c}) = (\<Union>c \<in> B. {c ..< bend h c})"
  proof -
    have B: "insert q B = insert q (insert a (B - {a}))" "B = insert a (B - {a})" using assms(2) by auto
    have rest: "(\<Union>c \<in> B - {a}. {c ..< bend ?h c}) = (\<Union>c \<in> B - {a}. {c ..< bend h c})"
      by (intro SUP_cong refl) (simp only: b(3) Diff_iff singleton_iff simp_thms)
    have "(\<Union>c \<in> insert q B. {c ..< bend ?h c})
        = {q ..< bend h a} \<union> {a ..< q} \<union> (\<Union>c \<in> B - {a}. {c ..< bend h c})"
      unfolding B(1) UN_insert b(1,2) rest by (rule Un_assoc[symmetric])
    moreover have "(\<Union>c \<in> B. {c ..< bend h c}) = {a ..< bend h a} \<union> (\<Union>c \<in> B - {a}. {c ..< bend h c})"
      by (subst B(2)) auto
    moreover have "{a ..< bend h a} = {q ..< bend h a} \<union> {a ..< q}" using aq(1) qb by auto
    ultimately show ?thesis by simp
  qed
  ultimately show "tiles ?h (insert q B) M" using t by (simp add: tiles_def)
qed

lemma tiles_grow:
  assumes t: "tiles h B M" and "M \<subseteq> {lo ..< p}" and n: "0 < n"
  shows "tiles (put_size p n h) (insert p B) (M \<union> {p ..< p + 16 * unat n})" and "p \<notin> B"
proof -
  have b: "c < p \<and> bend h c \<le> p" if "c \<in> B" for c using tiles_bound[OF t assms(2) that] by simp
  then show "p \<notin> B" by auto
  then have s: "bend (put_size p n h) c = bend h c" "hsize (put_size p n h) c = hsize h c" if "c \<in> B" for c
    using that by auto
  have "bend (put_size p n h) c \<le> d" if "c \<in> insert p B" "d \<in> insert p B" "c < d" for c d
    using that s b t \<open>p \<notin> B\<close> by (fastforce simp: tiles_def simp del: bend_put put_sel)
  moreover have "(\<Union>c \<in> insert p B. {c ..< bend (put_size p n h) c}) = M \<union> {p ..< p + 16 * unat n}"
    using t s(1) by (auto simp: tiles_def simp del: bend_put(2)) (simp_all add: bend_def)
  ultimately show "tiles (put_size p n h) (insert p B) (M \<union> {p ..< p + 16 * unat n})"
    using t n s(2) unfolding tiles_def by auto
qed

text \<open>The free blocks \<open>xs\<close>, with \<open>base\<close> in front, and the blocks \<open>L\<close> in use share the memory \<open>M\<close>.\<close>

definition heap_ok :: "nat \<Rightarrow> uheap \<Rightarrow> nat list \<Rightarrow> nat set \<Rightarrow> nat set \<Rightarrow> bool" where
  "heap_ok base h xs L M \<longleftrightarrow> xs \<noteq> [] \<and> hd xs = base \<and> links h xs base \<and> hsize h base = 0 \<and> freep h \<in> set xs
     \<and> tiles h (set xs - {base} \<union> L) M \<and> set xs \<inter> L = {} \<and> M \<subseteq> {base + 16 ..< unat (usz h)}
     \<and> 0 < base \<and> base + 16 \<le> unat (usz h) \<and> unat (usz h) \<le> uroom h \<and> uroom h < 2 ^ 31"

lemma heap_blocks: "heap_ok base h xs L M \<Longrightarrow> a \<in> set xs - {base} \<union> L
    \<Longrightarrow> base + 16 \<le> a \<and> a < bend h a \<and> bend h a \<le> unat (usz h) \<and> unat (usz h) < 2 ^ 31"
  unfolding heap_ok_def using tiles_bound by fastforce

section \<open>\<open>free\<close> finds the place\<close>

lemma split_sorted:
  "sorted_wrt (<) (x # xs) \<Longrightarrow> x < b \<Longrightarrow> b \<notin> set xs
    \<Longrightarrow> \<exists>us t vs. x # xs = us @ t # vs \<and> t < (b :: nat) \<and> (\<forall>v \<in> set vs. b < v)"
proof (induction xs arbitrary: x)
  case (Cons y ys)
  show ?case
  proof (cases "y < b")
    case True
    then obtain us t vs where "y # ys = us @ t # vs" "t < b" "\<forall>v \<in> set vs. b < v"
      using Cons.IH[of y] Cons.prems by auto
    then show ?thesis by (intro exI[of _ "x # us"] exI[of _ t] exI[of _ vs]) simp
  next
    case False
    then have "\<forall>v \<in> set (y # ys). b < v" using Cons.prems by auto
    then show ?thesis using Cons.prems by (intro exI[of _ "[]"] exI[of _ x] exI[of _ "y # ys"]) simp
  qed
next
  case Nil
  then show ?case by (intro exI[of _ "[]"] exI[of _ x]) simp
qed

lemma free_find_stop: "links h (us @ t # vs) base \<Longrightarrow> t < b \<Longrightarrow> \<forall>v \<in> set vs. b < v \<Longrightarrow> base \<le> t \<Longrightarrow> free_find h b t = Some t"
  by (subst free_find.simps) (cases vs; simp add: links_append)

lemma free_find_skip: "hptr h p = q \<Longrightarrow> p < b \<and> p < q \<and> q < b \<or> b < p \<and> p < q \<or> b < p \<and> q < b \<Longrightarrow> free_find h b p = free_find h b q"
  by (subst free_find.simps) auto

lemma free_find_up:
  "links h (us @ t # vs) base \<Longrightarrow> t < b \<Longrightarrow> \<forall>v \<in> set vs. b < v \<Longrightarrow> base \<le> t \<Longrightarrow> us \<noteq> [] \<Longrightarrow>
   free_find h b (hd us) = Some t"
proof (induction us)
  case (Cons u us)
  have s: "sorted_wrt (<) (u # us @ t # vs)" using links_less[OF Cons.prems(1)] by simp
  have n: "hptr h u = hd (us @ [t])" using Cons.prems(1) by (simp add: hd_append)
  then have "free_find h b u = free_find h b (hd (us @ [t]))"
    by (intro free_find_skip) (use n s Cons.prems(2) in \<open>cases us; auto\<close>)+
  also have "\<dots> = Some t"
  proof (cases "us = []")
    case True
    then show ?thesis using free_find_stop[of h "[u]" t vs base b] Cons.prems by simp
  next
    case False
    then show ?thesis using Cons by simp
  qed
  finally show ?case by simp
qed simp

text \<open>From a block above \<open>b\<close> the loop goes up to the last block and from there to \<open>base\<close>.\<close>

lemma free_find_round: "links h xs base \<Longrightarrow> \<forall>v \<in> set xs. b < v \<Longrightarrow> xs \<noteq> [] \<Longrightarrow> base < b
    \<Longrightarrow> free_find h b (hd xs) = free_find h b base"
proof (induction xs)
  case (Cons x xs)
  have s: "sorted_wrt (<) (x # xs)" using links_less[OF Cons.prems(1)] .
  have "free_find h b x = free_find h b (hd (xs @ [base]))"
    by (rule free_find_skip) (use Cons.prems s in \<open>cases xs; auto\<close>)+
  then show ?case using Cons by (cases xs) auto
qed simp

lemma free_find_at:
  assumes l: "links h (us @ t # vs) base" and hd: "hd (us @ [t]) = base"
    and b: "t < b" "\<forall>v \<in> set vs. b < v" and p: "p \<in> set (us @ t # vs)"
  shows "free_find h b p = Some t"
proof -
  have le: "base \<le> t" using links_less[OF l] hd by (cases us) auto
  have up: "free_find h b x = Some t" if xs: "us @ [t] = ws @ x # ys" for x ws ys
  proof (cases "ys = []")
    case True
    then show ?thesis using xs free_find_stop[OF l b le] by simp
  next
    case False
    then obtain zs where z: "ys = zs @ [t]" "us = ws @ x # zs"
      using xs by (cases ys rule: rev_cases) auto
    then have "links h ((x # zs) @ t # vs) base"
      using l links_append[of h ws x "zs @ t # vs" base] by simp
    then show ?thesis using free_find_up[of h "x # zs" t vs base b] b le by simp
  qed
  show ?thesis
  proof (cases "p \<in> set (us @ [t])")
    case True
    then show ?thesis using up by (metis split_list)
  next
    case False
    then obtain ws zs where z: "vs = ws @ p # zs" using p by (auto dest: split_list)
    then have "links h (p # zs) base"
      using l links_append[of h "us @ t # ws" p zs base] by simp
    then have "free_find h b p = free_find h b base"
      using free_find_round[of h "p # zs" base b] z b le by simp
    also have "\<dots> = Some t" using up[of "[]" base "tl (us @ [t])"] hd by (cases us) auto
    finally show ?thesis .
  qed
qed

section \<open>\<open>free\<close> keeps the list\<close>

text \<open>Joining \<open>bp\<close> with the block behind it: the list from \<open>bp\<close> on, and the rest as it was.\<close>

lemma join_next_ok:
  assumes l: "links h (t # vs) base" and tl: "tiles h B M" and v: "\<forall>v \<in> set vs. bp < v \<and> v \<in> B"
    and bp: "bp \<in> B" "t < bp" "base < bp" "\<forall>b \<in> B. bend h b < 2 ^ 31"
  defines "h' \<equiv> join_next bp t h"
  shows "\<exists>vs'. links h' (bp # vs') base \<and> tiles h' (B - (set vs - set vs')) M \<and> set vs' \<subseteq> set vs \<and> hsize h bp \<le> hsize h' bp"
    and "\<And>x. x \<noteq> bp \<Longrightarrow> hptr h' x = hptr h x \<and> hsize h' x = hsize h x"
    and "freep h' = freep h" "usz h' = usz h" "uroom h' = uroom h"
proof -
  show "\<And>x. x \<noteq> bp \<Longrightarrow> hptr h' x = hptr h x \<and> hsize h' x = hsize h x"
    and "freep h' = freep h" "usz h' = usz h" "uroom h' = uroom h"
    by (simp_all add: h'_def join_next_def Let_def)
  have nv: "hptr h t = hd (vs @ [base])" using l by simp
  have dist: "bp \<notin> set vs" using v by auto
  show "\<exists>vs'. links h' (bp # vs') base \<and> tiles h' (B - (set vs - set vs')) M \<and> set vs' \<subseteq> set vs \<and> hsize h bp \<le> hsize h' bp"
  proof (cases "bend h bp = hptr h t")
    case True
    have "bp < bend h bp" using tl bp(1) by (simp add: tiles_def bend_def word_pos)
    then obtain v ws where vs: "vs = v # ws" using True nv bp(3) by (cases vs) auto
    then have vb: "v \<in> B" "bend h bp = v" "hptr h t = v" using v True nv by auto
    have bb: "bend h v < 2 ^ 32" using bp(4) vb(1) by fastforce
    have e: "h' = put_ptr bp (hptr h v) (put_size bp (hsize h bp + hsize h v) h)"
      using True vb by (simp add: h'_def join_next_def Let_def)
    have u: "unat (hsize h bp + hsize h v) = unat (hsize h bp) + unat (hsize h v)"
      by (rule size_add[of bp]) (use vb bb in \<open>simp add: bend_def\<close>)
    have t': "tiles h' (B - {v}) M"
      unfolding e using tiles_merge[OF tl bp(1) vb(1,2) bb] by (subst tiles_cong[of _ _ "put_size bp (hsize h bp + hsize h v) h"]) auto
    have "bend h' bp = bend h v" using vb(2) u by (simp add: e bend_def)
    moreover have "links h' ws base" using l vs dist by (subst links_cong[of _ h' h]) (auto simp: e)
    ultimately have "links h' (bp # ws) base" using l vs by (auto simp: e)
    moreover have "set vs - set ws = {v}" using links_less[OF l] vs by auto
    moreover have "hsize h bp \<le> hsize h' bp" using u by (simp add: e word_le_nat_alt)
    ultimately show ?thesis using t' vs by (intro exI[of _ ws]) (auto simp: Diff_eq)
  next
    case False
    have e: "h' = put_ptr bp (hptr h t) h" using False by (simp add: h'_def join_next_def)
    have "bend h bp < hd vs" if ne: "vs \<noteq> []"
    proof -
      have "bp < hd vs" "hd vs \<in> B" using v that by (cases vs; simp)+
      then have "bend h bp \<le> hd vs" using tl bp(1) by (simp add: tiles_def)
      then show ?thesis using False nv that by (cases vs) auto
    qed
    moreover have "links h' vs base" using l dist by (subst links_cong[of _ h' h]) (auto simp: e)
    ultimately have "links h' (bp # vs) base" using nv by (simp add: e)
    moreover have "tiles h' B M" using tl by (subst tiles_cong[of _ h' h]) (auto simp: e)
    moreover have "hsize h' bp = hsize h bp" by (simp add: e)
    ultimately show ?thesis by (intro exI[of _ vs]) auto
  qed
qed

lemma join_prev_ok:
  assumes l: "links h us t" "us \<noteq> [] \<longrightarrow> bend h (last us) < t" "links h (bp # vs) base"
    and tl: "tiles h B M" and bp: "bp \<in> B" "t < bp" "bp \<notin> set us" "t \<notin> set vs" "\<forall>v \<in> set vs. bp < v"
    and t: "t \<in> B \<or> hsize h t = 0" "t \<notin> set us" and bound: "bend h bp < 2 ^ 31" "\<forall>b \<in> B. b < bp \<longrightarrow> bend h b \<le> bp" "bend h t \<le> bp"
  defines "h' \<equiv> join_prev bp t h"
  shows "\<exists>ws. links h' (us @ t # ws) base \<and> (ws = vs \<and> tiles h' (B - {bp}) M \<and> hsize h bp \<le> hsize h' t \<and> t \<in> B
      \<or> ws = bp # vs \<and> tiles h' B M \<and> hsize h' = hsize h)"
    and "\<And>x. x \<noteq> t \<Longrightarrow> hptr h' x = hptr h x \<and> hsize h' x = hsize h x" and "t \<notin> B \<Longrightarrow> hsize h' t = hsize h t"
    and "freep h' = freep h" "usz h' = usz h" "uroom h' = uroom h"
proof -
  show "\<And>x. x \<noteq> t \<Longrightarrow> hptr h' x = hptr h x \<and> hsize h' x = hsize h x"
    and "freep h' = freep h" "usz h' = usz h" "uroom h' = uroom h"
    by (simp_all add: h'_def join_prev_def Let_def)
  have tb: "t \<in> B" if "bend h t = bp" using that t(1) bp(2) by (auto simp: bend_def)
  then show "t \<notin> B \<Longrightarrow> hsize h' t = hsize h t" by (auto simp: h'_def join_prev_def)
  have pre: "links h' us t \<and> (us \<noteq> [] \<longrightarrow> bend h' (last us) < t)" if "\<And>x. x \<noteq> t \<Longrightarrow> hptr h' x = hptr h x \<and> hsize h' x = hsize h x"
  proof -
    have b: "bend h' x = bend h x" if "x \<noteq> t" for x using \<open>\<And>x. x \<noteq> t \<Longrightarrow> hptr h' x = hptr h x \<and> hsize h' x = hsize h x\<close> that
      by (simp add: bend_def)
    have "links h' us t = links h us t" by (rule links_cong) (use that b t(2) in metis)
    moreover have "us \<noteq> [] \<Longrightarrow> bend h' (last us) = bend h (last us)" using b t(2) by (metis last_in_set)
    ultimately show ?thesis using l by simp
  qed
  show "\<exists>ws. links h' (us @ t # ws) base \<and> (ws = vs \<and> tiles h' (B - {bp}) M \<and> hsize h bp \<le> hsize h' t \<and> t \<in> B
      \<or> ws = bp # vs \<and> tiles h' B M \<and> hsize h' = hsize h)"
  proof (cases "bend h t = bp")
    case True
    have bb: "bend h bp < 2 ^ 32" using bound(1) by simp
    have e: "h' = put_ptr t (hptr h bp) (put_size t (hsize h t + hsize h bp) h)"
      using True bp(2) by (simp add: h'_def join_prev_def Let_def)
    have u: "unat (hsize h t + hsize h bp) = unat (hsize h t) + unat (hsize h bp)"
      by (rule size_add[of t]) (use True bb in \<open>simp add: bend_def\<close>)
    have t': "tiles h' (B - {bp}) M" unfolding e using tiles_merge[OF tl tb[OF True] bp(1) True bb]
      by (subst tiles_cong[of _ _ "put_size t (hsize h t + hsize h bp) h"]) auto
    have "bend h' t = bend h bp" using True u by (simp add: e bend_def)
    moreover have "links h' vs base" using l(3) bp(4) by (subst links_cong[of _ h' h]) (auto simp: e)
    ultimately have "links h' (t # vs) base" using l(3) bp(2) by (auto simp: e)
    moreover have "hsize h bp \<le> hsize h' t" using u by (simp add: e word_le_nat_alt)
    ultimately show ?thesis using t' tb[OF True] pre by (intro exI[of _ vs]) (auto simp: links_append e)
  next
    case False
    have e: "h' = put_ptr t bp h" using False by (simp add: h'_def join_prev_def)
    have "bend h t < bp" using bound(3) False by simp
    moreover have "links h' (bp # vs) base" using l(3) bp(2,4) by (subst links_cong[of _ h' h]) (auto simp: e)
    ultimately have "links h' (t # bp # vs) base" by (simp add: e)
    moreover have "tiles h' B M" using tl by (subst tiles_cong[of _ h' h]) (auto simp: e)
    ultimately show ?thesis using pre by (intro exI[of _ "bp # vs"]) (auto simp: links_append e)
  qed
qed

text \<open>
  \<open>free\<close> of a block in use returns, and moves the block from \<open>L\<close> to the free list, where it is part of
  some block.
\<close>

lemma free_block:
  assumes ok: "heap_ok base h xs L M" and bp: "bp \<in> L"
  shows "\<exists>h' ys. free (bp + 16) h = Some h' \<and> heap_ok base h' ys (L - {bp}) M \<and> usz h' = usz h \<and> uroom h' = uroom h
    \<and> (\<exists>x \<in> set ys. hsize h bp \<le> hsize h' x) \<and> (\<forall>a \<in> L - {bp}. hsize h' a = hsize h a)"
proof -
  let ?B = "set xs - {base} \<union> L"
  have l: "links h xs base" and hd: "xs \<noteq> []" "hd xs = base" and z: "hsize h base = 0" and f: "freep h \<in> set xs"
    and tl: "tiles h ?B M" and dis: "set xs \<inter> L = {}" and M: "M \<subseteq> {base + 16 ..< unat (usz h)}" and b0: "0 < base"
    and sz: "base + 16 \<le> unat (usz h)" "unat (usz h) \<le> uroom h" "uroom h < 2 ^ 31" using ok by (simp_all add: heap_ok_def)
  have blk: "base + 16 \<le> a \<and> a < bend h a \<and> bend h a \<le> unat (usz h) \<and> unat (usz h) < 2 ^ 31" if "a \<in> ?B" for a
    by (rule heap_blocks[OF ok that])
  have bpB: "bp \<in> ?B" using bp by blast
  have gt: "base < bp" using blk[OF bpB] by linarith
  have nx: "bp \<notin> set xs" using bp dis by blast
  have srt: "sorted_wrt (<) xs" by (rule links_less[OF l])
  obtain us t vs where xs: "xs = us @ t # vs" and t: "t < bp" and vs: "\<forall>v \<in> set vs. bp < v"
    using split_sorted[of "hd xs" "tl xs" bp] hd srt gt nx by (cases xs) auto
  have le: "base \<le> t" using srt hd xs by (cases us) auto
  have hdt: "hd (us @ [t]) = base" using hd xs by (cases us) auto
  have find: "free_find h bp (freep h) = Some t"
    using free_find_at[OF l[unfolded xs] hdt t vs f[unfolded xs]] .
  have l': "links h us t" "us \<noteq> [] \<longrightarrow> bend h (last us) < t" "links h (t # vs) base"
    using l xs links_append by auto
  have vB: "\<forall>v \<in> set vs. bp < v \<and> v \<in> ?B" using vs xs gt by auto
  have bB: "\<forall>b \<in> ?B. bend h b < 2 ^ 31" using blk by fastforce
  define h1 where "h1 = join_next bp t h"
  note n = join_next_ok[OF l'(3) tl vB bpB t gt bB, folded h1_def]
  from n(1) obtain ws where w: "links h1 (bp # ws) base" "tiles h1 (?B - (set vs - set ws)) M" "set ws \<subseteq> set vs" "hsize h bp \<le> hsize h1 bp"
    by blast
  let ?B1 = "?B - (set vs - set ws)"
  have ne: "u \<noteq> bp" if "u \<in> set us \<union> {t}" for u using that nx xs by auto
  have same: "hptr h1 u = hptr h u" "hsize h1 u = hsize h u" "bend h1 u = bend h u" if "u \<noteq> bp" for u
    using n(2)[OF that] by (simp_all add: bend_def)
  have l1: "links h1 us t" using l'(1) by (subst links_cong[of _ h1 h]) (auto simp: same ne)
  have g1: "us \<noteq> [] \<longrightarrow> bend h1 (last us) < t" using l'(2) same ne by auto
  have d: "bp \<notin> set us" "t \<notin> set vs" "t \<notin> set us" using nx srt xs by (auto simp: sorted_wrt_append)
  have M1: "M \<subseteq> {base + 16 ..< unat (usz h1)}" using M n(4) by simp
  have bp1: "bp \<in> ?B1" using bpB vs by auto
  have t1: "t \<in> ?B1 \<or> hsize h1 t = 0" using z same ne d xs by (cases "t = base") auto
  have bnd: "bend h1 bp < 2 ^ 31" using tiles_bound[OF w(2) M1 bp1] sz n(4) by simp
  have sep: "\<forall>b \<in> ?B1. b < bp \<longrightarrow> bend h1 b \<le> bp" using w(2) bp1 by (auto simp: tiles_def)
  have tb: "bend h1 t \<le> bp" using t1 sep t by (auto simp: bend_def)
  define h2 where "h2 = join_prev bp t h1"
  have tws: "t \<notin> set ws" "\<forall>v \<in> set ws. bp < v" using d w(3) vs by auto
  note p = join_prev_ok[OF l1 g1 w(1) w(2) bp1 t d(1) tws t1 d(3) bnd sep tb, folded h2_def]
  from p(1) obtain ys where y: "links h2 (us @ t # ys) base"
    "ys = ws \<and> tiles h2 (?B1 - {bp}) M \<and> hsize h1 bp \<le> hsize h2 t \<and> t \<in> ?B1
      \<or> ys = bp # ws \<and> tiles h2 ?B1 M \<and> hsize h2 = hsize h1" by blast
  let ?zs = "us @ t # ys"
  have bL: "base \<notin> L" using heap_blocks[OF ok, of base] by auto
  have dv: "set vs \<inter> (set us \<union> {t}) = {}" using srt xs by (auto simp: sorted_wrt_append)
  have base: "base \<in> set us \<union> {t}" using hdt by (cases us) auto
  have sets: "set ?zs - {base} \<union> (L - {bp}) = (if ys = ws then ?B1 - {bp} else ?B1)"
    using y(2) xs bp dis dv w(3) base gt nx by auto
  have "tiles h2 (set ?zs - {base} \<union> (L - {bp})) M" unfolding sets using y(2) by auto
  moreover have "hsize h2 base = 0"
    using p(2,3) z same gt base bL y(2) ne by (cases "base = t") auto
  moreover have "set ?zs \<inter> (L - {bp}) = {}" using y(2) dis xs w(3) by auto
  moreover have "hd ?zs = base" using hdt by (cases us) auto
  ultimately have "heap_ok base (h2\<lparr>freep := t\<rparr>) ?zs (L - {bp}) M"
    using y(1) M1 b0 sz n p(4,5,6) unfolding heap_ok_def
    by (simp add: links_cong[of _ "h2\<lparr>freep := t\<rparr>" h2] tiles_cong[of _ "h2\<lparr>freep := t\<rparr>" h2])
  moreover have "free (bp + 16) h = Some (h2\<lparr>freep := t\<rparr>)" by (simp add: free_def find h1_def h2_def)
  moreover have "\<exists>x \<in> set ?zs. hsize h bp \<le> hsize h2 x" using y(2) w(4) by auto
  moreover have "\<forall>a \<in> L - {bp}. hsize h2 a = hsize h a" using p(2) same dis xs by fastforce
  ultimately show ?thesis
    using n p(5,6) by (intro exI[of _ "h2\<lparr>freep := t\<rparr>"] exI[of _ ?zs]) simp
qed

section \<open>\<open>malloc\<close> finds a block\<close>

lemma sint_small: "unat (w :: u32) < 2 ^ 31 \<Longrightarrow> sint w = int (unat w)"
proof -
  assume "unat w < 2 ^ 31"
  then have "int (unat w) < int (2 ^ 31)" by (simp only: of_nat_less_iff)
  then have "uint w < 2 ^ 31" unfolding uint_nat[symmetric] by simp
  then have "signed_take_bit 31 (uint w) = uint w"
    using uint_ge_0[of w] by (intro signed_take_bit_int_eq_self) linarith+
  then show ?thesis by (simp add: sint_uint)
qed

lemma sbrk_grow:
  assumes "unat (usz h) < 2 ^ 31" "0 < n" "n < 2 ^ 31"
  shows "sbrk (int n) h =
    (if unat (usz h) + n \<le> uroom h then (int (unat (usz h)), h\<lparr>usz := usz h + of_nat n\<rparr>) else (-1, h))"
proof -
  have n: "unat (of_nat n :: u32) = n" using assms(3) by (simp add: unsigned_of_nat take_bit_nat_eq_self)
  have "unat (usz h + of_nat n) = unat (usz h) + n"
    using assms n by (subst unat_add_lem[THEN iffD1]) auto
  then show ?thesis using assms(2) sint_small[OF assms(1)] by (simp add: sbrk_def Let_def word_less_nat_alt)
qed

lemma chunk_ok:
  assumes "0 < n" "unat n < 2 ^ 27"
  shows "n \<le> chunk n" and "unat (chunk n) < 2 ^ 27"
proof -
  have m: "x mod n < n" for x using assms(1) by (rule word_mod_less_divisor)
  have "n \<le> chunk n \<and> unat (chunk n) < 2 ^ 27"
  proof (cases "n < 4096")
    case True
    let ?k = "n - 4096 mod n"
    have k: "unat ?k \<le> unat n" using m[of 4096] by (simp add: word_le_nat_alt[symmetric] word_sub_le)
    have "unat (4096 + ?k) = 4096 + unat ?k"
      using k True by (subst unat_add_lem[THEN iffD1]) (auto simp: word_less_nat_alt)
    then show ?thesis
      using True k by (auto simp: chunk_def Let_def word_le_nat_alt word_less_nat_alt)
  next
    case False
    have "n mod n = 0" by simp
    then show ?thesis using False assms(2) by (simp add: chunk_def)
  qed
  then show "n \<le> chunk n" and "unat (chunk n) < 2 ^ 27" by blast+
qed

lemma sbrk_arg: "unat (nu :: u32) < 2 ^ 27 \<Longrightarrow> sint (ucast ((ucast nu :: u64) * 16) :: u32) = int (16 * unat nu)"
proof -
  assume n: "unat nu < 2 ^ 27"
  have "unat ((ucast nu :: u64) * 16) = 16 * unat nu"
    using n by (subst unat_mult_lem[THEN iffD1]) (simp_all add: unat_up)
  then have "unat (ucast ((ucast nu :: u64) * 16) :: u32) = 16 * unat nu"
    using n by (simp add: unsigned_ucast_eq take_bit_nat_eq_self)
  then show ?thesis using n by (subst sint_small) auto
qed

lemma morecore_ok:
  assumes ok: "heap_ok base h xs L M" and n: "0 < n" "unat n < 2 ^ 27"
  shows "\<exists>r h'. morecore n h = Some (r, h') \<and> (r = 0 \<and> h' = h
    \<or> r = freep h' \<and> r \<noteq> 0 \<and> (\<exists>ys. heap_ok base h' ys L (M \<union> {unat (usz h) ..< unat (usz h')})
        \<and> (\<exists>x \<in> set ys. n \<le> hsize h' x)) \<and> (\<forall>a \<in> L. hsize h' a = hsize h a))"
proof -
  let ?nu = "chunk n" and ?p = "unat (usz h)"
  note c = chunk_ok[OF n]
  have sz: "base + 16 \<le> ?p" "?p < 2 ^ 31" "?p \<le> uroom h" "uroom h < 2 ^ 31" using ok by (auto simp: heap_ok_def)
  have nz: "0 < ?nu" using n(1) c(1) by simp
  then have pos: "0 < unat ?nu" by (simp add: word_pos)
  have sb: "sbrk (int (16 * unat ?nu)) h =
    (if ?p + 16 * unat ?nu \<le> uroom h then (int ?p, h\<lparr>usz := usz h + of_nat (16 * unat ?nu)\<rparr>) else (-1, h))"
    by (rule sbrk_grow[OF sz(2)]) (use pos c(2) in auto)
  show ?thesis
  proof (cases "?p + 16 * unat ?nu \<le> uroom h")
    case False
    then show ?thesis using sb by (simp add: morecore_def sbrk_arg[OF c(2)])
  next
    case True
    let ?h = "put_size ?p ?nu (h\<lparr>usz := usz h + of_nat (16 * unat ?nu)\<rparr>)"
    have pp: "unat (of_int (int ?p) :: u64) = ?p" using sz(2) by (simp add: unat_up)
    have ge: "uint (usz h) \<noteq> -1" using uint_ge_0[of "usz h"] by linarith
    have m: "morecore n h = do { h \<leftarrow> free (?p + 16) ?h; Some (freep h, h) }"
      using sb True pp ge by (simp add: morecore_def sbrk_arg[OF c(2)] Let_def)
    have "unat (of_nat (16 * unat ?nu) :: u32) = 16 * unat ?nu"
      using c(2) by (simp only: unsigned_of_nat) (simp add: take_bit_nat_eq_self)
    then have us: "unat (usz ?h) = ?p + 16 * unat ?nu"
      using True sz by (simp, subst unat_add_lem[THEN iffD1]) simp_all
    have Mb: "M \<subseteq> {base + 16 ..< ?p}" and tl: "tiles h (set xs - {base} \<union> L) M" using ok by (auto simp: heap_ok_def)
    note g = tiles_grow[OF tl Mb nz]
    have px: "?p \<notin> set xs" "?p \<notin> L" using g(2) sz(1) by auto
    have "heap_ok base ?h xs (insert ?p L) (M \<union> {?p ..< unat (usz ?h)})"
      unfolding heap_ok_def
    proof (intro conjI)
      have "links ?h xs base = links h xs base" by (rule links_cong) (use px in \<open>auto simp: put_simps bend_def\<close>)
      then show "links ?h xs base" using ok by (simp add: heap_ok_def)
      have "tiles ?h (set xs - {base} \<union> insert ?p L) (M \<union> {?p ..< unat (usz ?h)})
          = tiles (put_size ?p ?nu h) (insert ?p (set xs - {base} \<union> L)) (M \<union> {?p ..< ?p + 16 * unat ?nu})"
        by (simp only: us Un_insert_right, rule tiles_cong) (simp add: put_simps)
      then show "tiles ?h (set xs - {base} \<union> insert ?p L) (M \<union> {?p ..< unat (usz ?h)})" using g(1) by simp
    qed (use ok px sz us True Mb in \<open>auto simp: heap_ok_def put_simps\<close>)
    from free_block[OF this, of ?p] obtain h' ys where f: "free (?p + 16) ?h = Some h'"
      "heap_ok base h' ys (insert ?p L - {?p}) (M \<union> {?p ..< unat (usz ?h)})" "usz h' = usz ?h"
      "\<exists>x \<in> set ys. hsize ?h ?p \<le> hsize h' x" "\<forall>a \<in> insert ?p L - {?p}. hsize h' a = hsize ?h a" by blast
    have "insert ?p L - {?p} = L" using px by blast
    moreover have "freep h' \<noteq> 0"
    proof -
      have y: "freep h' \<in> set ys" "0 < base" using f(2) by (auto simp: heap_ok_def)
      then show ?thesis using heap_blocks[OF f(2), of "freep h'"] by (cases "freep h' = base") auto
    qed
    moreover have "\<exists>x \<in> set ys. n \<le> hsize h' x" using f(4) c(1) by (auto intro: order_trans)
    ultimately show ?thesis using m f px by (intro exI[of _ "freep h'"] exI[of _ h']) (auto simp: put_simps)
  qed
qed

text \<open>Going round the ring once.\<close>

fun walk :: "uheap \<Rightarrow> nat \<Rightarrow> nat list \<Rightarrow> bool" where
  "walk h p [] = True"
| "walk h p (z # zs) \<longleftrightarrow> hptr h p = z \<and> walk h z zs"

lemma walk_append: "walk h p (as @ bs) \<longleftrightarrow> walk h p as \<and> walk h (last (p # as)) bs"
  by (induction as arbitrary: p) auto

lemma links_walk: "links h (x # xs) e \<Longrightarrow> walk h x (xs @ [e])"
  by (induction xs arbitrary: x) auto

lemma walk_ring:
  assumes l: "links h xs base" "xs \<noteq> []" "hd xs = base" and f: "f \<in> set xs"
  shows "\<exists>zs. walk h f (zs @ [f]) \<and> set (zs @ [f]) = set xs \<and> f \<notin> set zs"
proof -
  obtain us vs where xs: "xs = us @ f # vs" using f by (auto dest: split_list)
  have d: "f \<notin> set us" "f \<notin> set vs" using links_less[OF l(1)] xs by (auto simp: sorted_wrt_append)
  have w: "walk h f (vs @ [base])" using l(1) xs links_walk by (simp add: links_append)
  show ?thesis
  proof (cases us)
    case Nil
    then show ?thesis using w xs l(3) d by (intro exI[of _ vs]) auto
  next
    case (Cons u ws)
    have "links h us f" using l(1) xs by (simp add: links_append)
    then have "links h (base # ws) f" using l(3) xs Cons by simp
    then have "walk h base (ws @ [f])" by (rule links_walk)
    then have "walk h f ((vs @ base # ws) @ [f])" using w by (simp add: walk_append)
    then show ?thesis using xs Cons l(3) d by (intro exI[of _ "vs @ base # ws"]) auto
  qed
qed

lemma loop_fits:
  "walk h prev (zs @ [freep h]) \<Longrightarrow> freep h \<notin> set zs \<Longrightarrow> \<exists>z \<in> set (zs @ [freep h]). n \<le> hsize h z \<Longrightarrow>
   \<exists>q r. r \<in> set (zs @ [freep h]) \<and> q \<in> insert prev (set zs) \<and> hptr h q = r \<and> n \<le> hsize h r
     \<and> malloc_loop n (hptr h prev) prev h = Some (take_block n r q h)"
proof (induction zs arbitrary: prev)
  case Nil
  then show ?case by (intro exI[of _ prev] exI[of _ "freep h"]) (simp add: malloc_loop.simps)
next
  case (Cons z zs)
  show ?case
  proof (cases "n \<le> hsize h z")
    case True
    then show ?thesis using Cons.prems by (intro exI[of _ prev] exI[of _ z]) (simp add: malloc_loop.simps)
  next
    case False
    then have "malloc_loop n (hptr h prev) prev h = malloc_loop n (hptr h z) z h"
      using Cons.prems by (subst malloc_loop.simps) auto
    then show ?thesis using Cons.IH[of z] Cons.prems False by auto
  qed
qed

lemma loop_none:
  "walk h prev (zs @ [freep h]) \<Longrightarrow> freep h \<notin> set zs \<Longrightarrow> \<forall>z \<in> set (zs @ [freep h]). \<not> n \<le> hsize h z \<Longrightarrow>
   malloc_loop n (hptr h prev) prev h = do {
     (q, h) \<leftarrow> morecore n h;
     if q = 0 then Some (0, h) else malloc_loop n (hptr h q) q h
   }"
proof (induction zs arbitrary: prev)
  case Nil
  then show ?case by (subst malloc_loop.simps) simp
next
  case (Cons z zs)
  then have "malloc_loop n (hptr h prev) prev h = malloc_loop n (hptr h z) z h"
    by (subst malloc_loop.simps) auto
  then show ?case using Cons by auto
qed

lemma links_mono:
  "(\<And>x. x \<in> set xs \<Longrightarrow> hptr h' x = hptr h x \<and> bend h' x \<le> bend h x) \<Longrightarrow> links h xs e \<Longrightarrow> links h' xs e"
proof (induction xs)
  case (Cons x xs)
  have "bend h' x \<le> bend h x" "hptr h' x = hptr h x" using Cons.prems(1)[of x] by auto
  moreover have "links h' xs e" using Cons by auto
  ultimately show ?case using Cons.prems(2) by auto
qed simp

text \<open>Taking a block: it was free, it is one of the blocks in use afterwards, and its size is \<open>n\<close>.\<close>

lemma take_ok:
  assumes ok: "heap_ok base h xs L M" and n: "0 < n" "n \<le> hsize h r" and q: "q \<in> set xs" "hptr h q = r" "r \<in> set xs"
  shows "\<exists>a h' ys. take_block n r q h = (a + 16, h') \<and> a \<notin> L \<and> hsize h' a = n \<and> heap_ok base h' ys (insert a L) M
    \<and> usz h' = usz h \<and> (\<forall>b \<in> L. hsize h' b = hsize h b)"
proof -
  have l: "links h xs base" and hd: "xs \<noteq> []" "hd xs = base" and z: "hsize h base = 0" and f: "freep h \<in> set xs"
    and tl: "tiles h (set xs - {base} \<union> L) M" and dis: "set xs \<inter> L = {}" using ok by (simp_all add: heap_ok_def)
  have rb: "r \<noteq> base" using n z by auto
  show ?thesis
  proof (cases "hsize h r = n")
    case True
    let ?h = "(put_ptr q (hptr h r) h)\<lparr>freep := q\<rparr>"
    obtain us ws where xs: "xs = us @ q # ws" using q(1) by (auto dest: split_list)
    then have "hptr h q = hd (ws @ [base])" using l by (simp add: links_append)
    then obtain vs where ws: "ws = r # vs" using q(2) rb by (cases ws) auto
    have "sorted_wrt (<) xs" by (rule links_less[OF l])
    then have d: "q \<notin> set us" "r \<notin> set us" "q \<notin> set vs" "r \<notin> set vs" "q < r" using xs ws by (auto simp: sorted_wrt_append)
    have lp: "links h us q" "us \<noteq> [] \<longrightarrow> bend h (last us) < q" "hptr h r = hd (vs @ [base])" "bend h q < r"
      "vs \<noteq> [] \<longrightarrow> bend h r < hd vs" "links h vs base" using l xs ws by (auto simp: links_append)
    have "links ?h us q" using lp(1) d by (subst links_cong[of _ ?h h]) (auto simp: put_simps bend_def)
    moreover have "links ?h vs base" using lp(6) d by (subst links_cong[of _ ?h h]) (auto simp: put_simps bend_def)
    moreover have "vs \<noteq> [] \<longrightarrow> bend h q < hd vs" using lp(4,5) bend_ge[of r h] by auto
    ultimately have "links ?h (us @ q # vs) base" using lp by (simp add: links_append)
    moreover have "hd (us @ q # vs) = base" using hd xs by (cases us) auto
    moreover have "set (us @ q # vs) - {base} \<union> insert r L = set xs - {base} \<union> L" using xs ws rb by auto
    moreover have "tiles ?h (set xs - {base} \<union> L) M" using tl by (subst tiles_cong[of _ ?h h]) auto
    ultimately have "heap_ok base ?h (us @ q # vs) (insert r L) M"
      using ok dis xs ws d by (auto simp: heap_ok_def)
    moreover have "r \<notin> L" using q(3) dis by blast
    ultimately show ?thesis using True by (intro exI[of _ r] exI[of _ ?h] exI[of _ "us @ q # vs"]) (simp add: take_block_def)
  next
    case False
    then have lt: "n < hsize h r" using n by simp
    let ?a = "r + 16 * unat (hsize h r - n)"
    let ?h = "put_size ?a n (put_size r (hsize h r - n) h)"
    have rB: "r \<in> set xs - {base} \<union> L" using q(3) rb by blast
    note sp = tiles_split[OF tl rB n(1) lt]
    have ab: "?a \<noteq> base" using sp(3) heap_blocks[OF ok rB] by auto
    have ax: "?a \<notin> set xs" "?a \<notin> L" using sp(2) ab by auto
    have e: "take_block n r q h = (?a + 16, ?h\<lparr>freep := q\<rparr>)"
      using False by (simp add: take_block_def Let_def)
    have "unat (hsize h r - n) \<le> unat (hsize h r)" using lt by (simp add: word_le_nat_alt[symmetric] word_sub_le)
    then have "bend ?h x \<le> bend h x" if "x \<in> set xs" for x using that ax by (auto simp: bend_def)
    then have "links (?h\<lparr>freep := q\<rparr>) xs base" by (intro links_mono[OF _ l]) simp
    moreover have "set xs - {base} \<union> insert ?a L = insert ?a (set xs - {base} \<union> L)" by blast
    moreover have "tiles (?h\<lparr>freep := q\<rparr>) B M = tiles ?h B M" for B by (rule tiles_cong) simp
    ultimately have "heap_ok base (?h\<lparr>freep := q\<rparr>) xs (insert ?a L) M"
      using ok sp(1) ax ab rb q(1) by (auto simp: heap_ok_def)
    moreover have "r \<notin> L" using q(3) dis by blast
    ultimately show ?thesis using e ax
      by (intro exI[of _ ?a] exI[of _ "?h\<lparr>freep := q\<rparr>"] exI[of _ xs]) auto
  qed
qed

lemma loop_ok:
  assumes ok: "heap_ok base h xs L M" and n: "0 < n" and fit: "\<exists>x \<in> set xs. n \<le> hsize h x"
  shows "\<exists>a h' ys. malloc_loop n (hptr h (freep h)) (freep h) h = Some (a + 16, h') \<and> a \<notin> L \<and> hsize h' a = n
    \<and> heap_ok base h' ys (insert a L) M \<and> usz h' = usz h \<and> (\<forall>b \<in> L. hsize h' b = hsize h b)"
proof -
  have l: "links h xs base" "xs \<noteq> []" "hd xs = base" and f: "freep h \<in> set xs" using ok by (simp_all add: heap_ok_def)
  obtain zs where w: "walk h (freep h) (zs @ [freep h])" "set (zs @ [freep h]) = set xs" "freep h \<notin> set zs"
    using walk_ring[OF l f] by blast
  have "\<exists>z \<in> set (zs @ [freep h]). n \<le> hsize h z" using fit w(2) by simp
  then obtain q r where qr: "r \<in> set (zs @ [freep h])" "q \<in> insert (freep h) (set zs)" "hptr h q = r" "n \<le> hsize h r"
    "malloc_loop n (hptr h (freep h)) (freep h) h = Some (take_block n r q h)"
    using loop_fits[OF w(1,3)] by blast
  have "q \<in> set xs" "r \<in> set xs" using qr(1,2) w(2) by auto
  then show ?thesis using take_ok[OF ok n qr(4) _ qr(3)] qr(5) by simp
qed

lemma units_nat: "unat (units nbytes) = (unat nbytes + 15) div 16 + 1"
proof -
  have b: "unat nbytes < 2 ^ 32" using unsigned_less[of nbytes, where ?'a = nat] by simp
  have "unat ((ucast nbytes :: u64) + 15) = unat nbytes + 15"
    using b by (subst unat_add_lem[THEN iffD1]) (simp_all add: unat_up)
  then have "unat (((ucast nbytes :: u64) + 15) div 16) = (unat nbytes + 15) div 16"
    by (simp add: unat_div)
  then have v: "unat (((ucast nbytes :: u64) + 15) div 16 + 1) = (unat nbytes + 15) div 16 + 1"
    using b by (subst unat_add_lem[THEN iffD1]) simp_all
  have e: "units nbytes = ucast (((ucast nbytes :: u64) + 15) div 16 + 1)" by (simp add: units_def add.commute)
  show ?thesis unfolding e unsigned_ucast_eq v by (rule take_bit_nat_eq_self) (use b in simp)
qed

lemma units_ok:
  assumes "nbytes \<le> 0x7FFFFFE0"
  shows "0 < units nbytes" and "unat (units nbytes) < 2 ^ 27" and "unat nbytes + 16 \<le> 16 * unat (units nbytes)"
  using assms units_nat[of nbytes] by (simp_all add: word_le_nat_alt word_pos)

lemma heap_freep: "heap_ok base h xs L M \<Longrightarrow> freep h \<noteq> 0"
  using heap_blocks[of base h xs L M "freep h"] by (cases "freep h = base") (auto simp: heap_ok_def)

lemma malloc_ok:
  assumes ok: "heap_ok base h xs L M" and n: "nbytes \<le> 0x7FFFFFE0"
  shows "\<exists>r h'. malloc base nbytes h = Some (r, h') \<and> (\<forall>b \<in> L. hsize h' b = hsize h b) \<and> (r = 0 \<and> h' = h
    \<or> (\<exists>a ys. r = a + 16 \<and> a \<notin> L \<and> hsize h' a = units nbytes
        \<and> heap_ok base h' ys (insert a L) (M \<union> {unat (usz h) ..< unat (usz h')})))"
proof -
  let ?n = "units nbytes"
  note u = units_ok[OF n]
  have m: "malloc base nbytes h = malloc_loop ?n (hptr h (freep h)) (freep h) h"
    using heap_freep[OF ok] by (simp add: malloc_def malloc_init_def)
  show ?thesis
  proof (cases "\<exists>x \<in> set xs. ?n \<le> hsize h x")
    case True
    from loop_ok[OF ok u(1) True] obtain a h' ys where r: "malloc base nbytes h = Some (a + 16, h')" "a \<notin> L" "hsize h' a = ?n"
      "heap_ok base h' ys (insert a L) M" "usz h' = usz h" "\<forall>b \<in> L. hsize h' b = hsize h b" unfolding m by blast
    then show ?thesis by (intro exI[of _ "a + 16"] exI[of _ h']) auto
  next
    case False
    have l: "links h xs base" "xs \<noteq> []" "hd xs = base" and f: "freep h \<in> set xs" using ok by (simp_all add: heap_ok_def)
    obtain zs where w: "walk h (freep h) (zs @ [freep h])" "set (zs @ [freep h]) = set xs" "freep h \<notin> set zs"
      using walk_ring[OF l f] by blast
    have "\<forall>z \<in> set (zs @ [freep h]). \<not> ?n \<le> hsize h z" using False w(2) by simp
    then have e: "malloc base nbytes h = do { (q, h) \<leftarrow> morecore ?n h; if q = 0 then Some (0, h) else malloc_loop ?n (hptr h q) q h }"
      unfolding m by (rule loop_none[OF w(1,3)])
    obtain r1 h1 where c: "morecore ?n h = Some (r1, h1)" "\<forall>a \<in> L. hsize h1 a = hsize h a"
      "r1 = 0 \<and> h1 = h \<or> r1 = freep h1 \<and> r1 \<noteq> 0 \<and>
        (\<exists>ys. heap_ok base h1 ys L (M \<union> {unat (usz h) ..< unat (usz h1)}) \<and> (\<exists>x \<in> set ys. ?n \<le> hsize h1 x))"
      using morecore_ok[OF ok u(1,2)] by blast
    show ?thesis
    proof (cases "r1 = 0")
      case True
      then show ?thesis using e c heap_freep[OF ok] by (intro exI[of _ 0] exI[of _ h]) auto
    next
      case False
      then obtain ys where y: "r1 = freep h1" "heap_ok base h1 ys L (M \<union> {unat (usz h) ..< unat (usz h1)})"
        "\<exists>x \<in> set ys. ?n \<le> hsize h1 x" using c(3) by blast
      from loop_ok[OF y(2) u(1) y(3)] obtain a h' zs where
        "malloc base nbytes h = Some (a + 16, h')" "a \<notin> L" "hsize h' a = ?n" "usz h' = usz h1" "\<forall>b \<in> L. hsize h' b = hsize h1 b"
        "heap_ok base h' zs (insert a L) (M \<union> {unat (usz h) ..< unat (usz h1)})" using e c(1) y(1) False by auto
      then show ?thesis using c(2) by (intro exI[of _ "a + 16"] exI[of _ h']) auto
    qed
  qed
qed

section \<open>Programs that use the allocator\<close>

text \<open>
  A program may write to what it got, behind the header, and to memory that is not the allocator's: the
  headers elsewhere keep their values.
\<close>

definition program_writes :: "nat \<Rightarrow> nat set \<Rightarrow> nat set \<Rightarrow> uheap \<Rightarrow> uheap \<Rightarrow> bool" where
  "program_writes base L M h h' \<longleftrightarrow> freep h' = freep h \<and> usz h' = usz h \<and> uroom h' = uroom h
     \<and> (\<forall>y. hptr h' y \<noteq> hptr h y \<or> hsize h' y \<noteq> hsize h y \<longrightarrow>
          (\<exists>x. y \<le> x \<and> x < y + 16 \<and> ((\<exists>a \<in> L. a + 16 \<le> x \<and> x < bend h a) \<or> x \<notin> M \<union> {base ..< base + 16})))"

text \<open>
  The heaps a program can reach, with its blocks \<open>L\<close> (the addresses of their headers) and the memory \<open>M\<close>
  that \<open>malloc\<close> got from the kernel.  The program may also call \<open>sbrk\<close> itself.
\<close>

inductive user_heap :: "nat \<Rightarrow> uheap \<Rightarrow> nat set \<Rightarrow> nat set \<Rightarrow> bool" for base where
  start: "0 < base \<Longrightarrow> base + 16 \<le> unat (usz h) \<Longrightarrow> unat (usz h) \<le> uroom h \<Longrightarrow> uroom h < 2 ^ 31 \<Longrightarrow> freep h = 0
    \<Longrightarrow> user_heap base h {} {}"
| alloc: "user_heap base h L M \<Longrightarrow> nbytes \<le> 0x7FFFFFE0 \<Longrightarrow> malloc base nbytes h = Some (r, h')
    \<Longrightarrow> user_heap base h' (if r = 0 then L else insert (r - 16) L) (M \<union> {unat (usz h) ..< unat (usz h')})"
| release: "user_heap base h L M \<Longrightarrow> a \<in> L \<Longrightarrow> free (a + 16) h = Some h' \<Longrightarrow> user_heap base h' (L - {a}) M"
| scribble: "user_heap base h L M \<Longrightarrow> program_writes base L M h h' \<Longrightarrow> user_heap base h' L M"
| grow: "user_heap base h L M \<Longrightarrow> usz h \<le> w \<Longrightarrow> unat w \<le> uroom h \<Longrightarrow> user_heap base (h\<lparr>usz := w\<rparr>) L M"

definition heap_inv :: "nat \<Rightarrow> uheap \<Rightarrow> nat set \<Rightarrow> nat set \<Rightarrow> bool" where
  "heap_inv base h L M \<longleftrightarrow> (\<exists>xs. heap_ok base (malloc_init base h) xs L M) \<and> (freep h = 0 \<longrightarrow> L = {} \<and> M = {})"

lemma init_ok:
  "0 < base \<Longrightarrow> base + 16 \<le> unat (usz h) \<Longrightarrow> unat (usz h) \<le> uroom h \<Longrightarrow> uroom h < 2 ^ 31 \<Longrightarrow> freep h = 0
    \<Longrightarrow> heap_inv base h {} {}"
  unfolding heap_inv_def by (intro conjI exI[of _ "[base]"]) (simp_all add: heap_ok_def malloc_init_def tiles_def put_simps)

lemma init_id: "freep h \<noteq> 0 \<Longrightarrow> malloc_init base h = h"
  by (simp add: malloc_init_def)

lemma inv_ok: "heap_ok base h xs L M \<Longrightarrow> heap_inv base h L M"
  using heap_freep init_id unfolding heap_inv_def by metis

lemma headers_kept:
  assumes ok: "heap_ok base h xs L M" and z: "z \<in> set xs \<union> L" and x: "z \<le> x" "x < z + 16"
  shows "\<not> (\<exists>a \<in> L. a + 16 \<le> x \<and> x < bend h a) \<and> x \<in> M \<union> {base ..< base + 16}"
proof -
  have tl: "tiles h (set xs - {base} \<union> L) M" and dis: "set xs \<inter> L = {}" using ok by (simp_all add: heap_ok_def)
  have lo: "base + 16 \<le> a" if "a \<in> L" for a using heap_blocks[OF ok, of a] that by simp
  show ?thesis
  proof (cases "z = base")
    case True
    then show ?thesis using x lo by fastforce
  next
    case False
    then have zB: "z \<in> set xs - {base} \<union> L" using z by blast
    have "0 < unat (hsize h z)" using tl zB by (simp add: tiles_def word_pos)
    then have zx: "x < bend h z" using x by (simp add: bend_def)
    have "\<not> (a + 16 \<le> x \<and> x < bend h a)" if a: "a \<in> L" for a
    proof
      assume ax: "a + 16 \<le> x \<and> x < bend h a"
      then have "a < z" using x by simp
      then have "bend h a \<le> z" using tl zB a by (auto simp: tiles_def)
      then show False using ax x by simp
    qed
    moreover have "x \<in> M" using tl zB x zx unfolding tiles_def by auto
    ultimately show ?thesis by blast
  qed
qed

lemma user_heap_inv: "user_heap base h L M \<Longrightarrow> heap_inv base h L M"
proof (induction rule: user_heap.induct)
  case (start h)
  then show ?case by (rule init_ok)
next
  case (alloc h L M nbytes r h')
  from alloc.IH obtain xs where ok: "heap_ok base (malloc_init base h) xs L M" by (auto simp: heap_inv_def)
  have us: "usz (malloc_init base h) = usz h" by (simp add: malloc_init_def)
  have m: "malloc base nbytes (malloc_init base h) = Some (r, h')"
    using alloc.hyps(3) init_id[OF heap_freep[OF ok], of base] by (simp add: malloc_def)
  consider "r = 0" "h' = malloc_init base h" | a ys where "r = a + 16" "heap_ok base h' ys (insert a L) (M \<union> {unat (usz h) ..< unat (usz h')})"
    using malloc_ok[OF ok alloc.hyps(2)] m us by auto
  then show ?case
  proof cases
    case 1
    then show ?thesis using inv_ok[OF ok] us by simp
  next
    case 2
    then show ?thesis using inv_ok[OF 2(2)] by simp
  qed
next
  case (release h L M a h')
  then obtain xs where ok: "heap_ok base h xs L M" using init_id by (auto simp: heap_inv_def)
  then show ?case using free_block[OF ok release.hyps(2)] release.hyps(3) inv_ok by fastforce
next
  case (scribble h L M h')
  from scribble.IH obtain xs where ok: "heap_ok base (malloc_init base h) xs L M" by (auto simp: heap_inv_def)
  have same: "freep h' = freep h" "usz h' = usz h" "uroom h' = uroom h" using scribble.hyps(2) by (simp_all add: program_writes_def)
  show ?case
  proof (cases "freep h = 0")
    case True
    then have "L = {}" "M = {}" using scribble.IH by (simp_all add: heap_inv_def)
    then show ?thesis using ok same True by (simp, intro init_ok) (simp_all add: heap_ok_def malloc_init_def)
  next
    case False
    then have ok: "heap_ok base h xs L M" using ok init_id by simp
    have hd: "hptr h' z = hptr h z \<and> hsize h' z = hsize h z" if "z \<in> set xs \<union> L" for z
      using headers_kept[OF ok that] scribble.hyps(2) unfolding program_writes_def by metis
    then have "links h' xs base = links h xs base" by (intro links_cong) (simp add: bend_def)
    moreover have "tiles h' (set xs - {base} \<union> L) M = tiles h (set xs - {base} \<union> L) M"
      by (rule tiles_cong) (use hd in blast)
    moreover have "hsize h' base = hsize h base" using hd ok by (metis UnI1 heap_ok_def list.set_sel(1))
    ultimately have "heap_ok base h' xs L M" using ok same by (simp add: heap_ok_def)
    then show ?thesis by (rule inv_ok)
  qed
next
  case (grow h L M w)
  from grow.IH obtain xs where ok: "heap_ok base (malloc_init base h) xs L M" by (auto simp: heap_inv_def)
  have e: "malloc_init base (h\<lparr>usz := w\<rparr>) = (malloc_init base h)\<lparr>usz := w\<rparr>" by (simp add: malloc_init_def put_simps)
  have us: "usz (malloc_init base h) = usz h" "uroom (malloc_init base h) = uroom h" by (simp_all add: malloc_init_def)
  have ln: "links ((malloc_init base h)\<lparr>usz := w\<rparr>) xs base = links (malloc_init base h) xs base" by (rule links_cong) simp
  have tl: "tiles ((malloc_init base h)\<lparr>usz := w\<rparr>) B M = tiles (malloc_init base h) B M" for B by (rule tiles_cong) simp
  have "unat (usz h) \<le> unat w" using grow.hyps(2) by (simp add: word_le_nat_alt)
  then have "heap_ok base ((malloc_init base h)\<lparr>usz := w\<rparr>) xs L M"
    using ok us grow.hyps(3) ln tl by (auto simp: heap_ok_def)
  then show ?case using e grow.IH by (auto simp: heap_inv_def)
qed

section \<open>What programs rely on\<close>

text \<open>
  C17: \<open>malloc\<close> gives out memory nobody else uses.  In every heap a program can reach by calls of
  \<open>malloc\<close>, \<open>free\<close> and \<open>sbrk\<close> and by writing to its blocks, \<open>malloc\<close> of up to 0x7FFFFFE0 bytes returns: a null
  pointer, or a block of at least that many bytes within the process, which with its header overlaps no
  block in use and does not change any.
\<close>

theorem malloc_fresh:
  assumes "user_heap base h L M" and "nbytes \<le> 0x7FFFFFE0"
  shows "\<exists>r h'. malloc base nbytes h = Some (r, h') \<and> (r \<noteq> 0 \<longrightarrow>
    base + 32 \<le> r \<and> r + unat nbytes \<le> unat (usz h') \<and> r - 16 \<notin> L
    \<and> (\<forall>a \<in> L. hsize h' a = hsize h a \<and> (bend h a \<le> r - 16 \<or> r + unat nbytes \<le> a)))"
proof -
  obtain xs where ok: "heap_ok base (malloc_init base h) xs L M"
    using user_heap_inv[OF assms(1)] by (auto simp: heap_inv_def)
  have m: "malloc base nbytes h = malloc base nbytes (malloc_init base h)"
    using init_id[OF heap_freep[OF ok]] by (simp add: malloc_def)
  have L: "hsize (malloc_init base h) b = hsize h b" if "b \<in> L" for b
    using heap_blocks[OF ok, of b] that by (auto simp: malloc_init_def)
  note u = units_ok[OF assms(2)]
  from malloc_ok[OF ok assms(2)] obtain r h' where r: "malloc base nbytes h = Some (r, h')" "\<forall>b \<in> L. hsize h' b = hsize h b"
    and c: "r = 0 \<or> (\<exists>a ys M'. r = a + 16 \<and> a \<notin> L \<and> hsize h' a = units nbytes \<and> heap_ok base h' ys (insert a L) M')"
    unfolding m[symmetric] using L by (metis (no_types, lifting))
  show ?thesis
  proof (cases "r = 0")
    case True
    then show ?thesis using r by auto
  next
    case False
    then obtain a ys M' where a: "r = a + 16" "a \<notin> L" "hsize h' a = units nbytes" "heap_ok base h' ys (insert a L) M'"
      using c by blast
    have tl: "tiles h' (set ys - {base} \<union> insert a L) M'" using a(4) by (simp add: heap_ok_def)
    have e: "a + 16 + unat nbytes \<le> bend h' a" using u(3) a(3) by (simp add: bend_def)
    have "base + 16 \<le> a" "bend h' a \<le> unat (usz h')" using heap_blocks[OF a(4), of a] by auto
    moreover have "bend h b \<le> a \<or> a + 16 + unat nbytes \<le> b" if b: "b \<in> L" for b
    proof -
      have "a < b \<Longrightarrow> bend h' a \<le> b" "b < a \<Longrightarrow> bend h' b \<le> a" using tl b by (auto simp: tiles_def)
      moreover have "bend h' b = bend h b" using r(2) b by (simp add: bend_def)
      moreover have "a \<noteq> b" using a(2) b by blast
      ultimately show ?thesis using e by linarith
    qed
    ultimately show ?thesis using r a e by (intro exI[of _ r] exI[of _ h']) auto
  qed
qed

definition demo_heap :: uheap where
  "demo_heap = \<lparr>hptr = (\<lambda>_. 7), hsize = (\<lambda>_. 9), freep = 0, usz = 0x2000, uroom = 0x100000\<rparr>"

lemma demo_heap_reached: "user_heap 0x1000 demo_heap {} {}"
  by (rule user_heap.start) (simp_all add: demo_heap_def)

lemma demo_malloc: "map_option fst (malloc 0x1000 100 demo_heap) = Some 0x11F90"
  by (simp add: malloc_def malloc_init_def units_def malloc_loop.simps morecore_def chunk_def sbrk_def free_def
      free_find.simps join_next_def join_prev_def take_block_def demo_heap_def put_simps bend_def Let_def)

theorem malloc_fresh_witness: "\<exists>h'. malloc 0x1000 100 demo_heap = Some (0x11F90, h') \<and> 0x11F90 + 100 \<le> unat (usz h')"
  using malloc_fresh[OF demo_heap_reached, of 100] demo_malloc by auto

text \<open>The free blocks are those that following the pointers from \<open>freep\<close> reaches.\<close>

definition free_blocks :: "nat \<Rightarrow> uheap \<Rightarrow> nat set" where
  "free_blocks base h = {a. (\<lambda>x y. y = hptr h x)\<^sup>*\<^sup>* (freep h) a} - {base}"

lemma walk_reaches: "walk h p zs \<Longrightarrow> z \<in> set zs \<Longrightarrow> (\<lambda>x y. y = hptr h x)\<^sup>*\<^sup>* p z"
proof (induction zs arbitrary: p)
  case (Cons y zs)
  then have "(\<lambda>x y. y = hptr h x)\<^sup>*\<^sup>* y z" by auto
  then show ?case using Cons.prems(1) by (intro converse_rtranclp_into_rtranclp[of _ p y]) simp_all
qed simp

lemma links_closed: "links h xs base \<Longrightarrow> xs \<noteq> [] \<Longrightarrow> hd xs = base \<Longrightarrow> x \<in> set xs \<Longrightarrow> hptr h x \<in> set xs"
proof -
  assume l: "links h xs base" "xs \<noteq> []" "hd xs = base" "x \<in> set xs"
  obtain us vs where xs: "xs = us @ x # vs" using l(4) split_list by metis
  then have "hptr h x = hd (vs @ [base])" using l(1) by (simp add: links_append)
  moreover have "base \<in> set xs" using l(2,3) by (metis list.set_sel(1))
  ultimately show ?thesis using xs by (cases vs) auto
qed

lemma free_blocks_ok: "heap_ok base h xs L M \<Longrightarrow> free_blocks base h = set xs - {base}"
proof -
  assume ok: "heap_ok base h xs L M"
  then have l: "links h xs base" "xs \<noteq> []" "hd xs = base" and f: "freep h \<in> set xs" by (simp_all add: heap_ok_def)
  have "a \<in> set xs" if "(\<lambda>x y. y = hptr h x)\<^sup>*\<^sup>* (freep h) a" for a
    using that by (induction rule: rtranclp_induct) (use f links_closed[OF l] in auto)
  moreover obtain zs where "walk h (freep h) (zs @ [freep h])" "set (zs @ [freep h]) = set xs"
    using walk_ring[OF l f] by blast
  ultimately show ?thesis using walk_reaches unfolding free_blocks_def by blast
qed

text \<open>
  C18: the free list stays sound and loses nothing.  In every such heap the free blocks and the blocks
  in use do not overlap and together are exactly the memory \<open>malloc\<close> got from the kernel; no two free
  blocks are adjacent, for \<open>free\<close> joins them; and \<open>free\<close> of any block in use returns.
\<close>

theorem free_list_sound:
  assumes "user_heap base h L M" and "freep h \<noteq> 0"
  shows "tiles h (free_blocks base h \<union> L) M \<and> free_blocks base h \<inter> L = {}
    \<and> (\<forall>a \<in> free_blocks base h. bend h a \<notin> free_blocks base h) \<and> (\<forall>a \<in> L. \<exists>h'. free (a + 16) h = Some h')"
proof -
  obtain xs where ok: "heap_ok base h xs L M"
    using user_heap_inv[OF assms(1)] init_id[OF assms(2)] by (auto simp: heap_inv_def)
  note fb = free_blocks_ok[OF ok]
  have s: "sorted_wrt (\<lambda>a b. bend h a < b) xs" using links_sorted[of h xs base] ok by (simp add: heap_ok_def)
  have "bend h a \<notin> set xs" if a: "a \<in> set xs - {base}" for a
  proof
    assume b: "bend h a \<in> set xs"
    have lt: "a < bend h a" using heap_blocks[OF ok, of a] a by simp
    obtain us vs where xs: "xs = us @ a # vs" using a by (auto dest: split_list)
    have lo: "c < a" if "c \<in> set us" for c using s xs that bend_ge[of c h] by (auto simp: sorted_wrt_append intro: le_less_trans)
    have hi: "bend h a < c" if "c \<in> set vs" for c using s xs that by (auto simp: sorted_wrt_append)
    from b xs have "bend h a \<in> set us \<or> bend h a = a \<or> bend h a \<in> set vs" by auto
    then show False using lo[of "bend h a"] hi[of "bend h a"] lt by auto
  qed
  moreover have "tiles h (set xs - {base} \<union> L) M" "(set xs - {base}) \<inter> L = {}" using ok by (auto simp: heap_ok_def)
  moreover have "\<exists>h'. free (a + 16) h = Some h'" if "a \<in> L" for a using free_block[OF ok that] by blast
  ultimately show ?thesis unfolding fb by blast
qed

definition demo_heap1 :: uheap where "demo_heap1 = snd (the (malloc 0x1000 100 demo_heap))"

lemma demo_heap1_reached: "user_heap 0x1000 demo_heap1 {0x11F80} {0x2000 ..< unat (usz demo_heap1)}"
proof -
  obtain h' where m: "malloc 0x1000 100 demo_heap = Some (0x11F90, h')" using demo_malloc by auto
  then show ?thesis using user_heap.alloc[OF demo_heap_reached _ m] by (simp add: demo_heap1_def demo_heap_def)
qed

theorem free_list_sound_witness: "freep demo_heap1 = 0x1000 \<and> (\<exists>h'. free 0x11F90 demo_heap1 = Some h')"
proof -
  have "freep demo_heap1 = 0x1000"
    by (simp add: demo_heap1_def malloc_def malloc_init_def units_def malloc_loop.simps morecore_def chunk_def sbrk_def free_def
        free_find.simps join_next_def join_prev_def take_block_def demo_heap_def put_simps bend_def Let_def)
  then show ?thesis using free_list_sound[OF demo_heap1_reached] by simp
qed



end
