(* ===== verification/Ring.thy ===== *)
theory Ring imports KParam begin

text \<open>
  Ring buffers with unsigned counters that are never reduced: the pipe, the console's input line (\<open>uint\<close>)
  and the rings of the disk driver (\<open>uint16\<close>).  A counter counts modulo a power of two and indexes its buffer
  modulo the buffer's size, which divides that power; the buffer's contents are the cells between the
  two counters.

  The locale \<open>byte_queue\<close> is what the users of such a buffer rely on.
\<close>

definition ring :: "nat \<Rightarrow> (nat \<Rightarrow> 'a) \<Rightarrow> 'w :: len word \<Rightarrow> 'w word \<Rightarrow> 'a list" where
  "ring B d r w = map (\<lambda>k. d (unat (r + of_nat k) mod B)) [0..<unat (w - r)]"

lemma length_ring: "length (ring B d r w) = unat (w - r)"
  by (simp add: ring_def)

lemma ring_empty: "ring B d r w = [] \<longleftrightarrow> w = r"
  by (simp add: ring_def unat_0_iff)

lemma unat_Suc_diff: "unat (w - r) < 2 ^ LENGTH('w) - 1 \<Longrightarrow> unat (w + 1 - r) = Suc (unat (w - r))" for w r :: "'w :: len word"
proof -
  assume "unat (w - r) < 2 ^ LENGTH('w) - 1"
  then have "unat (w - r) + unat (1 :: 'w word) < 2 ^ LENGTH('w)" by simp
  then have "unat (w - r + 1) = unat (w - r) + 1" using unat_add_lem[of "w - r" 1] by simp
  then show ?thesis by (simp add: algebra_simps)
qed

text \<open>Two counters less than \<open>B\<close> apart index different cells.\<close>

lemma ring_index_inj:
  fixes w r :: "'w :: len word"
  assumes B: "B dvd 2 ^ LENGTH('w)" and k: "k < unat (w - r)" "unat (w - r) < B"
  shows "unat (r + of_nat k) mod B \<noteq> unat w mod B"
proof
  assume e: "unat (r + of_nat k) mod B = unat w mod B"
  have B0: "0 < B" using k by simp
  have m: "unat (x + y) mod B = (unat x + unat y) mod B" for x y :: "'w word"
    using mod_mod_cancel[OF B, of "unat x + unat y"] by (simp add: unat_word_ariths(1))
  have kk: "unat (of_nat k :: 'w word) = k"
  proof -
    have "k < 2 ^ LENGTH('w)" by (rule less_trans[OF k(1)]) (rule unsigned_less)
    then show ?thesis by (simp add: unat_of_nat)
  qed
  have "w = r + of_nat k + (w - r - of_nat k)" by simp
  moreover have d: "unat (w - r - of_nat k) = unat (w - r) - k"
    using k kk by (simp add: unat_sub word_le_nat_alt)
  ultimately have "unat w mod B = (unat (r + of_nat k) + (unat (w - r) - k)) mod B" by (metis m)
  then have "(unat (r + of_nat k) + (unat (w - r) - k)) mod B = (unat (r + of_nat k) + 0) mod B"
    using e by simp
  then have "B dvd unat (w - r) - k" by (simp add: mod_eq_dvd_iff_nat)
  then show False using k dvd_imp_le[of B "unat (w - r) - k"] by simp
qed

lemma ring_put:
  fixes w r :: "'w :: len word"
  assumes "B dvd 2 ^ LENGTH('w)" and "B < 2 ^ LENGTH('w)" and "unat (w - r) < B"
  shows "ring B (d(unat w mod B := c)) r (w + 1) = ring B d r w @ [c]"
proof -
  have n: "unat (w + 1 - r) = Suc (unat (w - r))" using assms by (intro unat_Suc_diff) simp
  have w: "r + of_nat (unat (w - r)) = w" by simp
  show ?thesis using ring_index_inj[OF assms(1) _ assms(3)] unfolding ring_def n
    by (simp add: w)
qed

lemma ring_get:
  assumes "w \<noteq> r"
  shows "ring B d r w = d (unat r mod B) # ring B d (r + 1) w"
proof -
  have "0 < unat (w - r)" using assms by (simp add: unat_gt_0)
  then obtain n where n: "unat (w - r) = Suc n" by (cases "unat (w - r)") auto
  have "unat (w - (r + 1)) = n"
  proof -
    have "1 \<le> w - r" using n by (simp add: word_le_nat_alt)
    then have "unat (w - r - 1) = unat (w - r) - 1" by (simp add: unat_sub)
    then show ?thesis using n by (simp add: algebra_simps)
  qed
  moreover have "map (\<lambda>k. d (unat (r + of_nat k) mod B)) [0..<Suc n]
      = d (unat r mod B) # map (\<lambda>k. d (unat (r + 1 + of_nat k) mod B)) [0..<n]"
    by (rule nth_equalityI) (auto simp: nth_Cons' algebra_simps of_nat_diff simp del: upt_Suc)
  ultimately show ?thesis by (simp add: ring_def n del: upt_Suc)
qed

section \<open>The queue interface\<close>

locale byte_queue =
  fixes inv :: "'s \<Rightarrow> bool" and items :: "'s \<Rightarrow> byte list" and cap :: nat
    and put :: "byte \<Rightarrow> 's \<Rightarrow> 's option" and get :: "'s \<Rightarrow> (byte \<times> 's) option"
  assumes items_cap: "inv s \<Longrightarrow> length (items s) \<le> cap"
    and put_full: "inv s \<Longrightarrow> put c s = None \<longleftrightarrow> length (items s) = cap"
    and put_items: "inv s \<Longrightarrow> put c s = Some s' \<Longrightarrow> inv s' \<and> items s' = items s @ [c]"
    and get_empty: "inv s \<Longrightarrow> get s = None \<longleftrightarrow> items s = []"
    and get_items: "inv s \<Longrightarrow> get s = Some (c, s') \<Longrightarrow> inv s' \<and> items s = c # items s'"
begin

text \<open>
  Any interleaving of puts and gets, with the bytes put and the bytes got; a put on a full queue
  and a get on an empty one do nothing, as the caller then waits.
\<close>

fun q_run :: "byte option list \<Rightarrow> 's \<Rightarrow> byte list \<times> byte list \<times> 's" where
  "q_run [] s = ([], [], s)"
| "q_run (Some c # es) s =
     (case put c s of
        None \<Rightarrow> q_run es s
      | Some s1 \<Rightarrow> (let (ps, gs, s2) = q_run es s1 in (c # ps, gs, s2)))"
| "q_run (None # es) s =
     (case get s of
        None \<Rightarrow> q_run es s
      | Some (c, s1) \<Rightarrow> (let (ps, gs, s2) = q_run es s1 in (ps, c # gs, s2)))"

lemma q_run_fifo:
  "inv s \<Longrightarrow> q_run es s = (ps, gs, s') \<Longrightarrow> inv s' \<and> items s @ ps = gs @ items s'"
proof (induction es s arbitrary: ps gs s' rule: q_run.induct)
  case (2 c es s)
  show ?case
  proof (cases "put c s")
    case None
    then show ?thesis using 2 by simp
  next
    case (Some s1)
    obtain ps1 gs1 s2 where r: "q_run es s1 = (ps1, gs1, s2)" by (metis prod_cases3)
    then have "ps = c # ps1" "gs = gs1" "s' = s2" using "2.prems"(2) Some by simp_all
    then show ?thesis using "2.IH"(2)[OF Some _ r] put_items[OF "2.prems"(1) Some] by simp
  qed
next
  case (3 es s)
  show ?case
  proof (cases "get s")
    case None
    then show ?thesis using 3 by simp
  next
    case (Some p)
    obtain c s1 where p: "p = (c, s1)" by force
    obtain ps1 gs1 s2 where r: "q_run es s1 = (ps1, gs1, s2)" by (metis prod_cases3)
    then have "ps = ps1" "gs = c # gs1" "s' = s2" using "3.prems"(2) Some p by simp_all
    then show ?thesis using "3.IH"(2)[OF Some p[symmetric] _ r] get_items[OF "3.prems"(1) Some[unfolded p]] by simp
  qed
qed simp

end

end
