(* ===== verification/Pipe.thy ===== *)
theory Pipe imports Ring begin

text \<open>
  \<open>kernel/ipc/pipe.c\<close>: a byte stream between processes.  A call runs with the pipe's lock held
  from one \<open>sleep\<close> to the next, so it is modelled as a run: it ends by returning (\<open>Inr\<close>) or by
  sleeping (\<open>Inl\<close>, with what it needs to go on when woken).  The user memory is an argument:
  \<open>cin a\<close> is \<open>arch_copyin\<close> of the byte at \<open>a\<close>, \<open>None\<close> when it fails, and \<open>cout a c m\<close> is
  \<open>arch_copyout\<close> of byte \<open>c\<close> to \<open>a\<close>.
\<close>

abbreviation (input) PIPESIZE :: nat where "PIPESIZE \<equiv> 512"

record pipe =
  pdata :: "nat \<Rightarrow> byte"
  nread :: u32
  nwrite :: u32
  readopen :: bool
  writeopen :: bool

text \<open>What \<open>pipealloc\<close> sets up in a fresh page.\<close>

definition pipe_init :: "(nat \<Rightarrow> byte) \<Rightarrow> pipe" where
  "pipe_init d = \<lparr>pdata = d, nread = 0, nwrite = 0, readopen = True, writeopen = True\<rparr>"

text \<open>\<open>pipeclose\<close>; the flag is whether the pipe's page is freed.\<close>

definition pipeclose :: "bool \<Rightarrow> pipe \<Rightarrow> pipe \<times> bool" where
  "pipeclose writable p =
     (let p1 = (if writable then p\<lparr>writeopen := False\<rparr> else p\<lparr>readopen := False\<rparr>)
      in (p1, \<not> readopen p1 \<and> \<not> writeopen p1))"

text \<open>One byte into the buffer, and one out of it.\<close>

definition pipe_store :: "byte \<Rightarrow> pipe \<Rightarrow> pipe" where
  "pipe_store c p = p\<lparr>pdata := (pdata p)(unat (nwrite p) mod PIPESIZE := c), nwrite := nwrite p + 1\<rparr>"

definition pipe_put :: "byte \<Rightarrow> pipe \<Rightarrow> pipe option" where
  "pipe_put c p =
     (if nwrite p = nread p + of_nat PIPESIZE then None
      else Some (pipe_store c p))"

definition pipe_get :: "pipe \<Rightarrow> (byte \<times> pipe) option" where
  "pipe_get p =
     (if nread p = nwrite p then None
      else Some (pdata p (unat (nread p) mod PIPESIZE), p\<lparr>nread := nread p + 1\<rparr>))"

text \<open>
  \<open>pipewrite\<close> from its loop test with \<open>i\<close> bytes done.  \<open>killed i\<close> is \<open>pr->killed\<close> as read in
  that iteration.
\<close>

function pipewrite :: "(nat \<Rightarrow> bool) \<Rightarrow> (nat \<Rightarrow> byte option) \<Rightarrow> nat \<Rightarrow> int \<Rightarrow> nat \<Rightarrow> pipe \<Rightarrow> pipe \<times> (nat + int)" where
  "pipewrite killed cin addr n i p =
     (if int i < n then
        if \<not> readopen p \<or> killed i then (p, Inr (-1))
        else if nwrite p = nread p + of_nat PIPESIZE then (p, Inl i)
        else (case cin (addr + i) of
            None \<Rightarrow> (p, Inr (int i))
          | Some c \<Rightarrow> pipewrite killed cin addr n (i + 1) (pipe_store c p))
      else (p, Inr (int i)))"
  by pat_completeness auto
termination
  by (relation "measure (\<lambda>(killed, cin, addr, n, i, p). nat (n - int i))") auto

declare pipewrite.simps [simp del]

text \<open>The copy loop of \<open>piperead\<close>: a byte is taken out before the copy that may fail.\<close>

function piperead_copy :: "(nat \<Rightarrow> byte \<Rightarrow> 'm \<Rightarrow> bool \<times> 'm) \<Rightarrow> nat \<Rightarrow> int \<Rightarrow> nat \<Rightarrow> pipe \<Rightarrow> 'm \<Rightarrow> pipe \<times> 'm \<times> int" where
  "piperead_copy cout addr n i p m =
     (if int i < n then
        (case pipe_get p of
           None \<Rightarrow> (p, m, int i)
         | Some (c, p') \<Rightarrow>
             (case cout (addr + i) c m of
                (False, m') \<Rightarrow> (p', m', int i)
              | (True, m') \<Rightarrow> piperead_copy cout addr n (i + 1) p' m'))
      else (p, m, int i))"
  by pat_completeness auto
termination
  by (relation "measure (\<lambda>(cout, addr, n, i, p, m). nat (n - int i))") auto

declare piperead_copy.simps [simp del]

definition piperead :: "bool \<Rightarrow> (nat \<Rightarrow> byte \<Rightarrow> 'm \<Rightarrow> bool \<times> 'm) \<Rightarrow> nat \<Rightarrow> int \<Rightarrow> pipe \<Rightarrow> 'm
    \<Rightarrow> pipe \<times> 'm \<times> (unit + int)" where
  "piperead killed cout addr n p m =
     (if nread p = nwrite p \<and> writeopen p then
        if killed then (p, m, Inr (-1)) else (p, m, Inl ())
      else (case piperead_copy cout addr n 0 p m of (p', m', r) \<Rightarrow> (p', m', Inr r)))"

section \<open>The stream in the buffer\<close>

definition pipe_ok :: "pipe \<Rightarrow> bool" where
  "pipe_ok p \<longleftrightarrow> unat (nwrite p - nread p) \<le> PIPESIZE"

definition pipe_bytes :: "pipe \<Rightarrow> byte list" where
  "pipe_bytes p = ring PIPESIZE (pdata p) (nread p) (nwrite p)"

lemma pipe_full: "nwrite p = nread p + of_nat PIPESIZE \<longleftrightarrow> length (pipe_bytes p) = PIPESIZE"
proof -
  have "unat (nwrite p - nread p) = 512 \<longleftrightarrow> nwrite p - nread p = 512"
    by (simp add: word_unat_eq_iff)
  then show ?thesis by (auto simp: pipe_bytes_def length_ring algebra_simps)
qed

interpretation pq: byte_queue pipe_ok pipe_bytes PIPESIZE pipe_put pipe_get
proof
  fix p :: pipe and c :: byte
  assume ok: "pipe_ok p"
  show "length (pipe_bytes p) \<le> PIPESIZE" using ok by (simp add: pipe_ok_def pipe_bytes_def length_ring)
  show "pipe_put c p = None \<longleftrightarrow> length (pipe_bytes p) = PIPESIZE"
    using pipe_full[of p] by (simp add: pipe_put_def)
  show "pipe_get p = None \<longleftrightarrow> pipe_bytes p = []" by (auto simp: pipe_get_def pipe_bytes_def ring_empty)
next
  fix p p' :: pipe and c :: byte
  assume ok: "pipe_ok p" and put: "pipe_put c p = Some p'"
  then have nf: "length (pipe_bytes p) \<noteq> PIPESIZE"
    and p': "p' = p\<lparr>pdata := (pdata p)(unat (nwrite p) mod PIPESIZE := c), nwrite := nwrite p + 1\<rparr>"
    using pipe_full[of p] by (auto simp: pipe_put_def pipe_store_def split: if_splits)
  then have lt: "unat (nwrite p - nread p) < PIPESIZE" using ok by (simp add: pipe_ok_def pipe_bytes_def length_ring)
  have "pipe_bytes p' = pipe_bytes p @ [c]" unfolding pipe_bytes_def p' 
    using ring_put[of PIPESIZE "nwrite p" "nread p" "pdata p" c] lt by simp
  then show "pipe_ok p' \<and> pipe_bytes p' = pipe_bytes p @ [c]"
    using lt by (simp add: pipe_ok_def pipe_bytes_def flip: length_ring[of PIPESIZE "pdata p'"])
      (simp add: length_ring)
next
  fix p p' :: pipe and c :: byte
  assume ok: "pipe_ok p" and get: "pipe_get p = Some (c, p')"
  then have ne: "nwrite p \<noteq> nread p" and c: "c = pdata p (unat (nread p) mod PIPESIZE)" and p': "p' = p\<lparr>nread := nread p + 1\<rparr>"
    by (auto simp: pipe_get_def split: if_splits)
  have e: "pipe_bytes p = c # pipe_bytes p'" using ring_get[OF ne] by (simp add: pipe_bytes_def p' c)
  then have "length (pipe_bytes p') \<le> length (pipe_bytes p)" by simp
  then have "pipe_ok p'" using ok by (simp add: pipe_ok_def pipe_bytes_def length_ring)
  with e show "pipe_ok p' \<and> pipe_bytes p = c # pipe_bytes p'" by simp
qed

section \<open>Reading and writing the stream\<close>

lemma pipewrite_effect:
  assumes "pipe_ok p" and "pipewrite killed cin addr n i p = (p', r)"
  shows "\<exists>k. pipe_ok p' \<and> pipe_bytes p' = pipe_bytes p @ map (\<lambda>j. the (cin (addr + i + j))) [0..<k]
    \<and> (\<forall>j < k. cin (addr + i + j) \<noteq> None) \<and> (0 < k \<longrightarrow> int (i + k) \<le> n)
    \<and> readopen p' = readopen p \<and> writeopen p' = writeopen p
    \<and> (case r of
         Inl i' \<Rightarrow> i' = i + k \<and> int i' < n \<and> length (pipe_bytes p') = PIPESIZE \<and> readopen p
       | Inr v \<Rightarrow> (v = int (i + k) \<and> (n \<le> v \<or> cin (addr + i + k) = None)) \<or> (v = -1 \<and> (\<not> readopen p \<or> killed (i + k))))"
  using assms
proof (induction killed cin addr n i p rule: pipewrite.induct)
  case (1 killed cin addr n i p)
  note s = pipewrite.simps[of killed cin addr n i p]
  show ?case
  proof (cases "int i < n \<and> readopen p \<and> \<not> killed i \<and> nwrite p \<noteq> nread p + of_nat PIPESIZE \<and> cin (addr + i) \<noteq> None")
    case False
    then show ?thesis using "1.prems" pipe_full[of p]
      by (intro exI[of _ 0]) (auto simp: s split: if_splits option.splits)
  next
    case True
    then obtain c where c: "cin (addr + i) = Some c" by auto
    have put: "pipe_put c p = Some (pipe_store c p)" using True by (simp add: pipe_put_def)
    note q = pq.put_items[OF "1.prems"(1) put]
    have rec: "pipewrite killed cin addr n (i + 1) (pipe_store c p) = (p', r)"
      using "1.prems"(2) True c by (simp add: s)
    have ix: "addr + (i + 1) + j = addr + i + Suc j" for j by simp
    have ro: "readopen (pipe_store c p) = readopen p" "writeopen (pipe_store c p) = writeopen p"
      by (simp_all add: pipe_store_def)
    from "1.IH"[OF _ _ _ c _ rec] True q obtain k where
      k: "pipe_ok p'" "pipe_bytes p' = pipe_bytes (pipe_store c p) @ map (\<lambda>j. the (cin (addr + i + Suc j))) [0..<k]"
        "\<forall>j < k. cin (addr + i + Suc j) \<noteq> None" "0 < k \<longrightarrow> int (i + 1 + k) \<le> n"
        "readopen p' = readopen p" "writeopen p' = writeopen p"
      and r: "case r of
         Inl i' \<Rightarrow> i' = i + 1 + k \<and> int i' < n \<and> length (pipe_bytes p') = PIPESIZE \<and> readopen p
       | Inr v \<Rightarrow> (v = int (i + 1 + k) \<and> (n \<le> v \<or> cin (addr + i + Suc k) = None)) \<or> (v = -1 \<and> (\<not> readopen p \<or> killed (i + 1 + k)))"
      unfolding ix ro by blast
    have "map (\<lambda>j. the (cin (addr + i + j))) [0..<Suc k] = c # map (\<lambda>j. the (cin (addr + i + Suc j))) [0..<k]"
      by (simp add: upt_conv_Cons c map_Suc_upt[symmetric] del: upt_Suc)
    moreover have "cin (addr + i + j) \<noteq> None" if "j < Suc k" for j
      using that k(3) c by (cases j) auto
    ultimately show ?thesis using k r q True
      by (intro exI[of _ "Suc k"]) (auto split: sum.splits simp del: upt_Suc)
  qed
qed

lemma piperead_copy_effect:
  assumes "pipe_ok p" and "piperead_copy cout addr n i p m = (p', m', r)"
  shows "\<exists>bs. pipe_ok p' \<and> pipe_bytes p = bs @ pipe_bytes p'
    \<and> m' = fold (\<lambda>j m. snd (cout (addr + i + j) (bs ! j) m)) [0..<length bs] m
    \<and> (r = int (i + length bs) \<and> (n \<le> r \<or> pipe_bytes p' = []) \<or> bs \<noteq> [] \<and> r = int (i + length bs) - 1 \<and> (\<exists>a c m. \<not> fst (cout a c m)))
    \<and> (bs = [] \<or> int (i + length bs) \<le> n)"
  using assms
proof (induction cout addr n i p m rule: piperead_copy.induct)
  case (1 cout addr n i p m)
  note s = piperead_copy.simps[of cout addr n i p m]
  show ?case
  proof (cases "int i < n \<and> pipe_get p \<noteq> None")
    case False
    then have "(p', m', r) = (p, m, int i)" using "1.prems"(2) by (auto simp: s split: if_splits option.splits)
    moreover have "n \<le> int i \<or> pipe_bytes p = []" using False pq.get_empty[OF "1.prems"(1)] by auto
    ultimately show ?thesis using "1.prems"(1) by (intro exI[of _ "[]"]) simp
  next
    case True
    then obtain c q where g: "pipe_get p = Some (c, q)" by auto
    note gi = pq.get_items[OF "1.prems"(1) g]
    obtain b m1 where co: "cout (addr + i) c m = (b, m1)" by force
    show ?thesis
    proof (cases b)
      case False
      then have "p' = q \<and> m' = m1 \<and> r = int i" using "1.prems"(2) True g co by (simp add: s)
      moreover have "\<exists>a c m. \<not> fst (cout a c m)" using co False by (metis fst_conv)
      ultimately show ?thesis using gi co True by (intro exI[of _ "[c]"]) auto
    next
      case b: True
      have rec: "piperead_copy cout addr n (i + 1) q m1 = (p', m', r)"
        using "1.prems"(2) True g co b by (simp add: s)
      have co': "(True, m1) = cout (addr + i) c m" using co b by simp
      from "1.IH"[OF _ g refl co' refl _ rec] True gi obtain bs where
        bs: "pipe_ok p'" "pipe_bytes q = bs @ pipe_bytes p'"
          "m' = fold (\<lambda>j m. snd (cout (addr + (i + 1) + j) (bs ! j) m)) [0..<length bs] m1"
          "r = int (i + 1 + length bs) \<and> (n \<le> r \<or> pipe_bytes p' = []) \<or> bs \<noteq> [] \<and> r = int (i + 1 + length bs) - 1 \<and> (\<exists>a c m. \<not> fst (cout a c m))"
          "bs = [] \<or> int (i + 1 + length bs) \<le> n" by blast
      have "fold (\<lambda>j m. snd (cout (addr + i + j) ((c # bs) ! j) m)) [0..<length (c # bs)] m = m'"
        using bs(3) co by (simp add: upt_conv_Cons map_Suc_upt[symmetric] fold_map comp_def del: upt_Suc)
      then show ?thesis using bs gi True by (intro exI[of _ "c # bs"]) (auto simp del: upt_Suc)
    qed
  qed
qed

text \<open>
  \<open>pipewrite\<close> appends to the stream, in order.  From any point of its loop it adds a run of
  the bytes at the caller's address to the end of the buffer, which never holds more than
  \<open>PIPESIZE\<close>.  It sleeps only with the buffer full and the read end open; it returns the count
  it has written, all of it unless the copy from user space failed, or -1 when the read end is
  closed or the process is killed.
\<close>

theorem pipewrite_appends:
  assumes "pipe_ok p" and "pipewrite killed cin addr n i p = (p', r)"
  shows "\<exists>k. pipe_ok p' \<and> length (pipe_bytes p') \<le> PIPESIZE
    \<and> pipe_bytes p' = pipe_bytes p @ map (\<lambda>j. the (cin (addr + i + j))) [0..<k]
    \<and> (case r of
         Inl i' \<Rightarrow> i' = i + k \<and> int i' < n \<and> length (pipe_bytes p') = PIPESIZE \<and> readopen p
       | Inr v \<Rightarrow> (v = int (i + k) \<and> (n \<le> v \<or> cin (addr + i + k) = None))
           \<or> (v = -1 \<and> (\<not> readopen p \<or> killed (i + k))))"
  using pipewrite_effect[OF assms] pq.items_cap[of p'] by blast

theorem pipewrite_appends_witness:
  "\<exists>p' r k. pipewrite (\<lambda>_. False) (\<lambda>a. Some (of_nat a)) 10 3 0 (pipe_init (\<lambda>_. 0)) = (p', r)
     \<and> pipe_bytes p' = map (\<lambda>j. of_nat (10 + j)) [0..<k]"
proof -
  obtain p' r where w: "pipewrite (\<lambda>_. False) (\<lambda>a. Some (of_nat a)) 10 3 0 (pipe_init (\<lambda>_. 0)) = (p', r)"
    by force
  have "pipe_ok (pipe_init (\<lambda>_. 0))" "pipe_bytes (pipe_init (\<lambda>_. 0)) = []"
    by (simp_all add: pipe_ok_def pipe_init_def pipe_bytes_def ring_def)
  with pipewrite_appends[OF _ w] show ?thesis using w by auto
qed

text \<open>
  \<open>piperead\<close> takes from the front of the stream.  It sleeps only when the pipe is empty and
  the write end open; otherwise it removes a prefix of the buffered bytes, hands them in order
  to the copy, and returns their number (one less when the last copy failed, whose byte is
  lost): all that is there or all that was asked for, so 0 is the end of the stream.
\<close>

theorem piperead_takes:
  assumes "pipe_ok p" and "piperead killed cout addr n p m = (p', m', r)"
  shows "(case r of
      Inl _ \<Rightarrow> pipe_bytes p = [] \<and> writeopen p \<and> p' = p \<and> m' = m
    | Inr v \<Rightarrow> (v = -1 \<and> killed \<and> pipe_bytes p = [] \<and> p' = p \<and> m' = m) \<or>
       (\<exists>bs. pipe_ok p' \<and> pipe_bytes p = bs @ pipe_bytes p'
         \<and> m' = fold (\<lambda>j m. snd (cout (addr + j) (bs ! j) m)) [0..<length bs] m
         \<and> (v = int (length bs) \<and> (n \<le> v \<or> pipe_bytes p' = [])
            \<or> bs \<noteq> [] \<and> v = int (length bs) - 1 \<and> (\<exists>a c m. \<not> fst (cout a c m)))))"
proof (cases "nread p = nwrite p \<and> writeopen p")
  case True
  then have "pipe_bytes p = []" by (simp add: pipe_bytes_def ring_empty)
  then show ?thesis using assms(2) True by (auto simp: piperead_def split: if_splits)
next
  case False
  obtain v where c: "piperead_copy cout addr n 0 p m = (p', m', v)" and r: "r = Inr v"
    using assms(2) False by (auto simp: piperead_def split: prod.splits)
  from piperead_copy_effect[OF assms(1) c] show ?thesis unfolding r sum.case by auto
qed

theorem piperead_takes_witness:
  "\<exists>p' m'. piperead False (\<lambda>a c m. (True, m @ [c])) 0 5 (pipe_init (\<lambda>_. 0)) [] = (p', m', Inl ())
     \<and> p' = pipe_init (\<lambda>_. 0)"
proof -
  have r: "piperead False (\<lambda>a c m. (True, m @ [c])) 0 5 (pipe_init (\<lambda>_. 0)) [] = (pipe_init (\<lambda>_. 0), [], Inl ())"
    by (simp add: piperead_def pipe_init_def)
  have "pipe_ok (pipe_init (\<lambda>_. 0))" by (simp add: pipe_ok_def pipe_init_def)
  from piperead_takes[OF this r] r show ?thesis by auto
qed

section \<open>The pipe between any number of writers and readers\<close>

text \<open>
  Runs of calls in any order, seen from the callers.  \<open>accepted\<close> are the bytes that a run of
  \<open>pipewrite\<close> from byte \<open>i\<close> on passes to the pipe, by what it tells its caller: those up to the
  byte it sleeps at or the count it returns; when it returns -1, those before the iteration that
  found the process killed.  \<open>received\<close> are the bytes that \<open>piperead\<close> hands out: those the caller
  finds at its address, \<open>True\<close>, and the one that was there but could not be stored, \<open>False\<close>, which
  is lost.
\<close>

definition accepted :: "(nat \<Rightarrow> bool) \<Rightarrow> (nat \<Rightarrow> byte option) \<Rightarrow> nat \<Rightarrow> int \<Rightarrow> nat \<Rightarrow> bool \<Rightarrow> nat + int \<Rightarrow> byte list" where
  "accepted killed cin addr n i reader r = map (\<lambda>j. the (cin (addr + i + j)))
     [0..<(case r of Inl i' \<Rightarrow> i' - i
       | Inr v \<Rightarrow> if 0 \<le> v then nat v - i
           else if reader then length (takeWhile (\<lambda>j. \<not> killed j) [i..<nat n]) else 0)]"

definition user_copy :: "(nat \<Rightarrow> bool) \<Rightarrow> nat \<Rightarrow> byte \<Rightarrow> mem \<Rightarrow> bool \<times> mem" where
  "user_copy ok a c m = (if ok a then (True, m(a := c)) else (False, m))"

definition received :: "(nat \<Rightarrow> bool) \<Rightarrow> nat \<Rightarrow> int \<Rightarrow> byte list \<Rightarrow> mem \<Rightarrow> unit + int \<Rightarrow> (byte \<times> bool) list" where
  "received ok addr n bs m r =
     (case r of Inl _ \<Rightarrow> []
      | Inr v \<Rightarrow> map (\<lambda>j. (m (addr + j), True)) [0..<nat v]
          @ (if 0 \<le> v \<and> v < n \<and> nat v < length bs \<and> \<not> ok (addr + nat v) then [(bs ! nat v, False)] else []))"

inductive pipe_step :: "pipe \<times> byte list \<times> (byte \<times> bool) list \<Rightarrow> pipe \<times> byte list \<times> (byte \<times> bool) list \<Rightarrow> bool" where
  p_write: "pipewrite killed cin addr n i p = (p', r) \<Longrightarrow>
    pipe_step (p, sent, taken) (p', sent @ accepted killed cin addr n i (readopen p) r, taken)"
| p_read: "piperead killed (user_copy ok) addr n p m = (p', m', r) \<Longrightarrow>
    pipe_step (p, sent, taken) (p', sent, taken @ received ok addr n (pipe_bytes p) m' r)"
| p_close: "pipeclose w p = (p', freed) \<Longrightarrow> pipe_step (p, sent, taken) (p', sent, taken)"

definition fifo_inv :: "pipe \<times> byte list \<times> (byte \<times> bool) list \<Rightarrow> bool" where
  "fifo_inv s \<longleftrightarrow> (case s of (p, sent, taken) \<Rightarrow> pipe_ok p \<and> sent = map fst taken @ pipe_bytes p)"

lemma accepted_Cons:
  assumes "int i < n" "reader" "\<not> killed i" "cin (addr + i) = Some c"
    and "case r of Inl i' \<Rightarrow> i + 1 \<le> i' | Inr v \<Rightarrow> 0 \<le> v \<longrightarrow> int (i + 1) \<le> v"
  shows "accepted killed cin addr n i reader r = c # accepted killed cin addr n (i + 1) reader r"
proof -
  let ?k = "\<lambda>i. case r of Inl i' \<Rightarrow> i' - i | Inr v \<Rightarrow> if 0 \<le> v then nat v - i
           else if reader then length (takeWhile (\<lambda>j. \<not> killed j) [i..<nat n]) else 0"
  have "[i..<nat n] = i # [i + 1..<nat n]" using assms(1) by (subst upt_conv_Cons) simp_all
  then have k: "?k i = Suc (?k (i + 1))" using assms(2,3,5) by (auto split: sum.splits)
  have "map (\<lambda>j. the (cin (addr + i + j))) [0..<Suc m] = c # map (\<lambda>j. the (cin (addr + (i + 1) + j))) [0..<m]" for m
    by (simp add: upt_conv_Cons assms(4) map_Suc_upt[symmetric] del: upt_Suc)
  then show ?thesis unfolding accepted_def k .
qed

text \<open>What \<open>pipewrite\<close> reports is what it has put into the buffer.\<close>

lemma pipewrite_accepted:
  assumes "pipe_ok p" and "pipewrite killed cin addr n i p = (p', r)"
  shows "pipe_ok p' \<and> pipe_bytes p' = pipe_bytes p @ accepted killed cin addr n i (readopen p) r
    \<and> (case r of Inl i' \<Rightarrow> i \<le> i' | Inr v \<Rightarrow> 0 \<le> v \<longrightarrow> int i \<le> v)"
  using assms
proof (induction killed cin addr n i p rule: pipewrite.induct)
  case (1 killed cin addr n i p)
  note s = pipewrite.simps[of killed cin addr n i p]
  show ?case
  proof (cases "int i < n \<and> readopen p \<and> \<not> killed i \<and> nwrite p \<noteq> nread p + of_nat PIPESIZE \<and> cin (addr + i) \<noteq> None")
    case False
    have "[i..<nat n] = i # [i + 1..<nat n]" if "int i < n" using that by (subst upt_conv_Cons) simp_all
    then show ?thesis using False "1.prems"
      by (auto simp: s accepted_def split: if_splits option.splits)
  next
    case True
    then obtain c where c: "cin (addr + i) = Some c" by auto
    have put: "pipe_put c p = Some (pipe_store c p)" using True by (simp add: pipe_put_def)
    note q = pq.put_items[OF "1.prems"(1) put]
    have rec: "pipewrite killed cin addr n (i + 1) (pipe_store c p) = (p', r)"
      using "1.prems"(2) True c by (simp add: s)
    have ro: "readopen (pipe_store c p) = readopen p" by (simp add: pipe_store_def)
    have IH: "pipe_ok p' \<and> pipe_bytes p' = pipe_bytes (pipe_store c p) @ accepted killed cin addr n (i + 1) (readopen p) r
      \<and> (case r of Inl i' \<Rightarrow> i + 1 \<le> i' | Inr v \<Rightarrow> 0 \<le> v \<longrightarrow> int (i + 1) \<le> v)"
      using "1.IH"[OF _ _ _ c _ rec] True q unfolding ro by blast
    then have "accepted killed cin addr n i (readopen p) r = c # accepted killed cin addr n (i + 1) (readopen p) r"
      using True c by (intro accepted_Cons) auto
    then show ?thesis using IH q by (auto split: sum.splits)
  qed
qed

text \<open>What \<open>piperead\<close> has taken out is what it stored, and the byte of a store that failed.\<close>

lemma read_copy_received:
  assumes "pipe_ok p" and "piperead_copy (user_copy ok) addr n i p m = (p', m', r)"
  shows "\<exists>k. r = int (i + k) \<and> k \<le> length (pipe_bytes p) \<and> pipe_ok p' \<and> (\<forall>a < addr + i. m' a = m a)
    \<and> (\<forall>j < k. m' (addr + i + j) = pipe_bytes p ! j)
    \<and> pipe_bytes p' = drop (if r < n \<and> k < length (pipe_bytes p) \<and> \<not> ok (addr + i + k) then Suc k else k) (pipe_bytes p)"
  using assms
proof (induction "user_copy ok" addr n i p m rule: piperead_copy.induct)
  case (1 addr n i p m)
  note s = piperead_copy.simps[of "user_copy ok" addr n i p m]
  show ?case
  proof (cases "int i < n \<and> pipe_get p \<noteq> None")
    case False
    then have e: "p' = p" "m' = m" "r = int i" using "1.prems"(2) by (auto simp: s split: if_splits option.splits)
    moreover have "n \<le> int i \<or> pipe_bytes p = []" using False pq.get_empty[OF "1.prems"(1)] by auto
    ultimately show ?thesis using "1.prems"(1) by (intro exI[of _ 0]) auto
  next
    case True
    then obtain c q where g: "pipe_get p = Some (c, q)" by auto
    have gi: "pipe_ok q" "pipe_bytes p = c # pipe_bytes q" using pq.get_items[OF "1.prems"(1) g] by simp_all
    show ?thesis
    proof (cases "ok (addr + i)")
      case False
      then have "p' = q \<and> m' = m \<and> r = int i" using "1.prems"(2) True g by (simp add: s user_copy_def)
      then show ?thesis using gi True False by (intro exI[of _ 0]) simp
    next
      case b: True
      have co: "user_copy ok (addr + i) c m = (True, m(addr + i := c))" using b by (simp add: user_copy_def)
      have rec: "piperead_copy (user_copy ok) addr n (i + 1) q (m(addr + i := c)) = (p', m', r)"
        using "1.prems"(2) True g co by (simp add: s)
      obtain k where k: "r = int (i + 1 + k)" "k \<le> length (pipe_bytes q)" "pipe_ok p'"
          "\<And>a. a < addr + (i + 1) \<Longrightarrow> m' a = (m(addr + i := c)) a"
          "\<And>j. j < k \<Longrightarrow> m' (addr + (i + 1) + j) = pipe_bytes q ! j"
          "pipe_bytes p' = drop (if r < n \<and> k < length (pipe_bytes q) \<and> \<not> ok (addr + (i + 1) + k) then Suc k else k) (pipe_bytes q)"
        using "1.hyps"[OF _ g refl co[symmetric] refl gi(1) rec] True by blast
      have "m' (addr + i + j) = pipe_bytes p ! j" if "j < Suc k" for j
        using that k(4)[of "addr + i"] k(5)[of "j - 1"] gi(2) by (cases j) simp_all
      moreover have "m' a = m a" if "a < addr + i" for a using k(4)[of a] that by simp
      ultimately show ?thesis using k(1,2,3,6) gi(2) by (intro exI[of _ "Suc k"]) simp
    qed
  qed
qed

lemma pipe_step_fifo: "pipe_step s s' \<Longrightarrow> fifo_inv s \<Longrightarrow> fifo_inv s'"
  unfolding fifo_inv_def
proof (induction rule: pipe_step.induct)
  case (p_write killed cin addr n i p p' r sent taken)
  then show ?case using pipewrite_accepted[OF _ p_write.hyps] by simp
next
  case (p_read killed ok addr n p m p' m' r sent taken)
  then have pok: "pipe_ok p" and s: "sent = map fst taken @ pipe_bytes p" by simp_all
  show ?case
  proof (cases "nread p = nwrite p \<and> writeopen p")
    case True
    then have "p' = p" "r = Inr (-1) \<or> r = Inl ()" using p_read.hyps by (auto simp: piperead_def split: if_splits)
    then show ?thesis using pok s by (auto simp: received_def)
  next
    case False
    then obtain v where c: "piperead_copy (user_copy ok) addr n 0 p m = (p', m', v)" and r: "r = Inr v"
      using p_read.hyps by (auto simp: piperead_def split: prod.splits)
    from read_copy_received[OF pok c] obtain k where k: "v = int k" "k \<le> length (pipe_bytes p)" "pipe_ok p'"
        "\<And>j. j < k \<Longrightarrow> m' (addr + j) = pipe_bytes p ! j"
        "pipe_bytes p' = drop (if v < n \<and> k < length (pipe_bytes p) \<and> \<not> ok (addr + k) then Suc k else k) (pipe_bytes p)"
      by auto
    have "map (\<lambda>j. m' (addr + j)) [0..<k] = take k (pipe_bytes p)" using k(2,4) by (intro nth_equalityI) simp_all
    then have "map fst (received ok addr n (pipe_bytes p) m' r) @ pipe_bytes p' = pipe_bytes p"
      using k(1,2,5) by (simp add: received_def r comp_def Cons_nth_drop_Suc)
    then show ?thesis using s k(3) by simp
  qed
next
  case (p_close w p p' freed sent taken)
  then have "pipe_bytes p' = pipe_bytes p" "pipe_ok p' = pipe_ok p"
    by (auto simp: pipeclose_def Let_def pipe_bytes_def pipe_ok_def split: if_splits)
  then show ?case using p_close by simp
qed

text \<open>
  C21: a pipe is a first-in first-out stream.  However writers and readers interleave, sleep, fail
  and close, the bytes that the calls of \<open>pipewrite\<close> have told their callers were written are, in that
  order, those that readers have found in their memory, with the one byte each failed copy to a
  reader has lost in its place, followed by those still in the pipe, of which there are never more
  than \<open>PIPESIZE\<close>; also when the 32-bit counters have wrapped.
\<close>

theorem pipe_fifo:
  assumes "pipe_step\<^sup>*\<^sup>* (pipe_init d, [], []) (p, sent, taken)"
  shows "sent = map fst taken @ pipe_bytes p \<and> length (pipe_bytes p) \<le> PIPESIZE"
proof -
  have "fifo_inv (pipe_init d, [], [])"
    by (simp add: fifo_inv_def pipe_ok_def pipe_init_def pipe_bytes_def ring_def)
  with assms have "fifo_inv (p, sent, taken)"
    by (induction rule: rtranclp_induct) (auto intro: pipe_step_fifo)
  then show ?thesis using pq.items_cap[of p] by (simp add: fifo_inv_def)
qed

text \<open>Three bytes are written; a reader gets the first, the copy of the second fails, the third stays.\<close>

lemma demo_pipe:
  "\<exists>p. pipe_step\<^sup>*\<^sup>* (pipe_init (\<lambda>_. 0), [], []) (p, [10, 11, 12], [(10, True), (11, False)])"
proof -
  let ?w = "pipewrite (\<lambda>_. False) (\<lambda>a. Some (of_nat a)) 10 3 0 (pipe_init (\<lambda>_. 0))"
  define p1 where "p1 = (pipe_init (\<lambda>_. 0))\<lparr>pdata := (\<lambda>_. 0)(0 := 10, 1 := 11, 2 := 12), nwrite := 3\<rparr>"
  have w: "?w = (p1, Inr 3)"
    by (simp add: pipewrite.simps pipe_init_def pipe_store_def p1_def)
  have a: "accepted (\<lambda>_. False) (\<lambda>a. Some (of_nat a)) 10 3 0 (readopen (pipe_init (\<lambda>_. 0))) (Inr 3) = [10, 11, 12]"
    by (simp add: accepted_def upt_conv_Cons)
  have 1: "pipe_step (pipe_init (\<lambda>_. 0), [], []) (p1, [] @ [10, 11, 12], [])" using p_write[OF w] unfolding a .
  have b: "pipe_bytes p1 = [10, 11, 12]"
    by (simp add: pipe_bytes_def ring_def p1_def pipe_init_def upt_conv_Cons)
  have r: "piperead False (user_copy (\<lambda>a. a \<noteq> 101)) 100 5 p1 (\<lambda>_. 0) = (p1\<lparr>nread := 2\<rparr>, (\<lambda>_. 0)(100 := 10), Inr 1)"
    by (simp add: piperead_def piperead_copy.simps pipe_get_def p1_def pipe_init_def user_copy_def)
  have g: "received (\<lambda>a. a \<noteq> 101) 100 5 (pipe_bytes p1) ((\<lambda>_. 0)(100 := 10)) (Inr 1) = [(10, True), (11, False)]"
    by (simp add: received_def b)
  have 2: "pipe_step (p1, [10, 11, 12], []) (p1\<lparr>nread := 2\<rparr>, [10, 11, 12], [] @ [(10, True), (11, False)])"
    using p_read[OF r] unfolding g .
  from 1 2 show ?thesis by (intro exI[of _ "p1\<lparr>nread := 2\<rparr>"]) (simp add: converse_rtranclp_into_rtranclp)
qed

theorem pipe_fifo_witness:
  "\<exists>p. pipe_step\<^sup>*\<^sup>* (pipe_init (\<lambda>_. 0), [], []) (p, [10, 11, 12], [(10, True), (11, False)]) \<and> pipe_bytes p = [12]"
proof -
  obtain p where "pipe_step\<^sup>*\<^sup>* (pipe_init (\<lambda>_. 0), [], []) (p, [10, 11, 12], [(10, True), (11, False)])"
    using demo_pipe by blast
  from pipe_fifo[OF this] this show ?thesis by auto
qed

end
