(* ===== verification/Kalloc.thy ===== *)
theory Kalloc imports CString KParam begin

text \<open>
  \<open>kernel/memory/kalloc.c\<close>: the allocator of physical pages.  A free page holds the address of
  the next free page in its first eight bytes, so the free list lives in the memory it manages;
  address 0 ends it.  \<open>lo\<close> and \<open>hi\<close> are \<open>end\<close> and \<open>P2V(PHYSTOP)\<close>, constants of the port's
  linker script and \<open>memlayout.h\<close>.
\<close>

abbreviation (input) PGSIZE :: nat where "PGSIZE \<equiv> 4096"

definition PGROUNDUP :: "nat \<Rightarrow> nat" where
  "PGROUNDUP sz = (sz + PGSIZE - 1) div PGSIZE * PGSIZE"

definition PGROUNDDOWN :: "nat \<Rightarrow> nat" where
  "PGROUNDDOWN a = a div PGSIZE * PGSIZE"

section \<open>Pointers in memory\<close>

definition rd64 :: "mem \<Rightarrow> nat \<Rightarrow> u64" where
  "rd64 b a = ucast (rd32 b a) OR push_bit 32 (ucast (rd32 b (a + 4)))"

definition wr64 :: "mem \<Rightarrow> nat \<Rightarrow> u64 \<Rightarrow> mem" where
  "wr64 b a v = wr32 (wr32 b a (ucast v)) (a + 4) (ucast (drop_bit 32 v))"

lemma rd64_wr64 [mem_simps]: "rd64 (wr64 b a v) a = v"
proof -
  have "rd64 (wr64 b a v) a = ucast (ucast v :: u32) OR push_bit 32 (ucast (ucast (drop_bit 32 v) :: u32))"
    by (simp add: rd64_def wr64_def mem_simps)
  also have "\<dots> = v"
  proof (rule bit_word_eqI)
    fix n assume "n < LENGTH(64)"
    then show "bit (ucast (ucast v :: u32) OR push_bit 32 (ucast (ucast (drop_bit 32 v) :: u32)) :: u64) n = bit v n"
      by (cases "n < 32") (auto simp: bit_simps)
  qed
  finally show ?thesis .
qed

lemma wr64_other: "x < a \<or> a + 8 \<le> x \<Longrightarrow> wr64 b a v x = b x"
  by (auto simp: wr64_def wr32_other)

lemma rd64_cong: "(\<And>i. i < 8 \<Longrightarrow> b (a + i) = b' (a + i)) \<Longrightarrow> rd64 b a = rd64 b' a"
  unfolding rd64_def using rd32_cong[of b a b'] rd32_cong[of b "a + 4" b'] by (simp add: add.assoc)

section \<open>The allocator\<close>

record kmem =
  kfreelist :: nat
  kpages :: mem

definition kfree :: "nat \<Rightarrow> nat \<Rightarrow> nat \<Rightarrow> kmem \<Rightarrow> kmem option" where
  "kfree lo hi pa km =
     (if pa mod PGSIZE \<noteq> 0 \<or> pa < lo \<or> hi \<le> pa then None
      else let m1 = memset (kpages km) pa 1 PGSIZE
        in Some (km\<lparr>kpages := wr64 m1 pa (of_nat (kfreelist km)), kfreelist := pa\<rparr>))"

text \<open>The result is 0 when there is no free page.\<close>

definition kalloc :: "kmem \<Rightarrow> nat \<times> kmem" where
  "kalloc km =
     (let r = kfreelist km;
          km1 = (if r \<noteq> 0 then km\<lparr>kfreelist := unat (rd64 (kpages km) r)\<rparr> else km)
      in (r, if r \<noteq> 0 then km1\<lparr>kpages := memset (kpages km1) r 5 PGSIZE\<rparr> else km1))"

function freerange_from :: "nat \<Rightarrow> nat \<Rightarrow> nat \<Rightarrow> nat \<Rightarrow> kmem \<Rightarrow> kmem option" where
  "freerange_from lo hi p pa_end km =
     (if p + PGSIZE \<le> pa_end
      then Option.bind (kfree lo hi p km) (freerange_from lo hi (p + PGSIZE) pa_end)
      else Some km)"
  by pat_completeness auto
termination
  by (relation "measure (\<lambda>(lo, hi, p, pa_end, km). pa_end - p)") auto

declare freerange_from.simps [simp del]

definition freerange :: "nat \<Rightarrow> nat \<Rightarrow> nat \<Rightarrow> nat \<Rightarrow> kmem \<Rightarrow> kmem option" where
  "freerange lo hi pa_start pa_end km = freerange_from lo hi (PGROUNDUP pa_start) pa_end km"

definition kinit :: "nat \<Rightarrow> nat \<Rightarrow> kmem \<Rightarrow> kmem option" where
  "kinit lo hi km = freerange lo hi lo hi km"

definition kinit1 :: "nat \<Rightarrow> nat \<Rightarrow> nat \<Rightarrow> nat \<Rightarrow> kmem \<Rightarrow> kmem option" where
  "kinit1 lo hi pa_start pa_end km = freerange lo hi pa_start pa_end km"

definition kinit2 :: "nat \<Rightarrow> nat \<Rightarrow> nat \<Rightarrow> nat \<Rightarrow> kmem \<Rightarrow> kmem option" where
  "kinit2 lo hi pa_start pa_end km = freerange lo hi pa_start pa_end km"

section \<open>The interface of a page allocator\<close>

locale page_alloc =
  fixes inv :: "'s \<Rightarrow> bool" and free_pages :: "'s \<Rightarrow> nat set" and valid :: "nat \<Rightarrow> bool"
    and alloc :: "'s \<Rightarrow> nat \<times> 's" and free :: "nat \<Rightarrow> 's \<Rightarrow> 's option"
  assumes valid_free: "inv s \<Longrightarrow> p \<in> free_pages s \<Longrightarrow> valid p \<and> p \<noteq> 0"
    and alloc_none: "inv s \<Longrightarrow> alloc s = (0, s') \<Longrightarrow> free_pages s = {} \<and> s' = s"
    and alloc_some: "inv s \<Longrightarrow> alloc s = (p, s') \<Longrightarrow> p \<noteq> 0 \<Longrightarrow>
      inv s' \<and> p \<in> free_pages s \<and> free_pages s' = free_pages s - {p}"
    and free_some: "inv s \<Longrightarrow> valid p \<Longrightarrow> p \<noteq> 0 \<Longrightarrow> p \<notin> free_pages s \<Longrightarrow>
      \<exists>s'. free p s = Some s' \<and> inv s' \<and> free_pages s' = insert p (free_pages s)"
begin

text \<open>
  Users of the allocator: \<open>None\<close> asks for a page, \<open>Some p\<close> gives back \<open>p\<close> if it is held (a user
  that frees what it does not hold is not one of these).
\<close>

fun use_run :: "nat option list \<Rightarrow> nat set \<Rightarrow> 's \<Rightarrow> (nat set \<times> 's) option" where
  "use_run [] held s = Some (held, s)"
| "use_run (None # es) held s =
     (case alloc s of (p, s1) \<Rightarrow> use_run es (if p = 0 then held else insert p held) s1)"
| "use_run (Some p # es) held s =
     (if p \<in> held then Option.bind (free p s) (use_run es (held - {p})) else use_run es held s)"

lemma use_run_ok:
  assumes "inv s" and "held \<inter> free_pages s = {}" and "\<forall>p \<in> held. valid p \<and> p \<noteq> 0"
  shows "\<exists>held' s'. use_run es held s = Some (held', s') \<and> inv s' \<and> held' \<inter> free_pages s' = {}
    \<and> held' \<union> free_pages s' = held \<union> free_pages s \<and> (\<forall>p \<in> held'. valid p \<and> p \<noteq> 0)"
  using assms
proof (induction es arbitrary: held s)
  case (Cons e es)
  show ?case
  proof (cases e)
    case None
    obtain p s1 where a: "alloc s = (p, s1)" by force
    show ?thesis
    proof (cases "p = 0")
      case True
      then have "s1 = s" using alloc_none[OF Cons.prems(1)] a by simp
      then show ?thesis using Cons.IH[OF Cons.prems] None a True by simp
    next
      case False
      note A = alloc_some[OF Cons.prems(1) a False]
      have "insert p held \<inter> free_pages s1 = {}" "\<forall>q \<in> insert p held. valid q \<and> q \<noteq> 0"
        using A Cons.prems valid_free[OF Cons.prems(1)] by auto
      from Cons.IH[OF _ this] A None a False Cons.prems(2) show ?thesis by auto
    qed
  next
    case (Some p)
    show ?thesis
    proof (cases "p \<in> held")
      case True
      then obtain s1 where f: "free p s = Some s1" and F: "inv s1" "free_pages s1 = insert p (free_pages s)"
        using free_some[OF Cons.prems(1), of p] Cons.prems(2,3) by auto
      have "(held - {p}) \<inter> free_pages s1 = {}" "\<forall>q \<in> held - {p}. valid q \<and> q \<noteq> 0"
        using F Cons.prems by auto
      from Cons.IH[OF F(1) this] Some f True F show ?thesis by auto
    next
      case False
      then show ?thesis using Cons.IH[OF Cons.prems] Some by simp
    qed
  qed
qed auto

end

section \<open>The free list\<close>

text \<open>\<open>chain m a xs\<close>: following the next pointers from \<open>a\<close> passes the pages \<open>xs\<close> and ends at 0.\<close>

fun chain :: "mem \<Rightarrow> nat \<Rightarrow> nat list \<Rightarrow> bool" where
  "chain m a [] \<longleftrightarrow> a = 0"
| "chain m a (x # xs) \<longleftrightarrow> a = x \<and> x \<noteq> 0 \<and> chain m (unat (rd64 m x)) xs"

definition page_ok :: "nat \<Rightarrow> nat \<Rightarrow> nat \<Rightarrow> bool" where
  "page_ok lo hi p \<longleftrightarrow> p mod PGSIZE = 0 \<and> lo \<le> p \<and> p < hi \<and> p \<noteq> 0 \<and> hi < 2 ^ 64"

definition klist :: "nat \<Rightarrow> nat \<Rightarrow> kmem \<Rightarrow> nat list \<Rightarrow> bool" where
  "klist lo hi km xs \<longleftrightarrow> chain (kpages km) (kfreelist km) xs \<and> distinct xs \<and> (\<forall>x \<in> set xs. page_ok lo hi x)"

lemma chain_unique: "chain m a xs \<Longrightarrow> chain m a ys \<Longrightarrow> xs = ys"
proof (induction xs arbitrary: a ys)
  case Nil
  then show ?case by (cases ys) auto
next
  case (Cons x xs)
  then show ?case by (cases ys) auto
qed

lemma chain_cong: "(\<And>x. x \<in> set xs \<Longrightarrow> rd64 m' x = rd64 m x) \<Longrightarrow> chain m' a xs = chain m a xs"
  by (induction xs arbitrary: a) auto

lemma pages_apart:
  assumes "x mod PGSIZE = 0" "y mod PGSIZE = 0" "x \<noteq> (y :: nat)" "i < 8"
  shows "\<not> (y \<le> x + i \<and> x + i < y + PGSIZE)"
proof -
  obtain a b where "x = PGSIZE * a" "y = PGSIZE * b" using assms(1,2) by (auto elim!: dvdE simp: mod_eq_0_iff_dvd)
  moreover from this have "a < b \<or> b < a" using assms(3) by auto
  ultimately show ?thesis using assms(4) by auto
qed

lemma rd64_page:
  assumes "x mod PGSIZE = 0" "y mod PGSIZE = 0" "x \<noteq> y"
  shows rd64_page_memset: "rd64 (memset m y c PGSIZE) x = rd64 m x"
    and rd64_page_wr64: "rd64 (wr64 m y v) x = rd64 m x"
proof -
  have out: "x + i < y \<or> y + PGSIZE \<le> x + i" if "i < 8" for i
    using pages_apart[OF assms that] by linarith
  show "rd64 (memset m y c PGSIZE) x = rd64 m x"
    by (rule rd64_cong) (use out in \<open>fastforce simp: memset_apply\<close>)
  show "rd64 (wr64 m y v) x = rd64 m x"
    by (rule rd64_cong, rule wr64_other) (use out in \<open>fastforce\<close>)
qed

lemma kfree_klist:
  assumes l: "klist lo hi km xs" and p: "page_ok lo hi pa" and new: "pa \<notin> set xs"
  shows "\<exists>km'. kfree lo hi pa km = Some km' \<and> klist lo hi km' (pa # xs)"
proof -
  let ?m = "wr64 (memset (kpages km) pa 1 PGSIZE) pa (of_nat (kfreelist km))"
  have pm: "pa mod PGSIZE = 0" using p by (simp add: page_ok_def)
  have "kfreelist km = 0 \<or> kfreelist km \<in> set xs" using l by (cases xs) (auto simp: klist_def)
  then have "kfreelist km < 2 ^ 64" using l by (auto simp: klist_def page_ok_def)
  then have fl: "unat (of_nat (kfreelist km) :: u64) = kfreelist km"
    by (simp add: unat_of_nat take_bit_nat_eq_self)
  have "rd64 ?m x = rd64 (kpages km) x" if x: "x \<in> set xs" for x
  proof -
    have xm: "x mod PGSIZE = 0" and ne: "x \<noteq> pa" using x l new by (auto simp: klist_def page_ok_def)
    show ?thesis by (simp only: rd64_page_wr64[OF xm pm ne] rd64_page_memset[OF xm pm ne])
  qed
  then have "chain ?m (kfreelist km) xs" using l chain_cong[of xs ?m "kpages km"] by (simp add: klist_def)
  moreover have "kfree lo hi pa km = Some (km\<lparr>kpages := ?m, kfreelist := pa\<rparr>)"
    using p by (simp add: kfree_def Let_def page_ok_def)
  ultimately show ?thesis using l p new by (simp add: klist_def rd64_wr64 fl page_ok_def)
qed

lemma kalloc_klist:
  assumes l: "klist lo hi km xs" and a: "kalloc km = (r, km')"
  shows "case xs of [] \<Rightarrow> r = 0 \<and> km' = km | x # ys \<Rightarrow> r = x \<and> r \<noteq> 0 \<and> klist lo hi km' ys"
proof (cases xs)
  case Nil
  then show ?thesis using l a by (simp add: klist_def kalloc_def)
next
  case (Cons x ys)
  then have x: "kfreelist km = x" "x \<noteq> 0" "x mod PGSIZE = 0" using l by (auto simp: klist_def page_ok_def)
  let ?m = "memset (kpages km) x 5 PGSIZE"
  have "rd64 ?m y = rd64 (kpages km) y" if "y \<in> set ys" for y
    using that l Cons x(3) rd64_page(1)[of y x] by (auto simp: klist_def page_ok_def)
  then have "chain ?m (unat (rd64 (kpages km) x)) ys"
    using l Cons x chain_cong[of ys ?m "kpages km"] by (simp add: klist_def)
  then show ?thesis using l a Cons x by (auto simp: klist_def kalloc_def Let_def)
qed

definition kfree_set :: "kmem \<Rightarrow> nat set" where
  "kfree_set km = {p. \<exists>xs. chain (kpages km) (kfreelist km) xs \<and> p \<in> set xs}"

definition kinv :: "nat \<Rightarrow> nat \<Rightarrow> kmem \<Rightarrow> bool" where
  "kinv lo hi km \<longleftrightarrow> (\<exists>xs. klist lo hi km xs)"

lemma kfree_set_klist: "klist lo hi km xs \<Longrightarrow> kfree_set km = set xs"
  unfolding kfree_set_def klist_def by (auto dest: chain_unique)

interpretation ka: page_alloc "kinv lo hi" kfree_set "page_ok lo hi" kalloc "kfree lo hi" for lo hi
proof
  fix s p assume "kinv lo hi s" "p \<in> kfree_set s"
  then obtain xs where "klist lo hi s xs" "p \<in> set xs" using kfree_set_klist by (auto simp: kinv_def)
  then show "page_ok lo hi p \<and> p \<noteq> 0" by (auto simp: klist_def page_ok_def)
next
  fix s s' assume "kinv lo hi s" "kalloc s = (0, s')"
  then obtain xs where l: "klist lo hi s xs" by (auto simp: kinv_def)
  show "kfree_set s = {} \<and> s' = s"
    using kalloc_klist[OF l \<open>kalloc s = (0, s')\<close>] kfree_set_klist[OF l] by (cases xs) auto
next
  fix s s' p assume "kinv lo hi s" and a: "kalloc s = (p, s')" "p \<noteq> 0"
  then obtain xs where l: "klist lo hi s xs" by (auto simp: kinv_def)
  from kalloc_klist[OF l a(1)] a(2) obtain ys where xs: "xs = p # ys" and l': "klist lo hi s' ys"
    by (cases xs) auto
  have "distinct xs" using l by (simp add: klist_def)
  then show "kinv lo hi s' \<and> p \<in> kfree_set s \<and> kfree_set s' = kfree_set s - {p}"
    using kfree_set_klist[OF l] kfree_set_klist[OF l'] l' xs by (auto simp: kinv_def)
next
  fix s p assume "kinv lo hi s" and p: "page_ok lo hi p" "p \<notin> kfree_set s"
  then obtain xs where l: "klist lo hi s xs" by (auto simp: kinv_def)
  then have "p \<notin> set xs" using p(2) kfree_set_klist by simp
  from kfree_klist[OF l p(1) this] obtain s' where f: "kfree lo hi p s = Some s'"
    and l': "klist lo hi s' (p # xs)" by blast
  have "kfree_set s' = insert p (kfree_set s)"
    unfolding kfree_set_klist[OF l] kfree_set_klist[OF l'] by simp
  with f l' show "\<exists>s'. kfree lo hi p s = Some s' \<and> kinv lo hi s' \<and> kfree_set s' = insert p (kfree_set s)"
    unfolding kinv_def by blast
qed


section \<open>Boot: building the free list\<close>

text \<open>The pages that \<open>freerange\<close> frees, in the order it frees them.\<close>

fun pages_from :: "nat \<Rightarrow> nat \<Rightarrow> nat list" where
  "pages_from p 0 = []"
| "pages_from p (Suc n) = p # pages_from (p + PGSIZE) n"

lemma pages_from_ge: "q \<in> set (pages_from p n) \<Longrightarrow> p \<le> q"
  by (induction n arbitrary: p) (auto, fastforce)

lemma freerange_from_klist:
  assumes "klist lo hi km xs" and "p mod PGSIZE = 0" and "lo \<le> p" and "pa_end \<le> hi" and "hi < 2 ^ 64"
    and "0 < p" and "\<forall>x \<in> set xs. x < p"
  shows "\<exists>km'. freerange_from lo hi p pa_end km = Some km'
    \<and> klist lo hi km' (rev (pages_from p ((pa_end - p) div PGSIZE)) @ xs)"
  using assms
proof (induction lo hi p pa_end km arbitrary: xs rule: freerange_from.induct)
  case (1 lo hi p pa_end km)
  show ?case
  proof (cases "p + PGSIZE \<le> pa_end")
    case True
    have ok: "page_ok lo hi p" using True 1(3,4,5,6,7) by (simp add: page_ok_def)
    obtain km1 where k: "kfree lo hi p km = Some km1" "klist lo hi km1 (p # xs)"
      using kfree_klist[OF 1(2) ok] 1(8) by blast
    have "(p + PGSIZE) mod PGSIZE = 0" using 1(3) by (metis mod_add_self2)
    moreover have "\<forall>x \<in> set (p # xs). x < p + PGSIZE" using 1(8) by auto
    ultimately obtain km' where k': "freerange_from lo hi (p + PGSIZE) pa_end km1 = Some km'"
      "klist lo hi km' (rev (pages_from (p + PGSIZE) ((pa_end - (p + PGSIZE)) div PGSIZE)) @ p # xs)"
      using 1(1)[OF True k(1,2)] 1(4,5,6,7) by (metis trans_le_add1 add_pos_nonneg zero_le)
    obtain d where d: "pa_end = p + PGSIZE + d" using True le_Suc_ex by blast
    have "(pa_end - p) div PGSIZE = Suc ((pa_end - (p + PGSIZE)) div PGSIZE)" by (simp add: d)
    then show ?thesis using k k' True by (simp add: freerange_from.simps[of lo hi p])
  next
    case False
    then have "(pa_end - p) div PGSIZE = 0" by simp
    then show ?thesis using False 1(2) by (simp add: freerange_from.simps[of lo hi p])
  qed
qed

lemma PGROUNDUP_props: "PGROUNDUP a mod PGSIZE = 0" "a \<le> PGROUNDUP a" "PGROUNDUP a < a + PGSIZE"
  unfolding PGROUNDUP_def by (simp, linarith, linarith)

text \<open>
  booting the allocator with \<open>kinit\<close> succeeds and puts every whole page between \<open>end\<close> and
  \<open>PHYSTOP\<close> on the free list, once: the next pointers written into the pages spell out the pages in
  descending order, the page freed last first.
\<close>

theorem kinit_frees_all:
  assumes "0 < lo" and "hi < 2 ^ 64"
  shows "\<exists>km'. kinit lo hi (km\<lparr>kfreelist := 0\<rparr>) = Some km'
    \<and> klist lo hi km' (rev (pages_from (PGROUNDUP lo) ((hi - PGROUNDUP lo) div PGSIZE)))"
proof -
  have "klist lo hi (km\<lparr>kfreelist := 0\<rparr>) []" by (simp add: klist_def)
  from freerange_from_klist[OF this PGROUNDUP_props(1)[of lo] PGROUNDUP_props(2)[of lo] order_refl assms(2)]
  show ?thesis using PGROUNDUP_props(2)[of lo] assms(1) by (simp add: kinit_def freerange_def)
qed

lemma pages_from_1: "pages_from p 1 = [p]"
  by simp

lemma kinit_frees_all_witness:
  "\<exists>km'. kinit 100 8192 (\<lparr>kfreelist = 0, kpages = (\<lambda>_. 0)\<rparr>\<lparr>kfreelist := 0\<rparr>) = Some km'
    \<and> klist 100 8192 km' [PGSIZE]"
proof -
  have "rev (pages_from (PGROUNDUP 100) ((8192 - PGROUNDUP 100) div PGSIZE)) = [PGSIZE]"
    by (simp add: PGROUNDUP_def)
  then show ?thesis using kinit_frees_all[of 100 8192 "\<lparr>kfreelist = 0, kpages = (\<lambda>_. 0)\<rparr>"] by simp
qed

text \<open>
  C22: with any sequence of users' calls, asking for pages and giving back the pages they hold, no
  call panics, \<open>kalloc\<close> never hands out a page that is still held, and every page stays either held
  or free: none is lost and none is invented.
\<close>

theorem kalloc_exclusive:
  assumes "kinv lo hi s" and "held \<inter> kfree_set s = {}" and "\<forall>p \<in> held. page_ok lo hi p"
  shows "\<exists>held' s'. page_alloc.use_run kalloc (kfree lo hi) es held s = Some (held', s') \<and> kinv lo hi s'
    \<and> held' \<inter> kfree_set s' = {} \<and> held' \<union> kfree_set s' = held \<union> kfree_set s"
  using ka.use_run_ok[OF assms(1,2), of es] assms(3) by (auto simp: page_ok_def)

definition demo_kmem :: kmem where
  "demo_kmem = \<lparr>kfreelist = PGSIZE, kpages = (\<lambda>_. 0)\<rparr>"

lemma demo_kmem_klist: "klist PGSIZE (2 * PGSIZE) demo_kmem [PGSIZE]"
  by (simp add: klist_def demo_kmem_def page_ok_def rd64_def rd32_def)

lemma kalloc_exclusive_witness:
  "\<exists>held' s'. page_alloc.use_run kalloc (kfree PGSIZE (2 * PGSIZE)) [None, None, Some PGSIZE] {} demo_kmem = Some (held', s')
    \<and> kinv PGSIZE (2 * PGSIZE) s' \<and> held' \<inter> kfree_set s' = {} \<and> held' \<union> kfree_set s' = {} \<union> kfree_set demo_kmem"
  by (rule kalloc_exclusive) (use demo_kmem_klist in \<open>auto simp: kinv_def\<close>)

end
