(* ===== verification/RefCount.thy ===== *)
theory RefCount imports Main "HOL-Library.Multiset" begin

text \<open>
  The contract of a table of reference-counted objects: an entry with count 0 is free, \<open>alloc\<close> takes
  one with count 1, \<open>dup\<close> and \<open>drop\<close> add and remove a reference.  The holders of the references are
  outside the table; \<open>held\<close> is the multiset of the references they hold.
\<close>

datatype ref_event = RAlloc | RDup nat | RDrop nat

locale ref_table =
  fixes cnt :: "'s \<Rightarrow> nat \<Rightarrow> int" and alloc :: "'s \<Rightarrow> (nat \<times> 's) option"
    and dup :: "nat \<Rightarrow> 's \<Rightarrow> 's option" and drop_ref :: "nat \<Rightarrow> 's \<Rightarrow> 's option"
  assumes alloc_cnt: "alloc s = Some (x, s') \<Longrightarrow> cnt s x = 0 \<and> cnt s' = (cnt s)(x := 1)"
    and dup_cnt: "1 \<le> cnt s x \<Longrightarrow> \<exists>s'. dup x s = Some s' \<and> cnt s' = (cnt s)(x := cnt s x + 1)"
    and drop_cnt: "1 \<le> cnt s x \<Longrightarrow> \<exists>s'. drop_ref x s = Some s' \<and> cnt s' = (cnt s)(x := cnt s x - 1)"
begin

text \<open>
  A run of the holders' calls; \<open>dup\<close> and \<open>drop\<close> are called on references that are held, and an
  \<open>alloc\<close> that finds no free entry changes nothing.
\<close>

fun ref_run :: "ref_event list \<Rightarrow> nat multiset \<Rightarrow> 's \<Rightarrow> (nat multiset \<times> 's) option" where
  "ref_run [] held s = Some (held, s)"
| "ref_run (RAlloc # es) held s =
     (case alloc s of None \<Rightarrow> ref_run es held s | Some (x, s1) \<Rightarrow> ref_run es (add_mset x held) s1)"
| "ref_run (RDup x # es) held s =
     (if x \<in># held then Option.bind (dup x s) (ref_run es (add_mset x held)) else ref_run es held s)"
| "ref_run (RDrop x # es) held s =
     (if x \<in># held then Option.bind (drop_ref x s) (ref_run es (held - {#x#})) else ref_run es held s)"

definition counted :: "nat multiset \<Rightarrow> 's \<Rightarrow> bool" where
  "counted held s \<longleftrightarrow> (\<forall>x. cnt s x = int (count held x))"

lemma counted_pos: "counted held s \<Longrightarrow> x \<in># held \<Longrightarrow> 1 \<le> cnt s x"
  by (simp add: counted_def)

lemma ref_run_counted:
  "counted held s \<Longrightarrow> \<exists>held' s'. ref_run es held s = Some (held', s') \<and> counted held' s'"
proof (induction es arbitrary: held s)
  case (Cons e es)
  show ?case
  proof (cases e)
    case RAlloc
    show ?thesis
    proof (cases "alloc s")
      case (Some p)
      obtain x s1 where p: "p = (x, s1)" by force
      have "counted (add_mset x held) s1"
        using alloc_cnt[OF Some[unfolded p]] Cons.prems by (auto simp: counted_def)
      then show ?thesis using Cons.IH RAlloc Some p by simp
    qed (use Cons RAlloc in simp)
  next
    case (RDup x)
    show ?thesis
    proof (cases "x \<in># held")
      case True
      then obtain s1 where d: "dup x s = Some s1" "cnt s1 = (cnt s)(x := cnt s x + 1)"
        using dup_cnt counted_pos[OF Cons.prems] by blast
      then have "counted (add_mset x held) s1" using Cons.prems by (auto simp: counted_def)
      then show ?thesis using Cons.IH RDup d True by simp
    qed (use Cons RDup in simp)
  next
    case (RDrop x)
    show ?thesis
    proof (cases "x \<in># held")
      case True
      then obtain s1 where d: "drop_ref x s = Some s1" "cnt s1 = (cnt s)(x := cnt s x - 1)"
        using drop_cnt counted_pos[OF Cons.prems] by blast
      then have "counted (held - {#x#}) s1" using Cons.prems True by (auto simp: counted_def of_nat_diff)
      then show ?thesis using Cons.IH RDrop d True by simp
    qed (use Cons RDrop in simp)
  qed
qed auto

text \<open>A reference that is held names an entry no \<open>alloc\<close> can hand out.\<close>

lemma alloc_not_held:
  assumes "counted held s" and "alloc s = Some (x, s')"
  shows "x \<notin># held"
  using alloc_cnt[OF assms(2)] assms(1) by (auto simp: counted_def simp flip: count_greater_zero_iff)

end

end
