(* ===== verification/File.thy ===== *)
theory File imports FsDir Pipe Kalloc RefCount begin

text \<open>
  \<open>kernel/files/file.c\<close>: the table of open files, with the reference counts that file descriptors
  share, and reading, writing and closing through it; and \<open>pipealloc\<close> of \<open>kernel/ipc/pipe.c\<close>, which
  makes two of its entries.

  The state adds the file table, the pipes (by the address of their page) and the page allocator to
  the file system's state.  \<open>kend\<close> and \<open>kstop\<close> are the bounds of the memory the allocator manages.
\<close>

section \<open>State\<close>

datatype ftype = FD_NONE | FD_PIPE | FD_INODE | FD_DEVICE

record ofile =
  ftyp :: ftype
  fref :: int
  freadable :: bool
  fwritable :: bool
  fpipe :: nat
  fip :: nat
  foff :: u32
  fmajor :: u16

record filest = fsst +
  ftab :: "nat \<Rightarrow> ofile"
  pipes :: "nat \<Rightarrow> pipe"
  kpool :: kmem
  kend :: nat
  kstop :: nat

definition page_free :: "nat \<Rightarrow> 'a filest_scheme \<Rightarrow> 'a filest_scheme option" where
  "page_free pa st = do { km \<leftarrow> kfree (kend st) (kstop st) pa (kpool st); Some (st\<lparr>kpool := km\<rparr>) }"

definition page_alloc_st :: "'a filest_scheme \<Rightarrow> nat \<times> 'a filest_scheme" where
  "page_alloc_st st = (case kalloc (kpool st) of (pa, km) \<Rightarrow> (pa, st\<lparr>kpool := km\<rparr>))"

section \<open>The table\<close>

definition filealloc :: "(nat \<Rightarrow> ofile) \<Rightarrow> (nat \<times> (nat \<Rightarrow> ofile)) option" where
  "filealloc ft =
     (case find (\<lambda>f. fref (ft f) = 0) [0..<NFILE] of
        None \<Rightarrow> None
      | Some f \<Rightarrow> Some (f, ft(f := (ft f)\<lparr>fref := 1\<rparr>)))"

definition filedup :: "nat \<Rightarrow> (nat \<Rightarrow> ofile) \<Rightarrow> (nat \<Rightarrow> ofile) option" where
  "filedup f ft = (if fref (ft f) < 1 then None else Some (ft(f := (ft f)\<lparr>fref := fref (ft f) + 1\<rparr>)))"

text \<open>
  The part of \<open>fileclose\<close> under \<open>ftable.lock\<close>: it drops a reference, and hands out the old entry
  (\<open>ff\<close>) when it was the last.
\<close>

definition file_drop :: "nat \<Rightarrow> (nat \<Rightarrow> ofile) \<Rightarrow> (ofile option \<times> (nat \<Rightarrow> ofile)) option" where
  "file_drop f ft =
     (if fref (ft f) < 1 then None
      else let n = fref (ft f) - 1 in
        if n > 0 then Some (None, ft(f := (ft f)\<lparr>fref := n\<rparr>))
        else Some (Some ((ft f)\<lparr>fref := n\<rparr>), ft(f := (ft f)\<lparr>fref := 0, ftyp := FD_NONE\<rparr>)))"

section \<open>Waiting for the log\<close>

text \<open>
  A call that sleeps in \<open>begin_op\<close> goes on in the state the other processes have left: \<open>w\<close> takes the
  state in which the call sleeps to the one in which it is woken.  A call that is never let in does
  not return, which is \<open>None\<close>, as a panic is.
\<close>

partial_function (option) begin_wait :: "('a logst_scheme \<Rightarrow> 'a logst_scheme) \<Rightarrow> 'a logst_scheme \<Rightarrow> 'a logst_scheme option" where
  "begin_wait w st = (case begin_op st of Proceeds st' \<Rightarrow> Some st' | Sleeps \<Rightarrow> begin_wait w (w st))"

lemma begin_wait_Proceeds: "begin_op st = Proceeds st' \<Longrightarrow> begin_wait w st = Some st'"
  by (simp add: begin_wait.simps)

definition fileclose :: "('a filest_scheme \<Rightarrow> 'a filest_scheme) \<Rightarrow> nat \<Rightarrow> 'a filest_scheme \<Rightarrow> 'a filest_scheme option" where
  "fileclose w f st = do {
     (last, ft) \<leftarrow> file_drop f (ftab st);
     let st = st\<lparr>ftab := ft\<rparr>;
     (case last of
        None \<Rightarrow> Some st
      | Some ff \<Rightarrow>
          if ftyp ff = FD_PIPE then
            (case pipeclose (fwritable ff) (pipes st (fpipe ff)) of (pi, freed) \<Rightarrow>
               let st = st\<lparr>pipes := (pipes st)(fpipe ff := pi)\<rparr>
               in if freed then page_free (fpipe ff) st else Some st)
          else if ftyp ff = FD_INODE \<or> ftyp ff = FD_DEVICE then do {
            st \<leftarrow> begin_wait w st; st \<leftarrow> iput (fip ff) st; end_op st
          } else Some st)
   }"

section \<open>Reading and writing\<close>

text \<open>
  The bytes of \<open>struct stat\<close>; \<open>pad\<close> is what the kernel's stack holds in the four bytes of padding
  before \<open>size\<close>, which are copied out with the rest.
\<close>

definition bytes32 :: "u32 \<Rightarrow> byte list" where
  "bytes32 v = map (\<lambda>i. ucast (drop_bit (8 * i) v)) [0..<4]"

definition bytes16 :: "u16 \<Rightarrow> byte list" where
  "bytes16 v = map (\<lambda>i. ucast (drop_bit (8 * i) v)) [0..<2]"

definition bytes64 :: "u64 \<Rightarrow> byte list" where
  "bytes64 v = map (\<lambda>i. ucast (drop_bit (8 * i) v)) [0..<8]"

definition stat_bytes :: "byte list \<Rightarrow> stat \<Rightarrow> byte list" where
  "stat_bytes pad s = bytes32 (of_nat (st_dev s)) @ bytes32 (of_nat (st_ino s)) @ bytes16 (st_type s)
     @ bytes16 (st_nlink s) @ take 4 pad @ bytes64 (st_size s)"

definition filestat :: "byte list \<Rightarrow> 'm copyout_fn \<Rightarrow> nat \<Rightarrow> nat \<Rightarrow> 'a filest_scheme \<Rightarrow> 'm
    \<Rightarrow> (int \<times> 'a filest_scheme \<times> 'm) option" where
  "filestat pad cp f addr st m =
     (let fl = ftab st f in
      if ftyp fl = FD_INODE \<or> ftyp fl = FD_DEVICE then do {
        st \<leftarrow> ilock (fip fl) st;
        let s = stati (fip fl) st;
        st \<leftarrow> iunlock (fip fl) st;
        (case cp addr (stat_bytes pad s) m of
           (False, m') \<Rightarrow> Some (-1, st, m')
         | (True, m') \<Rightarrow> Some (0, st, m'))
      } else Some (-1, st, m))"

text \<open>
  \<open>devsw[major].read\<close> and \<open>.write\<close> as tables of functions on the user's memory (and on whatever else
  the device reaches); the call's result is an \<open>int\<close>.
\<close>

type_synonym 'm dev_fn = "nat \<Rightarrow> int \<Rightarrow> 'm \<Rightarrow> int \<times> 'm"

definition bad_dev :: "(nat \<Rightarrow> 'm dev_fn option) \<Rightarrow> u16 \<Rightarrow> bool" where
  "bad_dev devs mj \<longleftrightarrow> sint mj < 0 \<or> sint mj \<ge> int NDEV \<or> devs (unat mj) = None"

text \<open>
  \<open>fileread\<close> up to its return, or to where \<open>piperead\<close> sleeps.  The user's memory is \<open>m\<close>, written with
  \<open>cp\<close>.
\<close>

definition fileread :: "(nat \<Rightarrow> 'm dev_fn option) \<Rightarrow> bool \<Rightarrow> 'm copyout_fn \<Rightarrow> nat \<Rightarrow> nat \<Rightarrow> int
    \<Rightarrow> 'a filest_scheme \<Rightarrow> 'm \<Rightarrow> (int wait_res \<times> 'a filest_scheme \<times> 'm) option" where
  "fileread devs killed cp f addr n st m =
     (let fl = ftab st f in
      if \<not> freadable fl then Some (Proceeds (-1), st, m)
      else (case ftyp fl of
        FD_PIPE \<Rightarrow>
          (case piperead killed (\<lambda>a c. cp a [c]) addr n (pipes st (fpipe fl)) m of
             (pi, m', r) \<Rightarrow> Some (case r of Inl _ \<Rightarrow> Sleeps | Inr v \<Rightarrow> Proceeds v,
               st\<lparr>pipes := (pipes st)(fpipe fl := pi)\<rparr>, m'))
      | FD_DEVICE \<Rightarrow>
          if bad_dev devs (fmajor fl) then Some (Proceeds (-1), st, m)
          else (case the (devs (unat (fmajor fl))) addr n m of (r, m') \<Rightarrow> Some (Proceeds r, st, m'))
      | FD_INODE \<Rightarrow> do {
          st \<leftarrow> ilock (fip fl) st;
          (r, st, m') \<leftarrow> readi (fip fl) cp addr (foff fl) (of_int n) st m;
          let st = (if r > 0 then st\<lparr>ftab := (ftab st)(f := fl\<lparr>foff := foff fl + of_int r\<rparr>)\<rparr> else st);
          st \<leftarrow> iunlock (fip fl) st;
          Some (Proceeds r, st, m')
        }
      | FD_NONE \<Rightarrow> None))"

text \<open>\<open>max\<close> of \<open>filewrite\<close>: \<open>((MAXOPBLOCKS-1-1-2) / 2) * BSIZE\<close>.\<close>

abbreviation (input) WRITE_MAX :: int where "WRITE_MAX \<equiv> 3072"

text \<open>One round of the loop: a transaction of at most \<open>WRITE_MAX\<close> bytes.\<close>

definition write_chunk :: "('a filest_scheme \<Rightarrow> 'a filest_scheme) \<Rightarrow> copyin_fn \<Rightarrow> nat \<Rightarrow> nat \<Rightarrow> int
    \<Rightarrow> 'a filest_scheme \<Rightarrow> (int \<times> 'a filest_scheme) option" where
  "write_chunk w ci f addr n1 st =
     (let ip = fip (ftab st f) in do {
        st \<leftarrow> begin_wait w st;
        st \<leftarrow> ilock ip st;
        (r, st) \<leftarrow> writei ip ci addr (foff (ftab st f)) (of_int n1) st;
        let st = (if r > 0 then st\<lparr>ftab := (ftab st)(f := (ftab st f)\<lparr>foff := foff (ftab st f) + of_int r\<rparr>)\<rparr> else st);
        st \<leftarrow> iunlock ip st;
        st \<leftarrow> end_op st;
        Some (r, st)
      })"

function filewrite_loop :: "('a filest_scheme \<Rightarrow> 'a filest_scheme) \<Rightarrow> copyin_fn \<Rightarrow> nat \<Rightarrow> nat \<Rightarrow> int \<Rightarrow> int
    \<Rightarrow> 'a filest_scheme \<Rightarrow> (int \<times> 'a filest_scheme) option" where
  "filewrite_loop w ci f addr n i st =
     (if i < n then
        let n1 = (if n - i > WRITE_MAX then WRITE_MAX else n - i) in do {
          (r, st) \<leftarrow> write_chunk w ci f (addr + nat i) n1 st;
          (if r \<noteq> n1 then Some (i, st) else filewrite_loop w ci f addr n (i + r) st)
        }
      else Some (i, st))"
  by pat_completeness auto
termination
  by (relation "measure (\<lambda>(w, ci, f, addr, n, i, st). nat (n - i))") (auto split: if_splits)

declare filewrite_loop.simps [simp del]

definition filewrite :: "('a filest_scheme \<Rightarrow> 'a filest_scheme) \<Rightarrow> (nat \<Rightarrow> 'm dev_fn option) \<Rightarrow> (nat \<Rightarrow> bool)
    \<Rightarrow> copyin_fn \<Rightarrow> nat \<Rightarrow> nat \<Rightarrow> int \<Rightarrow> 'a filest_scheme \<Rightarrow> 'm \<Rightarrow> (int wait_res \<times> 'a filest_scheme \<times> 'm) option" where
  "filewrite w devs killed ci f addr n st m =
     (let fl = ftab st f in
      if \<not> fwritable fl then Some (Proceeds (-1), st, m)
      else (case ftyp fl of
        FD_PIPE \<Rightarrow>
          (case pipewrite killed (\<lambda>a. case ci a 1 of (bs, ok) \<Rightarrow> if ok then Some (hd bs) else None) addr n 0
               (pipes st (fpipe fl)) of
             (pi, r) \<Rightarrow> Some (case r of Inl _ \<Rightarrow> Sleeps | Inr v \<Rightarrow> Proceeds v,
               st\<lparr>pipes := (pipes st)(fpipe fl := pi)\<rparr>, m))
      | FD_DEVICE \<Rightarrow>
          if bad_dev devs (fmajor fl) then Some (Proceeds (-1), st, m)
          else (case the (devs (unat (fmajor fl))) addr n m of (r, m') \<Rightarrow> Some (Proceeds r, st, m'))
      | FD_INODE \<Rightarrow> do {
          (i, st) \<leftarrow> filewrite_loop w ci f addr n 0 st;
          Some (Proceeds (if i = n then n else -1), st, m)
        }
      | FD_NONE \<Rightarrow> None))"

section \<open>Making a pipe\<close>

text \<open>
  \<open>pipealloc\<close>: \<open>Some\<close> of the read end, the write end, or \<open>None\<close> for -1.  Each step that fails gives
  back what the earlier ones took.
\<close>

definition pipe_ends :: "nat \<Rightarrow> nat \<Rightarrow> nat \<Rightarrow> (nat \<Rightarrow> ofile) \<Rightarrow> (nat \<Rightarrow> ofile)" where
  "pipe_ends pi f0 f1 ft =
     (let ft = ft(f0 := (ft f0)\<lparr>ftyp := FD_PIPE, freadable := True, fwritable := False, fpipe := pi\<rparr>)
      in ft(f1 := (ft f1)\<lparr>ftyp := FD_PIPE, freadable := False, fwritable := True, fpipe := pi\<rparr>))"

definition pipealloc :: "('a filest_scheme \<Rightarrow> 'a filest_scheme) \<Rightarrow> (nat \<Rightarrow> byte) \<Rightarrow> 'a filest_scheme
    \<Rightarrow> ((nat \<times> nat) option \<times> 'a filest_scheme) option" where
  "pipealloc w junk st =
     (case filealloc (ftab st) of
        None \<Rightarrow> Some (None, st)
      | Some (f0, ft) \<Rightarrow>
          (let st = st\<lparr>ftab := ft\<rparr> in
           (case filealloc (ftab st) of
              None \<Rightarrow> do { st \<leftarrow> fileclose w f0 st; Some (None, st) }
            | Some (f1, ft) \<Rightarrow>
                (let st = st\<lparr>ftab := ft\<rparr> in
                 (case page_alloc_st st of (pi, st) \<Rightarrow>
                    if pi = 0 then do {
                      st \<leftarrow> fileclose w f0 st; st \<leftarrow> fileclose w f1 st; Some (None, st)
                    } else Some (Some (f0, f1), st\<lparr>pipes := (pipes st)(pi := pipe_init junk),
                        ftab := pipe_ends pi f0 f1 (ftab st)\<rparr>))))))"

section \<open>Reference counts\<close>

definition file_close_ref :: "nat \<Rightarrow> (nat \<Rightarrow> ofile) \<Rightarrow> (nat \<Rightarrow> ofile) option" where
  "file_close_ref f ft = map_option snd (file_drop f ft)"

lemma filealloc_SomeD:
  assumes "filealloc ft = Some (f, ft')"
  shows "f < NFILE" "fref (ft f) = 0" "ft' = ft(f := (ft f)\<lparr>fref := 1\<rparr>)"
  using assms by (auto simp: filealloc_def find_Some_iff split: option.splits)

interpretation fr: ref_table "\<lambda>ft x. fref (ft x)" filealloc filedup file_close_ref
proof
  fix ft ft' x assume "filealloc ft = Some (x, ft')"
  from filealloc_SomeD[OF this] show "fref (ft x) = 0 \<and> (\<lambda>x. fref (ft' x)) = (\<lambda>x. fref (ft x))(x := 1)"
    by auto
next
  fix ft x assume "1 \<le> fref ((ft :: nat \<Rightarrow> ofile) x)"
  then show "\<exists>ft'. filedup x ft = Some ft' \<and> (\<lambda>x. fref (ft' x)) = (\<lambda>x. fref (ft x))(x := fref (ft x) + 1)"
    by (auto simp: filedup_def)
next
  fix ft x assume "1 \<le> fref ((ft :: nat \<Rightarrow> ofile) x)"
  then show "\<exists>ft'. file_close_ref x ft = Some ft' \<and> (\<lambda>x. fref (ft' x)) = (\<lambda>x. fref (ft x))(x := fref (ft x) - 1)"
    by (cases "1 < fref (ft x)") (auto simp: file_close_ref_def file_drop_def Let_def intro!: ext)
qed

text \<open>
  the file table counts references.  Over any run of \<open>filealloc\<close>, \<open>filedup\<close> and \<open>fileclose\<close> by
  callers that only duplicate and close references they hold, no call panics and every entry's
  count is the number of references to it that are held; so an entry is reused only when nobody
  holds it.
\<close>

theorem file_refs_counted:
  assumes "\<forall>x. fref (ft x) = int (count held x)"
  shows "\<exists>held' ft'. ref_table.ref_run filealloc filedup file_close_ref es held ft = Some (held', ft')
    \<and> (\<forall>x. fref (ft' x) = int (count held' x))
    \<and> (\<forall>x ft''. filealloc ft' = Some (x, ft'') \<longrightarrow> x \<notin># held')"
  using fr.ref_run_counted[of held ft es] fr.alloc_not_held assms unfolding fr.counted_def by metis

definition no_files :: "nat \<Rightarrow> ofile" where
  "no_files = (\<lambda>_. \<lparr>ftyp = FD_NONE, fref = 0, freadable = False, fwritable = False, fpipe = 0,
     fip = 0, foff = 0, fmajor = 0\<rparr>)"

lemma file_refs_counted_witness:
  "\<exists>held' ft'. ref_table.ref_run filealloc filedup file_close_ref [RAlloc, RDup 0, RDrop 0] {#} no_files = Some (held', ft')
    \<and> (\<forall>x. fref (ft' x) = int (count held' x))
    \<and> (\<forall>x ft''. filealloc ft' = Some (x, ft'') \<longrightarrow> x \<notin># held')"
  by (rule file_refs_counted) (simp add: no_files_def)

end
