(* ===== verification/Vm.thy ===== *)
theory Vm imports Kalloc begin

text \<open>
  Virtual memory, \<open>forks/arm64/kernel/vm.c\<close>: three-level page tables kept in pages of the page
  allocator, and the copies between kernel and user memory that go through them.

  The state is the allocator's: the memory \<open>kpages\<close> by kernel virtual address, and its free list.
  A \<open>pagetable_t\<close> is the kernel address of a page of 512 entries of 8 bytes; user addresses and
  entries are \<open>u64\<close>s, with C's wrap-around.  \<open>lo\<close> is the linker's \<open>end\<close>.  Loading \<open>TTBR0\<close> and
  flushing the TLB (\<open>kvminithart\<close>, \<open>switchuvm\<close>, \<open>switchkvm\<close>) has no effect on this state.
\<close>

section \<open>memlayout.h and aarch64.h\<close>

abbreviation (input) KERNBASE :: u64 where "KERNBASE \<equiv> 0xffffff8000000000"
abbreviation (input) EXTMEM :: u64 where "EXTMEM \<equiv> 0x40000000"
abbreviation (input) PHYSTOP :: u64 where "PHYSTOP \<equiv> 0x48000000"
abbreviation (input) MAXVA :: u64 where "MAXVA \<equiv> 0xffffffc000000000"
abbreviation (input) PTE_VALID :: u64 where "PTE_VALID \<equiv> 1"
abbreviation (input) PTE_TABLE :: u64 where "PTE_TABLE \<equiv> 2"
abbreviation (input) PTE_V :: u64 where "PTE_V \<equiv> 3"
abbreviation (input) PTE_AF :: u64 where "PTE_AF \<equiv> 0x400"
abbreviation (input) PTE_U :: u64 where "PTE_U \<equiv> 0x40"
abbreviation (input) PTE_RO :: u64 where "PTE_RO \<equiv> 0x80"
abbreviation (input) PTE_XN :: u64 where "PTE_XN \<equiv> 0x60000000000000"
abbreviation (input) PTE_DEVICE :: u64 where "PTE_DEVICE \<equiv> 0"
abbreviation (input) PTE_NORMAL :: u64 where "PTE_NORMAL \<equiv> 4"
abbreviation (input) PGSZ :: u64 where "PGSZ \<equiv> 4096"

definition V2P :: "u64 \<Rightarrow> u64" where
  "V2P a = a - KERNBASE"

definition P2V :: "u64 \<Rightarrow> nat" where
  "P2V a = unat (a + KERNBASE)"

abbreviation (input) KTOP :: nat where "KTOP \<equiv> 0xffffff8048000000" \<comment> \<open>\<open>P2V(PHYSTOP)\<close>\<close>

definition PA2PTE :: "u64 \<Rightarrow> u64" where
  "PA2PTE pa = pa AND 0xfffffffff000"

definition PTE2PA :: "u64 \<Rightarrow> u64" where
  "PTE2PA pte = pte AND 0xfffffffff000"

definition PTE_FLAGS :: "u64 \<Rightarrow> u64" where
  "PTE_FLAGS pte = pte AND 0x600000000003ff"

definition PX :: "nat \<Rightarrow> u64 \<Rightarrow> nat" where
  "PX level va = unat (drop_bit (39 - level * 9) va AND 0x1ff)"

definition pg_down :: "u64 \<Rightarrow> u64" where
  "pg_down a = a AND NOT 4095"

definition pg_up :: "u64 \<Rightarrow> u64" where
  "pg_up a = (a + PGSZ - 1) AND NOT 4095"

section \<open>Walking a page table\<close>

definition ent :: "kmem \<Rightarrow> nat \<Rightarrow> nat \<Rightarrow> u64" where
  "ent km pt i = rd64 (kpages km) (pt + 8 * i)"

definition set_pte :: "nat \<Rightarrow> u64 \<Rightarrow> kmem \<Rightarrow> kmem" where
  "set_pte a v km = km\<lparr>kpages := wr64 (kpages km) a v\<rparr>"

definition zero_page :: "nat \<Rightarrow> kmem \<Rightarrow> kmem" where
  "zero_page p km = km\<lparr>kpages := memset (kpages km) p 0 PGSIZE\<rparr>"

definition is_table :: "u64 \<Rightarrow> bool" where
  "is_table pte \<longleftrightarrow> pte AND PTE_VALID \<noteq> 0 \<and> pte AND PTE_TABLE \<noteq> 0"

text \<open>The loop of \<open>walk\<close>; the address of the entry, 0 for a null pointer.\<close>

function walk_from :: "nat \<Rightarrow> nat \<Rightarrow> u64 \<Rightarrow> bool \<Rightarrow> kmem \<Rightarrow> nat \<times> kmem" where
  "walk_from level pt va alloc km =
     (if level < 3 then
        let pte = ent km pt (PX level va) in
        if is_table pte then walk_from (level + 1) (P2V (PTE2PA pte)) va alloc km
        else if \<not> alloc then (0, km)
        else (case kalloc km of (p, km) \<Rightarrow>
          if p = 0 then (0, km)
          else walk_from (level + 1) p va alloc
            (set_pte (pt + 8 * PX level va) (PA2PTE (V2P (of_nat p)) OR PTE_TABLE OR PTE_VALID) (zero_page p km)))
      else (pt + 8 * PX 3 va, km))"
  by pat_completeness auto
termination
  by (relation "measure (\<lambda>(level, pt, va, alloc, km). 3 - level)") auto

declare walk_from.simps [simp del]

definition walk :: "nat \<Rightarrow> u64 \<Rightarrow> bool \<Rightarrow> kmem \<Rightarrow> (nat \<times> kmem) option" where
  "walk pt va alloc km = (if va \<ge> MAXVA then None else Some (walk_from 1 pt va alloc km))"

text \<open>Without \<open>alloc\<close> the walk changes nothing.\<close>

definition walk_ro :: "nat \<Rightarrow> u64 \<Rightarrow> kmem \<Rightarrow> nat option" where
  "walk_ro pt va km = map_option fst (walk pt va False km)"

definition walkaddr :: "nat \<Rightarrow> u64 \<Rightarrow> kmem \<Rightarrow> u64" where
  "walkaddr pt va km =
     (if va \<ge> MAXVA then 0
      else let a = fst (walk_from 1 pt va False km) in
        if a = 0 then 0
        else let pte = rd64 (kpages km) a in
          if pte AND PTE_V \<noteq> PTE_V then 0
          else if pte AND PTE_AF = 0 then 0
          else if pte AND PTE_U = 0 then 0
          else PTE2PA pte)"

definition uva2ka :: "nat \<Rightarrow> u64 \<Rightarrow> kmem \<Rightarrow> nat" where
  "uva2ka pt va km = (let pa = walkaddr pt va km in if pa = 0 then 0 else P2V pa)"

section \<open>Mapping\<close>

text \<open>
  The loop of \<open>mappages\<close>; \<open>n\<close> is the number of pages after the one at \<open>a\<close>, so the loop breaks, as
  \<open>a == last\<close> does, at 0.
\<close>

fun mappages_loop :: "nat \<Rightarrow> nat \<Rightarrow> u64 \<Rightarrow> u64 \<Rightarrow> u64 \<Rightarrow> kmem \<Rightarrow> (bool \<times> kmem) option" where
  "mappages_loop n pt a pa perm km = do {
     (pte, km) \<leftarrow> walk pt a True km;
     (if pte = 0 then Some (False, km)
      else if rd64 (kpages km) pte AND PTE_AF \<noteq> 0 then None
      else let km = set_pte pte (PA2PTE pa OR perm OR PTE_AF OR PTE_V) km in
        (case n of 0 \<Rightarrow> Some (True, km)
         | Suc n \<Rightarrow> mappages_loop n pt (a + PGSZ) (pa + PGSZ) perm km))
   }"

declare mappages_loop.simps [simp del]

definition mappages :: "nat \<Rightarrow> u64 \<Rightarrow> u64 \<Rightarrow> u64 \<Rightarrow> u64 \<Rightarrow> kmem \<Rightarrow> (bool \<times> kmem) option" where
  "mappages pt va sz pa perm km =
     (if sz = 0 then None
      else if pa \<ge> PHYSTOP then None
      else let a = pg_down va; last = pg_down (va + sz - 1)
        in mappages_loop (unat (last - a) div PGSIZE) pt a pa perm km)"

lemma mappages_loop_MAXVA: "mappages_loop n pt a pa perm km = Some r \<Longrightarrow> a < MAXVA"
  by (subst (asm) mappages_loop.simps) (auto simp: walk_def Option.bind_eq_Some_conv not_le split: if_splits)

lemma next_page: "a < MAXVA \<Longrightarrow> unat (a + PGSZ) = unat a + PGSIZE"
proof -
  assume "a < MAXVA"
  then have "unat a < 18446743798831644672" by (simp add: word_less_nat_alt)
  then show ?thesis by (simp add: unat_add_lem[THEN iffD1])
qed

lemma mask12: "(4095 :: u64) = mask 12"
  by (simp add: mask_eq_exp_minus_1)

lemma unat_pg_down: "unat (pg_down a) = unat a div PGSIZE * PGSIZE"
  using unat_and_not_mask[of a 12] by (simp add: pg_down_def mask12)

lemma pg_down_MAXVA: "pg_down a < MAXVA \<Longrightarrow> a < MAXVA"
  using unat_pg_down[of a] by (simp add: word_less_nat_alt)

section \<open>Unmapping\<close>

definition page_free_km :: "nat \<Rightarrow> nat \<Rightarrow> kmem \<Rightarrow> kmem option" where
  "page_free_km lo pa km = kfree lo KTOP pa km"

function uvmunmap_loop :: "nat \<Rightarrow> nat \<Rightarrow> u64 \<Rightarrow> u64 \<Rightarrow> bool \<Rightarrow> kmem \<Rightarrow> kmem option" where
  "uvmunmap_loop lo pt a end_va do_free km =
     (if a < end_va then
        (case walk pt a False km of
           None \<Rightarrow> None
         | Some (pte, _) \<Rightarrow>
             if pte = 0 then None
             else let e = rd64 (kpages km) pte in
               if e AND PTE_V \<noteq> PTE_V then None
               else if e AND PTE_AF = 0 then None
               else do {
                 km \<leftarrow> (if do_free then page_free_km lo (P2V (PTE2PA e)) km else Some km);
                 uvmunmap_loop lo pt (a + PGSZ) end_va do_free (set_pte pte 0 km)
               })
      else Some km)"
  by pat_completeness auto
termination
proof (relation "measure (\<lambda>(lo, pt, a, end_va, do_free, km). 2 ^ 64 - unat a)", goal_cases)
  case (2 lo pt a end_va do_free km p pte k e km')
  have "a < MAXVA" using 2 by (auto simp: walk_def split: if_splits)
  then show ?case using next_page[of a] unsigned_less[of a, where 'a = nat] by simp
qed simp

declare uvmunmap_loop.simps [simp del]

definition uvmunmap :: "nat \<Rightarrow> nat \<Rightarrow> u64 \<Rightarrow> u64 \<Rightarrow> bool \<Rightarrow> kmem \<Rightarrow> kmem option" where
  "uvmunmap lo pt va npages do_free km =
     (if va mod PGSZ \<noteq> 0 then None
      else uvmunmap_loop lo pt va (va + npages * PGSZ) do_free km)"

text \<open>\<open>npages\<close> is an \<open>int\<close> here, and widened with its sign for the call.\<close>

definition uvmdealloc :: "nat \<Rightarrow> nat \<Rightarrow> u64 \<Rightarrow> u64 \<Rightarrow> kmem \<Rightarrow> (u64 \<times> kmem) option" where
  "uvmdealloc lo pt oldsz newsz km =
     (if newsz \<ge> oldsz then Some (oldsz, km)
      else do {
        km \<leftarrow> (if pg_up newsz < pg_up oldsz
          then let npages = ucast ((pg_up oldsz - pg_up newsz) div PGSZ) :: u32
            in uvmunmap lo pt (pg_up newsz) (scast npages) True km
          else Some km);
        Some (newsz, km)
      })"

section \<open>User address spaces\<close>

text \<open>0 is the null pointer.\<close>

definition uvmcreate :: "kmem \<Rightarrow> nat \<times> kmem" where
  "uvmcreate km = (case kalloc km of (p, km) \<Rightarrow> if p = 0 then (0, km) else (p, zero_page p km))"

text \<open>\<open>uvminit\<close> checks neither \<open>kalloc\<close> nor \<open>mappages\<close>; writing to page 0 would fault.\<close>

definition uvminit :: "nat \<Rightarrow> byte list \<Rightarrow> kmem \<Rightarrow> kmem option" where
  "uvminit pt src km =
     (if length src \<ge> PGSIZE then None
      else (case kalloc km of (p, km) \<Rightarrow>
        if p = 0 then None
        else do {
          (_, km) \<leftarrow> mappages pt 0 PGSZ (V2P (of_nat p)) (PTE_NORMAL OR PTE_U) (zero_page p km);
          Some (km\<lparr>kpages := (\<lambda>x. if p \<le> x \<and> x < p + length src then src ! (x - p) else kpages km x)\<rparr>)
        }))"

function uvmalloc_loop :: "nat \<Rightarrow> nat \<Rightarrow> u64 \<Rightarrow> u64 \<Rightarrow> u64 \<Rightarrow> kmem \<Rightarrow> (u64 \<times> kmem) option" where
  "uvmalloc_loop lo pt a oldsz newsz km =
     (if a < newsz then
        (case kalloc km of (p, km) \<Rightarrow>
          if p = 0 then do { (_, km) \<leftarrow> uvmdealloc lo pt a oldsz km; Some (0, km) }
          else (case mappages pt a PGSZ (V2P (of_nat p)) (PTE_NORMAL OR PTE_U) (zero_page p km) of
              None \<Rightarrow> None
            | Some (False, km) \<Rightarrow> do {
                km \<leftarrow> page_free_km lo p km;
                (_, km) \<leftarrow> uvmdealloc lo pt a oldsz km;
                Some (0, km)
              }
            | Some (True, km) \<Rightarrow> uvmalloc_loop lo pt (a + PGSZ) oldsz newsz km))
      else Some (newsz, km))"
  by pat_completeness auto
termination
proof (relation "measure (\<lambda>(lo, pt, a, oldsz, newsz, km). 2 ^ 64 - unat a)", goal_cases)
  case (2 lo pt a oldsz newsz km)
  then have "a < MAXVA"
    by (auto simp: mappages_def Let_def split: if_splits dest!: mappages_loop_MAXVA intro: pg_down_MAXVA)
  then show ?case using next_page[of a] unsigned_less[of a, where 'a = nat] by simp
qed simp

declare uvmalloc_loop.simps [simp del]

definition uvmalloc :: "nat \<Rightarrow> nat \<Rightarrow> u64 \<Rightarrow> u64 \<Rightarrow> kmem \<Rightarrow> (u64 \<times> kmem) option" where
  "uvmalloc lo pt oldsz newsz km =
     (if newsz < oldsz then Some (oldsz, km)
      else let oldsz = pg_up oldsz in uvmalloc_loop lo pt oldsz oldsz newsz km)"

text \<open>
  \<open>freewalk\<close> with its loop over the entries: nothing in memory bounds the recursion, so a table that
  contains itself would make it run forever, which is \<open>None\<close>.
\<close>

partial_function (option) freewalk_from :: "nat \<Rightarrow> nat \<Rightarrow> nat \<Rightarrow> kmem \<Rightarrow> kmem option" where
  "freewalk_from lo i pt km =
     (if i < 512 then
        let pte = ent km pt i in
        if is_table pte \<and> pte AND PTE_AF = 0 then
          Option.bind (freewalk_from lo 0 (P2V (PTE2PA pte)) km)
            (\<lambda>km. freewalk_from lo (i + 1) pt (set_pte (pt + 8 * i) 0 km))
        else freewalk_from lo (i + 1) pt km
      else page_free_km lo pt km)"

definition freewalk :: "nat \<Rightarrow> nat \<Rightarrow> kmem \<Rightarrow> kmem option" where
  "freewalk lo pt km = freewalk_from lo 0 pt km"

definition uvmfree :: "nat \<Rightarrow> nat \<Rightarrow> u64 \<Rightarrow> kmem \<Rightarrow> kmem option" where
  "uvmfree lo pt sz km = do {
     km \<leftarrow> (if sz > 0 then uvmunmap lo pt 0 (pg_up sz div PGSZ) True km else Some km);
     freewalk lo pt km
   }"

text \<open>\<open>uvmcopy\<close>: \<open>False\<close> is -1, with the pages that were copied given back.\<close>

function uvmcopy_loop :: "nat \<Rightarrow> nat \<Rightarrow> nat \<Rightarrow> u64 \<Rightarrow> u64 \<Rightarrow> kmem \<Rightarrow> (bool \<times> kmem) option" where
  "uvmcopy_loop lo old new i sz km =
     (if i < sz then
        (case walk old i False km of
           None \<Rightarrow> None
         | Some (pte, _) \<Rightarrow>
             if pte = 0 then None
             else let e = rd64 (kpages km) pte in
               if e AND PTE_AF = 0 then None
               else (case kalloc km of (p, km) \<Rightarrow>
                 if p = 0 then do { km \<leftarrow> uvmunmap lo new 0 (i div PGSZ) True km; Some (False, km) }
                 else (case mappages new i PGSZ (V2P (of_nat p)) (PTE_FLAGS e)
                     (km\<lparr>kpages := memmove (kpages km) p (P2V (PTE2PA e)) PGSIZE\<rparr>) of
                   None \<Rightarrow> None
                 | Some (False, km) \<Rightarrow> do {
                     km \<leftarrow> page_free_km lo p km;
                     km \<leftarrow> uvmunmap lo new 0 (i div PGSZ) True km;
                     Some (False, km)
                   }
                 | Some (True, km) \<Rightarrow> uvmcopy_loop lo old new (i + PGSZ) sz km)))
      else Some (True, km))"
  by pat_completeness auto
termination
proof (relation "measure (\<lambda>(lo, old, new, i, sz, km). 2 ^ 64 - unat i)", goal_cases)
  case (2 lo old new i sz km p pte k e)
  then have "i < MAXVA" by (auto simp: walk_def split: if_splits)
  then show ?case using next_page[of i] unsigned_less[of i, where 'a = nat] by simp
qed simp

declare uvmcopy_loop.simps [simp del]

definition uvmcopy :: "nat \<Rightarrow> nat \<Rightarrow> nat \<Rightarrow> u64 \<Rightarrow> kmem \<Rightarrow> (bool \<times> kmem) option" where
  "uvmcopy lo old new sz km = uvmcopy_loop lo old new 0 sz km"

definition uvmclear :: "nat \<Rightarrow> u64 \<Rightarrow> kmem \<Rightarrow> kmem option" where
  "uvmclear pt va km =
     (case walk pt va False km of
        None \<Rightarrow> None
      | Some (pte, _) \<Rightarrow> if pte = 0 then None
          else Some (set_pte pte (rd64 (kpages km) pte AND NOT PTE_U) km))"

section \<open>kvmmake\<close>

definition kvmmap :: "nat \<Rightarrow> u64 \<Rightarrow> u64 \<Rightarrow> u64 \<Rightarrow> u64 \<Rightarrow> kmem \<Rightarrow> kmem option" where
  "kvmmap pt va pa sz perm km =
     (case mappages pt va sz pa perm km of Some (True, km) \<Rightarrow> Some km | _ \<Rightarrow> None)"

text \<open>The kernel's direct map; \<open>etext\<close> is the linker's end of the kernel text.\<close>

definition kvmmake :: "u64 \<Rightarrow> kmem \<Rightarrow> (nat \<times> kmem) option" where
  "kvmmake etext km =
     (case kalloc km of (p, km) \<Rightarrow>
        if p = 0 then None
        else let UART0 = KERNBASE + 0x09000000; VIRTIO0 = KERNBASE + 0x0a000000;
                 GICV3 = KERNBASE + 0x08000000; GICV3_REDIST = KERNBASE + 0x080a0000;
                 KERNLINK = KERNBASE + EXTMEM; dev = PTE_DEVICE OR PTE_XN in do {
          km \<leftarrow> kvmmap p UART0 (V2P UART0) PGSZ dev (zero_page p km);
          km \<leftarrow> kvmmap p VIRTIO0 (V2P VIRTIO0) PGSZ dev km;
          km \<leftarrow> kvmmap p GICV3 (V2P GICV3) 0x10000 dev km;
          km \<leftarrow> kvmmap p GICV3_REDIST (V2P GICV3_REDIST) 0xf60000 dev km;
          km \<leftarrow> kvmmap p KERNLINK (V2P KERNLINK) (etext - KERNLINK) (PTE_NORMAL OR PTE_RO) km;
          km \<leftarrow> kvmmap p etext (V2P etext) (PHYSTOP + KERNBASE - etext) (PTE_NORMAL OR PTE_XN) km;
          Some (p, km)
        })"

section \<open>Copies\<close>

text \<open>
  \<open>arch_copyout\<close> of the bytes \<open>src\<close> to user address \<open>dstva\<close>: whether it succeeded.  \<open>pg_room a\<close> is
  \<open>PGSIZE - (a - PGROUNDDOWN(a))\<close>, the bytes from \<open>a\<close> to the end of its page.
\<close>

definition pg_room :: "u64 \<Rightarrow> nat" where
  "pg_room a = PGSIZE - unat (a - pg_down a)"

lemma pg_room_pos: "0 < pg_room a" "pg_room a \<le> PGSIZE"
proof -
  have "pg_down a \<le> a" using unat_pg_down[of a] by (simp add: word_le_nat_alt)
  then have "unat (a - pg_down a) = unat a mod 4096"
    using unat_pg_down[of a] by (simp add: unat_sub minus_div_mult_eq_mod)
  then show "0 < pg_room a" "pg_room a \<le> PGSIZE" by (simp_all add: pg_room_def)
qed

function copyout :: "nat \<Rightarrow> u64 \<Rightarrow> byte list \<Rightarrow> kmem \<Rightarrow> bool \<times> kmem" where
  "copyout pt dstva src km =
     (if src \<noteq> [] then
        let va0 = pg_down dstva; pa0 = uva2ka pt va0 km in
        if pa0 = 0 then (False, km)
        else let n = min (pg_room dstva) (length src); a = pa0 + unat (dstva - va0) in
          copyout pt (va0 + PGSZ) (drop n src)
            (km\<lparr>kpages := (\<lambda>x. if a \<le> x \<and> x < a + n then src ! (x - a) else kpages km x)\<rparr>)
      else (True, km))"
  by pat_completeness auto
termination
  by (relation "measure (\<lambda>(pt, dstva, src, km). length src)") (auto simp: pg_room_pos)

declare copyout.simps [simp del]

text \<open>\<open>arch_copyin\<close>: the bytes stored at \<open>dst\<close>, and whether it succeeded.\<close>

function copyin :: "nat \<Rightarrow> kmem \<Rightarrow> u64 \<Rightarrow> nat \<Rightarrow> byte list \<times> bool" where
  "copyin pt km srcva len =
     (if len > 0 then
        let va0 = pg_down srcva; pa0 = uva2ka pt va0 km in
        if pa0 = 0 then ([], False)
        else let n = min (pg_room srcva) len; a = pa0 + unat (srcva - va0);
                 (bs, ok) = copyin pt km (va0 + PGSZ) (len - n)
          in (map (\<lambda>i. kpages km (a + i)) [0..<n] @ bs, ok)
      else ([], True))"
  by pat_completeness auto
termination
  by (relation "measure (\<lambda>(pt, km, srcva, len). len)") (auto simp: pg_room_pos)

declare copyin.simps [simp del]

text \<open>
  \<open>copyinstr\<close>: the bytes stored at \<open>dst\<close>, and whether a NUL was found.  \<open>str_upto p n\<close> is the inner
  loop, over at most \<open>n\<close> bytes from \<open>p\<close>: what it stores, and whether it met the NUL.
\<close>

fun str_upto :: "mem \<Rightarrow> nat \<Rightarrow> nat \<Rightarrow> byte list \<times> bool" where
  "str_upto m p 0 = ([], False)"
| "str_upto m p (Suc n) =
     (if m p = 0 then ([0], True) else (case str_upto m (p + 1) n of (bs, got) \<Rightarrow> (m p # bs, got)))"

function copyinstr :: "nat \<Rightarrow> kmem \<Rightarrow> u64 \<Rightarrow> nat \<Rightarrow> byte list \<times> bool" where
  "copyinstr pt km srcva maxlen =
     (if maxlen > 0 then
        let va0 = pg_down srcva; pa0 = uva2ka pt va0 km in
        if pa0 = 0 then ([], False)
        else let n = min (pg_room srcva) maxlen in
          (case str_upto (kpages km) (pa0 + unat (srcva - va0)) n of
             (bs, True) \<Rightarrow> (bs, True)
           | (bs, False) \<Rightarrow> (case copyinstr pt km (va0 + PGSZ) (maxlen - n) of (cs, got) \<Rightarrow> (bs @ cs, got)))
      else ([], False))"
  by pat_completeness auto
termination
  by (relation "measure (\<lambda>(pt, km, srcva, maxlen). maxlen)") (auto simp: pg_room_pos)

declare copyinstr.simps [simp del]

end
