(* ===== verification/Proc.thy ===== *)
theory Proc imports ProcTab File Vm begin

text \<open>
  Processes, \<open>forks/arm64/kernel/proc.c\<close>: the parts that touch memory and files.  The kernel's state
  is the file layer's state with the process table.  \<open>p\<close> is the index of the calling process, as
  \<open>myproc()\<close> returns it.
\<close>

section \<open>State\<close>

record kst = filest +
  ptab :: ptable

definition pof :: "'a kst_scheme \<Rightarrow> nat \<Rightarrow> proc" where
  "pof st p = procs (ptab st) p"

definition pupd :: "nat \<Rightarrow> (proc \<Rightarrow> proc) \<Rightarrow> 'a kst_scheme \<Rightarrow> 'a kst_scheme" where
  "pupd p f st = st\<lparr>ptab := pset p f (ptab st)\<rparr>"

section \<open>Kernel stacks\<close>

definition KSTACK :: "nat \<Rightarrow> u64" where
  "KSTACK p = MAXVA - of_nat (p + 1) * 2 * PGSZ"

text \<open>\<open>proc_mapstacks\<close>, called by \<open>procinit\<close> with the kernel's page table.\<close>

definition proc_mapstacks :: "nat \<Rightarrow> kmem \<Rightarrow> kmem option" where
  "proc_mapstacks kpgtbl = fold_opt (\<lambda>p km.
     (case kalloc km of (ka, km) \<Rightarrow>
        if ka = 0 then None else kvmmap kpgtbl (KSTACK p) (V2P (of_nat ka)) PGSZ PTE_NORMAL km)) [0..<NPROC]"

definition procinit :: "nat \<Rightarrow> 'a kst_scheme \<Rightarrow> 'a kst_scheme option" where
  "procinit kpgtbl st = do {
     km \<leftarrow> proc_mapstacks kpgtbl (kpool st);
     Some (fold (\<lambda>p. pupd p (\<lambda>q. q\<lparr>pkstack := KSTACK p\<rparr>)) [0..<NPROC] (st\<lparr>kpool := km\<rparr>))
   }"

section \<open>Making and freeing entries\<close>

definition freeproc :: "nat \<Rightarrow> 'a kst_scheme \<Rightarrow> 'a kst_scheme option" where
  "freeproc p st = do {
     km \<leftarrow> (if ppagetable (pof st p) \<noteq> 0
        then uvmfree (kend st) (ppagetable (pof st p)) (psz (pof st p)) (kpool st) else Some (kpool st));
     Some (st\<lparr>kpool := km, ptab := clear_slot p (ptab st)\<rparr>)
   }"

text \<open>
  \<open>allocproc\<close>; \<open>forkret\<close> is the address of that function, \<open>TF_SIZE\<close> is \<open>sizeof(struct trapframe)\<close>.
  \<open>None\<close> inside is the null pointer.
\<close>

abbreviation (input) TF_SIZE :: u64 where "TF_SIZE \<equiv> 272"

definition allocproc :: "u64 \<Rightarrow> 'a kst_scheme \<Rightarrow> (nat option \<times> 'a kst_scheme) option" where
  "allocproc forkret st =
     (case find_unused (ptab st) of
        None \<Rightarrow> Some (None, st)
      | Some p \<Rightarrow>
          (let st = st\<lparr>ptab := alloc_slot p (ptab st)\<rparr>;
               sp = pkstack (pof st p) + PGSZ - TF_SIZE in
           (case uvmcreate (kpool st) of (pt, km) \<Rightarrow>
             let st = pupd p (\<lambda>q. q\<lparr>ppagetable := pt\<rparr>) (st\<lparr>kpool := km\<rparr>) in
             if pt = 0 then do { st \<leftarrow> freeproc p st; Some (None, st) }
             else Some (Some p, pupd p (\<lambda>q. q\<lparr>pcontext :=
               \<lparr>ctx_sp = sp, ctx_x30 = forkret, ctx_x = (\<lambda>_. 0)\<rparr>\<rparr>) st))))"

text \<open>\<open>safestrcpy\<close> into \<open>p->name\<close> from another string.\<close>

definition set_name :: "mem \<Rightarrow> mem \<Rightarrow> mem" where
  "set_name nm src = safestrcpy (\<lambda>a. if a < 16 then nm a else src (a - 16)) 0 16 16"

definition str_mem :: "byte list \<Rightarrow> mem" where
  "str_mem bs i = (if i < length bs then bs ! i else 0)"

section \<open>The first process\<close>

definition initcode :: "byte list" where
  "initcode = [
     0xc0, 0x01, 0x00, 0x58, 0xe1, 0x01, 0x00, 0x58, 0xe7,
     0x00, 0x80, 0xd2, 0x01, 0x00, 0x00, 0xd4, 0x47, 0x00,
     0x80, 0xd2, 0x01, 0x00, 0x00, 0xd4, 0xfe, 0xff, 0xff,
     0x17, 0x2f, 0x69, 0x6e, 0x69, 0x74, 0x00, 0x00, 0x00,
     0x1f, 0x20, 0x03, 0xd5, 0x1c, 0x00, 0x00, 0x00, 0x00,
     0x00, 0x00, 0x00, 0x00, 0x00, 0x00, 0x00, 0x00, 0x00,
     0x00, 0x00, 0x1c, 0x00, 0x00, 0x00, 0x00, 0x00, 0x00,
     0x00, 0x28, 0x00, 0x00, 0x00, 0x00, 0x00, 0x00, 0x00]"

text \<open>\<open>userinit\<close>: without a process (a null pointer is dereferenced) it does not go on.\<close>

definition userinit :: "u64 \<Rightarrow> 'a kst_scheme \<Rightarrow> 'a kst_scheme option" where
  "userinit forkret st =
     (case allocproc forkret st of
        Some (Some p, st) \<Rightarrow> do {
          km \<leftarrow> uvminit (ppagetable (pof st p)) initcode (kpool st);
          let st = st\<lparr>kpool := km, ptab := (ptab st)\<lparr>initproc := p\<rparr>\<rparr>;
          let st = pupd p (\<lambda>q. q\<lparr>psz := PGSZ, ptf := (ptf q)\<lparr>tf_elr := 0, tf_spsr := 0, tf_sp := PGSZ\<rparr>,
            pname := set_name (pname q) (str_mem [0x69, 0x6e, 0x69, 0x74, 0x63, 0x6f, 0x64, 0x65])\<rparr>) st;
          (ip, st) \<leftarrow> namei 0 [slash] st;
          Some (pupd p (\<lambda>q. q\<lparr>pcwd := ip, pstate := RUNNABLE\<rparr>) st)
        }
      | _ \<Rightarrow> None)"

section \<open>growproc\<close>

text \<open>\<open>sz\<close> is a \<open>uint\<close>, so the new size is computed and kept in 32 bits.\<close>

definition growproc :: "nat \<Rightarrow> int \<Rightarrow> 'a kst_scheme \<Rightarrow> (int \<times> 'a kst_scheme) option" where
  "growproc p n st =
     (let sz = (ucast (psz (pof st p)) :: u32); pt = ppagetable (pof st p);
          new = (ucast (sz + of_int n) :: u64) in
      if n > 0 then do {
        (r, km) \<leftarrow> uvmalloc (kend st) pt (ucast sz) new (kpool st);
        let st = st\<lparr>kpool := km\<rparr>;
        let sz = (ucast r :: u32);
        (if sz = 0 then Some (-1, st) else Some (0, pupd p (\<lambda>q. q\<lparr>psz := ucast sz\<rparr>) st))
      } else if n < 0 then do {
        (r, km) \<leftarrow> uvmdealloc (kend st) pt (ucast sz) new (kpool st);
        Some (0, pupd p (\<lambda>q. q\<lparr>psz := ucast (ucast r :: u32)\<rparr>) (st\<lparr>kpool := km\<rparr>))
      } else Some (0, pupd p (\<lambda>q. q\<lparr>psz := ucast sz\<rparr>) st))"

section \<open>fork\<close>

text \<open>The loop over the open files, and the current directory.\<close>

definition dup_files :: "(nat \<Rightarrow> nat option) \<Rightarrow> (nat \<Rightarrow> ofile) \<Rightarrow> (nat \<Rightarrow> ofile) option" where
  "dup_files fds = fold_opt (\<lambda>i ft. case fds i of None \<Rightarrow> Some ft | Some f \<Rightarrow> filedup f ft) [0..<NOFILE]"

text \<open>What \<open>fork\<close> copies from the parent \<open>me\<close> into the child's entry.\<close>

definition copy_proc :: "proc \<Rightarrow> proc \<Rightarrow> proc" where
  "copy_proc me q = q\<lparr>psz := psz me, ptf := (ptf me)\<lparr>tf_x := (tf_x (ptf me))(0 := 0)\<rparr>,
     pofile := (\<lambda>i. if i < NOFILE \<and> pofile me i \<noteq> None then pofile me i else pofile q i),
     pcwd := pcwd me, pname := set_name (pname q) (pname me)\<rparr>"

text \<open>
  Up to the release of the new entry's lock; \<open>None\<close> inside is the return of -1.  Then \<open>fork\<close> sets the
  parent with \<open>wait_lock\<close> held, and the state with the entry's lock held again.
\<close>

definition fork_copy :: "u64 \<Rightarrow> nat \<Rightarrow> 'a kst_scheme \<Rightarrow> (nat option \<times> 'a kst_scheme) option" where
  "fork_copy forkret p st = do {
     (r, st) \<leftarrow> allocproc forkret st;
     (case r of
        None \<Rightarrow> Some (None, st)
      | Some np \<Rightarrow> do {
          (ok, km) \<leftarrow> uvmcopy (kend st) (ppagetable (pof st p)) (ppagetable (pof st np)) (psz (pof st p)) (kpool st);
          let st = st\<lparr>kpool := km\<rparr>;
          (if \<not> ok then do { st \<leftarrow> freeproc np st; Some (None, st) }
           else (case pcwd (pof st p) of
              None \<Rightarrow> None
            | Some cwd \<Rightarrow> do {
                ft \<leftarrow> dup_files (pofile (pof st p)) (ftab st);
                let st = idup cwd (st\<lparr>ftab := ft\<rparr>);
                Some (Some np, pupd np (copy_proc (pof st p)) st)
              }))
        })
   }"

definition fork :: "u64 \<Rightarrow> nat \<Rightarrow> 'a kst_scheme \<Rightarrow> (int \<times> 'a kst_scheme) option" where
  "fork forkret p st = do {
     (r, st) \<leftarrow> fork_copy forkret p st;
     (case r of
        None \<Rightarrow> Some (-1, st)
      | Some np \<Rightarrow>
          (let pid = ppid (pof st np);
               st = st\<lparr>ptab := fork_parent p np (ptab st)\<rparr>;
               st = st\<lparr>ptab := fork_ready np (ptab st)\<rparr>
           in Some (pid, st)))
   }"

section \<open>exit and wait\<close>

definition close_files :: "('a kst_scheme \<Rightarrow> 'a kst_scheme) \<Rightarrow> nat \<Rightarrow> 'a kst_scheme \<Rightarrow> 'a kst_scheme option" where
  "close_files w p = fold_opt (\<lambda>fd st.
     (case pofile (pof st p) fd of
        None \<Rightarrow> Some st
      | Some f \<Rightarrow> do { st \<leftarrow> fileclose w f st; Some (pupd p (\<lambda>q. q\<lparr>pofile := (pofile q)(fd := None)\<rparr>) st) }))
     [0..<NOFILE]"

text \<open>\<open>exit\<close> up to \<open>sched()\<close>, from which it does not come back.\<close>

definition exit :: "('a kst_scheme \<Rightarrow> 'a kst_scheme) \<Rightarrow> nat \<Rightarrow> u32 \<Rightarrow> 'a kst_scheme \<Rightarrow> 'a kst_scheme option" where
  "exit w p status st =
     (if p = initproc (ptab st) then None
      else do {
        st \<leftarrow> close_files w p st;
        st \<leftarrow> begin_wait w st;
        st \<leftarrow> (case pcwd (pof st p) of None \<Rightarrow> None | Some ip \<Rightarrow> iput ip st);
        st \<leftarrow> end_op st;
        let st = pupd p (pcwd_update (\<lambda>_. None)) st;
        Some (st\<lparr>ptab := become_zombie p status (ptab st)\<rparr>)
      })"

text \<open>
  One scan of \<open>wait\<close> from entry \<open>np\<close>: the pid of a reaped child, or -1, or going to sleep.
  \<open>havekids\<close> is the flag so far.
\<close>

function wait_scan :: "u64 \<Rightarrow> nat \<Rightarrow> nat \<Rightarrow> bool \<Rightarrow> 'a kst_scheme \<Rightarrow> (int wait_res \<times> 'a kst_scheme) option" where
  "wait_scan addr p np havekids st =
     (if np < NPROC then
        if pparent (pof st np) = Some p then
          if pstate (pof st np) = ZOMBIE then
            let pid = ppid (pof st np);
                (ok, km) = (if addr \<noteq> 0 then copyout (ppagetable (pof st p)) addr (bytes32 (pxstate (pof st np))) (kpool st)
                  else (True, kpool st));
                st = st\<lparr>kpool := km\<rparr>
            in if \<not> ok then Some (Proceeds (-1), st)
               else do { st \<leftarrow> freeproc np st; Some (Proceeds pid, st) }
          else wait_scan addr p (np + 1) True st
        else wait_scan addr p (np + 1) havekids st
      else if \<not> havekids \<or> pkilled (pof st p) then Some (Proceeds (-1), st)
      else Some (Sleeps, st\<lparr>ptab := go_to_sleep (ChProc p) p (ptab st)\<rparr>))"
  by pat_completeness auto
termination
  by (relation "measure (\<lambda>(addr, p, np, havekids, st). NPROC - np)") auto

declare wait_scan.simps [simp del]

definition wait :: "u64 \<Rightarrow> nat \<Rightarrow> 'a kst_scheme \<Rightarrow> (int wait_res \<times> 'a kst_scheme) option" where
  "wait addr p st = wait_scan addr p 0 False st"

section \<open>The rest\<close>

text \<open>The first process scheduled initialises the file system; \<open>first\<close> is the static variable.\<close>

definition forkret :: "bool \<Rightarrow> 'a kst_scheme \<Rightarrow> (bool \<times> 'a kst_scheme) option" where
  "forkret first st = (if first then do { st \<leftarrow> fsinit st; Some (False, st) } else Some (first, st))"

text \<open>
  \<open>either_copyout\<close> and \<open>either_copyin\<close>, on the memory as the page allocator has it; kernel addresses
  are copied with \<open>memmove\<close>.
\<close>

definition either_copyout :: "bool \<Rightarrow> nat \<Rightarrow> nat \<Rightarrow> byte list \<Rightarrow> kmem \<Rightarrow> bool \<times> kmem" where
  "either_copyout user_dst pt dst src km =
     (if user_dst then copyout pt (of_nat dst) src km
      else (True, km\<lparr>kpages := blit (kpages km) dst src\<rparr>))"

definition either_copyin :: "bool \<Rightarrow> nat \<Rightarrow> kmem \<Rightarrow> nat \<Rightarrow> nat \<Rightarrow> byte list \<times> bool" where
  "either_copyin user_src pt km src len =
     (if user_src then copyin pt km (of_nat src) len
      else (map (\<lambda>i. kpages km (src + i)) [0..<len], True))"

section \<open>What fork does\<close>

lemma pset_pset: "pset p f (pset p g t) = pset p (f \<circ> g) t"
  by (simp add: pset_def)

lemma procs_pset: "procs (pset p f t) q = (if q = p then f (procs t p) else procs t q)"
  by (simp add: pset_def)

lemma ptab_pupd [simp]: "ptab (pupd p f st) = pset p f (ptab st)"
  by (simp add: pupd_def)

lemma pof_frame [simp]: "pof (st\<lparr>kpool := km\<rparr>) q = pof st q" "pof (st\<lparr>ftab := ft\<rparr>) q = pof st q"
  by (simp_all add: pof_def)

lemma freeproc_effect: "freeproc p st = Some st' \<Longrightarrow> \<exists>km. st' = st\<lparr>kpool := km, ptab := clear_slot p (ptab st)\<rparr>"
  by (auto simp: freeproc_def Option.bind_eq_Some_conv)

lemma alloc_slot_procs: "procs (alloc_slot p t) q
    = (if q = p then (procs t p)\<lparr>ppid := nextpid t, pstate := USED, ptf_set := True\<rparr> else procs t q)"
  by (simp add: alloc_slot_def allocpid_def pset_def)

text \<open>\<open>allocproc\<close> gives the entry an empty page table, or gives up and clears it again.\<close>

lemma allocproc_effect:
  assumes "allocproc fr st = Some (r, st')"
  shows "case r of
      None \<Rightarrow> st' = st \<or> (\<exists>np f km. find_unused (ptab st) = Some np
        \<and> st' = st\<lparr>kpool := km, ptab := clear_slot np (pset np f (alloc_slot np (ptab st)))\<rparr> \<and> (\<forall>q. pofile (f q) = pofile q))
    | Some np \<Rightarrow> find_unused (ptab st) = Some np \<and> (\<exists>pt km c. uvmcreate (kpool st) = (pt, km) \<and> pt \<noteq> 0
        \<and> st' = st\<lparr>kpool := km, ptab := pset np (\<lambda>q. q\<lparr>ppagetable := pt, pcontext := c\<rparr>) (alloc_slot np (ptab st))\<rparr>)"
proof (cases "find_unused (ptab st)")
  case None
  then show ?thesis using assms by (simp add: allocproc_def)
next
  case (Some np)
  let ?st1 = "st\<lparr>ptab := alloc_slot np (ptab st)\<rparr>"
  obtain pt km where u: "uvmcreate (kpool st) = (pt, km)" by force
  let ?st2 = "pupd np (\<lambda>q. q\<lparr>ppagetable := pt\<rparr>) (?st1\<lparr>kpool := km\<rparr>)"
  show ?thesis
  proof (cases "pt = 0")
    case True
    then obtain st2 where f: "freeproc np ?st2 = Some st2" "st' = st2" "r = None"
      using assms u Some by (auto simp: allocproc_def Let_def Option.bind_eq_Some_conv)
    from freeproc_effect[OF f(1)] f(2) obtain km' where
      "st' = st\<lparr>kpool := km', ptab := clear_slot np (pset np (\<lambda>q. q\<lparr>ppagetable := pt\<rparr>) (alloc_slot np (ptab st)))\<rparr>"
      by (auto simp: pupd_def)
    moreover have "\<forall>q. pofile (q\<lparr>ppagetable := pt\<rparr>) = pofile q" by simp
    ultimately show ?thesis using Some unfolding f(3) option.case by blast
  next
    case False
    define c where "c = \<lparr>ctx_sp = pkstack (pof ?st1 np) + PGSZ - TF_SIZE, ctx_x30 = fr, ctx_x = (\<lambda>_. 0)\<rparr>"
    have "r = Some np" and "st' = pupd np (\<lambda>q. q\<lparr>pcontext := c\<rparr>) ?st2"
      using assms u Some False by (auto simp: allocproc_def Let_def c_def)
    moreover have "pset np (\<lambda>q. q\<lparr>pcontext := c\<rparr>) (pset np (\<lambda>q. q\<lparr>ppagetable := pt\<rparr>) t)
        = pset np (\<lambda>q. q\<lparr>ppagetable := pt, pcontext := c\<rparr>) t" for t
      by (simp add: pset_def)
    ultimately have "r = Some np" "st' = st\<lparr>kpool := km,
        ptab := pset np (\<lambda>q. q\<lparr>ppagetable := pt, pcontext := c\<rparr>) (alloc_slot np (ptab st))\<rparr>"
      by (simp_all add: pupd_def)
    then show ?thesis using Some u False by auto
  qed
qed

text \<open>The three ways \<open>fork\<close> returns: no free entry, no memory, and a child.\<close>

lemma fork_effect:
  assumes "pstate (pof st p) \<noteq> UNUSED" and "fork fr p st = Some (r, st')"
  obtains (none) "r = -1" "st' = st"
  | (undone) np f km where "r = -1" "find_unused (ptab st) = Some np"
      "st' = st\<lparr>kpool := km, ptab := clear_slot np (pset np f (alloc_slot np (ptab st)))\<rparr>" "\<forall>q. pofile (f q) = pofile q"
  | (child) np pt km1 km c cwd ft where "r = nextpid (ptab st)" "find_unused (ptab st) = Some np"
      "uvmcreate (kpool st) = (pt, km1)" "pt \<noteq> 0"
      "uvmcopy (kend st) (ppagetable (pof st p)) pt (psz (pof st p)) km1 = Some (True, km)"
      "pcwd (pof st p) = Some cwd" "dup_files (pofile (pof st p)) (ftab st) = Some ft"
      "st' = (idup cwd (st\<lparr>kpool := km, ftab := ft\<rparr>))\<lparr>ptab := fork_ready np (fork_parent p np
        (fork_alloc np (\<lambda>q. copy_proc (pof st p) (q\<lparr>ppagetable := pt, pcontext := c\<rparr>)) (ptab st)))\<rparr>"
proof -
  let ?t = "ptab st"
  obtain r0 st0 where fc: "fork_copy fr p st = Some (r0, st0)"
    using assms(2) by (auto simp: fork_def Option.bind_eq_Some_conv)
  then obtain r1 st1 where a: "allocproc fr st = Some (r1, st1)"
    by (auto simp: fork_copy_def Option.bind_eq_Some_conv)
  note A = allocproc_effect[OF a]
  show ?thesis
  proof (cases r1)
    case None
    then have "r = -1" "st' = st1" using assms(2) a by (simp_all add: fork_def fork_copy_def)
    moreover have "st1 = st \<or> (\<exists>np f km. find_unused ?t = Some np
        \<and> st1 = st\<lparr>kpool := km, ptab := clear_slot np (pset np f (alloc_slot np ?t))\<rparr> \<and> (\<forall>q. pofile (f q) = pofile q))"
      using A None by simp
    ultimately show ?thesis using none undone by blast
  next
    case (Some np)
    then obtain pt km1 c where np: "find_unused ?t = Some np" and pt: "uvmcreate (kpool st) = (pt, km1)" "pt \<noteq> 0"
      and st1: "st1 = st\<lparr>kpool := km1, ptab := pset np (\<lambda>q. q\<lparr>ppagetable := pt, pcontext := c\<rparr>) (alloc_slot np ?t)\<rparr>"
      using A by auto
    let ?f = "\<lambda>q. q\<lparr>ppagetable := pt, pcontext := c\<rparr>"
    note n = find_unused_SomeD[OF np]
    have pn: "p \<noteq> np" using n assms(1) by (auto simp: pof_def)
    have pp: "pof st1 p = pof st p" using pn by (simp add: pof_def st1 alloc_slot_procs procs_pset)
    have pnp: "ppagetable (pof st1 np) = pt" by (simp add: pof_def st1 procs_pset)
    have s1: "kend st1 = kend st" "kpool st1 = km1" "ftab st1 = ftab st" by (simp_all add: st1)
    from fc a Some obtain ok km where
      cp: "uvmcopy (kend st) (ppagetable (pof st p)) pt (psz (pof st p)) km1 = Some (ok, km)"
      by (auto simp: fork_copy_def Option.bind_eq_Some_conv pp pnp s1)
    have cp1: "uvmcopy (kend st1) (ppagetable (pof st1 p)) (ppagetable (pof st1 np)) (psz (pof st1 p)) (kpool st1) = Some (ok, km)"
      using cp by (simp add: pp pnp s1)
    show ?thesis
    proof (cases ok)
      case False
      then obtain st2 where f: "freeproc np (st1\<lparr>kpool := km\<rparr>) = Some st2" and st': "st' = st2" "r = -1"
        using assms(2) a Some cp1 by (auto simp: fork_def fork_copy_def Option.bind_eq_Some_conv Let_def)
      from freeproc_effect[OF f] obtain km' where
        "st' = st\<lparr>kpool := km', ptab := clear_slot np (pset np ?f (alloc_slot np ?t))\<rparr>"
        by (auto simp: st' st1)
      moreover have "\<forall>q. pofile (?f q) = pofile q" by simp
      ultimately show ?thesis using undone st'(2) np by blast
    next
      case True
      obtain cwd ft where cwd: "pcwd (pof st p) = Some cwd" and d: "dup_files (pofile (pof st p)) (ftab st) = Some ft"
        using fc a Some cp1 True pp
        by (auto simp: fork_copy_def Option.bind_eq_Some_conv Let_def s1 split: option.splits)
      let ?i = "idup cwd (st1\<lparr>kpool := km, ftab := ft\<rparr>)"
      have me: "pof ?i p = pof st p" using pp by (simp add: pof_def idup_def iset_def)
      have st0: "r0 = Some np" "st0 = pupd np (copy_proc (pof st p)) ?i"
        using fc a Some cp1 True cwd d me pp by (simp_all add: fork_copy_def Let_def s1)
      have t0: "ptab st0 = pset np (copy_proc (pof st p)) (pset np ?f (alloc_slot np ?t))"
        by (simp add: st0(2) idup_def iset_def st1)
      have fa: "ptab st0 = fork_alloc np (\<lambda>q. copy_proc (pof st p) (?f q)) ?t"
        unfolding t0 pset_pset fork_alloc_def comp_def
        by (rule arg_cong[of _ _ "\<lambda>g. pset np g _"]) (auto simp: copy_proc_def)
      have r: "r = ppid (pof st0 np)" and s': "st' = st0\<lparr>ptab := fork_ready np (fork_parent p np (ptab st0))\<rparr>"
        using assms(2) fc st0(1) by (simp_all add: fork_def Let_def)
      have "r = nextpid ?t"
        unfolding r by (simp add: pof_def t0 copy_proc_def procs_pset alloc_slot_procs)
      moreover have s'': "st' = (idup cwd (st\<lparr>kpool := km, ftab := ft\<rparr>))\<lparr>ptab := fork_ready np (fork_parent p np
        (fork_alloc np (\<lambda>q. copy_proc (pof st p) (?f q)) ?t))\<rparr>"
        unfolding s' fa by (simp add: st0(2) pupd_def idup_def iset_def st1)
      moreover have "uvmcopy (kend st) (ppagetable (pof st p)) pt (psz (pof st p)) km1 = Some (True, km)"
        using cp True by simp
      ultimately show ?thesis using child[OF _ np pt _ cwd d s''] by blast
    qed
  qed
qed

text \<open>The table after a \<open>fork\<close> that made a child: only the child's entry is new.\<close>

lemma fork_pof:
  assumes "st' = (idup cwd (st\<lparr>kpool := km, ftab := ft\<rparr>))\<lparr>ptab := fork_ready np (fork_parent p np
    (fork_alloc np (\<lambda>q. copy_proc (pof st p) (q\<lparr>ppagetable := pt, pcontext := c\<rparr>)) (ptab st)))\<rparr>"
  shows "pof st' q = (if q = np then (copy_proc (pof st p) ((pof st np)\<lparr>ppid := nextpid (ptab st), pstate := USED,
    ptf_set := True, ppagetable := pt, pcontext := c\<rparr>))\<lparr>pparent := Some p, pstate := RUNNABLE\<rparr> else pof st q)"
  unfolding assms pof_def
  by (simp add: fork_ready_def fork_parent_def fork_alloc_def procs_pset alloc_slot_procs copy_proc_def cong: if_cong)

lemma dup_files_facts:
  assumes "dup_files fds ft = Some ft'"
  shows "ft' f = (ft f)\<lparr>fref := fref (ft f) + int (card {i. i < NOFILE \<and> fds i = Some f})\<rparr>"
proof -
  have "ft' f = (ft f)\<lparr>fref := fref (ft f) + int (length (filter (\<lambda>i. fds i = Some f) xs))\<rparr>"
    if "fold_opt (\<lambda>i ft. case fds i of None \<Rightarrow> Some ft | Some f \<Rightarrow> filedup f ft) xs ft = Some ft'" for xs
    using that
  proof (induction xs arbitrary: ft)
    case (Cons x xs)
    then obtain ft1 where 1: "(case fds x of None \<Rightarrow> Some ft | Some f \<Rightarrow> filedup f ft) = Some ft1"
      "fold_opt (\<lambda>i ft. case fds i of None \<Rightarrow> Some ft | Some f \<Rightarrow> filedup f ft) xs ft1 = Some ft'"
      by (auto simp: Option.bind_eq_Some_conv)
    have "ft1 f = (ft f)\<lparr>fref := fref (ft f) + (if fds x = Some f then 1 else 0)\<rparr>"
      using 1(1) by (auto simp: filedup_def split: option.splits if_splits)
    then show ?case using Cons.IH[OF 1(2)] by simp
  qed simp
  from this[of "[0..<NOFILE]"] assms
  have "ft' f = (ft f)\<lparr>fref := fref (ft f) + int (length (filter (\<lambda>i. fds i = Some f) [0..<NOFILE]))\<rparr>"
    by (simp add: dup_files_def)
  moreover have "length (filter (\<lambda>i. fds i = Some f) [0..<NOFILE]) = card {i. i < NOFILE \<and> fds i = Some f}"
    by (simp add: length_filter_conv_card cong: conj_cong)
  ultimately show ?thesis by simp
qed

text \<open>
  A small kernel: the demonstration disk, no open files, one free page, and one process, which runs,
  has no memory and has inode 0 of the table as its directory.
\<close>

definition demo_kst :: kst where
  "demo_kst = \<lparr>disk = disk demo_fs, cache = cache demo_fs, pin = pin demo_fs, hist = [], lstart = 2, lsize = 31,
     outstanding = 0, committing = False, ncommit = 0, lh = [], sb = demo_sb,
     itab = (itab demo_fs)(0 := (itab demo_fs 0)\<lparr>iref := 1\<rparr>), ftab = no_files,
     pipes = (\<lambda>_. pipe_init (\<lambda>_. 0)), kpool = demo_kmem, kend = 0, kstop = KTOP,
     ptab = pset 0 (\<lambda>q. q\<lparr>pstate := RUNNING, pcwd := Some 0\<rparr>) boot_ptable\<rparr>"

end
