(* ===== verification/Exec.thy ===== *)
theory Exec imports Proc begin

text \<open>
  \<open>forks/arm64/kernel/exec.c\<close>: replacing a process's memory by a program read from the file system.
  Local variables that are read from the file (\<open>elf\<close>, \<open>ph\<close>) are byte memories, their fields are
  read at the offsets of \<open>include/elf.h\<close>.
\<close>

abbreviation (input) ELF_MAGIC :: u32 where "ELF_MAGIC \<equiv> 0x464C457F"
abbreviation (input) ELF_PROG_LOAD :: u32 where "ELF_PROG_LOAD \<equiv> 1"
abbreviation (input) ELFHDR_SIZE :: nat where "ELFHDR_SIZE \<equiv> 64"
abbreviation (input) PROGHDR_SIZE :: nat where "PROGHDR_SIZE \<equiv> 56"

section \<open>The files\<close>

text \<open>\<open>namei\<close> for process \<open>p\<close>; a relative path without a current directory is a null dereference.\<close>

definition namei_p :: "nat \<Rightarrow> byte list \<Rightarrow> 'a kst_scheme \<Rightarrow> (nat option \<times> 'a kst_scheme) option" where
  "namei_p p path st =
     (case pcwd (pof st p) of
        Some cwd \<Rightarrow> namei cwd path st
      | None \<Rightarrow> if path \<noteq> [] \<and> hd path = slash then namei 0 path st else None)"

text \<open>
  \<open>loadseg\<close> from offset \<open>i\<close>: the pages are read straight into the memory of the new address space.
\<close>

partial_function (option) loadseg_from :: "u32 \<Rightarrow> nat \<Rightarrow> u64 \<Rightarrow> nat \<Rightarrow> u32 \<Rightarrow> u32 \<Rightarrow> 'a kst_scheme
    \<Rightarrow> (bool \<times> 'a kst_scheme) option" where
  "loadseg_from i pt va ip offset sz st =
     (if i < sz then
        let pa = uva2ka pt (va + ucast i) (kpool st) in
        if pa = 0 then None
        else let n = (if sz - i < of_nat PGSIZE then sz - i else of_nat PGSIZE) in
          Option.bind (readi ip kcopyout pa (offset + i) n st (kpages (kpool st))) (\<lambda>(r, st, m).
            let st = st\<lparr>kpool := (kpool st)\<lparr>kpages := m\<rparr>\<rparr> in
            if r \<noteq> int (unat n) then Some (False, st)
            else loadseg_from (i + of_nat PGSIZE) pt va ip offset sz st)
      else Some (True, st))"

definition loadseg :: "nat \<Rightarrow> u64 \<Rightarrow> nat \<Rightarrow> u32 \<Rightarrow> u32 \<Rightarrow> 'a kst_scheme \<Rightarrow> (bool \<times> 'a kst_scheme) option" where
  "loadseg pt va ip offset sz st = loadseg_from 0 pt va ip offset sz st"

text \<open>
  The loop over the program headers, \<open>k\<close> of them left: whether all were loaded (\<open>False\<close> is \<open>goto bad\<close>)
  and the size so far.
\<close>

fun load_segs :: "nat \<Rightarrow> u32 \<Rightarrow> nat \<Rightarrow> nat \<Rightarrow> u64 \<Rightarrow> 'a kst_scheme \<Rightarrow> (bool \<times> u64 \<times> 'a kst_scheme) option" where
  "load_segs 0 off pt ip sz st = Some (True, sz, st)"
| "load_segs (Suc k) off pt ip sz st = do {
     (r, st, ph) \<leftarrow> readi ip kcopyout 0 off (of_nat PROGHDR_SIZE) st (\<lambda>_. 0);
     let vaddr = rd64 ph 16;
     let filesz = rd64 ph 32;
     let memsz = rd64 ph 40;
     (if r \<noteq> int PROGHDR_SIZE then Some (False, sz, st)
      else if rd32 ph 0 \<noteq> ELF_PROG_LOAD then load_segs k (off + of_nat PROGHDR_SIZE) pt ip sz st
      else if memsz < filesz then Some (False, sz, st)
      else if vaddr + memsz < vaddr then Some (False, sz, st)
      else do {
        (sz1, km) \<leftarrow> uvmalloc (kend st) pt sz (vaddr + memsz) (kpool st);
        let st = st\<lparr>kpool := km\<rparr>;
        (if sz1 = 0 then Some (False, sz, st)
         else if vaddr mod PGSZ \<noteq> 0 then Some (False, sz1, st)
         else do {
           (ok, st) \<leftarrow> loadseg pt vaddr ip (ucast (rd64 ph 8)) (ucast filesz) st;
           (if ok then load_segs k (off + of_nat PROGHDR_SIZE) pt ip sz1 st else Some (False, sz1, st))
         })
      })
   }"

section \<open>The stack\<close>

text \<open>
  Pushing the argument strings; \<open>ustack\<close> is the list of their addresses so far.  \<open>None\<close> inside is
  \<open>goto bad\<close>.
\<close>

fun push_args :: "nat \<Rightarrow> u64 \<Rightarrow> byte list list \<Rightarrow> u64 \<Rightarrow> u64 list \<Rightarrow> kmem \<Rightarrow> (u64 \<times> u64 list) option \<times> kmem" where
  "push_args pt stackbase [] sp ustack km = (Some (sp, ustack), km)"
| "push_args pt stackbase (a # as) sp ustack km =
     (if length ustack \<ge> MAXARG then (None, km)
      else let sp = sp - of_nat (length a + 1); sp = sp - sp mod 16 in
        if sp < stackbase then (None, km)
        else (case copyout pt sp (a @ [0]) km of
            (False, km) \<Rightarrow> (None, km)
          | (True, km) \<Rightarrow> push_args pt stackbase as sp (ustack @ [sp]) km))"

definition exec_bad :: "nat \<Rightarrow> u64 \<Rightarrow> nat option \<Rightarrow> 'a kst_scheme \<Rightarrow> (int \<times> 'a kst_scheme) option" where
  "exec_bad pt sz ip st = do {
     km \<leftarrow> (if pt \<noteq> 0 then uvmfree (kend st) pt sz (kpool st) else Some (kpool st));
     let st = st\<lparr>kpool := km\<rparr>;
     st \<leftarrow> (case ip of None \<Rightarrow> Some st | Some ip \<Rightarrow> do { st \<leftarrow> iunlockput ip st; end_op st });
     Some (-1, st)
   }"

text \<open>The last path component, for the process's name.\<close>

definition base_name :: "byte list \<Rightarrow> byte list" where
  "base_name path = rev (takeWhile (\<lambda>c. c \<noteq> slash) (rev path))"

text \<open>The part of \<open>exec\<close> after the program is loaded; \<open>entry\<close> is \<open>elf.entry\<close>.\<close>

definition exec_image :: "nat \<Rightarrow> byte list \<Rightarrow> byte list list \<Rightarrow> u64 \<Rightarrow> nat \<Rightarrow> u64 \<Rightarrow> 'a kst_scheme
    \<Rightarrow> (int \<times> 'a kst_scheme) option" where
  "exec_image p path argv entry pt sz st = do {
     let oldsz = psz (pof st p);
     let sz = pg_up sz;
     (sz1, km) \<leftarrow> uvmalloc (kend st) pt sz (sz + 2 * PGSZ) (kpool st);
     let st = st\<lparr>kpool := km\<rparr>;
     (if sz1 = 0 then exec_bad pt sz None st
      else do {
        km \<leftarrow> uvmclear pt (sz1 - 2 * PGSZ) (kpool st);
        let sz = sz1;
        let stackbase = sz1 - PGSZ;
        (case push_args pt stackbase argv sz [] km of
           (None, km) \<Rightarrow> exec_bad pt sz None (st\<lparr>kpool := km\<rparr>)
         | (Some (sp, ustack), km) \<Rightarrow>
             (let argc = length ustack; sp = sp - of_nat (argc + 1) * 8; sp = sp - sp mod 16;
                  st = st\<lparr>kpool := km\<rparr> in
              if sp < stackbase then exec_bad pt sz None st
              else (case copyout pt sp (concat (map bytes64 (ustack @ [0]))) km of
                  (False, km) \<Rightarrow> exec_bad pt sz None (st\<lparr>kpool := km\<rparr>)
                | (True, km) \<Rightarrow> do {
                    let oldpt = ppagetable (pof st p);
                    let st = pupd p (\<lambda>q. q\<lparr>ppagetable := pt, psz := sz,
                      ptf := (ptf q)\<lparr>tf_x := (tf_x (ptf q))(1 := sp), tf_elr := entry, tf_spsr := 0, tf_sp := sp\<rparr>,
                      pname := set_name (pname q) (str_mem (base_name path))\<rparr>) (st\<lparr>kpool := km\<rparr>);
                    km \<leftarrow> uvmfree (kend st) oldpt oldsz (kpool st);
                    Some (int argc, st\<lparr>kpool := km\<rparr>)
                  })))
      })
   }"

definition exec :: "('a kst_scheme \<Rightarrow> 'a kst_scheme) \<Rightarrow> nat \<Rightarrow> byte list \<Rightarrow> byte list list \<Rightarrow> 'a kst_scheme
    \<Rightarrow> (int \<times> 'a kst_scheme) option" where
  "exec w p path argv st = do {
     st \<leftarrow> begin_wait w st;
     (r, st) \<leftarrow> namei_p p path st;
     (case r of
        None \<Rightarrow> do { st \<leftarrow> end_op st; Some (-1, st) }
      | Some ip \<Rightarrow> do {
          st \<leftarrow> ilock ip st;
          (n, st, elf) \<leftarrow> readi ip kcopyout 0 0 (of_nat ELFHDR_SIZE) st (\<lambda>_. 0);
          (if n \<noteq> int ELFHDR_SIZE \<or> rd32 elf 0 \<noteq> ELF_MAGIC then exec_bad 0 0 (Some ip) st
           else (case uvmcreate (kpool st) of (pt, km) \<Rightarrow>
             if pt = 0 then exec_bad 0 0 (Some ip) (st\<lparr>kpool := km\<rparr>)
             else do {
               (ok, sz, st) \<leftarrow> load_segs (unat (rd16 elf 56)) (ucast (rd64 elf 32)) pt ip 0 (st\<lparr>kpool := km\<rparr>);
               (if \<not> ok then exec_bad pt sz (Some ip) st
                else do {
                  st \<leftarrow> iunlockput ip st;
                  st \<leftarrow> end_op st;
                  exec_image p path argv (rd64 elf 24) pt sz st
                })
             }))
        })
   }"

end
