(* ===== verification/SysArgs.thy ===== *)
theory SysArgs imports Exec begin

text \<open>
  Fetching system call arguments, \<open>kernel/syscalls/arm64/syscall.c\<close>: registers \<open>x0\<close> to \<open>x5\<close> of the
  trapframe, and strings and words in user memory, which the caller does not trust.
\<close>

definition fetchaddr :: "nat \<Rightarrow> u64 \<Rightarrow> 'a kst_scheme \<Rightarrow> u64 option" where
  "fetchaddr p addr st =
     (let sz = psz (pof st p) in
      if addr \<ge> sz \<or> addr + 8 > sz then None
      else (case copyin (ppagetable (pof st p)) (kpool st) addr 8 of
          (bs, ok) \<Rightarrow> if ok then Some (rd64 (str_mem bs) 0) else None))"

text \<open>The string without its NUL, whose length \<open>fetchstr\<close> returns; \<open>None\<close> is -1.\<close>

definition fetchstr :: "nat \<Rightarrow> u64 \<Rightarrow> nat \<Rightarrow> 'a kst_scheme \<Rightarrow> byte list option" where
  "fetchstr p addr mx st =
     (case copyinstr (ppagetable (pof st p)) (kpool st) addr mx of
        (bs, True) \<Rightarrow> Some (butlast bs)
      | (_, False) \<Rightarrow> None)"

text \<open>\<open>None\<close> is the panic for a register that holds no argument.\<close>

definition argraw :: "nat \<Rightarrow> nat \<Rightarrow> 'a kst_scheme \<Rightarrow> u64 option" where
  "argraw p n st = (if n \<le> 5 then Some (tf_x (ptf (pof st p)) n) else None)"

definition argint :: "nat \<Rightarrow> nat \<Rightarrow> 'a kst_scheme \<Rightarrow> int option" where
  "argint p n st = map_option (\<lambda>v. sint (ucast v :: u32)) (argraw p n st)"

definition argaddr :: "nat \<Rightarrow> nat \<Rightarrow> 'a kst_scheme \<Rightarrow> u64 option" where
  "argaddr p n st = argraw p n st"

definition argstr :: "nat \<Rightarrow> nat \<Rightarrow> nat \<Rightarrow> 'a kst_scheme \<Rightarrow> byte list option option" where
  "argstr p n mx st = map_option (\<lambda>a. fetchstr p a mx st) (argaddr p n st)"

end
