(* ===== verification/SysFile.thy ===== *)
theory SysFile imports SysArgs begin

text \<open>
  The file system calls, \<open>kernel/files/sysfile.c\<close>.  A call is a function of the calling process \<open>p\<close>
  and the kernel's state.  \<open>None\<close> is a panic (or a call that waits for the log forever); the result is
  the value the call returns, or \<open>Sleeps\<close> where a pipe makes it wait.  \<open>w\<close> is what the other processes
  do while the call waits for the log.
\<close>

type_synonym 'a sysres = "(int wait_res \<times> 'a kst_scheme) option"

definition ret :: "int \<Rightarrow> 'a kst_scheme \<Rightarrow> 'a sysres" where
  "ret r st = Some (Proceeds r, st)"

section \<open>Descriptors\<close>

text \<open>\<open>argfd\<close>: the descriptor and its file; \<open>None\<close> inside is -1.\<close>

definition argfd :: "nat \<Rightarrow> nat \<Rightarrow> 'a kst_scheme \<Rightarrow> (nat \<times> nat) option option" where
  "argfd p n st = do {
     fd \<leftarrow> argint p n st;
     Some (if fd < 0 \<or> fd \<ge> int NOFILE then None
       else (case pofile (pof st p) (nat fd) of None \<Rightarrow> None | Some f \<Rightarrow> Some (nat fd, f)))
   }"

definition fdset :: "nat \<Rightarrow> nat \<Rightarrow> nat option \<Rightarrow> 'a kst_scheme \<Rightarrow> 'a kst_scheme" where
  "fdset p fd f = pupd p (\<lambda>q. q\<lparr>pofile := (pofile q)(fd := f)\<rparr>)"

definition fdalloc :: "nat \<Rightarrow> nat \<Rightarrow> 'a kst_scheme \<Rightarrow> (nat \<times> 'a kst_scheme) option" where
  "fdalloc p f st =
     (case find (\<lambda>fd. pofile (pof st p) fd = None) [0..<NOFILE] of
        None \<Rightarrow> None
      | Some fd \<Rightarrow> Some (fd, fdset p fd (Some f) st))"

definition sys_dup :: "nat \<Rightarrow> 'a kst_scheme \<Rightarrow> 'a sysres" where
  "sys_dup p st = do {
     a \<leftarrow> argfd p 0 st;
     (case a of
        None \<Rightarrow> ret (-1) st
      | Some (_, f) \<Rightarrow>
          (case fdalloc p f st of
             None \<Rightarrow> ret (-1) st
           | Some (fd, st) \<Rightarrow> do { ft \<leftarrow> filedup f (ftab st); ret (int fd) (st\<lparr>ftab := ft\<rparr>) }))
   }"

definition user_out :: "nat \<Rightarrow> 'a kst_scheme \<Rightarrow> kmem copyout_fn" where
  "user_out p st dst bs km = copyout (ppagetable (pof st p)) (of_nat dst) bs km"

definition user_in :: "nat \<Rightarrow> 'a kst_scheme \<Rightarrow> copyin_fn" where
  "user_in p st src n = copyin (ppagetable (pof st p)) (kpool st) (of_nat src) n"

definition sys_read :: "(nat \<Rightarrow> kmem dev_fn option) \<Rightarrow> nat \<Rightarrow> 'a kst_scheme \<Rightarrow> 'a sysres" where
  "sys_read devs p st = do {
     a \<leftarrow> argfd p 0 st;
     n \<leftarrow> argint p 2 st;
     addr \<leftarrow> argaddr p 1 st;
     (case a of
        None \<Rightarrow> ret (-1) st
      | Some (_, f) \<Rightarrow> do {
          (r, st, km) \<leftarrow> fileread devs (pkilled (pof st p)) (user_out p st) f (unat addr) n st (kpool st);
          Some (r, st\<lparr>kpool := km\<rparr>)
        })
   }"

definition sys_write :: "('a kst_scheme \<Rightarrow> 'a kst_scheme) \<Rightarrow> (nat \<Rightarrow> kmem dev_fn option) \<Rightarrow> nat \<Rightarrow> 'a kst_scheme
    \<Rightarrow> 'a sysres" where
  "sys_write w devs p st = do {
     a \<leftarrow> argfd p 0 st;
     n \<leftarrow> argint p 2 st;
     addr \<leftarrow> argaddr p 1 st;
     (case a of
        None \<Rightarrow> ret (-1) st
      | Some (_, f) \<Rightarrow> do {
          (r, st, km) \<leftarrow> filewrite w devs (\<lambda>_. pkilled (pof st p)) (user_in p st) f (unat addr) n st (kpool st);
          Some (r, st\<lparr>kpool := km\<rparr>)
        })
   }"

definition sys_close :: "('a kst_scheme \<Rightarrow> 'a kst_scheme) \<Rightarrow> nat \<Rightarrow> 'a kst_scheme \<Rightarrow> 'a sysres" where
  "sys_close w p st = do {
     a \<leftarrow> argfd p 0 st;
     (case a of
        None \<Rightarrow> ret (-1) st
      | Some (fd, f) \<Rightarrow> do { st \<leftarrow> fileclose w f (fdset p fd None st); ret 0 st })
   }"

definition sys_fstat :: "byte list \<Rightarrow> nat \<Rightarrow> 'a kst_scheme \<Rightarrow> 'a sysres" where
  "sys_fstat pad p st = do {
     a \<leftarrow> argfd p 0 st;
     addr \<leftarrow> argaddr p 1 st;
     (case a of
        None \<Rightarrow> ret (-1) st
      | Some (_, f) \<Rightarrow> do {
          (r, st, km) \<leftarrow> filestat pad (user_out p st) f (unat addr) st (kpool st);
          ret r (st\<lparr>kpool := km\<rparr>)
        })
   }"

section \<open>Links\<close>

text \<open>\<open>nameiparent\<close> for process \<open>p\<close>.\<close>

definition nameiparent_p :: "nat \<Rightarrow> byte list \<Rightarrow> 'a kst_scheme \<Rightarrow> (nat option \<times> mem \<times> 'a kst_scheme) option" where
  "nameiparent_p p path st =
     (case pcwd (pof st p) of
        Some cwd \<Rightarrow> nameiparent cwd path (\<lambda>_. 0) st
      | None \<Rightarrow> if path \<noteq> [] \<and> hd path = slash then nameiparent 0 path (\<lambda>_. 0) st else None)"

definition set_nlink :: "nat \<Rightarrow> u16 \<Rightarrow> 'a kst_scheme \<Rightarrow> 'a kst_scheme option" where
  "set_nlink ip n st = iupdate ip (iset ip (inlink_update (\<lambda>_. n)) st)"

text \<open>\<open>bad:\<close> of \<open>sys_link\<close> takes the link count back.\<close>

definition link_bad :: "nat \<Rightarrow> 'a kst_scheme \<Rightarrow> 'a sysres" where
  "link_bad ip st = do {
     st \<leftarrow> ilock ip st;
     st \<leftarrow> set_nlink ip (inlink (itab st ip) - 1) st;
     st \<leftarrow> iunlockput ip st;
     st \<leftarrow> end_op st;
     ret (-1) st
   }"

definition do_link :: "nat \<Rightarrow> byte list \<Rightarrow> byte list \<Rightarrow> 'a kst_scheme \<Rightarrow> 'a sysres" where
  "do_link p old new st = do {
     (r, st) \<leftarrow> namei_p p old st;
     (case r of
        None \<Rightarrow> do { st \<leftarrow> end_op st; ret (-1) st }
      | Some ip \<Rightarrow> do {
          st \<leftarrow> ilock ip st;
          (if itype (itab st ip) = T_DIR then do {
             st \<leftarrow> iunlockput ip st; st \<leftarrow> end_op st; ret (-1) st
           } else do {
             st \<leftarrow> set_nlink ip (inlink (itab st ip) + 1) st;
             st \<leftarrow> iunlock ip st;
             (d, nm, st) \<leftarrow> nameiparent_p p new st;
             (case d of
                None \<Rightarrow> link_bad ip st
              | Some dp \<Rightarrow> do {
                  st \<leftarrow> ilock dp st;
                  (if idev (itab st dp) \<noteq> idev (itab st ip) then do { st \<leftarrow> iunlockput dp st; link_bad ip st }
                   else do {
                     (r, st) \<leftarrow> dirlink dp nm (inum (itab st ip)) st;
                     st \<leftarrow> iunlockput dp st;
                     (if r < 0 then link_bad ip st
                      else do { st \<leftarrow> iput ip st; st \<leftarrow> end_op st; ret 0 st })
                   })
                })
           })
        })
   }"

definition sys_link :: "('a kst_scheme \<Rightarrow> 'a kst_scheme) \<Rightarrow> nat \<Rightarrow> 'a kst_scheme \<Rightarrow> 'a sysres" where
  "sys_link w p st = do {
     old \<leftarrow> argstr p 0 MAXPATH st;
     new \<leftarrow> argstr p 1 MAXPATH st;
     (case (old, new) of
        (Some old, Some new) \<Rightarrow> do { st \<leftarrow> begin_wait w st; do_link p old new st }
      | _ \<Rightarrow> ret (-1) st)
   }"

text \<open>The loop of \<open>isdirempty\<close> compares the \<open>int\<close> offset with the size as unsigned numbers.\<close>

function isdirempty_from :: "nat \<Rightarrow> nat \<Rightarrow> 'a kst_scheme \<Rightarrow> mem \<Rightarrow> (bool \<times> 'a kst_scheme) option" where
  "isdirempty_from off dp st de =
     (if off < unat (isize (itab st dp)) then do {
        (r, st1, de) \<leftarrow> readi dp kcopyout 0 (of_nat off) (of_nat DIRENT_SIZE) st de;
        (if r \<noteq> int DIRENT_SIZE then None
         else if rd16 de 0 \<noteq> 0 then Some (False, st1)
         else isdirempty_from (off + DIRENT_SIZE) dp st1 de)
      } else Some (True, st))"
  by pat_completeness auto
termination
  by (relation "measure (\<lambda>(off, dp, st, de). unat (isize (itab st dp)) - off)")
     (auto simp: readi_isize)

declare isdirempty_from.simps [simp del]

definition isdirempty :: "nat \<Rightarrow> 'a kst_scheme \<Rightarrow> (bool \<times> 'a kst_scheme) option" where
  "isdirempty dp st = isdirempty_from (2 * DIRENT_SIZE) dp st (\<lambda>_. 0)"

definition dot :: mem where "dot = str_mem [46]"
definition dotdot :: mem where "dotdot = str_mem [46, 46]"

text \<open>\<open>iunlockput(ip); end_op(); return -1;\<close>, the way most calls give up.\<close>

definition put_bad :: "nat \<Rightarrow> 'a kst_scheme \<Rightarrow> 'a sysres" where
  "put_bad dp st = do { st \<leftarrow> iunlockput dp st; st \<leftarrow> end_op st; ret (-1) st }"

text \<open>From the found entry \<open>ip\<close> at \<open>off\<close> on.\<close>

definition unlink_entry :: "nat \<Rightarrow> nat \<Rightarrow> nat \<Rightarrow> 'a kst_scheme \<Rightarrow> 'a sysres" where
  "unlink_entry dp ip off st = do {
     st \<leftarrow> ilock ip st;
     (if sint (inlink (itab st ip)) < 1 then None
      else do {
        (busy, st) \<leftarrow> (if itype (itab st ip) = T_DIR
          then do { (e, st) \<leftarrow> isdirempty ip st; Some (\<not> e, st) } else Some (False, st));
        (if busy then do { st \<leftarrow> iunlockput ip st; put_bad dp st }
         else do {
           (n, st) \<leftarrow> writei dp (kcopyin (\<lambda>_. 0)) 0 (of_nat off) (of_nat DIRENT_SIZE) st;
           (if n \<noteq> int DIRENT_SIZE then None
            else do {
              st \<leftarrow> (if itype (itab st ip) = T_DIR then set_nlink dp (inlink (itab st dp) - 1) st else Some st);
              st \<leftarrow> iunlockput dp st;
              st \<leftarrow> set_nlink ip (inlink (itab st ip) - 1) st;
              st \<leftarrow> iunlockput ip st;
              st \<leftarrow> end_op st;
              ret 0 st
            })
         })
      })
   }"

definition do_unlink :: "nat \<Rightarrow> byte list \<Rightarrow> 'a kst_scheme \<Rightarrow> 'a sysres" where
  "do_unlink p path st = do {
     (d, nm, st) \<leftarrow> nameiparent_p p path st;
     (case d of
        None \<Rightarrow> do { st \<leftarrow> end_op st; ret (-1) st }
      | Some dp \<Rightarrow> do {
          st \<leftarrow> ilock dp st;
          (if namecmp nm dot = 0 \<or> namecmp nm dotdot = 0 then put_bad dp st
           else do {
             (r, st) \<leftarrow> dirlookup dp nm st;
             (case r of None \<Rightarrow> put_bad dp st | Some (ip, off) \<Rightarrow> unlink_entry dp ip off st)
           })
        })
   }"

definition sys_unlink :: "('a kst_scheme \<Rightarrow> 'a kst_scheme) \<Rightarrow> nat \<Rightarrow> 'a kst_scheme \<Rightarrow> 'a sysres" where
  "sys_unlink w p st = do {
     path \<leftarrow> argstr p 0 MAXPATH st;
     (case path of
        None \<Rightarrow> ret (-1) st
      | Some path \<Rightarrow> do { st \<leftarrow> begin_wait w st; do_unlink p path st })
   }"

section \<open>Creating and opening\<close>

text \<open>\<open>create\<close> returns the inode locked; \<open>None\<close> inside is the null pointer.\<close>

definition create_new :: "nat \<Rightarrow> mem \<Rightarrow> u16 \<Rightarrow> u16 \<Rightarrow> u16 \<Rightarrow> 'a kst_scheme \<Rightarrow> (nat option \<times> 'a kst_scheme) option" where
  "create_new dp nm type mj mn st = do {
     (ip, st) \<leftarrow> ialloc (idev (itab st dp)) type st;
     st \<leftarrow> ilock ip st;
     let st = iset ip (\<lambda>i. i\<lparr>imajor := mj, iminor := mn, inlink := 1\<rparr>) st;
     st \<leftarrow> iupdate ip st;
     st \<leftarrow> (if type = T_DIR then do {
         st \<leftarrow> set_nlink dp (inlink (itab st dp) + 1) st;
         (r, st) \<leftarrow> dirlink ip dot (inum (itab st ip)) st;
         (if r < 0 then None
          else do {
            (r, st) \<leftarrow> dirlink ip dotdot (inum (itab st dp)) st;
            (if r < 0 then None else Some st)
          })
       } else Some st);
     (r, st) \<leftarrow> dirlink dp nm (inum (itab st ip)) st;
     (if r < 0 then None
      else do { st \<leftarrow> iunlockput dp st; Some (Some ip, st) })
   }"

definition create :: "nat \<Rightarrow> byte list \<Rightarrow> u16 \<Rightarrow> u16 \<Rightarrow> u16 \<Rightarrow> 'a kst_scheme \<Rightarrow> (nat option \<times> 'a kst_scheme) option" where
  "create p path type mj mn st = do {
     (d, nm, st) \<leftarrow> nameiparent_p p path st;
     (case d of
        None \<Rightarrow> Some (None, st)
      | Some dp \<Rightarrow> do {
          st \<leftarrow> ilock dp st;
          (r, st) \<leftarrow> dirlookup dp nm st;
          (case r of
             Some (ip, _) \<Rightarrow> do {
               st \<leftarrow> iunlockput dp st;
               st \<leftarrow> ilock ip st;
               (if type = T_FILE \<and> (itype (itab st ip) = T_FILE \<or> itype (itab st ip) = T_DEVICE)
                then Some (Some ip, st)
                else do { st \<leftarrow> iunlockput ip st; Some (None, st) })
             }
           | None \<Rightarrow> create_new dp nm type mj mn st)
        })
   }"

abbreviation (input) O_WRONLY :: u32 where "O_WRONLY \<equiv> 1"
abbreviation (input) O_RDWR :: u32 where "O_RDWR \<equiv> 2"
abbreviation (input) O_CREATE :: u32 where "O_CREATE \<equiv> 0x200"
abbreviation (input) O_TRUNC :: u32 where "O_TRUNC \<equiv> 0x400"

text \<open>The inode for \<open>sys_open\<close>, locked, or \<open>None\<close> for an error return with the log operation still open.\<close>

definition open_inode :: "nat \<Rightarrow> byte list \<Rightarrow> u32 \<Rightarrow> 'a kst_scheme \<Rightarrow> (nat option \<times> 'a kst_scheme) option" where
  "open_inode p path omode st =
     (if omode AND O_CREATE \<noteq> 0 then create p path T_FILE 0 0 st
      else do {
        (r, st) \<leftarrow> namei_p p path st;
        (case r of
           None \<Rightarrow> Some (None, st)
         | Some ip \<Rightarrow> do {
             st \<leftarrow> ilock ip st;
             (if itype (itab st ip) = T_DIR \<and> omode \<noteq> 0
              then do { st \<leftarrow> iunlockput ip st; Some (None, st) } else Some (Some ip, st))
           })
      })"

definition open_file :: "nat \<Rightarrow> nat \<Rightarrow> u32 \<Rightarrow> 'a kst_scheme \<Rightarrow> 'a kst_scheme" where
  "open_file f ip omode st =
     (let i = itab st ip; fl = ftab st f;
          fl = (if itype i = T_DEVICE then fl\<lparr>ftyp := FD_DEVICE, fmajor := imajor i\<rparr>
                else fl\<lparr>ftyp := FD_INODE, foff := 0\<rparr>)
      in st\<lparr>ftab := (ftab st)(f := fl\<lparr>fip := ip, freadable := (omode AND O_WRONLY = 0),
           fwritable := (omode AND O_WRONLY \<noteq> 0 \<or> omode AND O_RDWR \<noteq> 0)\<rparr>)\<rparr>)"

definition do_open :: "('a kst_scheme \<Rightarrow> 'a kst_scheme) \<Rightarrow> nat \<Rightarrow> byte list \<Rightarrow> u32 \<Rightarrow> 'a kst_scheme \<Rightarrow> 'a sysres" where
  "do_open w p path omode st = do {
     (r, st) \<leftarrow> open_inode p path omode st;
     (case r of
        None \<Rightarrow> do { st \<leftarrow> end_op st; ret (-1) st }
      | Some ip \<Rightarrow>
          if itype (itab st ip) = T_DEVICE \<and> (sint (imajor (itab st ip)) < 0 \<or> sint (imajor (itab st ip)) \<ge> int NDEV)
          then put_bad ip st
          else (case filealloc (ftab st) of
              None \<Rightarrow> put_bad ip st
            | Some (f, ft) \<Rightarrow>
                (let st = st\<lparr>ftab := ft\<rparr> in
                 (case fdalloc p f st of
                    None \<Rightarrow> do { st \<leftarrow> fileclose w f st; put_bad ip st }
                  | Some (fd, st) \<Rightarrow> do {
                      let st = open_file f ip omode st;
                      st \<leftarrow> (if omode AND O_TRUNC \<noteq> 0 \<and> itype (itab st ip) = T_FILE then itrunc ip st else Some st);
                      st \<leftarrow> iunlock ip st;
                      st \<leftarrow> end_op st;
                      ret (int fd) st
                    }))))
   }"

definition sys_open :: "('a kst_scheme \<Rightarrow> 'a kst_scheme) \<Rightarrow> nat \<Rightarrow> 'a kst_scheme \<Rightarrow> 'a sysres" where
  "sys_open w p st = do {
     path \<leftarrow> argstr p 0 MAXPATH st;
     omode \<leftarrow> argint p 1 st;
     (case path of
        None \<Rightarrow> ret (-1) st
      | Some path \<Rightarrow> do { st \<leftarrow> begin_wait w st; do_open w p path (of_int omode) st })
   }"

text \<open>The common end of \<open>sys_mkdir\<close> and \<open>sys_mknod\<close>.\<close>

definition make_node :: "nat \<Rightarrow> byte list option \<Rightarrow> u16 \<Rightarrow> u16 \<Rightarrow> u16 \<Rightarrow> 'a kst_scheme \<Rightarrow> 'a sysres" where
  "make_node p path type mj mn st =
     (case path of
        None \<Rightarrow> do { st \<leftarrow> end_op st; ret (-1) st }
      | Some path \<Rightarrow> do {
          (r, st) \<leftarrow> create p path type mj mn st;
          (case r of
             None \<Rightarrow> do { st \<leftarrow> end_op st; ret (-1) st }
           | Some ip \<Rightarrow> do { st \<leftarrow> iunlockput ip st; st \<leftarrow> end_op st; ret 0 st })
        })"

definition sys_mkdir :: "('a kst_scheme \<Rightarrow> 'a kst_scheme) \<Rightarrow> nat \<Rightarrow> 'a kst_scheme \<Rightarrow> 'a sysres" where
  "sys_mkdir w p st = do {
     st \<leftarrow> begin_wait w st;
     path \<leftarrow> argstr p 0 MAXPATH st;
     make_node p path T_DIR 0 0 st
   }"

text \<open>The device numbers are \<open>int\<close> arguments passed on as \<open>short\<close>s.\<close>

definition sys_mknod :: "('a kst_scheme \<Rightarrow> 'a kst_scheme) \<Rightarrow> nat \<Rightarrow> 'a kst_scheme \<Rightarrow> 'a sysres" where
  "sys_mknod w p st = do {
     st \<leftarrow> begin_wait w st;
     path \<leftarrow> argstr p 0 MAXPATH st;
     mj \<leftarrow> argint p 1 st;
     mn \<leftarrow> argint p 2 st;
     make_node p path T_DEVICE (of_int mj) (of_int mn) st
   }"

definition sys_chdir :: "('a kst_scheme \<Rightarrow> 'a kst_scheme) \<Rightarrow> nat \<Rightarrow> 'a kst_scheme \<Rightarrow> 'a sysres" where
  "sys_chdir w p st = do {
     st \<leftarrow> begin_wait w st;
     path \<leftarrow> argstr p 0 MAXPATH st;
     (r, st) \<leftarrow> (case path of None \<Rightarrow> Some (None, st) | Some path \<Rightarrow> namei_p p path st);
     (case r of
        None \<Rightarrow> do { st \<leftarrow> end_op st; ret (-1) st }
      | Some ip \<Rightarrow> do {
          st \<leftarrow> ilock ip st;
          (if itype (itab st ip) \<noteq> T_DIR then put_bad ip st
           else do {
             st \<leftarrow> iunlock ip st;
             st \<leftarrow> (case pcwd (pof st p) of None \<Rightarrow> None | Some old \<Rightarrow> iput old st);
             st \<leftarrow> end_op st;
             ret 0 (pupd p (pcwd_update (\<lambda>_. Some ip)) st)
           })
        })
   }"

section \<open>exec and pipe\<close>

text \<open>
  The argument loop of \<open>sys_exec\<close> from index \<open>i\<close>: the pages it has taken, in order, with their
  strings; \<open>False\<close> is \<open>goto bad\<close>.
\<close>

function exec_args :: "nat \<Rightarrow> u64 \<Rightarrow> nat \<Rightarrow> (nat \<times> byte list) list \<Rightarrow> 'a kst_scheme
    \<Rightarrow> bool \<times> (nat \<times> byte list) list \<times> 'a kst_scheme" where
  "exec_args p uargv i acc st =
     (if i \<ge> MAXARG then (False, acc, st)
      else (case fetchaddr p (uargv + 8 * of_nat i) st of
          None \<Rightarrow> (False, acc, st)
        | Some uarg \<Rightarrow>
            if uarg = 0 then (True, acc, st)
            else (case page_alloc_st st of (pa, st) \<Rightarrow>
              if pa = 0 then (False, acc, st)
              else (case copyinstr (ppagetable (pof st p)) (kpool st) uarg PGSIZE of (bs, got) \<Rightarrow>
                let st = st\<lparr>kpool := (kpool st)\<lparr>kpages := blit (kpages (kpool st)) pa bs\<rparr>\<rparr> in
                if got then exec_args p uargv (i + 1) (acc @ [(pa, butlast bs)]) st
                else (False, acc @ [(pa, [])], st)))))"
  by pat_completeness auto
termination
  by (relation "measure (\<lambda>(p, uargv, i, acc, st). MAXARG - i)") auto

declare exec_args.simps [simp del]

definition free_args :: "(nat \<times> byte list) list \<Rightarrow> 'a kst_scheme \<Rightarrow> 'a kst_scheme option" where
  "free_args acc = fold_opt (\<lambda>(pa, _) st. page_free pa st) acc"

definition sys_exec :: "('a kst_scheme \<Rightarrow> 'a kst_scheme) \<Rightarrow> nat \<Rightarrow> 'a kst_scheme \<Rightarrow> 'a sysres" where
  "sys_exec w p st = do {
     path \<leftarrow> argstr p 0 MAXPATH st;
     uargv \<leftarrow> argaddr p 1 st;
     (case path of
        None \<Rightarrow> ret (-1) st
      | Some path \<Rightarrow>
          (case exec_args p uargv 0 [] st of (ok, acc, st) \<Rightarrow>
             if ok then do {
               (r, st) \<leftarrow> exec w p path (map snd acc) st;
               st \<leftarrow> free_args acc st;
               ret r st
             } else do { st \<leftarrow> free_args acc st; ret (-1) st }))
   }"

definition pipe_bad :: "('a kst_scheme \<Rightarrow> 'a kst_scheme) \<Rightarrow> nat \<Rightarrow> nat \<Rightarrow> 'a kst_scheme \<Rightarrow> 'a sysres" where
  "pipe_bad w rf wfile st = do { st \<leftarrow> fileclose w rf st; st \<leftarrow> fileclose w wfile st; ret (-1) st }"

text \<open>\<open>junk\<close> is what the pipe's page holds before it is used.\<close>

definition sys_pipe :: "('a kst_scheme \<Rightarrow> 'a kst_scheme) \<Rightarrow> (nat \<Rightarrow> byte) \<Rightarrow> nat \<Rightarrow> 'a kst_scheme \<Rightarrow> 'a sysres" where
  "sys_pipe w junk p st = do {
     fdarray \<leftarrow> argaddr p 0 st;
     (r, st) \<leftarrow> pipealloc w junk st;
     (case r of
        None \<Rightarrow> ret (-1) st
      | Some (rf, wfile) \<Rightarrow>
          (case fdalloc p rf st of
             None \<Rightarrow> pipe_bad w rf wfile st
           | Some (fd0, st) \<Rightarrow>
               (case fdalloc p wfile st of
                  None \<Rightarrow> pipe_bad w rf wfile (fdset p fd0 None st)
                | Some (fd1, st) \<Rightarrow>
                    (let pt = ppagetable (pof st p);
                         (ok0, km0) = copyout pt fdarray (bytes32 (of_nat fd0)) (kpool st);
                         (ok, km) = (if ok0 then copyout pt (fdarray + 4) (bytes32 (of_nat fd1)) km0 else (False, km0));
                         st = st\<lparr>kpool := km\<rparr>
                     in if ok then ret 0 st
                        else pipe_bad w rf wfile (fdset p fd1 None (fdset p fd0 None st))))))
   }"

end
