(* ===== verification/Syscall.thy ===== *)
theory Syscall imports SysFile begin

text \<open>
  The process system calls, \<open>kernel/processes/sysproc.c\<close>; the dispatcher, \<open>syscall\<close> of
  \<open>kernel/syscalls/arm64/syscall.c\<close>, with its table; and what \<open>forks/arm64/kernel/trap.c\<close> does around
  it.
\<close>

section \<open>sysproc.c\<close>

definition sys_exit :: "('a kst_scheme \<Rightarrow> 'a kst_scheme) \<Rightarrow> nat \<Rightarrow> 'a kst_scheme \<Rightarrow> 'a sysres" where
  "sys_exit w p st = do {
     n \<leftarrow> argint p 0 st;
     st \<leftarrow> exit w p (of_int n) st;
     Some (Sleeps, st)  \<comment> \<open>\<open>exit\<close> does not return\<close>
   }"

definition sys_getpid :: "nat \<Rightarrow> 'a kst_scheme \<Rightarrow> 'a sysres" where
  "sys_getpid p st = ret (ppid (pof st p)) st"

definition sys_fork :: "u64 \<Rightarrow> nat \<Rightarrow> 'a kst_scheme \<Rightarrow> 'a sysres" where
  "sys_fork fr p st = do { (r, st) \<leftarrow> fork fr p st; ret r st }"

definition sys_wait :: "nat \<Rightarrow> 'a kst_scheme \<Rightarrow> 'a sysres" where
  "sys_wait p st = do { addr \<leftarrow> argaddr p 0 st; wait addr p st }"

text \<open>The old size is kept in an \<open>int\<close>.\<close>

definition sys_sbrk :: "nat \<Rightarrow> 'a kst_scheme \<Rightarrow> 'a sysres" where
  "sys_sbrk p st = do {
     n \<leftarrow> argint p 0 st;
     let addr = sint (ucast (psz (pof st p)) :: u32);
     (r, st) \<leftarrow> growproc p n st;
     ret (if r < 0 then -1 else addr) st
   }"

text \<open>
  \<open>sys_sleep\<close> up to its return or its call of \<open>sleep\<close>; \<open>ticks0\<close> is the clock when the call began,
  \<open>ticks\<close> now.  The comparison is of unsigned numbers, so a negative argument is a long sleep.
\<close>

definition ticks_chan :: chan where "ticks_chan = ChAddr 0"

definition sys_sleep :: "u32 \<Rightarrow> u32 \<Rightarrow> nat \<Rightarrow> 'a kst_scheme \<Rightarrow> 'a sysres" where
  "sys_sleep ticks0 ticks p st = do {
     n \<leftarrow> argint p 0 st;
     (if ticks - ticks0 < of_int n then
        if pkilled (pof st p) then ret (-1) st
        else Some (Sleeps, st\<lparr>ptab := go_to_sleep ticks_chan p (ptab st)\<rparr>)
      else ret 0 st)
   }"

definition sys_kill :: "nat \<Rightarrow> 'a kst_scheme \<Rightarrow> 'a sysres" where
  "sys_kill p st = do {
     pid \<leftarrow> argint p 0 st;
     (case kill pid (ptab st) of (r, t) \<Rightarrow> ret r (st\<lparr>ptab := t\<rparr>))
   }"

definition sys_uptime :: "u32 \<Rightarrow> 'a kst_scheme \<Rightarrow> 'a sysres" where
  "sys_uptime ticks st = ret (int (unat ticks)) st"

section \<open>The dispatcher\<close>

text \<open>
  What the calls take from outside the state: what other processes do while a call waits for the
  log, the device switch, uninitialised memory, the address of \<open>forkret\<close>, the clock now and when the
  call began, and which process runs.
\<close>

record 'a sys_env =
  e_wait :: "'a kst_scheme \<Rightarrow> 'a kst_scheme"
  e_read :: "nat \<Rightarrow> kmem dev_fn option"
  e_write :: "nat \<Rightarrow> kmem dev_fn option"
  e_pad :: "byte list"
  e_junk :: "nat \<Rightarrow> byte"
  e_forkret :: u64
  e_ticks :: u32
  e_ticks0 :: u32

text \<open>The array \<open>syscalls\<close>, indexed by the numbers of \<open>include/kernel/syscall.h\<close>.\<close>

definition syscalls :: "'a sys_env \<Rightarrow> nat \<Rightarrow> nat \<Rightarrow> ('a kst_scheme \<Rightarrow> 'a sysres) option" where
  "syscalls e p = (\<lambda>_. None)(
     1 := Some (sys_fork (e_forkret e) p),
     2 := Some (sys_exit (e_wait e) p),
     3 := Some (sys_wait p),
     4 := Some (sys_pipe (e_wait e) (e_junk e) p),
     5 := Some (sys_read (e_read e) p),
     6 := Some (sys_kill p),
     7 := Some (sys_exec (e_wait e) p),
     8 := Some (sys_fstat (e_pad e) p),
     9 := Some (sys_chdir (e_wait e) p),
     10 := Some (sys_dup p),
     11 := Some (sys_getpid p),
     12 := Some (sys_sbrk p),
     13 := Some (sys_sleep (e_ticks0 e) (e_ticks e) p),
     14 := Some (sys_uptime (e_ticks e)),
     15 := Some (sys_open (e_wait e) p),
     16 := Some (sys_write (e_wait e) (e_write e) p),
     17 := Some (sys_mknod (e_wait e) p),
     18 := Some (sys_unlink (e_wait e) p),
     19 := Some (sys_link (e_wait e) p),
     20 := Some (sys_mkdir (e_wait e) p),
     21 := Some (sys_close (e_wait e) p))"

definition set_x0 :: "nat \<Rightarrow> int \<Rightarrow> 'a kst_scheme \<Rightarrow> 'a kst_scheme" where
  "set_x0 p r = pupd p (\<lambda>q. q\<lparr>ptf := (ptf q)\<lparr>tf_x := (tf_x (ptf q))(0 := of_int r)\<rparr>\<rparr>)"

text \<open>
  \<open>syscall\<close>: the number is the low half of \<open>x7\<close> as an \<open>int\<close>, the result goes to \<open>x0\<close>.  The flag is
  whether the call has returned; it has not when it sleeps, or when it was \<open>exit\<close>.
\<close>

definition syscall :: "'a sys_env \<Rightarrow> nat \<Rightarrow> 'a kst_scheme \<Rightarrow> (bool \<times> 'a kst_scheme) option" where
  "syscall e p st =
     (let num = sint (ucast (tf_x (ptf (pof st p)) 7) :: u32) in
      if 0 < num \<and> num < 22 \<and> syscalls e p (nat num) \<noteq> None then
        (case the (syscalls e p (nat num)) st of
           None \<Rightarrow> None
         | Some (Sleeps, st) \<Rightarrow> Some (False, st)
         | Some (Proceeds r, st) \<Rightarrow> Some (True, set_x0 p r st))
      else Some (True, set_x0 p (-1) st))"

section \<open>Traps\<close>

text \<open>
  \<open>usertrap\<close> for exception class \<open>ec\<close>; class 21 is a system call, anything else kills the process.
  The flag is whether the process goes back to user space.
\<close>

definition set_killed :: "nat \<Rightarrow> 'a kst_scheme \<Rightarrow> 'a kst_scheme" where
  "set_killed p = pupd p (pkilled_update (\<lambda>_. True))"

definition die_if_killed :: "'a sys_env \<Rightarrow> nat \<Rightarrow> 'a kst_scheme \<Rightarrow> (bool \<times> 'a kst_scheme) option" where
  "die_if_killed e p st =
     (if pkilled (pof st p) then do { st \<leftarrow> exit (e_wait e) p (-1) st; Some (False, st) } else Some (True, st))"

definition usertrap :: "'a sys_env \<Rightarrow> u64 \<Rightarrow> nat \<Rightarrow> 'a kst_scheme \<Rightarrow> (bool \<times> 'a kst_scheme) option" where
  "usertrap e ec p st =
     (if ec = 21 then do {
        (alive, st) \<leftarrow> die_if_killed e p st;
        (if \<not> alive then Some (False, st)
         else do {
           (back, st) \<leftarrow> syscall e p st;
           (if back then die_if_killed e p st else Some (False, st))
         })
      } else die_if_killed e p (set_killed p st))"

text \<open>
  \<open>clockintr\<close>, and which interrupts \<open>devintr\<close> recognises: 2 for the timer, 1 for another device, 0
  otherwise, with the clock advanced by cpu 0 only.  \<open>userirq\<close> and \<open>kernelirq\<close> yield on a timer
  interrupt.
\<close>

definition clockintr :: "nat \<Rightarrow> u32 \<times> ptable \<Rightarrow> u32 \<times> ptable" where
  "clockintr me = (\<lambda>(ticks, t). (ticks + 1, wakeup ticks_chan me t))"

definition devintr :: "nat \<Rightarrow> nat \<Rightarrow> nat \<Rightarrow> u32 \<times> ptable \<Rightarrow> nat \<times> u32 \<times> ptable" where
  "devintr cpu irq me s =
     (if irq = 33 then (1, s)
      else if irq = 48 then (1, s)
      else if irq = 27 then (2, if cpu = 0 then clockintr me s else s)
      else (0, s))"

definition kernelirq :: "nat \<Rightarrow> nat \<Rightarrow> nat option \<Rightarrow> u32 \<times> ptable \<Rightarrow> u32 \<times> ptable" where
  "kernelirq cpu irq running s =
     (case devintr cpu irq (case running of Some p \<Rightarrow> p | None \<Rightarrow> NPROC) s of (dev, ticks, t) \<Rightarrow>
        (case running of
           Some p \<Rightarrow> if dev = 2 \<and> pstate (procs t p) = RUNNING then (ticks, yield p t) else (ticks, t)
         | None \<Rightarrow> (ticks, t)))"

definition userirq :: "'a sys_env \<Rightarrow> nat \<Rightarrow> nat \<Rightarrow> nat \<Rightarrow> u32 \<Rightarrow> 'a kst_scheme \<Rightarrow> (bool \<times> u32 \<times> 'a kst_scheme) option" where
  "userirq e cpu irq p ticks st =
     (case devintr cpu irq p (ticks, ptab st) of (dev, ticks, t) \<Rightarrow> do {
        let st = st\<lparr>ptab := (if dev = 2 then yield p t else t)\<rparr>;
        (alive, st) \<leftarrow> die_if_killed e p st;
        Some (alive, ticks, st)
      })"

section \<open>What the checks catch\<close>

text \<open>
  A system call number that is not in the table, negative or too large, gives the caller -1 and
  changes nothing but its \<open>x0\<close>; and a call on a descriptor that is out of range or not open returns
  -1 and changes nothing at all.
\<close>

theorem bad_call_refused:
  assumes "sint (ucast (tf_x (ptf (pof st p)) 7) :: u32) \<notin> {1..21}"
    and "fd = sint (ucast (tf_x (ptf (pof st' p')) 0) :: u32)"
    and "fd < 0 \<or> fd \<ge> int NOFILE \<or> pofile (pof st' p') (nat fd) = None"
  shows "syscall e p st = Some (True, set_x0 p (-1) st)
    \<and> sys_dup p' st' = ret (-1) st' \<and> sys_read devs p' st' = ret (-1) st'
    \<and> sys_write w devs p' st' = ret (-1) st' \<and> sys_close w p' st' = ret (-1) st'
    \<and> sys_fstat pad p' st' = ret (-1) st'"
proof -
  have "argfd p' 0 st' = Some None"
    using assms(2,3) by (auto simp: argfd_def argint_def argraw_def)
  then show ?thesis
    using assms(1)
    by (auto simp: syscall_def Let_def sys_dup_def sys_read_def sys_write_def sys_close_def sys_fstat_def
        argint_def argaddr_def argraw_def)
qed

lemma demo_regs: "tf_x (ptf (pof demo_kst 0)) n = 0" "pofile (pof demo_kst 0) fd = None"
  by (simp_all add: demo_kst_def pof_def pset_def boot_ptable_def)

definition demo_env :: "unit sys_env" where
  "demo_env = \<lparr>e_wait = id, e_read = (\<lambda>_. None), e_write = (\<lambda>_. None), e_pad = [], e_junk = (\<lambda>_. 0),
     e_forkret = 0, e_ticks = 0, e_ticks0 = 0\<rparr>"

theorem bad_call_refused_witness:
  "syscall demo_env 0 demo_kst = Some (True, set_x0 0 (-1) demo_kst) \<and> sys_dup 0 demo_kst = ret (-1) demo_kst
    \<and> sys_read (\<lambda>_. None) 0 demo_kst = ret (-1) demo_kst \<and> sys_write id (\<lambda>_. None) 0 demo_kst = ret (-1) demo_kst
    \<and> sys_close id 0 demo_kst = ret (-1) demo_kst \<and> sys_fstat [] 0 demo_kst = ret (-1) demo_kst"
  by (rule bad_call_refused[OF _ refl]) (simp_all add: demo_regs)

end
