(* ===== verification/UserMem.thy ===== *)
theory UserMem imports Umalloc Syscall begin

text \<open>
  The \<open>sbrk\<close> that \<open>malloc\<close> sees is the one the kernel provides: what \<open>growproc\<close> does to the size of a
  process, and what \<open>sys_sbrk\<close> returns, is what \<open>Umalloc.sbrk\<close> says, for some limit of the kernel's memory.
\<close>

lemma uvmalloc_loop_size: "uvmalloc_loop lo pt a oldsz newsz km = Some (r, km') \<Longrightarrow> r = 0 \<or> r = newsz"
proof (induction lo pt a oldsz newsz km arbitrary: km' rule: uvmalloc_loop.induct)
  case (1 lo pt a oldsz newsz km)
  note IH = 1(1)
  show ?case
  proof (cases "a < newsz \<and> fst (kalloc km) \<noteq> 0")
    case True
    then obtain x y where k: "kalloc km = (x, y)" "x \<noteq> 0" by (cases "kalloc km") auto
    have "r = 0 \<or> (\<exists>km1. mappages pt a PGSZ (V2P (of_nat x)) (PTE_NORMAL OR PTE_U) (zero_page x y) = Some (True, km1)
        \<and> uvmalloc_loop lo pt (a + PGSZ) oldsz newsz km1 = Some (r, km'))"
      using 1(2) True k
      by (subst (asm) uvmalloc_loop.simps) (auto split: if_splits prod.splits option.splits bool.splits bind_splits)
    then show ?thesis using IH[OF _ k(1)[symmetric] k(2) _ refl] True by blast
  next
    case False
    then show ?thesis using 1(2)
      by (subst (asm) uvmalloc_loop.simps) (auto split: if_splits prod.splits bind_splits)
  qed
qed

lemma uvmalloc_size: "uvmalloc lo pt oldsz newsz km = Some (r, km')
    \<Longrightarrow> if newsz < oldsz then r = oldsz else r = 0 \<or> r = newsz"
  by (auto simp: uvmalloc_def Let_def dest: uvmalloc_loop_size split: if_splits)

lemma uvmdealloc_size: "uvmdealloc lo pt oldsz newsz km = Some (r, km') \<Longrightarrow> r = (if newsz \<ge> oldsz then oldsz else newsz)"
  by (auto simp: uvmdealloc_def split: if_splits bind_splits)

text \<open>
  \<open>h\<close> is the heap of a process whose size is \<open>usz h\<close>; the result of the call is what \<open>sys_sbrk\<close> returns.
\<close>

lemma growproc_sbrk:
  assumes g: "growproc p n st = Some (r, st')" and n: "- (2 ^ 31) \<le> n" "n < 2 ^ 31"
    and h: "psz (pof st p) = ucast (usz h)"
  shows "\<exists>room. sbrk n (h\<lparr>uroom := room\<rparr>)
    = (if r < 0 then -1 else sint (usz h), h\<lparr>uroom := room, usz := ucast (psz (pof st' p))\<rparr>)"
proof -
  let ?new = "usz h + of_int n"
  have dn: "ucast (ucast (w :: u32) :: u64) = w" for w by (rule bit_word_eqI) (simp add: bit_simps)
  have lt: "(ucast (v :: u32) :: u64) < ucast w \<longleftrightarrow> v < w" for v w by (simp add: word_less_nat_alt unat_up)
  have pz: "psz (pof (pupd p (\<lambda>x. x\<lparr>psz := w\<rparr>) s) p) = w" "pof (st\<lparr>kpool := km\<rparr>) p = pof st p" for w s km
    by (simp_all add: pof_def pupd_def pset_def)
  have hh: "h\<lparr>uroom := room, usz := usz h\<rparr> = h\<lparr>uroom := room\<rparr>" for room by (cases h) simp
  have arg: "(ucast (ucast (usz h) :: u64) :: u32) = usz h" by (rule dn)
  consider (grow) "n > 0" | (shrink) "n < 0" | (same) "n = 0" by linarith
  then show ?thesis
  proof cases
    case grow
    then obtain q km where u: "uvmalloc (kend st) (ppagetable (pof st p)) (ucast (usz h)) (ucast ?new) (kpool st) = Some (q, km)"
      "(r, st') = (if (ucast q :: u32) = 0 then (-1, st\<lparr>kpool := km\<rparr>) else (0, pupd p (\<lambda>x. x\<lparr>psz := ucast (ucast q :: u32)\<rparr>) (st\<lparr>kpool := km\<rparr>)))"
      using g h arg by (auto simp: growproc_def Let_def split: if_splits bind_splits)
    show ?thesis
    proof (cases "?new < usz h")
      case True
      then have "q = ucast (usz h)" using uvmalloc_size[OF u(1)] lt by simp
      moreover have "usz h \<noteq> 0" using True by auto
      ultimately have "r = 0" "psz (pof st' p) = ucast (usz h)" using u(2) dn pz by auto
      then show ?thesis using True grow by (intro exI[of _ 0]) (simp add: sbrk_def Let_def dn hh)
    next
      case False
      then have q: "q = 0 \<or> q = ucast ?new" using uvmalloc_size[OF u(1)] lt by simp
      have new: "?new \<noteq> 0"
      proof
        assume z: "?new = 0"
        then have "usz h = 0" using False by (simp add: word_greater_zero_iff)
        then have "(of_int n :: u32) = 0" using z by simp
        then have "uint (of_int n :: u32) = 0" by simp
        then have "take_bit 32 n = 0" by (simp add: unsigned_of_int)
        then show False using grow n(2) by (simp add: take_bit_int_eq_self)
      qed
      show ?thesis
      proof (cases "q = 0")
        case True
        then have "r = -1" "psz (pof st' p) = ucast (usz h)" using u(2) pz h by auto
        moreover have "unat ?new > 0" using new by (simp add: unat_gt_0)
        ultimately show ?thesis using False grow by (intro exI[of _ 0]) (simp add: sbrk_def Let_def dn hh)
      next
        case nz: False
        then have "r = 0" "psz (pof st' p) = ucast ?new" using q u(2) new dn pz by auto
        moreover have "unat ?new \<le> 2 ^ 32" using unsigned_less[of ?new, where ?'a = nat] by simp
        ultimately show ?thesis using False grow by (intro exI[of _ "2 ^ 32"]) (simp add: sbrk_def Let_def dn)
      qed
    qed
  next
    case shrink
    then obtain q km where u: "uvmdealloc (kend st) (ppagetable (pof st p)) (ucast (usz h)) (ucast ?new) (kpool st) = Some (q, km)"
      "r = 0" "st' = pupd p (\<lambda>x. x\<lparr>psz := ucast (ucast q :: u32)\<rparr>) (st\<lparr>kpool := km\<rparr>)"
      using g h arg by (auto simp: growproc_def Let_def split: bind_splits)
    have "q = (if ?new < usz h then ucast ?new else ucast (usz h))"
      using uvmdealloc_size[OF u(1)] lt[of ?new "usz h"] by (auto simp: not_less)
    then have "psz (pof st' p) = ucast (if ?new < usz h then ?new else usz h)" using u(3) dn pz by auto
    then show ?thesis using shrink u(2) by (intro exI[of _ 0]) (simp add: sbrk_def Let_def dn hh)
  next
    case same
    then have "r = 0" "psz (pof st' p) = ucast (usz h)" using g h arg pz by (auto simp: growproc_def Let_def)
    then show ?thesis using same by (intro exI[of _ 0]) (simp add: sbrk_def Let_def dn hh)
  qed
qed

end
