(* ===== verification/BuddyTiles.thy ===== *)
theory BuddyTiles imports KPrelude begin

text \<open>
  What a buddy allocator does, without its data structures: a set of free blocks and a set of blocks in
  use that together cut the heap into aligned pieces.  A block is its order and its number among the
  blocks of that order; the heap is counted in units of the smallest order.
\<close>

abbreviation (input) MAX_ORD :: nat where "MAX_ORD \<equiv> 12"
abbreviation (input) MIN_ORD :: nat where "MIN_ORD \<equiv> 6"

type_synonym block = "nat \<times> nat"

text \<open>The units of a block, and the blocks that cut a heap of \<open>n\<close> units.\<close>

definition in_block :: "nat \<Rightarrow> block \<Rightarrow> bool" where
  "in_block u x \<longleftrightarrow> u div 2 ^ (fst x - MIN_ORD) = snd x"

definition block_ok :: "nat \<Rightarrow> block \<Rightarrow> bool" where
  "block_ok n x \<longleftrightarrow> MIN_ORD \<le> fst x \<and> fst x \<le> MAX_ORD \<and> (snd x + 1) * 2 ^ (fst x - MIN_ORD) \<le> n"

definition cuts :: "nat \<Rightarrow> block set \<Rightarrow> bool" where
  "cuts n S \<longleftrightarrow> (\<forall>x \<in> S. block_ok n x) \<and> (\<forall>u < n. \<exists>x \<in> S. in_block u x)
     \<and> (\<forall>x \<in> S. \<forall>y \<in> S. \<forall>u. in_block u x \<and> in_block u y \<longrightarrow> x = y)"

definition buddy :: "nat \<Rightarrow> nat" where
  "buddy b = b XOR 1"

text \<open>Free blocks that could be joined are joined.\<close>

definition joined :: "block set \<Rightarrow> bool" where
  "joined F \<longleftrightarrow> (\<forall>r b. (r, b) \<in> F \<and> (r, buddy b) \<in> F \<longrightarrow> r = MAX_ORD)"

definition buddies :: "nat \<Rightarrow> block set \<Rightarrow> block set \<Rightarrow> bool" where
  "buddies n F H \<longleftrightarrow> cuts n (F \<union> H) \<and> F \<inter> H = {} \<and> joined F"


section \<open>Blocks\<close>

lemma buddy_even [simp]: "buddy (2 * b) = 2 * b + 1"
  and buddy_odd [simp]: "buddy (2 * b + 1) = 2 * b"
  by (simp_all add: buddy_def xor_Suc_0_eq)

lemma buddy_neq: "buddy b \<noteq> b"
  by (cases b) (simp_all add: buddy_def xor_Suc_0_eq)

lemma buddy_cases:
  obtains "b = 2 * (b div 2)" "buddy b = 2 * (b div 2) + 1" | "b = 2 * (b div 2) + 1" "buddy b = 2 * (b div 2)"
proof (cases "even b")
  case True
  then show ?thesis using that(1) buddy_even[of "b div 2"] by simp
next
  case False
  then have "b = 2 * (b div 2) + 1" by simp
  then show ?thesis using that(2) buddy_odd[of "b div 2"] by metis
qed

lemma buddy_buddy [simp]: "buddy (buddy b) = b"
  by (simp add: buddy_def xor.assoc)

lemma first_unit: "in_block (b * 2 ^ (r - MIN_ORD)) (r, b)"
  by (simp add: in_block_def)

lemma in_block_bound: "block_ok n x \<Longrightarrow> in_block u x \<Longrightarrow> u < n"
proof -
  assume *: "block_ok n x" "in_block u x"
  have "u div 2 ^ (fst x - MIN_ORD) < snd x + 1" using * by (simp add: in_block_def)
  then have "u < (snd x + 1) * 2 ^ (fst x - MIN_ORD)" by (simp add: div_less_iff_less_mult)
  then show ?thesis using * unfolding block_ok_def by linarith
qed

lemma pow_halves: "MIN_ORD \<le> r \<Longrightarrow> (2 :: nat) ^ (r + 1 - MIN_ORD) = 2 ^ (r - MIN_ORD) * 2"
  by (simp only: Suc_diff_le Suc_eq_plus1[symmetric] power_Suc2)

lemma in_halves:
  assumes "MIN_ORD \<le> r"
  shows "in_block u (r + 1, b) \<longleftrightarrow> in_block u (r, 2 * b) \<or> in_block u (r, 2 * b + 1)"
proof -
  have "u div 2 ^ (r + 1 - MIN_ORD) = u div 2 ^ (r - MIN_ORD) div 2"
    unfolding pow_halves[OF assms] by (simp add: div_mult2_eq)
  moreover have "w div 2 = b \<longleftrightarrow> w = 2 * b \<or> w = 2 * b + 1" for w :: nat by presburger
  ultimately show ?thesis unfolding in_block_def fst_conv snd_conv by simp
qed

lemma halves_apart: "\<not> (in_block u (r, 2 * b) \<and> in_block u (r, 2 * b + 1))"
  by (auto simp: in_block_def)

lemma halves_ok: "MIN_ORD \<le> r \<Longrightarrow> r < MAX_ORD \<Longrightarrow>
    block_ok n (r + 1, b) \<longleftrightarrow> block_ok n (r, 2 * b) \<and> block_ok n (r, 2 * b + 1)"
proof -
  assume r: "MIN_ORD \<le> r" "r < MAX_ORD"
  define d where "d = (2 :: nat) ^ (r - MIN_ORD)"
  have "(b + 1) * 2 ^ (r + 1 - MIN_ORD) = (2 * b + 1 + 1) * d"
    unfolding pow_halves[OF r(1)] d_def by (simp add: algebra_simps)
  then show ?thesis using r unfolding block_ok_def fst_conv snd_conv d_def[symmetric] by (auto simp: algebra_simps)
qed

section \<open>Splitting and joining\<close>

lemma cutsD:
  assumes "cuts n S"
  shows "x \<in> S \<Longrightarrow> block_ok n x" "u < n \<Longrightarrow> \<exists>x \<in> S. in_block u x"
    "x \<in> S \<Longrightarrow> y \<in> S \<Longrightarrow> in_block u x \<Longrightarrow> in_block u y \<Longrightarrow> x = y"
  using assms unfolding cuts_def by blast+

lemma cuts_split:
  assumes r: "MIN_ORD \<le> r" "r < MAX_ORD" and c: "cuts n (insert (r + 1, b) R)" and new: "(r + 1, b) \<notin> R"
  shows "cuts n (insert (r, 2 * b) (insert (r, 2 * b + 1) R)) \<and> (r, 2 * b) \<notin> R \<and> (r, 2 * b + 1) \<notin> R"
proof -
  let ?p = "(r + 1, b)" and ?l = "(r, 2 * b)" and ?h = "(r, 2 * b + 1)"
  have apart: "\<not> in_block u y" if "y \<in> R" "in_block u ?l \<or> in_block u ?h" for u y
    using cutsD(3)[OF c, of ?p y u] that in_halves[OF r(1)] new by blast
  have "?l \<notin> R" "?h \<notin> R" using apart first_unit by blast+
  moreover have "cuts n (insert ?l (insert ?h R))"
    unfolding cuts_def
  proof (intro conjI ballI allI impI)
    fix x assume "x \<in> insert ?l (insert ?h R)"
    then show "block_ok n x" using cutsD(1)[OF c] halves_ok[OF r] by blast
  next
    fix u assume "u < n"
    then show "\<exists>x \<in> insert ?l (insert ?h R). in_block u x" using cutsD(2)[OF c] in_halves[OF r(1)] by blast
  next
    fix x y u assume "x \<in> insert ?l (insert ?h R)" "y \<in> insert ?l (insert ?h R)" "in_block u x \<and> in_block u y"
    then show "x = y" using apart halves_apart[of u r b] cutsD(3)[OF c] by blast
  qed
  ultimately show ?thesis by blast
qed

lemma cuts_join:
  assumes r: "MIN_ORD \<le> r" "r < MAX_ORD" and c: "cuts n (insert (r, 2 * b) (insert (r, 2 * b + 1) R))"
    and new: "(r, 2 * b) \<notin> R" "(r, 2 * b + 1) \<notin> R"
  shows "cuts n (insert (r + 1, b) R) \<and> (r + 1, b) \<notin> R"
proof -
  let ?p = "(r + 1, b)" and ?l = "(r, 2 * b)" and ?h = "(r, 2 * b + 1)"
  have apart: "\<not> in_block u y" if "y \<in> R" "in_block u ?p" for u y
    using cutsD(3)[OF c, of ?l y u] cutsD(3)[OF c, of ?h y u] that in_halves[OF r(1)] new by blast
  have "?p \<notin> R" using apart first_unit by blast
  moreover have "cuts n (insert ?p R)"
    unfolding cuts_def
  proof (intro conjI ballI allI impI)
    fix x assume "x \<in> insert ?p R"
    then show "block_ok n x" using cutsD(1)[OF c] halves_ok[OF r] by blast
  next
    fix u assume "u < n"
    then show "\<exists>x \<in> insert ?p R. in_block u x" using cutsD(2)[OF c] in_halves[OF r(1)] by blast
  next
    fix x y u assume "x \<in> insert ?p R" "y \<in> insert ?p R" "in_block u x \<and> in_block u y"
    then show "x = y" using apart cutsD(3)[OF c] by blast
  qed
  ultimately show ?thesis by blast
qed

section \<open>Taking and giving back\<close>

lemma buddies_ok: "buddies n F H \<Longrightarrow> x \<in> F \<union> H \<Longrightarrow> block_ok n x"
  by (auto simp: buddies_def dest: cutsD(1))

lemma buddies_take:
  assumes "buddies n F H" and "x \<in> F"
  shows "buddies n (F - {x}) (insert x H) \<and> x \<notin> H"
proof -
  have "F - {x} \<union> insert x H = F \<union> H" using assms(2) by blast
  then show ?thesis using assms by (auto simp: buddies_def joined_def)
qed

lemma buddies_give:
  assumes "buddies n F (insert (r, b) H)" and "(r, b) \<notin> H" and "r = MAX_ORD \<or> (r, buddy b) \<notin> F"
  shows "buddies n (insert (r, b) F) H"
proof -
  have "insert (r, b) F \<union> H = F \<union> insert (r, b) H" by blast
  moreover have "joined (insert (r, b) F)"
    unfolding joined_def
  proof (intro allI impI)
    fix q c assume "(q, c) \<in> insert (r, b) F \<and> (q, buddy c) \<in> insert (r, b) F"
    then have "(q, c) \<in> F \<and> (q, buddy c) \<in> F \<or> q = r \<and> (r, buddy b) \<in> F"
      using buddy_neq[of b] by auto
    then show "q = MAX_ORD" using assms(1,3) by (auto simp: buddies_def joined_def)
  qed
  ultimately show ?thesis using assms(1,2) by (auto simp: buddies_def)
qed

lemma buddies_split:
  assumes "buddies n F (insert (r + 1, b) H)" and "(r + 1, b) \<notin> H" and "MIN_ORD \<le> r" "r < MAX_ORD"
  shows "buddies n F (insert (r, 2 * b) (insert (r, 2 * b + 1) H))
    \<and> (r, 2 * b) \<notin> F \<union> H \<and> (r, 2 * b + 1) \<notin> F \<union> H"
proof -
  have "(r + 1, b) \<notin> F \<union> H" "cuts n (insert (r + 1, b) (F \<union> H))"
    using assms(1,2) by (auto simp: buddies_def)
  note c = cuts_split[OF assms(3,4) this(2,1)]
  have "F \<union> insert (r, 2 * b) (insert (r, 2 * b + 1) H) = insert (r, 2 * b) (insert (r, 2 * b + 1) (F \<union> H))" by blast
  then show ?thesis using c assms(1) by (auto simp: buddies_def)
qed

lemma buddies_join:
  assumes "buddies n F (insert (r, b) H)" and "(r, b) \<notin> H" and "(r, buddy b) \<in> F" and "r < MAX_ORD"
  shows "buddies n (F - {(r, buddy b)}) (insert (r + 1, b div 2) H) \<and> (r + 1, b div 2) \<notin> H"
proof -
  let ?F = "F - {(r, buddy b)}" and ?d = "b div 2"
  have r: "MIN_ORD \<le> r" using buddies_ok[OF assms(1), of "(r, b)"] by (simp add: block_ok_def)
  have new: "(r, b) \<notin> ?F \<union> H" "(r, buddy b) \<notin> ?F \<union> H" using assms(1-3) by (auto simp: buddies_def)
  have "F \<union> insert (r, b) H = insert (r, b) (insert (r, buddy b) (?F \<union> H))" using assms(3) by blast
  moreover have "insert (r, b) (insert (r, buddy b) (?F \<union> H)) = insert (r, 2 * ?d) (insert (r, 2 * ?d + 1) (?F \<union> H))"
    "(r, 2 * ?d) \<notin> ?F \<union> H" "(r, 2 * ?d + 1) \<notin> ?F \<union> H"
    using new by (atomize(full), cases b rule: buddy_cases) (simp_all add: insert_commute)
  ultimately have "cuts n (insert (r + 1, ?d) (?F \<union> H)) \<and> (r + 1, ?d) \<notin> ?F \<union> H"
    using cuts_join[OF r assms(4)] assms(1) by (metis buddies_def)
  moreover have "?F \<union> insert (r + 1, ?d) H = insert (r + 1, ?d) (?F \<union> H)" by blast
  ultimately show ?thesis using assms(1) by (auto simp: buddies_def joined_def)
qed

section \<open>Nothing in use\<close>

text \<open>When every block has been given back, the free blocks are the largest ones again.\<close>

lemma smaller_inside:
  assumes "in_block u (r, b)" "in_block v (r, b)" "MIN_ORD \<le> r" "r < r'" "in_block u (r', c)"
  shows "in_block v (r', c)"
proof -
  have "(2 :: nat) ^ (r' - MIN_ORD) = 2 ^ (r - MIN_ORD) * 2 ^ (r' - r)"
    using assms(3,4) by (simp flip: power_add)
  then have "w div 2 ^ (r' - MIN_ORD) = w div 2 ^ (r - MIN_ORD) div 2 ^ (r' - r)" for w :: nat
    by (simp add: div_mult2_eq)
  then show ?thesis using assms by (simp add: in_block_def)
qed

lemma buddy_block_ok:
  assumes "block_ok n (r, b)" "r < MAX_ORD" "2 ^ (MAX_ORD - MIN_ORD) dvd n"
  shows "block_ok n (r, buddy b)"
proof -
  define e where "e = r - MIN_ORD"
  have "(2 :: nat) ^ (e + 1) dvd 2 ^ (MAX_ORD - MIN_ORD)" using assms(2) by (intro le_imp_power_dvd) (simp add: e_def)
  then have "2 ^ (e + 1) dvd n" using assms(3) dvd_trans by blast
  then obtain m where m: "n = m * 2 * 2 ^ e" by (auto simp: dvd_def algebra_simps)
  have "(b + 1) * 2 ^ e \<le> (m * 2) * 2 ^ e" using assms(1) by (simp add: block_ok_def m flip: e_def)
  then have "b + 1 \<le> m * 2" unfolding mult_le_cancel2 by simp
  then have "buddy b + 1 \<le> m * 2" by (cases b rule: buddy_cases) presburger+
  then have "(buddy b + 1) * 2 ^ e \<le> n" unfolding m by (rule mult_le_mono1)
  then show ?thesis using assms(1,2) by (simp add: block_ok_def flip: e_def)
qed

lemma all_free_max:
  assumes "buddies n F {}" and "2 ^ (MAX_ORD - MIN_ORD) dvd n"
  shows "x \<in> F \<Longrightarrow> fst x = MAX_ORD"
proof (induction "fst x" arbitrary: x rule: less_induct)
  case less
  obtain r b where x: "x = (r, b)" by fastforce
  have c: "cuts n F" and j: "joined F" using assms(1) by (simp_all add: buddies_def)
  have ok: "block_ok n (r, b)" using cutsD(1)[OF c] less.prems x by simp
  show ?case
  proof (rule ccontr)
    assume "fst x \<noteq> MAX_ORD"
    then have r: "MIN_ORD \<le> r" "r < MAX_ORD" using ok x by (simp_all add: block_ok_def)
    define u where "u = buddy b * 2 ^ (r - MIN_ORD)"
    have u: "in_block u (r, buddy b)" unfolding u_def by (rule first_unit)
    have "u < n" using in_block_bound[OF buddy_block_ok[OF ok r(2) assms(2)] u] .
    then obtain r' b' where y: "(r', b') \<in> F" "in_block u (r', b')" using cutsD(2)[OF c] by (metis surj_pair)
    have "\<not> r' < r" using less.hyps[of "(r', b')"] y(1) x r(2) by auto
    moreover have "r' \<noteq> r"
    proof
      assume "r' = r"
      then have "(r, buddy b) \<in> F" using y u by (simp add: in_block_def)
      then show False using j less.prems x r(2) unfolding joined_def by blast
    qed
    moreover have False if "r < r'"
    proof -
      have p: "in_block u (r + 1, b div 2)" "in_block (b * 2 ^ (r - MIN_ORD)) (r + 1, b div 2)"
        using u first_unit[of b r] in_halves[OF r(1)] by (cases b rule: buddy_cases; metis)+
      have "in_block (b * 2 ^ (r - MIN_ORD)) (r', b')"
      proof (cases "r' = r + 1")
        case True
        then show ?thesis using p y(2) by (simp add: in_block_def)
      next
        case False
        then show ?thesis using smaller_inside[OF p _ _ y(2)] r(1) that by simp
      qed
      then have "(r', b') = (r, b)" using cutsD(3)[OF c y(1)] less.prems x first_unit by blast
      then show False using that by simp
    qed
    ultimately show False by linarith
  qed
qed

theorem all_free:
  assumes "buddies n F {}" and "2 ^ (MAX_ORD - MIN_ORD) dvd n"
  shows "F = {MAX_ORD} \<times> {..<n div 2 ^ (MAX_ORD - MIN_ORD)}"
proof -
  have c: "cuts n F" using assms(1) by (simp add: buddies_def)
  have "x \<in> {MAX_ORD} \<times> {..<n div 2 ^ (MAX_ORD - MIN_ORD)}" if "x \<in> F" for x
    using all_free_max[OF assms that] cutsD(1)[OF c that] by (cases x) (auto simp: block_ok_def)
  moreover have "(MAX_ORD, b) \<in> F" if b: "b < n div 2 ^ (MAX_ORD - MIN_ORD)" for b
  proof -
    have "b * 2 ^ (MAX_ORD - MIN_ORD) < n" using b by simp
    then obtain x where "x \<in> F" "in_block (b * 2 ^ (MAX_ORD - MIN_ORD)) x" using cutsD(2)[OF c] by blast
    then show ?thesis using all_free_max[OF assms, of x] by (cases x) (auto simp: in_block_def)
  qed
  ultimately show ?thesis by auto
qed

end
