(* ===== verification/Buddy.thy ===== *)
theory Buddy imports BuddyTiles begin

text \<open>
  \<open>kernel/memory/arm/buddy.c\<close>: the memory allocator of the 32-bit ARM ports.  Free blocks of \<open>2 ^ order\<close>
  bytes are bits of bitmaps, 32 blocks to a \<open>struct mark\<close>; the marks of an order with a bit set are linked,
  by index, into a list without an order.

  The array of marks lies below the memory that is handed out, so it is a part of the state that nobody
  else writes.  Addresses are \<open>uint\<close>s; block and mark numbers, \<open>int\<close>s that stay small, are \<open>nat\<close>s.
  \<open>None\<close> is a panic; the null pointer is 0.  The lock is held throughout each call and is not modelled.
\<close>

section \<open>Blocks and marks\<close>

abbreviation (input) N_ORD :: nat where "N_ORD \<equiv> MAX_ORD - MIN_ORD + 1"

record mark =
  lnks :: u32
  bitmap :: u32

abbreviation (input) NIL :: nat where "NIL \<equiv> 0xFFFF"

definition PRE_LNK :: "u32 \<Rightarrow> nat" where
  "PRE_LNK l = unat (drop_bit 16 l)"

definition NEXT_LNK :: "u32 \<Rightarrow> nat" where
  "NEXT_LNK l = unat (l AND 0xFFFF)"

definition LNKS :: "nat \<Rightarrow> nat \<Rightarrow> u32" where
  "LNKS pre next = push_bit 16 (of_nat pre) OR (of_nat next AND 0xFFFF)"

record buddy_order =
  ohead :: u32
  offset :: u32

record bkmem =
  bstart :: u32
  bheap :: u32
  bend :: u32
  orders :: "nat \<Rightarrow> buddy_order"
  marks :: "nat \<Rightarrow> mark"

definition get_mark :: "nat \<Rightarrow> nat \<Rightarrow> bkmem \<Rightarrow> nat" where
  "get_mark order idx k = unat (offset (orders k (order - MIN_ORD))) + idx"

definition blkid2mem :: "nat \<Rightarrow> nat \<Rightarrow> bkmem \<Rightarrow> u32" where
  "blkid2mem order blkid k = bheap k + push_bit order 1 * of_nat blkid"

definition mem2blkid :: "nat \<Rightarrow> u32 \<Rightarrow> bkmem \<Rightarrow> nat" where
  "mem2blkid order mem k = unat (drop_bit order (mem - bheap k))"

definition available :: "u32 \<Rightarrow> nat \<Rightarrow> bool" where
  "available bm blk_id \<longleftrightarrow> bm AND push_bit (blk_id mod 32) 1 \<noteq> 0"

definition set_lnks :: "nat \<Rightarrow> u32 \<Rightarrow> bkmem \<Rightarrow> bkmem" where
  "set_lnks i l k = k\<lparr>marks := (marks k)(i := (marks k i)\<lparr>lnks := l\<rparr>)\<rparr>"

definition set_bitmap :: "nat \<Rightarrow> u32 \<Rightarrow> bkmem \<Rightarrow> bkmem" where
  "set_bitmap i bm k = k\<lparr>marks := (marks k)(i := (marks k i)\<lparr>bitmap := bm\<rparr>)\<rparr>"

definition set_head :: "nat \<Rightarrow> nat \<Rightarrow> bkmem \<Rightarrow> bkmem" where
  "set_head order h k =
     k\<lparr>orders := (orders k)(order - MIN_ORD := (orders k (order - MIN_ORD))\<lparr>ohead := of_nat h\<rparr>)\<rparr>"

definition head_of :: "nat \<Rightarrow> bkmem \<Rightarrow> nat" where
  "head_of order k = unat (ohead (orders k (order - MIN_ORD)))"

section \<open>The lists of marks\<close>

definition unlink_mark :: "nat \<Rightarrow> nat \<Rightarrow> bkmem \<Rightarrow> bkmem" where
  "unlink_mark order m k =
     (let mk = get_mark order m k;
          prev = PRE_LNK (lnks (marks k mk));
          next = NEXT_LNK (lnks (marks k mk));
          k = (if prev \<noteq> NIL then
                 (let p = get_mark order prev k in set_lnks p (LNKS (PRE_LNK (lnks (marks k p))) next) k)
               else if head_of order k = m then set_head order next k
               else k);
          k = (if next \<noteq> NIL then
                 (let p = get_mark order next k in set_lnks p (LNKS prev (NEXT_LNK (lnks (marks k p)))) k)
               else k)
      in set_lnks mk (LNKS NIL NIL) k)"

definition unmark_blk :: "nat \<Rightarrow> nat \<Rightarrow> bkmem \<Rightarrow> bkmem option" where
  "unmark_blk order blk_id k =
     (let mk = get_mark order (blk_id div 32) k in
      if \<not> available (bitmap (marks k mk)) blk_id then None
      else
        (let k = set_bitmap mk (bitmap (marks k mk) AND NOT (push_bit (blk_id mod 32) 1)) k in
         if bitmap (marks k mk) = 0 then Some (unlink_mark order (blk_id div 32) k) else Some k))"

definition link_mark :: "nat \<Rightarrow> nat \<Rightarrow> bkmem \<Rightarrow> bkmem" where
  "link_mark order m k =
     (let k = set_lnks (get_mark order m k) (LNKS NIL (head_of order k)) k;
          k = (if head_of order k \<noteq> NIL then
                 (let p = get_mark order (head_of order k) k
                  in set_lnks p (LNKS m (NEXT_LNK (lnks (marks k p)))) k)
               else k)
      in set_head order m k)"

definition mark_blk :: "nat \<Rightarrow> nat \<Rightarrow> bkmem \<Rightarrow> bkmem option" where
  "mark_blk order blk_id k =
     (let mk = get_mark order (blk_id div 32) k; insert_mk = (bitmap (marks k mk) = 0) in
      if available (bitmap (marks k mk)) blk_id then None
      else
        (let k = set_bitmap mk (bitmap (marks k mk) OR push_bit (blk_id mod 32) 1) k in
         Some (if insert_mk then link_mark order (blk_id div 32) k else k)))"

definition get_blk :: "nat \<Rightarrow> bkmem \<Rightarrow> (u32 \<times> bkmem) option" where
  "get_blk order k =
     (let bm = bitmap (marks k (get_mark order (head_of order k) k)) in
      if bm = 0 then None
      else (case find (\<lambda>i. bm AND push_bit i 1 \<noteq> 0) [0..<32] of
          None \<Rightarrow> Some (0, k)
        | Some i \<Rightarrow> do {
            let blk_id = head_of order k * 32 + i;
            k \<leftarrow> unmark_blk order blk_id k;
            Some (blkid2mem order blk_id k, k)
          }))"

section \<open>Allocating and freeing\<close>

text \<open>
  \<open>_kfree\<close> calls itself with the next order.  \<open>kfree\<close> starts it with an order of at most
  \<open>MAX_ORD\<close>, so it ends.
\<close>

partial_function (option) kfree_rec :: "u32 \<Rightarrow> nat \<Rightarrow> bkmem \<Rightarrow> bkmem option" where
  "kfree_rec mem order k =
     (let blk_id = mem2blkid order mem k; bm = bitmap (marks k (get_mark order (blk_id div 32) k)) in
      if available bm blk_id then None
      else
        (let buddy_id = blk_id XOR 1 in
         if \<not> available bm buddy_id \<or> order = MAX_ORD then mark_blk order blk_id k
         else do {
           k \<leftarrow> unmark_blk order buddy_id k;
           kfree_rec (blkid2mem order (blk_id - blk_id mod 2) k) (order + 1) k
         }))"

definition kfree :: "u32 \<Rightarrow> nat \<Rightarrow> bkmem \<Rightarrow> bkmem option" where
  "kfree mem order k =
     (if order > MAX_ORD \<or> order < MIN_ORD \<or> mem AND (push_bit order 1 - 1) \<noteq> 0 then None
      else kfree_rec mem order k)"

function kmalloc_rec :: "nat \<Rightarrow> bkmem \<Rightarrow> (u32 \<times> bkmem) option" where
  "kmalloc_rec order k =
     (if head_of order k \<noteq> NIL then get_blk order k
      else if order < MAX_ORD then do {
        (up, k) \<leftarrow> kmalloc_rec (order + 1) k;
        if up \<noteq> 0 then do { k \<leftarrow> kfree_rec (up + push_bit order 1) order k; Some (up, k) }
        else Some (up, k)
      }
      else Some (0, k))"
  by pat_completeness auto
termination by (relation "measure (\<lambda>(order, k). MAX_ORD - order)") auto

declare kmalloc_rec.simps [simp del]

definition kmalloc :: "nat \<Rightarrow> bkmem \<Rightarrow> (u32 \<times> bkmem) option" where
  "kmalloc order k = (if order > MAX_ORD \<or> order < MIN_ORD then None else kmalloc_rec order k)"

abbreviation (input) PTE_SHIFT :: nat where "PTE_SHIFT \<equiv> 12"

definition free_page :: "u32 \<Rightarrow> bkmem \<Rightarrow> bkmem option" where
  "free_page v k = kfree v PTE_SHIFT k"

definition alloc_page :: "bkmem \<Rightarrow> (u32 \<times> bkmem) option" where
  "alloc_page k = kmalloc PTE_SHIFT k"

section \<open>Initialisation\<close>

definition align_up :: "u32 \<Rightarrow> u32 \<Rightarrow> u32" where
  "align_up sz al = (sz + al - 1) AND NOT (al - 1)"

text \<open>One order: its marks follow those of the orders above it; \<open>n\<close> is their number.\<close>

definition init_order :: "nat \<Rightarrow> u32 \<Rightarrow> u32 \<Rightarrow> bkmem \<Rightarrow> bkmem" where
  "init_order i n tot k =
     (let k = k\<lparr>orders := (orders k)(i := \<lparr>ohead = of_nat NIL, offset = tot\<rparr>)\<rparr>
      in fold (\<lambda>j k. k\<lparr>marks := (marks k)(get_mark (i + MIN_ORD) j k := \<lparr>lnks = LNKS NIL NIL, bitmap = 0\<rparr>)\<rparr>)
           [0..<unat n] k)"

definition init_orders :: "u32 \<Rightarrow> bkmem \<Rightarrow> u32 \<times> u32 \<times> bkmem" where
  "init_orders n k =
     fold (\<lambda>i (n, tot, k). (2 * n, tot + n, init_order i n tot k)) (rev [0..<N_ORD]) (n, 0, k)"

partial_function (option) add_blocks :: "u32 \<Rightarrow> bkmem \<Rightarrow> bkmem option" where
  "add_blocks i k =
     (if i < bend k then do { k \<leftarrow> kfree i MAX_ORD k; add_blocks (i + push_bit MAX_ORD 1) k } else Some k)"

definition kmem_init2 :: "u32 \<Rightarrow> u32 \<Rightarrow> bkmem \<Rightarrow> bkmem option" where
  "kmem_init2 vstart vend k =
     (let k = k\<lparr>bstart := vstart, bend := vend\<rparr>;
          len = bend k - bstart k;
          n = drop_bit (MAX_ORD + 5) len + 1;
          (n, tot, k) = init_orders n k;
          k = k\<lparr>bheap := align_up (bstart k + tot * 8) (push_bit MAX_ORD 1)\<rparr>
      in add_blocks (bheap k) k)"

text \<open>The order of the smallest block that holds \<open>v\<close> bytes.\<close>

definition round_pow2 :: "u32 \<Rightarrow> u32" where
  "round_pow2 v =
     (let v = v - 1;
          v = v OR drop_bit 1 v;
          v = v OR drop_bit 2 v;
          v = v OR drop_bit 4 v;
          v = v OR drop_bit 8 v;
          v = v OR drop_bit 16 v
      in v + 1)"

definition get_order :: "u32 \<Rightarrow> nat option" where
  "get_order v =
     (let ord = (case find (\<lambda>i. round_pow2 v AND push_bit i 1 \<noteq> 0) [0..<32] of None \<Rightarrow> 32 | Some i \<Rightarrow> i) in
      if ord < MIN_ORD then Some MIN_ORD
      else if ord > MAX_ORD then None
      else Some ord)"

section \<open>Bits and links\<close>

lemma and_push_one: "(x :: u32) AND push_bit i 1 \<noteq> 0 \<longleftrightarrow> i < 32 \<and> bit x i"
  by (auto simp: and_exp_eq_0_iff_not_bit dest: bit_imp_le_length)

lemma available_bit [simp]: "available bm b \<longleftrightarrow> bit bm (b mod 32)"
  by (simp add: available_def and_exp_eq_0_iff_not_bit)

lemma LNKS_parts:
  assumes "p \<le> NIL" "n \<le> NIL"
  shows "PRE_LNK (LNKS p n) = p" "NEXT_LNK (LNKS p n) = n"
proof -
  have small: "drop_bit 16 (of_nat x :: u32) = 0" "of_nat x AND 0xFFFF = (of_nat x :: u32)"
    "drop_bit 16 (push_bit 16 (of_nat x :: u32)) = of_nat x" if "x \<le> NIL" for x
  proof -
    have u: "unat (of_nat x :: u32) = x" using that by (intro unat_of_nat_u32) simp
    have m: "(0xFFFF :: u32) = mask 16" by (simp add: mask_eq_exp_minus_1)
    show "drop_bit 16 (of_nat x :: u32) = 0"
    proof (rule word_unat_eq_iff[THEN iffD2])
      have "unat (drop_bit 16 (of_nat x :: u32)) = x div 2 ^ 16"
        by (subst unat_drop_bit_eq) (simp only: u drop_bit_eq_div)
      then show "unat (drop_bit 16 (of_nat x :: u32)) = unat (0 :: u32)" using that
        by (simp only: unat_0) simp
    qed
    show t: "of_nat x AND 0xFFFF = (of_nat x :: u32)" unfolding m take_bit_eq_mask[symmetric]
    proof (rule word_unat_eq_iff[THEN iffD2])
      have "unat (take_bit 16 (of_nat x :: u32)) = x mod 2 ^ 16"
        by (subst unsigned_take_bit_eq) (simp only: u take_bit_eq_mod)
      then show "unat (take_bit 16 (of_nat x :: u32)) = unat (of_nat x :: u32)" using that
        by (simp only: u) simp
    qed
    have "drop_bit 16 (push_bit 16 (of_nat x :: u32)) = take_bit 16 (of_nat x)"
      by (rule bit_word_eqI) (auto simp: bit_simps)
    then show "drop_bit 16 (push_bit 16 (of_nat x :: u32)) = of_nat x" using t
      by (simp add: take_bit_eq_mask mask_eq_exp_minus_1)
  qed
  have "drop_bit 16 (LNKS p n) = of_nat p" using small[OF assms(1)] small[OF assms(2)]
    by (simp add: LNKS_def drop_bit_or)
  moreover have "LNKS p n AND 0xFFFF = of_nat n"
  proof -
    have "push_bit 16 (of_nat p :: u32) AND mask 16 = 0"
      by (rule bit_word_eqI) (auto simp only: bit_and_iff bit_push_bit_iff bit_mask_iff bit_0_eq bot_apply bot_bool_def)
    then have "push_bit 16 (of_nat p :: u32) AND 0xFFFF = 0" by (simp add: mask_eq_exp_minus_1)
    then show ?thesis using small(2)[OF assms(2)] by (simp add: LNKS_def and.commute bit.conj_disj_distrib2)
  qed
  ultimately show "PRE_LNK (LNKS p n) = p" "NEXT_LNK (LNKS p n) = n"
    using assms by (simp_all add: PRE_LNK_def NEXT_LNK_def unat_of_nat_u32)
qed

text \<open>What an order's marks hold: the links and the bitmaps, by index.\<close>

definition lk :: "bkmem \<Rightarrow> nat \<Rightarrow> nat \<Rightarrow> u32" where
  "lk k r i = lnks (marks k (get_mark r i k))"

definition bm :: "bkmem \<Rightarrow> nat \<Rightarrow> nat \<Rightarrow> u32" where
  "bm k r i = bitmap (marks k (get_mark r i k))"

lemma get_mark_keep [simp]:
  "get_mark r i (set_lnks j l k) = get_mark r i k" "get_mark r i (set_bitmap j w k) = get_mark r i k"
  "get_mark r i (set_head q h k) = get_mark r i k"
  by (simp_all add: get_mark_def set_lnks_def set_bitmap_def set_head_def)

lemma get_mark_eq [simp]: "get_mark r i k = get_mark r j k \<longleftrightarrow> i = j"
  by (simp add: get_mark_def)

lemma lk_upd [simp]:
  "lk (set_lnks (get_mark r i k) l k) r = (lk k r)(i := l)" "lk (set_bitmap j w k) r = lk k r"
  "lk (set_head q h k) r = lk k r"
  by (auto simp: lk_def fun_eq_iff) (auto simp: set_lnks_def set_bitmap_def set_head_def)

lemma bm_upd [simp]:
  "bm (set_bitmap (get_mark r i k) w k) r = (bm k r)(i := w)" "bm (set_lnks j l k) r = bm k r"
  "bm (set_head q h k) r = bm k r"
  by (auto simp: bm_def fun_eq_iff) (auto simp: set_lnks_def set_bitmap_def set_head_def)

lemma head_upd [simp]:
  "head_of r (set_lnks j l k) = head_of r k" "head_of r (set_bitmap j w k) = head_of r k"
  "h \<le> NIL \<Longrightarrow> head_of r (set_head r h k) = h"
  by (simp_all add: head_of_def set_lnks_def set_bitmap_def set_head_def unat_of_nat_u32)

lemma lnks_bitmap_at [simp]: "lnks (marks k (get_mark r i k)) = lk k r i" "bitmap (marks k (get_mark r i k)) = bm k r i"
  by (simp_all add: lk_def bm_def)

section \<open>The lists\<close>

definition first :: "nat list \<Rightarrow> nat \<Rightarrow> nat" where
  "first xs n = (case xs of [] \<Rightarrow> n | x # _ \<Rightarrow> x)"

definition final :: "nat \<Rightarrow> nat list \<Rightarrow> nat" where
  "final p xs = (if xs = [] then p else last xs)"

text \<open>\<open>dll f p xs n\<close>: the links \<open>f\<close> chain the marks \<open>xs\<close>, after \<open>p\<close> and before \<open>n\<close>.\<close>

fun dll :: "(nat \<Rightarrow> u32) \<Rightarrow> nat \<Rightarrow> nat list \<Rightarrow> nat \<Rightarrow> bool" where
  "dll f p [] n \<longleftrightarrow> True"
| "dll f p (x # xs) n \<longleftrightarrow> f x = LNKS p (first xs n) \<and> dll f x xs n"

lemma first_simps [simp]: "first [] n = n" "first (x # xs) n = x" "first (xs @ ys) n = first xs (first ys n)"
  by (simp_all add: first_def split: list.split)

lemma final_simps [simp]: "final p [] = p" "final p (x # xs) = final x xs" "final p (xs @ ys) = final (final p xs) ys"
  by (simp_all add: final_def)

lemma dll_append: "dll f p (xs @ ys) n \<longleftrightarrow> dll f p xs (first ys n) \<and> dll f (final p xs) ys n"
  by (induction xs arbitrary: p) auto

lemma dll_cong: "(\<And>x. x \<in> set xs \<Longrightarrow> g x = f x) \<Longrightarrow> dll g p xs n = dll f p xs n"
  by (induction xs arbitrary: p) auto

lemma dll_other: "x \<notin> set xs \<Longrightarrow> dll (f(x := v)) p xs n = dll f p xs n"
  by (rule dll_cong) auto

text \<open>A new neighbour at either end.\<close>

lemma dll_new_prev:
  assumes "dll f p (x # xs) n" and "distinct (x # xs)" and "\<forall>y \<in> set (x # xs). y \<le> NIL" and "p \<le> NIL" "n \<le> NIL"
  shows "dll (f(x := LNKS q (NEXT_LNK (f x)))) q (x # xs) n"
proof -
  have "first xs n \<le> NIL" using assms(3,5) by (cases xs) auto
  then show ?thesis using assms by (simp add: LNKS_parts dll_other)
qed

lemma dll_new_next:
  assumes "dll f p xs n" and "xs \<noteq> []" and "distinct xs" and "\<forall>y \<in> set xs. y \<le> NIL" and "p \<le> NIL" "n \<le> NIL"
  shows "dll (f(last xs := LNKS (PRE_LNK (f (last xs))) q)) p xs q"
proof -
  obtain ys z where xs: "xs = ys @ [z]" using assms(2) by (meson rev_exhaust)
  have "final p ys \<le> NIL" using assms(4,5) by (simp add: final_def xs)
  then show ?thesis using assms by (simp add: xs dll_append LNKS_parts dll_other)
qed

lemma first_le: "\<forall>y \<in> set xs. y \<le> NIL \<Longrightarrow> n \<le> NIL \<Longrightarrow> first xs n \<le> NIL"
  by (cases xs) auto

lemma ends_in: "final p xs = p \<or> final p xs \<in> set xs" "first xs n = n \<or> first xs n \<in> set xs"
  by (auto simp: final_def first_def split: list.split)

text \<open>The list of an order.\<close>

definition marks_list :: "bkmem \<Rightarrow> nat \<Rightarrow> nat list \<Rightarrow> bool" where
  "marks_list k r xs \<longleftrightarrow> head_of r k = first xs NIL \<and> dll (lk k r) NIL xs NIL \<and> distinct xs \<and> (\<forall>x \<in> set xs. x < NIL)"

lemma unlink_mark_list:
  assumes "marks_list k r (as @ m # bs)"
  shows "marks_list (unlink_mark r m k) r (as @ bs)"
proof -
  let ?f = "lk k r" and ?p = "final NIL as" and ?n = "first bs NIL"
  have l: "head_of r k = first (as @ m # bs) NIL" "dll ?f NIL as m" "?f m = LNKS ?p ?n" "dll ?f m bs NIL"
    "distinct (as @ m # bs)" and small: "\<forall>x \<in> set (as @ m # bs). x < NIL"
    using assms by (auto simp: marks_list_def dll_append)
  have p: "?p \<le> NIL" using small by (cases as rule: rev_cases) auto
  have n: "?n \<le> NIL" using small by (cases bs) auto
  note pn = p n
  have "PRE_LNK (?f m) = ?p" "NEXT_LNK (?f m) = ?n" using LNKS_parts[OF pn] l(3) by simp_all
  define k1 where "k1 = (if ?p \<noteq> NIL then set_lnks (get_mark r ?p k) (LNKS (PRE_LNK (?f ?p)) ?n) k
    else if head_of r k = m then set_head r ?n k else k)"
  define k2 where "k2 = (if ?n \<noteq> NIL then set_lnks (get_mark r ?n k1) (LNKS ?p (NEXT_LNK (lk k1 r ?n))) k1 else k1)"
  have gk: "get_mark r i k1 = get_mark r i k" "get_mark r i k2 = get_mark r i k" for i
    by (simp_all add: k1_def k2_def)
  have u: "unlink_mark r m k = set_lnks (get_mark r m k2) (LNKS NIL NIL) k2"
    using \<open>PRE_LNK (?f m) = ?p\<close> \<open>NEXT_LNK (?f m) = ?n\<close>
    by (simp add: unlink_mark_def Let_def k1_def k2_def gk)
  have k1: "head_of r k1 = first (as @ bs) NIL \<and> dll (lk k1 r) NIL as ?n \<and> dll (lk k1 r) m bs NIL"
  proof (cases as rule: rev_cases)
    case Nil
    then show ?thesis using l pn by (simp add: k1_def)
  next
    case (snoc ys z)
    then have z: "?p = z" "z \<noteq> NIL" using small by auto
    have "dll (?f(z := LNKS (PRE_LNK (?f z)) ?n)) NIL as ?n"
      using dll_new_next[OF l(2), of ?n] l(5) small pn snoc by (auto simp: less_imp_le)
    moreover have "dll (?f(z := LNKS (PRE_LNK (?f z)) ?n)) m bs NIL" using l(4,5) snoc by (simp add: dll_other)
    moreover have "first as m = first as ?n" using snoc by (cases ys) auto
    ultimately show ?thesis using z l(1) by (simp add: k1_def)
  qed
  have k2: "head_of r k2 = first (as @ bs) NIL \<and> dll (lk k2 r) NIL as ?n \<and> dll (lk k2 r) ?p bs NIL"
  proof (cases bs)
    case Nil
    then show ?thesis using k1 by (simp add: k2_def)
  next
    case (Cons y ys)
    then have y: "?n = y" "y \<noteq> NIL" using small by auto
    have "dll ((lk k1 r)(y := LNKS ?p (NEXT_LNK (lk k1 r y)))) ?p bs NIL"
      using dll_new_prev[of "lk k1 r" m y ys NIL ?p] k1 l(5) small Cons by (auto simp: less_imp_le)
    moreover have "dll ((lk k1 r)(y := LNKS ?p (NEXT_LNK (lk k1 r y)))) NIL as ?n"
      using k1 l(5) Cons by (subst dll_other) auto
    ultimately show ?thesis using y k1 by (simp add: k2_def)
  qed
  have "m \<notin> set as" "m \<notin> set bs" using l(5) by auto
  then show ?thesis using k2 l(5) small unfolding u marks_list_def by (auto simp: dll_append dll_other)
qed

lemma link_mark_list:
  assumes "marks_list k r xs" and "m \<notin> set xs" and "m < NIL"
  shows "marks_list (link_mark r m k) r (m # xs)"
proof -
  define k1 where "k1 = set_lnks (get_mark r m k) (LNKS NIL (head_of r k)) k"
  have h: "head_of r k = first xs NIL" and d: "dll (lk k1 r) NIL xs NIL" "lk k1 r m = LNKS NIL (first xs NIL)"
    and dist: "distinct xs" and small: "\<forall>x \<in> set xs. x < NIL"
    using assms by (simp_all add: marks_list_def k1_def dll_other)
  define k2 where "k2 = (if head_of r k1 \<noteq> NIL
    then set_lnks (get_mark r (head_of r k1) k1) (LNKS m (NEXT_LNK (lk k1 r (head_of r k1)))) k1 else k1)"
  have u: "link_mark r m k = set_head r m k2" by (simp only: link_mark_def Let_def k2_def lnks_bitmap_at flip: k1_def)
  have "dll (lk k2 r) m xs NIL \<and> lk k2 r m = LNKS NIL (first xs NIL)"
  proof (cases xs)
    case Nil
    then show ?thesis using d by (simp add: k2_def k1_def h)
  next
    case (Cons y ys)
    have "head_of r k1 = y" "y \<noteq> NIL" "y \<noteq> m" using h small assms(2) by (auto simp: k1_def Cons)
    moreover have "dll ((lk k1 r)(y := LNKS m (NEXT_LNK (lk k1 r y)))) m xs NIL"
      using dll_new_prev[of "lk k1 r" NIL y ys NIL m] d dist small Cons by (auto simp: less_imp_le)
    ultimately show ?thesis using d by (simp add: k2_def)
  qed
  then show ?thesis using assms(2,3) dist small unfolding u marks_list_def by simp
qed

section \<open>One order at a time\<close>

text \<open>\<open>k'\<close> differs from \<open>k\<close> only in the head and the first \<open>N\<close> marks of order \<open>r\<close>.\<close>

definition only_order :: "nat \<Rightarrow> nat \<Rightarrow> bkmem \<Rightarrow> bkmem \<Rightarrow> bool" where
  "only_order r N k k' \<longleftrightarrow> bheap k' = bheap k \<and> bend k' = bend k
     \<and> (\<forall>q. offset (orders k' q) = offset (orders k q))
     \<and> (\<forall>q. q \<noteq> r - MIN_ORD \<longrightarrow> ohead (orders k' q) = ohead (orders k q))
     \<and> (\<forall>j. (\<forall>i < N. j \<noteq> get_mark r i k) \<longrightarrow> marks k' j = marks k j)"

lemma only_order_get_mark: "only_order r N k k' \<Longrightarrow> get_mark q i k' = get_mark q i k"
  by (simp add: only_order_def get_mark_def)

lemma only_order_refl: "only_order r N k k"
  by (simp add: only_order_def)

lemma only_order_trans: "only_order r N k k1 \<Longrightarrow> only_order r N k1 k2 \<Longrightarrow> only_order r N k k2"
  using only_order_get_mark[of r N k k1] by (simp add: only_order_def)

lemma only_order_set:
  "i < N \<Longrightarrow> only_order r N k (set_lnks (get_mark r i k) l k)"
  "i < N \<Longrightarrow> only_order r N k (set_bitmap (get_mark r i k) w k)"
  "only_order r N k (set_head r h k)"
  by (auto simp: only_order_def set_lnks_def set_bitmap_def set_head_def)

lemma only_order_lnks: "only_order r N k k' \<Longrightarrow> i < N \<Longrightarrow> only_order r N k (set_lnks (get_mark r i k) l k')"
  using only_order_trans[OF _ only_order_set(1)[of i N r k' l]] only_order_get_mark by metis

lemma unlink_only:
  assumes "m < N" and "PRE_LNK (lk k r m) = NIL \<or> PRE_LNK (lk k r m) < N" and "NEXT_LNK (lk k r m) = NIL \<or> NEXT_LNK (lk k r m) < N"
  shows "only_order r N k (unlink_mark r m k)"
  using assms by (auto simp: unlink_mark_def Let_def intro!: only_order_lnks only_order_set only_order_refl)

lemma link_only:
  assumes "m < N" and "head_of r k = NIL \<or> head_of r k < N"
  shows "only_order r N k (link_mark r m k)"
  using assms by (auto simp: link_mark_def Let_def intro!: only_order_trans[OF _ only_order_set(3)] only_order_lnks only_order_refl)

definition order_ok :: "nat \<Rightarrow> bkmem \<Rightarrow> nat \<Rightarrow> bool" where
  "order_ok N k r \<longleftrightarrow> (\<exists>xs. marks_list k r xs \<and> (\<forall>x. x \<in> set xs \<longleftrightarrow> x < N \<and> bm k r x \<noteq> 0))"

lemma marks_list_bitmap: "marks_list (set_bitmap j w k) r xs = marks_list k r xs"
  by (simp add: marks_list_def)

lemma unmark_blk_ok:
  assumes ok: "order_ok N k r" and N: "N \<le> NIL" and b: "b < 32 * N" and a: "bit (bm k r (b div 32)) (b mod 32)"
  obtains k' where "unmark_blk r b k = Some k'" "order_ok N k' r" "only_order r N k k'"
    "bm k' r = (bm k r)(b div 32 := bm k r (b div 32) AND NOT (push_bit (b mod 32) 1))"
proof -
  let ?m = "b div 32"
  let ?w = "bm k r ?m AND NOT (push_bit (b mod 32) 1)"
  let ?k = "set_bitmap (get_mark r ?m k) ?w k"
  obtain xs where xs: "marks_list k r xs" "\<And>x. x \<in> set xs \<longleftrightarrow> x < N \<and> bm k r x \<noteq> 0"
    using ok by (auto simp: order_ok_def)
  have m: "?m < N" using b by auto
  have w: "bm k r ?m \<noteq> 0" using a by auto
  have k: "only_order r N k ?k" using only_order_set(2)[OF m] .
  have bmk: "bm ?k r = (bm k r)(?m := ?w)" by simp
  show ?thesis
  proof (cases "?w = 0")
    case False
    have "unmark_blk r b k = Some ?k" using a False by (simp add: unmark_blk_def Let_def set_bitmap_def)
    moreover have "order_ok N ?k r" unfolding order_ok_def
      using xs w False by (intro exI[of _ xs]) (auto simp: marks_list_bitmap)
    ultimately show ?thesis using that k bmk by blast
  next
    case True
    let ?u = "unlink_mark r ?m ?k"
    have "?m \<in> set xs" using xs(2) m w by simp
    then obtain as bs where s: "xs = as @ ?m # bs" by (meson split_list)
    have l: "marks_list ?k r (as @ ?m # bs)" using xs(1) s by (simp add: marks_list_bitmap)
    have d: "distinct (as @ ?m # bs)" using l by (simp add: marks_list_def)
    have p: "PRE_LNK (lk ?k r ?m) = final NIL as" "NEXT_LNK (lk ?k r ?m) = first bs NIL"
    proof -
      have "lk ?k r ?m = LNKS (final NIL as) (first bs NIL)" "\<forall>x \<in> set (as @ bs). x \<le> NIL"
        using l by (auto simp: marks_list_def dll_append intro: less_imp_le)
      moreover from this(2) have "final NIL as \<le> NIL" "first bs NIL \<le> NIL"
        using ends_in(1)[of NIL as] ends_in(2)[of bs NIL] by auto
      ultimately show "PRE_LNK (lk ?k r ?m) = final NIL as" "NEXT_LNK (lk ?k r ?m) = first bs NIL"
        by (simp_all add: LNKS_parts)
    qed
    have lt: "\<forall>x \<in> set (as @ bs). x < N" using xs(2) s by auto
    then have "final NIL as = NIL \<or> final NIL as < N" "first bs NIL = NIL \<or> first bs NIL < N"
      using ends_in(1)[of NIL as] ends_in(2)[of bs NIL] by auto
    then have o: "only_order r N ?k ?u" using unlink_only[OF m] p by simp
    have bmu: "bm ?u r = bm ?k r" by (simp add: unlink_mark_def Let_def)
    have "unmark_blk r b k = Some ?u" using a True by (simp add: unmark_blk_def Let_def set_bitmap_def)
    moreover have "order_ok N ?u r" unfolding order_ok_def bmu bmk
      using unlink_mark_list[OF l] xs(2) s d True by (intro exI[of _ "as @ bs"]) auto
    ultimately show ?thesis using that only_order_trans[OF k o] bmu bmk by metis
  qed
qed

lemma mark_blk_ok:
  assumes ok: "order_ok N k r" and N: "N \<le> NIL" and b: "b < 32 * N" and a: "\<not> bit (bm k r (b div 32)) (b mod 32)"
  obtains k' where "mark_blk r b k = Some k'" "order_ok N k' r" "only_order r N k k'"
    "bm k' r = (bm k r)(b div 32 := bm k r (b div 32) OR push_bit (b mod 32) 1)"
proof -
  let ?m = "b div 32"
  let ?w = "bm k r ?m OR push_bit (b mod 32) 1"
  let ?k = "set_bitmap (get_mark r ?m k) ?w k"
  obtain xs where xs: "marks_list k r xs" "\<And>x. x \<in> set xs \<longleftrightarrow> x < N \<and> bm k r x \<noteq> 0"
    using ok by (auto simp: order_ok_def)
  have m: "?m < N" using b by auto
  have "bit ?w (b mod 32)" by (simp add: bit_or_iff bit_exp_iff)
  then have w: "?w \<noteq> 0" by (metis bit_0_eq bot_apply bot_bool_def)
  have k: "only_order r N k ?k" using only_order_set(2)[OF m] .
  have bmk: "bm ?k r = (bm k r)(?m := ?w)" by simp
  show ?thesis
  proof (cases "bm k r ?m = 0")
    case False
    have "mark_blk r b k = Some ?k" using a False by (simp add: mark_blk_def Let_def)
    moreover have "order_ok N ?k r" unfolding order_ok_def
      using xs w False m by (intro exI[of _ xs]) (auto simp: marks_list_bitmap)
    ultimately show ?thesis using that k bmk by blast
  next
    case True
    let ?u = "link_mark r ?m ?k"
    have l: "marks_list ?k r xs" using xs(1) by (simp add: marks_list_bitmap)
    have new: "?m \<notin> set xs" using xs(2) True by simp
    have "head_of r ?k = NIL \<or> head_of r ?k < N" using l xs(2) by (cases xs) (auto simp: marks_list_def)
    then have o: "only_order r N ?k ?u" by (rule link_only[OF m])
    have bmu: "bm ?u r = bm ?k r" by (simp add: link_mark_def Let_def)
    have "mark_blk r b k = Some ?u" using a True by (simp add: mark_blk_def Let_def)
    moreover have "order_ok N ?u r" unfolding order_ok_def bmu bmk
      using link_mark_list[OF l new] m N xs(2) w True by (intro exI[of _ "?m # xs"]) auto
    ultimately show ?thesis using that only_order_trans[OF k o] bmu bmk by metis
  qed
qed

section \<open>All orders\<close>

text \<open>
  \<open>c\<close> is the number of marks of the largest order, \<open>n\<close> the number of units of the heap, from \<open>bheap\<close>.
\<close>

definition nmarks :: "nat \<Rightarrow> nat \<Rightarrow> nat" where
  "nmarks c r = c * 2 ^ (MAX_ORD - r)"

definition apart :: "nat \<Rightarrow> bkmem \<Rightarrow> bool" where
  "apart c k \<longleftrightarrow> (\<forall>r \<in> {MIN_ORD..MAX_ORD}. \<forall>q \<in> {MIN_ORD..MAX_ORD}. \<forall>i < nmarks c r. \<forall>j < nmarks c q.
     get_mark r i k = get_mark q j k \<longrightarrow> r = q)"

definition buddy_inv :: "nat \<Rightarrow> nat \<Rightarrow> bkmem \<Rightarrow> bool" where
  "buddy_inv c n k \<longleftrightarrow> apart c k \<and> (\<forall>r \<in> {MIN_ORD..MAX_ORD}. order_ok (nmarks c r) k r)
     \<and> nmarks c MIN_ORD \<le> NIL \<and> n \<le> 32 * nmarks c MIN_ORD
     \<and> 4096 dvd unat (bheap k) \<and> bheap k \<noteq> 0 \<and> 64 dvd n \<and> unat (bheap k) + 64 * n < 2 ^ 32"

definition free_blocks :: "nat \<Rightarrow> bkmem \<Rightarrow> block set" where
  "free_blocks c k = {(r, b). r \<in> {MIN_ORD..MAX_ORD} \<and> b < 32 * nmarks c r \<and> bit (bm k r (b div 32)) (b mod 32)}"

lemma buddy_invD:
  assumes "buddy_inv c n k" and "r \<in> {MIN_ORD..MAX_ORD}"
  shows "order_ok (nmarks c r) k r" "nmarks c r \<le> NIL"
proof -
  have "(2 :: nat) ^ (MAX_ORD - r) \<le> 2 ^ (MAX_ORD - MIN_ORD)" using assms(2) by (intro power_increasing) auto
  then have "nmarks c r \<le> nmarks c MIN_ORD" unfolding nmarks_def by (rule mult_le_mono2)
  then show "nmarks c r \<le> NIL" using assms(1) unfolding buddy_inv_def by linarith
  show "order_ok (nmarks c r) k r" using assms unfolding buddy_inv_def by blast
qed

lemma only_order_other:
  assumes o: "only_order r (nmarks c r) k k'" and "apart c k" and "r \<in> {MIN_ORD..MAX_ORD}" "q \<in> {MIN_ORD..MAX_ORD}" "q \<noteq> r"
    and "i < nmarks c q"
  shows "lk k' q i = lk k q i" "bm k' q i = bm k q i" "head_of q k' = head_of q k"
proof -
  have "get_mark q i k \<noteq> get_mark r j k" if "j < nmarks c r" for j
    using assms that unfolding apart_def by blast
  then have "marks k' (get_mark q i k) = marks k (get_mark q i k)" using o by (auto simp: only_order_def)
  then show "lk k' q i = lk k q i" "bm k' q i = bm k q i"
    unfolding lk_def bm_def only_order_get_mark[OF o] by simp_all
  have "q - MIN_ORD \<noteq> r - MIN_ORD" using assms(3-5) by auto
  then show "head_of q k' = head_of q k" using o by (simp add: head_of_def only_order_def)
qed

lemma only_order_inv:
  assumes o: "only_order r (nmarks c r) k k'" and ok: "order_ok (nmarks c r) k' r" and r: "r \<in> {MIN_ORD..MAX_ORD}"
    and inv: "buddy_inv c n k"
  shows "buddy_inv c n k'"
proof -
  have ap: "apart c k" using inv by (simp add: buddy_inv_def)
  have "order_ok (nmarks c q) k' q" if q: "q \<in> {MIN_ORD..MAX_ORD}" for q
  proof (cases "q = r")
    case False
    note same = only_order_other[OF o ap r q False]
    obtain xs where xs: "marks_list k q xs" "\<forall>x. x \<in> set xs \<longleftrightarrow> x < nmarks c q \<and> bm k q x \<noteq> 0"
      using buddy_invD(1)[OF inv q] by (auto simp: order_ok_def)
    have h: "head_of q k' = head_of q k"
      using False q r o by (auto simp: head_of_def only_order_def)
    have "dll (lk k' q) NIL xs NIL = dll (lk k q) NIL xs NIL" using same(1) xs(2) by (intro dll_cong) blast
    then have "marks_list k' q xs" using xs(1) h by (simp add: marks_list_def)
    moreover have "\<forall>x. x \<in> set xs \<longleftrightarrow> x < nmarks c q \<and> bm k' q x \<noteq> 0" using xs(2) same(2) by auto
    ultimately show ?thesis unfolding order_ok_def by blast
  qed (simp add: ok)
  moreover have "apart c k'" using ap by (simp add: apart_def only_order_get_mark[OF o])
  ultimately show ?thesis using inv o by (simp add: buddy_inv_def only_order_def)
qed

lemma free_blocks_upd:
  assumes o: "only_order r (nmarks c r) k k'" and ap: "apart c k" and r: "r \<in> {MIN_ORD..MAX_ORD}" and b: "b < 32 * nmarks c r"
    and w: "bm k' r = (bm k r)(b div 32 := w)"
    and bits: "\<And>i. i < 32 \<Longrightarrow> bit w i \<longleftrightarrow> (if i = b mod 32 then v else bit (bm k r (b div 32)) i)"
  shows "free_blocks c k' = (if v then insert (r, b) (free_blocks c k) else free_blocks c k - {(r, b)})"
proof -
  have "(q, a) \<in> free_blocks c k' \<longleftrightarrow> (if (q, a) = (r, b) then v else (q, a) \<in> free_blocks c k)" for q a
  proof (cases "q = r")
    case True
    have "a div 32 = b div 32 \<Longrightarrow> a mod 32 = b mod 32 \<Longrightarrow> a = b" by (metis div_mult_mod_eq)
    then show ?thesis using True r b w bits[of "a mod 32"] by (auto simp: free_blocks_def)
  next
    case False
    then show ?thesis using only_order_other(2)[OF o ap r _ False, of "a div 32"]
      by (auto simp: free_blocks_def)
  qed
  then show ?thesis by (cases v) (auto split: if_splits)
qed

lemma unmark_free:
  assumes inv: "buddy_inv c n k" and x: "(r, b) \<in> free_blocks c k"
  obtains k' where "unmark_blk r b k = Some k'" "buddy_inv c n k'" "free_blocks c k' = free_blocks c k - {(r, b)}"
    "bheap k' = bheap k"
proof -
  have r: "r \<in> {MIN_ORD..MAX_ORD}" and b: "b < 32 * nmarks c r" "bit (bm k r (b div 32)) (b mod 32)"
    using x by (auto simp: free_blocks_def)
  obtain k' where k': "unmark_blk r b k = Some k'" "order_ok (nmarks c r) k' r" "only_order r (nmarks c r) k k'"
    and w: "bm k' r = (bm k r)(b div 32 := bm k r (b div 32) AND NOT (push_bit (b mod 32) 1))"
    using unmark_blk_ok[OF buddy_invD[OF inv r] b] .
  have "free_blocks c k' = free_blocks c k - {(r, b)}"
    using free_blocks_upd[OF k'(3) _ r b(1) w, of False] inv
    by (simp add: buddy_inv_def bit_and_iff bit_not_iff bit_exp_iff)
  then show ?thesis using that k' only_order_inv[OF k'(3,2) r inv] by (auto simp: only_order_def)
qed

lemma mark_free:
  assumes inv: "buddy_inv c n k" and x: "(r, b) \<notin> free_blocks c k" and r: "r \<in> {MIN_ORD..MAX_ORD}" and b: "b < 32 * nmarks c r"
  obtains k' where "mark_blk r b k = Some k'" "buddy_inv c n k'" "free_blocks c k' = insert (r, b) (free_blocks c k)"
    "bheap k' = bheap k" "bend k' = bend k"
proof -
  have a: "\<not> bit (bm k r (b div 32)) (b mod 32)" using x r b by (auto simp: free_blocks_def)
  obtain k' where k': "mark_blk r b k = Some k'" "order_ok (nmarks c r) k' r" "only_order r (nmarks c r) k k'"
    and w: "bm k' r = (bm k r)(b div 32 := bm k r (b div 32) OR push_bit (b mod 32) 1)"
    using mark_blk_ok[OF buddy_invD[OF inv r] b a] .
  have "free_blocks c k' = insert (r, b) (free_blocks c k)"
    using free_blocks_upd[OF k'(3) _ r b w, of True] inv
    by (simp add: buddy_inv_def bit_or_iff bit_exp_iff disj_commute)
  then show ?thesis using that k' only_order_inv[OF k'(3,2) r inv] by (auto simp: only_order_def)
qed

section \<open>Addresses\<close>

lemma block_ok_marks:
  assumes "buddy_inv c n k" and "block_ok n (r, b)"
  shows "r \<in> {MIN_ORD..MAX_ORD}" "b < 32 * nmarks c r"
proof -
  show r: "r \<in> {MIN_ORD..MAX_ORD}" using assms(2) by (simp add: block_ok_def)
  have "(2 :: nat) ^ (MAX_ORD - r) * 2 ^ (r - MIN_ORD) = 2 ^ (MAX_ORD - MIN_ORD)"
    using r by (simp flip: power_add)
  then have "32 * nmarks c r * 2 ^ (r - MIN_ORD) = 32 * nmarks c MIN_ORD" by (simp only: nmarks_def mult.assoc)
  then have "n \<le> (32 * nmarks c r) * 2 ^ (r - MIN_ORD)" using assms(1) unfolding buddy_inv_def by linarith
  moreover have "(b + 1) * 2 ^ (r - MIN_ORD) \<le> n" using assms(2) by (simp add: block_ok_def)
  ultimately have "(b + 1) * 2 ^ (r - MIN_ORD) \<le> (32 * nmarks c r) * 2 ^ (r - MIN_ORD)" by simp
  then show "b < 32 * nmarks c r" unfolding mult_le_cancel2 by simp
qed

lemma block_addr:
  assumes inv: "buddy_inv c n k" and ok: "block_ok n (r, b)"
  shows "unat (blkid2mem r b k) = unat (bheap k) + 2 ^ r * b" "2 ^ r * (b + 1) \<le> 64 * n"
    "mem2blkid r (blkid2mem r b k) k = b" "blkid2mem r b k \<noteq> 0"
proof -
  have r: "MIN_ORD \<le> r" "r \<le> MAX_ORD" using ok by (simp_all add: block_ok_def)
  have "(2 :: nat) ^ r = 64 * 2 ^ (r - MIN_ORD)" using r(1) power_add[of "2 :: nat" MIN_ORD "r - MIN_ORD"] by simp
  then have le: "2 ^ r * (b + 1) \<le> 64 * n" using ok by (simp add: block_ok_def algebra_simps)
  then show "2 ^ r * (b + 1) \<le> 64 * n" .
  have lt: "unat (bheap k) + 2 ^ r * b < 2 ^ 32" using le inv by (simp add: buddy_inv_def)
  have eq: "blkid2mem r b k = bheap k + of_nat (2 ^ r * b)" by (simp add: blkid2mem_def)
  have small: "unat (of_nat (2 ^ r * b) :: u32) = 2 ^ r * b" using lt by (intro unat_of_nat_u32) simp
  show u: "unat (blkid2mem r b k) = unat (bheap k) + 2 ^ r * b"
    unfolding eq using lt small by (simp add: unat_word_ariths del: of_nat_mult of_nat_power)
  have "bheap k \<noteq> 0" using inv by (simp add: buddy_inv_def)
  then show "blkid2mem r b k \<noteq> 0" using u by (metis add_is_0 unat_eq_zero)
  have "mem2blkid r (blkid2mem r b k) k = 2 ^ r * b div 2 ^ r"
    unfolding mem2blkid_def eq add_diff_cancel_left' by (subst unat_drop_bit_eq) (simp only: small drop_bit_eq_div)
  then show "mem2blkid r (blkid2mem r b k) k = b" by simp
qed

section \<open>Freeing and allocating\<close>

lemma buddy_same_mark: "buddy b div 32 = b div 32"
proof -
  have "buddy b div 2 = b div 2" by (cases b rule: buddy_cases) simp_all
  then have "buddy b div 2 div 16 = b div 2 div 16" by simp
  then show ?thesis by (simp add: div_mult2_eq[symmetric])
qed

lemma blkid2mem_bheap: "bheap k' = bheap k \<Longrightarrow> blkid2mem r b k' = blkid2mem r b k"
  by (simp add: blkid2mem_def)

lemma free_bit:
  assumes "r \<in> {MIN_ORD..MAX_ORD}" "b < 32 * nmarks c r"
  shows "bit (bm k r (b div 32)) (b mod 32) \<longleftrightarrow> (r, b) \<in> free_blocks c k"
  using assms by (simp add: free_blocks_def)

lemma kfree_rec_ok:
  assumes "buddy_inv c n k" and "buddies n (free_blocks c k) (insert (r, b) H)" and "(r, b) \<notin> H"
  shows "\<exists>k'. kfree_rec (blkid2mem r b k) r k = Some k' \<and> buddy_inv c n k' \<and> buddies n (free_blocks c k') H
    \<and> bheap k' = bheap k"
  using assms
proof (induction "MAX_ORD - r" arbitrary: r b H k)
  have given: "\<exists>k'. kfree_rec (blkid2mem r b k) r k = Some k' \<and> buddy_inv c n k' \<and> buddies n (free_blocks c k') H
      \<and> bheap k' = bheap k"
    if inv: "buddy_inv c n k" and B: "buddies n (free_blocks c k) (insert (r, b) H)" "(r, b) \<notin> H"
      and stop: "(r, buddy b) \<notin> free_blocks c k \<or> r = MAX_ORD" for r b H k
  proof -
    have ok: "block_ok n (r, b)" using buddies_ok[OF B(1)] by simp
    note m = block_ok_marks[OF inv ok]
    have "buddy b div 32 < nmarks c r" using m(2) unfolding buddy_same_mark by auto
    then have m2: "buddy b < 32 * nmarks c r" by (simp add: div_less_iff_less_mult mult.commute)
    have new: "(r, b) \<notin> free_blocks c k" using B by (auto simp: buddies_def)
    obtain k' where k': "mark_blk r b k = Some k'" "buddy_inv c n k'" "free_blocks c k' = insert (r, b) (free_blocks c k)"
      "bheap k' = bheap k" using mark_free[OF inv new m] by blast
    have "buddies n (free_blocks c k') H" unfolding k'(3) using buddies_give[OF B] stop by blast
    then show ?thesis
      using k' new stop free_bit[OF m, of k] free_bit[OF m(1) m2, of k] buddy_same_mark[of b]
      by (subst kfree_rec.simps) (auto simp: block_addr(3)[OF inv ok] buddy_def)
  qed
  {
    case 0
    have "r \<le> MAX_ORD" using buddies_ok[OF "0.prems"(2), of "(r, b)"] by (simp add: block_ok_def)
    then show ?case using given[OF "0.prems"] 0 by simp
  next
    case (Suc j)
    show ?case
    proof (cases "(r, buddy b) \<in> free_blocks c k")
      case False
      then show ?thesis using given[OF Suc.prems] by blast
    next
      case True
      have ok: "block_ok n (r, b)" using buddies_ok[OF Suc.prems(2)] by simp
      note m = block_ok_marks[OF Suc.prems(1) ok]
      have r: "r < MAX_ORD" using Suc.hyps(2) by simp
      have new: "(r, b) \<notin> free_blocks c k" using Suc.prems(2,3) by (auto simp: buddies_def)
      obtain k1 where k1: "unmark_blk r (buddy b) k = Some k1" "buddy_inv c n k1"
        "free_blocks c k1 = free_blocks c k - {(r, buddy b)}" "bheap k1 = bheap k"
        using unmark_free[OF Suc.prems(1) True] .
      have J: "buddies n (free_blocks c k1) (insert (r + 1, b div 2) H)" "(r + 1, b div 2) \<notin> H"
        using buddies_join[OF Suc.prems(2,3) True r] k1(3) by simp_all
      have "j = MAX_ORD - (r + 1)" using Suc.hyps(2) by simp
      then obtain k' where k': "kfree_rec (blkid2mem (r + 1) (b div 2) k1) (r + 1) k1 = Some k'" "buddy_inv c n k'"
        "buddies n (free_blocks c k') H" "bheap k' = bheap k1"
        using Suc.hyps(1)[OF _ k1(2) J] by blast
      have up: "blkid2mem r (b - b mod 2) k1 = blkid2mem (r + 1) (b div 2) k1"
      proof -
        have "b - b mod 2 = 2 * (b div 2)" by presburger
        then show ?thesis by (simp add: blkid2mem_def)
      qed
      have "bit (bm k r (buddy b div 32)) (buddy b mod 32)" using True by (auto simp: free_blocks_def)
      then have "kfree_rec (blkid2mem r b k) r k = Some k'"
        using k1(1) k'(1) new r free_bit[OF m, of k] buddy_same_mark[of b] up
        by (subst kfree_rec.simps) (simp add: block_addr(3)[OF Suc.prems(1) ok] buddy_def)
      then show ?thesis using k' k1(4) by simp
    qed
  }
qed

lemma get_blk_ok:
  assumes inv: "buddy_inv c n k" and r: "r \<in> {MIN_ORD..MAX_ORD}" and h: "head_of r k \<noteq> NIL"
  obtains b k' where "get_blk r k = Some (blkid2mem r b k, k')" "(r, b) \<in> free_blocks c k" "buddy_inv c n k'"
    "free_blocks c k' = free_blocks c k - {(r, b)}" "bheap k' = bheap k"
proof -
  let ?h = "head_of r k" and ?P = "\<lambda>i. bit (bm k r (head_of r k)) i"
  obtain xs where xs: "marks_list k r xs" "\<forall>x. x \<in> set xs \<longleftrightarrow> x < nmarks c r \<and> bm k r x \<noteq> 0"
    using buddy_invD(1)[OF inv r] by (auto simp: order_ok_def)
  then have hx: "?h < nmarks c r" "bm k r ?h \<noteq> 0" using h by (cases xs; auto simp: marks_list_def)+
  have "\<exists>j < 32. ?P j"
  proof (rule ccontr)
    assume "\<not> (\<exists>j < 32. ?P j)"
    then have "bm k r ?h = 0" by (intro bit_word_eqI) simp
    then show False using hx(2) by blast
  qed
  then obtain i where i: "find ?P [0..<32] = Some i" by (cases "find ?P [0..<32]") (auto simp: find_None_iff)
  then have ib: "i < 32" "?P i" by (auto simp: find_Some_iff)
  let ?b = "?h * 32 + i"
  have "(r, ?b) \<in> free_blocks c k" using r hx(1) ib by (auto simp: free_blocks_def)
  moreover from this obtain k' where "unmark_blk r ?b k = Some k'" "buddy_inv c n k'" "free_blocks c k' = free_blocks c k - {(r, ?b)}"
    "bheap k' = bheap k" using unmark_free[OF inv] by blast
  moreover have "find (\<lambda>i. bm k r ?h AND push_bit i 1 \<noteq> 0) [0..<32] = Some i"
    using i by (simp add: and_exp_eq_0_iff_not_bit)
  ultimately have "get_blk r k = Some (blkid2mem r ?b k', k')"
    using hx(2) unfolding get_blk_def Let_def lnks_bitmap_at by simp
  then show ?thesis
    using that[of ?b k'] blkid2mem_bheap[OF \<open>bheap k' = bheap k\<close>] \<open>(r, ?b) \<in> free_blocks c k\<close> \<open>buddy_inv c n k'\<close>
      \<open>free_blocks c k' = free_blocks c k - {(r, ?b)}\<close> \<open>bheap k' = bheap k\<close> by metis
qed

lemma no_list_no_free:
  assumes inv: "buddy_inv c n k" and r: "r \<in> {MIN_ORD..MAX_ORD}" and h: "head_of r k = NIL"
  shows "(r, b) \<notin> free_blocks c k"
proof
  assume "(r, b) \<in> free_blocks c k"
  then have b: "b < 32 * nmarks c r" "bm k r (b div 32) \<noteq> 0" by (auto simp: free_blocks_def)
  obtain xs where xs: "marks_list k r xs" "\<forall>x. x \<in> set xs \<longleftrightarrow> x < nmarks c r \<and> bm k r x \<noteq> 0"
    using buddy_invD(1)[OF inv r] by (auto simp: order_ok_def)
  have "b div 32 \<in> set xs" using b xs(2) by auto
  then show False using xs(1) h by (cases xs) (auto simp: marks_list_def)
qed

lemma kmalloc_rec_ok:
  assumes "buddy_inv c n k" and "buddies n (free_blocks c k) H" and "r \<in> {MIN_ORD..MAX_ORD}"
  shows "(\<exists>k'. kmalloc_rec r k = Some (0, k') \<and> k' = k \<and> (\<forall>x \<in> free_blocks c k. fst x < r))
    \<or> (\<exists>b k'. kmalloc_rec r k = Some (blkid2mem r b k, k') \<and> buddy_inv c n k' \<and> (r, b) \<notin> H
         \<and> buddies n (free_blocks c k') (insert (r, b) H) \<and> bheap k' = bheap k)"
  using assms
proof (induction "MAX_ORD - r" arbitrary: r)
  have found: "\<exists>b k'. kmalloc_rec r k = Some (blkid2mem r b k, k') \<and> buddy_inv c n k' \<and> (r, b) \<notin> H
         \<and> buddies n (free_blocks c k') (insert (r, b) H) \<and> bheap k' = bheap k"
    if r: "r \<in> {MIN_ORD..MAX_ORD}" and h: "head_of r k \<noteq> NIL" for r
  proof -
    obtain b k' where "get_blk r k = Some (blkid2mem r b k, k')" "(r, b) \<in> free_blocks c k" "buddy_inv c n k'"
      "free_blocks c k' = free_blocks c k - {(r, b)}" "bheap k' = bheap k" using get_blk_ok[OF assms(1) r h] .
    then show ?thesis using buddies_take[OF assms(2)] h by (auto simp: kmalloc_rec.simps)
  qed
  {
    case 0
    show ?case
    proof (cases "head_of r k = NIL")
      case True
      then have "fst x < r" if "x \<in> free_blocks c k" for x
      proof -
        have "fst x \<noteq> r" using no_list_no_free[OF assms(1) "0.prems"(3) True, of "snd x"] that by force
        moreover have "fst x \<le> MAX_ORD" using that by (auto simp: free_blocks_def)
        ultimately show ?thesis using 0 by simp
      qed
      moreover have "r = MAX_ORD" using 0 by simp
      then have "kmalloc_rec r k = Some (0, k)" using True by (subst kmalloc_rec.simps) simp
      ultimately show ?thesis by blast
    qed (use found 0 in blast)
  next
    case (Suc j)
    show ?case
    proof (cases "head_of r k = NIL")
      case True
      have r: "r + 1 \<in> {MIN_ORD..MAX_ORD}" "MIN_ORD \<le> r" "r < MAX_ORD" using Suc.hyps(2) Suc.prems(3) by auto
      have unf: "kmalloc_rec r k = do {
          (up, k) \<leftarrow> kmalloc_rec (r + 1) k;
          if up \<noteq> 0 then do { k \<leftarrow> kfree_rec (up + push_bit r 1) r k; Some (up, k) } else Some (up, k) }"
        using True r by (subst kmalloc_rec.simps) simp
      have "j = MAX_ORD - (r + 1)" using Suc.hyps(2) by simp
      from Suc.hyps(1)[OF this assms(1,2) r(1)] show ?thesis
      proof (elim disjE exE conjE)
        fix k' assume *: "kmalloc_rec (r + 1) k = Some (0, k')" "k' = k" "\<forall>x \<in> free_blocks c k. fst x < r + 1"
        have "fst x < r" if "x \<in> free_blocks c k" for x
        proof -
          have "fst x \<noteq> r" using no_list_no_free[OF assms(1) Suc.prems(3) True, of "snd x"] that by force
          moreover have "fst x < r + 1" using *(3) that by blast
          ultimately show ?thesis by simp
        qed
        then show ?thesis using * unf by simp
      next
        fix b k1 assume *: "kmalloc_rec (r + 1) k = Some (blkid2mem (r + 1) b k, k1)" "buddy_inv c n k1" "(r + 1, b) \<notin> H"
          "buddies n (free_blocks c k1) (insert (r + 1, b) H)" "bheap k1 = bheap k"
        note S = buddies_split[OF *(4,3) r(2,3)]
        have ok: "block_ok n (r + 1, b)" using buddies_ok[OF *(4)] by simp
        have nz: "blkid2mem (r + 1) b k \<noteq> 0"
          using block_addr(4)[OF *(2) ok] *(5) by (simp add: blkid2mem_bheap[of k1 k])
        have a: "blkid2mem (r + 1) b k = blkid2mem r (2 * b) k"
          "blkid2mem (r + 1) b k + push_bit r 1 = blkid2mem r (2 * b + 1) k1"
          using *(5) by (simp_all add: blkid2mem_def algebra_simps)
        have "buddies n (free_blocks c k1) (insert (r, 2 * b + 1) (insert (r, 2 * b) H))"
          "(r, 2 * b + 1) \<notin> insert (r, 2 * b) H" using S by (auto simp: insert_commute)
        then obtain k' where "kfree_rec (blkid2mem r (2 * b + 1) k1) r k1 = Some k'" "buddy_inv c n k'"
          "buddies n (free_blocks c k') (insert (r, 2 * b) H)" "bheap k' = bheap k1"
          using kfree_rec_ok[OF *(2)] by blast
        then show ?thesis using unf *(1,5) nz a S by (intro disjI2 exI[of _ "2 * b"] exI[of _ k']) simp
      qed
    qed (use found Suc in blast)
  }
qed

section \<open>The calls\<close>

lemma block_aligned:
  assumes inv: "buddy_inv c n k" and ok: "block_ok n (r, b)"
  shows "blkid2mem r b k AND (push_bit r 1 - 1) = 0"
proof -
  have r: "r \<le> 12" using ok by (simp add: block_ok_def)
  have "(2 :: nat) ^ r dvd 4096" using le_imp_power_dvd[OF r, of "2 :: nat"] by simp
  then have "2 ^ r dvd unat (blkid2mem r b k)"
    using inv unfolding block_addr(1)[OF inv ok] by (auto simp: buddy_inv_def intro: dvd_trans)
  then have "unat (take_bit r (blkid2mem r b k)) = 0"
    by (subst unsigned_take_bit_eq) (simp add: take_bit_eq_mod)
  then have "take_bit r (blkid2mem r b k) = 0" by (simp only: unat_eq_0)
  then show ?thesis by (simp add: take_bit_eq_mask mask_eq_exp_minus_1)
qed

lemma kfree_ok:
  assumes inv: "buddy_inv c n k" and B: "buddies n (free_blocks c k) (insert (r, b) H)" "(r, b) \<notin> H"
  shows "\<exists>k'. kfree (blkid2mem r b k) r k = Some k' \<and> buddy_inv c n k' \<and> buddies n (free_blocks c k') H
    \<and> bheap k' = bheap k"
proof -
  have ok: "block_ok n (r, b)" using buddies_ok[OF B(1)] by simp
  then have "MIN_ORD \<le> r" "r \<le> MAX_ORD" by (simp_all add: block_ok_def)
  then show ?thesis using kfree_rec_ok[OF inv B] block_aligned[OF inv ok] by (simp add: kfree_def)
qed

end
