(* ===== verification/BuddyRun.thy ===== *)
theory BuddyRun imports Buddy begin

text \<open>
  The buddy allocator in use: what \<open>kmem_init2\<close> sets up, and what every sequence of \<open>kmalloc\<close> and
  \<open>kfree\<close> by callers that free only what they hold keeps.
\<close>

section \<open>Setting up\<close>

lemma init_marks:
  "fold (\<lambda>j k. k\<lparr>marks := (marks k)(get_mark r j k := v)\<rparr>) [0..<N] k =
     k\<lparr>marks := (\<lambda>a. if \<exists>j < N. a = get_mark r j k then v else marks k a)\<rparr>"
proof (induction N)
  case (Suc N)
  have g: "get_mark r j (k\<lparr>marks := f\<rparr>) = get_mark r j k" for j f by (simp add: get_mark_def)
  show ?case
    unfolding upt_Suc_append[OF le0] fold_append comp_apply Suc.IH
    by (simp add: g, rule bkmem.equality) (auto simp: less_Suc_eq fun_eq_iff)
qed simp

lemma align_up_page:
  assumes "unat sz + 4095 < 2 ^ 32"
  shows "unat (align_up sz (push_bit MAX_ORD 1)) = (unat sz + 4095) div 4096 * 4096"
proof -
  have "unat (sz + 4095) = unat sz + 4095" using assms by (simp add: unat_word_ariths)
  moreover have "align_up sz (push_bit MAX_ORD 1) = (sz + 4095) AND NOT (mask 12)"
    by (simp add: align_up_def mask_eq_exp_minus_1 algebra_simps)
  ultimately show ?thesis using unat_and_not_mask[of "sz + 4095" 12] by simp
qed

abbreviation (input) empty_mark :: mark where "empty_mark \<equiv> \<lparr>lnks = LNKS NIL NIL, bitmap = 0\<rparr>"

lemma init_order_eq:
  "init_order i n tot k = k\<lparr>orders := (orders k)(i := \<lparr>ohead = of_nat NIL, offset = tot\<rparr>),
     marks := (\<lambda>a. if unat tot \<le> a \<and> a < unat tot + unat n then empty_mark else marks k a)\<rparr>"
proof -
  have "(\<exists>j < N. a = b + j) \<longleftrightarrow> b \<le> a \<and> a < b + N" for a b N :: nat by presburger
  then show ?thesis unfolding init_order_def Let_def init_marks
    by (auto simp: get_mark_def fun_eq_iff intro!: bkmem.equality)
qed

lemma init_orders_prefix:
  assumes "m \<le> N_ORD" and "127 * unat n < 2 ^ 32"
  shows "\<exists>k'. fold (\<lambda>i (n, tot, k). (2 * n, tot + n, init_order i n tot k)) (map (\<lambda>j. 6 - j) [0..<m]) (n, 0, k)
      = (of_nat (2 ^ m * unat n), of_nat ((2 ^ m - 1) * unat n), k')
    \<and> bstart k' = bstart k \<and> bend k' = bend k
    \<and> (\<forall>i < N_ORD. N_ORD - m \<le> i \<longrightarrow> orders k' i = \<lparr>ohead = of_nat NIL, offset = of_nat ((2 ^ (6 - i) - 1) * unat n)\<rparr>)
    \<and> (\<forall>a < (2 ^ m - 1) * unat n. marks k' a = empty_mark)"
  using assms(1)
proof (induction m)
  case (Suc m)
  let ?f = "\<lambda>i (n, tot, k). (2 * n, tot + n, init_order i n tot k)"
  obtain k' where k': "fold ?f (map (\<lambda>j. 6 - j) [0..<m]) (n, 0, k)
      = (of_nat (2 ^ m * unat n), of_nat ((2 ^ m - 1) * unat n), k')" "bstart k' = bstart k" "bend k' = bend k"
    "\<And>i. i < N_ORD \<Longrightarrow> N_ORD - m \<le> i \<Longrightarrow> orders k' i = \<lparr>ohead = of_nat NIL, offset = of_nat ((2 ^ (6 - i) - 1) * unat n)\<rparr>"
    "\<And>a. a < (2 ^ m - 1) * unat n \<Longrightarrow> marks k' a = empty_mark" using Suc by auto
  have m: "m \<le> 6" using Suc.prems by simp
  then have "(2 :: nat) ^ m \<le> 2 ^ 6" by (intro power_increasing) auto
  then have le: "2 ^ m * unat n \<le> 64 * unat n" by (intro mult_le_mono1) simp
  have u: "unat (of_nat (2 ^ m * unat n) :: u32) = 2 ^ m * unat n" using le assms(2) by (intro unat_of_nat_u32) linarith
  have "(2 ^ m - 1) * unat n \<le> 2 ^ m * unat n" by (intro mult_le_mono1) simp
  then have u2: "unat (of_nat ((2 ^ m - 1) * unat n) :: u32) = (2 ^ m - 1) * unat n"
    using le assms(2) by (intro unat_of_nat_u32) linarith
  have sum: "(2 ^ m - 1) * unat n + 2 ^ m * unat n = (2 ^ Suc m - 1) * unat n"
    by (simp add: distrib_right[symmetric] mult_2)
  define k2 where "k2 = init_order (6 - m) (of_nat (2 ^ m * unat n)) (of_nat ((2 ^ m - 1) * unat n)) k'"
  have "fold ?f (map (\<lambda>j. 6 - j) [0..<Suc m]) (n, 0, k)
      = (2 * of_nat (2 ^ m * unat n), of_nat ((2 ^ m - 1) * unat n) + of_nat (2 ^ m * unat n), k2)"
    using k'(1) by (simp add: k2_def del: of_nat_mult)
  moreover have "2 * of_nat (2 ^ m * unat n) = (of_nat (2 ^ Suc m * unat n) :: u32)" by simp
  moreover have "of_nat ((2 ^ m - 1) * unat n) + of_nat (2 ^ m * unat n) = (of_nat ((2 ^ Suc m - 1) * unat n) :: u32)"
    unfolding of_nat_add[symmetric] sum ..
  moreover have "marks k2 a = empty_mark" if "a < (2 ^ Suc m - 1) * unat n" for a
    unfolding k2_def init_order_eq using k'(5)[of a] that u u2 sum by (auto simp del: of_nat_mult power_Suc)
  moreover have "orders k2 i = \<lparr>ohead = of_nat NIL, offset = of_nat ((2 ^ (6 - i) - 1) * unat n)\<rparr>"
    if "i < N_ORD" "N_ORD - Suc m \<le> i" for i
  proof (cases "i = 6 - m")
    case True
    then have "6 - i = m" using m by simp
    then show ?thesis using True by (simp add: k2_def init_order_eq)
  next
    case False
    then have "N_ORD - m \<le> i" using that m by auto
    then show ?thesis using k'(4)[OF that(1)] False by (simp add: k2_def init_order_eq)
  qed
  moreover have "bstart k2 = bstart k" "bend k2 = bend k" using k'(2,3) by (simp_all add: k2_def init_order_eq)
  ultimately show ?case by (intro exI[of _ k2]) (simp del: of_nat_mult upt_Suc power_Suc)
qed (auto)

lemma init_orders_ok:
  assumes "127 * unat n < 2 ^ 32"
  obtains k' where "init_orders n k = (of_nat (128 * unat n), of_nat (127 * unat n), k')"
    "bstart k' = bstart k" "bend k' = bend k"
    "\<And>r. r \<in> {MIN_ORD..MAX_ORD} \<Longrightarrow> head_of r k' = NIL"
    "\<And>r i. r \<in> {MIN_ORD..MAX_ORD} \<Longrightarrow> get_mark r i k' = (2 ^ (MAX_ORD - r) - 1) * unat n + i"
    "\<And>a. a < 127 * unat n \<Longrightarrow> marks k' a = empty_mark"
proof -
  have l: "rev [0..<N_ORD] = map (\<lambda>j. 6 - j) [0..<7]" by (simp add: upt_conv_Cons)
  obtain k' where k': "init_orders n k = (of_nat (128 * unat n), of_nat (127 * unat n), k')"
    "bstart k' = bstart k" "bend k' = bend k"
    "\<forall>i < 7. orders k' i = \<lparr>ohead = of_nat NIL, offset = of_nat ((2 ^ (6 - i) - 1) * unat n)\<rparr>"
    "\<forall>a < 127 * unat n. marks k' a = empty_mark"
    using init_orders_prefix[of 7 n k, OF _ assms] unfolding init_orders_def l by auto
  have "head_of r k' = NIL" "get_mark r i k' = (2 ^ (MAX_ORD - r) - 1) * unat n + i" if r: "r \<in> {MIN_ORD..MAX_ORD}" for r i
  proof -
    have o: "orders k' (r - MIN_ORD) = \<lparr>ohead = of_nat NIL, offset = of_nat ((2 ^ (MAX_ORD - r) - 1) * unat n)\<rparr>"
    proof -
      have "r - MIN_ORD < 7" "6 - (r - MIN_ORD) = MAX_ORD - r" using r by auto
      then show ?thesis using k'(4) by metis
    qed
    then show "head_of r k' = NIL" by (simp add: head_of_def)
    have "(2 :: nat) ^ (MAX_ORD - r) \<le> 2 ^ 6" using r by (intro power_increasing) auto
    then have "(2 ^ (MAX_ORD - r) - 1) * unat n \<le> 63 * unat n" by (intro mult_le_mono1) simp
    then have "unat (of_nat ((2 ^ (MAX_ORD - r) - 1) * unat n) :: u32) = (2 ^ (MAX_ORD - r) - 1) * unat n"
      using assms by (intro unat_of_nat_u32) linarith
    then show "get_mark r i k' = (2 ^ (MAX_ORD - r) - 1) * unat n + i" by (simp add: get_mark_def o del: of_nat_mult)
  qed
  then show ?thesis using that k' by blast
qed

lemma init_inv:
  assumes o: "init_orders n k = (of_nat (128 * unat n), of_nat (127 * unat n), k1)"
    and h: "\<And>r. r \<in> {MIN_ORD..MAX_ORD} \<Longrightarrow> head_of r k1 = NIL"
    and g: "\<And>r i. r \<in> {MIN_ORD..MAX_ORD} \<Longrightarrow> get_mark r i k1 = (2 ^ (MAX_ORD - r) - 1) * unat n + i"
    and e: "\<And>a. a < 127 * unat n \<Longrightarrow> marks k1 a = empty_mark"
    and small: "64 * unat n \<le> NIL" and fits: "M \<le> 32 * unat n" "4096 dvd unat hp" "hp \<noteq> 0" "unat hp + 4096 * M < 2 ^ 32"
  shows "buddy_inv (unat n) (64 * M) (k1\<lparr>bheap := hp\<rparr>) \<and> free_blocks (unat n) (k1\<lparr>bheap := hp\<rparr>) = {}"
proof -
  let ?k = "k1\<lparr>bheap := hp\<rparr>" and ?c = "unat n"
  have gk: "get_mark r i ?k = (2 ^ (MAX_ORD - r) - 1) * ?c + i" if "r \<in> {MIN_ORD..MAX_ORD}" for r i
    using g[OF that] by (simp add: get_mark_def)
  have up: "(2 ^ (MAX_ORD - r) - 1) * ?c + ?c * 2 ^ (MAX_ORD - r) \<le> (2 ^ (MAX_ORD - q) - 1) * ?c" if "q < r" "r \<le> MAX_ORD" for r q
  proof -
    have "(2 :: nat) ^ (MAX_ORD - r) * 2 \<le> 2 ^ (MAX_ORD - q)"
      using that power_increasing[of "Suc (MAX_ORD - r)" "MAX_ORD - q" "2 :: nat"] by (simp add: mult.commute)
    then have "(2 ^ (MAX_ORD - r) - 1 + 2 ^ (MAX_ORD - r)) * ?c \<le> (2 ^ (MAX_ORD - q) - 1) * ?c"
      by (intro mult_le_mono1) linarith
    then show ?thesis unfolding distrib_right by (simp only: mult.commute)
  qed
  have range: "get_mark r i ?k < 127 * ?c" if r: "r \<in> {MIN_ORD..MAX_ORD}" and i: "i < nmarks ?c r" for r i
  proof -
    have "(2 :: nat) ^ (MAX_ORD - r) \<le> 2 ^ 6" using r by (intro power_increasing) auto
    then have "(2 ^ (MAX_ORD - r) - 1 + 2 ^ (MAX_ORD - r)) * ?c \<le> 127 * ?c" by (intro mult_le_mono1) simp
    moreover have "i < 2 ^ (MAX_ORD - r) * ?c" using i by (simp only: nmarks_def mult.commute)
    ultimately show ?thesis unfolding distrib_right gk[OF r] by linarith
  qed
  have z: "bm ?k r i = 0" if "r \<in> {MIN_ORD..MAX_ORD}" "i < nmarks ?c r" for r i
    using e[OF range[OF that]] unfolding bm_def by simp
  have "apart ?c ?k"
  proof (unfold apart_def, intro ballI allI impI)
    fix r q i j assume *: "r \<in> {MIN_ORD..MAX_ORD}" "q \<in> {MIN_ORD..MAX_ORD}" "i < nmarks ?c r" "j < nmarks ?c q"
      "get_mark r i ?k = get_mark q j ?k"
    show "r = q"
    proof (rule ccontr)
      assume "r \<noteq> q"
      then consider "q < r" | "r < q" by linarith
      then show False
        using *(3-5) up[of q r] up[of r q] *(1,2) unfolding gk[OF *(1)] gk[OF *(2)] nmarks_def
        by cases auto
    qed
  qed
  moreover have "order_ok (nmarks ?c r) ?k r" if "r \<in> {MIN_ORD..MAX_ORD}" for r
  proof -
    have "marks_list ?k r []" using h[OF that] by (simp add: marks_list_def head_of_def)
    then show ?thesis unfolding order_ok_def using z[OF that] by (intro exI[of _ "[]"]) auto
  qed
  ultimately have "buddy_inv ?c (64 * M) ?k" using small fits by (simp add: buddy_inv_def nmarks_def)
  moreover have "free_blocks ?c ?k = {}"
  proof -
    have "\<not> bit (bm ?k r (b div 32)) (b mod 32)" if "r \<in> {MIN_ORD..MAX_ORD}" "b < 32 * nmarks ?c r" for r b
      using z[OF that(1), of "b div 32"] that(2) by (simp add: less_mult_imp_div_less mult.commute)
    then show ?thesis by (auto simp: free_blocks_def)
  qed
  ultimately show ?thesis by blast
qed

text \<open>Adding the blocks of the largest order one by one.\<close>

lemma add_blocks_ok:
  assumes "buddy_inv c (64 * M) k" and "free_blocks c k = {MAX_ORD} \<times> {..<m}" and "m \<le> M"
    and "unat (bend k) = unat (bheap k) + 4096 * M"
  shows "\<exists>k'. add_blocks (blkid2mem MAX_ORD m k) k = Some k' \<and> buddy_inv c (64 * M) k'
    \<and> free_blocks c k' = {MAX_ORD} \<times> {..<M} \<and> bheap k' = bheap k \<and> bend k' = bend k"
  using assms
proof (induction "M - m" arbitrary: m k)
  case 0
  have lt: "unat (bheap k) + 4096 * M < 2 ^ 32" using "0.prems"(1) by (simp add: buddy_inv_def)
  have "unat (of_nat (4096 * M) :: u32) = 4096 * M" using lt by (intro unat_of_nat_u32) simp
  then have "unat (blkid2mem MAX_ORD M k) = unat (bend k)"
    using 0 lt by (simp add: blkid2mem_def unat_word_ariths)
  moreover have "m = M" using 0 by simp
  ultimately show ?case using "0.prems" by (subst add_blocks.simps) (simp add: word_less_nat_alt)
next
  case (Suc j)
  have m: "m < M" using Suc.hyps(2) by simp
  have ok: "block_ok (64 * M) (MAX_ORD, m)" using m by (simp add: block_ok_def)
  note inv = Suc.prems(1)
  note r = block_ok_marks[OF inv ok]
  note a = block_addr[OF inv ok]
  have new: "(MAX_ORD, m) \<notin> free_blocks c k" using Suc.prems(2) by simp
  obtain k1 where k1: "mark_blk MAX_ORD m k = Some k1" "buddy_inv c (64 * M) k1"
    "free_blocks c k1 = insert (MAX_ORD, m) (free_blocks c k)" "bheap k1 = bheap k" "bend k1 = bend k"
    using mark_free[OF inv new r] .
  have "kfree_rec (blkid2mem MAX_ORD m k) MAX_ORD k = Some k1"
    using k1(1) new free_bit[OF r, of k] by (subst kfree_rec.simps) (simp add: a(3))
  then have step: "kfree (blkid2mem MAX_ORD m k) MAX_ORD k = Some k1"
    using block_aligned[OF inv ok] by (simp add: kfree_def)
  have lt: "blkid2mem MAX_ORD m k < bend k" using a(1) Suc.prems(4) m by (simp add: word_less_nat_alt)
  have nx: "blkid2mem MAX_ORD m k + push_bit MAX_ORD 1 = blkid2mem MAX_ORD (Suc m) k1"
    using k1(4) by (simp add: blkid2mem_def algebra_simps)
  have F: "free_blocks c k1 = {MAX_ORD} \<times> {..<Suc m}" 
    unfolding k1(3) Suc.prems(2) lessThan_Suc by blast
  have "j = M - Suc m" "Suc m \<le> M" "unat (bend k1) = unat (bheap k1) + 4096 * M"
    using Suc.hyps(2) m Suc.prems(4) k1(4,5) by simp_all
  from Suc.hyps(1)[OF this(1) k1(2) F this(2,3)] show ?case
    using lt step nx k1(4,5) by (subst add_blocks.simps) simp
qed

text \<open>
  The memory the allocator is given: up to 127 MB, so that the index of a mark fits its 16 bits and is
  not \<open>NIL\<close>, at least 2 MB, to hold the marks, and ending on a page below the end of the address space.
\<close>

definition memory_ok :: "u32 \<Rightarrow> u32 \<Rightarrow> bool" where
  "memory_ok vstart vend \<longleftrightarrow> unat vstart + 2 ^ 21 \<le> unat vend \<and> unat vend < unat vstart + 1023 * 2 ^ 17
     \<and> 4096 dvd unat vend \<and> unat vend + 2 ^ 21 \<le> 2 ^ 32"

definition max_marks :: "u32 \<Rightarrow> u32 \<Rightarrow> nat" where
  "max_marks vstart vend = (unat vend - unat vstart) div 2 ^ 17 + 1"

definition heap_blocks :: "bkmem \<Rightarrow> nat" where
  "heap_blocks k = (unat (bend k) - unat (bheap k)) div 4096"

lemma kmem_init2_ok:
  assumes "memory_ok vs ve"
  obtains k0 where "kmem_init2 vs ve k = Some k0" "buddy_inv (max_marks vs ve) (64 * heap_blocks k0) k0"
    "free_blocks (max_marks vs ve) k0 = {MAX_ORD} \<times> {..<heap_blocks k0}"
    "unat ve = unat (bheap k0) + 4096 * heap_blocks k0" "0 < heap_blocks k0"
proof -
  let ?c = "max_marks vs ve"
  define n where "n = (drop_bit (MAX_ORD + 5) (ve - vs) + 1 :: u32)"
  have len: "unat (ve - vs) = unat ve - unat vs" using assms by (simp add: memory_ok_def unat_sub word_le_nat_alt)
  have c: "?c \<le> 1023" "unat ve - unat vs < 2 ^ 17 * ?c"
    using assms unfolding memory_ok_def max_marks_def by (simp_all add: less_mult_imp_div_less, linarith?)
  have "unat (drop_bit 17 (ve - vs)) = (unat ve - unat vs) div 2 ^ 17"
    by (subst unat_drop_bit_eq) (simp only: len drop_bit_eq_div)
  then have n: "unat n = ?c" using c(1) unfolding n_def max_marks_def by (simp add: unat_word_ariths)
  define k1 where "k1 = k\<lparr>bstart := vs, bend := ve\<rparr>"
  have "127 * unat n < 2 ^ 32" using n c by simp
  from init_orders_ok[OF this, of k1] obtain k2 where
    k2: "init_orders n k1 = (of_nat (128 * unat n), of_nat (127 * unat n), k2)" "bstart k2 = vs" "bend k2 = ve"
    "\<And>r. r \<in> {MIN_ORD..MAX_ORD} \<Longrightarrow> head_of r k2 = NIL"
    "\<And>r i. r \<in> {MIN_ORD..MAX_ORD} \<Longrightarrow> get_mark r i k2 = (2 ^ (MAX_ORD - r) - 1) * unat n + i"
    "\<And>a. a < 127 * unat n \<Longrightarrow> marks k2 a = empty_mark" by (auto simp: k1_def)
  define hp where "hp = align_up (vs + of_nat (127 * unat n) * 8) (push_bit MAX_ORD 1)"
  have off: "unat (of_nat (127 * unat n) * 8 :: u32) = 1016 * ?c" 
  proof -
    have "of_nat (127 * unat n) * 8 = (of_nat (1016 * ?c) :: u32)" by (simp add: n)
    moreover have "unat (of_nat (1016 * ?c) :: u32) = 1016 * ?c" using c(1) by (intro unat_of_nat_u32) simp
    ultimately show ?thesis by simp
  qed
  have mem: "unat vs + 2097152 \<le> unat ve" "unat ve + 2097152 \<le> 4294967296"
    using assms by (simp_all add: memory_ok_def)
  then have top: "unat vs + 1016 * ?c + 4095 < 4294967296" using c(1) by linarith
  have sz: "unat (vs + of_nat (127 * unat n) * 8) = unat vs + 1016 * ?c"
    by (subst unat_add_lem[THEN iffD1]) (use top off in simp_all)
  have hp: "unat hp = (unat vs + 1016 * ?c + 4095) div 4096 * 4096"
    unfolding hp_def by (subst align_up_page) (use sz top in simp_all)
  have up: "x \<le> (x + 4095) div 4096 * 4096 \<and> (x + 4095) div 4096 * 4096 \<le> x + 4095" for x :: nat
    using div_mult_mod_eq[of "x + 4095" 4096] mod_less_divisor[of 4096 "x + 4095"] by linarith
  have hp_le: "unat hp \<le> unat vs + 1016 * ?c + 4095" "unat vs + 1016 * ?c \<le> unat hp"
    unfolding hp using up[of "unat vs + 1016 * ?c"] by simp_all
  have "0 < unat hp" using hp_le(2) by (simp add: max_marks_def)
  then have nz: "hp \<noteq> 0" by (metis unat_0 less_irrefl)
  have al: "4096 dvd unat hp" unfolding hp by simp
  define M where "M = (unat ve - unat hp) div 4096"
  have in_mem: "unat hp + 4096 \<le> unat ve" "unat vs \<le> unat hp"
    using hp_le c(1) mem(1) by linarith+
  have "4096 dvd unat ve - unat hp" using al assms by (simp add: memory_ok_def)
  then have M: "unat ve = unat hp + 4096 * M" using in_mem by (simp add: M_def)
  have few: "M \<le> 32 * unat n" using M c(2) in_mem n by simp
  have top: "unat hp + 4096 * M < 2 ^ 32" using M assms by (simp add: memory_ok_def)
  have small: "64 * unat n \<le> NIL" using n c by simp
  define k3 where "k3 = k2\<lparr>bheap := hp\<rparr>"
  have inv: "buddy_inv ?c (64 * M) k3" "free_blocks ?c k3 = {MAX_ORD} \<times> {..<0}"
    using init_inv[OF k2(1,4,5,6) small few al nz top] unfolding k3_def n by simp_all
  have "unat (bend k3) = unat (bheap k3) + 4096 * M" by (simp add: k3_def k2(3) M)
  from add_blocks_ok[OF inv le0 this] obtain k0 where
    k0: "add_blocks hp k3 = Some k0" "buddy_inv ?c (64 * M) k0" "free_blocks ?c k0 = {MAX_ORD} \<times> {..<M}"
      "bheap k0 = hp" "bend k0 = ve" by (auto simp: blkid2mem_def k3_def k2(3))
  have "kmem_init2 vs ve k = Some k0"
    using k0(1) k2(1,2) unfolding kmem_init2_def Let_def by (simp add: k3_def hp_def n_def k1_def)
  moreover have "heap_blocks k0 = M" by (simp add: heap_blocks_def k0 M_def)
  moreover have "0 < M" using M in_mem by simp
  ultimately show ?thesis using that k0 M by simp
qed

section \<open>Runs\<close>

text \<open>What a caller holds: the order and the address of each block it got and has not given back.\<close>

inductive buddy_run :: "bkmem \<Rightarrow> (nat \<times> u32) set \<Rightarrow> bkmem \<Rightarrow> bool" for k0 where
  start: "buddy_run k0 {} k0"
| alloc: "buddy_run k0 H k \<Longrightarrow> kmalloc r k = Some (a, k') \<Longrightarrow> buddy_run k0 (if a = 0 then H else insert (r, a) H) k'"
| give: "buddy_run k0 H k \<Longrightarrow> (r, a) \<in> H \<Longrightarrow> kfree a r k = Some k' \<Longrightarrow> buddy_run k0 (H - {(r, a)}) k'"

definition addr :: "bkmem \<Rightarrow> block \<Rightarrow> nat \<times> u32" where
  "addr k x = (fst x, blkid2mem (fst x) (snd x) k)"

lemma addr_bheap: "bheap k' = bheap k \<Longrightarrow> addr k' = addr k"
  by (rule ext) (simp add: addr_def blkid2mem_def)

definition run_inv :: "nat \<Rightarrow> nat \<Rightarrow> u32 \<Rightarrow> block set \<Rightarrow> (nat \<times> u32) set \<Rightarrow> bkmem \<Rightarrow> bool" where
  "run_inv c n hp B H k \<longleftrightarrow> H = addr k ` B \<and> buddy_inv c n k \<and> buddies n (free_blocks c k) B \<and> bheap k = hp"

lemma addr_inj:
  assumes "buddy_inv c n k" and "block_ok n x" "block_ok n y" and "addr k x = addr k y"
  shows "x = y"
proof -
  have "fst x = fst y" using assms(4) by (simp add: addr_def)
  moreover from this have "blkid2mem (fst x) (snd x) k = blkid2mem (fst x) (snd y) k"
    using assms(4) by (simp add: addr_def)
  moreover from calculation have "snd x = snd y" using block_addr(3)[OF assms(1)] assms(2,3) by (metis prod.collapse)
  ultimately show ?thesis by (simp add: prod_eq_iff)
qed

lemma kmalloc_ok:
  assumes "buddy_inv c n k" and "buddies n (free_blocks c k) B" and "r \<in> {MIN_ORD..MAX_ORD}"
  obtains (none) "kmalloc r k = Some (0, k)" "\<forall>x \<in> free_blocks c k. fst x < r"
  | (some) b k' where "kmalloc r k = Some (blkid2mem r b k, k')" "blkid2mem r b k \<noteq> 0" "buddy_inv c n k'"
      "(r, b) \<notin> B" "buddies n (free_blocks c k') (insert (r, b) B)" "bheap k' = bheap k"
proof -
  have r: "\<not> r < MIN_ORD" "\<not> MAX_ORD < r" using assms(3) by auto
  from kmalloc_rec_ok[OF assms] show ?thesis
  proof (elim disjE exE conjE)
    fix b k' assume *: "kmalloc_rec r k = Some (blkid2mem r b k, k')" "buddy_inv c n k'" "(r, b) \<notin> B"
      "buddies n (free_blocks c k') (insert (r, b) B)" "bheap k' = bheap k"
    have "block_ok n (r, b)" using buddies_ok[OF *(4)] by simp
    then have "blkid2mem r b k \<noteq> 0" using block_addr(4)[OF assms(1)] by blast
    then show ?thesis using some * r by (simp add: kmalloc_def)
  qed (use none r in \<open>simp add: kmalloc_def\<close>)
qed

lemma run_keeps:
  assumes "buddy_run k0 H k" and "run_inv c n hp {} {} k0"
  shows "\<exists>B. run_inv c n hp B H k"
  using assms(1)
proof (induction rule: buddy_run.induct)
  case start
  then show ?case using assms(2) by blast
next
  case (alloc H k r a k')
  from alloc.IH obtain B where B: "H = addr k ` B" "buddy_inv c n k" "buddies n (free_blocks c k) B" "bheap k = hp"
    by (auto simp: run_inv_def)
  have r: "r \<in> {MIN_ORD..MAX_ORD}" using alloc.hyps(2) by (auto simp: kmalloc_def split: if_splits)
  from B(2,3) r show ?case
  proof (cases rule: kmalloc_ok)
    case none
    then show ?thesis using alloc.hyps(2) B by (auto simp: run_inv_def)
  next
    case (some b k1)
    then have "run_inv c n hp (insert (r, b) B) (insert (r, a) H) k'"
      using alloc.hyps(2) B addr_bheap[OF some(6)] by (auto simp: run_inv_def addr_def)
    then show ?thesis using some alloc.hyps(2) by auto
  qed
next
  case (give H k r a k')
  from give.IH obtain B where B: "H = addr k ` B" "buddy_inv c n k" "buddies n (free_blocks c k) B" "bheap k = hp"
    by (auto simp: run_inv_def)
  obtain b where b: "(r, b) \<in> B" "a = blkid2mem r b k" using B(1) give.hyps(2) by (auto simp: addr_def)
  have "buddies n (free_blocks c k) (insert (r, b) (B - {(r, b)}))" using B(3) b(1) by (simp add: insert_absorb)
  from kfree_ok[OF B(2) this] give.hyps(3) b(2)
  have k': "buddy_inv c n k'" "buddies n (free_blocks c k') (B - {(r, b)})" "bheap k' = bheap k" by auto
  have "addr k ` (B - {(r, b)}) = addr k ` B - {(r, a)}"
  proof -
    have "inj_on (addr k) B" using addr_inj[OF B(2) buddies_ok[OF B(3)] buddies_ok[OF B(3)]] by (intro inj_onI) blast
    moreover have "addr k (r, b) = (r, a)" by (simp add: addr_def b(2))
    ultimately show ?thesis using b(1) by (simp add: inj_on_image_set_diff[of _ B])
  qed
  then have "run_inv c n hp (B - {(r, b)}) (H - {(r, a)}) k'"
    using k' B addr_bheap[OF k'(3)] by (simp add: run_inv_def)
  then show ?case by blast
qed

section \<open>What callers see\<close>

text \<open>The addresses of a block.\<close>

definition span :: "nat \<times> u32 \<Rightarrow> nat set" where
  "span x = {unat (snd x)..<unat (snd x) + 2 ^ fst x}"

lemma span_units:
  assumes inv: "buddy_inv c n k" and ok: "block_ok n x" and "i < 64"
  shows "unat (bheap k) + 64 * u + i \<in> span (addr k x) \<longleftrightarrow> in_block u x"
proof -
  obtain r b where x: "x = (r, b)" by fastforce
  define d where "d = (2 :: nat) ^ (r - MIN_ORD)"
  have "MIN_ORD \<le> r" using ok by (simp add: block_ok_def x)
  then have d: "(2 :: nat) ^ r = 64 * d" using power_add[of "2 :: nat" MIN_ORD "r - MIN_ORD"] by (simp add: d_def)
  have "unat (bheap k) + 64 * u + i \<in> span (addr k x) \<longleftrightarrow> 64 * (d * b) \<le> 64 * u + i \<and> 64 * u + i < 64 * (d * b + d)"
    using block_addr(1)[OF inv, of r b] ok unfolding x
    by (simp add: span_def addr_def d algebra_simps)
  also have "\<dots> \<longleftrightarrow> d * b \<le> u \<and> u < d * b + d" using assms(3) by auto
  also have "\<dots> \<longleftrightarrow> u div d = b"
  proof -
    have "0 < d" by (simp add: d_def)
    then show ?thesis
      using div_less_iff_less_mult[of d u "b + 1"] less_eq_div_iff_mult_less_eq[of d b u]
      by (auto simp: algebra_simps)
  qed
  finally show ?thesis by (simp add: in_block_def x d_def)
qed

lemma span_addr:
  assumes inv: "buddy_inv c n k" and ok: "block_ok n x"
  shows "x' \<in> span (addr k x) \<longleftrightarrow> unat (bheap k) \<le> x' \<and> in_block ((x' - unat (bheap k)) div 64) x"
proof (cases "unat (bheap k) \<le> x'")
  case True
  have "x' = unat (bheap k) + 64 * ((x' - unat (bheap k)) div 64) + (x' - unat (bheap k)) mod 64"
    using True by (simp add: mult.commute)
  then show ?thesis using span_units[OF inv ok, of "(x' - unat (bheap k)) mod 64" "(x' - unat (bheap k)) div 64"] True by simp
next
  case False
  then show ?thesis using block_addr(1)[OF inv, of "fst x" "snd x"] ok by (auto simp: span_def addr_def)
qed

lemma span_heap:
  assumes inv: "buddy_inv c n k" and ok: "block_ok n x"
  shows "span (addr k x) \<subseteq> {unat (bheap k)..<unat (bheap k) + 64 * n}" "2 ^ fst x dvd unat (snd (addr k x))"
proof -
  obtain r b where x: "x = (r, b)" by fastforce
  note a = block_addr[OF inv ok[unfolded x]]
  show "span (addr k x) \<subseteq> {unat (bheap k)..<unat (bheap k) + 64 * n}"
    using a(1,2) by (auto simp: span_def addr_def x algebra_simps)
  have "r \<le> 12" using ok by (simp add: block_ok_def x)
  then have "(2 :: nat) ^ r dvd 4096" using le_imp_power_dvd[of r 12 "2 :: nat"] by simp
  then have "2 ^ r dvd unat (bheap k)" using inv by (auto simp: buddy_inv_def intro: dvd_trans)
  then show "2 ^ fst x dvd unat (snd (addr k x))" using a(1) by (simp add: addr_def x)
qed

lemma span_apart:
  assumes inv: "buddy_inv c n k" and B: "buddies n F B" and x: "x \<in> F \<union> B" and y: "y \<in> F \<union> B" and "x \<noteq> y"
  shows "span (addr k x) \<inter> span (addr k y) = {}"
  using span_addr[OF inv buddies_ok[OF B x]] span_addr[OF inv buddies_ok[OF B y]] assms(5)
    cutsD(3)[OF _ x y] B by (auto simp: buddies_def)

lemma span_cover:
  assumes inv: "buddy_inv c n k" and B: "buddies n F B" and z: "unat (bheap k) \<le> z" "z < unat (bheap k) + 64 * n"
  shows "\<exists>x \<in> F \<union> B. z \<in> span (addr k x)"
proof -
  have "(z - unat (bheap k)) div 64 < n" using z by (simp add: less_mult_imp_div_less)
  then obtain x where "x \<in> F \<union> B" "in_block ((z - unat (bheap k)) div 64) x"
    using cutsD(2) B by (metis buddies_def)
  then show ?thesis using span_addr[OF inv buddies_ok[OF B]] z(1) by blast
qed

lemma initial_buddies: "buddies (64 * M) ({MAX_ORD} \<times> {..<M}) {}"
proof -
  have "cuts (64 * M) ({MAX_ORD} \<times> {..<M})"
    by (auto simp: cuts_def block_ok_def in_block_def less_mult_imp_div_less mult.commute)
  then show ?thesis by (auto simp: buddies_def joined_def)
qed

lemma run_held:
  assumes "run_inv c n hp B H k"
  shows "(\<forall>x \<in> H. 2 ^ fst x dvd unat (snd x) \<and> span x \<subseteq> {unat hp..<unat hp + 64 * n} \<and> kfree (snd x) (fst x) k \<noteq> None)
    \<and> (\<forall>x \<in> H. \<forall>y \<in> H. x \<noteq> y \<longrightarrow> span x \<inter> span y = {}) \<and> (\<forall>r \<in> {MIN_ORD..MAX_ORD}. kmalloc r k \<noteq> None)"
proof (intro conjI ballI impI)
  have i: "H = addr k ` B" "buddy_inv c n k" "buddies n (free_blocks c k) B" "bheap k = hp"
    using assms by (simp_all add: run_inv_def)
  {
    fix x assume "x \<in> H"
    then obtain y where y: "y \<in> B" "x = addr k y" using i(1) by blast
    have ok: "block_ok n y" using buddies_ok[OF i(3)] y(1) by blast
    show "2 ^ fst x dvd unat (snd x)" "span x \<subseteq> {unat hp..<unat hp + 64 * n}"
      using span_heap[OF i(2) ok] i(4) y(2) by (simp_all add: addr_def)
    have "buddies n (free_blocks c k) (insert (fst y, snd y) (B - {y}))" using i(3) y(1) by (simp add: insert_absorb)
    from kfree_ok[OF i(2) this] show "kfree (snd x) (fst x) k \<noteq> None" by (auto simp: y(2) addr_def)
  }
  {
    fix x y assume "x \<in> H" "y \<in> H" "x \<noteq> y"
    then show "span x \<inter> span y = {}" using span_apart[OF i(2,3)] i(1) by blast
  }
  fix r :: nat assume "r \<in> {MIN_ORD..MAX_ORD}"
  from i(2,3) this show "kmalloc r k \<noteq> None" by (cases rule: kmalloc_ok) simp_all
qed

text \<open>
  C15: The buddy allocator never hands out memory twice.  \<open>kmem_init2\<close> succeeds on every memory of a
  usable size.  After any sequence of \<open>kmalloc\<close> and \<open>kfree\<close> by callers that free what they hold, the
  blocks that are held are aligned to their size, lie between the marks and the end of the memory and do
  not overlap; no further allocation panics, nor does giving back any held block.
\<close>

theorem buddy_exclusive:
  assumes "memory_ok vs ve"
  shows "\<exists>k0. kmem_init2 vs ve k = Some k0 \<and> (\<forall>H k'. buddy_run k0 H k' \<longrightarrow>
    (\<forall>x \<in> H. 2 ^ fst x dvd unat (snd x) \<and> span x \<subseteq> {unat (bheap k0)..<unat ve} \<and> kfree (snd x) (fst x) k' \<noteq> None)
    \<and> (\<forall>x \<in> H. \<forall>y \<in> H. x \<noteq> y \<longrightarrow> span x \<inter> span y = {})
    \<and> (\<forall>r \<in> {MIN_ORD..MAX_ORD}. kmalloc r k' \<noteq> None))"
proof -
  let ?c = "max_marks vs ve"
  obtain k0 where k0: "kmem_init2 vs ve k = Some k0" "buddy_inv ?c (64 * heap_blocks k0) k0"
    "free_blocks ?c k0 = {MAX_ORD} \<times> {..<heap_blocks k0}" "unat ve = unat (bheap k0) + 4096 * heap_blocks k0"
    using kmem_init2_ok[OF assms] .
  let ?n = "64 * heap_blocks k0"
  have start: "run_inv ?c ?n (bheap k0) {} {} k0"
    using k0(2) initial_buddies[of "heap_blocks k0"] by (simp add: run_inv_def k0(3))
  have held: "(\<forall>x \<in> H. 2 ^ fst x dvd unat (snd x) \<and> span x \<subseteq> {unat (bheap k0)..<unat ve} \<and> kfree (snd x) (fst x) k' \<noteq> None)
    \<and> (\<forall>x \<in> H. \<forall>y \<in> H. x \<noteq> y \<longrightarrow> span x \<inter> span y = {}) \<and> (\<forall>r \<in> {MIN_ORD..MAX_ORD}. kmalloc r k' \<noteq> None)"
    if run: "buddy_run k0 H k'" for H k'
  proof -
    obtain B where "run_inv ?c ?n (bheap k0) B H k'" using run_keeps[OF run start] by blast
    then show ?thesis using run_held[of ?c ?n "bheap k0" B H k'] k0(4) by simp
  qed
  then show ?thesis using k0(1) by blast
qed

text \<open>A machine with 128 MB, as \<open>init/arm/main.c\<close> sets it up, before the allocator has been initialised.\<close>

definition raw_memory :: bkmem where
  "raw_memory = \<lparr>bstart = 0, bheap = 0, bend = 0, orders = (\<lambda>_. \<lparr>ohead = 0, offset = 0\<rparr>), marks = (\<lambda>_. \<lparr>lnks = 0, bitmap = 0\<rparr>)\<rparr>"

lemma raw_memory_ok: "memory_ok 0x80100000 0x88000000"
  by (simp add: memory_ok_def)

lemma raw_init:
  obtains k0 a k1 where "kmem_init2 0x80100000 0x88000000 raw_memory = Some k0" "kmalloc 6 k0 = Some (a, k1)" "a \<noteq> 0"
proof -
  let ?c = "max_marks 0x80100000 0x88000000"
  obtain k0 where k0: "kmem_init2 0x80100000 0x88000000 raw_memory = Some k0" "buddy_inv ?c (64 * heap_blocks k0) k0"
    "free_blocks ?c k0 = {MAX_ORD} \<times> {..<heap_blocks k0}" "0 < heap_blocks k0"
    using kmem_init2_ok[OF raw_memory_ok, of raw_memory] by blast
  have F: "buddies (64 * heap_blocks k0) (free_blocks ?c k0) {}" unfolding k0(3) by (rule initial_buddies)
  have "(6 :: nat) \<in> {MIN_ORD..MAX_ORD}" by simp
  from k0(2) F this show ?thesis
  proof (cases rule: kmalloc_ok)
    case none
    have "(MAX_ORD, 0) \<in> free_blocks ?c k0" using k0(3,4) by simp
    then show ?thesis using none(2) by fastforce
  next
    case (some b k1)
    then show ?thesis using that k0(1) by blast
  qed
qed

theorem buddy_exclusive_witness:
  "\<exists>k0 a k1. kmem_init2 0x80100000 0x88000000 raw_memory = Some k0 \<and> kmalloc 6 k0 = Some (a, k1) \<and> a \<noteq> 0
     \<and> unat (bheap k0) \<le> unat a \<and> kfree a 6 k1 \<noteq> None"
proof -
  obtain k0 a k1 where k: "kmem_init2 0x80100000 0x88000000 raw_memory = Some k0" "kmalloc 6 k0 = Some (a, k1)" "a \<noteq> 0"
    by (rule raw_init)
  have "buddy_run k0 (insert (6, a) {}) k1"
    using buddy_run.alloc[OF buddy_run.start k(2)] k(3) by simp
  then have "span (6, a) \<subseteq> {unat (bheap k0)..<unat (0x88000000 :: u32)} \<and> kfree a 6 k1 \<noteq> None"
    using buddy_exclusive[OF raw_memory_ok, of raw_memory] k(1) by (metis fst_conv snd_conv insertI1 option.inject)
  moreover have "unat a \<in> span (6, a)" by (simp add: span_def)
  ultimately show ?thesis using k by fastforce
qed

text \<open>
  C16: No memory is lost.  At any time every byte of the heap is in exactly one block, one that is held or
  one that is free.  Once everything has been given back the free blocks are those \<open>kmem_init2\<close> made:
  the halves have been joined again, all the way up.
\<close>

theorem buddy_returns:
  assumes "memory_ok vs ve" and "kmem_init2 vs ve k = Some k0" and "buddy_run k0 H k'" and "c = max_marks vs ve"
  shows "(\<forall>z. unat (bheap k0) \<le> z \<and> z < unat ve \<longrightarrow>
      (\<exists>x \<in> H. z \<in> span x) \<noteq> (\<exists>x \<in> free_blocks c k'. z \<in> span (addr k' x)))
    \<and> (H = {} \<longrightarrow> free_blocks c k' = free_blocks c k0)"
proof -
  have k0: "buddy_inv c (64 * heap_blocks k0) k0" "free_blocks c k0 = {MAX_ORD} \<times> {..<heap_blocks k0}"
    "unat ve = unat (bheap k0) + 4096 * heap_blocks k0"
    using kmem_init2_ok[OF assms(1), of k] assms(2,4) by auto
  let ?n = "64 * heap_blocks k0"
  have "run_inv c ?n (bheap k0) {} {} k0"
    using k0(1) initial_buddies[of "heap_blocks k0"] by (simp add: run_inv_def k0(2))
  from run_keeps[OF assms(3) this] obtain B where
    B: "H = addr k' ` B" "buddy_inv c ?n k'" "buddies ?n (free_blocks c k') B" "bheap k' = bheap k0"
    by (auto simp: run_inv_def)
  have "(\<exists>x \<in> H. z \<in> span x) \<noteq> (\<exists>x \<in> free_blocks c k'. z \<in> span (addr k' x))"
    if "unat (bheap k0) \<le> z" "z < unat ve" for z
  proof -
    have "\<exists>x \<in> free_blocks c k' \<union> B. z \<in> span (addr k' x)"
      using span_cover[OF B(2,3), of z] that B(4) k0(3) by simp
    moreover have False if "x \<in> B" "y \<in> free_blocks c k'" "z \<in> span (addr k' x)" "z \<in> span (addr k' y)" for x y
    proof -
      have "x \<noteq> y" using that(1,2) B(3) by (auto simp: buddies_def)
      then show False using span_apart[OF B(2,3), of x y] that by blast
    qed
    ultimately show ?thesis unfolding B(1) by blast
  qed
  moreover have "free_blocks c k' = free_blocks c k0" if "H = {}"
  proof -
    have "buddies ?n (free_blocks c k') {}" using B(1,3) that by simp
    then have "free_blocks c k' = {MAX_ORD} \<times> {..<?n div 2 ^ (MAX_ORD - MIN_ORD)}" by (rule all_free) simp
    then show ?thesis by (simp add: k0(2))
  qed
  ultimately show ?thesis by blast
qed

theorem buddy_returns_witness:
  "\<exists>k0 a k1 k2. kmem_init2 0x80100000 0x88000000 raw_memory = Some k0 \<and> kmalloc 6 k0 = Some (a, k1) \<and> a \<noteq> 0
     \<and> kfree a 6 k1 = Some k2
     \<and> free_blocks (max_marks 0x80100000 0x88000000) k2 = free_blocks (max_marks 0x80100000 0x88000000) k0"
proof -
  obtain k0 a k1 where k: "kmem_init2 0x80100000 0x88000000 raw_memory = Some k0" "kmalloc 6 k0 = Some (a, k1)" "a \<noteq> 0"
    by (rule raw_init)
  have r1: "buddy_run k0 (insert (6, a) {}) k1"
    using buddy_run.alloc[OF buddy_run.start k(2)] k(3) by simp
  obtain k0' where "kmem_init2 0x80100000 0x88000000 raw_memory = Some k0'" "buddy_inv (max_marks 0x80100000 0x88000000) (64 * heap_blocks k0') k0'"
    "free_blocks (max_marks 0x80100000 0x88000000) k0' = {MAX_ORD} \<times> {..<heap_blocks k0'}"
    using kmem_init2_ok[OF raw_memory_ok, of raw_memory] by blast
  then have "run_inv (max_marks 0x80100000 0x88000000) (64 * heap_blocks k0) (bheap k0) {} {} k0"
    using k(1) initial_buddies[of "heap_blocks k0"] by (simp add: run_inv_def)
  from run_keeps[OF r1 this] obtain k2 where k2: "kfree a 6 k1 = Some k2" using run_held by fastforce
  have "buddy_run k0 {} k2" using buddy_run.give[OF r1 _ k2] by simp
  from buddy_returns[OF raw_memory_ok k(1) this refl] show ?thesis using k k2 by blast
qed

section \<open>The order for a size\<close>


lemma ex_halves: "(\<exists>j < 2 * d. P j) \<longleftrightarrow> (\<exists>j < d. P j) \<or> (\<exists>j < d. P (d + j))" for d :: nat
proof
  assume "\<exists>j < 2 * d. P j"
  then obtain j where j: "j < 2 * d" "P j" by blast
  show "(\<exists>j < d. P j) \<or> (\<exists>j < d. P (d + j))"
  proof (cases "j < d")
    case False
    then have "j - d < d" "P (d + (j - d))" using j by simp_all
    then show ?thesis by blast
  qed (use j in blast)
next
  assume "(\<exists>j < d. P j) \<or> (\<exists>j < d. P (d + j))"
  then obtain j where "j < 2 * d" "P j" by (metis add_less_cancel_left mult_2 trans_less_add1)
  then show "\<exists>j < 2 * d. P j" by blast
qed

lemma smear: "bit (let v = v OR drop_bit 1 v; v = v OR drop_bit 2 v; v = v OR drop_bit 4 v; v = v OR drop_bit 8 v
    in v OR drop_bit 16 v) i \<longleftrightarrow> (\<exists>j < 32. bit v (i + j))" for v :: u32
proof -
  have step: "(\<forall>i. bit w i \<longleftrightarrow> (\<exists>j < d. bit v (i + j))) \<Longrightarrow>
      (\<forall>i. bit (w OR drop_bit d w) i \<longleftrightarrow> (\<exists>j < 2 * d. bit v (i + j)))" for w :: u32 and d
  proof (intro allI)
    fix i assume w: "\<forall>i. bit w i \<longleftrightarrow> (\<exists>j < d. bit v (i + j))"
    have "bit (w OR drop_bit d w) i \<longleftrightarrow> (\<exists>j < d. bit v (i + j)) \<or> (\<exists>j < d. bit v (i + (d + j)))"
      by (simp only: bit_or_iff bit_drop_bit_eq comp_apply w add.assoc add.left_commute[of d])
    also have "\<dots> \<longleftrightarrow> (\<exists>j < 2 * d. bit v (i + j))"
      by (rule ex_halves[of d "\<lambda>j. bit v (i + j)", symmetric])
    finally show "bit (w OR drop_bit d w) i \<longleftrightarrow> (\<exists>j < 2 * d. bit v (i + j))" .
  qed
  have "\<forall>i. bit v i \<longleftrightarrow> (\<exists>j < 1. bit v (i + j))" by simp
  from step[OF step[OF step[OF step[OF step[OF this]]]]] show ?thesis by (simp add: Let_def)
qed

lemma round_pow2_eq:
  assumes "e \<le> 32" and "unat v \<le> 2 ^ e" and "e = 0 \<or> 2 ^ (e - 1) < unat v" and "0 < v"
  shows "round_pow2 v = 2 ^ e"
proof -
  let ?x = "v - 1"
  have x: "unat ?x = unat v - 1" using assms(4) by (simp add: unat_minus_one word_neq_0_conv)
  have "(\<exists>j < 32. bit ?x (i + j)) \<longleftrightarrow> i < e" for i
  proof
    assume "i < e"
    then have "2 ^ (e - 1) \<le> unat ?x" "unat ?x < 2 * 2 ^ (e - 1)"
      using assms(2,3) x power_Suc[of "2 :: nat" "e - 1"] by (auto)
    then have "unat ?x div 2 ^ (e - 1) = 1" by (intro div_nat_eqI) auto
    then have "bit (unat ?x) (e - 1)" unfolding bit_iff_odd by presburger
    then have "bit ?x (e - 1)" by (simp add: bit_unsigned_iff)
    then show "\<exists>j < 32. bit ?x (i + j)" using \<open>i < e\<close> assms(1) by (intro exI[of _ "e - 1 - i"]) simp
  next
    assume "\<exists>j < 32. bit ?x (i + j)"
    then obtain j where "bit (unat ?x) (i + j)" by (auto simp: bit_unsigned_iff dest: bit_imp_le_length)
    then have "2 ^ (i + j) \<le> unat ?x" by (auto simp: bit_iff_odd dest: odd_pos intro: ccontr)
    moreover have "0 < unat v" using assms(4) by (simp add: word_less_nat_alt)
    ultimately have "(2 :: nat) ^ (i + j) < 2 ^ e" using assms(2) x by linarith
    then have "i + j < e" by (rule power_less_imp_less_exp[rotated]) simp
    then show "i < e" by simp
  qed
  then have "(let v = ?x; v = v OR drop_bit 1 v; v = v OR drop_bit 2 v; v = v OR drop_bit 4 v; v = v OR drop_bit 8 v
    in v OR drop_bit 16 v) = mask e"
    by (intro bit_word_eqI) (simp only: Let_def smear[unfolded Let_def] bit_mask_iff, simp)
  then show ?thesis unfolding round_pow2_def Let_def by (simp add: mask_eq_exp_minus_1)
qed


lemma find_bit: "e \<le> 32 \<Longrightarrow> (case find (\<lambda>i. (2 :: u32) ^ e AND push_bit i 1 \<noteq> 0) [0..<32] of None \<Rightarrow> 32 | Some i \<Rightarrow> i) = e"
proof -
  assume e: "e \<le> 32"
  have P: "(2 :: u32) ^ e AND push_bit i 1 \<noteq> 0 \<longleftrightarrow> i = e" if "i < 32" for i
    using that by (auto simp: and_exp_eq_0_iff_not_bit bit_exp_iff)
  show ?thesis
  proof (cases "e = 32")
    case True
    then have "find (\<lambda>i. (2 :: u32) ^ e AND push_bit i 1 \<noteq> 0) [0..<32] = None"
      using P by (fastforce simp: find_None_iff)
    then show ?thesis using True by simp
  next
    case False
    then have "find (\<lambda>i. (2 :: u32) ^ e AND push_bit i 1 \<noteq> 0) [0..<32] = Some e"
      unfolding find_Some_iff using e P by (intro exI[of _ e]) (auto simp: nth_upt)
    then show ?thesis by simp
  qed
qed

text \<open>\<open>get_order\<close>: the least order whose blocks hold \<open>v\<close> bytes, and a panic when there is none.\<close>

theorem get_order_least:
  "get_order v = (if v = 0 \<or> unat v > 2 ^ MAX_ORD then None else Some (max MIN_ORD (LEAST e. unat v \<le> 2 ^ e)))"
proof (cases "v = 0")
  case True
  have "round_pow2 0 = 2 ^ 32" by (simp add: round_pow2_def Let_def)
  then show ?thesis using find_bit[of 32] by (simp add: get_order_def True)
next
  case False
  define e where "e = (LEAST e. unat v \<le> 2 ^ e)"
  have le: "unat v \<le> 2 ^ 32" using unsigned_less[of v, where 'a = nat] by simp
  have e: "unat v \<le> 2 ^ e" unfolding e_def by (rule LeastI[of _ 32]) (rule le)
  have min: "\<not> unat v \<le> 2 ^ d" if "d < e" for d using not_less_Least[of d "\<lambda>e. unat v \<le> 2 ^ e"] that by (simp add: e_def)
  have e32: "e \<le> 32" unfolding e_def by (rule Least_le) (rule le)
  have "e = 0 \<or> 2 ^ (e - 1) < unat v" using min[of "e - 1"] by (cases e) auto
  then have r: "round_pow2 v = 2 ^ e" using round_pow2_eq[OF e32 e] False by (simp add: word_neq_0_conv)
  have "e \<le> 12 \<longleftrightarrow> unat v \<le> 2 ^ 12"
  proof
    assume "e \<le> 12"
    then have "(2 :: nat) ^ e \<le> 2 ^ 12" by (intro power_increasing) auto
    then show "unat v \<le> 2 ^ 12" using e by linarith
  qed (use min[of 12] in force)
  then show ?thesis
    unfolding get_order_def r find_bit[OF e32] Let_def e_def[symmetric] using False by (auto simp: max_def)
qed

end
