(* ===== verification/Frame.thy ===== *)
theory Frame imports SysFile begin

text \<open>
  What the file system leaves alone: the file table, the pipes, the memory and the process table are
  the fields its state is extended by, which none of its functions touches.
\<close>

named_theorems fs_more "operations that keep the fields after those of the file system"

section \<open>The log\<close>

lemma logst_more_eq:
  "logst.more (st' :: 'a fsst_scheme) = logst.more st \<Longrightarrow> fsst.more st' = fsst.more st"
  by (cases st; cases st') simp

lemma fold_keep: "(\<And>x s. g (f x s) = g s) \<Longrightarrow> g (fold f xs s) = g s"
  by (induction xs arbitrary: s) auto

lemma commit_more: "logst.more (commit st) = logst.more st"
proof -
  have b: "logst.more (log_bwrite b s) = logst.more s" "logst.more (bset b v s) = logst.more s"
    "logst.more (log_bunpin b s) = logst.more s" for b v and s :: "'a logst_scheme"
    by (simp_all add: log_bwrite_def bset_def log_bunpin_def)
  have "logst.more (write_head s) = logst.more s" for s :: "'a logst_scheme" by (simp add: write_head_def Let_def b)
  moreover have "logst.more (install_trans r s) = logst.more s" for r and s :: "'a logst_scheme"
    unfolding install_trans_def by (rule fold_keep) (simp add: Let_def b)
  moreover have "logst.more (write_log s) = logst.more s" for s :: "'a logst_scheme"
    unfolding write_log_def by (rule fold_keep) (simp add: Let_def b)
  ultimately show ?thesis by (simp add: commit_def)
qed

lemma end_op_more [fs_more]: "end_op (st :: 'a fsst_scheme) = Some st' \<Longrightarrow> fsst.more st' = fsst.more st"
  by (rule logst_more_eq) (auto simp: end_op_def Let_def commit_more split: if_splits)

lemma begin_op_more [fs_more]: "begin_op (st :: 'a fsst_scheme) = Proceeds st' \<Longrightarrow> fsst.more st' = fsst.more st"
  by (rule logst_more_eq) (auto simp: begin_op_def split: if_splits)

lemma log_write_more [fs_more]: "log_write b (st :: 'a fsst_scheme) = Some st' \<Longrightarrow> fsst.more st' = fsst.more st"
  by (rule logst_more_eq) (auto simp: log_write_def log_bpin_def Let_def split: if_splits)

lemma bset_more [simp]: "fsst.more (bset b v (st :: 'a fsst_scheme)) = fsst.more st"
  by (rule logst_more_eq) (simp add: bset_def)

lemma lwrite_more [fs_more]: "lwrite b v st = Some st' \<Longrightarrow> fsst.more st' = fsst.more st"
  by (auto simp: lwrite_def dest: fs_more)

section \<open>Blocks and inodes\<close>

lemmas frame_simps = Let_def Option.bind_eq_Some_conv

lemma iset_more [simp]: "fsst.more (iset ip f st) = fsst.more st"
  by (simp add: iset_def)

lemma set_addr_more [simp]: "fsst.more (set_addr ip n r st) = fsst.more st"
  by (simp add: set_addr_def)

lemma idup_more [simp]: "fsst.more (idup ip st) = fsst.more st"
  by (simp add: idup_def)

lemma bzero_more [fs_more]: "bzero b st = Some st' \<Longrightarrow> fsst.more st' = fsst.more st"
  by (auto simp: bzero_def dest: fs_more)

lemma balloc_from_more: "balloc_from b st = Some (r, st') \<Longrightarrow> fsst.more st' = fsst.more st"
proof (induction b st rule: balloc_from.induct)
  case (1 b st)
  show ?case
  proof (cases "b < sb_size (sb st)")
    case True
    then show ?thesis using "1.prems" "1.IH"[OF True refl refl]
      by (auto simp: balloc_from.simps[of b st] frame_simps dest!: fs_more split: option.splits)
  qed (use "1.prems" in \<open>simp add: balloc_from.simps[of b st]\<close>)
qed

lemma balloc_more [fs_more]: "balloc st = Some (r, st') \<Longrightarrow> fsst.more st' = fsst.more st"
  by (simp add: balloc_def balloc_from_more)

lemma bfree_more [fs_more]: "bfree b st = Some st' \<Longrightarrow> fsst.more st' = fsst.more st"
  by (auto simp: bfree_def Let_def dest: fs_more split: if_splits)

lemma iupdate_more [fs_more]: "iupdate ip st = Some st' \<Longrightarrow> fsst.more st' = fsst.more st"
  by (auto simp: iupdate_def Let_def dest: fs_more)

lemma iget_more [fs_more]: "iget d n st = Some (ip, st') \<Longrightarrow> fsst.more st' = fsst.more st"
  by (auto simp: iget_def split: sum.splits option.splits)

lemma ialloc_from_more: "ialloc_from n d ty st = Some (r, st') \<Longrightarrow> fsst.more st' = fsst.more st"
proof (induction n d ty st rule: ialloc_from.induct)
  case (1 n d ty st)
  then show ?case by (subst (asm) (2) ialloc_from.simps) (auto simp: frame_simps dest!: fs_more split: if_splits)
qed

lemma ialloc_more [fs_more]: "ialloc d ty st = Some (r, st') \<Longrightarrow> fsst.more st' = fsst.more st"
  by (simp add: ialloc_def ialloc_from_more)

lemma ilock_more [fs_more]: "ilock ip st = Some st' \<Longrightarrow> fsst.more st' = fsst.more st"
  by (auto simp: ilock_def Let_def split: if_splits)

lemma iunlock_more [fs_more]: "iunlock ip st = Some st' \<Longrightarrow> fsst.more st' = fsst.more st"
  by (auto simp: iunlock_def split: if_splits)

lemma get_addr_more [fs_more]: "get_addr ip n st = Some (r, st') \<Longrightarrow> fsst.more st' = fsst.more st"
  by (auto simp: get_addr_def frame_simps dest!: fs_more split: if_splits)

lemma bmap_more [fs_more]: "bmap ip n st = Some (r, st') \<Longrightarrow> fsst.more st' = fsst.more st"
  by (auto simp: bmap_def frame_simps dest!: fs_more split: if_splits)

lemma fold_opt_keep:
  assumes "\<And>x s s'. f x s = Some s' \<Longrightarrow> g s' = g s" and "fold_opt f xs s = Some s'"
  shows "g s' = g s"
  using assms(2) by (induction xs arbitrary: s) (auto simp: Option.bind_eq_Some_conv dest: assms(1))

lemma itrunc_more [fs_more]:
  assumes "itrunc ip st = Some st'"
  shows "fsst.more st' = fsst.more st"
proof -
  let ?f = "\<lambda>i st. if iaddrs (itab st ip) i \<noteq> 0 then do {
           st' \<leftarrow> bfree (unat (iaddrs (itab st ip) i)) st; Some (set_addr ip i 0 st') } else Some st"
  have 1: "fsst.more s' = fsst.more s" if "fold_opt ?f xs s = Some s'" for xs s and s' :: "'a fsst_scheme"
    by (rule fold_opt_keep[OF _ that]) (auto simp: Option.bind_eq_Some_conv dest!: fs_more split: if_splits)
  let ?g = "\<lambda>ib j st. if rd32 (bread st ib) (4 * j) \<noteq> 0 then bfree (unat (rd32 (bread st ib) (4 * j))) st else Some st"
  have 2: "fsst.more s' = fsst.more s" if "fold_opt (?g ib) xs s = Some s'" for ib xs s and s' :: "'a fsst_scheme"
    by (rule fold_opt_keep[OF _ that]) (auto dest!: fs_more split: if_splits)
  show ?thesis using assms
    by (auto simp: itrunc_def frame_simps dest!: 1 2 fs_more split: if_splits)
qed

lemma iput_more [fs_more]: "iput ip st = Some st' \<Longrightarrow> fsst.more st' = fsst.more st"
  by (auto simp: iput_def frame_simps dest!: fs_more split: if_splits)

lemma iunlockput_more [fs_more]: "iunlockput ip st = Some st' \<Longrightarrow> fsst.more st' = fsst.more st"
  by (auto simp: iunlockput_def Option.bind_eq_Some_conv dest!: fs_more)

section \<open>Content, directories, paths\<close>

lemma readi_loop_more:
  "readi_loop ip cp dst off tot n st m = Some (r, st', m') \<Longrightarrow> fsst.more st' = fsst.more st"
proof (induction ip cp dst off tot n st m rule: readi_loop.induct)
  case (1 ip cp dst off tot n st m)
  show ?case
  proof (cases "tot < n")
    case True
    then obtain b st1 where b: "bmap ip (off div BSIZE) st = Some (b, st1)"
      using "1.prems" by (subst (asm) readi_loop.simps) (auto simp: Option.bind_eq_Some_conv)
    show ?thesis using "1.prems" "1.IH"[OF True b refl] True b bmap_more[OF b]
      by (subst (asm) readi_loop.simps) (auto simp: Let_def split: prod.splits bool.splits)
  qed (use "1.prems" in \<open>simp add: readi_loop.simps\<close>)
qed

lemma readi_more [fs_more]: "readi ip cp dst off n st m = Some (r, st', m') \<Longrightarrow> fsst.more st' = fsst.more st"
  by (auto simp: readi_def Let_def dest: readi_loop_more split: if_splits)

lemma writei_loop_more:
  "writei_loop ip ci src off tot n st = Some (t, o', st') \<Longrightarrow> fsst.more st' = fsst.more st"
proof (induction ip ci src off tot n st rule: writei_loop.induct)
  case (1 ip ci src off tot n st)
  show ?case
  proof (cases "tot < n")
    case True
    then obtain b st1 where b: "bmap ip (off div BSIZE) st = Some (b, st1)"
      using "1.prems" by (subst (asm) writei_loop.simps) (auto simp: Option.bind_eq_Some_conv)
    show ?thesis using "1.prems" "1.IH"[OF True b refl refl] True b bmap_more[OF b]
      by (subst (asm) writei_loop.simps)
        (fastforce simp: frame_simps dest: log_write_more split: prod.splits if_splits)
  qed (use "1.prems" in \<open>simp add: writei_loop.simps\<close>)
qed

lemma writei_more [fs_more]: "writei ip ci src off n st = Some (r, st') \<Longrightarrow> fsst.more st' = fsst.more st"
  by (auto simp: writei_def frame_simps dest!: fs_more writei_loop_more split: if_splits)

lemma dirlookup_from_more:
  "dirlookup_from off dp name st de = Some (r, st') \<Longrightarrow> fsst.more st' = fsst.more st"
proof (induction off dp name st de arbitrary: r rule: dirlookup_from.induct)
  case (1 off dp name st de)
  show ?case
  proof (cases "off < unat (isize (itab st dp))")
    case True
    then obtain k st1 de1 where b: "readi dp kcopyout 0 (of_nat off) (of_nat DIRENT_SIZE) st de = Some (k, st1, de1)"
      using "1.prems" by (subst (asm) dirlookup_from.simps) (auto simp: Option.bind_eq_Some_conv)
    show ?thesis using "1.prems" "1.IH"[OF True b refl refl] True b readi_more[OF b]
      by (subst (asm) dirlookup_from.simps)
        (auto simp: Option.bind_eq_Some_conv dest!: iget_more split: if_splits)
  qed (use "1.prems" in \<open>simp add: dirlookup_from.simps\<close>)
qed

lemma dirlookup_more [fs_more]: "dirlookup dp name st = Some (r, st') \<Longrightarrow> fsst.more st' = fsst.more st"
  by (auto simp: dirlookup_def dest: dirlookup_from_more split: if_splits)

lemma dirlink_from_more: "dirlink_from off dp st de = Some (r, de', st') \<Longrightarrow> fsst.more st' = fsst.more st"
proof (induction off dp st de rule: dirlink_from.induct)
  case (1 off dp st de)
  show ?case
  proof (cases "off < unat (isize (itab st dp))")
    case True
    then obtain k st1 de1 where b: "readi dp kcopyout 0 (of_nat off) (of_nat DIRENT_SIZE) st de = Some (k, st1, de1)"
      using "1.prems" by (subst (asm) dirlink_from.simps) (auto simp: Option.bind_eq_Some_conv)
    show ?thesis using "1.prems" "1.IH"[OF True b refl refl] True b readi_more[OF b]
      by (subst (asm) dirlink_from.simps) (auto simp: Option.bind_eq_Some_conv split: if_splits)
  qed (use "1.prems" in \<open>simp add: dirlink_from.simps\<close>)
qed

lemma dirlink_more [fs_more]: "dirlink dp name n st = Some (r, st') \<Longrightarrow> fsst.more st' = fsst.more st"
  by (auto simp: dirlink_def frame_simps dest!: fs_more dirlink_from_more split: option.splits if_splits)

lemma namex_loop_more: "namex_loop ip path parent name st = Some (r, nm, st') \<Longrightarrow> fsst.more st' = fsst.more st"
proof (induction ip path parent name st rule: namex_loop.induct)
  case (1 ip path parent name st)
  show ?case
  proof (cases "skipelem path name")
    case None
    then show ?thesis using "1.prems"
      by (subst (asm) namex_loop.simps) (auto simp: Option.bind_eq_Some_conv dest!: fs_more split: if_splits)
  next
    case (Some pn)
    obtain p n where pn: "pn = (p, n)" by force
    obtain st1 where l: "ilock ip st = Some st1"
      using "1.prems" Some pn by (subst (asm) namex_loop.simps) (auto simp: Option.bind_eq_Some_conv)
    show ?thesis
    proof (cases "itype (itab st1 ip) \<noteq> T_DIR \<or> parent \<and> p = []")
      case True
      then show ?thesis using "1.prems" Some pn l
        by (subst (asm) namex_loop.simps) (auto simp: Option.bind_eq_Some_conv dest!: fs_more split: if_splits)
    next
      case dir: False
      show ?thesis
      proof (cases "\<exists>st2. dirlookup ip n st1 = Some (None, st2)")
        case True
        then obtain st2 where d: "dirlookup ip n st1 = Some (None, st2)" by blast
        then have "iunlockput ip st2 = Some st'" using "1.prems" Some pn l dir
          by (subst (asm) namex_loop.simps) (auto simp: Option.bind_eq_Some_conv)
        then show ?thesis using iunlockput_more dirlookup_more[OF d] ilock_more[OF l] by metis
      next
        case False
        then obtain nx o' st2 st3 where d: "dirlookup ip n st1 = Some (Some (nx, o'), st2)" "iunlockput ip st2 = Some st3"
          and r: "namex_loop nx p parent n st3 = Some (r, nm, st')"
          using "1.prems" Some pn l dir
          by (subst (asm) namex_loop.simps) (auto simp: Option.bind_eq_Some_conv split: if_splits option.splits)
        have "fsst.more st' = fsst.more st3"
          by (rule "1.IH"[OF Some[unfolded pn] refl l _ _ d(1) refl refl refl d(2) r]) (use dir in auto)
        then show ?thesis using iunlockput_more[OF d(2)] dirlookup_more[OF d(1)] ilock_more[OF l] by simp
      qed
    qed
  qed
qed

lemma namex_more [fs_more]: "namex cwd path parent name st = Some (r, nm, st') \<Longrightarrow> fsst.more st' = fsst.more st"
  by (auto simp: namex_def Option.bind_eq_Some_conv dest!: fs_more namex_loop_more split: if_splits)

lemma namei_more [fs_more]: "namei cwd path st = Some (r, st') \<Longrightarrow> fsst.more st' = fsst.more st"
  by (auto simp: namei_def Option.bind_eq_Some_conv dest!: fs_more)

lemma nameiparent_more [fs_more]: "nameiparent cwd path name st = Some (r, nm, st') \<Longrightarrow> fsst.more st' = fsst.more st"
  by (auto simp: nameiparent_def dest: fs_more)

section \<open>The kernel's fields\<close>

lemma fsst_more_kst:
  assumes "fsst.more (st' :: 'a kst_scheme) = fsst.more st"
  shows "ftab st' = ftab st" "pipes st' = pipes st" "kpool st' = kpool st" "ptab st' = ptab st" "pof st' q = pof st q"
  using assms by (cases st; cases st'; simp add: pof_def)+

lemma isdirempty_from_more: "isdirempty_from off dp st de = Some (r, st') \<Longrightarrow> fsst.more st' = fsst.more st"
proof (induction off dp st de rule: isdirempty_from.induct)
  case (1 off dp st de)
  show ?case
  proof (cases "off < unat (isize (itab st dp))")
    case True
    then obtain k st1 de1 where b: "readi dp kcopyout 0 (of_nat off) (of_nat DIRENT_SIZE) st de = Some (k, st1, de1)"
      using "1.prems" by (subst (asm) isdirempty_from.simps) (auto simp: Option.bind_eq_Some_conv)
    show ?thesis using "1.prems" "1.IH"[OF True b refl refl] True b readi_more[OF b]
      by (subst (asm) isdirempty_from.simps) (auto simp: Option.bind_eq_Some_conv split: if_splits)
  qed (use "1.prems" in \<open>simp add: isdirempty_from.simps\<close>)
qed

lemma isdirempty_more [fs_more]: "isdirempty dp st = Some (r, st') \<Longrightarrow> fsst.more st' = fsst.more st"
  by (simp add: isdirempty_def isdirempty_from_more)

lemma set_nlink_more [fs_more]: "set_nlink ip n st = Some st' \<Longrightarrow> fsst.more st' = fsst.more st"
  by (auto simp: set_nlink_def dest: fs_more)

lemma namei_p_more [fs_more]: "namei_p p path st = Some (r, st') \<Longrightarrow> fsst.more st' = fsst.more st"
  by (auto simp: namei_p_def dest: fs_more split: option.splits if_splits)

lemma nameiparent_p_more [fs_more]: "nameiparent_p p path st = Some (r, nm, st') \<Longrightarrow> fsst.more st' = fsst.more st"
  by (auto simp: nameiparent_p_def dest: fs_more split: option.splits if_splits)

lemma put_bad_more [fs_more]: "put_bad dp st = Some (r, st') \<Longrightarrow> fsst.more st' = fsst.more st"
  by (auto simp: put_bad_def ret_def Option.bind_eq_Some_conv dest!: fs_more)

lemma link_bad_more [fs_more]: "link_bad ip st = Some (r, st') \<Longrightarrow> fsst.more st' = fsst.more st"
  by (auto simp: link_bad_def ret_def Option.bind_eq_Some_conv dest!: fs_more)

lemma do_link_more [fs_more]: "do_link p old new st = Some (r, st') \<Longrightarrow> fsst.more st' = fsst.more st"
  by (auto simp: do_link_def ret_def Option.bind_eq_Some_conv dest!: fs_more split: option.splits if_splits)

lemma unlink_entry_more [fs_more]: "unlink_entry dp ip off st = Some (r, st') \<Longrightarrow> fsst.more st' = fsst.more st"
  by (auto simp: unlink_entry_def ret_def Option.bind_eq_Some_conv dest!: fs_more split: if_splits)

lemma do_unlink_more [fs_more]: "do_unlink p path st = Some (r, st') \<Longrightarrow> fsst.more st' = fsst.more st"
  by (auto simp: do_unlink_def ret_def Option.bind_eq_Some_conv dest!: fs_more split: option.splits if_splits)

lemma create_new_more [fs_more]: "create_new dp nm type mj mn st = Some (r, st') \<Longrightarrow> fsst.more st' = fsst.more st"
  by (auto simp: create_new_def frame_simps dest!: fs_more split: if_splits)

lemma create_more [fs_more]: "create p path type mj mn st = Some (r, st') \<Longrightarrow> fsst.more st' = fsst.more st"
  by (auto simp: create_def Option.bind_eq_Some_conv dest!: fs_more split: option.splits if_splits)

lemma open_inode_more [fs_more]: "open_inode p path omode st = Some (r, st') \<Longrightarrow> fsst.more st' = fsst.more st"
  by (auto simp: open_inode_def Option.bind_eq_Some_conv dest!: fs_more split: option.splits if_splits)

lemma make_node_more [fs_more]: "make_node p path type mj mn st = Some (r, st') \<Longrightarrow> fsst.more st' = fsst.more st"
  by (auto simp: make_node_def ret_def Option.bind_eq_Some_conv dest!: fs_more split: option.splits)

end
