(* ===== verification/FileRefs.thy ===== *)
theory FileRefs imports Frame Syscall begin

text \<open>
  File descriptors, the file table and the process table together: what the system calls of
  \<open>kernel/files/sysfile.c\<close>, \<open>kernel/processes/sysproc.c\<close> and \<open>forks/arm64/kernel/proc.c\<close> keep of
  them.  Every descriptor of every process names an open file, the count of a file is the number of
  descriptors that name it, and an entry or a process that is not in use has none.
\<close>

section \<open>The invariant\<close>

definition dead :: "'a kst_scheme \<Rightarrow> nat \<Rightarrow> bool" where
  "dead st p \<longleftrightarrow> pstate (pof st p) = UNUSED \<or> pstate (pof st p) = ZOMBIE"

text \<open>The descriptors that name file \<open>f\<close>.\<close>

definition refs :: "'a kst_scheme \<Rightarrow> nat \<Rightarrow> (nat \<times> nat) set" where
  "refs st f = {(p, fd). p < NPROC \<and> fd < NOFILE \<and> pofile (pof st p) fd = Some f}"

text \<open>
  Within a call some references are not in a descriptor (yet): \<open>E\<close>.  \<open>exit\<close> closes a file before it
  clears the descriptor, so for a while the descriptors in \<open>X\<close> count for nothing.
\<close>

definition file_inv :: "nat multiset \<Rightarrow> (nat \<times> nat) set \<Rightarrow> 'a kst_scheme \<Rightarrow> bool" where
  "file_inv E X st \<longleftrightarrow>
     (\<forall>f. fref (ftab st f) = int (card (refs st f - X) + count E f))
     \<and> (\<forall>p fd f. pofile (pof st p) fd = Some f \<longrightarrow> p < NPROC \<and> fd < NOFILE
         \<and> ((p, fd) \<notin> X \<longrightarrow> f < NFILE \<and> ftyp (ftab st f) \<noteq> FD_NONE))
     \<and> (\<forall>f. fref (ftab st f) = 0 \<longrightarrow> ftyp (ftab st f) = FD_NONE)
     \<and> (\<forall>p fd. dead st p \<longrightarrow> pofile (pof st p) fd = None)"

lemma file_invI:
  assumes "\<And>f. fref (ftab st f) = int (card (refs st f - X) + count E f)"
    and "\<And>p fd f. pofile (pof st p) fd = Some f \<Longrightarrow> p < NPROC \<and> fd < NOFILE
      \<and> ((p, fd) \<notin> X \<longrightarrow> f < NFILE \<and> ftyp (ftab st f) \<noteq> FD_NONE)"
    and "\<And>f. fref (ftab st f) = 0 \<Longrightarrow> ftyp (ftab st f) = FD_NONE"
    and "\<And>p fd. dead st p \<Longrightarrow> pofile (pof st p) fd = None"
  shows "file_inv E X st"
  using assms unfolding file_inv_def by blast

lemma file_invD:
  assumes "file_inv E X st"
  shows "fref (ftab st f) = int (card (refs st f - X) + count E f)"
    and "pofile (pof st p) fd = Some f \<Longrightarrow> p < NPROC \<and> fd < NOFILE \<and> ((p, fd) \<notin> X \<longrightarrow> f < NFILE \<and> ftyp (ftab st f) \<noteq> FD_NONE)"
    and "fref (ftab st f) = 0 \<Longrightarrow> ftyp (ftab st f) = FD_NONE"
    and "dead st p \<Longrightarrow> pofile (pof st p) fd = None"
  using assms unfolding file_inv_def by blast+

lemma dead_ftab [simp]: "dead (st\<lparr>ftab := ft\<rparr>) q = dead st q"
  by (simp add: dead_def)

lemma refs_finite [simp]: "finite (refs st f)"
  by (rule finite_subset[of _ "{..<NPROC} \<times> {..<NOFILE}"]) (auto simp: refs_def)

text \<open>What most steps do to files and descriptors: nothing.\<close>

definition files_same :: "'a kst_scheme \<Rightarrow> 'a kst_scheme \<Rightarrow> bool" where
  "files_same st st' \<longleftrightarrow> (\<forall>f. fref (ftab st' f) = fref (ftab st f) \<and> ftyp (ftab st' f) = ftyp (ftab st f))
     \<and> (\<forall>q. pofile (pof st' q) = pofile (pof st q) \<and> (dead st' q \<longrightarrow> dead st q))"

named_theorems same "steps that leave files and descriptors alone"

lemma files_same_refl [simp]: "files_same st st"
  by (simp add: files_same_def)

lemma files_same_trans [trans]: "files_same st st1 \<Longrightarrow> files_same st1 st2 \<Longrightarrow> files_same st st2"
  by (auto simp: files_same_def)

lemma files_same_inv: "files_same st st' \<Longrightarrow> file_inv E X st \<Longrightarrow> file_inv E X st'"
proof -
  assume s: "files_same st st'" and i: "file_inv E X st"
  have "refs st' f = refs st f" for f using s by (simp add: refs_def files_same_def)
  then show ?thesis using s i unfolding file_inv_def files_same_def by metis
qed

lemma more_same: "fsst.more (st' :: 'a kst_scheme) = fsst.more st \<Longrightarrow> files_same st st'"
  using fsst_more_kst[of st' st] by (simp add: files_same_def dead_def)

text \<open>Process \<open>p\<close> runs, with the descriptors \<open>fds\<close>.\<close>

definition good :: "nat \<Rightarrow> (nat \<times> nat) set \<Rightarrow> (nat \<Rightarrow> nat option) \<Rightarrow> 'a kst_scheme \<Rightarrow> bool" where
  "good p X fds st \<longleftrightarrow> file_inv {#} X st \<and> pofile (pof st p) = fds \<and> \<not> dead st p"

text \<open>
  What the other processes may do while \<open>p\<close> waits for the log: they keep the invariant, and leave the
  descriptors of \<open>p\<close> alone.
\<close>

definition others_ok :: "nat \<Rightarrow> ('a kst_scheme \<Rightarrow> 'a kst_scheme) \<Rightarrow> bool" where
  "others_ok p w \<longleftrightarrow> (\<forall>X fds st. good p X fds st \<longrightarrow> good p X fds (w st))"

lemma good_same: "files_same st st' \<Longrightarrow> good p X fds st \<Longrightarrow> good p X fds st'"
  using files_same_inv unfolding good_def files_same_def by metis

lemma begin_wait_good:
  assumes "begin_wait w st = Some st'" and "others_ok p w" and "good p X fds st"
  shows "good p X fds st'"
proof -
  have "good p X fds st \<longrightarrow> good p X fds st'"
  proof (rule begin_wait.raw_induct[OF _ assms(1), where P = "\<lambda>w st st'. others_ok p w \<longrightarrow> good p X fds st \<longrightarrow> good p X fds st'", THEN mp, OF _ assms(2)])
    fix bw w st st'
    assume IH: "\<And>w st st'. bw w st = Some st' \<Longrightarrow> others_ok p w \<longrightarrow> good p X fds st \<longrightarrow> good p X fds st'"
      and b: "(case begin_op st of Sleeps \<Rightarrow> bw w (w st) | Proceeds st' \<Rightarrow> Some st') = Some (st' :: 'a kst_scheme)"
    show "others_ok p w \<longrightarrow> good p X fds st \<longrightarrow> good p X fds st'"
    proof (cases "begin_op st")
      case Sleeps
      then show ?thesis using IH[of w "w st" st'] b by (auto simp: others_ok_def)
    next
      case (Proceeds s)
      then show ?thesis using b good_same[OF more_same[OF begin_op_more[OF Proceeds]]] by simp
    qed
  qed
  then show ?thesis using assms(3) by blast
qed

section \<open>Closing\<close>

lemma kpool_same [same]: "files_same st (st\<lparr>kpool := km\<rparr>)"
  by (simp add: files_same_def dead_def)

lemma pipes_same [same]: "files_same st (st\<lparr>pipes := ps\<rparr>)"
  by (simp add: files_same_def dead_def pof_def)

lemma page_free_same: "page_free pa st = Some st' \<Longrightarrow> files_same st st'"
  by (auto simp: page_free_def Option.bind_eq_Some_conv same)

text \<open>Dropping a reference that is in nobody's descriptor.\<close>

lemma file_drop_inv:
  assumes i: "file_inv (add_mset f E) X st" and d: "file_drop f (ftab st) = Some (l, ft)"
  shows "file_inv E X (st\<lparr>ftab := ft\<rparr>)" and "l = Some ff \<Longrightarrow> ftyp ff = ftyp (ftab st f) \<and> E - {#f#} = E"
proof -
  let ?st = "st\<lparr>ftab := ft\<rparr>"
  have r: "refs ?st g = refs st g" for g by (simp add: refs_def)
  have c: "fref (ftab st g) = int (card (refs st g - X) + count (add_mset f E) g)" for g
    using i by (simp add: file_inv_def)
  have ft: "fref (ft g) = int (card (refs st g - X) + count E g)" for g
    using d c[of g] by (auto simp: file_drop_def Let_def split: if_splits)
  have last: "refs st f - X = {} \<and> f \<notin># E" if "fref (ft f) = 0"
  proof -
    have "card (refs st f - X) = 0" "count E f = 0" using ft[of f] that by linarith+
    then show ?thesis by (simp add: not_in_iff)
  qed
  have same: "ftyp (ft g) = ftyp (ftab st g)" if "g \<noteq> f \<or> fref (ft f) \<noteq> 0" for g
    using d that by (auto simp: file_drop_def Let_def split: if_splits)
  have none: "ftyp (ft f) = FD_NONE" if "fref (ft f) = 0"
    using d that by (auto simp: file_drop_def Let_def split: if_splits)
  show "file_inv E X ?st" unfolding file_inv_def
  proof (intro conjI allI impI)
    show "fref (ftab ?st g) = int (card (refs ?st g - X) + count E g)" for g using ft r by simp
  next
    fix q fd g assume h: "pofile (pof ?st q) fd = Some g"
    then have b: "q < NPROC" "fd < NOFILE" "(q, fd) \<notin> X \<longrightarrow> g < NFILE \<and> ftyp (ftab st g) \<noteq> FD_NONE"
      using i by (simp_all add: file_inv_def)
    then show "q < NPROC" "fd < NOFILE" by simp_all
    assume x: "(q, fd) \<notin> X"
    then show "g < NFILE" using b by simp
    have "(q, fd) \<in> refs st g" using h b by (simp add: refs_def)
    then have "\<not> (g = f \<and> fref (ft f) = 0)" using last x by blast
    then show "ftyp (ftab ?st g) \<noteq> FD_NONE" using same b x by auto
  next
    fix g assume "fref (ftab ?st g) = 0"
    then show "ftyp (ftab ?st g) = FD_NONE"
      using none same[of g] i ft[of g] c[of g] by (cases "g = f") (auto simp: file_inv_def)
  qed (use i in \<open>auto simp: file_inv_def dead_def\<close>)
  assume "l = Some ff"
  then have "ftyp ff = ftyp (ftab st f)" "fref (ft f) = 0"
    using d by (auto simp: file_drop_def Let_def split: if_splits)
  then show "ftyp ff = ftyp (ftab st f) \<and> E - {#f#} = E" using last by (simp add: diff_single_trivial)
qed

lemma fileclose_inv:
  assumes c: "fileclose w f st = Some st'" and i: "file_inv (add_mset f E) X st" and q: "pofile (pof st p) = fds" "\<not> dead st p"
    and w: "others_ok p w" and E: "E = {#} \<or> ftyp (ftab st f) = FD_NONE \<or> ftyp (ftab st f) = FD_PIPE"
  shows "file_inv E X st' \<and> pofile (pof st' p) = fds \<and> \<not> dead st' p"
proof -
  obtain l ft where d: "file_drop f (ftab st) = Some (l, ft)" using c by (auto simp: fileclose_def Option.bind_eq_Some_conv)
  let ?st = "st\<lparr>ftab := ft\<rparr>"
  have i1: "file_inv E X ?st" by (rule file_drop_inv(1)[OF i d])
  have q1: "pofile (pof ?st p) = fds" "\<not> dead ?st p" using q by (simp_all add: dead_def)
  have fin: ?thesis if "files_same ?st st'"
    using files_same_inv[OF that i1] that q1 by (auto simp: files_same_def)
  show ?thesis
  proof (cases l)
    case None
    then show ?thesis using c d fin by (simp add: fileclose_def)
  next
    case (Some ff)
    have t: "ftyp ff = ftyp (ftab st f)" using file_drop_inv(2)[OF i d Some] by blast
    consider (pipe) "ftyp ff = FD_PIPE" | (disk) "ftyp ff = FD_INODE \<or> ftyp ff = FD_DEVICE" | (none) "ftyp ff = FD_NONE"
      by (cases "ftyp ff") auto
    then show ?thesis
    proof cases
      case pipe
      obtain pi freed where "pipeclose (fwritable ff) (pipes st (fpipe ff)) = (pi, freed)" by force
      then have "(if freed then page_free (fpipe ff) (?st\<lparr>pipes := (pipes st)(fpipe ff := pi)\<rparr>)
          else Some (?st\<lparr>pipes := (pipes st)(fpipe ff := pi)\<rparr>)) = Some st'"
        using c d Some pipe by (simp add: fileclose_def Let_def)
      then have "files_same ?st st'"
        using files_same_trans[OF pipes_same page_free_same] pipes_same by (metis option.inject)
      then show ?thesis by (rule fin)
    next
      case disk
      then have "E = {#}" using E t by auto
      then have g: "good p X fds ?st" using i1 q1 by (simp add: good_def)
      from disk obtain s1 s2 where s: "begin_wait w ?st = Some s1" "iput (fip ff) s1 = Some s2" "end_op s2 = Some st'"
        using c d Some by (auto simp: fileclose_def Let_def Option.bind_eq_Some_conv split: if_splits)
      have "good p X fds st'"
        by (rule good_same[OF more_same[OF end_op_more[OF s(3)]]], rule good_same[OF more_same[OF iput_more[OF s(2)]]],
            rule begin_wait_good[OF s(1) w g])
      then show ?thesis using \<open>E = {#}\<close> by (simp add: good_def)
    next
      case none
      then show ?thesis using c d Some fin by (simp add: fileclose_def)
    qed
  qed
qed

section \<open>Descriptors\<close>

lemma fdset_simps [simp]: "ftab (fdset p fd v st) = ftab st"
  "pofile (pof (fdset p fd v st) q) i = (if q = p \<and> i = fd then v else pofile (pof st q) i)"
  "dead (fdset p fd v st) q = dead st q" "ppagetable (pof (fdset p fd v st) q) = ppagetable (pof st q)"
  "kpool (fdset p fd v st) = kpool st"
  by (auto simp: fdset_def pupd_def pof_def pset_def dead_def)

lemma filedup_inv:
  "filedup f (ftab st) = Some ft \<Longrightarrow> file_inv E X st \<Longrightarrow> file_inv (add_mset f E) X (st\<lparr>ftab := ft\<rparr>)"
  by (auto simp: filedup_def file_inv_def dead_def refs_def split: if_splits)

lemma filealloc_inv:
  assumes "filealloc (ftab st) = Some (f, ft)" and i: "file_inv E X st"
  shows "file_inv (add_mset f E) X (st\<lparr>ftab := ft\<rparr>)" and "f < NFILE" and "ftyp (ft f) = FD_NONE" "fref (ft f) = 1"
proof -
  note a = filealloc_SomeD[OF assms(1)]
  show "f < NFILE" "ftyp (ft f) = FD_NONE" "fref (ft f) = 1" using a i by (simp_all add: file_inv_def)
  have "ftyp (ft g) = ftyp (ftab st g)" for g using a(3) by simp
  moreover have "refs (st\<lparr>ftab := ft\<rparr>) g = refs st g" for g by (simp add: refs_def)
  ultimately show "file_inv (add_mset f E) X (st\<lparr>ftab := ft\<rparr>)"
    using i a(2,3) unfolding file_inv_def by (auto simp: dead_def)
qed

text \<open>A reference goes into an empty descriptor; the entry may get its type at the same time.\<close>

lemma install_inv:
  assumes i: "file_inv (add_mset f E) X st" and fd: "pofile (pof st p) fd = None" "p < NPROC" "fd < NOFILE" "\<not> dead st p"
    and x: "(p, fd) \<notin> X" and f: "f < NFILE"
    and ft: "\<And>g. fref (ft g) = fref (ftab st g)" "\<And>g. g \<noteq> f \<Longrightarrow> ftyp (ft g) = ftyp (ftab st g)" "ftyp (ft f) \<noteq> FD_NONE"
  shows "file_inv E X ((fdset p fd (Some f) st)\<lparr>ftab := ft\<rparr>)"
proof -
  let ?st = "(fdset p fd (Some f) st)\<lparr>ftab := ft\<rparr>"
  have r: "refs ?st g = (if g = f then insert (p, fd) (refs st g) else refs st g)" for g
    using fd by (auto simp: refs_def split: if_splits)
  have n: "(p, fd) \<notin> refs st f" using fd(1) by (simp add: refs_def)
  have "card (refs ?st g - X) + count E g = card (refs st g - X) + count (add_mset f E) g" for g
    using n x by (auto simp: r insert_Diff_if)
  moreover have "fref (ftab st g) = int (card (refs st g - X) + count (add_mset f E) g)" for g
    using i by (simp add: file_inv_def)
  ultimately have 1: "fref (ftab ?st g) = int (card (refs ?st g - X) + count E g)" for g
    using ft(1) by simp
  have 2: "q < NPROC \<and> j < NOFILE \<and> ((q, j) \<notin> X \<longrightarrow> g < NFILE \<and> ftyp (ftab ?st g) \<noteq> FD_NONE)"
    if "pofile (pof ?st q) j = Some g" for q j g
    using that i fd f ft(2,3) by (cases "g = f"; auto simp: file_inv_def split: if_splits)
  have 3: "ftyp (ftab ?st g) = FD_NONE" if "fref (ftab ?st g) = 0" for g
  proof -
    have "g \<noteq> f" using that i ft(1) by (auto simp: file_inv_def)
    then show ?thesis using that i ft by (simp add: file_inv_def)
  qed
  have 4: "pofile (pof ?st q) j = None" if "dead ?st q" for q j
    using that fd(4) file_invD(4)[OF i, of q j] by (auto split: if_splits)
  show ?thesis unfolding file_inv_def using 1 2 3 4 by blast
qed

text \<open>A descriptor is cleared, and its reference is left over.\<close>

lemma clear_inv:
  assumes i: "file_inv E X st" and f: "pofile (pof st p) fd = Some f" and x: "(p, fd) \<notin> X"
  shows "file_inv (add_mset f E) X (fdset p fd None st)"
proof -
  let ?st = "fdset p fd None st"
  have r: "refs ?st g = refs st g - {(p, fd)}" for g by (auto simp: refs_def)
  have fr: "(p, fd) \<in> refs st g \<longleftrightarrow> g = f" for g using i f by (auto simp: refs_def file_inv_def)
  have "card (refs st g - X) = card (refs ?st g - X) + (if g = f then 1 else 0)" for g
  proof (cases "g = f")
    case True
    then have "(p, fd) \<in> refs st g - X" using fr x by simp
    then have "card (refs st g - X) = Suc (card (refs st g - X - {(p, fd)}))"
      using card.remove[of "refs st g - X" "(p, fd)"] by simp
    moreover have "refs ?st g - X = refs st g - X - {(p, fd)}" using r by auto
    ultimately show ?thesis using True by simp
  next
    case False
    then show ?thesis using fr r by simp
  qed
  then have "fref (ftab ?st g) = int (card (refs ?st g - X) + count (add_mset f E) g)" for g
    using file_invD(1)[OF i, of g] by simp
  then show ?thesis
    by (rule file_invI) (use file_invD(2-)[OF i] in \<open>auto split: if_splits\<close>)
qed

text \<open>\<open>exit\<close>: the reference of a descriptor is dropped before the descriptor is cleared.\<close>

lemma hide_inv:
  assumes i: "file_inv E {} st" and f: "pofile (pof st p) fd = Some f"
  shows "file_inv (add_mset f E) {(p, fd)} st"
proof -
  have fr: "(p, fd) \<in> refs st g \<longleftrightarrow> g = f" for g using i f by (auto simp: refs_def file_inv_def)
  have "card (refs st g) + count E g = card (refs st g - {(p, fd)}) + count (add_mset f E) g" for g
    using fr[of g] card.remove[of "refs st g" "(p, fd)"] by (cases "g = f") auto
  then have "fref (ftab st g) = int (card (refs st g - {(p, fd)}) + count (add_mset f E) g)" for g
    using file_invD(1)[OF i, of g] by simp
  then show ?thesis by (rule file_invI) (use file_invD(2-)[OF i] in auto)
qed

lemma unhide_inv: "file_inv E {(p, fd)} st \<Longrightarrow> file_inv E {} (fdset p fd None st)"
proof -
  assume i: "file_inv E {(p, fd)} st"
  have "refs (fdset p fd None st) g = refs st g - {(p, fd)}" for g by (auto simp: refs_def)
  then have "fref (ftab (fdset p fd None st) g) = int (card (refs (fdset p fd None st) g - {}) + count E g)" for g
    using file_invD(1)[OF i, of g] by simp
  then show ?thesis by (rule file_invI) (use file_invD(2-)[OF i] in \<open>auto split: if_splits\<close>)
qed

section \<open>Reading, writing and pipes\<close>

lemma ftab_same: "(\<And>g. fref (ft g) = fref (ftab st g) \<and> ftyp (ft g) = ftyp (ftab st g)) \<Longrightarrow> files_same st (st\<lparr>ftab := ft\<rparr>)"
  by (simp add: files_same_def)

lemma off_same: "files_same st (st\<lparr>ftab := (ftab st)(f := (ftab st f)\<lparr>foff := v\<rparr>)\<rparr>)"
  by (rule ftab_same) simp

lemma fileread_same:
  assumes "fileread devs killed cp f addr n st m = Some (r, st', m')"
  shows "files_same st (st' :: 'a kst_scheme)"
proof (cases "freadable (ftab st f)")
  case True
  show ?thesis
  proof (cases "ftyp (ftab st f)")
    case FD_INODE
    let ?ip = "fip (ftab st f)"
    obtain s1 s2 v where s: "ilock ?ip st = Some s1" "readi ?ip cp addr (foff (ftab st f)) (of_int n) s1 m = Some (v, s2, m')"
      "iunlock ?ip (if v > 0 then s2\<lparr>ftab := (ftab s2)(f := (ftab st f)\<lparr>foff := foff (ftab st f) + of_int v\<rparr>)\<rparr> else s2) = Some st'"
      using assms True FD_INODE by (auto simp: fileread_def Let_def Option.bind_eq_Some_conv)
    have m: "fsst.more s2 = fsst.more st" using ilock_more[OF s(1)] readi_more[OF s(2)] by simp
    then have ft: "ftab s2 = ftab st" by (rule fsst_more_kst(1))
    have "files_same st (if v > 0 then s2\<lparr>ftab := (ftab s2)(f := (ftab st f)\<lparr>foff := foff (ftab st f) + of_int v\<rparr>)\<rparr> else s2)"
      using files_same_trans[OF more_same[OF m] off_same[of s2 f]] more_same[OF m] ft by simp
    then show ?thesis by (rule files_same_trans) (rule more_same[OF iunlock_more[OF s(3)]])
  qed (use assms True in \<open>auto simp: fileread_def Let_def same split: prod.splits if_splits\<close>)
qed (use assms in \<open>simp add: fileread_def Let_def\<close>)

lemma filestat_same:
  assumes "filestat pad cp f addr st m = Some (r, st', m')"
  shows "files_same st (st' :: 'a kst_scheme)"
proof (cases "ftyp (ftab st f) = FD_INODE \<or> ftyp (ftab st f) = FD_DEVICE")
  case True
  then obtain s1 s2 where s: "ilock (fip (ftab st f)) st = Some s1" "iunlock (fip (ftab st f)) s1 = Some s2"
    "(case cp addr (stat_bytes pad (stati (fip (ftab st f)) s1)) m of
       (False, m') \<Rightarrow> Some (-1, s2, m') | (True, m') \<Rightarrow> Some (0, s2, m')) = Some (r, st', m')"
    using assms by (auto simp: filestat_def frame_simps)
  obtain ok m1 where "cp addr (stat_bytes pad (stati (fip (ftab st f)) s1)) m = (ok, m1)" by force
  then have "s2 = st'" using s(3) by (cases ok) simp_all
  then have "iunlock (fip (ftab st f)) s1 = Some st'" using s(2) by simp
  with s(1) show ?thesis using ilock_more iunlock_more more_same by metis
qed (use assms in \<open>simp add: filestat_def Let_def\<close>)

lemma write_chunk_good:
  assumes c: "write_chunk w ci f addr n1 st = Some (r, st')" and w: "others_ok p w" and g: "good p X fds st"
  shows "good p X fds (st' :: 'a kst_scheme)"
proof -
  let ?ip = "fip (ftab st f)"
  obtain s1 s2 s3 s4 where s: "begin_wait w st = Some s1" "ilock ?ip s1 = Some s2"
    "writei ?ip ci addr (foff (ftab s2 f)) (of_int n1) s2 = Some (r, s3)"
    "iunlock ?ip (if r > 0 then s3\<lparr>ftab := (ftab s3)(f := (ftab s3 f)\<lparr>foff := foff (ftab s3 f) + of_int r\<rparr>)\<rparr> else s3) = Some s4"
    "end_op s4 = Some st'"
    using c by (auto simp: write_chunk_def Let_def Option.bind_eq_Some_conv)
  have g3: "good p X fds s3"
    by (rule good_same[OF more_same[OF writei_more[OF s(3)]]], rule good_same[OF more_same[OF ilock_more[OF s(2)]]],
        rule begin_wait_good[OF s(1) w g])
  then have "good p X fds (if r > 0 then s3\<lparr>ftab := (ftab s3)(f := (ftab s3 f)\<lparr>foff := foff (ftab s3 f) + of_int r\<rparr>)\<rparr> else s3)"
    using good_same[OF off_same[of s3 f "foff (ftab s3 f) + of_int r"] g3] by simp
  then show ?thesis
    using good_same[OF more_same[OF iunlock_more[OF s(4)]]] good_same[OF more_same[OF end_op_more[OF s(5)]]] by blast
qed

lemma filewrite_loop_good:
  "filewrite_loop w ci f addr n i st = Some (r, st') \<Longrightarrow> others_ok p w \<Longrightarrow> good p X fds st \<Longrightarrow> good p X fds (st' :: 'a kst_scheme)"
proof (induction w ci f addr n i st rule: filewrite_loop.induct)
  case (1 w ci f addr n i st)
  show ?case
  proof (cases "i < n")
    case True
    define n1 where "n1 = (if n - i > WRITE_MAX then WRITE_MAX else n - i)"
    obtain v s1 where c: "write_chunk w ci f (addr + nat i) n1 st = Some (v, s1)"
      using "1.prems"(1) True by (subst (asm) filewrite_loop.simps) (auto simp: n1_def Let_def Option.bind_eq_Some_conv)
    have g: "good p X fds s1" by (rule write_chunk_good[OF c "1.prems"(2,3)])
    show ?thesis
    proof (cases "v = n1")
      case True
      then have "filewrite_loop w ci f addr n (i + v) s1 = Some (r, st')"
        using "1.prems"(1) \<open>i < n\<close> c by (subst (asm) filewrite_loop.simps) (simp add: n1_def Let_def)
      then show ?thesis using "1.IH"[OF \<open>i < n\<close> n1_def c refl] True "1.prems"(2) g by simp
    next
      case False
      then show ?thesis using "1.prems"(1) \<open>i < n\<close> c g by (subst (asm) filewrite_loop.simps) (simp add: n1_def Let_def)
    qed
  qed (use "1.prems" in \<open>simp add: filewrite_loop.simps\<close>)
qed

lemma filewrite_good:
  assumes "filewrite w devs killed ci f addr n st m = Some (r, st', m')" and w: "others_ok p w" and g: "good p X fds st"
  shows "good p X fds (st' :: 'a kst_scheme)"
proof (cases "fwritable (ftab st f)")
  case True
  show ?thesis
  proof (cases "ftyp (ftab st f)")
    case FD_INODE
    then show ?thesis using assms(1) True filewrite_loop_good[OF _ w g]
      by (auto simp: filewrite_def Let_def Option.bind_eq_Some_conv)
  next
    case FD_PIPE
    then show ?thesis using assms(1) True good_same[OF pipes_same g]
      by (auto simp: filewrite_def Let_def split: prod.splits)
  next
    case FD_DEVICE
    then show ?thesis using assms(1) True g by (auto simp: filewrite_def Let_def split: prod.splits if_splits)
  qed (use assms(1) True in \<open>simp add: filewrite_def Let_def\<close>)
qed (use assms(1) g in \<open>simp add: filewrite_def Let_def\<close>)

text \<open>As \<open>good\<close>, with the references \<open>E\<close> in flight.\<close>

definition held_ok :: "nat \<Rightarrow> nat multiset \<Rightarrow> (nat \<Rightarrow> nat option) \<Rightarrow> 'a kst_scheme \<Rightarrow> bool" where
  "held_ok p E fds st \<longleftrightarrow> file_inv E {} st \<and> pofile (pof st p) = fds \<and> \<not> dead st p"

lemma good_held: "good p {} fds st \<longleftrightarrow> held_ok p {#} fds st"
  by (simp add: good_def held_ok_def)

lemma held_same: "files_same st st' \<Longrightarrow> held_ok p E fds st \<Longrightarrow> held_ok p E fds st'"
  using files_same_inv unfolding held_ok_def files_same_def by metis

lemma fileclose_held:
  "fileclose w f st = Some st' \<Longrightarrow> held_ok p (add_mset f E) fds st \<Longrightarrow> others_ok p w
    \<Longrightarrow> E = {#} \<or> ftyp (ftab st f) = FD_NONE \<or> ftyp (ftab st f) = FD_PIPE \<Longrightarrow> held_ok p E fds (st' :: 'a kst_scheme)"
  using fileclose_inv unfolding held_ok_def by blast

lemma filealloc_held:
  assumes "filealloc (ftab st) = Some (f, ft)" "held_ok p E fds st"
  shows "held_ok p (add_mset f E) fds (st\<lparr>ftab := ft\<rparr>)" "f < NFILE" "ftyp (ft f) = FD_NONE" "fref (ft f) = 1"
  using assms(2) filealloc_inv[OF assms(1), of E "{}"] unfolding held_ok_def by simp_all

text \<open>\<open>fileclose\<close> of an entry that has no type yet, or of a pipe, does not wait and changes no other entry's type.\<close>

lemma fileclose_types:
  assumes "fileclose w f st = Some st'" "ftyp (ftab st f) = FD_NONE \<or> ftyp (ftab st f) = FD_PIPE"
  shows "\<forall>g. g \<noteq> f \<longrightarrow> ftyp (ftab (st' :: 'a kst_scheme) g) = ftyp (ftab st g)"
proof -
  have pf: "ftab s' = ftab s" if "page_free pa s = Some s'" for pa and s s' :: "'a kst_scheme"
    using that by (auto simp: page_free_def Option.bind_eq_Some_conv)
  obtain l ft where d: "file_drop f (ftab st) = Some (l, ft)" using assms(1) by (auto simp: fileclose_def Option.bind_eq_Some_conv)
  then have "\<forall>g. g \<noteq> f \<longrightarrow> ftyp (ft g) = ftyp (ftab st g)" "\<forall>ff. l = Some ff \<longrightarrow> ftyp ff = ftyp (ftab st f)"
    by (auto simp: file_drop_def Let_def split: if_splits)
  moreover have "ftab st' = ft"
  proof (cases l)
    case None
    then show ?thesis using assms(1) d by (auto simp: fileclose_def)
  next
    case (Some ff)
    obtain pi freed where p: "pipeclose (fwritable ff) (pipes st (fpipe ff)) = (pi, freed)" by force
    have "ftyp ff = FD_NONE \<or> ftyp ff = FD_PIPE" using calculation(2) Some assms(2) by simp
    then show ?thesis using assms(1) d Some p
      by (auto simp: fileclose_def Let_def split: if_splits dest: pf)
  qed
  ultimately show ?thesis by simp
qed

lemma pipealloc_held:
  assumes c: "pipealloc w junk st = Some (r, st')" and w: "others_ok p w" and h: "held_ok p {#} fds st"
  shows "case r of None \<Rightarrow> held_ok p {#} fds (st' :: 'a kst_scheme)
    | Some (f0, f1) \<Rightarrow> held_ok p {#f0, f1#} fds st' \<and> f0 < NFILE \<and> f1 < NFILE \<and> ftyp (ftab st' f0) = FD_PIPE \<and> ftyp (ftab st' f1) = FD_PIPE"
proof (cases "filealloc (ftab st)")
  case None
  then show ?thesis using c h by (simp add: pipealloc_def)
next
  case (Some x)
  obtain f0 ft0 where x: "x = (f0, ft0)" by force
  note a0 = filealloc_held[OF Some[unfolded x] h]
  let ?s0 = "st\<lparr>ftab := ft0\<rparr>"
  show ?thesis
  proof (cases "filealloc ft0")
    case None
    then obtain "fileclose w f0 ?s0 = Some st'" "r = None"
      using c Some x by (auto simp: pipealloc_def Option.bind_eq_Some_conv)
    then show ?thesis using fileclose_held[OF _ a0(1) w] a0(3) by simp
  next
    case (Some y)
    obtain f1 ft1 where y: "y = (f1, ft1)" by force
    have "filealloc (ftab ?s0) = Some (f1, ft1)" using Some y by simp
    note a1 = filealloc_held[OF this a0(1)]
    note d1 = filealloc_SomeD[OF Some[unfolded y]]
    have ne: "f0 \<noteq> f1" using d1(2) a0(4) by auto
    obtain pi km where k: "kalloc (kpool st) = (pi, km)" by force
    let ?s1 = "st\<lparr>ftab := ft1, kpool := km\<rparr>"
    have h1: "held_ok p {#f0, f1#} fds ?s1"
      using held_same[OF kpool_same a1(1)] by (simp add: add_mset_commute)
    show ?thesis
    proof (cases "pi = 0")
      case True
      then obtain s2 where s: "fileclose w f0 ?s1 = Some s2" "fileclose w f1 s2 = Some st'" "r = None"
        using c \<open>filealloc (ftab st) = Some x\<close> x Some y k
        by (auto simp: pipealloc_def page_alloc_st_def Option.bind_eq_Some_conv)
      have t: "ftyp (ftab ?s1 f0) = FD_NONE" "ftyp (ftab ?s1 f1) = FD_NONE" using a0(3) a1(3) d1(3) ne by simp_all
      have "held_ok p {#f1#} fds s2" using fileclose_held[OF s(1) h1 w] t by simp
      then show ?thesis using fileclose_held[OF s(2) _ w] s(3) by simp
    next
      case False
      have st': "r = Some (f0, f1)" "st' = ?s1\<lparr>pipes := (pipes st)(pi := pipe_init junk), ftab := pipe_ends pi f0 f1 ft1\<rparr>"
        using c \<open>filealloc (ftab st) = Some x\<close> x Some y k False by (auto simp: pipealloc_def page_alloc_st_def)
      let ?s2 = "?s1\<lparr>pipes := (pipes st)(pi := pipe_init junk)\<rparr>"
      have h2: "held_ok p {#f0, f1#} fds ?s2" by (rule held_same[OF pipes_same h1])
      have e: "fref (pipe_ends pi f0 f1 ft1 g) = fref (ft1 g)"
        "ftyp (pipe_ends pi f0 f1 ft1 g) = (if g = f0 \<or> g = f1 then FD_PIPE else ftyp (ft1 g))" for g
        using ne by (auto simp: pipe_ends_def Let_def)
      have nz: "fref (ft1 f0) \<noteq> 0" "fref (ft1 f1) \<noteq> 0" using a0(4) a1(4) d1(3) ne by simp_all
      note i2 = h2[unfolded held_ok_def, THEN conjunct1]
      have r: "refs st' g = refs ?s2 g" for g by (simp add: refs_def st' pof_def)
      have po: "pof st' q = pof ?s2 q" "ftab st' = pipe_ends pi f0 f1 ft1" "ftab ?s2 = ft1" "dead st' q = dead ?s2 q" for q
        by (simp_all add: st' pof_def dead_def)
      have "file_inv {#f0, f1#} {} st'"
      proof (rule file_invI)
        show "fref (ftab st' g) = int (card (refs st' g - {}) + count {#f0, f1#} g)" for g
          using file_invD(1)[OF i2, of g] e po r by simp
        show "q < NPROC \<and> fd < NOFILE \<and> ((q, fd) \<notin> {} \<longrightarrow> g < NFILE \<and> ftyp (ftab st' g) \<noteq> FD_NONE)"
          if "pofile (pof st' q) fd = Some g" for q fd g
          using file_invD(2)[OF i2, of q fd g] that e po by simp
        show "ftyp (ftab st' g) = FD_NONE" if "fref (ftab st' g) = 0" for g
          using file_invD(3)[OF i2, of g] that e po nz by auto
        show "pofile (pof st' q) fd = None" if "dead st' q" for q fd
          using file_invD(4)[OF i2, of q fd] that po by simp
      qed
      then have "held_ok p {#f0, f1#} fds st'" using h2 po by (simp add: held_ok_def)
      then show ?thesis using st' a0(2) a1(2) ne by (auto simp: pipe_ends_def Let_def)
    qed
  qed
qed

section \<open>The calls on files\<close>

text \<open>Between calls: nothing in flight, and process \<open>p\<close> runs.\<close>

definition fine :: "nat \<Rightarrow> 'a kst_scheme \<Rightarrow> bool" where
  "fine p st \<longleftrightarrow> file_inv {#} {} st \<and> \<not> dead st p"

lemma fine_held: "fine p st \<longleftrightarrow> held_ok p {#} (pofile (pof st p)) st"
  by (simp add: fine_def held_ok_def)

lemma held_fine: "held_ok p {#} fds st \<Longrightarrow> fine p st"
  by (simp add: fine_def held_ok_def)

lemma fine_same: "files_same st st' \<Longrightarrow> fine p st \<Longrightarrow> fine p st'"
  using held_same held_fine unfolding fine_held by blast

lemma fine_more: "fsst.more (st' :: 'a kst_scheme) = fsst.more st \<Longrightarrow> fine p st \<Longrightarrow> fine p st'"
  using fine_same more_same by blast

lemma begin_wait_fine: "begin_wait w st = Some st' \<Longrightarrow> others_ok p w \<Longrightarrow> fine p st \<Longrightarrow> fine p (st' :: 'a kst_scheme)"
  using begin_wait_good[of w st st' p "{}"] held_fine unfolding fine_held good_held by blast

lemma argfd_SomeD: "argfd p n st = Some (Some (fd, f)) \<Longrightarrow> fd < NOFILE \<and> pofile (pof st p) fd = Some f"
  by (auto simp: argfd_def Option.bind_eq_Some_conv split: if_splits option.splits)

lemma fdalloc_SomeD:
  "fdalloc p f st = Some (fd, st') \<Longrightarrow> fd < NOFILE \<and> pofile (pof st p) fd = None \<and> st' = fdset p fd (Some f) st"
  by (auto simp: fdalloc_def find_Some_iff split: option.splits)

lemma fdset_ftab: "(fdset p fd v (st\<lparr>ftab := ft\<rparr>))\<lparr>ftab := ft'\<rparr> = (fdset p fd v st)\<lparr>ftab := ft'\<rparr>"
  by (simp add: fdset_def pupd_def)

lemma sys_dup_fine:
  assumes c: "sys_dup p st = Some (r, st')" and f: "fine p st" and p: "p < NPROC"
  shows "fine p st'"
proof -
  obtain a where a: "argfd p 0 st = Some a" using c by (auto simp: sys_dup_def Option.bind_eq_Some_conv)
  show ?thesis
  proof (cases a)
    case (Some x)
    obtain fd0 g where x: "x = (fd0, g)" by force
    note o1 = argfd_SomeD[OF a[unfolded Some x]]
    show ?thesis
    proof (cases "fdalloc p g st")
      case None
      then show ?thesis using c a Some x f by (auto simp: sys_dup_def ret_def)
    next
      case (Some y)
      obtain fd st1 where y: "y = (fd, st1)" by force
      note d = fdalloc_SomeD[OF Some[unfolded y]]
      obtain ft where ft: "filedup g (ftab st) = Some ft" "st' = (fdset p fd (Some g) st)\<lparr>ftab := ft\<rparr>"
        using c a \<open>a = Some x\<close> x Some y d by (auto simp: sys_dup_def ret_def Option.bind_eq_Some_conv)
      have i: "file_inv {#} {} st" and nd: "\<not> dead st p" using f by (simp_all add: fine_def)
      have g: "g < NFILE" "ftyp (ftab st g) \<noteq> FD_NONE" using file_invD(2)[OF i] o1 by blast+
      have t: "ftyp (ft h) = ftyp (ftab st h)" for h using ft(1) by (auto simp: filedup_def split: if_splits)
      have "file_inv {#} {} ((fdset p fd (Some g) (st\<lparr>ftab := ft\<rparr>))\<lparr>ftab := ft\<rparr>)"
        by (rule install_inv[OF filedup_inv[OF ft(1) i]]) (use d p nd g t in auto)
      then show ?thesis using ft(2) nd by (simp add: fine_def fdset_ftab)
    qed
  qed (use c a f in \<open>simp add: sys_dup_def ret_def\<close>)
qed

lemma sys_read_fine: "sys_read devs p st = Some (r, st') \<Longrightarrow> fine p st \<Longrightarrow> fine p st'"
  by (auto simp: sys_read_def ret_def Option.bind_eq_Some_conv split: option.splits
      intro: fine_same[OF files_same_trans[OF fileread_same kpool_same]])

lemma sys_fstat_fine: "sys_fstat pad p st = Some (r, st') \<Longrightarrow> fine p st \<Longrightarrow> fine p st'"
  by (auto simp: sys_fstat_def ret_def Option.bind_eq_Some_conv split: option.splits
      intro: fine_same[OF files_same_trans[OF filestat_same kpool_same]])

lemma sys_write_fine:
  assumes c: "sys_write w devs p st = Some (r, st')" and f: "fine p st" and w: "others_ok p w"
  shows "fine p st'"
proof -
  have "fine p (s1\<lparr>kpool := km\<rparr>)" if "filewrite w devs k ci g ad n st m = Some (v, s1, km)" for k ci g ad n m v s1 km
  proof -
    have "good p {} (pofile (pof st p)) s1"
      by (rule filewrite_good[OF that w]) (use f in \<open>simp add: good_held fine_held\<close>)
    then show ?thesis using fine_same[OF kpool_same] held_fine good_held by blast
  qed
  then show ?thesis using c f
    by (auto simp: sys_write_def ret_def Option.bind_eq_Some_conv split: option.splits)
qed

lemma sys_close_fine:
  assumes c: "sys_close w p st = Some (r, st')" and f: "fine p st" and w: "others_ok p w"
  shows "fine p st'"
proof -
  obtain a where a: "argfd p 0 st = Some a" using c by (auto simp: sys_close_def Option.bind_eq_Some_conv)
  show ?thesis
  proof (cases a)
    case (Some x)
    obtain fd g where x: "x = (fd, g)" by force
    have o1: "pofile (pof st p) fd = Some g" using argfd_SomeD[OF a[unfolded Some x]] by simp
    have cl: "fileclose w g (fdset p fd None st) = Some st'"
      using c a Some x by (auto simp: sys_close_def ret_def Option.bind_eq_Some_conv)
    have "held_ok p (add_mset g {#}) (pofile (pof (fdset p fd None st) p)) (fdset p fd None st)"
      using clear_inv[OF _ o1] f by (simp add: held_ok_def fine_def)
    from fileclose_held[OF cl this w] show ?thesis using held_fine by blast
  qed (use c a f in \<open>simp add: sys_close_def ret_def\<close>)
qed

lemma sys_link_fine:
  assumes c: "sys_link w p st = Some (r, st')" and f: "fine p st" and w: "others_ok p w"
  shows "fine p st'"
proof -
  obtain a b where ab: "argstr p 0 MAXPATH st = Some a" "argstr p 1 MAXPATH st = Some b"
    using c by (auto simp: sys_link_def Option.bind_eq_Some_conv)
  show ?thesis using c ab f
    by (cases a; cases b)
      (auto simp: sys_link_def ret_def Option.bind_eq_Some_conv intro: fine_more[OF do_link_more begin_wait_fine[OF _ w]])
qed

lemma sys_unlink_fine: "sys_unlink w p st = Some (r, st') \<Longrightarrow> fine p st \<Longrightarrow> others_ok p w \<Longrightarrow> fine p st'"
  by (auto simp: sys_unlink_def ret_def Option.bind_eq_Some_conv split: option.splits
      intro: fine_more[OF do_unlink_more begin_wait_fine])

lemma sys_mkdir_fine: "sys_mkdir w p st = Some (r, st') \<Longrightarrow> fine p st \<Longrightarrow> others_ok p w \<Longrightarrow> fine p st'"
  by (auto simp: sys_mkdir_def Option.bind_eq_Some_conv intro: fine_more[OF make_node_more begin_wait_fine])

lemma sys_mknod_fine: "sys_mknod w p st = Some (r, st') \<Longrightarrow> fine p st \<Longrightarrow> others_ok p w \<Longrightarrow> fine p st'"
  by (auto simp: sys_mknod_def Option.bind_eq_Some_conv intro: fine_more[OF make_node_more begin_wait_fine])

lemma pupd_same: "(\<And>q. pofile (f q) = pofile q \<and> pstate (f q) = pstate q) \<Longrightarrow> files_same st (pupd p f st)"
  by (simp add: files_same_def dead_def pof_def pupd_def pset_def)

lemma sys_chdir_fine:
  assumes c: "sys_chdir w p st = Some (r, st')" and f: "fine p st" and w: "others_ok p w"
  shows "fine p st'"
proof -
  obtain s1 where s1: "begin_wait w st = Some s1" using c by (auto simp: sys_chdir_def Option.bind_eq_Some_conv)
  have f1: "fine p s1" by (rule begin_wait_fine[OF s1 w f])
  have "fsst.more st' = fsst.more s1 \<or> (\<exists>s2 ip. fsst.more s2 = fsst.more s1 \<and> st' = pupd p (pcwd_update (\<lambda>_. ip)) s2)"
    using c s1 by (auto simp: sys_chdir_def ret_def Option.bind_eq_Some_conv
        dest!: fs_more split: option.splits if_splits) blast
  then show ?thesis
  proof
    assume "fsst.more st' = fsst.more s1"
    then show ?thesis using fine_more f1 by blast
  next
    assume "\<exists>s2 ip. fsst.more s2 = fsst.more s1 \<and> st' = pupd p (pcwd_update (\<lambda>_. ip)) s2"
    then obtain s2 ip where s2: "fsst.more s2 = fsst.more s1" "st' = pupd p (pcwd_update (\<lambda>_. ip)) s2" by blast
    have "files_same s2 st'" unfolding s2(2) by (rule pupd_same) simp
    then show ?thesis using fine_more[OF s2(1) f1] fine_same by blast
  qed
qed

section \<open>\<open>open\<close>, \<open>pipe\<close> and \<open>exec\<close>\<close>

lemma do_open_fine:
  assumes c: "do_open w p path omode st = Some (r, st')" and f: "fine p st" and w: "others_ok p w" and p: "p < NPROC"
  shows "fine p st'"
proof -
  obtain a s1 where a: "open_inode p path omode st = Some (a, s1)" using c by (auto simp: do_open_def Option.bind_eq_Some_conv)
  have f1: "fine p s1" by (rule fine_more[OF open_inode_more[OF a] f])
  show ?thesis
  proof (cases a)
    case None
    then show ?thesis using c a f1
      by (auto simp: do_open_def ret_def Option.bind_eq_Some_conv intro: fine_more[OF end_op_more])
  next
    case (Some ip)
    let ?bad = "itype (itab s1 ip) = T_DEVICE \<and> (sint (imajor (itab s1 ip)) < 0 \<or> sint (imajor (itab s1 ip)) \<ge> int NDEV)"
    show ?thesis
    proof (cases "?bad \<or> filealloc (ftab s1) = None")
      case True
      then have "put_bad ip s1 = Some (r, st')" using c a Some by (auto simp: do_open_def split: if_splits)
      then show ?thesis using fine_more[OF put_bad_more] f1 by blast
    next
      case False
      then obtain g ft where g: "filealloc (ftab s1) = Some (g, ft)" by auto
      let ?s = "s1\<lparr>ftab := ft\<rparr>"
      have h1: "held_ok p {#} (pofile (pof s1 p)) s1" using f1 by (simp add: fine_held)
      note al = filealloc_held[OF g h1]
      show ?thesis
      proof (cases "fdalloc p g ?s")
        case None
        then obtain s2 where s2: "fileclose w g ?s = Some s2" "put_bad ip s2 = Some (r, st')"
          using c a Some False g by (auto simp: do_open_def Option.bind_eq_Some_conv)
        have "held_ok p {#} (pofile (pof s1 p)) s2"
          by (rule fileclose_held[OF s2(1) al(1) w]) (use al(3) in simp)
        then show ?thesis using held_fine fine_more[OF put_bad_more[OF s2(2)]] by blast
      next
        case (Some y)
        obtain fd s2 where y: "y = (fd, s2)" by force
        note d = fdalloc_SomeD[OF Some[unfolded y]]
        let ?o = "open_file g ip omode s2"
        have "(let st = ?o in do {
            st \<leftarrow> (if omode AND O_TRUNC \<noteq> 0 \<and> itype (itab st ip) = T_FILE then itrunc ip st else Some st);
            st \<leftarrow> iunlock ip st; st \<leftarrow> end_op st; ret (int fd) st }) = Some (r, st')"
          using c a \<open>a = Some ip\<close> False g Some y unfolding do_open_def
          by (cases "itype (itab s1 ip) = T_DEVICE") (simp_all add: Let_def split del: if_split)
        then obtain s3 s4 where s: "(if omode AND O_TRUNC \<noteq> 0 \<and> itype (itab ?o ip) = T_FILE then itrunc ip ?o else Some ?o) = Some s3"
          "iunlock ip s3 = Some s4" "end_op s4 = Some st'"
          by (simp add: Let_def ret_def Option.bind_eq_Some_conv split del: if_split) blast
        have i: "file_inv {#g#} {} ?s" and nd: "\<not> dead s1 p" using al(1) by (simp_all add: held_ok_def)
        define ft2 where "ft2 = ftab ?o"
        have o: "?o = (fdset p fd (Some g) ?s)\<lparr>ftab := ft2\<rparr>" using d by (simp add: open_file_def ft2_def Let_def)
        have ft2: "fref (ft2 h) = fref (ft h)" "h \<noteq> g \<Longrightarrow> ftyp (ft2 h) = ftyp (ft h)" "ftyp (ft2 g) \<noteq> FD_NONE" for h
          using d by (auto simp: ft2_def open_file_def Let_def)
        have "file_inv {#} {} ?o" unfolding o
          by (rule install_inv[OF i]) (use d p nd al(2) ft2 in auto)
        then have "fine p ?o" using nd by (simp add: fine_def o)
        moreover have "fsst.more s3 = fsst.more ?o" using s(1) itrunc_more by (auto split: if_splits)
        ultimately show ?thesis
          using fine_more[OF end_op_more[OF s(3)]] fine_more[OF iunlock_more[OF s(2)]] fine_more by blast
      qed
    qed
  qed
qed

lemma sys_open_fine:
  assumes c: "sys_open w p st = Some (r, st')" and f: "fine p st" and w: "others_ok p w" and p: "p < NPROC"
  shows "fine p st'"
proof -
  obtain a where a: "argstr p 0 MAXPATH st = Some a" using c by (auto simp: sys_open_def Option.bind_eq_Some_conv)
  show ?thesis using c a f
    by (cases a) (auto simp: sys_open_def ret_def Option.bind_eq_Some_conv
        intro: do_open_fine[OF _ begin_wait_fine[OF _ w] w p])
qed

lemma pipe_bad_fine:
  assumes c: "pipe_bad w f0 f1 st = Some (r, st')" and h: "held_ok p {#f0, f1#} fds st" and w: "others_ok p w"
    and t: "ftyp (ftab st f0) = FD_PIPE" "ftyp (ftab st f1) = FD_PIPE"
  shows "fine p st'"
proof -
  obtain s1 where s: "fileclose w f0 st = Some s1" "fileclose w f1 s1 = Some st'"
    using c by (auto simp: pipe_bad_def ret_def Option.bind_eq_Some_conv)
  have "held_ok p {#f1#} fds s1" by (rule fileclose_held[OF s(1) h w]) (use t in simp)
  from fileclose_held[OF s(2) this w] show ?thesis using held_fine by blast
qed

lemma sys_pipe_fine:
  assumes c: "sys_pipe w junk p st = Some (r, st')" and f: "fine p st" and w: "others_ok p w" and p: "p < NPROC"
  shows "fine p st'"
proof -
  obtain addr where ad: "argaddr p 0 st = Some addr" using c by (auto simp: sys_pipe_def Option.bind_eq_Some_conv)
  obtain a s1 where a: "pipealloc w junk st = Some (a, s1)" using c by (auto simp: sys_pipe_def Option.bind_eq_Some_conv)
  have h0: "held_ok p {#} (pofile (pof st p)) st" using f by (simp add: fine_held)
  note pa = pipealloc_held[OF a w h0]
  show ?thesis
  proof (cases a)
    case None
    then show ?thesis using c ad a pa held_fine by (auto simp: sys_pipe_def ret_def)
  next
    case (Some x)
    obtain f0 f1 where x: "x = (f0, f1)" by force
    have h: "held_ok p {#f0, f1#} (pofile (pof st p)) s1" and lt: "f0 < NFILE" "f1 < NFILE"
      and t: "ftyp (ftab s1 f0) = FD_PIPE" "ftyp (ftab s1 f1) = FD_PIPE" using pa Some x by auto
    have i: "file_inv {#f0, f1#} {} s1" and nd: "\<not> dead s1 p" using h by (simp_all add: held_ok_def)
    show ?thesis
    proof (cases "fdalloc p f0 s1")
      case None
      then have "pipe_bad w f0 f1 s1 = Some (r, st')" using c ad a Some x by (simp add: sys_pipe_def)
      then show ?thesis using pipe_bad_fine[OF _ h w t] by blast
    next
      case (Some y)
      obtain fd0 s2 where y: "y = (fd0, s2)" by force
      note d0 = fdalloc_SomeD[OF Some[unfolded y]]
      have e2: "s2 = (fdset p fd0 (Some f0) s1)\<lparr>ftab := ftab s1\<rparr>" using d0 by (simp add: fdset_def pupd_def)
      have i2: "file_inv {#f1#} {} s2" unfolding e2
        by (rule install_inv[OF i]) (use d0 p nd lt t in auto)
      have nd2: "\<not> dead s2 p" using d0 nd by simp
      have o2: "pofile (pof s2 p) fd0 = Some f0" using d0 by simp
      have t2: "ftab s2 = ftab s1" using d0 by simp
      show ?thesis
      proof (cases "fdalloc p f1 s2")
        case None
        then have b: "pipe_bad w f0 f1 (fdset p fd0 None s2) = Some (r, st')" using c ad a \<open>a = Some x\<close> x Some y by (simp add: sys_pipe_def)
        have "held_ok p {#f0, f1#} (pofile (pof (fdset p fd0 None s2) p)) (fdset p fd0 None s2)"
          using clear_inv[OF i2 o2] nd2 by (simp add: held_ok_def)
        from pipe_bad_fine[OF b this w] show ?thesis using t t2 by simp
      next
        case (Some z)
        obtain fd1 s3 where z: "z = (fd1, s3)" by force
        note d1 = fdalloc_SomeD[OF Some[unfolded z]]
        have e3: "s3 = (fdset p fd1 (Some f1) s2)\<lparr>ftab := ftab s2\<rparr>" using d1 by (simp add: fdset_def pupd_def)
        have i3: "file_inv {#} {} s3" unfolding e3
          by (rule install_inv[OF i2]) (use d1 p nd2 lt t t2 in auto)
        have nd3: "\<not> dead s3 p" and t3: "ftab s3 = ftab s1" using d1 nd2 t2 by simp_all
        have ne: "fd0 \<noteq> fd1" using d1 o2 by auto
        obtain ok0 km0 ok km where cp: "copyout (ppagetable (pof s3 p)) addr (bytes32 (of_nat fd0)) (kpool s3) = (ok0, km0)"
          "(if ok0 then copyout (ppagetable (pof s3 p)) (addr + 4) (bytes32 (of_nat fd1)) km0 else (False, km0)) = (ok, km)"
          by (metis surj_pair)
        let ?s = "s3\<lparr>kpool := km\<rparr>"
        have fs: "fine p ?s" by (rule fine_same[OF kpool_same]) (use i3 nd3 in \<open>simp add: fine_def\<close>)
        have res: "(if ok then ret 0 ?s else pipe_bad w f0 f1 (fdset p fd1 None (fdset p fd0 None ?s))) = Some (r, st')"
          using c ad a \<open>a = Some x\<close> x \<open>fdalloc p f0 s1 = Some y\<close> y Some z cp by (simp add: sys_pipe_def Let_def)
        show ?thesis
        proof (cases ok)
          case True
          then show ?thesis using res fs by (simp add: ret_def)
        next
          case False
          have o3: "pofile (pof ?s p) fd0 = Some f0" using d1 o2 ne by simp
          have i4: "file_inv {#f0#} {} (fdset p fd0 None ?s)" using clear_inv[OF _ o3] fs by (simp add: fine_def)
          have "pofile (pof (fdset p fd0 None ?s) p) fd1 = Some f1" using d1 ne by simp
          from clear_inv[OF i4 this] have "file_inv {#f0, f1#} {} (fdset p fd1 None (fdset p fd0 None ?s))"
            by (simp add: add_mset_commute)
          then have "held_ok p {#f0, f1#} (pofile (pof (fdset p fd1 None (fdset p fd0 None ?s)) p)) (fdset p fd1 None (fdset p fd0 None ?s))"
            using fs by (simp add: held_ok_def fine_def)
          from pipe_bad_fine[OF _ this w] show ?thesis using res False t t3 by simp
        qed
      qed
    qed
  qed
qed

lemma same_kpool: "files_same st st1 \<Longrightarrow> files_same st (st1\<lparr>kpool := km\<rparr>)"
  using files_same_trans[OF _ kpool_same] .

lemma same_more: "files_same st st1 \<Longrightarrow> fsst.more (st2 :: 'a kst_scheme) = fsst.more st1 \<Longrightarrow> files_same st st2"
  using files_same_trans more_same by blast

lemma exec_args_same: "exec_args p u i acc st = (ok, acc', st') \<Longrightarrow> files_same st st'"
proof (induction p u i acc st rule: exec_args.induct)
  case (1 p u i acc st)
  show ?case
  proof (cases "i \<ge> MAXARG \<or> fetchaddr p (u + 8 * of_nat i) st = None \<or> fetchaddr p (u + 8 * of_nat i) st = Some 0")
    case True
    then show ?thesis using "1.prems" by (subst (asm) exec_args.simps) (auto split: if_splits)
  next
    case False
    then obtain a where a: "\<not> i \<ge> MAXARG" "fetchaddr p (u + 8 * of_nat i) st = Some a" "a \<noteq> 0" by auto
    obtain pa km where k: "kalloc (kpool st) = (pa, km)" by force
    then have pg: "page_alloc_st st = (pa, st\<lparr>kpool := km\<rparr>)" by (simp add: page_alloc_st_def)
    obtain bs got where c: "copyinstr (ppagetable (pof (st\<lparr>kpool := km\<rparr>) p)) (kpool (st\<lparr>kpool := km\<rparr>)) a PGSIZE = (bs, got)" by force
    let ?s = "(st\<lparr>kpool := km\<rparr>)\<lparr>kpool := (kpool (st\<lparr>kpool := km\<rparr>))\<lparr>kpages := blit (kpages (kpool (st\<lparr>kpool := km\<rparr>))) pa bs\<rparr>\<rparr>"
    have s: "files_same st ?s" by (intro same_kpool files_same_refl)
    show ?thesis
    proof (cases "pa \<noteq> 0 \<and> got")
      case True
      then have "exec_args p u (i + 1) (acc @ [(pa, butlast bs)]) ?s = (ok, acc', st')"
        using "1.prems" a pg c by (subst (asm) exec_args.simps) simp
      then have "files_same ?s st'" using "1.IH"[OF a(1,2,3) pg[symmetric] _ c[symmetric] refl] True by blast
      then show ?thesis by (rule files_same_trans[OF s])
    next
      case False
      then show ?thesis using "1.prems" a pg c s same_kpool[OF files_same_refl[of st], of km]
        by (subst (asm) exec_args.simps) (auto split: if_splits)
    qed
  qed
qed

lemma fold_opt_same:
  assumes "\<And>x s s'. f x s = Some s' \<Longrightarrow> files_same s s'" and "fold_opt f xs st = Some st'"
  shows "files_same st st'"
  using assms(2)
proof (induction xs arbitrary: st)
  case (Cons x xs)
  then obtain s where "f x st = Some s" "fold_opt f xs s = Some st'" by (auto simp: Option.bind_eq_Some_conv)
  then show ?case using Cons.IH assms(1) files_same_trans by blast
qed simp

lemma free_args_same: "free_args acc st = Some st' \<Longrightarrow> files_same st st'"
  unfolding free_args_def by (erule fold_opt_same[rotated]) (auto dest: page_free_same)

lemma loadseg_from_same:
  assumes "loadseg_from i pt va ip off sz st = Some r"
  shows "files_same st (snd r)"
proof (rule loadseg_from.raw_induct[where P = "\<lambda>i pt va ip off sz st r. files_same st (snd r)", OF _ assms])
  fix ls i pt va ip off sz r and st :: "'a kst_scheme"
  assume 1: "\<And>i pt va ip off sz st r. ls i pt va ip off sz st = Some r \<Longrightarrow> files_same st (snd r)"
    "(if i < sz then let pa = uva2ka pt (va + ucast i) (kpool st) in
        if pa = 0 then None
        else let n = (if sz - i < of_nat PGSIZE then sz - i else of_nat PGSIZE) in
          Option.bind (readi ip kcopyout pa (off + i) n st (kpages (kpool st))) (\<lambda>(r, st, m).
            let st = st\<lparr>kpool := (kpool st)\<lparr>kpages := m\<rparr>\<rparr> in
            if r \<noteq> int (unat n) then Some (False, st)
            else ls (i + of_nat PGSIZE) pt va ip off sz st)
      else Some (True, st)) = Some r"
  show "files_same st (snd r)"
  proof (cases "i < sz \<and> uva2ka pt (va + ucast i) (kpool st) \<noteq> 0")
    case True
    let ?n = "if sz - i < of_nat PGSIZE then sz - i else of_nat PGSIZE"
    obtain v s1 m where rd: "readi ip kcopyout (uva2ka pt (va + ucast i) (kpool st)) (off + i) ?n st (kpages (kpool st)) = Some (v, s1, m)"
      "(let st = s1\<lparr>kpool := (kpool s1)\<lparr>kpages := m\<rparr>\<rparr> in if v \<noteq> int (unat ?n) then Some (False, st)
            else ls (i + of_nat PGSIZE) pt va ip off sz st) = Some r"
      using 1(2) True by (auto simp: Let_def Option.bind_eq_Some_conv)
    have s: "files_same st (s1\<lparr>kpool := (kpool s1)\<lparr>kpages := m\<rparr>\<rparr>)"
      by (rule same_kpool[OF more_same[OF readi_more[OF rd(1)]]])
    show ?thesis using rd(2) s 1(1) files_same_trans[OF s] by (auto simp: Let_def split: if_splits)
  next
    case False
    then show ?thesis using 1(2) by (auto simp: Let_def split: if_splits)
  qed
qed

lemma load_segs_same: "load_segs k off pt ip sz st = Some (ok, sz', st') \<Longrightarrow> files_same st st'"
proof (induction k arbitrary: off sz st)
  case (Suc k)
  obtain v s1 ph where rd: "readi ip kcopyout 0 off (of_nat PROGHDR_SIZE) st (\<lambda>_. 0) = Some (v, s1, ph)"
    using Suc.prems by (auto simp: Option.bind_eq_Some_conv)
  have s1: "files_same st s1" by (rule more_same[OF readi_more[OF rd]])
  show ?case
  proof (cases "v \<noteq> int PROGHDR_SIZE \<or> rd32 ph 0 \<noteq> ELF_PROG_LOAD \<or> rd64 ph 40 < rd64 ph 32 \<or> rd64 ph 16 + rd64 ph 40 < rd64 ph 16")
    case True
    then show ?thesis using Suc.prems rd s1 files_same_trans[OF s1 Suc.IH] by (auto simp: Let_def split: if_splits)
  next
    case False
    then obtain sz1 km where u: "uvmalloc (kend s1) pt sz (rd64 ph 16 + rd64 ph 40) (kpool s1) = Some (sz1, km)"
      using Suc.prems rd by (auto simp: Let_def Option.bind_eq_Some_conv)
    let ?s2 = "s1\<lparr>kpool := km\<rparr>"
    have s2: "files_same st ?s2" by (rule same_kpool[OF s1])
    show ?thesis
    proof (cases "sz1 = 0 \<or> rd64 ph 16 mod PGSZ \<noteq> 0")
      case True
      then show ?thesis using Suc.prems rd u False s2 by (auto simp: Let_def split: if_splits)
    next
      case nz: False
      then obtain ok1 s3 where l: "loadseg pt (rd64 ph 16) ip (ucast (rd64 ph 8)) (ucast (rd64 ph 32)) ?s2 = Some (ok1, s3)"
        using Suc.prems rd u False by (auto simp: Let_def Option.bind_eq_Some_conv)
      have s3: "files_same st s3" using loadseg_from_same[OF l[unfolded loadseg_def]] files_same_trans[OF s2] by simp
      show ?thesis using Suc.prems rd u False nz l s3 files_same_trans[OF s3 Suc.IH] by (auto simp: Let_def split: if_splits)
    qed
  qed
qed simp

lemma exec_bad_same: "exec_bad pt sz ip st = Some (r, st') \<Longrightarrow> files_same st st'"
  by (auto simp: exec_bad_def frame_simps same dest!: fs_more split: option.splits if_splits
      intro!: same_more[OF kpool_same])

lemma same_pupd: "files_same st st1 \<Longrightarrow> (\<And>q. pofile (f q) = pofile q \<and> pstate (f q) = pstate q) \<Longrightarrow> files_same st (pupd p f st1)"
  using files_same_trans[OF _ pupd_same] .

lemma same_exec_bad: "exec_bad pt sz ip st1 = Some (r, st') \<Longrightarrow> files_same st st1 \<Longrightarrow> files_same st st'"
  using files_same_trans exec_bad_same by blast

lemma exec_image_same:
  assumes c: "exec_image p path argv entry pt sz st = Some (r, st')"
  shows "files_same st st'"
proof -
  let ?sz = "pg_up sz"
  obtain sz1 km where u: "uvmalloc (kend st) pt ?sz (?sz + 2 * PGSZ) (kpool st) = Some (sz1, km)"
    using c by (auto simp: exec_image_def frame_simps)
  have k: "files_same st (st\<lparr>kpool := km'\<rparr>)" for km' by (rule kpool_same)
  show ?thesis
  proof (cases "sz1 = 0")
    case True
    then show ?thesis using c u same_exec_bad[OF _ k] by (simp add: exec_image_def Let_def)
  next
    case False
    then obtain km1 where cl: "uvmclear pt (sz1 - 2 * PGSZ) km = Some km1"
      using c u by (auto simp: exec_image_def frame_simps)
    obtain a km2 where pa: "push_args pt (sz1 - PGSZ) argv sz1 [] km1 = (a, km2)" by force
    show ?thesis
    proof (cases a)
      case None
      then show ?thesis using c u False cl pa same_exec_bad[OF _ k] by (simp add: exec_image_def Let_def)
    next
      case (Some x)
      obtain sp us where x: "x = (sp, us)" by force
      define sp1 where "sp1 = sp - of_nat (length us + 1) * 8 - (sp - of_nat (length us + 1) * 8) mod 16"
      obtain ok km3 where co: "copyout pt sp1 (concat (map bytes64 (us @ [0]))) km2 = (ok, km3)" by force
      show ?thesis
      proof (cases "sp1 < sz1 - PGSZ \<or> \<not> ok")
        case True
        then show ?thesis using c u False cl pa Some x co same_exec_bad[OF _ k]
          by (auto simp: exec_image_def Let_def sp1_def split: if_splits)
      next
        case nb: False
        let ?f = "\<lambda>q. q\<lparr>ppagetable := pt, psz := sz1, ptf := (ptf q)\<lparr>tf_x := (tf_x (ptf q))(1 := sp1), tf_elr := entry, tf_spsr := 0, tf_sp := sp1\<rparr>,
                      pname := set_name (pname q) (str_mem (base_name path))\<rparr>"
        obtain km4 where "st' = (pupd p ?f (st\<lparr>kpool := km3\<rparr>))\<lparr>kpool := km4\<rparr>"
          using c u False cl pa Some x co nb by (auto simp: exec_image_def Let_def sp1_def Option.bind_eq_Some_conv)
        then show ?thesis using same_kpool[OF same_pupd[OF k]] by simp
      qed
    qed
  qed
qed

lemma exec_fine:
  assumes c: "exec w p path argv st = Some (r, st')" and f: "fine p st" and w: "others_ok p w"
  shows "fine p st'"
proof -
  obtain s1 where s1: "begin_wait w st = Some s1" using c by (auto simp: exec_def Option.bind_eq_Some_conv)
  obtain a s2 where s2: "namei_p p path s1 = Some (a, s2)" using c s1 by (auto simp: exec_def Option.bind_eq_Some_conv)
  have f2: "fine p s2" by (rule fine_more[OF namei_p_more[OF s2] begin_wait_fine[OF s1 w f]])
  have "files_same s2 st'"
  proof (cases a)
    case None
    then show ?thesis using c s1 s2 by (auto simp: exec_def Option.bind_eq_Some_conv intro: more_same[OF end_op_more])
  next
    case (Some ip)
    obtain s3 n s4 elf where s3: "ilock ip s2 = Some s3" "readi ip kcopyout 0 0 (of_nat ELFHDR_SIZE) s3 (\<lambda>_. 0) = Some (n, s4, elf)"
      using c s1 s2 Some by (auto simp: exec_def Option.bind_eq_Some_conv)
    have f4: "files_same s2 s4" by (rule same_more[OF more_same[OF ilock_more[OF s3(1)]] readi_more[OF s3(2)]])
    obtain pt km where u: "uvmcreate (kpool s4) = (pt, km)" by force
    have k: "files_same s2 (s4\<lparr>kpool := km\<rparr>)" by (rule same_kpool[OF f4])
    show ?thesis
    proof (cases "n \<noteq> int ELFHDR_SIZE \<or> rd32 elf 0 \<noteq> ELF_MAGIC \<or> pt = 0")
      case True
      then show ?thesis using c s1 s2 Some s3 u same_exec_bad[OF _ f4] same_exec_bad[OF _ k]
        by (auto simp: exec_def split: if_splits)
    next
      case False
      then obtain ok sz s5 where l: "load_segs (unat (rd16 elf 56)) (ucast (rd64 elf 32)) pt ip 0 (s4\<lparr>kpool := km\<rparr>) = Some (ok, sz, s5)"
        using c s1 s2 Some s3 u by (auto simp: exec_def Option.bind_eq_Some_conv)
      have f5: "files_same s2 s5" by (rule files_same_trans[OF k load_segs_same[OF l]])
      show ?thesis
      proof (cases ok)
        case True
        then obtain s6 s7 where e: "iunlockput ip s5 = Some s6" "end_op s6 = Some s7"
          "exec_image p path argv (rd64 elf 24) pt sz s7 = Some (r, st')"
          using c s1 s2 Some s3 u False l by (auto simp: exec_def Option.bind_eq_Some_conv)
        have "files_same s2 s7" by (rule same_more[OF same_more[OF f5 iunlockput_more[OF e(1)]] end_op_more[OF e(2)]])
        then show ?thesis using exec_image_same[OF e(3)] files_same_trans by blast
      next
        case nok: False
        then show ?thesis using c s1 s2 Some s3 u False l same_exec_bad[OF _ f5] by (simp add: exec_def)
      qed
    qed
  qed
  then show ?thesis by (rule fine_same[OF _ f2])
qed

lemma sys_exec_fine:
  assumes c: "sys_exec w p st = Some (r, st')" and f: "fine p st" and w: "others_ok p w"
  shows "fine p st'"
proof -
  obtain a u where a: "argstr p 0 MAXPATH st = Some a" "argaddr p 1 st = Some u"
    using c by (auto simp: sys_exec_def Option.bind_eq_Some_conv)
  show ?thesis
  proof (cases a)
    case (Some path)
    obtain ok acc s1 where e: "exec_args p u 0 [] st = (ok, acc, s1)" using prod_cases3 by blast
    have f1: "fine p s1" by (rule fine_same[OF exec_args_same[OF e] f])
    show ?thesis
    proof (cases ok)
      case True
      then obtain v s2 where "exec w p path (map snd acc) s1 = Some (v, s2)" "free_args acc s2 = Some st'"
        using c a Some e by (auto simp: sys_exec_def ret_def Option.bind_eq_Some_conv)
      then show ?thesis using exec_fine[OF _ f1 w] fine_same[OF free_args_same] by blast
    next
      case False
      then have "free_args acc s1 = Some st'" using c a Some e by (auto simp: sys_exec_def ret_def Option.bind_eq_Some_conv)
      then show ?thesis using fine_same[OF free_args_same f1] by blast
    qed
  qed (use c a f in \<open>auto simp: sys_exec_def ret_def\<close>)
qed

section \<open>The calls on processes\<close>

text \<open>What a step of the process table may do.\<close>

definition tab_same :: "ptable \<Rightarrow> ptable \<Rightarrow> bool" where
  "tab_same t t' \<longleftrightarrow> (\<forall>q. pofile (procs t' q) = pofile (procs t q)
     \<and> (pstate (procs t' q) \<in> {UNUSED, ZOMBIE} \<longrightarrow> pstate (procs t q) \<in> {UNUSED, ZOMBIE}))"

lemma tab_refl [simp]: "tab_same t t"
  by (simp add: tab_same_def)

lemma tab_trans: "tab_same t t1 \<Longrightarrow> tab_same t1 t2 \<Longrightarrow> tab_same t t2"
  by (auto simp: tab_same_def)

lemma tab_pset: "(\<And>q. pofile (f q) = pofile q \<and> (pstate (f q) \<in> {UNUSED, ZOMBIE} \<longrightarrow> pstate q \<in> {UNUSED, ZOMBIE})) \<Longrightarrow> tab_same t (pset p f t)"
  by (simp add: tab_same_def pset_def)

lemma tab_fold: "(\<And>x t. tab_same t (f x t)) \<Longrightarrow> tab_same t (fold f xs t)"
  by (induction xs arbitrary: t) (auto intro: tab_trans)

lemma wakeup_tab: "tab_same t (wakeup ch me t)"
  unfolding wakeup_def by (rule tab_fold) (auto simp: wake_one_def intro: tab_pset)

lemma kill_tab: "kill pid t = (r, t') \<Longrightarrow> tab_same t t'"
  by (auto simp: kill_def kill_one_def split: option.splits if_splits intro!: tab_pset)

lemma go_to_sleep_tab: "tab_same t (go_to_sleep ch p t)"
  by (simp add: go_to_sleep_def tab_pset)

lemma reparent_tab: "tab_same t (reparent p t)"
  unfolding reparent_def
  by (rule tab_fold) (auto simp: reparent_one_def intro: tab_trans[OF tab_pset wakeup_tab])

lemma become_zombie_tab:
  "\<exists>t1. tab_same t t1 \<and> become_zombie p status t = pset p (\<lambda>q. q\<lparr>pxstate := status, pstate := ZOMBIE\<rparr>) t1"
proof (cases "pparent (procs (reparent p t) p)")
  case None
  then show ?thesis using reparent_tab[of t p] by (auto simp: become_zombie_def Let_def)
next
  case (Some pp)
  then show ?thesis
    by (intro exI[of _ "wakeup (ChProc pp) p (reparent p t)"])
      (simp add: become_zombie_def Let_def tab_trans[OF reparent_tab wakeup_tab])
qed

lemma ptab_same: "tab_same (ptab st) t \<Longrightarrow> files_same st (st\<lparr>ptab := t\<rparr>)"
  by (auto simp: files_same_def tab_same_def dead_def pof_def)

lemma sys_kill_fine:
  assumes c: "sys_kill p st = Some (r, st')" and f: "fine p st"
  shows "fine p st'"
proof -
  obtain pid where p: "argint p 0 st = Some pid" using c by (auto simp: sys_kill_def Option.bind_eq_Some_conv)
  obtain v t where k: "kill pid (ptab st) = (v, t)" by force
  then have "st' = st\<lparr>ptab := t\<rparr>" using c p by (simp add: sys_kill_def ret_def)
  then show ?thesis using fine_same[OF ptab_same[OF kill_tab[OF k]] f] by simp
qed

lemma sys_sleep_fine: "sys_sleep t0 t1 p st = Some (r, st') \<Longrightarrow> fine p st \<Longrightarrow> fine p st'"
  by (auto simp: sys_sleep_def ret_def Option.bind_eq_Some_conv split: if_splits intro: fine_same[OF ptab_same[OF go_to_sleep_tab]])

lemma sys_sbrk_fine: "sys_sbrk p st = Some (r, st') \<Longrightarrow> fine p st \<Longrightarrow> fine p st'"
  by (erule fine_same[rotated]) (auto simp: sys_sbrk_def growproc_def ret_def frame_simps same split: if_splits
      intro!: same_pupd[OF kpool_same] same_pupd[OF files_same_refl])

lemma freeproc_facts: "freeproc np st = Some st' \<Longrightarrow> ftab st' = ftab st \<and> ptab st' = clear_slot np (ptab st)"
  by (auto simp: freeproc_def Option.bind_eq_Some_conv)

lemma clear_slot_dead: "pstate (procs t np) \<in> {UNUSED, ZOMBIE} \<Longrightarrow> tab_same t (clear_slot np t)"
  by (auto simp: tab_same_def clear_slot_def pset_def)

lemma files_sameI: "ftab st' = ftab st \<Longrightarrow> tab_same (ptab st) (ptab st') \<Longrightarrow> files_same st st'"
  by (auto simp: files_same_def tab_same_def dead_def pof_def)

lemma wait_scan_same: "wait_scan addr p np hk st = Some (r, st') \<Longrightarrow> files_same st st'"
proof (induction addr p np hk st rule: wait_scan.induct)
  case (1 addr p np hk st)
  show ?case
  proof (cases "np < NPROC \<and> pparent (pof st np) = Some p \<and> pstate (pof st np) = ZOMBIE")
    case True
    obtain ok km where c: "(if addr \<noteq> 0 then copyout (ppagetable (pof st p)) addr (bytes32 (pxstate (pof st np))) (kpool st)
        else (True, kpool st)) = (ok, km)" by force
    let ?s = "st\<lparr>kpool := km\<rparr>"
    show ?thesis
    proof (cases ok)
      case ok: True
      then have "freeproc np ?s = Some st'" using "1.prems" True c
        by (subst (asm) wait_scan.simps) (auto simp: Let_def Option.bind_eq_Some_conv)
      from freeproc_facts[OF this] show ?thesis using True
        by (intro files_sameI) (simp_all add: clear_slot_dead pof_def)
    next
      case False
      then show ?thesis using "1.prems" True c kpool_same
        by (subst (asm) wait_scan.simps) (auto simp: Let_def)
    qed
  next
    case False
    have e: "wait_scan addr p np hk st =
        (if np < NPROC then wait_scan addr p (np + 1) (hk \<or> pparent (pof st np) = Some p) st
         else if \<not> hk \<or> pkilled (pof st p) then Some (Proceeds (-1), st)
         else Some (Sleeps, st\<lparr>ptab := go_to_sleep (ChProc p) p (ptab st)\<rparr>))"
      using False by (subst wait_scan.simps) simp
    show ?thesis
    proof (cases "np < NPROC")
      case True
      then show ?thesis using "1.prems"[unfolded e] "1.IH" False by (cases "pparent (pof st np) = Some p") auto
    next
      case False
      then show ?thesis using "1.prems"[unfolded e] ptab_same[OF go_to_sleep_tab] by (auto split: if_splits)
    qed
  qed
qed

lemma sys_wait_fine: "sys_wait p st = Some (r, st') \<Longrightarrow> fine p st \<Longrightarrow> fine p st'"
  by (auto simp: sys_wait_def wait_def Option.bind_eq_Some_conv intro: fine_same[OF wait_scan_same])

section \<open>\<open>fork\<close> and \<open>exit\<close>\<close>

lemma pof_pupd: "pof (pupd p f st) q = (if q = p then f (pof st p) else pof st q)" "ftab (pupd p f st) = ftab st"
  by (simp_all add: pof_def pupd_def pset_def)

lemma fork_fine:
  assumes c: "fork fr p st = Some (r, st')" and f: "fine p st"
  shows "fine p st'"
proof -
  have i: "file_inv {#} {} st" and nd: "\<not> dead st p" using f by (simp_all add: fine_def)
  have "pstate (pof st p) \<noteq> UNUSED" using nd by (auto simp: dead_def)
  from this c show ?thesis
  proof (cases rule: fork_effect)
    case none
    then show ?thesis using f by simp
  next
    case (undone np g km)
    note n = find_unused_SomeD[OF undone(2)]
    have "files_same st st'"
      using n undone(4) by (auto simp: files_same_def dead_def undone(3) pof_def clear_slot_def procs_pset alloc_slot_procs)
    then show ?thesis using fine_same[OF _ f] by blast
  next
    case (child np pt km1 km ct cwd ft1)
    define fds where "fds = pofile (pof st p)"
    note n = find_unused_SomeD[OF child(2)]
    have np: "np < NPROC" "dead st np" using n by (simp_all add: dead_def pof_def)
    have ne: "np \<noteq> p" using np(2) nd by auto
    have none: "pofile (pof st np) j = None" for j by (rule file_invD(4)[OF i np(2)])
    have ft': "ftab st' = ft1" by (simp add: child(8) idup_def iset_def)
    note po = fork_pof[OF child(8)]
    have po': "pofile (pof st' q) = (if q = np then (\<lambda>j. if j < NOFILE then fds j else None) else pofile (pof st q))" for q
      using none by (auto simp: po copy_proc_def fds_def)
    have dd: "dead st' q \<Longrightarrow> dead st q \<and> q \<noteq> np" for q by (auto simp: po dead_def split: if_splits)
    have df: "fref (ft1 g) = fref (ftab st g) + int (card {j. j < NOFILE \<and> fds j = Some g}) \<and> ftyp (ft1 g) = ftyp (ftab st g)" for g
      using dup_files_facts[OF child(7), of g] by (simp add: fds_def)
    have rf: "refs st' g = refs st g \<union> {np} \<times> {j. j < NOFILE \<and> fds j = Some g}" for g
      using np(1) none by (auto simp: refs_def po' split: if_splits)
    have "refs st g \<inter> {np} \<times> {j. j < NOFILE \<and> fds j = Some g} = {}" for g using none by (auto simp: refs_def)
    then have cd: "card (refs st' g) = card (refs st g) + card {j. j < NOFILE \<and> fds j = Some g}" for g
      unfolding rf by (subst card_Un_disjoint) (auto simp: card_cartesian_product)
    have "file_inv {#} {} st'"
    proof (rule file_invI)
      show "fref (ftab st' g) = int (card (refs st' g - {}) + count {#} g)" for g
        using file_invD(1)[OF i, of g] df[of g] cd by (simp add: ft')
      show "q < NPROC \<and> j < NOFILE \<and> ((q, j) \<notin> {} \<longrightarrow> g < NFILE \<and> ftyp (ftab st' g) \<noteq> FD_NONE)"
        if "pofile (pof st' q) j = Some g" for q j g
        using that file_invD(2)[OF i, of _ _ g] np(1) df[of g] by (auto simp: po' ft' fds_def split: if_splits)
      show "ftyp (ftab st' g) = FD_NONE" if "fref (ftab st' g) = 0" for g
      proof -
        have "fref (ft1 g) = 0" using that by (simp add: ft')
        then have "fref (ftab st g) = 0" using df[of g] file_invD(1)[OF i, of g] by linarith
        then show ?thesis using file_invD(3)[OF i] df[of g] by (simp add: ft')
      qed
      show "pofile (pof st' q) j = None" if "dead st' q" for q j
        using dd[OF that] file_invD(4)[OF i] by (simp add: po')
    qed
    moreover have "\<not> dead st' p" using dd nd by blast
    ultimately show ?thesis by (simp add: fine_def)
  qed
qed

lemma close_step:
  assumes c: "fileclose w g st = Some s1" and f: "fine p st" and w: "others_ok p w" and g: "pofile (pof st p) fd = Some g"
  shows "fine p (fdset p fd None s1) \<and> pofile (pof s1 p) = pofile (pof st p)"
proof -
  have i: "file_inv (add_mset g {#}) {(p, fd)} st" using hide_inv[OF _ g] f by (simp add: fine_def)
  from fileclose_inv[OF c i refl _ w] f have s: "file_inv {#} {(p, fd)} s1" "pofile (pof s1 p) = pofile (pof st p)" "\<not> dead s1 p"
    by (simp_all add: fine_def)
  then show ?thesis using unhide_inv by (simp add: fine_def)
qed

lemma close_files_fine:
  assumes "close_files w p st = Some st'" and f: "fine p st" and w: "others_ok p w"
  shows "fine p st' \<and> (\<forall>i. pofile (pof st' p) i = None)"
proof -
  let ?f = "\<lambda>fd st. case pofile (pof st p) fd of
        None \<Rightarrow> Some st
      | Some f \<Rightarrow> do { st \<leftarrow> fileclose w f st; Some (pupd p (\<lambda>q. q\<lparr>pofile := (pofile q)(fd := None)\<rparr>) st) }"
  have "fine p s' \<and> (\<forall>i. pofile (pof s' p) i = (if i \<in> set xs then None else pofile (pof s p) i))"
    if "fold_opt ?f xs s = Some s'" "fine p s" for xs s s'
    using that
  proof (induction xs arbitrary: s)
    case (Cons x xs)
    show ?case
    proof (cases "pofile (pof s p) x")
      case None
      then show ?thesis using Cons by auto
    next
      case (Some g)
      then obtain s1 where s1: "fileclose w g s = Some s1" "fold_opt ?f xs (fdset p x None s1) = Some s'"
        using Cons.prems(1) by (auto simp: Option.bind_eq_Some_conv fdset_def)
      from close_step[OF s1(1) Cons.prems(2) w Some] have "fine p (fdset p x None s1)" "pofile (pof s1 p) = pofile (pof s p)" by simp_all
      then show ?thesis using Cons.IH[OF s1(2)] by auto
    qed
  qed simp
  from this[of "[0..<NOFILE]" st st'] assms(1) f
  have *: "fine p st'" "\<forall>i. pofile (pof st' p) i = (if i \<in> set [0..<NOFILE] then None else pofile (pof st p) i)"
    by (simp_all add: close_files_def)
  have "pofile (pof st' p) i = None" for i
    using * file_invD(2)[of "{#}" "{}" st' p i] by (cases "pofile (pof st' p) i") (auto simp: fine_def split: if_splits)
  then show ?thesis using * by blast
qed

lemma exit_inv:
  assumes c: "exit w p status st = Some st'" and f: "fine p st" and w: "others_ok p w"
  shows "file_inv {#} {} st'"
proof -
  obtain s1 s2 ip s3 s4 where s: "close_files w p st = Some s1" "begin_wait w s1 = Some s2" "iput ip s2 = Some s3" "end_op s3 = Some s4"
    "st' = (let st = pupd p (pcwd_update (\<lambda>_. None)) s4 in st\<lparr>ptab := become_zombie p status (ptab st)\<rparr>)"
    using c by (auto simp: exit_def Option.bind_eq_Some_conv Let_def split: if_splits option.splits)
  have g1: "good p {} (\<lambda>_. None) s1"
    using close_files_fine[OF s(1) f w] by (auto simp: good_def fine_def intro!: ext)
  have g4: "good p {} (\<lambda>_. None) s4"
    by (rule good_same[OF more_same[OF end_op_more[OF s(4)]]], rule good_same[OF more_same[OF iput_more[OF s(3)]]],
        rule begin_wait_good[OF s(2) w g1])
  let ?s5 = "pupd p (pcwd_update (\<lambda>_. None)) s4"
  have g5: "good p {} (\<lambda>_. None) ?s5" by (rule good_same[OF pupd_same g4]) simp
  obtain t1 where t1: "tab_same (ptab ?s5) t1" "become_zombie p status (ptab ?s5) = pset p (\<lambda>q. q\<lparr>pxstate := status, pstate := ZOMBIE\<rparr>) t1"
    using become_zombie_tab by blast
  have g6: "good p {} (\<lambda>_. None) (?s5\<lparr>ptab := t1\<rparr>)" by (rule good_same[OF ptab_same[OF t1(1)] g5])
  let ?s6 = "?s5\<lparr>ptab := t1\<rparr>"
  have i: "file_inv {#} {} ?s6" and n: "pofile (pof ?s6 p) j = None" for j using g6 by (simp_all add: good_def)
  have po: "pofile (pof st' q) = pofile (pof ?s6 q)" "ftab st' = ftab ?s6" "dead st' q \<Longrightarrow> q = p \<or> dead ?s6 q" for q
    using s(5) t1(2) by (auto simp: Let_def pof_def procs_pset dead_def)
  have "refs st' g = refs ?s6 g" for g by (simp add: refs_def po)
  moreover have "pofile (pof st' q) j = None" if "dead st' q" for q j
    using po(1)[of q] po(3)[OF that] n file_invD(4)[OF i] by metis
  ultimately show ?thesis
    by (intro file_invI) (use file_invD(1-3)[OF i] po(1,2) in auto)
qed

section \<open>Every call\<close>

lemma call_keeps:
  assumes call: "syscalls e p n = Some call" "call st = Some (r, st')"
    and f: "fine p st" and p: "p < NPROC" and w: "others_ok p (e_wait e)"
  shows "file_inv {#} {} st' \<and> (r \<noteq> Sleeps \<longrightarrow> fine p st')"
proof -
  have fi: "fine p st' \<Longrightarrow> ?thesis" by (simp add: fine_def)
  have fork: "sys_fork (e_forkret e) p st = Some (r, st') \<Longrightarrow> fine p st'"
    using fork_fine[OF _ f] by (auto simp: sys_fork_def ret_def Option.bind_eq_Some_conv)
  have pure: "sys_getpid p st = Some (r, st') \<Longrightarrow> fine p st'" "sys_uptime (e_ticks e) st = Some (r, st') \<Longrightarrow> fine p st'"
    using f by (auto simp: sys_getpid_def sys_uptime_def ret_def)
  have ex: "sys_exit (e_wait e) p st = Some (r, st') \<Longrightarrow> ?thesis"
    using exit_inv[OF _ f w] by (auto simp: sys_exit_def Option.bind_eq_Some_conv)
  note fines = fork pure sys_close_fine[OF _ f w] sys_write_fine[OF _ f w] sys_read_fine[OF _ f] sys_open_fine[OF _ f w p]
    sys_pipe_fine[OF _ f w p] sys_dup_fine[OF _ f p] sys_fstat_fine[OF _ f] sys_chdir_fine[OF _ f w] sys_mkdir_fine[OF _ f w]
    sys_mknod_fine[OF _ f w] sys_link_fine[OF _ f w] sys_unlink_fine[OF _ f w] sys_exec_fine[OF _ f w] sys_wait_fine[OF _ f]
    sys_kill_fine[OF _ f] sys_sbrk_fine[OF _ f] sys_sleep_fine[OF _ f]
  have "call \<in> {sys_fork (e_forkret e) p, sys_exit (e_wait e) p, sys_wait p, sys_pipe (e_wait e) (e_junk e) p, sys_read (e_read e) p,
      sys_kill p, sys_exec (e_wait e) p, sys_fstat (e_pad e) p, sys_chdir (e_wait e) p, sys_dup p, sys_getpid p, sys_sbrk p,
      sys_sleep (e_ticks0 e) (e_ticks e) p, sys_uptime (e_ticks e), sys_open (e_wait e) p, sys_write (e_wait e) (e_write e) p,
      sys_mknod (e_wait e) p, sys_unlink (e_wait e) p, sys_link (e_wait e) p, sys_mkdir (e_wait e) p, sys_close (e_wait e) p}"
    using call(1) by (auto simp: syscalls_def split: if_splits)
  then show ?thesis using call(2)
    by (elim insertE emptyE) (hypsubst, (erule ex | (rule fi, rule fines, assumption)))+
qed

lemma syscall_keeps:
  assumes c: "syscall e p st = Some (back, st')" and f: "fine p st" and p: "p < NPROC" and w: "others_ok p (e_wait e)"
  shows "file_inv {#} {} st' \<and> (back \<longrightarrow> fine p st')"
proof -
  have x0: "fine p s \<Longrightarrow> fine p (set_x0 p v s)" for s v
    unfolding set_x0_def by (erule fine_same[rotated], rule pupd_same) simp
  let ?n = "sint (ucast (tf_x (ptf (pof st p)) 7) :: u32)"
  show ?thesis
  proof (cases "0 < ?n \<and> ?n < 22 \<and> syscalls e p (nat ?n) \<noteq> None")
    case True
    then obtain call where call: "syscalls e p (nat ?n) = Some call" by blast
    then obtain r s1 where r: "call st = Some (r, s1)" using c True by (auto simp: syscall_def Let_def split: option.splits)
    note k = call_keeps[OF call r f p w]
    show ?thesis
    proof (cases r)
      case (Proceeds v)
      then show ?thesis using c True call r k x0 by (auto simp: syscall_def Let_def fine_def)
    next
      case Sleeps
      then show ?thesis using c True call r k by (auto simp: syscall_def Let_def)
    qed
  next
    case False
    then show ?thesis using c x0[OF f] by (auto simp: syscall_def Let_def fine_def simp del: not_None_eq split: if_splits)
  qed
qed

lemma die_keeps:
  assumes "die_if_killed e p st = Some (back, st')" and f: "fine p st" and w: "others_ok p (e_wait e)"
  shows "file_inv {#} {} st' \<and> (back \<longrightarrow> fine p st')"
  using assms(1) f exit_inv[OF _ f w] by (auto simp: die_if_killed_def Option.bind_eq_Some_conv fine_def split: if_splits)

text \<open>
  C3: descriptors and open files agree.  Whatever trap process \<open>p\<close> takes from user space, be it any system
  call with any arguments or a fault that kills it, afterwards every descriptor of every process names
  an open file of the table, every file's count is the number of descriptors that name it, and
  processes and entries that are not in use have none; so no call finds a stale descriptor and no file
  is closed while somebody uses it.  The other processes, which may run while the call waits, are
  assumed to keep the same invariant and to leave the descriptors of \<open>p\<close> alone.
\<close>

theorem trap_keeps_files:
  assumes "file_inv {#} {} st" and "p < NPROC" and "\<not> dead st p" and "others_ok p (e_wait e)"
    and "usertrap e ec p st = Some (back, st')"
  shows "file_inv {#} {} st' \<and> (back \<longrightarrow> \<not> dead st' p)"
proof -
  have f: "fine p st" using assms(1,3) by (simp add: fine_def)
  have k: "fine p (set_killed p st)" unfolding set_killed_def by (rule fine_same[OF pupd_same f]) simp
  show ?thesis
  proof (cases "ec = 21")
    case True
    then obtain a s1 where d: "die_if_killed e p st = Some (a, s1)"
      using assms(5) by (auto simp: usertrap_def Option.bind_eq_Some_conv)
    note k1 = die_keeps[OF d f assms(4)]
    show ?thesis
    proof (cases a)
      case a: True
      then obtain b s2 where s: "syscall e p s1 = Some (b, s2)"
        using assms(5) True d by (auto simp: usertrap_def Option.bind_eq_Some_conv)
      have f1: "fine p s1" using k1 a by blast
      note k2 = syscall_keeps[OF s f1 assms(2,4)]
      show ?thesis
      proof (cases b)
        case b: True
        then have "die_if_killed e p s2 = Some (back, st')" using assms(5) True d a s by (simp add: usertrap_def)
        then show ?thesis using die_keeps[OF _ _ assms(4)] k2 b by (auto simp: fine_def)
      next
        case False
        then show ?thesis using assms(5) True d a s k2 by (simp add: usertrap_def)
      qed
    next
      case False
      then show ?thesis using assms(5) True d k1 by (simp add: usertrap_def)
    qed
  next
    case False
    then show ?thesis using assms(5) die_keeps[OF _ k assms(4)] by (auto simp: usertrap_def fine_def)
  qed
qed

text \<open>The demonstration kernel with the console open as descriptor 0, and process 0 about to call \<open>dup(0)\<close>.\<close>

definition demo_dup :: kst where
  "demo_dup = (pupd 0 (\<lambda>q. q\<lparr>pofile := (pofile q)(0 := Some 0), ptf := (ptf q)\<lparr>tf_x := (\<lambda>i. if i = 7 then 10 else 0)\<rparr>\<rparr>) demo_kst)
     \<lparr>ftab := no_files(0 := (no_files 0)\<lparr>ftyp := FD_DEVICE, fref := 1\<rparr>)\<rparr>"

lemma demo_dup_procs: "pofile (pof demo_dup q) fd = (if q = 0 \<and> fd = 0 then Some 0 else None)"
  "pstate (pof demo_dup q) = (if q = 0 then RUNNING else UNUSED)" "pkilled (pof demo_dup q) = False"
  "tf_x (ptf (pof demo_dup 0)) i = (if i = 7 then 10 else 0)"
  by (auto simp: demo_dup_def demo_kst_def pof_def pupd_def pset_def boot_ptable_def)

lemma demo_dup_ok: "file_inv {#} {} demo_dup" "\<not> dead demo_dup 0"
proof -
  have r: "refs demo_dup f = (if f = 0 then {(0, 0)} else {})" for f
    by (auto simp: refs_def demo_dup_procs split: if_splits)
  show "file_inv {#} {} demo_dup"
    by (rule file_invI) (auto simp: r demo_dup_procs dead_def split: if_splits, auto simp: demo_dup_def no_files_def split: if_splits)
  show "\<not> dead demo_dup 0" by (simp add: dead_def demo_dup_procs)
qed

theorem trap_keeps_files_witness:
  "\<exists>st'. usertrap demo_env 21 0 demo_dup = Some (True, st') \<and> fref (ftab st' 0) = 2 \<and> file_inv {#} {} st'"
proof -
  define s1 where "s1 = (fdset 0 1 (Some 0) demo_dup)\<lparr>ftab := (ftab demo_dup)(0 := (ftab demo_dup 0)\<lparr>fref := 2\<rparr>)\<rparr>"
  let ?st = "set_x0 0 1 s1"
  have fd: "fdalloc 0 0 demo_dup = Some (1, fdset 0 1 (Some 0) demo_dup)"
    by (simp add: fdalloc_def demo_dup_procs upt_conv_Cons)
  have dup: "filedup 0 (ftab demo_dup) = Some ((ftab demo_dup)(0 := (ftab demo_dup 0)\<lparr>fref := 2\<rparr>))"
    by (simp add: filedup_def demo_dup_def)
  have call: "sys_dup 0 demo_dup = Some (Proceeds 1, s1)"
    by (simp add: sys_dup_def argfd_def argint_def argraw_def demo_dup_procs fd dup ret_def s1_def)
  then have s: "syscall demo_env 0 demo_dup = Some (True, ?st)"
    by (simp add: syscall_def demo_dup_procs syscalls_def)
  have nk: "pkilled (pof ?st 0) = False"
    using demo_dup_procs(3)[of 0] by (simp add: s1_def set_x0_def fdset_def pupd_def pof_def pset_def)
  have u: "usertrap demo_env 21 0 demo_dup = Some (True, ?st)"
    by (simp add: usertrap_def die_if_killed_def demo_dup_procs s nk)
  have "file_inv {#} {} ?st"
    using trap_keeps_files[OF demo_dup_ok(1) _ demo_dup_ok(2) _ u] by (simp add: others_ok_def demo_env_def)
  moreover have "fref (ftab ?st 0) = 2" by (simp add: s1_def set_x0_def pupd_def)
  ultimately show ?thesis using u by blast
qed

end
