(* ===== verification/VmMap.thy ===== *)
theory VmMap imports Vm begin

text \<open>
  What the page tables of \<open>Vm\<close> mean.  A set \<open>R\<close> of tables, given by their roots, is sound when no page
  is used twice, as a node of a table, as a free page, or in the set \<open>D\<close> of pages held by others; then
  a table is a map from page numbers to entries, and \<open>walk\<close>, \<open>mappages\<close>, \<open>uvmunmap\<close> and \<open>uvmcopy\<close>
  act on that map.
\<close>

section \<open>Page numbers\<close>

definition vpn :: "u64 \<Rightarrow> nat" where
  "vpn va = unat va div PGSIZE mod 2 ^ 27"

lemma PX_div: "PX l va = unat va div 2 ^ (39 - l * 9) mod 512"
proof -
  have m: "(0x1ff :: u64) = mask 9" by (simp add: mask_eq_exp_minus_1)
  have "PX l va = unat (take_bit 9 (drop_bit (39 - l * 9) va))"
    unfolding PX_def m by (simp only: take_bit_eq_mask)
  also have "\<dots> = take_bit 9 (drop_bit (39 - l * 9) (unat va))"
    using unsigned_less[of va, where 'a = nat]
    by (simp add: unsigned_take_bit_eq unsigned_drop_bit_eq take_bit_nat_eq_self)
  finally show ?thesis by (simp add: take_bit_eq_mod drop_bit_eq_div)
qed

lemma PX_less [simp]: "PX l va < 512"
  by (simp add: PX_div)

lemma mod_div_nat: "0 < b \<Longrightarrow> x mod (b * c) div b = x div b mod c" for b :: nat
  by (simp add: mod_mult2_eq)

lemma PX_vpn: "PX 1 va = vpn va div 2 ^ 18" "PX 2 va = vpn va div 512 mod 512" "PX 3 va = vpn va mod 512"
proof -
  let ?x = "unat va div 4096"
  have "vpn va div 2 ^ 18 = ?x div 262144 mod 512"
    using mod_div_nat[of 262144 ?x 512] by (simp add: vpn_def)
  then show "PX 1 va = vpn va div 2 ^ 18" by (simp add: PX_div div_mult2_eq[of "unat va" 4096 262144, simplified])
  have "vpn va div 512 mod 512 = ?x div 512 mod 262144 mod 512"
    using mod_div_nat[of 512 ?x 262144] by (simp add: vpn_def)
  also have "\<dots> = ?x div 512 mod 512" using mod_mod_cancel[of 512 262144 "?x div 512"] by simp
  finally show "PX 2 va = vpn va div 512 mod 512"
    by (simp add: PX_div div_mult2_eq[of "unat va" 4096 512, simplified])
  have "vpn va mod 512 = ?x mod 512" using mod_mod_cancel[of 512 "2 ^ 27" ?x] by (simp add: vpn_def)
  then show "PX 3 va = vpn va mod 512" by (simp add: PX_div)
qed

lemma digits_eq:
  fixes x y :: nat
  assumes "x div 2 ^ 18 = y div 2 ^ 18" and "x div 512 mod 512 = y div 512 mod 512" and "x mod 512 = y mod 512"
  shows "x = y"
proof -
  have d: "z div 2 ^ 18 = z div 512 div 512" for z :: nat using div_mult2_eq[of z 512 512] by simp
  have "x div 512 = y div 512"
    using assms(1,2) unfolding d by (metis div_mult_mod_eq)
  then show ?thesis using assms(3) by (metis div_mult_mod_eq)
qed

lemma vpn_eq_iff: "vpn va = vpn vb \<longleftrightarrow> PX 1 va = PX 1 vb \<and> PX 2 va = PX 2 vb \<and> PX 3 va = PX 3 vb"
  unfolding PX_vpn using digits_eq[of "vpn va" "vpn vb"] by metis

section \<open>Entries that point to tables\<close>

abbreviation (input) KBASE :: nat where "KBASE \<equiv> 0xffffff8000000000" \<comment> \<open>\<open>KERNBASE\<close>\<close>

definition table_pte :: "nat \<Rightarrow> u64" where
  "table_pte p = PA2PTE (V2P (of_nat p)) OR PTE_TABLE OR PTE_VALID"

text \<open>A page's address goes through an entry and back.\<close>

lemma pa_mask: "pa AND 0xfffffffff000 = pa" if "unat pa mod PGSIZE = 0" "unat pa < 2 ^ 48" for pa :: u64
proof (rule bit_word_eqI)
  fix n assume n: "n < LENGTH(64)"
  have m: "(0xfffffffff000 :: u64) = push_bit 12 (mask 36)" by (simp add: mask_eq_exp_minus_1 push_bit_eq_mult)
  have low: "\<not> bit pa n" if "n < 12"
  proof -
    have "take_bit 12 (unat pa) = 0" using \<open>unat pa mod PGSIZE = 0\<close> by (simp add: take_bit_eq_mod)
    then have "\<not> bit (unat pa) n" using that by (metis bit_0_eq bit_take_bit_iff bot_apply bot_bool_def)
    then show ?thesis by (simp add: bit_unsigned_iff)
  qed
  have high: "\<not> bit pa n" if "48 \<le> n"
  proof -
    have "take_bit 48 (unat pa) = unat pa" using \<open>unat pa < 2 ^ 48\<close> by (simp add: take_bit_nat_eq_self)
    then have "\<not> bit (unat pa) n" using that by (metis bit_take_bit_iff not_le)
    then show ?thesis using n by (simp add: bit_unsigned_iff)
  qed
  show "bit (pa AND 0xfffffffff000) n = bit pa n"
  proof (cases "n < 12 \<or> 48 \<le> n")
    case True
    then show ?thesis using low high by (auto simp: bit_simps)
  next
    case False
    then show ?thesis unfolding m using n by (auto simp: bit_simps)
  qed
qed

lemma V2P_page:
  assumes "page_ok lo hi p" and "KBASE \<le> lo"
  shows "unat (V2P (of_nat p)) = p - KBASE" "unat (V2P (of_nat p)) mod PGSIZE = 0" "unat (V2P (of_nat p)) < 2 ^ 48"
proof -
  have p: "KBASE \<le> p" "p < 2 ^ 64" "p mod PGSIZE = 0" using assms by (auto simp: page_ok_def)
  have u: "unat (of_nat p :: u64) = p" using p by (simp add: unat_of_nat take_bit_nat_eq_self)
  have "KERNBASE \<le> (of_nat p :: u64)" using p u by (simp add: word_le_nat_alt)
  then show e: "unat (V2P (of_nat p)) = p - KBASE" using u by (simp add: V2P_def unat_sub)
  show "unat (V2P (of_nat p)) < 2 ^ 48" using p by (simp add: e)
  have "KBASE mod PGSIZE = 0" by simp
  then show "unat (V2P (of_nat p)) mod PGSIZE = 0" unfolding e using p(3)
    by (metis dvd_diff_nat mod_eq_0_iff_dvd)
qed

lemma P2V_V2P:
  assumes "page_ok lo hi p" and "KBASE \<le> lo"
  shows "P2V (V2P (of_nat p)) = p"
proof -
  have "p < 2 ^ 64" using assms by (auto simp: page_ok_def)
  then show ?thesis by (simp add: P2V_def V2P_def unat_of_nat take_bit_nat_eq_self)
qed

text \<open>The flag bits do not touch the address.\<close>

lemma PTE2PA_or:
  assumes "page_ok lo hi p" and "KBASE \<le> lo" and "f AND 0xfffffffff000 = 0"
  shows "P2V (PTE2PA (PA2PTE (V2P (of_nat p)) OR f)) = p"
proof -
  have a: "PA2PTE (V2P (of_nat p)) = V2P (of_nat p)"
    using pa_mask V2P_page[OF assms(1,2)] by (simp add: PA2PTE_def)
  have "PTE2PA (PA2PTE (V2P (of_nat p)) OR f)
      = (V2P (of_nat p) AND 0xfffffffff000) OR (f AND 0xfffffffff000)"
    unfolding a PTE2PA_def by (simp add: bit.conj_disj_distrib2)
  also have "\<dots> = V2P (of_nat p)" using pa_mask V2P_page[OF assms(1,2)] assms(3) by simp
  finally show ?thesis using P2V_V2P[OF assms(1,2)] by simp
qed

lemma table_pte: "page_ok lo hi p \<Longrightarrow> KBASE \<le> lo \<Longrightarrow> P2V (PTE2PA (table_pte p)) = p"
  "is_table (table_pte p)"
proof -
  show "page_ok lo hi p \<Longrightarrow> KBASE \<le> lo \<Longrightarrow> P2V (PTE2PA (table_pte p)) = p"
    unfolding table_pte_def or.assoc by (rule PTE2PA_or) (simp_all)
  have "(x OR 2 OR 1) AND 1 = 1" "(x OR 2 OR 1) AND 2 = 2" for x :: u64
    by (rule bit_word_eqI; auto simp: bit_simps)+
  then show "is_table (table_pte p)" by (simp add: is_table_def table_pte_def)
qed

section \<open>Nodes\<close>

text \<open>The page of the node that the indices \<open>is\<close> lead to from \<open>pt\<close>.\<close>

fun node :: "kmem \<Rightarrow> nat \<Rightarrow> nat list \<Rightarrow> nat option" where
  "node km pt [] = Some pt"
| "node km pt (i # is) = (if is_table (ent km pt i) then node km (P2V (PTE2PA (ent km pt i))) is else None)"

definition step_node :: "kmem \<Rightarrow> nat \<Rightarrow> nat \<Rightarrow> nat option" where
  "step_node km a i = (if is_table (ent km a i) then Some (P2V (PTE2PA (ent km a i))) else None)"

lemma node_snoc: "node km pt (p @ [i]) = Option.bind (node km pt p) (\<lambda>a. step_node km a i)"
  by (induction p arbitrary: pt) (auto simp: step_node_def)

definition va_path :: "u64 \<Rightarrow> nat list" where
  "va_path va = [PX 1 va, PX 2 va]"

lemma vpn_path: "vpn va = vpn vb \<longleftrightarrow> va_path va = va_path vb \<and> PX 3 va = PX 3 vb"
  by (auto simp: vpn_eq_iff va_path_def)

text \<open>The entry of the address, 0 where there is no table for it; \<open>walk\<close> without \<open>alloc\<close> finds it.\<close>

definition pte_of :: "kmem \<Rightarrow> nat \<Rightarrow> u64 \<Rightarrow> u64" where
  "pte_of km pt va = (case node km pt (va_path va) of None \<Rightarrow> 0 | Some a \<Rightarrow> ent km a (PX 3 va))"

definition slot :: "kmem \<Rightarrow> nat \<Rightarrow> u64 \<Rightarrow> nat" where
  "slot km pt va = (case node km pt (va_path va) of None \<Rightarrow> 0 | Some a \<Rightarrow> a + 8 * PX 3 va)"

lemma walk_from_3: "walk_from 3 pt va al km = (pt + 8 * PX 3 va, km)"
  by (subst walk_from.simps) simp

lemma walk_from_step:
  "l < 3 \<Longrightarrow> walk_from l pt va al km =
     (case step_node km pt (PX l va) of
        Some a \<Rightarrow> walk_from (l + 1) a va al km
      | None \<Rightarrow> if \<not> al then (0, km)
          else (case kalloc km of (q, km1) \<Rightarrow>
            if q = 0 then (0, km1)
            else walk_from (l + 1) q va al (set_pte (pt + 8 * PX l va) (table_pte q) (zero_page q km1))))"
  unfolding table_pte_def by (subst walk_from.simps) (simp add: step_node_def Let_def)

lemma walk_from_12:
  "walk_from 1 pt va al km =
     (case step_node km pt (PX 1 va) of
        Some a \<Rightarrow> walk_from 2 a va al km
      | None \<Rightarrow> if \<not> al then (0, km)
          else (case kalloc km of (q, km1) \<Rightarrow>
            if q = 0 then (0, km1)
            else walk_from 2 q va al (set_pte (pt + 8 * PX 1 va) (table_pte q) (zero_page q km1))))"
  "walk_from 2 pt va al km =
     (case step_node km pt (PX 2 va) of
        Some a \<Rightarrow> (a + 8 * PX 3 va, km)
      | None \<Rightarrow> if \<not> al then (0, km)
          else (case kalloc km of (q, km1) \<Rightarrow>
            if q = 0 then (0, km1)
            else (q + 8 * PX 3 va, set_pte (pt + 8 * PX 2 va) (table_pte q) (zero_page q km1))))"
proof -
  have n: "1 + 1 = (2 :: nat)" "2 + 1 = (3 :: nat)" by simp_all
  show "walk_from 1 pt va al km = (case step_node km pt (PX 1 va) of
        Some a \<Rightarrow> walk_from 2 a va al km
      | None \<Rightarrow> if \<not> al then (0, km)
          else (case kalloc km of (q, km1) \<Rightarrow>
            if q = 0 then (0, km1)
            else walk_from 2 q va al (set_pte (pt + 8 * PX 1 va) (table_pte q) (zero_page q km1))))"
    by (subst walk_from_step, simp, simp only: n)
  show "walk_from 2 pt va al km = (case step_node km pt (PX 2 va) of
        Some a \<Rightarrow> (a + 8 * PX 3 va, km)
      | None \<Rightarrow> if \<not> al then (0, km)
          else (case kalloc km of (q, km1) \<Rightarrow>
            if q = 0 then (0, km1)
            else (q + 8 * PX 3 va, set_pte (pt + 8 * PX 2 va) (table_pte q) (zero_page q km1))))"
    by (subst walk_from_step, simp, simp only: n walk_from_3)
qed

lemma node_path: "node km pt (va_path va) = Option.bind (step_node km pt (PX 1 va)) (\<lambda>a. step_node km a (PX 2 va))"
  by (simp add: va_path_def step_node_def)

lemma walk_from_ro: "walk_from 1 pt va False km = (slot km pt va, km)"
  unfolding walk_from_12 slot_def node_path
  by (cases "step_node km pt (PX 1 va)") (auto simp: walk_from_12 split: option.split)

definition short :: "nat list \<Rightarrow> bool" where
  "short p \<longleftrightarrow> length p \<le> 2 \<and> (\<forall>i \<in> set p. i < 512)"

lemma short_path [simp]: "short (va_path va)"
  by (simp add: short_def va_path_def)

lemma short_snoc: "short (p @ [i]) \<longleftrightarrow> length p < 2 \<and> (\<forall>i \<in> set p. i < 512) \<and> i < 512"
  by (auto simp: short_def)

section \<open>Sound sets of tables\<close>

definition vm_ok :: "nat \<Rightarrow> nat \<Rightarrow> kmem \<Rightarrow> nat set \<Rightarrow> nat set \<Rightarrow> bool" where
  "vm_ok lo hi km R D \<longleftrightarrow> kinv lo hi km \<and> KBASE < lo \<and> hi \<le> KTOP
     \<and> (\<forall>pt \<in> R. \<forall>p a. short p \<and> node km pt p = Some a \<longrightarrow> page_ok lo hi a \<and> a \<notin> kfree_set km \<and> a \<notin> D)
     \<and> (\<forall>pt \<in> R. \<forall>pt' \<in> R. \<forall>p p' a. short p \<and> short p' \<and> node km pt p = Some a \<and> node km pt' p' = Some a
          \<longrightarrow> pt = pt' \<and> p = p')
     \<and> (\<forall>d \<in> D. page_ok lo hi d \<and> d \<notin> kfree_set km)"

lemma vm_okD:
  assumes "vm_ok lo hi km R D"
  shows "kinv lo hi km" "KBASE \<le> lo"
    and "pt \<in> R \<Longrightarrow> short p \<Longrightarrow> node km pt p = Some a \<Longrightarrow> page_ok lo hi a"
    and "pt \<in> R \<Longrightarrow> short p \<Longrightarrow> node km pt p = Some a \<Longrightarrow> a \<notin> kfree_set km"
    and "pt \<in> R \<Longrightarrow> short p \<Longrightarrow> node km pt p = Some a \<Longrightarrow> a \<notin> D"
    and "pt \<in> R \<Longrightarrow> pt' \<in> R \<Longrightarrow> short p \<Longrightarrow> short p' \<Longrightarrow> node km pt p = Some a \<Longrightarrow> node km pt' p' = Some a
      \<Longrightarrow> pt = pt' \<and> p = p'"
    and "d \<in> D \<Longrightarrow> page_ok lo hi d" "d \<in> D \<Longrightarrow> d \<notin> kfree_set km"
  using assms unfolding vm_ok_def by (blast, fastforce, blast+)

text \<open>Bytes outside the free pages do not matter to the allocator.\<close>

definition in_page :: "nat \<Rightarrow> nat \<Rightarrow> bool" where
  "in_page d x \<longleftrightarrow> d \<le> x \<and> x < d + PGSIZE"

lemma kinv_cong:
  assumes i: "kinv lo hi km" and f: "kfreelist km' = kfreelist km"
    and eq: "\<And>p x. p \<in> kfree_set km \<Longrightarrow> in_page p x \<Longrightarrow> kpages km' x = kpages km x"
  shows "kinv lo hi km'" "kfree_set km' = kfree_set km"
proof -
  obtain xs where l: "klist lo hi km xs" using i by (auto simp: kinv_def)
  have "rd64 (kpages km') x = rd64 (kpages km) x" if "x \<in> set xs" for x
    by (rule rd64_cong, rule eq[of x]) (use that kfree_set_klist[OF l] in \<open>auto simp: in_page_def\<close>)
  then have l': "klist lo hi km' xs"
    using l chain_cong[of xs "kpages km'" "kpages km" "kfreelist km"] by (simp add: klist_def f)
  show "kinv lo hi km'" using l' by (auto simp: kinv_def)
  show "kfree_set km' = kfree_set km" using kfree_set_klist[OF l] kfree_set_klist[OF l'] by simp
qed

lemma pages_disjoint:
  assumes "page_ok lo hi a" "page_ok lo hi b" "a \<noteq> b" "in_page a x"
  shows "\<not> in_page b x"
proof -
  have "a = PGSIZE * (a div PGSIZE)" "b = PGSIZE * (b div PGSIZE)" using assms by (auto simp: page_ok_def)
  then obtain k l where kl: "a = PGSIZE * k" "b = PGSIZE * l" by blast
  then have "k < l \<or> l < k" using assms(3) by auto
  then show ?thesis using assms(4) kl by (auto simp: in_page_def)
qed

lemma ent_cong: "(\<And>x. in_page a x \<Longrightarrow> kpages km' x = kpages km x) \<Longrightarrow> i < 512 \<Longrightarrow> ent km' a i = ent km a i"
  unfolding ent_def by (rule rd64_cong) (auto simp: in_page_def)

text \<open>A change within pages that are no nodes leaves the tables as they are.\<close>

lemma node_cong:
  assumes "\<And>q b i. short q \<Longrightarrow> length q < 2 \<Longrightarrow> node km pt q = Some b \<Longrightarrow> i < 512 \<Longrightarrow> ent km' b i = ent km b i"
    and "short p"
  shows "node km' pt p = node km pt p"
  using assms(2)
proof (induction p rule: rev_induct)
  case (snoc i p)
  then have p: "short p" "length p < 2" "i < 512" by (auto simp: short_snoc short_def)
  have "step_node km' b i = step_node km b i" if "node km pt p = Some b" for b
    using assms(1)[OF p(1,2) that p(3)] by (simp add: step_node_def)
  then show ?case using snoc.IH[OF p(1)] by (cases "node km pt p") (simp_all add: node_snoc)
qed simp

text \<open>What every operation on other pages leaves as it was.\<close>

definition vm_keeps :: "nat \<Rightarrow> nat \<Rightarrow> nat set \<Rightarrow> nat set \<Rightarrow> kmem \<Rightarrow> kmem \<Rightarrow> bool" where
  "vm_keeps lo hi R D km km' \<longleftrightarrow> vm_ok lo hi km' R D
     \<and> (\<forall>pt \<in> R. \<forall>va. pte_of km' pt va = pte_of km pt va)
     \<and> (\<forall>pt \<in> R. \<forall>p a. short p \<and> node km pt p = Some a \<longrightarrow> node km' pt p = Some a)
     \<and> (\<forall>d \<in> D. \<forall>x. in_page d x \<longrightarrow> kpages km' x = kpages km x)
     \<and> kfree_set km' \<subseteq> kfree_set km"

lemma vm_keeps_refl: "vm_ok lo hi km R D \<Longrightarrow> vm_keeps lo hi R D km km"
  by (simp add: vm_keeps_def)

lemma vm_keeps_trans: "vm_keeps lo hi R D a b \<Longrightarrow> vm_keeps lo hi R D b c \<Longrightarrow> vm_keeps lo hi R D a c"
  unfolding vm_keeps_def by auto

section \<open>Memory\<close>

lemma kalloc_mem: "kalloc km = (q, km1) \<Longrightarrow> \<not> in_page q x \<Longrightarrow> kpages km1 x = kpages km x"
  by (auto simp: kalloc_def Let_def in_page_def memset_apply split: if_splits)

lemma zero_page_mem: "kpages (zero_page q km) x = (if in_page q x then 0 else kpages km x)"
  by (simp add: zero_page_def memset_apply in_page_def)

lemma zero_page_fl [simp]: "kfreelist (zero_page q km) = kfreelist km"
  by (simp add: zero_page_def)

lemma set_pte_mem: "i < 512 \<Longrightarrow> \<not> in_page a x \<Longrightarrow> kpages (set_pte (a + 8 * i) v km) x = kpages km x"
  by (simp add: set_pte_def in_page_def) (rule wr64_other, auto)

lemma set_pte_fl [simp]: "kfreelist (set_pte a v km) = kfreelist km"
  by (simp add: set_pte_def)

lemma ent_set_pte:
  assumes "page_ok lo hi a" "page_ok lo hi b" "i < 512" "j < 512"
  shows "ent (set_pte (a + 8 * i) v km) b j = (if b = a \<and> j = i then v else ent km b j)"
proof (cases "b = a")
  case True
  show ?thesis
  proof (cases "j = i")
    case True
    then show ?thesis using \<open>b = a\<close> by (simp add: ent_def set_pte_def rd64_wr64)
  next
    case False
    then have "b + 8 * j + k < a + 8 * i \<or> a + 8 * i + 8 \<le> b + 8 * j + k" if "k < 8" for k
      using \<open>b = a\<close> that by linarith
    then show ?thesis using False unfolding ent_def set_pte_def
      by (auto intro!: rd64_cong wr64_other)
  qed
next
  case False
  then show ?thesis using assms pages_disjoint[OF assms(2,1) False]
    by (auto intro!: ent_cong set_pte_mem)
qed

lemma ent_zero_page: "j < 512 \<Longrightarrow> ent (zero_page q km) q j = 0"
proof -
  assume "j < 512"
  then have "ent (zero_page q km) q j = rd64 (\<lambda>_. 0) (q + 8 * j)"
    unfolding ent_def by (intro rd64_cong) (simp add: zero_page_mem in_page_def)
  then show ?thesis by (simp add: rd64_def rd32_def)
qed

section \<open>A new table page\<close>

text \<open>What \<open>walk\<close> does where a table is missing, in a sound set of tables.\<close>

lemma grow_ent:
  assumes ok: "vm_ok lo hi km R D" and k: "kalloc km = (q, km1)" "q \<noteq> 0"
    and a: "page_ok lo hi a" "a \<noteq> q" and i: "i < 512" and b: "page_ok lo hi b" and j: "j < 512"
  shows "ent (set_pte (a + 8 * i) v (zero_page q km1)) b j =
    (if b = q then 0 else if b = a \<and> j = i then v else ent km b j)"
proof -
  have q: "page_ok lo hi q"
    using ka.alloc_some[OF vm_okD(1)[OF ok] k] ka.valid_free[OF vm_okD(1)[OF ok]] by auto
  have other: "ent (zero_page q km1) b j = ent km b j" if "b \<noteq> q"
    using pages_disjoint[OF b q that] by (intro ent_cong[OF _ j]) (simp add: zero_page_mem kalloc_mem[OF k(1)])
  show ?thesis using a(2) other ent_zero_page[OF j, of q km1] by (simp add: ent_set_pte[OF a(1) b i j])
qed

lemma grow_node:
  assumes ok: "vm_ok lo hi km R D" and k: "kalloc km = (q, km1)" "q \<noteq> 0"
    and pt: "pt \<in> R" and p: "short (p @ [i])" "node km pt p = Some a" "step_node km a i = None"
    and pt': "pt' \<in> R" and r: "short r"
  defines "km2 \<equiv> set_pte (a + 8 * i) (table_pte q) (zero_page q km1)"
  shows "node km2 pt' r = (if pt' = pt \<and> r = p @ [i] then Some q else node km pt' r)"
  using r
proof (induction r rule: rev_induct)
  case (snoc j r)
  note A = ka.alloc_some[OF vm_okD(1)[OF ok] k]
  have q: "page_ok lo hi q" "q \<in> kfree_set km" using A ka.valid_free[OF vm_okD(1)[OF ok]] by auto
  have i: "short p" "i < 512" using p(1) by (auto simp: short_snoc short_def)
  have a: "page_ok lo hi a" "a \<noteq> q" using vm_okD(3,4)[OF ok pt i(1) p(2)] q(2) by auto
  have r: "short r" "j < 512" using snoc.prems by (auto simp: short_snoc short_def)
  note IH = snoc.IH[OF r(1)]
  note e = grow_ent[OF ok k a i(2) _ r(2), of _ "table_pte q", folded km2_def]
  show ?case
  proof (cases "pt' = pt \<and> r = p @ [i]")
    case True
    then have "step_node km2 q j = None" using e[OF q(1)] by (simp add: step_node_def is_table_def)
    then have new: "node km2 pt' (r @ [j]) = None" using True IH unfolding node_snoc by simp
    have "node km pt (p @ [i]) = None" using p(2,3) by (simp add: node_snoc)
    then have "node km pt' (r @ [j]) = None" using True unfolding node_snoc[of km pt' r] by simp
    then show ?thesis using new True by simp
  next
    case False
    then have eq: "node km2 pt' r = node km pt' r" using IH unfolding if_not_P[OF False] by simp
    show ?thesis
    proof (cases "node km pt' r")
      case None
      have "\<not> (pt' = pt \<and> r = p)" using None p(2) by auto
      then show ?thesis using eq None by (auto simp: node_snoc)
    next
      case (Some b)
      have b: "page_ok lo hi b" "b \<noteq> q" using vm_okD(3,4)[OF ok pt' r(1) Some] q(2) by auto
      show ?thesis
      proof (cases "b = a \<and> j = i")
        case True
        then have "pt' = pt \<and> r = p" using vm_okD(6)[OF ok pt' pt r(1) i(1)] Some p(2) by blast
        moreover have "step_node km2 b j = Some q"
          using e[OF b(1)] b(2) True table_pte(1)[OF q(1) vm_okD(2)[OF ok]] table_pte(2) by (simp add: step_node_def)
        ultimately show ?thesis using eq Some True by (simp add: node_snoc)
      next
        case F: False
        have "ent km2 b j = ent km b j" using e[OF b(1)] unfolding if_not_P[OF b(2)] if_not_P[OF F] .
        then have "step_node km2 b j = step_node km b j" by (simp add: step_node_def)
        moreover have ne: "\<not> (pt' = pt \<and> r @ [j] = p @ [i])" using F Some p(2) by auto
        ultimately show ?thesis unfolding if_not_P[OF ne] node_snoc using eq Some by simp
      qed
    qed
  qed
qed simp

lemma grow_keeps:
  assumes ok: "vm_ok lo hi km R D" and k: "kalloc km = (q, km1)" "q \<noteq> 0"
    and pt: "pt \<in> R" and p: "short (p @ [i])" "node km pt p = Some a" "step_node km a i = None"
  defines "km2 \<equiv> set_pte (a + 8 * i) (table_pte q) (zero_page q km1)"
  shows "vm_keeps lo hi R D km km2" "node km2 pt (p @ [i]) = Some q" "kfree_set km2 = kfree_set km - {q}"
proof -
  note A = ka.alloc_some[OF vm_okD(1)[OF ok] k]
  have q: "page_ok lo hi q" "q \<in> kfree_set km" using A ka.valid_free[OF vm_okD(1)[OF ok]] by auto
  have i: "short p" "length p < 2" "i < 512" using p(1) by (auto simp: short_snoc short_def)
  have a: "page_ok lo hi a" "a \<notin> kfree_set km" "a \<notin> D" "a \<noteq> q"
    using vm_okD(3,4,5)[OF ok pt i(1) p(2)] q(2) by auto
  note N = grow_node[OF ok k pt p, folded km2_def]
  have none: "node km pt (p @ [i]) = None" using p(2,3) by (simp add: node_snoc)
  show "node km2 pt (p @ [i]) = Some q" using N[OF pt p(1)] by simp
  have mem: "kpages km2 x = kpages km x" if "\<not> in_page q x" "\<not> in_page a x" for x
    unfolding km2_def using set_pte_mem[OF i(3) that(2)] that(1) kalloc_mem[OF k(1)] by (simp add: zero_page_mem)
  have inv: "kinv lo hi km2" "kfree_set km2 = kfree_set km - {q}"
  proof -
    have "kpages km2 x = kpages km1 x" if "d \<in> kfree_set km1" "in_page d x" for d x
    proof -
      have d: "page_ok lo hi d" "d \<noteq> q" "d \<noteq> a" using that(1) A a(2) ka.valid_free[OF conjunct1[OF A]] by auto
      then show ?thesis unfolding km2_def
        using set_pte_mem[OF i(3) pages_disjoint[OF d(1) a(1) d(3) that(2)]] pages_disjoint[OF d(1) q(1) d(2) that(2)]
        by (simp add: zero_page_mem)
    qed
    then show "kinv lo hi km2" "kfree_set km2 = kfree_set km - {q}"
      using kinv_cong[OF conjunct1[OF A], of km2] A by (auto simp: km2_def)
  qed
  have D: "kpages km2 x = kpages km x" if "d \<in> D" "in_page d x" for d x
  proof (rule mem)
    have d: "page_ok lo hi d" "d \<noteq> q" "d \<noteq> a" using vm_okD(7,8)[OF ok that(1)] q(2) a(3) that(1) by auto
    show "\<not> in_page q x" "\<not> in_page a x"
      using pages_disjoint[OF d(1) q(1) d(2) that(2)] pages_disjoint[OF d(1) a(1) d(3) that(2)] .
  qed
  have nodes: "node km2 pt' r = Some b \<longleftrightarrow> (if pt' = pt \<and> r = p @ [i] then b = q else node km pt' r = Some b)"
    if "pt' \<in> R" "short r" for pt' r b
    using N[OF that] by auto
  have ok2: "vm_ok lo hi km2 R D"
    unfolding vm_ok_def inv(2)
  proof (intro conjI ballI allI impI)
    show "kinv lo hi km2" "KBASE < lo" "hi \<le> KTOP" using inv(1) ok by (auto simp: vm_ok_def)
  next
    fix pt' r b assume pt': "pt' \<in> R" and "short r \<and> node km2 pt' r = Some b"
    then have r: "short r" "if pt' = pt \<and> r = p @ [i] then b = q else node km pt' r = Some b" using nodes by auto
    have "page_ok lo hi b \<and> b \<notin> kfree_set km - {q} \<and> b \<notin> D"
      using r(2) q vm_okD(8)[OF ok, of q] vm_okD(3-5)[OF ok pt' r(1)] by (auto split: if_splits)
    then show "page_ok lo hi b" "b \<notin> kfree_set km - {q}" "b \<notin> D" by auto
  next
    fix pt1 pt2 p1 p2 b
    assume R: "pt1 \<in> R" "pt2 \<in> R" and "short p1 \<and> short p2 \<and> node km2 pt1 p1 = Some b \<and> node km2 pt2 p2 = Some b"
    then have s: "short p1" "short p2" and
      n: "if pt1 = pt \<and> p1 = p @ [i] then b = q else node km pt1 p1 = Some b"
         "if pt2 = pt \<and> p2 = p @ [i] then b = q else node km pt2 p2 = Some b" using nodes R by auto
    have "pt1 = pt2 \<and> p1 = p2"
      using n vm_okD(6)[OF ok R s] vm_okD(4)[OF ok R(1) s(1)] vm_okD(4)[OF ok R(2) s(2)] q(2)
      by (auto split: if_splits)
    then show "pt1 = pt2" "p1 = p2" by auto
  next
    fix d assume "d \<in> D"
    then show "page_ok lo hi d" "d \<notin> kfree_set km - {q}" using vm_okD(7,8)[OF ok] by auto
  qed
  have pte: "pte_of km2 pt' va = pte_of km pt' va" if pt': "pt' \<in> R" for pt' va
  proof (cases "pt' = pt \<and> va_path va = p @ [i]")
    case True
    then have "node km2 pt' (va_path va) = Some q" using N[OF pt' short_path, of va] by simp
    moreover have "node km pt' (va_path va) = None" using none True by simp
    moreover have "ent km2 q (PX 3 va) = 0"
      using grow_ent[OF ok k a(1,4) i(3) q(1), of "PX 3 va" "table_pte q"] by (simp add: km2_def)
    ultimately show ?thesis by (simp add: pte_of_def)
  next
    case False
    then have eq: "node km2 pt' (va_path va) = node km pt' (va_path va)" using N[OF pt' short_path, of va] by auto
    have "ent km2 b (PX 3 va) = ent km b (PX 3 va)" if b: "node km pt' (va_path va) = Some b" for b
    proof -
      have "b \<noteq> a" using vm_okD(6)[OF ok pt' pt short_path i(1) b] p(2) i(2) by (auto simp: va_path_def)
      moreover have "page_ok lo hi b" "b \<noteq> q" using vm_okD(3,4)[OF ok pt' short_path b] q(2) by auto
      ultimately show ?thesis
        using grow_ent[OF ok k a(1,4) i(3), of b "PX 3 va" "table_pte q"] by (simp add: km2_def)
    qed
    then show ?thesis using eq by (simp add: pte_of_def split: option.split)
  qed
  have keep: "node km2 pt' r = Some b" if "pt' \<in> R" "short r" "node km pt' r = Some b" for pt' r b
    using nodes[OF that(1,2)] that(3) none by auto
  show "vm_keeps lo hi R D km km2"
    unfolding vm_keeps_def using ok2 pte keep D inv(2) by auto
  show "kfree_set km2 = kfree_set km - {q}" by (rule inv(2))
qed

section \<open>Walking\<close>

text \<open>
  \<open>walk\<close> with \<open>alloc\<close> changes no mapping; it returns the place of the entry, or 0 when there is no
  page for a table.
\<close>

lemma walk_level:
  assumes ok: "vm_ok lo hi km R D" and pt: "pt \<in> R" and p: "short (p @ [i])" "node km pt p = Some a"
  shows "(case step_node km a i of
        Some b \<Rightarrow> node km pt (p @ [i]) = Some b
      | None \<Rightarrow> (case kalloc km of (q, km1) \<Rightarrow>
          if q = 0 then km1 = km \<and> kfree_set km = {}
          else vm_keeps lo hi R D km (set_pte (a + 8 * i) (table_pte q) (zero_page q km1))
            \<and> node (set_pte (a + 8 * i) (table_pte q) (zero_page q km1)) pt (p @ [i]) = Some q))"
proof (cases "step_node km a i")
  case None
  obtain q km1 where k: "kalloc km = (q, km1)" by force
  show ?thesis
  proof (cases "q = 0")
    case True
    then show ?thesis using None k ka.alloc_none[OF vm_okD(1)[OF ok], of km1] by simp
  next
    case False
    then show ?thesis using None k grow_keeps[OF ok k False pt p None] by simp
  qed
qed (use p in \<open>simp add: node_snoc\<close>)

lemma vm_keepsD:
  assumes "vm_keeps lo hi R D km km'"
  shows "vm_ok lo hi km' R D" "pt \<in> R \<Longrightarrow> pte_of km' pt va = pte_of km pt va"
    and "pt \<in> R \<Longrightarrow> short p \<Longrightarrow> node km pt p = Some a \<Longrightarrow> node km' pt p = Some a"
    and "d \<in> D \<Longrightarrow> in_page d x \<Longrightarrow> kpages km' x = kpages km x"
    and "kfree_set km' \<subseteq> kfree_set km"
  using assms unfolding vm_keeps_def by blast+

lemma walk_keeps:
  assumes ok: "vm_ok lo hi km R D" and pt: "pt \<in> R" and w: "walk_from 1 pt va True km = (s, km')"
  shows "vm_keeps lo hi R D km km'"
    and "if s = 0 then kfree_set km' = {} else \<exists>b. node km' pt (va_path va) = Some b \<and> s = b + 8 * PX 3 va"
proof -
  let ?res = "if s = 0 then kfree_set km' = {} else \<exists>b. node km' pt (va_path va) = Some b \<and> s = b + 8 * PX 3 va"

  have root: "node km pt [] = Some pt" by simp
  have path: "va_path va = [PX 1 va] @ [PX 2 va]" by (simp add: va_path_def)
  have s1: "short ([] @ [PX 1 va])" and s2: "short ([PX 1 va] @ [PX 2 va])" by (simp_all add: short_def)
  have second: "vm_keeps lo hi R D k0 km' \<and> ?res"
    if k0: "vm_ok lo hi k0 R D" and a: "node k0 pt [PX 1 va] = Some a" and w2: "walk_from 2 a va True k0 = (s, km')"
    for k0 a
  proof (cases "step_node k0 a (PX 2 va)")
    case (Some b)
    then have n: "node k0 pt (va_path va) = Some b" using walk_level[OF k0 pt s2 a, folded path] by simp
    then have "b \<noteq> 0" using vm_okD(3)[OF k0 pt short_path n] by (simp add: page_ok_def)
    moreover have "s = b + 8 * PX 3 va" "km' = k0" using w2[unfolded walk_from_12(2)] Some by simp_all
    ultimately show ?thesis using n vm_keeps_refl[OF k0] by simp
  next
    case None
    obtain q k1 where k: "kalloc k0 = (q, k1)" by force
    show ?thesis
    proof (cases "q = 0")
      case True
      then show ?thesis using walk_level[OF k0 pt s2 a, folded path] w2[unfolded walk_from_12(2)] None k vm_keeps_refl[OF k0] by auto
    next
      case False
      then show ?thesis using walk_level[OF k0 pt s2 a, folded path] w2[unfolded walk_from_12(2)] None k
        by auto
    qed
  qed
  have "vm_keeps lo hi R D km km' \<and> ?res"
  proof (cases "step_node km pt (PX 1 va)")
    case (Some a)
    then have a: "node km pt [PX 1 va] = Some a" using walk_level[OF ok pt s1 root] by simp
    have "walk_from 2 a va True km = (s, km')" using w[unfolded walk_from_12(1)] Some by simp
    from second[OF ok a this] show ?thesis .
  next
    case None
    obtain q km1 where k: "kalloc km = (q, km1)" by force
    show ?thesis
    proof (cases "q = 0")
      case True
      then show ?thesis using walk_level[OF ok pt s1 root] w[unfolded walk_from_12(1)] None k vm_keeps_refl[OF ok]
        by auto
    next
      case False
      let ?k = "set_pte (pt + 8 * PX 1 va) (table_pte q) (zero_page q km1)"
      have g: "vm_keeps lo hi R D km ?k" "node ?k pt [PX 1 va] = Some q"
        using walk_level[OF ok pt s1 root] None k False by auto
      have "walk_from 2 q va True ?k = (s, km')" using w[unfolded walk_from_12(1)] None k False by simp
      from second[OF vm_keepsD(1)[OF g(1)] g(2) this] show ?thesis using vm_keeps_trans[OF g(1)] by blast
    qed
  qed
  then show "vm_keeps lo hi R D km km'" ?res by auto
qed

text \<open>Two free pages are enough for a walk.\<close>

lemma kalloc_0: "kinv lo hi km \<Longrightarrow> kalloc km = (q, km1) \<Longrightarrow> kfree_set km \<noteq> {} \<Longrightarrow> q \<noteq> 0"
  using ka.alloc_none by (cases "q = 0") auto

lemma walk_enough:
  assumes ok: "vm_ok lo hi km R D" and pt: "pt \<in> R" and w: "walk_from 1 pt va True km = (s, km')"
    and two: "x \<in> kfree_set km" "y \<in> kfree_set km" "x \<noteq> y"
  shows "s \<noteq> 0"
proof -
  have s1: "short ([] @ [PX 1 va])" and s2: "short ([PX 1 va] @ [PX 2 va])" by (simp_all add: short_def)
  have second: "fst (walk_from 2 a va True k0) \<noteq> 0"
    if k0: "vm_ok lo hi k0 R D" and a: "node k0 pt [PX 1 va] = Some a" and f: "kfree_set k0 \<noteq> {}" for k0 a
  proof (cases "step_node k0 a (PX 2 va)")
    case (Some b)
    have "node k0 pt ([PX 1 va] @ [PX 2 va]) = Some b" using a Some unfolding node_snoc by simp
    from vm_okD(3)[OF k0 pt s2 this] have "b \<noteq> 0" by (simp add: page_ok_def)
    then show ?thesis unfolding walk_from_12(2) using Some by simp
  next
    case None
    then show ?thesis unfolding walk_from_12(2) using kalloc_0[OF vm_okD(1)[OF k0] _ f]
      by (auto split: prod.split)
  qed
  show ?thesis
  proof (cases "step_node km pt (PX 1 va)")
    case (Some a)
    then have "node km pt [PX 1 va] = Some a" by (simp add: step_node_def split: if_splits)
    then show ?thesis using second[OF ok] two(1) w[unfolded walk_from_12(1)] Some by force
  next
    case None
    obtain q km1 where k: "kalloc km = (q, km1)" by force
    have q: "q \<noteq> 0" using kalloc_0[OF vm_okD(1)[OF ok] k] two(1) by auto
    have root: "node km pt [] = Some pt" by simp
    note G = grow_keeps[OF ok k q pt s1 root None, unfolded append_Nil]
    show ?thesis
      using second[OF vm_keepsD(1)[OF G(1)] G(2)] G(3) two w[unfolded walk_from_12(1)] None k q
      by (cases "x = q") auto
  qed
qed

section \<open>Changing entries and pages\<close>

text \<open>Pages that are no nodes may change; whoever holds them sees to the free list.\<close>

lemma vm_ok_other:
  assumes ok: "vm_ok lo hi km R D" and inv: "kinv lo hi km'" "kfree_set km' \<union> D' \<subseteq> kfree_set km \<union> D"
    "\<forall>d \<in> D'. d \<notin> kfree_set km'"
    and eq: "\<And>a x. page_ok lo hi a \<Longrightarrow> a \<notin> kfree_set km \<union> D \<Longrightarrow> in_page a x \<Longrightarrow> kpages km' x = kpages km x"
  shows "vm_ok lo hi km' R D'" and "pt \<in> R \<Longrightarrow> pte_of km' pt va = pte_of km pt va"
    and "pt \<in> R \<Longrightarrow> short p \<Longrightarrow> node km' pt p = node km pt p"
proof -
  have e: "ent km' b i = ent km b i" if "pt \<in> R" "short p" "node km pt p = Some b" "i < 512" for pt p b i
    by (rule ent_cong[OF eq]) (use vm_okD(3-5)[OF ok that(1-3)] that(4) in auto)
  have n: "node km' pt p = node km pt p" if "pt \<in> R" "short p" for pt p
    by (rule node_cong[OF _ that(2)]) (use e[OF that(1)] in blast)
  then show "pt \<in> R \<Longrightarrow> short p \<Longrightarrow> node km' pt p = node km pt p" .
  show "pte_of km' pt va = pte_of km pt va" if "pt \<in> R"
    using n[OF that short_path, of va] e[OF that short_path] by (simp add: pte_of_def split: option.split)
  have D': "page_ok lo hi d" if "d \<in> D'" for d
    using that inv(2) ka.valid_free[OF vm_okD(1)[OF ok], of d] vm_okD(7)[OF ok, of d] by auto
  show "vm_ok lo hi km' R D'"
    unfolding vm_ok_def
  proof (intro conjI ballI allI impI)
    fix pt p a assume pt: "pt \<in> R" and "short p \<and> node km' pt p = Some a"
    then have "short p" "node km pt p = Some a" using n by auto
    from vm_okD(3-5)[OF ok pt this] inv(2) show "page_ok lo hi a" "a \<notin> kfree_set km'" "a \<notin> D'" by auto
  next
    fix pt pt' p p' a
    assume R: "pt \<in> R" "pt' \<in> R" and "short p \<and> short p' \<and> node km' pt p = Some a \<and> node km' pt' p' = Some a"
    then have "short p" "short p'" "node km pt p = Some a" "node km pt' p' = Some a" using n by auto
    from vm_okD(6)[OF ok R this] show "pt = pt'" "p = p'" by auto
  qed (use inv ok D' in \<open>auto simp: vm_ok_def\<close>)
qed

lemma set_leaf:
  fixes v :: u64
  assumes ok: "vm_ok lo hi km R D" and pt: "pt \<in> R" and b: "node km pt (va_path va) = Some b"
  defines "km' \<equiv> set_pte (b + 8 * PX 3 va) v km"
  shows "vm_ok lo hi km' R D"
    and "pt' \<in> R \<Longrightarrow> pte_of km' pt' va' = (if pt' = pt \<and> vpn va' = vpn va then v else pte_of km pt' va')"
    and "d \<in> D \<Longrightarrow> in_page d x \<Longrightarrow> kpages km' x = kpages km x"
    and "kfree_set km' = kfree_set km"
    and "pt' \<in> R \<Longrightarrow> short p \<Longrightarrow> node km' pt' p = node km pt' p"
proof -
  have B: "page_ok lo hi b" "b \<notin> kfree_set km" "b \<notin> D" using vm_okD(3-5)[OF ok pt short_path b] .
  have mem: "kpages km' x = kpages km x" if "page_ok lo hi d" "d \<noteq> b" "in_page d x" for d x
    unfolding km'_def by (rule set_pte_mem[OF PX_less pages_disjoint[OF that(1) B(1) that(2,3)]])
  have ent: "ent km' c j = (if c = b \<and> j = PX 3 va then v else ent km c j)" if "page_ok lo hi c" "j < 512" for c j
    unfolding km'_def by (rule ent_set_pte[OF B(1) that(1) PX_less that(2)])
  have k: "kinv lo hi km'" "kfree_set km' = kfree_set km"
  proof -
    have "kpages km' x = kpages km x" if "c \<in> kfree_set km" "in_page c x" for c x
      by (rule mem[of c]) (use that B(2) ka.valid_free[OF vm_okD(1)[OF ok]] in auto)
    then show "kinv lo hi km'" "kfree_set km' = kfree_set km"
      using kinv_cong[OF vm_okD(1)[OF ok], of km'] by (auto simp: km'_def)
  qed
  have n: "node km' pt' p = node km pt' p" if "pt' \<in> R" "short p" for pt' p
  proof (rule node_cong[OF _ that(2)])
    fix q c and i :: nat assume q: "short q" "length q < 2" "node km pt' q = Some c" "i < 512"
    have "c \<noteq> b" using vm_okD(6)[OF ok that(1) pt q(1) short_path q(3)] b q(2) by (auto simp: va_path_def)
    then show "ent km' c i = ent km c i" using ent[OF vm_okD(3)[OF ok that(1) q(1,3)] q(4)] by simp
  qed
  then show "pt' \<in> R \<Longrightarrow> short p \<Longrightarrow> node km' pt' p = node km pt' p" .
  show "kfree_set km' = kfree_set km" by (rule k(2))
  show "kpages km' x = kpages km x" if "d \<in> D" "in_page d x"
    by (rule mem[OF vm_okD(7)[OF ok that(1)] _ that(2)]) (use B(3) that(1) in auto)
  show "pte_of km' pt' va' = (if pt' = pt \<and> vpn va' = vpn va then v else pte_of km pt' va')" if pt': "pt' \<in> R"
  proof (cases "node km pt' (va_path va')")
    case None
    then have "\<not> (pt' = pt \<and> vpn va' = vpn va)" using b by (auto simp: vpn_path)
    then show ?thesis using None n[OF pt' short_path, of va'] by (auto simp: pte_of_def)
  next
    case (Some c)
    have "c = b \<and> PX 3 va' = PX 3 va \<longleftrightarrow> pt' = pt \<and> vpn va' = vpn va"
      using vm_okD(6)[OF ok pt' pt short_path short_path Some, of va] b Some by (auto simp: vpn_path)
    then show ?thesis using Some n[OF pt' short_path, of va'] ent[OF vm_okD(3)[OF ok pt' short_path Some], of "PX 3 va'"]
      by (auto simp: pte_of_def)
  qed
  show "vm_ok lo hi km' R D"
    unfolding vm_ok_def k(2)
  proof (intro conjI ballI allI impI)
    fix pt p a assume pt: "pt \<in> R" and "short p \<and> node km' pt p = Some a"
    then have "short p" "node km pt p = Some a" using n by auto
    from vm_okD(3-5)[OF ok pt this] show "page_ok lo hi a" "a \<notin> kfree_set km" "a \<notin> D" .
  next
    fix pt pt' p p' a
    assume R: "pt \<in> R" "pt' \<in> R" and "short p \<and> short p' \<and> node km' pt p = Some a \<and> node km' pt' p' = Some a"
    then have "short p" "short p'" "node km pt p = Some a" "node km pt' p' = Some a" using n by auto
    from vm_okD(6)[OF ok R this] show "pt = pt'" "p = p'" by auto
  qed (use k(1) ok vm_okD(7,8)[OF ok] in \<open>auto simp: vm_ok_def\<close>)
qed

section \<open>mappages\<close>

definition leaf_pte :: "u64 \<Rightarrow> u64 \<Rightarrow> u64" where
  "leaf_pte pa perm = PA2PTE pa OR perm OR PTE_AF OR PTE_V"

lemma leaf_pte_bits: "leaf_pte pa perm AND PTE_AF = PTE_AF" "leaf_pte pa perm AND PTE_V = PTE_V"
proof -
  have "(x OR 0x400 OR 3) AND 0x400 = 0x400" "(x OR 0x400 OR 3) AND 3 = 3" for x :: u64
    by (simp_all add: bit.conj_disj_distrib2 or.assoc)
  then show "leaf_pte pa perm AND PTE_AF = PTE_AF" "leaf_pte pa perm AND PTE_V = PTE_V"
    by (simp_all add: leaf_pte_def or.assoc[symmetric])
qed

lemma pte_of_vpn: "vpn va = vpn vb \<Longrightarrow> pte_of km pt va = pte_of km pt vb"
  by (auto simp: pte_of_def vpn_path split: option.split)

lemma walk_alloc:
  assumes ok: "vm_ok lo hi km R D" and pt: "pt \<in> R" and w: "walk pt va True km = Some (s, km')"
  shows "vm_keeps lo hi R D km km'"
    and "s \<noteq> 0 \<Longrightarrow> \<exists>b. node km' pt (va_path va) = Some b \<and> s = b + 8 * PX 3 va"
    and "s \<noteq> 0 \<Longrightarrow> rd64 (kpages km') s = pte_of km pt va"
    and "s = 0 \<Longrightarrow> kfree_set km' = {}"
proof -
  have wf: "walk_from 1 pt va True km = (s, km')" using w by (simp add: walk_def split: if_splits)
  note W = walk_keeps[OF ok pt wf]
  show "vm_keeps lo hi R D km km'" by (rule W(1))
  show "s = 0 \<Longrightarrow> kfree_set km' = {}" using W(2) by simp
  show b: "\<exists>b. node km' pt (va_path va) = Some b \<and> s = b + 8 * PX 3 va" if "s \<noteq> 0" using W(2) that by simp
  show "rd64 (kpages km') s = pte_of km pt va" if "s \<noteq> 0"
    using b[OF that] vm_keepsD(2)[OF W(1) pt, of va] by (auto simp: pte_of_def ent_def)
qed

text \<open>The pages mapped so far are the first \<open>j\<close>; all of them were free to map.\<close>

definition mapped_upto :: "nat \<Rightarrow> u64 \<Rightarrow> u64 \<Rightarrow> u64 \<Rightarrow> (u64 \<Rightarrow> u64) \<Rightarrow> (u64 \<Rightarrow> u64) \<Rightarrow> bool" where
  "mapped_upto j a pa perm m m' \<longleftrightarrow>
     (\<forall>k < j. m (a + of_nat k * PGSZ) AND PTE_AF = 0 \<and> m' (a + of_nat k * PGSZ) = leaf_pte (pa + of_nat k * PGSZ) perm)
   \<and> (\<forall>va. (\<forall>k < j. vpn va \<noteq> vpn (a + of_nat k * PGSZ)) \<longrightarrow> m' va = m va)"

lemma mapped_upto_Suc:
  assumes m: "mapped_upto j (a + PGSZ) (pa + PGSZ) perm m1 m'"
    and m1: "\<And>va. m1 va = (if vpn va = vpn a then leaf_pte pa perm else m va)"
    and free: "m a AND PTE_AF = 0" and cong: "\<And>va vb. vpn va = vpn vb \<Longrightarrow> m va = m vb"
  shows "mapped_upto (Suc j) a pa perm m m'"
proof -
  have shift: "a + PGSZ + of_nat k * PGSZ = a + of_nat (Suc k) * PGSZ"
    "pa + PGSZ + of_nat k * PGSZ = pa + of_nat (Suc k) * PGSZ" for k
    by (simp_all add: algebra_simps)
  note M = m[unfolded mapped_upto_def shift]
  have ne: "vpn (a + of_nat (Suc k) * PGSZ) \<noteq> vpn a" if "k < j" for k
  proof
    assume "vpn (a + of_nat (Suc k) * PGSZ) = vpn a"
    then have "m1 (a + of_nat (Suc k) * PGSZ) = leaf_pte pa perm" by (simp add: m1)
    then show False using M that by (auto simp: leaf_pte_bits)
  qed
  have "\<forall>k < j. vpn a \<noteq> vpn (a + of_nat (Suc k) * PGSZ)" using ne by (metis)
  then have "m' a = m1 a" using M by blast
  then have first: "m' a = leaf_pte pa perm" by (simp add: m1)
  show ?thesis
    unfolding mapped_upto_def
  proof (intro conjI allI impI)
    fix k assume k: "k < Suc j"
    show "m (a + of_nat k * PGSZ) AND PTE_AF = 0"
      using k free M ne by (cases k) (auto simp: m1)
    show "m' (a + of_nat k * PGSZ) = leaf_pte (pa + of_nat k * PGSZ) perm"
      using k first M by (cases k) auto
  next
    fix va assume va: "\<forall>k < Suc j. vpn va \<noteq> vpn (a + of_nat k * PGSZ)"
    then have "vpn va \<noteq> vpn a" "\<forall>k < j. vpn va \<noteq> vpn (a + of_nat (Suc k) * PGSZ)"
      by (metis add.right_neutral mult_zero_left of_nat_0 zero_less_Suc, metis Suc_less_eq)
    then show "m' va = m va" using M m1[of va] by simp
  qed
qed

definition mappages_spec :: "nat \<Rightarrow> nat \<Rightarrow> nat set \<Rightarrow> nat set \<Rightarrow> nat \<Rightarrow> nat \<Rightarrow> u64 \<Rightarrow> u64 \<Rightarrow> u64 \<Rightarrow> kmem \<Rightarrow> bool \<Rightarrow> kmem \<Rightarrow> bool" where
  "mappages_spec lo hi R D pt n a pa perm km ok km' \<longleftrightarrow>
     vm_ok lo hi km' R D \<and> kfree_set km' \<subseteq> kfree_set km
     \<and> (\<forall>d \<in> D. \<forall>x. in_page d x \<longrightarrow> kpages km' x = kpages km x)
     \<and> (\<forall>pt' \<in> R - {pt}. \<forall>va. pte_of km' pt' va = pte_of km pt' va)
     \<and> (ok \<or> kfree_set km' = {})
     \<and> (\<exists>j \<le> n. (ok \<longleftrightarrow> j = n) \<and> mapped_upto j a pa perm (pte_of km pt) (pte_of km' pt))"

lemma map_one:
  fixes pa perm :: u64
  assumes ok: "vm_ok lo hi km R D" and pt: "pt \<in> R" and w: "walk pt a True km = Some (s, km1)" and s: "s \<noteq> 0"
  defines "km2 \<equiv> set_pte s (leaf_pte pa perm) km1"
  shows "vm_ok lo hi km2 R D" "kfree_set km2 \<subseteq> kfree_set km"
    and "d \<in> D \<Longrightarrow> in_page d x \<Longrightarrow> kpages km2 x = kpages km x"
    and "pt' \<in> R \<Longrightarrow> pte_of km2 pt' va = (if pt' = pt \<and> vpn va = vpn a then leaf_pte pa perm else pte_of km pt' va)"
proof -
  note K = vm_keepsD[OF walk_alloc(1)[OF ok pt w]]
  obtain b where b: "node km1 pt (va_path a) = Some b" "s = b + 8 * PX 3 a" using walk_alloc(2)[OF ok pt w s] by blast
  note L = set_leaf[OF K(1) pt b(1), where v = "leaf_pte pa perm", folded b(2) km2_def]
  show "vm_ok lo hi km2 R D" by (rule L(1))
  show "kfree_set km2 \<subseteq> kfree_set km" using L(4) K(5) by simp
  show "d \<in> D \<Longrightarrow> in_page d x \<Longrightarrow> kpages km2 x = kpages km x" using L(3) K(4) by simp
  show "pt' \<in> R \<Longrightarrow> pte_of km2 pt' va = (if pt' = pt \<and> vpn va = vpn a then leaf_pte pa perm else pte_of km pt' va)"
    using L(2) K(2) by simp
qed

lemma mapped_upto_0: "mapped_upto 0 a pa perm m m"
  by (simp add: mapped_upto_def)

lemma mappages_stop:
  assumes ok: "vm_ok lo hi km R D" and pt: "pt \<in> R" and w: "walk pt a True km = Some (0, km1)"
  shows "mappages_spec lo hi R D pt (Suc n) a pa perm km False km1"
proof -
  note K = vm_keepsD[OF walk_alloc(1)[OF ok pt w]]
  have "pte_of km1 pt = pte_of km pt" using K(2)[OF pt] by (simp add: fun_eq_iff)
  then have "mapped_upto 0 a pa perm (pte_of km pt) (pte_of km1 pt)" by (simp add: mapped_upto_0)
  then show ?thesis unfolding mappages_spec_def using K(1,2,4,5) walk_alloc(4)[OF ok pt w]
    by (intro conjI exI[of _ 0]) auto
qed

lemma mappages_loop_maps:
  assumes "vm_ok lo hi km R D" and "pt \<in> R" and "mappages_loop n pt a pa perm km = Some (ok, km')"
  shows "mappages_spec lo hi R D pt (Suc n) a pa perm km ok km'"
  using assms
proof (induction n arbitrary: a pa km)
  case (0 a pa km)
  obtain s km1 where w: "walk pt a True km = Some (s, km1)"
    using 0(3) by (subst (asm) mappages_loop.simps) (auto simp: Option.bind_eq_Some_conv)
  show ?case
  proof (cases "s = 0")
    case True
    then have "ok = False" "km' = km1" using 0(3) w by (subst (asm) mappages_loop.simps, simp)+
    then show ?thesis using mappages_stop[OF 0(1,2) w[unfolded True]] by simp
  next
    case False
    note M = map_one[OF 0(1,2) w False, where pa = pa and perm = perm]
    have free: "pte_of km pt a AND PTE_AF = 0" and e: "ok = True" "km' = set_pte s (leaf_pte pa perm) km1"
      using 0(3) w False walk_alloc(3)[OF 0(1,2) w False]
      by (subst (asm) mappages_loop.simps, simp add: leaf_pte_def Let_def split: if_splits)+
    have "mapped_upto (Suc 0) a pa perm (pte_of km pt) (pte_of km' pt)"
      by (rule mapped_upto_Suc[where m = "pte_of km pt", OF mapped_upto_0 _ free pte_of_vpn]) (simp_all add: M(4)[OF 0(2)] e(2))
    then show ?thesis using M e unfolding mappages_spec_def by auto
  qed
next
  case (Suc n a pa km)
  obtain s km1 where w: "walk pt a True km = Some (s, km1)"
    using Suc.prems(3) by (subst (asm) mappages_loop.simps) (auto simp: Option.bind_eq_Some_conv)
  show ?case
  proof (cases "s = 0")
    case True
    then have "ok = False" "km' = km1" using Suc.prems(3) w by (subst (asm) mappages_loop.simps, simp)+
    then show ?thesis using mappages_stop[OF Suc.prems(1,2) w[unfolded True]] by simp
  next
    case False
    let ?km2 = "set_pte s (leaf_pte pa perm) km1"
    have free: "pte_of km pt a AND PTE_AF = 0" and l: "mappages_loop n pt (a + PGSZ) (pa + PGSZ) perm ?km2 = Some (ok, km')"
      using Suc.prems(3) w False walk_alloc(3)[OF Suc.prems(1,2) w False]
      by (subst (asm) mappages_loop.simps, simp add: leaf_pte_def Let_def split: if_splits)+
    note M = map_one[OF Suc.prems(1,2) w False, where pa = pa and perm = perm]
    have IH: "mappages_spec lo hi R D pt (Suc n) (a + PGSZ) (pa + PGSZ) perm ?km2 ok km'"
      by (rule Suc.IH[OF M(1) Suc.prems(2) l])
    then obtain j where j: "j \<le> Suc n" "ok \<longleftrightarrow> j = Suc n"
      "mapped_upto j (a + PGSZ) (pa + PGSZ) perm (pte_of ?km2 pt) (pte_of km' pt)" by (auto simp: mappages_spec_def)
    have m: "mapped_upto (Suc j) a pa perm (pte_of km pt) (pte_of km' pt)"
      by (rule mapped_upto_Suc[where m = "pte_of km pt", OF j(3) _ free pte_of_vpn]) (simp_all add: M(4)[OF Suc.prems(2)])
    have IH': "vm_ok lo hi km' R D" "kfree_set km' \<subseteq> kfree_set km"
      "\<forall>d \<in> D. \<forall>x. in_page d x \<longrightarrow> kpages km' x = kpages km x"
      "\<forall>pt' \<in> R - {pt}. \<forall>va. pte_of km' pt' va = pte_of km pt' va" "ok \<or> kfree_set km' = {}"
      using IH M(2,3,4) unfolding mappages_spec_def by auto
    show ?thesis unfolding mappages_spec_def using IH' j(1,2) m
      by (intro conjI exI[of _ "Suc j"]) auto
  qed
qed

text \<open>
  C28: \<open>mappages\<close> is the update of a map.  In a sound set of page tables, the table \<open>pt\<close> as the map
  from page numbers to entries is changed at the pages from \<open>va\<close> to \<open>va + sz - 1\<close> only, one after the
  other, each from an entry that was free to the one for its physical page; either all of them are
  mapped, or there was no page left for a table and some first ones are.  All other tables keep their
  mappings, every page somebody else holds keeps its bytes, pages only leave the free list, and the
  set of tables stays sound.
\<close>

theorem mappages_maps:
  assumes "vm_ok lo hi km R D" and "pt \<in> R" and "mappages pt va sz pa perm km = Some (ok, km')"
    and "n = unat (pg_down (va + sz - 1) - pg_down va) div PGSIZE + 1"
  shows "vm_ok lo hi km' R D \<and> kfree_set km' \<subseteq> kfree_set km
    \<and> (\<forall>d \<in> D. \<forall>x. in_page d x \<longrightarrow> kpages km' x = kpages km x)
    \<and> (\<forall>pt' \<in> R - {pt}. \<forall>va. pte_of km' pt' va = pte_of km pt' va)
    \<and> (ok \<or> kfree_set km' = {})
    \<and> (\<exists>j \<le> n. (ok \<longleftrightarrow> j = n) \<and> mapped_upto j (pg_down va) pa perm (pte_of km pt) (pte_of km' pt))"
proof -
  have "mappages_loop (n - 1) pt (pg_down va) pa perm km = Some (ok, km')"
    using assms(3,4) by (simp add: mappages_def Let_def split: if_splits)
  from mappages_loop_maps[OF assms(1,2) this] show ?thesis
    unfolding mappages_spec_def using assms(4) by simp
qed

section \<open>Mapping one page\<close>

lemma pg_down_aligned: "unat a mod PGSIZE = 0 \<Longrightarrow> pg_down a = a"
  using unat_pg_down[of a] by (simp add: word_unat_eq_iff minus_mod_eq_div_mult[symmetric])

lemma pg_down_last: "unat a mod PGSIZE = 0 \<Longrightarrow> pg_down (a + PGSZ - 1) = a"
proof (rule word_unat_eq_iff[THEN iffD2])
  assume a: "unat a mod PGSIZE = 0"
  have "unat a < 2 ^ 64" using unsigned_less[of a, where 'a = nat] by simp
  then obtain k where k: "unat a = 4096 * k" "k < 2 ^ 52" using a by (auto simp: mod_eq_0_iff_dvd elim!: dvdE)
  then have "unat (a + PGSZ - 1) = 4096 * k + 4095"
    by (simp add: add_diff_eq[symmetric] unat_add_lem[THEN iffD1])
  then show "unat (pg_down (a + PGSZ - 1)) = unat a" using k by (simp add: unat_pg_down)
qed

lemma mappages_page:
  "unat a mod PGSIZE = 0 \<Longrightarrow> pa < PHYSTOP \<Longrightarrow> mappages pt a PGSZ pa perm km = mappages_loop 0 pt a pa perm km"
  using pg_down_last[of a] pg_down_aligned[of a] by (simp add: mappages_def not_le[symmetric])

lemma mappages_page_total:
  assumes ok: "vm_ok lo hi km R D" and pt: "pt \<in> R" and a: "unat a mod PGSIZE = 0" "a < MAXVA" and pa: "pa < PHYSTOP"
    and free: "pte_of km pt a AND PTE_AF = 0"
  shows "\<exists>ok km'. mappages pt a PGSZ pa perm km = Some (ok, km')
    \<and> ((\<exists>x y. x \<in> kfree_set km \<and> y \<in> kfree_set km \<and> x \<noteq> y) \<longrightarrow> ok)"
proof -
  obtain s km1 where w: "walk_from 1 pt a True km = (s, km1)" by force
  then have W: "walk pt a True km = Some (s, km1)" using a(2) by (simp add: walk_def)
  have "s \<noteq> 0 \<Longrightarrow> rd64 (kpages km1) s AND PTE_AF = 0" using walk_alloc(3)[OF ok pt W] free by simp
  then show ?thesis using W walk_enough[OF ok pt w]
    unfolding mappages_page[OF a(1) pa] by (subst mappages_loop.simps) auto
qed

section \<open>An example\<close>

text \<open>An empty table, and two free pages.\<close>

definition demo_vm :: kmem where
  "demo_vm = \<lparr>kfreelist = 0xffffff8000002000, kpages = wr64 (\<lambda>_. 0) 0xffffff8000002000 (of_nat 0xffffff8000003000)\<rparr>"

text \<open>A table without entries has no nodes but its root.\<close>

lemma empty_table:
  assumes "\<And>i. i < 512 \<Longrightarrow> ent km pt i = 0" and "short p"
  shows "node km pt p = (if p = [] then Some pt else None)"
  using assms by (cases p) (simp_all add: short_def is_table_def)

lemma rd64_0: "rd64 (\<lambda>_. 0) x = 0"
  by (simp add: rd64_def rd32_def)

lemma rd64_wr64_0: "x + 8 \<le> a \<or> a + 8 \<le> x \<Longrightarrow> rd64 (wr64 (\<lambda>_. 0) a v) x = 0"
  unfolding rd64_0[of x, symmetric] by (intro rd64_cong wr64_other) auto

lemma demo_ent: "i < 512 \<Longrightarrow> ent demo_vm 0xffffff8000001000 i = 0"
  by (simp add: ent_def demo_vm_def rd64_wr64_0)

lemma demo_klist: "klist 0xffffff8000001000 0xffffff8000005000 demo_vm [0xffffff8000002000, 0xffffff8000003000]"
  by (simp add: klist_def demo_vm_def page_ok_def rd64_wr64 rd64_wr64_0)

lemma demo_vm_ok: "vm_ok 0xffffff8000001000 0xffffff8000005000 demo_vm {0xffffff8000001000} {0xffffff8000004000}"
  unfolding vm_ok_def kfree_set_klist[OF demo_klist]
  using demo_klist by (auto simp: empty_table[OF demo_ent] page_ok_def kinv_def split: if_splits)

lemma demo_pte: "pte_of demo_vm 0xffffff8000001000 va = 0"
  using empty_table[OF demo_ent short_path] by (simp add: pte_of_def va_path_def)

theorem mappages_maps_witness:
  "\<exists>km'. mappages 0xffffff8000001000 0x5000 PGSZ 0x4000 PTE_U demo_vm = Some (True, km')
     \<and> vm_ok 0xffffff8000001000 0xffffff8000005000 km' {0xffffff8000001000} {0xffffff8000004000}
     \<and> pte_of km' 0xffffff8000001000 0x5000 = leaf_pte 0x4000 PTE_U"
proof -
  have two: "\<exists>x y. x \<in> kfree_set demo_vm \<and> y \<in> kfree_set demo_vm \<and> x \<noteq> y"
    unfolding kfree_set_klist[OF demo_klist]
    by (rule exI[of _ "0xffffff8000002000"], rule exI[of _ "0xffffff8000003000"]) simp
  obtain km' where m: "mappages 0xffffff8000001000 0x5000 PGSZ 0x4000 PTE_U demo_vm = Some (True, km')"
    using mappages_page_total[OF demo_vm_ok, of "0xffffff8000001000" "0x5000" "0x4000" PTE_U] two
    unfolding demo_pte by auto
  have n: "1 = unat (pg_down (0x5000 + PGSZ - 1) - pg_down 0x5000) div PGSIZE + 1"
    using pg_down_last[of "0x5000"] by (simp add: pg_down_aligned)
  show ?thesis
    using m mappages_maps[OF demo_vm_ok _ m n] by (auto simp: mapped_upto_def pg_down_aligned)
qed

end
