(* ===== verification/VmUser.thy ===== *)
theory VmUser imports VmMap begin

text \<open>
  User address spaces on top of \<open>VmMap\<close>: in a set \<open>R\<close> of user page tables every page that is mapped is
  mapped once; the set \<open>H\<close> are pages the caller holds.  \<open>uvmunmap\<close>, \<open>uvmcopy\<close> and the copies keep
  this, and what a user reads at an address is described by \<open>uview\<close>.
\<close>

section \<open>Mapped pages\<close>

definition present :: "u64 \<Rightarrow> bool" where
  "present e \<longleftrightarrow> e AND PTE_AF \<noteq> 0"

definition data_of :: "u64 \<Rightarrow> nat" where
  "data_of e = P2V (PTE2PA e)"

definition data :: "kmem \<Rightarrow> nat set \<Rightarrow> nat set" where
  "data km R = {data_of (pte_of km pt va) | pt va. pt \<in> R \<and> present (pte_of km pt va)}"

definition user_ok :: "nat \<Rightarrow> kmem \<Rightarrow> nat set \<Rightarrow> nat set \<Rightarrow> bool" where
  "user_ok lo km R H \<longleftrightarrow> vm_ok lo KTOP km R (H \<union> data km R) \<and> H \<inter> data km R = {}
     \<and> (\<forall>pt \<in> R. \<forall>va. present (pte_of km pt va) \<longrightarrow> pte_of km pt va AND PTE_V = PTE_V)
     \<and> (\<forall>pt \<in> R. \<forall>pt' \<in> R. \<forall>va va'. present (pte_of km pt va) \<and> present (pte_of km pt' va')
          \<and> data_of (pte_of km pt va) = data_of (pte_of km pt' va') \<longrightarrow> pt = pt' \<and> vpn va = vpn va')"

lemma user_okD:
  assumes "user_ok lo km R H"
  shows "vm_ok lo KTOP km R (H \<union> data km R)" "H \<inter> data km R = {}"
    and "pt \<in> R \<Longrightarrow> present (pte_of km pt va) \<Longrightarrow> pte_of km pt va AND PTE_V = PTE_V"
    and "pt \<in> R \<Longrightarrow> pt' \<in> R \<Longrightarrow> present (pte_of km pt va) \<Longrightarrow> present (pte_of km pt' va')
      \<Longrightarrow> data_of (pte_of km pt va) = data_of (pte_of km pt' va') \<Longrightarrow> pt = pt' \<and> vpn va = vpn va'"
  using assms unfolding user_ok_def by blast+

lemma dataI: "pt \<in> R \<Longrightarrow> present (pte_of km pt va) \<Longrightarrow> data_of (pte_of km pt va) \<in> data km R"
  by (auto simp: data_def)

lemma data_subset:
  assumes "\<And>pt va. pt \<in> R \<Longrightarrow> present (pte_of km' pt va) \<Longrightarrow> pte_of km' pt va = pte_of km pt va"
  shows "data km' R \<subseteq> data km R"
proof
  fix x assume "x \<in> data km' R"
  then obtain pt va where x: "pt \<in> R" "present (pte_of km' pt va)" "x = data_of (pte_of km' pt va)"
    by (auto simp: data_def)
  then show "x \<in> data km R" using assms[OF x(1,2)] dataI[OF x(1), of km va] by simp
qed

lemma not_present_0 [simp]: "\<not> present 0"
  by (simp add: present_def)

lemma present_leaf: "present (leaf_pte pa perm)"
  by (simp add: present_def leaf_pte_bits)

text \<open>Pages whose bytes stay as they are.\<close>

definition same_pages :: "nat set \<Rightarrow> kmem \<Rightarrow> kmem \<Rightarrow> bool" where
  "same_pages K km km' \<longleftrightarrow> (\<forall>d \<in> K. \<forall>x. in_page d x \<longrightarrow> kpages km' x = kpages km x)"

lemma same_pages_refl [simp]: "same_pages K km km"
  by (simp add: same_pages_def)

lemma same_pagesD: "same_pages K a b \<Longrightarrow> d \<in> K \<Longrightarrow> x < PGSIZE \<Longrightarrow> kpages b (d + x) = kpages a (d + x)"
  by (simp add: same_pages_def in_page_def)

lemma same_pages_trans: "same_pages K a b \<Longrightarrow> same_pages K b c \<Longrightarrow> same_pages K a c"
  by (simp add: same_pages_def)

lemma same_pages_mono: "same_pages K a b \<Longrightarrow> K' \<subseteq> K \<Longrightarrow> same_pages K' a b"
  by (auto simp: same_pages_def)

abbreviation (input) same_ptes :: "nat set \<Rightarrow> kmem \<Rightarrow> kmem \<Rightarrow> bool" where
  "same_ptes R km km' \<equiv> (\<forall>pt \<in> R. \<forall>va. pte_of km' pt va = pte_of km pt va)"

lemma data_cong: "same_ptes R km km' \<Longrightarrow> data km' R = data km R"
  unfolding data_def by (intro Collect_cong) metis

lemma user_ok_same:
  assumes ok: "user_ok lo km R H" and s: "same_ptes R km km'" and v: "vm_ok lo KTOP km' R (H' \<union> data km R)"
    and h: "H' \<inter> data km R = {}"
  shows "user_ok lo km' R H'"
proof -
  have d: "data km' R = data km R" by (rule data_cong[OF s])
  show ?thesis unfolding user_ok_def d using v h user_okD(3,4)[OF ok] s by auto
qed

section \<open>Pages the caller holds\<close>

lemma held_page:
  assumes "user_ok lo km R H" "p \<in> H"
  shows "page_ok lo KTOP p" "p \<notin> kfree_set km" "p \<notin> data km R" "KBASE < p" "p \<noteq> 0"
proof -
  note V = user_okD(1)[OF assms(1)]
  show "page_ok lo KTOP p" "p \<notin> kfree_set km" using vm_okD(7,8)[OF V, of p] assms(2) by auto
  then show "p \<noteq> 0" "KBASE < p" using V by (auto simp: page_ok_def vm_ok_def)
  show "p \<notin> data km R" using user_okD(2)[OF assms(1)] assms(2) by blast
qed

text \<open>Allocating, writing and freeing change the bytes of one page that is held or free.\<close>

lemma user_other:
  assumes ok: "user_ok lo km R H" and inv: "kinv lo KTOP km'" and p: "p \<in> kfree_set km \<union> H \<union> data km R"
    and out: "\<forall>x. \<not> in_page p x \<longrightarrow> kpages km' x = kpages km x"
    and sub: "kfree_set km' \<union> H' \<subseteq> kfree_set km \<union> H" and disj: "kfree_set km' \<inter> H' = {}"
  shows "user_ok lo km' R H'" "same_ptes R km km'" "same_pages (H \<union> data km R - {p}) km km'"
proof -
  note V = user_okD(1)[OF ok]
  have P: "page_ok lo KTOP p" using p ka.valid_free[OF vm_okD(1)[OF V], of p] vm_okD(7)[OF V, of p] by auto
  have mem: "kpages km' x = kpages km x" if "page_ok lo KTOP a" "a \<noteq> p" "in_page a x" for a x
    using out pages_disjoint[OF that(1) P that(2,3)] by blast
  have eq: "kpages km' x = kpages km x" if "page_ok lo KTOP a" "a \<notin> kfree_set km \<union> (H \<union> data km R)" "in_page a x" for a x
    by (rule mem[OF that(1) _ that(3)]) (use that(2) p in auto)
  have free: "d \<notin> kfree_set km" if "d \<in> data km R" for d using vm_okD(8)[OF V] that by blast
  have D1: "kfree_set km' \<union> (H' \<union> data km R) \<subseteq> kfree_set km \<union> (H \<union> data km R)" using sub by blast
  have h: "H' \<inter> data km R = {}" using sub free user_okD(2)[OF ok] by blast
  have D2: "\<forall>d \<in> H' \<union> data km R. d \<notin> kfree_set km'" using sub disj free user_okD(2)[OF ok] by blast
  have s: "pte_of km' pt va = pte_of km pt va" if "pt \<in> R" for pt va
    by (rule vm_ok_other(2)[OF V inv D1 D2 _ that]) (rule eq)
  have v: "vm_ok lo KTOP km' R (H' \<union> data km R)"
    by (rule vm_ok_other(1)[OF V inv D1 D2]) (rule eq)
  show "same_ptes R km km'" using s by blast
  then show "user_ok lo km' R H'" by (rule user_ok_same[OF ok _ v h])
  show "same_pages (H \<union> data km R - {p}) km km'"
    unfolding same_pages_def using mem vm_okD(7)[OF V] by blast
qed

lemma user_alloc:
  assumes ok: "user_ok lo km R H" and k: "kalloc km = (p, km1)" "p \<noteq> 0"
  shows "user_ok lo km1 R (insert p H)" "p \<notin> H" "same_ptes R km km1" "same_pages (H \<union> data km R) km km1"
proof -
  note V = user_okD(1)[OF ok] and A = ka.alloc_some[OF vm_okD(1)[OF user_okD(1)[OF ok]] k]
  have p: "p \<in> kfree_set km \<union> H \<union> data km R" and new: "p \<notin> H \<union> data km R" using A vm_okD(8)[OF V] by auto
  have out: "\<forall>x. \<not> in_page p x \<longrightarrow> kpages km1 x = kpages km x" using kalloc_mem[OF k(1)] by blast
  have sub: "kfree_set km1 \<union> insert p H \<subseteq> kfree_set km \<union> H" "kfree_set km1 \<inter> insert p H = {}"
    using A vm_okD(8)[OF V] by auto
  note O = user_other[OF ok conjunct1[OF A] p out sub]
  show "user_ok lo km1 R (insert p H)" "p \<notin> H" "same_ptes R km km1" using O new by auto
  show "same_pages (H \<union> data km R) km km1" using O(3) new by simp
qed

lemma user_write:
  assumes ok: "user_ok lo km R H" and p: "p \<in> H \<union> data km R" and f: "kfreelist km' = kfreelist km"
    and out: "\<forall>x. \<not> in_page p x \<longrightarrow> kpages km' x = kpages km x"
  shows "user_ok lo km' R H" "same_ptes R km km'" "same_pages (H \<union> data km R - {p}) km km'"
    "kfree_set km' = kfree_set km"
proof -
  note V = user_okD(1)[OF ok]
  have P: "page_ok lo KTOP p" "p \<notin> kfree_set km" using vm_okD(7,8)[OF V p] .
  have fr: "kpages km' x = kpages km x" if "a \<in> kfree_set km" "in_page a x" for a x
  proof -
    have "page_ok lo KTOP a" "a \<noteq> p" using that(1) P(2) ka.valid_free[OF vm_okD(1)[OF V]] by auto
    then show ?thesis using out pages_disjoint[OF _ P(1) _ that(2)] by blast
  qed
  have K1: "kinv lo KTOP km'" by (rule kinv_cong(1)[OF vm_okD(1)[OF V] f]) (rule fr)
  show K2: "kfree_set km' = kfree_set km" by (rule kinv_cong(2)[OF vm_okD(1)[OF V] f]) (rule fr)
  have sub: "kfree_set km' \<union> H \<subseteq> kfree_set km \<union> H" "kfree_set km' \<inter> H = {}" using K2 vm_okD(8)[OF V] by auto
  show "user_ok lo km' R H" "same_ptes R km km'" "same_pages (H \<union> data km R - {p}) km km'"
    using user_other[OF ok K1 _ out sub] p by blast+
qed

lemma kfree_mem: "kfree lo hi p km = Some km' \<Longrightarrow> \<not> in_page p x \<Longrightarrow> kpages km' x = kpages km x"
  by (auto simp: kfree_def Let_def in_page_def wr64_other memset_apply split: if_splits)

lemma user_free:
  assumes ok: "user_ok lo km R H" and p: "p \<in> H"
  shows "\<exists>km'. page_free_km lo p km = Some km' \<and> user_ok lo km' R (H - {p}) \<and> same_ptes R km km'
    \<and> same_pages (H \<union> data km R - {p}) km km' \<and> kfree_set km' = insert p (kfree_set km)"
proof -
  note V = user_okD(1)[OF ok] and P = held_page[OF ok p]
  obtain km' where k: "kfree lo KTOP p km = Some km'" and A: "kinv lo KTOP km'" "kfree_set km' = insert p (kfree_set km)"
    using ka.free_some[OF vm_okD(1)[OF V] P(1,5,2)] by blast
  have out: "\<forall>x. \<not> in_page p x \<longrightarrow> kpages km' x = kpages km x" using kfree_mem[OF k] by blast
  have sub: "kfree_set km' \<union> (H - {p}) \<subseteq> kfree_set km \<union> H" "kfree_set km' \<inter> (H - {p}) = {}"
    using A(2) p vm_okD(8)[OF V] by auto
  show ?thesis using user_other[OF ok A(1) _ out sub] p k A(2) by (auto simp: page_free_km_def)
qed

section \<open>Mapping and unmapping a page\<close>

lemma data_of_leaf:
  assumes "user_ok lo km R H" "p \<in> H" "perm AND 0xfffffffff000 = 0"
  shows "data_of (leaf_pte (V2P (of_nat p)) perm) = p"
proof -
  have "(perm OR PTE_AF OR PTE_V) AND 0xfffffffff000 = 0"
    using assms(3) by (simp add: bit.conj_disj_distrib2)
  from PTE2PA_or[OF held_page(1)[OF assms(1,2)] vm_okD(2)[OF user_okD(1)[OF assms(1)]] this]
  show ?thesis by (simp add: data_of_def leaf_pte_def or.assoc)
qed

text \<open>Mapping a page that is held hands it over to the table; without memory for a table nothing happens.\<close>

lemma V2P_PHYSTOP:
  assumes "user_ok lo km R H" "p \<in> H"
  shows "V2P (of_nat p) < PHYSTOP"
proof -
  note P = held_page[OF assms]
  have "unat (V2P (of_nat p)) = p - KBASE" using V2P_page(1)[OF P(1) vm_okD(2)[OF user_okD(1)[OF assms(1)]]] .
  moreover have "p < KTOP" using P(1) by (simp add: page_ok_def)
  ultimately show ?thesis by (simp add: word_less_nat_alt)
qed

lemma user_map:
  assumes ok: "user_ok lo km R H" and pt: "pt \<in> R" and p: "p \<in> H" and a: "unat a mod PGSIZE = 0" "a < MAXVA"
    and free: "\<not> present (pte_of km pt a)" and perm: "perm AND 0xfffffffff000 = 0"
  defines "e \<equiv> leaf_pte (V2P (of_nat p)) perm"
  shows "\<exists>b km'. mappages pt a PGSZ (V2P (of_nat p)) perm km = Some (b, km')
    \<and> same_pages (H \<union> data km R) km km' \<and> kfree_set km' \<subseteq> kfree_set km
    \<and> (if b then user_ok lo km' R (H - {p})
         \<and> (\<forall>pt' \<in> R. \<forall>va. pte_of km' pt' va = (if pt' = pt \<and> vpn va = vpn a then e else pte_of km pt' va))
       else user_ok lo km' R H \<and> same_ptes R km km' \<and> kfree_set km' = {})"
proof -
  note V = user_okD(1)[OF ok] and P = held_page[OF ok p]
  have pa: "V2P (of_nat p) < PHYSTOP" by (rule V2P_PHYSTOP[OF ok p])
  have af: "pte_of km pt a AND PTE_AF = 0" using free by (simp add: present_def)
  obtain b km' where m: "mappages pt a PGSZ (V2P (of_nat p)) perm km = Some (b, km')"
    using mappages_page_total[OF V pt a pa af] by blast
  have S: "mappages_spec lo KTOP R (H \<union> data km R) pt (Suc 0) a (V2P (of_nat p)) perm km b km'"
    using mappages_loop_maps[OF V pt] m unfolding mappages_page[OF a(1) pa] .
  then have v: "vm_ok lo KTOP km' R (H \<union> data km R)" "kfree_set km' \<subseteq> kfree_set km"
    "same_pages (H \<union> data km R) km km'" "\<forall>pt' \<in> R - {pt}. \<forall>va. pte_of km' pt' va = pte_of km pt' va"
    "b \<or> kfree_set km' = {}" by (auto simp: mappages_spec_def same_pages_def)
  obtain j where j: "j \<le> Suc 0" "b \<longleftrightarrow> j = Suc 0" "mapped_upto j a (V2P (of_nat p)) perm (pte_of km pt) (pte_of km' pt)"
    using S by (auto simp: mappages_spec_def)
  show ?thesis
  proof (cases b)
    case False
    then have "mapped_upto 0 a (V2P (of_nat p)) perm (pte_of km pt) (pte_of km' pt)" using j by (cases j) auto
    then have s: "same_ptes R km km'" using v(4) by (auto simp: mapped_upto_def)
    have "user_ok lo km' R H" by (rule user_ok_same[OF ok s v(1) user_okD(2)[OF ok]])
    then show ?thesis using m v s False by auto
  next
    case True
    then have "mapped_upto (Suc 0) a (V2P (of_nat p)) perm (pte_of km pt) (pte_of km' pt)" using j by auto
    then have e: "pte_of km' pt a = e" and o: "\<And>va. vpn va \<noteq> vpn a \<Longrightarrow> pte_of km' pt va = pte_of km pt va"
      by (auto simp: mapped_upto_def e_def)
    have new: "pte_of km' pt' va = (if pt' = pt \<and> vpn va = vpn a then e else pte_of km pt' va)" if "pt' \<in> R" for pt' va
      using e o[of va] v(4) that pte_of_vpn[of va a km' pt] by auto
    have de: "data_of e = p" unfolding e_def by (rule data_of_leaf[OF ok p perm])
    have pe: "present e" "e AND PTE_V = PTE_V" by (simp_all add: e_def present_leaf leaf_pte_bits)
    have old: "\<not> (pt' = pt \<and> vpn va = vpn a)" if "present (pte_of km pt' va)" for pt' va
      using that free pte_of_vpn[of va a km pt] by auto
    have d: "data km' R = insert p (data km R)"
    proof (rule set_eqI, rule iffI)
      fix x assume "x \<in> data km' R"
      then obtain pt' va where "pt' \<in> R" "present (pte_of km' pt' va)" "x = data_of (pte_of km' pt' va)"
        by (auto simp: data_def)
      then show "x \<in> insert p (data km R)" using new de by (auto simp: data_def split: if_splits)
    next
      fix x assume "x \<in> insert p (data km R)"
      then show "x \<in> data km' R"
      proof
        assume "x = p"
        then show ?thesis using dataI[OF pt, of km' a] new[OF pt, of a] de pe by simp
      next
        assume "x \<in> data km R"
        then obtain pt' va where x: "pt' \<in> R" "present (pte_of km pt' va)" "x = data_of (pte_of km pt' va)"
          by (auto simp: data_def)
        then have "pte_of km' pt' va = pte_of km pt' va" using new[OF x(1)] old[OF x(2)] by auto
        then show ?thesis using x dataI[OF x(1), of km' va] by simp
      qed
    qed
    have "user_ok lo km' R (H - {p})"
      unfolding user_ok_def d
    proof (intro conjI ballI allI impI)
      have "H - {p} \<union> insert p (data km R) = H \<union> data km R" using p by auto
      then show "vm_ok lo KTOP km' R (H - {p} \<union> insert p (data km R))" using v(1) by simp
      show "(H - {p}) \<inter> insert p (data km R) = {}" using user_okD(2)[OF ok] by auto
    next
      fix pt' va assume "pt' \<in> R" "present (pte_of km' pt' va)"
      then show "pte_of km' pt' va AND PTE_V = PTE_V"
        using new[of pt' va] pe user_okD(3)[OF ok, of pt' va] by (auto split: if_splits)
    next
      fix pt1 pt2 va1 va2 assume R: "pt1 \<in> R" "pt2 \<in> R"
        and x: "present (pte_of km' pt1 va1) \<and> present (pte_of km' pt2 va2)
          \<and> data_of (pte_of km' pt1 va1) = data_of (pte_of km' pt2 va2)"
      have ne: "data_of (pte_of km pt' va) \<noteq> p" if "pt' \<in> R" "present (pte_of km pt' va)" for pt' va
        using dataI[OF that] P(3) by auto
      show "pt1 = pt2" "vpn va1 = vpn va2"
        using x new[OF R(1), of va1] new[OF R(2), of va2] de ne[OF R(1), of va1] ne[OF R(2), of va2]
          user_okD(4)[OF ok R, of va1 va2] by (auto split: if_splits)
    qed
    then show ?thesis using m v new True by auto
  qed
qed

lemma slot_present:
  assumes "vm_ok lo hi km R D" "pt \<in> R" "present (pte_of km pt va)"
  obtains b where "node km pt (va_path va) = Some b" "slot km pt va = b + 8 * PX 3 va" "slot km pt va \<noteq> 0"
    "rd64 (kpages km) (slot km pt va) = pte_of km pt va"
proof -
  obtain b where b: "node km pt (va_path va) = Some b"
    using assms(3) by (cases "node km pt (va_path va)") (auto simp: pte_of_def)
  have "b \<noteq> 0" using vm_okD(3)[OF assms(1,2) short_path b] by (simp add: page_ok_def)
  then show ?thesis using that b by (simp add: slot_def pte_of_def ent_def)
qed

lemma user_unmap:
  assumes ok: "user_ok lo km R H" and pt: "pt \<in> R" and e: "present (pte_of km pt a)"
  shows "\<exists>km1. page_free_km lo (data_of (pte_of km pt a)) km = Some km1
    \<and> user_ok lo (set_pte (slot km pt a) 0 km1) R H
    \<and> (\<forall>pt' \<in> R. \<forall>va. pte_of (set_pte (slot km pt a) 0 km1) pt' va
         = (if pt' = pt \<and> vpn va = vpn a then 0 else pte_of km pt' va))
    \<and> same_pages (H \<union> data (set_pte (slot km pt a) 0 km1) R) km (set_pte (slot km pt a) 0 km1)"
proof -
  let ?d = "data_of (pte_of km pt a)" and ?D = "H \<union> data km R"
  note V = user_okD(1)[OF ok]
  have d: "?d \<in> data km R" by (rule dataI[OF pt e])
  then have P: "page_ok lo KTOP ?d" "?d \<notin> kfree_set km" "?d \<noteq> 0" using vm_okD(7,8)[OF V, of ?d] by (auto simp: page_ok_def)
  obtain km1 where k: "kfree lo KTOP ?d km = Some km1" and A: "kinv lo KTOP km1" "kfree_set km1 = insert ?d (kfree_set km)"
    using ka.free_some[OF vm_okD(1)[OF V] P(1,3,2)] by blast
  have mem: "kpages km1 x = kpages km x" if "page_ok lo KTOP c" "c \<noteq> ?d" "in_page c x" for c x
    by (rule kfree_mem[OF k pages_disjoint[OF that(1) P(1) that(2,3)]])
  have eq: "kpages km1 x = kpages km x" if "page_ok lo KTOP c" "c \<notin> kfree_set km \<union> ?D" "in_page c x" for c x
    by (rule mem[OF that(1) _ that(3)]) (use that(2) d in auto)
  have D1: "kfree_set km1 \<union> (?D - {?d}) \<subseteq> kfree_set km \<union> ?D" using A(2) d by auto
  have D2: "\<forall>c \<in> ?D - {?d}. c \<notin> kfree_set km1" using A(2) vm_okD(8)[OF V] by auto
  have v1: "vm_ok lo KTOP km1 R (?D - {?d})" by (rule vm_ok_other(1)[OF V A(1) D1 D2]) (rule eq)
  have p1: "pte_of km1 pt' va = pte_of km pt' va" if "pt' \<in> R" for pt' va
    by (rule vm_ok_other(2)[OF V A(1) D1 D2 _ that]) (rule eq)
  obtain b where b: "node km pt (va_path a) = Some b" "slot km pt a = b + 8 * PX 3 a"
    using slot_present[OF V pt e] by blast
  have "node km1 pt (va_path a) = node km pt (va_path a)"
    by (rule vm_ok_other(3)[OF V A(1) D1 D2 _ pt short_path]) (rule eq)
  note L = set_leaf[OF v1 pt trans[OF this b(1)], where v = 0, folded b(2)]
  let ?km2 = "set_pte (slot km pt a) 0 km1"
  have new: "pte_of ?km2 pt' va = (if pt' = pt \<and> vpn va = vpn a then 0 else pte_of km pt' va)" if "pt' \<in> R" for pt' va
    using L(2)[OF that] p1[OF that] by simp
  have d2: "data ?km2 R = data km R - {?d}"
  proof (rule set_eqI, rule iffI)
    fix x assume "x \<in> data ?km2 R"
    then obtain pt' va where x: "pt' \<in> R" "present (pte_of ?km2 pt' va)" "x = data_of (pte_of ?km2 pt' va)"
      by (auto simp: data_def)
    then have n: "\<not> (pt' = pt \<and> vpn va = vpn a)" and q: "pte_of ?km2 pt' va = pte_of km pt' va"
      using new[OF x(1), of va] by (auto split: if_splits)
    then have "x \<noteq> ?d" using user_okD(4)[OF ok x(1) pt _ e, of va] x by auto
    then show "x \<in> data km R - {?d}" using x q dataI[OF x(1), of km va] by auto
  next
    fix x assume "x \<in> data km R - {?d}"
    then obtain pt' va where x: "pt' \<in> R" "present (pte_of km pt' va)" "x = data_of (pte_of km pt' va)" "x \<noteq> ?d"
      by (auto simp: data_def)
    then have "\<not> (pt' = pt \<and> vpn va = vpn a)" using pte_of_vpn[of va a km pt] by auto
    then have "pte_of ?km2 pt' va = pte_of km pt' va" using new[OF x(1), of va] by auto
    then show "x \<in> data ?km2 R" using x dataI[OF x(1), of ?km2 va] by simp
  qed
  have Dd: "H \<union> (data km R - {?d}) = ?D - {?d}" using d user_okD(2)[OF ok] by auto
  have "user_ok lo ?km2 R H"
    unfolding user_ok_def d2
  proof (intro conjI ballI allI impI)
    show "vm_ok lo KTOP ?km2 R (H \<union> (data km R - {?d}))" unfolding Dd by (rule L(1))
    show "H \<inter> (data km R - {?d}) = {}" using user_okD(2)[OF ok] by auto
  next
    fix pt' va assume "pt' \<in> R" "present (pte_of ?km2 pt' va)"
    then show "pte_of ?km2 pt' va AND PTE_V = PTE_V"
      using new[of pt' va] user_okD(3)[OF ok, of pt' va] by (auto split: if_splits)
  next
    fix pt1 pt2 va1 va2 assume R: "pt1 \<in> R" "pt2 \<in> R"
      and x: "present (pte_of ?km2 pt1 va1) \<and> present (pte_of ?km2 pt2 va2)
        \<and> data_of (pte_of ?km2 pt1 va1) = data_of (pte_of ?km2 pt2 va2)"
    show "pt1 = pt2" "vpn va1 = vpn va2"
      using x new[OF R(1), of va1] new[OF R(2), of va2] user_okD(4)[OF ok R, of va1 va2] by (auto split: if_splits)
  qed
  moreover have "same_pages (H \<union> data ?km2 R) km ?km2"
    unfolding same_pages_def d2 Dd
  proof (intro ballI allI impI)
    fix c x assume c: "c \<in> ?D - {?d}" "in_page c x"
    have "kpages ?km2 x = kpages km1 x" by (rule L(3)[OF c])
    also have "\<dots> = kpages km x" using mem[OF vm_okD(7)[OF V, of c] _ c(2)] c(1) by blast
    finally show "kpages ?km2 x = kpages km x" .
  qed
  ultimately show ?thesis using k new by (auto simp: page_free_km_def)
qed

section \<open>Ranges of pages\<close>

text \<open>The address of the page \<open>k\<close> of the 2^27 pages a user has.\<close>

definition pg_at :: "nat \<Rightarrow> u64" where
  "pg_at k = of_nat (PGSIZE * k)"

lemma unat_pg_at: "k \<le> 2 ^ 27 \<Longrightarrow> unat (pg_at k) = PGSIZE * k"
  unfolding pg_at_def unsigned_of_nat by (simp add: take_bit_nat_eq_self)

lemma pg_at:
  assumes "k \<le> 2 ^ 27"
  shows pg_at_aligned: "unat (pg_at k) mod PGSIZE = 0" and pg_at_MAXVA: "pg_at k < MAXVA"
    and pg_at_Suc: "pg_at k + PGSZ = pg_at (Suc k)" and pg_at_down: "pg_down (pg_at k) = pg_at k"
    and pg_at_less: "j \<le> 2 ^ 27 \<Longrightarrow> pg_at k < pg_at j \<longleftrightarrow> k < j"
    and pg_at_vpn: "k < 2 ^ 27 \<Longrightarrow> vpn (pg_at k) = k"
proof -
  note u = unat_pg_at[OF assms]
  show a: "unat (pg_at k) mod PGSIZE = 0" by (simp add: u)
  show "pg_at k < MAXVA" using assms u by (simp add: word_less_nat_alt)
  show "pg_at k + PGSZ = pg_at (Suc k)" by (simp add: pg_at_def)
  show "pg_down (pg_at k) = pg_at k" by (rule pg_down_aligned[OF a])
  show "j \<le> 2 ^ 27 \<Longrightarrow> pg_at k < pg_at j \<longleftrightarrow> k < j" by (simp add: word_less_nat_alt u unat_pg_at)
  show "k < 2 ^ 27 \<Longrightarrow> vpn (pg_at k) = k" by (simp add: vpn_def u)
qed

lemma walk_ro_eq: "va < MAXVA \<Longrightarrow> walk pt va False km = Some (slot km pt va, km)"
  unfolding walk_def walk_from_ro by (simp add: not_le)

lemma unmap_loop:
  assumes "user_ok lo km R H" and "pt \<in> R" and "i \<le> j" and "j \<le> 2 ^ 27"
    and "\<forall>k. i \<le> k \<and> k < j \<longrightarrow> present (pte_of km pt (pg_at k))"
  shows "\<exists>km'. uvmunmap_loop lo pt (pg_at i) (pg_at j) True km = Some km' \<and> user_ok lo km' R H
    \<and> (\<forall>pt' \<in> R. \<forall>va. pte_of km' pt' va = (if pt' = pt \<and> i \<le> vpn va \<and> vpn va < j then 0 else pte_of km pt' va))
    \<and> same_pages (H \<union> data km' R) km km'"
  using assms
proof (induction "j - i" arbitrary: i km)
  case 0
  then have "i = j" by simp
  then show ?case using 0 by (intro exI[of _ km]) (auto simp: uvmunmap_loop.simps[of lo pt "pg_at j"])
next
  case (Suc n i km)
  have i: "i < j" "i < 2 ^ 27" "i \<le> 2 ^ 27" using Suc.hyps(2) Suc.prems(4) by auto
  let ?e = "pte_of km pt (pg_at i)"
  have e: "present ?e" using Suc.prems(5) i by simp
  note V = user_okD(1)[OF Suc.prems(1)]
  obtain b where b: "slot km pt (pg_at i) \<noteq> 0" "rd64 (kpages km) (slot km pt (pg_at i)) = ?e"
    using slot_present[OF V Suc.prems(2) e] by metis
  obtain km1 where f: "page_free_km lo (data_of ?e) km = Some km1"
    and U: "user_ok lo (set_pte (slot km pt (pg_at i)) 0 km1) R H"
      "\<forall>pt' \<in> R. \<forall>va. pte_of (set_pte (slot km pt (pg_at i)) 0 km1) pt' va
         = (if pt' = pt \<and> vpn va = vpn (pg_at i) then 0 else pte_of km pt' va)"
      "same_pages (H \<union> data (set_pte (slot km pt (pg_at i)) 0 km1) R) km (set_pte (slot km pt (pg_at i)) 0 km1)"
    using user_unmap[OF Suc.prems(1,2) e] by blast
  let ?km2 = "set_pte (slot km pt (pg_at i)) 0 km1"
  have rest: "\<forall>k. Suc i \<le> k \<and> k < j \<longrightarrow> present (pte_of ?km2 pt (pg_at k))"
    using U(2) Suc.prems(2,4,5) pg_at_vpn i by auto
  have n: "n = j - Suc i" "Suc i \<le> j" using Suc.hyps(2) i by auto
  obtain km' where IH: "uvmunmap_loop lo pt (pg_at (Suc i)) (pg_at j) True ?km2 = Some km'" "user_ok lo km' R H"
    "\<forall>pt' \<in> R. \<forall>va. pte_of km' pt' va = (if pt' = pt \<and> Suc i \<le> vpn va \<and> vpn va < j then 0 else pte_of ?km2 pt' va)"
    "same_pages (H \<union> data km' R) ?km2 km'"
    using Suc.hyps(1)[OF n(1) U(1) Suc.prems(2) n(2) Suc.prems(4) rest] by blast
  have "uvmunmap_loop lo pt (pg_at i) (pg_at j) True km = uvmunmap_loop lo pt (pg_at (Suc i)) (pg_at j) True ?km2"
    using i Suc.prems(4) b f e user_okD(3)[OF Suc.prems(1,2) e] walk_ro_eq[OF pg_at_MAXVA[OF i(3)], of pt km]
    by (subst uvmunmap_loop.simps)
      (simp add: pg_at_less pg_at_Suc[symmetric] present_def data_of_def)
  moreover have "\<forall>pt' \<in> R. \<forall>va. pte_of km' pt' va = (if pt' = pt \<and> i \<le> vpn va \<and> vpn va < j then 0 else pte_of km pt' va)"
    using IH(3) U(2) i pg_at_vpn[OF i(3,2)] by auto
  moreover have "data km' R \<subseteq> data ?km2 R"
    by (rule data_subset) (use IH(3) in \<open>auto split: if_splits\<close>)
  then have "same_pages (H \<union> data km' R) km ?km2" by (intro same_pages_mono[OF U(3)]) auto
  ultimately show ?case using IH(1,2) same_pages_trans[OF _ IH(4)] by auto
qed

section \<open>uvmcopy\<close>

lemma memmove_apart:
  "s + n \<le> d \<or> d + n \<le> s \<Longrightarrow> memmove m d s n = (\<lambda>a. if d \<le> a \<and> a < d + n then m (s + (a - d)) else m a)"
  by (auto simp: memmove_def memmove_fwd_apply fun_eq_iff)

lemma pages_apart2: "page_ok lo hi a \<Longrightarrow> page_ok lo hi b \<Longrightarrow> a \<noteq> b \<Longrightarrow> a + PGSIZE \<le> b \<or> b + PGSIZE \<le> a"
  using pages_disjoint[of lo hi a b a] pages_disjoint[of lo hi b a b] by (auto simp: in_page_def)

text \<open>The child's page is a copy of the parent's, with the same permissions.\<close>

definition copied :: "nat \<Rightarrow> nat \<Rightarrow> kmem \<Rightarrow> u64 \<Rightarrow> bool" where
  "copied old new km va \<longleftrightarrow>
     (let e = pte_of km old va; e' = pte_of km new va in
        present e' \<and> PTE_FLAGS e' = PTE_FLAGS e
        \<and> (\<forall>x < PGSIZE. kpages km (data_of e' + x) = kpages km (data_of e + x)))"

lemma flags_mask: "PTE_FLAGS e AND 0xfffffffff000 = 0"
  by (simp add: PTE_FLAGS_def and.assoc)

lemma PTE_FLAGS_leaf:
  assumes "e AND PTE_V = PTE_V"
  shows "PTE_FLAGS (leaf_pte pa (PTE_FLAGS e)) = PTE_FLAGS e"
proof -
  have "e AND 0x600000000003ff OR 3 = e AND 0x600000000003ff"
  proof (rule bit_word_eqI)
    fix n assume "n < LENGTH(64)"
    have "bit (e AND 3) n = bit (3 :: u64) n" "bit (3 AND 0x600000000003ff :: u64) n = bit (3 :: u64) n"
      using assms by simp_all
    then have "bit (3 :: u64) n \<longrightarrow> bit e n \<and> bit (0x600000000003ff :: u64) n" by (auto simp only: bit_and_iff)
    then show "bit (e AND 0x600000000003ff OR 3) n = bit (e AND 0x600000000003ff) n"
      by (auto simp only: bit_and_iff bit_or_iff)
  qed
  then show ?thesis
    by (simp add: PTE_FLAGS_def leaf_pte_def PA2PTE_def bit.conj_disj_distrib2 and.assoc)
qed

lemma copied_keep:
  assumes "copied old new km va" and "present (pte_of km old va)" and "old \<in> R" "new \<in> R"
    and "pte_of km' old va = pte_of km old va" "pte_of km' new va = pte_of km new va" "same_pages (data km R) km km'"
  shows "copied old new km' va"
proof -
  have d: "data_of (pte_of km old va) \<in> data km R" "data_of (pte_of km new va) \<in> data km R"
    using assms by (auto simp: copied_def Let_def intro: dataI)
  have "kpages km' (c + x) = kpages km (c + x)" if "c \<in> data km R" "x < PGSIZE" for c x
    by (rule same_pagesD[OF assms(7) that])
  then show ?thesis using assms(1,5,6) d by (simp add: copied_def Let_def)
qed

text \<open>One round of the loop, up to the mapping.\<close>

lemma copy_one:
  assumes ok: "user_ok lo km R H" and R: "old \<in> R" "new \<in> R" and a: "unat a mod PGSIZE = 0" "a < MAXVA"
    and e: "present (pte_of km old a)" and free: "\<not> present (pte_of km new a)"
    and k: "kalloc km = (p, km1)" "p \<noteq> 0"
  defines "km2 \<equiv> km1\<lparr>kpages := memmove (kpages km1) p (data_of (pte_of km old a)) PGSIZE\<rparr>"
  shows "\<exists>b km3. mappages new a PGSZ (V2P (of_nat p)) (PTE_FLAGS (pte_of km old a)) km2 = Some (b, km3)
    \<and> same_pages (H \<union> data km R) km km3
    \<and> (if b then user_ok lo km3 R H \<and> (old \<noteq> new \<longrightarrow> copied old new km3 a)
         \<and> (\<forall>pt \<in> R. \<forall>va. pt \<noteq> new \<or> vpn va \<noteq> vpn a \<longrightarrow> pte_of km3 pt va = pte_of km pt va)
       else user_ok lo km3 R (insert p H) \<and> p \<notin> H \<and> same_ptes R km km3)"
proof -
  let ?e = "pte_of km old a" and ?d = "data_of (pte_of km old a)"
  note A = user_alloc[OF ok k]
  have d: "?d \<in> data km R" by (rule dataI[OF R(1) e])
  have dk: "data km1 R = data km R" by (rule data_cong[OF A(3)])
  have P: "page_ok lo KTOP p" "p \<notin> data km R" using held_page[OF A(1), of p] dk by auto
  have Pd: "page_ok lo KTOP ?d" using vm_okD(7)[OF user_okD(1)[OF ok], of ?d] d by auto
  have ne: "p \<noteq> ?d" using P(2) d by auto
  have mv: "kpages km2 x = (if in_page p x then kpages km1 (?d + (x - p)) else kpages km1 x)" for x
    unfolding km2_def using memmove_apart[OF pages_apart2[OF Pd P(1) ne[symmetric]]] by (simp add: in_page_def)
  have W: "user_ok lo km2 R (insert p H)" "same_ptes R km1 km2" "same_pages (insert p H \<union> data km1 R - {p}) km1 km2"
    using user_write[OF A(1), of p km2] mv by (simp_all add: km2_def)
  have s2: "same_ptes R km km2" using A(3) W(2) by simp
  have d2: "data km2 R = data km R" by (rule data_cong[OF s2])
  have "H \<union> data km R \<subseteq> insert p H \<union> data km1 R - {p}" using A(2) P(2) dk by auto
  then have c2: "same_pages (H \<union> data km R) km km2" by (rule same_pages_trans[OF A(4) same_pages_mono[OF W(3)]])
  have free2: "\<not> present (pte_of km2 new a)" using free s2 R(2) by simp
  obtain b km3 where m: "mappages new a PGSZ (V2P (of_nat p)) (PTE_FLAGS ?e) km2 = Some (b, km3)"
    and c3: "same_pages (insert p H \<union> data km2 R) km2 km3" and "kfree_set km3 \<subseteq> kfree_set km2"
    and res: "if b then user_ok lo km3 R (insert p H - {p})
         \<and> (\<forall>pt' \<in> R. \<forall>va. pte_of km3 pt' va = (if pt' = new \<and> vpn va = vpn a then leaf_pte (V2P (of_nat p)) (PTE_FLAGS ?e) else pte_of km2 pt' va))
       else user_ok lo km3 R (insert p H) \<and> same_ptes R km2 km3 \<and> kfree_set km3 = {}"
    using user_map[OF W(1) R(2) insertI1 a free2 flags_mask[of ?e]] by blast
  have c: "same_pages (H \<union> data km R) km km3"
    by (rule same_pages_trans[OF c2 same_pages_mono[OF c3]]) (use d2 in auto)
  show ?thesis
  proof (cases b)
    case False
    then show ?thesis using m c res s2 A(2) by auto
  next
    case True
    then have u: "user_ok lo km3 R H"
      and new: "\<forall>pt' \<in> R. \<forall>va. pte_of km3 pt' va = (if pt' = new \<and> vpn va = vpn a then leaf_pte (V2P (of_nat p)) (PTE_FLAGS ?e) else pte_of km2 pt' va)"
      using res A(2) by auto
    have "copied old new km3 a" if "old \<noteq> new"
    proof -
      have e3: "pte_of km3 old a = ?e" "pte_of km3 new a = leaf_pte (V2P (of_nat p)) (PTE_FLAGS ?e)"
        using new R s2 that by auto
      have dp: "data_of (leaf_pte (V2P (of_nat p)) (PTE_FLAGS ?e)) = p"
        by (rule data_of_leaf[OF W(1) _ flags_mask]) simp
      have "kpages km3 (p + x) = kpages km3 (?d + x)" if "x < PGSIZE" for x
      proof -
        have "kpages km3 (p + x) = kpages km2 (p + x)" using same_pagesD[OF c3 _ that, of p] by simp
        also have "\<dots> = kpages km1 (?d + x)" using that by (simp add: mv in_page_def)
        also have "\<dots> = kpages km (?d + x)" using same_pagesD[OF A(4) _ that, of ?d] d by simp
        also have "\<dots> = kpages km3 (?d + x)" using same_pagesD[OF c _ that, of ?d] d by simp
        finally show ?thesis .
      qed
      then show ?thesis
        using PTE_FLAGS_leaf[OF user_okD(3)[OF ok R(1) e]] by (simp add: copied_def Let_def e3 dp present_leaf)
    qed
    then show ?thesis using m c u new s2 True by auto
  qed
qed

lemma uvmunmap_prefix:
  assumes "i \<le> 2 ^ 27"
  shows "uvmunmap lo pt 0 (pg_at i div PGSZ) True km = uvmunmap_loop lo pt (pg_at 0) (pg_at i) True km"
proof -
  have "pg_at i div PGSZ = of_nat i"
    using assms by (simp add: word_unat_eq_iff unat_div unat_pg_at unsigned_of_nat take_bit_nat_eq_self)
  then have "pg_at i div PGSZ * PGSZ = pg_at i" by (simp add: pg_at_def)
  then show ?thesis by (simp add: uvmunmap_def pg_at_def)
qed

text \<open>What \<open>uvmcopy\<close> has done when it returns \<open>b\<close>, with \<open>n\<close> pages to copy.\<close>

definition copy_spec :: "nat \<Rightarrow> nat set \<Rightarrow> nat set \<Rightarrow> nat \<Rightarrow> nat \<Rightarrow> nat \<Rightarrow> kmem \<Rightarrow> bool \<Rightarrow> kmem \<Rightarrow> bool" where
  "copy_spec lo R H old new n km b km' \<longleftrightarrow> user_ok lo km' R H
     \<and> (\<forall>pt \<in> R - {new}. \<forall>va. pte_of km' pt va = pte_of km pt va)
     \<and> same_pages (H \<union> data km (R - {new})) km km'
     \<and> (if b then \<forall>k < n. copied old new km' (pg_at k) else \<forall>k < n. \<not> present (pte_of km' new (pg_at k)))
     \<and> (\<forall>va. n \<le> vpn va \<longrightarrow> pte_of km' new va = pte_of km new va)"

lemma copy_fail:
  assumes ok: "user_ok lo km R H" and new: "new \<in> R" and i: "i \<le> n" "n \<le> 2 ^ 27"
    and p: "\<forall>k < i. present (pte_of km new (pg_at k))"
    and np: "\<forall>k. i \<le> k \<and> k < n \<longrightarrow> \<not> present (pte_of km new (pg_at k))"
  shows "\<exists>km'. uvmunmap lo new 0 (pg_at i div PGSZ) True km = Some km' \<and> copy_spec lo R H old new n km False km'"
proof -
  have i27: "i \<le> 2 ^ 27" using i by simp
  obtain km' where u: "uvmunmap_loop lo new (pg_at 0) (pg_at i) True km = Some km'" "user_ok lo km' R H"
    "\<forall>pt' \<in> R. \<forall>va. pte_of km' pt' va = (if pt' = new \<and> 0 \<le> vpn va \<and> vpn va < i then 0 else pte_of km pt' va)"
    "same_pages (H \<union> data km' R) km km'"
    using unmap_loop[OF ok new le0 i27] p by blast
  have "data km (R - {new}) \<subseteq> data km' R"
  proof
    fix x assume "x \<in> data km (R - {new})"
    then obtain pt va where x: "pt \<in> R" "pt \<noteq> new" "present (pte_of km pt va)" "x = data_of (pte_of km pt va)"
      by (auto simp: data_def)
    then have "pte_of km' pt va = pte_of km pt va" using u(3) by auto
    then show "x \<in> data km' R" using x dataI[OF x(1), of km' va] by simp
  qed
  then have "same_pages (H \<union> data km (R - {new})) km km'" by (intro same_pages_mono[OF u(4)]) auto
  moreover have "\<not> present (pte_of km' new (pg_at k))" if "k < n" for k
  proof -
    have "vpn (pg_at k) = k" by (rule pg_at_vpn) (use that i(2) in auto)
    then show ?thesis using u(3) new np that by auto
  qed
  moreover have "pte_of km' new va = pte_of km new va" if "n \<le> vpn va" for va using u(3) new that i(1) by auto
  ultimately show ?thesis using u by (auto simp: copy_spec_def uvmunmap_prefix[OF i27])
qed

lemma copy_loop:
  assumes "user_ok lo km R H" and R: "old \<in> R" "new \<in> R" "old \<noteq> new" and n: "n \<le> 2 ^ 27"
    and sz: "\<forall>k \<le> 2 ^ 27. pg_at k < sz \<longleftrightarrow> k < n" and "i \<le> n"
    and "\<forall>k < n. present (pte_of km old (pg_at k))"
    and "\<forall>k < i. copied old new km (pg_at k)"
    and "\<forall>k. i \<le> k \<and> k < n \<longrightarrow> \<not> present (pte_of km new (pg_at k))"
  shows "\<exists>b km'. uvmcopy_loop lo old new (pg_at i) sz km = Some (b, km') \<and> copy_spec lo R H old new n km b km'"
  using assms(1,7-)
proof (induction "n - i" arbitrary: i km)
  case 0
  then have "i = n" by simp
  then have "uvmcopy_loop lo old new (pg_at i) sz km = Some (True, km)"
    using sz n by (subst uvmcopy_loop.simps) simp
  then show ?case using 0 \<open>i = n\<close> by (auto simp: copy_spec_def)
next
  case (Suc m i km)
  then have i: "i < n" "i < 2 ^ 27" "i \<le> 2 ^ 27" "pg_at i < sz" and m: "m = n - Suc i" using n sz by auto
  note ok = Suc.prems(1) and po = Suc.prems(3) and pc = Suc.prems(4) and pn = Suc.prems(5)
  let ?a = "pg_at i" and ?e = "pte_of km old (pg_at i)"
  have e: "present ?e" and free: "\<not> present (pte_of km new ?a)" using po pn i by auto
  note V = user_okD(1)[OF ok] and M = pg_at_MAXVA[OF i(3)]
  obtain bs where sl: "slot km old ?a \<noteq> 0" "rd64 (kpages km) (slot km old ?a) = ?e"
    using slot_present[OF V R(1) e] by metis
  obtain p km1 where k: "kalloc km = (p, km1)" by force
  have step: "uvmcopy_loop lo old new ?a sz km =
    (if p = 0 then do { km \<leftarrow> uvmunmap lo new 0 (?a div PGSZ) True km1; Some (False, km) }
     else (case mappages new ?a PGSZ (V2P (of_nat p)) (PTE_FLAGS ?e)
         (km1\<lparr>kpages := memmove (kpages km1) p (data_of ?e) PGSIZE\<rparr>) of
       None \<Rightarrow> None
     | Some (False, km) \<Rightarrow> do {
         km \<leftarrow> page_free_km lo p km;
         km \<leftarrow> uvmunmap lo new 0 (?a div PGSZ) True km;
         Some (False, km)
       }
     | Some (True, km) \<Rightarrow> uvmcopy_loop lo old new (pg_at (Suc i)) sz km))"
    using i(4) sl e k walk_ro_eq[OF M, of old km]
    unfolding pg_at_Suc[OF i(3), symmetric] data_of_def
    by (subst uvmcopy_loop.simps) (simp add: present_def Let_def)
  have pres: "\<forall>k < i. present (pte_of km new (pg_at k))" using pc by (auto simp: copied_def Let_def)
  show ?case
  proof (cases "p = 0")
    case True
    then have "km1 = km" using ka.alloc_none[OF vm_okD(1)[OF V]] k by auto
    then show ?thesis using copy_fail[OF ok R(2) _ n pres pn, of old] i step True by auto
  next
    case False
    note C = copy_one[OF ok R(1,2) pg_at_aligned[OF i(3)] M e free k False]
    then obtain b km3 where mp: "mappages new ?a PGSZ (V2P (of_nat p)) (PTE_FLAGS ?e)
        (km1\<lparr>kpages := memmove (kpages km1) p (data_of ?e) PGSIZE\<rparr>) = Some (b, km3)"
      and c3: "same_pages (H \<union> data km R) km km3"
      and res: "if b then user_ok lo km3 R H \<and> (old \<noteq> new \<longrightarrow> copied old new km3 ?a)
         \<and> (\<forall>pt \<in> R. \<forall>va. pt \<noteq> new \<or> vpn va \<noteq> vpn ?a \<longrightarrow> pte_of km3 pt va = pte_of km pt va)
       else user_ok lo km3 R (insert p H) \<and> p \<notin> H \<and> same_ptes R km km3" by blast
    have dsub: "data km (R - {new}) \<subseteq> data km R" by (auto simp: data_def)
    show ?thesis
    proof (cases b)
      case False
      then have u3: "user_ok lo km3 R (insert p H)" "p \<notin> H" "same_ptes R km km3" using res by auto
      obtain km4 where f: "page_free_km lo p km3 = Some km4" "user_ok lo km4 R (insert p H - {p})" "same_ptes R km3 km4"
        "same_pages (insert p H \<union> data km3 R - {p}) km3 km4" using user_free[OF u3(1) insertI1] by auto
      have u4: "user_ok lo km4 R H" using f(2) u3(2) by simp
      have s4: "same_ptes R km km4" using f(3) u3(3) by simp
      have d3: "data km3 R = data km R" by (rule data_cong[OF u3(3)])
      have "p \<notin> data km R" using held_page(3)[OF u3(1) insertI1] d3 by simp
      then have c4: "same_pages (H \<union> data km R) km km4"
        using u3(2) d3 by (intro same_pages_trans[OF c3 same_pages_mono[OF f(4)]]) auto
      obtain km5 where g: "uvmunmap lo new 0 (?a div PGSZ) True km4 = Some km5" "copy_spec lo R H old new n km4 False km5"
        using copy_fail[OF u4 R(2) _ n, of i old] pres pn i(1) s4 R(2) by auto
      have dd: "data km4 (R - {new}) = data km (R - {new})" by (rule data_cong) (use s4 in auto)
      have cc: "same_pages (H \<union> data km (R - {new})) km km4" using c4 dsub by (auto intro: same_pages_mono)
      have "copy_spec lo R H old new n km False km5"
        using g(2) s4 R(2) dd same_pages_trans[OF cc] by (simp add: copy_spec_def)
      then show ?thesis using step \<open>p \<noteq> 0\<close> mp False f(1) g(1) by auto
    next
      case True
      then have u3: "user_ok lo km3 R H" "copied old new km3 ?a"
        "\<And>pt va. pt \<in> R \<Longrightarrow> pt \<noteq> new \<or> vpn va \<noteq> vpn ?a \<Longrightarrow> pte_of km3 pt va = pte_of km pt va"
        using res R(3) by auto
      have v: "vpn (pg_at k) = k" if "k < n" for k using pg_at_vpn[of k] that n by simp
      have o3: "pte_of km3 old va = pte_of km old va" for va using u3(3)[OF R(1)] R(3) by blast
      have n3: "pte_of km3 new (pg_at k) = pte_of km new (pg_at k)" if "k < n" "k \<noteq> i" for k
        by (rule u3(3)[OF R(2)]) (use v that i(1) in auto)
      have "copied old new km3 (pg_at k)" if "k < Suc i" for k
      proof (cases "k = i")
        case False
        then have k: "k < i" "k < n" using that i(1) by auto
        show ?thesis
          by (rule copied_keep[OF _ _ R(1,2) o3 n3[OF k(2) False] same_pages_mono[OF c3]]) (use pc po k in auto)
      qed (use u3(2) in simp)
      then obtain b' km' where IH: "uvmcopy_loop lo old new (pg_at (Suc i)) sz km3 = Some (b', km')"
        "copy_spec lo R H old new n km3 b' km'"
        using Suc.hyps(1)[OF m u3(1)] i(1) po pn o3 n3 by auto
      have dd: "data km3 (R - {new}) = data km (R - {new})" by (rule data_cong) (use u3(3) in auto)
      have cc: "same_pages (H \<union> data km (R - {new})) km km3" using c3 dsub by (auto intro: same_pages_mono)
      have tail: "pte_of km3 new va = pte_of km new va" if "n \<le> vpn va" for va
        by (rule u3(3)[OF R(2)]) (use that v[OF i(1)] i(1) in auto)
      have "copy_spec lo R H old new n km b' km'"
        using IH(2) u3(3) dd same_pages_trans[OF cc] tail by (simp add: copy_spec_def)
      then show ?thesis using step \<open>p \<noteq> 0\<close> mp True IH(1) by auto
    qed
  qed
qed

section \<open>What a user reads\<close>

definition uview :: "kmem \<Rightarrow> nat \<Rightarrow> u64 \<Rightarrow> byte option" where
  "uview km pt va =
     (let k = uva2ka pt (pg_down va) km in
      if k = 0 then None else Some (kpages km (k + unat (va - pg_down va))))"

lemma uva2ka_pte:
  assumes ok: "user_ok lo km R H" and pt: "pt \<in> R"
  shows "uva2ka pt va km =
    (if va < MAXVA \<and> present (pte_of km pt va) \<and> pte_of km pt va AND PTE_U \<noteq> 0 then data_of (pte_of km pt va) else 0)"
proof (cases "va < MAXVA \<and> present (pte_of km pt va)")
  case True
  let ?e = "pte_of km pt va"
  note V = user_okD(1)[OF ok]
  obtain b where b: "slot km pt va \<noteq> 0" "rd64 (kpages km) (slot km pt va) = ?e"
    using slot_present[OF V pt, of va] True by metis
  have d: "page_ok lo KTOP (data_of ?e)" using vm_okD(7)[OF V, of "data_of ?e"] dataI[OF pt, of km va] True by auto
  then have "KBASE < data_of ?e" using V by (auto simp: page_ok_def vm_ok_def)
  then have "PTE2PA ?e \<noteq> 0" by (auto simp: data_of_def P2V_def)
  moreover have "\<not> MAXVA \<le> va" using True by (simp add: not_le)
  then have "walkaddr pt va km = (if ?e AND PTE_U = 0 then 0 else PTE2PA ?e)"
    using True b user_okD(3)[OF ok pt, of va] unfolding walkaddr_def walk_from_ro by (simp add: present_def)
  ultimately show ?thesis using True by (simp add: uva2ka_def data_of_def Let_def)
next
  case False
  have "walkaddr pt va km = 0"
  proof (cases "va < MAXVA")
    case True
    then have "\<not> present (pte_of km pt va)" using False by blast
    then have "slot km pt va = 0 \<or> rd64 (kpages km) (slot km pt va) AND PTE_AF = 0"
      by (auto simp: slot_def pte_of_def ent_def present_def split: option.splits)
    then show ?thesis unfolding walkaddr_def walk_from_ro by (auto simp: Let_def)
  qed (simp add: walkaddr_def not_less)
  then show ?thesis using False by (auto simp: uva2ka_def)
qed

lemma uva2ka_same:
  "user_ok lo km R H \<Longrightarrow> user_ok lo km' R H' \<Longrightarrow> pt \<in> R \<Longrightarrow> pte_of km' pt y = pte_of km pt y
    \<Longrightarrow> uva2ka pt y km' = uva2ka pt y km"
  by (simp add: uva2ka_pte)

lemma page_offset: "unat (va - pg_down va) < PGSIZE"
  using pg_room_pos(1)[of va] by (simp add: pg_room_def)

lemma uview_same:
  assumes "user_ok lo km R H" "user_ok lo km' R H'" "pt \<in> R" and "pte_of km' pt (pg_down va) = pte_of km pt (pg_down va)"
    and "same_pages (data km {pt}) km km'"
  shows "uview km' pt va = uview km pt va"
proof -
  have "kpages km' (data_of (pte_of km pt (pg_down va)) + unat (va - pg_down va))
      = kpages km (data_of (pte_of km pt (pg_down va)) + unat (va - pg_down va))"
    if "present (pte_of km pt (pg_down va))"
    by (rule same_pagesD[OF assms(5) _ page_offset]) (use that in \<open>auto simp: data_def\<close>)
  then show ?thesis
    unfolding uview_def uva2ka_pte[OF assms(1,3)] uva2ka_pte[OF assms(2,3)] assms(4) by (simp add: Let_def)
qed

lemma flags_U: "PTE_FLAGS e AND PTE_U = e AND PTE_U"
  by (simp add: PTE_FLAGS_def and.assoc)

lemma copied_view:
  assumes ok: "user_ok lo km R H" and R: "old \<in> R" "new \<in> R" and c: "copied old new km (pg_down va)"
    and p: "present (pte_of km old (pg_down va))"
  shows "uview km new va = uview km old va"
proof -
  let ?e = "pte_of km old (pg_down va)" and ?f = "pte_of km new (pg_down va)"
  have f: "present ?f" "?f AND PTE_U = ?e AND PTE_U"
    "kpages km (data_of ?f + unat (va - pg_down va)) = kpages km (data_of ?e + unat (va - pg_down va))"
    using c page_offset[of va] flags_U by (auto simp: copied_def Let_def) (metis flags_U)
  have nz: "data_of e \<noteq> 0" if "e = ?e \<or> e = ?f" for e
  proof -
    have "data_of e \<in> data km R" using that dataI[OF R(1) p] dataI[OF R(2) f(1)] by auto
    then show ?thesis using vm_okD(7)[OF user_okD(1)[OF ok], of "data_of e"] by (auto simp: page_ok_def)
  qed
  then have "data_of ?e \<noteq> 0" "data_of ?f \<noteq> 0" by blast+
  then show ?thesis
    unfolding uview_def uva2ka_pte[OF ok R(1)] uva2ka_pte[OF ok R(2)] using f p by (simp add: Let_def)
qed

lemma pg_down_pg_at: "pg_down va = pg_at (unat va div PGSIZE)"
proof -
  have "pg_down va = of_nat (unat (pg_down va))" by simp
  then show ?thesis unfolding unat_pg_down pg_at_def by (simp add: mult.commute)
qed

lemma uvmcopy_effect:
  assumes "user_ok lo km R H" and "old \<in> R" and "new \<in> R" and "old \<noteq> new" and "unat sz \<le> 2 ^ 39"
    and "n = (unat sz + PGSIZE - 1) div PGSIZE"
    and "\<forall>k < n. present (pte_of km old (pg_at k)) \<and> \<not> present (pte_of km new (pg_at k))"
  shows "\<exists>ok km'. uvmcopy lo old new sz km = Some (ok, km') \<and> user_ok lo km' R H \<and> same_pages H km km'
    \<and> (\<forall>pt \<in> R - {new}. \<forall>va. uview km' pt va = uview km pt va)
    \<and> (\<forall>va. unat va < n * PGSIZE \<longrightarrow> uview km' new va = (if ok then uview km old va else None))
    \<and> (\<forall>va. n \<le> vpn va \<longrightarrow> pte_of km' new va = pte_of km new va)"
proof -
  have n: "n \<le> 2 ^ 27" using assms(5,6) by simp
  have sz: "\<forall>k \<le> 2 ^ 27. pg_at k < sz \<longleftrightarrow> k < n"
  proof (intro allI impI)
    fix k :: nat assume "k \<le> 2 ^ 27"
    then show "pg_at k < sz \<longleftrightarrow> k < n" using assms(6) by (simp add: word_less_nat_alt unat_pg_at) linarith
  qed
  obtain ok km' where c: "uvmcopy lo old new sz km = Some (ok, km')" "copy_spec lo R H old new n km ok km'"
    using copy_loop[OF assms(1-4) n sz le0] assms(7) unfolding uvmcopy_def by (auto simp: pg_at_def)
  then have ok': "user_ok lo km' R H" and pte: "\<forall>pt \<in> R - {new}. \<forall>va. pte_of km' pt va = pte_of km pt va"
    and same: "same_pages (H \<union> data km (R - {new})) km km'" by (auto simp: copy_spec_def)
  have view: "uview km' pt va = uview km pt va" if "pt \<in> R - {new}" for pt va
  proof (rule uview_same[OF assms(1) ok'])
    show "same_pages (data km {pt}) km km'"
      by (rule same_pages_mono[OF same]) (use that in \<open>auto simp: data_def\<close>)
  qed (use that pte in auto)
  have new: "uview km' new va = (if ok then uview km old va else None)" if va: "unat va < n * PGSIZE" for va
  proof -
    let ?k = "unat va div PGSIZE"
    have k: "?k < n" using va by (simp add: less_mult_imp_div_less)
    show ?thesis
    proof (cases ok)
      case True
      then have "copied old new km' (pg_down va)" using c(2) k by (simp add: copy_spec_def pg_down_pg_at)
      moreover have "present (pte_of km' old (pg_down va))" using assms(2,4,7) k pte by (simp add: pg_down_pg_at)
      ultimately show ?thesis using copied_view[OF ok' assms(2,3)] view[of old va] assms(2,4) True by simp
    next
      case False
      then have "\<not> present (pte_of km' new (pg_down va))" using c(2) k by (simp add: copy_spec_def pg_down_pg_at)
      then show ?thesis unfolding uview_def uva2ka_pte[OF ok' assms(3)] using False by simp
    qed
  qed
  have "same_pages H km km'" by (rule same_pages_mono[OF same]) simp
  then show ?thesis using c ok' view new by (auto simp: copy_spec_def)
qed

text \<open>
  C27: \<open>fork\<close> gives the child a copy of the parent's memory.  In a sound set of user page tables, when
  the parent's pages below \<open>sz\<close> are mapped and the child's are not, \<open>uvmcopy\<close> does not panic.  If it
  succeeds, every address below \<open>sz\<close> reads the same in the child as in the parent (the guard page
  stays unreadable), in pages of its own; if memory runs out, the child has nothing mapped there again.
  Either way the parent and every other process read what they read before, the pages others hold are
  unchanged, and the set of tables is still sound: no page is used twice or lost to two owners.
\<close>

theorem uvmcopy_copies:
  assumes "user_ok lo km R H" and "old \<in> R" and "new \<in> R" and "old \<noteq> new" and "unat sz \<le> 2 ^ 39"
    and "n = (unat sz + PGSIZE - 1) div PGSIZE"
    and "\<forall>k < n. present (pte_of km old (pg_at k)) \<and> \<not> present (pte_of km new (pg_at k))"
  shows "\<exists>ok km'. uvmcopy lo old new sz km = Some (ok, km') \<and> user_ok lo km' R H \<and> same_pages H km km'
    \<and> (\<forall>pt \<in> R - {new}. \<forall>va. uview km' pt va = uview km pt va)
    \<and> (\<forall>va. unat va < n * PGSIZE \<longrightarrow> uview km' new va = (if ok then uview km old va else None))
    \<and> (\<forall>va. n \<le> vpn va \<longrightarrow> pte_of km' new va = pte_of km new va)"
  by (rule uvmcopy_effect[OF assms])

section \<open>An example\<close>

text \<open>Two empty tables, a page that is held, and five free pages; then the page mapped in the first table.\<close>

definition demo_user0 :: kmem where
  "demo_user0 = \<lparr>kfreelist = 0xffffff8000004000, kpages =
     wr64 (wr64 (wr64 (wr64 (\<lambda>_. 0) 0xffffff8000004000 0xffffff8000005000) 0xffffff8000005000 0xffffff8000006000)
       0xffffff8000006000 0xffffff8000007000) 0xffffff8000007000 0xffffff8000008000\<rparr>"

definition demo_user :: kmem where
  "demo_user = (case mappages 0xffffff8000001000 (pg_at 0) PGSZ (V2P (of_nat 0xffffff8000003000)) PTE_U demo_user0 of
     Some (_, km) \<Rightarrow> km | None \<Rightarrow> demo_user0)"

lemma rd64_wr64_apart: "x + 8 \<le> a \<or> a + 8 \<le> x \<Longrightarrow> rd64 (wr64 m a v) x = rd64 m x"
  by (intro rd64_cong wr64_other) auto

lemma demo_user0_klist: "klist 0xffffff8000001000 KTOP demo_user0
    [0xffffff8000004000, 0xffffff8000005000, 0xffffff8000006000, 0xffffff8000007000, 0xffffff8000008000]"
  by (simp add: klist_def demo_user0_def page_ok_def rd64_wr64 rd64_wr64_apart rd64_0)

lemma demo_user0_ent: "i < 512 \<Longrightarrow> ent demo_user0 0xffffff8000001000 i = 0"
  "i < 512 \<Longrightarrow> ent demo_user0 0xffffff8000002000 i = 0"
  by (simp_all add: ent_def demo_user0_def rd64_wr64_apart rd64_0)

abbreviation (input) demo_R :: "nat set" where "demo_R \<equiv> {0xffffff8000001000, 0xffffff8000002000}"

lemma empty_pte:
  assumes "\<And>i. i < 512 \<Longrightarrow> ent km pt i = 0"
  shows "pte_of km pt va = 0"
proof -
  have "va_path va \<noteq> []" by (simp add: va_path_def)
  then have "node km pt (va_path va) = None" using empty_table[OF assms short_path] by simp
  then show ?thesis by (simp add: pte_of_def)
qed

lemma demo_user0_pte: "pt \<in> demo_R \<Longrightarrow> pte_of demo_user0 pt va = 0"
  using empty_pte[OF demo_user0_ent(1)] empty_pte[OF demo_user0_ent(2)] by auto

lemma demo_user0_ok: "user_ok 0xffffff8000001000 demo_user0 demo_R {0xffffff8000003000}"
proof -
  have d: "data demo_user0 demo_R = {}" using demo_user0_pte by (auto simp: data_def)
  have "vm_ok 0xffffff8000001000 KTOP demo_user0 demo_R {0xffffff8000003000}"
    unfolding vm_ok_def kfree_set_klist[OF demo_user0_klist]
    using demo_user0_klist
    by (auto simp: empty_table[OF demo_user0_ent(1)] empty_table[OF demo_user0_ent(2)] page_ok_def kinv_def split: if_splits)
  then show ?thesis using demo_user0_pte by (auto simp: user_ok_def d)
qed

lemma demo_user_ok:
  "user_ok 0xffffff8000001000 demo_user demo_R {}"
  "present (pte_of demo_user 0xffffff8000001000 (pg_at 0))"
  "pte_of demo_user 0xffffff8000002000 va = 0"
  "pte_of demo_user 0xffffff8000001000 (pg_at 0) = leaf_pte (V2P (of_nat 0xffffff8000003000)) PTE_U"
proof -
  let ?pa = "V2P (of_nat 0xffffff8000003000)"
  have R: "0xffffff8000001000 \<in> demo_R" by simp
  have z: "(0 :: nat) \<le> 2 ^ 27" by simp
  have two: "\<exists>x y. x \<in> kfree_set demo_user0 \<and> y \<in> kfree_set demo_user0 \<and> x \<noteq> y"
    unfolding kfree_set_klist[OF demo_user0_klist]
    by (rule exI[of _ "0xffffff8000004000"], rule exI[of _ "0xffffff8000005000"]) simp
  have free: "\<not> present (pte_of demo_user0 0xffffff8000001000 (pg_at 0))" using demo_user0_pte[OF R] by simp
  have af: "pte_of demo_user0 0xffffff8000001000 (pg_at 0) AND PTE_AF = 0" using demo_user0_pte[OF R] by simp
  have pa: "?pa < PHYSTOP" by (rule V2P_PHYSTOP[OF demo_user0_ok]) simp
  obtain km where m: "mappages 0xffffff8000001000 (pg_at 0) PGSZ ?pa PTE_U demo_user0 = Some (True, km)"
    using mappages_page_total[OF user_okD(1)[OF demo_user0_ok] R pg_at_aligned[OF z] pg_at_MAXVA[OF z] pa af, of PTE_U] two
    by auto
  have u: "PTE_U AND 0xfffffffff000 = 0" by simp
  have "user_ok 0xffffff8000001000 km demo_R ({0xffffff8000003000} - {0xffffff8000003000})
    \<and> (\<forall>pt' \<in> demo_R. \<forall>va. pte_of km pt' va =
         (if pt' = 0xffffff8000001000 \<and> vpn va = vpn (pg_at 0) then leaf_pte ?pa PTE_U else pte_of demo_user0 pt' va))"
    using user_map[OF demo_user0_ok R singletonI pg_at_aligned[OF z] pg_at_MAXVA[OF z] free u] m by auto
  moreover have "demo_user = km" using m by (simp add: demo_user_def)
  ultimately show "user_ok 0xffffff8000001000 demo_user demo_R {}"
    "present (pte_of demo_user 0xffffff8000001000 (pg_at 0))" "pte_of demo_user 0xffffff8000002000 va = 0"
    "pte_of demo_user 0xffffff8000001000 (pg_at 0) = leaf_pte ?pa PTE_U"
    using demo_user0_pte by (auto simp: present_leaf)
qed

theorem uvmcopy_copies_witness:
  "\<exists>ok km'. uvmcopy 0xffffff8000001000 0xffffff8000001000 0xffffff8000002000 100 demo_user = Some (ok, km')
    \<and> (\<forall>va. unat va < PGSIZE \<longrightarrow> uview km' 0xffffff8000002000 va = (if ok then uview demo_user 0xffffff8000001000 va else None))"
proof -
  have n: "1 = (unat (100 :: u64) + PGSIZE - 1) div PGSIZE" by simp
  have "\<forall>k < 1. present (pte_of demo_user 0xffffff8000001000 (pg_at k)) \<and> \<not> present (pte_of demo_user 0xffffff8000002000 (pg_at k))"
    using demo_user_ok(2,3) by simp
  from uvmcopy_copies[OF demo_user_ok(1) _ _ _ _ n this] show ?thesis by auto
qed

end
