(* ===== verification/VmCopy.thy ===== *)
theory VmCopy imports VmUser begin

text \<open>
  The copies between the kernel and a user address space, \<open>arch_copyout\<close> and \<open>arch_copyin\<close> of
  \<open>forks/arm64/kernel/vm.c\<close>, in terms of what the user reads.
\<close>

lemma unat_page_split: "unat va = unat (pg_down va) + unat (va - pg_down va)" "unat (pg_down va) \<le> unat va"
proof -
  have le: "pg_down va \<le> va" using unat_pg_down[of va] by (simp add: word_le_nat_alt)
  then show "unat va = unat (pg_down va) + unat (va - pg_down va)"
    by (simp add: unat_sub word_le_nat_alt)
  show "unat (pg_down va) \<le> unat va" using le by (simp add: word_le_nat_alt)
qed

text \<open>In the user's half of the addresses a page number names one page.\<close>

lemma vpn_inj:
  assumes "unat va < 2 ^ 39" "unat vb < 2 ^ 39" "vpn va = vpn vb"
  shows "pg_down va = pg_down vb"
proof -
  have "unat va div PGSIZE < 2 ^ 27" "unat vb div PGSIZE < 2 ^ 27" using assms(1,2) by auto
  then have "unat va div PGSIZE = unat vb div PGSIZE" using assms(3) by (simp add: vpn_def)
  then show ?thesis by (simp add: pg_down_pg_at)
qed

lemma vpn_pg_down: "vpn (pg_down va) = vpn va"
  by (simp add: vpn_def unat_pg_down)

lemma same_page: "a \<le> x \<Longrightarrow> x < a div PGSIZE * PGSIZE + PGSIZE \<Longrightarrow> x div PGSIZE = a div PGSIZE" for a x :: nat
  by linarith

definition poke :: "nat \<Rightarrow> byte list \<Rightarrow> kmem \<Rightarrow> kmem" where
  "poke a bs km = km\<lparr>kpages := (\<lambda>x. if a \<le> x \<and> x < a + length bs then bs ! (x - a) else kpages km x)\<rparr>"

text \<open>Writing into the page of one user address.\<close>

lemma poke_view:
  assumes ok: "user_ok lo km R H" and pt: "pt \<in> R" and d: "uva2ka pt (pg_down va) km = d" "d \<noteq> 0"
    and bs: "length bs \<le> pg_room va" and va: "unat va < 2 ^ 39"
  defines "km' \<equiv> poke (d + unat (va - pg_down va)) bs km"
  shows "user_ok lo km' R H" "same_ptes R km km'" "same_pages H km km'"
    and "pt' \<in> R \<Longrightarrow> pt' \<noteq> pt \<Longrightarrow> uview km' pt' x = uview km pt' x"
    and "unat x < 2 ^ 39 \<Longrightarrow> uview km' pt x =
      (if unat va \<le> unat x \<and> unat x < unat va + length bs then Some (bs ! (unat x - unat va)) else uview km pt x)"
proof -
  let ?e = "pte_of km pt (pg_down va)" and ?o = "unat (va - pg_down va)"
  have e: "present ?e" "data_of ?e = d" using d uva2ka_pte[OF ok pt, of "pg_down va"] by (auto split: if_splits)
  have dd: "d \<in> data km R" using dataI[OF pt e(1)] e(2) by simp
  note V = user_okD(1)[OF ok]
  have P: "page_ok lo KTOP d" using vm_okD(7)[OF V, of d] dd by auto
  have off: "?o + length bs \<le> PGSIZE" using bs page_offset[of va] by (simp add: pg_room_def)
  have out: "\<forall>x. \<not> in_page d x \<longrightarrow> kpages km' x = kpages km x"
    using off by (auto simp: km'_def poke_def in_page_def)
  have f: "kfreelist km' = kfreelist km" by (simp add: km'_def poke_def)
  note W = user_write[OF ok UnI2[OF dd] f out]
  show ok': "user_ok lo km' R H" and s: "same_ptes R km km'" using W(1,2) .
  have eu: "uva2ka pt y km' = uva2ka pt y km" for y
    using s pt unfolding uva2ka_pte[OF ok pt] uva2ka_pte[OF ok' pt] by simp
  have "d \<notin> H" using user_okD(2)[OF ok] dd by auto
  then show "same_pages H km km'" by (intro same_pages_mono[OF W(3)]) auto
  show "uview km' pt' x = uview km pt' x" if pt': "pt' \<in> R" "pt' \<noteq> pt"
  proof (rule uview_same[OF ok ok' pt'(1)])
    show "pte_of km' pt' (pg_down x) = pte_of km pt' (pg_down x)" using s pt' by simp
    have "data_of (pte_of km pt' v) \<noteq> d" if "present (pte_of km pt' v)" for v
      using user_okD(4)[OF ok pt'(1) pt that e(1)] e(2) pt'(2) by auto
    then have "d \<notin> data km {pt'}" by (auto simp: data_def)
    moreover have "data km {pt'} \<subseteq> data km R" using pt'(1) by (auto simp: data_def)
    ultimately show "same_pages (data km {pt'}) km km'" by (intro same_pages_mono[OF W(3)]) auto
  qed
  show "uview km' pt x =
      (if unat va \<le> unat x \<and> unat x < unat va + length bs then Some (bs ! (unat x - unat va)) else uview km pt x)"
    if x: "unat x < 2 ^ 39"
  proof (cases "pg_down x = pg_down va")
    case True
    have n: "unat x = unat (pg_down va) + unat (x - pg_down va)" "unat va = unat (pg_down va) + ?o"
      using unat_page_split(1)[of x] unat_page_split(1)[of va] True by simp_all
    have "uview km pt x = Some (kpages km (d + unat (x - pg_down va)))"
      "uview km' pt x = Some (kpages km' (d + unat (x - pg_down va)))"
      using d True eu by (simp_all add: uview_def Let_def)
    then show ?thesis using n by (auto simp: km'_def poke_def)
  next
    case False
    have "unat (pg_down x) < 2 ^ 39" "unat (pg_down va) < 2 ^ 39"
      using unat_page_split(2)[of x] unat_page_split(2)[of va] x va by auto
    then have ne: "vpn x \<noteq> vpn va" using vpn_inj[OF x va] False by blast
    have away: "\<not> (unat va \<le> unat x \<and> unat x < unat va + length bs)"
    proof
      assume r: "unat va \<le> unat x \<and> unat x < unat va + length bs"
      then have "unat x < unat (pg_down va) + PGSIZE" using off unat_page_split(1)[of va] by linarith
      then have "unat x div PGSIZE = unat va div PGSIZE"
        using r by (intro same_page) (auto simp: unat_pg_down)
      then show False using ne by (simp add: vpn_def)
    qed
    have "uview km' pt x = uview km pt x"
    proof (cases "present (pte_of km pt (pg_down x))")
      case p: True
      have "data_of (pte_of km pt (pg_down x)) \<noteq> d"
        using user_okD(4)[OF ok pt pt p e(1)] e(2) ne by (auto simp: vpn_pg_down)
      then have "kpages km' (data_of (pte_of km pt (pg_down x)) + unat (x - pg_down x))
          = kpages km (data_of (pte_of km pt (pg_down x)) + unat (x - pg_down x))"
        using same_pagesD[OF W(3) _ page_offset[of x], of "data_of (pte_of km pt (pg_down x))"] dataI[OF pt p] by simp
      then show ?thesis using eu uva2ka_pte[OF ok pt] by (simp add: uview_def Let_def)
    qed (use eu uva2ka_pte[OF ok pt] in \<open>simp add: uview_def\<close>)
    then show ?thesis unfolding if_not_P[OF away] .
  qed
qed

section \<open>copyout and copyin\<close>

text \<open>\<open>k\<close> bytes were written before the copy ended or met an address that is not mapped.\<close>

definition copyout_spec :: "nat \<Rightarrow> nat set \<Rightarrow> nat set \<Rightarrow> nat \<Rightarrow> u64 \<Rightarrow> byte list \<Rightarrow> kmem \<Rightarrow> bool \<Rightarrow> kmem \<Rightarrow> nat \<Rightarrow> bool" where
  "copyout_spec lo R H pt va src km ok km' k \<longleftrightarrow> user_ok lo km' R H \<and> same_pages H km km' \<and> same_ptes R km km'
     \<and> (\<forall>pt' \<in> R - {pt}. \<forall>x. uview km' pt' x = uview km pt' x)
     \<and> (\<forall>x. unat x < 2 ^ 39 \<longrightarrow> uview km' pt x =
          (if unat va \<le> unat x \<and> unat x < unat va + k then Some (src ! (unat x - unat va)) else uview km pt x))
     \<and> (if ok then k = length src else k < length src \<and> uview km pt (va + of_nat k) = None)"

lemma next_page_va:
  assumes "unat va < 2 ^ 39"
  shows "pg_down va + PGSZ = va + of_nat (pg_room va)" "unat (pg_down va + PGSZ) = unat va + pg_room va"
    "pg_down (pg_down va + PGSZ) = pg_down va + PGSZ"
proof -
  have s: "unat va = unat (pg_down va) + unat (va - pg_down va)" by (rule unat_page_split(1))
  have r: "pg_room va = PGSIZE - unat (va - pg_down va)" "unat (va - pg_down va) < PGSIZE"
    by (simp_all add: pg_room_def page_offset)
  have lt: "unat (pg_down va) < 2 ^ 39" using assms unat_page_split(2)[of va] by linarith
  have u: "unat (pg_down va + PGSZ) = unat (pg_down va) + PGSIZE"
    by (subst unat_add_lem[THEN iffD1]) (use lt in auto)
  show eq: "unat (pg_down va + PGSZ) = unat va + pg_room va" using s r u by linarith
  have "(of_nat (unat (pg_down va + PGSZ)) :: u64) = of_nat (unat va + pg_room va)" unfolding eq ..
  then show "pg_down va + PGSZ = va + of_nat (pg_room va)" by simp
  show "pg_down (pg_down va + PGSZ) = pg_down va + PGSZ"
    by (rule pg_down_aligned) (use u unat_pg_down[of va] in simp)
qed

lemma uview_None: "uview km pt va = None \<longleftrightarrow> uva2ka pt (pg_down va) km = 0"
  by (simp add: uview_def Let_def)

lemma copyout_loop:
  assumes "user_ok lo km R H" and "pt \<in> R" and "unat va + length src \<le> 2 ^ 39" and "copyout pt va src km = (ok, km')"
  shows "\<exists>k. copyout_spec lo R H pt va src km ok km' k"
  using assms
proof (induction pt va src km rule: copyout.induct)
  case (1 pt va src km)
  let ?d = "uva2ka pt (pg_down va) km" and ?n = "min (pg_room va) (length src)"
  let ?km1 = "poke (?d + unat (va - pg_down va)) (take ?n src) km"
  show ?case
  proof (cases "src = []")
    case True
    then show ?thesis using 1 by (intro exI[of _ 0]) (auto simp: copyout_spec_def copyout.simps[of pt va])
  next
    case src: False
    show ?thesis
    proof (cases "?d = 0")
      case True
      then show ?thesis using 1 src
        by (intro exI[of _ 0]) (auto simp: copyout_spec_def copyout.simps[of pt va] Let_def uview_None)
    next
      case False
      have va: "unat va < 2 ^ 39" using 1(4) src by (cases src) auto
      have len: "length (take ?n src) = ?n" by simp
      have kmeq: "km\<lparr>kpages := (\<lambda>x. if ?d + unat (va - pg_down va) \<le> x \<and> x < ?d + unat (va - pg_down va) + ?n
          then src ! (x - (?d + unat (va - pg_down va))) else kpages km x)\<rparr> = ?km1"
        unfolding poke_def len by (rule arg_cong[of _ _ "\<lambda>m. km\<lparr>kpages := m\<rparr>"]) (auto simp: fun_eq_iff, subst nth_take, linarith, rule refl)
      have rec: "copyout pt (pg_down va + PGSZ) (drop ?n src) ?km1 = (ok, km')"
        using 1(5) src False kmeq by (simp add: copyout.simps[of pt va] Let_def)
      have tn: "length (take ?n src) \<le> pg_room va" by simp
      note P = poke_view[OF 1(2,3) refl False tn va]
      show ?thesis
      proof (cases "length src \<le> pg_room va")
        case True
        then have "km' = ?km1" "ok" using rec by (simp_all add: copyout.simps)
        then show ?thesis using P True by (intro exI[of _ "length src"]) (simp add: copyout_spec_def)
      next
        case long: False
        then have n: "?n = pg_room va" by simp
        note N = next_page_va[OF va]
        note IH = "1.IH"[OF src refl refl False refl refl, unfolded kmeq]
        obtain k where k: "copyout_spec lo R H pt (pg_down va + PGSZ) (drop ?n src) ?km1 ok km' k"
          using IH[OF P(1) 1(3) _ rec] 1(4) N(2) n long by auto
        note K = k[unfolded copyout_spec_def N(2)]
        have v1: "uview ?km1 pt (pg_down va + PGSZ + of_nat k) = None \<Longrightarrow> uview km pt (va + of_nat (pg_room va + k)) = None"
        proof -
          have "uva2ka pt y ?km1 = uva2ka pt y km" for y
            by (rule uva2ka_same[OF 1(2) P(1) 1(3)]) (use P(2) 1(3) in blast)
          then show "uview ?km1 pt (pg_down va + PGSZ + of_nat k) = None \<Longrightarrow> uview km pt (va + of_nat (pg_room va + k)) = None"
            unfolding uview_None N(1) by (simp add: add.assoc)
        qed
        have "copyout_spec lo R H pt va src km ok km' (pg_room va + k)"
          unfolding copyout_spec_def
        proof (intro conjI ballI allI impI)
          show "user_ok lo km' R H" using K by blast
          show "same_pages H km km'" using P(3) K same_pages_trans by blast
        next
          fix pt' x assume "pt' \<in> R"
          then show "pte_of km' pt' x = pte_of km pt' x" using P(2) K by simp
        next
          fix pt' x assume "pt' \<in> R - {pt}"
          then show "uview km' pt' x = uview km pt' x" using P(4) K by simp
        next
          fix x :: u64 assume x: "unat x < 2 ^ 39"
          have "uview km' pt x = (if unat va + pg_room va \<le> unat x \<and> unat x < unat va + pg_room va + k
              then Some (drop ?n src ! (unat x - (unat va + pg_room va))) else uview ?km1 pt x)"
            using K x by blast
          then show "uview km' pt x = (if unat va \<le> unat x \<and> unat x < unat va + (pg_room va + k)
              then Some (src ! (unat x - unat va)) else uview km pt x)"
            using P(5)[OF x] n long by (auto simp: add.assoc)
        next
          show "if ok then pg_room va + k = length src
            else pg_room va + k < length src \<and> uview km pt (va + of_nat (pg_room va + k)) = None"
            using K v1 long n by (auto split: if_splits)
        qed
        then show ?thesis ..
      qed
    qed
  qed
qed

lemma unat_va_plus: "unat va + i < 2 ^ 64 \<Longrightarrow> unat (va + of_nat i) = unat va + i" for va :: u64
  by (subst unat_add_lem[THEN iffD1]) (simp_all add: unsigned_of_nat take_bit_nat_eq_self)

text \<open>Addresses of one page.\<close>

lemma same_page_va:
  assumes "i < pg_room va"
  shows "pg_down (va + of_nat i) = pg_down va" "unat (va + of_nat i - pg_down (va + of_nat i)) = unat (va - pg_down va) + i"
proof -
  have o: "unat (va - pg_down va) + i < PGSIZE" using assms by (simp add: pg_room_def)
  have "unat va < 2 ^ 52 * PGSIZE" using unsigned_less[of va, where 'a = nat] by simp
  then have "unat va div PGSIZE < 2 ^ 52" by (rule less_mult_imp_div_less)
  then have "unat va div PGSIZE * PGSIZE + PGSIZE \<le> 2 ^ 64" by simp
  then have u: "unat (va + of_nat i) = unat va + i"
    using o unat_page_split(1)[of va] unat_pg_down[of va] by (intro unat_va_plus) linarith
  have s: "unat va = unat (pg_down va) + unat (va - pg_down va)" by (rule unat_page_split(1))
  have "unat (va + of_nat i) div PGSIZE = unat va div PGSIZE"
    by (rule same_page) (use u s o unat_pg_down[of va] in linarith)+
  then show p: "pg_down (va + of_nat i) = pg_down va" by (simp add: pg_down_pg_at)
  show "unat (va + of_nat i - pg_down (va + of_nat i)) = unat (va - pg_down va) + i"
    using unat_page_split(1)[of "va + of_nat i"] u s p by simp
qed

definition copyin_spec :: "nat \<Rightarrow> kmem \<Rightarrow> u64 \<Rightarrow> nat \<Rightarrow> byte list \<Rightarrow> bool \<Rightarrow> bool" where
  "copyin_spec pt km va len bs ok \<longleftrightarrow> (\<forall>i < length bs. uview km pt (va + of_nat i) = Some (bs ! i))
     \<and> (if ok then length bs = len else length bs < len \<and> uview km pt (va + of_nat (length bs)) = None)"

lemma next_page_room: "pg_down va + PGSZ = va + of_nat (pg_room va)"
proof -
  have "unat (va - pg_down va) \<le> PGSIZE" using page_offset[of va] by simp
  then have "(of_nat (pg_room va) :: u64) = PGSZ - (va - pg_down va)" by (simp add: pg_room_def of_nat_diff)
  then show ?thesis by simp
qed

lemma copyin_loop:
  assumes "copyin pt km va len = (bs, ok)"
  shows "copyin_spec pt km va len bs ok"
  using assms
proof (induction pt km va len arbitrary: bs rule: copyin.induct)
  case (1 pt km va len)
  let ?d = "uva2ka pt (pg_down va) km" and ?n = "min (pg_room va) len"
  let ?a = "?d + unat (va - pg_down va)"
  show ?case
  proof (cases "len = 0 \<or> ?d = 0")
    case True
    then show ?thesis using 1(2)
      by (auto simp: copyin_spec_def copyin.simps[of pt km va] Let_def uview_None split: if_splits)
  next
    case False
    then have len: "0 < len" and d: "?d \<noteq> 0" by auto
    obtain cs where rec: "copyin pt km (pg_down va + PGSZ) (len - ?n) = (cs, ok)"
      and bs: "bs = map (\<lambda>i. kpages km (?a + i)) [0..<?n] @ cs"
      using 1(2) len d by (auto simp: copyin.simps[of pt km va] Let_def split: prod.splits)
    have first: "uview km pt (va + of_nat i) = Some (kpages km (?a + i))" if "i < ?n" for i
      using same_page_va[of i va] that d by (simp add: uview_def Let_def add.assoc)
    show ?thesis
    proof (cases "len \<le> pg_room va")
      case True
      then have "cs = []" "ok" using rec by (simp_all add: copyin.simps)
      then show ?thesis using first True by (simp add: copyin_spec_def bs)
    next
      case long: False
      then have n: "?n = pg_room va" by simp
      have IH: "copyin_spec pt km (pg_down va + PGSZ) (len - ?n) cs ok"
        using "1.IH"[OF len refl refl d refl refl rec] .
      have ad: "pg_down va + PGSZ + of_nat j = va + of_nat (pg_room va + j)" for j
        unfolding next_page_room by (simp add: add.assoc)
      have "uview km pt (va + of_nat i) = Some (bs ! i)" if i: "i < length bs" for i
      proof (cases "i < pg_room va")
        case True
        then show ?thesis using first[of i] n by (simp add: bs nth_append)
      next
        case False
        then obtain j where j: "i = pg_room va + j" by (metis le_Suc_ex not_less)
        then have jl: "j < length cs" using i n by (simp add: bs)
        then have "uview km pt (pg_down va + PGSZ + of_nat j) = Some (cs ! j)" using IH unfolding copyin_spec_def by blast
        then show ?thesis unfolding ad using n by (simp add: bs nth_append j)
      qed
      moreover have "length bs = pg_room va + length cs" using n by (simp add: bs)
      ultimately show ?thesis using IH ad[of "length cs"] long n
        by (auto simp: copyin_spec_def add.assoc split: if_splits)
    qed
  qed
qed

text \<open>
  C29: What \<open>copyout\<close> puts into a user address space is what \<open>copyin\<close> gets out of it, across page
  boundaries and whatever physical pages the addresses are mapped to.  And \<open>copyout\<close> does nothing
  else: every other address of the process and every address of every other process reads as before,
  the pages others hold are unchanged, and the set of tables is still sound.
\<close>

theorem copyin_copyout:
  assumes "user_ok lo km R H" and "pt \<in> R" and "unat va + length src \<le> 2 ^ 39" and "copyout pt va src km = (True, km')"
  shows "copyin pt km' va (length src) = (src, True) \<and> user_ok lo km' R H \<and> same_pages H km km'
    \<and> (\<forall>x. unat x < unat va \<or> unat va + length src \<le> unat x \<and> unat x < 2 ^ 39 \<longrightarrow> uview km' pt x = uview km pt x)
    \<and> (\<forall>pt' \<in> R - {pt}. \<forall>x. uview km' pt' x = uview km pt' x)"
proof -
  obtain k where "copyout_spec lo R H pt va src km True km' k" using copyout_loop[OF assms] by blast
  then have S: "copyout_spec lo R H pt va src km True km' (length src)" by (auto simp: copyout_spec_def)
  obtain bs ok where c: "copyin pt km' va (length src) = (bs, ok)" by force
  note C = copyin_loop[OF c]
  have w: "uview km' pt (va + of_nat i) = Some (src ! i)" if "i < length src" for i
  proof -
    have "unat (va + of_nat i) = unat va + i" using that assms(3) by (intro unat_va_plus) simp
    then show ?thesis using S that assms(3) by (simp add: copyout_spec_def)
  qed
  have "ok"
  proof (rule ccontr)
    assume "\<not> ok"
    then have "length bs < length src" "uview km' pt (va + of_nat (length bs)) = None"
      using C by (simp_all add: copyin_spec_def)
    then show False using w[of "length bs"] by simp
  qed
  then have l: "length bs = length src" using C by (simp add: copyin_spec_def)
  moreover have "bs ! i = src ! i" if "i < length src" for i
    using C w[OF that] that l by (auto simp: copyin_spec_def)
  ultimately have "bs = src" by (auto simp: list_eq_iff_nth_eq)
  moreover have "unat va \<le> 2 ^ 39" using assms(3) by simp
  ultimately show ?thesis using c S \<open>ok\<close> by (auto simp: copyout_spec_def)
qed

lemma demo_uview:
  assumes "pg_down va = pg_at 0"
  shows "uview demo_user 0xffffff8000001000 va \<noteq> None"
proof -
  let ?e = "leaf_pte (V2P (of_nat 0xffffff8000003000)) PTE_U"
  have R: "0xffffff8000001000 \<in> demo_R" by simp
  have "?e AND PTE_U = PTE_U"
    by (simp add: leaf_pte_def bit.conj_disj_distrib2 or.assoc PA2PTE_def and.assoc)
  moreover have "pg_at 0 < MAXVA" by (rule pg_at_MAXVA) simp
  moreover have "data_of ?e \<noteq> 0"
    using vm_okD(7)[OF user_okD(1)[OF demo_user_ok(1)], of "data_of ?e"] dataI[OF R demo_user_ok(2)] demo_user_ok(4)
    by (auto simp: page_ok_def)
  ultimately show ?thesis
    unfolding uview_None assms uva2ka_pte[OF demo_user_ok(1) R] demo_user_ok(4) by (simp add: present_leaf)
qed

theorem copyin_copyout_witness:
  "\<exists>km'. copyout 0xffffff8000001000 5 [1, 2, 3] demo_user = (True, km')
     \<and> copyin 0xffffff8000001000 km' 5 3 = ([1, 2, 3], True)"
proof -
  obtain ok km' where c: "copyout 0xffffff8000001000 5 [1, 2, 3] demo_user = (ok, km')" by force
  have R: "0xffffff8000001000 \<in> demo_R" by simp
  have b: "unat (5 :: u64) + length [1 :: byte, 2, 3] \<le> 2 ^ 39" by simp
  have "ok"
  proof (rule ccontr)
    assume "\<not> ok"
    obtain k where "copyout_spec 0xffffff8000001000 demo_R {} 0xffffff8000001000 5 [1, 2, 3] demo_user ok km' k"
      using copyout_loop[OF demo_user_ok(1) R b c] by blast
    then have "k < length [1 :: byte, 2, 3]" and n: "uview demo_user 0xffffff8000001000 (5 + of_nat k) = None"
      unfolding copyout_spec_def using \<open>\<not> ok\<close> by simp_all
    then have k: "k < 3" "uview demo_user 0xffffff8000001000 (5 + of_nat k) = None" by simp_all
    have "unat (5 + of_nat k :: u64) = 5 + k" using unat_va_plus[of 5 k] k(1) by simp
    then have "pg_down (5 + of_nat k) = pg_at 0" using k(1) by (simp add: pg_down_pg_at)
    then show False using demo_uview k(2) by blast
  qed
  then show ?thesis using copyin_copyout[OF demo_user_ok(1) R b] c by (simp add: numeral_3_eq_3)
qed

end
