(* ===== verification/Fork.thy ===== *)
theory Fork imports Proc VmUser begin

text \<open>
  \<open>fork\<close> of \<open>forks/arm64/kernel/proc.c\<close> as a whole: the critical sections it takes of the process
  table, and what the child gets: memory, registers, files and directory.
\<close>

section \<open>A new page table\<close>

lemma user_ok_less:
  assumes "user_ok lo km R H" and "H' \<subseteq> H"
  shows "user_ok lo km R H'"
proof -
  have "H' \<union> data km R \<subseteq> H \<union> data km R" using assms(2) by blast
  then have "vm_ok lo KTOP km R (H' \<union> data km R)"
    using user_okD(1)[OF assms(1)] unfolding vm_ok_def by blast
  moreover have "H' \<inter> data km R = {}" using user_okD(2)[OF assms(1)] assms(2) by blast
  ultimately show ?thesis using assms(1) unfolding user_ok_def by blast
qed

text \<open>\<open>uvmcreate\<close> adds an empty table to a sound set of page tables.\<close>

lemma user_create:
  assumes ok: "user_ok lo km R H" and u: "uvmcreate km = (pt, km')" "pt \<noteq> 0"
  shows "pt \<notin> R" "user_ok lo km' (insert pt R) H" "same_ptes R km km'" "same_pages (H \<union> data km R) km km'"
    "\<And>va. pte_of km' pt va = 0" "kfree_set km' = kfree_set km - {pt}" "user_ok lo km' R H"
proof -
  obtain km1 where k: "kalloc km = (pt, km1)" and z: "km' = zero_page pt km1"
    using u by (auto simp: uvmcreate_def split: prod.splits if_splits)
  note A = user_alloc[OF ok k u(2)]
  have W: "user_ok lo km' R (insert pt H)" "same_ptes R km1 km'" "same_pages (insert pt H \<union> data km1 R - {pt}) km1 km'"
    "kfree_set km' = kfree_set km1"
    using user_write[OF A(1), of pt km'] by (simp_all add: z zero_page_mem)
  note V = user_okD(1)[OF W(1)]
  have P: "page_ok lo KTOP pt" "pt \<notin> kfree_set km'" "pt \<notin> data km' R" using held_page[OF W(1), of pt] by auto
  show "kfree_set km' = kfree_set km - {pt}"
    using W(4) ka.alloc_some[OF vm_okD(1)[OF user_okD(1)[OF ok]] k u(2)] by simp
  show s: "same_ptes R km km'" using A(3) W(2) by simp
  have d: "data km1 R = data km R" "data km' R = data km R" by (rule data_cong; use A(3) s in simp)+
  show "same_pages (H \<union> data km R) km km'"
    by (rule same_pages_trans[OF A(4) same_pages_mono[OF W(3)]]) (use A(2) P(3) d in auto)
  have e: "ent km' pt i = 0" if "i < 512" for i unfolding z by (rule ent_zero_page[OF that])
  have N: "node km' pt p = (if p = [] then Some pt else None)" if "short p" for p
    using empty_table[OF e that] .
  have none: "pte_of km' pt va = 0" for va using N[OF short_path, of va] by (simp add: pte_of_def va_path_def)
  then show "\<And>va. pte_of km' pt va = 0" .
  show "user_ok lo km' R H" by (rule user_ok_less[OF W(1)]) blast
  show new: "pt \<notin> R" using vm_okD(5)[OF V, of pt "[]" pt] by (auto simp: short_def)
  have away: "a \<noteq> pt" if "q \<in> R" "short p" "node km' q p = Some a" for q p a
    using vm_okD(5)[OF V that] by auto
  have dd: "data km' (insert pt R) = data km' R" using none by (auto simp: data_def)
  have "vm_ok lo KTOP km' (insert pt R) (H \<union> data km' R)"
    unfolding vm_ok_def
  proof (intro conjI ballI allI impI)
    show "kinv lo KTOP km'" "KBASE < lo" "KTOP \<le> KTOP" using V by (auto simp: vm_ok_def)
  next
    fix q p a assume q: "q \<in> insert pt R" and n: "short p \<and> node km' q p = Some a"
    have "page_ok lo KTOP a \<and> a \<notin> kfree_set km' \<and> a \<notin> H \<union> data km' R"
    proof (cases "q = pt")
      case True
      then have "a = pt" using n N[of p] by (auto split: if_splits)
      then show ?thesis using P A(2) by simp
    next
      case False
      then show ?thesis using vm_okD(3-5)[OF V, of q p a] q n by auto
    qed
    then show "page_ok lo KTOP a" "a \<notin> kfree_set km'" "a \<notin> H \<union> data km' R" by blast+
  next
    fix q q' p p' a assume q: "q \<in> insert pt R" "q' \<in> insert pt R"
      and n: "short p \<and> short p' \<and> node km' q p = Some a \<and> node km' q' p' = Some a"
    have root: "p'' = [] \<and> a = pt" if "node km' pt p'' = Some a" "short p''" for p''
      using that N[of p''] by (auto split: if_splits)
    have "q = q' \<and> p = p'"
    proof (cases "q = pt \<or> q' = pt")
      case True
      then have "a = pt" using n root by blast
      then show ?thesis using q n away root by blast
    next
      case False
      then show ?thesis using vm_okD(6)[OF V, of q q' p p' a] q n by blast
    qed
    then show "q = q'" "p = p'" by blast+
  next
    fix x assume "x \<in> H \<union> data km' R"
    then show "page_ok lo KTOP x" "x \<notin> kfree_set km'" using vm_okD(7,8)[OF V, of x] by auto
  qed
  then show "user_ok lo km' (insert pt R) H"
    unfolding user_ok_def dd using user_okD(2-4)[OF W(1)] none by auto
qed

section \<open>The child\<close>

text \<open>The child's entry \<open>np\<close>, and the entries of the others.\<close>

definition child_entry :: "nat \<Rightarrow> nat \<Rightarrow> 'a kst_scheme \<Rightarrow> 'a kst_scheme \<Rightarrow> bool" where
  "child_entry p np st st' \<longleftrightarrow> (let me = pof st p; child = pof st' np in
     pstate (pof st np) = UNUSED \<and> pstate child = RUNNABLE \<and> pparent child = Some p \<and> ppid child = nextpid (ptab st)
     \<and> psz child = psz me \<and> ptf child = (ptf me)\<lparr>tf_x := (tf_x (ptf me))(0 := 0)\<rparr>
     \<and> cstrn (pname child) 16 = cstrn (pname me) 15
     \<and> pcwd child = pcwd me
     \<and> (\<forall>fd < NOFILE. pofile child fd = (if pofile me fd \<noteq> None then pofile me fd else pofile (pof st np) fd))
     \<and> (\<forall>q. q \<noteq> np \<longrightarrow> pof st' q = pof st q))"

text \<open>
  Its memory, of \<open>n\<close> pages: it reads what the parent reads, in a page table of its own that makes a
  sound set with those in \<open>R\<close>, and these read what they did.
\<close>

definition child_memory :: "nat \<Rightarrow> nat \<Rightarrow> nat \<Rightarrow> nat set \<Rightarrow> nat set \<Rightarrow> 'a kst_scheme \<Rightarrow> 'a kst_scheme \<Rightarrow> bool" where
  "child_memory p np n R H st st' \<longleftrightarrow> (let pt = ppagetable (pof st' np) in
     pt \<notin> R \<and> user_ok (kend st') (kpool st') (insert pt R) H
     \<and> (\<forall>va. unat va < n * PGSIZE \<longrightarrow> uview (kpool st') pt va = uview (kpool st) (ppagetable (pof st p)) va)
     \<and> (\<forall>pt' \<in> R. \<forall>va. uview (kpool st') pt' va = uview (kpool st) pt' va))"

text \<open>One more reference to each file for each descriptor the parent has open, and to its directory.\<close>

definition child_refs :: "nat \<Rightarrow> 'a kst_scheme \<Rightarrow> 'a kst_scheme \<Rightarrow> bool" where
  "child_refs p st st' \<longleftrightarrow>
     (\<forall>f. ftab st' f = (ftab st f)\<lparr>fref := fref (ftab st f) + int (card {fd. fd < NOFILE \<and> pofile (pof st p) fd = Some f})\<rparr>)
     \<and> (\<exists>d. pcwd (pof st p) = Some d \<and> itab st' = (itab st)(d := (itab st d)\<lparr>iref := iref (itab st d) + 1\<rparr>))"

lemma set_name_string: "cstrn (set_name nm src) 16 = cstrn src 15"
  using safestrcpy_terminates_string[of 16 0 16 "\<lambda>a. if a < 16 then nm a else src (a - 16)"]
  by (simp add: set_name_def)

lemma fork_entry:
  assumes "find_unused (ptab st) = Some np" and "st' = (idup cwd (st\<lparr>kpool := km, ftab := ft\<rparr>))\<lparr>ptab := fork_ready np
    (fork_parent p np (fork_alloc np (\<lambda>q. copy_proc (pof st p) (q\<lparr>ppagetable := pt, pcontext := c\<rparr>)) (ptab st)))\<rparr>"
  shows "np < NPROC" "child_entry p np st st'" "ppagetable (pof st' np) = pt"
  using find_unused_SomeD[OF assms(1)]
  by (simp_all add: child_entry_def Let_def fork_pof[OF assms(2)] copy_proc_def set_name_string) (simp add: pof_def)

lemma fork_copies_memory:
  assumes ok: "user_ok lo km R H" and u: "uvmcreate km = (pt, km1)" "pt \<noteq> 0" and old: "old \<in> R"
    and sz: "unat sz \<le> 2 ^ 39" "n = (unat sz + PGSIZE - 1) div PGSIZE" "\<forall>k < n. present (pte_of km old (pg_at k))"
    and c: "uvmcopy lo old pt sz km1 = Some (True, km2)"
  shows "pt \<notin> R \<and> user_ok lo km2 (insert pt R) H
    \<and> (\<forall>va. unat va < n * PGSIZE \<longrightarrow> uview km2 pt va = uview km old va) \<and> (\<forall>pt' \<in> R. \<forall>va. uview km2 pt' va = uview km pt' va)"
proof -
  note U = user_create[OF ok u]
  have view: "uview km1 pt' va = uview km pt' va" if "pt' \<in> R" for pt' va
  proof -
    have "data km {pt'} \<subseteq> H \<union> data km R" using that by (auto simp: data_def)
    from uview_same[OF ok U(7) that _ same_pages_mono[OF U(4) this]] show ?thesis using that U(3) by simp
  qed
  have "\<forall>k < n. present (pte_of km1 old (pg_at k)) \<and> \<not> present (pte_of km1 pt (pg_at k))"
    using sz(3) U(3,5) old by simp
  from uvmcopy_effect[OF U(2) _ _ _ sz(1,2) this] old U(1) obtain ok km' where
    C: "uvmcopy lo old pt sz km1 = Some (ok, km')" "user_ok lo km' (insert pt R) H"
    "\<forall>pt' \<in> insert pt R - {pt}. \<forall>va. uview km' pt' va = uview km1 pt' va"
    "\<forall>va. unat va < n * PGSIZE \<longrightarrow> uview km' pt va = (if ok then uview km1 old va else None)"
    by blast
  then have "ok" "km' = km2" using c by simp_all
  then show ?thesis using C(2-4) U(1) view old by auto
qed

section \<open>The whole call\<close>

lemma fork_sections:
  assumes "p < NPROC" "pstate (procs t p) = RUNNING" "fk p = None" "find_unused t = Some np"
  shows "proc_step\<^sup>*\<^sup>* \<lparr>ptbl = t, forking = fk, spent = k\<rparr>
    \<lparr>ptbl = fork_ready np (fork_parent p np (fork_alloc np g t)), forking = fk, spent = k + 1\<rparr>"
proof -
  note n = find_unused_SomeD[OF assms(4)]
  have ne: "p \<noteq> np" using n assms(2) by auto
  let ?s0 = "\<lparr>ptbl = t, forking = fk, spent = k\<rparr>"
  let ?s1 = "\<lparr>ptbl = fork_alloc np g t, forking = fk(p := Some (np, False)), spent = k + 1\<rparr>"
  let ?s2 = "\<lparr>ptbl = fork_parent p np (fork_alloc np g t), forking = fk(p := Some (np, True)), spent = k + 1\<rparr>"
  have 1: "proc_step ?s0 ?s1"
    using proc_step.fork[of ?s0 p np g] assms(1-3) n by (simp add: runs_def)
  have run: "pstate (procs (fork_alloc np g t) p) = RUNNING" "pstate (procs (fork_parent p np (fork_alloc np g t)) p) = RUNNING"
    using ne assms(2) by (simp_all add: fork_alloc_def fork_parent_def procs_pset alloc_slot_procs)
  have 2: "proc_step ?s1 ?s2"
    using proc_step.fork_wait_lock[of ?s1 p np] assms(1) run by (simp add: runs_def)
  have 3: "proc_step ?s2 \<lparr>ptbl = fork_ready np (fork_parent p np (fork_alloc np g t)), forking = fk, spent = k + 1\<rparr>"
    using proc_step.fork_done[of ?s2 p np] assms(1,3) run by (simp add: runs_def fun_upd_idem)
  from 1 2 3 show ?thesis by (meson rtranclp.rtrancl_into_rtrancl rtranclp.rtrancl_refl)
qed

text \<open>
  C36: what \<open>fork\<close> does.  For a running process whose memory is mapped, in a sound set of page tables,
  its effect on the process table is that of the critical sections theory \<open>ProcTab\<close> interleaves.  Either
  it returns -1, and no entry of a process, no file and no inode is changed; or the next process id, and
  a free entry is a runnable child of the caller with its size, its registers but for \<open>x0\<close>, which is 0,
  its name, its directory and its open files, each with one more reference for each descriptor; the
  child reads at every address of its memory what its parent reads, in a page table of its own, and
  every other process and all they read is as before.
\<close>

theorem fork_refines:
  assumes "p < NPROC" and "pstate (pof st p) = RUNNING" and "fork fr p st = Some (r, st')" and "fk p = None"
    and "user_ok (kend st) (kpool st) R H" and "ppagetable (pof st p) \<in> R" and "unat (psz (pof st p)) \<le> 2 ^ 39"
    and "n = (unat (psz (pof st p)) + PGSIZE - 1) div PGSIZE"
    and "\<forall>k < n. present (pte_of (kpool st) (ppagetable (pof st p)) (pg_at k))"
  shows "(\<exists>k'. proc_step\<^sup>*\<^sup>* \<lparr>ptbl = ptab st, forking = fk, spent = k\<rparr> \<lparr>ptbl = ptab st', forking = fk, spent = k'\<rparr>)
    \<and> (r = -1 \<and> (\<forall>q. pstate (pof st q) \<noteq> UNUSED \<longrightarrow> pof st' q = pof st q) \<and> ftab st' = ftab st \<and> itab st' = itab st
       \<or> (\<exists>np < NPROC. r = nextpid (ptab st) \<and> child_entry p np st st' \<and> child_memory p np n R H st st' \<and> child_refs p st st'))"
proof -
  have run: "pstate (procs (ptab st) p) = RUNNING" using assms(2) by (simp add: pof_def)
  have "pstate (pof st p) \<noteq> UNUSED" using assms(2) by simp
  from this assms(3) show ?thesis
  proof (cases rule: fork_effect)
    case none
    then show ?thesis by auto
  next
    case (undone np f km)
    note n = find_unused_SomeD[OF undone(2)]
    have "proc_step \<lparr>ptbl = ptab st, forking = fk, spent = k\<rparr>
        \<lparr>ptbl = clear_slot np (pset np f (alloc_slot np (ptab st))), forking = fk, spent = k + 1\<rparr>"
      using proc_step.fork_fails[of "\<lparr>ptbl = ptab st, forking = fk, spent = k\<rparr>" p np f] assms(1,4) run n
      by (simp add: runs_def)
    then have "\<exists>k'. proc_step\<^sup>*\<^sup>* \<lparr>ptbl = ptab st, forking = fk, spent = k\<rparr> \<lparr>ptbl = ptab st', forking = fk, spent = k'\<rparr>"
      by (auto simp: undone(3))
    moreover have "pof st' q = pof st q" if "pstate (pof st q) \<noteq> UNUSED" for q
      using n that by (auto simp: pof_def undone(3) clear_slot_def procs_pset alloc_slot_procs)
    ultimately show ?thesis using undone(1,3) by simp
  next
    case (child np pt km1 km c cwd ft)
    note E = fork_entry[OF child(2,8)]
    have "\<exists>k'. proc_step\<^sup>*\<^sup>* \<lparr>ptbl = ptab st, forking = fk, spent = k\<rparr> \<lparr>ptbl = ptab st', forking = fk, spent = k'\<rparr>"
      using fork_sections[where fk = fk, OF assms(1) run assms(4) child(2)] by (auto simp: child(8))
    moreover have "child_memory p np n R H st st'"
      using fork_copies_memory[OF assms(5) child(3,4) assms(6-9) child(5)]
      by (simp add: child_memory_def Let_def E(3)) (simp add: child(8) idup_def iset_def)
    moreover have "child_refs p st st'"
      using child(6) dup_files_facts[OF child(7)] by (simp add: child_refs_def child(8) idup_def iset_def)
    ultimately show ?thesis using E(1,2) child(1) by blast
  qed
qed

section \<open>An example\<close>

text \<open>A table with one page, which holds sevens, and five free pages.\<close>

abbreviation (input) dT1 :: nat where "dT1 \<equiv> 0xffffff8000001000"
abbreviation (input) dT2 :: nat where "dT2 \<equiv> 0xffffff8000002000"
abbreviation (input) dT3 :: nat where "dT3 \<equiv> 0xffffff8000003000"
abbreviation (input) dD :: nat where "dD \<equiv> 0xffffff8000004000"

definition demo_page :: mem where
  "demo_page a = (if dD \<le> a \<and> a < dD + PGSIZE then 7 else 0)"

definition demo_leaf :: u64 where
  "demo_leaf = leaf_pte (V2P (of_nat dD)) PTE_U"

definition demo_proc_mem :: kmem where
  "demo_proc_mem = \<lparr>kfreelist = 0xffffff8000005000, kpages =
     wr64 (wr64 (wr64 (wr64 (wr64 (wr64 (wr64 demo_page dT1 (table_pte dT2)) dT2 (table_pte dT3)) dT3 demo_leaf)
       0xffffff8000005000 0xffffff8000006000) 0xffffff8000006000 0xffffff8000007000)
       0xffffff8000007000 0xffffff8000008000) 0xffffff8000008000 0xffffff8000009000\<rparr>"

lemma rd64_demo_page: "x + 8 \<le> dD \<or> dD + PGSIZE \<le> x \<Longrightarrow> rd64 demo_page x = 0"
  unfolding rd64_0[of x, symmetric] by (rule rd64_cong) (auto simp: demo_page_def)

lemma demo_mem_klist: "klist dT1 KTOP demo_proc_mem
    [0xffffff8000005000, 0xffffff8000006000, 0xffffff8000007000, 0xffffff8000008000, 0xffffff8000009000]"
  by (simp add: klist_def demo_proc_mem_def page_ok_def rd64_wr64 rd64_wr64_apart rd64_demo_page)

lemma demo_mem_ent:
  "i < 512 \<Longrightarrow> ent demo_proc_mem dT1 i = (if i = 0 then table_pte dT2 else 0)"
  "i < 512 \<Longrightarrow> ent demo_proc_mem dT2 i = (if i = 0 then table_pte dT3 else 0)"
  "i < 512 \<Longrightarrow> ent demo_proc_mem dT3 i = (if i = 0 then demo_leaf else 0)"
  by (simp_all add: ent_def demo_proc_mem_def rd64_wr64 rd64_wr64_apart rd64_demo_page)

lemma demo_tables: "P2V (PTE2PA (table_pte dT2)) = dT2" "P2V (PTE2PA (table_pte dT3)) = dT3"
  "is_table (table_pte a)" "\<not> is_table 0"
  using table_pte(1)[of dT1 KTOP dT2] table_pte(1)[of dT1 KTOP dT3] table_pte(2)
  by (simp_all add: page_ok_def is_table_def)

lemma demo_node:
  assumes "short p"
  shows "node demo_proc_mem dT1 p =
    (if p = [] then Some dT1 else if p = [0] then Some dT2 else if p = [0, 0] then Some dT3 else None)"
proof -
  consider "p = []" | i where "p = [i]" "i < 512" | i j where "p = [i, j]" "i < 512" "j < 512"
    using assms by (cases p; cases "tl p") (auto simp: short_def)
  then show ?thesis by cases (auto simp: demo_mem_ent demo_tables)
qed

lemma demo_mem_pte: "pte_of demo_proc_mem dT1 va = (if vpn va = 0 then demo_leaf else 0)"
proof -
  have z: "vpn 0 = 0" "va_path 0 = [0, 0]" "PX 3 0 = 0" by (simp_all add: vpn_def va_path_def PX_div)
  have "vpn va = 0 \<longleftrightarrow> va_path va = [0, 0] \<and> PX 3 va = 0" using vpn_path[of va 0] z by simp
  then show ?thesis using demo_node[OF short_path, of va] by (auto simp: pte_of_def demo_mem_ent va_path_def)
qed

lemma demo_leaf_facts: "present demo_leaf" "data_of demo_leaf = dD" "demo_leaf AND PTE_V = PTE_V" "demo_leaf AND PTE_U = PTE_U"
proof -
  have "page_ok dT1 KTOP dD" "KBASE \<le> dT1" by (simp_all add: page_ok_def)
  moreover have "(PTE_U OR PTE_AF OR PTE_V :: u64) AND 0xfffffffff000 = 0" by simp
  ultimately show "data_of demo_leaf = dD"
    using PTE2PA_or[of dT1 KTOP dD "PTE_U OR PTE_AF OR PTE_V"] by (simp add: data_of_def demo_leaf_def leaf_pte_def or.assoc)
  show "present demo_leaf" "demo_leaf AND PTE_V = PTE_V" by (simp_all add: demo_leaf_def present_leaf leaf_pte_bits)
  show "demo_leaf AND PTE_U = PTE_U"
    by (simp add: demo_leaf_def leaf_pte_def bit.conj_disj_distrib2 or.assoc PA2PTE_def and.assoc)
qed

lemma demo_mem_ok: "user_ok dT1 demo_proc_mem {dT1} {}"
proof -
  have d: "data demo_proc_mem {dT1} = {dD}"
    using demo_leaf_facts(1,2) by (auto simp: data_def demo_mem_pte vpn_def intro: exI[of _ 0])
  have "vm_ok dT1 KTOP demo_proc_mem {dT1} {dD}"
    unfolding vm_ok_def kfree_set_klist[OF demo_mem_klist]
    using demo_mem_klist by (auto simp: demo_node page_ok_def kinv_def split: if_splits)
  then show ?thesis unfolding user_ok_def d using demo_leaf_facts(3) by (auto simp: demo_mem_pte split: if_splits)
qed

lemma demo_mem_view:
  assumes "unat va < 2 ^ 39"
  shows "uview demo_proc_mem dT1 va = (if unat va < PGSIZE then Some 7 else None)"
proof -
  have d: "unat (pg_down va) = unat va div PGSIZE * PGSIZE" by (rule unat_pg_down)
  have le: "pg_down va \<le> va" by (simp add: word_le_nat_alt d)
  have U: "uva2ka dT1 (pg_down va) demo_proc_mem = (if pg_down va < MAXVA \<and> vpn (pg_down va) = 0 then dD else 0)"
    using demo_leaf_facts by (simp add: uva2ka_pte[OF demo_mem_ok] demo_mem_pte present_def)
  have small: "pg_down va < MAXVA \<and> vpn (pg_down va) = 0 \<longleftrightarrow> unat va < PGSIZE"
    using assms by (auto simp: vpn_def word_less_nat_alt d)
  have "kpages demo_proc_mem (dD + k) = 7" if "k < PGSIZE" for k
    using that by (simp add: demo_proc_mem_def wr64_other demo_page_def)
  then show ?thesis by (simp add: uview_def U small Let_def unat_sub[OF le] d)
qed

text \<open>With three free pages the copy of one page does not run out of memory.\<close>

lemma copy_one_page:
  assumes ok: "user_ok lo km R H" and R: "old \<in> R" "new \<in> R" and sz: "0 < sz" "sz \<le> PGSZ"
    and e: "present (pte_of km old (pg_at 0))" and free: "\<not> present (pte_of km new (pg_at 0))"
    and three: "{x, y, z} \<subseteq> kfree_set km" "distinct [x, y, z]"
  shows "\<exists>km'. uvmcopy lo old new sz km = Some (True, km')"
proof -
  let ?a = "pg_at 0" and ?e = "pte_of km old (pg_at 0)"
  note V = user_okD(1)[OF ok]
  have a0: "?a = 0" by (simp add: pg_at_def)
  have M: "?a < MAXVA" "unat ?a mod PGSIZE = 0" using pg_at_MAXVA[of 0] by (simp_all add: a0)
  obtain p km1 where k: "kalloc km = (p, km1)" by force
  have p: "p \<noteq> 0" using kalloc_0[OF vm_okD(1)[OF V] k] three(1) by auto
  let ?m = "km1\<lparr>kpages := memmove (kpages km1) p (data_of ?e) PGSIZE\<rparr>"
  note A = user_alloc[OF ok k p]
  have "kfree_set km1 = kfree_set km - {p}" using ka.alloc_some[OF vm_okD(1)[OF V] k p] by blast
  then have in1: "a \<in> kfree_set km1 \<longleftrightarrow> a \<noteq> p" if "a \<in> {x, y, z}" for a using three(1) that by blast
  consider "x \<noteq> p" "y \<noteq> p" | "x \<noteq> p" "z \<noteq> p" | "y \<noteq> p" "z \<noteq> p" using three(2) by auto
  then obtain x' y' where two: "x' \<in> kfree_set km1" "y' \<in> kfree_set km1" "x' \<noteq> y'"
    by cases (use in1 three(2) in \<open>simp_all, blast+\<close>)
  have d: "data km1 R = data km R" by (rule data_cong[OF A(3)])
  have D: "data_of ?e \<in> data km R" by (rule dataI[OF R(1) e])
  have P: "page_ok lo KTOP p" "p \<notin> data km R" using held_page[OF A(1), of p] d by auto
  have Pd: "page_ok lo KTOP (data_of ?e)" using vm_okD(7)[OF V, of "data_of ?e"] D by auto
  have "p \<noteq> data_of ?e" using P(2) D by auto
  then have "\<forall>x. \<not> in_page p x \<longrightarrow> kpages ?m x = kpages km1 x"
    using memmove_apart[OF pages_apart2[OF Pd P(1)]] by (simp add: in_page_def)
  then have W: "user_ok lo ?m R (insert p H)" "same_ptes R km1 ?m" "kfree_set ?m = kfree_set km1"
    using user_write[OF A(1), of p ?m] by simp_all
  have f: "pte_of ?m new ?a AND PTE_AF = 0" using free A(3) W(2) R(2) by (simp add: present_def)
  obtain km3 where m: "mappages new ?a PGSZ (V2P (of_nat p)) (PTE_FLAGS ?e) ?m = Some (True, km3)"
    using mappages_page_total[OF user_okD(1)[OF W(1)] R(2) M(2,1) V2P_PHYSTOP[OF W(1) insertI1] f, of "PTE_FLAGS ?e"]
      two W(3) by auto
  obtain b where sl: "slot km old ?a \<noteq> 0" "rd64 (kpages km) (slot km old ?a) = ?e"
    using slot_present[OF V R(1) e] by metis
  have "\<not> PGSZ < sz" using sz(2) by simp
  then have last: "uvmcopy_loop lo old new PGSZ sz km3 = Some (True, km3)" by (subst uvmcopy_loop.simps) simp
  have "uvmcopy_loop lo old new ?a sz km = Some (True, km3)"
    using sz(1) sl e k p m last walk_ro_eq[OF M(1), of old km] unfolding a0 data_of_def
    by (subst uvmcopy_loop.simps) (simp add: present_def Let_def)
  then show ?thesis by (auto simp: uvmcopy_def a0)
qed

text \<open>
  The process has that page as its memory, file 3 open as its descriptors 0 and 1, inode 0 as its
  directory, and two registers that are not 0.
\<close>

definition demo_parent :: kst where
  "demo_parent = demo_kst\<lparr>kpool := demo_proc_mem, kend := dT1,
     ftab := no_files(3 := (no_files 3)\<lparr>ftyp := FD_INODE, fref := 2\<rparr>),
     ptab := pset 0 (\<lambda>q. q\<lparr>psz := 100, ppagetable := dT1, pofile := (\<lambda>_. None)(0 := Some 3, 1 := Some 3),
       ptf := (ptf q)\<lparr>tf_elr := 0x40, tf_x := (\<lambda>i. of_nat i + 5)\<rparr>\<rparr>) (ptab demo_kst)\<rparr>"

lemma demo_parent_facts:
  "pstate (pof demo_parent 0) = RUNNING" "find_unused (ptab demo_parent) = Some 1" "nextpid (ptab demo_parent) = 2"
  "psz (pof demo_parent 0) = 100" "ppagetable (pof demo_parent 0) = dT1" "pcwd (pof demo_parent 0) = Some 0"
  "pofile (pof demo_parent 0) = (\<lambda>_. None)(0 := Some 3, 1 := Some 3)" "kend demo_parent = dT1" "kpool demo_parent = demo_proc_mem"
  "fref (ftab demo_parent 3) = 2" "tf_elr (ptf (pof demo_parent 0)) = 0x40" "tf_x (ptf (pof demo_parent 0)) i = of_nat i + 5"
  "pof demo_parent 1 = procs boot_ptable 1"
  by (simp_all add: demo_parent_def demo_kst_def boot_ptable_def pset_def pof_def find_unused_def upt_conv_Cons)

lemma three_left:
  assumes "distinct [a, b, c, d]"
  shows "\<exists>x y z. {x, y, z} \<subseteq> {a, b, c, d, e} - {p} \<and> distinct [x, y, z]"
proof -
  consider "p = a" | "p = b" | "p = c" | "p \<notin> {a, b, c}" by blast
  then show ?thesis
  proof cases
    case 1 show ?thesis by (rule exI[of _ b], rule exI[of _ c], rule exI[of _ d]) (use 1 assms in auto)
  next
    case 2 show ?thesis by (rule exI[of _ a], rule exI[of _ c], rule exI[of _ d]) (use 2 assms in auto)
  next
    case 3 show ?thesis by (rule exI[of _ a], rule exI[of _ b], rule exI[of _ d]) (use 3 assms in auto)
  next
    case 4 show ?thesis by (rule exI[of _ a], rule exI[of _ b], rule exI[of _ c]) (use 4 assms in auto)
  qed
qed

lemma demo_parent_fork: "\<exists>r st'. fork 0 0 demo_parent = Some (r, st') \<and> r \<noteq> -1"
proof -
  note f = demo_parent_facts
  let ?S = "{0xffffff8000005000, 0xffffff8000006000, 0xffffff8000007000, 0xffffff8000008000, 0xffffff8000009000} :: nat set"
  have S: "kfree_set demo_proc_mem = ?S" unfolding kfree_set_klist[OF demo_mem_klist] by simp
  obtain pt km1 where u: "uvmcreate demo_proc_mem = (pt, km1)" by force
  obtain q km0 where k: "kalloc demo_proc_mem = (q, km0)" by force
  have "q \<noteq> 0" using kalloc_0[OF vm_okD(1)[OF user_okD(1)[OF demo_mem_ok]] k] S by auto
  then have pt: "pt \<noteq> 0" using u k by (auto simp: uvmcreate_def)
  note U = user_create[OF demo_mem_ok u pt]
  have "\<exists>x y z. {x, y, z} \<subseteq> ?S - {pt} \<and> distinct [x, y, z]" by (rule three_left) simp
  then obtain x y z where three: "{x, y, z} \<subseteq> kfree_set km1" "distinct [x, y, z]" unfolding U(6) S by blast
  have e: "present (pte_of km1 dT1 (pg_at 0))" "\<not> present (pte_of km1 pt (pg_at 0))"
    using U(3,5) demo_leaf_facts(1) by (simp_all add: demo_mem_pte pg_at_def vpn_def)
  obtain km2 where c: "uvmcopy dT1 dT1 pt 100 km1 = Some (True, km2)"
    using copy_one_page[OF U(2) _ _ _ _ e three, of 100] by auto
  have d: "\<exists>ft. dup_files ((\<lambda>_. None)(0 := Some 3, 1 := Some 3)) (ftab demo_parent) = Some ft"
    using f(10) by (simp add: dup_files_def upt_conv_Cons filedup_def)
  then obtain ft where ft: "dup_files ((\<lambda>_. None)(0 := Some 3, 1 := Some 3)) (ftab demo_parent) = Some ft" by blast
  let ?s1 = "demo_parent\<lparr>kpool := km1, ptab := pset 1 (\<lambda>q. q\<lparr>ppagetable := pt, pcontext :=
      \<lparr>ctx_sp = pkstack (pof demo_parent 1) + PGSZ - TF_SIZE, ctx_x30 = 0, ctx_x = (\<lambda>_. 0)\<rparr>\<rparr>) (alloc_slot 1 (ptab demo_parent))\<rparr>"
  have a: "allocproc 0 demo_parent = Some (Some 1, ?s1)"
    using pt u f(2,9) by (simp add: allocproc_def Let_def pupd_def pset_def pof_def alloc_slot_procs)
  have p1: "pof ?s1 0 = pof demo_parent 0" "ppagetable (pof ?s1 1) = pt" "ppid (pof ?s1 1) = 2"
    using f(3) by (simp_all add: pof_def procs_pset alloc_slot_procs)
  have s1: "kpool ?s1 = km1" "ftab ?s1 = ftab demo_parent" "kend ?s1 = dT1" by (simp_all add: f(8))
  obtain s1 where S1: "allocproc 0 demo_parent = Some (Some 1, s1)" "pof s1 0 = pof demo_parent 0"
    "ppagetable (pof s1 1) = pt" "ppid (pof s1 1) = 2" "kpool s1 = km1" "ftab s1 = ftab demo_parent" "kend s1 = dT1"
    using a p1 s1 by blast
  let ?s2 = "pupd 1 (copy_proc (pof demo_parent 0)) (idup 0 (s1\<lparr>kpool := km2, ftab := ft\<rparr>))"
  have other: "pof (s1\<lparr>kpool := u, ftab := v\<rparr>) q = pof s1 q" "pof (s1\<lparr>kpool := u\<rparr>) q = pof s1 q"
    "pof (idup w (s1\<lparr>kpool := u, ftab := v\<rparr>)) q = pof s1 q" for u v q w
    by (simp_all add: pof_def idup_def iset_def)
  have "fork_copy 0 0 demo_parent = Some (Some 1, ?s2)"
    unfolding fork_copy_def S1(1)
    using c ft by (simp add: Let_def S1(2-7) other f(4-9) del: One_nat_def)
  moreover have "ppid (pof ?s2 1) = 2"
    using S1(4) by (simp add: pupd_def pof_def procs_pset idup_def iset_def copy_proc_def)
  ultimately show ?thesis by (simp add: fork_def Let_def)
qed

lemma fork_refines_witness:
  "\<exists>st' np. fork 0 0 demo_parent = Some (2, st') \<and> np \<noteq> 0
     \<and> pstate (pof st' np) = RUNNABLE \<and> pparent (pof st' np) = Some 0 \<and> ppid (pof st' np) = 2
     \<and> tf_x (ptf (pof st' np)) 0 = 0 \<and> tf_x (ptf (pof st' np)) 1 = 6 \<and> tf_elr (ptf (pof st' np)) = 0x40
     \<and> fref (ftab st' 3) = 4 \<and> pofile (pof st' np) 1 = Some 3
     \<and> uview (kpool st') (ppagetable (pof st' np)) 99 = Some 7 \<and> ppagetable (pof st' np) \<noteq> dT1"
proof -
  note f = demo_parent_facts
  obtain r st' where r: "fork 0 0 demo_parent = Some (r, st')" "r \<noteq> -1" using demo_parent_fork by blast
  have one: "(unat (psz (pof demo_parent 0)) + PGSIZE - 1) div PGSIZE = 1" by (simp add: f(4))
  have "present (pte_of demo_proc_mem dT1 (pg_at 0))"
    using demo_leaf_facts(1) by (simp add: demo_mem_pte pg_at_def vpn_def)
  then obtain np where np: "r = 2" "child_entry 0 np demo_parent st'" "child_memory 0 np 1 {dT1} {} demo_parent st'"
    "child_refs 0 demo_parent st'"
    using fork_refines[OF _ f(1) r(1), of "\<lambda>_. None" "{dT1}" "{}" 1] r(2) demo_mem_ok one f(3-9) by auto
  have "pstate (pof demo_parent np) = UNUSED" using np(2) by (simp add: child_entry_def Let_def)
  then have "np \<noteq> 0" using f(1) by (cases "np = 0") simp_all
  moreover have "uview demo_proc_mem dT1 99 = Some 7" by (simp add: demo_mem_view)
  then have "uview (kpool st') (ppagetable (pof st' np)) 99 = Some 7" "ppagetable (pof st' np) \<noteq> dT1"
    using np(3) f(5,9) by (auto simp: child_memory_def Let_def)
  moreover have "{fd. fd < NOFILE \<and> pofile (pof demo_parent 0) fd = Some 3} = {0, 1}" by (auto simp: f(7))
  then have "fref (ftab st' 3) = 4" using np(4) f(10) by (simp add: child_refs_def)
  moreover have "pofile (pof st' np) 1 = Some 3" using np(2) f(7) by (simp add: child_entry_def Let_def)
  ultimately show ?thesis
    using r(1) np(1,2) f(3,11,12) by (intro exI[of _ st'] exI[of _ np]) (simp add: child_entry_def Let_def)
qed

end
