(* ===== verification/FileWrite.thy ===== *)
theory FileWrite imports FsLogUse VmCopy SysFile Fork begin

text \<open>
  \<open>writei\<close> with the bytes of a user process: \<open>filewrite\<close> copies with \<open>copyin\<close>, which stops at the
  first address the process has not mapped.
\<close>

section \<open>The copy\<close>

lemma user_in_spec:
  assumes "user_in p st a k = (bs, ok)"
  shows "copyin_spec (ppagetable (pof st p)) (kpool st) (of_nat a) k bs ok"
  using assms unfolding user_in_def by (rule copyin_loop)

interpretation usr: copyin_contract "user_in p st" "\<lambda>a. the (uview (kpool st) (ppagetable (pof st p)) (of_nat a))" for p st
proof
  fix a k bs ok assume "user_in p st a k = (bs, ok)"
  note S = user_in_spec[OF this, unfolded copyin_spec_def]
  show "length bs \<le> k \<and> (ok \<longrightarrow> length bs = k)" using S by (cases ok) auto
  show "bs ! i = the (uview (kpool st) (ppagetable (pof st p)) (of_nat (a + i)))" if "i < length bs" for i
    using S that by simp
qed

section \<open>The log\<close>

text \<open>
  C23: a transaction of \<open>filewrite\<close> fits the reservation of its \<open>begin_op\<close>.  On a disk with one bitmap
  block (\<open>sb.size \<le> BPB\<close>, as on the 2000 blocks of \<open>FSSIZE\<close>), a \<open>writei\<close> of at most the
  \<open>filewrite\<close> maximum of 3072 bytes from the memory of any process, at any offset, and whether it writes all of
  them, stops at an address the process has not mapped, or is refused, adds at most 7 blocks to the
  log, within \<open>MAXOPBLOCKS\<close>: four data blocks, the indirect block, the bitmap block and the inode's
  block.
\<close>

theorem write_chunk_log_bound:
  assumes "fs_ok st" and "inode_ok st ip" and "sb_size (sb st) \<le> BPB" and "distinct (lh st)"
    and "unat n \<le> ((MAXOPBLOCKS - 1 - 1 - 2) div 2) * BSIZE"
    and "writei ip (user_in p st0) src off n st = Some (r, st')"
  shows "length (lh st') \<le> length (lh st) + 7"
  using usr.writei_logs[OF assms(1-4) _ assms(6)] assms(5) by simp

text \<open>
  The process of theory \<open>Fork\<close> writes 1500 bytes from address 3072 of its one page: the first 1024
  are written, and the rest is beyond the page.
\<close>

lemma demo_user_in:
  "\<exists>bs. user_in 0 demo_parent 3072 1024 = (bs, True)" "\<exists>bs. user_in 0 demo_parent 4096 476 = (bs, False)"
proof -
  note f = demo_parent_facts
  have v: "uview demo_proc_mem dT1 (of_nat a) = (if a < PGSIZE then Some 7 else None)" if "a < 2 ^ 39" for a
    using that demo_mem_view[of "of_nat a"] by (simp add: unsigned_of_nat take_bit_nat_eq_self)
  obtain bs ok where 1: "user_in 0 demo_parent 3072 1024 = (bs, ok)" by force
  have "ok"
  proof (rule ccontr)
    assume "\<not> ok"
    then have "length bs < 1024" "uview demo_proc_mem dT1 (of_nat (3072 + length bs)) = None"
      using user_in_spec[OF 1] by (simp_all add: copyin_spec_def f(5,9))
    then show False using v[of "3072 + length bs"] by simp
  qed
  then show "\<exists>bs. user_in 0 demo_parent 3072 1024 = (bs, True)" using 1 by simp
  obtain bs ok where 2: "user_in 0 demo_parent 4096 476 = (bs, ok)" by force
  note S = user_in_spec[OF 2, unfolded copyin_spec_def f(5,9)]
  have "bs = []"
  proof (rule ccontr)
    assume "bs \<noteq> []"
    then have "uview demo_proc_mem dT1 (of_nat 4096) \<noteq> None" using S by fastforce
    then show False using v[of 4096] by simp
  qed
  then have "\<not> ok" using S by auto
  then show "\<exists>bs. user_in 0 demo_parent 4096 476 = (bs, False)" using 2 by simp
qed

lemma demo_user_loop:
  assumes "writei_loop 0 (user_in 0 demo_parent) 3072 0 0 1500 st = Some (tot, off, st')"
  shows "tot = 1024"
proof -
  note U = demo_user_in
  from assms obtain st3 where "writei_loop 0 (user_in 0 demo_parent) 4096 1024 1024 1500 st3 = Some (tot, off, st')"
    using U(1) by (auto simp: writei_loop.simps[of 0 _ 3072] Let_def Option.bind_eq_Some_conv)
  then show ?thesis
    using U(2) by (auto simp: writei_loop.simps[of 0 _ 4096] Let_def Option.bind_eq_Some_conv)
qed

lemma demo_user_write: "\<exists>st'. writei 0 (user_in 0 demo_parent) 3072 0 1500 demo_fs = Some (1024, st')"
proof -
  have rng: "(0 :: nat) + (1500 - 0) \<le> MAXFILE * BSIZE" "0 < (1500 :: nat) \<longrightarrow> 0 + (1500 - 0) \<le> (0 div BSIZE + 2) * BSIZE"
    by simp_all
  have rm: "room demo_fs (6 * 2 + 1)" and nf: "2 * 2 \<le> nfree demo_fs"
    using room_less[OF demo_room(1), of 13] demo_room(2) by simp_all
  obtain tot off1 st1 where l: "writei_loop 0 (user_in 0 demo_parent) 3072 0 0 1500 demo_fs = Some (tot, off1, st1)"
    and r1: "room st1 1"
    using usr.writei_loop_total[OF demo_fs_ok demo_inode_ok(1) le0 rng rm nf, of 0 demo_parent 3072] by blast
  let ?st2 = "if off1 > unat (isize (itab st1 0)) then iset 0 (isize_update (\<lambda>_. of_nat off1)) st1 else st1"
  have "room ?st2 (Suc 0)" using r1 by (simp add: room_def iset_def)
  from lwrite_room[OF this] obtain st3 where "iupdate 0 ?st2 = Some st3" unfolding iupdate_def Let_def by blast
  moreover have "isize (itab demo_fs 0) = 0" by (simp add: demo_fs_def)
  ultimately show ?thesis using l demo_user_loop[OF l] by (simp add: writei_def Let_def)
qed

theorem write_chunk_log_bound_witness:
  "\<exists>st'. writei 0 (user_in 0 demo_parent) 3072 0 1500 demo_fs = Some (1024, st')
     \<and> length (lh st') \<le> length (lh demo_fs) + 7"
proof -
  obtain st' where w: "writei 0 (user_in 0 demo_parent) 3072 0 1500 demo_fs = Some (1024, st')" using demo_user_write by blast
  have "sb_size (sb demo_fs) \<le> BPB" "distinct (lh demo_fs)" by (simp_all add: demo_fs_def demo_sb_def)
  with write_chunk_log_bound[OF demo_fs_ok demo_inode_ok(1) _ _ _ w] w show ?thesis by auto
qed

end
