(* ===== verification/Sh.thy ===== *)
theory Sh imports KPrelude begin

text \<open>
  The shell's parser, \<open>shells/sh.c\<close>.  The input line is the list of its bytes before the NUL; a
  pointer into it is an index, and \<open>es\<close> is its length.  A word is the pair of its first byte and the
  byte after its last, until \<open>nulterminate\<close> cuts the words off in place.

  The functions that call each other take fuel, one unit per call; the theorem on termination shows how
  much is enough.  The loops within one function terminate because every token moves the position.
\<close>

section \<open>Commands\<close>

type_synonym word_at = "nat \<times> nat"

datatype cmd =
    EXEC "word_at list"
  | REDIR cmd word_at nat nat  \<comment> \<open>command, file, mode, descriptor\<close>
  | PIPE cmd cmd
  | LIST cmd cmd
  | BACK cmd

text \<open>\<open>panic(s)\<close> is \<open>Err s\<close>, no fuel left is \<open>Fuel\<close>.\<close>

datatype 'a pres = Fuel | Err string | Ok 'a

fun pbind :: "'a pres \<Rightarrow> ('a \<Rightarrow> 'b pres) \<Rightarrow> 'b pres" where
  "pbind Fuel f = Fuel"
| "pbind (Err s) f = Err s"
| "pbind (Ok x) f = f x"

lemma pbind_Ok: "pbind m f = Ok y \<longleftrightarrow> (\<exists>x. m = Ok x \<and> f x = Ok y)"
  by (cases m) auto

lemma pbind_Fuel: "pbind m f = Fuel \<longleftrightarrow> m = Fuel \<or> (\<exists>x. m = Ok x \<and> f x = Fuel)"
  by (cases m) auto

section \<open>Tokens\<close>

abbreviation (input) MAXARGS :: nat where "MAXARGS \<equiv> 10"

text \<open>The character codes that the code writes as character constants.\<close>

definition whitespace :: "byte list" where
  "whitespace = [32, 9, 13, 10, 11]"  \<comment> \<open>space, tab, CR, LF, VT\<close>

definition symbols :: "byte list" where
  "symbols = [60, 124, 62, 38, 59, 40, 41]"  \<comment> \<open>\<open>< | > & ; ( )\<close>\<close>

abbreviation (input) chLT :: byte where "chLT \<equiv> 60"
abbreviation (input) chBAR :: byte where "chBAR \<equiv> 124"
abbreviation (input) chGT :: byte where "chGT \<equiv> 62"
abbreviation (input) chAMP :: byte where "chAMP \<equiv> 38"
abbreviation (input) chSEMI :: byte where "chSEMI \<equiv> 59"
abbreviation (input) chLP :: byte where "chLP \<equiv> 40"
abbreviation (input) chRP :: byte where "chRP \<equiv> 41"
abbreviation (input) chPLUS :: byte where "chPLUS \<equiv> 43"
abbreviation (input) chA :: byte where "chA \<equiv> 97"

definition at :: "byte list \<Rightarrow> nat \<Rightarrow> byte" where
  "at s i = (if i < length s then s ! i else 0)"

text \<open>Moving over the bytes below \<open>es\<close> that satisfy \<open>P\<close>.\<close>

definition skip :: "(byte \<Rightarrow> bool) \<Rightarrow> byte list \<Rightarrow> nat \<Rightarrow> nat" where
  "skip P s i = i + length (takeWhile P (drop i s))"

definition is_ws :: "byte \<Rightarrow> bool" where
  "is_ws c \<longleftrightarrow> c \<in> set whitespace"

definition is_word :: "byte \<Rightarrow> bool" where
  "is_word c \<longleftrightarrow> c \<notin> set whitespace \<and> c \<notin> set symbols"

text \<open>\<open>gettoken\<close>: the token's kind, its bounds, and the position after it and the blanks that follow.\<close>

definition gettoken :: "byte list \<Rightarrow> nat \<Rightarrow> byte \<times> nat \<times> nat \<times> nat" where
  "gettoken s i =
     (let q = skip is_ws s i; c = at s q;
          (ret, e) =
            (if c = 0 then (0, q)
             else if c \<in> {chBAR, chLP, chRP, chSEMI, chAMP, chLT} then (c, q + 1)
             else if c = chGT then (if at s (q + 1) = chGT then (chPLUS, q + 2) else (chGT, q + 1))
             else (chA, skip is_word s q))
      in (ret, q, e, skip is_ws s e))"

definition peek :: "byte list \<Rightarrow> nat \<Rightarrow> byte list \<Rightarrow> bool \<times> nat" where
  "peek s i toks = (let j = skip is_ws s i in (at s j \<noteq> 0 \<and> at s j \<in> set toks, j))"

lemma skip_ge: "i \<le> skip P s i"
  by (simp add: skip_def)

lemma skip_le: "i \<le> length s \<Longrightarrow> skip P s i \<le> length s"
  using length_takeWhile_le[of P "drop i s"] by (simp add: skip_def)

lemma skip_all: "i \<le> k \<Longrightarrow> k < skip P s i \<Longrightarrow> P (s ! k)"
proof -
  assume k: "i \<le> k" "k < skip P s i"
  then have "k - i < length (takeWhile P (drop i s))" by (simp add: skip_def less_diff_conv2)
  then have "takeWhile P (drop i s) ! (k - i) = drop i s ! (k - i)" "P (takeWhile P (drop i s) ! (k - i))"
    by (simp add: takeWhile_nth, metis nth_mem set_takeWhileD)
  moreover have "i \<le> length s" using k length_takeWhile_le[of P "drop i s"] by (cases "i \<le> length s") (auto simp: skip_def)
  ultimately show ?thesis using k by simp
qed

lemma skip_stop: "skip P s i < length s \<Longrightarrow> \<not> P (s ! skip P s i)"
  using nth_length_takeWhile[of P "drop i s"] by (simp add: skip_def)

lemma at_ne0: "at s i \<noteq> 0 \<Longrightarrow> i < length s"
  by (simp add: at_def split: if_splits)

lemma gettoken_bounds:
  assumes "gettoken s i = (t, q, e, j)" and "i \<le> length s"
  shows "i \<le> q" "q \<le> e" "e \<le> j" "j \<le> length s" "t \<noteq> 0 \<Longrightarrow> q < e"
proof -
  let ?q = "skip is_ws s i"
  have q: "q = ?q" "i \<le> q" "q \<le> length s"
    using assms skip_ge[of i is_ws s] skip_le[of i s is_ws] by (auto simp: gettoken_def Let_def split: prod.splits)
  show "i \<le> q" by fact
  have w: "q < skip is_word s q" if "at s q \<noteq> 0" "at s q \<notin> {chBAR, chLP, chRP, chSEMI, chAMP, chLT, chGT}"
  proof -
    have "q < length s" using that(1) by (rule at_ne0)
    then have "\<not> is_ws (at s q)" using skip_stop[of is_ws s i] q(1) by (simp add: at_def)
    then have "is_word (s ! q)" using that(2) \<open>q < length s\<close>
      by (auto simp: is_word_def is_ws_def symbols_def at_def)
    then show ?thesis using \<open>q < length s\<close> by (simp add: skip_def Cons_nth_drop_Suc[symmetric])
  qed
  have e: "q \<le> e \<and> e \<le> length s \<and> (t \<noteq> 0 \<longrightarrow> q < e)"
    using assms(1) q skip_ge[of q is_word s] skip_le[of q s is_word] w at_ne0[of s q] at_ne0[of s "q + 1"]
    by (auto simp: gettoken_def Let_def split: if_splits)
  moreover have "j = skip is_ws s e" using assms(1) by (auto simp: gettoken_def Let_def split: prod.splits)
  ultimately show "q \<le> e" "e \<le> j" "j \<le> length s" "t \<noteq> 0 \<Longrightarrow> q < e"
    using skip_ge[of e is_ws s] skip_le[of e s is_ws] by auto
qed

lemma peek_bounds:
  assumes "peek s i toks = (b, j)" and "i \<le> length s"
  shows "i \<le> j" "j \<le> length s" "b \<Longrightarrow> j < length s"
  using assms skip_ge[of i is_ws s] skip_le[of i s is_ws] at_ne0 by (auto simp: peek_def Let_def)

text \<open>After a successful peek the token is not the end of the line, so reading it moves on.\<close>

lemma peek_gettoken:
  assumes "peek s i toks = (True, j)" and "gettoken s j = (t, q, e, k)" and "i \<le> length s"
  shows "i < k" "k \<le> length s"
proof -
  note p = peek_bounds[OF assms(1,3)]
  have a: "at s j \<noteq> 0" using assms(1) by (auto simp: peek_def Let_def)
  have "skip is_ws s j = j"
  proof -
    have "j = skip is_ws s i" using assms(1) by (auto simp: peek_def Let_def)
    then have "\<not> is_ws (s ! j)" using skip_stop[of is_ws s i] p(3) by simp
    then show ?thesis using p(3) by (simp add: skip_def Cons_nth_drop_Suc[symmetric])
  qed
  then have "t \<noteq> 0" using assms(2) a by (auto simp: gettoken_def Let_def split: if_splits)
  then show "i < k" "k \<le> length s" using gettoken_bounds[OF assms(2) p(2)] p(1) by auto
qed

lemma peek_less: "peek s i toks = (True, j) \<Longrightarrow> i \<le> length s"
  using skip_ge[of i is_ws s] at_ne0[of s j] by (auto simp: peek_def Let_def)

lemma token_less:
  "peek s i toks = (True, j) \<Longrightarrow> gettoken s j = (t, q, e, k) \<Longrightarrow> length s - k < length s - i"
  using peek_gettoken[OF _ _ peek_less] by (metis diff_less_mono2 less_le_trans)

lemma token_less2:
  assumes "peek s i toks = (True, j)" "gettoken s j = (tok, x, y, k)" "gettoken s k = (t, q, e, k2)"
  shows "length s - k2 < length s - i"
proof -
  have "k \<le> length s" by (rule peek_gettoken(2)[OF assms(1,2) peek_less[OF assms(1)]])
  then have "k \<le> k2" using gettoken_bounds[OF assms(3)] by simp
  then show ?thesis using token_less[OF assms(1,2)] by simp
qed

section \<open>Loops\<close>

text \<open>\<open>while(peek(ps, es, "&"))\<close> of \<open>parseline\<close>.\<close>

function back_loop :: "byte list \<Rightarrow> cmd \<Rightarrow> nat \<Rightarrow> cmd \<times> nat" where
  "back_loop s c i =
     (case peek s i [chAMP] of
        (False, j) \<Rightarrow> (c, j)
      | (True, j) \<Rightarrow> (case gettoken s j of (_, _, _, k) \<Rightarrow> back_loop s (BACK c) k))"
  by pat_completeness auto
termination
  by (relation "measure (\<lambda>(s, c, i). length s - i)") (auto dest: token_less[OF sym sym])

declare back_loop.simps [simp del]

text \<open>
  \<open>parseredirs\<close>.  In \<open>parseexec\<close> the command that is wrapped still gets arguments afterwards, so the
  loop collects the redirections, \<open>(file, mode, fd)\<close>, and \<open>wrap\<close> applies them in order.
\<close>

abbreviation (input) O_RDONLY :: nat where "O_RDONLY \<equiv> 0"
abbreviation (input) O_WRONLY_CREATE_TRUNC :: nat where "O_WRONLY_CREATE_TRUNC \<equiv> 0x601"
abbreviation (input) O_WRONLY_CREATE :: nat where "O_WRONLY_CREATE \<equiv> 0x201"

type_synonym redir = "word_at \<times> nat \<times> nat"

definition redir_of :: "byte \<Rightarrow> word_at \<Rightarrow> redir list" where
  "redir_of tok f =
     (if tok = chLT then [(f, O_RDONLY, 0)]
      else if tok = chGT then [(f, O_WRONLY_CREATE_TRUNC, 1)]
      else if tok = chPLUS then [(f, O_WRONLY_CREATE, 1)]
      else [])"

definition wrap :: "redir list \<Rightarrow> cmd \<Rightarrow> cmd" where
  "wrap rs c = fold (\<lambda>(f, mode, fd) c. REDIR c f mode fd) rs c"

function parseredirs :: "byte list \<Rightarrow> redir list \<Rightarrow> nat \<Rightarrow> (redir list \<times> nat) pres" where
  "parseredirs s rs i =
     (case peek s i [chLT, chGT] of
        (False, j) \<Rightarrow> Ok (rs, j)
      | (True, j) \<Rightarrow>
          (case gettoken s j of (tok, _, _, k) \<Rightarrow>
            (case gettoken s k of (t, q, e, k2) \<Rightarrow>
               if t \<noteq> chA then Err ''missing file for redirection''
               else parseredirs s (rs @ redir_of tok (q, e)) k2)))"
  by pat_completeness auto
termination
  by (relation "measure (\<lambda>(s, rs, i). length s - i)") (auto dest: token_less2[OF sym sym sym])

declare parseredirs.simps [simp del]

lemma parseredirs_bounds:
  "parseredirs s rs i = Ok (rs', j) \<Longrightarrow> i \<le> length s \<Longrightarrow> i \<le> j \<and> j \<le> length s"
proof (induction s rs i rule: parseredirs.induct)
  case (1 s rs i)
  obtain b j1 where p: "peek s i [chLT, chGT] = (b, j1)" by force
  show ?case
  proof (cases b)
    case False
    then show ?thesis using 1(2,3) p peek_bounds[OF p] by (simp add: parseredirs.simps[of s rs i])
  next
    case True
    obtain tok x y k where g: "gettoken s j1 = (tok, x, y, k)" by (metis prod_cases4)
    obtain t q e k2 where h: "gettoken s k = (t, q, e, k2)" by (metis prod_cases4)
    have k: "i < k" "k \<le> length s" using peek_gettoken[OF p[unfolded eqTrueI[OF True]] g 1(3)] by simp_all
    have k2: "k \<le> k2" "k2 \<le> length s" using gettoken_bounds[OF h k(2)] by auto
    have t: "t = chA" and r: "parseredirs s (rs @ redir_of tok (q, e)) k2 = Ok (rs', j)"
      using 1(2) p True g h by (simp_all add: parseredirs.simps[of s rs i] split: if_splits)
    have "k2 \<le> j \<and> j \<le> length s"
      using "1.IH"[OF p[symmetric] _ g[symmetric] _ _ h[symmetric]] r t True k2 by auto
    then show ?thesis using k k2 by simp
  qed
qed

lemma gettoken_less:
  assumes "gettoken s i = (t, q, e, j)" and "t \<noteq> 0"
  shows "i \<le> length s" "i < j" "j \<le> length s"
proof -
  have "q = skip is_ws s i" using assms(1) by (auto simp: gettoken_def Let_def split: prod.splits)
  moreover have "at s q \<noteq> 0" using assms by (auto simp: gettoken_def Let_def split: if_splits)
  ultimately show i: "i \<le> length s" using skip_ge[of i is_ws s] at_ne0[of s q] by simp
  show "i < j" "j \<le> length s" using gettoken_bounds[OF assms(1) i] assms(2) by auto
qed

text \<open>The argument loop of \<open>parseexec\<close>.\<close>

function arg_loop :: "byte list \<Rightarrow> word_at list \<Rightarrow> redir list \<Rightarrow> nat \<Rightarrow> (word_at list \<times> redir list \<times> nat) pres" where
  "arg_loop s args rs i =
     (case peek s i [chBAR, chRP, chAMP, chSEMI] of
        (True, j) \<Rightarrow> Ok (args, rs, j)
      | (False, j) \<Rightarrow>
          (case gettoken s j of (tok, q, e, k) \<Rightarrow>
             if tok = 0 then Ok (args, rs, k)
             else if tok \<noteq> chA then Err ''syntax''
             else if length (args @ [(q, e)]) \<ge> MAXARGS then Err ''too many args''
             else (case parseredirs s rs k of
                 Ok (rs, m) \<Rightarrow> arg_loop s (args @ [(q, e)]) rs m
               | Err x \<Rightarrow> Err x
               | Fuel \<Rightarrow> Fuel)))"
  by pat_completeness auto
termination
  by (relation "measure (\<lambda>(s, args, rs, i). MAXARGS - length args)") auto

declare arg_loop.simps [simp del]

section \<open>The parser\<close>

fun parseline :: "nat \<Rightarrow> byte list \<Rightarrow> nat \<Rightarrow> (cmd \<times> nat) pres"
  and parsepipe :: "nat \<Rightarrow> byte list \<Rightarrow> nat \<Rightarrow> (cmd \<times> nat) pres"
  and parseexec :: "nat \<Rightarrow> byte list \<Rightarrow> nat \<Rightarrow> (cmd \<times> nat) pres"
  and parseblock :: "nat \<Rightarrow> byte list \<Rightarrow> nat \<Rightarrow> (cmd \<times> nat) pres" where
  "parseline 0 s i = Fuel"
| "parseline (Suc n) s i =
     pbind (parsepipe n s i) (\<lambda>(c, i). case back_loop s c i of (c, i) \<Rightarrow>
       (case peek s i [chSEMI] of
          (False, j) \<Rightarrow> Ok (c, j)
        | (True, j) \<Rightarrow> (case gettoken s j of (_, _, _, k) \<Rightarrow>
            pbind (parseline n s k) (\<lambda>(r, m). Ok (LIST c r, m)))))"
| "parsepipe 0 s i = Fuel"
| "parsepipe (Suc n) s i =
     pbind (parseexec n s i) (\<lambda>(c, i).
       (case peek s i [chBAR] of
          (False, j) \<Rightarrow> Ok (c, j)
        | (True, j) \<Rightarrow> (case gettoken s j of (_, _, _, k) \<Rightarrow>
            pbind (parsepipe n s k) (\<lambda>(r, m). Ok (PIPE c r, m)))))"
| "parseexec 0 s i = Fuel"
| "parseexec (Suc n) s i =
     (case peek s i [chLP] of
        (True, j) \<Rightarrow> parseblock n s j
      | (False, j) \<Rightarrow>
          pbind (parseredirs s [] j) (\<lambda>(rs, k).
            pbind (arg_loop s [] rs k) (\<lambda>(args, rs, m). Ok (wrap rs (EXEC args), m))))"
| "parseblock 0 s i = Fuel"
| "parseblock (Suc n) s i =
     (case peek s i [chLP] of
        (False, j) \<Rightarrow> Err ''parseblock''
      | (True, j) \<Rightarrow> (case gettoken s j of (_, _, _, k) \<Rightarrow>
          pbind (parseline n s k) (\<lambda>(c, m).
            (case peek s m [chRP] of
               (False, j2) \<Rightarrow> Err ''syntax - missing )''
             | (True, j2) \<Rightarrow> (case gettoken s j2 of (_, _, _, k2) \<Rightarrow>
                 pbind (parseredirs s [] k2) (\<lambda>(rs, k3). Ok (wrap rs c, k3)))))))"

text \<open>\<open>nulterminate\<close> on the line in memory \<open>m\<close>.\<close>

fun nulterminate :: "cmd \<Rightarrow> mem \<Rightarrow> mem" where
  "nulterminate (EXEC args) m = fold (\<lambda>(q, e) m. m(e := 0)) args m"
| "nulterminate (REDIR c f mode fd) m = (nulterminate c m)(snd f := 0)"
| "nulterminate (PIPE l r) m = nulterminate r (nulterminate l m)"
| "nulterminate (LIST l r) m = nulterminate r (nulterminate l m)"
| "nulterminate (BACK c) m = nulterminate c m"

text \<open>
  \<open>parsecmd\<close> of the line \<open>s\<close> at the addresses below its length in the memory \<open>m\<close>.
  \<open>4 * length + 4\<close> calls are enough for a line: each level of the grammar takes at most four.
\<close>

definition parsecmd :: "byte list \<Rightarrow> mem \<Rightarrow> (cmd \<times> mem) pres" where
  "parsecmd s m =
     pbind (parseline (4 * length s + 4) s 0) (\<lambda>(c, i).
       (case peek s i [] of (_, j) \<Rightarrow>
          if j \<noteq> length s then Err ''syntax'' else Ok (c, nulterminate c m)))"

section \<open>Positions and words\<close>

text \<open>A word of the line: non-empty, within it, of word characters, and as long as it can be.\<close>

definition word_ok :: "byte list \<Rightarrow> word_at \<Rightarrow> bool" where
  "word_ok s = (\<lambda>(q, e). q < e \<and> e \<le> length s \<and> (\<forall>k. q \<le> k \<and> k < e \<longrightarrow> is_word (s ! k))
     \<and> (e < length s \<longrightarrow> \<not> is_word (s ! e)))"

fun cmd_words :: "cmd \<Rightarrow> word_at set" where
  "cmd_words (EXEC args) = set args"
| "cmd_words (REDIR c f mode fd) = insert f (cmd_words c)"
| "cmd_words (PIPE l r) = cmd_words l \<union> cmd_words r"
| "cmd_words (LIST l r) = cmd_words l \<union> cmd_words r"
| "cmd_words (BACK c) = cmd_words c"

lemma gettoken_word:
  assumes "gettoken s i = (chA, q, e, j)" and "i \<le> length s"
  shows "word_ok s (q, e)"
proof -
  have "e = skip is_word s q \<or> at s q = chA \<and> e = q + 1 \<and> False"
    using assms(1) by (auto simp: gettoken_def Let_def split: if_splits)
  then have e: "e = skip is_word s q" by simp
  have "q < e" "e \<le> length s" using gettoken_bounds[OF assms] by auto
  then show ?thesis using skip_all[of q _ is_word s] skip_stop[of is_word s q] by (auto simp: word_ok_def e)
qed

lemma back_loop_ok:
  "back_loop s c i = (c', j) \<Longrightarrow> i \<le> length s \<Longrightarrow> i \<le> j \<and> j \<le> length s \<and> cmd_words c' = cmd_words c"
proof (induction s c i rule: back_loop.induct)
  case (1 s c i)
  obtain b j1 where p: "peek s i [chAMP] = (b, j1)" by force
  show ?case
  proof (cases b)
    case False
    then show ?thesis using 1(2,3) p peek_bounds[OF p] by (simp add: back_loop.simps[of s c i])
  next
    case True
    obtain t q e k where g: "gettoken s j1 = (t, q, e, k)" by (metis prod_cases4)
    have k: "i < k" "k \<le> length s" using peek_gettoken[OF p[unfolded eqTrueI[OF True]] g 1(3)] by simp_all
    have "back_loop s (BACK c) k = (c', j)" using 1(2) p True g by (simp add: back_loop.simps[of s c i])
    then have "k \<le> j \<and> j \<le> length s \<and> cmd_words c' = cmd_words (BACK c)"
      using "1.IH"[OF p[symmetric] _ g[symmetric]] True k by auto
    then show ?thesis using k by simp
  qed
qed

definition redirs_ok :: "byte list \<Rightarrow> redir list \<Rightarrow> bool" where
  "redirs_ok s rs \<longleftrightarrow> (\<forall>(f, mode, fd) \<in> set rs. word_ok s f)"

lemma wrap_words: "cmd_words (wrap rs c) = fst ` set rs \<union> cmd_words c"
proof (induction rs arbitrary: c)
  case (Cons r rs)
  then show ?case by (cases r) (auto simp: wrap_def)
qed (simp add: wrap_def)

lemma redirs_ok_wrap: "redirs_ok s rs \<Longrightarrow> \<forall>w \<in> cmd_words c. word_ok s w \<Longrightarrow> \<forall>w \<in> cmd_words (wrap rs c). word_ok s w"
  by (auto simp: wrap_words redirs_ok_def)

lemma parseredirs_ok:
  "parseredirs s rs i = Ok (rs', j) \<Longrightarrow> i \<le> length s \<Longrightarrow> redirs_ok s rs \<Longrightarrow> redirs_ok s rs'"
proof (induction s rs i rule: parseredirs.induct)
  case (1 s rs i)
  obtain b j1 where p: "peek s i [chLT, chGT] = (b, j1)" by force
  show ?case
  proof (cases b)
    case False
    then show ?thesis using 1 p by (simp add: parseredirs.simps[of s rs i])
  next
    case True
    obtain tok x y k where g: "gettoken s j1 = (tok, x, y, k)" by (metis prod_cases4)
    obtain t q e k2 where h: "gettoken s k = (t, q, e, k2)" by (metis prod_cases4)
    have k: "i < k" "k \<le> length s" using peek_gettoken[OF p[unfolded eqTrueI[OF True]] g 1(3)] by simp_all
    have k2: "k2 \<le> length s" using gettoken_bounds[OF h k(2)] by auto
    have t: "t = chA" and r: "parseredirs s (rs @ redir_of tok (q, e)) k2 = Ok (rs', j)"
      using 1(2) p True g h by (simp_all add: parseredirs.simps[of s rs i] split: if_splits)
    have "word_ok s (q, e)" using gettoken_word[OF h[unfolded t] k(2)] .
    then have "redirs_ok s (rs @ redir_of tok (q, e))"
      using 1(4) by (auto simp: redirs_ok_def redir_of_def)
    then show ?thesis using "1.IH"[OF p[symmetric] _ g[symmetric] _ _ h[symmetric]] r t True k2 by auto
  qed
qed

lemma arg_loop_ok:
  "arg_loop s args rs i = Ok (args', rs', j) \<Longrightarrow> i \<le> length s \<Longrightarrow> \<forall>w \<in> set args. word_ok s w \<Longrightarrow> redirs_ok s rs
    \<Longrightarrow> i \<le> j \<and> j \<le> length s \<and> (\<forall>w \<in> set args'. word_ok s w) \<and> redirs_ok s rs'"
proof (induction s args rs i rule: arg_loop.induct)
  case (1 s args rs i)
  obtain b j1 where p: "peek s i [chBAR, chRP, chAMP, chSEMI] = (b, j1)" by force
  note pb = peek_bounds[OF p 1(3)]
  obtain tok q e k where g: "gettoken s j1 = (tok, q, e, k)" by (metis prod_cases4)
  note gb = gettoken_bounds[OF g pb(2)]
  show ?case
  proof (cases "b \<or> tok = 0")
    case True
    then show ?thesis using 1(2,4,5) p g pb gb by (cases b) (auto simp: arg_loop.simps[of s args rs i])
  next
    case False
    then have bF: "b = False" by simp
    obtain rs1 m where t: "tok = chA" and len: "\<not> MAXARGS \<le> length (args @ [(q, e)])"
      and r: "parseredirs s rs k = Ok (rs1, m)" and l: "arg_loop s (args @ [(q, e)]) rs1 m = Ok (args', rs', j)"
      using 1(2) p g False by (auto simp: arg_loop.simps[of s args rs i] bF split: if_splits pres.splits)
    have w: "\<forall>w \<in> set (args @ [(q, e)]). word_ok s w" using 1(4) gettoken_word[OF g[unfolded t] pb(2)] by auto
    note m = parseredirs_bounds[OF r gb(4)]
    note rs1 = parseredirs_ok[OF r gb(4) 1(5)]
    have "m \<le> j \<and> j \<le> length s \<and> (\<forall>w \<in> set args'. word_ok s w) \<and> redirs_ok s rs'"
      using "1.IH"[OF p[symmetric] bF g[symmetric] refl refl _ _ len r refl l _ w rs1] False t m by auto
    then show ?thesis using m gb pb by auto
  qed
qed

abbreviation (input) parse_ok :: "byte list \<Rightarrow> nat \<Rightarrow> cmd \<Rightarrow> nat \<Rightarrow> bool" where
  "parse_ok s i c j \<equiv> i \<le> j \<and> j \<le> length s \<and> (\<forall>w \<in> cmd_words c. word_ok s w)"

lemma parseline_ok_step:
  assumes I: "i \<le> length s" and l: "parseline (Suc n) s i = Ok (c, j)"
    and P: "\<And>i c j. i \<le> length s \<Longrightarrow> parsepipe n s i = Ok (c, j) \<Longrightarrow> parse_ok s i c j"
    and L: "\<And>i c j. i \<le> length s \<Longrightarrow> parseline n s i = Ok (c, j) \<Longrightarrow> parse_ok s i c j"
  shows "parse_ok s i c j"
proof -
  obtain c1 i1 where a: "parsepipe n s i = Ok (c1, i1)" using l by (auto simp: pbind_Ok)
  note A = P[OF I a]
  obtain c2 i2 where b: "back_loop s c1 i1 = (c2, i2)" by force
  have B: "i1 \<le> i2 \<and> i2 \<le> length s \<and> cmd_words c2 = cmd_words c1" using back_loop_ok[OF b] A by blast
  obtain bb j1 where p: "peek s i2 [chSEMI] = (bb, j1)" by force
  have J: "i2 \<le> j1" "j1 \<le> length s" using peek_bounds[OF p] B by auto
  show ?thesis
  proof (cases bb)
    case False
    then show ?thesis using l a b p A B J by (auto simp: pbind_Ok)
  next
    case True
    obtain t q e k where g: "gettoken s j1 = (t, q, e, k)" by (metis prod_cases4)
    have k: "i2 < k" "k \<le> length s" using peek_gettoken[OF p[unfolded eqTrueI[OF True]] g] B by auto
    obtain r m where r: "parseline n s k = Ok (r, m)" and c: "c = LIST c2 r" "j = m"
      using l a b p g True by (auto simp: pbind_Ok)
    show ?thesis using L[OF k(2) r] c A B k by auto
  qed
qed

lemma parsepipe_ok_step:
  assumes I: "i \<le> length s" and l: "parsepipe (Suc n) s i = Ok (c, j)"
    and E: "\<And>i c j. i \<le> length s \<Longrightarrow> parseexec n s i = Ok (c, j) \<Longrightarrow> parse_ok s i c j"
    and P: "\<And>i c j. i \<le> length s \<Longrightarrow> parsepipe n s i = Ok (c, j) \<Longrightarrow> parse_ok s i c j"
  shows "parse_ok s i c j"
proof -
  obtain c1 i1 where a: "parseexec n s i = Ok (c1, i1)" using l by (auto simp: pbind_Ok)
  note A = E[OF I a]
  obtain bb j1 where p: "peek s i1 [chBAR] = (bb, j1)" by force
  have J: "i1 \<le> j1" "j1 \<le> length s" using peek_bounds[OF p] A by auto
  show ?thesis
  proof (cases bb)
    case False
    then show ?thesis using l a p A J by (auto simp: pbind_Ok)
  next
    case True
    obtain t q e k where g: "gettoken s j1 = (t, q, e, k)" by (metis prod_cases4)
    have k: "i1 < k" "k \<le> length s" using peek_gettoken[OF p[unfolded eqTrueI[OF True]] g] A by auto
    obtain r m where r: "parsepipe n s k = Ok (r, m)" and c: "c = PIPE c1 r" "j = m"
      using l a p g True by (auto simp: pbind_Ok)
    show ?thesis using P[OF k(2) r] c A k by auto
  qed
qed

lemma parseexec_ok_step:
  assumes I: "i \<le> length s" and l: "parseexec (Suc n) s i = Ok (c, j)"
    and B: "\<And>i c j. i \<le> length s \<Longrightarrow> parseblock n s i = Ok (c, j) \<Longrightarrow> parse_ok s i c j"
  shows "parse_ok s i c j"
proof -
  obtain bb j1 where p: "peek s i [chLP] = (bb, j1)" by force
  have J: "i \<le> j1" "j1 \<le> length s" using peek_bounds[OF p I] by auto
  show ?thesis
  proof (cases bb)
    case True
    then have "parseblock n s j1 = Ok (c, j)" using l p by simp
    from B[OF J(2) this] show ?thesis using J by auto
  next
    case False
    obtain rs k args rs' where r: "parseredirs s [] j1 = Ok (rs, k)"
      and a: "arg_loop s [] rs k = Ok (args, rs', j)" and c: "c = wrap rs' (EXEC args)"
      using l p False by (auto simp: pbind_Ok)
    have k: "j1 \<le> k" "k \<le> length s" using parseredirs_bounds[OF r J(2)] by auto
    have "redirs_ok s rs" using parseredirs_ok[OF r J(2)] by (simp add: redirs_ok_def)
    then have ok: "k \<le> j \<and> j \<le> length s \<and> (\<forall>w \<in> set args. word_ok s w) \<and> redirs_ok s rs'"
      using arg_loop_ok[OF a k(2)] by simp
    then have "\<forall>w \<in> cmd_words c. word_ok s w" unfolding c by (intro redirs_ok_wrap) simp_all
    then show ?thesis using ok J k by auto
  qed
qed

lemma parseblock_ok_step:
  assumes I: "i \<le> length s" and l: "parseblock (Suc n) s i = Ok (c, j)"
    and L: "\<And>i c j. i \<le> length s \<Longrightarrow> parseline n s i = Ok (c, j) \<Longrightarrow> parse_ok s i c j"
  shows "parse_ok s i c j"
proof -
  obtain bb j1 where p: "peek s i [chLP] = (bb, j1)" by force
  with l have bb: "bb = True" by (cases bb) simp_all
  obtain t q e k where g: "gettoken s j1 = (t, q, e, k)" by (metis prod_cases4)
  have k: "i < k" "k \<le> length s" using peek_gettoken[OF p[unfolded bb] g I] by auto
  obtain c1 m where a: "parseline n s k = Ok (c1, m)" using l p bb g by (auto simp: pbind_Ok)
  note A = L[OF k(2) a]
  obtain b2 j2 where p2: "peek s m [chRP] = (b2, j2)" by force
  with l have b2: "b2 = True" using p bb g a by (cases b2) (simp_all add: pbind_Ok)
  obtain t2 q2 e2 k2 where g2: "gettoken s j2 = (t2, q2, e2, k2)" by (metis prod_cases4)
  have k2: "m < k2" "k2 \<le> length s" using peek_gettoken[OF p2[unfolded b2] g2] A by auto
  obtain rs where r: "parseredirs s [] k2 = Ok (rs, j)" and c: "c = wrap rs c1"
    using l p bb g a p2 b2 g2 by (auto simp: pbind_Ok)
  have "redirs_ok s rs" using parseredirs_ok[OF r k2(2)] by (simp add: redirs_ok_def)
  then have "\<forall>w \<in> cmd_words c. word_ok s w" unfolding c using A by (intro redirs_ok_wrap) simp_all
  then show ?thesis using parseredirs_bounds[OF r k2(2)] A k k2 by auto
qed

lemma parse_bounds:
  "i \<le> length s \<Longrightarrow>
     (parseline n s i = Ok (c, j) \<longrightarrow> parse_ok s i c j) \<and>
     (parsepipe n s i = Ok (c, j) \<longrightarrow> parse_ok s i c j) \<and>
     (parseexec n s i = Ok (c, j) \<longrightarrow> parse_ok s i c j) \<and>
     (parseblock n s i = Ok (c, j) \<longrightarrow> parse_ok s i c j)"
proof (induction n arbitrary: i c j)
  case (Suc n)
  have L: "parse_ok s i c j" if "i \<le> length s" "parseline n s i = Ok (c, j)" for i c j
    using Suc.IH[OF that(1)] that(2) by blast
  have P: "parse_ok s i c j" if "i \<le> length s" "parsepipe n s i = Ok (c, j)" for i c j
    using Suc.IH[OF that(1)] that(2) by blast
  have E: "parse_ok s i c j" if "i \<le> length s" "parseexec n s i = Ok (c, j)" for i c j
    using Suc.IH[OF that(1)] that(2) by blast
  have B: "parse_ok s i c j" if "i \<le> length s" "parseblock n s i = Ok (c, j)" for i c j
    using Suc.IH[OF that(1)] that(2) by blast
  show ?case
    by (intro conjI[where Q = "_ \<and> _"] conjI[where Q = "_ \<longrightarrow> _"] impI
        parseline_ok_step[OF Suc.prems _ P L] parsepipe_ok_step[OF Suc.prems _ E P]
        parseexec_ok_step[OF Suc.prems _ B] parseblock_ok_step[OF Suc.prems _ L]; assumption)
qed simp

section \<open>Enough fuel\<close>

text \<open>
  The calls below one position: a nested line costs its block, its expression, its pipe and itself,
  and by then the parser has read the open parenthesis.
\<close>

abbreviation (input) left :: "byte list \<Rightarrow> nat \<Rightarrow> nat" where "left s i \<equiv> 4 * (length s - i)"

lemma parseredirs_returns: "parseredirs s rs i \<noteq> Fuel"
proof (induction s rs i rule: parseredirs.induct)
  case (1 s rs i)
  then show ?case by (subst parseredirs.simps) (auto split: prod.splits bool.splits)
qed

lemma arg_loop_returns: "arg_loop s args rs i \<noteq> Fuel"
proof (induction s args rs i rule: arg_loop.induct)
  case (1 s args rs i)
  then show ?case
    by (subst arg_loop.simps) (auto simp: parseredirs_returns split: prod.splits bool.splits pres.splits)
qed

text \<open>The next part starts at least one byte further, so it has four units less to pay.\<close>

lemma left_less: "i < k \<Longrightarrow> k \<le> length s \<Longrightarrow> left s k + 4 \<le> left s i"
  by simp

lemma parse_returns:
  "i \<le> length s \<Longrightarrow>
     (left s i + 4 \<le> n \<longrightarrow> parseline n s i \<noteq> Fuel) \<and>
     (left s i + 3 \<le> n \<longrightarrow> parsepipe n s i \<noteq> Fuel) \<and>
     (left s i + 2 \<le> n \<longrightarrow> parseexec n s i \<noteq> Fuel) \<and>
     (left s i + 1 \<le> n \<longrightarrow> parseblock n s i \<noteq> Fuel)"
proof (induction n arbitrary: i)
  case (Suc n)
  have L: "parseline n s i \<noteq> Fuel" if "i \<le> length s" "left s i + 4 \<le> n" for i
    using Suc.IH[OF that(1)] that(2) by blast
  have P: "parsepipe n s i \<noteq> Fuel" if "i \<le> length s" "left s i + 3 \<le> n" for i
    using Suc.IH[OF that(1)] that(2) by blast
  have E: "parseexec n s i \<noteq> Fuel" if "i \<le> length s" "left s i + 2 \<le> n" for i
    using Suc.IH[OF that(1)] that(2) by blast
  have B: "parseblock n s i \<noteq> Fuel" if "i \<le> length s" "left s i + 1 \<le> n" for i
    using Suc.IH[OF that(1)] that(2) by blast
  have tok: "k \<le> length s \<and> left s k + 4 \<le> left s i"
    if "i \<le> i'" "i' \<le> length s" "peek s i' toks = (True, j)" "gettoken s j = (t, q, e, k)" for i' toks j t q e k
    using peek_gettoken[OF that(3,4,2)] that(1) by simp
  have 1: "parseline (Suc n) s i \<noteq> Fuel" if n: "left s i + 4 \<le> Suc n"
  proof
    assume f: "parseline (Suc n) s i = Fuel"
    obtain c1 i1 where a1: "parsepipe n s i = Ok (c1, i1)"
      using f P[OF Suc.prems] n by (cases "parsepipe n s i") auto
    obtain c2 i2 where a2: "back_loop s c1 i1 = (c2, i2)" by force
    obtain b j where a3: "peek s i2 [chSEMI] = (b, j)" by force
    obtain t q e k where a4: "gettoken s j = (t, q, e, k)" by (metis prod_cases4)
    have b: "b = True" using f a1 a2 a3 by (cases b) simp_all
    note a3 = a3[unfolded b]
    have a5: "parseline n s k = Fuel" using f a1 a2 a3 a4 by (simp add: pbind_Fuel)
    have i1: "i \<le> i1" "i1 \<le> length s" using parse_bounds[OF Suc.prems, of n c1 i1] a1 by auto
    then have "i \<le> i2" "i2 \<le> length s" using back_loop_ok[OF a2] by auto
    then have "k \<le> length s \<and> left s k + 4 \<le> left s i" using tok a3 a4 by blast
    then show False using L a5 n by auto
  qed
  have 2: "parsepipe (Suc n) s i \<noteq> Fuel" if n: "left s i + 3 \<le> Suc n"
  proof
    assume f: "parsepipe (Suc n) s i = Fuel"
    obtain c1 i1 where a1: "parseexec n s i = Ok (c1, i1)"
      using f E[OF Suc.prems] n by (cases "parseexec n s i") auto
    obtain b j where a3: "peek s i1 [chBAR] = (b, j)" by force
    obtain t q e k where a4: "gettoken s j = (t, q, e, k)" by (metis prod_cases4)
    have b: "b = True" using f a1 a3 by (cases b) simp_all
    note a3 = a3[unfolded b]
    have a5: "parsepipe n s k = Fuel" using f a1 a3 a4 by (simp add: pbind_Fuel)
    have i1: "i \<le> i1" "i1 \<le> length s" using parse_bounds[OF Suc.prems, of n c1 i1] a1 by auto
    then have "k \<le> length s \<and> left s k + 4 \<le> left s i" using tok a3 a4 by blast
    then show False using P a5 n by auto
  qed
  have 3: "parseexec (Suc n) s i \<noteq> Fuel" if n: "left s i + 2 \<le> Suc n"
  proof
    assume f: "parseexec (Suc n) s i = Fuel"
    obtain b j where p: "peek s i [chLP] = (b, j)" by force
    have j: "i \<le> j" "j \<le> length s" using peek_bounds[OF p Suc.prems] by auto
    then have "parseblock n s j \<noteq> Fuel" using n by (intro B) auto
    then show False using f p
      by (auto simp: pbind_Fuel parseredirs_returns arg_loop_returns split: bool.splits)
  qed
  have 4: "parseblock (Suc n) s i \<noteq> Fuel" if n: "left s i + 1 \<le> Suc n"
  proof
    assume f: "parseblock (Suc n) s i = Fuel"
    obtain b j where a1: "peek s i [chLP] = (b, j)" by force
    obtain t q e k where a2: "gettoken s j = (t, q, e, k)" by (metis prod_cases4)
    have b: "b = True" using f a1 by (cases b) simp_all
    note a1 = a1[unfolded b]
    have k: "k \<le> length s" "left s k + 4 \<le> left s i" using tok[OF _ Suc.prems a1 a2] by auto
    have l: "parseline n s k \<noteq> Fuel" using L[OF k(1)] k(2) n by simp
    then obtain c m b2 j2 t2 q2 e2 k2 where a3: "parseline n s k = Ok (c, m)" "peek s m [chRP] = (b2, j2)"
      "gettoken s j2 = (t2, q2, e2, k2)"
      using f a1 a2 by (cases "parseline n s k") (auto, metis prod_cases4 surj_pair)
    show False using f a1 a2 a3
      by (cases b2) (auto simp: pbind_Fuel parseredirs_returns)
  qed
  show ?case using 1 2 3 4 by blast
qed simp

text \<open>
  C39: The parser always returns.  Whatever the input line, \<open>parsecmd\<close> ends with a command or with one
  of the parser's own error messages, and its nested calls go at most four deep for each byte of the
  line.
\<close>

theorem sh_parse_total:
  "(\<exists>c. parsecmd s m = Ok c) \<or> (\<exists>e. parsecmd s m = Err e)"
proof -
  have "parseline (4 * length s + 4) s 0 \<noteq> Fuel" using parse_returns[of 0 s "4 * length s + 4"] by simp
  then have "parsecmd s m \<noteq> Fuel" by (auto simp: parsecmd_def pbind_Fuel split: prod.splits if_splits)
  then show ?thesis by (cases "parsecmd s m") auto
qed

section \<open>Cutting the words off\<close>

lemma fold_cut: "fold (\<lambda>(q, e) m. m(e := 0)) args m = (\<lambda>k. if k \<in> snd ` set args then 0 else m k)"
  for m :: mem
  by (induction args arbitrary: m) (auto simp: fun_eq_iff)

lemma nulterminate_eq: "nulterminate c m = (\<lambda>k. if k \<in> snd ` cmd_words c then 0 else m k)"
proof (induction c arbitrary: m)
  case (REDIR c f mode fd)
  then show ?case by (auto simp: fun_eq_iff)
qed (auto simp: fold_cut fun_eq_iff)

text \<open>Words are maximal, so the end of one never falls inside another.\<close>

lemma word_end_outside:
  "word_ok s (q, e) \<Longrightarrow> word_ok s (q', e') \<Longrightarrow> q \<le> e' \<Longrightarrow> e' < e \<Longrightarrow> False"
  by (auto simp: word_ok_def)

lemma parsecmd_words:
  assumes "parsecmd s m = Ok (c, m')"
  shows "\<forall>w \<in> cmd_words c. word_ok s w" and "m' = nulterminate c m"
proof -
  obtain d i where l: "parseline (4 * length s + 4) s 0 = Ok (d, i)"
    using assms by (auto simp: parsecmd_def pbind_Ok)
  obtain b j where p: "peek s i [] = (b, j)" by force
  have l: "parseline (4 * length s + 4) s 0 = Ok (c, i)" and m: "m' = nulterminate c m"
    using assms l p by (auto simp: parsecmd_def split: if_splits)
  show "\<forall>w \<in> cmd_words c. word_ok s w" using parse_bounds[of 0 s "4 * length s + 4" c i] l by simp
  show "m' = nulterminate c m" by (rule m)
qed

text \<open>
  C38: Every word of a parsed command is a string of its own.  After \<open>parsecmd\<close>, each argument and each
  file name that the command points to is followed by a NUL and holds exactly the bytes the line had
  there, none of them a blank, a symbol or a NUL, although the words were cut off by writing over the
  line in place; and nothing behind the line's own NUL is written.
\<close>

theorem sh_words_terminated:
  assumes "parsecmd s m = Ok (c, m')" and "\<forall>k < length s. m k = s ! k" and "0 \<notin> set s"
    and "(q, e) \<in> cmd_words c"
  shows "q < e \<and> map m' [q..<e] = take (e - q) (drop q s) \<and> m' e = 0
    \<and> (\<forall>b \<in> set (map m' [q..<e]). b \<noteq> 0 \<and> b \<notin> set whitespace \<and> b \<notin> set symbols)
    \<and> (\<forall>k > length s. m' k = m k)"
proof -
  note words = parsecmd_words[OF assms(1)]
  have w: "word_ok s (q, e)" using words(1) assms(4) by blast
  then have qe: "q < e" "e \<le> length s" "\<forall>k. q \<le> k \<and> k < e \<longrightarrow> is_word (s ! k)"
    by (auto simp: word_ok_def)
  have in_word: "m' k = s ! k" if "q \<le> k" "k < e" for k
  proof -
    have "k \<notin> snd ` cmd_words c"
    proof
      assume "k \<in> snd ` cmd_words c"
      then obtain q' where "(q', k) \<in> cmd_words c" by auto
      then have "word_ok s (q', k)" using words(1) by blast
      from word_end_outside[OF w this that] show False .
    qed
    then show ?thesis using that qe assms(2) by (simp add: words(2) nulterminate_eq)
  qed
  then have eq: "map m' [q..<e] = take (e - q) (drop q s)" using qe by (auto simp: list_eq_iff_nth_eq)
  have "b \<noteq> 0 \<and> b \<notin> set whitespace \<and> b \<notin> set symbols" if "b \<in> set (map m' [q..<e])" for b
  proof -
    obtain k where k: "q \<le> k" "k < e" "b = s ! k" using \<open>b \<in> _\<close> in_word by auto
    then have "is_word b" "b \<in> set s" using qe by auto
    then show ?thesis using assms(3) by (auto simp: is_word_def)
  qed
  moreover have "m' e = 0" using assms(4) by (force simp: words(2) nulterminate_eq)
  moreover have "m' k = m k" if "length s < k" for k
    using words(1) that by (auto simp: words(2) nulterminate_eq word_ok_def)
  ultimately show ?thesis using eq qe by blast
qed

text \<open>The line \<open>"ls a>b"\<close>, whose three words end at 2, 4 and 6.\<close>

definition demo_line :: "byte list" where
  "demo_line = [108, 115, 32, 97, 62, 98]"

lemma demo_parse_line:
  "parseline 28 demo_line 0 = Ok (REDIR (EXEC [(0, 2), (3, 4)]) (5, 6) 0x601 1, 6)"
  "peek demo_line 6 [] = (False, 6)"
  by code_simp+

lemma demo_parse:
  "parsecmd demo_line (at demo_line)
     = Ok (REDIR (EXEC [(0, 2), (3, 4)]) (5, 6) 0x601 1, (at demo_line)(2 := 0, 4 := 0, 6 := 0))"
  using demo_parse_line by (simp add: parsecmd_def demo_line_def)

theorem sh_words_terminated_witness:
  "\<exists>c m'. parsecmd demo_line (at demo_line) = Ok (c, m') \<and> map m' [3..<4] = [97] \<and> m' 4 = 0"
proof (intro exI conjI, rule demo_parse)
  have w: "(3, 4) \<in> cmd_words (REDIR (EXEC [(0, 2), (3, 4)]) (5, 6) 0x601 1)" by simp
  note t = sh_words_terminated[OF demo_parse _ _ w]
  show "map ((at demo_line)(2 := 0, 4 := 0, 6 := 0)) [3..<4] = [97]"
    using t by (simp add: demo_line_def at_def)
  show "((at demo_line)(2 := 0, 4 := 0, 6 := 0)) 4 = 0" by simp
qed

end
