(* ===== verification/Console.thy ===== *)
theory Console imports Ring begin

text \<open>
  \<open>kernel/console/arm64/console.c\<close>: the line discipline of the console.  The buffer is a ring with
  three counters: \<open>cr\<close> to read, \<open>cw\<close> the end of the finished lines, \<open>ce\<close> the end of the line that is
  being typed.  The refinement shows that it is two lists, the finished input and the line.

  Characters from the UART are \<open>int\<close>s, as \<open>uartgetc\<close> returns them.  What is sent to the UART is the
  list of bytes handed to \<open>uartputc\<close> or \<open>uartputc_sync\<close>; the driver itself is not modelled.
\<close>

abbreviation (input) INPUT_BUF :: nat where "INPUT_BUF \<equiv> 128"
abbreviation (input) BACKSPACE :: int where "BACKSPACE \<equiv> 0x100"
abbreviation (input) ctrl_D :: int where "ctrl_D \<equiv> 4"
abbreviation (input) ctrl_H :: int where "ctrl_H \<equiv> 8"
abbreviation (input) ctrl_P :: int where "ctrl_P \<equiv> 16"
abbreviation (input) ctrl_U :: int where "ctrl_U \<equiv> 21"
abbreviation (input) LF :: int where "LF \<equiv> 10"
abbreviation (input) CR :: int where "CR \<equiv> 13"
abbreviation (input) DEL :: int where "DEL \<equiv> 127"

record cons =
  cbuf :: "nat \<Rightarrow> byte"
  cr :: u32
  cw :: u32
  ce :: u32

definition consputc :: "int \<Rightarrow> byte list" where
  "consputc c = (if c = BACKSPACE then [8, 32, 8] else [of_int c])"

text \<open>The bytes that were sent, and how many; \<open>cin\<close> fetches one byte.\<close>

function consolewrite_loop :: "(nat \<Rightarrow> byte option) \<Rightarrow> nat \<Rightarrow> int \<Rightarrow> int \<Rightarrow> byte list \<Rightarrow> byte list \<times> int" where
  "consolewrite_loop cin src i n out =
     (if i < n then
        (case cin src of
           None \<Rightarrow> (out, i)
         | Some c \<Rightarrow> consolewrite_loop cin (src + 1) (i + 1) n (out @ [c]))
      else (out, i))"
  by pat_completeness auto
termination
  by (relation "measure (\<lambda>(cin, src, i, n, out). nat (n - i))") auto

definition consolewrite :: "(nat \<Rightarrow> byte option) \<Rightarrow> nat \<Rightarrow> int \<Rightarrow> byte list \<times> int" where
  "consolewrite cin src n = consolewrite_loop cin src 0 n []"

text \<open>
  The loop of \<open>consoleread\<close>: \<open>Asleep dst n\<close> is the call of \<open>sleep\<close>, after which the loop goes on with
  \<open>n\<close> bytes to read to \<open>dst\<close>.  \<open>cout\<close> copies one byte out and says whether it could.
\<close>

datatype read_res = Asleep nat int | Done int

function consoleread_loop :: "bool \<Rightarrow> (nat \<Rightarrow> byte \<Rightarrow> 'm \<Rightarrow> bool \<times> 'm) \<Rightarrow> nat \<Rightarrow> int \<Rightarrow> int \<Rightarrow> cons \<Rightarrow> 'm
    \<Rightarrow> read_res \<times> cons \<times> 'm" where
  "consoleread_loop killed cout dst target n st m =
     (if n > 0 then
        if cr st = cw st then (if killed then (Done (-1), st, m) else (Asleep dst n, st, m))
        else
          let c = cbuf st (unat (cr st) mod INPUT_BUF); st1 = st\<lparr>cr := cr st + 1\<rparr> in
          if int (unat c) = ctrl_D then
            (Done (target - n), if n < target then st1\<lparr>cr := cr st1 - 1\<rparr> else st1, m)
          else (case cout dst c m of
              (False, m) \<Rightarrow> (Done (target - n), st1, m)
            | (True, m) \<Rightarrow>
                if int (unat c) = LF then (Done (target - (n - 1)), st1, m)
                else consoleread_loop killed cout (dst + 1) target (n - 1) st1 m)
      else (Done (target - n), st, m))"
  by pat_completeness auto
termination
  by (relation "measure (\<lambda>(killed, cout, dst, target, n, st, m). nat n)") auto

declare consoleread_loop.simps [simp del]

definition consoleread :: "bool \<Rightarrow> (nat \<Rightarrow> byte \<Rightarrow> 'm \<Rightarrow> bool \<times> 'm) \<Rightarrow> nat \<Rightarrow> int \<Rightarrow> cons \<Rightarrow> 'm \<Rightarrow> read_res \<times> cons \<times> 'm" where
  "consoleread killed cout dst n st m = consoleread_loop killed cout dst n n st m"

text \<open>The new state, what is echoed, and whether the reader is woken.\<close>

function kill_line :: "cons \<Rightarrow> byte list \<Rightarrow> cons \<times> byte list" where
  "kill_line st out =
     (if ce st \<noteq> cw st \<and> int (unat (cbuf st (unat (ce st - 1) mod INPUT_BUF))) \<noteq> LF
      then kill_line (st\<lparr>ce := ce st - 1\<rparr>) (out @ consputc BACKSPACE)
      else (st, out))"
  by pat_completeness auto
termination
proof (relation "measure (\<lambda>(st, out). unat (ce st - cw st))", goal_cases)
  case (2 st out)
  then have "0 < unat (ce st - cw st)" by (simp add: unat_gt_0)
  then have "1 \<le> ce st - cw st" by (simp add: word_le_nat_alt)
  then have "unat (ce st - cw st - 1) < unat (ce st - cw st)"
    using \<open>0 < unat (ce st - cw st)\<close> by (simp add: unat_sub)
  then show ?case by (simp add: algebra_simps)
qed simp

declare kill_line.simps [simp del]

definition consoleintr :: "byte list \<Rightarrow> int \<Rightarrow> cons \<Rightarrow> cons \<times> byte list \<times> bool" where
  "consoleintr dump c st =
     (if c = ctrl_P then (st, dump, False)  \<comment> \<open>what \<open>procdump\<close> prints\<close>
      else if c = ctrl_U then (case kill_line st [] of (st, out) \<Rightarrow> (st, out, False))
      else if c = ctrl_H \<or> c = DEL then
        (if ce st \<noteq> cw st then (st\<lparr>ce := ce st - 1\<rparr>, consputc BACKSPACE, False) else (st, [], False))
      else if c \<noteq> 0 \<and> ce st - cr st < of_nat INPUT_BUF then
        let c = (if c = CR then LF else c);
            st = st\<lparr>cbuf := (cbuf st)(unat (ce st) mod INPUT_BUF := of_int c), ce := ce st + 1\<rparr> in
        (if c = LF \<or> c = ctrl_D \<or> ce st = cr st + of_nat INPUT_BUF
         then (st\<lparr>cw := ce st\<rparr>, consputc c, True)
         else (st, consputc c, False))
      else (st, [], False))"

section \<open>Two lists\<close>

definition finished :: "cons \<Rightarrow> byte list" where
  "finished st = ring INPUT_BUF (cbuf st) (cr st) (cw st)"

definition line :: "cons \<Rightarrow> byte list" where
  "line st = ring INPUT_BUF (cbuf st) (cw st) (ce st)"

definition cons_ok :: "cons \<Rightarrow> bool" where
  "cons_ok st \<longleftrightarrow> unat (ce st - cr st) \<le> INPUT_BUF \<and> unat (cw st - cr st) \<le> unat (ce st - cr st) \<and> 10 \<notin> set (line st)"

lemma counters:
  fixes r w e :: u32
  assumes "unat (w - r) \<le> unat (e - r)"
  shows "unat (e - w) = unat (e - r) - unat (w - r)"
proof -
  have "e - w = (e - r) - (w - r)" by simp
  then show ?thesis using assms by (simp only: unat_sub word_le_nat_alt)
qed

lemma ring_split:
  fixes r w e :: u32
  assumes "unat (w - r) \<le> unat (e - r)"
  shows "ring B d r e = ring B d r w @ ring B d w e"
proof (rule nth_equalityI)
  have l: "unat (e - r) = unat (w - r) + unat (e - w)" using counters[OF assms] assms by simp
  then show "length (ring B d r e) = length (ring B d r w @ ring B d w e)" by (simp add: length_ring)
  fix i assume "i < length (ring B d r e)"
  then have i: "i < unat (e - r)" by (simp add: length_ring)
  have "r + of_nat i = w + of_nat (i - unat (w - r))" if ni: "\<not> i < unat (w - r)"
  proof -
    obtain k where k: "i = unat (w - r) + k" using le_Suc_ex[OF ni[unfolded not_less]] by blast
    have "r + of_nat (unat (w - r)) = w" by simp
    then show ?thesis unfolding k by (simp only: of_nat_add add.assoc[symmetric] diff_add_inverse)
  qed
  then show "ring B d r e ! i = (ring B d r w @ ring B d w e) ! i"
    using i l by (auto simp: ring_def nth_append add.commute)
qed

lemma ring_butlast:
  fixes w e :: u32
  assumes "e \<noteq> w"
  shows "ring B d w (e - 1) = butlast (ring B d w e)" "last (ring B d w e) = d (unat (e - 1) mod B)"
proof -
  have "0 < unat (e - w)" using assms by (simp add: unat_gt_0)
  then obtain n where n: "unat (e - w) = Suc n" by (cases "unat (e - w)") auto
  have "1 \<le> e - w" using n by (simp add: word_le_nat_alt)
  then have "unat (e - w - 1) = n" using n by (simp add: unat_sub)
  then have m: "unat (e - 1 - w) = n" by (simp add: algebra_simps)
  show "ring B d w (e - 1) = butlast (ring B d w e)" by (simp add: ring_def n m)
  have "w + of_nat n = e - 1"
  proof -
    have "w + of_nat (unat (e - w)) = e" by simp
    then show ?thesis unfolding n by (simp add: algebra_simps)
  qed
  then show "last (ring B d w e) = d (unat (e - 1) mod B)" by (simp add: ring_def n)
qed

section \<open>Typing\<close>

text \<open>What a character does to the finished input and the line.\<close>

definition type_char :: "int \<Rightarrow> byte list \<times> byte list \<Rightarrow> byte list \<times> byte list" where
  "type_char c = (\<lambda>(done, ln).
     if c = ctrl_P then (done, ln)
     else if c = ctrl_U then (done, [])
     else if c = ctrl_H \<or> c = DEL then (done, butlast ln)
     else if c \<noteq> 0 \<and> length done + length ln < INPUT_BUF then
       let c = (if c = CR then LF else c); ln = ln @ [of_int c] in
       (if c = LF \<or> c = ctrl_D \<or> length done + length ln = INPUT_BUF then (done @ ln, []) else (done, ln))
     else (done, ln))"

lemma kill_line_all:
  assumes "unat (ce st - cw st) \<le> INPUT_BUF" and "10 \<notin> set (ring INPUT_BUF (cbuf st) (cw st) (ce st))"
  shows "fst (kill_line st out) = st\<lparr>ce := cw st\<rparr>"
  using assms
proof (induction st out rule: kill_line.induct)
  case (1 st out)
  show ?case
  proof (cases "ce st = cw st")
    case True
    then show ?thesis by (simp add: kill_line.simps[of st])
  next
    case False
    note B = ring_butlast[OF False, of INPUT_BUF "cbuf st"]
    have ne: "ring INPUT_BUF (cbuf st) (cw st) (ce st) \<noteq> []" using False by (simp add: ring_empty)
    have "cbuf st (unat (ce st - 1) mod INPUT_BUF) \<noteq> 10"
      using B(2) last_in_set[OF ne] 1(3) by metis
    then have "uint (cbuf st (unat (ce st - 1) mod INPUT_BUF)) \<noteq> 10"
      using word_uint_eq_iff[of _ "10 :: byte"] by force
    then have c: "ce st \<noteq> cw st \<and> int (unat (cbuf st (unat (ce st - 1) mod INPUT_BUF))) \<noteq> LF"
      using False by simp
    have l: "length (butlast (ring INPUT_BUF (cbuf st) (cw st) (ce st))) \<le> INPUT_BUF"
      using 1(2) by (simp add: length_ring)
    have "fst (kill_line (st\<lparr>ce := ce st - 1\<rparr>) (out @ consputc BACKSPACE)) = st\<lparr>ce := ce st - 1, ce := cw st\<rparr>"
    proof -
      have "unat (ce st - 1 - cw st) \<le> INPUT_BUF"
        using l unfolding B(1)[symmetric] length_ring .
      moreover have "10 \<notin> set (ring INPUT_BUF (cbuf st) (cw st) (ce st - 1))"
        unfolding B(1) using 1(3) in_set_butlastD by fast
      ultimately show ?thesis using "1.IH"[OF c] by simp
    qed
    then show ?thesis using c by (simp add: kill_line.simps[of st])
  qed
qed

lemma cons_len:
  assumes "cons_ok st"
  shows "length (finished st) + length (line st) = unat (ce st - cr st)"
  using assms counters[of "cw st" "cr st" "ce st"] by (simp add: cons_ok_def finished_def line_def length_ring)

text \<open>Storing a character after the line leaves the finished input alone.\<close>

lemma cons_put:
  fixes b :: byte
  assumes ok: "cons_ok st" and room: "unat (ce st - cr st) < INPUT_BUF"
  defines "st' \<equiv> st\<lparr>cbuf := (cbuf st)(unat (ce st) mod INPUT_BUF := b), ce := ce st + 1\<rparr>"
  shows "finished st' = finished st" "line st' = line st @ [b]" "unat (ce st' - cr st') = Suc (unat (ce st - cr st))"
proof -
  have w: "unat (cw st - cr st) \<le> unat (ce st - cr st)" using ok by (simp add: cons_ok_def)
  have n: "unat (ce st + 1 - cr st) = Suc (unat (ce st - cr st))" using room by (intro unat_Suc_diff) simp
  then show "unat (ce st' - cr st') = Suc (unat (ce st - cr st))" by (simp add: st'_def)
  have lw: "unat (ce st - cw st) < INPUT_BUF" using counters[OF w] room by simp
  have B: "INPUT_BUF dvd 2 ^ LENGTH(32)" by simp
  show l: "line st' = line st @ [b]"
    using ring_put[OF B _ lw, of "cbuf st" b] by (simp add: line_def st'_def)
  have "ring INPUT_BUF (cbuf st') (cr st) (ce st + 1) = ring INPUT_BUF (cbuf st) (cr st) (ce st) @ [b]"
    using ring_put[OF B _ room, of "cbuf st" b] by (simp add: st'_def)
  moreover have "ring INPUT_BUF (cbuf st') (cr st) (ce st + 1) = finished st' @ line st'"
    using ring_split[of "cw st" "cr st" "ce st + 1" INPUT_BUF "cbuf st'"] w n
    by (simp add: finished_def line_def st'_def)
  moreover have "ring INPUT_BUF (cbuf st) (cr st) (ce st) = finished st @ line st"
    using ring_split[OF w] by (simp add: finished_def line_def)
  ultimately show "finished st' = finished st" using l by simp
qed

lemma erase_char:
  assumes "cons_ok st" and 3: "c = ctrl_H \<or> c = DEL" and "consoleintr dump c st = (st', out, wake)"
  shows "cons_ok st' \<and> (finished st', line st') = type_char c (finished st, line st)
    \<and> (wake \<longleftrightarrow> finished st' \<noteq> finished st)"
proof -
  have w: "unat (cw st - cr st) \<le> unat (ce st - cr st)" "unat (ce st - cr st) \<le> INPUT_BUF" "10 \<notin> set (line st)"
    using assms(1) by (auto simp: cons_ok_def)
  show ?thesis
  proof (cases "ce st = cw st")
    case True
    then have "line st = []" by (simp add: line_def ring_empty)
    then show ?thesis using 3 True assms(1,3) by (auto simp: consoleintr_def type_char_def)
  next
    case False
    then have st': "st' = st\<lparr>ce := ce st - 1\<rparr>" "\<not> wake" using 3 assms(3) by (auto simp: consoleintr_def)
    have l: "line st' = butlast (line st)" using ring_butlast(1)[OF False] by (simp add: line_def st')
    have f: "finished st' = finished st" by (simp add: finished_def st')
    have "ce st \<noteq> cr st"
    proof
      assume e: "ce st = cr st"
      then have "unat (cw st - cr st) = 0" using w(1) by simp
      then show False using False e by (simp add: unat_0_iff)
    qed
    then have n: "unat (ce st - 1 - cr st) = unat (ce st - cr st) - 1"
      using length_butlast[of "ring INPUT_BUF (cbuf st) (cr st) (ce st)"]
        ring_butlast(1)[of "ce st" "cr st" INPUT_BUF "cbuf st"] length_ring by metis
    have "unat (ce st - cw st) \<noteq> 0" using False by (simp add: unat_0_iff)
    then have "unat (cw st - cr st) \<le> unat (ce st - cr st) - 1" using counters[OF w(1)] by simp
    then have "cons_ok st'" using n w(2,3) l in_set_butlastD[of 10 "line st"] by (auto simp: cons_ok_def st')
    then show ?thesis using 3 l f st' by (auto simp: type_char_def)
  qed
qed

lemma plain_char:
  assumes "cons_ok st" and "0 \<le> c" and "c < 256" and "consoleintr dump c st = (st', out, wake)"
    and 5: "c \<noteq> 0" "unat (ce st - cr st) < INPUT_BUF" "c \<noteq> ctrl_P" "c \<noteq> ctrl_U" "\<not> (c = ctrl_H \<or> c = DEL)"
  shows "cons_ok st' \<and> (finished st', line st') = type_char c (finished st, line st)
    \<and> (wake \<longleftrightarrow> finished st' \<noteq> finished st)"
proof -
  have w: "unat (cw st - cr st) \<le> unat (ce st - cr st)" "10 \<notin> set (line st)"
    using assms(1) by (auto simp: cons_ok_def)
  note len = cons_len[OF assms(1)]
  define d where "d = (if c = CR then LF else c)"
  let ?s = "st\<lparr>cbuf := (cbuf st)(unat (ce st) mod INPUT_BUF := of_int d), ce := ce st + 1\<rparr>"
  note P = cons_put[OF assms(1) 5(2), of "of_int d"]
  have full: "ce ?s = cr ?s + of_nat INPUT_BUF \<longleftrightarrow> length (finished st) + length (line st @ [of_int d]) = INPUT_BUF"
  proof -
    have "ce ?s = cr ?s + of_nat INPUT_BUF \<longleftrightarrow> ce ?s - cr ?s = of_nat INPUT_BUF" by (auto simp: algebra_simps)
    also have "\<dots> \<longleftrightarrow> unat (ce ?s - cr ?s) = INPUT_BUF" by (simp add: word_unat_eq_iff)
    finally show ?thesis using P(3) len by simp
  qed
  let ?fin = "d = LF \<or> d = ctrl_D \<or> ce ?s = cr ?s + of_nat INPUT_BUF"
  have st': "st' = (if ?fin then ?s\<lparr>cw := ce ?s\<rparr> else ?s)" "wake \<longleftrightarrow> ?fin"
    using 5 assms(4) unfolding consoleintr_def d_def by (auto simp: word_less_nat_alt Let_def split: if_splits)
  have fl: "finished ?s @ line ?s = ring INPUT_BUF (cbuf ?s) (cr ?s) (ce ?s)"
    using ring_split[of "cw ?s" "cr ?s" "ce ?s" INPUT_BUF "cbuf ?s"] w(1) P(3)
    by (simp add: finished_def line_def)
  have tc: "type_char c (finished st, line st) =
      (if ?fin then (finished st @ line st @ [of_int d], []) else (finished st, line st @ [of_int d]))"
    unfolding full using 5 len by (simp add: type_char_def d_def Let_def)
  show ?thesis
  proof (cases ?fin)
    case True
    then have "st' = ?s\<lparr>cw := ce ?s\<rparr>" "wake" using st' by auto
    moreover have "finished (?s\<lparr>cw := ce ?s\<rparr>) = finished st @ line st @ [of_int d]"
      using fl P(1,2) by (simp add: finished_def)
    moreover have "line (?s\<lparr>cw := ce ?s\<rparr>) = []" by (simp add: line_def ring_empty)
    moreover have "cons_ok (?s\<lparr>cw := ce ?s\<rparr>)"
      using P(3) 5(2) calculation(4) by (simp add: cons_ok_def)
    ultimately show ?thesis using tc True by simp
  next
    case False
    then have e: "st' = ?s" "\<not> wake" using st' by auto
    have "(of_int d :: byte) \<noteq> 10"
    proof
      assume "(of_int d :: byte) = 10"
      then have "uint (of_int d :: byte) = uint (10 :: byte)" by simp
      moreover have "uint (of_int d :: byte) = d" using assms(2,3) by (simp add: d_def uint_word_of_int)
      ultimately show False using False by simp
    qed
    then have "cons_ok ?s" using w P(2,3) 5(2) by (simp add: cons_ok_def)
    then show ?thesis using e P(1,2) tc False by simp
  qed
qed

text \<open>
  C30: The console's ring of 128 bytes and its three counters are two lists, the finished input and the
  line that is being typed.  A character does to them what the line discipline says: erase removes the
  last byte of the line and never reaches into a finished one, kill removes the whole line, a carriage
  return is a newline, a newline, an end of file or a full buffer finishes the line, and what does not
  fit is dropped.  The reader is woken exactly when a line is finished, and the bounds of the counters
  are kept through their wrap-around.
\<close>

theorem console_refines:
  assumes "cons_ok st" and "0 \<le> c" and "c < 256" and "consoleintr dump c st = (st', out, wake)"
  shows "cons_ok st' \<and> (finished st', line st') = type_char c (finished st, line st)
    \<and> (wake \<longleftrightarrow> finished st' \<noteq> finished st)"
proof -
  have w: "unat (cw st - cr st) \<le> unat (ce st - cr st)" "unat (ce st - cr st) \<le> INPUT_BUF" "10 \<notin> set (line st)"
    using assms(1) by (auto simp: cons_ok_def)
  note len = cons_len[OF assms(1)]
  have lw: "unat (ce st - cw st) \<le> INPUT_BUF" using counters[OF w(1)] w(2) by simp
  consider "c = ctrl_P" | "c = ctrl_U" | "c = ctrl_H \<or> c = DEL" | "c = 0 \<or> \<not> unat (ce st - cr st) < INPUT_BUF"
    "c \<noteq> ctrl_P" "c \<noteq> ctrl_U" "\<not> (c = ctrl_H \<or> c = DEL)"
    | "c \<noteq> 0" "unat (ce st - cr st) < INPUT_BUF" "c \<noteq> ctrl_P" "c \<noteq> ctrl_U" "\<not> (c = ctrl_H \<or> c = DEL)" by blast
  then show ?thesis
  proof cases
    case 1
    then show ?thesis using assms(1,4) by (simp add: consoleintr_def type_char_def)
  next
    case 2
    have "st' = st\<lparr>ce := cw st\<rparr>" "\<not> wake"
      using kill_line_all[OF lw, of "[]"] w(3) assms(4) 2
      by (auto simp: consoleintr_def line_def split: prod.splits)
    moreover have "line (st\<lparr>ce := cw st\<rparr>) = []" by (simp add: line_def ring_empty)
    moreover have "finished (st\<lparr>ce := cw st\<rparr>) = finished st" by (simp add: finished_def)
    ultimately show ?thesis using 2 w by (auto simp: cons_ok_def type_char_def)
  next
    case 3
    then show ?thesis by (rule erase_char[OF assms(1) _ assms(4)])
  next
    case 4
    then have "st' = st" "\<not> wake" using assms(4) by (auto simp: consoleintr_def word_less_nat_alt)
    then show ?thesis using 4 assms(1) len by (auto simp: type_char_def)
  next
    case 5
    then show ?thesis by (rule plain_char[OF assms])
  qed
qed

section \<open>Reading a line\<close>

text \<open>
  What a read of \<open>n\<close> bytes gets, what it leaves, and whether it is complete: up to a newline, and up to
  an end of file, which is used up only by a read that gets nothing else.
\<close>

fun take_line :: "bool \<Rightarrow> nat \<Rightarrow> byte list \<Rightarrow> byte list \<times> byte list \<times> bool" where
  "take_line first 0 xs = ([], xs, True)"
| "take_line first (Suc n) [] = ([], [], False)"
| "take_line first (Suc n) (c # xs) =
     (if c = 4 then ([], if first then xs else c # xs, True)
      else if c = 10 then ([c], xs, True)
      else (case take_line False n xs of (g, r, d) \<Rightarrow> (c # g, r, d)))"

definition snoc_out :: "nat \<Rightarrow> byte \<Rightarrow> byte list \<Rightarrow> bool \<times> byte list" where
  "snoc_out dst c m = (True, m @ [c])"

lemma cons_get:
  assumes ok: "cons_ok st" and ne: "cr st \<noteq> cw st"
  defines "st1 \<equiv> st\<lparr>cr := cr st + 1\<rparr>"
  shows "cons_ok st1" "finished st = cbuf st (unat (cr st) mod INPUT_BUF) # finished st1" "line st1 = line st"
proof -
  have w: "unat (cw st - cr st) \<le> unat (ce st - cr st)" "unat (ce st - cr st) \<le> INPUT_BUF" using ok by (auto simp: cons_ok_def)
  show f: "finished st = cbuf st (unat (cr st) mod INPUT_BUF) # finished st1"
    using ring_get[of "cw st" "cr st" INPUT_BUF "cbuf st"] ne by (simp add: finished_def st1_def)
  show l: "line st1 = line st" by (simp add: line_def st1_def)
  have "unat (cw st - cr st) = Suc (unat (cw st - cr st1))"
    using arg_cong[OF f, of length] by (simp add: finished_def st1_def length_ring)
  moreover have "ce st \<noteq> cr st"
  proof
    assume e: "ce st = cr st"
    then have "unat (cw st - cr st) = 0" using w(1) by simp
    then show False using ne by (simp add: unat_0_iff)
  qed
  then have "unat (ce st - cr st) = Suc (unat (ce st - cr st1))"
    using ring_get[of "ce st" "cr st" INPUT_BUF "cbuf st"]
    by (simp add: st1_def) (metis length_Cons length_ring)
  ultimately show "cons_ok st1" using w ok l by (simp add: cons_ok_def) (simp add: st1_def)
qed

lemma uint_byte: "uint (c :: byte) = 4 \<longleftrightarrow> c = 4" "uint (c :: byte) = 10 \<longleftrightarrow> c = 10"
  using word_uint_eq_iff[of c 4] word_uint_eq_iff[of c 10] by auto

lemma consoleread_loop_line:
  assumes "cons_ok st" and "take_line (target \<le> int n) n (finished st) = (g, rest, d)" and "int n \<le> target"
  shows "\<exists>st'. consoleread_loop False snoc_out dst target (int n) st m
      = (if d then Done (target - int n + int (length g)) else Asleep (dst + length g) (int n - int (length g)), st', m @ g)
    \<and> cons_ok st' \<and> finished st' = rest \<and> line st' = line st"
  using assms
proof (induction n arbitrary: dst st m g)
  case 0
  then show ?case by (simp add: consoleread_loop.simps)
next
  case (Suc n)
  show ?case
  proof (cases "cr st = cw st")
    case True
    then have "finished st = []" by (simp add: finished_def ring_empty)
    then show ?thesis using Suc.prems True by (auto simp: consoleread_loop.simps)
  next
    case False
    let ?c = "cbuf st (unat (cr st) mod INPUT_BUF)" and ?st1 = "st\<lparr>cr := cr st + 1\<rparr>"
    note G = cons_get[OF Suc.prems(1) False]
    have step: "consoleread_loop False snoc_out dst target (int (Suc n)) st m =
      (if ?c = 4 then (Done (target - int (Suc n)), if int (Suc n) < target then st else ?st1, m)
       else if ?c = 10 then (Done (target - int n), ?st1, m @ [?c])
       else consoleread_loop False snoc_out (dst + 1) target (int n) ?st1 (m @ [?c]))"
      using False by (subst consoleread_loop.simps) (simp add: snoc_out_def Let_def uint_byte)
    consider "?c = 4" | "?c = 10" | "?c \<noteq> 4" "?c \<noteq> 10" by blast
    then show ?thesis
    proof cases
      case 1
      then show ?thesis using step Suc.prems G by (auto split: if_splits)
    next
      case 2
      then show ?thesis using step Suc.prems G by auto
    next
      case 3
      obtain g1 where g: "take_line False n (finished ?st1) = (g1, rest, d)" "g = ?c # g1"
        using Suc.prems(2) 3 G(2) by (auto split: prod.splits)
      have "take_line (target \<le> int n) n (finished ?st1) = (g1, rest, d)" using g(1) Suc.prems(3) by simp
      from Suc.IH[OF G(1) this, of "dst + 1" "m @ [?c]"] obtain st' where
        "consoleread_loop False snoc_out (dst + 1) target (int n) ?st1 (m @ [?c])
         = (if d then Done (target - int n + int (length g1)) else Asleep (dst + 1 + length g1) (int n - int (length g1)), st', (m @ [?c]) @ g1)"
        "cons_ok st'" "finished st' = rest" "line st' = line ?st1" using Suc.prems(3) by (auto split del: if_split)
      then show ?thesis using step 3 g(2) G(3) by auto
    qed
  qed
qed

text \<open>
  A read from the console gets one finished line at most.  \<open>consoleread\<close> of \<open>n\<close> bytes delivers
  the finished input up to \<open>n\<close> bytes, a newline, which it delivers too, or an end of file, which is
  kept for the next read unless it is the first thing read, so that the next read returns 0; when the
  input ends before that it goes to sleep with the rest still to read.  It never touches the line that
  is being typed.
\<close>

theorem consoleread_line:
  assumes "cons_ok st" and "take_line True n (finished st) = (g, rest, complete)"
  shows "\<exists>st'. consoleread False snoc_out dst (int n) st m
      = (if complete then Done (int (length g)) else Asleep (dst + length g) (int n - int (length g)), st', m @ g)
    \<and> cons_ok st' \<and> finished st' = rest \<and> line st' = line st"
  unfolding consoleread_def
  using consoleread_loop_line[of st "int n" n g rest complete dst m, unfolded diff_self add_0] assms by simp

text \<open>The input "a", newline, "b", typed into an empty console whose counters are about to wrap around.\<close>

definition demo_cons :: cons where
  "demo_cons = \<lparr>cbuf = (\<lambda>_. 0), cr = 0xffffffff, cw = 0xffffffff, ce = 0xffffffff\<rparr>"

definition demo_typed :: cons where
  "demo_typed = fst (consoleintr [] 98 (fst (consoleintr [] 13 (fst (consoleintr [] 97 demo_cons)))))"

lemma demo_cons_ok: "cons_ok demo_cons"
  by (simp add: demo_cons_def cons_ok_def line_def ring_def)

theorem console_refines_witness:
  "cons_ok (fst (consoleintr [] 97 demo_cons)) \<and> line (fst (consoleintr [] 97 demo_cons)) = [97]"
proof -
  obtain st' out wake where c: "consoleintr [] 97 demo_cons = (st', out, wake)" by (metis prod_cases3)
  have "finished demo_cons = []" "line demo_cons = []" by (simp_all add: demo_cons_def finished_def line_def ring_def)
  then show ?thesis using console_refines[OF demo_cons_ok _ _ c] c by (simp add: type_char_def)
qed

lemma demo_typed_ok: "cons_ok demo_typed" "finished demo_typed = [97, 10]"
  by (simp_all add: demo_typed_def demo_cons_def consoleintr_def consputc_def cons_ok_def line_def finished_def ring_def
      upt_conv_Cons)

theorem consoleread_line_witness:
  "\<exists>st'. consoleread False snoc_out 0 (int 5) demo_typed [] = (Done 2, st', [97, 10]) \<and> finished st' = []"
proof -
  have "take_line True 5 (finished demo_typed) = ([97, 10], [], True)" unfolding demo_typed_ok(2) by code_simp
  from consoleread_line[OF demo_typed_ok(1) this, of 0 "[]"] show ?thesis by auto
qed

end
