(* ===== verification/Virtio.thy ===== *)
theory Virtio imports Ring begin

text \<open>
  The disk driver, \<open>kernel/devices/storage/arm64/virtio_disk.c\<close>, with the structures of \<open>virtio-v1.h\<close> it shares
  with the device: descriptors, the ring of available requests and the ring of used ones.

  A DMA address is the object it points to; a buffer is a number.  The lock is held from one \<open>sleep\<close> to
  the next, so a call to \<open>virtio_disk_rw\<close> is a step for each time it runs: it asks for descriptors, hands
  in the request, looks whether it is done, and gives the descriptors back; a call of the interrupt handler
  is a step for each completed request.  \<open>sleep\<close> and \<open>wakeup\<close> are those of \<open>kernel/proc.c\<close>: the model keeps the
  channel on which each process sleeps, and only an awake process takes a step.  \<open>None\<close> is a panic.

  The device is not part of the repository.  \<open>device_ok\<close> states what the virtio specification says it does:
  it takes requests from the ring, carries out one at a time in any order, stores how that ended, and puts
  the request on the used ring.  A status that is not 0 is an error; then the bytes it was to transfer may
  be anything.  What it does with a request that is not formatted as specified is left open.
\<close>

section \<open>The shared structures\<close>

abbreviation (input) NUM :: nat where "NUM \<equiv> 8"
abbreviation (input) VRING_DESC_F_NEXT :: u16 where "VRING_DESC_F_NEXT \<equiv> 1"
abbreviation (input) VRING_DESC_F_WRITE :: u16 where "VRING_DESC_F_WRITE \<equiv> 2"
abbreviation (input) VIRTIO_BLK_T_IN :: u32 where "VIRTIO_BLK_T_IN \<equiv> 0"
abbreviation (input) VIRTIO_BLK_T_OUT :: u32 where "VIRTIO_BLK_T_OUT \<equiv> 1"

text \<open>Null, \<open>&disk.ops[i]\<close>, the data of buffer \<open>b\<close>, \<open>&disk.info[i].status\<close>.\<close>

datatype dma = DNull | DOp nat | DData nat | DStatus nat

record virtq_desc =
  daddr :: dma
  dlen :: u32
  dflags :: u16
  dnext :: u16

record virtio_blk_req =
  rtype :: u32
  reserved :: u32
  rsector :: u64

record vbuf =
  vblockno :: u32
  vdata :: mem
  vdisk :: bool

text \<open>What a process in the driver sleeps on: \<open>&disk.free[0]\<close>, or a buffer.\<close>

datatype vchan = FreeChan | BufChan nat

text \<open>
  \<open>struct disk\<close>, the buffers, and the channel each process sleeps on, if any.  The last three fields are the
  device's: the bytes it stores, how far it has read the available ring, and the requests it is working on.
\<close>

record virtio =
  desc :: "nat \<Rightarrow> virtq_desc"
  avail_ring :: "nat \<Rightarrow> u16"
  avail_idx :: u16
  used_ring :: "nat \<Rightarrow> u32"
  used_head :: u16  \<comment> \<open>\<open>used->idx\<close>\<close>
  dfree :: "nat \<Rightarrow> bool"
  used_idx :: u16
  info_b :: "nat \<Rightarrow> nat option"
  info_status :: "nat \<Rightarrow> byte"
  ops :: "nat \<Rightarrow> virtio_blk_req"
  vbufs :: "nat \<Rightarrow> vbuf"
  asleep :: "nat \<Rightarrow> vchan option"
  platter :: "nat \<Rightarrow> byte"
  seen_idx :: u16
  taken :: "nat set"

section \<open>sleep and wakeup\<close>

definition vsleep :: "nat \<Rightarrow> vchan \<Rightarrow> virtio \<Rightarrow> virtio" where
  "vsleep p ch s = s\<lparr>asleep := (asleep s)(p := Some ch)\<rparr>"

definition wake :: "vchan \<Rightarrow> (nat \<Rightarrow> vchan option) \<Rightarrow> nat \<Rightarrow> vchan option" where
  "wake ch a p = (if a p = Some ch then None else a p)"

definition vwakeup :: "vchan \<Rightarrow> virtio \<Rightarrow> virtio" where
  "vwakeup ch s = s\<lparr>asleep := wake ch (asleep s)\<rparr>"

section \<open>Descriptors\<close>

definition alloc_desc :: "virtio \<Rightarrow> nat option \<times> virtio" where
  "alloc_desc s =
     (case find (dfree s) [0..<NUM] of
        Some i \<Rightarrow> (Some i, s\<lparr>dfree := (dfree s)(i := False)\<rparr>)
      | None \<Rightarrow> (None, s))"

definition free_desc :: "nat \<Rightarrow> virtio \<Rightarrow> virtio option" where
  "free_desc i s =
     (if i \<ge> NUM then None
      else if dfree s i then None
      else Some (vwakeup FreeChan (s\<lparr>desc := (desc s)(i := \<lparr>daddr = DNull, dlen = 0, dflags = 0, dnext = 0\<rparr>),
        dfree := (dfree s)(i := True)\<rparr>)))"

partial_function (option) free_chain :: "nat \<Rightarrow> virtio \<Rightarrow> virtio option" where
  "free_chain i s =
     (let flag = dflags (desc s i); nxt = unat (dnext (desc s i)) in do {
        s \<leftarrow> free_desc i s;
        if flag AND VRING_DESC_F_NEXT \<noteq> 0 then free_chain nxt s else Some s
      })"

text \<open>The loop of \<open>alloc3_desc\<close>: \<open>n\<close> more descriptors after those in \<open>got\<close>, or none at all.\<close>

fun alloc_descs :: "nat \<Rightarrow> nat list \<Rightarrow> virtio \<Rightarrow> (nat list option \<times> virtio) option" where
  "alloc_descs 0 got s = Some (Some got, s)"
| "alloc_descs (Suc n) got s =
     (case alloc_desc s of
        (Some i, s) \<Rightarrow> alloc_descs n (got @ [i]) s
      | (None, s) \<Rightarrow> do { s \<leftarrow> fold_opt free_desc got s; Some (None, s) })"

definition alloc3_desc :: "virtio \<Rightarrow> (nat list option \<times> virtio) option" where
  "alloc3_desc s = alloc_descs 3 [] s"

section \<open>Requests\<close>

definition rw_submit :: "nat \<Rightarrow> bool \<Rightarrow> nat \<Rightarrow> nat \<Rightarrow> nat \<Rightarrow> virtio \<Rightarrow> virtio" where
  "rw_submit b write i0 i1 i2 s =
     (let sector = ucast (vblockno (vbufs s b) * of_nat (BSIZE div 512)) :: u64;
          s = s\<lparr>ops := (ops s)(i0 := \<lparr>rtype = (if write then VIRTIO_BLK_T_OUT else VIRTIO_BLK_T_IN),
            reserved = 0, rsector = sector\<rparr>)\<rparr>;
          s = s\<lparr>desc := (desc s)(i0 := \<lparr>daddr = DOp i0, dlen = 16, dflags = VRING_DESC_F_NEXT, dnext = of_nat i1\<rparr>)\<rparr>;
          s = s\<lparr>desc := (desc s)(i1 := \<lparr>daddr = DData b, dlen = of_nat BSIZE,
            dflags = (if write then 0 else VRING_DESC_F_WRITE) OR VRING_DESC_F_NEXT, dnext = of_nat i2\<rparr>)\<rparr>;
          s = s\<lparr>info_status := (info_status s)(i0 := 0xff)\<rparr>;
          s = s\<lparr>desc := (desc s)(i2 := \<lparr>daddr = DStatus i0, dlen = 1, dflags = VRING_DESC_F_WRITE, dnext = 0\<rparr>)\<rparr>;
          s = s\<lparr>vbufs := (vbufs s)(b := (vbufs s b)\<lparr>vdisk := True\<rparr>), info_b := (info_b s)(i0 := Some b)\<rparr>;
          s = s\<lparr>avail_ring := (avail_ring s)(unat (avail_idx s) mod NUM := of_nat i0)\<rparr>
      in s\<lparr>avail_idx := avail_idx s + 1\<rparr>)"

text \<open>\<open>virtio_disk_rw\<close> up to one of its sleeps: \<open>Some\<close> of the request's head, or \<open>None\<close> to wait for descriptors.\<close>

definition rw_begin :: "nat \<Rightarrow> bool \<Rightarrow> virtio \<Rightarrow> (nat option \<times> virtio) option" where
  "rw_begin b write s = do {
     (idx, s) \<leftarrow> alloc3_desc s;
     Some (case idx of
         None \<Rightarrow> (None, s)
       | Some idx \<Rightarrow> (Some (idx ! 0), rw_submit b write (idx ! 0) (idx ! 1) (idx ! 2) s))
   }"

text \<open>Its end, after the sleep on the buffer.\<close>

definition rw_finish :: "nat \<Rightarrow> virtio \<Rightarrow> virtio option" where
  "rw_finish i0 s = free_chain i0 (s\<lparr>info_b := (info_b s)(i0 := None)\<rparr>)"

text \<open>One round of the loop of \<open>virtio_disk_intr\<close>; a null \<open>info[id].b\<close> would be dereferenced.\<close>

definition intr_entry :: "virtio \<Rightarrow> virtio option" where
  "intr_entry s =
     (let id = unat (used_ring s (unat (used_idx s) mod NUM)) in
      if info_status s id \<noteq> 0 then None
      else do {
        b \<leftarrow> info_b s id;
        let s = vwakeup (BufChan b) (s\<lparr>vbufs := (vbufs s)(b := (vbufs s b)\<lparr>vdisk := False\<rparr>)\<rparr>);
        Some (s\<lparr>used_idx := used_idx s + 1\<rparr>)
      })"

partial_function (option) virtio_disk_intr :: "virtio \<Rightarrow> virtio option" where
  "virtio_disk_intr s =
     (if used_idx s \<noteq> used_head s then do { s \<leftarrow> intr_entry s; virtio_disk_intr s } else Some s)"

section \<open>Initialisation\<close>

text \<open>
  The registers are memory-mapped: \<open>reg\<close> is what reading them gives, the result lists what is written to
  them, in order.  \<open>pages\<close> is the physical address of the shared pages.
\<close>

definition driver_features :: "u64 \<Rightarrow> u64" where
  "driver_features f = fold (\<lambda>n f. f AND NOT (push_bit n 1)) [5, 7, 11, 12, 27, 29, 28] f"

definition virtio_disk_init :: "(nat \<Rightarrow> u32) \<Rightarrow> u64 \<Rightarrow> virtio \<Rightarrow> ((nat \<times> u32) list \<times> virtio) option" where
  "virtio_disk_init reg pages s =
     (if reg 0x000 \<noteq> 0x74726976 \<or> reg 0x004 \<noteq> 1 \<or> reg 0x008 \<noteq> 2 \<or> reg 0x00c \<noteq> 0x554d4551 then None
      else if reg 0x034 = 0 then None
      else if reg 0x034 < of_nat NUM then None
      else Some
        ([(0x070, 1), (0x070, 3), (0x020, ucast (driver_features (ucast (reg 0x010)))), (0x070, 11), (0x070, 15),
          (0x028, 4096), (0x030, 0), (0x038, of_nat NUM), (0x040, ucast (drop_bit 12 pages))],
         s\<lparr>desc := (\<lambda>_. \<lparr>daddr = DNull, dlen = 0, dflags = 0, dnext = 0\<rparr>),
           avail_ring := (\<lambda>_. 0), avail_idx := 0, used_ring := (\<lambda>_. 0), used_head := 0,
           dfree := (\<lambda>i. i < NUM \<or> dfree s i)\<rparr>))"

section \<open>The device\<close>

definition dev_fetch :: "virtio \<Rightarrow> virtio \<Rightarrow> bool" where
  "dev_fetch s s' \<longleftrightarrow> seen_idx s \<noteq> avail_idx s
     \<and> s' = s\<lparr>taken := insert (unat (avail_ring s (unat (seen_idx s) mod NUM))) (taken s), seen_idx := seen_idx s + 1\<rparr>"

text \<open>A chain of three descriptors that asks for \<open>n\<close> bytes at a sector, inside a disk of \<open>cap\<close> bytes.\<close>

definition chain_ok :: "nat \<Rightarrow> virtio \<Rightarrow> nat \<Rightarrow> bool" where
  "chain_ok cap s i \<longleftrightarrow>
     (let d0 = desc s i; d1 = desc s (unat (dnext d0)); d2 = desc s (unat (dnext d1)) in
      \<exists>r b t. daddr d0 = DOp r \<and> daddr d1 = DData b \<and> daddr d2 = DStatus t
        \<and> dlen d0 = 16 \<and> dlen d2 = 1 \<and> dflags d0 = VRING_DESC_F_NEXT \<and> dflags d2 = VRING_DESC_F_WRITE
        \<and> (rtype (ops s r) = VIRTIO_BLK_T_OUT \<and> dflags d1 = VRING_DESC_F_NEXT
           \<or> rtype (ops s r) = VIRTIO_BLK_T_IN \<and> dflags d1 = VRING_DESC_F_NEXT OR VRING_DESC_F_WRITE)
        \<and> 512 dvd unat (dlen d1) \<and> unat (rsector (ops s r)) * 512 + unat (dlen d1) \<le> cap)"

text \<open>\<open>junk\<close> is what is transferred when the request fails.\<close>

definition transfer :: "nat \<Rightarrow> nat \<Rightarrow> nat \<Rightarrow> bool \<Rightarrow> bool \<Rightarrow> mem \<Rightarrow> virtio \<Rightarrow> virtio" where
  "transfer b base n out fine junk s =
     (if out then s\<lparr>platter := (\<lambda>x. if base \<le> x \<and> x < base + n
        then (if fine then vdata (vbufs s b) else junk) (x - base) else platter s x)\<rparr>
      else s\<lparr>vbufs := (vbufs s)(b := (vbufs s b)\<lparr>vdata :=
        (\<lambda>k. if k < n then (if fine then platter s (base + k) else junk k) else vdata (vbufs s b) k)\<rparr>)\<rparr>)"

definition dev_done :: "nat \<Rightarrow> byte \<Rightarrow> mem \<Rightarrow> virtio \<Rightarrow> virtio" where
  "dev_done i status junk s =
     (let d0 = desc s i; d1 = desc s (unat (dnext d0)); d2 = desc s (unat (dnext d1)) in
      case (daddr d0, daddr d1, daddr d2) of
        (DOp r, DData b, DStatus t) \<Rightarrow>
          (transfer b (unat (rsector (ops s r)) * 512) (unat (dlen d1)) (rtype (ops s r) = VIRTIO_BLK_T_OUT) (status = 0) junk s)
            \<lparr>info_status := (info_status s)(t := status),
             used_ring := (used_ring s)(unat (used_head s) mod NUM := of_nat i),
             used_head := used_head s + 1, taken := taken s - {i}\<rparr>
      | _ \<Rightarrow> s)"

definition device_ok :: "nat \<Rightarrow> (virtio \<Rightarrow> virtio \<Rightarrow> bool) \<Rightarrow> bool" where
  "device_ok cap dev \<longleftrightarrow>
     (\<forall>s s'. dev s s' \<longrightarrow> dev_fetch s s' \<or>
        (\<exists>i \<in> taken s. chain_ok cap s i \<longrightarrow> (\<exists>status junk. s' = dev_done i status junk s)))"

section \<open>Processes, the driver and the device together\<close>

text \<open>
  A process is outside the driver, waits for descriptors, or waits for its request, whose head it knows.
  It keeps, as a ghost, the block the transfer is to deliver: the buffer's contents for a write, the
  disk's for a read, both when the call began.
\<close>

datatype vpc = VIdle | VWait nat bool mem | VBusy nat bool nat mem

fun vpc_buf :: "vpc \<Rightarrow> nat option" where
  "vpc_buf VIdle = None"
| "vpc_buf (VWait b w c) = Some b"
| "vpc_buf (VBusy b w i c) = Some b"

definition block_at :: "virtio \<Rightarrow> nat \<Rightarrow> nat" where
  "block_at s b = unat (vblockno (vbufs s b)) * BSIZE"

definition on_platter :: "virtio \<Rightarrow> nat \<Rightarrow> mem" where
  "on_platter s b = (\<lambda>k. platter s (block_at s b + k))"

text \<open>
  Callers hold the buffer's sleeplock, and no two buffers of the cache hold the same block.  A buffer that is
  not in a call may be filled by its owner at any time.  A process in the driver runs when it is awake:
  \<open>retry\<close>, \<open>submit\<close>, \<open>again\<close> and \<open>finish\<close> are what it does before it sleeps or returns.  \<open>kill\<close> wakes a process
  whatever it sleeps on.
\<close>

inductive virtio_step :: "nat \<Rightarrow> (virtio \<Rightarrow> virtio \<Rightarrow> bool) \<Rightarrow> virtio \<times> (nat \<Rightarrow> vpc) \<Rightarrow> virtio \<times> (nat \<Rightarrow> vpc) \<Rightarrow> bool"
  for cap dev where
  fill: "\<forall>q. vpc_buf (pcs q) \<noteq> Some b \<Longrightarrow>
    virtio_step cap dev (s, pcs) (s\<lparr>vbufs := (vbufs s)(b := (vbufs s b)\<lparr>vblockno := n, vdata := m\<rparr>)\<rparr>, pcs)"
| call: "pcs p = VIdle \<Longrightarrow> block_at s b + BSIZE \<le> cap
    \<Longrightarrow> \<forall>q b'. vpc_buf (pcs q) = Some b' \<longrightarrow> b' \<noteq> b \<and> vblockno (vbufs s b') \<noteq> vblockno (vbufs s b)
    \<Longrightarrow> virtio_step cap dev (s, pcs) (s, pcs(p := VWait b w (if w then vdata (vbufs s b) else on_platter s b)))"
| retry: "pcs p = VWait b w c \<Longrightarrow> asleep s p = None \<Longrightarrow> rw_begin b w s = Some (None, s')
    \<Longrightarrow> virtio_step cap dev (s, pcs) (vsleep p FreeChan s', pcs)"
| submit: "pcs p = VWait b w c \<Longrightarrow> asleep s p = None \<Longrightarrow> rw_begin b w s = Some (Some i, s')
    \<Longrightarrow> virtio_step cap dev (s, pcs) (vsleep p (BufChan b) s', pcs(p := VBusy b w i c))"
| again: "pcs p = VBusy b w i c \<Longrightarrow> asleep s p = None \<Longrightarrow> vdisk (vbufs s b)
    \<Longrightarrow> virtio_step cap dev (s, pcs) (vsleep p (BufChan b) s, pcs)"
| finish: "pcs p = VBusy b w i c \<Longrightarrow> asleep s p = None \<Longrightarrow> \<not> vdisk (vbufs s b) \<Longrightarrow> rw_finish i s = Some s'
    \<Longrightarrow> virtio_step cap dev (s, pcs) (s', pcs(p := VIdle))"
| kill: "virtio_step cap dev (s, pcs) (s\<lparr>asleep := (asleep s)(p := None)\<rparr>, pcs)"
| interrupt: "used_idx s \<noteq> used_head s \<Longrightarrow> intr_entry s = Some s' \<Longrightarrow> virtio_step cap dev (s, pcs) (s', pcs)"
| device: "dev s s' \<Longrightarrow> virtio_step cap dev (s, pcs) (s', pcs)"

end
