(* ===== verification/VirtioRun.thy ===== *)
theory VirtioRun imports Virtio begin

text \<open>
  The disk driver with its callers and the device, in every interleaving: the invariant that ties
  descriptors, rings and buffers to the calls under way, and what it gives the callers.
\<close>

section \<open>The invariant\<close>

text \<open>The request of process \<open>p\<close>'s call, as the device reads it.\<close>

definition formatted :: "virtio \<Rightarrow> nat \<Rightarrow> bool \<Rightarrow> nat \<Rightarrow> nat \<Rightarrow> nat \<Rightarrow> bool" where
  "formatted s b w i j k \<longleftrightarrow> i < NUM \<and> j < NUM \<and> k < NUM \<and> distinct [i, j, k]
     \<and> \<not> dfree s i \<and> \<not> dfree s j \<and> \<not> dfree s k
     \<and> desc s i = \<lparr>daddr = DOp i, dlen = 16, dflags = VRING_DESC_F_NEXT, dnext = of_nat j\<rparr>
     \<and> desc s j = \<lparr>daddr = DData b, dlen = of_nat BSIZE,
         dflags = (if w then 0 else VRING_DESC_F_WRITE) OR VRING_DESC_F_NEXT, dnext = of_nat k\<rparr>
     \<and> desc s k = \<lparr>daddr = DStatus i, dlen = 1, dflags = VRING_DESC_F_WRITE, dnext = 0\<rparr>
     \<and> ops s i = \<lparr>rtype = (if w then VIRTIO_BLK_T_OUT else VIRTIO_BLK_T_IN), reserved = 0,
         rsector = ucast (vblockno (vbufs s b) * of_nat (BSIZE div 512))\<rparr>
     \<and> info_b s i = Some b"

definition vchain :: "virtio \<Rightarrow> nat \<Rightarrow> nat set" where
  "vchain s i = {i, unat (dnext (desc s i)), unat (dnext (desc s (unat (dnext (desc s i)))))}"

definition avail_q :: "virtio \<Rightarrow> nat list" where
  "avail_q s = ring NUM (\<lambda>x. unat (avail_ring s x)) (seen_idx s) (avail_idx s)"

definition used_q :: "virtio \<Rightarrow> nat list" where
  "used_q s = ring NUM (\<lambda>x. unat (used_ring s x)) (used_idx s) (used_head s)"

definition pending :: "virtio \<Rightarrow> nat set" where
  "pending s = set (avail_q s) \<union> taken s"

definition users_ok :: "nat \<Rightarrow> virtio \<Rightarrow> (nat \<Rightarrow> vpc) \<Rightarrow> bool" where
  "users_ok cap s pcs \<longleftrightarrow>
     (\<forall>p q b b'. vpc_buf (pcs p) = Some b \<and> vpc_buf (pcs q) = Some b' \<and> p \<noteq> q
        \<longrightarrow> b \<noteq> b' \<and> vblockno (vbufs s b) \<noteq> vblockno (vbufs s b'))
     \<and> (\<forall>p b. vpc_buf (pcs p) = Some b \<longrightarrow> block_at s b + BSIZE \<le> cap)"

definition chains_ok :: "virtio \<Rightarrow> (nat \<Rightarrow> vpc) \<Rightarrow> bool" where
  "chains_ok s pcs \<longleftrightarrow>
     (\<forall>p b w i c. pcs p = VBusy b w i c \<longrightarrow> (\<exists>j k. formatted s b w i j k))
     \<and> (\<forall>p q b w i c b' w' i' c'. pcs p = VBusy b w i c \<and> pcs q = VBusy b' w' i' c' \<and> p \<noteq> q
          \<longrightarrow> vchain s i \<inter> vchain s i' = {})
     \<and> (\<forall>d < NUM. \<not> dfree s d \<longrightarrow> (\<exists>p b w i c. pcs p = VBusy b w i c \<and> d \<in> vchain s i))"

definition queues_ok :: "virtio \<Rightarrow> (nat \<Rightarrow> vpc) \<Rightarrow> bool" where
  "queues_ok s pcs \<longleftrightarrow>
     distinct (avail_q s @ used_q s) \<and> taken s \<inter> set (avail_q s @ used_q s) = {}
     \<and> (\<forall>i \<in> pending s \<union> set (used_q s). \<exists>p b w c. pcs p = VBusy b w i c)
     \<and> (\<forall>p b w i c. pcs p = VBusy b w i c \<longrightarrow> (vdisk (vbufs s b) \<longleftrightarrow> i \<in> pending s \<union> set (used_q s)))"

text \<open>The requests the device has not carried out, or failed to.\<close>

definition undelivered :: "virtio \<Rightarrow> nat set" where
  "undelivered s = pending s \<union> {i \<in> set (used_q s). info_status s i \<noteq> 0}"

text \<open>The first \<open>BSIZE\<close> bytes.\<close>

definition same_block :: "mem \<Rightarrow> mem \<Rightarrow> bool" where
  "same_block m c \<longleftrightarrow> (\<forall>k < BSIZE. m k = c k)"

text \<open>Whether the buffer, and whether the disk, already has what the call is to deliver.\<close>

definition contents_ok :: "virtio \<Rightarrow> (nat \<Rightarrow> vpc) \<Rightarrow> bool" where
  "contents_ok s pcs \<longleftrightarrow>
     (\<forall>p b w c. pcs p = VWait b w c \<longrightarrow> same_block (if w then vdata (vbufs s b) else on_platter s b) c)
     \<and> (\<forall>p b w i c. pcs p = VBusy b w i c \<longrightarrow>
          (w \<or> i \<notin> undelivered s \<longrightarrow> same_block (vdata (vbufs s b)) c)
          \<and> (\<not> w \<or> i \<notin> undelivered s \<longrightarrow> same_block (on_platter s b) c))"

text \<open>
  Who sleeps has something to wait for: the request of its buffer is under way, or fewer than three
  descriptors are free.
\<close>

definition few_free :: "virtio \<Rightarrow> bool" where
  "few_free s \<longleftrightarrow> card {d. d < NUM \<and> dfree s d} < 3"

definition sleepers_ok :: "virtio \<Rightarrow> (nat \<Rightarrow> vpc) \<Rightarrow> bool" where
  "sleepers_ok s pcs \<longleftrightarrow> (\<forall>p ch. asleep s p = Some ch \<longrightarrow>
     (case ch of FreeChan \<Rightarrow> (\<exists>b w c. pcs p = VWait b w c) \<and> few_free s
      | BufChan b \<Rightarrow> (\<exists>w i c. pcs p = VBusy b w i c) \<and> vdisk (vbufs s b)))"

definition virtio_inv :: "nat \<Rightarrow> virtio \<times> (nat \<Rightarrow> vpc) \<Rightarrow> bool" where
  "virtio_inv cap x \<longleftrightarrow> (case x of (s, pcs) \<Rightarrow>
     users_ok cap s pcs \<and> chains_ok s pcs \<and> queues_ok s pcs \<and> contents_ok s pcs \<and> sleepers_ok s pcs)"

lemma virtio_invI:
  "users_ok cap s pcs \<Longrightarrow> chains_ok s pcs \<Longrightarrow> queues_ok s pcs \<Longrightarrow> contents_ok s pcs \<Longrightarrow> sleepers_ok s pcs
    \<Longrightarrow> virtio_inv cap (s, pcs)"
  by (simp add: virtio_inv_def)

lemma virtio_invD:
  assumes "virtio_inv cap (s, pcs)"
  shows "users_ok cap s pcs" "chains_ok s pcs" "queues_ok s pcs" "contents_ok s pcs" "sleepers_ok s pcs"
  using assms by (simp_all add: virtio_inv_def)

lemma users_okD:
  assumes "users_ok cap s pcs"
  shows "vpc_buf (pcs p) = Some b \<Longrightarrow> vpc_buf (pcs q) = Some b' \<Longrightarrow> p \<noteq> q \<Longrightarrow> b \<noteq> b' \<and> vblockno (vbufs s b) \<noteq> vblockno (vbufs s b')"
    "vpc_buf (pcs p) = Some b \<Longrightarrow> block_at s b + BSIZE \<le> cap"
  using assms unfolding users_ok_def by blast+

lemma users_frame:
  assumes u: "users_ok cap s pcs" and b: "\<And>p b. vpc_buf (pcs p) = Some b \<Longrightarrow> vblockno (vbufs s' b) = vblockno (vbufs s b)"
    and "\<And>p. vpc_buf (pcs' p) = vpc_buf (pcs p)"
  shows "users_ok cap s' pcs'"
proof -
  have "block_at s' b = block_at s b" if "vpc_buf (pcs p) = Some b" for p b using b[OF that] by (simp add: block_at_def)
  then show ?thesis using users_okD[OF u] b unfolding users_ok_def assms(3) by metis
qed

lemma chains_okD:
  assumes "chains_ok s pcs" and "pcs p = VBusy b w i c"
  obtains j k where "formatted s b w i j k" "vchain s i = {i, j, k}"
proof -
  obtain j k where f: "formatted s b w i j k" using assms unfolding chains_ok_def by blast
  have "unat (of_nat x :: u16) = x" if "x < NUM" for x using that by (simp add: unat_of_nat)
  then have "vchain s i = {i, j, k}" using f by (simp add: vchain_def formatted_def)
  then show ?thesis using that f by blast
qed

lemma chains_cover:
  assumes "chains_ok s pcs" and "d < NUM" and "\<not> dfree s d"
  shows "\<exists>p b w i c. pcs p = VBusy b w i c \<and> d \<in> vchain s i"
  using assms unfolding chains_ok_def by simp

lemma formatted_chain: "formatted s b w i j k \<Longrightarrow> vchain s i = {i, j, k}"
  by (simp add: vchain_def formatted_def unat_of_nat)

lemma chains_apart:
  assumes "chains_ok s pcs" and "pcs p = VBusy b w i c" and "pcs q = VBusy b' w' i' c'" and "p \<noteq> q"
  shows "vchain s i \<inter> vchain s i' = {}" "i \<noteq> i'"
proof -
  show "vchain s i \<inter> vchain s i' = {}" using assms unfolding chains_ok_def by blast
  then show "i \<noteq> i'" by (auto simp: vchain_def)
qed

lemma queues_okD:
  assumes "queues_ok s pcs"
  shows "distinct (avail_q s @ used_q s)" "taken s \<inter> set (avail_q s @ used_q s) = {}"
    "i \<in> pending s \<union> set (used_q s) \<Longrightarrow> \<exists>p b w c. pcs p = VBusy b w i c"
    "pcs p = VBusy b w i c \<Longrightarrow> vdisk (vbufs s b) \<longleftrightarrow> i \<in> pending s \<union> set (used_q s)"
  using assms unfolding queues_ok_def by blast+

lemma contents_okD:
  assumes "contents_ok s pcs"
  shows "pcs p = VWait b w c \<Longrightarrow> same_block (if w then vdata (vbufs s b) else on_platter s b) c"
    "pcs p = VBusy b w i c \<Longrightarrow> w \<or> i \<notin> undelivered s \<Longrightarrow> same_block (vdata (vbufs s b)) c"
    "pcs p = VBusy b w i c \<Longrightarrow> \<not> w \<or> i \<notin> undelivered s \<Longrightarrow> same_block (on_platter s b) c"
  using assms unfolding contents_ok_def by blast+

lemma sleepers_okD:
  assumes "sleepers_ok s pcs"
  shows "asleep s p = Some FreeChan \<Longrightarrow> (\<exists>b w c. pcs p = VWait b w c) \<and> few_free s"
    "asleep s p = Some (BufChan b) \<Longrightarrow> (\<exists>w i c. pcs p = VBusy b w i c) \<and> vdisk (vbufs s b)"
  using assms unfolding sleepers_ok_def by fastforce+

lemma sleepers_okI:
  assumes "\<And>p. asleep s p = Some FreeChan \<Longrightarrow> (\<exists>b w c. pcs p = VWait b w c) \<and> few_free s"
    and "\<And>p b. asleep s p = Some (BufChan b) \<Longrightarrow> (\<exists>w i c. pcs p = VBusy b w i c) \<and> vdisk (vbufs s b)"
  shows "sleepers_ok s pcs"
  using assms unfolding sleepers_ok_def by (auto split: vchan.splits)

text \<open>The rings never hold more than the eight heads there are.\<close>

lemma heads_few:
  assumes "chains_ok s pcs" and "\<And>x. x \<in> set xs \<Longrightarrow> \<exists>p b w c. pcs p = VBusy b w x c" and "distinct xs"
    and "i < NUM" "i \<notin> set xs"
  shows "length xs < NUM"
proof -
  have "x < NUM" if "x \<in> set xs" for x
    using assms(2)[OF that] chains_okD[OF assms(1)] by (metis formatted_def)
  then have "insert i (set xs) \<subseteq> {..<NUM}" using assms(4) by auto
  then have "card (insert i (set xs)) \<le> NUM" using card_mono[of "{..<NUM}"] by fastforce
  then show ?thesis using assms(3,5) by (simp add: distinct_card)
qed

section \<open>Descriptors\<close>

lemma wake_le: "wake ch a p = Some ch' \<Longrightarrow> a p = Some ch'"
  by (simp add: wake_def split: if_splits)

lemma wake_wake [simp]: "wake ch (wake ch a) = wake ch a"
  by (simp add: wake_def fun_eq_iff)

lemma alloc_desc_cases:
  obtains i where "alloc_desc s = (Some i, s\<lparr>dfree := (dfree s)(i := False)\<rparr>)" "i < NUM" "dfree s i"
  | "alloc_desc s = (None, s)" "\<And>d. d < NUM \<Longrightarrow> \<not> dfree s d"
proof (cases "find (dfree s) [0..<NUM]")
  case (Some i)
  then have "i < NUM" "dfree s i" by (auto simp: find_Some_iff)
  then show ?thesis using that(1) Some by (simp add: alloc_desc_def)
next
  case None
  then have "alloc_desc s = (None, s)" by (simp add: alloc_desc_def)
  moreover have "\<forall>d < NUM. \<not> dfree s d" using None by (simp add: find_None_iff)
  ultimately show ?thesis using that(2) by blast
qed

lemma few_freeI:
  assumes "\<And>d. d < NUM \<Longrightarrow> dfree s d \<Longrightarrow> d = i \<or> d = j"
  shows "few_free s"
proof -
  have "card {d. d < NUM \<and> dfree s d} \<le> card {i, j}" using assms by (intro card_mono) auto
  also have "\<dots> \<le> 2" by (simp add: card_insert_if)
  finally show ?thesis by (simp add: few_free_def)
qed

text \<open>Giving back what was just taken only clears descriptors that are free, and wakes who waits for them.\<close>

lemma alloc3_cases:
  obtains i j k where "alloc3_desc s = Some (Some [i, j, k], s\<lparr>dfree := (dfree s)(i := False, j := False, k := False)\<rparr>)"
    "i < NUM" "j < NUM" "k < NUM" "distinct [i, j, k]" "dfree s i" "dfree s j" "dfree s k"
  | f a where "alloc3_desc s = Some (None, s\<lparr>desc := f, asleep := a\<rparr>)" "\<And>d. \<not> dfree s d \<Longrightarrow> f d = desc s d"
    "\<And>p ch. a p = Some ch \<Longrightarrow> asleep s p = Some ch" "few_free s"
proof -
  have three: "alloc3_desc s = alloc_descs (Suc (Suc (Suc 0))) [] s" by (simp add: alloc3_desc_def numeral_3_eq_3)
  show ?thesis
  proof (cases s rule: alloc_desc_cases)
    case 2
    then show ?thesis using that(2)[of "asleep s" "desc s"] few_freeI[of s] by (simp add: three)
  next
    case (1 i)
    let ?s1 = "s\<lparr>dfree := (dfree s)(i := False)\<rparr>"
    show ?thesis
    proof (cases ?s1 rule: alloc_desc_cases)
      case 2
      then have "alloc3_desc s = Some (None, s\<lparr>desc := (desc s)(i := \<lparr>daddr = DNull, dlen = 0, dflags = 0, dnext = 0\<rparr>),
          asleep := wake FreeChan (asleep s)\<rparr>)"
        using 1 by (simp add: three free_desc_def vwakeup_def fun_upd_idem)
      then show ?thesis
      proof (rule that(2))
        show "few_free s" by (rule few_freeI[of _ i i]) (use 2(2) in \<open>fastforce split: if_splits\<close>)
      qed (use 1(3) in \<open>auto dest: wake_le\<close>)
    next
      case j: (1 j)
      let ?s2 = "?s1\<lparr>dfree := (dfree ?s1)(j := False)\<rparr>"
      have ij: "i \<noteq> j" using j(3) by auto
      show ?thesis
      proof (cases ?s2 rule: alloc_desc_cases)
        case 2
        have "(dfree s)(i := False, j := False, i := True, j := True) = dfree s"
          by (rule ext) (use 1(3) j(3) ij in auto)
        then have "alloc3_desc s = Some (None, s\<lparr>desc := (desc s)(i := \<lparr>daddr = DNull, dlen = 0, dflags = 0, dnext = 0\<rparr>,
            j := \<lparr>daddr = DNull, dlen = 0, dflags = 0, dnext = 0\<rparr>), asleep := wake FreeChan (asleep s)\<rparr>)"
          using 1 j 2 ij by (simp add: three free_desc_def vwakeup_def fun_upd_twist)
        then show ?thesis
        proof (rule that(2))
          show "few_free s" by (rule few_freeI[of _ i j]) (use 2(2) in \<open>fastforce split: if_splits\<close>)
        qed (use 1(3) j(3) ij in \<open>auto dest: wake_le\<close>)
      next
        case k: (1 k)
        then show ?thesis using that(1)[of i j k] 1 j ij by (simp add: three split: if_splits)
      qed
    qed
  qed
qed

lemma free_chain_formatted:
  assumes "formatted s b w i j k"
  shows "free_chain i (s\<lparr>info_b := g\<rparr>) = Some (s\<lparr>info_b := g,
    desc := (desc s)(i := \<lparr>daddr = DNull, dlen = 0, dflags = 0, dnext = 0\<rparr>, j := \<lparr>daddr = DNull, dlen = 0, dflags = 0, dnext = 0\<rparr>,
      k := \<lparr>daddr = DNull, dlen = 0, dflags = 0, dnext = 0\<rparr>),
    dfree := (dfree s)(i := True, j := True, k := True), asleep := wake FreeChan (asleep s)\<rparr>)"
proof -
  have f: "desc s i = \<lparr>daddr = DOp i, dlen = 16, dflags = 1, dnext = of_nat j\<rparr>"
    "desc s j = \<lparr>daddr = DData b, dlen = of_nat BSIZE, dflags = (if w then 0 else 2) OR 1, dnext = of_nat k\<rparr>"
    "desc s k = \<lparr>daddr = DStatus i, dlen = 1, dflags = 2, dnext = 0\<rparr>"
    "i < 8" "j < 8" "k < 8" "i \<noteq> j" "i \<noteq> k" "j \<noteq> k" "j \<noteq> i" "k \<noteq> i" "k \<noteq> j" "\<not> dfree s i" "\<not> dfree s j" "\<not> dfree s k"
    using assms by (auto simp: formatted_def)
  have n: "unat (of_nat x :: u16) = x" if "x < 8" for x using that by (simp add: unat_of_nat)
  have a: "((if w then 0 else 2) OR 1 :: u16) AND 1 \<noteq> 0" "(1 :: u16) AND 1 \<noteq> 0" "(2 :: u16) AND 1 = 0" by simp_all
  have g: "\<not> 8 \<le> i" "\<not> 8 \<le> j" "\<not> 8 \<le> k" using f(4-6) by simp_all
  let ?null = "\<lparr>daddr = DNull, dlen = 0, dflags = 0, dnext = 0\<rparr>"
  let ?s1 = "s\<lparr>info_b := g, desc := (desc s)(i := ?null), dfree := (dfree s)(i := True), asleep := wake FreeChan (asleep s)\<rparr>"
  let ?s2 = "s\<lparr>info_b := g, desc := (desc s)(i := ?null, j := ?null), dfree := (dfree s)(i := True, j := True),
    asleep := wake FreeChan (asleep s)\<rparr>"
  have "free_chain i (s\<lparr>info_b := g\<rparr>) = free_chain j ?s1"
    by (subst free_chain.simps) (simp add: f n a g free_desc_def vwakeup_def)
  also have "\<dots> = free_chain k ?s2"
    by (subst free_chain.simps) (simp add: f n a g free_desc_def vwakeup_def)
  also have "\<dots> = Some (s\<lparr>info_b := g, desc := (desc s)(i := ?null, j := ?null, k := ?null),
      dfree := (dfree s)(i := True, j := True, k := True), asleep := wake FreeChan (asleep s)\<rparr>)"
    by (subst free_chain.simps) (simp add: f n a g free_desc_def vwakeup_def)
  finally show ?thesis by simp
qed

section \<open>Steps that keep the invariant\<close>

lemma block_cong: "vblockno (vbufs s' b) = vblockno (vbufs s b) \<Longrightarrow> block_at s' b = block_at s b"
  by (simp add: block_at_def)

lemma vchain_cong: "desc s' = desc s \<Longrightarrow> vchain s' = vchain s"
  by (simp add: vchain_def fun_eq_iff)

text \<open>Changes that descriptors, rings and calls do not see.\<close>

lemma chains_frame:
  assumes "chains_ok s pcs" and "dfree s' = dfree s" "ops s' = ops s" "info_b s' = info_b s"
    and "\<And>d. \<not> dfree s d \<Longrightarrow> desc s' d = desc s d"
    and "\<And>p b w i c. pcs p = VBusy b w i c \<Longrightarrow> vblockno (vbufs s' b) = vblockno (vbufs s b)"
    and "\<And>p b w i c. pcs' p = VBusy b w i c \<longleftrightarrow> pcs p = VBusy b w i c"
  shows "chains_ok s' pcs'"
proof -
  have f: "\<exists>j k. formatted s' b w i j k \<and> vchain s' i = vchain s i" if v: "pcs p = VBusy b w i c" for p b w i c
  proof -
    obtain j k where jk: "formatted s b w i j k" using chains_okD[OF assms(1) v] by blast
    have "desc s' i = desc s i" "desc s' j = desc s j" "desc s' k = desc s k"
      using jk assms(5) unfolding formatted_def by blast+
    then have "formatted s' b w i j k" using jk assms(2-4) assms(6)[OF v] by (simp add: formatted_def)
    then show ?thesis using formatted_chain jk by blast
  qed
  have "vchain s' i \<inter> vchain s' i' = {}"
    if "pcs p = VBusy b w i c" "pcs q = VBusy b' w' i' c'" "p \<noteq> q" for p q b w i c b' w' i' c'
    using chains_apart(1)[OF assms(1) that] f[OF that(1)] f[OF that(2)] by metis
  moreover have "\<exists>p b w i c. pcs p = VBusy b w i c \<and> d \<in> vchain s' i" if "d < NUM" "\<not> dfree s d" for d
    using assms(1) that f unfolding chains_ok_def by metis
  moreover have "\<exists>j k. formatted s' b w i j k" if "pcs p = VBusy b w i c" for p b w i c using f[OF that] by blast
  ultimately show ?thesis unfolding chains_ok_def assms(2,7) by (intro conjI allI impI) (elim conjE, assumption | blast)+
qed

lemma queues_frame:
  assumes "queues_ok s pcs" and "avail_q s' = avail_q s" "used_q s' = used_q s" "taken s' = taken s"
    and "\<And>p b w i c. pcs p = VBusy b w i c \<Longrightarrow> vdisk (vbufs s' b) = vdisk (vbufs s b)"
    and "\<And>p b w i c. pcs' p = VBusy b w i c \<longleftrightarrow> pcs p = VBusy b w i c"
  shows "queues_ok s' pcs'"
proof -
  have "pending s' = pending s" using assms(2,4) by (simp add: pending_def)
  then show ?thesis using assms(1,5) unfolding queues_ok_def assms(2-4,6) by metis
qed

lemma contents_frame:
  assumes "contents_ok s pcs" and "undelivered s' = undelivered s"
    and "\<And>p b. vpc_buf (pcs p) = Some b \<Longrightarrow> vdata (vbufs s' b) = vdata (vbufs s b) \<and> on_platter s' b = on_platter s b"
  shows "contents_ok s' pcs"
proof -
  have "vpc_buf (VWait b w c) = Some b" "vpc_buf (VBusy b w i c) = Some b" for b w i c by simp_all
  then show ?thesis using assms unfolding contents_ok_def by metis
qed

text \<open>A step may wake processes.\<close>

lemma sleepers_frame:
  assumes "sleepers_ok s pcs" and "\<And>p ch. asleep s' p = Some ch \<Longrightarrow> asleep s p = Some ch" and "dfree s' = dfree s"
    and "\<And>p b. asleep s' p = Some (BufChan b) \<Longrightarrow> vdisk (vbufs s b) \<Longrightarrow> vdisk (vbufs s' b)"
    and "\<And>p. asleep s p \<noteq> None \<Longrightarrow> pcs' p = pcs p"
  shows "sleepers_ok s' pcs'"
proof (rule sleepers_okI)
  fix p assume "asleep s' p = Some FreeChan"
  then have "asleep s p = Some FreeChan" by (rule assms(2))
  then show "(\<exists>b w c. pcs' p = VWait b w c) \<and> few_free s'"
    using sleepers_okD(1)[OF assms(1)] assms(5) by (simp add: few_free_def assms(3))
next
  fix p b assume a: "asleep s' p = Some (BufChan b)"
  then have "asleep s p = Some (BufChan b)" by (rule assms(2))
  then show "(\<exists>w i c. pcs' p = VBusy b w i c) \<and> vdisk (vbufs s' b)"
    using sleepers_okD(2)[OF assms(1)] assms(4)[OF a] assms(5) by simp
qed

lemma awake_frame: "asleep s p = None \<Longrightarrow> asleep s q \<noteq> None \<Longrightarrow> (pcs(p := c)) q = pcs q"
  by (cases "q = p") simp_all

lemma undelivered_cong:
  "pending s' = pending s \<Longrightarrow> used_q s' = used_q s \<Longrightarrow> info_status s' = info_status s \<Longrightarrow> undelivered s' = undelivered s"
  by (simp add: undelivered_def)

lemma on_platter_cong:
  "platter s' = platter s \<Longrightarrow> vblockno (vbufs s' b) = vblockno (vbufs s b) \<Longrightarrow> on_platter s' b = on_platter s b"
  by (simp add: on_platter_def block_at_def)

lemma queue_cong:
  "avail_ring s' = avail_ring s \<Longrightarrow> avail_idx s' = avail_idx s \<Longrightarrow> seen_idx s' = seen_idx s \<Longrightarrow> avail_q s' = avail_q s"
  "used_ring s' = used_ring s \<Longrightarrow> used_idx s' = used_idx s \<Longrightarrow> used_head s' = used_head s \<Longrightarrow> used_q s' = used_q s"
  by (simp_all add: avail_q_def used_q_def)

lemma fill_inv:
  assumes inv: "virtio_inv cap (s, pcs)" and b: "\<forall>q. vpc_buf (pcs q) \<noteq> Some b"
  shows "virtio_inv cap (s\<lparr>vbufs := (vbufs s)(b := (vbufs s b)\<lparr>vblockno := n, vdata := m\<rparr>)\<rparr>, pcs)" (is "virtio_inv cap (?s, pcs)")
proof -
  note I = virtio_invD[OF inv]
  have ne: "b' \<noteq> b" if "vpc_buf (pcs p) = Some b'" for p b' using b that by blast
  have busy: "b' \<noteq> b" if "pcs p = VBusy b' w i c" for p b' w i c using ne[of p b'] that by simp
  show ?thesis
  proof (rule virtio_invI)
    show "users_ok cap ?s pcs" by (rule users_frame[OF I(1)]) (use ne in auto)
    show "chains_ok ?s pcs" by (rule chains_frame[OF I(2)]) (use busy in auto)
    show "queues_ok ?s pcs" by (rule queues_frame[OF I(3)]) (use busy in \<open>auto simp: avail_q_def used_q_def\<close>)
    show "contents_ok ?s pcs"
    proof (rule contents_frame[OF I(4)])
      show "undelivered ?s = undelivered s" by (rule undelivered_cong) (simp_all add: pending_def avail_q_def used_q_def)
      fix p b' assume "vpc_buf (pcs p) = Some b'"
      then show "vdata (vbufs ?s b') = vdata (vbufs s b') \<and> on_platter ?s b' = on_platter s b'"
        using ne by (auto intro: on_platter_cong)
    qed
    show "sleepers_ok ?s pcs" by (rule sleepers_frame[OF I(5)]) auto
  qed
qed

lemma call_inv:
  assumes inv: "virtio_inv cap (s, pcs)" and p: "pcs p = VIdle" and b: "block_at s b + BSIZE \<le> cap"
    and u: "\<forall>q b'. vpc_buf (pcs q) = Some b' \<longrightarrow> b' \<noteq> b \<and> vblockno (vbufs s b') \<noteq> vblockno (vbufs s b)"
  shows "virtio_inv cap (s, pcs(p := VWait b w (if w then vdata (vbufs s b) else on_platter s b)))"
proof -
  note I = virtio_invD[OF inv]
  let ?pcs = "pcs(p := VWait b w (if w then vdata (vbufs s b) else on_platter s b))"
  have same: "?pcs q = VBusy b' w' i c \<longleftrightarrow> pcs q = VBusy b' w' i c" for q b' w' i c using p by auto
  show ?thesis
  proof (rule virtio_invI)
    show "users_ok cap s ?pcs"
      unfolding users_ok_def
    proof (intro conjI allI impI; (elim conjE)?)
      fix p' q a a' assume "vpc_buf (?pcs p') = Some a" "vpc_buf (?pcs q) = Some a'" "p' \<noteq> q"
      then show "a \<noteq> a'" "vblockno (vbufs s a) \<noteq> vblockno (vbufs s a')"
        using users_okD(1)[OF I(1), of p' a q a'] u by (cases "p' = p"; cases "q = p"; simp; metis)+
    next
      fix p' a assume "vpc_buf (?pcs p') = Some a"
      then show "block_at s a + BSIZE \<le> cap" using users_okD(2)[OF I(1), of p' a] b by (simp split: if_splits)
    qed
    show "chains_ok s ?pcs" by (rule chains_frame[OF I(2)]) (use same in auto)
    show "queues_ok s ?pcs" by (rule queues_frame[OF I(3)]) (use same in auto)
    have "same_block (if w' then vdata (vbufs s b') else on_platter s b') c" if "?pcs q = VWait b' w' c" for q b' w' c
      using contents_okD(1)[OF I(4)] that by (cases "q = p") (auto simp: same_block_def)
    then show "contents_ok s ?pcs" using I(4) unfolding contents_ok_def same by blast
    have "asleep s p = None"
    proof (rule ccontr)
      assume "asleep s p \<noteq> None"
      then obtain ch where "asleep s p = Some ch" by blast
      then show False using sleepers_okD[OF I(5), of p] p by (cases ch) auto
    qed
    then show "sleepers_ok s ?pcs" by (intro sleepers_frame[OF I(5)] awake_frame) simp_all
  qed
qed

lemma kill_inv:
  assumes inv: "virtio_inv cap (s, pcs)"
  shows "virtio_inv cap (s\<lparr>asleep := (asleep s)(p := None)\<rparr>, pcs)" (is "virtio_inv cap (?s, pcs)")
proof -
  note I = virtio_invD[OF inv]
  show ?thesis
  proof (rule virtio_invI)
    show "users_ok cap ?s pcs" by (rule users_frame[OF I(1)]) simp_all
    show "chains_ok ?s pcs" by (rule chains_frame[OF I(2)]) simp_all
    show "queues_ok ?s pcs" by (rule queues_frame[OF I(3)]) (simp_all add: avail_q_def used_q_def)
    show "contents_ok ?s pcs"
      by (rule contents_frame[OF I(4) undelivered_cong])
         (simp_all add: pending_def avail_q_def used_q_def on_platter_def block_at_def)
    show "sleepers_ok ?s pcs" by (rule sleepers_frame[OF I(5)]) (simp_all split: if_splits)
  qed
qed

text \<open>So a process may go to sleep when the invariant says why.\<close>

lemma sleep_inv:
  assumes inv: "virtio_inv cap (s, pcs)"
    and ch: "case ch of FreeChan \<Rightarrow> (\<exists>b w c. pcs p = VWait b w c) \<and> few_free s
      | BufChan b \<Rightarrow> (\<exists>w i c. pcs p = VBusy b w i c) \<and> vdisk (vbufs s b)"
  shows "virtio_inv cap (vsleep p ch s, pcs)" (is "virtio_inv cap (?s, pcs)")
proof -
  note I = virtio_invD[OF inv]
  show ?thesis
  proof (rule virtio_invI)
    show "users_ok cap ?s pcs" by (rule users_frame[OF I(1)]) (simp_all add: vsleep_def)
    show "chains_ok ?s pcs" by (rule chains_frame[OF I(2)]) (simp_all add: vsleep_def)
    show "queues_ok ?s pcs" by (rule queues_frame[OF I(3)]) (simp_all add: avail_q_def used_q_def vsleep_def)
    show "contents_ok ?s pcs"
      by (rule contents_frame[OF I(4) undelivered_cong])
         (simp_all add: pending_def avail_q_def used_q_def on_platter_def block_at_def vsleep_def)
    show "sleepers_ok ?s pcs" using I(5) ch by (auto simp: sleepers_ok_def vsleep_def few_free_def split: vchan.splits)
  qed
qed

lemma retry_inv:
  assumes inv: "virtio_inv cap (s, pcs)" and p: "pcs p = VWait b w c" and r: "rw_begin b w s = Some (None, s')"
  shows "virtio_inv cap (vsleep p FreeChan s', pcs)"
proof (cases s rule: alloc3_cases)
  case (2 f a)
  note I = virtio_invD[OF inv]
  have s': "s' = s\<lparr>desc := f, asleep := a\<rparr>" using r 2(1) by (simp add: rw_begin_def)
  have "virtio_inv cap (s', pcs)"
  proof (rule virtio_invI)
    show "users_ok cap s' pcs" by (rule users_frame[OF I(1)]) (simp_all add: s')
    show "chains_ok s' pcs" by (rule chains_frame[OF I(2)]) (simp_all add: s' 2(2))
    show "queues_ok s' pcs" by (rule queues_frame[OF I(3)]) (simp_all add: s' avail_q_def used_q_def)
    show "contents_ok s' pcs"
      by (rule contents_frame[OF I(4) undelivered_cong])
         (simp_all add: s' pending_def avail_q_def used_q_def on_platter_def block_at_def)
    show "sleepers_ok s' pcs" by (rule sleepers_frame[OF I(5)]) (simp_all add: s' 2(3))
  qed
  then show ?thesis by (rule sleep_inv) (use p 2(4) in \<open>simp add: few_free_def s'\<close>)
qed (use r in \<open>simp add: rw_begin_def\<close>)

lemma head_taken:
  assumes "chains_ok s pcs" and "queues_ok s pcs" and "x \<in> pending s \<union> set (used_q s)"
  shows "x < NUM" "\<not> dfree s x"
proof -
  obtain p b w c where "pcs p = VBusy b w x c" using queues_okD(3)[OF assms(2,3)] by blast
  then obtain j k where "formatted s b w x j k" using chains_okD[OF assms(1)] by blast
  then show "x < NUM" "\<not> dfree s x" by (simp_all add: formatted_def)
qed

lemma chain_taken:
  assumes "chains_ok s pcs" and "pcs p = VBusy b w i c" and "d \<in> vchain s i"
  shows "\<not> dfree s d"
proof -
  obtain j k where "formatted s b w i j k" "vchain s i = {i, j, k}" using chains_okD[OF assms(1,2)] .
  then show ?thesis using assms(3) by (auto simp: formatted_def)
qed

lemma submit_inv:
  assumes inv: "virtio_inv cap (s, pcs)" and p: "pcs p = VWait b w c" and aw: "asleep s p = None" and r: "rw_begin b w s = Some (Some i, s')"
  shows "virtio_inv cap (vsleep p (BufChan b) s', pcs(p := VBusy b w i c))" (is "virtio_inv cap (_, ?pcs)")
proof (cases s rule: alloc3_cases)
  case (1 i0 j k)
  note I = virtio_invD[OF inv]
  have s0: "i0 = i" "s' = rw_submit b w i j k (s\<lparr>dfree := (dfree s)(i := False, j := False, k := False)\<rparr>)"
    using r 1(1) by (auto simp: rw_begin_def)
  have d: "i < NUM" "j < NUM" "k < NUM" "i \<noteq> j" "i \<noteq> k" "j \<noteq> k" "dfree s i" "dfree s j" "dfree s k"
    using 1(2-) unfolding s0(1) by simp_all
  have f: "dfree s' = (dfree s)(i := False, j := False, k := False)" "info_b s' = (info_b s)(i := Some b)"
    "ops s' = (ops s)(i := \<lparr>rtype = (if w then 1 else 0), reserved = 0, rsector = ucast (vblockno (vbufs s b) * of_nat (BSIZE div 512))\<rparr>)"
    "desc s' = (desc s)(i := \<lparr>daddr = DOp i, dlen = 16, dflags = 1, dnext = of_nat j\<rparr>,
       j := \<lparr>daddr = DData b, dlen = of_nat BSIZE, dflags = (if w then 0 else 2) OR 1, dnext = of_nat k\<rparr>,
       k := \<lparr>daddr = DStatus i, dlen = 1, dflags = 2, dnext = 0\<rparr>)"
    "vbufs s' = (vbufs s)(b := (vbufs s b)\<lparr>vdisk := True\<rparr>)" "info_status s' = (info_status s)(i := 0xff)"
    "avail_ring s' = (avail_ring s)(unat (avail_idx s) mod NUM := of_nat i)" "avail_idx s' = avail_idx s + 1"
    "used_ring s' = used_ring s" "used_idx s' = used_idx s" "used_head s' = used_head s" "seen_idx s' = seen_idx s"
    "taken s' = taken s" "platter s' = platter s" "asleep s' = asleep s"
    unfolding s0(2) rw_submit_def by (simp_all add: Let_def)
  have fresh: "x \<noteq> i" if "x \<in> pending s \<union> set (used_q s)" for x using head_taken[OF I(2,3) that] d(7) by blast
  have other: "q \<noteq> p \<and> pcs q = VBusy b' w' i' c'" if "?pcs q = VBusy b' w' i' c'" "q \<noteq> p" for q b' w' i' c' using that by simp
  have old: "i' \<noteq> i \<and> b' \<noteq> b \<and> vchain s' i' = vchain s i' \<and> (\<exists>j k. formatted s' b' w' i' j k) \<and> vchain s i' \<inter> {i, j, k} = {}"
    if q: "pcs q = VBusy b' w' i' c'" for q b' w' i' c'
  proof -
    obtain j' k' where F: "formatted s b' w' i' j' k'" "vchain s i' = {i', j', k'}" using chains_okD[OF I(2) q] .
    have "q \<noteq> p" using p q by auto
    then have ne: "b' \<noteq> b" using users_okD(1)[OF I(1), of q b' p b] p q by simp
    have out: "{i', j', k'} \<inter> {i, j, k} = {}" using F(1) d by (auto simp: formatted_def)
    have "formatted s' b' w' i' j' k'" using F(1) out ne unfolding formatted_def f by auto
    then show ?thesis using formatted_chain F(2) out ne by auto
  qed
  have new: "formatted s' b w i j k" unfolding formatted_def f using d by simp
  then have ch: "vchain s' i = {i, j, k}" by (rule formatted_chain)
  have few: "length (avail_q s) < NUM"
  proof (rule heads_few[OF I(2)])
    show "distinct (avail_q s)" using queues_okD(1)[OF I(3)] by simp
    show "i < NUM" "i \<notin> set (avail_q s)" using d(1) fresh by (auto simp: pending_def)
    show "\<exists>p b w c. pcs p = VBusy b w x c" if "x \<in> set (avail_q s)" for x
      using queues_okD(3)[OF I(3)] that by (simp add: pending_def)
  qed
  have a: "avail_q s' = avail_q s @ [i]"
  proof -
    have "unat (of_nat i :: u16) = i" using d(1) by (simp add: unat_of_nat)
    then have "(\<lambda>x. unat (avail_ring s' x)) = (\<lambda>x. unat (avail_ring s x))(unat (avail_idx s) mod NUM := i)"
      by (auto simp: f)
    then show ?thesis using ring_put[of NUM "avail_idx s" "seen_idx s" "\<lambda>x. unat (avail_ring s x)" i] few
      by (simp add: avail_q_def f length_ring)
  qed
  have u: "used_q s' = used_q s" by (simp add: used_q_def f)
  have pe: "pending s' = insert i (pending s)" by (auto simp: pending_def a f)
  have un: "undelivered s' = insert i (undelivered s)" using fresh by (auto simp: undelivered_def pe u f)
  have "virtio_inv cap (s', ?pcs)"
  proof (rule virtio_invI)
    show "users_ok cap s' ?pcs" by (rule users_frame[OF I(1)]) (use p in \<open>auto simp: f\<close>)
    show "chains_ok s' ?pcs" unfolding chains_ok_def
    proof (intro conjI allI impI; (elim conjE)?)
      fix q b' w' i' c' assume "?pcs q = VBusy b' w' i' c'"
      then show "\<exists>j k. formatted s' b' w' i' j k" using old new by (cases "q = p") auto
    next
      fix q q' b1 w1 i1 c1 b2 w2 i2 c2
      assume *: "?pcs q = VBusy b1 w1 i1 c1" "?pcs q' = VBusy b2 w2 i2 c2" "q \<noteq> q'"
      show "vchain s' i1 \<inter> vchain s' i2 = {}"
      proof (cases "q = p \<or> q' = p")
        case True
        then show ?thesis using * old ch by (auto split: if_splits)
      next
        case False
        then have q: "pcs q = VBusy b1 w1 i1 c1" "pcs q' = VBusy b2 w2 i2 c2" using * by auto
        then show ?thesis using chains_apart(1)[OF I(2) q *(3)] old[OF q(1)] old[OF q(2)] by simp
      qed
    next
      fix e :: nat assume e: "e < NUM" "\<not> dfree s' e"
      show "\<exists>q b w i c. ?pcs q = VBusy b w i c \<and> e \<in> vchain s' i"
      proof (cases "e \<in> {i, j, k}")
        case True
        then have "?pcs p = VBusy b w i c" "e \<in> vchain s' i" unfolding ch by simp_all
        then show ?thesis by blast
      next
        case False
        then have "\<not> dfree s e" using e(2) by (auto simp: f)
        then obtain q b1 w1 i1 c1 where q: "pcs q = VBusy b1 w1 i1 c1" "e \<in> vchain s i1"
          using chains_cover[OF I(2) e(1)] by blast
        have "q \<noteq> p" using p q(1) by force
        then have "?pcs q = VBusy b1 w1 i1 c1" using q(1) by simp
        moreover have "e \<in> vchain s' i1" using q(2) old[OF q(1), THEN conjunct2, THEN conjunct2, THEN conjunct1] by simp
        ultimately show ?thesis by blast
      qed
    qed
    show "queues_ok s' ?pcs" unfolding queues_ok_def
    proof (intro conjI allI impI ballI)
      show "distinct (avail_q s' @ used_q s')" "taken s' \<inter> set (avail_q s' @ used_q s') = {}"
        using queues_okD(1,2)[OF I(3)] fresh unfolding a u by (auto simp: f pending_def)
      fix x assume x: "x \<in> pending s' \<union> set (used_q s')"
      show "\<exists>q b w c. ?pcs q = VBusy b w x c"
      proof (cases "x = i")
        case False
        then have "x \<in> pending s \<union> set (used_q s)" using x by (simp add: pe u)
        then obtain q b' w' c' where "pcs q = VBusy b' w' x c'" using queues_okD(3)[OF I(3)] by blast
        then have "?pcs q = VBusy b' w' x c'" using p by auto
        then show ?thesis by blast
      qed (rule exI[of _ p], simp)
    next
      fix q b' w' i' c' assume q: "?pcs q = VBusy b' w' i' c'"
      show "vdisk (vbufs s' b') \<longleftrightarrow> i' \<in> pending s' \<union> set (used_q s')"
      proof (cases "q = p")
        case False
        then have q: "pcs q = VBusy b' w' i' c'" using q by simp
        then show ?thesis using queues_okD(4)[OF I(3) q] old[OF q] by (simp add: f pe u)
      qed (use q in \<open>auto simp: f pe\<close>)
    qed
    have pl: "on_platter s' b' = on_platter s b'" for b' by (rule on_platter_cong) (simp_all add: f)
    show "contents_ok s' ?pcs" unfolding contents_ok_def pl
    proof (intro conjI allI impI)
      fix q b' w' c' assume q: "?pcs q = VWait b' w' c'"
      then have "pcs q = VWait b' w' c'" by (auto split: if_splits)
      then show "same_block (if w' then vdata (vbufs s' b') else on_platter s b') c'"
        using contents_okD(1)[OF I(4), of q b' w' c'] by (auto simp: f split: if_splits)
    next
      fix q b' w' i' c' assume q: "?pcs q = VBusy b' w' i' c'"
      have "w' \<or> i' \<notin> undelivered s' \<Longrightarrow> same_block (vdata (vbufs s b')) c'"
        "\<not> w' \<or> i' \<notin> undelivered s' \<Longrightarrow> same_block (on_platter s b') c'"
        using q contents_okD(1)[OF I(4) p] contents_okD(2,3)[OF I(4), of q b' w' i' c'] old[of q b' w' i' c']
        by (auto simp: un split: if_splits)
      then show "w' \<or> i' \<notin> undelivered s' \<Longrightarrow> same_block (vdata (vbufs s' b')) c'"
        "\<not> w' \<or> i' \<notin> undelivered s' \<Longrightarrow> same_block (on_platter s b') c'"
        by (auto simp: f)
    qed
    show "sleepers_ok s' ?pcs"
    proof (rule sleepers_okI)
      fix q assume q: "asleep s' q = Some FreeChan"
      then have "q \<noteq> p" using aw by (auto simp: f)
      moreover have "{d. d < NUM \<and> dfree s' d} \<subseteq> {d. d < NUM \<and> dfree s d}" by (auto simp: f)
      then have "card {d. d < NUM \<and> dfree s' d} \<le> card {d. d < NUM \<and> dfree s d}" by (intro card_mono) auto
      ultimately show "(\<exists>b w c. ?pcs q = VWait b w c) \<and> few_free s'"
        using sleepers_okD(1)[OF I(5), of q] q by (simp add: f(15) few_free_def)
    next
      fix q b' assume q: "asleep s' q = Some (BufChan b')"
      then have "q \<noteq> p" using aw by (auto simp: f)
      then show "(\<exists>w i c. ?pcs q = VBusy b' w i c) \<and> vdisk (vbufs s' b')"
        using sleepers_okD(2)[OF I(5), of q b'] q by (simp add: f)
    qed
  qed
  then show ?thesis by (rule sleep_inv) (simp add: f)
qed (use r in \<open>simp add: rw_begin_def\<close>)

lemma finish_inv:
  assumes inv: "virtio_inv cap (s, pcs)" and p: "pcs p = VBusy b w i c" and aw: "asleep s p = None" and d: "\<not> vdisk (vbufs s b)"
    and r: "rw_finish i s = Some s'"
  shows "virtio_inv cap (s', pcs(p := VIdle))" (is "virtio_inv cap (s', ?pcs)")
proof -
  note I = virtio_invD[OF inv]
  obtain j k where F: "formatted s b w i j k" "vchain s i = {i, j, k}" using chains_okD[OF I(2) p] .
  let ?null = "\<lparr>daddr = DNull, dlen = 0, dflags = 0, dnext = 0\<rparr>"
  have s': "s' = s\<lparr>info_b := (info_b s)(i := None), desc := (desc s)(i := ?null, j := ?null, k := ?null),
    dfree := (dfree s)(i := True, j := True, k := True), asleep := wake FreeChan (asleep s)\<rparr>"
    using r free_chain_formatted[OF F(1)] by (simp add: rw_finish_def)
  have q: "used_q s' = used_q s" "avail_q s' = avail_q s" "pending s' = pending s" "taken s' = taken s"
    by (simp_all add: s' used_q_def avail_q_def pending_def)
  have gone: "i \<notin> pending s \<union> set (used_q s)" using queues_okD(4)[OF I(3) p] d by simp
  have busy: "?pcs q = VBusy b' w' i' c' \<longleftrightarrow> q \<noteq> p \<and> pcs q = VBusy b' w' i' c'" for q b' w' i' c' by auto
  have old: "vchain s' i' = vchain s i' \<and> (\<exists>j k. formatted s' b' w' i' j k) \<and> vchain s i' \<inter> {i, j, k} = {}"
    if o: "q \<noteq> p" "pcs q = VBusy b' w' i' c'" for q b' w' i' c'
  proof -
    obtain j' k' where G: "formatted s b' w' i' j' k'" "vchain s i' = {i', j', k'}" using chains_okD[OF I(2) o(2)] .
    have out: "{i', j', k'} \<inter> {i, j, k} = {}" using chains_apart(1)[OF I(2) o(2) p o(1)] G(2) F(2) by simp
    have "formatted s' b' w' i' j' k'" using G(1) out unfolding formatted_def s' by auto
    then show ?thesis using formatted_chain G(2) out by auto
  qed
  show ?thesis
  proof (rule virtio_invI)
    show "users_ok cap s' ?pcs" using I(1) unfolding users_ok_def s' by (auto simp: block_at_def split: if_splits)
    show "chains_ok s' ?pcs" unfolding chains_ok_def busy
    proof (intro conjI allI impI; (elim conjE)?)
      fix q b' w' i' c' assume "q \<noteq> p" "pcs q = VBusy b' w' i' c'"
      then show "\<exists>j k. formatted s' b' w' i' j k" using old by blast
    next
      fix q q' b1 w1 i1 c1 b2 w2 i2 c2
      assume *: "q \<noteq> p" "pcs q = VBusy b1 w1 i1 c1" "q' \<noteq> p" "pcs q' = VBusy b2 w2 i2 c2" "q \<noteq> q'"
      then show "vchain s' i1 \<inter> vchain s' i2 = {}"
        using chains_apart(1)[OF I(2) *(2,4,5)] old[OF *(1,2)] old[OF *(3,4)] by simp
    next
      fix e :: nat assume e: "e < NUM" "\<not> dfree s' e"
      then have "\<not> dfree s e" "e \<notin> {i, j, k}" by (auto simp: s' split: if_splits)
      then obtain q b1 w1 i1 c1 where q: "pcs q = VBusy b1 w1 i1 c1" "e \<in> vchain s i1" "q \<noteq> p"
        using chains_cover[OF I(2) e(1)] p F(2) by (metis vpc.inject(2))
      then show "\<exists>q b w i c. (q \<noteq> p \<and> pcs q = VBusy b w i c) \<and> e \<in> vchain s' i" using old by blast
    qed
    show "queues_ok s' ?pcs" unfolding queues_ok_def busy q
    proof (intro conjI allI impI ballI; (elim conjE)?)
      show "distinct (avail_q s @ used_q s)" "taken s \<inter> set (avail_q s @ used_q s) = {}" using queues_okD(1,2)[OF I(3)] .
      fix x assume x: "x \<in> pending s \<union> set (used_q s)"
      then obtain q b w c where "pcs q = VBusy b w x c" using queues_okD(3)[OF I(3)] by blast
      moreover from this have "q \<noteq> p" using x gone p by auto
      ultimately show "\<exists>q b w c. q \<noteq> p \<and> pcs q = VBusy b w x c" by blast
    next
      fix q b' w' i' c' assume "pcs q = VBusy b' w' i' c'"
      then show "vdisk (vbufs s' b') \<longleftrightarrow> i' \<in> pending s \<union> set (used_q s)" using queues_okD(4)[OF I(3)] by (simp add: s')
    qed
    have pl: "on_platter s' b' = on_platter s b'" for b' by (rule on_platter_cong) (simp_all add: s')
    have wait: "?pcs q = VWait b' w' c' \<longleftrightarrow> q \<noteq> p \<and> pcs q = VWait b' w' c'" for q b' w' c' by auto
    have vd: "vdata (vbufs s' b') = vdata (vbufs s b')" for b' by (simp add: s')
    have un: "undelivered s' = undelivered s" by (rule undelivered_cong[OF q(3,1)]) (simp add: s')
    show "contents_ok s' ?pcs" using I(4) unfolding contents_ok_def pl vd busy wait un by blast
    have free: "asleep s' x \<noteq> Some FreeChan" for x by (simp add: s' wake_def)
    show "sleepers_ok s' ?pcs"
    proof (rule sleepers_okI)
      fix x assume "asleep s' x = Some FreeChan"
      with free show "(\<exists>b w c. ?pcs x = VWait b w c) \<and> few_free s'" by blast
    next
      fix x b' assume x: "asleep s' x = Some (BufChan b')"
      then have "wake FreeChan (asleep s) x = Some (BufChan b')" by (simp add: s')
      then have sx: "asleep s x = Some (BufChan b')" by (rule wake_le)
      then have "x \<noteq> p" using aw by auto
      moreover have "vbufs s' = vbufs s" by (simp add: s')
      ultimately show "(\<exists>w i c. ?pcs x = VBusy b' w i c) \<and> vdisk (vbufs s' b')"
        using sleepers_okD(2)[OF I(5) sx] by simp
    qed
  qed
qed

text \<open>
  The handler finds the process of the request at the head of the used ring.  It panics when the request
  failed; otherwise it takes the request off the ring and wakes the process.
\<close>

definition intr_done :: "nat \<Rightarrow> virtio \<Rightarrow> virtio" where
  "intr_done b s = s\<lparr>vbufs := (vbufs s)(b := (vbufs s b)\<lparr>vdisk := False\<rparr>), asleep := wake (BufChan b) (asleep s),
     used_idx := used_idx s + 1\<rparr>"

lemma intr_entry_ok:
  assumes inv: "virtio_inv cap (s, pcs)" and ne: "used_idx s \<noteq> used_head s"
  obtains p b w i c where "pcs p = VBusy b w i c" "used_q s = i # used_q (intr_done b s)"
    "intr_entry s = (if info_status s i \<noteq> 0 then None else Some (intr_done b s))"
proof -
  note I = virtio_invD[OF inv]
  define i where "i = unat (used_ring s (unat (used_idx s) mod NUM))"
  have u: "used_q s = i # used_q (intr_done b s)" for b
    using ring_get[of "used_head s" "used_idx s" NUM] ne by (simp add: used_q_def i_def intr_done_def)
  then have "i \<in> set (used_q s)" by (metis list.set_intros(1))
  then obtain p b w c where p: "pcs p = VBusy b w i c" using queues_okD(3)[OF I(3), of i] by blast
  obtain j k where "formatted s b w i j k" using chains_okD[OF I(2) p] by blast
  then have "info_b s i = Some b" by (simp add: formatted_def)
  then have "intr_entry s = (if info_status s i \<noteq> 0 then None else Some (intr_done b s))"
    by (simp add: intr_entry_def intr_done_def vwakeup_def Let_def flip: i_def)
  then show ?thesis using that p u by blast
qed

lemma intr_inv:
  assumes inv: "virtio_inv cap (s, pcs)" and ne: "used_idx s \<noteq> used_head s" and r: "intr_entry s = Some s'"
  shows "virtio_inv cap (s', pcs)"
proof -
  note I = virtio_invD[OF inv]
  obtain p b w i c where p: "pcs p = VBusy b w i c" and u: "used_q s = i # used_q (intr_done b s)"
    and e: "intr_entry s = (if info_status s i \<noteq> 0 then None else Some (intr_done b s))"
    using intr_entry_ok[OF inv ne] .
  from e r have s': "s' = intr_done b s" and st: "info_status s i = 0" by (simp_all split: if_splits)
  have q: "avail_q s' = avail_q s" "pending s' = pending s" "taken s' = taken s" "used_q s = i # used_q s'"
    unfolding u by (simp_all add: s' intr_done_def used_q_def avail_q_def pending_def)
  have f: "vblockno (vbufs s' x) = vblockno (vbufs s x)" "vdisk (vbufs s' x) \<longleftrightarrow> x \<noteq> b \<and> vdisk (vbufs s x)"
    "vdata (vbufs s' x) = vdata (vbufs s x)" "platter s' = platter s" "info_status s' = info_status s" for x
    by (simp_all add: s' intr_done_def)
  have un: "undelivered s' = undelivered s" using st by (auto simp: undelivered_def q(2,4) f)
  show ?thesis
  proof (rule virtio_invI)
    show "users_ok cap s' pcs" by (rule users_frame[OF I(1)]) (simp_all add: f)
    show "chains_ok s' pcs" by (rule chains_frame[OF I(2)]) (simp_all add: s' intr_done_def)
    show "queues_ok s' pcs" unfolding queues_ok_def q(1,2,3)
    proof (intro conjI allI impI ballI)
      show "distinct (avail_q s @ used_q s')" "taken s \<inter> set (avail_q s @ used_q s') = {}"
        using queues_okD(1,2)[OF I(3)] by (auto simp: q(4))
      fix x assume "x \<in> pending s \<union> set (used_q s')"
      then show "\<exists>p b w c. pcs p = VBusy b w x c" using queues_okD(3)[OF I(3), of x] by (simp add: q(4))
    next
      fix p' b' w' i' c' assume p': "pcs p' = VBusy b' w' i' c'"
      show "vdisk (vbufs s' b') \<longleftrightarrow> i' \<in> pending s \<union> set (used_q s')"
      proof (cases "p' = p")
        case True
        then have "b' = b" "i' = i" using p p' by auto
        moreover have "i \<notin> pending s \<union> set (used_q s')"
          using queues_okD(1,2)[OF I(3)] unfolding q(4) by (auto simp: pending_def)
        ultimately show ?thesis by (simp add: f)
      next
        case False
        have "b' \<noteq> b" using users_okD(1)[OF I(1), of p' b' p b] p p' False by simp
        moreover have "i' \<noteq> i" using chains_apart(2)[OF I(2) p' p False] .
        ultimately show ?thesis using queues_okD(4)[OF I(3) p'] by (simp add: f q(4))
      qed
    qed
    have "on_platter s' x = on_platter s x" for x by (rule on_platter_cong[OF f(4,1)])
    then show "contents_ok s' pcs" by (intro contents_frame[OF I(4) un]) (simp add: f)
    have aw: "asleep s' = wake (BufChan b) (asleep s)" by (simp add: s' intr_done_def)
    show "sleepers_ok s' pcs"
    proof (rule sleepers_frame[OF I(5)])
      show "dfree s' = dfree s" by (simp add: s' intr_done_def)
      show "asleep s x = Some ch" if "asleep s' x = Some ch" for x ch using that unfolding aw by (rule wake_le)
      show "vdisk (vbufs s' b')" if a: "asleep s' x = Some (BufChan b')" and v: "vdisk (vbufs s b')" for x b'
      proof -
        have "b' \<noteq> b" using a unfolding aw wake_def by (auto split: if_splits)
        then show ?thesis using v f(2) by blast
      qed
    qed simp
  qed
qed

section \<open>Steps of the device\<close>

lemma fetch_inv:
  assumes inv: "virtio_inv cap (s, pcs)" and f: "dev_fetch s s'"
  shows "virtio_inv cap (s', pcs)"
proof -
  note I = virtio_invD[OF inv]
  define i where "i = unat (avail_ring s (unat (seen_idx s) mod NUM))"
  have s': "s' = s\<lparr>taken := insert i (taken s), seen_idx := seen_idx s + 1\<rparr>" and ne: "seen_idx s \<noteq> avail_idx s"
    using f by (simp_all add: dev_fetch_def i_def)
  have a: "avail_q s = i # avail_q s'"
    using ring_get[of "avail_idx s" "seen_idx s" NUM "\<lambda>x. unat (avail_ring s x)"] ne by (simp add: avail_q_def s' i_def)
  have q: "used_q s' = used_q s" "pending s' = pending s" unfolding pending_def a by (auto simp: s' used_q_def)
  show ?thesis
  proof (rule virtio_invI)
    show "users_ok cap s' pcs" by (rule users_frame[OF I(1)]) (simp_all add: s')
    show "chains_ok s' pcs" by (rule chains_frame[OF I(2)]) (simp_all add: s')
    have "distinct (avail_q s' @ used_q s')" "taken s' \<inter> set (avail_q s' @ used_q s') = {}"
      using queues_okD(1,2)[OF I(3)] unfolding a q(1) by (auto simp: s')
    moreover have "vbufs s' = vbufs s" by (simp add: s')
    ultimately show "queues_ok s' pcs" using I(3) unfolding queues_ok_def q by simp
    have "undelivered s' = undelivered s" by (rule undelivered_cong[OF q(2,1)]) (simp add: s')
    then show "contents_ok s' pcs" by (rule contents_frame[OF I(4)]) (simp add: s' on_platter_def block_at_def)
    show "sleepers_ok s' pcs" by (rule sleepers_frame[OF I(5)]) (simp_all add: s')
  qed
qed

text \<open>The device reads the request the way the driver wrote it.\<close>

lemma dev_done_formatted:
  assumes F: "formatted s b w i j k" and cap: "block_at s b + BSIZE \<le> cap" "cap \<le> 2 ^ 41"
  shows "chain_ok cap s i" "dev_done i st junk s = (transfer b (block_at s b) BSIZE w (st = 0) junk s)
    \<lparr>info_status := (info_status s)(i := st), used_ring := (used_ring s)(unat (used_head s) mod NUM := of_nat i), used_head := used_head s + 1, taken := taken s - {i}\<rparr>"
proof -
  let ?n = "vblockno (vbufs s b)"
  have "unat ?n * 2 < 2 ^ 32" using cap by (simp add: block_at_def)
  then have "unat (?n * 2) = unat ?n * 2" by (simp add: unat_word_ariths)
  moreover have "unat (ucast (?n * 2) :: u64) = unat (?n * 2)" by (rule unat_up)
  ultimately have base: "unat (ucast (?n * 2) :: u64) * 512 = block_at s b" by (simp add: block_at_def)
  have n: "unat (of_nat x :: u16) = x" if "x < NUM" for x using that by (simp add: unat_of_nat)
  have r: "(VIRTIO_BLK_T_OUT :: u32) \<noteq> VIRTIO_BLK_T_IN" by simp
  show "chain_ok cap s i" using F cap(1) base n by (auto simp: formatted_def chain_ok_def Let_def or.commute)
  show "dev_done i st junk s = (transfer b (block_at s b) BSIZE w (st = 0) junk s)
    \<lparr>info_status := (info_status s)(i := st), used_ring := (used_ring s)(unat (used_head s) mod NUM := of_nat i), used_head := used_head s + 1, taken := taken s - {i}\<rparr>"
    using F base n by (simp add: formatted_def dev_done_def Let_def)
qed

lemma blocks_apart:
  assumes "vblockno (vbufs s b) \<noteq> vblockno (vbufs s b')" and "k < BSIZE"
  shows "\<not> (block_at s b \<le> block_at s b' + k \<and> block_at s b' + k < block_at s b + BSIZE)"
proof
  assume "block_at s b \<le> block_at s b' + k \<and> block_at s b' + k < block_at s b + BSIZE"
  moreover have "unat (vblockno (vbufs s b)) \<noteq> unat (vblockno (vbufs s b'))" using assms(1) by (simp add: word_unat_eq_iff)
  ultimately show False using assms(2) unfolding block_at_def by simp
qed

lemma done_inv:
  assumes inv: "virtio_inv cap (s, pcs)" and cap: "cap \<le> 2 ^ 41" and i: "i \<in> taken s"
    and "chain_ok cap s i \<longrightarrow> (\<exists>st junk. s' = dev_done i st junk s)"
  shows "virtio_inv cap (s', pcs)"
proof -
  note I = virtio_invD[OF inv]
  have pi: "i \<in> pending s" using i by (simp add: pending_def)
  then obtain p b w c where p: "pcs p = VBusy b w i c" using queues_okD(3)[OF I(3), of i] by blast
  have bc: "block_at s b + BSIZE \<le> cap" using users_okD(2)[OF I(1), of p b] p by simp
  obtain j k where F: "formatted s b w i j k" using chains_okD[OF I(2) p] by blast
  obtain st junk where sd: "s' = dev_done i st junk s" using dev_done_formatted(1)[OF F bc cap] assms(4) by blast
  define t where "t = transfer b (block_at s b) BSIZE w (st = 0) junk s"
  have s': "s' = t\<lparr>info_status := (info_status s)(i := st), used_ring := (used_ring s)(unat (used_head s) mod NUM := of_nat i),
      used_head := used_head s + 1, taken := taken s - {i}\<rparr>"
    using dev_done_formatted(2)[OF F bc cap] by (simp add: t_def sd)
  have f: "dfree s' = dfree s" "ops s' = ops s" "info_b s' = info_b s" "desc s' = desc s" "avail_q s' = avail_q s"
    "taken s' = taken s - {i}" "info_status s' = (info_status s)(i := st)" "asleep s' = asleep s"
    "vblockno (vbufs s' b') = vblockno (vbufs s b')" "vdisk (vbufs s' b') = vdisk (vbufs s b')" for b'
    unfolding s' by (simp_all add: t_def transfer_def avail_q_def)
  have iN: "i < NUM" using F by (simp add: formatted_def)
  have iu: "i \<notin> set (used_q s)" "i \<notin> set (avail_q s)" using queues_okD(2)[OF I(3)] i by auto
  have few: "length (used_q s) < NUM"
    by (rule heads_few[OF I(2) _ _ iN iu(1)]) (use queues_okD(1,3)[OF I(3)] in auto)
  have u: "used_q s' = used_q s @ [i]"
  proof -
    have "unat (of_nat i :: u32) = i" using iN by (intro unat_of_nat_u32) simp
    then have "(\<lambda>x. unat (used_ring s' x)) = (\<lambda>x. unat (used_ring s x))(unat (used_head s) mod NUM := i)"
      by (auto simp: s')
    moreover have "used_idx s' = used_idx s" "used_head s' = used_head s + 1" by (simp_all add: s' t_def transfer_def)
    ultimately show ?thesis using ring_put[of NUM "used_head s" "used_idx s" "\<lambda>x. unat (used_ring s x)" i] few
      by (simp add: used_q_def length_ring)
  qed
  have pe: "pending s' = pending s - {i}" using iu(2) by (auto simp: pending_def f)
  have all: "pending s' \<union> set (used_q s') = pending s \<union> set (used_q s)" using pi by (auto simp: pe u)
  show ?thesis
  proof (rule virtio_invI)
    show "users_ok cap s' pcs" by (rule users_frame[OF I(1)]) (simp_all add: f)
    show "chains_ok s' pcs" by (rule chains_frame[OF I(2)]) (simp_all add: f)
    have "distinct (avail_q s' @ used_q s')" "taken s' \<inter> set (avail_q s' @ used_q s') = {}"
      using queues_okD(1,2)[OF I(3)] iu by (auto simp: f u)
    then show "queues_ok s' pcs" using I(3) unfolding queues_ok_def all f(10) by blast
    show "sleepers_ok s' pcs" by (rule sleepers_frame[OF I(5)]) (simp_all add: f)
    have un: "undelivered s' = undelivered s - {i} \<union> (if st = 0 then {} else {i})"
      using iu by (auto simp: undelivered_def pe u f)
    have others: "vdata (vbufs s' b') = vdata (vbufs s b') \<and> same_block (on_platter s' b') (on_platter s b')"
      if q: "vpc_buf (pcs q) = Some b'" "q \<noteq> p" for q b'
    proof -
      have ne: "b' \<noteq> b" "vblockno (vbufs s b) \<noteq> vblockno (vbufs s b')"
        using users_okD(1)[OF I(1), of p b q b'] p q by auto
      have "vdata (vbufs s' b') = vdata (vbufs s b')" using ne(1) by (simp add: s' t_def transfer_def)
      moreover have "platter s' (block_at s b' + x) = platter s (block_at s b' + x)" if "x < BSIZE" for x
        using blocks_apart[OF ne(2) that] by (auto simp: s' t_def transfer_def)
      ultimately show ?thesis by (simp add: same_block_def on_platter_def block_cong[OF f(9)])
    qed
    have mine: "w \<or> st = 0 \<longrightarrow> same_block (vdata (vbufs s' b)) c" "\<not> w \<or> st = 0 \<longrightarrow> same_block (on_platter s' b) c"
    proof -
      have "same_block (if w then vdata (vbufs s b) else on_platter s b) c"
        using contents_okD(2,3)[OF I(4) p] by auto
      moreover have "w \<or> st = 0 \<Longrightarrow> vdata (vbufs s' b) k = (if w \<or> BSIZE \<le> k then vdata (vbufs s b) k else on_platter s b k)"
        "\<not> w \<or> st = 0 \<Longrightarrow> on_platter s' b k = (if w \<and> k < BSIZE then vdata (vbufs s b) k else on_platter s b k)" for k
        unfolding on_platter_def block_cong[OF f(9)] by (auto simp: s' t_def transfer_def)
      ultimately show "w \<or> st = 0 \<longrightarrow> same_block (vdata (vbufs s' b)) c" "\<not> w \<or> st = 0 \<longrightarrow> same_block (on_platter s' b) c"
        by (simp_all add: same_block_def split: if_splits)
    qed
    have tr: "same_block m1 m2 \<Longrightarrow> same_block m2 m3 \<Longrightarrow> same_block m1 m3" for m1 m2 m3 by (simp add: same_block_def)
    show "contents_ok s' pcs" unfolding contents_ok_def
    proof (intro conjI allI impI)
      fix q b' w' c' assume q: "pcs q = VWait b' w' c'"
      then have "q \<noteq> p" using p by auto
      then have o: "vdata (vbufs s' b') = vdata (vbufs s b')" "same_block (on_platter s' b') (on_platter s b')"
        using others[of q b'] q by simp_all
      note c = contents_okD(1)[OF I(4) q]
      show "same_block (if w' then vdata (vbufs s' b') else on_platter s' b') c'"
      proof (cases w')
        case False
        then show ?thesis using tr[OF o(2), of c'] c by simp
      qed (use c o(1) in simp)
    next
      fix q b' w' i' c' assume q: "pcs q = VBusy b' w' i' c'"
      have *: "(w' \<or> i' \<notin> undelivered s' \<longrightarrow> same_block (vdata (vbufs s' b')) c')
        \<and> (\<not> w' \<or> i' \<notin> undelivered s' \<longrightarrow> same_block (on_platter s' b') c')"
      proof (cases "q = p")
        case True
        then have "b' = b" "w' = w" "i' = i" "c' = c" using q p by simp_all
        then show ?thesis using mine by (simp add: un)
      next
        case False
        have "i' \<noteq> i" using chains_apart(2)[OF I(2) q p False] .
        then have "i' \<in> undelivered s' \<longleftrightarrow> i' \<in> undelivered s" by (simp add: un)
        then show ?thesis using others[of q b'] q False contents_okD(2,3)[OF I(4) q] tr by auto
      qed
      then show "w' \<or> i' \<notin> undelivered s' \<Longrightarrow> same_block (vdata (vbufs s' b')) c'"
        "\<not> w' \<or> i' \<notin> undelivered s' \<Longrightarrow> same_block (on_platter s' b') c'"
        by blast+
    qed
  qed
qed

section \<open>Every run\<close>

lemma virtio_step_inv:
  assumes "virtio_step cap dev x y" and dev: "device_ok cap dev" "cap \<le> 2 ^ 41" and "virtio_inv cap x"
  shows "virtio_inv cap y"
  using assms(1,4)
proof (cases rule: virtio_step.cases)
  case (fill pcs b s n m)
  then show ?thesis using fill_inv assms(4) by simp
next
  case (call pcs p s b w)
  then show ?thesis using call_inv assms(4) by simp
next
  case (retry pcs p b w c s s')
  then show ?thesis using retry_inv assms(4) by simp
next
  case (submit pcs p b w c s i s')
  then show ?thesis using submit_inv assms(4) by simp
next
  case (again pcs p b w i c s)
  then show ?thesis using sleep_inv[of cap s pcs p "BufChan b"] assms(4) by simp
next
  case (finish pcs p b w i c s s')
  then show ?thesis using finish_inv assms(4) by simp
next
  case (kill s pcs p)
  then show ?thesis using kill_inv assms(4) by simp
next
  case (interrupt s s' pcs)
  then show ?thesis using intr_inv assms(4) by simp
next
  case (device s s' pcs)
  then have "dev_fetch s s' \<or> (\<exists>i \<in> taken s. chain_ok cap s i \<longrightarrow> (\<exists>status junk. s' = dev_done i status junk s))"
    using dev(1) by (simp add: device_ok_def)
  then show ?thesis using fetch_inv done_inv[OF _ dev(2)] device assms(4) by blast
qed

text \<open>
  A run: the kernel's memory is zero, no process sleeps and the device has just been reset when
  \<open>virtio_disk_init\<close> is called, then any steps.
\<close>

inductive virtio_run :: "nat \<Rightarrow> (virtio \<Rightarrow> virtio \<Rightarrow> bool) \<Rightarrow> virtio \<times> (nat \<Rightarrow> vpc) \<Rightarrow> bool" for cap dev where
  start: "virtio_disk_init reg pages z = Some (regs, s) \<Longrightarrow> used_idx z = 0 \<Longrightarrow> seen_idx z = 0 \<Longrightarrow> taken z = {}
    \<Longrightarrow> asleep z = (\<lambda>_. None)
    \<Longrightarrow> virtio_run cap dev (s, \<lambda>_. VIdle)"
| step: "virtio_run cap dev x \<Longrightarrow> virtio_step cap dev x y \<Longrightarrow> virtio_run cap dev y"

lemma virtio_run_inv:
  assumes "virtio_run cap dev x" and "device_ok cap dev" "cap \<le> 2 ^ 41"
  shows "virtio_inv cap x"
  using assms(1)
proof induction
  case (start reg pages z regs s)
  then have "seen_idx s = avail_idx s" "used_idx s = used_head s" "taken s = {}" "\<And>i. i < NUM \<Longrightarrow> dfree s i"
    by (auto simp: virtio_disk_init_def split: if_splits)
  then have "avail_q s = []" "used_q s = []" "pending s = {}" "\<And>i. i < NUM \<Longrightarrow> dfree s i" "taken s = {}"
    by (simp_all add: avail_q_def used_q_def pending_def ring_empty)
  moreover have "asleep s = (\<lambda>_. None)" using start by (auto simp: virtio_disk_init_def split: if_splits)
  ultimately show ?case
    by (intro virtio_invI) (simp_all add: users_ok_def chains_ok_def queues_ok_def contents_ok_def sleepers_ok_def)
next
  case (step x y)
  then show ?case using virtio_step_inv assms(2,3) by blast
qed

section \<open>The handler\<close>

lemma intr_done_frame: "info_status (intr_done b s) = info_status s" "pending (intr_done b s) = pending s"
  by (simp_all add: intr_done_def pending_def avail_q_def)

lemma intr_start: "used_q s = [] \<longleftrightarrow> used_idx s = used_head s"
  by (auto simp: used_q_def ring_empty)

text \<open>The handler's loop ends, with the used ring empty, when no request failed.\<close>

lemma virtio_disk_intr_ok:
  assumes "virtio_inv cap (s, pcs)" and "\<forall>i \<in> set (used_q s). info_status s i = 0"
  shows "\<exists>s'. virtio_disk_intr s = Some s' \<and> virtio_inv cap (s', pcs) \<and> used_q s' = [] \<and> pending s' = pending s"
  using assms
proof (induction "length (used_q s)" arbitrary: s)
  case 0
  then have "used_q s = []" by simp
  moreover from this have "used_idx s = used_head s" by (simp add: intr_start)
  ultimately show ?case using 0(2) by (subst virtio_disk_intr.simps) auto
next
  case (Suc n)
  then have ne: "used_idx s \<noteq> used_head s" by (auto simp flip: intr_start)
  obtain p b w i c where u: "used_q s = i # used_q (intr_done b s)"
    and "intr_entry s = (if info_status s i \<noteq> 0 then None else Some (intr_done b s))"
    using intr_entry_ok[OF Suc.prems(1) ne] .
  then have e: "intr_entry s = Some (intr_done b s)" using Suc.prems(2) by simp
  have "n = length (used_q (intr_done b s))" using Suc.hyps(2) u by simp
  moreover have "virtio_inv cap (intr_done b s, pcs)" using intr_inv[OF Suc.prems(1) ne e] .
  moreover have "\<forall>j \<in> set (used_q (intr_done b s)). info_status (intr_done b s) j = 0"
    using Suc.prems(2) unfolding u intr_done_frame by simp
  ultimately obtain s' where "virtio_disk_intr (intr_done b s) = Some s' \<and> virtio_inv cap (s', pcs) \<and> used_q s' = []
      \<and> pending s' = pending (intr_done b s)"
    using Suc.hyps(1) by blast
  moreover have "virtio_disk_intr s = virtio_disk_intr (intr_done b s)"
    using ne e by (subst virtio_disk_intr.simps) simp
  ultimately show ?case by (auto simp: intr_done_frame)
qed

text \<open>Otherwise it comes to a failed request, and panics there.\<close>

definition intr_round :: "virtio \<Rightarrow> virtio \<Rightarrow> bool" where
  "intr_round s s' \<longleftrightarrow> used_idx s \<noteq> used_head s \<and> intr_entry s = Some s'"

lemma virtio_disk_intr_fails:
  assumes "virtio_inv cap (s, pcs)" and "\<exists>i \<in> set (used_q s). info_status s i \<noteq> 0"
  shows "\<exists>s1. intr_round\<^sup>*\<^sup>* s s1 \<and> used_idx s1 \<noteq> used_head s1 \<and> intr_entry s1 = None"
  using assms
proof (induction "length (used_q s)" arbitrary: s)
  case (Suc n)
  then have ne: "used_idx s \<noteq> used_head s" by (auto simp flip: intr_start)
  obtain p b w i c where u: "used_q s = i # used_q (intr_done b s)"
    and e: "intr_entry s = (if info_status s i \<noteq> 0 then None else Some (intr_done b s))"
    using intr_entry_ok[OF Suc.prems(1) ne] .
  show ?case
  proof (cases "info_status s i = 0")
    case False
    then show ?thesis using e ne by auto
  next
    case True
    then have e: "intr_entry s = Some (intr_done b s)" using e by simp
    have "n = length (used_q (intr_done b s))" using Suc.hyps(2) u by simp
    moreover have "virtio_inv cap (intr_done b s, pcs)" using intr_inv[OF Suc.prems(1) ne e] .
    moreover have "\<exists>j \<in> set (used_q (intr_done b s)). info_status (intr_done b s) j \<noteq> 0"
      using Suc.prems(2) True unfolding u intr_done_frame by auto
    ultimately obtain s1 where "intr_round\<^sup>*\<^sup>* (intr_done b s) s1" "used_idx s1 \<noteq> used_head s1" "intr_entry s1 = None"
      using Suc.hyps(1) by blast
    moreover have "intr_round s (intr_done b s)" using ne e by (simp add: intr_round_def)
    ultimately show ?thesis by (meson converse_rtranclp_into_rtranclp)
  qed
qed simp

text \<open>A finished call gives back three descriptors and wakes who waits for them.\<close>

lemma rw_finish_ok:
  assumes "chains_ok s pcs" and "pcs p = VBusy b w i c"
  obtains s' where "rw_finish i s = Some s'" "\<not> few_free s'" "\<And>p. asleep s' p = (if asleep s p = Some FreeChan then None else asleep s p)"
proof -
  obtain j k where F: "formatted s b w i j k" using chains_okD[OF assms] .
  from free_chain_formatted[OF F, of "(info_b s)(i := None)"] obtain s' where s': "rw_finish i s = Some s'"
    "dfree s' = (dfree s)(i := True, j := True, k := True)" "asleep s' = wake FreeChan (asleep s)"
    by (simp add: rw_finish_def)
  have "card {i, j, k} \<le> card {d. d < NUM \<and> dfree s' d}"
    using F by (intro card_mono) (auto simp: s'(2) formatted_def)
  moreover have "card {i, j, k} = 3" using F by (simp add: formatted_def)
  ultimately show ?thesis using that[of s'] s' by (simp add: few_free_def wake_def)
qed

lemma rw_begin_ok:
  assumes "\<not> few_free s"
  shows "\<exists>i s'. rw_begin b w s = Some (Some i, s')"
  by (cases s rule: alloc3_cases) (use assms in \<open>auto simp: rw_begin_def\<close>)

text \<open>With few descriptors free there is a call that holds some.\<close>

lemma few_free_busy:
  assumes "chains_ok s pcs" and "few_free s"
  shows "\<exists>p b w i c. pcs p = VBusy b w i c"
proof -
  have "{d. d < NUM \<and> dfree s d} \<noteq> {..<NUM}"
  proof
    assume "{d. d < NUM \<and> dfree s d} = {..<NUM}"
    then show False using assms(2) by (simp add: few_free_def)
  qed
  then obtain d where "d < NUM" "\<not> dfree s d" by auto
  from chains_cover[OF assms(1) this] show ?thesis by blast
qed

text \<open>A write of block 1, up to the device's completion.\<close>

definition demo_start :: virtio where
  "demo_start = \<lparr>desc = (\<lambda>_. \<lparr>daddr = DNull, dlen = 0, dflags = 0, dnext = 0\<rparr>), avail_ring = (\<lambda>_. 0), avail_idx = 0,
     used_ring = (\<lambda>_. 0), used_head = 0, dfree = (\<lambda>i. i < NUM), used_idx = 0, info_b = (\<lambda>_. None), info_status = (\<lambda>_. 0),
     ops = (\<lambda>_. \<lparr>rtype = 0, reserved = 0, rsector = 0\<rparr>), vbufs = (\<lambda>_. \<lparr>vblockno = 1, vdata = (\<lambda>_. 7), vdisk = False\<rparr>),
     asleep = (\<lambda>_. None), platter = (\<lambda>_. 0), seen_idx = 0, taken = {}\<rparr>"

definition demo_dev :: "virtio \<Rightarrow> virtio \<Rightarrow> bool" where
  "demo_dev s s' \<longleftrightarrow> dev_fetch s s' \<or> (\<exists>i \<in> taken s. \<exists>status junk. s' = dev_done i status junk s)"

definition demo_sent :: virtio where
  "demo_sent = vsleep 3 (BufChan 0)
     (rw_submit 0 True 0 1 2 (demo_start\<lparr>dfree := (dfree demo_start)(0 := False, 1 := False, 2 := False)\<rparr>))"

definition demo_done :: "byte \<Rightarrow> virtio" where
  "demo_done status = dev_done 0 status (\<lambda>_. 9) (demo_sent\<lparr>taken := {0}, seen_idx := 1\<rparr>)"

abbreviation (input) demo_pcs :: "nat \<Rightarrow> vpc" where
  "demo_pcs \<equiv> (\<lambda>_. VIdle)(3 := VBusy 0 True 0 (\<lambda>_. 7))"

lemma demo_dev_ok: "device_ok cap demo_dev"
  by (auto simp: device_ok_def demo_dev_def)

lemma init_state:
  assumes "reg 0 = 0x74726976" "reg 4 = 1" "reg 8 = 2" "reg 12 = 0x554d4551" "reg 52 = 8"
  shows "\<exists>regs. virtio_disk_init reg pages s = Some (regs, s\<lparr>desc := (\<lambda>_. \<lparr>daddr = DNull, dlen = 0, dflags = 0, dnext = 0\<rparr>),
    avail_ring := (\<lambda>_. 0), avail_idx := 0, used_ring := (\<lambda>_. 0), used_head := 0, dfree := (\<lambda>i. i < NUM \<or> dfree s i)\<rparr>)"
  using assms by (simp add: virtio_disk_init_def)

lemma demo_run: "virtio_run 4096 demo_dev (demo_done st, demo_pcs)"
proof -
  obtain regs where "virtio_disk_init (\<lambda>a. if a = 0 then 0x74726976 else if a = 4 then 1 else if a = 8 then 2
      else if a = 12 then 0x554d4551 else 8) 0 demo_start = Some (regs, demo_start)"
    using init_state[of "\<lambda>a. if a = 0 then 0x74726976 else if a = 4 then 1 else if a = 8 then 2
      else if a = 12 then 0x554d4551 else 8" 0 demo_start] by (auto simp: demo_start_def)
  then have r0: "virtio_run 4096 demo_dev (demo_start, \<lambda>_. VIdle)"
    by (rule virtio_run.start) (simp_all add: demo_start_def)
  let ?s2 = "demo_sent\<lparr>taken := {0}, seen_idx := 1\<rparr>"
  have "virtio_step 4096 demo_dev (demo_start, \<lambda>_. VIdle)
      (demo_start, (\<lambda>_. VIdle)(3 := VWait 0 True (if True then vdata (vbufs demo_start 0) else on_platter demo_start 0)))"
    by (rule virtio_step.call) (simp_all add: demo_start_def block_at_def)
  then have "virtio_step 4096 demo_dev (demo_start, \<lambda>_. VIdle) (demo_start, (\<lambda>_. VIdle)(3 := VWait 0 True (\<lambda>_. 7)))"
    by (simp add: demo_start_def)
  with r0 have r1: "virtio_run 4096 demo_dev (demo_start, (\<lambda>_. VIdle)(3 := VWait 0 True (\<lambda>_. 7)))"
    by (rule virtio_run.step)
  have u: "[0..<8] = [0, 1, 2, 3, 4, 5, 6, 7 :: nat]" by (simp add: upt_conv_Cons)
  have "rw_begin 0 True demo_start
      = Some (Some 0, rw_submit 0 True 0 1 2 (demo_start\<lparr>dfree := (dfree demo_start)(0 := False, 1 := False, 2 := False)\<rparr>))"
    by (simp add: rw_begin_def alloc3_desc_def numeral_3_eq_3 alloc_desc_def demo_start_def u)
  moreover have "asleep demo_start 3 = None" by (simp add: demo_start_def)
  ultimately have "virtio_step 4096 demo_dev (demo_start, (\<lambda>_. VIdle)(3 := VWait 0 True (\<lambda>_. 7)))
      (demo_sent, (\<lambda>_. VIdle)(3 := VWait 0 True (\<lambda>_. 7), 3 := VBusy 0 True 0 (\<lambda>_. 7)))"
    unfolding demo_sent_def by (intro virtio_step.submit) simp_all
  with r1 have r2: "virtio_run 4096 demo_dev (demo_sent, demo_pcs)" by (intro virtio_run.step[OF r1]) simp
  have "dev_fetch demo_sent ?s2" by (simp add: dev_fetch_def demo_sent_def vsleep_def rw_submit_def demo_start_def)
  then have "virtio_step 4096 demo_dev (demo_sent, demo_pcs) (?s2, demo_pcs)"
    by (intro virtio_step.device) (simp add: demo_dev_def)
  with r2 have r3: "virtio_run 4096 demo_dev (?s2, demo_pcs)" by (rule virtio_run.step)
  have "demo_dev ?s2 (demo_done st)" unfolding demo_dev_def demo_done_def by auto
  then have "virtio_step 4096 demo_dev (?s2, demo_pcs) (demo_done st, demo_pcs)" by (rule virtio_step.device)
  with r3 show ?thesis by (rule virtio_run.step)
qed

lemma demo_done_facts: "used_idx (demo_done st) = 0" "used_head (demo_done st) = 1" "used_ring (demo_done st) 0 = 0"
  "info_status (demo_done st) 0 = st" "info_b (demo_done st) 0 = Some 0" "asleep (demo_done st) 3 = Some (BufChan 0)"
  "seen_idx (demo_done st) = avail_idx (demo_done st)" "taken (demo_done st) = {}" "vdisk (vbufs (demo_done st) 0)"
  by (simp_all add: demo_done_def demo_sent_def vsleep_def rw_submit_def dev_done_def transfer_def demo_start_def Let_def)

text \<open>
  C34: When the driver says that a request is done, the buffer and the disk's block both hold what the call
  was to transfer, whatever other calls, interrupts and completions came in between and in whatever order the device
  served them; the call then gives its three descriptors back without a panic.
\<close>

theorem virtio_transfer:
  assumes "device_ok cap dev" and "cap \<le> 2 ^ 41" and "virtio_run cap dev (s, pcs)"
    and "pcs p = VBusy b w i c" and "\<not> vdisk (vbufs s b)"
  shows "(\<forall>k < BSIZE. vdata (vbufs s b) k = c k \<and> platter s (block_at s b + k) = c k) \<and> rw_finish i s \<noteq> None"
proof -
  note I = virtio_invD[OF virtio_run_inv[OF assms(3,1,2)]]
  have "i \<notin> undelivered s" using queues_okD(4)[OF I(3) assms(4)] assms(5) by (simp add: undelivered_def)
  moreover obtain j k where "formatted s b w i j k" using chains_okD[OF I(2) assms(4)] .
  ultimately show ?thesis using contents_okD(2,3)[OF I(4) assms(4)] free_chain_formatted
    by (simp add: same_block_def on_platter_def rw_finish_def)
qed

text \<open>
  C35: A request is never lost.  Once the device has nothing left to do, and if no request failed, one call
  of the interrupt handler returns; every process that waits for its request is awake, finds it done,
  and gives its descriptors back without a panic.  Who still sleeps waits for descriptors; then there is
  such a process, and when it gives its descriptors back no process sleeps any more and the next to run
  gets three.  If a request failed, the handler comes to it and panics.
\<close>

theorem virtio_completes:
  assumes "device_ok cap dev" and "cap \<le> 2 ^ 41" and "virtio_run cap dev (s, pcs)"
    and "seen_idx s = avail_idx s" and "taken s = {}"
  shows "if \<forall>i \<in> set (used_q s). info_status s i = 0
    then \<exists>s'. virtio_disk_intr s = Some s'
      \<and> (\<forall>p b w i c. pcs p = VBusy b w i c \<longrightarrow> \<not> vdisk (vbufs s' b) \<and> asleep s' p = None \<and> rw_finish i s' \<noteq> None)
      \<and> (\<forall>p ch. asleep s' p = Some ch \<longrightarrow> ch = FreeChan \<and> (\<exists>b w c. pcs p = VWait b w c)
          \<and> (\<exists>q b w i c s''. pcs q = VBusy b w i c \<and> rw_finish i s' = Some s'' \<and> asleep s'' = (\<lambda>_. None)
               \<and> (\<forall>b w. \<exists>i t. rw_begin b w s'' = Some (Some i, t))))
    else \<exists>s1. intr_round\<^sup>*\<^sup>* s s1 \<and> used_idx s1 \<noteq> used_head s1 \<and> intr_entry s1 = None"
proof (cases "\<forall>i \<in> set (used_q s). info_status s i = 0")
  case True
  have inv: "virtio_inv cap (s, pcs)" by (rule virtio_run_inv[OF assms(3,1,2)])
  obtain s' where s': "virtio_disk_intr s = Some s'" "virtio_inv cap (s', pcs)" "used_q s' = []" "pending s' = pending s"
    using virtio_disk_intr_ok[OF inv True] by blast
  note I = virtio_invD[OF s'(2)]
  have "pending s = {}" using assms(4,5) by (simp add: pending_def avail_q_def ring_empty)
  then have over: "\<not> vdisk (vbufs s' b)" if "pcs p = VBusy b w i c" for p b w i c
    using queues_okD(4)[OF I(3) that] s'(3,4) by simp
  then have none: "asleep s' p \<noteq> Some (BufChan b)" for p b using sleepers_okD(2)[OF I(5)] by blast
  have 1: "\<not> vdisk (vbufs s' b) \<and> asleep s' p = None \<and> rw_finish i s' \<noteq> None" if p: "pcs p = VBusy b w i c" for p b w i c
  proof -
    have "asleep s' p \<noteq> Some FreeChan" using sleepers_okD(1)[OF I(5), of p] p by auto
    then have "asleep s' p = None" using none by (metis option.exhaust vchan.exhaust)
    moreover obtain t where "rw_finish i s' = Some t" using rw_finish_ok[OF I(2) p] .
    ultimately show ?thesis using over[OF p] by simp
  qed
  have 2: "ch = FreeChan \<and> (\<exists>b w c. pcs p = VWait b w c)
      \<and> (\<exists>q b w i c s''. pcs q = VBusy b w i c \<and> rw_finish i s' = Some s'' \<and> asleep s'' = (\<lambda>_. None)
           \<and> (\<forall>b w. \<exists>i t. rw_begin b w s'' = Some (Some i, t)))" if ch: "asleep s' p = Some ch" for p ch
  proof -
    have F: "ch = FreeChan" using ch none by (cases ch) auto
    with sleepers_okD(1)[OF I(5)] ch have W: "\<exists>b w c. pcs p = VWait b w c" "few_free s'" by blast+
    obtain q b w i c where q: "pcs q = VBusy b w i c" using few_free_busy[OF I(2) W(2)] by blast
    obtain s'' where t: "rw_finish i s' = Some s''" "\<not> few_free s''"
      "\<And>p. asleep s'' p = (if asleep s' p = Some FreeChan then None else asleep s' p)"
      using rw_finish_ok[OF I(2) q] by blast
    have "asleep s'' = (\<lambda>_. None)"
      using none by (intro ext) (simp add: t(3), metis option.exhaust vchan.exhaust)
    then show ?thesis using F W(1) q t(1) rw_begin_ok[OF t(2)] by blast
  qed
  show ?thesis unfolding if_P[OF True] using s'(1) 1 2 by blast
next
  case False
  then show ?thesis using virtio_disk_intr_fails[OF virtio_run_inv[OF assms(3,1,2)]] by auto
qed

theorem virtio_completes_witness:
  "(\<exists>s'. virtio_disk_intr (demo_done 0) = Some s' \<and> \<not> vdisk (vbufs s' 0) \<and> asleep s' 3 = None \<and> rw_finish 0 s' \<noteq> None)
   \<and> (\<exists>s1. intr_round\<^sup>*\<^sup>* (demo_done 1) s1 \<and> intr_entry s1 = None)"
proof -
  note f = demo_done_facts
  have q: "used_q (demo_done st) = [0]" for st by (simp add: used_q_def ring_def f)
  have c: "(4096 :: nat) \<le> 2 ^ 41" by simp
  obtain s' where s': "virtio_disk_intr (demo_done 0) = Some s'"
    "\<forall>p b w i c. demo_pcs p = VBusy b w i c \<longrightarrow> \<not> vdisk (vbufs s' b) \<and> asleep s' p = None \<and> rw_finish i s' \<noteq> None"
    using virtio_completes[OF demo_dev_ok c demo_run f(7,8), of 0] unfolding q by (auto simp: f(4) simp del: fun_upd_apply)
  have "demo_pcs 3 = VBusy 0 True 0 (\<lambda>_. 7)" by simp
  moreover have "\<exists>s1. intr_round\<^sup>*\<^sup>* (demo_done 1) s1 \<and> intr_entry s1 = None"
    using virtio_completes[OF demo_dev_ok c demo_run f(7,8), of 1] by (auto simp: q f(4))
  ultimately show ?thesis using s' by blast
qed

theorem virtio_transfer_witness:
  "\<exists>s'. virtio_run 4096 demo_dev (s', demo_pcs) \<and> (\<forall>k < BSIZE. platter s' (block_at s' 0 + k) = 7)"
proof -
  note c = demo_done_facts[of 0]
  have "intr_entry (demo_done 0) = Some (intr_done 0 (demo_done 0))"
    by (simp add: intr_entry_def intr_done_def vwakeup_def c)
  then have r: "virtio_run 4096 demo_dev (intr_done 0 (demo_done 0), demo_pcs)"
    by (intro virtio_run.step[OF demo_run[of 0]] virtio_step.interrupt) (simp_all add: c)
  moreover have "\<not> vdisk (vbufs (intr_done 0 (demo_done 0)) 0)" by (simp add: intr_done_def)
  ultimately show ?thesis using virtio_transfer[OF demo_dev_ok _ r, of 3 0 True 0 "\<lambda>_. 7"] by auto
qed

end
