(* ===== verification/Mkfs.thy ===== *)
theory Mkfs imports FsDir begin

text \<open>
  The image builder, \<open>tools/mkfs.c\<close>, as the build runs it on the host: it makes the file system the kernel
  boots from, out of the files named on its command line.

  The image is a file of blocks.  \<open>None\<close> is an exit with an error, from an assertion, from a read behind the
  end of the image (which is how the disk runs out of blocks) or from the check of the free space; the host's own files
  are taken to open and to be readable.  A \<open>dinode\<close> is its 256 bytes, and \<open>xshort\<close> and \<open>xint\<close> are the
  little-endian stores \<open>wr16\<close> and \<open>wr32\<close>.  Block and inode numbers stay below the size of the image,
  so they are \<open>nat\<close>s.
\<close>

section \<open>State\<close>

record mkimg =
  img :: "nat \<Rightarrow> mem"
  nsect :: nat  \<comment> \<open>blocks written so far\<close>
  freeinode :: nat
  freeblock :: nat

abbreviation (input) NINODES :: nat where "NINODES \<equiv> 200"
abbreviation (input) nbitmap :: nat where "nbitmap \<equiv> FSSIZE div (BSIZE * 8) + 1"
abbreviation (input) ninodeblocks :: nat where "ninodeblocks \<equiv> NINODES div IPB + 1"
abbreviation (input) nlog :: nat where "nlog \<equiv> LOGSIZE"
abbreviation (input) nmeta :: nat where "nmeta \<equiv> 2 + nlog + ninodeblocks + nbitmap"
abbreviation (input) nblocks :: nat where "nblocks \<equiv> FSSIZE - nmeta"

definition mk_sb :: superblock where
  "mk_sb = \<lparr>sb_magic = FSMAGIC, sb_size = FSSIZE, sb_nblocks = nblocks, sb_ninodes = NINODES, sb_nlog = nlog,
     sb_logstart = 2, sb_inodestart = 2 + nlog, sb_bmapstart = 2 + nlog + ninodeblocks\<rparr>"

definition sb_bytes :: "superblock \<Rightarrow> mem" where
  "sb_bytes s = wr32 (wr32 (wr32 (wr32 (wr32 (wr32 (wr32 (wr32 (\<lambda>_. 0) 0 (sb_magic s)) 4 (of_nat (sb_size s)))
     8 (of_nat (sb_nblocks s))) 12 (of_nat (sb_ninodes s))) 16 (of_nat (sb_nlog s))) 20 (of_nat (sb_logstart s)))
     24 (of_nat (sb_inodestart s))) 28 (of_nat (sb_bmapstart s))"

section \<open>Blocks and inodes\<close>

definition wsect :: "nat \<Rightarrow> mem \<Rightarrow> mkimg \<Rightarrow> mkimg" where
  "wsect sec buf m = m\<lparr>img := (img m)(sec := buf), nsect := max (nsect m) (sec + 1)\<rparr>"

definition rsect :: "nat \<Rightarrow> mkimg \<Rightarrow> mem option" where
  "rsect sec m = (if sec < nsect m then Some (img m sec) else None)"

definition mk_iblock :: "nat \<Rightarrow> nat" where
  "mk_iblock ino = ino div IPB + sb_inodestart mk_sb"

definition winode :: "nat \<Rightarrow> mem \<Rightarrow> mkimg \<Rightarrow> mkimg option" where
  "winode ino din m = do {
     let bn = mk_iblock ino;
     buf \<leftarrow> rsect bn m;
     let dip = ino mod IPB * DINODE_SIZE;
     Some (wsect bn (\<lambda>x. if dip \<le> x \<and> x < dip + DINODE_SIZE then din (x - dip) else buf x) m)
   }"

definition rinode :: "nat \<Rightarrow> mkimg \<Rightarrow> mem option" where
  "rinode ino m = do {
     buf \<leftarrow> rsect (mk_iblock ino) m;
     let dip = ino mod IPB * DINODE_SIZE;
     Some (\<lambda>x. if x < DINODE_SIZE then buf (dip + x) else 0)
   }"

definition mk_ialloc :: "u16 \<Rightarrow> mkimg \<Rightarrow> (nat \<times> mkimg) option" where
  "mk_ialloc type m = do {
     let ino = freeinode m;
     let m = m\<lparr>freeinode := ino + 1\<rparr>;
     let din = wr32 (wr16 (wr16 (\<lambda>_. 0) 0 type) 6 1) 16 0;
     m \<leftarrow> winode ino din m;
     Some (ino, m)
   }"

text \<open>The bitmap: the blocks up to the last one given out.\<close>

definition mk_balloc :: "nat \<Rightarrow> mkimg \<Rightarrow> mkimg option" where
  "mk_balloc n m =
     (if n < BSIZE * 8
      then Some (wsect (sb_bmapstart mk_sb)
        (fold (\<lambda>i buf. buf(i div 8 := buf (i div 8) OR push_bit (i mod 8) 1)) [0..<n] (\<lambda>_. 0)) m)
      else None)"

section \<open>Appending to a file\<close>

text \<open>\<open>if(xint(din.addrs[n]) == 0) din.addrs[n] = xint(freeblock++);\<close>\<close>

definition new_addr :: "nat \<Rightarrow> mem \<Rightarrow> mkimg \<Rightarrow> mem \<times> mkimg" where
  "new_addr n din m =
     (if rd32 din (20 + 4 * n) = 0
      then (wr32 din (20 + 4 * n) (of_nat (freeblock m)), m\<lparr>freeblock := freeblock m + 1\<rparr>) else (din, m))"

text \<open>The block \<open>x\<close> the next bytes go to.\<close>

definition mk_bmap :: "nat \<Rightarrow> mem \<Rightarrow> mkimg \<Rightarrow> (nat \<times> mem \<times> mkimg) option" where
  "mk_bmap fbn din m =
     (if fbn < NDIRECT then
        (let (din, m) = new_addr fbn din m in Some (unat (rd32 din (20 + 4 * fbn)), din, m))
      else
        (let (din, m) = new_addr NDIRECT din m; ib = unat (rd32 din (20 + 4 * NDIRECT)); n = fbn - NDIRECT in do {
           indirect \<leftarrow> rsect ib m;
           (if rd32 indirect (4 * n) = 0
            then let indirect = wr32 indirect (4 * n) (of_nat (freeblock m)) in
              Some (unat (rd32 indirect (4 * n)), din, wsect ib indirect (m\<lparr>freeblock := freeblock m + 1\<rparr>))
            else Some (unat (rd32 indirect (4 * n)), din, m))
         }))"

lemma block_end: "n < (n div BSIZE + 1) * BSIZE"
  using dividend_less_div_times[of BSIZE n] by (simp add: add_mult_distrib)

function iappend_loop :: "mem \<Rightarrow> nat \<Rightarrow> byte list \<Rightarrow> mkimg \<Rightarrow> (mem \<times> nat \<times> mkimg) option" where
  "iappend_loop din off p m =
     (if p = [] then Some (din, off, m)
      else let fbn = off div BSIZE in
        if \<not> fbn < MAXFILE then None
        else do {
          (x, din, m) \<leftarrow> mk_bmap fbn din m;
          let n1 = min (length p) ((fbn + 1) * BSIZE - off);
          buf \<leftarrow> rsect x m;
          iappend_loop din (off + n1) (drop n1 p) (wsect x (blit buf (off - fbn * BSIZE) (take n1 p)) m)
        })"
  by pat_completeness auto
termination
proof (relation "measure (\<lambda>(din, off, p, m). length p)", goal_cases)
  case (2 din off p m)
  have "off < (off div BSIZE + 1) * BSIZE" by (rule block_end)
  then show ?case using 2 by simp
qed simp

declare iappend_loop.simps [simp del]

definition iappend :: "nat \<Rightarrow> byte list \<Rightarrow> mkimg \<Rightarrow> mkimg option" where
  "iappend ino p m = do {
     din \<leftarrow> rinode ino m;
     (din, off, m) \<leftarrow> iappend_loop din (unat (rd32 din 16)) p m;
     winode ino (wr32 din 16 (of_nat off)) m
   }"

section \<open>The program\<close>

definition mk_dirent :: "nat \<Rightarrow> byte list \<Rightarrow> byte list" where
  "mk_dirent n name = [ucast (of_nat n :: u16), ucast (drop_bit 8 (of_nat n :: u16))]
     @ take DIRSIZ (name @ replicate DIRSIZ 0)"

text \<open>The part of the path after the last slash, without a leading underscore.\<close>

definition shortname :: "byte list \<Rightarrow> byte list" where
  "shortname path =
     (let s = rev (takeWhile (\<lambda>c. c \<noteq> 47) (rev path)) in
      if s \<noteq> [] \<and> hd s = 95 then tl s else s)"

text \<open>A file is its path and the pieces its contents are read in.\<close>

definition add_file :: "nat \<Rightarrow> byte list \<times> byte list list \<Rightarrow> mkimg \<Rightarrow> mkimg option" where
  "add_file root f m = do {
     (ino, m) \<leftarrow> mk_ialloc T_FILE m;
     m \<leftarrow> iappend root (mk_dirent ino (shortname (fst f))) m;
     fold_opt (iappend ino) (snd f) m
   }"

definition mk_empty :: mkimg where
  "mk_empty = wsect 1 (sb_bytes mk_sb)
     (fold (\<lambda>i. wsect i (\<lambda>_. 0)) [0..<FSSIZE] \<lparr>img = (\<lambda>_ _. 0), nsect = 0, freeinode = 1, freeblock = nmeta\<rparr>)"

definition mkfs :: "(byte list \<times> byte list list) list \<Rightarrow> mkimg option" where
  "mkfs files = do {
     (root, m) \<leftarrow> mk_ialloc T_DIR mk_empty;
     (if root \<noteq> ROOTINO then None else Some ());
     m \<leftarrow> iappend root (mk_dirent root [46]) m;
     m \<leftarrow> iappend root (mk_dirent root [46, 46]) m;
     let before = freeblock m;
     m \<leftarrow> fold_opt (add_file root) files m;
     (if nblocks - (freeblock m - before) < 2 * MAXFILE then None else Some ());
     din \<leftarrow> rinode root m;
     let off = unat (rd32 din 16);
     m \<leftarrow> winode root (wr32 din 16 (of_nat ((off div BSIZE + 1) * BSIZE))) m;
     mk_balloc (freeblock m) m
   }"

end
