(* ===== verification/MkfsImage.thy ===== *)
theory MkfsImage imports Mkfs begin

text \<open>
  What \<open>mkfs\<close> builds, as a refinement: the abstract image gives every inode number the bytes of its file, and
  appending to an inode is appending to its bytes.  \<open>image_ok\<close> is the relation, stated for the blocks and the
  inodes' bytes, since \<open>iappend\<close> works on a copy of the inode it writes back at the end.
\<close>

section \<open>The blocks of an inode\<close>

text \<open>As \<open>slot\<close> and \<open>fdata\<close> for the kernel's inodes: the block of slot \<open>s\<close>, the byte at offset \<open>k\<close>.\<close>

definition dslot :: "(nat \<Rightarrow> mem) \<Rightarrow> mem \<Rightarrow> nat \<Rightarrow> nat" where
  "dslot B din s =
     (let ib = unat (rd32 din (20 + 4 * NDIRECT)) in
      if s < NDIRECT then unat (rd32 din (20 + 4 * s))
      else if s < MAXFILE then if ib = 0 then 0 else unat (rd32 (B ib) (4 * (s - NDIRECT)))
      else ib)"

definition dbyte :: "(nat \<Rightarrow> mem) \<Rightarrow> mem \<Rightarrow> nat \<Rightarrow> byte" where
  "dbyte B din k =
     (if dslot B din (k div BSIZE) = 0 then 0 else B (dslot B din (k div BSIZE)) (k mod BSIZE))"

lemma dslot_ib: "dslot B din MAXFILE = unat (rd32 din (20 + 4 * NDIRECT))"
  by (simp add: dslot_def Let_def)

lemma dslot_dir: "s < NDIRECT \<Longrightarrow> dslot B din s = unat (rd32 din (20 + 4 * s))"
  by (simp add: dslot_def Let_def)

lemma dslot_ind:
  "NDIRECT \<le> s \<Longrightarrow> s < MAXFILE \<Longrightarrow> dslot B din s =
     (if dslot B din MAXFILE = 0 then 0 else unat (rd32 (B (dslot B din MAXFILE)) (4 * (s - NDIRECT))))"
  by (simp add: dslot_def Let_def)

lemma dslot_cong:
  assumes "\<And>n. n \<le> NDIRECT \<Longrightarrow> rd32 din' (20 + 4 * n) = rd32 din (20 + 4 * n)"
    and "dslot B din MAXFILE \<noteq> 0 \<Longrightarrow> B' (dslot B din MAXFILE) = B (dslot B din MAXFILE)" and "s \<le> MAXFILE"
  shows "dslot B' din' s = dslot B din s"
proof -
  have i: "dslot B' din' MAXFILE = dslot B din MAXFILE" using assms(1)[of NDIRECT] by (simp add: dslot_ib)
  consider "s < NDIRECT" | "NDIRECT \<le> s" "s < MAXFILE" | "s = MAXFILE" using assms(3) by linarith
  then show ?thesis
  proof cases
    case 1
    then show ?thesis using assms(1)[of s] by (simp add: dslot_dir)
  next
    case 2
    then show ?thesis by (simp add: dslot_ind[OF 2] i assms(2))
  qed (use i in simp)
qed

section \<open>The relation\<close>

text \<open>
  \<open>B\<close> are the blocks, \<open>fb\<close> the first block not given out, \<open>I\<close> the inodes with their bytes \<open>D\<close>, and \<open>C\<close> the
  contents they stand for.
\<close>

definition image_ok :: "(nat \<Rightarrow> mem) \<Rightarrow> nat \<Rightarrow> nat set \<Rightarrow> (nat \<Rightarrow> mem) \<Rightarrow> (nat \<Rightarrow> byte list) \<Rightarrow> bool" where
  "image_ok B fb I D C \<longleftrightarrow> nmeta \<le> fb \<and> (\<forall>b \<ge> fb. B b = (\<lambda>_. 0))
     \<and> (\<forall>i \<in> I. \<forall>s \<le> MAXFILE. dslot B (D i) s \<noteq> 0 \<longrightarrow> nmeta \<le> dslot B (D i) s \<and> dslot B (D i) s < fb)
     \<and> (\<forall>i \<in> I. \<forall>j \<in> I. \<forall>s \<le> MAXFILE. \<forall>t \<le> MAXFILE.
          dslot B (D i) s \<noteq> 0 \<longrightarrow> dslot B (D i) s = dslot B (D j) t \<longrightarrow> i = j \<and> s = t)
     \<and> (\<forall>i \<in> I. length (C i) \<le> MAXFILE * BSIZE
          \<and> (\<forall>k < MAXFILE * BSIZE. dbyte B (D i) k = (if k < length (C i) then C i ! k else 0))
          \<and> (\<forall>s < MAXFILE. s * BSIZE < length (C i) \<longrightarrow> dslot B (D i) s \<noteq> 0))"

lemma image_okD:
  assumes "image_ok B fb I D C"
  shows "nmeta \<le> fb" "fb \<le> b \<Longrightarrow> B b = (\<lambda>_. 0)"
    "i \<in> I \<Longrightarrow> s \<le> MAXFILE \<Longrightarrow> dslot B (D i) s \<noteq> 0 \<Longrightarrow> nmeta \<le> dslot B (D i) s \<and> dslot B (D i) s < fb"
    "i \<in> I \<Longrightarrow> j \<in> I \<Longrightarrow> s \<le> MAXFILE \<Longrightarrow> t \<le> MAXFILE \<Longrightarrow> dslot B (D i) s \<noteq> 0 \<Longrightarrow> dslot B (D i) s = dslot B (D j) t
      \<Longrightarrow> i = j \<and> s = t"
    "i \<in> I \<Longrightarrow> length (C i) \<le> MAXFILE * BSIZE"
    "i \<in> I \<Longrightarrow> k < MAXFILE * BSIZE \<Longrightarrow> dbyte B (D i) k = (if k < length (C i) then C i ! k else 0)"
    "i \<in> I \<Longrightarrow> s < MAXFILE \<Longrightarrow> s * BSIZE < length (C i) \<Longrightarrow> dslot B (D i) s \<noteq> 0"
  using assms unfolding image_ok_def by blast+

lemma image_okI:
  assumes "nmeta \<le> fb" and "\<And>b. fb \<le> b \<Longrightarrow> B b = (\<lambda>_. 0)"
    and "\<And>i s. i \<in> I \<Longrightarrow> s \<le> MAXFILE \<Longrightarrow> dslot B (D i) s \<noteq> 0 \<Longrightarrow> nmeta \<le> dslot B (D i) s \<and> dslot B (D i) s < fb"
    and "\<And>i j s t. i \<in> I \<Longrightarrow> j \<in> I \<Longrightarrow> s \<le> MAXFILE \<Longrightarrow> t \<le> MAXFILE \<Longrightarrow> dslot B (D i) s \<noteq> 0
      \<Longrightarrow> dslot B (D i) s = dslot B (D j) t \<Longrightarrow> i = j \<and> s = t"
    and "\<And>i. i \<in> I \<Longrightarrow> length (C i) \<le> MAXFILE * BSIZE"
    and "\<And>i k. i \<in> I \<Longrightarrow> k < MAXFILE * BSIZE \<Longrightarrow> dbyte B (D i) k = (if k < length (C i) then C i ! k else 0)"
    and "\<And>i s. i \<in> I \<Longrightarrow> s < MAXFILE \<Longrightarrow> s * BSIZE < length (C i) \<Longrightarrow> dslot B (D i) s \<noteq> 0"
  shows "image_ok B fb I D C"
  unfolding image_ok_def using assms by (intro conjI ballI allI impI) blast+

lemma dbyte_cong:
  assumes "dslot B' din' (k div BSIZE) = dslot B din (k div BSIZE)"
    and "dslot B din (k div BSIZE) \<noteq> 0 \<Longrightarrow> B' (dslot B din (k div BSIZE)) = B (dslot B din (k div BSIZE))"
  shows "dbyte B' din' k = dbyte B din k"
  using assms by (simp add: dbyte_def)

lemma div_BSIZE_less: "k < MAXFILE * BSIZE \<Longrightarrow> k div BSIZE < MAXFILE"
  by (simp add: less_mult_imp_div_less)

text \<open>Slots and data blocks unchanged.\<close>

lemma image_frame:
  assumes ok: "image_ok B fb I D C" and "\<And>b. fb \<le> b \<Longrightarrow> B' b = (\<lambda>_. 0)"
    and sl: "\<And>j s. j \<in> I \<Longrightarrow> s \<le> MAXFILE \<Longrightarrow> dslot B' (D' j) s = dslot B (D j) s"
    and data: "\<And>j s. j \<in> I \<Longrightarrow> s < MAXFILE \<Longrightarrow> dslot B (D j) s \<noteq> 0 \<Longrightarrow> B' (dslot B (D j) s) = B (dslot B (D j) s)"
  shows "image_ok B' fb I D' C"
proof (rule image_okI)
  fix i k assume i: "i \<in> I" and k: "k < MAXFILE * BSIZE"
  have "dbyte B' (D' i) k = dbyte B (D i) k"
    using div_BSIZE_less[OF k] by (intro dbyte_cong sl data i) simp_all
  then show "dbyte B' (D' i) k = (if k < length (C i) then C i ! k else 0)" using image_okD(6)[OF ok i k] by simp
qed (use image_okD[OF ok] assms(2) sl in simp_all)

text \<open>Blocks before the data area do not matter, nor does anything of an inode but its addresses.\<close>

lemma image_meta:
  assumes ok: "image_ok B fb I D C" and B: "\<And>b. nmeta \<le> b \<Longrightarrow> B' b = B b"
    and D: "\<And>i n. i \<in> I \<Longrightarrow> n \<le> NDIRECT \<Longrightarrow> rd32 (D' i) (20 + 4 * n) = rd32 (D i) (20 + 4 * n)"
  shows "image_ok B' fb I D' C"
proof (rule image_frame[OF ok])
  show "B' b = (\<lambda>_. 0)" if "fb \<le> b" for b using that image_okD(1,2)[OF ok] B[of b] by simp
  show "dslot B' (D' j) s = dslot B (D j) s" if "j \<in> I" "s \<le> MAXFILE" for j s
    by (rule dslot_cong) (use that D B image_okD(3)[OF ok that(1), of MAXFILE] in simp_all)
  show "B' (dslot B (D j) s) = B (dslot B (D j) s)" if "j \<in> I" "s < MAXFILE" "dslot B (D j) s \<noteq> 0" for j s
    using image_okD(3)[OF ok that(1) _ that(3)] that(2) by (intro B) simp
qed

text \<open>A new block: the slot was empty, the block is zero, so the bytes stay the same.\<close>

lemma image_grow:
  assumes ok: "image_ok B fb I D C" and i: "i \<in> I" and s0: "s0 \<le> MAXFILE" "dslot B (D i) s0 = 0"
    and sl: "\<And>j s. j \<in> I \<Longrightarrow> s \<le> MAXFILE \<Longrightarrow> dslot B' (D' j) s = (if j = i \<and> s = s0 then fb else dslot B (D j) s)"
    and data: "\<And>j s. j \<in> I \<Longrightarrow> s < MAXFILE \<Longrightarrow> dslot B (D j) s \<noteq> 0 \<Longrightarrow> B' (dslot B (D j) s) = B (dslot B (D j) s)"
    and zero: "\<And>b. fb \<le> b \<Longrightarrow> B' b = (\<lambda>_. 0)"
  shows "image_ok B' (fb + 1) I D' C"
proof (rule image_okI)
  note R = image_okD[OF ok]
  show "nmeta \<le> fb + 1" using R(1) by simp
  show "B' b = (\<lambda>_. 0)" if "fb + 1 \<le> b" for b using that zero by simp
  show "nmeta \<le> dslot B' (D' j) s \<and> dslot B' (D' j) s < fb + 1" if "j \<in> I" "s \<le> MAXFILE" "dslot B' (D' j) s \<noteq> 0" for j s
    using that R(1) R(3)[OF that(1,2)] unfolding sl[OF that(1,2)] by (auto split: if_splits)
  show "j = l \<and> s = t" if j: "j \<in> I" "l \<in> I" "s \<le> MAXFILE" "t \<le> MAXFILE"
    and ne: "dslot B' (D' j) s \<noteq> 0" and e: "dslot B' (D' j) s = dslot B' (D' l) t" for j l s t
    using ne e R(3)[OF j(1,3)] R(3)[OF j(2,4)] R(4)[OF j] i s0 unfolding sl[OF j(1,3)] sl[OF j(2,4)] by (auto split: if_splits)
  show "length (C j) \<le> MAXFILE * BSIZE" if "j \<in> I" for j by (rule R(5)[OF that])
  show "dslot B' (D' j) s \<noteq> 0" if "j \<in> I" "s < MAXFILE" "s * BSIZE < length (C j)" for j s
    using R(1) R(7)[OF that] that sl by simp
  fix j k assume j: "j \<in> I" and k: "k < MAXFILE * BSIZE"
  have s: "k div BSIZE < MAXFILE" by (rule div_BSIZE_less[OF k])
  have "dbyte B' (D' j) k = dbyte B (D j) k"
  proof (cases "j = i \<and> k div BSIZE = s0")
    case True
    then show ?thesis using sl[OF j, of "k div BSIZE"] s s0(2) zero by (simp add: dbyte_def)
  next
    case False
    then show ?thesis using s by (intro dbyte_cong) (auto simp: sl j data)
  qed
  then show "dbyte B' (D' j) k = (if k < length (C j) then C j ! k else 0)" using R(6)[OF j k] by simp
qed

text \<open>Bytes written at the end of the file, inside one block.\<close>

lemma image_write:
  assumes ok: "image_ok B fb I D C" and i: "i \<in> I" and n: "fbn < MAXFILE" and x: "dslot B (D i) fbn = x" "x \<noteq> 0"
    and len: "length (C i) = fbn * BSIZE + a" "a + length bs \<le> BSIZE"
  shows "image_ok (B(x := blit (B x) a bs)) fb I D (C(i := C i @ bs))"
proof (rule image_okI)
  note R = image_okD[OF ok]
  let ?B = "B(x := blit (B x) a bs)" and ?C = "C(i := C i @ bs)"
  have xb: "nmeta \<le> x \<and> x < fb" using R(3)[OF i, of fbn] n x by simp
  have own: "j = i \<and> s = fbn" if "j \<in> I" "s \<le> MAXFILE" "dslot B (D j) s = x" for j s
    using R(4)[OF that(1) i that(2), of fbn] that(3) n x by simp
  have sl: "dslot ?B (D j) s = dslot B (D j) s" if "j \<in> I" "s \<le> MAXFILE" for j s
    by (rule dslot_cong) (use own[OF that(1), of MAXFILE] that n in auto)
  show "nmeta \<le> fb" by (rule R(1))
  show "?B b = (\<lambda>_. 0)" if "fb \<le> b" for b using that xb R(2) by simp
  show "nmeta \<le> dslot ?B (D j) s \<and> dslot ?B (D j) s < fb" if "j \<in> I" "s \<le> MAXFILE" "dslot ?B (D j) s \<noteq> 0" for j s
    using that R(3) sl by simp
  show "j = l \<and> s = t" if j: "j \<in> I" "l \<in> I" "s \<le> MAXFILE" "t \<le> MAXFILE"
    and ne: "dslot ?B (D j) s \<noteq> 0" and e: "dslot ?B (D j) s = dslot ?B (D l) t" for j l s t
    using R(4)[OF j] ne e sl j by simp
  have le: "length (C i @ bs) \<le> (fbn + 1) * BSIZE" using len by simp
  show "length (?C j) \<le> MAXFILE * BSIZE" if "j \<in> I" for j
    using R(5)[OF that] le n by (auto simp: less_eq_Suc_le)
  show "dslot ?B (D j) s \<noteq> 0" if j: "j \<in> I" "s < MAXFILE" and lt: "s * BSIZE < length (?C j)" for j s
  proof (cases "j = i")
    case True
    have "s * BSIZE < (fbn + 1) * BSIZE" using lt le True by simp
    then have "s \<le> fbn" by simp
    then have "s = fbn \<or> s * BSIZE < length (C i)" using len(1) by (cases "s = fbn") auto
    then show ?thesis using R(7)[OF i j(2)] sl[OF i, of s] j(2) x True by auto
  next
    case False
    then show ?thesis using R(7)[OF j] lt sl[OF j(1), of s] j(2) by simp
  qed
  fix j k assume j: "j \<in> I" and k: "k < MAXFILE * BSIZE"
  have s: "k div BSIZE < MAXFILE" by (rule div_BSIZE_less[OF k])
  then have db: "dbyte ?B (D j) k = (if dslot B (D j) (k div BSIZE) = x then blit (B x) a bs (k mod BSIZE) else dbyte B (D j) k)"
    using sl[OF j, of "k div BSIZE"] x by (simp add: dbyte_def)
  show "dbyte ?B (D j) k = (if k < length (?C j) then ?C j ! k else 0)"
  proof (cases "j = i \<and> k div BSIZE = fbn")
    case True
    then have k': "k = fbn * BSIZE + k mod BSIZE" by (metis div_mult_mod_eq)
    have old: "B x (k mod BSIZE) = (if k < length (C i) then C i ! k else 0)"
      using R(6)[OF i k] True x by (simp add: dbyte_def)
    have "dbyte ?B (D j) k = blit (B x) a bs (k mod BSIZE)" using db True x by simp
    also have "\<dots> = (if k < length (C i @ bs) then (C i @ bs) ! k else 0)"
    proof (cases "a \<le> k mod BSIZE \<and> k mod BSIZE < a + length bs")
      case in_bs: True
      then have "k - length (C i) = k mod BSIZE - a" "\<not> k < length (C i)" "k < length (C i) + length bs"
        using k' len(1) by linarith+
      then show ?thesis using in_bs by (simp add: blit_def nth_append)
    next
      case False
      then have "blit (B x) a bs (k mod BSIZE) = B x (k mod BSIZE)" by (auto simp: blit_def)
      moreover have "k < length (C i @ bs) \<longleftrightarrow> k < length (C i)" using False k' len(1) by auto
      ultimately show ?thesis using old by (simp add: nth_append)
    qed
    finally show ?thesis using True by simp
  next
    case False
    then have "dslot B (D j) (k div BSIZE) \<noteq> x" using own[OF j, of "k div BSIZE"] s by auto
    then have e: "dbyte ?B (D j) k = (if k < length (C j) then C j ! k else 0)" using db R(6)[OF j k] by simp
    show ?thesis
    proof (cases "j = i")
      case True
      then have "k div BSIZE \<noteq> fbn" using False by simp
      then have "k < fbn * BSIZE \<or> (fbn + 1) * BSIZE \<le> k"
        using div_nat_eqI[of BSIZE fbn k] by (auto simp: algebra_simps not_less)
      then have "k < length (C i @ bs) \<longleftrightarrow> k < length (C i)" using len by auto
      then show ?thesis using e True by (simp add: nth_append)
    qed (use e in simp)
  qed
qed

section \<open>Getting a block\<close>

lemma new_addr_ok:
  assumes ok: "image_ok (img m) (freeblock m) I (D(i := din)) C" and i: "i \<in> I" and n: "n \<le> NDIRECT"
    and fb: "freeblock m \<le> FSSIZE" and na: "new_addr n din m = (din', m')"
  shows "image_ok (img m') (freeblock m') I (D(i := din')) C" "rd32 din' (20 + 4 * n) \<noteq> 0"
    "img m' = img m" "nsect m' = nsect m" "freeinode m' = freeinode m" "\<And>k. k < 20 \<Longrightarrow> din' k = din k"
    "freeblock m' = freeblock m \<or> freeblock m' = freeblock m + 1 \<and> unat (rd32 din' (20 + 4 * n)) = freeblock m"
proof -
  note R = image_okD[OF ok]
  have v: "unat (of_nat (freeblock m) :: u32) = freeblock m" using fb by (intro unat_of_nat_u32) simp
  have v0: "(of_nat (freeblock m) :: u32) \<noteq> 0"
  proof
    assume "(of_nat (freeblock m) :: u32) = 0"
    then show False using v R(1) by simp
  qed
  show "rd32 din' (20 + 4 * n) \<noteq> 0" "img m' = img m" "nsect m' = nsect m" "freeinode m' = freeinode m"
    "freeblock m' = freeblock m \<or> freeblock m' = freeblock m + 1 \<and> unat (rd32 din' (20 + 4 * n)) = freeblock m"
    using na v v0 by (auto simp: new_addr_def mem_simps split: if_splits)
  show "din' k = din k" if "k < 20" for k
    using na that by (auto simp: new_addr_def wr32_other split: if_splits)
  show "image_ok (img m') (freeblock m') I (D(i := din')) C"
  proof (cases "rd32 din (20 + 4 * n) = 0")
    case False
    then show ?thesis using na ok by (simp add: new_addr_def)
  next
    case True
    let ?s0 = "if n < NDIRECT then n else MAXFILE"
    have d: "din' = wr32 din (20 + 4 * n) (of_nat (freeblock m))" "m' = m\<lparr>freeblock := freeblock m + 1\<rparr>"
      using na True by (auto simp: new_addr_def)
    have rd: "rd32 din' (20 + 4 * s) = (if s = n then of_nat (freeblock m) else rd32 din (20 + 4 * s))" for s
      unfolding d(1) by (cases s n rule: linorder_cases) (simp_all add: mem_simps)
    have z: "dslot (img m) din ?s0 = 0" using True n by (auto simp: dslot_dir dslot_ib)
    have sl: "dslot (img m) din' s = (if s = ?s0 then freeblock m else dslot (img m) din s)" if le: "s \<le> MAXFILE" for s
    proof -
      have ib: "dslot (img m) din' MAXFILE = (if n = NDIRECT then freeblock m else dslot (img m) din MAXFILE)"
        unfolding dslot_ib rd by (simp add: v)
      consider "s < NDIRECT" | "NDIRECT \<le> s" "s < MAXFILE" | "s = MAXFILE" using le by linarith
      then show ?thesis
      proof cases
        case 1
        then show ?thesis unfolding dslot_dir[OF 1] rd using n v by simp
      next
        case 2
        have "rd32 (img m (freeblock m)) a = 0" for a using R(2)[of "freeblock m"] by (simp add: rd32_def)
        then show ?thesis unfolding dslot_ind[OF 2] ib using 2 n z R(1) by (auto split: if_splits)
      qed (use ib n in auto)
    qed
    have "image_ok (img m) (freeblock m + 1) I (D(i := din')) C"
      by (rule image_grow[OF ok i, of ?s0]) (use z sl n R(2) in auto)
    then show ?thesis by (simp add: d(2))
  qed
qed

lemma mk_bmap_ok:
  assumes ok: "image_ok (img m) (freeblock m) I (D(i := din)) C" and i: "i \<in> I" and n: "fbn < MAXFILE"
    and fb: "freeblock m \<le> FSSIZE" and ns: "nsect m = FSSIZE" and b: "mk_bmap fbn din m = Some (x, din', m')"
  shows "image_ok (img m') (freeblock m') I (D(i := din')) C" "dslot (img m') din' fbn = x" "x \<noteq> 0"
    "nsect m' = FSSIZE" "freeinode m' = freeinode m" "\<And>k. k < 20 \<Longrightarrow> din' k = din k" "freeblock m \<le> freeblock m'"
    "freeblock m' \<le> freeblock m + 2" "x < FSSIZE \<Longrightarrow> freeblock m' \<le> FSSIZE" "\<And>b. b < nmeta \<Longrightarrow> img m' b = img m b"
proof -
  consider (dir) "fbn < NDIRECT" | (ind) "\<not> fbn < NDIRECT" by blast
  then have "image_ok (img m') (freeblock m') I (D(i := din')) C \<and> dslot (img m') din' fbn = x \<and> x \<noteq> 0
    \<and> nsect m' = FSSIZE \<and> freeinode m' = freeinode m \<and> (\<forall>k < 20. din' k = din k) \<and> freeblock m \<le> freeblock m'
    \<and> freeblock m' \<le> freeblock m + 2 \<and> (x < FSSIZE \<longrightarrow> freeblock m' \<le> FSSIZE) \<and> (\<forall>b < nmeta. img m' b = img m b)"
  proof cases
    case dir
    then have na: "new_addr fbn din m = (din', m')" and x: "x = unat (rd32 din' (20 + 4 * fbn))"
      using b by (auto simp: mk_bmap_def split: prod.splits)
    note N = new_addr_ok[OF ok i less_imp_le[OF dir] fb na]
    show ?thesis using N dir ns fb by (auto simp: x dslot_dir unat_eq_0)
  next
    case ind
    define j where "j = fbn - NDIRECT"
    obtain din1 m1 where na: "new_addr NDIRECT din m = (din1, m1)" by fastforce
    note N = new_addr_ok[OF ok i order.refl fb na]
    define ib where "ib = unat (rd32 din1 (20 + 4 * NDIRECT))"
    have ib0: "ib \<noteq> 0" using N(2) by (simp add: ib_def unat_eq_0)
    have ibs: "dslot (img m1) din1 MAXFILE = ib" by (simp add: dslot_ib ib_def)
    define ibuf where "ibuf = img m1 ib"
    have ibl: "ib < FSSIZE" and r: "(if rd32 ibuf (4 * j) = 0
        then Some (unat (rd32 (wr32 ibuf (4 * j) (of_nat (freeblock m1))) (4 * j)), din1,
          wsect ib (wr32 ibuf (4 * j) (of_nat (freeblock m1))) (m1\<lparr>freeblock := freeblock m1 + 1\<rparr>))
        else Some (unat (rd32 ibuf (4 * j)), din1, m1)) = Some (x, din', m')"
      using b ind N(4) ns na by (auto simp: mk_bmap_def rsect_def j_def ib_def ibuf_def Let_def bind_eq_Some_conv split: if_splits)
    have fb1: "freeblock m1 \<le> FSSIZE" using N(7) ibl fb by (auto simp: ib_def)
    have fbn: "NDIRECT \<le> fbn" "fbn < MAXFILE" using ind n by simp_all
    have sfbn: "dslot (img m1) din1 fbn = unat (rd32 ibuf (4 * j))"
      unfolding dslot_ind[OF fbn] ibs using ib0 by (simp add: ibuf_def j_def)
    show ?thesis
    proof (cases "rd32 ibuf (4 * j) = 0")
      case False
      then have "x = unat (rd32 ibuf (4 * j))" "din' = din1" "m' = m1" using r by auto
      then show ?thesis using N ns fb1 sfbn False by (auto simp: unat_eq_0)
    next
      case True
      let ?v = "wr32 ibuf (4 * j) (of_nat (freeblock m1))"
      have v: "unat (of_nat (freeblock m1) :: u32) = freeblock m1" using fb1 by (intro unat_of_nat_u32) simp
      have e: "x = freeblock m1" "din' = din1" "m' = wsect ib ?v (m1\<lparr>freeblock := freeblock m1 + 1\<rparr>)"
        using r True v by (auto simp: mem_simps)
      have im: "img m' = (img m1)(ib := ?v)" "freeblock m' = freeblock m1 + 1" "nsect m' = FSSIZE" "freeinode m' = freeinode m1"
        using ibl N(4) ns by (auto simp: e(3) wsect_def)
      note R = image_okD[OF N(1)]
      have ibr: "nmeta \<le> ib \<and> ib < freeblock m1" using R(3)[OF i, of MAXFILE] ibs ib0 by simp
      have own: "l = i \<and> s = MAXFILE" if "l \<in> I" "s \<le> MAXFILE" "dslot (img m1) ((D(i := din1)) l) s = ib" for l s
        using R(4)[OF i that(1) order.refl that(2)] ib0 unfolding that(3) fun_upd_same ibs by blast
      have sl: "dslot (img m') ((D(i := din1)) l) s = (if l = i \<and> s = fbn then freeblock m1 else dslot (img m1) ((D(i := din1)) l) s)"
        if l: "l \<in> I" "s \<le> MAXFILE" for l s
      proof (cases "l = i")
        case False
        then have Dl: "(D(i := din1)) l = D l" by (rule fun_upd_other)
        have "dslot (img m1) (D l) MAXFILE \<noteq> ib" using own[OF l(1) order.refl] False unfolding Dl by blast
        then have "dslot (img m') (D l) s = dslot (img m1) (D l) s" by (intro dslot_cong l(2)) (simp_all add: im(1))
        then show ?thesis unfolding Dl using False by simp
      next
        case True
        have ib': "dslot (img m') din1 MAXFILE = ib" using ibs by (simp add: dslot_ib)
        consider "s < NDIRECT" | "NDIRECT \<le> s" "s < MAXFILE" | "s = MAXFILE" using l(2) by linarith
        then show ?thesis
        proof cases
          case 1
          then show ?thesis using True fbn by (simp add: dslot_dir)
        next
          case 2
          have "rd32 ?v (4 * (s - NDIRECT)) = (if s = fbn then of_nat (freeblock m1) else rd32 ibuf (4 * (s - NDIRECT)))"
          proof (cases "s = fbn")
            case False
            then have "s - NDIRECT < j \<or> j < s - NDIRECT" using 2 fbn by (auto simp: j_def)
            then show ?thesis using False by (auto simp: mem_simps)
          qed (simp add: j_def mem_simps)
          moreover have "dslot (img m') din1 s = unat (rd32 ?v (4 * (s - NDIRECT)))"
            unfolding dslot_ind[OF 2] ib' using ib0 by (simp add: im(1))
          moreover have "dslot (img m1) din1 s = unat (rd32 ibuf (4 * (s - NDIRECT)))"
            unfolding dslot_ind[OF 2] ibs using ib0 by (simp add: ibuf_def)
          ultimately show ?thesis using True v by simp
        qed (use True ib' ibs fbn in simp)
      qed
      have "image_ok (img m') (freeblock m1 + 1) I (D(i := din1)) C"
      proof (rule image_grow[OF N(1) i _ _ sl])
        show "fbn \<le> MAXFILE" "dslot (img m1) ((D(i := din1)) i) fbn = 0" using fbn sfbn True by simp_all
        show "img m' (dslot (img m1) ((D(i := din1)) l) s) = img m1 (dslot (img m1) ((D(i := din1)) l) s)"
          if "l \<in> I" "s < MAXFILE" "dslot (img m1) ((D(i := din1)) l) s \<noteq> 0" for l s
          using own[OF that(1), of s] that(2) by (auto simp: im(1))
        show "img m' b = (\<lambda>_. 0)" if "freeblock m1 \<le> b" for b using R(2)[OF that] ibr that by (simp add: im(1))
      qed
      moreover have "dslot (img m') din1 fbn = freeblock m1" using sl[OF i, of fbn] fbn by simp
      moreover have "freeblock m1 \<noteq> 0" using ibr by simp
      moreover have "img m' b = img m b" if "b < nmeta" for b using ibr that N(3) by (auto simp: im(1))
      ultimately show ?thesis using N(5,6,7) unfolding e(1,2) im(2,3,4) by auto
    qed
  qed
  then show "image_ok (img m') (freeblock m') I (D(i := din')) C" "dslot (img m') din' fbn = x" "x \<noteq> 0"
    "nsect m' = FSSIZE" "freeinode m' = freeinode m" "\<And>k. k < 20 \<Longrightarrow> din' k = din k" "freeblock m \<le> freeblock m'"
    "freeblock m' \<le> freeblock m + 2" "x < FSSIZE \<Longrightarrow> freeblock m' \<le> FSSIZE" "\<And>b. b < nmeta \<Longrightarrow> img m' b = img m b"
    by blast+
qed

end
