(* ===== verification/MkfsRun.thy ===== *)
theory MkfsRun imports MkfsImage begin

text \<open>
  The operations of \<open>mkfs\<close> on the abstract image, and the whole run: what the finished image holds.
\<close>

section \<open>The loop of iappend\<close>

lemma iappend_loop_ok:
  assumes "iappend_loop din off p m = Some (din', off', m')"
    and "image_ok (img m) (freeblock m) I (D(i := din)) C" and "i \<in> I" and "off = length (C i)"
    and "freeblock m \<le> FSSIZE" and "nsect m = FSSIZE"
  shows "image_ok (img m') (freeblock m') I (D(i := din')) (C(i := C i @ p)) \<and> off' = length (C i @ p)
    \<and> nsect m' = FSSIZE \<and> freeinode m' = freeinode m \<and> freeblock m \<le> freeblock m' \<and> freeblock m' \<le> FSSIZE
    \<and> (\<forall>b < nmeta. img m' b = img m b) \<and> (\<forall>k < 20. din' k = din k)"
  using assms
proof (induction din off p m arbitrary: C rule: iappend_loop.induct)
  case (1 din off p m)
  show ?case
  proof (cases "p = []")
    case True
    then show ?thesis using "1.prems" by (subst (asm) iappend_loop.simps) simp
  next
    case False
    define fbn where "fbn = off div BSIZE"
    define n1 where "n1 = min (length p) ((fbn + 1) * BSIZE - off)"
    have n: "fbn < MAXFILE" using "1.prems"(1) False by (simp add: iappend_loop.simps[of din off p] fbn_def Let_def split: if_splits)
    obtain x din1 m1 where bm: "mk_bmap fbn din m = Some (x, din1, m1)"
      using "1.prems"(1) False n by (cases "mk_bmap fbn din m") (auto simp: iappend_loop.simps[of din off p] fbn_def)
    then have xl: "x < nsect m1"
      and rest: "iappend_loop din1 (off + n1) (drop n1 p) (wsect x (blit (img m1 x) (off - fbn * BSIZE) (take n1 p)) m1) = Some (din', off', m')"
      using "1.prems"(1) False n
      by (simp_all add: iappend_loop.simps[of din off p] Let_def rsect_def n1_def flip: fbn_def split: if_splits)
    note B = mk_bmap_ok[OF "1.prems"(2,3) n "1.prems"(5,6) bm]
    let ?bs = "take n1 p" and ?a = "off - fbn * BSIZE"
    let ?m2 = "wsect x (blit (img m1 x) ?a ?bs) m1" and ?C = "C(i := C i @ take n1 p)"
    have m2: "img ?m2 = (img m1)(x := blit (img m1 x) ?a ?bs)" "freeblock ?m2 = freeblock m1" "freeinode ?m2 = freeinode m1"
      "nsect ?m2 = FSSIZE" using xl B(4) by (auto simp: wsect_def)
    have off: "fbn * BSIZE \<le> off" "off < (fbn + 1) * BSIZE" unfolding fbn_def by (simp, rule block_end)
    have len: "length ?bs = n1" by (simp add: n1_def)
    have xm: "nmeta \<le> x" using image_okD(3)[OF B(1) "1.prems"(3), of fbn] B(2,3) n by simp
    have A: "image_ok (img ?m2) (freeblock ?m2) I (D(i := din1)) ?C" unfolding m2
    proof (rule image_write[OF B(1) "1.prems"(3) n])
      show "dslot (img m1) ((D(i := din1)) i) fbn = x" using B(2) by simp
      show "length (C i) = fbn * BSIZE + ?a" using off "1.prems"(4) by simp
      show "?a + length ?bs \<le> BSIZE" using off unfolding len n1_def by simp
    qed (rule B(3))
    have F: "freeblock ?m2 \<le> FSSIZE" using B(4,9) xl by (simp add: m2)
    have L: "off + n1 = length (?C i)" using "1.prems"(4) len by simp
    have rs: "rsect x m1 = Some (img m1 x)" "\<not> \<not> fbn < MAXFILE" using xl n by (simp_all add: rsect_def)
    have ih: "image_ok (img m') (freeblock m') I (D(i := din')) (?C(i := ?C i @ drop n1 p)) \<and> off' = length (?C i @ drop n1 p)
      \<and> nsect m' = FSSIZE \<and> freeinode m' = freeinode ?m2 \<and> freeblock ?m2 \<le> freeblock m' \<and> freeblock m' \<le> FSSIZE
      \<and> (\<forall>b < nmeta. img m' b = img ?m2 b) \<and> (\<forall>k < 20. din' k = din1 k)"
      by (rule "1.IH"[OF False fbn_def rs(2) bm refl refl n1_def rs(1) rest A "1.prems"(3) L F m2(4)])
    have "\<forall>b < nmeta. img m' b = img m b" using ih B(10) xm unfolding m2 by auto
    moreover have "?C(i := ?C i @ drop n1 p) = C(i := C i @ p)" "?C i @ drop n1 p = C i @ p" by simp_all
    ultimately show ?thesis using ih B(5,6,7) unfolding m2(2,3) by (simp del: fun_upd_apply)
  qed
qed

section \<open>Inodes in the image\<close>

definition dinode :: "mkimg \<Rightarrow> nat \<Rightarrow> mem" where
  "dinode m i = (\<lambda>x. if x < DINODE_SIZE then img m (mk_iblock i) (i mod IPB * DINODE_SIZE + x) else 0)"

lemma mk_iblock_range: "i < 204 \<Longrightarrow> 32 \<le> mk_iblock i \<and> mk_iblock i < 83"
  by (simp add: mk_iblock_def mk_sb_def less_mult_imp_div_less)

lemma rinode_ok: "i < 204 \<Longrightarrow> nsect m = FSSIZE \<Longrightarrow> rinode i m = Some (dinode m i)"
  using mk_iblock_range[of i] by (simp add: rinode_def rsect_def dinode_def)

lemma winode_ok:
  assumes "i < 204" and "nsect m = FSSIZE"
  obtains m' where "winode i din m = Some m'" "nsect m' = FSSIZE" "freeblock m' = freeblock m" "freeinode m' = freeinode m"
    "dinode m' = (dinode m)(i := (\<lambda>x. if x < DINODE_SIZE then din x else 0))" "\<And>b. b \<noteq> mk_iblock i \<Longrightarrow> img m' b = img m b"
proof -
  let ?b = "mk_iblock i" and ?o = "i mod IPB * DINODE_SIZE"
  let ?m = "wsect ?b (\<lambda>x. if ?o \<le> x \<and> x < ?o + DINODE_SIZE then din (x - ?o) else img m ?b x) m"
  have a: "winode i din m = Some ?m" using mk_iblock_range[OF assms(1)] assms(2) by (simp add: winode_def rsect_def Let_def)
  have b: "nsect ?m = FSSIZE" using mk_iblock_range[OF assms(1)] assms(2) by (simp add: wsect_def)
  have "dinode ?m j = ((dinode m)(i := (\<lambda>x. if x < DINODE_SIZE then din x else 0))) j" for j
  proof (cases "mk_iblock j = ?b \<and> j \<noteq> i")
    case True
    then have "j div 4 = i div 4" by (simp add: mk_iblock_def)
    then have "j mod 4 \<noteq> i mod 4" using True by (metis div_mult_mod_eq)
    then have "\<not> (?o \<le> j mod IPB * DINODE_SIZE + x \<and> j mod IPB * DINODE_SIZE + x < ?o + DINODE_SIZE)" if "x < DINODE_SIZE" for x
      using that by auto
    then show ?thesis using True by (auto simp: dinode_def wsect_def fun_eq_iff)
  next
    case False
    then show ?thesis by (auto simp: dinode_def wsect_def fun_eq_iff)
  qed
  then have c: "dinode ?m = (dinode m)(i := (\<lambda>x. if x < DINODE_SIZE then din x else 0))" by (rule ext)
  show ?thesis by (rule that[OF a b _ _ c]) (simp_all add: wsect_def)
qed

text \<open>
  Every inode below \<open>freeinode\<close> has its type, one link and its size; outside the inode blocks and the data area
  the image is as it was first written.
\<close>

definition head_ok :: "mem \<Rightarrow> u16 \<Rightarrow> nat \<Rightarrow> bool" where
  "head_ok din type n \<longleftrightarrow> rd16 din 0 = type \<and> rd16 din 6 = 1 \<and> unat (rd32 din 16) = n"

definition mk_inv :: "mkimg \<Rightarrow> (nat \<Rightarrow> byte list) \<Rightarrow> (nat \<Rightarrow> u16) \<Rightarrow> bool" where
  "mk_inv m C T \<longleftrightarrow> nsect m = FSSIZE \<and> 1 \<le> freeinode m \<and> freeinode m \<le> 204 \<and> freeblock m \<le> FSSIZE
     \<and> image_ok (img m) (freeblock m) {1..<freeinode m} (dinode m) C
     \<and> (\<forall>i \<in> {1..<freeinode m}. head_ok (dinode m i) (T i) (length (C i)))
     \<and> (\<forall>b < nmeta. b < 32 \<or> 83 \<le> b \<longrightarrow> img m b = img mk_empty b)"

lemma mk_invD:
  assumes "mk_inv m C T"
  shows "nsect m = FSSIZE" "1 \<le> freeinode m" "freeinode m \<le> 204" "freeblock m \<le> FSSIZE"
    "image_ok (img m) (freeblock m) {1..<freeinode m} (dinode m) C"
    "i \<in> {1..<freeinode m} \<Longrightarrow> head_ok (dinode m i) (T i) (length (C i))"
    "b < nmeta \<Longrightarrow> b < 32 \<or> 83 \<le> b \<Longrightarrow> img m b = img mk_empty b"
  using assms unfolding mk_inv_def by blast+

lemma head_cong:
  assumes "\<And>k. k < 20 \<Longrightarrow> din' k = din k"
  shows "head_ok din' type n = head_ok din type n"
proof -
  have "rd16 din' 0 = rd16 din 0" "rd16 din' 6 = rd16 din 6" "rd32 din' 16 = rd32 din 16"
    by (rule rd16_cong rd32_cong, simp add: assms)+
  then show ?thesis by (simp add: head_ok_def)
qed

lemma mk_ialloc_ok:
  assumes inv: "mk_inv m C T" and f: "freeinode m < 204"
  obtains m' where "mk_ialloc type m = Some (freeinode m, m')" "mk_inv m' (C(freeinode m := [])) (T(freeinode m := type))"
    "freeinode m' = freeinode m + 1" "freeblock m' = freeblock m"
proof -
  note I = mk_invD[OF inv]
  let ?i = "freeinode m" and ?m = "m\<lparr>freeinode := freeinode m + 1\<rparr>"
  define din where "din = wr32 (wr16 (wr16 (\<lambda>_. 0) 0 type) 6 1) 16 0"
  have dm: "dinode ?m = dinode m" by (simp add: dinode_def fun_eq_iff)
  obtain m' where w0: "winode ?i din ?m = Some m'" "nsect m' = FSSIZE" "freeblock m' = freeblock ?m" "freeinode m' = freeinode ?m"
    "dinode m' = (dinode ?m)(?i := (\<lambda>x. if x < DINODE_SIZE then din x else 0))" "\<And>b. b \<noteq> mk_iblock ?i \<Longrightarrow> img m' b = img ?m b"
    by (rule winode_ok[of ?i ?m din]) (use f I(1) in simp_all)
  have w: "winode ?i din ?m = Some m'" "nsect m' = FSSIZE" "freeblock m' = freeblock m" "freeinode m' = freeinode m + 1"
    "dinode m' = (dinode m)(?i := (\<lambda>x. if x < DINODE_SIZE then din x else 0))" "\<And>b. b \<noteq> mk_iblock ?i \<Longrightarrow> img m' b = img m b"
    using w0 dm by simp_all
  let ?D = "dinode m'" and ?J = "{1..<freeinode m + 1}" and ?C = "C(?i := [])"
  have J: "?J = insert ?i {1..<?i}" using I(2) by auto
  have h: "head_ok din type 0" by (simp add: head_ok_def din_def mem_simps)
  have z: "rd32 din (20 + 4 * n) = 0" for n by (simp add: din_def mem_simps rd32_def wr16_def wr32_def)
  have d: "?D ?i x = din x" if "x < DINODE_SIZE" for x using that by (simp add: w(5))
  have a: "rd32 (?D ?i) (20 + 4 * n) = 0" if "n \<le> NDIRECT" for n
    using z[of n] that by (subst rd32_cong[of _ _ din]) (auto intro!: d)
  have e: "dslot B (?D ?i) s = 0" if le: "s \<le> MAXFILE" for B s
  proof -
    consider "s < NDIRECT" | "NDIRECT \<le> s" "s < MAXFILE" | "s = MAXFILE" using le by linarith
    then show ?thesis using a[of NDIRECT] a[of s] by cases (simp_all add: dslot_def)
  qed
  have "image_ok (img m) (freeblock m) ?J ?D ?C"
  proof (rule image_okI)
    note R = image_okD[OF I(5)]
    have o: "?D j = dinode m j" "?C j = C j" "j \<in> {1..<?i}" if "j \<in> ?J" "j \<noteq> ?i" for j using that by (auto simp: w(5))
    show "nmeta \<le> freeblock m" by (rule R(1))
    show "img m b = (\<lambda>_. 0)" if "freeblock m \<le> b" for b by (rule R(2)[OF that])
    show "nmeta \<le> dslot (img m) (?D j) s \<and> dslot (img m) (?D j) s < freeblock m"
      if "j \<in> ?J" "s \<le> MAXFILE" "dslot (img m) (?D j) s \<noteq> 0" for j s
      using that e[OF that(2)] o[OF that(1)] R(3)[of j s] by (cases "j = ?i") auto
    show "j = l \<and> s = t" if j: "j \<in> ?J" "l \<in> ?J" "s \<le> MAXFILE" "t \<le> MAXFILE"
      and ne: "dslot (img m) (?D j) s \<noteq> 0" "dslot (img m) (?D j) s = dslot (img m) (?D l) t" for j l s t
    proof -
      have "j \<noteq> ?i" "l \<noteq> ?i" using ne e[OF j(3)] e[OF j(4)] by auto
      then show ?thesis using R(4)[of j l s t] o[OF j(1)] o[OF j(2)] j ne by simp
    qed
    show "length (?C j) \<le> MAXFILE * BSIZE" if "j \<in> ?J" for j using R(5)[of j] o[OF that] by (cases "j = ?i") auto
    show "dbyte (img m) (?D j) k = (if k < length (?C j) then ?C j ! k else 0)" if "j \<in> ?J" "k < MAXFILE * BSIZE" for j k
      using R(6)[of j k] o[OF that(1)] that(2) e[of "k div BSIZE"] div_BSIZE_less[OF that(2)]
      by (cases "j = ?i") (auto simp: dbyte_def)
    show "dslot (img m) (?D j) s \<noteq> 0" if "j \<in> ?J" "s < MAXFILE" "s * BSIZE < length (?C j)" for j s
      using R(7)[of j s] o[OF that(1)] that(2,3) by (cases "j = ?i") auto
  qed
  then have "image_ok (img m') (freeblock m) ?J ?D ?C"
    by (rule image_meta) (use w(6) mk_iblock_range[OF f] in auto)
  moreover have "head_ok (?D j) ((T(?i := type)) j) (length (?C j))" if "j \<in> ?J" for j
  proof (cases "j = ?i")
    case True
    then show ?thesis using h head_cong[of "?D ?i" din] d by simp
  qed (use that I(6)[of j] in \<open>auto simp: w(5)\<close>)
  moreover have "img m' b = img mk_empty b" if "b < nmeta" "b < 32 \<or> 83 \<le> b" for b
    using I(7)[OF that] w(6)[of b] mk_iblock_range[OF f] that by auto
  ultimately have "mk_inv m' ?C (T(?i := type))" using w(2,3,4) I(2,4) f by (simp add: mk_inv_def)
  moreover have "mk_ialloc type m = Some (?i, m')" using w(1) by (simp add: mk_ialloc_def din_def)
  ultimately show ?thesis using that w(3,4) by blast
qed

text \<open>Writing an inode back with the addresses it has in the relation and a new size.\<close>

lemma winode_inv:
  assumes ok: "image_ok (img m) (freeblock m) {1..<freeinode m} ((dinode m)(i := din)) C"
    and m: "nsect m = FSSIZE" "freeinode m \<le> 204" "freeblock m \<le> FSSIZE" and i: "i \<in> {1..<freeinode m}"
    and h: "head_ok din (T i) (length (C i))"
    and o: "\<And>j. j \<in> {1..<freeinode m} \<Longrightarrow> j \<noteq> i \<Longrightarrow> head_ok (dinode m j) (T j) (length (C j))"
    and e: "\<And>b. b < nmeta \<Longrightarrow> b < 32 \<or> 83 \<le> b \<Longrightarrow> img m b = img mk_empty b"
  obtains m' where "winode i din m = Some m'" "mk_inv m' C T" "freeinode m' = freeinode m" "freeblock m' = freeblock m"
proof -
  have il: "i < 204" using i m(2) by simp
  obtain m' where w: "winode i din m = Some m'" "nsect m' = FSSIZE" "freeblock m' = freeblock m" "freeinode m' = freeinode m"
    "dinode m' = (dinode m)(i := (\<lambda>x. if x < DINODE_SIZE then din x else 0))" "\<And>b. b \<noteq> mk_iblock i \<Longrightarrow> img m' b = img m b"
    using winode_ok[OF il m(1)] by blast
  have c: "dinode m' i x = din x" if "x < DINODE_SIZE" for x using that by (simp add: w(5))
  have "image_ok (img m') (freeblock m) {1..<freeinode m} (dinode m') C"
  proof (rule image_meta[OF ok])
    show "img m' b = img m b" if "nmeta \<le> b" for b using w(6) mk_iblock_range[OF il] that by auto
    show "rd32 (dinode m' j) (20 + 4 * n) = rd32 (((dinode m)(i := din)) j) (20 + 4 * n)" if "j \<in> {1..<freeinode m}" "n \<le> NDIRECT" for j n
    proof (cases "j = i")
      case True
      have "rd32 (dinode m' i) (20 + 4 * n) = rd32 din (20 + 4 * n)" by (rule rd32_cong, rule c) (use that in simp)
      then show ?thesis using True by simp
    qed (simp add: w(5))
  qed
  moreover have "head_ok (dinode m' j) (T j) (length (C j))" if "j \<in> {1..<freeinode m}" for j
  proof (cases "j = i")
    case True
    then show ?thesis using h head_cong[of "dinode m' i" din] c by simp
  qed (use o that in \<open>simp add: w(5)\<close>)
  moreover have "img m' b = img mk_empty b" if "b < nmeta" "b < 32 \<or> 83 \<le> b" for b
    using e[OF that] w(6)[of b] mk_iblock_range[OF il] that by auto
  ultimately have "mk_inv m' C T" using w(2,3,4) m i by (simp add: mk_inv_def)
  then show ?thesis using that w by blast
qed

text \<open>\<open>iappend\<close> refines appending.\<close>

lemma iappend_ok:
  assumes inv: "mk_inv m C T" and i: "i \<in> {1..<freeinode m}" and a: "iappend i p m = Some m'"
  shows "mk_inv m' (C(i := C i @ p)) T \<and> freeinode m' = freeinode m \<and> freeblock m \<le> freeblock m'"
proof -
  note I = mk_invD[OF inv]
  have il: "i < 204" using i I(3) by simp
  have sz: "unat (rd32 (dinode m i) 16) = length (C i)" using I(6)[OF i] by (simp add: head_ok_def)
  obtain din off m1 where l: "iappend_loop (dinode m i) (length (C i)) p m = Some (din, off, m1)"
    and w: "winode i (wr32 din 16 (of_nat off)) m1 = Some m'"
    using a rinode_ok[OF il I(1)] sz by (auto simp: iappend_def bind_eq_Some_conv split: prod.splits)
  have ok: "image_ok (img m) (freeblock m) {1..<freeinode m} ((dinode m)(i := dinode m i)) C" using I(5) by simp
  have L: "image_ok (img m1) (freeblock m1) {1..<freeinode m} ((dinode m)(i := din)) (C(i := C i @ p))" "off = length (C i @ p)"
    "nsect m1 = FSSIZE" "freeinode m1 = freeinode m" "freeblock m \<le> freeblock m1" "freeblock m1 \<le> FSSIZE"
    "\<And>b. b < nmeta \<Longrightarrow> img m1 b = img m b" "\<And>k. k < 20 \<Longrightarrow> din k = dinode m i k"
    using iappend_loop_ok[OF l ok i refl I(4,1)] by blast+
  have dm: "dinode m1 j = dinode m j" if "j < 204" for j
  proof -
    have "img m1 (mk_iblock j) = img m (mk_iblock j)" using mk_iblock_range[OF that] by (intro L(7)) simp
    then show ?thesis by (simp only: dinode_def)
  qed
  let ?din = "wr32 din 16 (of_nat off)"
  have len: "length (C i @ p) \<le> MAXFILE * BSIZE" using image_okD(5)[OF L(1) i] by simp
  have "rd16 ?din 0 = rd16 (dinode m i) 0" "rd16 ?din 6 = rd16 (dinode m i) 6"
    by (rule rd16_cong, simp add: wr32_other L(8))+
  then have h: "head_ok ?din (T i) (length (C i @ p))"
    using I(6)[OF i] len unat_of_nat_u32[of off] L(2) by (simp add: head_ok_def mem_simps)
  have "image_ok (img m1) (freeblock m1) {1..<freeinode m1} ((dinode m1)(i := ?din)) (C(i := C i @ p))" unfolding L(4)
  proof (rule image_meta[OF L(1)])
    show "rd32 (((dinode m1)(i := ?din)) j) (20 + 4 * n) = rd32 (((dinode m)(i := din)) j) (20 + 4 * n)"
      if "j \<in> {1..<freeinode m}" for j n using that I(3) dm[of j] by (simp add: mem_simps)
  qed simp
  then obtain m2 where "winode i ?din m1 = Some m2" "mk_inv m2 (C(i := C i @ p)) T" "freeinode m2 = freeinode m1" "freeblock m2 = freeblock m1"
    by (rule winode_inv[of m1 i ?din]) (use L h I i dm in auto)
  then show ?thesis using w L(4,5) by simp
qed

section \<open>The whole run\<close>

lemma zero_blocks: "fold (\<lambda>i. wsect i (\<lambda>_. 0)) [0..<n] m
  = m\<lparr>img := (\<lambda>b. if b < n then (\<lambda>_. 0) else img m b), nsect := max (nsect m) n\<rparr>"
  by (induction n) (auto simp: wsect_def fun_eq_iff)

lemma mk_empty_fields: "img mk_empty = (\<lambda>_ _. 0)(1 := sb_bytes mk_sb)" "nsect mk_empty = FSSIZE"
  "freeinode mk_empty = 1" "freeblock mk_empty = nmeta"
  unfolding mk_empty_def zero_blocks wsect_def by (auto simp: fun_eq_iff)

lemma mk_empty_inv: "mk_inv mk_empty C T"
  by (simp add: mk_inv_def mk_empty_fields image_ok_def)

lemma iappends_ok:
  assumes "fold_opt (iappend i) ps m = Some m'" and "mk_inv m C T" and "i \<in> {1..<freeinode m}"
  shows "mk_inv m' (C(i := C i @ concat ps)) T \<and> freeinode m' = freeinode m \<and> freeblock m \<le> freeblock m'"
  using assms
proof (induction ps arbitrary: m C)
  case (Cons p ps)
  then obtain m1 where m1: "iappend i p m = Some m1" "fold_opt (iappend i) ps m1 = Some m'"
    by (auto simp: bind_eq_Some_conv)
  note A = iappend_ok[OF Cons.prems(2,3) m1(1)]
  from Cons.IH[OF m1(2) A[THEN conjunct1]] A Cons.prems(3) show ?case by (simp del: fun_upd_apply add: fun_upd_same)
qed simp

lemma add_file_ok:
  assumes inv: "mk_inv m C T" and f: "freeinode m < 204" "2 \<le> freeinode m" and a: "add_file 1 f m = Some m'"
  shows "mk_inv m' (C(1 := C 1 @ mk_dirent (freeinode m) (shortname (fst f)), freeinode m := concat (snd f))) (T(freeinode m := T_FILE))
    \<and> freeinode m' = freeinode m + 1 \<and> freeblock m \<le> freeblock m'"
proof -
  let ?i = "freeinode m"
  obtain m1 where m1: "mk_ialloc T_FILE m = Some (?i, m1)" "mk_inv m1 (C(?i := [])) (T(?i := T_FILE))"
    "freeinode m1 = ?i + 1" "freeblock m1 = freeblock m" using mk_ialloc_ok[OF inv f(1)] by blast
  then obtain m2 where m2: "iappend 1 (mk_dirent ?i (shortname (fst f))) m1 = Some m2" "fold_opt (iappend ?i) (snd f) m2 = Some m'"
    using a by (auto simp: add_file_def bind_eq_Some_conv)
  have r: "1 \<in> {1..<freeinode m1}" using f(2) m1(3) by simp
  note A = iappend_ok[OF m1(2) r m2(1)]
  have i: "?i \<in> {1..<freeinode m2}" using A f(2) m1(3) by simp
  note B = iappends_ok[OF m2(2) A[THEN conjunct1] i]
  have "(C(?i := [], 1 := (C(?i := [])) 1 @ mk_dirent ?i (shortname (fst f)), ?i := (C(?i := [], 1 := (C(?i := [])) 1 @ mk_dirent ?i (shortname (fst f)))) ?i @ concat (snd f)))
      = C(1 := C 1 @ mk_dirent ?i (shortname (fst f)), ?i := concat (snd f))"
    using f(2) by (auto simp: fun_eq_iff)
  then show ?thesis using A B m1(3,4) by (simp del: fun_upd_apply)
qed

text \<open>The entries of the root directory, and what the inodes of the finished image hold.\<close>

definition root_entries :: "(byte list \<times> byte list list) list \<Rightarrow> (nat \<times> byte list) list" where
  "root_entries files = (ROOTINO, [46]) # (ROOTINO, [46, 46]) # zip [2..<2 + length files] (map (shortname \<circ> fst) files)"

definition image_contents :: "(byte list \<times> byte list list) list \<Rightarrow> nat \<Rightarrow> byte list" where
  "image_contents files i =
     (if i = ROOTINO then concat (map (\<lambda>(n, nm). mk_dirent n nm) (root_entries files))
      else if 2 \<le> i \<and> i < 2 + length files then concat (snd (files ! (i - 2))) else [])"

definition image_type :: "nat \<Rightarrow> u16" where
  "image_type i = (if i = ROOTINO then T_DIR else T_FILE)"

lemma root_entries_snoc: "root_entries (files @ [f]) = root_entries files @ [(2 + length files, shortname (fst f))]"
proof -
  have "[2..<2 + length (files @ [f])] = [2..<2 + length files] @ [2 + length files]"
    using upt_Suc_append[of 2 "2 + length files"] by simp
  then show ?thesis unfolding root_entries_def by (simp del: upt_Suc)
qed

lemma add_files_ok:
  assumes "fold_opt (add_file 1) files m0 = Some m" and "mk_inv m0 (image_contents []) image_type" and "freeinode m0 = 2"
    and "length files \<le> 202"
  shows "mk_inv m (image_contents files) image_type \<and> freeinode m = 2 + length files \<and> freeblock m0 \<le> freeblock m"
  using assms(1,4)
proof (induction files arbitrary: m rule: rev_induct)
  case Nil
  then show ?case using assms(2,3) by simp
next
  case (snoc f files)
  obtain m1 where m1: "fold_opt (add_file 1) files m0 = Some m1" "add_file 1 f m1 = Some m"
    using snoc.prems(1) by (auto simp: fold_opt_append bind_eq_Some_conv split: Option.bind_splits)
  have l: "length files < 202" using snoc.prems(2) by simp
  note H = snoc.IH[OF m1(1) less_imp_le[OF l]]
  have A: "mk_inv m ((image_contents files)(1 := image_contents files 1 @ mk_dirent (2 + length files) (shortname (fst f)),
      2 + length files := concat (snd f))) (image_type(2 + length files := T_FILE)) \<and> freeinode m = freeinode m1 + 1 \<and> freeblock m1 \<le> freeblock m"
    using add_file_ok[of m1 "image_contents files" image_type f m] H l m1(2) by (simp del: fun_upd_apply)
  have "(image_contents files)(1 := image_contents files 1 @ mk_dirent (2 + length files) (shortname (fst f)), 2 + length files := concat (snd f))
      = image_contents (files @ [f])"
    by (rule ext) (auto simp: image_contents_def root_entries_snoc nth_append)
  moreover have "image_type(2 + length files := T_FILE) = image_type" by (auto simp: image_type_def fun_eq_iff)
  ultimately show ?case using A H by simp
qed

text \<open>The finished image: as the relation says, but the size of the root is rounded up and the bitmap is there.\<close>

definition round_up :: "nat \<Rightarrow> nat" where
  "round_up n = (n div BSIZE + 1) * BSIZE"

definition bitmap :: "nat \<Rightarrow> mem" where
  "bitmap n = fold (\<lambda>i buf. buf(i div 8 := buf (i div 8) OR push_bit (i mod 8) 1)) [0..<n] (\<lambda>_. 0)"

lemma bit_bitmap: "k < 8 \<Longrightarrow> bit (bitmap n j) k \<longleftrightarrow> 8 * j + k < n"
proof (induction n)
  case 0
  then show ?case by (simp add: bitmap_def)
next
  case (Suc n)
  have s: "bitmap (Suc n) j = (if j = n div 8 then bitmap n j OR push_bit (n mod 8) 1 else bitmap n j)"
    by (simp add: bitmap_def)
  have "bit (push_bit (n mod 8) (1 :: byte)) k \<longleftrightarrow> k = n mod 8" using Suc.prems by (auto simp: bit_simps)
  moreover have "8 * j + k = n \<longleftrightarrow> j = n div 8 \<and> k = n mod 8" using Suc.prems by auto
  then have "8 * j + k < Suc n \<longleftrightarrow> 8 * j + k < n \<or> j = n div 8 \<and> k = n mod 8" by (auto simp: less_Suc_eq)
  ultimately show ?case using Suc unfolding s by (auto simp: bit_simps)
qed

text \<open>The root inode and its two entries.\<close>

lemma root_made:
  obtains m1 where "mk_ialloc T_DIR mk_empty = Some (ROOTINO, m1)" "mk_inv m1 (\<lambda>_. []) image_type" "freeinode m1 = 2"
    "freeblock m1 = nmeta"
proof -
  have e: "(\<lambda>_. [])(1 := []) = (\<lambda>_. [])" "image_type(1 := T_DIR) = image_type" by (auto simp: image_type_def fun_eq_iff)
  obtain m1 where "mk_ialloc T_DIR mk_empty = Some (freeinode mk_empty, m1)" "freeinode m1 = freeinode mk_empty + 1"
    "mk_inv m1 ((\<lambda>_. [])(freeinode mk_empty := [])) (image_type(freeinode mk_empty := T_DIR))" "freeblock m1 = freeblock mk_empty"
    by (rule mk_ialloc_ok[OF mk_empty_inv[of "\<lambda>_. []" image_type], of T_DIR]) (simp_all add: mk_empty_fields)
  then show ?thesis using that[of m1] unfolding mk_empty_fields(3,4) e by simp
qed

lemma dots_made:
  assumes inv: "mk_inv m1 (\<lambda>_. []) image_type" "freeinode m1 = 2"
    and d: "iappend ROOTINO (mk_dirent ROOTINO [46]) m1 = Some m2" "iappend ROOTINO (mk_dirent ROOTINO [46, 46]) m2 = Some m3"
  shows "mk_inv m3 (image_contents []) image_type" "freeinode m3 = 2"
proof -
  let ?d1 = "mk_dirent ROOTINO [46]" and ?d2 = "mk_dirent ROOTINO [46, 46]"
  have r1: "ROOTINO \<in> {1..<freeinode m1}" using inv(2) by simp
  note A = iappend_ok[OF inv(1) r1 d(1)]
  have r2: "ROOTINO \<in> {1..<freeinode m2}" using A inv(2) by simp
  note B = iappend_ok[OF A[THEN conjunct1] r2 d(2)]
  have c: "(\<lambda>_. [])(1 := [] @ ?d1, 1 := ((\<lambda>_. [])(1 := [] @ ?d1)) 1 @ ?d2) = image_contents []"
    by (auto simp: image_contents_def root_entries_def fun_eq_iff)
  show "mk_inv m3 (image_contents []) image_type" using B[THEN conjunct1] unfolding c .
  show "freeinode m3 = 2" using A B inv(2) by simp
qed

text \<open>The last steps: the size of the root, and the bitmap.\<close>

lemma finish_ok:
  assumes inv: "mk_inv m4 (image_contents files) image_type" and f: "freeinode m4 = 2 + length files"
    and run: "rinode ROOTINO m4 = Some din" "winode ROOTINO (wr32 din 16 (of_nat (round_up (unat (rd32 din 16))))) m4 = Some m5"
      "mk_balloc (freeblock m5) m5 = Some m"
  shows "image_ok (img m) (freeblock m) {1..<2 + length files} (dinode m) (image_contents files)"
    "i \<in> {1..<2 + length files} \<Longrightarrow> head_ok (dinode m i) (image_type i)
      (if i = ROOTINO then round_up (length (image_contents files i)) else length (image_contents files i))"
    "img m 1 = sb_bytes mk_sb" "img m 2 = (\<lambda>_. 0)" "img m 83 = bitmap (freeblock m)" "freeblock m \<le> FSSIZE"
proof -
  note I = mk_invD[OF inv]
  have din: "din = dinode m4 1" using run(1) rinode_ok[of 1 m4] I(1) by simp
  let ?L = "length (image_contents files 1)" and ?din = "wr32 din 16 (of_nat (round_up (unat (rd32 din 16))))"
  have one: "1 \<in> {1..<freeinode m4}" using f by simp
  have h1: "head_ok din T_DIR ?L" using I(6)[OF one] by (simp add: din image_type_def)
  obtain m5' where w: "winode 1 ?din m4 = Some m5'" "nsect m5' = FSSIZE" "freeblock m5' = freeblock m4" "freeinode m5' = freeinode m4"
    "dinode m5' = (dinode m4)(1 := (\<lambda>x. if x < DINODE_SIZE then ?din x else 0))" "\<And>b. b \<noteq> mk_iblock 1 \<Longrightarrow> img m5' b = img m4 b"
    by (rule winode_ok[of 1 m4 ?din]) (use I(1) in simp_all)
  have m5: "m5' = m5" using w(1) run(2) by simp
  have m: "m = wsect 83 (bitmap (freeblock m5)) m5" using run(3) by (simp add: mk_balloc_def bitmap_def mk_sb_def split: if_splits)
  have im: "img m = (img m5)(83 := bitmap (freeblock m4))" "freeblock m = freeblock m4" "dinode m i = dinode m5 i" if "i < 204" for i
    using w(3) mk_iblock_range[OF that] by (simp_all add: m m5 wsect_def dinode_def fun_eq_iff)
  have ib: "mk_iblock 1 = 32" by (simp add: mk_iblock_def mk_sb_def)
  have out: "img m5 b = img mk_empty b" if "b < 32" for b using that I(7)[of b] w(6)[of b] ib by (simp add: m5)
  show "img m 1 = sb_bytes mk_sb" "img m 2 = (\<lambda>_. 0)" "img m 83 = bitmap (freeblock m)" "freeblock m \<le> FSSIZE"
    using im(1,2)[of 0] out[of 1] out[of 2] I(4) by (simp_all add: mk_empty_fields)
  have d1: "dinode m 1 x = ?din x" if "x < DINODE_SIZE" for x using im(3)[of 1] w(5) that by (simp add: m5)
  have dj: "dinode m j = dinode m4 j" if "j < 204" "j \<noteq> 1" for j using im(3)[OF that(1)] w(5) that(2) by (simp add: m5)
  show "image_ok (img m) (freeblock m) {1..<2 + length files} (dinode m) (image_contents files)"
    unfolding im(2)[of 0, simplified] f[symmetric]
  proof (rule image_meta[OF I(5)])
    show "img m b = img m4 b" if "nmeta \<le> b" for b using im(1)[of 0] w(6)[of b] ib that by (simp add: m5)
    show "rd32 (dinode m j) (20 + 4 * k) = rd32 (dinode m4 j) (20 + 4 * k)" if j: "j \<in> {1..<freeinode m4}" "k \<le> NDIRECT" for j k
    proof (cases "j = 1")
      case True
      have "rd32 (dinode m 1) (20 + 4 * k) = rd32 ?din (20 + 4 * k)" by (rule rd32_cong, rule d1) (use j in simp)
      also have "\<dots> = rd32 din (20 + 4 * k)" by (simp add: mem_simps)
      finally show ?thesis using True by (simp add: din)
    next
      case False
      then show ?thesis using dj[of j] j I(3) by simp
    qed
  qed
  show "head_ok (dinode m i) (image_type i) (if i = ROOTINO then round_up (length (image_contents files i)) else length (image_contents files i))"
    if i: "i \<in> {1..<2 + length files}"
  proof (cases "i = 1")
    case True
    have "?L \<le> MAXFILE * BSIZE" using image_okD(5)[OF I(5) one] .
    then have "round_up ?L < 2 ^ 32" by (simp add: round_up_def)
    then have "unat (of_nat (round_up ?L) :: u32) = round_up ?L" by (rule unat_of_nat_u32)
    moreover have "rd16 ?din 0 = rd16 din 0" "rd16 ?din 6 = rd16 din 6" by (simp_all add: mem_simps)
    ultimately have "head_ok ?din T_DIR (round_up ?L)" using h1 by (simp add: head_ok_def mem_simps)
    then show ?thesis using True head_cong[of "dinode m 1" ?din] d1 by (simp add: image_type_def)
  next
    case False
    then show ?thesis using I(6)[of i] dj[of i] i f I(3) by simp
  qed
qed

lemma mkfs_runs:
  assumes "mkfs files = Some m"
  obtains m1 m2 m3 m4 din m5 where "mk_ialloc T_DIR mk_empty = Some (ROOTINO, m1)" "mk_inv m1 (\<lambda>_. []) image_type" "freeinode m1 = 2"
    "iappend ROOTINO (mk_dirent ROOTINO [46]) m1 = Some m2" "iappend ROOTINO (mk_dirent ROOTINO [46, 46]) m2 = Some m3"
    "fold_opt (add_file ROOTINO) files m3 = Some m4" "rinode ROOTINO m4 = Some din"
    "winode ROOTINO (wr32 din 16 (of_nat (round_up (unat (rd32 din 16))))) m4 = Some m5" "mk_balloc (freeblock m5) m5 = Some m"
proof -
  obtain m1 where m1: "mk_ialloc T_DIR mk_empty = Some (ROOTINO, m1)" "mk_inv m1 (\<lambda>_. []) image_type" "freeinode m1 = 2"
    by (rule root_made)
  then show ?thesis using assms that[OF m1]
    by (auto simp: mkfs_def round_up_def Let_def bind_eq_Some_conv split: if_splits)
qed

lemma mkfs_ok:
  assumes mk: "mkfs files = Some m" and n: "length files \<le> 202"
  shows "image_ok (img m) (freeblock m) {1..<2 + length files} (dinode m) (image_contents files)"
    "i \<in> {1..<2 + length files} \<Longrightarrow> head_ok (dinode m i) (image_type i)
      (if i = ROOTINO then round_up (length (image_contents files i)) else length (image_contents files i))"
    "img m 1 = sb_bytes mk_sb" "img m 2 = (\<lambda>_. 0)" "img m 83 = bitmap (freeblock m)" "freeblock m \<le> FSSIZE"
proof -
  obtain m1 m2 m3 m4 din m5 where r: "mk_inv m1 (\<lambda>_. []) image_type" "freeinode m1 = 2"
    "iappend ROOTINO (mk_dirent ROOTINO [46]) m1 = Some m2" "iappend ROOTINO (mk_dirent ROOTINO [46, 46]) m2 = Some m3"
    and a: "fold_opt (add_file ROOTINO) files m3 = Some m4" and f: "rinode ROOTINO m4 = Some din"
    "winode ROOTINO (wr32 din 16 (of_nat (round_up (unat (rd32 din 16))))) m4 = Some m5" "mk_balloc (freeblock m5) m5 = Some m"
    using mkfs_runs[OF mk] by metis
  note A = add_files_ok[OF a dots_made[OF r] n]
  note F = finish_ok[OF A[THEN conjunct1] A[THEN conjunct2, THEN conjunct1] f]
  show "image_ok (img m) (freeblock m) {1..<2 + length files} (dinode m) (image_contents files)"
    "i \<in> {1..<2 + length files} \<Longrightarrow> head_ok (dinode m i) (image_type i)
      (if i = ROOTINO then round_up (length (image_contents files i)) else length (image_contents files i))"
    "img m 1 = sb_bytes mk_sb" "img m 2 = (\<lambda>_. 0)" "img m 83 = bitmap (freeblock m)" "freeblock m \<le> FSSIZE"
    by (fact F)+
qed

end
