(* ===== verification/MkfsRoom.thy ===== *)
theory MkfsRoom imports MkfsRun begin

text \<open>
  When \<open>mkfs\<close> succeeds: how many blocks a file takes, and that the run goes through when the image has them.
\<close>

section \<open>Blocks of a file\<close>

text \<open>The data blocks of \<open>n\<close> bytes, and the indirect block from the 59th on.\<close>

definition file_blocks :: "nat \<Rightarrow> nat" where
  "file_blocks n = (n + (BSIZE - 1)) div BSIZE + (if NDIRECT * BSIZE < n then 1 else 0)"

text \<open>How many blocks the next byte at offset \<open>n\<close> needs.\<close>

definition next_blocks :: "nat \<Rightarrow> nat" where
  "next_blocks n = (if n mod BSIZE = 0 then if n div BSIZE = NDIRECT then 2 else 1 else 0)"

lemma file_blocks_mono: "a \<le> b \<Longrightarrow> file_blocks a \<le> file_blocks b"
  by (auto simp: file_blocks_def intro!: add_mono div_le_mono)

lemma file_blocks_next:
  assumes "0 < k" and "off + k \<le> (off div BSIZE + 1) * BSIZE"
  shows "file_blocks (off + k) = file_blocks off + next_blocks off"
proof -
  define q r where "q = off div BSIZE" and "r = off mod BSIZE"
  have o: "off = BSIZE * q + r" "r < BSIZE" by (simp_all add: q_def r_def)
  have k: "r + k \<le> BSIZE" using assms(2) o by (simp add: q_def[symmetric])
  have a: "(off + k + (BSIZE - 1)) div BSIZE = q + 1"
    by (rule div_nat_eqI) (use o k assms(1) in simp_all)
  have b: "(off + (BSIZE - 1)) div BSIZE = (if r = 0 then q else q + 1)"
    by (rule div_nat_eqI) (use o in auto)
  have c: "NDIRECT * BSIZE < off + k \<longleftrightarrow> NDIRECT \<le> q"
    using o k assms(1) by auto
  have d: "NDIRECT * BSIZE < off \<longleftrightarrow> NDIRECT < q \<or> NDIRECT = q \<and> r \<noteq> 0"
    using o by auto
  show ?thesis unfolding file_blocks_def next_blocks_def a b c d q_def[symmetric] r_def[symmetric] by auto
qed

section \<open>Enough blocks\<close>

lemma new_addr_room: "new_addr n din m = (din', m') \<Longrightarrow> freeblock m' \<le> freeblock m + (if rd32 din (20 + 4 * n) = 0 then 1 else 0)"
  by (auto simp: new_addr_def split: if_splits)

lemma mk_bmap_room:
  assumes ok: "image_ok (img m) (freeblock m) I (D(i := din)) C" and i: "i \<in> I" and n: "length (C i) div BSIZE < MAXFILE"
    and fb: "freeblock m + next_blocks (length (C i)) \<le> FSSIZE" and ns: "nsect m = FSSIZE"
  obtains x din' m' where "mk_bmap (length (C i) div BSIZE) din m = Some (x, din', m')"
    "freeblock m' \<le> freeblock m + next_blocks (length (C i))"
proof -
  note R = image_okD[OF ok]
  let ?n = "length (C i) div BSIZE"
  have part: "dslot (img m) din ?n \<noteq> 0" if "length (C i) mod BSIZE \<noteq> 0"
  proof -
    have "?n * BSIZE < length (C i)" using that by (metis div_mult_mod_eq less_add_same_cancel1 neq0_conv)
    then show ?thesis using R(7)[OF i n] by simp
  qed
  have fb': "freeblock m \<le> FSSIZE" using fb by simp
  show ?thesis
  proof (cases "?n < NDIRECT")
    case True
    obtain din' m' where na: "new_addr ?n din m = (din', m')" by fastforce
    have "freeblock m' \<le> freeblock m + next_blocks (length (C i))"
      using new_addr_room[OF na] part dslot_dir[OF True] True by (auto simp: next_blocks_def split: if_splits)
    then show ?thesis using na True that by (simp add: mk_bmap_def)
  next
    case False
    obtain din1 m1 where na: "new_addr NDIRECT din m = (din1, m1)" by fastforce
    note N = new_addr_ok[OF ok i order.refl fb' na]
    have ib: "unat (rd32 din1 (20 + 4 * NDIRECT)) < freeblock m1"
      using image_okD(3)[OF N(1) i, of MAXFILE] N(2) by (simp add: dslot_ib unat_eq_0)
    have pos: "0 < next_blocks (length (C i)) \<or> rd32 din (20 + 4 * NDIRECT) \<noteq> 0 \<and> rd32 (img m (unat (rd32 din (20 + 4 * NDIRECT)))) (4 * (?n - NDIRECT)) \<noteq> 0"
    proof (cases "length (C i) mod BSIZE = 0")
      case False
      then show ?thesis using part dslot_ind[of ?n "img m" din] \<open>\<not> ?n < NDIRECT\<close> n
        by (auto simp: dslot_ib split: if_splits)
    qed (simp add: next_blocks_def)
    have ptr: "rd32 din (20 + 4 * NDIRECT) \<noteq> 0" if "NDIRECT < ?n"
    proof -
      have "NDIRECT < MAXFILE" "NDIRECT * BSIZE < length (C i)" using that by simp_all
      then show ?thesis using R(7)[OF i, of NDIRECT] dslot_ind[of NDIRECT "img m" din] by (auto simp: dslot_ib split: if_splits)
    qed
    have fb1: "freeblock m1 \<le> freeblock m + (if rd32 din (20 + 4 * NDIRECT) = 0 then 1 else 0)" by (rule new_addr_room[OF na])
    have ptr0: "?n = NDIRECT \<and> next_blocks (length (C i)) = 2" if "rd32 din (20 + 4 * NDIRECT) = 0"
      using that ptr pos False by (auto simp: next_blocks_def not_less split: if_splits)
    then have ibl: "unat (rd32 din1 (20 + 4 * NDIRECT)) < FSSIZE" using ib fb fb1 by (auto split: if_splits)
    have "freeblock m1 + (if rd32 (img m1 (unat (rd32 din1 (20 + 4 * NDIRECT)))) (4 * (?n - NDIRECT)) = 0 then 1 else 0)
      \<le> freeblock m + next_blocks (length (C i))"
    proof (cases "rd32 din (20 + 4 * NDIRECT) = 0")
      case True
      then show ?thesis using fb1 ptr0 by simp
    next
      case False
      then have "din1 = din" "m1 = m" using na by (auto simp: new_addr_def)
      then show ?thesis using pos False by auto
    qed
    then show ?thesis using na False ibl N(4) ns that
      by (auto simp: mk_bmap_def rsect_def Let_def wsect_def split: if_splits)
  qed
qed

lemma iappend_loop_room:
  assumes "image_ok (img m) (freeblock m) I (D(i := din)) C" and "i \<in> I" and "off = length (C i)"
    and "nsect m = FSSIZE" and "off + length p \<le> MAXFILE * BSIZE"
    and "freeblock m + file_blocks (off + length p) \<le> FSSIZE + file_blocks off"
  shows "\<exists>din' off' m'. iappend_loop din off p m = Some (din', off', m')
    \<and> freeblock m' + file_blocks off \<le> freeblock m + file_blocks (off + length p)"
  using assms
proof (induction din off p m arbitrary: C rule: iappend_loop.induct)
  case (1 din off p m)
  show ?case
  proof (cases "p = []")
    case True
    then show ?thesis by (subst iappend_loop.simps) simp
  next
    case False
    define fbn where "fbn = off div BSIZE"
    define n1 where "n1 = min (length p) ((fbn + 1) * BSIZE - off)"
    have off: "fbn * BSIZE \<le> off" "off < (fbn + 1) * BSIZE" unfolding fbn_def by (simp, rule block_end)
    have n: "fbn < MAXFILE"
    proof -
      have "off < MAXFILE * BSIZE" using "1.prems"(5) False by (cases p) simp_all
      then show ?thesis unfolding fbn_def by (rule div_BSIZE_less)
    qed
    have n1: "0 < n1" "n1 \<le> length p" "off + n1 \<le> (fbn + 1) * BSIZE" using False off by (simp_all add: n1_def)
    have nx: "file_blocks (off + n1) = file_blocks off + next_blocks off"
      using file_blocks_next[OF n1(1)] n1(3) by (simp add: fbn_def)
    have mono: "file_blocks (off + n1) \<le> file_blocks (off + length p)" using n1(2) by (intro file_blocks_mono) simp
    have fb: "freeblock m + next_blocks off \<le> FSSIZE" using "1.prems"(6) nx mono by simp
    obtain x din1 m1 where bm: "mk_bmap fbn din m = Some (x, din1, m1)" and f1: "freeblock m1 \<le> freeblock m + next_blocks off"
      using mk_bmap_room[OF "1.prems"(1,2) _ _ "1.prems"(4)] n fb "1.prems"(3) by (auto simp: fbn_def)
    have fb': "freeblock m \<le> FSSIZE" using fb by simp
    note B = mk_bmap_ok[OF "1.prems"(1,2) n fb' "1.prems"(4) bm]
    have xl: "x < FSSIZE" using image_okD(3)[OF B(1) "1.prems"(2), of fbn] B(2,3) n f1 fb by simp
    let ?bs = "take n1 p" and ?a = "off - fbn * BSIZE"
    let ?m2 = "wsect x (blit (img m1 x) ?a ?bs) m1" and ?C = "C(i := C i @ take n1 p)"
    have m2: "img ?m2 = (img m1)(x := blit (img m1 x) ?a ?bs)" "freeblock ?m2 = freeblock m1" "nsect ?m2 = FSSIZE"
      using xl B(4) by (auto simp: wsect_def)
    have len: "length ?bs = n1" using n1 by simp
    have A: "image_ok (img ?m2) (freeblock ?m2) I (D(i := din1)) ?C" unfolding m2
    proof (rule image_write[OF B(1) "1.prems"(2) n])
      show "dslot (img m1) ((D(i := din1)) i) fbn = x" using B(2) by simp
      show "length (C i) = fbn * BSIZE + ?a" using off "1.prems"(3) by simp
      show "?a + length ?bs \<le> BSIZE" using off n1 unfolding len by simp
    qed (rule B(3))
    have L: "off + n1 = length (?C i)" using "1.prems"(3) len by simp
    have e: "off + n1 + length (drop n1 p) = off + length p" using n1 by simp
    have le: "off + n1 + length (drop n1 p) \<le> MAXFILE * BSIZE" using "1.prems"(5) unfolding e .
    have F: "freeblock ?m2 + file_blocks (off + n1 + length (drop n1 p)) \<le> FSSIZE + file_blocks (off + n1)"
      using "1.prems"(6) f1 unfolding e nx m2(2) by simp
    have rs: "rsect x m1 = Some (img m1 x)" "\<not> \<not> fbn < MAXFILE" using xl n B(4) by (simp_all add: rsect_def)
    obtain din' off' m' where r: "iappend_loop din1 (off + n1) (drop n1 p) ?m2 = Some (din', off', m')"
      "freeblock m' + file_blocks (off + n1) \<le> freeblock ?m2 + file_blocks (off + length p)"
      using "1.IH"[OF False fbn_def rs(2) bm refl refl n1_def rs(1) A "1.prems"(2) L m2(3) le F] unfolding e by blast
    have "iappend_loop din off p m = Some (din', off', m')"
      using False n bm rs(1) r(1) by (subst iappend_loop.simps) (simp add: Let_def n1_def flip: fbn_def)
    moreover have "freeblock m' + file_blocks off \<le> freeblock m + file_blocks (off + length p)"
      using r(2) f1 unfolding nx m2(2) by simp
    ultimately show ?thesis by blast
  qed
qed

lemma iappend_room:
  assumes inv: "mk_inv m C T" and i: "i \<in> {1..<freeinode m}" and len: "length (C i @ p) \<le> MAXFILE * BSIZE"
    and fb: "freeblock m + file_blocks (length (C i @ p)) \<le> FSSIZE + file_blocks (length (C i))"
  obtains m' where "iappend i p m = Some m'"
    "freeblock m' + file_blocks (length (C i)) \<le> freeblock m + file_blocks (length (C i @ p))"
proof -
  note I = mk_invD[OF inv]
  have il: "i < 204" using i I(3) by simp
  have sz: "unat (rd32 (dinode m i) 16) = length (C i)" using I(6)[OF i] by (simp add: head_ok_def)
  have ok: "image_ok (img m) (freeblock m) {1..<freeinode m} ((dinode m)(i := dinode m i)) C" using I(5) by simp
  obtain din off m1 where l: "iappend_loop (dinode m i) (length (C i)) p m = Some (din, off, m1)"
    and f: "freeblock m1 + file_blocks (length (C i)) \<le> freeblock m + file_blocks (length (C i) + length p)"
    using iappend_loop_room[OF ok i refl I(1), of p] len fb by auto
  have ns: "nsect m1 = FSSIZE" using iappend_loop_ok[OF l ok i refl I(4,1)] by blast
  obtain m' where "winode i (wr32 din 16 (of_nat off)) m1 = Some m'" "freeblock m' = freeblock m1"
    using winode_ok[OF il ns] by metis
  then show ?thesis using that[of m'] l f rinode_ok[OF il I(1)] sz by (simp add: iappend_def)
qed

section \<open>The whole run\<close>

lemma iappends_room:
  assumes "mk_inv m C T" and "i \<in> {1..<freeinode m}" and "length (C i @ concat ps) \<le> MAXFILE * BSIZE"
    and "freeblock m + file_blocks (length (C i @ concat ps)) \<le> FSSIZE + file_blocks (length (C i))"
  shows "\<exists>m'. fold_opt (iappend i) ps m = Some m'
    \<and> freeblock m' + file_blocks (length (C i)) \<le> freeblock m + file_blocks (length (C i @ concat ps))"
  using assms
proof (induction ps arbitrary: m C)
  case (Cons p ps)
  let ?C = "C(i := C i @ p)"
  have mono: "file_blocks (length (C i @ p)) \<le> file_blocks (length (C i @ concat (p # ps)))"
    by (rule file_blocks_mono) simp
  have len: "length (C i @ p) \<le> MAXFILE * BSIZE" using Cons.prems(3) by simp
  obtain m1 where m1: "iappend i p m = Some m1"
    "freeblock m1 + file_blocks (length (C i)) \<le> freeblock m + file_blocks (length (C i @ p))"
    using iappend_room[OF Cons.prems(1,2) len] Cons.prems(4) mono by auto
  note A = iappend_ok[OF Cons.prems(1,2) m1(1)]
  have e: "?C i @ concat ps = C i @ concat (p # ps)" "?C i = C i @ p" by simp_all
  have "\<exists>m'. fold_opt (iappend i) ps m1 = Some m'
    \<and> freeblock m' + file_blocks (length (?C i)) \<le> freeblock m1 + file_blocks (length (?C i @ concat ps))"
    by (rule Cons.IH[OF A[THEN conjunct1]]) (use A m1(2) Cons.prems in auto)
  then show ?case using m1 unfolding e by auto
qed simp

definition image_blocks :: "(byte list \<times> byte list list) list \<Rightarrow> nat" where
  "image_blocks files = file_blocks (DIRENT_SIZE * (2 + length files)) + (\<Sum>f \<leftarrow> files. file_blocks (length (concat (snd f))))"

lemma length_mk_dirent: "length (mk_dirent n nm) = DIRENT_SIZE"
  by (simp add: mk_dirent_def)

lemma length_root_entries: "length (root_entries files) = 2 + length files"
  unfolding root_entries_def by (simp del: upt_Suc)

lemma length_root: "length (image_contents files ROOTINO) = DIRENT_SIZE * (2 + length files)"
proof -
  have "length (concat (map (\<lambda>(n, nm). mk_dirent n nm) es)) = DIRENT_SIZE * length es" for es
    by (induction es) (auto simp: length_mk_dirent)
  then show ?thesis using length_root_entries[of files] by (simp add: image_contents_def)
qed

lemma add_file_room:
  assumes inv: "mk_inv m (image_contents files) image_type" and f: "freeinode m = 2 + length files" "length files < 202"
    and len: "length (concat (snd f)) \<le> MAXFILE * BSIZE"
    and fb: "freeblock m \<le> nmeta + image_blocks files" "nmeta + image_blocks (files @ [f]) \<le> FSSIZE"
  obtains m' where "add_file 1 f m = Some m'" "freeblock m' \<le> nmeta + image_blocks (files @ [f])"
proof -
  let ?i = "freeinode m" and ?C = "image_contents files"
  let ?d = "mk_dirent ?i (shortname (fst f))"
  obtain m1 where m1: "mk_ialloc T_FILE m = Some (?i, m1)" "mk_inv m1 (?C(?i := [])) (image_type(?i := T_FILE))"
    "freeinode m1 = ?i + 1" "freeblock m1 = freeblock m" using mk_ialloc_ok[OF inv] f by auto
  have one: "1 \<in> {1..<freeinode m1}" using m1(3) f(1) by simp
  have r: "length ((?C(?i := [])) 1) = DIRENT_SIZE * (2 + length files)" "length ((?C(?i := [])) 1 @ ?d) = DIRENT_SIZE * (3 + length files)"
    using length_root[of files] f(1) by (simp_all add: length_mk_dirent)
  have ib: "image_blocks (files @ [f]) + file_blocks (DIRENT_SIZE * (2 + length files))
      = image_blocks files + file_blocks (DIRENT_SIZE * (3 + length files)) + file_blocks (length (concat (snd f)))"
    by (simp add: image_blocks_def)
  obtain m2 where m2: "iappend 1 ?d m1 = Some m2"
    "freeblock m2 + file_blocks (DIRENT_SIZE * (2 + length files)) \<le> freeblock m1 + file_blocks (DIRENT_SIZE * (3 + length files))"
    by (rule iappend_room[OF m1(2) one, of ?d]) (unfold r, use fb ib m1(4) f(2) in auto)
  note A = iappend_ok[OF m1(2) one m2(1)]
  let ?C2 = "?C(?i := [], 1 := (?C(?i := [])) 1 @ ?d)"
  have i: "?i \<in> {1..<freeinode m2}" using A m1(3) f(1) by simp
  have c: "?C2 ?i = []" using f(1) by simp
  have z: "file_blocks 0 = 0" by (simp add: file_blocks_def)
  obtain m3 where m3: "fold_opt (iappend ?i) (snd f) m2 = Some m3"
    "freeblock m3 \<le> freeblock m2 + file_blocks (length (concat (snd f)))"
    using iappends_room[OF A[THEN conjunct1] i, of "snd f", unfolded c] len fb ib m1(4) m2(2) z by auto
  show ?thesis
  proof (rule that)
    show "add_file 1 f m = Some m3" using m1(1) m2(1) m3(1) by (simp add: add_file_def)
    show "freeblock m3 \<le> nmeta + image_blocks (files @ [f])" using m3(2) m2(2) m1(4) fb(1) ib by simp
  qed
qed

lemma image_blocks_snoc: "image_blocks files \<le> image_blocks (files @ [f])"
  using file_blocks_mono[of "DIRENT_SIZE * (2 + length files)" "DIRENT_SIZE * (2 + length (files @ [f]))"]
  by (simp add: image_blocks_def)

lemma add_files_room:
  assumes inv: "mk_inv m0 (image_contents []) image_type" "freeinode m0 = 2" "freeblock m0 \<le> nmeta + image_blocks []"
    and "length files \<le> 202" and "\<forall>f \<in> set files. length (concat (snd f)) \<le> MAXFILE * BSIZE"
    and "nmeta + image_blocks files \<le> FSSIZE"
  shows "\<exists>m. fold_opt (add_file 1) files m0 = Some m \<and> freeblock m \<le> nmeta + image_blocks files"
  using assms(4-)
proof (induction files rule: rev_induct)
  case Nil
  then show ?case using inv(3) by simp
next
  case (snoc f files)
  have r: "length files < 202" "nmeta + image_blocks files \<le> FSSIZE" using snoc.prems(1,3) image_blocks_snoc[of files f] by simp_all
  then obtain m1 where m1: "fold_opt (add_file 1) files m0 = Some m1" "freeblock m1 \<le> nmeta + image_blocks files"
    using snoc.IH snoc.prems(2) by auto
  note H = add_files_ok[OF m1(1) inv(1,2) less_imp_le[OF r(1)]]
  obtain m2 where "add_file 1 f m1 = Some m2" "freeblock m2 \<le> nmeta + image_blocks (files @ [f])"
    by (rule add_file_room[OF H[THEN conjunct1] _ r(1) _ m1(2) snoc.prems(3)]) (use H snoc.prems(2) in simp_all)
  then show ?case using m1(1) by (simp add: fold_opt_append)
qed

text \<open>The image before any file is added: the root with its two entries, in one block.\<close>

lemma mkfs_root:
  obtains m1 m2 m3 where "mk_ialloc T_DIR mk_empty = Some (ROOTINO, m1)" "iappend ROOTINO (mk_dirent ROOTINO [46]) m1 = Some m2"
    "iappend ROOTINO (mk_dirent ROOTINO [46, 46]) m2 = Some m3" "mk_inv m3 (image_contents []) image_type" "freeinode m3 = 2"
    "nmeta < freeblock m3" "freeblock m3 \<le> nmeta + image_blocks []"
proof -
  obtain m1 where m1: "mk_ialloc T_DIR mk_empty = Some (ROOTINO, m1)" "mk_inv m1 (\<lambda>_. []) image_type" "freeinode m1 = 2"
    "freeblock m1 = nmeta" by (rule root_made)
  let ?d1 = "mk_dirent ROOTINO [46]" and ?d2 = "mk_dirent ROOTINO [46, 46]"
  have fbs: "file_blocks 0 = 0" "file_blocks 16 = 1" "file_blocks 32 = 1" by (simp_all add: file_blocks_def)
  have r1: "ROOTINO \<in> {1..<freeinode m1}" using m1(3) by simp
  obtain m2 where m2: "iappend ROOTINO ?d1 m1 = Some m2" "freeblock m2 \<le> nmeta + 1"
    by (rule iappend_room[OF m1(2) r1, of ?d1]) (simp_all add: length_mk_dirent m1(4) fbs)
  note A = iappend_ok[OF m1(2) r1 m2(1)]
  have r2: "ROOTINO \<in> {1..<freeinode m2}" using A m1(3) by simp
  obtain m3 where m3: "iappend ROOTINO ?d2 m2 = Some m3" "freeblock m3 \<le> nmeta + 1"
    by (rule iappend_room[OF A[THEN conjunct1] r2, of ?d2]) (use m2(2) in \<open>simp_all add: length_mk_dirent fbs\<close>)
  note inv = dots_made[OF m1(2,3) m2(1) m3(1)]
  note R = image_okD[OF mk_invD(5)[OF inv(1)]]
  have "dslot (img m3) (dinode m3 1) 0 \<noteq> 0" using R(7)[of 1 0] inv(2) length_root[of "[]"] by fastforce
  then have "nmeta < freeblock m3" using R(3)[of 1 0] inv(2) by simp
  then show ?thesis using that m1(1) m2(1) m3 inv by (simp add: image_blocks_def fbs)
qed

lemma mkfs_fits:
  assumes "length files \<le> 202" and "\<forall>f \<in> set files. length (concat (snd f)) \<le> MAXFILE * BSIZE"
    and "image_blocks files + 2 * MAXFILE \<le> nblocks"
  shows "\<exists>m. mkfs files = Some m"
proof -
  obtain m1 m2 m3 where r: "mk_ialloc T_DIR mk_empty = Some (ROOTINO, m1)" "iappend ROOTINO (mk_dirent ROOTINO [46]) m1 = Some m2"
    "iappend ROOTINO (mk_dirent ROOTINO [46, 46]) m2 = Some m3" and inv: "mk_inv m3 (image_contents []) image_type" "freeinode m3 = 2"
    and f: "nmeta < freeblock m3" "freeblock m3 \<le> nmeta + image_blocks []" by (rule mkfs_root)
  obtain m4 where m4: "fold_opt (add_file ROOTINO) files m3 = Some m4" "freeblock m4 \<le> nmeta + image_blocks files"
    using add_files_room[OF inv f(2) assms(1,2)] assms(3) by auto
  have ns: "nsect m4 = FSSIZE" using mk_invD(1) add_files_ok[OF m4(1) inv assms(1)] by blast
  have c: "\<not> nblocks - (freeblock m4 - freeblock m3) < 2 * MAXFILE" using m4(2) f(1) assms(3) by simp
  have rd: "rinode ROOTINO m4 = Some (dinode m4 1)" by (rule rinode_ok) (simp_all add: ns)
  let ?din = "wr32 (dinode m4 1) 16 (of_nat ((unat (rd32 (dinode m4 1) 16) div BSIZE + 1) * BSIZE))"
  obtain m5 where m5: "winode ROOTINO ?din m4 = Some m5" "freeblock m5 = freeblock m4"
    by (rule winode_ok[of ROOTINO m4 ?din]) (simp_all add: ns)
  have "freeblock m5 < BSIZE * 8" using m4(2) assms(3) m5(2) by simp
  then show ?thesis using r m4(1) c rd m5(1) by (simp add: mkfs_def Let_def mk_balloc_def)
qed

text \<open>An image with one file, \<open>_a\<close>, of two bytes.\<close>

definition demo_files :: "(byte list \<times> byte list list) list" where
  "demo_files = [([95, 97], [[104, 105]])]"

lemma demo_files_fit: "length demo_files = 1" "\<forall>f \<in> set demo_files. length (concat (snd f)) \<le> MAXFILE * BSIZE"
  "image_blocks demo_files + 2 * MAXFILE \<le> nblocks"
  by (simp_all add: demo_files_def image_blocks_def file_blocks_def)

lemma demo_mkfs: "\<exists>m. mkfs demo_files = Some m"
  using mkfs_fits[of demo_files] demo_files_fit by simp

text \<open>
  C33: \<open>mkfs\<close> builds the image whenever it can: with at most 202 files, none longer than the format allows,
  that together with the root directory leave room for two files of the largest size, no assertion fails, no block
  behind the end of the image is used, and the run comes to its end.
\<close>

theorem mkfs_succeeds:
  assumes "length files \<le> 202" and "\<forall>f \<in> set files. length (concat (snd f)) \<le> MAXFILE * BSIZE"
    and "image_blocks files + 2 * MAXFILE \<le> nblocks"
  shows "\<exists>m. mkfs files = Some m"
  by (rule mkfs_fits[OF assms])

theorem mkfs_succeeds_witness: "\<exists>m. mkfs [([95, 97], [[104, 105]])] = Some m"
  using mkfs_succeeds[of demo_files] demo_files_fit by (simp add: demo_files_def)

end
