(* ===== verification/MkfsBoot.thy ===== *)
theory MkfsBoot imports MkfsRoom begin

text \<open>
  The kernel on the image that \<open>mkfs\<close> made: the invariants the file system's theorems assume hold when it
  starts, and the files of the host are there.
\<close>

section \<open>Starting the kernel\<close>

text \<open>The state of the file system when the machine starts: nothing but the disk.\<close>

definition power_on :: "(nat \<Rightarrow> mem) \<Rightarrow> fsst" where
  "power_on d = \<lparr>disk = d, cache = d, pin = (\<lambda>_. 0), hist = [], lstart = 0, lsize = 0, outstanding = 0,
     committing = False, ncommit = 0, lh = [], sb = decode_sb (\<lambda>_. 0), itab = (\<lambda>_. blank_inode)\<rparr>"

lemma decode_mk_sb: "decode_sb (sb_bytes mk_sb) = mk_sb"
  by (simp add: decode_sb_def sb_bytes_def mem_simps) (simp add: mk_sb_def)

lemma mk_sb_fields: "sb_size mk_sb = FSSIZE" "sb_ninodes mk_sb = NINODES" "sb_inodestart mk_sb = 32" "sb_bmapstart mk_sb = 83"
  "sb_magic mk_sb = FSMAGIC" "sb_logstart mk_sb = 2" "sb_nlog mk_sb = 30"
  by (simp_all add: mk_sb_def)

lemma fsinit_mkfs:
  assumes "mkfs files = Some m" and "length files \<le> 202"
  obtains st where "fsinit (power_on (img m)) = Some st" "cache st = img m" "sb st = mk_sb" "itab st = (\<lambda>_. blank_inode)" "lh st = []"
proof -
  note M = mkfs_ok[OF assms]
  have z: "hdr_get (\<lambda>_. 0) = []" "hdr_put [] (\<lambda>_. 0) = (\<lambda>_. 0)" by (simp_all add: hdr_get_def hdr_put_def rd32_def wr32_def fun_eq_iff)
  let ?st = "(power_on (img m))\<lparr>sb := mk_sb, lstart := 2, lsize := 30, hist := [(2, \<lambda>_. 0)]\<rparr>"
  have "(img m)(2 := \<lambda>_. 0) = img m" using M(4) by (auto simp: fun_eq_iff)
  then have "fsinit (power_on (img m)) = Some ?st"
    using M(3,4) by (simp add: fsinit_def readsb_def bread_def decode_mk_sb power_on_def initlog_def recover_from_log_def read_head_def
        install_trans_def write_head_def log_bwrite_def bset_def z Let_def mk_sb_fields)
  then show ?thesis by (rule that) (simp_all add: power_on_def)
qed

definition has_image :: "mkimg \<Rightarrow> 'a fsst_scheme \<Rightarrow> bool" where
  "has_image m st \<longleftrightarrow> cache st = img m \<and> sb st = mk_sb"

lemma boot_used:
  assumes "mkfs files = Some m" and "length files \<le> 202" and "has_image m st" and "b < FSSIZE"
  shows "used st b \<longleftrightarrow> b < freeblock m"
proof -
  have "8 * (b mod BPB div 8) + b mod 8 = b" using assms(4) by simp
  then show ?thesis
    using mkfs_ok(5)[OF assms(1,2)] assms(3,4) bit_bitmap[of "b mod 8" "freeblock m" "b mod BPB div 8"]
    by (simp add: used_def has_image_def bread_def mk_sb_fields)
qed

lemma boot_dstart: "has_image m st \<Longrightarrow> dstart st = nmeta"
  by (simp add: dstart_def has_image_def mk_sb_fields)

lemma boot_fs_ok:
  assumes "mkfs files = Some m" and "length files \<le> 202" and "has_image m st"
  shows "fs_ok st"
proof -
  have "nmeta \<le> freeblock m" using image_okD(1)[OF mkfs_ok(1)[OF assms(1,2)]] .
  then show ?thesis using boot_used[OF assms] assms(3) unfolding fs_ok_def boot_dstart[OF assms(3)]
    by (simp add: has_image_def mk_sb_fields)
qed

section \<open>Inodes read in\<close>

text \<open>Entry \<open>ip\<close> of the kernel's table holds inode \<open>i\<close> of the image.\<close>

definition loaded :: "mkimg \<Rightarrow> nat \<Rightarrow> 'a fsst_scheme \<Rightarrow> nat \<Rightarrow> bool" where
  "loaded m i st ip \<longleftrightarrow> inum (itab st ip) = i \<and> isize (itab st ip) = rd32 (dinode m i) 16 \<and> itype (itab st ip) = rd16 (dinode m i) 0
     \<and> (\<forall>n \<le> NDIRECT. iaddrs (itab st ip) n = rd32 (dinode m i) (20 + 4 * n))"

lemma loaded_slot: "loaded m i st ip \<Longrightarrow> has_image m st \<Longrightarrow> s \<le> MAXFILE \<Longrightarrow> slot st ip s = dslot (img m) (dinode m i) s"
  by (simp add: loaded_def has_image_def slot_def dslot_def bread_def Let_def)

lemma loaded_fdata:
  "loaded m i st ip \<Longrightarrow> has_image m st \<Longrightarrow> k < MAXFILE * BSIZE \<Longrightarrow> fdata st ip k = dbyte (img m) (dinode m i) k"
  using div_BSIZE_less[of k] loaded_slot[of m i st ip "k div BSIZE"] by (simp add: fdata_def dbyte_def has_image_def)

lemma loaded_ok:
  assumes mk: "mkfs files = Some m" and n: "length files \<le> 198" and im: "has_image m st"
    and i: "i \<in> {1..<2 + length files}" and l: "loaded m i st ip"
  shows "inode_ok st ip" "k < MAXFILE * BSIZE \<Longrightarrow> fdata st ip k = (if k < length (image_contents files i) then image_contents files i ! k else 0)"
    "s < MAXFILE \<Longrightarrow> s * BSIZE < length (image_contents files i) \<Longrightarrow> slot st ip s \<noteq> 0" "length (image_contents files i) \<le> MAXFILE * BSIZE"
proof -
  have n': "length files \<le> 202" using n by simp
  note M = mkfs_ok[OF mk n']
  note R = image_okD[OF M(1)]
  show "k < MAXFILE * BSIZE \<Longrightarrow> fdata st ip k = (if k < length (image_contents files i) then image_contents files i ! k else 0)"
    using loaded_fdata[OF l im] R(6)[OF i] by simp
  show "s < MAXFILE \<Longrightarrow> s * BSIZE < length (image_contents files i) \<Longrightarrow> slot st ip s \<noteq> 0"
    using loaded_slot[OF l im] R(7)[OF i] by simp
  show "length (image_contents files i) \<le> MAXFILE * BSIZE" by (rule R(5)[OF i])
  show "inode_ok st ip" unfolding inode_ok_def boot_dstart[OF im]
  proof (intro conjI allI impI)
    show "inum (itab st ip) < sb_ninodes (sb st)" using l i n im by (simp add: loaded_def has_image_def mk_sb_fields)
    fix s assume s: "s \<le> MAXFILE" "slot st ip s \<noteq> 0"
    then have r: "nmeta \<le> slot st ip s" "slot st ip s < freeblock m" using R(3)[OF i s(1)] loaded_slot[OF l im s(1)] by simp_all
    then show "nmeta \<le> slot st ip s" "slot st ip s < sb_size (sb st)" using M(6) im by (simp_all add: has_image_def mk_sb_fields)
    show "used st (slot st ip s)" using boot_used[OF mk n' im, of "slot st ip s"] r M(6) by simp
    fix t assume "t \<le> MAXFILE" "slot st ip s = slot st ip t"
    then show "s = t" using R(4)[OF i i s(1)] s loaded_slot[OF l im] by simp
  qed
qed

text \<open>\<open>iget\<close> and \<open>ilock\<close> of an inode that is not in the table.\<close>

lemma rd_shift:
  "a + 2 \<le> DINODE_SIZE \<Longrightarrow> rd16 (\<lambda>x. if x < DINODE_SIZE then b (c + x) else 0) a = rd16 b (c + a)"
  "a + 4 \<le> DINODE_SIZE \<Longrightarrow> rd32 (\<lambda>x. if x < DINODE_SIZE then b (c + x) else 0) a = rd32 b (c + a)"
  by (simp_all add: rd16_def rd32_def add.assoc)

lemma ilock_loads:
  assumes mk: "mkfs files = Some m" and n: "length files \<le> 202" and im: "has_image m st"
    and i: "i \<in> {1..<2 + length files}" and e: "iref (itab st ip) = 1" "\<not> ilocked (itab st ip)" "\<not> ivalid (itab st ip)" "inum (itab st ip) = i"
  obtains st' where "ilock ip st = Some st'" "has_image m st'" "loaded m i st' ip" "\<And>jp. jp \<noteq> ip \<Longrightarrow> itab st' jp = itab st jp"
    "iref (itab st' ip) = 1" "idev (itab st' ip) = idev (itab st ip)"
proof -
  let ?b = "img m (mk_iblock i)" and ?o = "dinode_off i"
  define i' where "i' = (load_dinode ?o ?b ((itab st ip)\<lparr>ilocked := True\<rparr>))\<lparr>ivalid := True\<rparr>"
  define st1 where "st1 = iset ip (ilocked_update (\<lambda>_. True)) st"
  have s1: "itab st1 ip = (itab st ip)\<lparr>ilocked := True\<rparr>" "bread st1 (IBLOCK i st1) = ?b"
    using im by (simp_all add: st1_def iset_def bread_def IBLOCK_def mk_iblock_def has_image_def)
  have rd: "rd16 ?b ?o = rd16 (dinode m i) 0" "rd32 ?b (?o + 16) = rd32 (dinode m i) 16"
    "\<And>k. k \<le> NDIRECT \<Longrightarrow> rd32 ?b (?o + 20 + 4 * k) = rd32 (dinode m i) (20 + 4 * k)"
    using rd_shift(1)[of 0 ?b "i mod 4 * 256"] rd_shift(2)[of _ ?b "i mod 4 * 256"] by (simp_all add: dinode_def dinode_off_def add.assoc)
  have ity: "itype (load_dinode ?o ?b x) = rd16 ?b ?o" for x by (simp add: load_dinode_def)
  have "head_ok (dinode m i) (image_type i)
      (if i = ROOTINO then round_up (length (image_contents files i)) else length (image_contents files i))"
    by (rule mkfs_ok(2)[OF mk n i])
  then have "rd16 ?b ?o \<noteq> 0" using rd(1) by (simp add: head_ok_def image_type_def)
  then have "ilock ip st = Some (iset ip (\<lambda>_. i') st1)"
    using e s1 ity by (simp add: ilock_def Let_def i'_def flip: st1_def)
  then show ?thesis
  proof (rule that)
    show "loaded m i (iset ip (\<lambda>_. i') st1) ip"
      using rd e(4) by (simp add: loaded_def iset_def i'_def load_dinode_def)
  qed (use im e in \<open>simp_all add: has_image_def iset_def i'_def st1_def load_dinode_def\<close>)
qed

lemma iget_fresh:
  assumes "ip < NINODE" "iref (itab st ip) = 0" and "\<And>jp. \<not> refers st jp d n"
  obtains jp where "iget d n st = Some (jp, iset jp (\<lambda>i. i\<lparr>idev := d, inum := n, iref := 1, ivalid := False\<rparr>) st)"
    "jp < NINODE" "iref (itab st jp) = 0"
proof -
  obtain jp st' where g: "iget d n st = Some (jp, st')" using assms(1,2) iget_None[of d n st] by fastforce
  from g show ?thesis by (rule iget_cases) (use that g assms(3) in auto)
qed

section \<open>The root directory\<close>

lemma concat_blocks:
  assumes "\<forall>xs \<in> set xss. length xs = d"
  shows "length (concat xss) = d * length xss" "k < length xss \<Longrightarrow> c < d \<Longrightarrow> concat xss ! (d * k + c) = xss ! k ! c"
proof -
  show "length (concat xss) = d * length xss" using assms by (induction xss) auto
  show "concat xss ! (d * k + c) = xss ! k ! c" if "k < length xss" "c < d" using assms that
  proof (induction xss arbitrary: k)
    case (Cons xs xss)
    then show ?case by (cases k) (auto simp: nth_append)
  qed simp
qed

text \<open>The name of a file in the image.\<close>

definition fname :: "byte list \<times> byte list list \<Rightarrow> byte list" where
  "fname f = take DIRSIZ (shortname (fst f))"

lemma root_entries_nth:
  assumes "j < length files"
  shows "root_entries files ! (2 + j) = (2 + j, shortname (fst (files ! j)))"
  using assms by (simp add: root_entries_def nth_Cons' del: upt_Suc)

lemma root_contents:
  shows "length (image_contents files ROOTINO) = DIRENT_SIZE * (2 + length files)"
    "k < 2 + length files \<Longrightarrow> c < DIRENT_SIZE \<Longrightarrow>
       image_contents files ROOTINO ! (DIRENT_SIZE * k + c) = (case root_entries files ! k of (n, nm) \<Rightarrow> mk_dirent n nm) ! c"
proof -
  have "\<forall>xs \<in> set (map (\<lambda>(n, nm). mk_dirent n nm) (root_entries files)). length xs = DIRENT_SIZE"
    by (auto simp: length_mk_dirent)
  note B = concat_blocks[OF this]
  show "length (image_contents files ROOTINO) = DIRENT_SIZE * (2 + length files)"
    unfolding image_contents_def using B(1) length_root_entries[of files] by simp
  show "image_contents files ROOTINO ! (DIRENT_SIZE * k + c) = (case root_entries files ! k of (n, nm) \<Rightarrow> mk_dirent n nm) ! c"
    if "k < 2 + length files" "c < DIRENT_SIZE"
    unfolding image_contents_def using B(2)[of k c] that length_root_entries[of files] by simp
qed

lemma dirent_num: "rd16 (\<lambda>c. if c < DIRENT_SIZE then mk_dirent n nm ! c else z c) 0 = of_nat n"
proof -
  have "rd16 (\<lambda>c. if c < DIRENT_SIZE then mk_dirent n nm ! c else z c) 0 = rd16 (wr16 (\<lambda>_. 0) 0 (of_nat n)) 0"
    by (rule rd16_cong) (auto simp: less_2_cases_iff mk_dirent_def wr16_def)
  then show ?thesis by (simp add: mem_simps)
qed

lemma dirent_name:
  assumes "0 \<notin> set nm"
  shows "cstrn (\<lambda>c. mk_dirent n nm ! (2 + c)) DIRSIZ = take DIRSIZ nm"
proof -
  have "map (\<lambda>c. mk_dirent n nm ! (2 + c)) [0..<DIRSIZ] = take DIRSIZ nm @ replicate (DIRSIZ - length nm) 0"
    by (rule nth_equalityI) (auto simp: mk_dirent_def nth_append)
  moreover have "takeWhile (\<lambda>c. c \<noteq> 0) (take DIRSIZ nm @ replicate k 0) = take DIRSIZ nm" for k
    using assms by (subst takeWhile_append2) (auto dest: in_set_takeD simp: takeWhile_eq_Nil_iff)
  ultimately show ?thesis by (simp add: cstrn_def)
qed

lemma cstrn_name:
  assumes "0 \<notin> set nm" "length nm \<le> n"
  shows "cstrn (view nm) n = nm"
proof -
  have "map (view nm) [0..<n] = nm @ replicate (n - length nm) 0"
    by (rule nth_equalityI) (use assms(2) in \<open>auto simp: view_def nth_append\<close>)
  moreover have "takeWhile (\<lambda>c. c \<noteq> 0) (nm @ replicate k 0) = nm" for k
    using assms(1) by (subst takeWhile_append2) (auto simp: takeWhile_eq_Nil_iff)
  ultimately show ?thesis by (simp add: cstrn_def)
qed

text \<open>The directory, as the kernel sees it once it is read in.\<close>

lemma boot_root:
  assumes mk: "mkfs files = Some m" and n: "length files \<le> 198" "(length files + 2) mod 64 \<noteq> 0"
    and im: "has_image m st" and l: "loaded m ROOTINO st dp"
    and names: "\<forall>f \<in> set files. 0 \<notin> set (shortname (fst f))"
  shows "dir_ok st dp" "2 + length files \<le> ndent st dp"
    "k < 2 + length files \<Longrightarrow> dent_num st dp k = of_nat (fst (root_entries files ! k))"
    "k < 2 + length files \<Longrightarrow> dent_name st dp k = take DIRSIZ (snd (root_entries files ! k))"
proof -
  have i: "ROOTINO \<in> {1..<2 + length files}" by simp
  note L = loaded_ok[OF mk n(1) im i l]
  let ?len = "DIRENT_SIZE * (2 + length files)"
  have n': "length files \<le> 202" using n by simp
  have h: "head_ok (dinode m 1) T_DIR (round_up ?len)"
    using mkfs_ok(2)[OF mk n' i] root_contents(1)[of files] by (simp add: image_type_def)
  then have sz: "unat (isize (itab st dp)) = round_up ?len" and ty: "itype (itab st dp) = T_DIR"
    using l by (simp_all add: loaded_def head_ok_def)
  have "?len div BSIZE \<le> 3200 div BSIZE" by (rule div_le_mono) (use n(1) in simp)
  then have ru: "?len \<le> round_up ?len" "round_up ?len \<le> MAXFILE * BSIZE" "DIRENT_SIZE dvd round_up ?len"
    unfolding round_up_def using block_end[of ?len] by (simp, simp, intro dvd_mult, simp)
  have "slot st dp s \<noteq> 0" if "s < MAXFILE" "s * BSIZE < round_up ?len" for s
  proof (rule L(3)[OF that(1)])
    have "s * BSIZE < ?len"
    proof (rule ccontr)
      assume "\<not> s * BSIZE < ?len"
      moreover have "s \<le> ?len div BSIZE" using that(2) by (simp add: round_up_def)
      ultimately have "?len = s * BSIZE" by (simp add: not_less)
      then have "length files + 2 = s * 64" by simp
      then show False using n(2) by simp
    qed
    then show "s * BSIZE < length (image_contents files ROOTINO)" using root_contents(1) by simp
  qed
  then show "dir_ok st dp" using L(1) ty ru sz by (simp add: dir_ok_def dense_def)
  show "2 + length files \<le> ndent st dp" using ru(1) by (simp add: ndent_def sz)
  obtain e nm where en: "root_entries files ! k = (e, nm)" by fastforce
  have fd: "fdata st dp (DIRENT_SIZE * k + c) = mk_dirent e nm ! c" if "k < 2 + length files" "c < DIRENT_SIZE" for c
  proof -
    have "DIRENT_SIZE * k + c < ?len" using that by simp
    then show ?thesis using L(2)[of "DIRENT_SIZE * k + c"] L(4) root_contents(1)[of files] root_contents(2)[OF that] en by simp
  qed
  show "dent_num st dp k = of_nat (fst (root_entries files ! k))" if k: "k < 2 + length files"
  proof -
    have "dent_num st dp k = rd16 (\<lambda>c. if c < DIRENT_SIZE then mk_dirent e nm ! c else 0) 0"
      unfolding dent_num_def by (rule rd16_cong) (simp add: fd[OF k])
    then show ?thesis by (simp add: dirent_num en)
  qed
  show "dent_name st dp k = take DIRSIZ (snd (root_entries files ! k))" if k: "k < 2 + length files"
  proof -
    have "nm \<in> snd ` set (root_entries files)" using en k length_root_entries[of files] by (metis nth_mem rev_image_eqI snd_conv)
    then have nm0: "0 \<notin> set nm" using names by (auto simp: root_entries_def dest!: set_zip_rightD)
    have dn: "dent_name st dp k = cstrn (\<lambda>c. mk_dirent e nm ! (2 + c)) DIRSIZ"
      unfolding dent_name_def
    proof (rule cstrn_cong)
      fix c :: nat assume "c < DIRSIZ"
      then show "fdata st dp (DIRENT_SIZE * k + 2 + c) = mk_dirent e nm ! (2 + c)" using fd[OF k, of "2 + c"] by (simp add: add.assoc)
    qed
    show ?thesis unfolding en snd_conv dn by (rule dirent_name[OF nm0])
  qed
qed

section \<open>From the host's files to the kernel's\<close>

lemma boot_lookup:
  assumes mk: "mkfs files = Some m" and n: "length files \<le> 198" "(length files + 2) mod 64 \<noteq> 0"
    and im: "has_image m st" and l: "loaded m ROOTINO st dp"
    and names: "distinct (map fname files)" "\<forall>f \<in> set files. 0 \<notin> set (shortname (fst f)) \<and> fname f \<noteq> [46] \<and> fname f \<noteq> [46, 46]"
    and j: "j < length files"
  shows "dir_find st dp (fname (files ! j)) = Some (2 + j) \<and> unat (dent_num st dp (2 + j)) = 2 + j"
proof -
  have nz: "\<forall>f \<in> set files. 0 \<notin> set (shortname (fst f))" using names(2) by blast
  note B = boot_root[OF mk n im l nz]
  have u: "unat (of_nat x :: u16) = x" if "x < 2 ^ 16" for x using that by (simp add: unat_of_nat take_bit_nat_eq_self)
  have "dent_num st dp (2 + j) = of_nat (2 + j)" using B(3)[of "2 + j"] j unfolding root_entries_nth[OF j] fst_conv by (simp del: of_nat_add)
  then have num: "unat (dent_num st dp (2 + j)) = 2 + j" using u[of "2 + j"] j n(1) by simp
  have nm: "dent_name st dp (2 + i) = fname (files ! i)" if "i < length files" for i
    using B(4)[of "2 + i"] root_entries_nth[OF that] that by (simp add: fname_def)
  have dots: "dent_name st dp 0 = [46]" "dent_name st dp 1 = [46, 46]"
    using B(4)[of 0] B(4)[of 1] by (simp_all add: root_entries_def)
  have "dent_name st dp k \<noteq> fname (files ! j)" if "k < 2 + j" for k
  proof -
    consider "k = 0" | "k = 1" | "2 \<le> k" by linarith
    then show ?thesis
    proof cases
      case 3
      then obtain i where i: "k = 2 + i" by (rule le_Suc_ex[elim_format]) blast
      then have "fname (files ! i) \<noteq> fname (files ! j)" using names(1) j that by (auto simp: distinct_conv_nth)
      then show ?thesis using nm[of i] i j that by simp
    qed (use dots names(2) j nth_mem[OF j] in auto)
  qed
  moreover have "dent_num st dp (2 + j) \<noteq> 0" using num by (metis unat_0 add_is_0 numeral_eq_iff zero_neq_numeral)
  ultimately have "dir_find st dp (fname (files ! j)) = Some (2 + j)"
    unfolding dir_find_def find_Some_iff using B(2) j nm[OF j] by (intro exI[of _ "2 + j"]) auto
  then show ?thesis using num by simp
qed

text \<open>\<open>iget\<close> and \<open>ilock\<close> of an inode that is not in the table, whose free entries are blank.\<close>

lemma open_inode:
  assumes mk: "mkfs files = Some m" and n: "length files \<le> 202" and im: "has_image m st"
    and i: "i \<in> {1..<2 + length files}" and free: "a < NINODE" "iref (itab st a) = 0"
    and new: "\<And>jp. \<not> refers st jp ROOTDEV i" and blank: "\<And>jp. iref (itab st jp) = 0 \<Longrightarrow> itab st jp = blank_inode"
  obtains ip st1 st2 where "iget ROOTDEV i st = Some (ip, st1)" "ilock ip st1 = Some st2" "has_image m st2" "loaded m i st2 ip"
    "ip < NINODE" "iref (itab st ip) = 0" "iref (itab st2 ip) = 1" "idev (itab st2 ip) = ROOTDEV" "\<And>jp. jp \<noteq> ip \<Longrightarrow> itab st2 jp = itab st jp"
proof -
  obtain ip where g: "iget ROOTDEV i st = Some (ip, iset ip (\<lambda>x. x\<lparr>idev := ROOTDEV, inum := i, iref := 1, ivalid := False\<rparr>) st)"
    and ip: "ip < NINODE" "iref (itab st ip) = 0" using iget_fresh[OF free new] by blast
  define st1 where "st1 = iset ip (\<lambda>x. x\<lparr>idev := ROOTDEV, inum := i, iref := 1, ivalid := False\<rparr>) st"
  have s1: "has_image m st1" "iref (itab st1 ip) = 1" "\<not> ilocked (itab st1 ip)" "\<not> ivalid (itab st1 ip)" "inum (itab st1 ip) = i"
    "idev (itab st1 ip) = ROOTDEV" "\<And>jp. jp \<noteq> ip \<Longrightarrow> itab st1 jp = itab st jp"
    using im blank[OF ip(2)] by (simp_all add: st1_def iset_def has_image_def blank_inode_def)
  obtain st2 where "ilock ip st1 = Some st2" "has_image m st2" "loaded m i st2 ip" "\<And>jp. jp \<noteq> ip \<Longrightarrow> itab st2 jp = itab st1 jp"
    "iref (itab st2 ip) = 1" "idev (itab st2 ip) = idev (itab st1 ip)" by (rule ilock_loads[OF mk n s1(1) i s1(2,3,4,5)]) blast
  then show ?thesis using that[of ip st1 st2] g[folded st1_def] ip s1(6,7) by simp
qed

text \<open>Reading a file of the image gives the bytes it was made of.\<close>

lemma read_loaded:
  assumes mk: "mkfs files = Some m" and n: "length files \<le> 198" and im: "has_image m st"
    and j: "j < length files" and l: "loaded m (2 + j) st ip"
  shows "itype (itab st ip) = T_FILE" "inode_ok st ip" "dense st ip"
    "readi ip kcopyout dst 0 (isize (itab st ip)) st mem
       = Some (int (length (concat (snd (files ! j)))), st, blit mem dst (concat (snd (files ! j))))"
proof -
  have n': "length files \<le> 202" using n by simp
  have i: "2 + j \<in> {1..<2 + length files}" using j by simp
  let ?c = "concat (snd (files ! j))"
  have c: "image_contents files (2 + j) = ?c" using j by (simp add: image_contents_def)
  note L = loaded_ok[OF mk n im i l, unfolded c]
  have h: "head_ok (dinode m (2 + j)) T_FILE (length ?c)" using mkfs_ok(2)[OF mk n' i] c by (simp add: image_type_def)
  then have sz: "unat (isize (itab st ip)) = length ?c" using l by (simp add: loaded_def head_ok_def)
  show "itype (itab st ip) = T_FILE" using h l by (simp add: loaded_def head_ok_def)
  show "inode_ok st ip" by (rule L(1))
  show dn: "dense st ip" using L(3,4) sz by (simp add: dense_def)
  have rl: "rd_len (isize (itab st ip)) 0 (isize (itab st ip)) = length ?c" using L(4) sz by (simp add: rd_len_def)
  have "fdata st ip k = ?c ! k" if "k < length ?c" for k using L(2)[of k] L(4) that by simp
  then show "readi ip kcopyout dst 0 (isize (itab st ip)) st mem = Some (int (length ?c), st, blit mem dst ?c)"
    using readi_effect[OF boot_fs_ok[OF mk n' im] L(1) dn, of dst 0 "isize (itab st ip)" mem] unfolding rl
    by (auto simp: blit_def fun_eq_iff)
qed

lemma dirlookup_root:
  assumes mk: "mkfs files = Some m" and n: "length files \<le> 198" "(length files + 2) mod 64 \<noteq> 0"
    and im: "has_image m st" and l: "loaded m ROOTINO st dp" "idev (itab st dp) = ROOTDEV"
    and names: "distinct (map fname files)" "\<forall>f \<in> set files. 0 \<notin> set (shortname (fst f)) \<and> fname f \<noteq> [46] \<and> fname f \<noteq> [46, 46]"
    and j: "j < length files" and g: "iget ROOTDEV (2 + j) st = Some (ip, st')"
  shows "dirlookup dp (view (fname (files ! j))) st = Some (Some (ip, DIRENT_SIZE * (2 + j)), st')"
proof -
  have n': "length files \<le> 202" using n(1) by simp
  have "\<forall>f \<in> set files. 0 \<notin> set (shortname (fst f))" using names(2) by blast
  then have d: "dir_ok st dp" by (rule boot_root(1)[OF mk n im l(1)])
  have nm: "cstrn (view (fname (files ! j))) DIRSIZ = fname (files ! j)"
    by (rule cstrn_name) (use names(2) nth_mem[OF j] in \<open>auto simp: fname_def dest: in_set_takeD\<close>)
  show ?thesis
    using dirlookup_from_find[OF boot_fs_ok[OF mk n' im] d, of 0 "view (fname (files ! j))" "\<lambda>_. 0"] d
      boot_lookup[OF mk n im l(1) names j] g l(2)
    by (simp add: dirlookup_def dir_ok_def dir_find_def nm)
qed

section \<open>Properties\<close>

text \<open>The kernel's state with inode \<open>i\<close> read into the first entry of its table.\<close>

definition with_inode :: "nat \<Rightarrow> fsst \<Rightarrow> fsst" where
  "with_inode i st = iset 0 (\<lambda>_. (on_disk st i)\<lparr>inum := i\<rparr>) st"

lemma with_inode_loaded:
  assumes "has_image m st"
  shows "loaded m i (with_inode i st) 0" "has_image m (with_inode i st)"
proof -
  have bl: "IBLOCK i st = mk_iblock i" using assms by (simp add: IBLOCK_def mk_iblock_def has_image_def)
  have "rd16 (img m (mk_iblock i)) (dinode_off i) = rd16 (dinode m i) 0" "rd32 (img m (mk_iblock i)) (dinode_off i + 16) = rd32 (dinode m i) 16"
    "\<And>k. k \<le> NDIRECT \<Longrightarrow> rd32 (img m (mk_iblock i)) (dinode_off i + 20 + 4 * k) = rd32 (dinode m i) (20 + 4 * k)"
    using rd_shift(1)[of 0 "img m (mk_iblock i)" "i mod 4 * 256"] rd_shift(2)[of _ "img m (mk_iblock i)" "i mod 4 * 256"]
    by (simp_all add: dinode_def dinode_off_def add.assoc)
  then show "loaded m i (with_inode i st) 0"
    using assms by (simp add: loaded_def with_inode_def iset_def on_disk_def load_dinode_def bread_def bl has_image_def)
  show "has_image m (with_inode i st)" using assms by (simp add: with_inode_def iset_def has_image_def)
qed

text \<open>
  C32: The image \<open>mkfs\<close> makes is a file system.  The kernel accepts it and starts in a state with the invariant
  \<open>fs_ok\<close>; the blocks in use are those \<open>mkfs\<close> gave out, every inode it made has a block map that satisfies the
  kernel's invariant, and no block belongs to two inodes.
\<close>

theorem mkfs_image_sound:
  assumes "mkfs files = Some m" and "length files \<le> 198"
  shows "\<exists>st. fsinit (power_on (img m)) = Some st \<and> fs_ok st \<and> (\<forall>b < FSSIZE. used st b \<longleftrightarrow> b < freeblock m)
    \<and> (\<forall>i \<in> {1..<2 + length files}. inode_ok (with_inode i st) 0)
    \<and> (\<forall>i \<in> {1..<2 + length files}. \<forall>j \<in> {1..<2 + length files}. \<forall>b.
         owns (with_inode i st) 0 b \<longrightarrow> owns (with_inode j st) 0 b \<longrightarrow> i = j)"
proof -
  have n': "length files \<le> 202" using assms(2) by simp
  obtain st where st: "fsinit (power_on (img m)) = Some st" and "cache st = img m" "sb st = mk_sb"
    using fsinit_mkfs[OF assms(1) n'] .
  then have im: "has_image m st" by (simp add: has_image_def)
  note W = with_inode_loaded[OF im]
  have A: "inode_ok (with_inode i st) 0" if "i \<in> {1..<2 + length files}" for i
    by (rule loaded_ok(1)[OF assms W(2) that W(1)])
  have B: "i = j" if ij: "i \<in> {1..<2 + length files}" "j \<in> {1..<2 + length files}"
    and o: "owns (with_inode i st) 0 b" "owns (with_inode j st) 0 b" for i j b
  proof -
    obtain s where s: "s \<le> MAXFILE" "b \<noteq> 0" "slot (with_inode i st) 0 s = b" using o(1) by (auto simp: owns_def)
    obtain t where t: "t \<le> MAXFILE" "slot (with_inode j st) 0 t = b" using o(2) by (auto simp: owns_def)
    have "dslot (img m) (dinode m i) s = b" "dslot (img m) (dinode m j) t = b"
      using s(3) t(2) unfolding loaded_slot[OF W s(1)] loaded_slot[OF W t(1)] by simp_all
    then show ?thesis using image_okD(4)[OF mkfs_ok(1)[OF assms(1) n'] ij s(1) t(1)] s(2) by simp
  qed
  show ?thesis
  proof (intro exI[of _ st] conjI ballI allI impI)
    show "fsinit (power_on (img m)) = Some st" by (rule st)
    show "fs_ok st" by (rule boot_fs_ok[OF assms(1) n' im])
    show "used st b \<longleftrightarrow> b < freeblock m" if "b < FSSIZE" for b by (rule boot_used[OF assms(1) n' im that])
  qed (rule A B, assumption+)+
qed

theorem mkfs_image_sound_witness:
  "\<exists>m st. mkfs demo_files = Some m \<and> fsinit (power_on (img m)) = Some st \<and> fs_ok st \<and> inode_ok (with_inode 2 st) 0"
proof -
  obtain m where m: "mkfs demo_files = Some m" using demo_mkfs by blast
  then show ?thesis using mkfs_image_sound[OF m] demo_files_fit(1) by auto
qed

text \<open>
  C31: The files given to \<open>mkfs\<close> are the files the kernel finds.  Once it has started on the image, looking up the
  name of any of them in the root directory and reading what is found gives the bytes the file had on the host.  The
  names must differ in their first fourteen bytes, and the entries of the root must not fill its blocks
  exactly: then the size \<open>mkfs\<close> gives the root covers a block it does not have.
\<close>

theorem mkfs_files_readable:
  assumes mk: "mkfs files = Some m" and n: "length files \<le> 198" "(length files + 2) mod 64 \<noteq> 0"
    and names: "distinct (map fname files)" "\<forall>f \<in> set files. 0 \<notin> set (shortname (fst f)) \<and> fname f \<noteq> [46] \<and> fname f \<noteq> [46, 46]"
    and j: "j < length files"
  shows "\<exists>st root st1 st2 ip off st3 st4. fsinit (power_on (img m)) = Some st \<and> iget ROOTDEV ROOTINO st = Some (root, st1)
    \<and> ilock root st1 = Some st2 \<and> dirlookup root (view (fname (files ! j))) st2 = Some (Some (ip, off), st3) \<and> ilock ip st3 = Some st4
    \<and> itype (itab st4 ip) = T_FILE \<and> inode_ok st4 ip \<and> dense st4 ip
    \<and> readi ip kcopyout dst 0 (isize (itab st4 ip)) st4 mem
       = Some (int (length (concat (snd (files ! j)))), st4, blit mem dst (concat (snd (files ! j))))"
proof -
  have n': "length files \<le> 202" using n(1) by simp
  obtain st where st: "fsinit (power_on (img m)) = Some st" "cache st = img m" "sb st = mk_sb" "itab st = (\<lambda>_. blank_inode)"
    using fsinit_mkfs[OF mk n'] .
  obtain root st1 st2 where r: "iget ROOTDEV ROOTINO st = Some (root, st1)" "ilock root st1 = Some st2" "has_image m st2"
    "loaded m ROOTINO st2 root" "iref (itab st2 root) = 1" "idev (itab st2 root) = ROOTDEV" "\<And>jp. jp \<noteq> root \<Longrightarrow> itab st2 jp = itab st jp"
    by (rule open_inode[OF mk n', of st ROOTINO 0]) (simp_all add: st has_image_def blank_inode_def refers_def)
  have o: "itab st2 jp = blank_inode" if "jp \<noteq> root" for jp using r(7)[OF that] by (simp add: st(4))
  have rn: "inum (itab st2 root) = 1" using r(4) by (simp add: loaded_def)
  obtain ip st3 st4 where f: "iget ROOTDEV (2 + j) st2 = Some (ip, st3)" "ilock ip st3 = Some st4" "has_image m st4" "loaded m (2 + j) st4 ip"
  proof (rule open_inode[OF mk n' r(3), of "2 + j" "if root = 0 then 1 else 0"])
    show "itab st2 jp = blank_inode" if "iref (itab st2 jp) = 0" for jp using o[of jp] that r(5) by (cases "jp = root") simp_all
    show "\<not> refers st2 jp ROOTDEV (2 + j)" for jp
      using o[of jp] rn by (cases "jp = root") (auto simp: refers_def blank_inode_def)
  qed (use j o in \<open>auto simp: blank_inode_def\<close>)
  show ?thesis using st(1) r(1,2) f(2) dirlookup_root[OF mk n r(3,4,6) names j f(1)] read_loaded[OF mk n(1) f(3) j f(4)] by blast
qed

theorem mkfs_files_readable_witness:
  "\<exists>m st root st1 st2 ip off st3 st4. mkfs demo_files = Some m \<and> fsinit (power_on (img m)) = Some st
    \<and> iget ROOTDEV ROOTINO st = Some (root, st1) \<and> ilock root st1 = Some st2
    \<and> dirlookup root (view [97]) st2 = Some (Some (ip, off), st3) \<and> ilock ip st3 = Some st4
    \<and> readi ip kcopyout 0 0 (isize (itab st4 ip)) st4 (\<lambda>_. 0) = Some (2, st4, blit (\<lambda>_. 0) 0 [104, 105])"
proof -
  obtain m where m: "mkfs demo_files = Some m" using demo_mkfs by blast
  have f: "fname (demo_files ! 0) = [97]" "concat (snd (demo_files ! 0)) = [104, 105]"
    by (simp_all add: demo_files_def fname_def shortname_def)
  have "length demo_files \<le> 198" "(length demo_files + 2) mod 64 \<noteq> 0" "distinct (map fname demo_files)"
    "\<forall>f \<in> set demo_files. 0 \<notin> set (shortname (fst f)) \<and> fname f \<noteq> [46] \<and> fname f \<noteq> [46, 46]" "0 < length demo_files"
    by (simp_all add: demo_files_def fname_def shortname_def)
  from mkfs_files_readable[OF m this, of 0 "\<lambda>_. 0", unfolded f] m show ?thesis by auto
qed

end
