(* ===== verification/Spec2Isabelle.thy ===== *)
theory Spec2Isabelle imports FsDir FsLogUse Bio Locks SwProgress UserMem BuddyRun FileRefs FileWrite Sh Console VirtioRun MkfsBoot begin

text \<open>
  A model of xv6, the teaching kernel, with the theorems that make its parts correct.  The repository
  holds the kernel for fourteen machines, out of shared files under \<open>kernel/\<close> and one directory of
  \<open>forks/\<close> per machine.  This development follows the port to 64-bit ARM: the shared files it is built
  from, \<open>forks/arm64/kernel/\<close>, and the constants of \<open>kernel/conf/arm64/param.h\<close>.  Other ports have
  variants of the same functions.

  \<^bold>\<open>How the parts fit.\<close>  A trap enters \<open>usertrap\<close> (Syscall), which calls one of 21 system calls by the
  number in \<open>x7\<close>.  The process calls (Proc, ProcTab, Exec) change the process table and address spaces;
  the file calls (SysFile) go through descriptors and the table of open files (File) to pipes (Pipe),
  to devices such as the console (Console), or to inodes (FsInode, FsFile), which directories (FsDir) name.
  Inodes live on blocks that the block allocator (FsDisk) hands out; blocks are read through the buffer
  cache (Bio) and written through the redo log (Log).  Address spaces (Vm) are page tables in pages of
  the page allocator (Kalloc).  Processes wait for each other with \<open>sleep\<close> and \<open>wakeup\<close>, which use
  spinlocks (Locks).  On the user side there are the allocator of the C library (Umalloc), which asks
  for memory with \<open>sbrk\<close>, and the parser of the shell (Sh).

  \<^bold>\<open>State.\<close>  Each layer's record extends the one below, as its code adds variables: \<open>logst\<close>
  (\<open>struct log\<close>, disk, cached blocks), \<open>fsst\<close> (superblock, inode table), \<open>filest\<close> (file table, pipes,
  allocator memory), \<open>kst\<close> (process table).  C integers are words of their width, where an overflow can
  happen; loop counters and addresses of objects are \<open>nat\<close>.  Byte arrays are functions from addresses
  to bytes and structs on the disk are read and written at their offsets.  \<open>None\<close> of a step is a panic,
  or a wait nobody can end; an error return is a value.  The compile-time constants are in KParam, the
  lemmas that several parts share in KPrelude.

  \<^bold>\<open>The theories.\<close>
  \<^item> CString: \<open>kernel/lib/string.c\<close>; every routine, with its effect on memory.
  \<^item> Log: \<open>kernel/filesystems/log.c\<close>.  The state records every disk write in order, a crash keeps a prefix
    of them, and recovery may crash again: a commit is all or nothing.  \<open>begin_op\<close>'s admission keeps room
    in the log for every new block, provided it has one block more than \<open>LOGSIZE\<close>; writing a block again in a
    full log panics.  The image \<open>mkfs\<close> makes has one block too few, and then the admitted operations can
    panic the kernel on new blocks.  FsLogUse bounds what a write logs, and FileWrite applies that to the
    transactions of \<open>filewrite\<close>, whose bytes come from user memory that need not be mapped.
  \<^item> FsDisk, FsInode, FsFile, FsDir: \<open>kernel/filesystems/arm64/fs.c\<close>; blocks, inodes and their table, file
    contents, directories and paths.  \<open>fs_ok\<close> and \<open>inode_ok\<close> are the invariants; every operation is given
    by its effect on the bytes of the file (\<open>fdata\<close>) or the entries of the directory.
  \<^item> Mkfs, MkfsImage, MkfsRun, MkfsRoom, MkfsBoot: \<open>tools/mkfs.c\<close>, which builds the image the kernel starts on.  The
    image refines a map from inode numbers to the bytes of files; the run goes through whenever the files fit; and
    (MkfsBoot) the kernel finds on the image the invariants that the file system's theorems assume, and the files.
  \<^item> Bio: \<open>kernel/devices/storage/bio.c\<close> with its linked list; reading through it gives what the block's buffer has,
    or else the disk.
    BlockStore is that contract, a locale with an interpretation for Bio and one for the view the file
    system has.
  \<^item> Locks, ProcTab, SleepWakeup, SwProgress: \<open>forks/arm64/kernel/spinlock.c\<close>, \<open>kernel/concurrency/sleeplock.c\<close> and
    the scheduling half of \<open>forks/arm64/kernel/proc.c\<close>.  SleepWakeup is a step relation whose steps are the
    code between two lock operations, so all interleavings are covered: no wakeup is lost, and
    (SwProgress) what has been started comes to an end.  ProcTab's steps are critical sections, three of
    them for a \<open>fork\<close>; \<open>nextpid\<close> wraps at 32 bits, and process ids are shown distinct until it does.  Locks
    takes a spinlock apart into its exclusive loads and stores, with the CPUs' exclusive monitors.
  \<^item> Kalloc, Vm, VmMap, VmUser, VmCopy: \<open>kernel/memory/kalloc.c\<close> and \<open>forks/arm64/kernel/vm.c\<close>.  The free list and the
    page tables are in the memory they manage.  VmMap relates the four-level table in memory to a map from page
    numbers to entries, VmUser adds what the pages hold, VmCopy copies across page boundaries.
  \<^item> Proc, Exec, SysArgs, SysFile, Syscall: \<open>forks/arm64/kernel/{proc,exec,trap}.c\<close>, \<open>kernel/syscalls/arm64/syscall.c\<close>,
    \<open>kernel/files/sysfile.c\<close>, \<open>kernel/processes/sysproc.c\<close>.  Fork shows what a \<open>fork\<close> gives the child, memory
    included, and that it is the steps of ProcTab.  Frame shows which operations leave which part of the
    state alone, and FileRefs that descriptors, the file table and the process table agree after any trap.
  \<^item> File, RefCount, Pipe, Ring, Console: \<open>kernel/files/file.c\<close>, \<open>kernel/ipc/pipe.c\<close>, \<open>kernel/console/arm64/console.c\<close>.
    Ring has the ring buffers that the pipe, the console and the disk driver share.  Ring and RefCount hold the
    contracts (locales) the pipe and the file table are interpretations of.  The pipe's stream is stated over what the
    calls report: bytes \<open>pipewrite\<close> says it wrote, and bytes readers find in their memory or lose by a failed copy.
  \<^item> Virtio, VirtioRun: \<open>kernel/devices/storage/arm64/virtio_disk.c\<close>.  The device is a parameter that meets
    \<open>device_ok\<close>, what the virtio specification says: it takes requests from the ring and ends each with any status,
    and one that is not 0 says nothing about the bytes.  Steps are the code between two sleeps; who sleeps on what is
    part of the state.
  \<^item> Umalloc, UserMem: \<open>lib_core/libc/ulib/umalloc.c\<close>, as a program sees it over any sequence of \<open>malloc\<close>, \<open>free\<close> and
    writes to its own blocks; UserMem shows that the \<open>sbrk\<close> it relies on is what \<open>growproc\<close> does.
  \<^item> BuddyTiles, Buddy, BuddyRun: \<open>kernel/memory/arm/buddy.c\<close>, the allocator the 32-bit ARM ports have in place of
    \<open>kalloc.c\<close>.  BuddyTiles is the abstract allocator, a partition of the heap into aligned blocks; Buddy shows that the
    bitmaps and the lists of 16-bit links hold its free blocks, and BuddyRun adds initialisation and the use by callers.
  \<^item> Sh: the parser of \<open>shells/sh.c\<close>.

  \<^bold>\<open>Bounds and fuel.\<close>  The parser's functions call each other with fuel, one unit per call;
  \<open>4 * length + 4\<close> units suffice for a line of that length, which is proved, so the fuel is never
  used up.  Loops over pointers (\<open>free\<close>, \<open>malloc\<close>) are partial functions; that they return is part of
  their theorems.  In SwProgress a run without new activity has at most 83200 steps.  \<open>malloc\<close>
  is sound for requests of up to \<open>0x7FFFFFE0\<close> bytes; beyond that \<open>sbrk\<close> gets a negative number.

  \<^bold>\<open>Interference.\<close>  A system call that waits lets the others run: for the log this is the argument \<open>w\<close> or
  \<open>e_wait\<close>, any change of the state that keeps the hypotheses named in the theorem; for pipes and the
  console the call ends with \<open>Sleeps\<close> and a continuation.  Between those points the sequential model is
  the code under its locks.

  \<^bold>\<open>Not modelled.\<close>  The drivers of the UART, the interrupt controller and the timer: their
  effect is register traffic, and the models stop at the bytes sent.  Boot code, assembly and
  the switch between kernel stacks.  The TLB.  Running a parsed shell command, which is a sequence of the system
  calls above.  The kernel's and the library's \<open>printf\<close>.  The test programs.  The other ports.
\<close>

end
